(* ===== verification/Prelude.thy ===== *)
theory Prelude
  imports Main "HOL-Library.Word"
begin

unbundle bit_operations_syntax

text \<open>
  Shared vocabulary of the development: the machine types of an LP64 little-endian target
  (the arm64 iOS build of the application), little-endian byte strings, and the collections of
  rewrite rules the component theories add to.
  The byte order conversions \<open>le_val\<close> and \<open>le_bytes\<close> are the memory representation
  of an unsigned integer; the lemmas here say that they are inverse to each other.
\<close>

type_synonym byte = "8 word"
type_synonym u8 = "8 word"
type_synonym u16 = "16 word"
type_synonym u32 = "32 word"
type_synonym u64 = "64 word"

text \<open>Addresses are integers: pointer arithmetic that would wrap leaves every object.\<close>

type_synonym addr = int

named_theorems cm_eval \<open>evaluation of the combinators of the C monad\<close>
named_theorems wp_simps \<open>weakest preconditions of the combinators\<close>

section \<open>Little-endian byte strings\<close>

fun le_val :: "byte list \<Rightarrow> nat" where
  "le_val [] = 0"
| "le_val (b # bs) = unat b + 256 * le_val bs"

fun le_bytes :: "nat \<Rightarrow> nat \<Rightarrow> byte list" where
  "le_bytes 0 v = []"
| "le_bytes (Suc n) v = word_of_nat (v mod 256) # le_bytes n (v div 256)"

lemma length_le_bytes [simp]: "length (le_bytes n v) = n"
  by (induction n arbitrary: v) auto

lemma unat_lt_len: "unat (w :: 'a::len word) < 2 ^ LENGTH('a)"
  by (rule unsigned_less)

lemma unat_lt_256 [simp]: "unat (b :: byte) < 256"
  using unat_lt_len [of b] by simp

lemma unat_byte_of_nat: "unat (word_of_nat (v mod 256) :: byte) = v mod 256"
  by (simp add: unat_of_nat)

lemma le_val_le_bytes: "le_val (le_bytes n v) = v mod 256 ^ n"
proof (induction n arbitrary: v)
  case 0
  then show ?case by simp
next
  case (Suc n)
  have "le_val (le_bytes (Suc n) v) = v mod 256 + 256 * (v div 256 mod 256 ^ n)"
    by (simp only: le_bytes.simps le_val.simps unat_byte_of_nat Suc.IH)
  also have "\<dots> = v mod (256 * 256 ^ n)"
    by (simp add: mod_mult2_eq)
  finally show ?case by simp
qed

lemma le_val_bound: "le_val bs < 256 ^ length bs"
proof (induction bs)
  case Nil
  then show ?case by simp
next
  case (Cons b bs)
  have "unat b + 256 * le_val bs < 256 * Suc (le_val bs)"
    using unat_lt_256 [of b] by simp
  also have "\<dots> \<le> 256 * 256 ^ length bs"
    using Cons by (intro mult_left_mono) auto
  finally show ?case by simp
qed

lemma le_bytes_le_val: "le_bytes (length bs) (le_val bs) = bs"
proof (induction bs)
  case Nil
  then show ?case by simp
next
  case (Cons b bs)
  have "le_val (b # bs) mod 256 = unat b" and "le_val (b # bs) div 256 = le_val bs"
    using unat_lt_256 [of b] by simp_all
  with Cons show ?case by (simp del: le_val.simps)
qed

section \<open>Unsigned integers of a fixed number of bytes\<close>

lemma word_of_le_val_le_bytes:
  assumes "LENGTH('a::len) = 8 * n"
  shows "(word_of_nat (le_val (le_bytes n (unat (w :: 'a word)))) :: 'a word) = w"
proof -
  have "(256::nat) ^ n = 2 ^ LENGTH('a)"
    using assms by (simp add: power_mult)
  then have "le_val (le_bytes n (unat w)) = unat w"
    using unat_lt_len [of w] by (simp add: le_val_le_bytes)
  then show ?thesis by simp
qed

section \<open>Bits\<close>

lemma and_0x7F: "(v :: 'a::len word) AND 0x7F = take_bit 7 v"
  by (simp only: take_bit_eq_mask mask_eq_exp_minus_1) simp

lemma unat_take7: "unat ((v :: 'a::len word) AND 0x7F) = unat v mod 128"
  unfolding and_0x7F by (simp add: unsigned_take_bit_eq take_bit_eq_mod [of _ "unat v"])

lemma mask_8_255: "(0xff :: 'a::len word) = mask 8"
  by (simp add: mask_eq_exp_minus_1)

lemma bit_255: "bit (0xff :: 'a::len word) n \<longleftrightarrow> n < 8 \<and> n < LENGTH('a)"
  unfolding mask_8_255 bit_mask_iff by auto

lemma unat_and_ff: "unat ((v :: 'a::len word) AND 0xff) = unat v mod 256"
  unfolding mask_8_255 take_bit_eq_mask [symmetric] unsigned_take_bit_eq by (simp add: take_bit_eq_mod)

lemma unat_ucast_up: "LENGTH('a) \<le> LENGTH('b) \<Longrightarrow> unat (ucast (w :: 'a::len word) :: 'b::len word) = unat w"
  by (simp add: unsigned_ucast_eq take_bit_nat_eq_self_iff) (meson less_le_trans one_le_numeral power_increasing unat_lt_len)

lemma eq_word_of_nat: "unat w = n \<Longrightarrow> w = word_of_nat n"
  by auto

lemma ucast_word_of_nat: "unat (w :: 'a::len word) = n \<Longrightarrow> (ucast w :: 'b::len word) = word_of_nat n"
  by (metis of_nat_unat)

lemma le_bytes_Suc_word:
  "le_bytes (Suc n) (unat (v :: 'a::len word)) = ucast (v AND 0xFF) # le_bytes n (unat (drop_bit 8 v))"
proof -
  have "v AND 0xFF = take_bit 8 v"
    by (simp only: take_bit_eq_mask mask_eq_exp_minus_1) simp
  then have "unat (v AND 0xFF) = unat v mod 256"
    by (simp add: unsigned_take_bit_eq take_bit_eq_mod [of _ "unat v"])
  moreover have "unat (drop_bit 8 v) = unat v div 256"
    unfolding unat_drop_bit_eq by (simp add: drop_bit_eq_div)
  ultimately show ?thesis
    by (simp add: ucast_word_of_nat)
qed

lemma le_bytes_4: "le_bytes 4 x = le_bytes (Suc (Suc (Suc (Suc 0)))) x"
  by (rule arg_cong [where f = "\<lambda>n. le_bytes n x"]) simp

lemma le_bytes_8: "le_bytes 8 x = le_bytes (Suc (Suc (Suc (Suc (Suc (Suc (Suc (Suc 0)))))))) x"
  by (rule arg_cong [where f = "\<lambda>n. le_bytes n x"]) simp

end
