(* ===== verification/C_Memory.thy ===== *)
theory C_Memory
  imports Prelude
begin

text \<open>
  The byte-addressed memory of the C program. A memory is a partial map from addresses to bytes;
  an address outside its domain belongs to no object, and an access there is undefined behaviour,
  which the operations report as \<open>None\<close>. The lemmas say when a block access is defined
  (\<open>mvalid\<close>), what it returns, and what a store leaves unchanged (\<open>magree\<close>).
\<close>

datatype mem = Mem (mget: "addr \<rightharpoonup> byte")

definition mput :: "mem \<Rightarrow> addr \<Rightarrow> byte \<Rightarrow> mem" where
  "mput m a b = Mem ((mget m)(a \<mapsto> b))"

definition mdom :: "mem \<Rightarrow> addr set" where
  "mdom m = dom (mget m)"

lemma mget_mput: "mget (mput m a b) x = (if x = a then Some b else mget m x)"
  by (simp add: mput_def)

lemma mdom_mput [simp]: "a \<in> mdom m \<Longrightarrow> mdom (mput m a b) = mdom m"
  by (auto simp: mdom_def mput_def)

lemma in_mdom: "a \<in> mdom m \<longleftrightarrow> (\<exists>b. mget m a = Some b)"
  by (auto simp: mdom_def)

lemma mem_eqI: "(\<And>x. mget m x = mget m' x) \<Longrightarrow> m = m'"
  by (cases m; cases m') auto

section \<open>Block access\<close>

fun mload :: "mem \<Rightarrow> addr \<Rightarrow> nat \<Rightarrow> byte list option" where
  "mload m a 0 = Some []"
| "mload m a (Suc n) =
     (case mget m a of None \<Rightarrow> None
      | Some b \<Rightarrow> (case mload m (a + 1) n of None \<Rightarrow> None | Some bs \<Rightarrow> Some (b # bs)))"

fun mstore :: "mem \<Rightarrow> addr \<Rightarrow> byte list \<Rightarrow> mem option" where
  "mstore m a [] = Some m"
| "mstore m a (b # bs) =
     (case mget m a of None \<Rightarrow> None | Some _ \<Rightarrow> mstore (mput m a b) (a + 1) bs)"

text \<open>The byte loop \<open>for (i = 0; i < n; i++) dst[i] = src[i]\<close>, in ascending order.\<close>

fun mcopy :: "mem \<Rightarrow> addr \<Rightarrow> addr \<Rightarrow> nat \<Rightarrow> mem option" where
  "mcopy m d s 0 = Some m"
| "mcopy m d s (Suc n) =
     (case mget m s of None \<Rightarrow> None
      | Some b \<Rightarrow> (case mget m d of None \<Rightarrow> None
                 | Some _ \<Rightarrow> mcopy (mput m d b) (d + 1) (s + 1) n))"

section \<open>Ranges\<close>

definition arange :: "addr \<Rightarrow> nat \<Rightarrow> addr set" where
  "arange a n = {a ..< a + int n}"

definition mvalid :: "mem \<Rightarrow> addr \<Rightarrow> nat \<Rightarrow> bool" where
  "mvalid m a n \<longleftrightarrow> arange a n \<subseteq> mdom m"

definition magree :: "addr set \<Rightarrow> mem \<Rightarrow> mem \<Rightarrow> bool" where
  "magree A m m' \<longleftrightarrow> (\<forall>a \<in> A. mget m a = mget m' a)"

lemma arange_0 [simp]: "arange a 0 = {}"
  by (simp add: arange_def)

lemma arange_Suc: "arange a (Suc n) = insert a (arange (a + 1) n)"
  by (auto simp: arange_def)

lemma in_arange: "x \<in> arange a n \<longleftrightarrow> a \<le> x \<and> x < a + int n"
  by (auto simp: arange_def)

lemma arange_subset: "b \<ge> a \<Longrightarrow> b + int k \<le> a + int n \<Longrightarrow> arange b k \<subseteq> arange a n"
  by (auto simp: arange_def)

lemma arange_add: "arange a (n + k) = arange a n \<union> arange (a + int n) k"
  by (auto simp: arange_def)

lemma mvalid_0 [simp]: "mvalid m a 0"
  by (simp add: mvalid_def)

lemma mvalid_Suc: "mvalid m a (Suc n) \<longleftrightarrow> a \<in> mdom m \<and> mvalid m (a + 1) n"
  by (simp add: mvalid_def arange_Suc)

lemma mvalid_dom: "mdom m' = mdom m \<Longrightarrow> mvalid m' a n = mvalid m a n"
  by (simp add: mvalid_def)

lemma mvalid_subrange: "mvalid m a n \<Longrightarrow> a \<le> b \<Longrightarrow> b + int k \<le> a + int n \<Longrightarrow> mvalid m b k"
  using arange_subset [of a b k n] by (auto simp: mvalid_def)

lemma mvalid_add: "mvalid m a (n + k) \<longleftrightarrow> mvalid m a n \<and> mvalid m (a + int n) k"
  by (simp add: mvalid_def arange_add)

lemma magree_refl [simp, intro]: "magree A m m"
  by (simp add: magree_def)

lemma magree_sym: "magree A m m' \<Longrightarrow> magree A m' m"
  by (simp add: magree_def)

lemma magree_trans [trans]: "magree A m m' \<Longrightarrow> magree A m' m'' \<Longrightarrow> magree A m m''"
  by (simp add: magree_def)

lemma magree_mono: "magree A m m' \<Longrightarrow> B \<subseteq> A \<Longrightarrow> magree B m m'"
  by (auto simp: magree_def)

section \<open>Loads\<close>

lemma mload_valid: "mvalid m a n \<Longrightarrow> \<exists>bs. mload m a n = Some bs"
proof (induction n arbitrary: a)
  case 0
  then show ?case by simp
next
  case (Suc n)
  then obtain bs where "mload m (a + 1) n = Some bs"
    by (fastforce simp: mvalid_Suc)
  with Suc.prems show ?case by (auto simp: mvalid_Suc in_mdom)
qed

lemma mload_imp_valid: "mload m a n = Some bs \<Longrightarrow> mvalid m a n"
  by (induction n arbitrary: a bs) (auto simp: mvalid_Suc in_mdom split: option.splits)

lemma mload_length: "mload m a n = Some bs \<Longrightarrow> length bs = n"
  by (induction n arbitrary: a bs) (auto split: option.splits)

lemma mload_nth: "mload m a n = Some bs \<Longrightarrow> i < n \<Longrightarrow> mget m (a + int i) = Some (bs ! i)"
proof (induction n arbitrary: a bs i)
  case 0
  then show ?case by simp
next
  case (Suc n)
  then obtain b bs' where b: "mget m a = Some b" "mload m (a + 1) n = Some bs'" "bs = b # bs'"
    by (auto split: option.splits)
  show ?case
  proof (cases i)
    case 0
    with b show ?thesis by simp
  next
    case (Suc j)
    with Suc.IH [OF b(2), of j] Suc.prems(2) have "mget m (a + 1 + int j) = Some (bs' ! j)" by simp
    with Suc b(3) show ?thesis by (simp add: add.commute add.left_commute)
  qed
qed

lemma mload_add:
  "mload m a (n + k) =
     (case mload m a n of None \<Rightarrow> None
      | Some bs \<Rightarrow> (case mload m (a + int n) k of None \<Rightarrow> None | Some cs \<Rightarrow> Some (bs @ cs)))"
proof (induction n arbitrary: a)
  case 0
  then show ?case by (simp split: option.splits)
next
  case (Suc n)
  then show ?case by (simp add: add.commute add.left_commute split: option.splits)
qed

lemma mload_cong: "magree (arange a n) m m' \<Longrightarrow> mload m a n = mload m' a n"
proof (induction n arbitrary: a)
  case 0
  then show ?case by simp
next
  case (Suc n)
  then have "mget m a = mget m' a" and "magree (arange (a + 1) n) m m'"
    by (auto simp: magree_def arange_Suc)
  with Suc.IH [of "a + 1"] show ?case by (simp cong: option.case_cong)
qed

section \<open>Stores\<close>

lemma mstore_valid: "mvalid m a (length bs) \<Longrightarrow> \<exists>m'. mstore m a bs = Some m'"
proof (induction bs arbitrary: m a)
  case Nil
  then show ?case by simp
next
  case (Cons b bs)
  then have a: "a \<in> mdom m" and "mvalid m (a + 1) (length bs)"
    by (simp_all add: mvalid_Suc)
  with Cons.IH [of "mput m a b" "a + 1"] show ?case
    by (auto simp: mvalid_dom [OF mdom_mput [OF a]] in_mdom)
qed

lemma mstore_frame: "mstore m a bs = Some m' \<Longrightarrow> x \<notin> arange a (length bs) \<Longrightarrow> mget m' x = mget m x"
  by (induction bs arbitrary: m a)
    (auto simp: arange_Suc mget_mput split: option.splits)

lemma mstore_dom: "mstore m a bs = Some m' \<Longrightarrow> mdom m' = mdom m"
  by (induction bs arbitrary: m a) (auto simp: in_mdom split: option.splits)

lemma mload_mstore: "mstore m a bs = Some m' \<Longrightarrow> mload m' a (length bs) = Some bs"
proof (induction bs arbitrary: m a)
  case Nil
  then show ?case by simp
next
  case (Cons b bs)
  then have st: "mstore (mput m a b) (a + 1) bs = Some m'"
    by (auto split: option.splits)
  have "mget m' a = Some b"
    using mstore_frame [OF st, of a] by (simp add: in_arange mget_mput)
  with Cons.IH [OF st] show ?case by simp
qed

lemma mstore_in: "mstore m a bs = Some m' \<Longrightarrow> i < length bs \<Longrightarrow> mget m' (a + int i) = Some (bs ! i)"
  by (rule mload_nth [OF mload_mstore])

lemma mload_mstore_disj:
  "mstore m a bs = Some m' \<Longrightarrow> arange a (length bs) \<inter> arange b n = {} \<Longrightarrow> mload m' b n = mload m b n"
  by (rule mload_cong) (auto simp: magree_def dest: mstore_frame)

lemma mstore_magree: "mstore m a bs = Some m' \<Longrightarrow> arange a (length bs) \<inter> A = {} \<Longrightarrow> magree A m m'"
  by (fastforce simp: magree_def dest: mstore_frame)

lemma mstore_append:
  "mstore m a (bs @ cs) =
     (case mstore m a bs of None \<Rightarrow> None | Some m' \<Rightarrow> mstore m' (a + int (length bs)) cs)"
proof (induction bs arbitrary: m a)
  case Nil
  then show ?case by simp
next
  case (Cons b bs)
  then show ?case by (simp add: add.assoc split: option.splits)
qed

section \<open>Copies\<close>

text \<open>A forward copy between disjoint ranges is a load followed by a store.\<close>

lemma mcopy_disjoint:
  "arange d n \<inter> arange s n = {} \<Longrightarrow> mload m s n = Some bs \<Longrightarrow> mcopy m d s n = mstore m d bs"
proof (induction n arbitrary: m d s bs)
  case 0
  then show ?case by simp
next
  case (Suc n)
  then obtain b bs' where b: "mget m s = Some b" "mload m (s + 1) n = Some bs'" "bs = b # bs'"
    by (auto split: option.splits)
  have disj: "arange (d + 1) n \<inter> arange (s + 1) n = {}" and nd: "d \<notin> arange (s + 1) n"
    using Suc.prems(1) by (auto simp: arange_Suc)
  have "mload (mput m d b) (s + 1) n = mload m (s + 1) n"
    using nd by (intro mload_cong) (auto simp: magree_def mget_mput)
  with b(2) have "mcopy (mput m d b) (d + 1) (s + 1) n = mstore (mput m d b) (d + 1) bs'"
    by (intro Suc.IH disj) simp
  with b show ?case by (simp split: option.splits)
qed

lemma mcopy_valid:
  "mvalid m d n \<Longrightarrow> mvalid m s n \<Longrightarrow>
     \<exists>m'. mcopy m d s n = Some m' \<and> mdom m' = mdom m \<and>
       (\<forall>x. x \<notin> arange d n \<longrightarrow> mget m' x = mget m x)"
proof (induction n arbitrary: m d s)
  case 0
  then show ?case by simp
next
  case (Suc n)
  from Suc.prems have d: "d \<in> mdom m" and s: "s \<in> mdom m"
    and v: "mvalid m (d + 1) n" "mvalid m (s + 1) n"
    by (auto simp: mvalid_Suc)
  from s obtain b where b: "mget m s = Some b" by (auto simp: in_mdom)
  note dm = mdom_mput [OF d, of b]
  from v Suc.IH [of "mput m d b" "d + 1" "s + 1"] obtain m' where
    "mcopy (mput m d b) (d + 1) (s + 1) n = Some m'" "mdom m' = mdom (mput m d b)"
    "\<forall>x. x \<notin> arange (d + 1) n \<longrightarrow> mget m' x = mget (mput m d b) x"
    by (auto simp: mvalid_dom [OF dm])
  with b d dm show ?case by (auto simp: arange_Suc mget_mput in_mdom)
qed

end
