(* ===== verification/C_Monad.thy ===== *)
theory C_Monad
  imports C_Memory
begin

text \<open>
  The computation type of the model. A C function that returns \<open>bool\<close>, takes a pointer to a
  stream structure and may access memory is a function from the stream and the memory to an
  optional result: \<open>None\<close> is undefined behaviour (or a loop that does not end), \<open>Some\<close> carries
  the outcome together with the stream and the memory afterwards. The outcome \<open>Ok x\<close> is the
  return value \<open>true\<close> with the output \<open>x\<close>, \<open>Fail\<close> is \<open>false\<close>.
  The combinators are the idioms of the code: \<open>cbind\<close> is \<open>if (!f(...)) return false;\<close>,
  \<open>ctry\<close> stores the returned \<open>bool\<close> in a variable, \<open>on_stream\<close> calls a function on another
  stream variable. \<open>wp\<close> is the weakest precondition for total correctness: the computation
  has no undefined behaviour, ends, and its result satisfies the postcondition.
\<close>

datatype 'a res = Ok 'a | Fail

type_synonym ('s, 'a) cm = "'s \<Rightarrow> mem \<Rightarrow> ('a res \<times> 's \<times> mem) option"

section \<open>Combinators\<close>

definition cret :: "'a \<Rightarrow> ('s, 'a) cm" where
  "cret x = (\<lambda>s m. Some (Ok x, s, m))"

definition cfail :: "('s, 'a) cm" where
  "cfail = (\<lambda>s m. Some (Fail, s, m))"

definition cub :: "('s, 'a) cm" where
  "cub = (\<lambda>s m. None)"

definition cbind :: "('s, 'a) cm \<Rightarrow> ('a \<Rightarrow> ('s, 'b) cm) \<Rightarrow> ('s, 'b) cm" where
  "cbind f g = (\<lambda>s m. case f s m of
       None \<Rightarrow> None
     | Some (Fail, s', m') \<Rightarrow> Some (Fail, s', m')
     | Some (Ok x, s', m') \<Rightarrow> g x s' m')"

definition ctry :: "('s, 'a) cm \<Rightarrow> ('s, 'a res) cm" where
  "ctry f = (\<lambda>s m. case f s m of None \<Rightarrow> None | Some (r, s', m') \<Rightarrow> Some (Ok r, s', m'))"

definition of_res :: "'a res \<Rightarrow> ('s, 'a) cm" where
  "of_res r = (\<lambda>s m. Some (r, s, m))"

definition cget :: "('s, 's) cm" where
  "cget = (\<lambda>s m. Some (Ok s, s, m))"

definition cput :: "'s \<Rightarrow> ('s, unit) cm" where
  "cput t = (\<lambda>s m. Some (Ok (), t, m))"

definition on_stream :: "'t \<Rightarrow> ('t, 'a) cm \<Rightarrow> ('s, 'a res \<times> 't) cm" where
  "on_stream t f = (\<lambda>s m. case f t m of None \<Rightarrow> None | Some (r, t', m') \<Rightarrow> Some (Ok (r, t'), s, m'))"

text \<open>An operation whose definedness is decided by an option.\<close>

definition cdef :: "'a option \<Rightarrow> ('s, 'a) cm" where
  "cdef x = (case x of None \<Rightarrow> cub | Some y \<Rightarrow> cret y)"

text \<open>An operation that reads memory.\<close>

definition creads :: "(mem \<Rightarrow> 'a option) \<Rightarrow> ('s, 'a) cm" where
  "creads f = (\<lambda>s m. case f m of None \<Rightarrow> None | Some x \<Rightarrow> Some (Ok x, s, m))"

definition cload :: "addr \<Rightarrow> nat \<Rightarrow> ('s, byte list) cm" where
  "cload a n = (\<lambda>s m. case mload m a n of None \<Rightarrow> None | Some bs \<Rightarrow> Some (Ok bs, s, m))"

definition cstore :: "addr \<Rightarrow> byte list \<Rightarrow> ('s, unit) cm" where
  "cstore a bs = (\<lambda>s m. case mstore m a bs of None \<Rightarrow> None | Some m' \<Rightarrow> Some (Ok (), s, m'))"

definition ccopy :: "addr \<Rightarrow> addr \<Rightarrow> nat \<Rightarrow> ('s, unit) cm" where
  "ccopy d a n = (\<lambda>s m. case mcopy m d a n of None \<Rightarrow> None | Some m' \<Rightarrow> Some (Ok (), s, m'))"

text \<open>Typed access: unsigned integers, pointers and \<open>bool\<close>.\<close>

definition load_nat :: "addr \<Rightarrow> nat \<Rightarrow> ('s, nat) cm" where
  "load_nat a n = cbind (cload a n) (\<lambda>bs. cret (le_val bs))"

definition load_u32 :: "addr \<Rightarrow> ('s, u32) cm" where
  "load_u32 a = cbind (load_nat a 4) (\<lambda>v. cret (word_of_nat v))"

definition load_ptr :: "addr \<Rightarrow> ('s, addr) cm" where
  "load_ptr a = cbind (load_nat a 8) (\<lambda>v. cret (int v))"

definition load_bool :: "addr \<Rightarrow> ('s, bool) cm" where
  "load_bool a = cbind (load_nat a 1) (\<lambda>v. cret (v \<noteq> 0))"

definition store_nat :: "addr \<Rightarrow> nat \<Rightarrow> nat \<Rightarrow> ('s, unit) cm" where
  "store_nat a n v = cstore a (le_bytes n v)"

definition store_u32 :: "addr \<Rightarrow> u32 \<Rightarrow> ('s, unit) cm" where
  "store_u32 a v = store_nat a 4 (unat v)"

definition store_bool :: "addr \<Rightarrow> bool \<Rightarrow> ('s, unit) cm" where
  "store_bool a b = store_nat a 1 (if b then 1 else 0)"

lemmas cm_defs [cm_eval] = cret_def cfail_def cub_def ctry_def of_res_def cget_def cput_def
  on_stream_def creads_def cload_def cstore_def ccopy_def cdef_def load_nat_def load_u32_def load_ptr_def
  load_bool_def store_nat_def store_u32_def store_bool_def cbind_def

section \<open>Monotonicity, for loops defined by \<open>partial_function\<close>\<close>

lemma cbind_mono [partial_function_mono]:
  fixes B :: "('x \<Rightarrow> 'y option) \<Rightarrow> ('s, 'a) cm"
    and C :: "('x \<Rightarrow> 'y option) \<Rightarrow> 'a \<Rightarrow> ('s, 'b) cm"
  assumes f: "\<And>s m. mono_option (\<lambda>r. B r s m)"
    and g: "\<And>x s m. mono_option (\<lambda>r. C r x s m)"
  shows "mono_option (\<lambda>r. cbind (B r) (C r) s m)"
proof (rule monotoneI)
  fix x y :: "'x \<Rightarrow> 'y option"
  assume xy: "fun_ord option_ord x y"
  have B: "option_ord (B x s m) (B y s m)"
    using f xy by (auto simp: monotone_def)
  have C: "\<And>v s m. option_ord (C x v s m) (C y v s m)"
    using g xy by (auto simp: monotone_def)
  show "option_ord (cbind (B x) (C x) s m) (cbind (B y) (C y) s m)"
  proof (cases "B x s m")
    case None
    then show ?thesis by (simp add: cbind_def flat_ord_def)
  next
    case (Some t)
    with B have y: "B y s m = Some t" by (auto simp: flat_ord_def)
    obtain r s' m' where t: "t = (r, s', m')" by (cases t) auto
    show ?thesis
    proof (cases r)
      case (Ok v)
      with Some y t C [of v s' m'] show ?thesis by (simp add: cbind_def)
    next
      case Fail
      with Some y t show ?thesis by (simp add: cbind_def flat_ord_def)
    qed
  qed
qed

section \<open>Weakest preconditions\<close>

definition wp :: "('s, 'a) cm \<Rightarrow> ('a res \<Rightarrow> 's \<Rightarrow> mem \<Rightarrow> bool) \<Rightarrow> 's \<Rightarrow> mem \<Rightarrow> bool" where
  "wp f Q s m \<longleftrightarrow> (case f s m of None \<Rightarrow> False | Some (r, s', m') \<Rightarrow> Q r s' m')"

text \<open>The postcondition of a first step, and of \<open>ctry\<close>.\<close>

fun wp_then :: "('a \<Rightarrow> 's \<Rightarrow> mem \<Rightarrow> bool) \<Rightarrow> ('s \<Rightarrow> mem \<Rightarrow> bool) \<Rightarrow> 'a res \<Rightarrow> 's \<Rightarrow> mem \<Rightarrow> bool" where
  "wp_then P F (Ok x) s m = P x s m"
| "wp_then P F Fail s m = F s m"

lemma wp_iff: "wp f Q s m \<longleftrightarrow> (\<exists>r s' m'. f s m = Some (r, s', m') \<and> Q r s' m')"
  by (auto simp: wp_def split: option.splits)

lemma wp_intro: "f s m = Some (r, s', m') \<Longrightarrow> Q r s' m' \<Longrightarrow> wp f Q s m"
  by (auto simp: wp_iff)

lemma wp_mono: "wp f Q s m \<Longrightarrow> (\<And>r s' m'. Q r s' m' \<Longrightarrow> Q' r s' m') \<Longrightarrow> wp f Q' s m"
  by (auto simp: wp_iff)

lemma wp_conj: "wp f Q s m \<Longrightarrow> wp f Q' s m \<Longrightarrow> wp f (\<lambda>r s' m'. Q r s' m' \<and> Q' r s' m') s m"
  by (auto simp: wp_iff)

lemma wp_result: "wp f Q s m \<Longrightarrow> f s m = Some (r, s', m') \<Longrightarrow> Q r s' m'"
  by (auto simp: wp_iff)

lemma wp_cret [wp_simps]: "wp (cret x) Q s m = Q (Ok x) s m"
  by (simp add: wp_def cret_def)

lemma wp_cfail [wp_simps]: "wp cfail Q s m = Q Fail s m"
  by (simp add: wp_def cfail_def)

lemma wp_cub [wp_simps]: "wp cub Q s m = False"
  by (simp add: wp_def cub_def)

lemma wp_cbind [wp_simps]:
  "wp (cbind f g) Q s m = wp f (wp_then (\<lambda>x. wp (g x) Q) (Q Fail)) s m"
  by (auto simp: wp_def cbind_def split: option.splits prod.splits res.splits)

lemma wp_ctry [wp_simps]: "wp (ctry f) Q s m = wp f (\<lambda>r. Q (Ok r)) s m"
  by (auto simp: wp_def ctry_def split: option.splits)

lemma wp_of_res [wp_simps]: "wp (of_res r) Q s m = Q r s m"
  by (simp add: wp_def of_res_def)

lemma wp_cget [wp_simps]: "wp cget Q s m = Q (Ok s) s m"
  by (simp add: wp_def cget_def)

lemma wp_cput [wp_simps]: "wp (cput t) Q s m = Q (Ok ()) t m"
  by (simp add: wp_def cput_def)

lemma wp_on_stream [wp_simps]:
  "wp (on_stream t f) Q s m = wp f (\<lambda>r t' m'. Q (Ok (r, t')) s m') t m"
  by (auto simp: wp_def on_stream_def split: option.splits)

lemma wp_if [wp_simps]: "wp (if b then f else g) Q s m = (if b then wp f Q s m else wp g Q s m)"
  by simp

lemma wp_creads: "f m = Some x \<Longrightarrow> Q (Ok x) s m \<Longrightarrow> wp (creads f) Q s m"
  by (simp add: wp_def creads_def)

lemma wp_cdef: "x = Some y \<Longrightarrow> Q (Ok y) s m \<Longrightarrow> wp (cdef x) Q s m"
  by (simp add: wp_def cdef_def cret_def)

lemma wp_cload: "mvalid m a n \<Longrightarrow> (\<And>bs. mload m a n = Some bs \<Longrightarrow> length bs = n \<Longrightarrow> Q (Ok bs) s m) \<Longrightarrow>
    wp (cload a n) Q s m"
  using mload_valid [of m a n] mload_length [of m a n] by (auto simp: wp_def cload_def)

lemma wp_cstore: "mvalid m a (length bs) \<Longrightarrow>
    (\<And>m'. mstore m a bs = Some m' \<Longrightarrow> Q (Ok ()) s m') \<Longrightarrow> wp (cstore a bs) Q s m"
  using mstore_valid [of m a bs] by (auto simp: wp_def cstore_def)

lemma wp_load_nat: "mvalid m a n \<Longrightarrow> (\<And>v. v < 256 ^ n \<Longrightarrow> Q (Ok v) s m) \<Longrightarrow> wp (load_nat a n) Q s m"
  unfolding load_nat_def wp_simps
  by (rule wp_cload) (auto simp: wp_simps dest!: mload_length intro: le_val_bound)

lemma wp_load_u32: "mvalid m a 4 \<Longrightarrow> (\<And>v. Q (Ok v) s m) \<Longrightarrow> wp (load_u32 a) Q s m"
  unfolding load_u32_def wp_simps by (rule wp_load_nat) (auto simp: wp_simps)

lemma wp_load_ptr: "mvalid m a 8 \<Longrightarrow> (\<And>v. 0 \<le> v \<Longrightarrow> Q (Ok v) s m) \<Longrightarrow> wp (load_ptr a) Q s m"
  unfolding load_ptr_def wp_simps by (rule wp_load_nat) (auto simp: wp_simps)

lemma wp_load_bool: "mvalid m a 1 \<Longrightarrow> (\<And>v. Q (Ok v) s m) \<Longrightarrow> wp (load_bool a) Q s m"
  unfolding load_bool_def wp_simps by (rule wp_load_nat) (auto simp: wp_simps)

lemma wp_store_nat: "mvalid m a n \<Longrightarrow>
    (\<And>m'. mstore m a (le_bytes n v) = Some m' \<Longrightarrow> Q (Ok ()) s m') \<Longrightarrow> wp (store_nat a n v) Q s m"
  unfolding store_nat_def by (rule wp_cstore) auto

lemma wp_ccopy: "mvalid m d n \<Longrightarrow> mvalid m a n \<Longrightarrow>
    (\<And>m'. mdom m' = mdom m \<Longrightarrow> (\<forall>x. x \<notin> arange d n \<longrightarrow> mget m' x = mget m x) \<Longrightarrow> Q (Ok ()) s m') \<Longrightarrow>
    wp (ccopy d a n) Q s m"
  using mcopy_valid [of m d n a] by (auto simp: wp_def ccopy_def)

section \<open>Equations of the combinators\<close>

lemma cbind_Ok: "f s m = Some (Ok x, s', m') \<Longrightarrow> cbind f g s m = g x s' m'"
  by (simp add: cbind_def)

lemma cbind_Fail: "f s m = Some (Fail, s', m') \<Longrightarrow> cbind f g s m = Some (Fail, s', m')"
  by (simp add: cbind_def)

lemma cbind_None: "f s m = None \<Longrightarrow> cbind f g s m = None"
  by (simp add: cbind_def)

lemma cbind_cret [simp]: "cbind (cret x) g = g x"
  by (simp add: cbind_def cret_def)

lemma cbind_cfail [simp]: "cbind cfail g = cfail"
  by (simp add: cbind_def cfail_def)

lemma cbind_assoc: "cbind (cbind f g) h = cbind f (\<lambda>x. cbind (g x) h)"
  by (intro ext) (auto simp: cbind_def split: option.splits prod.splits res.splits)

end
