(* ===== verification/Pb_Types.thy ===== *)
theory Pb_Types
  imports C_Monad
begin

text \<open>
  The data of nanopb (\<open>pb.h\<close>, \<open>pb_encode.h\<close>, \<open>pb_decode.h\<close>) under the configuration of
  the build (\<open>PB_FIELD_32BIT\<close>, \<open>PB_NO_PACKED_STRUCTS\<close>, no \<open>PB_ENABLE_MALLOC\<close>): field
  types, field descriptors and the macros that fill them in, the stream structures and the error
  macros. The environment \<open>pb_env\<close> holds what the program supplies from outside nanopb: the
  constant descriptor tables, the extension types, the functions that the function pointers of
  streams, callback fields and extension types stand for, and the place where the compiler puts
  the one local buffer whose address escapes (\<open>stack_slot\<close>).
\<close>

section \<open>Field types\<close>

definition PB_LTYPE_VARINT :: u8 where [simp]: "PB_LTYPE_VARINT = 0x00"
definition PB_LTYPE_UVARINT :: u8 where [simp]: "PB_LTYPE_UVARINT = 0x01"
definition PB_LTYPE_SVARINT :: u8 where [simp]: "PB_LTYPE_SVARINT = 0x02"
definition PB_LTYPE_FIXED32 :: u8 where [simp]: "PB_LTYPE_FIXED32 = 0x03"
definition PB_LTYPE_FIXED64 :: u8 where [simp]: "PB_LTYPE_FIXED64 = 0x04"
definition PB_LTYPE_LAST_PACKABLE :: u8 where [simp]: "PB_LTYPE_LAST_PACKABLE = 0x04"
definition PB_LTYPE_BYTES :: u8 where [simp]: "PB_LTYPE_BYTES = 0x05"
definition PB_LTYPE_STRING :: u8 where [simp]: "PB_LTYPE_STRING = 0x06"
definition PB_LTYPE_SUBMESSAGE :: u8 where [simp]: "PB_LTYPE_SUBMESSAGE = 0x07"
definition PB_LTYPE_EXTENSION :: u8 where [simp]: "PB_LTYPE_EXTENSION = 0x08"
definition PB_LTYPE_FIXED_LENGTH_BYTES :: u8 where [simp]: "PB_LTYPE_FIXED_LENGTH_BYTES = 0x09"

definition PB_HTYPE_REQUIRED :: u8 where [simp]: "PB_HTYPE_REQUIRED = 0x00"
definition PB_HTYPE_OPTIONAL :: u8 where [simp]: "PB_HTYPE_OPTIONAL = 0x10"
definition PB_HTYPE_REPEATED :: u8 where [simp]: "PB_HTYPE_REPEATED = 0x20"
definition PB_HTYPE_ONEOF :: u8 where [simp]: "PB_HTYPE_ONEOF = 0x30"

definition PB_ATYPE_STATIC :: u8 where [simp]: "PB_ATYPE_STATIC = 0x00"
definition PB_ATYPE_POINTER :: u8 where [simp]: "PB_ATYPE_POINTER = 0x80"
definition PB_ATYPE_CALLBACK :: u8 where [simp]: "PB_ATYPE_CALLBACK = 0x40"

definition PB_LTYPE :: "u8 \<Rightarrow> u8" where "PB_LTYPE x = x AND 0x0F"
definition PB_HTYPE :: "u8 \<Rightarrow> u8" where "PB_HTYPE x = x AND 0x30"
definition PB_ATYPE :: "u8 \<Rightarrow> u8" where "PB_ATYPE x = x AND 0xC0"

definition PB_SIZE_MAX :: u32 where "PB_SIZE_MAX = -1"

type_synonym pb_wire_type = u32

definition PB_WT_VARINT :: pb_wire_type where [simp]: "PB_WT_VARINT = 0"
definition PB_WT_64BIT :: pb_wire_type where [simp]: "PB_WT_64BIT = 1"
definition PB_WT_STRING :: pb_wire_type where [simp]: "PB_WT_STRING = 2"
definition PB_WT_32BIT :: pb_wire_type where [simp]: "PB_WT_32BIT = 5"

definition PB_MAX_REQUIRED_FIELDS :: nat where [simp]: "PB_MAX_REQUIRED_FIELDS = 64"

text \<open>\<open>sizeof(void*)\<close>.\<close>

definition sizeof_ptr :: nat where [simp]: "sizeof_ptr = 8"

section \<open>Field descriptors\<close>

text \<open>
  \<open>size_offset\<close> is signed (\<open>pb_ssize_t\<close>): it is stored as a word and read with \<open>sint\<close>.
  \<open>ptr\<close> is the address of the submessage descriptor or of the default value, 0 for NULL.
\<close>

record pb_field =
  tag :: u32
  ftype :: u8
  data_offset :: u32
  size_offset :: u32
  data_size :: u32
  array_size :: u32
  ptr :: addr

definition PB_LAST_FIELD :: pb_field where
  "PB_LAST_FIELD = \<lparr>tag = 0, ftype = 0, data_offset = 0, size_offset = 0,
     data_size = 0, array_size = 0, ptr = 0\<rparr>"

text \<open>\<open>PB_BYTES_ARRAY_T_ALLOCSIZE(n)\<close>, with \<open>offsetof(pb_bytes_array_t, bytes) = 4\<close>.\<close>

definition PB_BYTES_ARRAY_T_ALLOCSIZE :: "u32 \<Rightarrow> nat" where
  "PB_BYTES_ARRAY_T_ALLOCSIZE n = unat n + 4"

text \<open>
  A member of a C structure, as the descriptor macros see it: its offset, its size, the size of
  \<open>m[0]\<close>, and the offset of its \<open>has_\<close>, \<open>_count\<close> or \<open>which_\<close> companion.
\<close>

record member =
  m_offset :: nat
  m_size :: nat
  m0_size :: nat
  m_size_offset :: nat

definition pb_delta :: "nat \<Rightarrow> nat \<Rightarrow> u32" where
  "pb_delta o1 o2 = word_of_int (int o1 - int o2)"

definition pb_arraysize :: "member \<Rightarrow> u32" where
  "pb_arraysize m = word_of_nat (m_size m div m0_size m)"

definition PB_DATAOFFSET_FIRST :: "member \<Rightarrow> member \<Rightarrow> u32" where
  "PB_DATAOFFSET_FIRST m1 m2 = word_of_nat (m_offset m1)"

definition PB_DATAOFFSET_OTHER :: "member \<Rightarrow> member \<Rightarrow> u32" where
  "PB_DATAOFFSET_OTHER m1 m2 =
     word_of_int (int (m_offset m1) - int (m_offset m2) - int (m_size m2))"

definition PB_DATAOFFSET_UNION :: "member \<Rightarrow> member \<Rightarrow> u32" where
  "PB_DATAOFFSET_UNION m1 m2 = PB_SIZE_MAX"

definition PB_REQUIRED_STATIC :: "u32 \<Rightarrow> member \<Rightarrow> u32 \<Rightarrow> u8 \<Rightarrow> addr \<Rightarrow> pb_field" where
  "PB_REQUIRED_STATIC t m fd ltype p =
     \<lparr>tag = t, ftype = PB_ATYPE_STATIC OR PB_HTYPE_REQUIRED OR ltype, data_offset = fd,
      size_offset = 0, data_size = word_of_nat (m_size m), array_size = 0, ptr = p\<rparr>"

definition PB_OPTIONAL_STATIC :: "u32 \<Rightarrow> member \<Rightarrow> u32 \<Rightarrow> u8 \<Rightarrow> addr \<Rightarrow> pb_field" where
  "PB_OPTIONAL_STATIC t m fd ltype p =
     \<lparr>tag = t, ftype = PB_ATYPE_STATIC OR PB_HTYPE_OPTIONAL OR ltype, data_offset = fd,
      size_offset = pb_delta (m_size_offset m) (m_offset m),
      data_size = word_of_nat (m_size m), array_size = 0, ptr = p\<rparr>"

definition PB_SINGULAR_STATIC :: "u32 \<Rightarrow> member \<Rightarrow> u32 \<Rightarrow> u8 \<Rightarrow> addr \<Rightarrow> pb_field" where
  "PB_SINGULAR_STATIC t m fd ltype p =
     \<lparr>tag = t, ftype = PB_ATYPE_STATIC OR PB_HTYPE_OPTIONAL OR ltype, data_offset = fd,
      size_offset = 0, data_size = word_of_nat (m_size m), array_size = 0, ptr = p\<rparr>"

definition PB_REPEATED_STATIC :: "u32 \<Rightarrow> member \<Rightarrow> u32 \<Rightarrow> u8 \<Rightarrow> addr \<Rightarrow> pb_field" where
  "PB_REPEATED_STATIC t m fd ltype p =
     \<lparr>tag = t, ftype = PB_ATYPE_STATIC OR PB_HTYPE_REPEATED OR ltype, data_offset = fd,
      size_offset = pb_delta (m_size_offset m) (m_offset m),
      data_size = word_of_nat (m0_size m), array_size = pb_arraysize m, ptr = p\<rparr>"

definition PB_REQUIRED_POINTER :: "u32 \<Rightarrow> member \<Rightarrow> u32 \<Rightarrow> u8 \<Rightarrow> addr \<Rightarrow> pb_field" where
  "PB_REQUIRED_POINTER t m fd ltype p =
     \<lparr>tag = t, ftype = PB_ATYPE_POINTER OR PB_HTYPE_REQUIRED OR ltype, data_offset = fd,
      size_offset = 0, data_size = word_of_nat (m0_size m), array_size = 0, ptr = p\<rparr>"

definition PB_OPTIONAL_POINTER :: "u32 \<Rightarrow> member \<Rightarrow> u32 \<Rightarrow> u8 \<Rightarrow> addr \<Rightarrow> pb_field" where
  "PB_OPTIONAL_POINTER t m fd ltype p =
     \<lparr>tag = t, ftype = PB_ATYPE_POINTER OR PB_HTYPE_OPTIONAL OR ltype, data_offset = fd,
      size_offset = 0, data_size = word_of_nat (m0_size m), array_size = 0, ptr = p\<rparr>"

definition PB_SINGULAR_POINTER :: "u32 \<Rightarrow> member \<Rightarrow> u32 \<Rightarrow> u8 \<Rightarrow> addr \<Rightarrow> pb_field" where
  "PB_SINGULAR_POINTER t m fd ltype p =
     \<lparr>tag = t, ftype = PB_ATYPE_POINTER OR PB_HTYPE_OPTIONAL OR ltype, data_offset = fd,
      size_offset = 0, data_size = word_of_nat (m0_size m), array_size = 0, ptr = p\<rparr>"

definition PB_REPEATED_POINTER :: "u32 \<Rightarrow> member \<Rightarrow> u32 \<Rightarrow> u8 \<Rightarrow> addr \<Rightarrow> pb_field" where
  "PB_REPEATED_POINTER t m fd ltype p =
     \<lparr>tag = t, ftype = PB_ATYPE_POINTER OR PB_HTYPE_REPEATED OR ltype, data_offset = fd,
      size_offset = pb_delta (m_size_offset m) (m_offset m),
      data_size = word_of_nat (m0_size m), array_size = 0, ptr = p\<rparr>"

definition PB_REQUIRED_CALLBACK :: "u32 \<Rightarrow> member \<Rightarrow> u32 \<Rightarrow> u8 \<Rightarrow> addr \<Rightarrow> pb_field" where
  "PB_REQUIRED_CALLBACK t m fd ltype p =
     \<lparr>tag = t, ftype = PB_ATYPE_CALLBACK OR PB_HTYPE_REQUIRED OR ltype, data_offset = fd,
      size_offset = 0, data_size = word_of_nat (m_size m), array_size = 0, ptr = p\<rparr>"

definition PB_OPTIONAL_CALLBACK :: "u32 \<Rightarrow> member \<Rightarrow> u32 \<Rightarrow> u8 \<Rightarrow> addr \<Rightarrow> pb_field" where
  "PB_OPTIONAL_CALLBACK t m fd ltype p =
     \<lparr>tag = t, ftype = PB_ATYPE_CALLBACK OR PB_HTYPE_OPTIONAL OR ltype, data_offset = fd,
      size_offset = 0, data_size = word_of_nat (m_size m), array_size = 0, ptr = p\<rparr>"

definition PB_SINGULAR_CALLBACK :: "u32 \<Rightarrow> member \<Rightarrow> u32 \<Rightarrow> u8 \<Rightarrow> addr \<Rightarrow> pb_field" where
  "PB_SINGULAR_CALLBACK t m fd ltype p =
     \<lparr>tag = t, ftype = PB_ATYPE_CALLBACK OR PB_HTYPE_OPTIONAL OR ltype, data_offset = fd,
      size_offset = 0, data_size = word_of_nat (m_size m), array_size = 0, ptr = p\<rparr>"

definition PB_REPEATED_CALLBACK :: "u32 \<Rightarrow> member \<Rightarrow> u32 \<Rightarrow> u8 \<Rightarrow> addr \<Rightarrow> pb_field" where
  "PB_REPEATED_CALLBACK t m fd ltype p =
     \<lparr>tag = t, ftype = PB_ATYPE_CALLBACK OR PB_HTYPE_REPEATED OR ltype, data_offset = fd,
      size_offset = 0, data_size = word_of_nat (m_size m), array_size = 0, ptr = p\<rparr>"

definition PB_OPTEXT_STATIC :: "u32 \<Rightarrow> member \<Rightarrow> u32 \<Rightarrow> u8 \<Rightarrow> addr \<Rightarrow> pb_field" where
  "PB_OPTEXT_STATIC t m fd ltype p =
     \<lparr>tag = t, ftype = PB_ATYPE_STATIC OR PB_HTYPE_REQUIRED OR ltype, data_offset = 0,
      size_offset = 0, data_size = word_of_nat (m_size m), array_size = 0, ptr = p\<rparr>"

definition PB_ONEOF_STATIC :: "u32 \<Rightarrow> member \<Rightarrow> u32 \<Rightarrow> u8 \<Rightarrow> addr \<Rightarrow> pb_field" where
  "PB_ONEOF_STATIC t m fd ltype p =
     \<lparr>tag = t, ftype = PB_ATYPE_STATIC OR PB_HTYPE_ONEOF OR ltype, data_offset = fd,
      size_offset = pb_delta (m_size_offset m) (m_offset m),
      data_size = word_of_nat (m_size m), array_size = 0, ptr = p\<rparr>"

definition PB_ONEOF_POINTER :: "u32 \<Rightarrow> member \<Rightarrow> u32 \<Rightarrow> u8 \<Rightarrow> addr \<Rightarrow> pb_field" where
  "PB_ONEOF_POINTER t m fd ltype p =
     \<lparr>tag = t, ftype = PB_ATYPE_POINTER OR PB_HTYPE_ONEOF OR ltype, data_offset = fd,
      size_offset = pb_delta (m_size_offset m) (m_offset m),
      data_size = word_of_nat (m0_size m), array_size = 0, ptr = p\<rparr>"

lemmas descriptor_defs = PB_REQUIRED_STATIC_def PB_OPTIONAL_STATIC_def PB_SINGULAR_STATIC_def
  PB_REPEATED_STATIC_def PB_REQUIRED_POINTER_def PB_OPTIONAL_POINTER_def PB_SINGULAR_POINTER_def
  PB_REPEATED_POINTER_def PB_REQUIRED_CALLBACK_def PB_OPTIONAL_CALLBACK_def
  PB_SINGULAR_CALLBACK_def PB_REPEATED_CALLBACK_def PB_OPTEXT_STATIC_def PB_ONEOF_STATIC_def
  PB_ONEOF_POINTER_def PB_LAST_FIELD_def

section \<open>Streams\<close>

text \<open>The common part of the two stream structures is the error message (NULL is \<open>None\<close>).\<close>

record pb_stream =
  errmsg :: "string option"

datatype in_callback = Buf_read | In_callback nat

record pb_istream = pb_stream +
  in_callback :: in_callback
  in_state :: addr
  bytes_left :: nat

datatype out_callback = Null_callback | Buf_write | Out_callback nat

record pb_ostream = pb_stream +
  out_callback :: out_callback
  out_state :: addr
  max_size :: u64
  bytes_written :: u64

definition PB_SET_ERROR :: "string \<Rightarrow> 'a pb_stream_scheme \<Rightarrow> 'a pb_stream_scheme" where
  "PB_SET_ERROR msg s = s\<lparr>errmsg := (case errmsg s of None \<Rightarrow> Some msg | Some e \<Rightarrow> Some e)\<rparr>"

definition PB_GET_ERROR :: "'a pb_stream_scheme \<Rightarrow> string" where
  "PB_GET_ERROR s = (case errmsg s of None \<Rightarrow> ''(none)'' | Some e \<Rightarrow> e)"

definition PB_RETURN_ERROR :: "string \<Rightarrow> ('a pb_stream_scheme, 'b) cm" where
  "PB_RETURN_ERROR msg = (\<lambda>s m. Some (Fail, PB_SET_ERROR msg s, m))"

lemma wp_PB_RETURN_ERROR [wp_simps]:
  "wp (PB_RETURN_ERROR msg) Q s m = Q Fail (PB_SET_ERROR msg s) m"
  by (simp add: wp_def PB_RETURN_ERROR_def)

lemma PB_SET_ERROR_simps [simp]:
  "in_callback (PB_SET_ERROR msg si) = in_callback si"
  "in_state (PB_SET_ERROR msg si) = in_state si"
  "bytes_left (PB_SET_ERROR msg si) = bytes_left si"
  "out_callback (PB_SET_ERROR msg so) = out_callback so"
  "out_state (PB_SET_ERROR msg so) = out_state so"
  "max_size (PB_SET_ERROR msg so) = max_size so"
  "bytes_written (PB_SET_ERROR msg so) = bytes_written so"
  by (simp_all add: PB_SET_ERROR_def)

declare PB_RETURN_ERROR_def [cm_eval] PB_SET_ERROR_def [cm_eval]

section \<open>The environment\<close>

text \<open>
  \<open>struct pb_extension_type_s\<close>: the function pointers (0 for NULL) and the argument, which the
  default handlers take as the address of a field descriptor.
\<close>

record pb_extension_type =
  ext_decode :: addr
  ext_encode :: addr
  ext_arg :: addr

record pb_env =
  descs :: "addr \<Rightarrow> pb_field list option"
  ext_types :: "addr \<Rightarrow> pb_extension_type option"
  in_callbacks :: "nat \<Rightarrow> nat \<Rightarrow> (pb_istream, byte list) cm"
  out_callbacks :: "nat \<Rightarrow> byte list \<Rightarrow> (pb_ostream, unit) cm"
  decode_callbacks :: "addr \<Rightarrow> pb_field \<Rightarrow> addr \<Rightarrow> (pb_istream, unit) cm"
  encode_callbacks :: "addr \<Rightarrow> pb_field \<Rightarrow> addr \<Rightarrow> (pb_ostream, unit) cm"
  ext_decoders :: "addr \<Rightarrow> addr \<Rightarrow> u32 \<Rightarrow> pb_wire_type \<Rightarrow> (pb_istream, unit) cm"
  ext_encoders :: "addr \<Rightarrow> addr \<Rightarrow> (pb_ostream, unit) cm"
  stack_slot :: "mem \<Rightarrow> addr"

text \<open>
  Offsets in \<open>struct pb_callback_s\<close> (function pointer, \<open>arg\<close>) and \<open>struct pb_extension_s\<close>
  (\<open>type\<close>, \<open>dest\<close>, \<open>next\<close>, \<open>found\<close>).
\<close>

definition callback_arg :: "addr \<Rightarrow> addr" where [simp]: "callback_arg a = a + 8"
definition ext_type_field :: "addr \<Rightarrow> addr" where [simp]: "ext_type_field a = a"
definition ext_dest_field :: "addr \<Rightarrow> addr" where [simp]: "ext_dest_field a = a + 8"
definition ext_next_field :: "addr \<Rightarrow> addr" where [simp]: "ext_next_field a = a + 16"
definition ext_found_field :: "addr \<Rightarrow> addr" where [simp]: "ext_found_field a = a + 24"

text \<open>\<open>(const pb_field_t* )extension->type->arg\<close>, for the value \<open>t\<close> of \<open>extension->type\<close>.\<close>

definition ext_fields :: "pb_env \<Rightarrow> addr \<Rightarrow> pb_field list option" where
  "ext_fields E t =
     Option.bind (ext_types E t) (\<lambda>et. Option.bind (descs E (ext_arg et)) (\<lambda>fs.
       if fs = [] then None else Some fs))"

section \<open>Type bytes\<close>

lemma and_0x30: "(t :: u8) AND 0x30 = (if bit t 4 then 0x10 else 0) OR (if bit t 5 then 0x20 else 0)"
  by (rule bit_eqI) (auto simp: bit_simps bit_numeral_rec less_Suc_eq numeral_eq_Suc)

lemma and_0xC0: "(t :: u8) AND 0xC0 = (if bit t 6 then 0x40 else 0) OR (if bit t 7 then 0x80 else 0)"
  by (rule bit_eqI) (auto simp: bit_simps bit_numeral_rec less_Suc_eq numeral_eq_Suc)

lemma HTYPE_cases:
  obtains "PB_HTYPE t = PB_HTYPE_REQUIRED" | "PB_HTYPE t = PB_HTYPE_OPTIONAL"
    | "PB_HTYPE t = PB_HTYPE_REPEATED" | "PB_HTYPE t = PB_HTYPE_ONEOF"
  by (cases "bit t 4"; cases "bit t 5") (simp_all add: PB_HTYPE_def and_0x30)

lemma ATYPE_cases:
  obtains "PB_ATYPE t = PB_ATYPE_STATIC" | "PB_ATYPE t = PB_ATYPE_CALLBACK"
    | "PB_ATYPE t = PB_ATYPE_POINTER" | "PB_ATYPE t = 0xC0"
  by (cases "bit t 6"; cases "bit t 7") (simp_all add: PB_ATYPE_def and_0xC0)

end
