(* ===== verification/Pb_Common.thy ===== *)
theory Pb_Common
  imports Pb_Types
begin

text \<open>
  The field iterator of \<open>pb_common.c\<close>. The descriptor array is a list and the position an
  index into it; moving past the end of the list, or reading there, is undefined (\<open>None\<close>).
  \<open>fields_ok\<close> says that the array ends with its terminator, \<open>iter_at fs d k\<close> is the closed form
  of the iterator at field \<open>k\<close>, and the lemmas show that the code steps through exactly
  these states, wraps around, and that \<open>pb_field_iter_find\<close> finds a field if and only if there
  is one.
\<close>

record pb_field_iter =
  start :: "pb_field list"
  pos :: nat
  required_field_index :: nat
  dest_struct :: addr
  pData :: addr
  pSize :: addr

text \<open>\<open>*iter->pos\<close>; the callers below read it only where it is defined.\<close>

definition cur :: "pb_field_iter \<Rightarrow> pb_field" where
  "cur it = start it ! pos it"

definition iter_readable :: "pb_field_iter \<Rightarrow> bool" where
  "iter_readable it \<longleftrightarrow> pos it < length (start it)"

section \<open>The code\<close>

definition pb_field_iter_begin :: "pb_field list \<Rightarrow> addr \<Rightarrow> (bool \<times> pb_field_iter) option" where
  "pb_field_iter_begin fs dest =
     (case fs of
        [] \<Rightarrow> None
      | f # _ \<Rightarrow>
          let pd = dest + int (unat (data_offset f));
              ps = pd + sint (size_offset f)
          in Some (tag f \<noteq> 0,
               \<lparr>start = fs, pos = 0, required_field_index = 0, dest_struct = dest,
                pData = pd, pSize = ps\<rparr>))"

text \<open>The distance from one field to the end of its storage (\<open>prev_size\<close>).\<close>

definition prev_size :: "pb_field \<Rightarrow> nat" where
  "prev_size f =
     (if PB_ATYPE (ftype f) = PB_ATYPE_STATIC \<and> PB_HTYPE (ftype f) = PB_HTYPE_REPEATED
      then unat (data_size f) * unat (array_size f)
      else if PB_ATYPE (ftype f) = PB_ATYPE_POINTER then sizeof_ptr
      else unat (data_size f))"

text \<open>The test for a further member of the same union.\<close>

definition union_next :: "pb_field \<Rightarrow> pb_field \<Rightarrow> bool" where
  "union_next prev f \<longleftrightarrow> PB_HTYPE (ftype prev) = PB_HTYPE_ONEOF \<and>
     PB_HTYPE (ftype f) = PB_HTYPE_ONEOF \<and> data_offset f = PB_SIZE_MAX"

definition pb_field_iter_next :: "pb_field_iter \<Rightarrow> (bool \<times> pb_field_iter) option" where
  "pb_field_iter_next it =
     (if \<not> iter_readable it then None
      else let prev = cur it in
        if tag prev = 0 then Some (False, it)
        else let it1 = it\<lparr>pos := Suc (pos it)\<rparr> in
          if \<not> iter_readable it1 then None
          else let f = cur it1 in
            if tag f = 0
            then map_option (\<lambda>(_, it0). (False, it0)) (pb_field_iter_begin (start it) (dest_struct it))
            else if union_next prev f then Some (True, it1)
            else let rfi = (if PB_HTYPE (ftype prev) = PB_HTYPE_REQUIRED
                            then Suc (required_field_index it) else required_field_index it);
                     pd = pData it + int (prev_size prev) + int (unat (data_offset f))
                 in Some (True, it1\<lparr>required_field_index := rfi, pData := pd,
                                   pSize := pd + sint (size_offset f)\<rparr>))"

text \<open>
  The search loop of \<open>pb_field_iter_find\<close> and of \<open>find_extension_field\<close> (\<open>pb_decode.c\<close>):
  test the current field, advance, stop when back at the position \<open>start0\<close> of the first test.
\<close>

partial_function (option) iter_search_loop ::
    "(pb_field \<Rightarrow> bool) \<Rightarrow> nat \<Rightarrow> pb_field_iter \<Rightarrow> (bool \<times> pb_field_iter) option" where
  "iter_search_loop p start0 it =
     (if \<not> iter_readable it then None
      else if p (cur it) then Some (True, it)
      else Option.bind (pb_field_iter_next it) (\<lambda>r.
        if pos (snd r) \<noteq> start0 then iter_search_loop p start0 (snd r) else Some (False, snd r)))"

declare iter_search_loop.simps [code]

definition tag_matches :: "u32 \<Rightarrow> pb_field \<Rightarrow> bool" where
  "tag_matches t f \<longleftrightarrow> tag f = t \<and> PB_LTYPE (ftype f) \<noteq> PB_LTYPE_EXTENSION"

definition pb_field_iter_find :: "pb_field_iter \<Rightarrow> u32 \<Rightarrow> (bool \<times> pb_field_iter) option" where
  "pb_field_iter_find it t = iter_search_loop (tag_matches t) (pos it) it"

definition find_extension_field :: "pb_field_iter \<Rightarrow> (bool \<times> pb_field_iter) option" where
  "find_extension_field it =
     iter_search_loop (\<lambda>f. PB_LTYPE (ftype f) = PB_LTYPE_EXTENSION) (pos it) it"

text \<open>The loop \<open>do { body(iter); } while (pb_field_iter_next(iter));\<close> of the callers.\<close>

lemma iter_next_measure:
  "pb_field_iter_next it = Some (True, it') \<Longrightarrow>
     start it' = start it \<and> pos it' = Suc (pos it) \<and> Suc (pos it) < length (start it)"
  by (auto simp: pb_field_iter_next_def iter_readable_def Let_def split: if_splits)

function iter_loop :: "(pb_field_iter \<Rightarrow> ('s, unit) cm) \<Rightarrow> pb_field_iter \<Rightarrow> ('s, unit) cm" where
  "iter_loop body it =
     cbind (body it) (\<lambda>_.
       case pb_field_iter_next it of
         None \<Rightarrow> cub
       | Some (False, it') \<Rightarrow> cret ()
       | Some (True, it') \<Rightarrow> iter_loop body it')"
  by pat_completeness auto
termination
  by (relation "measure (\<lambda>(body, it). length (start it) - pos it)")
    (auto dest!: iter_next_measure)

declare iter_loop.simps [simp del]

section \<open>Well-formed descriptor arrays\<close>

definition fields_ok :: "pb_field list \<Rightarrow> bool" where
  "fields_ok fs \<longleftrightarrow> fs \<noteq> [] \<and> last fs = PB_LAST_FIELD \<and> list_all (\<lambda>f. tag f \<noteq> 0) (butlast fs)"

definition n_fields :: "pb_field list \<Rightarrow> nat" where
  "n_fields fs = length fs - 1"

lemma fields_ok_length: "fields_ok fs \<Longrightarrow> length fs = Suc (n_fields fs)"
  by (cases fs) (auto simp: fields_ok_def n_fields_def)

lemma fields_ok_tag: "fields_ok fs \<Longrightarrow> k < n_fields fs \<Longrightarrow> tag (fs ! k) \<noteq> 0"
  by (auto simp: fields_ok_def n_fields_def list_all_length nth_butlast)

lemma fields_ok_last: "fields_ok fs \<Longrightarrow> fs ! n_fields fs = PB_LAST_FIELD"
  by (auto simp: fields_ok_def n_fields_def last_conv_nth)

lemma tag_PB_LAST_FIELD [simp]: "tag PB_LAST_FIELD = 0"
  by (simp add: PB_LAST_FIELD_def)

section \<open>The iterator in closed form\<close>

text \<open>Offsets of the data and of the size or presence field, relative to the structure.\<close>

fun field_offset :: "pb_field list \<Rightarrow> nat \<Rightarrow> int" where
  "field_offset fs 0 = int (unat (data_offset (fs ! 0)))"
| "field_offset fs (Suc k) =
     (if union_next (fs ! k) (fs ! Suc k) then field_offset fs k
      else field_offset fs k + int (prev_size (fs ! k)) + int (unat (data_offset (fs ! Suc k))))"

fun size_field_offset :: "pb_field list \<Rightarrow> nat \<Rightarrow> int" where
  "size_field_offset fs 0 = field_offset fs 0 + sint (size_offset (fs ! 0))"
| "size_field_offset fs (Suc k) =
     (if union_next (fs ! k) (fs ! Suc k) then size_field_offset fs k
      else field_offset fs (Suc k) + sint (size_offset (fs ! Suc k)))"

definition is_required :: "pb_field \<Rightarrow> bool" where
  "is_required f \<longleftrightarrow> PB_HTYPE (ftype f) = PB_HTYPE_REQUIRED"

definition required_before :: "pb_field list \<Rightarrow> nat \<Rightarrow> nat" where
  "required_before fs k = length (filter is_required (take k fs))"

definition iter_at :: "pb_field list \<Rightarrow> addr \<Rightarrow> nat \<Rightarrow> pb_field_iter" where
  "iter_at fs d k = \<lparr>start = fs, pos = k, required_field_index = required_before fs k,
     dest_struct = d, pData = d + field_offset fs k, pSize = d + size_field_offset fs k\<rparr>"

lemma iter_at_simps [simp]:
  "start (iter_at fs d k) = fs" "pos (iter_at fs d k) = k" "dest_struct (iter_at fs d k) = d"
  "pData (iter_at fs d k) = d + field_offset fs k"
  "pSize (iter_at fs d k) = d + size_field_offset fs k"
  "required_field_index (iter_at fs d k) = required_before fs k"
  "cur (iter_at fs d k) = fs ! k"
  "iter_readable (iter_at fs d k) = (k < length fs)"
  by (simp_all add: iter_at_def cur_def iter_readable_def)

lemma required_before_Suc:
  "k < length fs \<Longrightarrow> required_before fs (Suc k) = required_before fs k + (if is_required (fs ! k) then 1 else 0)"
  by (simp add: required_before_def take_Suc_conv_app_nth)

lemma required_before_mono: "j \<le> k \<Longrightarrow> required_before fs j \<le> required_before fs k"
proof -
  assume "j \<le> k"
  then obtain i where "k = j + i" by (auto simp: le_iff_add)
  then show ?thesis by (simp add: required_before_def take_add)
qed

lemma iter_begin_at:
  assumes "fs \<noteq> []"
  shows "pb_field_iter_begin fs d = Some (tag (fs ! 0) \<noteq> 0, iter_at fs d 0)"
  using assms
  by (cases fs) (simp_all add: pb_field_iter_begin_def Let_def iter_at_def required_before_def)

lemma iter_begin_ok:
  assumes "fields_ok fs"
  shows "pb_field_iter_begin fs d = Some (n_fields fs \<noteq> 0, iter_at fs d 0)"
proof (cases "n_fields fs = 0")
  case True
  with assms fields_ok_last [OF assms] show ?thesis by (simp add: iter_begin_at fields_ok_def)
next
  case False
  with assms fields_ok_tag [OF assms, of 0] show ?thesis by (simp add: iter_begin_at fields_ok_def)
qed

lemma iter_next_at:
  assumes ok: "fields_ok fs" and k: "k < n_fields fs"
  shows "pb_field_iter_next (iter_at fs d k) =
     (if Suc k < n_fields fs then Some (True, iter_at fs d (Suc k)) else Some (False, iter_at fs d 0))"
proof -
  have len: "length fs = Suc (n_fields fs)" and ne: "fs \<noteq> []" and tk: "tag (fs ! k) \<noteq> 0"
    using ok k by (auto simp: fields_ok_length fields_ok_tag fields_ok_def)
  have it1: "cur (iter_at fs d k\<lparr>pos := Suc k\<rparr>) = fs ! Suc k"
    "iter_readable (iter_at fs d k\<lparr>pos := Suc k\<rparr>)"
    using k len by (auto simp: cur_def iter_readable_def iter_at_def)
  show ?thesis
  proof (cases "Suc k < n_fields fs")
    case True
    then have "tag (fs ! Suc k) \<noteq> 0" using ok by (simp add: fields_ok_tag)
    moreover have "union_next (fs ! k) (fs ! Suc k) \<Longrightarrow> \<not> is_required (fs ! k)"
      by (simp add: union_next_def is_required_def)
    ultimately show ?thesis using True k len tk it1
      by (auto simp: pb_field_iter_next_def Let_def required_before_Suc is_required_def iter_at_def
          algebra_simps cur_def iter_readable_def)
  next
    case False
    with k have "Suc k = n_fields fs" by simp
    with ok have "tag (fs ! Suc k) = 0" by (simp add: fields_ok_last)
    with False k len tk it1 ne show ?thesis
      by (simp add: pb_field_iter_next_def Let_def iter_begin_at)
  qed
qed

lemma iter_next_empty:
  assumes "fields_ok fs" "n_fields fs = 0"
  shows "pb_field_iter_next (iter_at fs d 0) = Some (False, iter_at fs d 0)"
  using assms fields_ok_last [of fs] fields_ok_length [of fs]
  by (simp add: pb_field_iter_next_def)

section \<open>Searching\<close>

text \<open>The positions the loop still has to test, when it stands at \<open>k\<close> and began at \<open>start0\<close>.\<close>

definition search_rest :: "nat \<Rightarrow> nat \<Rightarrow> nat \<Rightarrow> nat set" where
  "search_rest n start0 k = (if k < start0 then {k..<start0} else {k..<n} \<union> {..<start0})"

lemma search_rest_step:
  assumes "k < n" "start0 < n" "k' = (if Suc k < n then Suc k else 0)" "k' \<noteq> start0"
  shows "search_rest n start0 k = insert k (search_rest n start0 k')"
  using assms by (auto simp: search_rest_def split: if_splits)

lemma search_rest_last:
  assumes "k < n" "start0 < n" "(if Suc k < n then Suc k else 0) = start0"
  shows "search_rest n start0 k = {k}"
  using assms by (auto simp: search_rest_def split: if_splits)

lemma iter_search_loop_spec:
  assumes ok: "fields_ok fs" and "k < n_fields fs" "start0 < n_fields fs"
  shows "\<exists>b j. iter_search_loop p start0 (iter_at fs d k) = Some (b, iter_at fs d j) \<and>
     j < n_fields fs \<and> (b \<longrightarrow> p (fs ! j)) \<and>
     (\<not> b \<longrightarrow> j = start0 \<and> (\<forall>i \<in> search_rest (n_fields fs) start0 k. \<not> p (fs ! i)))"
  using assms(2,3)
proof (induction "card (search_rest (n_fields fs) start0 k)" arbitrary: k rule: less_induct)
  case less
  let ?n = "n_fields fs" and ?k' = "if Suc k < n_fields fs then Suc k else 0"
  have len: "length fs = Suc ?n" using ok by (rule fields_ok_length)
  show ?case
  proof (cases "p (fs ! k)")
    case True
    with less.prems len show ?thesis by (subst iter_search_loop.simps) auto
  next
    case False
    have nxt: "\<exists>b. pb_field_iter_next (iter_at fs d k) = Some (b, iter_at fs d ?k')"
      using iter_next_at [OF ok less.prems(1)] by auto
    then obtain b where nxt: "pb_field_iter_next (iter_at fs d k) = Some (b, iter_at fs d ?k')" ..
    have unf: "iter_search_loop p start0 (iter_at fs d k) =
        (if ?k' \<noteq> start0 then iter_search_loop p start0 (iter_at fs d ?k')
         else Some (False, iter_at fs d ?k'))"
      using False less.prems len nxt by (subst iter_search_loop.simps) simp
    have k': "?k' < ?n" using less.prems by auto
    show ?thesis
    proof (cases "?k' = start0")
      case True
      with unf False k' less.prems search_rest_last [OF less.prems True] show ?thesis
        by (intro exI [of _ False] exI [of _ start0]) simp
    next
      case ne: False
      have rest: "search_rest ?n start0 k = insert k (search_rest ?n start0 ?k')"
        using less.prems ne by (intro search_rest_step) auto
      have "k \<notin> search_rest ?n start0 ?k'"
        using less.prems ne by (auto simp: search_rest_def split: if_splits)
      with rest have "card (search_rest ?n start0 ?k') < card (search_rest ?n start0 k)"
        by (simp add: search_rest_def)
      from less.hyps [OF this k' less.prems(2)] show ?thesis
        using unf ne rest False by auto
    qed
  qed
qed

lemma iter_search_empty:
  assumes "fields_ok fs" "n_fields fs = 0"
  shows "iter_search_loop p 0 (iter_at fs d 0) = Some (p PB_LAST_FIELD, iter_at fs d 0)"
  using assms fields_ok_last [of fs] fields_ok_length [of fs] iter_next_empty [of fs d]
  by (subst iter_search_loop.simps) simp

lemma search_all:
  assumes ok: "fields_ok fs" and k: "k < n_fields fs"
  shows "\<exists>b j. iter_search_loop p k (iter_at fs d k) = Some (b, iter_at fs d j) \<and>
     j < n_fields fs \<and> (b \<longrightarrow> p (fs ! j)) \<and> (\<not> b \<longrightarrow> j = k \<and> (\<forall>i < n_fields fs. \<not> p (fs ! i)))"
proof -
  have "search_rest (n_fields fs) k k = {..<n_fields fs}"
    using k by (auto simp: search_rest_def)
  with iter_search_loop_spec [OF ok k k, of p d] show ?thesis by auto
qed

section \<open>Loops over all fields\<close>

lemma iter_loop_at:
  assumes "fields_ok fs" "k < n_fields fs"
  shows "iter_loop body (iter_at fs d k) =
     cbind (body (iter_at fs d k)) (\<lambda>_.
       if Suc k < n_fields fs then iter_loop body (iter_at fs d (Suc k)) else cret ())"
  using iter_next_at [OF assms] by (subst iter_loop.simps) (auto cong: if_cong)

text \<open>The proof rule of the loop: \<open>I k\<close> holds before field \<open>k\<close> is processed.\<close>

lemma iter_loop_wp_from:
  assumes ok: "fields_ok fs"
    and body: "\<And>k s m. k < n_fields fs \<Longrightarrow> I k s m \<Longrightarrow>
      wp (body (iter_at fs d k)) (wp_then (\<lambda>_. I (Suc k)) F) s m"
    and fin: "\<And>s m. I (n_fields fs) s m \<Longrightarrow> Q (Ok ()) s m"
    and fail: "\<And>s m. F s m \<Longrightarrow> Q Fail s m"
  shows "k < n_fields fs \<Longrightarrow> I k s m \<Longrightarrow> wp (iter_loop body (iter_at fs d k)) Q s m"
proof (induction "n_fields fs - k" arbitrary: k s m)
  case 0
  then show ?case by simp
next
  case (Suc x)
  show ?case
    unfolding iter_loop_at [OF ok Suc.prems(1)] wp_cbind
  proof (rule wp_mono [OF body [OF Suc.prems]])
    fix r s' m'
    assume "wp_then (\<lambda>_. I (Suc k)) F r s' m'"
    then show "wp_then (\<lambda>x. wp (if Suc k < n_fields fs then iter_loop body (iter_at fs d (Suc k))
        else cret ()) Q) (Q Fail) r s' m'"
    proof (cases r)
      case (Ok u)
      with \<open>wp_then (\<lambda>_. I (Suc k)) F r s' m'\<close> have I: "I (Suc k) s' m'" by simp
      show ?thesis
      proof (cases "Suc k < n_fields fs")
        case True
        with Suc.hyps I Ok show ?thesis by simp
      next
        case False
        with Suc.prems(1) have "Suc k = n_fields fs" by simp
        with fin I Ok False show ?thesis by (simp add: wp_simps)
      qed
    next
      case Fail
      with \<open>wp_then (\<lambda>_. I (Suc k)) F r s' m'\<close> fail show ?thesis by simp
    qed
  qed
qed

lemmas iter_loop_wp = iter_loop_wp_from [where k = 0]

end
