(* ===== verification/Pb_Istream.thy ===== *)
theory Pb_Istream
  imports Pb_Common
begin

text \<open>
  Input streams (\<open>pb_istream_t\<close> of \<open>pb_decode.c\<close>) and the functions that read from them
  without knowing the message: bytes, varints, tags, skipping, raw values and length-limited
  substreams. \<open>bytes_left\<close> is a natural number: the code only ever lowers it, and compares
  before it subtracts.
\<close>

section \<open>Streams\<close>

text \<open>The destination of a read: a local variable, an address in memory, or NULL.\<close>

datatype rdst = To_local | To_mem addr | To_null

definition pb_istream_from_buffer :: "addr \<Rightarrow> nat \<Rightarrow> pb_istream" where
  "pb_istream_from_buffer buf bufsize =
     \<lparr>errmsg = None, in_callback = Buf_read, in_state = buf, bytes_left = bufsize\<rparr>"

text \<open>The bytes of a read into a local variable are the output of the computation.\<close>

definition buf_read :: "rdst \<Rightarrow> nat \<Rightarrow> (pb_istream, byte list) cm" where
  "buf_read buf count =
     cbind cget (\<lambda>s.
     cbind (cput (s\<lparr>in_state := in_state s + int count\<rparr>)) (\<lambda>_.
     case buf of
       To_local \<Rightarrow> cload (in_state s) count
     | To_mem a \<Rightarrow> cbind (ccopy a (in_state s) count) (\<lambda>_. cret [])
     | To_null \<Rightarrow> cret []))"

definition call_in_callback :: "pb_env \<Rightarrow> rdst \<Rightarrow> nat \<Rightarrow> (pb_istream, byte list) cm" where
  "call_in_callback E buf count =
     cbind cget (\<lambda>s. case in_callback s of
       Buf_read \<Rightarrow> buf_read buf count
     | In_callback n \<Rightarrow>
        cbind (in_callbacks E n count) (\<lambda>bs.
        if length bs \<noteq> count then cub
        else case buf of
            To_local \<Rightarrow> cret bs
          | To_mem a \<Rightarrow> cbind (cstore a bs) (\<lambda>_. cret [])
          | To_null \<Rightarrow> cub))"

text \<open>\<open>stream->bytes_left -= count\<close>\<close>

definition consume :: "nat \<Rightarrow> (pb_istream, unit) cm" where
  "consume count =
     cbind cget (\<lambda>s. if bytes_left s < count then cub
       else cput (s\<lparr>bytes_left := bytes_left s - count\<rparr>))"

text \<open>\<open>pb_read\<close> after the test for skipping.\<close>

definition pb_read_buf :: "pb_env \<Rightarrow> rdst \<Rightarrow> nat \<Rightarrow> (pb_istream, byte list) cm" where
  "pb_read_buf E buf count =
     cbind cget (\<lambda>s.
     if bytes_left s < count then PB_RETURN_ERROR ''end-of-stream''
     else cbind (ctry (call_in_callback E buf count)) (\<lambda>r.
       case r of
         Fail \<Rightarrow> PB_RETURN_ERROR ''io error''
       | Ok bs \<Rightarrow> cbind (consume count) (\<lambda>_. cret bs)))"

text \<open>\<open>while (count > 16) { pb_read(stream, tmp, 16); count -= 16; } pb_read(stream, tmp, count)\<close>\<close>

function pb_skip_chunks :: "pb_env \<Rightarrow> nat \<Rightarrow> (pb_istream, byte list) cm" where
  "pb_skip_chunks E count =
     (if count > 16 then cbind (pb_read_buf E To_local 16) (\<lambda>_. pb_skip_chunks E (count - 16))
      else cbind (pb_read_buf E To_local count) (\<lambda>_. cret []))"
  by pat_completeness auto
termination by (relation "measure snd") auto

declare pb_skip_chunks.simps [simp del]

definition pb_read :: "pb_env \<Rightarrow> rdst \<Rightarrow> nat \<Rightarrow> (pb_istream, byte list) cm" where
  "pb_read E buf count =
     cbind cget (\<lambda>s.
     if buf = To_null \<and> in_callback s \<noteq> Buf_read then pb_skip_chunks E count
     else pb_read_buf E buf count)"

definition pb_readbyte :: "pb_env \<Rightarrow> (pb_istream, byte) cm" where
  "pb_readbyte E =
     cbind cget (\<lambda>s.
     if bytes_left s = 0 then PB_RETURN_ERROR ''end-of-stream''
     else cbind (ctry (call_in_callback E To_local 1)) (\<lambda>r.
       case r of
         Fail \<Rightarrow> PB_RETURN_ERROR ''io error''
       | Ok bs \<Rightarrow> cbind (consume 1) (\<lambda>_. cret (hd bs))))"

section \<open>Varints\<close>

definition continues :: "byte \<Rightarrow> bool" where
  "continues b \<longleftrightarrow> b AND 0x80 \<noteq> 0"

function varint32_loop :: "pb_env \<Rightarrow> nat \<Rightarrow> u32 \<Rightarrow> (pb_istream, u32) cm" where
  "varint32_loop E bitpos result =
     (if bitpos \<ge> 32 then PB_RETURN_ERROR ''varint overflow''
      else cbind (pb_readbyte E) (\<lambda>b.
        let result' = result OR push_bit bitpos (ucast (b AND 0x7F)) in
        if continues b then varint32_loop E (bitpos + 7) result' else cret result'))"
  by pat_completeness auto
termination by (relation "measure (\<lambda>(E, bitpos, result). 39 - bitpos)") auto

declare varint32_loop.simps [simp del]

definition pb_decode_varint32 :: "pb_env \<Rightarrow> (pb_istream, u32) cm" where
  "pb_decode_varint32 E =
     cbind (pb_readbyte E) (\<lambda>b.
     if \<not> continues b then cret (ucast b)
     else varint32_loop E 7 (ucast (b AND 0x7F)))"

function varint_loop :: "pb_env \<Rightarrow> nat \<Rightarrow> u64 \<Rightarrow> (pb_istream, u64) cm" where
  "varint_loop E bitpos result =
     (if bitpos \<ge> 64 then PB_RETURN_ERROR ''varint overflow''
      else cbind (pb_readbyte E) (\<lambda>b.
        let result' = result OR push_bit bitpos (ucast (b AND 0x7F)) in
        if continues b then varint_loop E (bitpos + 7) result' else cret result'))"
  by pat_completeness auto
termination by (relation "measure (\<lambda>(E, bitpos, result). 71 - bitpos)") auto

declare varint_loop.simps [simp del]

definition pb_decode_varint :: "pb_env \<Rightarrow> (pb_istream, u64) cm" where
  "pb_decode_varint E = varint_loop E 0 0"

definition pb_decode_svarint :: "pb_env \<Rightarrow> (pb_istream, u64) cm" where
  "pb_decode_svarint E =
     cbind (pb_decode_varint E) (\<lambda>value.
     cret (if value AND 1 \<noteq> 0 then NOT (drop_bit 1 value) else drop_bit 1 value))"

section \<open>Tags and skipping\<close>

partial_function (option) pb_skip_varint ::
    "pb_env \<Rightarrow> pb_istream \<Rightarrow> mem \<Rightarrow> (unit res \<times> pb_istream \<times> mem) option" where
  "pb_skip_varint E s m =
     cbind (pb_read E To_local 1) (\<lambda>bs s m.
       if continues (hd bs) then pb_skip_varint E s m else cret () s m) s m"

declare pb_skip_varint.simps [code]

definition pb_skip_string :: "pb_env \<Rightarrow> (pb_istream, unit) cm" where
  "pb_skip_string E =
     cbind (pb_decode_varint32 E) (\<lambda>len.
     cbind (pb_read E To_null (unat len)) (\<lambda>_. cret ()))"

text \<open>
  \<open>pb_decode_tag\<close> leaves its outputs also when it returns \<open>false\<close>; the output here is the
  returned \<open>bool\<close>, \<open>wire_type\<close>, \<open>tag\<close> and \<open>eof\<close>.
\<close>

definition pb_decode_tag :: "pb_env \<Rightarrow> (pb_istream, bool \<times> pb_wire_type \<times> u32 \<times> bool) cm" where
  "pb_decode_tag E =
     cbind (ctry (pb_decode_varint32 E)) (\<lambda>r.
     case r of
       Fail \<Rightarrow> cbind cget (\<lambda>s. cret (False, 0, 0, bytes_left s = 0))
     | Ok temp \<Rightarrow>
        if temp = 0 then cret (False, 0, 0, True)
        else cret (True, temp AND 7, drop_bit 3 temp, False))"

definition pb_skip_field :: "pb_env \<Rightarrow> pb_wire_type \<Rightarrow> (pb_istream, unit) cm" where
  "pb_skip_field E wire_type =
     (if wire_type = PB_WT_VARINT then pb_skip_varint E
      else if wire_type = PB_WT_64BIT then cbind (pb_read E To_null 8) (\<lambda>_. cret ())
      else if wire_type = PB_WT_STRING then pb_skip_string E
      else if wire_type = PB_WT_32BIT then cbind (pb_read E To_null 4) (\<lambda>_. cret ())
      else PB_RETURN_ERROR ''invalid wire_type'')"

text \<open>
  The varint branch of \<open>read_raw_value\<close>; \<open>acc\<close> holds the bytes stored so far, and the result
  is the content of the buffer (whose length is the value left in \<open>*size\<close>).
\<close>

function raw_varint_loop :: "pb_env \<Rightarrow> nat \<Rightarrow> byte list \<Rightarrow> (pb_istream, byte list) cm" where
  "raw_varint_loop E mx acc =
     (if Suc (length acc) > mx then cfail
      else cbind (pb_read E To_local 1) (\<lambda>bs.
        if continues (hd bs) then raw_varint_loop E mx (acc @ [hd bs]) else cret (acc @ [hd bs])))"
  by pat_completeness auto
termination by (relation "measure (\<lambda>(E, mx, acc). Suc mx - length acc)") auto

declare raw_varint_loop.simps [simp del]

definition read_raw_value :: "pb_env \<Rightarrow> pb_wire_type \<Rightarrow> nat \<Rightarrow> (pb_istream, byte list) cm" where
  "read_raw_value E wire_type mx =
     (if wire_type = PB_WT_VARINT then raw_varint_loop E mx []
      else if wire_type = PB_WT_64BIT then pb_read E To_local 8
      else if wire_type = PB_WT_32BIT then pb_read E To_local 4
      else PB_RETURN_ERROR ''invalid wire_type'')"

section \<open>Substreams\<close>

definition pb_make_string_substream :: "pb_env \<Rightarrow> (pb_istream, pb_istream) cm" where
  "pb_make_string_substream E =
     cbind (pb_decode_varint32 E) (\<lambda>sz.
     cbind cget (\<lambda>s.
     if bytes_left s < unat sz then PB_RETURN_ERROR ''parent stream too short''
     else cbind (cput (s\<lparr>bytes_left := bytes_left s - unat sz\<rparr>)) (\<lambda>_.
          cret (s\<lparr>bytes_left := unat sz\<rparr>))))"

definition pb_close_string_substream :: "pb_env \<Rightarrow> pb_istream \<Rightarrow> (pb_istream, unit) cm" where
  "pb_close_string_substream E substream =
     cbind (if bytes_left substream \<noteq> 0
            then on_stream substream
                   (cbind (pb_read E To_null (bytes_left substream)) (\<lambda>_. cret ()))
            else cret (Ok (), substream)) (\<lambda>(r, substream').
     case r of
       Fail \<Rightarrow> cfail
     | Ok _ \<Rightarrow> cbind cget (\<lambda>s.
         cput (s\<lparr>in_state := in_state substream', errmsg := errmsg substream'\<rparr>)))"

section \<open>Fixed-width integers\<close>

text \<open>The sum of shifted bytes that the code builds, little endian.\<close>

definition pb_decode_fixed32 :: "pb_env \<Rightarrow> addr \<Rightarrow> (pb_istream, unit) cm" where
  "pb_decode_fixed32 E dest =
     cbind (pb_read E To_local 4) (\<lambda>bytes.
     store_u32 dest
       (push_bit 0 (ucast (bytes ! 0)) OR push_bit 8 (ucast (bytes ! 1)) OR
        push_bit 16 (ucast (bytes ! 2)) OR push_bit 24 (ucast (bytes ! 3))))"

definition store_u64 :: "addr \<Rightarrow> u64 \<Rightarrow> ('s, unit) cm" where
  "store_u64 a v = store_nat a 8 (unat v)"

definition pb_decode_fixed64 :: "pb_env \<Rightarrow> addr \<Rightarrow> (pb_istream, unit) cm" where
  "pb_decode_fixed64 E dest =
     cbind (pb_read E To_local 8) (\<lambda>bytes.
     store_u64 dest
       (push_bit 0 (ucast (bytes ! 0)) OR push_bit 8 (ucast (bytes ! 1)) OR
        push_bit 16 (ucast (bytes ! 2)) OR push_bit 24 (ucast (bytes ! 3)) OR
        push_bit 32 (ucast (bytes ! 4)) OR push_bit 40 (ucast (bytes ! 5)) OR
        push_bit 48 (ucast (bytes ! 6)) OR push_bit 56 (ucast (bytes ! 7))))"

end
