(* ===== verification/Pb_Decode.thy ===== *)
theory Pb_Decode
  imports Pb_Istream
begin

text \<open>
  The message decoder of \<open>pb_decode.c\<close>: field decoders, static, pointer and callback fields,
  extensions, default initialisation, and \<open>pb_decode\<close> with its submessages and its check of the
  required fields. As in the encoder, \<open>d\<close> bounds the depth of the C call stack in nested
  messages, and the parameter \<open>dsub\<close> is \<open>pb_dec_submessage\<close> at the depth of the nested call.
\<close>

type_synonym decoder = "pb_field \<Rightarrow> addr \<Rightarrow> (pb_istream, unit) cm"

section \<open>Field decoders\<close>

text \<open>
  \<open>clamped = *(intN_t* )dest = (intN_t)svalue\<close>, for the four sizes: the value is stored in
  \<open>data_size\<close> bytes, and read back sign-extended (zero-extended for the unsigned types).
\<close>

definition store_signed :: "pb_field \<Rightarrow> addr \<Rightarrow> u64 \<Rightarrow> ('a pb_stream_scheme, u64) cm" where
  "store_signed field dest v =
     (if data_size field = 8 then cbind (store_nat dest 8 (unat v)) (\<lambda>_. cret v)
      else if data_size field = 4
      then cbind (store_nat dest 4 (unat (ucast v :: u32))) (\<lambda>_. cret (scast (ucast v :: u32)))
      else if data_size field = 2
      then cbind (store_nat dest 2 (unat (ucast v :: u16))) (\<lambda>_. cret (scast (ucast v :: u16)))
      else if data_size field = 1
      then cbind (store_nat dest 1 (unat (ucast v :: u8))) (\<lambda>_. cret (scast (ucast v :: u8)))
      else PB_RETURN_ERROR ''invalid data_size'')"

definition store_unsigned :: "pb_field \<Rightarrow> addr \<Rightarrow> u64 \<Rightarrow> ('a pb_stream_scheme, u64) cm" where
  "store_unsigned field dest v =
     (if data_size field = 8 then cbind (store_nat dest 8 (unat v)) (\<lambda>_. cret v)
      else if data_size field = 4
      then cbind (store_nat dest 4 (unat (ucast v :: u32))) (\<lambda>_. cret (ucast (ucast v :: u32)))
      else if data_size field = 2
      then cbind (store_nat dest 2 (unat (ucast v :: u16))) (\<lambda>_. cret (ucast (ucast v :: u16)))
      else if data_size field = 1
      then cbind (store_nat dest 1 (unat (ucast v :: u8))) (\<lambda>_. cret (ucast (ucast v :: u8)))
      else PB_RETURN_ERROR ''invalid data_size'')"

definition pb_dec_varint :: "pb_env \<Rightarrow> decoder" where
  "pb_dec_varint E field dest =
     cbind (pb_decode_varint E) (\<lambda>value.
     let svalue = (if data_size field = 8 then value else scast (ucast value :: u32)) in
     cbind (store_signed field dest svalue) (\<lambda>clamped.
     if clamped \<noteq> svalue then PB_RETURN_ERROR ''integer too large'' else cret ()))"

definition pb_dec_uvarint :: "pb_env \<Rightarrow> decoder" where
  "pb_dec_uvarint E field dest =
     cbind (pb_decode_varint E) (\<lambda>value.
     cbind (store_unsigned field dest value) (\<lambda>clamped.
     if clamped \<noteq> value then PB_RETURN_ERROR ''integer too large'' else cret ()))"

definition pb_dec_svarint :: "pb_env \<Rightarrow> decoder" where
  "pb_dec_svarint E field dest =
     cbind (pb_decode_svarint E) (\<lambda>value.
     cbind (store_signed field dest value) (\<lambda>clamped.
     if clamped \<noteq> value then PB_RETURN_ERROR ''integer too large'' else cret ()))"

definition pb_dec_fixed32 :: "pb_env \<Rightarrow> decoder" where
  "pb_dec_fixed32 E field dest = pb_decode_fixed32 E dest"

definition pb_dec_fixed64 :: "pb_env \<Rightarrow> decoder" where
  "pb_dec_fixed64 E field dest = pb_decode_fixed64 E dest"

definition pb_dec_bytes :: "pb_env \<Rightarrow> decoder" where
  "pb_dec_bytes E field dest =
     cbind (pb_decode_varint32 E) (\<lambda>sz.
     if sz > PB_SIZE_MAX then PB_RETURN_ERROR ''bytes overflow''
     else let alloc_size = PB_BYTES_ARRAY_T_ALLOCSIZE sz in
     if unat sz > alloc_size then PB_RETURN_ERROR ''size too large''
     else if PB_ATYPE (ftype field) = PB_ATYPE_POINTER then PB_RETURN_ERROR ''no malloc support''
     else if alloc_size > unat (data_size field) then PB_RETURN_ERROR ''bytes overflow''
     else cbind (store_u32 dest sz) (\<lambda>_.
          cbind (pb_read E (To_mem (dest + 4)) (unat sz)) (\<lambda>_. cret ())))"

text \<open>\<open>alloc_size = size + 1\<close> is computed in 32 bits.\<close>

definition pb_dec_string :: "pb_env \<Rightarrow> decoder" where
  "pb_dec_string E field dest =
     cbind (pb_decode_varint32 E) (\<lambda>sz.
     let alloc_size = sz + 1 in
     if alloc_size < sz then PB_RETURN_ERROR ''size too large''
     else if PB_ATYPE (ftype field) = PB_ATYPE_POINTER then PB_RETURN_ERROR ''no malloc support''
     else if alloc_size > data_size field then PB_RETURN_ERROR ''string overflow''
     else cbind (ctry (pb_read E (To_mem dest) (unat sz))) (\<lambda>status.
          cbind (cstore (dest + int (unat sz)) [0]) (\<lambda>_.
          cbind (of_res status) (\<lambda>_. cret ()))))"

definition memset0 :: "addr \<Rightarrow> nat \<Rightarrow> ('s, unit) cm" where
  "memset0 a n = cstore a (replicate n 0)"

definition pb_dec_fixed_length_bytes :: "pb_env \<Rightarrow> decoder" where
  "pb_dec_fixed_length_bytes E field dest =
     cbind (pb_decode_varint32 E) (\<lambda>sz.
     if sz > PB_SIZE_MAX then PB_RETURN_ERROR ''bytes overflow''
     else if sz = 0 then memset0 dest (unat (data_size field))
     else if sz \<noteq> data_size field
     then PB_RETURN_ERROR ''incorrect fixed length bytes size''
     else cbind (pb_read E (To_mem dest) (unat (data_size field))) (\<lambda>_. cret ()))"

text \<open>The table \<open>PB_DECODERS\<close>; calling its NULL entry or reading past its end is undefined.\<close>

definition PB_DECODERS :: "pb_env \<Rightarrow> decoder \<Rightarrow> u8 \<Rightarrow> decoder" where
  "PB_DECODERS E dsub ltype =
     (if ltype = PB_LTYPE_VARINT then pb_dec_varint E
      else if ltype = PB_LTYPE_UVARINT then pb_dec_uvarint E
      else if ltype = PB_LTYPE_SVARINT then pb_dec_svarint E
      else if ltype = PB_LTYPE_FIXED32 then pb_dec_fixed32 E
      else if ltype = PB_LTYPE_FIXED64 then pb_dec_fixed64 E
      else if ltype = PB_LTYPE_BYTES then pb_dec_bytes E
      else if ltype = PB_LTYPE_STRING then pb_dec_string E
      else if ltype = PB_LTYPE_SUBMESSAGE then dsub
      else if ltype = PB_LTYPE_FIXED_LENGTH_BYTES then pb_dec_fixed_length_bytes E
      else (\<lambda>_ _. cub))"

section \<open>Extensions as iterators\<close>

definition iter_from_extension :: "pb_env \<Rightarrow> addr \<Rightarrow> ('s, pb_field_iter) cm" where
  "iter_from_extension E extension =
     cbind (load_ptr (ext_type_field extension)) (\<lambda>t.
     cbind (cdef (ext_fields E t)) (\<lambda>fs.
     cbind (load_ptr (ext_dest_field extension)) (\<lambda>dest.
     cbind (cdef (pb_field_iter_begin fs dest)) (\<lambda>(_, it).
     cret (it\<lparr>pData := (if PB_ATYPE (ftype (hd fs)) = PB_ATYPE_POINTER
                       then ext_dest_field extension else dest),
              pSize := ext_found_field extension\<rparr>)))))"

section \<open>Default values\<close>

text \<open>\<open>pb_message_set_to_defaults\<close>, over \<open>pb_field_set_to_default\<close>.\<close>

definition message_defaults_with ::
    "(pb_field_iter \<Rightarrow> ('s, unit) cm) \<Rightarrow> pb_field list \<Rightarrow> addr \<Rightarrow> ('s, unit) cm" where
  "message_defaults_with fdef fs dest =
     cbind (cdef (pb_field_iter_begin fs dest)) (\<lambda>(nonempty, it).
     if nonempty then iter_loop fdef it else cret ())"

text \<open>The walk over the extension list; \<open>fdef\<close> is the recursive call.\<close>

partial_function (option) extension_defaults_loop ::
    "pb_env \<Rightarrow> (pb_field_iter \<Rightarrow> ('s, unit) cm) \<Rightarrow> addr \<Rightarrow> 's \<Rightarrow> mem \<Rightarrow> (unit res \<times> 's \<times> mem) option" where
  "extension_defaults_loop E fdef ext s m =
     (if ext = 0 then cret () s m
      else cbind (store_bool (ext_found_field ext) False) (\<lambda>_ s m.
        cbind (iter_from_extension E ext) (\<lambda>it s m.
        cbind (fdef it) (\<lambda>_ s m.
        cbind (load_ptr (ext_next_field ext)) (\<lambda>nxt s m.
        extension_defaults_loop E fdef nxt s m) s m) s m) s m) s m)"

declare extension_defaults_loop.simps [code]

definition field_default_with ::
    "pb_env \<Rightarrow> (pb_field_iter \<Rightarrow> ('s, unit) cm) \<Rightarrow> pb_field_iter \<Rightarrow> ('s, unit) cm" where
  "field_default_with E fdef it =
     (let f = cur it; t = ftype f in
      if PB_LTYPE t = PB_LTYPE_EXTENSION then
        cbind (load_ptr (pData it)) (extension_defaults_loop E fdef)
      else if PB_ATYPE t = PB_ATYPE_STATIC then
        cbind (if PB_HTYPE t = PB_HTYPE_OPTIONAL \<and> pSize it \<noteq> pData it
               then cbind (store_bool (pSize it) False) (\<lambda>_. cret True)
               else if PB_HTYPE t = PB_HTYPE_REPEATED \<or> PB_HTYPE t = PB_HTYPE_ONEOF
               then cbind (store_u32 (pSize it) 0) (\<lambda>_. cret False)
               else cret True) (\<lambda>init_data.
        if init_data then
          if PB_LTYPE t = PB_LTYPE_SUBMESSAGE
          then cbind (cdef (descs E (ptr f))) (\<lambda>fs. message_defaults_with fdef fs (pData it))
          else if ptr f \<noteq> 0 then ccopy (pData it) (ptr f) (unat (data_size f))
          else memset0 (pData it) (unat (data_size f))
        else cret ())
      else if PB_ATYPE t = PB_ATYPE_POINTER then
        cbind (store_nat (pData it) 8 0) (\<lambda>_.
        if PB_HTYPE t = PB_HTYPE_REPEATED \<or> PB_HTYPE t = PB_HTYPE_ONEOF
        then store_u32 (pSize it) 0 else cret ())
      else cret ())"

primrec pb_field_set_to_default :: "pb_env \<Rightarrow> nat \<Rightarrow> pb_field_iter \<Rightarrow> ('s, unit) cm" where
  "pb_field_set_to_default E 0 = (\<lambda>it. cub)"
| "pb_field_set_to_default E (Suc d) = field_default_with E (pb_field_set_to_default E d)"

definition pb_message_set_to_defaults :: "pb_env \<Rightarrow> nat \<Rightarrow> pb_field list \<Rightarrow> addr \<Rightarrow> ('s, unit) cm" where
  "pb_message_set_to_defaults E d = message_defaults_with (pb_field_set_to_default E d)"

section \<open>Decoding one field\<close>

text \<open>\<open>(char* )iter->pData + iter->pos->data_size * (*size)\<close>, the product in 32 bits.\<close>

definition item_addr :: "pb_field_iter \<Rightarrow> u32 \<Rightarrow> addr" where
  "item_addr it n = pData it + int (unat (data_size (cur it) * n))"

text \<open>
  \<open>while (substream.bytes_left > 0 && *size < array_size) { ... (*size)++; }\<close>, run on the
  substream; \<open>Fail\<close> is \<open>status = false\<close>.
\<close>

partial_function (option) packed_loop ::
    "decoder \<Rightarrow> pb_field_iter \<Rightarrow> pb_istream \<Rightarrow> mem \<Rightarrow> (unit res \<times> pb_istream \<times> mem) option" where
  "packed_loop func it s m =
     (if bytes_left s > 0
      then cbind (load_u32 (pSize it)) (\<lambda>n s m.
        if n < array_size (cur it)
        then cbind (func (cur it) (item_addr it n)) (\<lambda>_ s m.
             cbind (load_u32 (pSize it)) (\<lambda>n' s m.
             cbind (store_u32 (pSize it) (n' + 1)) (\<lambda>_ s m. packed_loop func it s m) s m) s m) s m
        else cret () s m) s m
      else cret () s m)"

declare packed_loop.simps [code]

definition decode_static_field ::
    "pb_env \<Rightarrow> nat \<Rightarrow> decoder \<Rightarrow> pb_wire_type \<Rightarrow> pb_field_iter \<Rightarrow> (pb_istream, unit) cm" where
  "decode_static_field E d dsub wire_type it =
     (let f = cur it; t = ftype f; func = PB_DECODERS E dsub (PB_LTYPE t) in
      if PB_LTYPE t > PB_LTYPE_FIXED_LENGTH_BYTES then cub
      else if PB_HTYPE t = PB_HTYPE_REQUIRED then func f (pData it)
      else if PB_HTYPE t = PB_HTYPE_OPTIONAL then
        cbind (if pSize it \<noteq> pData it then store_bool (pSize it) True else cret ()) (\<lambda>_.
        func f (pData it))
      else if PB_HTYPE t = PB_HTYPE_REPEATED then
        if wire_type = PB_WT_STRING \<and> PB_LTYPE t \<le> PB_LTYPE_LAST_PACKABLE then
          cbind (pb_make_string_substream E) (\<lambda>substream.
          cbind (on_stream substream (packed_loop func it)) (\<lambda>(status, substream').
          if bytes_left substream' \<noteq> 0 then PB_RETURN_ERROR ''array overflow''
          else cbind (pb_close_string_substream E substream') (\<lambda>_. of_res status)))
        else
          cbind (load_u32 (pSize it)) (\<lambda>n.
          if n \<ge> array_size f then PB_RETURN_ERROR ''array overflow''
          else cbind (store_u32 (pSize it) (n + 1)) (\<lambda>_. func f (item_addr it n)))
      else
        cbind (store_u32 (pSize it) (tag f)) (\<lambda>_.
        cbind (if PB_LTYPE t = PB_LTYPE_SUBMESSAGE
               then cbind (memset0 (pData it) (unat (data_size f))) (\<lambda>_.
                    cbind (cdef (descs E (ptr f))) (\<lambda>fs.
                    pb_message_set_to_defaults E d fs (pData it)))
               else cret ()) (\<lambda>_.
        func f (pData it))))"

text \<open>Without \<open>PB_ENABLE_MALLOC\<close>.\<close>

definition decode_pointer_field :: "pb_wire_type \<Rightarrow> pb_field_iter \<Rightarrow> (pb_istream, unit) cm" where
  "decode_pointer_field wire_type it = PB_RETURN_ERROR ''no malloc support''"

text \<open>\<open>do { decode(&substream, ...) } while (substream.bytes_left)\<close>, on the substream.\<close>

partial_function (option) callback_loop ::
    "(pb_istream, unit) cm \<Rightarrow> pb_istream \<Rightarrow> mem \<Rightarrow> (unit res \<times> pb_istream \<times> mem) option" where
  "callback_loop decode s m =
     cbind decode (\<lambda>_ s m. if bytes_left s \<noteq> 0 then callback_loop decode s m else cret () s m) s m"

declare callback_loop.simps [code]

text \<open>
  A local buffer of \<open>n\<close> bytes whose address is passed on: it occupies storage that belongs to
  no other object while the body runs, and none afterwards.
\<close>

definition with_local_buffer :: "pb_env \<Rightarrow> nat \<Rightarrow> byte list \<Rightarrow> (addr \<Rightarrow> ('s, 'a) cm) \<Rightarrow> ('s, 'a) cm" where
  "with_local_buffer E n bytes body = (\<lambda>s m.
     let a = stack_slot E m; content = bytes @ replicate (n - length bytes) 0 in
     if list_all (\<lambda>i. mget m (a + int i) = None) [0..<n] \<and> a > 0 then
       (case body a s (Mem (\<lambda>x. if a \<le> x \<and> x < a + int n then Some (content ! nat (x - a)) else mget m x)) of
          None \<Rightarrow> None
        | Some (r, s', m') \<Rightarrow>
            Some (r, s', Mem (\<lambda>x. if a \<le> x \<and> x < a + int n then None else mget m' x)))
     else None)"

definition decode_callback_field ::
    "pb_env \<Rightarrow> pb_wire_type \<Rightarrow> pb_field_iter \<Rightarrow> (pb_istream, unit) cm" where
  "decode_callback_field E wire_type it =
     cbind (load_ptr (pData it)) (\<lambda>fn.
     let arg = callback_arg (pData it) in
     if fn = 0 then pb_skip_field E wire_type
     else if wire_type = PB_WT_STRING then
       cbind (pb_make_string_substream E) (\<lambda>substream.
       cbind (on_stream substream (callback_loop (decode_callbacks E fn (cur it) arg)))
         (\<lambda>(r, substream').
       case r of
         Fail \<Rightarrow> PB_RETURN_ERROR ''callback failed''
       | Ok _ \<Rightarrow> pb_close_string_substream E substream'))
     else
       cbind (read_raw_value E wire_type 10) (\<lambda>bytes.
       cbind (with_local_buffer E 10 bytes (\<lambda>buffer.
         on_stream (pb_istream_from_buffer buffer (length bytes))
           (decode_callbacks E fn (cur it) arg))) (\<lambda>(r, _). of_res r)))"

definition decode_field ::
    "pb_env \<Rightarrow> nat \<Rightarrow> decoder \<Rightarrow> pb_wire_type \<Rightarrow> pb_field_iter \<Rightarrow> (pb_istream, unit) cm" where
  "decode_field E d dsub wire_type it =
     (let at = PB_ATYPE (ftype (cur it)) in
      if at = PB_ATYPE_STATIC then decode_static_field E d dsub wire_type it
      else if at = PB_ATYPE_POINTER then decode_pointer_field wire_type it
      else if at = PB_ATYPE_CALLBACK then decode_callback_field E wire_type it
      else PB_RETURN_ERROR ''invalid field type'')"

section \<open>Decoding extensions\<close>

definition default_extension_decoder ::
    "pb_env \<Rightarrow> nat \<Rightarrow> decoder \<Rightarrow> addr \<Rightarrow> u32 \<Rightarrow> pb_wire_type \<Rightarrow> (pb_istream, unit) cm" where
  "default_extension_decoder E d dsub extension t wire_type =
     cbind (load_ptr (ext_type_field extension)) (\<lambda>ty.
     cbind (cdef (ext_fields E ty)) (\<lambda>fs.
     if tag (hd fs) \<noteq> t then cret ()
     else cbind (iter_from_extension E extension) (\<lambda>it.
          cbind (store_bool (ext_found_field extension) True) (\<lambda>_.
          decode_field E d dsub wire_type it))))"

text \<open>\<open>while (extension != NULL && pos == stream->bytes_left)\<close>\<close>

partial_function (option) decode_extension_loop ::
    "pb_env \<Rightarrow> nat \<Rightarrow> decoder \<Rightarrow> u32 \<Rightarrow> pb_wire_type \<Rightarrow> nat \<Rightarrow> addr \<Rightarrow>
     pb_istream \<Rightarrow> mem \<Rightarrow> (unit res \<times> pb_istream \<times> mem) option" where
  "decode_extension_loop E d dsub t wire_type pos0 extension s m =
     (if extension \<noteq> 0 \<and> pos0 = bytes_left s
      then cbind (load_ptr (ext_type_field extension)) (\<lambda>ty s m.
        cbind (cdef (ext_types E ty)) (\<lambda>et s m.
        cbind (if ext_decode et \<noteq> 0 then ext_decoders E (ext_decode et) extension t wire_type
               else default_extension_decoder E d dsub extension t wire_type) (\<lambda>_ s m.
        cbind (load_ptr (ext_next_field extension)) (\<lambda>nxt s m.
        decode_extension_loop E d dsub t wire_type pos0 nxt s m) s m) s m) s m) s m
      else cret () s m)"

declare decode_extension_loop.simps [code]

definition decode_extension ::
    "pb_env \<Rightarrow> nat \<Rightarrow> decoder \<Rightarrow> u32 \<Rightarrow> pb_wire_type \<Rightarrow> pb_field_iter \<Rightarrow> (pb_istream, unit) cm" where
  "decode_extension E d dsub t wire_type it =
     cbind (load_ptr (pData it)) (\<lambda>extension.
     cbind cget (\<lambda>s.
     decode_extension_loop E d dsub t wire_type (bytes_left s) extension))"

section \<open>Messages\<close>

text \<open>The bit set \<open>fields_seen\<close> and the update for a required field.\<close>

definition mark_seen :: "pb_field_iter \<Rightarrow> u32 list \<Rightarrow> u32 list" where
  "mark_seen it seen =
     (if PB_HTYPE (ftype (cur it)) = PB_HTYPE_REQUIRED \<and>
         required_field_index it < PB_MAX_REQUIRED_FIELDS
      then let w = required_field_index it div 32; tmp = push_bit (required_field_index it mod 32) 1
           in seen[w := seen ! w OR tmp]
      else seen)"

text \<open>
  The part of the loop body after a failed \<open>pb_field_iter_find\<close>: look for the extension
  field, then offer the field to it, then skip. The output is the iterator and the new
  \<open>extension_range_start\<close>.
\<close>

definition decode_unknown ::
    "pb_env \<Rightarrow> nat \<Rightarrow> decoder \<Rightarrow> u32 \<Rightarrow> pb_wire_type \<Rightarrow> u32 \<Rightarrow> pb_field_iter \<Rightarrow>
     (pb_istream, pb_field_iter \<times> u32) cm" where
  "decode_unknown E d dsub t wire_type rs it =
     cbind
       (if t \<ge> rs then
          cbind (cdef (find_extension_field it)) (\<lambda>(found, it').
          let rs' = (if found then tag (cur it') else -1) in
          if t \<ge> rs' then
            cbind cget (\<lambda>s.
            cbind (decode_extension E d dsub t wire_type it') (\<lambda>_.
            cbind cget (\<lambda>s'.
            cret (bytes_left s \<noteq> bytes_left s', it', rs'))))
          else cret (False, it', rs'))
        else cret (False, it, rs)) (\<lambda>(handled, it', rs').
     if handled then cret (it', rs')
     else cbind (pb_skip_field E wire_type) (\<lambda>_. cret (it', rs')))"

text \<open>The main loop; the output is the iterator and \<open>fields_seen\<close> after it.\<close>

partial_function (option) decode_loop ::
    "pb_env \<Rightarrow> nat \<Rightarrow> decoder \<Rightarrow> pb_field_iter \<Rightarrow> u32 list \<Rightarrow> u32 \<Rightarrow>
     pb_istream \<Rightarrow> mem \<Rightarrow> ((pb_field_iter \<times> u32 list) res \<times> pb_istream \<times> mem) option" where
  "decode_loop E d dsub it seen rs s m =
     (if bytes_left s = 0 then cret (it, seen) s m
      else cbind (pb_decode_tag E) (\<lambda>(ok, wire_type, t, eof) s m.
        if \<not> ok then (if eof then cret (it, seen) s m else cfail s m)
        else cbind (cdef (pb_field_iter_find it t)) (\<lambda>(found, it') s m.
          if \<not> found
          then cbind (decode_unknown E d dsub t wire_type rs it') (\<lambda>(it'', rs') s m.
               decode_loop E d dsub it'' seen rs' s m) s m
          else cbind (decode_field E d dsub wire_type it') (\<lambda>_ s m.
               decode_loop E d dsub it' (mark_seen it' seen) rs s m) s m) s m) s m)"

declare decode_loop.simps [code]

text \<open>
  \<open>do { req_field_count = ...; last_type = ...; } while (pb_field_iter_next(&iter));\<close> the output
  is the last count, the last type and the iterator after the loop.
\<close>

function required_loop :: "pb_field_iter \<Rightarrow> (nat \<times> u8 \<times> pb_field_iter) option" where
  "required_loop it =
     (case pb_field_iter_next it of
        None \<Rightarrow> None
      | Some (False, it') \<Rightarrow> Some (required_field_index it, ftype (cur it), it')
      | Some (True, it') \<Rightarrow> required_loop it')"
  by pat_completeness auto
termination
  by (relation "measure (\<lambda>it. length (start it) - pos it)") (auto dest!: iter_next_measure)

declare required_loop.simps [simp del]

definition required_count :: "pb_field_iter \<Rightarrow> nat option" where
  "required_count it =
     map_option (\<lambda>(n, last_type, it').
       if PB_HTYPE last_type = PB_HTYPE_REQUIRED \<and> iter_readable it' \<and> tag (cur it') \<noteq> 0
       then Suc n else n) (required_loop it)"

text \<open>
  The check of \<open>fields_seen\<close> against \<open>n\<close> required fields: a read past the array, and a shift
  of a 32-bit value by 32, are undefined.
\<close>

definition allbits :: u32 where
  "allbits = NOT 0"

text \<open>\<open>for (i = 0; i < (req_field_count >> 5); i++) if (fields_seen[i] != allbits) ...\<close>\<close>

fun check_words :: "u32 list \<Rightarrow> nat \<Rightarrow> bool option" where
  "check_words seen 0 = Some True"
| "check_words seen (Suc k) =
     (case seen of
        [] \<Rightarrow> None
      | w # seen' \<Rightarrow> if w \<noteq> allbits then Some False else check_words seen' k)"

definition check_required :: "u32 list \<Rightarrow> nat \<Rightarrow> (pb_istream, unit) cm" where
  "check_required seen n =
     (if n = 0 then cret ()
      else cbind (cdef (check_words seen (n div 32))) (\<lambda>whole.
        if \<not> whole then PB_RETURN_ERROR ''missing required field''
        else if n div 32 \<ge> length seen \<or> n mod 32 = 0 then cub
        else if seen ! (n div 32) \<noteq> drop_bit (32 - n mod 32) allbits
        then PB_RETURN_ERROR ''missing required field''
        else cret ()))"

definition pb_decode_noinit_with ::
    "pb_env \<Rightarrow> nat \<Rightarrow> decoder \<Rightarrow> pb_field list \<Rightarrow> addr \<Rightarrow> (pb_istream, unit) cm" where
  "pb_decode_noinit_with E d dsub fs dest =
     cbind (cdef (pb_field_iter_begin fs dest)) (\<lambda>(_, it).
     cbind (decode_loop E d dsub it [0, 0] 0) (\<lambda>(it', seen).
     cbind (cdef (required_count it')) (check_required seen)))"

definition pb_decode_with ::
    "pb_env \<Rightarrow> nat \<Rightarrow> decoder \<Rightarrow> pb_field list \<Rightarrow> addr \<Rightarrow> (pb_istream, unit) cm" where
  "pb_decode_with E d dsub fs dest =
     cbind (pb_message_set_to_defaults E d fs dest) (\<lambda>_. pb_decode_noinit_with E d dsub fs dest)"

primrec pb_dec_submessage :: "pb_env \<Rightarrow> nat \<Rightarrow> decoder" where
  "pb_dec_submessage E 0 = (\<lambda>field dest. cub)"
| "pb_dec_submessage E (Suc d) = (\<lambda>field dest.
     cbind (pb_make_string_substream E) (\<lambda>substream.
     if ptr field = 0 then PB_RETURN_ERROR ''invalid field descriptor''
     else cbind (cdef (descs E (ptr field))) (\<lambda>fs.
     cbind (on_stream substream
        (if PB_HTYPE (ftype field) = PB_HTYPE_REPEATED
         then pb_decode_with E d (pb_dec_submessage E d) fs dest
         else pb_decode_noinit_with E d (pb_dec_submessage E d) fs dest)) (\<lambda>(status, substream').
     cbind (pb_close_string_substream E substream') (\<lambda>_. of_res status)))))"

definition pb_decode_noinit :: "pb_env \<Rightarrow> nat \<Rightarrow> pb_field list \<Rightarrow> addr \<Rightarrow> (pb_istream, unit) cm" where
  "pb_decode_noinit E d = pb_decode_noinit_with E d (pb_dec_submessage E d)"

definition pb_decode :: "pb_env \<Rightarrow> nat \<Rightarrow> pb_field list \<Rightarrow> addr \<Rightarrow> (pb_istream, unit) cm" where
  "pb_decode E d fs dest =
     cbind (pb_message_set_to_defaults E d fs dest) (\<lambda>_. pb_decode_noinit E d fs dest)"

definition pb_decode_delimited :: "pb_env \<Rightarrow> nat \<Rightarrow> pb_field list \<Rightarrow> addr \<Rightarrow> (pb_istream, unit) cm" where
  "pb_decode_delimited E d fs dest =
     cbind (pb_make_string_substream E) (\<lambda>substream.
     cbind (on_stream substream (pb_decode E d fs dest)) (\<lambda>(status, substream').
     cbind (pb_close_string_substream E substream') (\<lambda>_. of_res status)))"

end
