(* ===== verification/Wire_Format.thy ===== *)
theory Wire_Format
  imports Pb_Types
begin

text \<open>
  The wire format that the encoder and the decoder of nanopb share, as functions on byte lists:
  base-128 varints, the zigzag map, tags and length-prefixed strings. They are the reference the
  stream code is compared with.
\<close>

section \<open>Varints\<close>

text \<open>The reference encoding: groups of seven bits, least significant first.\<close>

fun leb128 :: "nat \<Rightarrow> byte list" where
  "leb128 n = (if n < 128 then [word_of_nat n] else word_of_nat (128 + n mod 128) # leb128 (n div 128))"

declare leb128.simps [simp del]

lemma leb128_nonempty [simp]: "leb128 n \<noteq> []"
  by (subst leb128.simps) simp

lemma length_leb128_le: "n < 128 ^ k \<Longrightarrow> 0 < k \<Longrightarrow> length (leb128 n) \<le> k"
proof (induction n arbitrary: k rule: leb128.induct)
  case (1 n)
  show ?case
  proof (cases "n < 128")
    case True
    with 1 show ?thesis by (subst leb128.simps) simp
  next
    case False
    obtain j where k: "k = Suc j" using 1 by (cases k) auto
    with 1 False have "0 < j" by (cases j) auto
    moreover have "n div 128 < 128 ^ j"
      using 1 k by (simp add: less_mult_imp_div_less mult.commute)
    ultimately have "length (leb128 (n div 128)) \<le> j"
      using 1 False by blast
    with False k show ?thesis by (subst leb128.simps) simp
  qed
qed

lemma length_leb128_u64: "length (leb128 (unat (v :: u64))) \<le> 10"
  using unat_lt_len [of v] by (intro length_leb128_le) simp_all

text \<open>Zigzag: the sign bit becomes the lowest bit.\<close>

definition zigzag :: "int \<Rightarrow> nat" where
  "zigzag x = nat (if x < 0 then - 2 * x - 1 else 2 * x)"

section \<open>Tags and strings\<close>

definition wire_tag :: "pb_wire_type \<Rightarrow> u32 \<Rightarrow> byte list" where
  "wire_tag wt field_number = leb128 (8 * unat field_number + unat wt)"

text \<open>A length-prefixed byte string.\<close>

definition wire_string :: "byte list \<Rightarrow> byte list" where
  "wire_string bs = leb128 (length bs) @ bs"

lemma length_wire_string: "length bs < 2 ^ 61 \<Longrightarrow> length (wire_string bs) < 2 ^ 62"
  using length_leb128_le [of "length bs" 9] by (simp add: wire_string_def)

end
