(* ===== verification/Pb_Parse.thy ===== *)
theory Pb_Parse
  imports Pb_Istream Wire_Format
begin

text \<open>
  What the readers of \<open>Pb_Istream\<close> do on a buffer stream. \<open>parses f bs v\<close> says that on any
  stream whose next bytes are \<open>bs\<close> the computation consumes exactly these bytes, leaves the
  memory alone and returns \<open>v\<close>; \<open>rejects f bs msg\<close> says that it fails there with the message
  \<open>msg\<close>. The varint functions are described on all inputs: by the value of the groups of seven
  bits, by their overflow, and by the end of the stream. Together with \<open>Wire_Format\<close> this gives
  the round trips with the encoder.
\<close>

section \<open>Consuming input\<close>

definition eat :: "nat \<Rightarrow> pb_istream \<Rightarrow> pb_istream" where
  "eat n s = s\<lparr>in_state := in_state s + int n, bytes_left := bytes_left s - n\<rparr>"

lemma eat_simps [simp]:
  "in_callback (eat n s) = in_callback s" "in_state (eat n s) = in_state s + int n"
  "bytes_left (eat n s) = bytes_left s - n" "errmsg (eat n s) = errmsg s"
  by (simp_all add: eat_def)

lemma eat_0 [simp]: "eat 0 s = s"
  by (simp add: eat_def)

lemma eat_eat [simp]: "eat k (eat n s) = eat (n + k) s"
  by (simp add: eat_def algebra_simps)

text \<open>The stream is a buffer whose next bytes are \<open>bs\<close>.\<close>

definition next_bytes :: "pb_istream \<Rightarrow> mem \<Rightarrow> byte list \<Rightarrow> bool" where
  "next_bytes s m bs \<longleftrightarrow> in_callback s = Buf_read \<and> length bs \<le> bytes_left s \<and>
     mload m (in_state s) (length bs) = Some bs"

lemma mload_append:
  "mload m a (length bs + length cs) = Some (bs @ cs) \<longleftrightarrow>
     mload m a (length bs) = Some bs \<and> mload m (a + int (length bs)) (length cs) = Some cs"
proof (cases "mload m a (length bs)")
  case None
  then show ?thesis by (simp add: mload_add)
next
  case xs: (Some xs)
  then have "length xs = length bs" by (rule mload_length)
  with xs show ?thesis
    by (cases "mload m (a + int (length bs)) (length cs)") (auto simp: mload_add)
qed

lemma next_bytes_append:
  "next_bytes s m (bs @ cs) \<longleftrightarrow> next_bytes s m bs \<and> next_bytes (eat (length bs) s) m cs"
  by (auto simp: next_bytes_def mload_append)

lemma next_bytes_Cons:
  "next_bytes s m (b # bs) \<longleftrightarrow> next_bytes s m [b] \<and> next_bytes (eat 1 s) m bs"
  using next_bytes_append [of s m "[b]" bs] by simp

definition parses :: "(pb_istream, 'a) cm \<Rightarrow> byte list \<Rightarrow> 'a \<Rightarrow> bool" where
  "parses f bs v \<longleftrightarrow> (\<forall>s m. next_bytes s m bs \<longrightarrow> f s m = Some (Ok v, eat (length bs) s, m))"

lemma parsesD: "parses f bs v \<Longrightarrow> next_bytes s m bs \<Longrightarrow> f s m = Some (Ok v, eat (length bs) s, m)"
  by (simp add: parses_def)

lemma parses_cret: "parses (cret v) [] v"
  by (simp add: parses_def cret_def)

lemma parses_cbind: "parses f bs v \<Longrightarrow> parses (g v) cs w \<Longrightarrow> parses (cbind f g) (bs @ cs) w"
  by (auto simp: parses_def next_bytes_append cbind_Ok)

lemma parses_then: "parses f bs v \<Longrightarrow> parses (g v) [] w \<Longrightarrow> parses (cbind f g) bs w"
  using parses_cbind [of f bs v g "[]" w] by simp

lemma parses_map: "parses f bs v \<Longrightarrow> parses (cbind f (\<lambda>x. cret (h x))) bs (h v)"
  using parses_cbind [OF _ parses_cret] by fastforce

text \<open>The stream is a buffer that holds \<open>bs\<close> and ends there.\<close>

definition only_bytes :: "pb_istream \<Rightarrow> mem \<Rightarrow> byte list \<Rightarrow> bool" where
  "only_bytes s m bs \<longleftrightarrow> next_bytes s m bs \<and> bytes_left s = length bs"

lemma only_bytes_Cons:
  "only_bytes s m (b # bs) \<longleftrightarrow> next_bytes s m [b] \<and> only_bytes (eat 1 s) m bs"
  by (subst only_bytes_def, subst next_bytes_Cons) (auto simp: only_bytes_def next_bytes_def)

text \<open>Failing after \<open>bs\<close> were consumed; \<open>PB_SET_ERROR\<close> keeps the message of an earlier failure.\<close>

definition rejects :: "(pb_istream, 'a) cm \<Rightarrow> byte list \<Rightarrow> string \<Rightarrow> bool" where
  "rejects f bs msg \<longleftrightarrow>
     (\<forall>s m. next_bytes s m bs \<longrightarrow> f s m = Some (Fail, PB_SET_ERROR msg (eat (length bs) s), m))"

lemma rejects_cbind: "parses f bs v \<Longrightarrow> rejects (g v) cs msg \<Longrightarrow> rejects (cbind f g) (bs @ cs) msg"
  by (auto simp: parses_def rejects_def next_bytes_append cbind_Ok)

lemma rejects_first: "rejects f bs msg \<Longrightarrow> rejects (cbind f g) bs msg"
  by (simp add: rejects_def cbind_Fail)

lemma rejects_error: "rejects (PB_RETURN_ERROR msg) [] msg"
  by (simp add: rejects_def PB_RETURN_ERROR_def)

section \<open>Bytes\<close>

lemma parses_readbyte: "parses (pb_readbyte E) [b] b"
proof -
  have "pb_readbyte E s m = Some (Ok b, eat 1 s, m)" if "next_bytes s m [b]" for s m
  proof -
    from that have "in_callback s = Buf_read" "1 \<le> bytes_left s" "mload m (in_state s) 1 = Some [b]"
      by (simp_all add: next_bytes_def)
    then show ?thesis
      by (simp add: pb_readbyte_def cbind_def cget_def ctry_def call_in_callback_def buf_read_def
          cput_def cload_def consume_def cret_def eat_def del: mload.simps)
  qed
  then show ?thesis by (simp add: parses_def)
qed

lemma parses_byte: "parses (g b) bs v \<Longrightarrow> parses (cbind (pb_readbyte E) g) (b # bs) v"
  using parses_cbind [OF parses_readbyte, of g b bs v E] by simp

lemma rejects_byte: "rejects (g b) bs msg \<Longrightarrow> rejects (cbind (pb_readbyte E) g) (b # bs) msg"
  using rejects_cbind [OF parses_readbyte, of g b bs msg E] by simp

lemma readbyte_eof:
  "bytes_left s = 0 \<Longrightarrow> pb_readbyte E s m = Some (Fail, PB_SET_ERROR ''end-of-stream'' s, m)"
  by (simp add: pb_readbyte_def cbind_def cget_def PB_RETURN_ERROR_def)

lemma parses_read_local: "parses (pb_read E To_local (length bs)) bs bs"
proof -
  have "pb_read E To_local (length bs) s m = Some (Ok bs, eat (length bs) s, m)" if "next_bytes s m bs" for s m
  proof -
    from that have "in_callback s = Buf_read" "length bs \<le> bytes_left s" "mload m (in_state s) (length bs) = Some bs"
      by (simp_all add: next_bytes_def)
    then show ?thesis
      by (simp add: pb_read_def pb_read_buf_def cbind_def cget_def ctry_def call_in_callback_def buf_read_def
          cput_def cload_def consume_def cret_def eat_def)
  qed
  then show ?thesis by (simp add: parses_def)
qed

lemma parses_read1: "parses (g [b]) bs v \<Longrightarrow> parses (cbind (pb_read E To_local (Suc 0)) g) (b # bs) v"
  using parses_cbind [of "pb_read E To_local 1" "[b]" "[b]" g bs v] parses_read_local [of E "[b]"] by simp

lemma parses_skip: "parses (cbind (pb_read E To_null (length bs)) (\<lambda>_. cret ())) bs ()"
proof -
  have "cbind (pb_read E To_null (length bs)) (\<lambda>_. cret ()) s m = Some (Ok (), eat (length bs) s, m)"
    if "next_bytes s m bs" for s m
  proof -
    from that have "in_callback s = Buf_read" "length bs \<le> bytes_left s"
      by (simp_all add: next_bytes_def)
    then show ?thesis
      by (simp add: pb_read_def pb_read_buf_def cbind_def cget_def ctry_def call_in_callback_def buf_read_def
          cput_def consume_def cret_def eat_def)
  qed
  then show ?thesis by (simp add: parses_def)
qed

lemma read_too_long:
  "bytes_left s < n \<Longrightarrow> in_callback s = Buf_read \<Longrightarrow>
     pb_read E d n s m = Some (Fail, PB_SET_ERROR ''end-of-stream'' s, m)"
  by (simp add: pb_read_def pb_read_buf_def cbind_def cget_def PB_RETURN_ERROR_def)

section \<open>Varints\<close>

fun leb_val :: "byte list \<Rightarrow> nat" where
  "leb_val [] = 0"
| "leb_val (b # bs) = unat b mod 128 + 128 * leb_val bs"

text \<open>A complete varint: every byte but the last one has its top bit set.\<close>

fun is_varint :: "byte list \<Rightarrow> bool" where
  "is_varint [] = False"
| "is_varint (b # bs) = (if continues b then is_varint bs else bs = [])"

lemma continues_iff: "continues b \<longleftrightarrow> 128 \<le> unat b"
proof -
  have "b AND 0x80 = (if bit b 7 then 0x80 else 0)"
    by (rule bit_eqI) (auto simp: bit_simps bit_numeral_rec less_Suc_eq numeral_eq_Suc)
  then have "continues b \<longleftrightarrow> bit b 7" by (simp add: continues_def)
  also have "\<dots> \<longleftrightarrow> bit (unat b) 7"
    by (simp add: bit_unsigned_iff)
  also have "\<dots> \<longleftrightarrow> odd (unat b div 128)"
    by (simp add: bit_iff_odd)
  also have "\<dots> \<longleftrightarrow> 128 \<le> unat b"
  proof (cases "unat b < 128")
    case False
    then have "unat b div 128 = 1"
      using unat_lt_256 [of b] by (intro div_nat_eqI) simp_all
    with False show ?thesis by simp
  qed simp
  finally show ?thesis .
qed

lemma unat_continued: "unat (word_of_nat (128 + n mod 128) :: byte) = 128 + n mod 128"
proof -
  have "128 + n mod 128 < 256" by simp
  then show ?thesis unfolding unat_of_nat by simp
qed

lemma is_varint_leb128: "is_varint (leb128 n)"
proof (induction n rule: leb128.induct)
  case (1 n)
  then show ?case
    by (subst leb128.simps) (auto simp: continues_iff unat_continued unat_of_nat simp del: of_nat_add)
qed

lemma leb_val_leb128: "leb_val (leb128 n) = n"
proof (induction n rule: leb128.induct)
  case (1 n)
  then show ?case
    by (subst leb128.simps) (auto simp: unat_continued unat_of_nat simp del: of_nat_add)
qed

lemma or_group:
  assumes "unat (w :: 'a::len word) < 128"
  shows "w OR push_bit 7 v = w + 128 * v"
proof -
  have "take_bit 7 w = w"
  proof (rule unsigned_word_eqI)
    show "unat (take_bit 7 w) = unat w"
      using assms by (simp add: unsigned_take_bit_eq take_bit_eq_mod [of _ "_ :: nat"])
  qed
  then have "w AND push_bit 7 v = take_bit 7 w AND push_bit 7 v" by simp
  also have "\<dots> = 0"
    by (rule bit_eqI) (auto simp: bit_simps)
  finally have "w AND push_bit 7 v = 0" .
  then show ?thesis
    by (simp add: disjunctive_add_eq_or [symmetric] push_bit_eq_mult)
qed

text \<open>One step of either varint loop, on the accumulated value.\<close>

lemma leb_step:
  assumes "7 \<le> LENGTH('a::len)"
  shows "((r :: 'a word) OR push_bit p (ucast (b AND 0x7F))) OR push_bit (p + 7) (word_of_nat v)
     = r OR push_bit p (word_of_nat (unat b mod 128 + 128 * v))"
proof -
  have "unat b mod 128 < 2 ^ LENGTH('a)"
    using assms power_increasing [of 7 "LENGTH('a)" "2 :: nat"] by (simp add: less_le_trans)
  then have u: "unat (ucast (b AND 0x7F) :: 'a word) = unat b mod 128"
    by (simp add: unsigned_ucast_eq unat_take7 take_bit_eq_mod [of _ "_ :: nat"])
  then have w: "(ucast (b AND 0x7F) :: 'a word) = word_of_nat (unat b mod 128)"
    by (metis of_nat_unat ucast_id)
  have "word_of_nat (unat b mod 128) OR push_bit 7 (word_of_nat v) = (word_of_nat (unat b mod 128 + 128 * v) :: 'a word)"
    using u by (subst or_group) (simp_all add: w)
  then have "push_bit p (word_of_nat (unat b mod 128 + 128 * v)) =
      push_bit p (ucast (b AND 0x7F) :: 'a word) OR push_bit (p + 7) (word_of_nat v)"
    unfolding w by (simp only: push_bit_or [symmetric] push_bit_push_bit [symmetric])
  then show ?thesis by (simp add: or.assoc)
qed

lemma parses_varint_loop:
  "is_varint bs \<Longrightarrow> p + 7 * length bs < 71 \<Longrightarrow>
     parses (varint_loop E p r) bs (r OR push_bit p (word_of_nat (leb_val bs)))"
proof (induction bs arbitrary: p r)
  case Nil
  then show ?case by simp
next
  case (Cons b bs)
  let ?r = "r OR push_bit p (ucast (b AND 0x7F)) :: u64"
  have unf: "varint_loop E p r = cbind (pb_readbyte E) (\<lambda>b.
        let result' = r OR push_bit p (ucast (b AND 0x7F)) in
        if continues b then varint_loop E (p + 7) result' else cret result')"
    using Cons.prems by (subst varint_loop.simps) simp
  have "parses (if continues b then varint_loop E (p + 7) ?r else cret ?r) bs
      (?r OR push_bit (p + 7) (word_of_nat (leb_val bs)))"
  proof (cases "continues b")
    case True
    with Cons show ?thesis by simp
  next
    case False
    with Cons.prems show ?thesis by (simp add: parses_cret)
  qed
  then have "parses (varint_loop E p r) ([b] @ bs) (?r OR push_bit (p + 7) (word_of_nat (leb_val bs)))"
    unfolding unf Let_def by (rule parses_cbind [OF parses_readbyte])
  then show ?case by (simp add: leb_step del: of_nat_add)
qed

lemma parses_varint:
  assumes "is_varint bs" "length bs \<le> 10"
  shows "parses (pb_decode_varint E) bs (word_of_nat (leb_val bs))"
  using parses_varint_loop [of bs 0 E 0] assms by (simp add: pb_decode_varint_def)

text \<open>The loop needs another byte after \<open>bs\<close>: it reports an overflow or the end of the stream.\<close>

lemma varint_loop_step:
  assumes "p < 64"
  shows "varint_loop E p r = cbind (pb_readbyte E) (\<lambda>b.
     if continues b then varint_loop E (p + 7) (r OR push_bit p (ucast (b AND 0x7F)))
     else cret (r OR push_bit p (ucast (b AND 0x7F))))"
  using assms by (subst varint_loop.simps) (simp add: Let_def)

lemma varint_loop_overflow:
  "list_all continues bs \<Longrightarrow> p < 64 + 7 \<Longrightarrow> 64 \<le> p + 7 * length bs \<Longrightarrow> p + 7 * length bs < 71 \<Longrightarrow>
     rejects (varint_loop E p r) bs ''varint overflow''"
proof (induction bs arbitrary: p r)
  case Nil
  then show ?case by (subst varint_loop.simps) (simp add: rejects_error)
next
  case (Cons b bs)
  then show ?case by (subst varint_loop_step) (auto intro!: rejects_byte)
qed

lemma varint_overflow:
  assumes "list_all continues bs" "length bs = 10"
  shows "rejects (pb_decode_varint E) bs ''varint overflow''"
  using varint_loop_overflow [of bs 0 E 0] assms by (simp add: pb_decode_varint_def)

lemma varint_loop_eof:
  "list_all continues bs \<Longrightarrow> only_bytes s m bs \<Longrightarrow> p + 7 * length bs < 64 \<Longrightarrow>
     varint_loop E p r s m = Some (Fail, PB_SET_ERROR ''end-of-stream'' (eat (length bs) s), m)"
proof (induction bs arbitrary: p r s)
  case Nil
  then show ?case
    by (simp add: varint_loop_step only_bytes_def cbind_Fail readbyte_eof)
next
  case (Cons b bs)
  then have "pb_readbyte E s m = Some (Ok b, eat 1 s, m)" "only_bytes (eat 1 s) m bs"
    using parsesD [OF parses_readbyte, of s m b E] by (simp_all add: only_bytes_Cons)
  with Cons show ?case by (simp add: varint_loop_step cbind_Ok)
qed

lemma varint_eof:
  assumes "list_all continues bs" "only_bytes s m bs" "length bs < 10"
  shows "pb_decode_varint E s m = Some (Fail, PB_SET_ERROR ''end-of-stream'' (eat (length bs) s), m)"
  using varint_loop_eof [of bs s m 0 E 0] assms by (simp add: pb_decode_varint_def)

text \<open>The 32-bit version treats the first byte apart.\<close>

lemma varint32_loop_step:
  assumes "p < 32"
  shows "varint32_loop E p r = cbind (pb_readbyte E) (\<lambda>b.
     if continues b then varint32_loop E (p + 7) (r OR push_bit p (ucast (b AND 0x7F)))
     else cret (r OR push_bit p (ucast (b AND 0x7F))))"
  using assms by (subst varint32_loop.simps) (simp add: Let_def)

lemma parses_varint32_loop:
  "is_varint bs \<Longrightarrow> p + 7 * length bs < 39 \<Longrightarrow>
     parses (varint32_loop E p r) bs (r OR push_bit p (word_of_nat (leb_val bs)))"
proof (induction bs arbitrary: p r)
  case Nil
  then show ?case by simp
next
  case (Cons b bs)
  let ?r = "r OR push_bit p (ucast (b AND 0x7F)) :: u32"
  have "parses (if continues b then varint32_loop E (p + 7) ?r else cret ?r) bs
      (?r OR push_bit (p + 7) (word_of_nat (leb_val bs)))"
    using Cons by (cases "continues b") (simp_all add: parses_cret)
  then have "parses (varint32_loop E p r) (b # bs) (?r OR push_bit (p + 7) (word_of_nat (leb_val bs)))"
    using Cons.prems by (subst varint32_loop_step) (auto intro!: parses_byte)
  then show ?case by (simp add: leb_step del: of_nat_add)
qed

lemma small_byte: "\<not> continues b \<Longrightarrow> unat b < 128"
  by (simp add: continues_iff)

lemma parses_varint32:
  assumes v: "is_varint bs" and l: "length bs \<le> 5"
  shows "parses (pb_decode_varint32 E) bs (word_of_nat (leb_val bs))"
proof (cases bs)
  case Nil
  with v show ?thesis by simp
next
  case (Cons b cs)
  have "parses (if \<not> continues b then cret (ucast b) else varint32_loop E 7 (ucast (b AND 0x7F))) cs
      (word_of_nat (leb_val (b # cs)))"
  proof (cases "continues b")
    case True
    have "parses (varint32_loop E 7 (ucast (b AND 0x7F))) cs
        (ucast (b AND 0x7F) OR push_bit 7 (word_of_nat (leb_val cs)))"
      using v l True Cons by (intro parses_varint32_loop) simp_all
    with True leb_step [of "0 :: u32" 0 b "leb_val cs"] show ?thesis by (simp del: of_nat_add)
  next
    case False
    with v Cons have "cs = []" by simp
    moreover have "(ucast b :: u32) = word_of_nat (leb_val [b])"
      by (rule ucast_word_of_nat) (use small_byte [OF False] in simp)
    ultimately show ?thesis
      using False parses_cret [of "ucast b :: u32"] by simp
  qed
  then show ?thesis
    unfolding Cons pb_decode_varint32_def by (rule parses_byte)
qed

lemma varint32_loop_overflow:
  "list_all continues bs \<Longrightarrow> p < 32 + 7 \<Longrightarrow> 32 \<le> p + 7 * length bs \<Longrightarrow> p + 7 * length bs < 39 \<Longrightarrow>
     rejects (varint32_loop E p r) bs ''varint overflow''"
proof (induction bs arbitrary: p r)
  case Nil
  then show ?case by (subst varint32_loop.simps) (simp add: rejects_error)
next
  case (Cons b bs)
  then show ?case by (subst varint32_loop_step) (auto intro!: rejects_byte)
qed

lemma varint32_overflow:
  assumes "list_all continues bs" "length bs = 5"
  shows "rejects (pb_decode_varint32 E) bs ''varint overflow''"
proof (cases bs)
  case Nil
  with assms show ?thesis by simp
next
  case (Cons b cs)
  with assms show ?thesis
    unfolding pb_decode_varint32_def by (auto intro!: rejects_byte varint32_loop_overflow)
qed

lemma varint32_loop_eof:
  "list_all continues bs \<Longrightarrow> only_bytes s m bs \<Longrightarrow> p + 7 * length bs < 32 \<Longrightarrow>
     varint32_loop E p r s m = Some (Fail, PB_SET_ERROR ''end-of-stream'' (eat (length bs) s), m)"
proof (induction bs arbitrary: p r s)
  case Nil
  then show ?case
    by (simp add: varint32_loop_step only_bytes_def cbind_Fail readbyte_eof)
next
  case (Cons b bs)
  then have "pb_readbyte E s m = Some (Ok b, eat 1 s, m)" "only_bytes (eat 1 s) m bs"
    using parsesD [OF parses_readbyte, of s m b E] by (simp_all add: only_bytes_Cons)
  with Cons show ?case by (simp add: varint32_loop_step cbind_Ok)
qed

lemma varint32_eof:
  assumes "list_all continues bs" "only_bytes s m bs" "length bs < 5"
  shows "pb_decode_varint32 E s m = Some (Fail, PB_SET_ERROR ''end-of-stream'' (eat (length bs) s), m)"
proof (cases bs)
  case Nil
  with assms show ?thesis
    by (simp add: pb_decode_varint32_def cbind_Fail readbyte_eof only_bytes_def)
next
  case (Cons b cs)
  with assms(2) have "pb_readbyte E s m = Some (Ok b, eat 1 s, m)" "only_bytes (eat 1 s) m cs"
    using parsesD [OF parses_readbyte, of s m b E] by (simp_all add: only_bytes_Cons)
  moreover from assms Cons have "continues b" "list_all continues cs" "7 + 7 * length cs < 32" by simp_all
  ultimately show ?thesis
    using Cons varint32_loop_eof [of cs "eat 1 s" m 7 E "ucast (b AND 0x7F)"]
    by (simp add: pb_decode_varint32_def cbind_Ok)
qed

section \<open>Round trips of integers\<close>

lemma parses_leb128: "n < 2 ^ 64 \<Longrightarrow> parses (pb_decode_varint E) (leb128 n) (word_of_nat n)"
  using parses_varint [OF is_varint_leb128, of n E] length_leb128_le [of n 10]
  by (simp add: leb_val_leb128)

lemma parses_leb128_u32: "n < 2 ^ 32 \<Longrightarrow> parses (pb_decode_varint32 E) (leb128 n) (word_of_nat n)"
  using parses_varint32 [OF is_varint_leb128, of n E] length_leb128_le [of n 5]
  by (simp add: leb_val_leb128)

text \<open>The inverse of the zigzag map.\<close>

definition unzigzag :: "nat \<Rightarrow> int" where
  "unzigzag n = (if odd n then - int (n div 2) - 1 else int (n div 2))"

lemma unzigzag_zigzag: "unzigzag (zigzag x) = x"
proof (cases "x < 0")
  case True
  then have "nat (- 2 * x - 1) = 2 * nat (- x - 1) + 1" by simp
  then have "odd (nat (- 2 * x - 1))" "nat (- 2 * x - 1) div 2 = nat (- x - 1)" by simp_all
  with True show ?thesis by (simp add: zigzag_def unzigzag_def)
next
  case False
  then have "nat (2 * x) = 2 * nat x" by simp
  with False show ?thesis by (simp add: zigzag_def unzigzag_def)
qed

lemma zigzag_bound: "- (2 ^ 63) \<le> x \<Longrightarrow> x < 2 ^ 63 \<Longrightarrow> zigzag x < 2 ^ 64"
  by (auto simp: zigzag_def nat_less_iff)

lemma zigzag_decode:
  "(if (v :: u64) AND 1 \<noteq> 0 then NOT (drop_bit 1 v) else drop_bit 1 v) = word_of_int (unzigzag (unat v))"
proof -
  have o: "v AND 1 \<noteq> 0 \<longleftrightarrow> odd (unat v)"
    by (simp add: and_one_eq mod_2_eq_odd bit_unsigned_iff flip: bit_0)
  have "unat (drop_bit 1 v) = unat v div 2"
    unfolding unat_drop_bit_eq by (simp add: drop_bit_eq_div)
  then have "drop_bit 1 v = word_of_nat (unat v div 2)" by (metis of_nat_unat ucast_id)
  then have d: "drop_bit 1 v = word_of_int (int (unat v div 2))" by simp
  show ?thesis
    unfolding o d unzigzag_def by (simp add: not_eq_complement)
qed

lemma parses_svarint:
  assumes "is_varint bs" "length bs \<le> 10" "leb_val bs < 2 ^ 64"
  shows "parses (pb_decode_svarint E) bs (word_of_int (unzigzag (leb_val bs)))"
proof -
  have "unat (word_of_nat (leb_val bs) :: u64) = leb_val bs"
    using assms(3) by (simp add: unat_of_nat)
  with parses_map [OF parses_varint [OF assms(1,2), of E]] show ?thesis
    unfolding pb_decode_svarint_def zigzag_decode by metis
qed

lemma parses_zigzag:
  assumes "- (2 ^ 63) \<le> x" "x < 2 ^ 63"
  shows "parses (pb_decode_svarint E) (leb128 (zigzag x)) (word_of_int x)"
  using parses_svarint [OF is_varint_leb128, of "zigzag x" E] zigzag_bound [OF assms]
    length_leb128_le [of "zigzag x" 10] by (simp add: leb_val_leb128 unzigzag_zigzag)

section \<open>Tags\<close>

lemma parses_ctry: "parses f bs v \<Longrightarrow> parses (ctry f) bs (Ok v)"
  by (simp add: parses_def ctry_def)

lemma parses_tag_varint:
  assumes "is_varint bs" "length bs \<le> 5"
  shows "parses (pb_decode_tag E) bs
     (let temp = word_of_nat (leb_val bs) :: u32 in
      if temp = 0 then (False, 0, 0, True) else (True, temp AND 7, drop_bit 3 temp, False))"
  unfolding pb_decode_tag_def
  by (rule parses_then [OF parses_ctry [OF parses_varint32 [OF assms]]])
    (simp add: parses_cret Let_def)

lemma tag_parts:
  assumes wt: "unat (wt :: u32) < 8" and n: "unat (n :: u32) < 2 ^ 29"
  defines "temp \<equiv> word_of_nat (8 * unat n + unat wt) :: u32"
  shows "temp AND 7 = wt" "drop_bit 3 temp = n" "temp = 0 \<longleftrightarrow> wt = 0 \<and> n = 0"
proof -
  have u: "unat temp = 8 * unat n + unat wt"
    unfolding temp_def unat_of_nat using assms(1,2) by simp
  have "temp AND 7 = take_bit 3 temp"
    by (simp only: take_bit_eq_mask mask_eq_exp_minus_1) simp
  then have "unat (temp AND 7) = unat wt"
    using wt by (simp add: unsigned_take_bit_eq take_bit_eq_mod [of _ "_ :: nat"] u)
  then show "temp AND 7 = wt" by (rule unsigned_word_eqI)
  have "unat (drop_bit 3 temp) = unat n"
    unfolding unat_drop_bit_eq using wt by (simp add: drop_bit_eq_div u)
  then show "drop_bit 3 temp = n" by (rule unsigned_word_eqI)
  show "temp = 0 \<longleftrightarrow> wt = 0 \<and> n = 0"
    using u by (metis add_is_0 mult_is_0 unat_eq_0 zero_neq_numeral)
qed

lemma parses_wire_tag:
  assumes wt: "unat wt < 8" and n: "unat n < 2 ^ 29" and nz: "n \<noteq> 0"
  shows "parses (pb_decode_tag E) (wire_tag wt n) (True, wt, n, False)"
proof -
  have "8 * unat n + unat wt < 128 ^ 5" using wt n by simp
  then have "length (wire_tag wt n) \<le> 5"
    unfolding wire_tag_def by (rule length_leb128_le) simp
  from parses_tag_varint [OF is_varint_leb128 this [unfolded wire_tag_def], of E]
  show ?thesis
    using tag_parts [OF wt n] nz unfolding wire_tag_def leb_val_leb128 Let_def by simp
qed

section \<open>Skipping\<close>

lemma parses_skip_varint: "is_varint bs \<Longrightarrow> parses (pb_skip_varint E) bs ()"
proof (induction bs)
  case Nil
  then show ?case by simp
next
  case (Cons b bs)
  have unf: "pb_skip_varint E = cbind (pb_read E To_local (Suc 0)) (\<lambda>bs.
       if continues (hd bs) then pb_skip_varint E else cret ())"
    by (intro ext, subst pb_skip_varint.simps) (simp add: cbind_def split: option.splits prod.splits res.splits)
  have "parses (if continues (hd [b]) then pb_skip_varint E else cret ()) bs ()"
    using Cons by (auto simp: parses_cret)
  then show ?case
    by (subst unf) (rule parses_read1)
qed

text \<open>The bytes of a field after its tag, by wire type.\<close>

definition wire_payload :: "pb_wire_type \<Rightarrow> byte list \<Rightarrow> bool" where
  "wire_payload wt bs \<longleftrightarrow>
     (wt = PB_WT_VARINT \<and> is_varint bs) \<or>
     (wt = PB_WT_64BIT \<and> length bs = 8) \<or>
     (wt = PB_WT_32BIT \<and> length bs = 4) \<or>
     (wt = PB_WT_STRING \<and> (\<exists>cs. length cs < 2 ^ 32 \<and> bs = wire_string cs))"

lemma parses_len32: "n < 2 ^ 32 \<Longrightarrow> unat (word_of_nat n :: u32) = n"
  by (simp add: unat_of_nat)

lemma parses_skip_string:
  assumes "length cs < 2 ^ 32"
  shows "parses (pb_skip_string E) (wire_string cs) ()"
  unfolding pb_skip_string_def wire_string_def
  by (rule parses_cbind [OF parses_leb128_u32 [OF assms]])
    (simp only: parses_len32 [OF assms] parses_skip)

lemma parses_skip_field: "wire_payload wt bs \<Longrightarrow> parses (pb_skip_field E wt) bs ()"
  using parses_skip [of E bs] parses_skip_string [of _ E]
  by (auto simp: wire_payload_def pb_skip_field_def parses_skip_varint)

section \<open>Raw values\<close>

lemma parses_raw_varint:
  "is_varint bs \<Longrightarrow> length acc + length bs \<le> mx \<Longrightarrow> parses (raw_varint_loop E mx acc) bs (acc @ bs)"
proof (induction bs arbitrary: acc)
  case Nil
  then show ?case by simp
next
  case (Cons b bs)
  have "parses (if continues (hd [b]) then raw_varint_loop E mx (acc @ [hd [b]]) else cret (acc @ [hd [b]])) bs
      (acc @ b # bs)"
    using Cons.IH [of "acc @ [b]"] Cons.prems by (auto simp: parses_cret split: if_splits)
  then show ?case
    using Cons.prems by (subst raw_varint_loop.simps) (auto intro!: parses_read1)
qed

lemma parses_raw_value:
  assumes "wire_payload wt bs" "wt \<noteq> PB_WT_STRING" "length bs \<le> mx"
  shows "parses (read_raw_value E wt mx) bs bs"
  using assms parses_raw_varint [of bs "[]" mx E] parses_read_local [of E bs]
  by (auto simp: wire_payload_def read_raw_value_def)

lemma raw_varint_too_long:
  "list_all continues bs \<Longrightarrow> length acc + length bs = mx \<Longrightarrow> next_bytes s m bs \<Longrightarrow>
     raw_varint_loop E mx acc s m = Some (Fail, eat (length bs) s, m)"
proof (induction bs arbitrary: acc s)
  case Nil
  then show ?case by (subst raw_varint_loop.simps) (simp add: cfail_def)
next
  case (Cons b bs)
  then have "pb_read E To_local 1 s m = Some (Ok [b], eat 1 s, m)" "next_bytes (eat 1 s) m bs"
    using parsesD [OF parses_read_local, of s m "[b]" E] next_bytes_Cons [of s m b bs] by simp_all
  with Cons show ?case
    by (subst raw_varint_loop.simps) (simp add: cbind_Ok)
qed

section \<open>Substreams\<close>

text \<open>After the length prefix the parent is cut short, and the substream holds what was cut off.\<close>

lemma make_substream:
  assumes nb: "next_bytes s m (leb128 n)" and n: "n < 2 ^ 32" and fits: "length (leb128 n) + n \<le> bytes_left s"
  defines "t \<equiv> eat (length (leb128 n)) s"
  shows "pb_make_string_substream E s m =
     Some (Ok (t\<lparr>bytes_left := n\<rparr>), t\<lparr>bytes_left := bytes_left t - n\<rparr>, m)"
proof -
  have "\<not> bytes_left s - length (leb128 n) < n" using fits by linarith
  then show ?thesis
    using parsesD [OF parses_leb128_u32 [OF n] nb, of E]
    by (simp add: pb_make_string_substream_def cbind_Ok cbind_def cget_def cput_def cret_def
        parses_len32 [OF n] t_def)
qed

lemma make_substream_short:
  assumes nb: "next_bytes s m (leb128 n)" and n: "n < 2 ^ 32" and short: "bytes_left s < length (leb128 n) + n"
  shows "pb_make_string_substream E s m =
     Some (Fail, PB_SET_ERROR ''parent stream too short'' (eat (length (leb128 n)) s), m)"
proof -
  have "length (leb128 n) \<le> bytes_left s" using nb by (simp add: next_bytes_def)
  with short have "bytes_left s - length (leb128 n) < n" by linarith
  then show ?thesis
    using parsesD [OF parses_leb128_u32 [OF n] nb, of E]
    by (simp add: pb_make_string_substream_def cbind_Ok cbind_def cget_def PB_RETURN_ERROR_def
        parses_len32 [OF n])
qed

text \<open>Closing a substream skips what is left of it and moves the parent behind it.\<close>

lemma close_substream:
  assumes "in_callback sub = Buf_read"
  shows "pb_close_string_substream E sub s m =
     Some (Ok (), s\<lparr>in_state := in_state sub + int (bytes_left sub), errmsg := errmsg sub\<rparr>, m)"
  using assms
  by (simp add: pb_close_string_substream_def cbind_def on_stream_def pb_read_def pb_read_buf_def cget_def
      ctry_def call_in_callback_def buf_read_def cput_def cret_def consume_def)

section \<open>Fixed-width integers\<close>

lemma or_byte:
  assumes "8 \<le> LENGTH('a::len)"
  shows "(ucast (b :: byte) :: 'a word) OR push_bit 8 (word_of_nat v) = word_of_nat (unat b + 256 * v)"
proof -
  have w: "(ucast b :: 'a word) = word_of_nat (unat b)" by (rule ucast_word_of_nat) simp
  have "(ucast b :: 'a word) AND push_bit 8 (word_of_nat v) = 0"
    by (rule bit_eqI) (auto simp: bit_simps dest: bit_imp_le_length)
  then have "(ucast b :: 'a word) OR push_bit 8 (word_of_nat v) = ucast b + push_bit 8 (word_of_nat v)"
    by (simp add: disjunctive_add_eq_or)
  also have "\<dots> = word_of_nat (unat b + 256 * v)"
    by (subst w) (simp add: push_bit_eq_mult)
  finally show ?thesis .
qed

lemma le_word_Cons:
  assumes "8 \<le> LENGTH('a::len)"
  shows "(word_of_nat (le_val (b # bs)) :: 'a word) = ucast b OR push_bit 8 (word_of_nat (le_val bs))"
  using or_byte [OF assms] by simp

lemma le_word_32:
  assumes "length bs = 4"
  shows "(push_bit 0 (ucast (bs ! 0)) OR push_bit 8 (ucast (bs ! 1)) OR
      push_bit 16 (ucast (bs ! 2)) OR push_bit 24 (ucast (bs ! 3)) :: u32) = word_of_nat (le_val bs)"
proof -
  from assms obtain b0 b1 b2 b3 where "bs = [b0, b1, b2, b3]"
    by (auto simp: numeral_eq_Suc length_Suc_conv)
  then show ?thesis
    by (simp add: le_word_Cons push_bit_or del: le_val.simps(2))
qed

lemma le_word_64:
  assumes "length bs = 8"
  shows "(push_bit 0 (ucast (bs ! 0)) OR push_bit 8 (ucast (bs ! 1)) OR
      push_bit 16 (ucast (bs ! 2)) OR push_bit 24 (ucast (bs ! 3)) OR
      push_bit 32 (ucast (bs ! 4)) OR push_bit 40 (ucast (bs ! 5)) OR
      push_bit 48 (ucast (bs ! 6)) OR push_bit 56 (ucast (bs ! 7)) :: u64) = word_of_nat (le_val bs)"
proof -
  from assms obtain b0 b1 b2 b3 b4 b5 b6 b7 where "bs = [b0, b1, b2, b3, b4, b5, b6, b7]"
    by (auto simp: numeral_eq_Suc length_Suc_conv)
  then show ?thesis
    by (simp add: le_word_Cons push_bit_or del: le_val.simps(2))
qed

end
