(* ===== verification/Pb_Ostream.thy ===== *)
theory Pb_Ostream
  imports Pb_Common
begin

text \<open>
  Output streams (\<open>pb_ostream_t\<close> of \<open>pb_encode.c\<close>) and the primitive encoders: varints,
  zigzag integers, fixed-width integers, tags and length-prefixed byte strings. The contract
  between an encoder and its stream is stated in \<open>Pb_Emit\<close>.
\<close>

section \<open>Streams\<close>

text \<open>
  The source of a write: bytes of a local buffer, an address in memory, or NULL.
\<close>

datatype wsrc = Bytes "byte list" | At addr | Null_src

definition PB_OSTREAM_SIZING :: pb_ostream where
  "PB_OSTREAM_SIZING = \<lparr>errmsg = None, out_callback = Null_callback, out_state = 0,
     max_size = 0, bytes_written = 0\<rparr>"

definition pb_ostream_from_buffer :: "addr \<Rightarrow> u64 \<Rightarrow> pb_ostream" where
  "pb_ostream_from_buffer buf bufsize = \<lparr>errmsg = None, out_callback = Buf_write, out_state = buf,
     max_size = bufsize, bytes_written = 0\<rparr>"

definition buf_write :: "wsrc \<Rightarrow> nat \<Rightarrow> (pb_ostream, unit) cm" where
  "buf_write buf count =
     cbind cget (\<lambda>s.
     cbind (cput (s\<lparr>out_state := out_state s + int count\<rparr>)) (\<lambda>_.
     case buf of
       Bytes bs \<Rightarrow> if count \<le> length bs then cstore (out_state s) (take count bs) else cub
     | At a \<Rightarrow> ccopy (out_state s) a count
     | Null_src \<Rightarrow> if count = 0 then cret () else cub))"

text \<open>The call through \<open>stream->callback\<close>; a user callback gets the bytes it is handed.\<close>

definition call_out_callback :: "pb_env \<Rightarrow> wsrc \<Rightarrow> nat \<Rightarrow> (pb_ostream, unit) cm" where
  "call_out_callback E buf count =
     cbind cget (\<lambda>s. case out_callback s of
       Null_callback \<Rightarrow> cub
     | Buf_write \<Rightarrow> buf_write buf count
     | Out_callback n \<Rightarrow>
        (case buf of
           Bytes bs \<Rightarrow> if count \<le> length bs then out_callbacks E n (take count bs) else cub
         | At a \<Rightarrow> cbind (cload a count) (out_callbacks E n)
         | Null_src \<Rightarrow> if count = 0 then out_callbacks E n [] else cub))"

definition pb_write :: "pb_env \<Rightarrow> wsrc \<Rightarrow> u64 \<Rightarrow> (pb_ostream, unit) cm" where
  "pb_write E buf count =
     cbind cget (\<lambda>s.
     cbind
       (if out_callback s \<noteq> Null_callback
        then if bytes_written s + count > max_size s
             then PB_RETURN_ERROR ''stream full''
             else cbind (ctry (call_out_callback E buf (unat count))) (\<lambda>r.
                    case r of Fail \<Rightarrow> PB_RETURN_ERROR ''io error'' | Ok _ \<Rightarrow> cret ())
        else cret ()) (\<lambda>_.
     cbind cget (\<lambda>s'.
     cput (s'\<lparr>bytes_written := bytes_written s' + count\<rparr>))))"

section \<open>Varints\<close>

text \<open>\<open>while (value) { buffer[i] = (value & 0x7F) | 0x80; value >>= 7; i++; }\<close>\<close>

function varint_buffer :: "u64 \<Rightarrow> byte list" where
  "varint_buffer v =
     (if v = 0 then [] else ucast ((v AND 0x7F) OR 0x80) # varint_buffer (drop_bit 7 v))"
  by pat_completeness auto
termination
proof (relation "measure unat")
  show "wf (measure (unat :: u64 \<Rightarrow> nat))" by simp
next
  fix v :: u64
  assume "v \<noteq> 0"
  then have "0 < unat v" by (simp add: unat_gt_0)
  moreover have "unat (drop_bit 7 v) = unat v div 128"
    unfolding unat_drop_bit_eq by (simp add: drop_bit_eq_div)
  ultimately show "(drop_bit 7 v, v) \<in> measure unat" by simp
qed

declare varint_buffer.simps [simp del]

text \<open>\<open>buffer[i-1] &= 0x7F\<close>\<close>

definition clear_top_bit :: "byte list \<Rightarrow> byte list" where
  "clear_top_bit buf = buf[length buf - 1 := (buf ! (length buf - 1)) AND 0x7F]"

definition pb_encode_varint :: "pb_env \<Rightarrow> u64 \<Rightarrow> (pb_ostream, unit) cm" where
  "pb_encode_varint E value =
     (if value \<le> 0x7F then pb_write E (Bytes [ucast value]) 1
      else let buffer = varint_buffer value in
        if length buffer > 10 then cub
        else pb_write E (Bytes (clear_top_bit buffer)) (word_of_nat (length buffer)))"

definition pb_encode_svarint :: "pb_env \<Rightarrow> u64 \<Rightarrow> (pb_ostream, unit) cm" where
  "pb_encode_svarint E value =
     pb_encode_varint E (if value <s 0 then NOT (push_bit 1 value) else push_bit 1 value)"

section \<open>Fixed-width integers, tags and strings\<close>

definition pb_encode_fixed32 :: "pb_env \<Rightarrow> addr \<Rightarrow> (pb_ostream, unit) cm" where
  "pb_encode_fixed32 E value =
     cbind (load_u32 value) (\<lambda>val.
     pb_write E (Bytes [ucast (val AND 0xFF), ucast (drop_bit 8 val AND 0xFF),
       ucast (drop_bit 16 val AND 0xFF), ucast (drop_bit 24 val AND 0xFF)]) 4)"

definition load_u64 :: "addr \<Rightarrow> ('s, u64) cm" where
  "load_u64 a = cbind (load_nat a 8) (\<lambda>v. cret (word_of_nat v))"

definition pb_encode_fixed64 :: "pb_env \<Rightarrow> addr \<Rightarrow> (pb_ostream, unit) cm" where
  "pb_encode_fixed64 E value =
     cbind (load_u64 value) (\<lambda>val.
     pb_write E (Bytes [ucast (val AND 0xFF), ucast (drop_bit 8 val AND 0xFF),
       ucast (drop_bit 16 val AND 0xFF), ucast (drop_bit 24 val AND 0xFF),
       ucast (drop_bit 32 val AND 0xFF), ucast (drop_bit 40 val AND 0xFF),
       ucast (drop_bit 48 val AND 0xFF), ucast (drop_bit 56 val AND 0xFF)]) 8)"

definition pb_encode_tag :: "pb_env \<Rightarrow> pb_wire_type \<Rightarrow> u32 \<Rightarrow> (pb_ostream, unit) cm" where
  "pb_encode_tag E wiretype field_number =
     pb_encode_varint E (push_bit 3 (ucast field_number) OR ucast wiretype)"

text \<open>The wire type of a data type (\<open>None\<close> for \<open>default:\<close>).\<close>

definition wire_type_of :: "u8 \<Rightarrow> pb_wire_type option" where
  "wire_type_of ltype =
     (if ltype = PB_LTYPE_VARINT \<or> ltype = PB_LTYPE_UVARINT \<or> ltype = PB_LTYPE_SVARINT
      then Some PB_WT_VARINT
      else if ltype = PB_LTYPE_FIXED32 then Some PB_WT_32BIT
      else if ltype = PB_LTYPE_FIXED64 then Some PB_WT_64BIT
      else if ltype = PB_LTYPE_BYTES \<or> ltype = PB_LTYPE_STRING \<or> ltype = PB_LTYPE_SUBMESSAGE \<or>
        ltype = PB_LTYPE_FIXED_LENGTH_BYTES
      then Some PB_WT_STRING
      else None)"

definition pb_encode_tag_for_field :: "pb_env \<Rightarrow> pb_field \<Rightarrow> (pb_ostream, unit) cm" where
  "pb_encode_tag_for_field E field =
     (case wire_type_of (PB_LTYPE (ftype field)) of
        None \<Rightarrow> PB_RETURN_ERROR ''invalid field type''
      | Some wiretype \<Rightarrow> pb_encode_tag E wiretype (tag field))"

definition pb_encode_string :: "pb_env \<Rightarrow> wsrc \<Rightarrow> u64 \<Rightarrow> (pb_ostream, unit) cm" where
  "pb_encode_string E buffer sz =
     cbind (pb_encode_varint E sz) (\<lambda>_. pb_write E buffer sz)"

end
