(* ===== verification/Pb_Encode.thy ===== *)
theory Pb_Encode
  imports Pb_Ostream
begin

text \<open>
  The message encoder of \<open>pb_encode.c\<close>: field encoders, arrays with packing, the proto3 default
  check, basic, callback and extension fields, and \<open>pb_encode\<close> with its submessages. The first
  argument \<open>d\<close> bounds the depth of the C call stack in nested messages; running out of it is
  undefined behaviour (\<open>None\<close>).
\<close>

section \<open>Field encoders\<close>

text \<open>\<open>value = *(const intN_t*)src\<close> for the four sizes, sign-extended to 64 bits.\<close>

definition load_signed :: "pb_field \<Rightarrow> addr \<Rightarrow> ('a pb_stream_scheme, u64) cm" where
  "load_signed field src =
     (if data_size field = 1 then cbind (load_nat src 1) (\<lambda>v. cret (scast (word_of_nat v :: u8)))
      else if data_size field = 2 then cbind (load_nat src 2) (\<lambda>v. cret (scast (word_of_nat v :: u16)))
      else if data_size field = 4 then cbind (load_nat src 4) (\<lambda>v. cret (scast (word_of_nat v :: u32)))
      else if data_size field = 8 then cbind (load_nat src 8) (\<lambda>v. cret (word_of_nat v))
      else PB_RETURN_ERROR ''invalid data_size'')"

definition load_unsigned :: "pb_field \<Rightarrow> addr \<Rightarrow> ('a pb_stream_scheme, u64) cm" where
  "load_unsigned field src =
     (if data_size field = 1 then cbind (load_nat src 1) (\<lambda>v. cret (word_of_nat v))
      else if data_size field = 2 then cbind (load_nat src 2) (\<lambda>v. cret (word_of_nat v))
      else if data_size field = 4 then cbind (load_nat src 4) (\<lambda>v. cret (word_of_nat v))
      else if data_size field = 8 then cbind (load_nat src 8) (\<lambda>v. cret (word_of_nat v))
      else PB_RETURN_ERROR ''invalid data_size'')"

definition pb_enc_varint :: "pb_env \<Rightarrow> pb_field \<Rightarrow> addr \<Rightarrow> (pb_ostream, unit) cm" where
  "pb_enc_varint E field src = cbind (load_signed field src) (pb_encode_varint E)"

definition pb_enc_uvarint :: "pb_env \<Rightarrow> pb_field \<Rightarrow> addr \<Rightarrow> (pb_ostream, unit) cm" where
  "pb_enc_uvarint E field src = cbind (load_unsigned field src) (pb_encode_varint E)"

definition pb_enc_svarint :: "pb_env \<Rightarrow> pb_field \<Rightarrow> addr \<Rightarrow> (pb_ostream, unit) cm" where
  "pb_enc_svarint E field src = cbind (load_signed field src) (pb_encode_svarint E)"

definition pb_enc_fixed64 :: "pb_env \<Rightarrow> pb_field \<Rightarrow> addr \<Rightarrow> (pb_ostream, unit) cm" where
  "pb_enc_fixed64 E field src = pb_encode_fixed64 E src"

definition pb_enc_fixed32 :: "pb_env \<Rightarrow> pb_field \<Rightarrow> addr \<Rightarrow> (pb_ostream, unit) cm" where
  "pb_enc_fixed32 E field src = pb_encode_fixed32 E src"

definition pb_enc_bytes :: "pb_env \<Rightarrow> pb_field \<Rightarrow> addr \<Rightarrow> (pb_ostream, unit) cm" where
  "pb_enc_bytes E field src =
     (if src = 0 then pb_encode_string E Null_src 0
      else cbind (load_u32 src) (\<lambda>sz.
        if PB_ATYPE (ftype field) = PB_ATYPE_STATIC \<and>
           PB_BYTES_ARRAY_T_ALLOCSIZE sz > unat (data_size field)
        then PB_RETURN_ERROR ''bytes size exceeded''
        else pb_encode_string E (At (src + 4)) (ucast sz)))"

text \<open>\<open>while (size < max_size && *p != 0) { size++; p++; }\<close>\<close>

function strnlen_loop :: "mem \<Rightarrow> addr \<Rightarrow> nat \<Rightarrow> nat \<Rightarrow> nat option" where
  "strnlen_loop m p mx sz =
     (if sz < mx then
        (case mget m p of
           None \<Rightarrow> None
         | Some b \<Rightarrow> if b \<noteq> 0 then strnlen_loop m (p + 1) mx (Suc sz) else Some sz)
      else Some sz)"
  by pat_completeness auto
termination by (relation "measure (\<lambda>(m, p, mx, sz). mx - sz)") auto

declare strnlen_loop.simps [simp del]

definition pb_enc_string :: "pb_env \<Rightarrow> pb_field \<Rightarrow> addr \<Rightarrow> (pb_ostream, unit) cm" where
  "pb_enc_string E field src =
     (let mx = (if PB_ATYPE (ftype field) = PB_ATYPE_POINTER then 2 ^ 64 - 1
                else unat (data_size field)) in
      if src = 0 then pb_encode_string E (At src) 0
      else cbind (creads (\<lambda>m. strnlen_loop m src mx 0)) (\<lambda>sz.
        pb_encode_string E (At src) (word_of_nat sz)))"

definition pb_enc_fixed_length_bytes :: "pb_env \<Rightarrow> pb_field \<Rightarrow> addr \<Rightarrow> (pb_ostream, unit) cm" where
  "pb_enc_fixed_length_bytes E field src = pb_encode_string E (At src) (ucast (data_size field))"

section \<open>Submessages\<close>

text \<open>
  The parameter \<open>enc\<close> of the definitions below is \<open>pb_encode\<close> at the depth of the nested
  call; the recursion is closed in the definition of \<open>pb_encode\<close> at the end.
\<close>

type_synonym encoder = "pb_field list \<Rightarrow> addr \<Rightarrow> (pb_ostream, unit) cm"

definition pb_encode_submessage :: "pb_env \<Rightarrow> encoder \<Rightarrow> encoder" where
  "pb_encode_submessage E enc fs src =
     cbind (on_stream PB_OSTREAM_SIZING (enc fs src)) (\<lambda>(r, substream).
     case r of
       Fail \<Rightarrow> cbind cget (\<lambda>s. cbind (cput (s\<lparr>errmsg := errmsg substream\<rparr>)) (\<lambda>_. cfail))
     | Ok _ \<Rightarrow>
        let sz = bytes_written substream in
        cbind (pb_encode_varint E sz) (\<lambda>_.
        cbind cget (\<lambda>s.
        if out_callback s = Null_callback then pb_write E Null_src sz
        else if bytes_written s + sz > max_size s then PB_RETURN_ERROR ''stream full''
        else cbind (on_stream (substream\<lparr>out_callback := out_callback s, out_state := out_state s,
                      max_size := sz, bytes_written := 0, errmsg := None\<rparr>) (enc fs src))
          (\<lambda>(status, sub').
          cbind (cput (s\<lparr>bytes_written := bytes_written s + bytes_written sub',
                         out_state := out_state sub', errmsg := errmsg sub'\<rparr>)) (\<lambda>_.
          if bytes_written sub' \<noteq> sz then PB_RETURN_ERROR ''submsg size changed''
          else of_res status)))))"

definition pb_enc_submessage :: "pb_env \<Rightarrow> encoder \<Rightarrow> pb_field \<Rightarrow> addr \<Rightarrow> (pb_ostream, unit) cm" where
  "pb_enc_submessage E enc field src =
     (if ptr field = 0 then PB_RETURN_ERROR ''invalid field descriptor''
      else cbind (cdef (descs E (ptr field))) (\<lambda>fs. pb_encode_submessage E enc fs src))"

text \<open>The table \<open>PB_ENCODERS\<close>; calling its NULL entry or reading past its end is undefined.\<close>

definition PB_ENCODERS :: "pb_env \<Rightarrow> encoder \<Rightarrow> u8 \<Rightarrow> pb_field \<Rightarrow> addr \<Rightarrow> (pb_ostream, unit) cm" where
  "PB_ENCODERS E enc ltype =
     (if ltype = PB_LTYPE_VARINT then pb_enc_varint E
      else if ltype = PB_LTYPE_UVARINT then pb_enc_uvarint E
      else if ltype = PB_LTYPE_SVARINT then pb_enc_svarint E
      else if ltype = PB_LTYPE_FIXED32 then pb_enc_fixed32 E
      else if ltype = PB_LTYPE_FIXED64 then pb_enc_fixed64 E
      else if ltype = PB_LTYPE_BYTES then pb_enc_bytes E
      else if ltype = PB_LTYPE_STRING then pb_enc_string E
      else if ltype = PB_LTYPE_SUBMESSAGE then pb_enc_submessage E enc
      else if ltype = PB_LTYPE_FIXED_LENGTH_BYTES then pb_enc_fixed_length_bytes E
      else (\<lambda>_ _. cub))"

section \<open>Arrays\<close>

text \<open>\<open>for (i = 0; i < count; i++) { f(p); p += step; }\<close>\<close>

fun array_loop :: "(addr \<Rightarrow> ('s, unit) cm) \<Rightarrow> nat \<Rightarrow> addr \<Rightarrow> nat \<Rightarrow> ('s, unit) cm" where
  "array_loop f step p 0 = cret ()"
| "array_loop f step p (Suc n) = cbind (f p) (\<lambda>_. array_loop f step (p + int step) n)"

definition packable :: "u8 \<Rightarrow> bool" where
  "packable t \<longleftrightarrow> PB_LTYPE t \<le> PB_LTYPE_LAST_PACKABLE"

definition encode_array ::
    "pb_env \<Rightarrow> pb_field \<Rightarrow> addr \<Rightarrow> u32 \<Rightarrow> (pb_field \<Rightarrow> addr \<Rightarrow> (pb_ostream, unit) cm) \<Rightarrow>
     (pb_ostream, unit) cm" where
  "encode_array E field pd count func =
     (if count = 0 then cret ()
      else if PB_ATYPE (ftype field) \<noteq> PB_ATYPE_POINTER \<and> count > array_size field
      then PB_RETURN_ERROR ''array max size exceeded''
      else if packable (ftype field) then
        cbind (pb_encode_tag E PB_WT_STRING (tag field)) (\<lambda>_.
        cbind
          (if PB_LTYPE (ftype field) = PB_LTYPE_FIXED32 then cret (4 * ucast count)
           else if PB_LTYPE (ftype field) = PB_LTYPE_FIXED64 then cret (8 * ucast count)
           else cbind (on_stream PB_OSTREAM_SIZING
                  (array_loop (func field) (unat (data_size field)) pd (unat count)))
                (\<lambda>(r, sizestream). case r of Fail \<Rightarrow> cfail | Ok _ \<Rightarrow> cret (bytes_written sizestream)))
          (\<lambda>sz :: u64.
        cbind (pb_encode_varint E sz) (\<lambda>_.
        cbind cget (\<lambda>s.
        if out_callback s = Null_callback then pb_write E Null_src sz
        else array_loop (func field) (unat (data_size field)) pd (unat count)))))
      else
        array_loop (\<lambda>p.
          cbind (pb_encode_tag_for_field E field) (\<lambda>_.
          if PB_ATYPE (ftype field) = PB_ATYPE_POINTER \<and>
             (PB_LTYPE (ftype field) = PB_LTYPE_STRING \<or> PB_LTYPE (ftype field) = PB_LTYPE_BYTES)
          then cbind (load_ptr p) (func field)
          else func field p)) (unat (data_size field)) pd (unat count))"

section \<open>The proto3 default check\<close>

text \<open>\<open>for (i = 0; i < n; i++) if (p[i] != 0) return false; return true;\<close>\<close>

fun all_zero :: "mem \<Rightarrow> addr \<Rightarrow> nat \<Rightarrow> bool option" where
  "all_zero m p 0 = Some True"
| "all_zero m p (Suc n) =
     (case mget m p of None \<Rightarrow> None | Some b \<Rightarrow> if b \<noteq> 0 then Some False else all_zero m (p + 1) n)"

fun pb_check_proto3_default_value :: "pb_env \<Rightarrow> nat \<Rightarrow> pb_field \<Rightarrow> addr \<Rightarrow> ('s, bool) cm" where
  "pb_check_proto3_default_value E 0 field pd = cub"
| "pb_check_proto3_default_value E (Suc d) field pd =
     (if PB_ATYPE (ftype field) = PB_ATYPE_STATIC \<and> PB_LTYPE (ftype field) = PB_LTYPE_BYTES
      then cbind (load_u32 pd) (\<lambda>sz. cret (sz = 0))
      else if PB_ATYPE (ftype field) = PB_ATYPE_STATIC \<and> PB_LTYPE (ftype field) = PB_LTYPE_STRING
      then cbind (load_nat pd 1) (\<lambda>c. cret (c = 0))
      else if PB_ATYPE (ftype field) = PB_ATYPE_STATIC \<and>
        PB_LTYPE (ftype field) = PB_LTYPE_FIXED_LENGTH_BYTES
      then cret (data_size field = 0)
      else if PB_ATYPE (ftype field) = PB_ATYPE_STATIC \<and> PB_LTYPE (ftype field) = PB_LTYPE_SUBMESSAGE
      then cbind (cdef (Option.bind (descs E (ptr field)) (\<lambda>fs. pb_field_iter_begin fs pd)))
        (\<lambda>(nonempty, it).
           if nonempty
           then cbind (ctry (iter_loop (\<lambda>it.
                  cbind (pb_check_proto3_default_value E d (cur it) (pData it)) (\<lambda>b.
                  if b then cret () else cfail)) it)) (\<lambda>r. cret (r = Ok ()))
           else cret True)
      else creads (\<lambda>m. all_zero m pd (unat (data_size field))))"

section \<open>Fields\<close>

text \<open>The \<open>switch (PB_HTYPE(field->type))\<close> of \<open>encode_basic_field\<close>.\<close>

definition encode_by_htype ::
    "pb_env \<Rightarrow> encoder \<Rightarrow> pb_field \<Rightarrow> addr option \<Rightarrow> addr \<Rightarrow> bool \<Rightarrow> (pb_ostream, unit) cm" where
  "encode_by_htype E enc field ps pd implicit_has =
     (let func = PB_ENCODERS E enc (PB_LTYPE (ftype field));
          htype = PB_HTYPE (ftype field) in
      if htype = PB_HTYPE_REQUIRED then
        if pd = 0 then PB_RETURN_ERROR ''missing required field''
        else cbind (pb_encode_tag_for_field E field) (\<lambda>_. func field pd)
      else if htype = PB_HTYPE_OPTIONAL then
        cbind (case ps of None \<Rightarrow> cret implicit_has | Some a \<Rightarrow> load_bool a) (\<lambda>has.
        if has then cbind (pb_encode_tag_for_field E field) (\<lambda>_. func field pd) else cret ())
      else if htype = PB_HTYPE_REPEATED then
        cbind (case ps of None \<Rightarrow> cub | Some a \<Rightarrow> load_u32 a) (\<lambda>count.
        encode_array E field pd count func)
      else
        cbind (case ps of None \<Rightarrow> cub | Some a \<Rightarrow> load_u32 a) (\<lambda>which.
        if which = tag field
        then cbind (pb_encode_tag_for_field E field) (\<lambda>_. func field pd) else cret ()))"

definition encode_basic_field ::
    "pb_env \<Rightarrow> nat \<Rightarrow> encoder \<Rightarrow> pb_field \<Rightarrow> addr \<Rightarrow> (pb_ostream, unit) cm" where
  "encode_basic_field E d enc field pd0 =
     (if PB_LTYPE (ftype field) > PB_LTYPE_FIXED_LENGTH_BYTES then cub
      else
      cbind
        (if size_offset field \<noteq> 0 then cret (Some (pd0 + sint (size_offset field)), False)
         else if PB_HTYPE (ftype field) = PB_HTYPE_OPTIONAL
         then cbind (pb_check_proto3_default_value E d field pd0) (\<lambda>b. cret (None, \<not> b))
         else cret (None, True)) (\<lambda>(ps, has0).
      cbind
        (if PB_ATYPE (ftype field) = PB_ATYPE_POINTER
         then cbind (load_ptr pd0) (\<lambda>p. cret (p, p \<noteq> 0))
         else cret (pd0, has0)) (\<lambda>(pd, implicit_has).
      encode_by_htype E enc field ps pd implicit_has)))"

definition encode_callback_field :: "pb_env \<Rightarrow> pb_field \<Rightarrow> addr \<Rightarrow> (pb_ostream, unit) cm" where
  "encode_callback_field E field pd =
     cbind (load_ptr pd) (\<lambda>fn.
     if fn \<noteq> 0
     then cbind (ctry (encode_callbacks E fn field (callback_arg pd))) (\<lambda>r.
          case r of Fail \<Rightarrow> PB_RETURN_ERROR ''callback error'' | Ok _ \<Rightarrow> cret ())
     else cret ())"

definition encode_field ::
    "pb_env \<Rightarrow> nat \<Rightarrow> encoder \<Rightarrow> pb_field \<Rightarrow> addr \<Rightarrow> (pb_ostream, unit) cm" where
  "encode_field E d enc field pd =
     (if PB_ATYPE (ftype field) = PB_ATYPE_STATIC \<or> PB_ATYPE (ftype field) = PB_ATYPE_POINTER
      then encode_basic_field E d enc field pd
      else if PB_ATYPE (ftype field) = PB_ATYPE_CALLBACK
      then encode_callback_field E field pd
      else PB_RETURN_ERROR ''invalid field type'')"

section \<open>Extensions\<close>

definition default_extension_encoder ::
    "pb_env \<Rightarrow> nat \<Rightarrow> encoder \<Rightarrow> addr \<Rightarrow> (pb_ostream, unit) cm" where
  "default_extension_encoder E d enc extension =
     cbind (load_ptr (ext_type_field extension)) (\<lambda>t.
     cbind (cdef (ext_fields E t)) (\<lambda>fs.
     let field = hd fs in
     if PB_ATYPE (ftype field) = PB_ATYPE_POINTER
     then encode_field E d enc field (ext_dest_field extension)
     else cbind (load_ptr (ext_dest_field extension)) (encode_field E d enc field)))"

partial_function (option) encode_extension_loop ::
    "pb_env \<Rightarrow> nat \<Rightarrow> encoder \<Rightarrow> addr \<Rightarrow> pb_ostream \<Rightarrow> mem \<Rightarrow> (unit res \<times> pb_ostream \<times> mem) option" where
  "encode_extension_loop E d enc extension s m =
     (if extension = 0 then cret () s m
      else cbind (load_ptr (ext_type_field extension)) (\<lambda>t s m.
        cbind (cdef (ext_types E t)) (\<lambda>et s m.
        cbind (if ext_encode et \<noteq> 0 then ext_encoders E (ext_encode et) extension
               else default_extension_encoder E d enc extension) (\<lambda>_ s m.
        cbind (load_ptr (ext_next_field extension)) (\<lambda>nxt s m.
        encode_extension_loop E d enc nxt s m) s m) s m) s m) s m)"

declare encode_extension_loop.simps [code]

definition encode_extension_field ::
    "pb_env \<Rightarrow> nat \<Rightarrow> encoder \<Rightarrow> pb_field \<Rightarrow> addr \<Rightarrow> (pb_ostream, unit) cm" where
  "encode_extension_field E d enc field pd =
     cbind (load_ptr pd) (encode_extension_loop E d enc)"

section \<open>Messages\<close>

definition encode_iter_field :: "pb_env \<Rightarrow> nat \<Rightarrow> encoder \<Rightarrow> pb_field_iter \<Rightarrow> (pb_ostream, unit) cm" where
  "encode_iter_field E d enc it =
     (if PB_LTYPE (ftype (cur it)) = PB_LTYPE_EXTENSION
      then encode_extension_field E d enc (cur it) (pData it)
      else encode_field E d enc (cur it) (pData it))"

primrec pb_encode :: "pb_env \<Rightarrow> nat \<Rightarrow> encoder" where
  "pb_encode E 0 = (\<lambda>fs src. cub)"
| "pb_encode E (Suc d) = (\<lambda>fs src.
     cbind (cdef (pb_field_iter_begin fs src)) (\<lambda>(nonempty, it).
     if nonempty then iter_loop (encode_iter_field E d (pb_encode E d)) it else cret ()))"

definition pb_encode_delimited :: "pb_env \<Rightarrow> nat \<Rightarrow> encoder" where
  "pb_encode_delimited E d = pb_encode_submessage E (pb_encode E d)"

text \<open>\<open>pb_get_encoded_size\<close>: the size if the result is \<open>true\<close>, and the memory afterwards.\<close>

definition pb_get_encoded_size ::
    "pb_env \<Rightarrow> nat \<Rightarrow> pb_field list \<Rightarrow> addr \<Rightarrow> mem \<Rightarrow> (u64 res \<times> mem) option" where
  "pb_get_encoded_size E d fs src m =
     (case pb_encode E d fs src PB_OSTREAM_SIZING m of
        None \<Rightarrow> None
      | Some (Fail, _, m') \<Rightarrow> Some (Fail, m')
      | Some (Ok _, stream, m') \<Rightarrow> Some (Ok (bytes_written stream), m'))"

end
