(* ===== verification/Pb_Emit.thy ===== *)
theory Pb_Emit
  imports Pb_Encode Wire_Format
begin

text \<open>
  The contract between an encoder and its stream. A memory \<open>m0\<close> holds the data that is encoded;
  the run may take place in any larger memory. \<open>yields m0 f v\<close>: the computation \<open>f\<close> only reads
  \<open>m0\<close>, and returns \<open>v\<close>. \<open>emits m0 f bs\<close>: whatever the stream, \<open>f\<close> produces exactly the bytes
  \<open>bs\<close>. On a sizing stream it only counts them; on a buffer it stores them at the current position
  and advances; if the buffer has no room for them it fails with the message \<open>stream full\<close> and
  changes no byte outside that room. Both are closed under the sequencing of the code, so the
  encoders are homomorphisms from programs to byte strings.
\<close>

section \<open>Parts of a memory\<close>

definition msub :: "mem \<Rightarrow> mem \<Rightarrow> bool" where
  "msub m0 m \<longleftrightarrow> (\<forall>x b. mget m0 x = Some b \<longrightarrow> mget m x = Some b)"

lemma msub_refl [simp, intro]: "msub m m"
  by (simp add: msub_def)

lemma msub_mload: "msub m0 m \<Longrightarrow> mload m0 a n = Some bs \<Longrightarrow> mload m a n = Some bs"
proof (induction n arbitrary: a bs)
  case 0
  then show ?case by simp
next
  case (Suc n)
  then obtain b cs where "mget m0 a = Some b" "mload m0 (a + 1) n = Some cs" "bs = b # cs"
    by (auto split: option.splits)
  moreover have "mget m a = Some b"
    using Suc.prems(1) calculation by (simp add: msub_def)
  ultimately show ?case using Suc by simp
qed

lemma msub_mstore:
  "msub m0 m \<Longrightarrow> mstore m a bs = Some m' \<Longrightarrow> arange a (length bs) \<inter> mdom m0 = {} \<Longrightarrow> msub m0 m'"
  unfolding msub_def by (metis disjoint_iff in_mdom mstore_frame)

section \<open>Reading\<close>

definition yields :: "mem \<Rightarrow> ('s, 'a) cm \<Rightarrow> 'a \<Rightarrow> bool" where
  "yields m0 f v \<longleftrightarrow> (\<forall>s m. msub m0 m \<longrightarrow> f s m = Some (Ok v, s, m))"

lemma yieldsD: "yields m0 f v \<Longrightarrow> msub m0 m \<Longrightarrow> f s m = Some (Ok v, s, m)"
  by (simp add: yields_def)

lemma yields_cret [intro, simp]: "yields m0 (cret v) v"
  by (simp add: yields_def cret_def)

lemma yields_cbind: "yields m0 f v \<Longrightarrow> yields m0 (g v) w \<Longrightarrow> yields m0 (cbind f g) w"
  by (simp add: yields_def cbind_def)

lemma yields_cdef: "x = Some v \<Longrightarrow> yields m0 (cdef x) v"
  by (simp add: yields_def cdef_def cret_def)

lemma yields_cload: "mload m0 a n = Some bs \<Longrightarrow> yields m0 (cload a n) bs"
  by (simp add: yields_def cload_def msub_mload)

lemma yields_creads: "(\<And>m. msub m0 m \<Longrightarrow> f m = Some v) \<Longrightarrow> yields m0 (creads f) v"
  by (simp add: yields_def creads_def)

lemma yields_load_nat: "mload m0 a n = Some bs \<Longrightarrow> yields m0 (load_nat a n) (le_val bs)"
  unfolding load_nat_def by (rule yields_cbind [OF yields_cload]) auto

definition mem_u32 :: "mem \<Rightarrow> addr \<Rightarrow> u32 option" where
  "mem_u32 m a = map_option (\<lambda>bs. word_of_nat (le_val bs)) (mload m a 4)"

definition mem_ptr :: "mem \<Rightarrow> addr \<Rightarrow> addr option" where
  "mem_ptr m a = map_option (\<lambda>bs. int (le_val bs)) (mload m a 8)"

definition mem_bool :: "mem \<Rightarrow> addr \<Rightarrow> bool option" where
  "mem_bool m a = map_option (\<lambda>bs. le_val bs \<noteq> 0) (mload m a 1)"

lemma yields_load_u32: "mem_u32 m0 a = Some v \<Longrightarrow> yields m0 (load_u32 a) v"
  unfolding load_u32_def mem_u32_def by (auto intro!: yields_cbind [OF yields_load_nat])

lemma yields_load_ptr: "mem_ptr m0 a = Some v \<Longrightarrow> yields m0 (load_ptr a) v"
  unfolding load_ptr_def mem_ptr_def by (auto intro!: yields_cbind [OF yields_load_nat])

lemma yields_load_bool: "mem_bool m0 a = Some v \<Longrightarrow> yields m0 (load_bool a) v"
  unfolding load_bool_def mem_bool_def by (auto intro!: yields_cbind [OF yields_load_nat])

section \<open>Writing\<close>

text \<open>The bytes a buffer stream can still take, and the stream after \<open>n\<close> of them.\<close>

definition room :: "pb_ostream \<Rightarrow> nat" where
  "room s = unat (max_size s) - unat (bytes_written s)"

definition advance :: "nat \<Rightarrow> pb_ostream \<Rightarrow> pb_ostream" where
  "advance n s = s\<lparr>out_state := out_state s + int n, bytes_written := bytes_written s + word_of_nat n\<rparr>"

text \<open>A buffer stream whose remaining room is writable storage apart from the data.\<close>

definition obuf_ok :: "mem \<Rightarrow> pb_ostream \<Rightarrow> mem \<Rightarrow> bool" where
  "obuf_ok m0 s m \<longleftrightarrow> unat (bytes_written s) \<le> unat (max_size s) \<and> unat (max_size s) < 2 ^ 63 \<and>
     mvalid m (out_state s) (room s) \<and> arange (out_state s) (room s) \<inter> mdom m0 = {}"

definition emits :: "mem \<Rightarrow> (pb_ostream, unit) cm \<Rightarrow> byte list \<Rightarrow> bool" where
  "emits m0 f bs \<longleftrightarrow> length bs < 2 ^ 62 \<and> (\<forall>s m. msub m0 m \<longrightarrow> errmsg s = None \<longrightarrow>
     (out_callback s = Null_callback \<longrightarrow>
        f s m = Some (Ok (), s\<lparr>bytes_written := bytes_written s + word_of_nat (length bs)\<rparr>, m)) \<and>
     (out_callback s = Buf_write \<longrightarrow> obuf_ok m0 s m \<longrightarrow> length bs \<le> room s \<longrightarrow>
        (\<exists>m'. mstore m (out_state s) bs = Some m' \<and> f s m = Some (Ok (), advance (length bs) s, m'))) \<and>
     (out_callback s = Buf_write \<longrightarrow> obuf_ok m0 s m \<longrightarrow> room s < length bs \<longrightarrow>
        (\<exists>s' m'. f s m = Some (Fail, s', m') \<and> errmsg s' = Some ''stream full'' \<and>
           mdom m' = mdom m \<and> magree (- arange (out_state s) (room s)) m m')))"

lemma emitsI:
  assumes "length bs < 2 ^ 62"
    and "\<And>s m. msub m0 m \<Longrightarrow> errmsg s = None \<Longrightarrow> out_callback s = Null_callback \<Longrightarrow>
       f s m = Some (Ok (), s\<lparr>bytes_written := bytes_written s + word_of_nat (length bs)\<rparr>, m)"
    and "\<And>s m m'. msub m0 m \<Longrightarrow> errmsg s = None \<Longrightarrow> out_callback s = Buf_write \<Longrightarrow> obuf_ok m0 s m \<Longrightarrow>
       length bs \<le> room s \<Longrightarrow> mstore m (out_state s) bs = Some m' \<Longrightarrow>
       f s m = Some (Ok (), advance (length bs) s, m')"
    and "\<And>s m. msub m0 m \<Longrightarrow> errmsg s = None \<Longrightarrow> out_callback s = Buf_write \<Longrightarrow> obuf_ok m0 s m \<Longrightarrow>
       room s < length bs \<Longrightarrow> \<exists>s' m'. f s m = Some (Fail, s', m') \<and> errmsg s' = Some ''stream full'' \<and>
         mdom m' = mdom m \<and> magree (- arange (out_state s) (room s)) m m'"
  shows "emits m0 f bs"
proof -
  have "\<exists>m'. mstore m (out_state s) bs = Some m'" if "obuf_ok m0 s m" "length bs \<le> room s" for s m
    using that mstore_valid [of m "out_state s" bs] mvalid_subrange [of m "out_state s" "room s" "out_state s" "length bs"]
    by (auto simp: obuf_ok_def)
  with assms(1,2,4) show ?thesis
    unfolding emits_def by (intro conjI allI impI) (blast intro: assms(3))+
qed

lemma emits_length: "emits m0 f bs \<Longrightarrow> length bs < 2 ^ 62"
  by (simp add: emits_def)

lemma emits_Null:
  "emits m0 f bs \<Longrightarrow> msub m0 m \<Longrightarrow> errmsg s = None \<Longrightarrow> out_callback s = Null_callback \<Longrightarrow>
     f s m = Some (Ok (), s\<lparr>bytes_written := bytes_written s + word_of_nat (length bs)\<rparr>, m)"
  by (simp add: emits_def)

lemma emits_fits:
  assumes "emits m0 f bs" "msub m0 m" "errmsg s = None" "out_callback s = Buf_write" "obuf_ok m0 s m"
    and "length bs \<le> room s"
  obtains m' where "mstore m (out_state s) bs = Some m'" "f s m = Some (Ok (), advance (length bs) s, m')"
  using assms unfolding emits_def by blast

lemma emits_full:
  assumes "emits m0 f bs" "msub m0 m" "errmsg s = None" "out_callback s = Buf_write" "obuf_ok m0 s m"
    and "room s < length bs"
  obtains s' m' where "f s m = Some (Fail, s', m')" "errmsg s' = Some ''stream full''"
    "mdom m' = mdom m" "magree (- arange (out_state s) (room s)) m m'"
  using assms unfolding emits_def by blast

lemma room_bound: "obuf_ok m0 s m \<Longrightarrow> unat (bytes_written s) + room s < 2 ^ 63"
  by (simp add: obuf_ok_def room_def)

lemma obuf_disjoint: "obuf_ok m0 s m \<Longrightarrow> n \<le> room s \<Longrightarrow> arange (out_state s) n \<inter> mdom m0 = {}"
  using arange_subset [of "out_state s" "out_state s" n "room s"] by (auto simp: obuf_ok_def)

lemma unat_advance:
  assumes "obuf_ok m0 s m" "n \<le> room s"
  shows "unat (bytes_written s + word_of_nat n) = unat (bytes_written s) + n"
proof -
  have b: "unat (bytes_written s) + n < 2 ^ 63"
    using room_bound [OF assms(1)] assms(2) by linarith
  then have "unat (word_of_nat n :: u64) = n" by (simp add: unat_of_nat)
  with b show ?thesis by (simp add: unat_word_ariths)
qed

lemma room_advance: "obuf_ok m0 s m \<Longrightarrow> n \<le> room s \<Longrightarrow> room (advance n s) = room s - n"
  using unat_advance [of m0 s m n] by (simp add: room_def advance_def)

lemma obuf_ok_advance:
  assumes ok: "obuf_ok m0 s m" and n: "length bs \<le> room s" and st: "mstore m (out_state s) bs = Some m'"
  shows "obuf_ok m0 (advance (length bs) s) m'"
proof -
  let ?n = "length bs"
  note r = room_advance [OF ok n]
  have sub: "arange (out_state s + int ?n) (room s - ?n) \<subseteq> arange (out_state s) (room s)"
    using n by (intro arange_subset) auto
  have "mvalid m' (out_state s + int ?n) (room s - ?n)"
    using ok sub mstore_dom [OF st] by (auto simp: obuf_ok_def mvalid_def)
  moreover have "arange (out_state s + int ?n) (room s - ?n) \<inter> mdom m0 = {}"
    using ok sub by (auto simp: obuf_ok_def)
  moreover have "unat (bytes_written s + word_of_nat ?n) \<le> unat (max_size s)"
    using unat_advance [OF ok n] n ok unfolding obuf_ok_def room_def by linarith
  ultimately show ?thesis
    using ok r by (simp add: obuf_ok_def advance_def)
qed

lemma advance_simps [simp]:
  "errmsg (advance n s) = errmsg s" "out_callback (advance n s) = out_callback s"
  "out_state (advance n s) = out_state s + int n" "max_size (advance n s) = max_size s"
  "bytes_written (advance n s) = bytes_written s + word_of_nat n"
  by (simp_all add: advance_def)

lemma advance_advance: "advance k (advance n s) = advance (n + k) s"
  by (simp add: advance_def algebra_simps)

lemma emits_cbind:
  assumes f: "emits m0 f bs" and g: "emits m0 g cs" and len: "length bs + length cs < 2 ^ 62"
  shows "emits m0 (cbind f (\<lambda>_. g)) (bs @ cs)"
proof (rule emitsI)
  show "length (bs @ cs) < 2 ^ 62" using len by simp
next
  fix s :: pb_ostream and m assume a: "msub m0 m" "errmsg s = None" "out_callback s = Null_callback"
  show "cbind f (\<lambda>_. g) s m =
      Some (Ok (), s\<lparr>bytes_written := bytes_written s + word_of_nat (length (bs @ cs))\<rparr>, m)"
    using emits_Null [OF f a] emits_Null [OF g a(1), of "s\<lparr>bytes_written := bytes_written s + word_of_nat (length bs)\<rparr>"] a
    by (simp add: cbind_Ok add.assoc)
next
  fix s :: pb_ostream and m m' assume a: "msub m0 m" "errmsg s = None" "out_callback s = Buf_write" "obuf_ok m0 s m"
    and r: "length (bs @ cs) \<le> room s" and st: "mstore m (out_state s) (bs @ cs) = Some m'"
  then have rb: "length bs \<le> room s" by simp
  from emits_fits [OF f a rb] obtain m1 where m1: "mstore m (out_state s) bs = Some m1"
    "f s m = Some (Ok (), advance (length bs) s, m1)" .
  have st2: "mstore m1 (out_state s + int (length bs)) cs = Some m'"
    using st m1(1) by (simp add: mstore_append)
  have sub: "msub m0 m1"
    by (rule msub_mstore [OF a(1) m1(1) obuf_disjoint [OF a(4) rb]])
  have rc: "length cs \<le> room (advance (length bs) s)"
    using r by (simp add: room_advance [OF a(4) rb])
  from emits_fits [OF g sub _ _ obuf_ok_advance [OF a(4) rb m1(1)] rc] a
  obtain m2 where "mstore m1 (out_state s + int (length bs)) cs = Some m2"
    "g (advance (length bs) s) m1 = Some (Ok (), advance (length cs) (advance (length bs) s), m2)"
    by auto
  with m1(2) st2 show "cbind f (\<lambda>_. g) s m = Some (Ok (), advance (length (bs @ cs)) s, m')"
    by (simp add: cbind_Ok advance_advance)
next
  fix s :: pb_ostream and m assume a: "msub m0 m" "errmsg s = None" "out_callback s = Buf_write" "obuf_ok m0 s m"
    and r: "room s < length (bs @ cs)"
  show "\<exists>s' m'. cbind f (\<lambda>_. g) s m = Some (Fail, s', m') \<and> errmsg s' = Some ''stream full'' \<and>
      mdom m' = mdom m \<and> magree (- arange (out_state s) (room s)) m m'"
  proof (cases "length bs \<le> room s")
    case False
    then have "room s < length bs" by simp
    from emits_full [OF f a this] show ?thesis by (metis cbind_Fail)
  next
    case rb: True
    from emits_fits [OF f a rb] obtain m1 where m1: "mstore m (out_state s) bs = Some m1"
      "f s m = Some (Ok (), advance (length bs) s, m1)" .
    have sub: "msub m0 m1"
      by (rule msub_mstore [OF a(1) m1(1) obuf_disjoint [OF a(4) rb]])
    have ra: "room (advance (length bs) s) = room s - length bs" by (rule room_advance [OF a(4) rb])
    have rc: "room (advance (length bs) s) < length cs"
      using r rb unfolding ra by simp
    from emits_full [OF g sub _ _ obuf_ok_advance [OF a(4) rb m1(1)] rc] a
    obtain s' m' where g': "g (advance (length bs) s) m1 = Some (Fail, s', m')"
      "errmsg s' = Some ''stream full''" "mdom m' = mdom m1"
      "magree (- arange (out_state s + int (length bs)) (room s - length bs)) m1 m'"
      by (auto simp: ra)
    have "magree (- arange (out_state s) (room s)) m m1"
      using rb by (intro mstore_magree [OF m1(1)]) (auto simp: in_arange)
    moreover have "magree (- arange (out_state s) (room s)) m1 m'"
      using rb by (intro magree_mono [OF g'(4)]) (auto simp: in_arange)
    ultimately show ?thesis
      using g' m1 by (auto simp: cbind_Ok mstore_dom [OF m1(1)] intro: magree_trans)
  qed
qed

lemma emits_cret: "emits m0 (cret ()) []"
  by (auto simp: emits_def cret_def advance_def)

lemma emits_read: "yields m0 f v \<Longrightarrow> emits m0 (g v) bs \<Longrightarrow> emits m0 (cbind f g) bs"
  by (simp add: emits_def yields_def cbind_Ok cong: conj_cong imp_cong)

section \<open>Raw writes\<close>

lemma buf_overflow_iff:
  assumes "obuf_ok m0 s m" "n < 2 ^ 62"
  shows "bytes_written s + word_of_nat n > max_size s \<longleftrightarrow> room s < n"
proof -
  have n: "unat (word_of_nat n :: u64) = n"
    using assms(2) by (simp add: unat_of_nat)
  have b: "unat (bytes_written s) + n < 2 ^ 64"
    using assms by (simp add: obuf_ok_def)
  then have "unat (bytes_written s + word_of_nat n) = unat (bytes_written s) + n"
    using n by (simp add: unat_word_ariths)
  then show ?thesis
    using assms(1) by (auto simp: word_less_nat_alt obuf_ok_def room_def)
qed

lemma emits_pb_write:
  assumes len: "length bs < 2 ^ 62"
    and copy: "\<And>s m m'. msub m0 m \<Longrightarrow> arange (out_state s) (length bs) \<inter> mdom m0 = {} \<Longrightarrow>
      mstore m (out_state s) bs = Some m' \<Longrightarrow>
      buf_write src (length bs) s m = Some (Ok (), s\<lparr>out_state := out_state s + int (length bs)\<rparr>, m')"
  shows "emits m0 (pb_write E src (word_of_nat (length bs))) bs"
proof (rule emitsI)
  show "length bs < 2 ^ 62" by (rule len)
next
  fix s :: pb_ostream and m
  assume a: "msub m0 m" "errmsg s = None" "out_callback s = Null_callback"
  then show "pb_write E src (word_of_nat (length bs)) s m =
      Some (Ok (), s\<lparr>bytes_written := bytes_written s + word_of_nat (length bs)\<rparr>, m)"
    by (simp add: pb_write_def cbind_def cget_def cput_def cret_def)
next
  fix s :: pb_ostream and m m'
  assume a: "msub m0 m" "errmsg s = None" "out_callback s = Buf_write" "obuf_ok m0 s m"
    and r: "length bs \<le> room s" and st: "mstore m (out_state s) bs = Some m'"
  have n: "unat (word_of_nat (length bs) :: u64) = length bs"
    using len by (simp add: unat_of_nat)
  have nov: "\<not> bytes_written s + word_of_nat (length bs) > max_size s"
    using buf_overflow_iff [OF a(4) len] r by simp
  show "pb_write E src (word_of_nat (length bs)) s m = Some (Ok (), advance (length bs) s, m')"
    using copy [OF a(1) obuf_disjoint [OF a(4) r] st] a(3) nov
    by (simp add: pb_write_def call_out_callback_def cbind_def cget_def cput_def cret_def ctry_def n advance_def)
next
  fix s :: pb_ostream and m
  assume a: "msub m0 m" "errmsg s = None" "out_callback s = Buf_write" "obuf_ok m0 s m"
    and r: "room s < length bs"
  have "bytes_written s + word_of_nat (length bs) > max_size s"
    using buf_overflow_iff [OF a(4) len] r by simp
  then show "\<exists>s' m'. pb_write E src (word_of_nat (length bs)) s m = Some (Fail, s', m') \<and>
      errmsg s' = Some ''stream full'' \<and> mdom m' = mdom m \<and> magree (- arange (out_state s) (room s)) m m'"
    using a by (simp add: pb_write_def cbind_def cget_def PB_RETURN_ERROR_def PB_SET_ERROR_def)
qed

lemma emits_write_Bytes:
  "length bs < 2 ^ 62 \<Longrightarrow> emits m0 (pb_write E (Bytes bs) (word_of_nat (length bs))) bs"
  by (rule emits_pb_write) (simp_all add: buf_write_def cbind_def cget_def cput_def cstore_def)

lemma emits_write_At:
  assumes ld: "mload m0 a (length bs) = Some bs" and len: "length bs < 2 ^ 62"
  shows "emits m0 (pb_write E (At a) (word_of_nat (length bs))) bs"
proof (rule emits_pb_write [OF len])
  fix s :: pb_ostream and m m'
  assume a: "msub m0 m" "arange (out_state s) (length bs) \<inter> mdom m0 = {}"
    and st: "mstore m (out_state s) bs = Some m'"
  have "arange a (length bs) \<subseteq> mdom m0"
    using mload_imp_valid [OF ld] by (simp add: mvalid_def)
  with a(2) have "arange (out_state s) (length bs) \<inter> arange a (length bs) = {}" by blast
  from mcopy_disjoint [OF this msub_mload [OF a(1) ld]] st
  show "buf_write (At a) (length bs) s m = Some (Ok (), s\<lparr>out_state := out_state s + int (length bs)\<rparr>, m')"
    by (simp add: buf_write_def cbind_def cget_def cput_def ccopy_def)
qed

lemma emits_write_Null: "emits m0 (pb_write E Null_src 0) []"
  using emits_pb_write [of "[]" m0 Null_src E]
  by (simp add: buf_write_def cbind_def cget_def cput_def cret_def)

section \<open>Varints\<close>

lemma or_0x80: "((v :: u64) AND 0x7F) OR 0x80 = (v AND 0x7F) + 0x80"
proof -
  have "((v AND 0x7F) AND 0x80) = 0"
    by (rule bit_eqI) (auto simp: bit_simps bit_numeral_rec less_Suc_eq numeral_eq_Suc split: nat.splits)
  then show ?thesis by (rule disjunctive_add_eq_or [symmetric])
qed

lemma continued_byte:
  "(ucast (((v :: u64) AND 0x7F) OR 0x80) :: byte) = word_of_nat (128 + unat v mod 128)"
proof (rule ucast_word_of_nat)
  have "unat v mod 128 < 128" by simp
  then show "unat (v AND 0x7F OR 0x80) = 128 + unat v mod 128"
    unfolding or_0x80 unat_word_ariths unat_take7 by simp
qed

lemma last_byte:
  assumes n: "n < 128"
  shows "(word_of_nat (128 + n) :: byte) AND 0x7F = word_of_nat n"
proof -
  have "unat ((word_of_nat (128 + n) :: byte) AND 0x7F) = unat (word_of_nat n :: byte)"
    using n unfolding unat_take7 unat_of_nat by simp
  then show ?thesis by (rule unsigned_word_eqI)
qed

lemma varint_buffer_nonempty: "v \<noteq> 0 \<Longrightarrow> varint_buffer v \<noteq> []"
  by (subst varint_buffer.simps) simp

lemma varint_buffer_leb128: "v \<noteq> 0 \<Longrightarrow> clear_top_bit (varint_buffer v) = leb128 (unat v)"
proof (induction v rule: varint_buffer.induct)
  case (1 v)
  let ?b = "word_of_nat (128 + unat v mod 128) :: byte"
  have sh: "unat (drop_bit 7 v) = unat v div 128"
    unfolding unat_drop_bit_eq by (simp add: drop_bit_eq_div)
  have vb: "varint_buffer v = ?b # varint_buffer (drop_bit 7 v)"
    using 1 by (subst varint_buffer.simps) (simp add: continued_byte)
  show ?case
  proof (cases "drop_bit 7 v = 0")
    case True
    then have "unat v < 128" using sh by (simp add: div_eq_0_iff)
    moreover have "varint_buffer (drop_bit 7 v) = []"
      using True by (subst varint_buffer.simps) simp
    ultimately show ?thesis
      using last_byte [of "unat v"] by (subst leb128.simps) (simp add: vb clear_top_bit_def)
  next
    case False
    then have "\<not> unat v < 128" using sh by (metis div_less unat_eq_0)
    moreover have "clear_top_bit (?b # varint_buffer (drop_bit 7 v)) =
        ?b # clear_top_bit (varint_buffer (drop_bit 7 v))"
      using varint_buffer_nonempty [OF False]
      by (cases "varint_buffer (drop_bit 7 v)") (simp_all add: clear_top_bit_def)
    ultimately show ?thesis
      using 1 False sh by (subst leb128.simps) (simp add: vb)
  qed
qed

lemma length_varint_buffer: "v \<noteq> 0 \<Longrightarrow> length (varint_buffer v) = length (leb128 (unat v))"
  by (simp add: varint_buffer_leb128 [symmetric] clear_top_bit_def)

lemma emits_varint: "emits m0 (pb_encode_varint E v) (leb128 (unat v))"
proof (cases "v \<le> 0x7F")
  case True
  then have "unat v < 128" by (simp add: word_le_nat_alt)
  then have "leb128 (unat v) = [ucast v]"
    by (subst leb128.simps) simp
  with True show ?thesis
    using emits_write_Bytes [of "[ucast v]" m0 E] by (simp add: pb_encode_varint_def)
next
  case False
  then have "v \<noteq> 0" by auto
  note l = length_varint_buffer [OF this] and b = varint_buffer_leb128 [OF this]
  show ?thesis
    using False length_leb128_u64 [of v] emits_write_Bytes [of "leb128 (unat v)" m0 E]
    by (simp add: pb_encode_varint_def Let_def l b)
qed


lemma zigzag_encode:
  "unat (if (v :: u64) <s 0 then NOT (push_bit 1 v) else push_bit 1 v) = zigzag (sint v)"
proof -
  have pb: "push_bit 1 v = 2 * v" by (simp add: push_bit_eq_mult)
  have lb: "- (2 ^ 63) \<le> sint v" and ub: "sint v < 2 ^ 63"
    using sint_ge [of v] sint_lt [of v] by simp_all
  have v: "v = word_of_int (sint v)" by simp
  show ?thesis
  proof (cases "sint v < 0")
    case True
    have e: "NOT (2 * v) = word_of_int (- 2 * sint v - 1)"
      by (subst v) (simp add: not_eq_complement)
    have "uint (NOT (2 * v)) = (- 2 * sint v - 1) mod 2 ^ 64"
      unfolding e uint_word_of_int by simp
    also have "\<dots> = - 2 * sint v - 1"
      using True lb by (intro mod_pos_pos_trivial) auto
    finally have "unat (NOT (2 * v)) = nat (- 2 * sint v - 1)" by (simp add: unat_eq_nat_uint)
    with True show ?thesis unfolding pb zigzag_def by (simp add: word_sless_alt mult.commute)
  next
    case False
    have e: "2 * v = word_of_int (2 * sint v)"
      by (subst v) simp
    have "uint (2 * v) = (2 * sint v) mod 2 ^ 64"
      unfolding e uint_word_of_int by simp
    also have "\<dots> = 2 * sint v"
      using False ub by (intro mod_pos_pos_trivial) auto
    finally have "unat (2 * v) = nat (2 * sint v)" by (simp add: unat_eq_nat_uint)
    with False show ?thesis unfolding pb zigzag_def by (simp add: word_sless_alt mult.commute)
  qed
qed

lemma emits_svarint: "emits m0 (pb_encode_svarint E v) (leb128 (zigzag (sint v)))"
  unfolding pb_encode_svarint_def zigzag_encode [symmetric] by (rule emits_varint)

section \<open>Fixed-width integers, tags and strings\<close>

lemma fixed32_bytes:
  "[ucast (v AND 0xFF), ucast (drop_bit 8 v AND 0xFF), ucast (drop_bit 16 v AND 0xFF),
    ucast (drop_bit 24 v AND 0xFF)] = le_bytes 4 (unat (v :: u32))"
  unfolding le_bytes_4 by (simp only: le_bytes_Suc_word le_bytes.simps(1) drop_bit_drop_bit) simp

lemma fixed64_bytes:
  "[ucast (v AND 0xFF), ucast (drop_bit 8 v AND 0xFF), ucast (drop_bit 16 v AND 0xFF),
    ucast (drop_bit 24 v AND 0xFF), ucast (drop_bit 32 v AND 0xFF), ucast (drop_bit 40 v AND 0xFF),
    ucast (drop_bit 48 v AND 0xFF), ucast (drop_bit 56 v AND 0xFF)] = le_bytes 8 (unat (v :: u64))"
  unfolding le_bytes_8 by (simp only: le_bytes_Suc_word le_bytes.simps(1) drop_bit_drop_bit) simp

lemma le_bytes_word_of_mload:
  assumes "mload m a n = Some bs" "LENGTH('a::len) = 8 * n"
  shows "le_bytes n (unat (word_of_nat (le_val bs) :: 'a word)) = bs"
proof -
  have l: "length bs = n" by (rule mload_length [OF assms(1)])
  have "le_val bs < 2 ^ LENGTH('a)"
    using le_val_bound [of bs] l assms(2) by (simp add: power_mult)
  then have "unat (word_of_nat (le_val bs) :: 'a word) = le_val bs"
    by (simp add: unat_of_nat)
  with le_bytes_le_val [of bs] l show ?thesis by simp
qed

lemma emits_fixed32:
  assumes "mload m0 a 4 = Some bs"
  shows "emits m0 (pb_encode_fixed32 E a) bs"
proof -
  have l: "length bs = 4" by (rule mload_length [OF assms])
  have y: "yields m0 (load_u32 a) (word_of_nat (le_val bs))"
    by (rule yields_load_u32) (simp add: mem_u32_def assms)
  show ?thesis
    unfolding pb_encode_fixed32_def fixed32_bytes
    by (rule emits_read [OF y])
      (use emits_write_Bytes [of bs m0 E] le_bytes_word_of_mload [OF assms, where 'a = 32] l in simp)
qed

lemma emits_fixed64:
  assumes "mload m0 a 8 = Some bs"
  shows "emits m0 (pb_encode_fixed64 E a) bs"
proof -
  have l: "length bs = 8" by (rule mload_length [OF assms])
  have y: "yields m0 (load_u64 a) (word_of_nat (le_val bs))"
    unfolding load_u64_def by (rule yields_cbind [OF yields_load_nat [OF assms]]) simp
  show ?thesis
    unfolding pb_encode_fixed64_def fixed64_bytes
    by (rule emits_read [OF y])
      (use emits_write_Bytes [of bs m0 E] le_bytes_word_of_mload [OF assms, where 'a = 64] l in simp)
qed

lemma tag_word:
  assumes "unat (wt :: u32) < 8"
  shows "unat ((push_bit 3 (ucast (n :: u32)) OR ucast wt) :: u64) = 8 * unat n + unat wt"
proof -
  have w: "ucast wt = take_bit 3 (ucast wt :: u64)"
  proof -
    have "unat (take_bit 3 (ucast wt :: u64)) = unat (ucast wt :: u64)"
      using assms unat_lt_len [of wt]
      by (simp add: unsigned_take_bit_eq unsigned_ucast_eq take_bit_eq_mod [of _ "_ :: nat"])
    then show ?thesis by (metis unsigned_word_eqI)
  qed
  have "(push_bit 3 (ucast n) AND take_bit 3 (ucast wt) :: u64) = 0"
    by (rule bit_eqI) (auto simp: bit_simps)
  then have "(push_bit 3 (ucast n) OR ucast wt :: u64) = 8 * ucast n + ucast wt"
    by (subst (1 2) w) (simp add: disjunctive_add_eq_or [symmetric] push_bit_eq_mult)
  moreover have "unat (ucast n :: u64) = unat n" "unat (ucast wt :: u64) = unat wt"
    using unat_lt_len [of n] unat_lt_len [of wt] by (simp_all add: unsigned_ucast_eq take_bit_eq_mod)
  ultimately show ?thesis
    using assms unat_lt_len [of n] by (simp add: unat_word_ariths)
qed

lemma emits_tag: "unat wt < 8 \<Longrightarrow> emits m0 (pb_encode_tag E wt n) (wire_tag wt n)"
  unfolding pb_encode_tag_def wire_tag_def using emits_varint tag_word by metis

lemma wire_type_of_less: "wire_type_of lt = Some wt \<Longrightarrow> unat wt < 8"
  by (auto simp: wire_type_of_def split: if_splits)

lemma emits_tag_for_field:
  "wire_type_of (PB_LTYPE (ftype field)) = Some wt \<Longrightarrow>
     emits m0 (pb_encode_tag_for_field E field) (wire_tag wt (tag field))"
  by (simp add: pb_encode_tag_for_field_def emits_tag wire_type_of_less)

lemma emits_wire_string:
  assumes len: "length bs < 2 ^ 61" and w: "emits m0 f bs"
  shows "emits m0 (cbind (pb_encode_varint E (word_of_nat (length bs))) (\<lambda>_. f)) (wire_string bs)"
proof -
  have "unat (word_of_nat (length bs) :: u64) = length bs"
    using len by (simp add: unat_of_nat)
  then have v: "emits m0 (pb_encode_varint E (word_of_nat (length bs))) (leb128 (length bs))"
    using emits_varint [of m0 E "word_of_nat (length bs)"] by simp
  show ?thesis
    unfolding wire_string_def
    using length_wire_string [OF len] by (intro emits_cbind [OF v w]) (simp add: wire_string_def)
qed

lemma emits_string_At:
  assumes "mload m0 a (length bs) = Some bs" "length bs < 2 ^ 61"
  shows "emits m0 (pb_encode_string E (At a) (word_of_nat (length bs))) (wire_string bs)"
  unfolding pb_encode_string_def
  using assms by (intro emits_wire_string emits_write_At) simp_all

end
