(* ===== verification/Pb_Wire.thy ===== *)
theory Pb_Wire
  imports Pb_Emit
begin

text \<open>
  The specification of the encoder: \<open>wire_message\<close> reads a message structure from memory and
  yields its bytes on the wire, or \<open>None\<close> when the structure does not describe a message (an
  array longer than its bound, a missing required field, an unreadable pointer). It has no
  streams, no sizing pass and no error messages. The refinement theorem says that
  \<open>pb_encode\<close> emits exactly these bytes into every stream.
\<close>

section \<open>Optional byte strings\<close>

definition opt_app :: "byte list option \<Rightarrow> byte list option \<Rightarrow> byte list option" where
  "opt_app x y = (case x of None \<Rightarrow> None | Some bs \<Rightarrow> (case y of None \<Rightarrow> None | Some cs \<Rightarrow> Some (bs @ cs)))"

fun concat_opt :: "('a \<Rightarrow> byte list option) \<Rightarrow> 'a list \<Rightarrow> byte list option" where
  "concat_opt w [] = Some []"
| "concat_opt w (x # xs) = opt_app (w x) (concat_opt w xs)"

fun all_opt :: "('a \<Rightarrow> bool option) \<Rightarrow> 'a list \<Rightarrow> bool option" where
  "all_opt p [] = Some True"
| "all_opt p (x # xs) = (case p x of None \<Rightarrow> None | Some b \<Rightarrow> if b then all_opt p xs else Some False)"

section \<open>Field values\<close>

definition mem_signed :: "mem \<Rightarrow> u32 \<Rightarrow> addr \<Rightarrow> u64 option" where
  "mem_signed m n a =
     (if n = 1 then map_option (\<lambda>bs. scast (word_of_nat (le_val bs) :: u8)) (mload m a 1)
      else if n = 2 then map_option (\<lambda>bs. scast (word_of_nat (le_val bs) :: u16)) (mload m a 2)
      else if n = 4 then map_option (\<lambda>bs. scast (word_of_nat (le_val bs) :: u32)) (mload m a 4)
      else if n = 8 then map_option (\<lambda>bs. word_of_nat (le_val bs)) (mload m a 8)
      else None)"

definition mem_unsigned :: "mem \<Rightarrow> u32 \<Rightarrow> addr \<Rightarrow> u64 option" where
  "mem_unsigned m n a =
     (if n \<in> {1, 2, 4, 8} then map_option (\<lambda>bs. word_of_nat (le_val bs)) (mload m a (unat n)) else None)"

type_synonym wire_fun = "pb_field list \<Rightarrow> addr \<Rightarrow> byte list option"

definition wire_bytes :: "mem \<Rightarrow> pb_field \<Rightarrow> addr \<Rightarrow> byte list option" where
  "wire_bytes m field a =
     (if a = 0 then Some (wire_string [])
      else case mem_u32 m a of None \<Rightarrow> None
        | Some n \<Rightarrow>
           if PB_ATYPE (ftype field) = PB_ATYPE_STATIC \<and> unat n + 4 > unat (data_size field) then None
           else map_option wire_string (mload m (a + 4) (unat n)))"

definition wire_cstring :: "mem \<Rightarrow> pb_field \<Rightarrow> addr \<Rightarrow> byte list option" where
  "wire_cstring m field a =
     (if a = 0 then Some (wire_string [])
      else case strnlen_loop m a (if PB_ATYPE (ftype field) = PB_ATYPE_POINTER then 2 ^ 64 - 1
             else unat (data_size field)) 0 of
          None \<Rightarrow> None
        | Some n \<Rightarrow> map_option wire_string (mload m a n))"

definition wire_value :: "pb_env \<Rightarrow> wire_fun \<Rightarrow> mem \<Rightarrow> pb_field \<Rightarrow> addr \<Rightarrow> byte list option" where
  "wire_value E sub m field a =
     (let lt = PB_LTYPE (ftype field) in
      if lt = PB_LTYPE_VARINT then map_option (\<lambda>v. leb128 (unat v)) (mem_signed m (data_size field) a)
      else if lt = PB_LTYPE_UVARINT then map_option (\<lambda>v. leb128 (unat v)) (mem_unsigned m (data_size field) a)
      else if lt = PB_LTYPE_SVARINT
      then map_option (\<lambda>v. leb128 (zigzag (sint v))) (mem_signed m (data_size field) a)
      else if lt = PB_LTYPE_FIXED32 then mload m a 4
      else if lt = PB_LTYPE_FIXED64 then mload m a 8
      else if lt = PB_LTYPE_BYTES then wire_bytes m field a
      else if lt = PB_LTYPE_STRING then wire_cstring m field a
      else if lt = PB_LTYPE_SUBMESSAGE then
        (if ptr field = 0 then None
         else case descs E (ptr field) of None \<Rightarrow> None | Some fs \<Rightarrow> map_option wire_string (sub fs a))
      else if lt = PB_LTYPE_FIXED_LENGTH_BYTES
      then map_option wire_string (mload m a (unat (data_size field)))
      else None)"

definition wire_item :: "pb_env \<Rightarrow> wire_fun \<Rightarrow> mem \<Rightarrow> pb_field \<Rightarrow> addr \<Rightarrow> byte list option" where
  "wire_item E sub m field a =
     (case wire_type_of (PB_LTYPE (ftype field)) of None \<Rightarrow> None
      | Some wt \<Rightarrow> opt_app (Some (wire_tag wt (tag field))) (wire_value E sub m field a))"

section \<open>Arrays\<close>

fun wire_elems :: "(addr \<Rightarrow> byte list option) \<Rightarrow> nat \<Rightarrow> addr \<Rightarrow> nat \<Rightarrow> byte list option" where
  "wire_elems w step p 0 = Some []"
| "wire_elems w step p (Suc n) = opt_app (w p) (wire_elems w step (p + int step) n)"

definition wire_array :: "pb_env \<Rightarrow> wire_fun \<Rightarrow> mem \<Rightarrow> pb_field \<Rightarrow> addr \<Rightarrow> u32 \<Rightarrow> byte list option" where
  "wire_array E sub m field pd count =
     (if count = 0 then Some []
      else if PB_ATYPE (ftype field) \<noteq> PB_ATYPE_POINTER \<and> count > array_size field then None
      else if packable (ftype field) then
        opt_app (Some (wire_tag PB_WT_STRING (tag field)))
          (map_option wire_string
            (wire_elems (wire_value E sub m field) (unat (data_size field)) pd (unat count)))
      else wire_elems (\<lambda>p.
          if PB_ATYPE (ftype field) = PB_ATYPE_POINTER \<and>
             (PB_LTYPE (ftype field) = PB_LTYPE_STRING \<or> PB_LTYPE (ftype field) = PB_LTYPE_BYTES)
          then Option.bind (mem_ptr m p) (wire_item E sub m field)
          else wire_item E sub m field p) (unat (data_size field)) pd (unat count))"

section \<open>Fields\<close>

text \<open>The value that a proto3 field without presence has when it is absent from the wire.\<close>

fun is_default :: "pb_env \<Rightarrow> nat \<Rightarrow> mem \<Rightarrow> pb_field \<Rightarrow> addr \<Rightarrow> bool option" where
  "is_default E 0 m field a = None"
| "is_default E (Suc d) m field a =
     (if PB_ATYPE (ftype field) = PB_ATYPE_STATIC \<and> PB_LTYPE (ftype field) = PB_LTYPE_BYTES
      then map_option (\<lambda>n. n = 0) (mem_u32 m a)
      else if PB_ATYPE (ftype field) = PB_ATYPE_STATIC \<and> PB_LTYPE (ftype field) = PB_LTYPE_STRING
      then map_option (\<lambda>bs. le_val bs = 0) (mload m a 1)
      else if PB_ATYPE (ftype field) = PB_ATYPE_STATIC \<and>
        PB_LTYPE (ftype field) = PB_LTYPE_FIXED_LENGTH_BYTES
      then Some (data_size field = 0)
      else if PB_ATYPE (ftype field) = PB_ATYPE_STATIC \<and> PB_LTYPE (ftype field) = PB_LTYPE_SUBMESSAGE
      then (case descs E (ptr field) of None \<Rightarrow> None
            | Some fs \<Rightarrow> if fields_ok fs
                then all_opt (\<lambda>k. is_default E d m (fs ! k) (a + field_offset fs k)) [0..<n_fields fs]
                else None)
      else all_zero m a (unat (data_size field)))"

definition wire_basic ::
    "pb_env \<Rightarrow> nat \<Rightarrow> wire_fun \<Rightarrow> mem \<Rightarrow> pb_field \<Rightarrow> addr \<Rightarrow> byte list option" where
  "wire_basic E d sub m field a =
     (let ps = a + sint (size_offset field);
          pd = (if PB_ATYPE (ftype field) = PB_ATYPE_POINTER then mem_ptr m a else Some a);
          item = (\<lambda>present. case present of None \<Rightarrow> None
             | Some b \<Rightarrow> if b then Option.bind pd (wire_item E sub m field) else Some []) in
      if PB_LTYPE (ftype field) > PB_LTYPE_FIXED_LENGTH_BYTES \<or> pd = None then None
      else if PB_HTYPE (ftype field) = PB_HTYPE_REQUIRED then
        (if pd = Some 0 then None else item (Some True))
      else if PB_HTYPE (ftype field) = PB_HTYPE_OPTIONAL then
        item (if size_offset field \<noteq> 0 then mem_bool m ps
              else case is_default E d m field a of None \<Rightarrow> None
                | Some b \<Rightarrow> if PB_ATYPE (ftype field) = PB_ATYPE_POINTER then Some (pd \<noteq> Some 0) else Some (\<not> b))
      else if size_offset field = 0 then None
      else if PB_HTYPE (ftype field) = PB_HTYPE_REPEATED then
        (case mem_u32 m ps of None \<Rightarrow> None
         | Some count \<Rightarrow> Option.bind pd (\<lambda>p. wire_array E sub m field p count))
      else item (map_option (\<lambda>which. which = tag field) (mem_u32 m ps)))"

text \<open>
  \<open>cb fn field arg\<close> and \<open>xb fn extension\<close> are the bytes that the user's callbacks promise to
  write; the interface asks that they write the same bytes in every pass.
\<close>

type_synonym callback_spec = "addr \<Rightarrow> pb_field \<Rightarrow> addr \<Rightarrow> byte list option"
type_synonym extension_spec = "addr \<Rightarrow> addr \<Rightarrow> byte list option"

definition wire_field ::
    "pb_env \<Rightarrow> callback_spec \<Rightarrow> nat \<Rightarrow> wire_fun \<Rightarrow> mem \<Rightarrow> pb_field \<Rightarrow> addr \<Rightarrow> byte list option" where
  "wire_field E cb d sub m field a =
     (if PB_ATYPE (ftype field) = PB_ATYPE_STATIC \<or> PB_ATYPE (ftype field) = PB_ATYPE_POINTER
      then wire_basic E d sub m field a
      else if PB_ATYPE (ftype field) = PB_ATYPE_CALLBACK then
        (case mem_ptr m a of None \<Rightarrow> None
         | Some fn \<Rightarrow> if fn = 0 then Some [] else cb fn field (callback_arg a))
      else None)"

text \<open>A list of extensions, at most \<open>n\<close> of them.\<close>

fun wire_extensions ::
    "pb_env \<Rightarrow> callback_spec \<Rightarrow> extension_spec \<Rightarrow> nat \<Rightarrow> wire_fun \<Rightarrow> mem \<Rightarrow> nat \<Rightarrow> addr \<Rightarrow> byte list option" where
  "wire_extensions E cb xb d sub m 0 a = None"
| "wire_extensions E cb xb d sub m (Suc n) a =
     (if a = 0 then Some []
      else Option.bind (mem_ptr m (ext_type_field a)) (\<lambda>t.
        Option.bind (ext_types E t) (\<lambda>et.
        opt_app
          (if ext_encode et \<noteq> 0 then xb (ext_encode et) a
           else Option.bind (ext_fields E t) (\<lambda>fs.
             if PB_ATYPE (ftype (hd fs)) = PB_ATYPE_POINTER
             then wire_field E cb d sub m (hd fs) (ext_dest_field a)
             else Option.bind (mem_ptr m (ext_dest_field a)) (wire_field E cb d sub m (hd fs))))
          (Option.bind (mem_ptr m (ext_next_field a)) (wire_extensions E cb xb d sub m n)))))"

section \<open>Messages\<close>

text \<open>\<open>n\<close> bounds the length of the extension lists.\<close>

primrec wire_message ::
    "pb_env \<Rightarrow> callback_spec \<Rightarrow> extension_spec \<Rightarrow> nat \<Rightarrow> nat \<Rightarrow> mem \<Rightarrow> wire_fun" where
  "wire_message E cb xb n 0 m = (\<lambda>fs a. None)"
| "wire_message E cb xb n (Suc d) m = (\<lambda>fs a.
     if fields_ok fs then
       concat_opt (\<lambda>k.
         if PB_LTYPE (ftype (fs ! k)) = PB_LTYPE_EXTENSION
         then Option.bind (mem_ptr m (a + field_offset fs k))
                (wire_extensions E cb xb d (wire_message E cb xb n d m) m n)
         else wire_field E cb d (wire_message E cb xb n d m) m (fs ! k) (a + field_offset fs k))
       [0..<n_fields fs]
     else None)"

section \<open>Implementing a specification\<close>

definition implements :: "mem \<Rightarrow> (pb_ostream, unit) cm \<Rightarrow> byte list option \<Rightarrow> bool" where
  "implements m0 f w \<longleftrightarrow> (\<forall>bs. w = Some bs \<longrightarrow> length bs < 2 ^ 61 \<longrightarrow> emits m0 f bs)"

lemma implements_None [simp]: "implements m0 f None"
  by (simp add: implements_def)

lemma implementsI: "emits m0 f bs \<Longrightarrow> implements m0 f (Some bs)"
  by (simp add: implements_def)

lemma implements_ret [simp]: "implements m0 (cret ()) (Some [])"
  by (simp add: implements_def emits_cret)

lemma implements_app:
  assumes "implements m0 f w" "implements m0 g v"
  shows "implements m0 (cbind f (\<lambda>_. g)) (opt_app w v)"
  unfolding implements_def
proof (intro allI impI)
  fix bs assume "opt_app w v = Some bs" "length bs < 2 ^ 61"
  then obtain xs ys where "w = Some xs" "v = Some ys" "bs = xs @ ys"
    by (auto simp: opt_app_def split: option.splits)
  with assms \<open>length bs < 2 ^ 61\<close> show "emits m0 (cbind f (\<lambda>_. g)) bs"
    by (auto simp: implements_def intro!: emits_cbind)
qed

lemma implements_read:
  "yields m0 f v \<Longrightarrow> implements m0 (g v) w \<Longrightarrow> implements m0 (cbind f g) w"
  by (simp add: implements_def emits_read)

lemma yields_if: "(b \<Longrightarrow> yields m0 f v) \<Longrightarrow> (\<not> b \<Longrightarrow> yields m0 g v) \<Longrightarrow> yields m0 (if b then f else g) v"
  by simp

lemma implements_if:
  "(b \<Longrightarrow> implements m0 f w) \<Longrightarrow> (\<not> b \<Longrightarrow> implements m0 g v) \<Longrightarrow>
     implements m0 (if b then f else g) (if b then w else v)"
  by simp

lemma implements_map_option:
  "(\<And>x. o1 = Some x \<Longrightarrow> length (h x) < 2 ^ 61 \<Longrightarrow> emits m0 f (h x)) \<Longrightarrow> implements m0 f (map_option h o1)"
  by (cases o1) (auto simp: implements_def)

lemma emits_cong: "(\<And>s m. msub m0 m \<Longrightarrow> f s m = g s m) \<Longrightarrow> emits m0 g bs \<Longrightarrow> emits m0 f bs"
  by (simp add: emits_def)

section \<open>Reading memory\<close>

lemma mem_signedE:
  assumes "mem_signed m0 (data_size field) a = Some v"
  shows "yields m0 (load_signed field a) v"
  using assms
  by (auto simp: mem_signed_def load_signed_def split: if_splits intro!: yields_cbind [OF yields_load_nat])

lemma mem_unsignedE:
  assumes "mem_unsigned m0 (data_size field) a = Some v"
  shows "yields m0 (load_unsigned field a) v"
  using assms
  by (auto simp: mem_unsigned_def load_unsigned_def split: if_splits intro!: yields_cbind [OF yields_load_nat])

lemma msub_mget: "msub m0 m \<Longrightarrow> mget m0 a = Some b \<Longrightarrow> mget m a = Some b"
  by (simp add: msub_def)

lemma strnlen_msub:
  "strnlen_loop m0 a mx k = Some n \<Longrightarrow> msub m0 m \<Longrightarrow> strnlen_loop m a mx k = Some n"
proof (induction m0 a mx k rule: strnlen_loop.induct)
  case (1 m0 a mx k)
  from 1(2) show ?case
    by (subst strnlen_loop.simps, subst (asm) strnlen_loop.simps)
      (auto split: option.splits if_splits dest: msub_mget [OF 1(3)] intro: 1(1) [OF _ _ _ _ 1(3)])
qed

lemma all_zero_msub: "all_zero m0 a n = Some b \<Longrightarrow> msub m0 m \<Longrightarrow> all_zero m a n = Some b"
  by (induction n arbitrary: a) (auto split: option.splits if_splits dest: msub_mget)

section \<open>Field encoders\<close>

lemma wire_string_shorter: "length (wire_string bs) < n \<Longrightarrow> length bs < n"
  by (simp add: wire_string_def)

lemma emits_string:
  assumes "mload m0 a n = Some bs" "length (wire_string bs) < 2 ^ 61"
  shows "emits m0 (pb_encode_string E (At a) (word_of_nat n)) (wire_string bs)"
  using emits_string_At [of m0 a bs E] mload_length [OF assms(1)] assms(1)
    wire_string_shorter [OF assms(2)] by simp

lemma emits_string_null: "emits m0 (pb_encode_string E Null_src 0) (wire_string [])"
  using emits_wire_string [of "[]" m0 "pb_write E Null_src 0" E]
  by (simp add: pb_encode_string_def emits_write_Null)

lemma implements_bytes: "implements m0 (pb_enc_bytes E field a) (wire_bytes m0 field a)"
proof (cases "a = 0")
  case True
  then show ?thesis
    by (simp add: pb_enc_bytes_def wire_bytes_def implementsI emits_string_null)
next
  case False
  show ?thesis
  proof (cases "mem_u32 m0 a")
    case None
    with False show ?thesis by (simp add: wire_bytes_def)
  next
    case (Some n)
    show ?thesis
    proof (cases "PB_ATYPE (ftype field) = PB_ATYPE_STATIC \<and> unat n + 4 > unat (data_size field)")
      case True
      with False Some show ?thesis by (simp add: wire_bytes_def)
    next
      case fits: False
      have w: "(ucast n :: u64) = word_of_nat (unat n)" by (rule ucast_word_of_nat) simp
      from fits have nf: "\<not> (PB_ATYPE (ftype field) = PB_ATYPE_STATIC \<and>
          PB_BYTES_ARRAY_T_ALLOCSIZE n > unat (data_size field))"
        by (simp add: PB_BYTES_ARRAY_T_ALLOCSIZE_def)
      show ?thesis
        unfolding pb_enc_bytes_def wire_bytes_def if_not_P [OF False] Some option.case if_not_P [OF fits]
        by (intro implements_read [OF yields_load_u32 [OF Some]] implements_map_option)
          (simp only: if_not_P [OF nf] w emits_string)
    qed
  qed
qed

lemma implements_cstring: "implements m0 (pb_enc_string E field a) (wire_cstring m0 field a)"
proof (cases "a = 0")
  case True
  then show ?thesis
    using emits_string [of m0 0 0 "[]" E]
    by (simp add: pb_enc_string_def wire_cstring_def Let_def implementsI wire_string_def leb128.simps)
next
  case False
  let ?mx = "if PB_ATYPE (ftype field) = PB_ATYPE_POINTER then 2 ^ 64 - 1 else unat (data_size field)"
  show ?thesis
  proof (cases "strnlen_loop m0 a ?mx 0")
    case None
    with False show ?thesis by (simp add: wire_cstring_def)
  next
    case (Some n)
    have y: "yields m0 (creads (\<lambda>m. strnlen_loop m a ?mx 0)) n"
      by (rule yields_creads) (rule strnlen_msub [OF Some])
    show ?thesis
      unfolding pb_enc_string_def Let_def wire_cstring_def if_not_P [OF False] Some option.case
      by (intro implements_read [OF y] implements_map_option emits_string)
  qed
qed

lemma implements_fixed_length:
  "implements m0 (pb_enc_fixed_length_bytes E field a) (map_option wire_string (mload m0 a (unat (data_size field))))"
proof -
  have w: "(ucast (data_size field) :: u64) = word_of_nat (unat (data_size field))"
    by (rule ucast_word_of_nat) simp
  show ?thesis
    unfolding pb_enc_fixed_length_bytes_def w by (intro implements_map_option emits_string)
qed

section \<open>Submessages\<close>

text \<open>The second pass of \<open>pb_encode_submessage\<close>, into the substream.\<close>

lemma emits_second_pass:
  assumes ff: "emits m0 f bs" and len: "length bs < 2 ^ 61"
    and sub0: "bytes_written sub0 = word_of_nat (length bs)"
  shows "emits m0 (cbind cget (\<lambda>s.
        if out_callback s = Null_callback then pb_write E Null_src (word_of_nat (length bs))
        else if bytes_written s + word_of_nat (length bs) > max_size s then PB_RETURN_ERROR ''stream full''
        else cbind (on_stream (sub0\<lparr>out_callback := out_callback s, out_state := out_state s,
                      max_size := word_of_nat (length bs), bytes_written := 0, errmsg := None\<rparr>) f)
          (\<lambda>(status, sub').
          cbind (cput (s\<lparr>bytes_written := bytes_written s + bytes_written sub',
                         out_state := out_state sub', errmsg := errmsg sub'\<rparr>)) (\<lambda>_.
          if bytes_written sub' \<noteq> word_of_nat (length bs) then PB_RETURN_ERROR ''submsg size changed''
          else of_res status)))) bs"
    (is "emits m0 ?f bs")
proof (rule emitsI)
  show "length bs < 2 ^ 62" using len by simp
next
  fix s :: pb_ostream and m
  assume "msub m0 m" "errmsg s = None" "out_callback s = Null_callback"
  then show "?f s m = Some (Ok (), s\<lparr>bytes_written := bytes_written s + word_of_nat (length bs)\<rparr>, m)"
    by (simp add: cbind_def cget_def pb_write_def cret_def cput_def)
next
  fix s :: pb_ostream and m m'
  assume a: "msub m0 m" "errmsg s = None" "out_callback s = Buf_write" "obuf_ok m0 s m"
    and r: "length bs \<le> room s" and st: "mstore m (out_state s) bs = Some m'"
  let ?sub = "sub0\<lparr>out_callback := Buf_write, out_state := out_state s,
                      max_size := word_of_nat (length bs), bytes_written := 0, errmsg := None\<rparr>"
  have n: "unat (word_of_nat (length bs) :: u64) = length bs"
    using len by (simp add: unat_of_nat)
  have rs: "room ?sub = length bs" by (simp add: room_def n)
  have nov: "\<not> bytes_written s + word_of_nat (length bs) > max_size s"
    using buf_overflow_iff [OF a(4)] len r by simp
  have "mvalid m (out_state s) (length bs)"
    using a(4) r mvalid_subrange [of m "out_state s" "room s" "out_state s" "length bs"]
    by (simp add: obuf_ok_def)
  then have ok: "obuf_ok m0 ?sub m"
    using len obuf_disjoint [OF a(4) r] by (simp add: obuf_ok_def rs n)
  obtain m1 where "mstore m (out_state s) bs = Some m1" "f ?sub m = Some (Ok (), advance (length bs) ?sub, m1)"
    by (rule emits_fits [OF ff a(1) _ _ ok]) (simp_all add: rs)
  with st have "f ?sub m = Some (Ok (), advance (length bs) ?sub, m')" by simp
  with a(2,3) nov show "?f s m = Some (Ok (), advance (length bs) s, m')"
    by (simp add: cbind_def cget_def cput_def on_stream_def of_res_def advance_def)
next
  fix s :: pb_ostream and m
  assume a: "msub m0 m" "errmsg s = None" "out_callback s = Buf_write" "obuf_ok m0 s m"
    and r: "room s < length bs"
  have "bytes_written s + word_of_nat (length bs) > max_size s"
    using buf_overflow_iff [OF a(4)] len r by simp
  with a show "\<exists>s' m'. ?f s m = Some (Fail, s', m') \<and> errmsg s' = Some ''stream full'' \<and>
      mdom m' = mdom m \<and> magree (- arange (out_state s) (room s)) m m'"
    by (simp add: cbind_def cget_def PB_RETURN_ERROR_def PB_SET_ERROR_def)
qed

lemma emits_submessage:
  assumes enc: "emits m0 (enc fs a) bs" and len: "length bs < 2 ^ 61"
  shows "emits m0 (pb_encode_submessage E enc fs a) (wire_string bs)"
proof -
  let ?sub0 = "PB_OSTREAM_SIZING\<lparr>bytes_written := word_of_nat (length bs)\<rparr>"
  have sizing: "enc fs a PB_OSTREAM_SIZING m = Some (Ok (), ?sub0, m)" if "msub m0 m" for m
    using emits_Null [OF enc that, of PB_OSTREAM_SIZING] by (simp add: PB_OSTREAM_SIZING_def)
  have "bytes_written ?sub0 = word_of_nat (length bs)" by simp
  from emits_wire_string [OF len emits_second_pass [where f = "enc fs a", OF enc len this, of E], of E]
  show ?thesis
    by (rule emits_cong [rotated])
      (simp add: pb_encode_submessage_def cbind_Ok on_stream_def sizing Let_def cong: if_cong)
qed

text \<open>The encoder of submessages, and its specification.\<close>

definition encodes :: "mem \<Rightarrow> encoder \<Rightarrow> wire_fun \<Rightarrow> bool" where
  "encodes m0 enc sub \<longleftrightarrow> (\<forall>fs a. implements m0 (enc fs a) (sub fs a))"

lemma implements_submessage:
  assumes "encodes m0 enc sub"
  shows "implements m0 (pb_encode_submessage E enc fs a) (map_option wire_string (sub fs a))"
proof (rule implements_map_option)
  fix bs assume bs: "sub fs a = Some bs" and ws: "length (wire_string bs) < 2 ^ 61"
  have len: "length bs < 2 ^ 61" by (rule wire_string_shorter [OF ws])
  have "emits m0 (enc fs a) bs"
    using assms bs len by (simp add: encodes_def implements_def)
  then show "emits m0 (pb_encode_submessage E enc fs a) (wire_string bs)"
    using len by (rule emits_submessage)
qed

lemma implements_enc_submessage:
  assumes "encodes m0 enc sub"
  shows "implements m0 (pb_enc_submessage E enc field a)
    (if ptr field = 0 then None
     else case descs E (ptr field) of None \<Rightarrow> None | Some fs \<Rightarrow> map_option wire_string (sub fs a))"
proof (cases "descs E (ptr field)")
  case None
  then show ?thesis by simp
next
  case (Some fs)
  have "implements m0 (cbind (cdef (descs E (ptr field))) (\<lambda>fs. pb_encode_submessage E enc fs a))
      (map_option wire_string (sub fs a))"
    by (rule implements_read [OF yields_cdef [OF Some] implements_submessage [OF assms]])
  with Some show ?thesis by (simp add: pb_enc_submessage_def del: map_option_eq_Some)
qed

lemma implements_value:
  assumes "encodes m0 enc sub"
  shows "implements m0 (PB_ENCODERS E enc (PB_LTYPE (ftype field)) field a) (wire_value E sub m0 field a)"
proof -
  have v: "implements m0 (pb_enc_varint E field a)
      (map_option (\<lambda>v. leb128 (unat v)) (mem_signed m0 (data_size field) a))"
    unfolding pb_enc_varint_def
    by (rule implements_map_option) (rule emits_read [OF mem_signedE emits_varint])
  have u: "implements m0 (pb_enc_uvarint E field a)
      (map_option (\<lambda>v. leb128 (unat v)) (mem_unsigned m0 (data_size field) a))"
    unfolding pb_enc_uvarint_def
    by (rule implements_map_option) (rule emits_read [OF mem_unsignedE emits_varint])
  have z: "implements m0 (pb_enc_svarint E field a)
      (map_option (\<lambda>v. leb128 (zigzag (sint v))) (mem_signed m0 (data_size field) a))"
    unfolding pb_enc_svarint_def
    by (rule implements_map_option) (rule emits_read [OF mem_signedE emits_svarint])
  have f4: "implements m0 (pb_enc_fixed32 E field a) (mload m0 a 4)"
    by (simp add: implements_def pb_enc_fixed32_def emits_fixed32)
  have f8: "implements m0 (pb_enc_fixed64 E field a) (mload m0 a 8)"
    by (simp add: implements_def pb_enc_fixed64_def emits_fixed64)
  show ?thesis
    unfolding PB_ENCODERS_def wire_value_def Let_def
    using v u z f4 f8 implements_bytes implements_cstring implements_fixed_length
      implements_enc_submessage [OF assms]
    by (simp del: map_option_eq_Some)
qed

lemma implements_item:
  assumes "encodes m0 enc sub"
  shows "implements m0 (cbind (pb_encode_tag_for_field E field) (\<lambda>_.
       PB_ENCODERS E enc (PB_LTYPE (ftype field)) field a)) (wire_item E sub m0 field a)"
proof (cases "wire_type_of (PB_LTYPE (ftype field))")
  case None
  then show ?thesis by (simp add: wire_item_def)
next
  case (Some wt)
  then show ?thesis
    unfolding wire_item_def Some option.case
    by (intro implements_app implementsI emits_tag_for_field [OF Some] implements_value assms)
qed

section \<open>Arrays\<close>

lemma implements_loop:
  "(\<And>p. implements m0 (f p) (w p)) \<Longrightarrow> implements m0 (array_loop f step p n) (wire_elems w step p n)"
  by (induction n arbitrary: p) (simp_all add: implements_app)

lemma wire_elems_length:
  "(\<And>p bs. w p = Some bs \<Longrightarrow> length bs = k) \<Longrightarrow> wire_elems w step p n = Some bs \<Longrightarrow> length bs = k * n"
proof (induction n arbitrary: p bs)
  case 0
  then show ?case by simp
next
  case (Suc n)
  then show ?case by (fastforce simp: opt_app_def split: option.splits)
qed

lemma emits_packed_tail:
  assumes "emits m0 f bs" "length bs < 2 ^ 61"
  shows "emits m0 (cbind cget (\<lambda>s. if out_callback s = Null_callback
      then pb_write E Null_src (word_of_nat (length bs)) else f)) bs"
proof -
  have 1: "cbind cget (\<lambda>s. if out_callback s = Null_callback
      then pb_write E Null_src (word_of_nat (length bs)) else f) s m = f s m"
    if "msub m0 m" "errmsg s = None" for s :: pb_ostream and m
    using emits_Null [OF assms(1) that]
    by (auto simp: cbind_def cget_def pb_write_def cret_def cput_def)
  then show ?thesis using assms(1) unfolding emits_def by simp
qed

lemma emits_sizing:
  assumes "emits m0 f bs"
  shows "yields m0 (cbind (on_stream PB_OSTREAM_SIZING f) (\<lambda>(r, sizestream).
     case r of Fail \<Rightarrow> cfail | Ok _ \<Rightarrow> cret (bytes_written sizestream))) (word_of_nat (length bs))"
  unfolding yields_def
  using emits_Null [OF assms, of _ PB_OSTREAM_SIZING]
  by (auto simp: cbind_def on_stream_def cret_def PB_OSTREAM_SIZING_def)

lemma wire_value_fixed:
  "PB_LTYPE (ftype field) = PB_LTYPE_FIXED32 \<Longrightarrow> wire_value E sub m0 field a = mload m0 a 4"
  "PB_LTYPE (ftype field) = PB_LTYPE_FIXED64 \<Longrightarrow> wire_value E sub m0 field a = mload m0 a 8"
  by (simp_all add: wire_value_def)

lemma emits_packed_size:
  assumes len: "length bs < 2 ^ 61"
    and loop: "emits m0 (array_loop f step p (unat (count :: u32))) bs"
    and w: "wire_elems (wire_value E sub m0 field) step p (unat count) = Some bs"
  shows "yields m0
      (if PB_LTYPE (ftype field) = PB_LTYPE_FIXED32 then cret (4 * ucast count)
       else if PB_LTYPE (ftype field) = PB_LTYPE_FIXED64 then cret (8 * ucast count)
       else cbind (on_stream PB_OSTREAM_SIZING (array_loop f step p (unat count)))
              (\<lambda>(r, sizestream). case r of Fail \<Rightarrow> cfail | Ok _ \<Rightarrow> cret (bytes_written sizestream)))
      (word_of_nat (length bs) :: u64)"
proof -
  have 4: "(4 * ucast count :: u64) = word_of_nat (length bs)"
    if "PB_LTYPE (ftype field) = PB_LTYPE_FIXED32"
  proof -
    have "length bs = 4 * unat count"
      by (rule wire_elems_length [OF _ w]) (simp add: wire_value_fixed(1) [OF that] mload_length)
    then show ?thesis by simp
  qed
  have 8: "(8 * ucast count :: u64) = word_of_nat (length bs)"
    if "PB_LTYPE (ftype field) = PB_LTYPE_FIXED64"
  proof -
    have "length bs = 8 * unat count"
      by (rule wire_elems_length [OF _ w]) (simp add: wire_value_fixed(2) [OF that] mload_length)
    then show ?thesis by simp
  qed
  show ?thesis
    by (intro yields_if emits_sizing [OF loop]) (simp_all only: 4 8 yields_cret)
qed

lemma implements_packed:
  assumes sub: "encodes m0 enc sub"
    and loop_def: "loop = array_loop (PB_ENCODERS E enc (PB_LTYPE (ftype field)) field) step p (unat (count :: u32))"
  shows "implements m0
     (cbind (if PB_LTYPE (ftype field) = PB_LTYPE_FIXED32 then cret (4 * ucast count)
       else if PB_LTYPE (ftype field) = PB_LTYPE_FIXED64 then cret (8 * ucast count)
       else cbind (on_stream PB_OSTREAM_SIZING loop)
              (\<lambda>(r, sizestream). case r of Fail \<Rightarrow> cfail | Ok _ \<Rightarrow> cret (bytes_written sizestream)))
      (\<lambda>sz :: u64. cbind (pb_encode_varint E sz) (\<lambda>_.
        cbind cget (\<lambda>s. if out_callback s = Null_callback then pb_write E Null_src sz else loop))))
     (map_option wire_string (wire_elems (wire_value E sub m0 field) step p (unat count)))"
proof (rule implements_map_option)
  fix bs
  assume w: "wire_elems (wire_value E sub m0 field) step p (unat count) = Some bs"
    and ws: "length (wire_string bs) < 2 ^ 61"
  have len: "length bs < 2 ^ 61" by (rule wire_string_shorter [OF ws])
  have loop: "emits m0 loop bs"
    using implements_loop [where f = "PB_ENCODERS E enc (PB_LTYPE (ftype field)) field" and p = p,
        OF implements_value [OF sub]] w len
    unfolding loop_def implements_def by blast
  show "emits m0
     (cbind (if PB_LTYPE (ftype field) = PB_LTYPE_FIXED32 then cret (4 * ucast count)
       else if PB_LTYPE (ftype field) = PB_LTYPE_FIXED64 then cret (8 * ucast count)
       else cbind (on_stream PB_OSTREAM_SIZING loop)
              (\<lambda>(r, sizestream). case r of Fail \<Rightarrow> cfail | Ok _ \<Rightarrow> cret (bytes_written sizestream)))
      (\<lambda>sz :: u64. cbind (pb_encode_varint E sz) (\<lambda>_.
        cbind cget (\<lambda>s. if out_callback s = Null_callback then pb_write E Null_src sz else loop))))
     (wire_string bs)"
    unfolding loop_def
    by (rule emits_read [OF emits_packed_size [OF len loop [unfolded loop_def] w]])
      (rule emits_wire_string [OF len emits_packed_tail [OF loop [unfolded loop_def] len]])
qed

lemma implements_array:
  assumes sub: "encodes m0 enc sub"
  shows "implements m0 (encode_array E field pd count (PB_ENCODERS E enc (PB_LTYPE (ftype field))))
     (wire_array E sub m0 field pd count)"
proof -
  have item: "implements m0
      (cbind (pb_encode_tag_for_field E field) (\<lambda>_.
        if PB_ATYPE (ftype field) = PB_ATYPE_POINTER \<and>
           (PB_LTYPE (ftype field) = PB_LTYPE_STRING \<or> PB_LTYPE (ftype field) = PB_LTYPE_BYTES)
        then cbind (load_ptr p) (PB_ENCODERS E enc (PB_LTYPE (ftype field)) field)
        else PB_ENCODERS E enc (PB_LTYPE (ftype field)) field p))
      (if PB_ATYPE (ftype field) = PB_ATYPE_POINTER \<and>
           (PB_LTYPE (ftype field) = PB_LTYPE_STRING \<or> PB_LTYPE (ftype field) = PB_LTYPE_BYTES)
        then Option.bind (mem_ptr m0 p) (wire_item E sub m0 field)
        else wire_item E sub m0 field p)" (is "implements m0 (cbind ?t (\<lambda>_. if ?c then _ else _)) _") for p
  proof (cases ?c)
    case False
    show ?thesis unfolding if_not_P [OF False] by (rule implements_item [OF sub])
  next
    case True
    show ?thesis
    proof (cases "mem_ptr m0 p")
      case None
      with True show ?thesis by simp
    next
      case (Some q)
      show ?thesis
      proof (cases "wire_type_of (PB_LTYPE (ftype field))")
        case None
        then show ?thesis using True Some by (simp add: wire_item_def)
      next
        case wt: (Some wt)
        have "implements m0 (cbind ?t (\<lambda>_. cbind (load_ptr p) (PB_ENCODERS E enc (PB_LTYPE (ftype field)) field)))
            (opt_app (Some (wire_tag wt (tag field))) (wire_value E sub m0 field q))"
          by (intro implements_app implementsI emits_tag_for_field [OF wt]
              implements_read [OF yields_load_ptr [OF Some]] implements_value sub)
        with True Some wt show ?thesis by (simp add: wire_item_def)
      qed
    qed
  qed
  have tag: "implements m0 (pb_encode_tag E PB_WT_STRING (tag field)) (Some (wire_tag PB_WT_STRING (tag field)))"
    by (intro implementsI emits_tag) simp
  show ?thesis
    unfolding encode_array_def wire_array_def
    by (intro implements_if implements_ret implements_None
        implements_loop [where p = pd, OF item] implements_app [OF tag implements_packed [OF sub refl]])
qed

section \<open>The proto3 default check\<close>

lemma yields_check_loop:
  assumes ok: "fields_ok fs"
    and body: "\<And>k b. k < n_fields fs \<Longrightarrow> p k = Some b \<Longrightarrow> yields m0 (body (iter_at fs a k)) b"
  shows "k < n_fields fs \<Longrightarrow> all_opt p [k..<n_fields fs] = Some b \<Longrightarrow>
    yields m0 (cbind (ctry (iter_loop (\<lambda>it. cbind (body it) (\<lambda>b. if b then cret () else cfail)) (iter_at fs a k)))
      (\<lambda>r. cret (r = Ok ()))) b"
proof (induction "n_fields fs - k" arbitrary: k)
  case 0
  then show ?case by simp
next
  case (Suc x)
  let ?body = "\<lambda>it. cbind (body it) (\<lambda>b. if b then cret () else cfail)"
  have "[k..<n_fields fs] = k # [Suc k..<n_fields fs]"
    using Suc.prems(1) by (simp add: upt_conv_Cons)
  with Suc.prems(2) obtain c where c: "p k = Some c"
    "if c then all_opt p [Suc k..<n_fields fs] = Some b else b = False"
    by (auto split: option.splits if_splits)
  from body [OF Suc.prems(1) c(1)] have y: "\<And>s m. msub m0 m \<Longrightarrow> body (iter_at fs a k) s m = Some (Ok c, s, m)"
    by (simp add: yields_def)
  show ?case
  proof (cases "c \<and> Suc k < n_fields fs")
    case True
    with Suc.hyps c(2) have "yields m0 (cbind (ctry (iter_loop ?body (iter_at fs a (Suc k))))
      (\<lambda>r. cret (r = Ok ()))) b" by simp
    with True y show ?thesis
      unfolding iter_loop_at [OF ok Suc.prems(1)]
      by (simp add: yields_def cbind_def ctry_def cret_def)
  next
    case False
    with c(2) Suc.prems(1) y show ?thesis
      unfolding iter_loop_at [OF ok Suc.prems(1)]
      by (cases c) (auto simp: yields_def cbind_def ctry_def cret_def cfail_def)
  qed
qed

lemma yields_default:
  "is_default E d m0 field a = Some b \<Longrightarrow>
     yields m0 (pb_check_proto3_default_value E d field a :: ('s, bool) cm) b"
proof (induction d arbitrary: field a b)
  case 0
  then show ?case by simp
next
  case (Suc d)
  consider "PB_ATYPE (ftype field) = PB_ATYPE_STATIC" "PB_LTYPE (ftype field) = PB_LTYPE_BYTES"
    | "PB_ATYPE (ftype field) = PB_ATYPE_STATIC" "PB_LTYPE (ftype field) = PB_LTYPE_STRING"
    | "PB_ATYPE (ftype field) = PB_ATYPE_STATIC" "PB_LTYPE (ftype field) = PB_LTYPE_FIXED_LENGTH_BYTES"
    | "PB_ATYPE (ftype field) = PB_ATYPE_STATIC" "PB_LTYPE (ftype field) = PB_LTYPE_SUBMESSAGE"
    | "PB_ATYPE (ftype field) \<noteq> PB_ATYPE_STATIC \<or> PB_LTYPE (ftype field) \<notin>
        {PB_LTYPE_BYTES, PB_LTYPE_STRING, PB_LTYPE_FIXED_LENGTH_BYTES, PB_LTYPE_SUBMESSAGE}"
    by auto
  then show ?case
  proof cases
    case 4
    with Suc.prems obtain fs where fs: "descs E (ptr field) = Some fs" "fields_ok fs"
      "all_opt (\<lambda>k. is_default E d m0 (fs ! k) (a + field_offset fs k)) [0..<n_fields fs] = Some b"
      by (auto split: option.splits if_splits)
    have beg: "pb_field_iter_begin fs a = Some (n_fields fs \<noteq> 0, iter_at fs a 0)"
      by (rule iter_begin_ok [OF fs(2)])
    show ?thesis
    proof (cases "n_fields fs = 0")
      case True
      with 4 fs beg show ?thesis by (simp add: yields_cdef yields_cbind cdef_def)
    next
      case False
      have "yields m0 (cbind (ctry (iter_loop (\<lambda>it. cbind (pb_check_proto3_default_value E d (cur it) (pData it))
           (\<lambda>b. if b then cret () else cfail)) (iter_at fs a 0))) (\<lambda>r. cret (r = Ok ())) :: ('s, bool) cm) b"
        by (rule yields_check_loop [OF fs(2) _ _ fs(3)]) (use False in \<open>auto intro: Suc.IH\<close>)
      with 4 fs beg False show ?thesis by (simp add: cdef_def)
    qed
  next
    case 1
    with Suc.prems obtain n where "mem_u32 m0 a = Some n" "b = (n = 0)" by auto
    with 1 show ?thesis by (simp add: yields_cbind [OF yields_load_u32])
  next
    case 2
    with Suc.prems obtain bs where "mload m0 a 1 = Some bs" "b = (le_val bs = 0)" by auto
    with 2 show ?thesis by (simp add: yields_cbind [OF yields_load_nat])
  next
    case 3
    with Suc.prems show ?thesis by simp
  next
    case 5
    then have n: "\<not> (PB_ATYPE (ftype field) = PB_ATYPE_STATIC \<and> PB_LTYPE (ftype field) = PB_LTYPE_BYTES)"
      "\<not> (PB_ATYPE (ftype field) = PB_ATYPE_STATIC \<and> PB_LTYPE (ftype field) = PB_LTYPE_STRING)"
      "\<not> (PB_ATYPE (ftype field) = PB_ATYPE_STATIC \<and> PB_LTYPE (ftype field) = PB_LTYPE_FIXED_LENGTH_BYTES)"
      "\<not> (PB_ATYPE (ftype field) = PB_ATYPE_STATIC \<and> PB_LTYPE (ftype field) = PB_LTYPE_SUBMESSAGE)"
      by (simp_all only: insert_iff) blast+
    have z: "all_zero m0 a (unat (data_size field)) = Some b"
      using Suc.prems by (simp only: is_default.simps n if_False)
    show ?thesis
      unfolding pb_check_proto3_default_value.simps if_not_P [OF n(1)] if_not_P [OF n(2)]
        if_not_P [OF n(3)] if_not_P [OF n(4)]
      by (rule yields_creads) (rule all_zero_msub [OF z])
  qed
qed

section \<open>Fields\<close>

lemma implements_bind:
  "(\<And>v. o1 = Some v \<Longrightarrow> yields m0 f v) \<Longrightarrow> (\<And>v. o1 = Some v \<Longrightarrow> implements m0 (g v) (h v)) \<Longrightarrow>
     implements m0 (cbind f g) (Option.bind o1 h)"
  by (cases o1) (auto intro: implements_read)

lemma implements_present:
  assumes "encodes m0 enc sub" and y: "\<And>b. w = Some b \<Longrightarrow> yields m0 f b"
  shows "implements m0 (cbind f (\<lambda>has. if has then cbind (pb_encode_tag_for_field E field) (\<lambda>_.
       PB_ENCODERS E enc (PB_LTYPE (ftype field)) field p) else cret ()))
     (case w of None \<Rightarrow> None | Some b \<Rightarrow> if b then wire_item E sub m0 field p else Some [])"
proof (cases w)
  case None
  then show ?thesis by simp
next
  case (Some b)
  show ?thesis
    unfolding Some option.case
    by (intro implements_read [OF y [OF Some]] implements_if implements_item implements_ret assms)
qed

text \<open>The distinctions on the field's kind, decided by the simplifier.\<close>

lemma HTYPE_distinct:
  "PB_HTYPE_OPTIONAL \<noteq> PB_HTYPE_REQUIRED" "PB_HTYPE_REPEATED \<noteq> PB_HTYPE_REQUIRED"
  "PB_HTYPE_ONEOF \<noteq> PB_HTYPE_REQUIRED" "PB_HTYPE_REPEATED \<noteq> PB_HTYPE_OPTIONAL"
  "PB_HTYPE_ONEOF \<noteq> PB_HTYPE_OPTIONAL" "PB_HTYPE_ONEOF \<noteq> PB_HTYPE_REPEATED"
  by simp_all

lemma implements_by_required:
  assumes "encodes m0 enc sub" "PB_HTYPE (ftype field) = PB_HTYPE_REQUIRED"
  shows "implements m0 (encode_by_htype E enc field ps p ih)
    (if p = 0 then None else wire_item E sub m0 field p)"
  unfolding encode_by_htype_def Let_def assms(2) simp_thms(6) if_True
  by (intro implements_if implements_None implements_item assms(1))

lemma implements_by_optional:
  assumes "encodes m0 enc sub" "PB_HTYPE (ftype field) = PB_HTYPE_OPTIONAL"
    and "\<And>b. w = Some b \<Longrightarrow> case ps of None \<Rightarrow> ih = b | Some a \<Rightarrow> mem_bool m0 a = Some b"
  shows "implements m0 (encode_by_htype E enc field ps p ih)
    (case w of None \<Rightarrow> None | Some b \<Rightarrow> if b then wire_item E sub m0 field p else Some [])"
proof -
  have "yields m0 (case ps of None \<Rightarrow> cret ih | Some a \<Rightarrow> load_bool a) b" if "w = Some b" for b
    using assms(3) [OF that] by (cases ps) (simp_all add: yields_load_bool)
  from implements_present [OF assms(1), of w, OF this] show ?thesis
    unfolding encode_by_htype_def Let_def assms(2) by simp
qed

lemma implements_by_repeated:
  assumes "encodes m0 enc sub" "PB_HTYPE (ftype field) = PB_HTYPE_REPEATED"
  shows "implements m0 (encode_by_htype E enc field (Some a) p ih)
    (case mem_u32 m0 a of None \<Rightarrow> None | Some count \<Rightarrow> wire_array E sub m0 field p count)"
proof (cases "mem_u32 m0 a")
  case None
  then show ?thesis by simp
next
  case (Some count)
  have "implements m0 (cbind (load_u32 a) (\<lambda>count. encode_array E field p count
      (PB_ENCODERS E enc (PB_LTYPE (ftype field))))) (wire_array E sub m0 field p count)"
    by (rule implements_read [OF yields_load_u32 [OF Some]]) (rule implements_array [OF assms(1)])
  with Some show ?thesis unfolding encode_by_htype_def Let_def assms(2) by simp
qed

lemma implements_by_oneof:
  assumes "encodes m0 enc sub" "PB_HTYPE (ftype field) = PB_HTYPE_ONEOF"
  shows "implements m0 (encode_by_htype E enc field (Some a) p ih)
    (case map_option (\<lambda>which. which = tag field) (mem_u32 m0 a) of None \<Rightarrow> None
     | Some b \<Rightarrow> if b then wire_item E sub m0 field p else Some [])"
proof (cases "mem_u32 m0 a")
  case None
  then show ?thesis by simp
next
  case (Some which)
  have "implements m0 (cbind (load_u32 a) (\<lambda>which. if which = tag field
        then cbind (pb_encode_tag_for_field E field) (\<lambda>_. PB_ENCODERS E enc (PB_LTYPE (ftype field)) field p)
        else cret ()))
     (if which = tag field then wire_item E sub m0 field p else Some [])"
    by (intro implements_read [OF yields_load_u32 [OF Some]] implements_if implements_item
        implements_ret assms(1))
  with Some show ?thesis unfolding encode_by_htype_def Let_def assms(2) by simp
qed

lemma implements_basic:
  assumes sub: "encodes m0 enc sub"
  shows "implements m0 (encode_basic_field E d enc field a) (wire_basic E d sub m0 field a)"
proof -
  let ?ps = "a + sint (size_offset field)"
  let ?pd = "if PB_ATYPE (ftype field) = PB_ATYPE_POINTER then mem_ptr m0 a else Some a"
  show ?thesis
  proof (cases "PB_LTYPE (ftype field) > PB_LTYPE_FIXED_LENGTH_BYTES \<or> ?pd = None")
    case True
    then show ?thesis by (auto simp: wire_basic_def Let_def)
  next
    case False
    then obtain p where p: "?pd = Some p" and lt: "\<not> PB_LTYPE (ftype field) > PB_LTYPE_FIXED_LENGTH_BYTES"
      by auto
    let ?ih = "\<lambda>has0. if PB_ATYPE (ftype field) = PB_ATYPE_POINTER then p \<noteq> 0 else has0"
    have yp: "yields m0 (if PB_ATYPE (ftype field) = PB_ATYPE_POINTER
         then cbind (load_ptr a) (\<lambda>p. cret (p, p \<noteq> 0)) else cret (a, has0)) (p, ?ih has0)" for has0
      using p by (auto intro!: yields_cbind [OF yields_load_ptr] split: if_splits)
    let ?first = "(if size_offset field \<noteq> 0 then cret (Some ?ps, False)
         else if PB_HTYPE (ftype field) = PB_HTYPE_OPTIONAL
         then cbind (pb_check_proto3_default_value E d field a) (\<lambda>b. cret (None, \<not> b))
         else cret (None, True)) :: (pb_ostream, addr option \<times> bool) cm"
    have step: "implements m0 (encode_basic_field E d enc field a) w"
      if "yields m0 ?first (ps, has0)" and "implements m0 (encode_by_htype E enc field ps p (?ih has0)) w"
      for ps has0 w
      unfolding encode_basic_field_def if_not_P [OF lt]
      by (rule implements_read [OF that(1)], unfold prod.case)
        (rule implements_read [OF yp], unfold prod.case, rule that(2))
    consider (req) "PB_HTYPE (ftype field) = PB_HTYPE_REQUIRED"
      | (opt) "PB_HTYPE (ftype field) = PB_HTYPE_OPTIONAL"
      | (rep) "PB_HTYPE (ftype field) = PB_HTYPE_REPEATED"
      | (one) "PB_HTYPE (ftype field) = PB_HTYPE_ONEOF"
      by (rule HTYPE_cases)
    then show ?thesis
    proof cases
      case req
      have w: "wire_basic E d sub m0 field a = (if p = 0 then None else wire_item E sub m0 field p)"
        using req p lt by (simp add: wire_basic_def Let_def)
      have first: "yields m0 ?first (if size_offset field \<noteq> 0 then Some ?ps else None, size_offset field = 0)"
        using req by simp
      show ?thesis
        unfolding w by (rule step [OF first implements_by_required [OF sub req]])
    next
      case opt
      let ?w = "if size_offset field \<noteq> 0 then mem_bool m0 ?ps
              else case is_default E d m0 field a of None \<Rightarrow> None
                | Some b \<Rightarrow> if PB_ATYPE (ftype field) = PB_ATYPE_POINTER then Some (p \<noteq> 0) else Some (\<not> b)"
      have w: "wire_basic E d sub m0 field a =
          (case ?w of None \<Rightarrow> None | Some b \<Rightarrow> if b then wire_item E sub m0 field p else Some [])"
        using opt p lt by (simp add: wire_basic_def Let_def cong: option.case_cong if_cong)
      show ?thesis
      proof (cases "size_offset field \<noteq> 0")
        case True
        then have first: "yields m0 ?first (Some ?ps, False)" by simp
        show ?thesis
          unfolding w using True by (intro step [OF first implements_by_optional [OF sub opt]]) simp
      next
        case so: False
        show ?thesis
        proof (cases "is_default E d m0 field a")
          case None
          with so show ?thesis unfolding w by simp
        next
          case (Some b)
          with so opt have first: "yields m0 ?first (None, \<not> b)"
            by (auto intro: yields_cbind [OF yields_default])
          show ?thesis
            unfolding w using so Some
            by (intro step [OF first implements_by_optional [OF sub opt]]) (auto split: if_splits)
        qed
      qed
    next
      case rep
      then have w: "wire_basic E d sub m0 field a = (if size_offset field = 0 then None
          else case mem_u32 m0 ?ps of None \<Rightarrow> None | Some count \<Rightarrow> wire_array E sub m0 field p count)"
        using p lt by (simp add: wire_basic_def Let_def cong: option.case_cong if_cong)
      show ?thesis
      proof (cases "size_offset field = 0")
        case True
        then show ?thesis unfolding w by simp
      next
        case False
        then have first: "yields m0 ?first (Some ?ps, False)" by simp
        show ?thesis
          unfolding w if_not_P [OF False] by (rule step [OF first implements_by_repeated [OF sub rep]])
      qed
    next
      case one
      then have w: "wire_basic E d sub m0 field a = (if size_offset field = 0 then None
          else case map_option (\<lambda>which. which = tag field) (mem_u32 m0 ?ps) of None \<Rightarrow> None
             | Some b \<Rightarrow> if b then wire_item E sub m0 field p else Some [])"
        using p lt by (simp add: wire_basic_def Let_def cong: option.case_cong if_cong)
      show ?thesis
      proof (cases "size_offset field = 0")
        case True
        then show ?thesis unfolding w by simp
      next
        case False
        then have first: "yields m0 ?first (Some ?ps, False)" by simp
        show ?thesis
          unfolding w if_not_P [OF False] by (rule step [OF first implements_by_oneof [OF sub one]])
      qed
    qed
  qed
qed

section \<open>Callbacks and extensions\<close>

text \<open>
  What the encoder relies on of the user's functions: whatever the stream, they write the bytes
  they promise, with the calls of the library.
\<close>

definition callbacks_ok :: "mem \<Rightarrow> pb_env \<Rightarrow> callback_spec \<Rightarrow> extension_spec \<Rightarrow> bool" where
  "callbacks_ok m0 E cb xb \<longleftrightarrow>
     (\<forall>fn field arg. implements m0 (encode_callbacks E fn field arg) (cb fn field arg)) \<and>
     (\<forall>fn extension. implements m0 (ext_encoders E fn extension) (xb fn extension))"

lemma emits_callback:
  assumes "emits m0 f bs"
  shows "emits m0 (cbind (ctry f) (\<lambda>r. case r of Fail \<Rightarrow> PB_RETURN_ERROR ''callback error'' | Ok _ \<Rightarrow> cret ())) bs"
    (is "emits m0 ?f bs")
proof (rule emitsI)
  show "length bs < 2 ^ 62" by (rule emits_length [OF assms])
next
  fix s :: pb_ostream and m
  assume a: "msub m0 m" "errmsg s = None" "out_callback s = Null_callback"
  from emits_Null [OF assms this]
  show "?f s m = Some (Ok (), s\<lparr>bytes_written := bytes_written s + word_of_nat (length bs)\<rparr>, m)"
    by (simp add: cbind_def ctry_def cret_def)
next
  fix s :: pb_ostream and m m'
  assume a: "msub m0 m" "errmsg s = None" "out_callback s = Buf_write" "obuf_ok m0 s m"
    and r: "length bs \<le> room s" and st: "mstore m (out_state s) bs = Some m'"
  obtain m1 where "mstore m (out_state s) bs = Some m1" "f s m = Some (Ok (), advance (length bs) s, m1)"
    by (rule emits_fits [OF assms a r])
  with st show "?f s m = Some (Ok (), advance (length bs) s, m')"
    by (simp add: cbind_def ctry_def cret_def)
next
  fix s :: pb_ostream and m
  assume a: "msub m0 m" "errmsg s = None" "out_callback s = Buf_write" "obuf_ok m0 s m"
    and r: "room s < length bs"
  obtain s' m' where "f s m = Some (Fail, s', m')" "errmsg s' = Some ''stream full''"
    "mdom m' = mdom m" "magree (- arange (out_state s) (room s)) m m'"
    by (rule emits_full [OF assms a r])
  then show "\<exists>s' m'. ?f s m = Some (Fail, s', m') \<and> errmsg s' = Some ''stream full'' \<and>
      mdom m' = mdom m \<and> magree (- arange (out_state s) (room s)) m m'"
    by (auto simp: cbind_def ctry_def PB_RETURN_ERROR_def PB_SET_ERROR_def)
qed

lemma implements_field:
  assumes sub: "encodes m0 enc sub" and cb: "callbacks_ok m0 E cb xb"
  shows "implements m0 (encode_field E d enc field a) (wire_field E cb d sub m0 field a)"
proof -
  have "implements m0 (encode_callback_field E field a)
     (case mem_ptr m0 a of None \<Rightarrow> None
      | Some fn \<Rightarrow> if fn = 0 then Some [] else cb fn field (callback_arg a))"
  proof (cases "mem_ptr m0 a")
    case None
    then show ?thesis by simp
  next
    case (Some fn)
    have "implements m0 (cbind (ctry (encode_callbacks E fn field (callback_arg a))) (\<lambda>r.
        case r of Fail \<Rightarrow> PB_RETURN_ERROR ''callback error'' | Ok _ \<Rightarrow> cret ())) (cb fn field (callback_arg a))"
      using cb emits_callback unfolding callbacks_ok_def implements_def by blast
    then have "implements m0 (encode_callback_field E field a)
        (if fn \<noteq> 0 then cb fn field (callback_arg a) else Some [])"
      unfolding encode_callback_field_def
      by (intro implements_read [OF yields_load_ptr [OF Some]] implements_if implements_ret)
    with Some show ?thesis by (cases "fn = 0") simp_all
  qed
  then show ?thesis
    unfolding encode_field_def wire_field_def
    by (intro implements_if implements_basic [OF sub] implements_None)
qed

lemma implements_extensions:
  assumes sub: "encodes m0 enc sub" and cb: "callbacks_ok m0 E cb xb"
  shows "implements m0 (encode_extension_loop E d enc a) (wire_extensions E cb xb d sub m0 n a)"
proof (induction n arbitrary: a)
  case 0
  then show ?case by simp
next
  case (Suc n)
  have unf: "encode_extension_loop E d enc a =
     (if a = 0 then cret ()
      else cbind (load_ptr (ext_type_field a)) (\<lambda>t.
        cbind (cdef (ext_types E t)) (\<lambda>et.
        cbind (if ext_encode et \<noteq> 0 then ext_encoders E (ext_encode et) a
               else default_extension_encoder E d enc a) (\<lambda>_.
        cbind (load_ptr (ext_next_field a)) (encode_extension_loop E d enc)))))"
    by (intro ext, subst encode_extension_loop.simps) simp
  have dflt: "implements m0 (default_extension_encoder E d enc a)
      (Option.bind (ext_fields E t) (\<lambda>fs.
             if PB_ATYPE (ftype (hd fs)) = PB_ATYPE_POINTER
             then wire_field E cb d sub m0 (hd fs) (ext_dest_field a)
             else Option.bind (mem_ptr m0 (ext_dest_field a)) (wire_field E cb d sub m0 (hd fs))))"
    if t: "mem_ptr m0 (ext_type_field a) = Some t" for t
    unfolding default_extension_encoder_def Let_def
    by (rule implements_read [OF yields_load_ptr [OF t]])
      (intro implements_bind implements_if implements_field [OF sub cb] yields_cdef yields_load_ptr)
  have nxt: "implements m0 (cbind (load_ptr (ext_next_field a)) (encode_extension_loop E d enc))
      (Option.bind (mem_ptr m0 (ext_next_field a)) (wire_extensions E cb xb d sub m0 n))"
    by (intro implements_bind yields_load_ptr Suc.IH)
  have custom: "implements m0 (ext_encoders E fn a) (xb fn a)" for fn
    using cb by (simp add: callbacks_ok_def)
  show ?case
    unfolding unf wire_extensions.simps
    by (intro implements_if implements_ret implements_bind implements_app yields_load_ptr yields_cdef
        custom dflt nxt)
qed

section \<open>Messages\<close>

lemma implements_fields:
  assumes ok: "fields_ok fs"
    and body: "\<And>k. k < n_fields fs \<Longrightarrow> implements m0 (body (iter_at fs a k)) (w k)"
  shows "k < n_fields fs \<Longrightarrow>
    implements m0 (iter_loop body (iter_at fs a k)) (concat_opt w [k..<n_fields fs])"
proof (induction "n_fields fs - k" arbitrary: k)
  case 0
  then show ?case by simp
next
  case (Suc x)
  have up: "[k..<n_fields fs] = k # [Suc k..<n_fields fs]"
    using Suc.prems by (simp add: upt_conv_Cons)
  have rest: "implements m0 (if Suc k < n_fields fs then iter_loop body (iter_at fs a (Suc k)) else cret ())
      (concat_opt w [Suc k..<n_fields fs])"
    using Suc.hyps by auto
  show ?case
    unfolding iter_loop_at [OF ok Suc.prems] up concat_opt.simps
    by (rule implements_app [OF body [OF Suc.prems] rest])
qed

theorem encode_implements_wire:
  assumes cb: "callbacks_ok m0 E cb xb"
  shows "encodes m0 (pb_encode E d) (wire_message E cb xb n d m0)"
proof (induction d)
  case 0
  then show ?case by (simp add: encodes_def)
next
  case (Suc d)
  show ?case
    unfolding encodes_def
  proof (intro allI)
    fix fs a
    let ?w = "\<lambda>k. if PB_LTYPE (ftype (fs ! k)) = PB_LTYPE_EXTENSION
         then Option.bind (mem_ptr m0 (a + field_offset fs k))
                (wire_extensions E cb xb d (wire_message E cb xb n d m0) m0 n)
         else wire_field E cb d (wire_message E cb xb n d m0) m0 (fs ! k) (a + field_offset fs k)"
    show "implements m0 (pb_encode E (Suc d) fs a) (wire_message E cb xb n (Suc d) m0 fs a)"
    proof (cases "fields_ok fs")
      case False
      then show ?thesis by simp
    next
      case ok: True
      have body: "implements m0 (encode_iter_field E d (pb_encode E d) (iter_at fs a k)) (?w k)" for k
        unfolding encode_iter_field_def encode_extension_field_def iter_at_simps
        by (intro implements_if implements_bind yields_load_ptr implements_extensions [OF Suc cb]
            implements_field [OF Suc cb])
      have "implements m0 (if n_fields fs \<noteq> 0
            then iter_loop (encode_iter_field E d (pb_encode E d)) (iter_at fs a 0) else cret ())
          (concat_opt ?w [0..<n_fields fs])"
        using implements_fields [where w = ?w and k = 0, OF ok body] by simp
      with ok show ?thesis
        by (simp add: iter_begin_ok cdef_def)
    qed
  qed
qed

end
