(* ===== verification/Pb_Store.thy ===== *)
theory Pb_Store
  imports Pb_Decode Pb_Parse Pb_Wire
begin

text \<open>
  The field decoders against the field encoders. \<open>stores f bs a out\<close> says that \<open>f\<close>, on a stream
  whose next bytes are \<open>bs\<close>, consumes them and changes the memory exactly by storing the bytes
  \<open>out\<close> at \<open>a\<close>. The theorems state that the decoder of a field stores the very bytes
  from which the encoder made its input.
\<close>

definition stores :: "(pb_istream, unit) cm \<Rightarrow> byte list \<Rightarrow> addr \<Rightarrow> byte list \<Rightarrow> bool" where
  "stores f bs a out \<longleftrightarrow> (\<forall>s m m'. next_bytes s m bs \<longrightarrow>
     arange (in_state s) (length bs) \<inter> arange a (length out) = {} \<longrightarrow>
     mstore m a out = Some m' \<longrightarrow> f s m = Some (Ok (), eat (length bs) s, m'))"

lemma storesD:
  "stores f bs a out \<Longrightarrow> next_bytes s m bs \<Longrightarrow>
     arange (in_state s) (length bs) \<inter> arange a (length out) = {} \<Longrightarrow>
     mstore m a out = Some m' \<Longrightarrow> f s m = Some (Ok (), eat (length bs) s, m')"
  by (simp add: stores_def)

lemma stores_parsed:
  assumes "parses f bs v"
    and "\<And>s m m'. mstore m a out = Some m' \<Longrightarrow> g v s m = Some (Ok (), s, m')"
  shows "stores (cbind f g) bs a out"
  using assms by (simp add: stores_def parses_def cbind_Ok)

section \<open>Narrow integers\<close>

lemma trunc_sext:
  assumes "LENGTH('a::len) \<le> LENGTH('b::len)"
  shows "(ucast (scast (x :: 'a word) :: 'b word) :: 'a word) = x"
proof (rule bit_word_eqI)
  fix n assume n: "n < LENGTH('a)"
  then have "min n (LENGTH('a) - Suc 0) = n" by simp
  with n assms show "bit (ucast (scast x :: 'b word) :: 'a word) n \<longleftrightarrow> bit x n"
    by (simp add: bit_simps)
qed

lemma sext_via_32:
  "scast (ucast (scast (x :: u8) :: u64) :: u32) = (scast x :: u64)"
  "scast (ucast (scast (y :: u16) :: u64) :: u32) = (scast y :: u64)"
  "scast (ucast (scast (z :: u32) :: u64) :: u32) = (scast z :: u64)"
    apply (rule bit_word_eqI, auto simp: bit_simps min_def)[1]
   apply (rule bit_word_eqI, auto simp: bit_simps min_def)[1]
  apply (simp add: trunc_sext)
  done

lemma trunc_zext:
  assumes "LENGTH('a::len) \<le> LENGTH('b::len)"
  shows "(ucast (ucast (x :: 'a word) :: 'b word) :: 'a word) = x"
  using assms by (intro bit_word_eqI) (simp add: bit_simps)

text \<open>What the value of a memory cell of \<open>n\<close> bytes is stored as.\<close>

lemma store_back:
  assumes "mload m0 a0 n = Some out" "LENGTH('a::len) = 8 * n" "mstore m a out = Some m'"
  shows "store_nat a n (unat (word_of_nat (le_val out) :: 'a word)) s m = Some (Ok (), s, m')"
  using assms le_bytes_word_of_mload [OF assms(1,2)] by (simp add: store_nat_def cstore_def)

lemma mem_signed_cases:
  assumes "mem_signed m0 n a0 = Some v"
  obtains bs where "n = 1" "mload m0 a0 1 = Some bs" "v = scast (word_of_nat (le_val bs) :: u8)"
  | bs where "n = 2" "mload m0 a0 2 = Some bs" "v = scast (word_of_nat (le_val bs) :: u16)"
  | bs where "n = 4" "mload m0 a0 4 = Some bs" "v = scast (word_of_nat (le_val bs) :: u32)"
  | bs where "n = 8" "mload m0 a0 8 = Some bs" "v = word_of_nat (le_val bs)"
  using assms unfolding mem_signed_def map_option_eq_Some
  by (auto split: if_splits simp del: One_nat_def mload.simps)

lemma store_signed_ok:
  assumes "mem_signed m0 (data_size field) a0 = Some v" "mload m0 a0 (unat (data_size field)) = Some out"
    and st: "mstore m a out = Some m'"
  shows "store_signed field a v s m = Some (Ok v, s, m')"
  using assms(1)
proof (cases rule: mem_signed_cases)
  case (1 bs)
  with assms(2) have "mload m0 a0 1 = Some out" by simp
  from store_back [OF this _ st, where 'a = 8 and s = s] 1 assms(2) show ?thesis
    by (simp add: store_signed_def trunc_sext cbind_Ok cret_def del: mload.simps One_nat_def)
next
  case (2 bs)
  with assms(2) have "mload m0 a0 2 = Some out" by simp
  from store_back [OF this _ st, where 'a = 16 and s = s] 2 assms(2) show ?thesis
    by (simp add: store_signed_def trunc_sext cbind_Ok cret_def del: mload.simps)
next
  case (3 bs)
  with assms(2) have "mload m0 a0 4 = Some out" by simp
  from store_back [OF this _ st, where 'a = 32 and s = s] 3 assms(2) show ?thesis
    by (simp add: store_signed_def trunc_sext cbind_Ok cret_def del: mload.simps)
next
  case (4 bs)
  with assms(2) have "mload m0 a0 8 = Some out" by simp
  from store_back [OF this _ st, where 'a = 64 and s = s] 4 assms(2) show ?thesis
    by (simp add: store_signed_def cbind_Ok cret_def del: mload.simps)
qed

lemma unat_le_val:
  assumes "mload m a n = Some bs" "LENGTH('a::len) = 8 * n"
  shows "unat (word_of_nat (le_val bs) :: 'a word) = le_val bs"
proof -
  have "(256 :: nat) ^ n = 2 ^ LENGTH('a)" using assms(2) by (simp add: power_mult)
  then show ?thesis
    using le_val_bound [of bs] mload_length [OF assms(1)] by (simp add: unat_of_nat)
qed

lemma mem_unsigned_cases:
  assumes "mem_unsigned m0 n a0 = Some v"
  obtains bs where "n = 1" "mload m0 a0 1 = Some bs" "v = ucast (word_of_nat (le_val bs) :: u8)"
  | bs where "n = 2" "mload m0 a0 2 = Some bs" "v = ucast (word_of_nat (le_val bs) :: u16)"
  | bs where "n = 4" "mload m0 a0 4 = Some bs" "v = ucast (word_of_nat (le_val bs) :: u32)"
  | bs where "n = 8" "mload m0 a0 8 = Some bs" "v = word_of_nat (le_val bs)"
proof -
  from assms obtain bs where n: "n \<in> {1, 2, 4, 8}" and bs: "mload m0 a0 (unat n) = Some bs"
    and v: "v = word_of_nat (le_val bs)"
    by (auto simp: mem_unsigned_def simp del: mload.simps split: if_splits)
  from n consider "n = 1" | "n = 2" | "n = 4" | "n = 8" by auto
  then show ?thesis
  proof cases
    case 1
    with bs have b: "mload m0 a0 1 = Some bs" by simp
    have "v = ucast (word_of_nat (le_val bs) :: u8)"
      unfolding v by (rule ucast_word_of_nat [symmetric]) (rule unat_le_val [OF b], simp)
    with 1 b that(1) show ?thesis by blast
  next
    case 2
    with bs have b: "mload m0 a0 2 = Some bs" by simp
    have "v = ucast (word_of_nat (le_val bs) :: u16)"
      unfolding v by (rule ucast_word_of_nat [symmetric]) (rule unat_le_val [OF b], simp)
    with 2 b that(2) show ?thesis by blast
  next
    case 3
    with bs have b: "mload m0 a0 4 = Some bs" by simp
    have "v = ucast (word_of_nat (le_val bs) :: u32)"
      unfolding v by (rule ucast_word_of_nat [symmetric]) (rule unat_le_val [OF b], simp)
    with 3 b that(3) show ?thesis by blast
  next
    case 4
    with bs have "mload m0 a0 8 = Some bs" by simp
    with 4 v that(4) show ?thesis by blast
  qed
qed

lemma store_unsigned_ok:
  assumes "mem_unsigned m0 (data_size field) a0 = Some v" "mload m0 a0 (unat (data_size field)) = Some out"
    and st: "mstore m a out = Some m'"
  shows "store_unsigned field a v s m = Some (Ok v, s, m')"
  using assms(1)
proof (cases rule: mem_unsigned_cases)
  case (1 bs)
  with assms(2) have "mload m0 a0 1 = Some out" by simp
  from store_back [OF this _ st, where 'a = 8 and s = s] 1 assms(2) show ?thesis
    by (simp add: store_unsigned_def trunc_zext cbind_Ok cret_def del: mload.simps One_nat_def)
next
  case (2 bs)
  with assms(2) have "mload m0 a0 2 = Some out" by simp
  from store_back [OF this _ st, where 'a = 16 and s = s] 2 assms(2) show ?thesis
    by (simp add: store_unsigned_def trunc_zext cbind_Ok cret_def del: mload.simps)
next
  case (3 bs)
  with assms(2) have "mload m0 a0 4 = Some out" by simp
  from store_back [OF this _ st, where 'a = 32 and s = s] 3 assms(2) show ?thesis
    by (simp add: store_unsigned_def trunc_zext cbind_Ok cret_def del: mload.simps)
next
  case (4 bs)
  with assms(2) have "mload m0 a0 8 = Some out" by simp
  from store_back [OF this _ st, where 'a = 64 and s = s] 4 assms(2) show ?thesis
    by (simp add: store_unsigned_def cbind_Ok cret_def del: mload.simps)
qed

section \<open>Integer fields\<close>

lemma wire_varint_inverse:
  assumes "mem_signed m0 n a0 = Some v"
  shows "(if n = 8 then v else scast (ucast v :: u32)) = v"
  using assms by (cases rule: mem_signed_cases) (simp_all add: sext_via_32)

lemma stores_varint:
  assumes v: "mem_signed m0 (data_size field) a0 = Some v"
    and out: "mload m0 a0 (unat (data_size field)) = Some out"
  shows "stores (pb_dec_varint E field a) (leb128 (unat v)) a out"
  unfolding pb_dec_varint_def Let_def
proof (rule stores_parsed [OF parses_leb128])
  show "unat v < 2 ^ 64" using unat_lt_len [of v] by simp
  fix s :: pb_istream and m m' assume st: "mstore m a out = Some m'"
  note sv = store_signed_ok [OF v out st, where s = s]
  have w: "(word_of_nat (unat v) :: u64) = v" by simp
  show "cbind (store_signed field a
       (if data_size field = 8 then word_of_nat (unat v) else scast (ucast (word_of_nat (unat v) :: u64) :: u32)))
     (\<lambda>clamped. if clamped \<noteq> (if data_size field = 8 then word_of_nat (unat v) else scast (ucast (word_of_nat (unat v) :: u64) :: u32))
        then PB_RETURN_ERROR ''integer too large'' else cret ()) s m = Some (Ok (), s, m')"
    unfolding w wire_varint_inverse [OF v] using sv by (simp add: cbind_Ok cret_def)
qed

lemma stores_uvarint:
  assumes v: "mem_unsigned m0 (data_size field) a0 = Some v"
    and out: "mload m0 a0 (unat (data_size field)) = Some out"
  shows "stores (pb_dec_uvarint E field a) (leb128 (unat v)) a out"
  unfolding pb_dec_uvarint_def
proof (rule stores_parsed [OF parses_leb128])
  show "unat v < 2 ^ 64" using unat_lt_len [of v] by simp
  fix s :: pb_istream and m m' assume st: "mstore m a out = Some m'"
  show "cbind (store_unsigned field a (word_of_nat (unat v))) (\<lambda>clamped.
      if clamped \<noteq> word_of_nat (unat v) then PB_RETURN_ERROR ''integer too large'' else cret ()) s m =
      Some (Ok (), s, m')"
    using store_unsigned_ok [OF v out st, of s] by (simp add: cbind_Ok cret_def)
qed

lemma stores_svarint:
  assumes v: "mem_signed m0 (data_size field) a0 = Some v"
    and out: "mload m0 a0 (unat (data_size field)) = Some out"
  shows "stores (pb_dec_svarint E field a) (leb128 (zigzag (sint v))) a out"
  unfolding pb_dec_svarint_def
proof (rule stores_parsed [OF parses_zigzag])
  show "- (2 ^ 63) \<le> sint v" "sint v < 2 ^ 63"
    using sint_ge [of v] sint_lt [of v] by simp_all
  fix s :: pb_istream and m m' assume st: "mstore m a out = Some m'"
  show "cbind (store_signed field a (word_of_int (sint v))) (\<lambda>clamped.
      if clamped \<noteq> word_of_int (sint v) then PB_RETURN_ERROR ''integer too large'' else cret ()) s m =
      Some (Ok (), s, m')"
    using store_signed_ok [OF v out st, of s] by (simp add: cbind_Ok cret_def)
qed

lemma stores_fixed32:
  assumes "length bs = 4"
  shows "stores (pb_decode_fixed32 E a) bs a bs"
  unfolding pb_decode_fixed32_def
proof (rule stores_parsed [OF parses_read_local [of E bs, unfolded assms]])
  fix s :: pb_istream and m m' assume st: "mstore m a bs = Some m'"
  have "le_bytes 4 (unat (word_of_nat (le_val bs) :: u32)) = bs"
    using le_bytes_le_val [of bs] le_val_bound [of bs] assms by (simp add: unat_of_nat)
  with st show "store_u32 a (push_bit 0 (ucast (bs ! 0)) OR push_bit 8 (ucast (bs ! 1)) OR
        push_bit 16 (ucast (bs ! 2)) OR push_bit 24 (ucast (bs ! 3))) s m = Some (Ok (), s, m')"
    unfolding le_word_32 [OF assms] by (simp add: store_u32_def store_nat_def cstore_def)
qed

lemma stores_fixed64:
  assumes "length bs = 8"
  shows "stores (pb_decode_fixed64 E a) bs a bs"
  unfolding pb_decode_fixed64_def
proof (rule stores_parsed [OF parses_read_local [of E bs, unfolded assms]])
  fix s :: pb_istream and m m' assume st: "mstore m a bs = Some m'"
  have "le_bytes 8 (unat (word_of_nat (le_val bs) :: u64)) = bs"
    using le_bytes_le_val [of bs] le_val_bound [of bs] assms by (simp add: unat_of_nat)
  with st show "store_u64 a (push_bit 0 (ucast (bs ! 0)) OR push_bit 8 (ucast (bs ! 1)) OR
        push_bit 16 (ucast (bs ! 2)) OR push_bit 24 (ucast (bs ! 3)) OR
        push_bit 32 (ucast (bs ! 4)) OR push_bit 40 (ucast (bs ! 5)) OR
        push_bit 48 (ucast (bs ! 6)) OR push_bit 56 (ucast (bs ! 7))) s m = Some (Ok (), s, m')"
    unfolding le_word_64 [OF assms] by (simp add: store_u64_def store_nat_def cstore_def)
qed

section \<open>Byte strings\<close>

lemma next_bytes_mstore:
  "next_bytes s m bs \<Longrightarrow> arange (in_state s) (length bs) \<inter> arange a (length out) = {} \<Longrightarrow>
     mstore m a out = Some m' \<Longrightarrow> next_bytes s m' bs"
  using mload_mstore_disj [of m a out m' "in_state s" "length bs"]
  by (auto simp: next_bytes_def Int_commute)

lemma stores_read:
  "stores (cbind (pb_read E (To_mem a) (length bs)) (\<lambda>_. cret ())) bs a bs"
proof -
  have "cbind (pb_read E (To_mem a) (length bs)) (\<lambda>_. cret ()) s m = Some (Ok (), eat (length bs) s, m')"
    if nb: "next_bytes s m bs" and dj: "arange (in_state s) (length bs) \<inter> arange a (length bs) = {}"
      and st: "mstore m a bs = Some m'" for s m m'
  proof -
    from nb have "in_callback s = Buf_read" "length bs \<le> bytes_left s" "mload m (in_state s) (length bs) = Some bs"
      by (simp_all add: next_bytes_def)
    moreover from this(3) dj st have "mcopy m a (in_state s) (length bs) = Some m'"
      by (simp add: mcopy_disjoint Int_commute)
    ultimately show ?thesis
      by (simp add: pb_read_def pb_read_buf_def cbind_def cget_def ctry_def call_in_callback_def buf_read_def
          cput_def ccopy_def consume_def cret_def eat_def)
  qed
  then show ?thesis by (simp add: stores_def)
qed

text \<open>A parse and a store before the rest of the input is read.\<close>

lemma stores_after:
  assumes p: "parses f bs v" and st: "stores (g v) cs a out"
  shows "stores (cbind f g) (bs @ cs) a out"
  unfolding stores_def
proof (intro allI impI)
  fix s m m'
  assume nb: "next_bytes s m (bs @ cs)" and dj: "arange (in_state s) (length (bs @ cs)) \<inter> arange a (length out) = {}"
    and m': "mstore m a out = Some m'"
  have "arange (in_state s + int (length bs)) (length cs) \<subseteq> arange (in_state s) (length (bs @ cs))"
    by (intro arange_subset) auto
  with dj have "arange (in_state (eat (length bs) s)) (length cs) \<inter> arange a (length out) = {}" by auto
  with nb m' p st show "cbind f g s m = Some (Ok (), eat (length (bs @ cs)) s, m')"
    by (simp add: next_bytes_append parses_def stores_def cbind_Ok)
qed

lemma stores_before:
  assumes w: "\<And>s m m'. mstore m a xs = Some m' \<Longrightarrow> f s m = Some (Ok (), s, m')"
    and st: "stores g bs (a + int (length xs)) ys"
  shows "stores (cbind f (\<lambda>_. g)) bs a (xs @ ys)"
  unfolding stores_def
proof (intro allI impI)
  fix s m m'
  assume nb: "next_bytes s m bs" and dj: "arange (in_state s) (length bs) \<inter> arange a (length (xs @ ys)) = {}"
    and m': "mstore m a (xs @ ys) = Some m'"
  from m' obtain m1 where m1: "mstore m a xs = Some m1" "mstore m1 (a + int (length xs)) ys = Some m'"
    by (auto simp: mstore_append split: option.splits)
  from dj have dj': "arange (in_state s) (length bs) \<inter> arange a (length xs) = {}"
    "arange (in_state s) (length bs) \<inter> arange (a + int (length xs)) (length ys) = {}"
    by (auto simp: arange_add)
  have "next_bytes s m1 bs" by (rule next_bytes_mstore [OF nb dj'(1) m1(1)])
  from storesD [OF st this dj'(2) m1(2)] w [OF m1(1)]
  show "cbind f (\<lambda>_. g) s m = Some (Ok (), eat (length bs) s, m')"
    by (simp add: cbind_Ok)
qed

lemma word_less_of_nat: "unat (w :: u32) = n \<Longrightarrow> word_of_nat n = w"
  by auto

lemma stores_bytes:
  assumes st: "PB_ATYPE (ftype field) = PB_ATYPE_STATIC" and fits: "length cs + 4 \<le> unat (data_size field)"
  shows "stores (pb_dec_bytes E field a) (wire_string cs) a (le_bytes 4 (length cs) @ cs)"
proof -
  have len: "length cs < 2 ^ 32"
    using fits unat_lt_len [of "data_size field"] by simp
  let ?sz = "word_of_nat (length cs) :: u32"
  have u: "unat ?sz = length cs" by (rule parses_len32 [OF len])
  have "\<not> ?sz > PB_SIZE_MAX" by (simp add: PB_SIZE_MAX_def word_le_nat_alt not_less)
  moreover have "stores (cbind (store_u32 a ?sz) (\<lambda>_.
      cbind (pb_read E (To_mem (a + 4)) (length cs)) (\<lambda>_. cret ()))) cs a (le_bytes 4 (length cs) @ cs)"
    by (rule stores_before) (use stores_read in \<open>simp_all add: store_u32_def store_nat_def cstore_def u\<close>)
  ultimately show ?thesis
    unfolding pb_dec_bytes_def wire_string_def
    using fits st by (intro stores_after [OF parses_leb128_u32 [OF len]])
      (simp add: Let_def u PB_BYTES_ARRAY_T_ALLOCSIZE_def)
qed

lemma stores_cstring:
  assumes st: "PB_ATYPE (ftype field) = PB_ATYPE_STATIC" and fits: "length cs < unat (data_size field)"
  shows "stores (pb_dec_string E field a) (wire_string cs) a (cs @ [0])"
proof -
  have len: "length cs + 1 < 2 ^ 32"
    using fits unat_lt_len [of "data_size field"] by simp
  let ?sz = "word_of_nat (length cs) :: u32"
  have u: "unat ?sz = length cs" using len by (intro parses_len32) simp
  have u1: "unat (?sz + 1) = length cs + 1"
    using len u by (simp add: unat_word_ariths)
  have 1: "\<not> ?sz + 1 < ?sz" "\<not> ?sz + 1 > data_size field"
    using fits u u1 by (simp_all add: word_less_nat_alt)
  have "stores (cbind (ctry (pb_read E (To_mem a) (unat ?sz))) (\<lambda>status.
      cbind (cstore (a + int (unat ?sz)) [0]) (\<lambda>_. cbind (of_res status) (\<lambda>_. cret ())))) cs a (cs @ [0])"
    unfolding stores_def
  proof (intro allI impI)
    fix s m m'
    assume nb: "next_bytes s m cs" and dj: "arange (in_state s) (length cs) \<inter> arange a (length (cs @ [0])) = {}"
      and m': "mstore m a (cs @ [0]) = Some m'"
    from m' obtain m1 where m1: "mstore m a cs = Some m1" "mstore m1 (a + int (length cs)) [0] = Some m'"
      by (auto simp: mstore_append simp del: mstore.simps split: option.splits)
    have "cbind (pb_read E (To_mem a) (length cs)) (\<lambda>_. cret ()) s m = Some (Ok (), eat (length cs) s, m1)"
      using dj arange_subset [of a a "length cs" "length (cs @ [0])"]
      by (intro storesD [OF stores_read nb _ m1(1)]) auto
    then obtain x where "pb_read E (To_mem a) (length cs) s m = Some (Ok x, eat (length cs) s, m1)"
      by (auto simp: cbind_def cret_def split: option.splits prod.splits res.splits)
    with m1(2) show "cbind (ctry (pb_read E (To_mem a) (unat ?sz))) (\<lambda>status.
        cbind (cstore (a + int (unat ?sz)) [0]) (\<lambda>_. cbind (of_res status) (\<lambda>_. cret ()))) s m =
        Some (Ok (), eat (length cs) s, m')"
      by (simp add: cbind_def ctry_def cstore_def of_res_def cret_def u del: mstore.simps)
  qed
  then show ?thesis
    unfolding pb_dec_string_def wire_string_def
    using len 1 st by (intro stores_after [OF parses_leb128_u32]) (simp_all add: Let_def)
qed

lemma stores_fixed_length:
  assumes len: "length cs = unat (data_size field)"
  shows "stores (pb_dec_fixed_length_bytes E field a) (wire_string cs) a cs"
proof -
  have l: "length cs < 2 ^ 32" using len unat_lt_len [of "data_size field"] by simp
  let ?sz = "word_of_nat (length cs) :: u32"
  have w: "?sz = data_size field" using len by simp
  have "stores (if data_size field = 0 then memset0 a (unat (data_size field))
      else cbind (pb_read E (To_mem a) (unat (data_size field))) (\<lambda>_. cret ())) cs a cs"
    using stores_read [of E a cs] len
    by (auto simp: stores_def memset0_def cstore_def)
  then show ?thesis
    unfolding pb_dec_fixed_length_bytes_def wire_string_def
    by (intro stores_after [OF parses_leb128_u32 [OF l]])
      (simp add: w PB_SIZE_MAX_def word_le_nat_alt not_less cong: if_cong split del: if_split)
qed

section \<open>Fields\<close>

text \<open>
  The bytes of a static field that its encoding carries: all of it for a number, the size and the
  used part for bytes, the characters with their terminator for a string (\<open>None\<close> when the
  terminator is missing).
\<close>

definition field_content :: "mem \<Rightarrow> pb_field \<Rightarrow> addr \<Rightarrow> byte list option" where
  "field_content m field a =
     (let lt = PB_LTYPE (ftype field) in
      if lt = PB_LTYPE_FIXED32 then mload m a 4
      else if lt = PB_LTYPE_FIXED64 then mload m a 8
      else if lt = PB_LTYPE_BYTES then Option.bind (mem_u32 m a) (\<lambda>n. mload m a (4 + unat n))
      else if lt = PB_LTYPE_STRING then
        Option.bind (strnlen_loop m a (unat (data_size field)) 0) (\<lambda>n.
          if n < unat (data_size field) then mload m a (n + 1) else None)
      else mload m a (unat (data_size field)))"

lemma strnlen_stop:
  "strnlen_loop m a mx k = Some n \<Longrightarrow> k \<le> n \<and> (n < mx \<longrightarrow> mget m (a + int (n - k)) = Some 0)"
proof (induction m a mx k rule: strnlen_loop.induct)
  case (1 m a mx k)
  show ?case
  proof (cases "k < mx")
    case False
    with 1(2) show ?thesis by (subst (asm) strnlen_loop.simps) auto
  next
    case True
    show ?thesis
    proof (cases "mget m a")
      case None
      with True 1(2) show ?thesis by (subst (asm) strnlen_loop.simps) simp
    next
      case (Some b)
      show ?thesis
      proof (cases "b = 0")
        case b: True
        with True Some 1(2) have "n = k" by (subst (asm) strnlen_loop.simps) simp
        with Some b show ?thesis by simp
      next
        case False
        with True Some 1(2) have "strnlen_loop m (a + 1) mx (Suc k) = Some n"
          by (subst (asm) strnlen_loop.simps) simp
        from 1(1) [OF True Some False this]
        have k: "Suc k \<le> n" and z: "n < mx \<longrightarrow> mget m (a + 1 + int (n - Suc k)) = Some 0" by blast+
        have e: "a + 1 + int (n - Suc k) = a + int (n - k)" using k by simp
        from z have "n < mx \<longrightarrow> mget m (a + int (n - k)) = Some 0" unfolding e .
        with k show ?thesis by simp
      qed
    qed
  qed
qed

lemma content_bytes:
  assumes w: "wire_bytes m0 field a0 = Some bs" and a0: "a0 \<noteq> 0"
    and st: "PB_ATYPE (ftype field) = PB_ATYPE_STATIC"
    and c: "Option.bind (mem_u32 m0 a0) (\<lambda>n. mload m0 a0 (4 + unat n)) = Some out"
  obtains cs where "bs = wire_string cs" "length cs + 4 \<le> unat (data_size field)" "out = le_bytes 4 (length cs) @ cs"
proof -
  from c obtain n where n: "mem_u32 m0 a0 = Some n" and o: "mload m0 a0 (4 + unat n) = Some out"
    by (auto simp: bind_eq_Some_conv)
  from n obtain zs where zs: "mload m0 a0 4 = Some zs" "n = word_of_nat (le_val zs)"
    by (auto simp: mem_u32_def)
  from w a0 st n obtain cs where cs: "mload m0 (a0 + 4) (unat n) = Some cs" "bs = wire_string cs"
    "unat n + 4 \<le> unat (data_size field)"
    by (auto simp: wire_bytes_def split: if_splits)
  have l: "length cs = unat n" by (rule mload_length [OF cs(1)])
  have "out = zs @ cs" using o zs(1) cs(1) by (simp add: mload_add del: mload.simps)
  moreover have "le_bytes 4 (length cs) = zs"
    using le_bytes_word_of_mload [OF zs(1), where 'a = 32] l zs(2) by simp
  ultimately show ?thesis using that cs l by simp
qed

lemma content_cstring:
  assumes w: "wire_cstring m0 field a0 = Some bs" and a0: "a0 \<noteq> 0"
    and st: "PB_ATYPE (ftype field) = PB_ATYPE_STATIC"
    and c: "Option.bind (strnlen_loop m0 a0 (unat (data_size field)) 0) (\<lambda>n.
          if n < unat (data_size field) then mload m0 a0 (n + 1) else None) = Some out"
  obtains cs where "bs = wire_string cs" "length cs < unat (data_size field)" "out = cs @ [0]"
proof -
  from c obtain n where n: "strnlen_loop m0 a0 (unat (data_size field)) 0 = Some n"
    "n < unat (data_size field)" and o: "mload m0 a0 (n + 1) = Some out"
    by (auto simp: bind_eq_Some_conv split: if_splits simp del: mload.simps)
  from w a0 st n obtain cs where cs: "mload m0 a0 n = Some cs" "bs = wire_string cs"
    by (auto simp: wire_cstring_def)
  have l: "length cs = n" by (rule mload_length [OF cs(1)])
  have "mget m0 (a0 + int n) = Some 0" using strnlen_stop [OF n(1)] n(2) by simp
  with o cs(1) have "out = cs @ [0]"
    unfolding mload_add by simp
  from that [OF cs(2) _ this] l n(2) show ?thesis by simp
qed

lemma signed_content:
  "mem_signed m n a = Some v \<Longrightarrow> \<exists>out. mload m a (unat n) = Some out"
  by (rule mem_signed_cases) auto

text \<open>The decoder of a field stores what the encoder of the field read.\<close>

theorem stores_value:
  assumes st: "PB_ATYPE (ftype field) = PB_ATYPE_STATIC"
    and ns: "PB_LTYPE (ftype field) \<noteq> PB_LTYPE_SUBMESSAGE" and a0: "a0 \<noteq> 0"
    and w: "wire_value E sub m0 field a0 = Some bs" and c: "field_content m0 field a0 = Some out"
  shows "stores (PB_DECODERS E dsub (PB_LTYPE (ftype field)) field a) bs a out"
proof -
  let ?lt = "PB_LTYPE (ftype field)"
  consider "?lt = PB_LTYPE_VARINT" | "?lt = PB_LTYPE_UVARINT" | "?lt = PB_LTYPE_SVARINT"
    | "?lt = PB_LTYPE_FIXED32" | "?lt = PB_LTYPE_FIXED64" | "?lt = PB_LTYPE_BYTES"
    | "?lt = PB_LTYPE_STRING" | "?lt = PB_LTYPE_FIXED_LENGTH_BYTES"
    using w ns by (auto simp: wire_value_def Let_def split: if_splits)
  then show ?thesis
  proof cases
    case 1
    with w c stores_varint show ?thesis
      by (auto simp: wire_value_def field_content_def PB_DECODERS_def simp del: mload.simps)
  next
    case 2
    with w c stores_uvarint show ?thesis
      by (auto simp: wire_value_def field_content_def PB_DECODERS_def simp del: mload.simps)
  next
    case 3
    with w c stores_svarint show ?thesis
      by (auto simp: wire_value_def field_content_def PB_DECODERS_def simp del: mload.simps)
  next
    case 4
    with w c have "mload m0 a0 4 = Some bs" "out = bs"
      by (auto simp: wire_value_def field_content_def simp del: mload.simps)
    with 4 show ?thesis
      using stores_fixed32 [of bs E a] mload_length [of m0 a0 4 bs]
      by (simp add: PB_DECODERS_def pb_dec_fixed32_def del: mload.simps)
  next
    case 5
    with w c have "mload m0 a0 8 = Some bs" "out = bs"
      by (auto simp: wire_value_def field_content_def simp del: mload.simps)
    with 5 show ?thesis
      using stores_fixed64 [of bs E a] mload_length [of m0 a0 8 bs]
      by (simp add: PB_DECODERS_def pb_dec_fixed64_def del: mload.simps)
  next
    case 6
    from 6 w have "wire_bytes m0 field a0 = Some bs" by (simp add: wire_value_def)
    moreover from 6 c have "Option.bind (mem_u32 m0 a0) (\<lambda>n. mload m0 a0 (4 + unat n)) = Some out"
      by (simp add: field_content_def)
    ultimately obtain cs where "bs = wire_string cs" "length cs + 4 \<le> unat (data_size field)"
      "out = le_bytes 4 (length cs) @ cs"
      using content_bytes [OF _ a0 st] by blast
    with 6 stores_bytes [OF st, of cs E a] show ?thesis by (simp add: PB_DECODERS_def)
  next
    case 7
    from 7 w have "wire_cstring m0 field a0 = Some bs" by (simp add: wire_value_def)
    moreover from 7 c have "Option.bind (strnlen_loop m0 a0 (unat (data_size field)) 0) (\<lambda>n.
          if n < unat (data_size field) then mload m0 a0 (n + 1) else None) = Some out"
      by (simp add: field_content_def)
    ultimately obtain cs where "bs = wire_string cs" "length cs < unat (data_size field)" "out = cs @ [0]"
      using content_cstring [OF _ a0 st] by blast
    with 7 stores_cstring [OF st, of cs E a] show ?thesis by (simp add: PB_DECODERS_def)
  next
    case 8
    with w c have "bs = wire_string out" "mload m0 a0 (unat (data_size field)) = Some out"
      by (auto simp: wire_value_def field_content_def simp del: mload.simps)
    with 8 stores_fixed_length [of out field E a] mload_length show ?thesis
      by (simp add: PB_DECODERS_def del: mload.simps)
  qed
qed

end
