(* ===== verification/Pb_Safe.thy ===== *)
theory Pb_Safe
  imports Pb_Decode Pb_Parse
begin

text \<open>
  Memory safety and termination of the decoder on arbitrary input. \<open>safe D W k f\<close> is the contract
  of a decoding function: started in a memory with domain \<open>D\<close> on a buffer stream that lies in
  \<open>D\<close>, it ends without undefined behaviour, keeps the domain, changes no byte outside \<open>W\<close>, and
  moves the stream forward inside the buffer; when it succeeds it has consumed at least \<open>k\<close> bytes.
  The contract is closed under the sequencing of the code, and the number \<open>k\<close> is what the
  termination of the loops rests on.
\<close>

section \<open>The contract\<close>

definition readable :: "addr set \<Rightarrow> pb_istream \<Rightarrow> bool" where
  "readable D s \<longleftrightarrow> in_callback s = Buf_read \<and> arange (in_state s) (bytes_left s) \<subseteq> D"

definition moved :: "bool \<Rightarrow> nat \<Rightarrow> pb_istream \<Rightarrow> pb_istream \<Rightarrow> bool" where
  "moved ok k s s' \<longleftrightarrow> in_callback s' = Buf_read \<and> in_state s \<le> in_state s' \<and>
     in_state s' + int (bytes_left s') \<le> in_state s + int (bytes_left s) \<and>
     bytes_left s' \<le> bytes_left s \<and>
     (ok \<longrightarrow> in_state s' + int (bytes_left s') = in_state s + int (bytes_left s) \<and>
        bytes_left s' + k \<le> bytes_left s)"

definition safe :: "addr set \<Rightarrow> addr set \<Rightarrow> nat \<Rightarrow> (pb_istream, 'a) cm \<Rightarrow> bool" where
  "safe D W k f \<longleftrightarrow> (\<forall>s m. mdom m = D \<longrightarrow> readable D s \<longrightarrow>
     wp f (\<lambda>r s' m'. mdom m' = D \<and> magree (- W) m m' \<and> moved (r \<noteq> Fail) k s s') s m)"

lemma moved_readable: "moved ok k s s' \<Longrightarrow> readable D s \<Longrightarrow> readable D s'"
  using arange_subset [of "in_state s" "in_state s'" "bytes_left s'" "bytes_left s"]
  by (auto simp: moved_def readable_def)

lemma moved_refl: "in_callback s = Buf_read \<Longrightarrow> moved ok 0 s s"
  by (simp add: moved_def)

lemma moved_trans: "moved True j s s' \<Longrightarrow> moved ok k s' s'' \<Longrightarrow> moved ok (j + k) s s''"
  by (auto simp: moved_def)

lemma moved_weaken: "moved ok k s s' \<Longrightarrow> (ok' \<longrightarrow> ok) \<Longrightarrow> k' \<le> k \<Longrightarrow> moved ok' k' s s'"
  by (auto simp: moved_def)

lemma moved_error: "moved ok k s s' \<Longrightarrow> moved False k' s (PB_SET_ERROR msg s')"
  by (auto simp: moved_def)

lemma moved_readD: "readable D s \<Longrightarrow> in_callback s = Buf_read"
  by (simp add: readable_def)

lemma safeI:
  assumes "\<And>s m. mdom m = D \<Longrightarrow> readable D s \<Longrightarrow>
     wp f (\<lambda>r s' m'. mdom m' = D \<and> magree (- W) m m' \<and> moved (r \<noteq> Fail) k s s') s m"
  shows "safe D W k f"
  using assms by (simp add: safe_def)

lemma safeD:
  "safe D W k f \<Longrightarrow> mdom m = D \<Longrightarrow> readable D s \<Longrightarrow>
     wp f (\<lambda>r s' m'. mdom m' = D \<and> magree (- W) m m' \<and> moved (r \<noteq> Fail) k s s') s m"
  by (simp add: safe_def)

lemma safe_weaken: "safe D W k f \<Longrightarrow> W \<subseteq> W' \<Longrightarrow> k' \<le> k \<Longrightarrow> safe D W' k' f"
  unfolding safe_def
  by (intro allI impI, rule wp_mono, blast)
    (auto intro: magree_mono moved_weaken)

lemma safe_cret [intro]: "safe D W 0 (cret x)"
  by (simp add: safe_def wp_simps moved_refl moved_readD)

lemma safe_cfail [intro]: "safe D W k cfail"
  by (auto simp: safe_def wp_simps moved_def moved_readD)

lemma safe_error [intro]: "safe D W k (PB_RETURN_ERROR msg)"
  by (auto simp: safe_def wp_simps moved_def moved_readD)

lemma safe_of_res [intro]: "safe D W 0 (of_res r)"
  by (simp add: safe_def wp_simps moved_refl moved_readD)

lemma safe_cbind:
  fixes f :: "(pb_istream, 'x) cm" and g :: "'x \<Rightarrow> (pb_istream, 'y) cm"
  assumes f: "safe D W j f" and g: "\<And>x. safe D W k (g x)"
  shows "safe D W (j + k) (cbind f g)"
proof (rule safeI)
  fix s :: pb_istream and m
  assume a: "mdom m = D" "readable D s"
  show "wp (cbind f g) (\<lambda>r s' m'. mdom m' = D \<and> magree (- W) m m' \<and> moved (r \<noteq> Fail) (j + k) s s') s m"
    unfolding wp_cbind
  proof (rule wp_mono [OF safeD [OF f a]])
    fix r :: "'x res" and s' m'
    assume p: "mdom m' = D \<and> magree (- W) m m' \<and> moved (r \<noteq> Fail) j s s'"
    show "wp_then (\<lambda>x. wp (g x) (\<lambda>r s' m'. mdom m' = D \<and> magree (- W) m m' \<and> moved (r \<noteq> Fail) (j + k) s s'))
       (\<lambda>s' m'. mdom m' = D \<and> magree (- W) m m' \<and> moved ((Fail :: 'y res) \<noteq> Fail) (j + k) s s') r s' m'"
    proof (cases r)
      case (Ok x)
      from p a(2) have rd: "readable D s'" by (auto intro: moved_readable)
      show ?thesis
        unfolding Ok wp_then.simps
      proof (rule wp_mono [OF safeD [OF g]])
        show "mdom m' = D" "readable D s'" using p rd by simp_all
        fix r2 s2 m2
        assume "mdom m2 = D \<and> magree (- W) m' m2 \<and> moved (r2 \<noteq> Fail) k s' s2"
        then show "mdom m2 = D \<and> magree (- W) m m2 \<and> moved (r2 \<noteq> Fail) (j + k) s s2"
          using p Ok by (auto intro: magree_trans moved_trans)
      qed
    next
      case Fail
      with p show ?thesis by (auto intro: moved_weaken simp: moved_def)
    qed
  qed
qed

text \<open>
  The contract for streams with fewer than \<open>n\<close> bytes left, by which the loops are handled;
  \<open>P\<close> describes the results.
\<close>

definition safe_upto :: "nat \<Rightarrow> addr set \<Rightarrow> addr set \<Rightarrow> ('a \<Rightarrow> bool) \<Rightarrow> (pb_istream, 'a) cm \<Rightarrow> bool" where
  "safe_upto n D W P f \<longleftrightarrow> (\<forall>s m. mdom m = D \<longrightarrow> readable D s \<longrightarrow> bytes_left s < n \<longrightarrow>
     wp f (\<lambda>r s' m'. mdom m' = D \<and> magree (- W) m m' \<and> moved (r \<noteq> Fail) 0 s s' \<and> (\<forall>x \<in> set_res r. P x)) s m)"

lemma safe_upto: "safe D W k f \<Longrightarrow> safe_upto n D W (\<lambda>_. True) f"
  unfolding safe_upto_def safe_def
  by (intro allI impI, rule wp_mono, blast) (auto intro: moved_weaken)

lemma safe_upto_cret [intro]: "P x \<Longrightarrow> safe_upto n D W P (cret x)"
  by (simp add: safe_upto_def wp_simps moved_refl moved_readD)

lemma safe_upto_cfail [intro]: "safe_upto n D W P cfail"
  by (auto simp: safe_upto_def wp_simps moved_def moved_readD)

lemma safe_upto_cbind:
  fixes f :: "(pb_istream, 'x) cm" and g :: "'x \<Rightarrow> (pb_istream, 'y) cm"
  assumes f: "safe D W k f" and g: "\<And>x. safe_upto (n - k) D W P (g x)"
  shows "safe_upto n D W P (cbind f g)"
  unfolding safe_upto_def
proof (intro allI impI)
  fix s :: pb_istream and m
  assume a: "mdom m = D" "readable D s" and n: "bytes_left s < n"
  let ?Q = "\<lambda>(r :: 'y res) s' m'. mdom m' = D \<and> magree (- W) m m' \<and> moved (r \<noteq> Fail) 0 s s' \<and> (\<forall>x \<in> set_res r. P x)"
  show "wp (cbind f g) ?Q s m"
    unfolding wp_cbind
  proof (rule wp_mono [OF safeD [OF f a]])
    fix r :: "'x res" and s' m'
    assume p: "mdom m' = D \<and> magree (- W) m m' \<and> moved (r \<noteq> Fail) k s s'"
    show "wp_then (\<lambda>x. wp (g x) ?Q) (?Q Fail) r s' m'"
    proof (cases r)
      case (Ok x)
      from p a(2) have rd: "readable D s'" by (auto intro: moved_readable)
      from p Ok n have l: "bytes_left s' < n - k" by (auto simp: moved_def)
      have mv: "moved True 0 s s'" using p Ok by (auto simp: moved_def)
      have "wp (g x) (\<lambda>r s'' m''. mdom m'' = D \<and> magree (- W) m' m'' \<and> moved (r \<noteq> Fail) 0 s' s'' \<and>
          (\<forall>x \<in> set_res r. P x)) s' m'"
        using g [of x] p rd l by (simp add: safe_upto_def)
      then have "wp (g x) ?Q s' m'"
        by (rule wp_mono) (use p mv in \<open>auto intro: magree_trans moved_trans [of 0 _ _ _ 0, simplified]\<close>)
      with Ok show ?thesis by simp
    next
      case Fail
      with p show ?thesis by (auto simp: moved_def)
    qed
  qed
qed

lemma safe_upto_step:
  "safe D W 1 f \<Longrightarrow> (\<And>x. safe_upto n D W P (g x)) \<Longrightarrow> safe_upto (Suc n) D W P (cbind f g)"
  using safe_upto_cbind [of D W 1 f "Suc n" P g] by simp

lemma safe_upto_then:
  "safe D W 0 f \<Longrightarrow> (\<And>x. safe_upto n D W P (g x)) \<Longrightarrow> safe_upto n D W P (cbind f g)"
  using safe_upto_cbind [of D W 0 f n P g] by simp

lemma safe_upto_mono: "safe_upto n D W P f \<Longrightarrow> k \<le> n \<Longrightarrow> safe_upto k D W P f"
  by (auto simp: safe_upto_def)

lemma safe_upto_0: "safe_upto 0 D W P f"
  by (simp add: safe_upto_def)

lemma safe_of_upto:
  assumes "\<And>n. safe_upto n D W P f"
  shows "safe D W 0 f"
proof (rule safeI)
  fix s :: pb_istream and m
  assume a: "mdom m = D" "readable D s"
  with assms [of "Suc (bytes_left s)"]
  have "wp f (\<lambda>r s' m'. mdom m' = D \<and> magree (- W) m m' \<and> moved (r \<noteq> Fail) 0 s s' \<and> (\<forall>x \<in> set_res r. P x)) s m"
    by (simp add: safe_upto_def)
  then show "wp f (\<lambda>r s' m'. mdom m' = D \<and> magree (- W) m m' \<and> moved (r \<noteq> Fail) 0 s s') s m"
    by (rule wp_mono) simp
qed

lemma safe_loop:
  assumes "\<And>n. safe_upto n D W (\<lambda>_. True) f \<Longrightarrow> safe_upto (Suc n) D W (\<lambda>_. True) f"
  shows "safe D W 0 f"
proof (rule safe_of_upto)
  fix n
  show "safe_upto n D W (\<lambda>_. True) f"
    by (induction n) (simp_all add: safe_upto_0 assms)
qed

text \<open>The rest of a computation may rely on the results of a loop.\<close>

lemma safe_upto_bind:
  fixes f :: "(pb_istream, 'x) cm" and g :: "'x \<Rightarrow> (pb_istream, 'y) cm"
  assumes f: "\<And>n. safe_upto n D W P f" and g: "\<And>x. P x \<Longrightarrow> safe D W 0 (g x)"
  shows "safe D W 0 (cbind f g)"
proof (rule safeI)
  fix s :: pb_istream and m
  assume a: "mdom m = D" "readable D s"
  let ?Q = "\<lambda>(r :: 'y res) s' m'. mdom m' = D \<and> magree (- W) m m' \<and> moved (r \<noteq> Fail) 0 s s'"
  have "wp f (\<lambda>r s' m'. mdom m' = D \<and> magree (- W) m m' \<and> moved (r \<noteq> Fail) 0 s s' \<and> (\<forall>x \<in> set_res r. P x)) s m"
    using f [of "Suc (bytes_left s)"] a by (simp add: safe_upto_def)
  then show "wp (cbind f g) ?Q s m"
    unfolding wp_cbind
  proof (rule wp_mono)
    fix r :: "'x res" and s' m'
    assume p: "mdom m' = D \<and> magree (- W) m m' \<and> moved (r \<noteq> Fail) 0 s s' \<and> (\<forall>x \<in> set_res r. P x)"
    show "wp_then (\<lambda>x. wp (g x) ?Q) (?Q Fail) r s' m'"
    proof (cases r)
      case (Ok x)
      with p have Px: "P x" and mv: "moved True 0 s s'" by auto
      from mv a(2) have rd: "readable D s'" by (rule moved_readable)
      have "wp (g x) ?Q s' m'"
        by (rule wp_mono [OF safeD [OF g [OF Px] _ rd]])
          (use p mv in \<open>auto intro: magree_trans moved_trans [of 0 _ _ _ 0, simplified]\<close>)
      with Ok show ?thesis by simp
    next
      case Fail
      with p show ?thesis by auto
    qed
  qed
qed

lemma safe_seq: "safe D W k f \<Longrightarrow> (\<And>x. safe D W 0 (g x)) \<Longrightarrow> safe D W k (cbind f g)"
  using safe_cbind [of D W k f 0 g] by simp

lemma safe_then: "safe D W 0 f \<Longrightarrow> (\<And>x. safe D W k (g x)) \<Longrightarrow> safe D W k (cbind f g)"
  using safe_cbind [of D W 0 f k g] by simp

lemma safe_if [intro]: "(b \<Longrightarrow> safe D W k f) \<Longrightarrow> (\<not> b \<Longrightarrow> safe D W k g) \<Longrightarrow> safe D W k (if b then f else g)"
  by simp

lemma safe_cdef: "x = Some y \<Longrightarrow> safe D W 0 (cdef x)"
  by (auto simp: cdef_def)

section \<open>Memory access\<close>

lemma mvalid_subset: "arange a n \<subseteq> D \<Longrightarrow> mdom m = D \<Longrightarrow> mvalid m a n"
  by (simp add: mvalid_def)

lemma safe_load_nat: "arange a n \<subseteq> D \<Longrightarrow> safe D W 0 (load_nat a n)"
  by (rule safeI, rule wp_load_nat) (auto intro: mvalid_subset simp: moved_refl moved_readD)

lemma safe_load_u32: "arange a 4 \<subseteq> D \<Longrightarrow> safe D W 0 (load_u32 a)"
  by (rule safeI, rule wp_load_u32) (auto intro: mvalid_subset simp: moved_refl moved_readD)

lemma safe_load_ptr: "arange a 8 \<subseteq> D \<Longrightarrow> safe D W 0 (load_ptr a)"
  by (rule safeI, rule wp_load_ptr) (auto intro: mvalid_subset simp: moved_refl moved_readD)

lemma safe_cstore:
  assumes "arange a (length bs) \<subseteq> D" "arange a (length bs) \<subseteq> W"
  shows "safe D W 0 (cstore a bs)"
proof (rule safeI, rule wp_cstore)
  fix s :: pb_istream and m m'
  assume "mdom m = D" "readable D s" "mstore m a bs = Some m'"
  then show "mdom m' = D \<and> magree (- W) m m' \<and> moved (Ok () \<noteq> Fail) 0 s s"
    using assms(2) by (auto simp: mstore_dom moved_refl moved_readD intro!: mstore_magree)
qed (use assms(1) in \<open>auto intro: mvalid_subset\<close>)

lemma safe_store_nat: "arange a n \<subseteq> D \<Longrightarrow> arange a n \<subseteq> W \<Longrightarrow> safe D W 0 (store_nat a n v)"
  unfolding store_nat_def by (rule safe_cstore) simp_all

lemma safe_store_u32: "arange a 4 \<subseteq> D \<Longrightarrow> arange a 4 \<subseteq> W \<Longrightarrow> safe D W 0 (store_u32 a v)"
  unfolding store_u32_def by (rule safe_store_nat)

lemma safe_store_bool: "arange a 1 \<subseteq> D \<Longrightarrow> arange a 1 \<subseteq> W \<Longrightarrow> safe D W 0 (store_bool a v)"
  unfolding store_bool_def by (rule safe_store_nat)

lemma safe_memset0: "arange a n \<subseteq> D \<Longrightarrow> arange a n \<subseteq> W \<Longrightarrow> safe D W 0 (memset0 a n)"
  unfolding memset0_def by (rule safe_cstore) simp_all

lemma safe_ccopy:
  assumes "arange d n \<subseteq> D" "arange a n \<subseteq> D" "arange d n \<subseteq> W"
  shows "safe D W 0 (ccopy d a n)"
  by (rule safeI, rule wp_ccopy)
    (use assms in \<open>auto intro: mvalid_subset simp: moved_refl moved_readD magree_def\<close>)

section \<open>Reading the stream\<close>

lemma eat_moved:
  "in_callback s = Buf_read \<Longrightarrow> n \<le> bytes_left s \<Longrightarrow> k \<le> n \<Longrightarrow>
     moved ok k s (s\<lparr>in_state := in_state s + int n, bytes_left := bytes_left s - n\<rparr>)"
  by (auto simp: moved_def)

lemma safe_read_buf:
  assumes "\<And>a. dst = To_mem a \<Longrightarrow> arange a n \<subseteq> D \<and> arange a n \<subseteq> W"
  shows "safe D W n (pb_read_buf E dst n)"
proof (rule safeI)
  fix s :: pb_istream and m
  assume a: "mdom m = D" "readable D s"
  let ?Q = "\<lambda>(r :: byte list res) s' m'. mdom m' = D \<and> magree (- W) m m' \<and> moved (r \<noteq> Fail) n s s'"
  show "wp (pb_read_buf E dst n) ?Q s m"
  proof (cases "bytes_left s < n")
    case True
    with a show ?thesis
      by (simp add: pb_read_buf_def wp_simps moved_def readable_def)
  next
    case False
    then have n: "n \<le> bytes_left s" by simp
    have v: "mvalid m (in_state s) n"
      using a n arange_subset [of "in_state s" "in_state s" n "bytes_left s"]
      by (auto simp: mvalid_def readable_def)
    note e = eat_moved [OF _ n order_refl]
    show ?thesis
    proof (cases dst)
      case To_local
      obtain bs where "mload m (in_state s) n = Some bs" using mload_valid [OF v] by blast
      with a n e [of True] To_local show ?thesis
        by (simp add: wp_def pb_read_buf_def cbind_def cget_def ctry_def call_in_callback_def buf_read_def
            cput_def cload_def consume_def cret_def readable_def)
    next
      case To_null
      with a n e [of True] show ?thesis
        by (simp add: wp_def pb_read_buf_def cbind_def cget_def ctry_def call_in_callback_def buf_read_def
            cput_def consume_def cret_def readable_def)
    next
      case (To_mem d)
      with assms have d: "arange d n \<subseteq> D" "arange d n \<subseteq> W" by simp_all
      from mcopy_valid [of m d n "in_state s"] v d(1) a(1) obtain m' where
        "mcopy m d (in_state s) n = Some m'" "mdom m' = mdom m"
        "\<forall>x. x \<notin> arange d n \<longrightarrow> mget m' x = mget m x" by (auto simp: mvalid_def)
      moreover from this(3) d(2) have "magree (- W) m m'" by (auto simp: magree_def)
      ultimately show ?thesis
        using a n e [of True] To_mem
        by (simp add: wp_def pb_read_buf_def cbind_def cget_def ctry_def call_in_callback_def buf_read_def
            cput_def ccopy_def consume_def cret_def readable_def)
    qed
  qed
qed

lemma safe_read:
  assumes "\<And>a. dst = To_mem a \<Longrightarrow> arange a n \<subseteq> D \<and> arange a n \<subseteq> W"
  shows "safe D W n (pb_read E dst n)"
proof (rule safeI)
  fix s :: pb_istream and m
  assume a: "mdom m = D" "readable D s"
  then have "pb_read E dst n s m = pb_read_buf E dst n s m"
    by (simp add: pb_read_def cbind_def cget_def readable_def)
  with safeD [OF safe_read_buf [OF assms] a]
  show "wp (pb_read E dst n) (\<lambda>r s' m'. mdom m' = D \<and> magree (- W) m m' \<and> moved (r \<noteq> Fail) n s s') s m"
    by (simp add: wp_def)
qed

text \<open>Functions that only read the stream: also a failure leaves it in step with its buffer.\<close>

definition reads :: "addr set \<Rightarrow> nat \<Rightarrow> (pb_istream, 'a) cm \<Rightarrow> bool" where
  "reads D k f \<longleftrightarrow> (\<forall>s m. mdom m = D \<longrightarrow> readable D s \<longrightarrow>
     wp f (\<lambda>r s' m'. m' = m \<and> moved True 0 s s' \<and> (r \<noteq> Fail \<longrightarrow> bytes_left s' + k \<le> bytes_left s)) s m)"

lemma readsD:
  "reads D k f \<Longrightarrow> mdom m = D \<Longrightarrow> readable D s \<Longrightarrow>
     wp f (\<lambda>r s' m'. m' = m \<and> moved True 0 s s' \<and> (r \<noteq> Fail \<longrightarrow> bytes_left s' + k \<le> bytes_left s)) s m"
  by (simp add: reads_def)

lemma reads_safe: "reads D k f \<Longrightarrow> safe D W k f"
  unfolding reads_def safe_def
  by (intro allI impI, rule wp_mono, blast) (auto simp: moved_def)

lemma reads_cret [intro]: "reads D 0 (cret x)"
  by (simp add: reads_def wp_simps moved_refl moved_readD)

lemma reads_error [intro]: "reads D k (PB_RETURN_ERROR msg)"
  by (auto simp: reads_def wp_simps moved_def moved_readD)

lemma reads_cbind:
  fixes f :: "(pb_istream, 'x) cm" and g :: "'x \<Rightarrow> (pb_istream, 'y) cm"
  assumes f: "reads D j f" and g: "\<And>x. reads D k (g x)"
  shows "reads D (j + k) (cbind f g)"
  unfolding reads_def
proof (intro allI impI)
  fix s :: pb_istream and m
  assume a: "mdom m = D" "readable D s"
  let ?Q = "\<lambda>(r :: 'y res) s' m'. m' = m \<and> moved True 0 s s' \<and> (r \<noteq> Fail \<longrightarrow> bytes_left s' + (j + k) \<le> bytes_left s)"
  show "wp (cbind f g) ?Q s m"
    unfolding wp_cbind
  proof (rule wp_mono [OF readsD [OF f a]])
    fix r :: "'x res" and s' m'
    assume p: "m' = m \<and> moved True 0 s s' \<and> (r \<noteq> Fail \<longrightarrow> bytes_left s' + j \<le> bytes_left s)"
    show "wp_then (\<lambda>x. wp (g x) ?Q) (?Q Fail) r s' m'"
    proof (cases r)
      case (Ok x)
      from p a(2) have rd: "readable D s'" by (auto intro: moved_readable)
      show ?thesis
        unfolding Ok wp_then.simps
      proof (rule wp_mono [OF readsD [OF g]])
        show "mdom m' = D" "readable D s'" using p a rd by simp_all
        fix r2 :: "'y res" and s2 m2
        assume "m2 = m' \<and> moved True 0 s' s2 \<and> (r2 \<noteq> Fail \<longrightarrow> bytes_left s2 + k \<le> bytes_left s')"
        then show "?Q r2 s2 m2"
          using p Ok moved_trans [of 0 s s' True 0 s2] by auto
      qed
    next
      case Fail
      with p show ?thesis by simp
    qed
  qed
qed

lemma reads_seq: "reads D k f \<Longrightarrow> (\<And>x. reads D 0 (g x)) \<Longrightarrow> reads D k (cbind f g)"
  using reads_cbind [of D k f 0 g] by simp

lemma reads_weaken: "reads D k f \<Longrightarrow> k' \<le> k \<Longrightarrow> reads D k' f"
  unfolding reads_def by (intro allI impI, rule wp_mono, blast) auto

lemma reads_readbyte: "reads D 1 (pb_readbyte E)"
  unfolding reads_def
proof (intro allI impI)
  fix s :: pb_istream and m
  assume a: "mdom m = D" "readable D s"
  let ?Q = "\<lambda>(r :: byte res) s' m'. m' = m \<and> moved True 0 s s' \<and> (r \<noteq> Fail \<longrightarrow> bytes_left s' + 1 \<le> bytes_left s)"
  show "wp (pb_readbyte E) ?Q s m"
  proof (cases "bytes_left s = 0")
    case True
    with a show ?thesis
      by (simp add: pb_readbyte_def wp_simps moved_def readable_def)
  next
    case False
    then have "in_state s \<in> arange (in_state s) (bytes_left s)" by (simp add: in_arange)
    with a have "in_state s \<in> mdom m" by (auto simp: readable_def)
    then obtain b where "mget m (in_state s) = Some b" by (auto simp: in_mdom)
    with a False show ?thesis
      by (simp add: wp_def pb_readbyte_def cbind_def cget_def ctry_def call_in_callback_def buf_read_def
            cput_def cload_def consume_def cret_def readable_def moved_def)
  qed
qed

lemma reads_varint32_loop: "reads D 0 (varint32_loop E p r)"
proof (induction E p r rule: varint32_loop.induct)
  case (1 E p r)
  show ?case
  proof (cases "p \<ge> 32")
    case True
    then show ?thesis by (subst varint32_loop.simps) auto
  next
    case False
    have "reads D 0 (cbind (pb_readbyte E) (\<lambda>b.
        let result' = r OR push_bit p (ucast (b AND 0x7F)) in
        if continues b then varint32_loop E (p + 7) result' else cret result'))"
      using 1 [OF False] by (intro reads_seq [OF reads_weaken [OF reads_readbyte]]) (auto simp: Let_def)
    with False show ?thesis by (subst varint32_loop.simps) simp
  qed
qed

lemma reads_varint32: "reads D 1 (pb_decode_varint32 E)"
  unfolding pb_decode_varint32_def
  by (rule reads_seq [OF reads_readbyte]) (auto simp: reads_varint32_loop)

lemma reads_varint_loop: "reads D 0 (varint_loop E p r)"
proof (induction E p r rule: varint_loop.induct)
  case (1 E p r)
  show ?case
  proof (cases "p \<ge> 64")
    case True
    then show ?thesis by (subst varint_loop.simps) auto
  next
    case False
    have "reads D 0 (cbind (pb_readbyte E) (\<lambda>b.
        let result' = r OR push_bit p (ucast (b AND 0x7F)) in
        if continues b then varint_loop E (p + 7) result' else cret result'))"
      using 1 [OF False] by (intro reads_seq [OF reads_weaken [OF reads_readbyte]]) (auto simp: Let_def)
    with False show ?thesis by (subst varint_loop.simps) simp
  qed
qed

lemma reads_varint: "reads D 1 (pb_decode_varint E)"
proof -
  have "pb_decode_varint E = cbind (pb_readbyte E) (\<lambda>b.
        let result' = push_bit 0 (ucast (b AND 0x7F)) in
        if continues b then varint_loop E 7 result' else cret result')"
    unfolding pb_decode_varint_def by (subst varint_loop.simps) (simp cong: if_cong)
  moreover have "reads D 1 (cbind (pb_readbyte E) (\<lambda>b.
        let result' = push_bit 0 (ucast (b AND 0x7F)) in
        if continues b then varint_loop E 7 result' else cret result'))"
    by (rule reads_seq [OF reads_readbyte]) (auto simp: Let_def reads_varint_loop)
  ultimately show ?thesis by simp
qed

lemma reads_svarint: "reads D 1 (pb_decode_svarint E)"
  unfolding pb_decode_svarint_def by (rule reads_seq [OF reads_varint]) auto

text \<open>A tag is a non-zero number below \<open>2 ^ 29\<close>, and reading one consumes input.\<close>

definition tag_ok :: "pb_istream \<Rightarrow> (bool \<times> pb_wire_type \<times> u32 \<times> bool) \<Rightarrow> pb_istream \<Rightarrow> bool" where
  "tag_ok s = (\<lambda>(ok, wt, t, eof) s'. ok \<longrightarrow> bytes_left s' < bytes_left s \<and> unat t < 2 ^ 29)"

lemma drop_3_bound: "unat (drop_bit 3 (v :: u32)) < 2 ^ 29"
  unfolding unat_drop_bit_eq using unat_lt_len [of v] by (simp add: drop_bit_eq_div)

lemma wp_decode_tag:
  assumes a: "mdom m = D" "readable D s"
  shows "wp (pb_decode_tag E) (\<lambda>r s' m'. m' = m \<and> moved True 0 s s' \<and> (\<exists>x. r = Ok x \<and> tag_ok s x s')) s m"
  unfolding pb_decode_tag_def wp_cbind wp_ctry
proof (rule wp_mono [OF readsD [OF reads_varint32 a]])
  fix r :: "u32 res" and s' m'
  assume "m' = m \<and> moved True 0 s s' \<and> (r \<noteq> Fail \<longrightarrow> bytes_left s' + 1 \<le> bytes_left s)"
  then show "wp_then (\<lambda>r. wp (case r of Fail \<Rightarrow> cbind cget (\<lambda>s. cret (False, 0, 0, bytes_left s = 0))
       | Ok temp \<Rightarrow> if temp = 0 then cret (False, 0, 0, True) else cret (True, temp AND 7, drop_bit 3 temp, False))
         (\<lambda>r s' m'. m' = m \<and> moved True 0 s s' \<and> (\<exists>x. r = Ok x \<and> tag_ok s x s')))
     (\<lambda>s' m'. m' = m \<and> moved True 0 s s' \<and> (\<exists>x. (Fail :: (bool \<times> pb_wire_type \<times> u32 \<times> bool) res) = Ok x \<and> tag_ok s x s'))
     (Ok r) s' m'"
    using drop_3_bound by (cases r) (auto simp: wp_simps tag_ok_def)
qed

section \<open>Skipping\<close>

lemma read1_decreases:
  "safe D W 1 (pb_read E To_local 1)"
  by (rule safe_read) simp

lemma skip_varint_unfold:
  "pb_skip_varint E = cbind (pb_read E To_local 1) (\<lambda>bs.
     if continues (hd bs) then pb_skip_varint E else cret ())"
  by (intro ext, subst pb_skip_varint.simps)
    (simp add: cbind_def split: option.splits prod.splits res.splits)

lemma safe_skip_varint: "safe D W 0 (pb_skip_varint E)"
proof (rule safe_loop)
  fix n assume "safe_upto n D W (\<lambda>_. True) (pb_skip_varint E)"
  then show "safe_upto (Suc n) D W (\<lambda>_. True) (pb_skip_varint E)"
    by (subst skip_varint_unfold) (intro safe_upto_step [OF read1_decreases], auto)
qed

lemma safe_skip_field: "safe D W 0 (pb_skip_field E wt)"
proof -
  have null: "safe D W 0 (cbind (pb_read E To_null n) (\<lambda>_. cret ()))" for n
    by (rule safe_weaken [OF safe_seq [OF safe_read]]) auto
  have "safe D W 0 (pb_skip_string E)"
    unfolding pb_skip_string_def
    by (rule safe_then [OF safe_weaken [OF reads_safe [OF reads_varint32]]]) (auto simp: null)
  then show ?thesis
    unfolding pb_skip_field_def using null by (auto simp: safe_skip_varint)
qed

section \<open>Substreams\<close>

text \<open>
  \<open>split_off s t s'\<close>: the parent \<open>s\<close> was split into the substream \<open>t\<close> and the rest \<open>s'\<close>, which is
  behind it and waits for its position.
\<close>

definition split_off :: "pb_istream \<Rightarrow> pb_istream \<Rightarrow> pb_istream \<Rightarrow> bool" where
  "split_off s t s' \<longleftrightarrow> in_callback t = Buf_read \<and> in_callback s' = Buf_read \<and>
     in_state t = in_state s' \<and> in_state s \<le> in_state t \<and>
     in_state t + int (bytes_left t) + int (bytes_left s') = in_state s + int (bytes_left s) \<and>
     bytes_left t + bytes_left s' < bytes_left s"

lemma wp_make_substream:
  assumes a: "mdom m = D" "readable D s"
  shows "wp (pb_make_string_substream E)
     (\<lambda>r s' m'. m' = m \<and> (case r of Fail \<Rightarrow> moved False 0 s s' | Ok t \<Rightarrow> split_off s t s')) s m"
  unfolding pb_make_string_substream_def wp_cbind
proof (rule wp_mono [OF readsD [OF reads_varint32 a]])
  fix r :: "u32 res" and s' m'
  assume p: "m' = m \<and> moved True 0 s s' \<and> (r \<noteq> Fail \<longrightarrow> bytes_left s' + 1 \<le> bytes_left s)"
  let ?Q = "\<lambda>(r :: pb_istream res) s' m'. m' = m \<and> (case r of Fail \<Rightarrow> moved False 0 s s' | Ok t \<Rightarrow> split_off s t s')"
  show "wp_then (\<lambda>sz. wp cget (wp_then (\<lambda>s. wp
        (if bytes_left s < unat sz then PB_RETURN_ERROR ''parent stream too short''
         else cbind (cput (s\<lparr>bytes_left := bytes_left s - unat sz\<rparr>)) (\<lambda>_. cret (s\<lparr>bytes_left := unat sz\<rparr>))) ?Q)
          (?Q Fail))) (?Q Fail) r s' m'"
  proof (cases r)
    case (Ok sz)
    with p show ?thesis
      by (auto simp: wp_simps moved_def split_off_def of_nat_diff)
  next
    case Fail
    with p show ?thesis by (auto simp: moved_def)
  qed
qed

lemma split_off_readable: "split_off s t s' \<Longrightarrow> readable D s \<Longrightarrow> readable D t"
  using arange_subset [of "in_state s" "in_state t" "bytes_left t" "bytes_left s"]
  by (auto simp: split_off_def readable_def)

lemma split_off_close:
  "split_off s t s' \<Longrightarrow> moved ok 0 t t' \<Longrightarrow>
     moved ok 1 s (s'\<lparr>in_state := in_state t' + int (bytes_left t'), errmsg := e\<rparr>)"
  by (auto simp: split_off_def moved_def)

lemma split_off_fail: "split_off s t s' \<Longrightarrow> moved False k s (PB_SET_ERROR msg s')"
  by (auto simp: split_off_def moved_def)

lemma of_res_unit: "of_res (r :: unit res) = (if r = Fail then cfail else cret ())"
  by (cases r) (auto simp: of_res_def cfail_def cret_def)

lemma safe_with_substream:
  fixes f :: "(pb_istream, 'x) cm" and g :: "'x res \<times> pb_istream \<Rightarrow> (pb_istream, unit) cm"
  assumes f: "safe D W 0 f"
    and g: "\<And>r t. g (r, t) \<in> {cbind (pb_close_string_substream E t) (\<lambda>_. if r = Fail then cfail else cret ())} \<union>
       range PB_RETURN_ERROR \<union> (if r = Fail then {} else {pb_close_string_substream E t})"
  shows "safe D W 1 (cbind (pb_make_string_substream E) (\<lambda>t. cbind (on_stream t f) g))"
proof (rule safeI)
  fix s :: pb_istream and m
  assume a: "mdom m = D" "readable D s"
  let ?Q = "\<lambda>(r :: unit res) s' m'. mdom m' = D \<and> magree (- W) m m' \<and> moved (r \<noteq> Fail) 1 s s'"
  show "wp (cbind (pb_make_string_substream E) (\<lambda>t. cbind (on_stream t f) g)) ?Q s m"
    unfolding wp_cbind
  proof (rule wp_mono [OF wp_make_substream [OF a]])
    fix r :: "pb_istream res" and s' m'
    assume p: "m' = m \<and> (case r of Fail \<Rightarrow> moved False 0 s s' | Ok t \<Rightarrow> split_off s t s')"
    show "wp_then (\<lambda>t. wp (on_stream t f) (wp_then (\<lambda>x. wp (g x) ?Q) (?Q Fail))) (?Q Fail) r s' m'"
    proof (cases r)
      case Fail
      with p a show ?thesis by (auto simp: moved_def)
    next
      case (Ok t)
      with p have m': "m' = m" and c: "split_off s t s'" by simp_all
      show ?thesis
        unfolding Ok m' wp_then.simps wp_on_stream
      proof (rule wp_mono [OF safeD [OF f a(1) split_off_readable [OF c a(2)]]])
        fix r1 :: "'x res" and t1 m1
        assume q: "mdom m1 = D \<and> magree (- W) m m1 \<and> moved (r1 \<noteq> Fail) 0 t t1"
        then have cb: "in_callback t1 = Buf_read" by (simp add: moved_def)
        note cc = split_off_close [OF c, of "r1 \<noteq> Fail" t1 "errmsg t1"]
        show "wp (g (r1, t1)) ?Q s' m1"
          using g [of r1 t1] q c cc close_substream [OF cb, of E s' m1]
          by (auto simp: wp_simps wp_def cfail_def cret_def cbind_def PB_RETURN_ERROR_def
              intro: split_off_fail split: if_splits)
      qed
    qed
  qed
qed

section \<open>Field decoders\<close>

lemma safe_store_signed:
  "arange a (unat (data_size field)) \<subseteq> D \<Longrightarrow> arange a (unat (data_size field)) \<subseteq> W \<Longrightarrow>
     safe D W 0 (store_signed field a v)"
  unfolding store_signed_def by (auto intro!: safe_seq safe_store_nat)

lemma safe_store_unsigned:
  "arange a (unat (data_size field)) \<subseteq> D \<Longrightarrow> arange a (unat (data_size field)) \<subseteq> W \<Longrightarrow>
     safe D W 0 (store_unsigned field a v)"
  unfolding store_unsigned_def by (auto intro!: safe_seq safe_store_nat)

text \<open>What a field decoder may assume of its descriptor, and of a submessage by \<open>sub\<close>.\<close>

definition data_ok :: "pb_env \<Rightarrow> addr set \<Rightarrow> (nat \<Rightarrow> pb_field list \<Rightarrow> bool) \<Rightarrow> pb_field \<Rightarrow> bool" where
  "data_ok E D sub f \<longleftrightarrow>
     (let lt = PB_LTYPE (ftype f); n = unat (data_size f) in
      lt \<le> PB_LTYPE_FIXED_LENGTH_BYTES \<and> lt \<noteq> PB_LTYPE_EXTENSION \<and>
      (lt = PB_LTYPE_FIXED32 \<longrightarrow> 4 \<le> n) \<and> (lt = PB_LTYPE_FIXED64 \<longrightarrow> 8 \<le> n) \<and>
      (if lt = PB_LTYPE_SUBMESSAGE
       then ptr f \<noteq> 0 \<and> (case descs E (ptr f) of None \<Rightarrow> False | Some fs \<Rightarrow> sub n fs)
       else ptr f \<noteq> 0 \<longrightarrow> arange (ptr f) n \<subseteq> D))"

lemma LTYPE_cases:
  assumes "lt \<le> PB_LTYPE_FIXED_LENGTH_BYTES" "lt \<noteq> PB_LTYPE_EXTENSION"
  obtains "lt = PB_LTYPE_VARINT" | "lt = PB_LTYPE_UVARINT" | "lt = PB_LTYPE_SVARINT"
    | "lt = PB_LTYPE_FIXED32" | "lt = PB_LTYPE_FIXED64" | "lt = PB_LTYPE_BYTES"
    | "lt = PB_LTYPE_STRING" | "lt = PB_LTYPE_SUBMESSAGE" | "lt = PB_LTYPE_FIXED_LENGTH_BYTES"
proof -
  obtain n where n: "lt = word_of_nat n" "n \<le> 9"
    using assms(1) by (intro that [of "unat lt"]) (simp_all add: word_le_nat_alt)
  then have "n = 0 \<or> n = 1 \<or> n = 2 \<or> n = 3 \<or> n = 4 \<or> n = 5 \<or> n = 6 \<or> n = 7 \<or> n = 8 \<or> n = 9"
    by arith
  then show ?thesis
    by (elim disjE) (use n(1) assms(2) that in simp_all)
qed

text \<open>The scalar decoders, with the storage they write.\<close>

lemma safe_dec_varint:
  assumes "arange a (unat (data_size field)) \<subseteq> D" "arange a (unat (data_size field)) \<subseteq> W"
  shows "safe D W 1 (pb_dec_varint E field a)"
  unfolding pb_dec_varint_def Let_def
  by (intro safe_seq [OF reads_safe [OF reads_varint]] safe_seq [OF safe_store_signed] assms) auto

lemma safe_dec_uvarint:
  assumes "arange a (unat (data_size field)) \<subseteq> D" "arange a (unat (data_size field)) \<subseteq> W"
  shows "safe D W 1 (pb_dec_uvarint E field a)"
  unfolding pb_dec_uvarint_def
  by (intro safe_seq [OF reads_safe [OF reads_varint]] safe_seq [OF safe_store_unsigned] assms) auto

lemma safe_dec_svarint:
  assumes "arange a (unat (data_size field)) \<subseteq> D" "arange a (unat (data_size field)) \<subseteq> W"
  shows "safe D W 1 (pb_dec_svarint E field a)"
  unfolding pb_dec_svarint_def
  by (intro safe_seq [OF reads_safe [OF reads_svarint]] safe_seq [OF safe_store_signed] assms) auto

lemma arange_prefix: "arange a n \<subseteq> A \<Longrightarrow> a \<le> b \<Longrightarrow> b + int k \<le> a + int n \<Longrightarrow> arange b k \<subseteq> A"
  using arange_subset [of a b k n] by blast

lemma arange_shorter: "arange a n \<subseteq> A \<Longrightarrow> k \<le> n \<Longrightarrow> arange a k \<subseteq> A"
  by (erule arange_prefix) simp_all

lemma arange_inner: "arange a n \<subseteq> A \<Longrightarrow> i + k \<le> n \<Longrightarrow> arange (a + int i) k \<subseteq> A"
  by (erule arange_prefix) simp_all

lemma safe_fixed32:
  assumes "arange a 4 \<subseteq> D" "arange a 4 \<subseteq> W"
  shows "safe D W 1 (pb_decode_fixed32 E a)"
  unfolding pb_decode_fixed32_def
  by (rule safe_weaken [OF safe_seq [OF safe_read]]) (use assms in \<open>auto intro: safe_store_u32\<close>)

lemma safe_fixed64:
  assumes "arange a 8 \<subseteq> D" "arange a 8 \<subseteq> W"
  shows "safe D W 1 (pb_decode_fixed64 E a)"
  unfolding pb_decode_fixed64_def store_u64_def
  by (rule safe_weaken [OF safe_seq [OF safe_read]]) (use assms in \<open>auto intro: safe_store_nat\<close>)

lemma safe_dec_bytes:
  assumes "arange a (unat (data_size field)) \<subseteq> D" "arange a (unat (data_size field)) \<subseteq> W"
  shows "safe D W 1 (pb_dec_bytes E field a)"
proof -
  have "safe D W 0 (cbind (store_u32 a sz) (\<lambda>_. cbind (pb_read E (To_mem (a + 4)) (unat sz)) (\<lambda>_. cret ())))"
    if "\<not> PB_BYTES_ARRAY_T_ALLOCSIZE sz > unat (data_size field)" for sz
  proof -
    have n: "unat sz + 4 \<le> unat (data_size field)" using that by (simp add: PB_BYTES_ARRAY_T_ALLOCSIZE_def)
    have 1: "arange a 4 \<subseteq> D" "arange a 4 \<subseteq> W"
      by (rule arange_shorter [OF assms(1)], use n in simp, rule arange_shorter [OF assms(2)], use n in simp)
    have 2: "arange (a + 4) (unat sz) \<subseteq> D" "arange (a + 4) (unat sz) \<subseteq> W"
      using n arange_inner [OF assms(1), of 4 "unat sz"] arange_inner [OF assms(2), of 4 "unat sz"] by simp_all
    have "safe D W 0 (cbind (pb_read E (To_mem (a + 4)) (unat sz)) (\<lambda>_. cret ()))"
      by (rule safe_weaken [OF safe_seq [OF safe_read]]) (use 2 in auto)
    then show ?thesis by (rule safe_then [OF safe_store_u32 [OF 1]])
  qed
  then show ?thesis
    unfolding pb_dec_bytes_def Let_def by (intro safe_seq [OF reads_safe [OF reads_varint32]] safe_if) auto
qed

lemma safe_dec_fixed_length:
  assumes "arange a (unat (data_size field)) \<subseteq> D" "arange a (unat (data_size field)) \<subseteq> W"
  shows "safe D W 1 (pb_dec_fixed_length_bytes E field a)"
proof -
  have "safe D W 0 (cbind (pb_read E (To_mem a) (unat (data_size field))) (\<lambda>_. cret ()))"
    by (rule safe_weaken [OF safe_seq [OF safe_read]]) (use assms in auto)
  then show ?thesis
    unfolding pb_dec_fixed_length_bytes_def
    by (intro safe_seq [OF reads_safe [OF reads_varint32]] safe_if safe_memset0 assms) auto
qed

text \<open>The terminator of a string is stored whether the read succeeds or not.\<close>

lemma safe_dec_string:
  assumes "arange a (unat (data_size field)) \<subseteq> D" "arange a (unat (data_size field)) \<subseteq> W"
  shows "safe D W 1 (pb_dec_string E field a)"
proof -
  have "safe D W 0 (cbind (ctry (pb_read E (To_mem a) (unat sz))) (\<lambda>status.
      cbind (cstore (a + int (unat sz)) [0]) (\<lambda>_. cbind (of_res status) (\<lambda>_. cret ()))))"
    if ge: "\<not> sz + 1 < sz" and le: "\<not> sz + 1 > data_size field" for sz :: u32
  proof (rule safeI)
    fix s :: pb_istream and m
    assume c: "mdom m = D" "readable D s"
    have u: "unat (sz + 1) = unat sz + 1"
      using ge unat_lt_len [of sz] by (cases "unat sz + 1 = 2 ^ 32") (auto simp: word_less_nat_alt unat_word_ariths)
    then have n: "unat sz + 1 \<le> unat (data_size field)" using le by (simp add: word_less_nat_alt)
    have dst: "arange a (unat sz) \<subseteq> D" "arange a (unat sz) \<subseteq> W"
      by (rule arange_shorter [OF assms(1)], use n in simp, rule arange_shorter [OF assms(2)], use n in simp)
    have z: "arange (a + int (unat sz)) 1 \<subseteq> D" "arange (a + int (unat sz)) 1 \<subseteq> W"
      by (rule arange_inner [OF assms(1) n] arange_inner [OF assms(2) n])+
    have rd: "safe D W (unat sz) (pb_read E (To_mem a) (unat sz))"
      by (rule safe_read) (use dst in simp)
    let ?Q = "\<lambda>(r :: unit res) s' m'. mdom m' = D \<and> magree (- W) m m' \<and> moved (r \<noteq> Fail) 0 s s'"
    show "wp (cbind (ctry (pb_read E (To_mem a) (unat sz))) (\<lambda>status.
      cbind (cstore (a + int (unat sz)) [0]) (\<lambda>_. cbind (of_res status) (\<lambda>_. cret ())))) ?Q s m"
      unfolding wp_cbind wp_ctry
    proof (rule wp_mono [OF safeD [OF rd c]])
      fix r :: "byte list res" and s1 m1
      assume p: "mdom m1 = D \<and> magree (- W) m m1 \<and> moved (r \<noteq> Fail) (unat sz) s s1"
      have v: "mvalid m1 (a + int (unat sz)) (length [0 :: byte])"
        using z(1) p by (simp add: mvalid_def)
      have "wp (cstore (a + int (unat sz)) [0]) (\<lambda>r' s' m'. r' = Ok () \<and> s' = s1 \<and> mdom m' = D \<and> magree (- W) m m') s1 m1"
      proof (rule wp_cstore [OF v])
        fix m2 assume st: "mstore m1 (a + int (unat sz)) [0] = Some m2"
        have "magree (- W) m1 m2"
          using z(2) by (intro mstore_magree [OF st]) auto
        with p mstore_dom [OF st] show "Ok () = Ok () \<and> s1 = s1 \<and> mdom m2 = D \<and> magree (- W) m m2"
          by (auto intro: magree_trans)
      qed
      then have "wp (cstore (a + int (unat sz)) [0]) (wp_then (\<lambda>_. wp (of_res r) (wp_then (\<lambda>_. wp (cret ()) ?Q) (?Q Fail))) (?Q Fail)) s1 m1"
        by (rule wp_mono) (use p in \<open>cases r; auto simp: wp_simps moved_def\<close>)
      then show "wp_then (\<lambda>status. wp (cstore (a + int (unat sz)) [0])
          (wp_then (\<lambda>_. wp (of_res status) (wp_then (\<lambda>_. wp (cret ()) ?Q) (?Q Fail))) (?Q Fail))) (?Q Fail) (Ok r) s1 m1"
        by simp
    qed
  qed
  then show ?thesis
    unfolding pb_dec_string_def Let_def by (intro safe_seq [OF reads_safe [OF reads_varint32]] safe_if) auto
qed

text \<open>The table, given the decoder of submessages.\<close>

definition dsub_safe ::
    "pb_env \<Rightarrow> addr set \<Rightarrow> addr set \<Rightarrow> (nat \<Rightarrow> pb_field list \<Rightarrow> bool) \<Rightarrow> decoder \<Rightarrow> bool" where
  "dsub_safe E D C sub dsub \<longleftrightarrow> (\<forall>W f a. C \<subseteq> W \<longrightarrow> PB_LTYPE (ftype f) = PB_LTYPE_SUBMESSAGE \<longrightarrow>
     data_ok E D sub f \<longrightarrow> arange a (unat (data_size f)) \<subseteq> D \<inter> W \<longrightarrow> safe D W 1 (dsub f a))"

lemma safe_decoder:
  assumes ok: "data_ok E D sub f" and sub: "dsub_safe E D C sub dsub" and C: "C \<subseteq> W"
    and r: "arange a (unat (data_size f)) \<subseteq> D" "arange a (unat (data_size f)) \<subseteq> W"
  shows "safe D W 1 (PB_DECODERS E dsub (PB_LTYPE (ftype f)) f a)"
proof -
  let ?lt = "PB_LTYPE (ftype f)"
  have "?lt \<le> PB_LTYPE_FIXED_LENGTH_BYTES" "?lt \<noteq> PB_LTYPE_EXTENSION"
    using ok by (simp_all add: data_ok_def Let_def)
  then show ?thesis
  proof (cases rule: LTYPE_cases)
    case 1
    with r show ?thesis by (simp add: PB_DECODERS_def safe_dec_varint del: One_nat_def)
  next
    case 2
    with r show ?thesis by (simp add: PB_DECODERS_def safe_dec_uvarint del: One_nat_def)
  next
    case 3
    with r show ?thesis by (simp add: PB_DECODERS_def safe_dec_svarint del: One_nat_def)
  next
    case 4
    with ok have "4 \<le> unat (data_size f)" by (simp add: data_ok_def Let_def)
    with r have "arange a 4 \<subseteq> D" "arange a 4 \<subseteq> W" by (metis arange_shorter)+
    with 4 show ?thesis by (simp add: PB_DECODERS_def pb_dec_fixed32_def safe_fixed32 del: One_nat_def)
  next
    case 5
    with ok have "8 \<le> unat (data_size f)" by (simp add: data_ok_def Let_def)
    with r have "arange a 8 \<subseteq> D" "arange a 8 \<subseteq> W" by (metis arange_shorter)+
    with 5 show ?thesis by (simp add: PB_DECODERS_def pb_dec_fixed64_def safe_fixed64 del: One_nat_def)
  next
    case 6
    with r show ?thesis by (simp add: PB_DECODERS_def safe_dec_bytes del: One_nat_def)
  next
    case 7
    with r show ?thesis by (simp add: PB_DECODERS_def safe_dec_string del: One_nat_def)
  next
    case 8
    with ok sub r C show ?thesis by (simp add: PB_DECODERS_def dsub_safe_def del: One_nat_def)
  next
    case 9
    with r show ?thesis by (simp add: PB_DECODERS_def safe_dec_fixed_length del: One_nat_def)
  qed
qed

section \<open>Arrays\<close>

lemma packed_unfold:
  "packed_loop func it = cbind cget (\<lambda>s.
     if bytes_left s > 0
     then cbind (load_u32 (pSize it)) (\<lambda>n.
        if n < array_size (cur it)
        then cbind (func (cur it) (item_addr it n)) (\<lambda>_.
             cbind (load_u32 (pSize it)) (\<lambda>n'.
             cbind (store_u32 (pSize it) (n' + 1)) (\<lambda>_. packed_loop func it)))
        else cret ())
     else cret ())"
  by (intro ext, subst packed_loop.simps)
    (simp add: cbind_def cget_def split: option.splits prod.splits res.splits)

lemma safe_upto_cget: "(\<And>x. safe_upto n D W P (g x)) \<Longrightarrow> safe_upto n D W P (cbind cget g)"
  by (rule safe_upto_then) (auto simp: safe_def wp_simps moved_refl moved_readD)

lemma safe_upto_if [intro]:
  "(b \<Longrightarrow> safe_upto n D W P f) \<Longrightarrow> (\<not> b \<Longrightarrow> safe_upto n D W P g) \<Longrightarrow> safe_upto n D W P (if b then f else g)"
  by simp

lemma safe_packed_loop:
  assumes func: "\<And>n. n < array_size (cur it) \<Longrightarrow> safe D W 1 (func (cur it) (item_addr it n))"
    and sz: "arange (pSize it) 4 \<subseteq> D" "arange (pSize it) 4 \<subseteq> W"
  shows "safe D W 0 (packed_loop func it)"
proof (rule safe_loop)
  fix n assume "safe_upto n D W (\<lambda>_. True) (packed_loop func it)"
  then show "safe_upto (Suc n) D W (\<lambda>_. True) (packed_loop func it)"
    by (subst packed_unfold)
      (intro safe_upto_cget safe_upto_if safe_upto_cret safe_upto_then [OF safe_load_u32]
        safe_upto_step [OF func] safe_upto_then [OF safe_store_u32] sz TrueI)
qed

text \<open>The items of an array lie in its storage, although the code multiplies in 32 bits.\<close>

lemma item_inside:
  assumes "n < array_size (cur it)"
    and "arange (pData it) (unat (data_size (cur it)) * unat (array_size (cur it))) \<subseteq> A"
  shows "arange (item_addr it n) (unat (data_size (cur it))) \<subseteq> A"
proof -
  let ?d = "unat (data_size (cur it))"
  have "unat (data_size (cur it) * n) \<le> ?d * unat n"
    by (simp add: unat_word_ariths)
  moreover have "Suc (unat n) \<le> unat (array_size (cur it))"
    using assms(1) by (simp add: word_less_nat_alt)
  then have "?d * Suc (unat n) \<le> ?d * unat (array_size (cur it))"
    by (rule mult_le_mono2)
  ultimately have "unat (data_size (cur it) * n) + ?d \<le> ?d * unat (array_size (cur it))"
    by simp
  from arange_inner [OF assms(2) this] show ?thesis by (simp add: item_addr_def)
qed

section \<open>Fields of a structure\<close>

text \<open>
  A field, at offset \<open>p\<close> with its count, tag or presence member at \<open>q\<close>, fits into a
  structure of \<open>S\<close> bytes.
\<close>

definition inside :: "nat \<Rightarrow> int \<Rightarrow> nat \<Rightarrow> bool" where
  "inside S p n \<longleftrightarrow> 0 \<le> p \<and> p + int n \<le> int S"

definition field_fits :: "nat \<Rightarrow> pb_field \<Rightarrow> int \<Rightarrow> int \<Rightarrow> bool" where
  "field_fits S f p q \<longleftrightarrow>
     (let h = PB_HTYPE (ftype f); at = PB_ATYPE (ftype f);
          counted = (h = PB_HTYPE_REPEATED \<or> h = PB_HTYPE_ONEOF) in
      if at = PB_ATYPE_STATIC
      then inside S p (prev_size f) \<and> (counted \<longrightarrow> inside S q 4) \<and>
        (h = PB_HTYPE_OPTIONAL \<and> q \<noteq> p \<longrightarrow> inside S q 1)
      else if at = PB_ATYPE_POINTER then inside S p 8 \<and> (counted \<longrightarrow> inside S q 4)
      else if at = PB_ATYPE_CALLBACK then inside S p 8
      else True)"

definition field_ok ::
    "pb_env \<Rightarrow> addr set \<Rightarrow> (nat \<Rightarrow> pb_field list \<Rightarrow> bool) \<Rightarrow> nat \<Rightarrow> pb_field list \<Rightarrow> nat \<Rightarrow> bool" where
  "field_ok E D sub S fs k \<longleftrightarrow>
     PB_LTYPE (ftype (fs ! k)) \<noteq> PB_LTYPE_EXTENSION \<and>
     field_fits S (fs ! k) (field_offset fs k) (size_field_offset fs k) \<and>
     (PB_ATYPE (ftype (fs ! k)) = PB_ATYPE_STATIC \<longrightarrow> data_ok E D sub (fs ! k))"

lemma inside_arange: "inside S p n \<Longrightarrow> arange a S \<subseteq> A \<Longrightarrow> arange (a + p) n \<subseteq> A"
  by (rule arange_prefix [of a S]) (auto simp: inside_def)

lemma inside_shorter: "inside S p n \<Longrightarrow> k \<le> n \<Longrightarrow> inside S p k"
  by (simp add: inside_def)

definition defaults_safe ::
    "addr set \<Rightarrow> (nat \<Rightarrow> pb_field list \<Rightarrow> bool) \<Rightarrow> (pb_field list \<Rightarrow> addr \<Rightarrow> (pb_istream, unit) cm) \<Rightarrow> bool" where
  "defaults_safe D sub dflt \<longleftrightarrow>
     (\<forall>W n fs a. sub n fs \<longrightarrow> arange a n \<subseteq> D \<inter> W \<longrightarrow> safe D W 0 (dflt fs a))"

lemma safe_static_field:
  assumes ok: "field_ok E D sub S fs k" and st: "PB_ATYPE (ftype (fs ! k)) = PB_ATYPE_STATIC"
    and dsub: "dsub_safe E D C sub dsub"
    and dflt: "defaults_safe D sub (pb_message_set_to_defaults E d)"
    and r: "arange dest S \<subseteq> D" "arange dest S \<subseteq> W" and C: "C \<subseteq> W"
  shows "safe D W 0 (decode_static_field E d dsub wt (iter_at fs dest k))"
proof -
  let ?f = "fs ! k" and ?it = "iter_at fs dest k"
  let ?a = "dest + field_offset fs k" and ?q = "dest + size_field_offset fs k"
  let ?func = "PB_DECODERS E dsub (PB_LTYPE (ftype ?f))"
  have dok: "data_ok E D sub ?f" using ok st by (simp add: field_ok_def)
  have fits: "field_fits S ?f (field_offset fs k) (size_field_offset fs k)"
    using ok by (simp add: field_ok_def)
  note ins = fits [unfolded field_fits_def Let_def st, simplified]
  have store: "arange ?a (prev_size ?f) \<subseteq> D" "arange ?a (prev_size ?f) \<subseteq> W"
    using ins r by (auto intro: inside_arange [THEN subsetD])
  have lt: "\<not> PB_LTYPE (ftype ?f) > PB_LTYPE_FIXED_LENGTH_BYTES"
    using dok by (simp add: data_ok_def Let_def not_less)
  have one: "safe D W 1 (?func ?f ?a)" if "PB_HTYPE (ftype ?f) \<noteq> PB_HTYPE_REPEATED"
    using store that st by (intro safe_decoder [OF dok dsub C]) (simp_all add: prev_size_def)
  have one0: "safe D W 0 (?func ?f ?a)" if "PB_HTYPE (ftype ?f) \<noteq> PB_HTYPE_REPEATED"
    by (rule safe_weaken [OF one [OF that]]) simp_all
  have item: "safe D W 1 (?func ?f (item_addr ?it n))"
    if "n < array_size ?f" "PB_HTYPE (ftype ?f) = PB_HTYPE_REPEATED" for n
    using store that st
    by (intro safe_decoder [OF dok dsub C] item_inside [where it = ?it, simplified])
      (simp_all add: prev_size_def)
  have cnt: "arange ?q 4 \<subseteq> D" "arange ?q 4 \<subseteq> W"
    if "PB_HTYPE (ftype ?f) = PB_HTYPE_REPEATED \<or> PB_HTYPE (ftype ?f) = PB_HTYPE_ONEOF"
    using ins that r by (auto intro: inside_arange [THEN subsetD])
  consider (req) "PB_HTYPE (ftype ?f) = PB_HTYPE_REQUIRED" | (opt) "PB_HTYPE (ftype ?f) = PB_HTYPE_OPTIONAL"
    | (rep) "PB_HTYPE (ftype ?f) = PB_HTYPE_REPEATED" | (one) "PB_HTYPE (ftype ?f) = PB_HTYPE_ONEOF"
    by (rule HTYPE_cases)
  then show ?thesis
  proof cases
    case req
    with lt one0 show ?thesis by (simp add: decode_static_field_def Let_def)
  next
    case opt
    have "safe D W 0 (if ?q \<noteq> ?a then store_bool ?q True else cret ())"
      using ins opt r by (auto intro!: safe_store_bool intro: inside_arange [THEN subsetD])
    then have "safe D W 0 (cbind (if ?q \<noteq> ?a then store_bool ?q True else cret ()) (\<lambda>_. ?func ?f ?a))"
      using opt one0 by (intro safe_then) simp_all
    with opt lt show ?thesis
      by (simp add: decode_static_field_def Let_def split del: if_split cong: if_cong)
  next
    case rep
    have packed: "safe D W 0 (packed_loop ?func ?it)"
      using rep cnt by (intro safe_packed_loop) (simp_all add: item del: One_nat_def)
    have 1: "safe D W 0 (cbind (pb_make_string_substream E) (\<lambda>substream.
          cbind (on_stream substream (packed_loop ?func ?it)) (\<lambda>(status, substream').
          if bytes_left substream' \<noteq> 0 then PB_RETURN_ERROR ''array overflow''
          else cbind (pb_close_string_substream E substream') (\<lambda>_. of_res status))))"
      by (rule safe_weaken [OF safe_with_substream [OF packed]]) (auto simp: of_res_unit)
    have 2: "safe D W 0 (cbind (load_u32 ?q) (\<lambda>n.
          if n \<ge> array_size ?f then PB_RETURN_ERROR ''array overflow''
          else cbind (store_u32 ?q (n + 1)) (\<lambda>_. ?func ?f (item_addr ?it n))))"
      using rep cnt
      by (intro safe_seq [OF safe_load_u32] safe_if safe_error safe_then [OF safe_store_u32]
          safe_weaken [OF item]) auto
    show ?thesis
      using rep lt 1 2 by (simp add: decode_static_field_def Let_def cong: if_cong)
  next
    case one
    have mem: "safe D W 0 (memset0 ?a (unat (data_size ?f)))"
      using store one st by (intro safe_memset0) (simp_all add: prev_size_def)
    have 1: "safe D W 0 (if PB_LTYPE (ftype ?f) = PB_LTYPE_SUBMESSAGE
               then cbind (memset0 ?a (unat (data_size ?f))) (\<lambda>_.
                    cbind (cdef (descs E (ptr ?f))) (\<lambda>fs. pb_message_set_to_defaults E d fs ?a))
               else cret ())"
    proof (cases "PB_LTYPE (ftype ?f) = PB_LTYPE_SUBMESSAGE")
      case True
      with dok obtain fs' where fs': "descs E (ptr ?f) = Some fs'" "sub (unat (data_size ?f)) fs'"
        by (auto simp: data_ok_def Let_def split: option.splits)
      have "safe D W 0 (pb_message_set_to_defaults E d fs' ?a)"
        using dflt fs'(2) store one st by (simp add: defaults_safe_def prev_size_def)
      with True mem fs'(1) show ?thesis by (simp add: cdef_def safe_then)
    next
      case False
      then show ?thesis by auto
    qed
    have "safe D W 0 (cbind (store_u32 ?q (tag ?f)) (\<lambda>_. cbind
         (if PB_LTYPE (ftype ?f) = PB_LTYPE_SUBMESSAGE
               then cbind (memset0 ?a (unat (data_size ?f))) (\<lambda>_.
                    cbind (cdef (descs E (ptr ?f))) (\<lambda>fs. pb_message_set_to_defaults E d fs ?a))
               else cret ()) (\<lambda>_. ?func ?f ?a)))"
      using one cnt by (intro safe_then [OF safe_store_u32] safe_then [OF 1] one0) auto
    with one lt show ?thesis by (simp add: decode_static_field_def Let_def cong: if_cong)
  qed
qed

end
