(* ===== verification/Pb_Decode_Safe.thy ===== *)
theory Pb_Decode_Safe
  imports Pb_Safe
begin

text \<open>
  Memory safety and termination of \<open>pb_decode\<close>: the contract of \<open>Pb_Safe\<close> for callback fields,
  the main loop, the default values and whole messages. \<open>wf_message\<close> says when a table of
  descriptors fits a structure of \<open>S\<close> bytes; for such tables the decoder has no undefined
  behaviour on any input and writes nothing but the structure.
\<close>

section \<open>Results\<close>

definition returns :: "('a \<Rightarrow> bool) \<Rightarrow> ('s, 'a) cm \<Rightarrow> bool" where
  "returns P f \<longleftrightarrow> (\<forall>s m x s' m'. f s m = Some (Ok x, s', m') \<longrightarrow> P x)"

lemma returns_cret [intro]: "P x \<Longrightarrow> returns P (cret x)"
  by (simp add: returns_def cret_def)

lemma returns_error [intro]: "returns P (PB_RETURN_ERROR msg)"
  by (simp add: returns_def PB_RETURN_ERROR_def)

lemma returns_fail [intro]: "returns P cfail"
  by (simp add: returns_def cfail_def)

lemma returns_cbind: "returns P f \<Longrightarrow> (\<And>x. P x \<Longrightarrow> returns Q (g x)) \<Longrightarrow> returns Q (cbind f g)"
  unfolding returns_def
  by (auto simp: cbind_def split: option.splits prod.splits res.splits) blast

lemma returns_seq: "(\<And>x. returns Q (g x)) \<Longrightarrow> returns Q (cbind f g)"
  by (rule returns_cbind [where P = "\<lambda>_. True"]) (auto simp: returns_def)

lemma safe_cbind_returns:
  assumes f: "safe D W j f" and P: "returns P f" and g: "\<And>x. P x \<Longrightarrow> safe D W k (g x)"
  shows "safe D W (j + k) (cbind f g)"
proof -
  let ?g = "\<lambda>x. if P x then g x else cfail"
  have "safe D W (j + k) (cbind f ?g)"
    by (rule safe_cbind [OF f]) (auto simp: g)
  moreover have "cbind f ?g = cbind f g"
  proof (intro ext)
    fix s m
    show "cbind f ?g s m = cbind f g s m"
    proof (cases "f s m")
      case None
      then show ?thesis by (simp add: cbind_def)
    next
      case (Some t)
      obtain r s1 m1 where t: "t = (r, s1, m1)" by (cases t) auto
      show ?thesis
      proof (cases r)
        case (Ok x)
        with P Some t have "P x" unfolding returns_def by blast
        with Ok Some t show ?thesis by (simp add: cbind_def)
      next
        case Fail
        with Some t show ?thesis by (simp add: cbind_def)
      qed
    qed
  qed
  ultimately show ?thesis by simp
qed

lemma read_local_length: "returns (\<lambda>bs. length bs = n) (pb_read_buf E To_local n)"
  unfolding returns_def
proof (intro allI impI)
  fix s m bs s' m'
  assume "pb_read_buf E To_local n s m = Some (Ok bs, s', m')"
  then obtain t u v w where c: "call_in_callback E To_local n t u = Some (Ok bs, v, w)"
    by (fastforce simp: pb_read_buf_def cbind_def cget_def ctry_def consume_def cput_def cret_def cub_def
        PB_RETURN_ERROR_def split: option.splits res.splits if_splits)
  show "length bs = n"
  proof (cases "in_callback t")
    case Buf_read
    with c show ?thesis
      by (auto simp: call_in_callback_def buf_read_def cbind_def cget_def cput_def cload_def
          dest: mload_length split: option.splits)
  next
    case (In_callback i)
    with c show ?thesis
      by (auto simp: call_in_callback_def cbind_def cget_def cret_def cub_def
          split: option.splits prod.splits res.splits if_splits)
  qed
qed

lemma read_length: "returns (\<lambda>bs. length bs = n) (pb_read E To_local n)"
proof -
  have "pb_read E To_local n s m = pb_read_buf E To_local n s m" for s m
    by (simp add: pb_read_def cbind_def cget_def)
  then show ?thesis using read_local_length [of n E] by (simp add: returns_def)
qed

lemma raw_varint_length: "returns (\<lambda>bs. length bs \<le> mx) (raw_varint_loop E mx acc)"
proof (induction E mx acc rule: raw_varint_loop.induct)
  case (1 E mx acc)
  show ?case
  proof (cases "Suc (length acc) > mx")
    case True
    then show ?thesis by (subst raw_varint_loop.simps) auto
  next
    case False
    then show ?thesis
      using 1 [OF False] by (subst raw_varint_loop.simps) (auto intro!: returns_seq returns_cret)
  qed
qed

lemma raw_value_length: "8 \<le> mx \<Longrightarrow> returns (\<lambda>bs. length bs \<le> mx) (read_raw_value E wt mx)"
  using raw_varint_length [of mx E "[]"] read_length [of 8 E] read_length [of 4 E]
  by (auto simp: read_raw_value_def returns_def PB_RETURN_ERROR_def)

section \<open>Callback fields\<close>

text \<open>
  What the decoder relies on of the user's callbacks: on any buffer stream they end, write only
  to their own memory \<open>C\<close>, and either make progress or leave nothing to read.
\<close>

definition callbacks_safe :: "pb_env \<Rightarrow> addr set \<Rightarrow> bool" where
  "callbacks_safe E C \<longleftrightarrow> (\<forall>fn f arg D s m. C \<subseteq> D \<longrightarrow> mdom m = D \<longrightarrow> readable D s \<longrightarrow>
     wp (decode_callbacks E fn f arg) (\<lambda>r s' m'. mdom m' = D \<and> magree (- C) m m' \<and> moved (r \<noteq> Fail) 0 s s' \<and>
       (r \<noteq> Fail \<longrightarrow> bytes_left s' < bytes_left s \<or> bytes_left s' = 0)) s m)"

text \<open>There is room on the stack for the ten bytes of a raw value.\<close>

definition stack_ok :: "pb_env \<Rightarrow> addr set \<Rightarrow> bool" where
  "stack_ok E D \<longleftrightarrow> (\<forall>m. mdom m = D \<longrightarrow> stack_slot E m > 0 \<and> arange (stack_slot E m) 10 \<inter> D = {})"

lemma safe_callback:
  "callbacks_safe E C \<Longrightarrow> C \<subseteq> D \<Longrightarrow> C \<subseteq> W \<Longrightarrow> safe D W 0 (decode_callbacks E fn f arg)"
  unfolding callbacks_safe_def safe_def
  by (intro allI impI, rule wp_mono, blast) (auto intro: magree_mono)

lemma callback_loop_unfold:
  "callback_loop f = cbind f (\<lambda>_. cbind cget (\<lambda>s. if bytes_left s \<noteq> 0 then callback_loop f else cret ()))"
  by (intro ext, subst callback_loop.simps)
    (simp add: cbind_def cget_def split: option.splits prod.splits res.splits)

lemma safe_callback_loop:
  assumes cb: "callbacks_safe E C" and C: "C \<subseteq> D" "C \<subseteq> W"
  shows "safe D W 0 (callback_loop (decode_callbacks E fn f arg))"
proof (rule safe_loop)
  let ?f = "decode_callbacks E fn f arg"
  fix n assume IH: "safe_upto n D W (\<lambda>_. True) (callback_loop ?f)"
  show "safe_upto (Suc n) D W (\<lambda>_. True) (callback_loop ?f)"
    unfolding safe_upto_def
  proof (intro allI impI)
    fix s :: pb_istream and m
    assume a: "mdom m = D" "readable D s" "bytes_left s < Suc n"
    let ?Q = "\<lambda>(r :: unit res) s' m'. mdom m' = D \<and> magree (- W) m m' \<and> moved (r \<noteq> Fail) 0 s s' \<and>
        (\<forall>x \<in> set_res r. True)"
    have cb': "wp ?f (\<lambda>r s' m'. mdom m' = D \<and> magree (- C) m m' \<and> moved (r \<noteq> Fail) 0 s s' \<and>
        (r \<noteq> Fail \<longrightarrow> bytes_left s' < bytes_left s \<or> bytes_left s' = 0)) s m"
      using cb C a unfolding callbacks_safe_def by blast
    show "wp (callback_loop ?f) ?Q s m"
      apply (subst callback_loop_unfold)
      unfolding wp_cbind
    proof (rule wp_mono [OF cb'])
      fix r :: "unit res" and s' m'
      assume p: "mdom m' = D \<and> magree (- C) m m' \<and> moved (r \<noteq> Fail) 0 s s' \<and>
        (r \<noteq> Fail \<longrightarrow> bytes_left s' < bytes_left s \<or> bytes_left s' = 0)"
      then have ag: "magree (- W) m m'" using C by (auto intro: magree_mono)
      show "wp_then (\<lambda>_. wp cget (wp_then (\<lambda>s. wp (if bytes_left s \<noteq> 0 then callback_loop ?f else cret ()) ?Q) (?Q Fail)))
          (?Q Fail) r s' m'"
      proof (cases r)
        case Fail
        with p ag show ?thesis by auto
      next
        case (Ok u)
        show ?thesis
        proof (cases "bytes_left s' = 0")
          case True
          with Ok p ag show ?thesis by (simp add: wp_simps)
        next
          case False
          with p Ok a have l: "bytes_left s' < n" and mv: "moved True 0 s s'" by auto
          have rd: "readable D s'" using mv a(2) by (rule moved_readable)
          have "wp (callback_loop ?f) (\<lambda>r s'' m''. mdom m'' = D \<and> magree (- W) m' m'' \<and> moved (r \<noteq> Fail) 0 s' s'') s' m'"
            using IH p rd l by (simp add: safe_upto_def)
          then have "wp (callback_loop ?f) ?Q s' m'"
            by (rule wp_mono) (use ag mv in \<open>auto intro: magree_trans moved_trans [of 0 _ _ _ 0, simplified]\<close>)
          with Ok False show ?thesis by (simp add: wp_simps)
        qed
      qed
    qed
  qed
qed

lemma safe_local_buffer:
  assumes cb: "callbacks_safe E C" and C: "C \<subseteq> D" "C \<subseteq> W" and st: "stack_ok E D" and n: "length bs \<le> 10"
  shows "safe D W 0 (with_local_buffer E 10 bs (\<lambda>buffer.
     on_stream (pb_istream_from_buffer buffer (length bs)) (decode_callbacks E fn f arg)))"
proof (rule safeI)
  fix s :: pb_istream and m
  assume a: "mdom m = D" "readable D s"
  let ?a = "stack_slot E m" and ?f = "decode_callbacks E fn f arg"
  let ?content = "bs @ replicate (10 - length bs) 0"
  let ?m = "Mem (\<lambda>x. if ?a \<le> x \<and> x < ?a + int 10 then Some (?content ! nat (x - ?a)) else mget m x)"
  let ?D = "D \<union> arange ?a 10"
  from st a(1) have free: "?a > 0" "arange ?a 10 \<inter> D = {}" by (auto simp: stack_ok_def)
  have slot: "list_all (\<lambda>i. mget m (?a + int i) = None) [0..<10]"
    unfolding list_all_iff
  proof
    fix i assume "i \<in> set [0..<10]"
    then have "?a + int i \<in> arange ?a 10" by (auto simp: in_arange)
    with free(2) a(1) have "?a + int i \<notin> mdom m" by auto
    then show "mget m (?a + int i) = None" by (auto simp: in_mdom)
  qed
  have dom: "mdom ?m = ?D"
    using a(1) by (auto simp: mdom_def in_arange)
  let ?t = "pb_istream_from_buffer ?a (length bs)"
  have rd: "readable ?D ?t"
    using arange_subset [of ?a ?a "length bs" 10] n by (auto simp: readable_def pb_istream_from_buffer_def)
  have "safe ?D W 0 ?f" by (rule safe_callback [OF cb]) (use C in auto)
  from safeD [OF this dom rd] obtain r t' m' where run: "?f ?t ?m = Some (r, t', m')"
    and m': "mdom m' = ?D" "magree (- W) ?m m'"
    by (auto simp: wp_iff)
  let ?m' = "Mem (\<lambda>x. if ?a \<le> x \<and> x < ?a + int 10 then None else mget m' x)"
  have "with_local_buffer E 10 bs (\<lambda>buffer. on_stream (pb_istream_from_buffer buffer (length bs)) ?f) s m =
      Some (Ok (r, t'), s, ?m')"
    using slot free(1) run by (simp add: with_local_buffer_def on_stream_def Let_def)
  moreover have "mdom ?m' = D"
  proof -
    have "x \<in> mdom ?m' \<longleftrightarrow> x \<notin> arange ?a 10 \<and> x \<in> mdom m'" for x
      by (auto simp: mdom_def in_arange domIff)
    with m'(1) free(2) show ?thesis by auto
  qed
  moreover have "magree (- W) m ?m'"
    unfolding magree_def
  proof
    fix x assume x: "x \<in> - W"
    with m'(2) have "mget ?m x = mget m' x" unfolding magree_def by blast
    moreover have "mget m x = None" if "x \<in> arange ?a 10"
      using that free(2) a(1) by (auto simp: mdom_def domIff)
    ultimately show "mget m x = mget ?m' x" by (auto simp: in_arange)
  qed
  ultimately show "wp (with_local_buffer E 10 bs (\<lambda>buffer. on_stream (pb_istream_from_buffer buffer (length bs)) ?f))
      (\<lambda>r s' m'. mdom m' = D \<and> magree (- W) m m' \<and> moved (r \<noteq> Fail) 0 s s') s m"
    using a(2) by (simp add: wp_def moved_refl moved_readD)
qed

lemma safe_read_raw: "safe D W 0 (read_raw_value E wt 10)"
proof -
  have "safe D W 0 (raw_varint_loop E mx acc)" for mx acc
  proof (induction E mx acc rule: raw_varint_loop.induct)
    case (1 E mx acc)
    show ?case
    proof (cases "Suc (length acc) > mx")
      case True
      then show ?thesis by (subst raw_varint_loop.simps) auto
    next
      case False
      have "safe D W 0 (cbind (pb_read E To_local 1) (\<lambda>bs.
        if continues (hd bs) then raw_varint_loop E mx (acc @ [hd bs]) else cret (acc @ [hd bs])))"
        by (rule safe_seq [OF safe_weaken [OF read1_decreases [where W = W]]]) (use 1 [OF False] in auto)
      with False show ?thesis by (subst raw_varint_loop.simps) simp
    qed
  qed
  moreover have "safe D W 0 (pb_read E To_local n)" for n
    by (rule safe_weaken [OF safe_read [where W = W]]) simp_all
  ultimately show ?thesis by (auto simp: read_raw_value_def)
qed

lemma safe_callback_field:
  assumes cb: "callbacks_safe E C" and C: "C \<subseteq> D" "C \<subseteq> W" and st: "stack_ok E D"
    and p: "arange (pData it) 8 \<subseteq> D"
  shows "safe D W 0 (decode_callback_field E wt it)"
proof -
  have 1: "safe D W 0 (cbind (pb_make_string_substream E) (\<lambda>substream.
       cbind (on_stream substream (callback_loop (decode_callbacks E fn (cur it) arg)))
         (\<lambda>(r, substream'). case r of
         Fail \<Rightarrow> PB_RETURN_ERROR ''callback failed''
       | Ok _ \<Rightarrow> pb_close_string_substream E substream')))" for fn arg
    by (rule safe_weaken [OF safe_with_substream [OF safe_callback_loop [OF cb C]]])
      (auto split: res.splits)
  have 2: "safe D W 0 (cbind (read_raw_value E wt 10) (\<lambda>bytes.
       cbind (with_local_buffer E 10 bytes (\<lambda>buffer.
         on_stream (pb_istream_from_buffer buffer (length bytes)) (decode_callbacks E fn (cur it) arg)))
         (\<lambda>(r, _). of_res r)))" for fn arg
    using safe_local_buffer [OF cb C st]
    by (auto intro!: safe_cbind_returns [OF safe_read_raw raw_value_length, where k = 0, simplified]
        safe_seq split: prod.splits)
  show ?thesis
    unfolding decode_callback_field_def Let_def
    by (intro safe_then [OF safe_load_ptr] safe_if safe_skip_field 1 2 p)
qed

section \<open>One field\<close>

text \<open>The positions of the iterator: a field, or the terminator of an empty table.\<close>

definition pos_ok :: "pb_field list \<Rightarrow> nat \<Rightarrow> bool" where
  "pos_ok fs k \<longleftrightarrow> k < n_fields fs \<or> (n_fields fs = 0 \<and> k = 0)"

text \<open>The surroundings of a structure that is decoded.\<close>

definition decode_env ::
    "pb_env \<Rightarrow> addr set \<Rightarrow> addr set \<Rightarrow> addr set \<Rightarrow> nat \<Rightarrow> addr \<Rightarrow> bool" where
  "decode_env E D C W S dest \<longleftrightarrow> callbacks_safe E C \<and> stack_ok E D \<and> C \<subseteq> D \<and> C \<subseteq> W \<and>
     arange dest S \<subseteq> D \<and> arange dest S \<subseteq> W"

lemma safe_decode_field:
  assumes env: "decode_env E D C W S dest"
    and fsok: "fields_ok fs" and flds: "\<And>k. k < n_fields fs \<Longrightarrow> field_ok E D sub S fs k"
    and dsub: "dsub_safe E D C sub dsub" and dflt: "defaults_safe D sub (pb_message_set_to_defaults E d)"
    and k: "pos_ok fs k"
  shows "safe D W 0 (decode_field E d dsub wt (iter_at fs dest k))"
proof (cases "k < n_fields fs")
  case True
  note ok = flds [OF True]
  from env have e: "callbacks_safe E C" "C \<subseteq> D" "C \<subseteq> W" "stack_ok E D"
    "arange dest S \<subseteq> D" "arange dest S \<subseteq> W"
    by (simp_all add: decode_env_def)
  have "safe D W 0 (decode_callback_field E wt (iter_at fs dest k))"
    if "PB_ATYPE (ftype (fs ! k)) = PB_ATYPE_CALLBACK"
  proof (rule safe_callback_field [OF e(1-4)])
    have "inside S (field_offset fs k) 8"
      using ok that by (simp add: field_ok_def field_fits_def Let_def)
    from inside_arange [OF this e(5)] show "arange (pData (iter_at fs dest k)) 8 \<subseteq> D" by simp
  qed
  then show ?thesis
    using safe_static_field [OF ok _ dsub dflt e(5,6,3)]
    by (auto simp: decode_field_def Let_def decode_pointer_field_def)
next
  case False
  with k have "n_fields fs = 0" "k = 0" by (simp_all add: pos_ok_def)
  then have "fs ! k = PB_LAST_FIELD" using fields_ok_last [OF fsok] by simp
  moreover have "safe D W 0 (pb_dec_varint E PB_LAST_FIELD a)" for a
    by (rule safe_weaken [OF safe_dec_varint [where D = D and W = W]]) (simp_all add: PB_LAST_FIELD_def)
  ultimately show ?thesis
    by (simp add: decode_field_def decode_static_field_def Let_def PB_DECODERS_def)
      (simp add: PB_LAST_FIELD_def PB_ATYPE_def PB_HTYPE_def PB_LTYPE_def)
qed

section \<open>Unknown fields\<close>

lemma search_pos:
  assumes ok: "fields_ok fs" and k: "pos_ok fs k"
  shows "\<exists>b j. iter_search_loop p k (iter_at fs d k) = Some (b, iter_at fs d j) \<and> pos_ok fs j \<and>
     (b \<longrightarrow> p (fs ! j))"
proof (cases "k < n_fields fs")
  case True
  with search_all [OF ok True, of p d] show ?thesis by (auto simp: pos_ok_def)
next
  case False
  with k have "n_fields fs = 0" "k = 0" by (simp_all add: pos_ok_def)
  with iter_search_empty [OF ok, of p d] fields_ok_last [OF ok] show ?thesis
    by (auto simp: pos_ok_def)
qed

lemma no_extension_found:
  assumes ok: "fields_ok fs" and ext: "\<And>k. k < n_fields fs \<Longrightarrow> PB_LTYPE (ftype (fs ! k)) \<noteq> PB_LTYPE_EXTENSION"
    and k: "pos_ok fs k"
  shows "\<exists>j. find_extension_field (iter_at fs d k) = Some (False, iter_at fs d j) \<and> pos_ok fs j"
proof -
  let ?p = "\<lambda>f. PB_LTYPE (ftype f) = PB_LTYPE_EXTENSION"
  have "\<not> ?p (fs ! j)" if "pos_ok fs j" for j
  proof (cases "j < n_fields fs")
    case True
    then show ?thesis by (rule ext)
  next
    case False
    with that have "fs ! j = PB_LAST_FIELD" using fields_ok_last [OF ok] by (simp add: pos_ok_def)
    then show ?thesis by (simp add: PB_LAST_FIELD_def PB_LTYPE_def)
  qed
  then show ?thesis
    using search_pos [OF ok k, of ?p d] by (auto simp: find_extension_field_def)
qed

text \<open>Without extension fields an unknown field is skipped, and the search is not repeated.\<close>

lemma decode_unknown_eq:
  assumes ok: "fields_ok fs" and ext: "\<And>k. k < n_fields fs \<Longrightarrow> PB_LTYPE (ftype (fs ! k)) \<noteq> PB_LTYPE_EXTENSION"
    and k: "pos_ok fs k" and t: "unat t < 2 ^ 29" and rs: "rs \<in> {0, -1}"
  shows "\<exists>j. pos_ok fs j \<and> decode_unknown E d dsub t wt rs (iter_at fs dest k) =
     cbind (pb_skip_field E wt) (\<lambda>_. cret (iter_at fs dest j, -1))"
proof -
  have big: "\<not> t \<ge> -1" using t by (simp add: word_le_nat_alt unsigned_minus_1_eq_mask mask_eq_exp_minus_1)
  show ?thesis
  proof (cases "rs = 0")
    case True
    from no_extension_found [OF ok ext k] obtain j where
      "find_extension_field (iter_at fs dest k) = Some (False, iter_at fs dest j)" "pos_ok fs j" by blast
    with True big show ?thesis
      by (intro exI [of _ j]) (simp add: decode_unknown_def cdef_def)
  next
    case False
    with rs big k show ?thesis
      by (intro exI [of _ k]) (simp add: decode_unknown_def)
  qed
qed

section \<open>The main loop\<close>

lemma decode_loop_unfold:
  "decode_loop E d dsub it seen rs = cbind cget (\<lambda>s.
     if bytes_left s = 0 then cret (it, seen)
     else cbind (pb_decode_tag E) (\<lambda>(ok, wire_type, t, eof).
        if \<not> ok then (if eof then cret (it, seen) else cfail)
        else cbind (cdef (pb_field_iter_find it t)) (\<lambda>(found, it').
          if \<not> found
          then cbind (decode_unknown E d dsub t wire_type rs it') (\<lambda>(it'', rs').
               decode_loop E d dsub it'' seen rs')
          else cbind (decode_field E d dsub wire_type it') (\<lambda>_.
               decode_loop E d dsub it' (mark_seen it' seen) rs))))"
  by (intro ext, subst decode_loop.simps)
    (simp add: cbind_def cget_def split: option.splits prod.splits res.splits)

lemma safe_upto_tag:
  fixes g :: "bool \<times> pb_wire_type \<times> u32 \<times> bool \<Rightarrow> (pb_istream, 'y) cm"
  assumes ok: "\<And>wt t eof. unat t < 2 ^ 29 \<Longrightarrow> safe_upto n D W P (g (True, wt, t, eof))"
    and stop: "\<And>wt t eof. safe_upto (Suc n) D W P (g (False, wt, t, eof))"
  shows "safe_upto (Suc n) D W P (cbind (pb_decode_tag E) g)"
  unfolding safe_upto_def
proof (intro allI impI)
  fix s :: pb_istream and m
  assume a: "mdom m = D" "readable D s" and l: "bytes_left s < Suc n"
  let ?Q = "\<lambda>(r :: 'y res) s' m'. mdom m' = D \<and> magree (- W) m m' \<and> moved (r \<noteq> Fail) 0 s s' \<and> (\<forall>x \<in> set_res r. P x)"
  show "wp (cbind (pb_decode_tag E) g) ?Q s m"
    unfolding wp_cbind
  proof (rule wp_mono [OF wp_decode_tag [OF a]])
    fix r :: "(bool \<times> pb_wire_type \<times> u32 \<times> bool) res" and s' m'
    assume p: "m' = m \<and> moved True 0 s s' \<and> (\<exists>x. r = Ok x \<and> tag_ok s x s')"
    then obtain k wt t eof where r: "r = Ok (k, wt, t, eof)" and m': "m' = m"
      and mv: "moved True 0 s s'" and tk: "tag_ok s (k, wt, t, eof) s'" by auto
    have rd: "readable D s'" using mv a(2) by (rule moved_readable)
    have "wp (g (k, wt, t, eof)) (\<lambda>r s'' m''. mdom m'' = D \<and> magree (- W) m' m'' \<and> moved (r \<noteq> Fail) 0 s' s'' \<and>
        (\<forall>x \<in> set_res r. P x)) s' m'"
    proof (cases k)
      case True
      with tk have "bytes_left s' < n" "unat t < 2 ^ 29" using l by (simp_all add: tag_ok_def)
      with ok [of t wt eof] True rd a(1) m' show ?thesis by (simp add: safe_upto_def)
    next
      case False
      have "bytes_left s' < Suc n" using mv l by (simp add: moved_def)
      with stop [of wt t eof] False rd a(1) m' show ?thesis by (simp add: safe_upto_def)
    qed
    then show "wp_then (\<lambda>x. wp (g x) ?Q) (?Q Fail) r s' m'"
      unfolding r wp_then.simps
      by (rule wp_mono) (use m' mv in \<open>auto intro: moved_trans [of 0 _ _ _ 0, simplified]\<close>)
  qed
qed

text \<open>What the loop hands to the check of the required fields.\<close>

definition loop_result :: "pb_field list \<Rightarrow> addr \<Rightarrow> pb_field_iter \<times> u32 list \<Rightarrow> bool" where
  "loop_result fs dest = (\<lambda>(it, seen). \<exists>k. it = iter_at fs dest k \<and> pos_ok fs k \<and> length seen = 2)"

lemma length_mark_seen [simp]: "length (mark_seen it seen) = length seen"
  by (simp add: mark_seen_def Let_def)

lemma safe_decode_loop:
  assumes env: "decode_env E D C W S dest"
    and ok: "fields_ok fs" and flds: "\<And>k. k < n_fields fs \<Longrightarrow> field_ok E D sub S fs k"
    and dsub: "dsub_safe E D C sub dsub" and dflt: "defaults_safe D sub (pb_message_set_to_defaults E d)"
  shows "pos_ok fs k \<Longrightarrow> length seen = 2 \<Longrightarrow> rs \<in> {0, -1} \<Longrightarrow>
     safe_upto n D W (loop_result fs dest) (decode_loop E d dsub (iter_at fs dest k) seen rs)"
proof (induction n arbitrary: k seen rs)
  case 0
  show ?case by (rule safe_upto_0)
next
  case (Suc n)
  have ext: "PB_LTYPE (ftype (fs ! j)) \<noteq> PB_LTYPE_EXTENSION" if "j < n_fields fs" for j
    using flds [OF that] by (simp add: field_ok_def)
  let ?it = "iter_at fs dest k"
  have res: "loop_result fs dest (?it, seen)"
    using Suc.prems by (auto simp: loop_result_def)
  have rest: "safe_upto n D W (loop_result fs dest)
     (cbind (cdef (pb_field_iter_find ?it t)) (\<lambda>(found, it').
          if \<not> found
          then cbind (decode_unknown E d dsub t wt rs it') (\<lambda>(it'', rs'). decode_loop E d dsub it'' seen rs')
          else cbind (decode_field E d dsub wt it') (\<lambda>_. decode_loop E d dsub it' (mark_seen it' seen) rs)))"
    if t: "unat t < 2 ^ 29" for wt t
  proof -
    from search_pos [OF ok Suc.prems(1), of "tag_matches t" dest] obtain b j where
      find: "pb_field_iter_find ?it t = Some (b, iter_at fs dest j)" and j: "pos_ok fs j"
      by (auto simp: pb_field_iter_find_def)
    have known: "safe_upto n D W (loop_result fs dest)
        (cbind (decode_field E d dsub wt (iter_at fs dest j))
          (\<lambda>_. decode_loop E d dsub (iter_at fs dest j) (mark_seen (iter_at fs dest j) seen) rs))"
      by (rule safe_upto_then [OF safe_decode_field [OF env ok flds dsub dflt j]])
        (use Suc.IH [OF j] Suc.prems in simp_all)
    obtain i where i: "pos_ok fs i" and unk: "decode_unknown E d dsub t wt rs (iter_at fs dest j) =
        cbind (pb_skip_field E wt) (\<lambda>_. cret (iter_at fs dest i, -1))"
      using decode_unknown_eq [OF ok ext j t Suc.prems(3)] by blast
    have "safe_upto n D W (loop_result fs dest)
        (cbind (decode_unknown E d dsub t wt rs (iter_at fs dest j)) (\<lambda>(it'', rs'). decode_loop E d dsub it'' seen rs'))"
      unfolding unk cbind_assoc
      by (rule safe_upto_then [OF safe_skip_field]) (use Suc.IH [OF i] Suc.prems in simp)
    with known find show ?thesis by (simp add: cdef_def)
  qed
  show ?case
    apply (subst decode_loop_unfold)
    apply (intro safe_upto_cget safe_upto_if safe_upto_cret res safe_upto_tag)
    using rest res by auto
qed

section \<open>The required fields\<close>

definition required_ok :: "pb_field list \<Rightarrow> bool" where
  "required_ok fs \<longleftrightarrow> (let r = required_before fs (n_fields fs) in r = 0 \<or> (r < 64 \<and> r mod 32 \<noteq> 0))"

lemma required_loop_at:
  assumes ok: "fields_ok fs"
  shows "k < n_fields fs \<Longrightarrow> required_loop (iter_at fs dest k) =
     Some (required_before fs (n_fields fs - 1), ftype (fs ! (n_fields fs - 1)), iter_at fs dest 0)"
proof (induction "n_fields fs - k" arbitrary: k)
  case 0
  then show ?case by simp
next
  case (Suc x)
  show ?case
  proof (cases "Suc k < n_fields fs")
    case True
    with Suc show ?thesis
      by (subst required_loop.simps) (simp add: iter_next_at [OF ok Suc.prems])
  next
    case False
    with Suc.prems have "n_fields fs = Suc k" by simp
    then show ?thesis
      by (subst required_loop.simps) (simp add: iter_next_at [OF ok Suc.prems])
  qed
qed

text \<open>The count does not depend on where the main loop left the iterator.\<close>

lemma required_count_at:
  assumes ok: "fields_ok fs" and k: "pos_ok fs k"
  shows "required_count (iter_at fs dest k) = Some (required_before fs (n_fields fs))"
proof (cases "k < n_fields fs")
  case True
  then obtain n where n: "n_fields fs = Suc n" by (cases "n_fields fs") auto
  have "length fs = Suc (Suc n)" using fields_ok_length [OF ok] n by simp
  moreover have "tag (fs ! 0) \<noteq> 0" using fields_ok_tag [OF ok, of 0] n by simp
  ultimately show ?thesis
    using n required_before_Suc [of n fs]
    by (auto simp: required_count_def required_loop_at [OF ok True] is_required_def)
next
  case False
  with k have z: "n_fields fs = 0" "k = 0" by (simp_all add: pos_ok_def)
  then have "fs ! 0 = PB_LAST_FIELD" using fields_ok_last [OF ok] by simp
  with z show ?thesis
    by (simp add: required_count_def required_loop.simps iter_next_empty [OF ok] required_before_def)
qed

lemma check_words_Some: "k \<le> length seen \<Longrightarrow> \<exists>b. check_words seen k = Some b"
proof (induction k arbitrary: seen)
  case 0
  then show ?case by auto
next
  case (Suc k)
  then show ?case by (cases seen) auto
qed

lemma safe_check_required:
  assumes r: "r = 0 \<or> (r < 64 \<and> r mod 32 \<noteq> 0)" and len: "length seen = 2"
  shows "safe D W 0 (check_required seen r)"
proof (cases "r = 0")
  case True
  then show ?thesis by (auto simp: check_required_def)
next
  case False
  with r have "r div 32 < 2" "r mod 32 \<noteq> 0" by auto
  with len check_words_Some [of "r div 32" seen] show ?thesis
    by (auto simp: check_required_def intro!: safe_seq [OF safe_cdef])
qed

lemma safe_noinit:
  assumes env: "decode_env E D C W S dest"
    and ok: "fields_ok fs" "required_ok fs" and flds: "\<And>k. k < n_fields fs \<Longrightarrow> field_ok E D sub S fs k"
    and dsub: "dsub_safe E D C sub dsub" and dflt: "defaults_safe D sub (pb_message_set_to_defaults E d)"
  shows "safe D W 0 (pb_decode_noinit_with E d dsub fs dest)"
proof -
  have p0: "pos_ok fs 0" by (auto simp: pos_ok_def)
  have "safe D W 0 (cbind (decode_loop E d dsub (iter_at fs dest 0) [0, 0] 0) (\<lambda>(it', seen).
     cbind (cdef (required_count it')) (check_required seen)))"
    by (rule safe_upto_bind [OF safe_decode_loop [OF env ok(1) flds dsub dflt p0]])
      (use ok(2) in \<open>auto simp: loop_result_def required_count_at [OF ok(1)] cdef_def required_ok_def
        Let_def intro: safe_check_required\<close>)
  then show ?thesis
    by (simp add: pb_decode_noinit_with_def iter_begin_ok [OF ok(1)] cdef_def)
qed

section \<open>Default values\<close>

lemma safe_iter_loop:
  assumes ok: "fields_ok fs" and body: "\<And>k. k < n_fields fs \<Longrightarrow> safe D W 0 (body (iter_at fs dest k))"
  shows "k < n_fields fs \<Longrightarrow> safe D W 0 (iter_loop body (iter_at fs dest k))"
proof (induction "n_fields fs - k" arbitrary: k)
  case 0
  then show ?case by simp
next
  case (Suc x)
  have "safe D W 0 (if Suc k < n_fields fs then iter_loop body (iter_at fs dest (Suc k)) else cret ())"
    using Suc.hyps by auto
  then show ?case
    unfolding iter_loop_at [OF ok Suc.prems] by (intro safe_seq [OF body [OF Suc.prems]])
qed

primrec wf_message :: "pb_env \<Rightarrow> addr set \<Rightarrow> nat \<Rightarrow> nat \<Rightarrow> pb_field list \<Rightarrow> bool" where
  "wf_message E D 0 = (\<lambda>S fs. False)"
| "wf_message E D (Suc d) = (\<lambda>S fs. fields_ok fs \<and> required_ok fs \<and>
     (\<forall>k < n_fields fs. field_ok E D (wf_message E D d) S fs k))"

text \<open>A static field is reset inside its storage.\<close>

lemma safe_static_default:
  assumes ok: "field_ok E D sub S fs k" and st: "PB_ATYPE (ftype (fs ! k)) = PB_ATYPE_STATIC"
    and sub: "\<And>n fs' a. sub n fs' \<Longrightarrow> arange a n \<subseteq> D \<Longrightarrow> arange a n \<subseteq> W \<Longrightarrow>
       safe D W 0 (message_defaults_with fdef fs' a)"
    and r: "arange dest S \<subseteq> D" "arange dest S \<subseteq> W"
  shows "safe D W 0 (field_default_with E fdef (iter_at fs dest k))"
proof -
  let ?f = "fs ! k" and ?a = "dest + field_offset fs k" and ?q = "dest + size_field_offset fs k"
  let ?h = "PB_HTYPE (ftype ?f)" and ?n = "unat (data_size ?f)"
  have dok: "data_ok E D sub ?f" using ok st by (simp add: field_ok_def)
  have ext: "PB_LTYPE (ftype ?f) \<noteq> PB_LTYPE_EXTENSION" using ok by (simp add: field_ok_def)
  have fits: "field_fits S ?f (field_offset fs k) (size_field_offset fs k)"
    using ok by (simp add: field_ok_def)
  note ins = fits [unfolded field_fits_def Let_def st, simplified]
  have store: "arange ?a (prev_size ?f) \<subseteq> D" "arange ?a (prev_size ?f) \<subseteq> W"
    using ins r by (auto intro: inside_arange [THEN subsetD])
  let ?init = "if PB_LTYPE (ftype ?f) = PB_LTYPE_SUBMESSAGE
          then cbind (cdef (descs E (ptr ?f))) (\<lambda>fs. message_defaults_with fdef fs ?a)
          else if ptr ?f \<noteq> 0 then ccopy ?a (ptr ?f) ?n else memset0 ?a ?n"
  let ?pre = "if ?h = PB_HTYPE_OPTIONAL \<and> ?q \<noteq> ?a
               then cbind (store_bool ?q False) (\<lambda>_. cret True)
               else if ?h = PB_HTYPE_REPEATED \<or> ?h = PB_HTYPE_ONEOF
               then cbind (store_u32 ?q 0) (\<lambda>_. cret False) else cret True"
  have code: "field_default_with E fdef (iter_at fs dest k) = cbind ?pre (\<lambda>b. if b then ?init else cret ())"
    using st ext by (simp add: field_default_with_def Let_def cong: if_cong)
  have init: "safe D W 0 ?init" if "?h \<noteq> PB_HTYPE_REPEATED"
  proof -
    have n: "arange ?a ?n \<subseteq> D" "arange ?a ?n \<subseteq> W"
      using store that st by (simp_all add: prev_size_def)
    show ?thesis
    proof (cases "PB_LTYPE (ftype ?f) = PB_LTYPE_SUBMESSAGE")
      case True
      with dok obtain fs' where "descs E (ptr ?f) = Some fs'" "sub ?n fs'"
        by (auto simp: data_ok_def Let_def split: option.splits)
      with True sub [OF _ n, of fs'] show ?thesis by (simp add: cdef_def)
    next
      case False
      with dok have "ptr ?f \<noteq> 0 \<longrightarrow> arange (ptr ?f) ?n \<subseteq> D" by (simp add: data_ok_def Let_def)
      with False n show ?thesis by (auto intro!: safe_ccopy safe_memset0)
    qed
  qed
  show ?thesis
  proof (cases "?h = PB_HTYPE_REPEATED \<or> ?h = PB_HTYPE_ONEOF")
    case True
    then have "arange ?q 4 \<subseteq> D" "arange ?q 4 \<subseteq> W"
      using ins r by (auto intro: inside_arange [THEN subsetD])
    then have "safe D W 0 (cbind (store_u32 ?q 0) (\<lambda>_. cret ()))"
      by (intro safe_seq [OF safe_store_u32]) auto
    moreover have "field_default_with E fdef (iter_at fs dest k) = cbind (store_u32 ?q 0) (\<lambda>_. cret ())"
      unfolding code using True by (auto simp: cbind_assoc)
    ultimately show ?thesis by simp
  next
    case False
    have "safe D W 0 (if ?h = PB_HTYPE_OPTIONAL \<and> ?q \<noteq> ?a then store_bool ?q False else cret ())"
      using ins r by (auto intro!: safe_store_bool intro: inside_arange [THEN subsetD])
    then have "safe D W 0 (cbind (if ?h = PB_HTYPE_OPTIONAL \<and> ?q \<noteq> ?a then store_bool ?q False else cret ()) (\<lambda>_. ?init))"
      using init False by (intro safe_then) auto
    moreover have "field_default_with E fdef (iter_at fs dest k) =
        cbind (if ?h = PB_HTYPE_OPTIONAL \<and> ?q \<noteq> ?a then store_bool ?q False else cret ()) (\<lambda>_. ?init)"
      unfolding code using False by (auto simp: cbind_assoc)
    ultimately show ?thesis by simp
  qed
qed

lemma safe_field_default:
  assumes ok: "field_ok E D sub S fs k"
    and sub: "\<And>n fs' a. sub n fs' \<Longrightarrow> arange a n \<subseteq> D \<Longrightarrow> arange a n \<subseteq> W \<Longrightarrow>
       safe D W 0 (message_defaults_with fdef fs' a)"
    and r: "arange dest S \<subseteq> D" "arange dest S \<subseteq> W"
  shows "safe D W 0 (field_default_with E fdef (iter_at fs dest k))"
proof -
  let ?f = "fs ! k" and ?q = "dest + size_field_offset fs k"
  have ext: "PB_LTYPE (ftype ?f) \<noteq> PB_LTYPE_EXTENSION" using ok by (simp add: field_ok_def)
  have fits: "field_fits S ?f (field_offset fs k) (size_field_offset fs k)"
    using ok by (simp add: field_ok_def)
  show ?thesis
  proof (cases "PB_ATYPE (ftype ?f) = PB_ATYPE_POINTER")
    case True
    let ?c = "PB_HTYPE (ftype ?f) = PB_HTYPE_REPEATED \<or> PB_HTYPE (ftype ?f) = PB_HTYPE_ONEOF"
    have p: "inside S (field_offset fs k) 8" and q: "?c \<Longrightarrow> inside S (size_field_offset fs k) 4"
      using fits True by (auto simp: field_fits_def Let_def)
    have "safe D W 0 (if ?c then store_u32 ?q 0 else cret ())"
      using inside_arange [OF q] r by (intro safe_if safe_store_u32) auto
    then have "safe D W 0 (cbind (store_nat (dest + field_offset fs k) 8 0) (\<lambda>_. if ?c then store_u32 ?q 0 else cret ()))"
      by (intro safe_then [OF safe_store_nat] inside_arange [OF p] r)
    with True ext show ?thesis by (simp add: field_default_with_def Let_def cong: if_cong)
  next
    case False
    then show ?thesis
      using safe_static_default [OF ok _ sub r] ext
      by (cases "PB_ATYPE (ftype ?f) = PB_ATYPE_STATIC") (auto simp: field_default_with_def Let_def)
  qed
qed

lemma safe_defaults:
  "wf_message E D d S fs \<Longrightarrow> d \<le> e \<Longrightarrow> arange dest S \<subseteq> D \<Longrightarrow> arange dest S \<subseteq> W \<Longrightarrow>
     safe D W 0 (pb_message_set_to_defaults E e fs dest)"
proof (induction d arbitrary: e S fs dest)
  case 0
  then show ?case by simp
next
  case (Suc d)
  then obtain e' where e: "e = Suc e'" "d \<le> e'" by (cases e) auto
  from Suc.prems(1) have ok: "fields_ok fs" and flds: "\<And>k. k < n_fields fs \<Longrightarrow> field_ok E D (wf_message E D d) S fs k"
    by simp_all
  have body: "safe D W 0 (pb_field_set_to_default E e (iter_at fs dest k))" if "k < n_fields fs" for k
    unfolding e pb_field_set_to_default.simps
    by (rule safe_field_default [OF flds [OF that] _ Suc.prems(3,4)])
      (rule Suc.IH [OF _ e(2), unfolded pb_message_set_to_defaults_def])
  show ?case
    using safe_iter_loop [where body = "pb_field_set_to_default E e" and k = 0, OF ok body]
    by (auto simp: pb_message_set_to_defaults_def message_defaults_with_def iter_begin_ok [OF ok] cdef_def)
qed

section \<open>Messages\<close>

lemma safe_submessage:
  assumes cb: "callbacks_safe E C" and st: "stack_ok E D" and C: "C \<subseteq> D"
  shows "dsub_safe E D C (wf_message E D d) (pb_dec_submessage E (Suc d))"
proof (induction d)
  case 0
  then show ?case by (auto simp: dsub_safe_def data_ok_def Let_def split: option.splits)
next
  case (Suc d)
  show ?case
    unfolding dsub_safe_def
  proof (intro allI impI)
    fix W f a
    assume CW: "C \<subseteq> W" and lt: "PB_LTYPE (ftype f) = PB_LTYPE_SUBMESSAGE"
      and dok: "data_ok E D (wf_message E D (Suc d)) f" and r: "arange a (unat (data_size f)) \<subseteq> D \<inter> W"
    let ?S = "unat (data_size f)"
    from dok lt obtain fs where p: "ptr f \<noteq> 0" "descs E (ptr f) = Some fs" and wf: "wf_message E D (Suc d) ?S fs"
      by (auto simp: data_ok_def Let_def simp del: wf_message.simps split: option.splits)
    from wf have ok: "fields_ok fs" "required_ok fs"
      and flds: "\<And>k. k < n_fields fs \<Longrightarrow> field_ok E D (wf_message E D d) ?S fs k" by simp_all
    have env: "decode_env E D C W ?S a" using cb st C CW r by (simp add: decode_env_def)
    have dflt: "defaults_safe D (wf_message E D d) (pb_message_set_to_defaults E (Suc d))"
      unfolding defaults_safe_def by (blast intro: safe_defaults le_SucI order_refl)
    have run: "safe D W 0 (pb_decode_noinit_with E (Suc d) (pb_dec_submessage E (Suc d)) fs a)"
      by (rule safe_noinit [OF env ok flds Suc.IH dflt])
    have init: "safe D W 0 (pb_message_set_to_defaults E (Suc d) fs a)"
      using r by (intro safe_defaults [OF wf order_refl]) auto
    have both: "safe D W 0
        (if PB_HTYPE (ftype f) = PB_HTYPE_REPEATED
         then pb_decode_with E (Suc d) (pb_dec_submessage E (Suc d)) fs a
         else pb_decode_noinit_with E (Suc d) (pb_dec_submessage E (Suc d)) fs a)" (is "safe D W 0 ?run")
      unfolding pb_decode_with_def by (intro safe_if safe_then [OF init] run)
    have "safe D W 1 (cbind (pb_make_string_substream E) (\<lambda>substream.
       cbind (on_stream substream ?run) (\<lambda>(status, substream').
         cbind (pb_close_string_substream E substream') (\<lambda>_. of_res status))))"
      by (rule safe_with_substream [OF both]) (auto simp: of_res_unit)
    then show "safe D W 1 (pb_dec_submessage E (Suc (Suc d)) f a)"
      unfolding pb_dec_submessage.simps(2) [of E "Suc d"] p(2)
      using p(1) by (simp add: cdef_def del: One_nat_def pb_dec_submessage.simps)
  qed
qed

theorem safe_decode:
  assumes wf: "wf_message E D (Suc d) S fs" and cb: "callbacks_safe E C" and st: "stack_ok E D"
    and C: "C \<subseteq> D" and dest: "arange dest S \<subseteq> D"
  shows "safe D (arange dest S \<union> C) 0 (pb_decode E (Suc d) fs dest)"
proof -
  let ?W = "arange dest S \<union> C"
  from wf have ok: "fields_ok fs" "required_ok fs"
    and flds: "\<And>k. k < n_fields fs \<Longrightarrow> field_ok E D (wf_message E D d) S fs k" by simp_all
  have env: "decode_env E D C ?W S dest" using cb st C dest by (auto simp: decode_env_def)
  have dflt: "defaults_safe D (wf_message E D d) (pb_message_set_to_defaults E (Suc d))"
    unfolding defaults_safe_def by (blast intro: safe_defaults le_SucI order_refl)
  have "safe D ?W 0 (pb_decode_noinit_with E (Suc d) (pb_dec_submessage E (Suc d)) fs dest)"
    by (rule safe_noinit [OF env ok flds safe_submessage [OF cb st C] dflt])
  moreover have "safe D ?W 0 (pb_message_set_to_defaults E (Suc d) fs dest)"
    using dest by (intro safe_defaults [OF wf order_refl]) auto
  ultimately show ?thesis
    unfolding pb_decode_def pb_decode_noinit_def by (intro safe_then)
qed

end
