(* ===== verification/Pb_Roundtrip.thy ===== *)
theory Pb_Roundtrip
  imports Pb_Store Pb_Decode_Safe
begin

text \<open>
  Decoding what was encoded. For a table of singular static fields (required, optional with a
  presence flag, or proto3 style without one) whose members do not overlap, decoding the bytes
  that \<open>pb_encode\<close> emits for a structure reproduces the fields of the structure in another one.
  The proof follows the run: the default values (\<open>reset_field\<close>), then the fields one by one
  (\<open>same_field\<close>), then the check of the required fields.
\<close>

section \<open>Tables of singular static fields\<close>

definition flagged :: "pb_field list \<Rightarrow> nat \<Rightarrow> bool" where
  "flagged fs k \<longleftrightarrow> PB_HTYPE (ftype (fs ! k)) = PB_HTYPE_OPTIONAL \<and> size_offset (fs ! k) \<noteq> 0"

definition simple_field :: "pb_field \<Rightarrow> bool" where
  "simple_field f \<longleftrightarrow> PB_ATYPE (ftype f) = PB_ATYPE_STATIC \<and>
     PB_LTYPE (ftype f) \<noteq> PB_LTYPE_SUBMESSAGE \<and>
     (PB_HTYPE (ftype f) = PB_HTYPE_REQUIRED \<or>
      PB_HTYPE (ftype f) = PB_HTYPE_OPTIONAL \<and> (size_offset f \<noteq> 0 \<or> ptr f = 0)) \<and>
     (PB_LTYPE (ftype f) = PB_LTYPE_BYTES \<longrightarrow> 4 \<le> unat (data_size f)) \<and>
     (PB_LTYPE (ftype f) = PB_LTYPE_STRING \<longrightarrow> 0 < unat (data_size f)) \<and>
     unat (tag f) < 2 ^ 29"

text \<open>The storage of a field: its data, and its presence flag.\<close>

definition field_region :: "pb_field list \<Rightarrow> addr \<Rightarrow> nat \<Rightarrow> addr set" where
  "field_region fs dest k = arange (dest + field_offset fs k) (unat (data_size (fs ! k))) \<union>
     (if flagged fs k then arange (dest + size_field_offset fs k) 1 else {})"

definition simple_table :: "pb_field list \<Rightarrow> bool" where
  "simple_table fs \<longleftrightarrow> fields_ok fs \<and>
     (\<forall>k < n_fields fs. simple_field (fs ! k) \<and>
        size_field_offset fs k = field_offset fs k + sint (size_offset (fs ! k)) \<and>
        (flagged fs k \<longrightarrow> arange (field_offset fs k) (unat (data_size (fs ! k))) \<inter>
           arange (size_field_offset fs k) 1 = {}) \<and>
        (\<forall>j < k. tag (fs ! j) \<noteq> tag (fs ! k) \<and> field_region fs 0 j \<inter> field_region fs 0 k = {}))"

text \<open>Two structures agree on a field: on its flag, and on its content when it is present.\<close>

definition same_field :: "mem \<Rightarrow> addr \<Rightarrow> mem \<Rightarrow> addr \<Rightarrow> pb_field list \<Rightarrow> nat \<Rightarrow> bool" where
  "same_field m0 src m dest fs k \<longleftrightarrow>
     (flagged fs k \<longrightarrow> mem_bool m (dest + size_field_offset fs k) = mem_bool m0 (src + size_field_offset fs k)) \<and>
     (flagged fs k \<and> mem_bool m0 (src + size_field_offset fs k) = Some False \<or>
      field_content m (fs ! k) (dest + field_offset fs k) =
        field_content m0 (fs ! k) (src + field_offset fs k))"

text \<open>The state of a field after the default values were set.\<close>

definition reset_field :: "mem \<Rightarrow> addr \<Rightarrow> pb_field list \<Rightarrow> nat \<Rightarrow> bool" where
  "reset_field m dest fs k \<longleftrightarrow>
     (if flagged fs k then mem_bool m (dest + size_field_offset fs k) = Some False
      else PB_HTYPE (ftype (fs ! k)) = PB_HTYPE_OPTIONAL \<longrightarrow>
        mload m (dest + field_offset fs k) (unat (data_size (fs ! k))) =
          Some (replicate (unat (data_size (fs ! k))) 0))"

text \<open>The source has a terminator in every string that is encoded.\<close>

definition content_ok :: "mem \<Rightarrow> addr \<Rightarrow> pb_field list \<Rightarrow> bool" where
  "content_ok m0 src fs \<longleftrightarrow> (\<forall>k < n_fields fs.
     flagged fs k \<and> mem_bool m0 (src + size_field_offset fs k) = Some False \<or>
     field_content m0 (fs ! k) (src + field_offset fs k) \<noteq> None)"

section \<open>Content of a field\<close>

lemma strnlen_reloc:
  "strnlen_loop m a mx k = Some n \<Longrightarrow> n < mx \<Longrightarrow> (\<And>i. i \<le> n - k \<Longrightarrow> mget m' (a' + int i) = mget m (a + int i)) \<Longrightarrow>
     strnlen_loop m' a' mx k = Some n"
proof (induction m a mx k arbitrary: a' rule: strnlen_loop.induct)
  case (1 m a mx k)
  have kn: "k \<le> n" using strnlen_stop [OF 1(2)] by blast
  with 1(3) have kmx: "k < mx" by simp
  have here: "mget m' a' = mget m a" using 1(4) [of 0] by simp
  obtain b where b: "mget m a = Some b"
    using 1(2) kmx by (subst (asm) strnlen_loop.simps) (auto split: option.splits)
  show ?case
  proof (cases "b = 0")
    case True
    with 1(2) b kmx have "n = k" by (subst (asm) strnlen_loop.simps) simp
    with True b here kmx show ?thesis by (subst strnlen_loop.simps) simp
  next
    case False
    with 1(2) b kmx have s: "strnlen_loop m (a + 1) mx (Suc k) = Some n"
      by (subst (asm) strnlen_loop.simps) simp
    have "strnlen_loop m' (a' + 1) mx (Suc k) = Some n"
    proof (rule 1(1) [OF kmx b False s 1(3)])
      fix i assume "i \<le> n - Suc k"
      moreover have "Suc k \<le> n" using strnlen_stop [OF s] by blast
      ultimately have "Suc i \<le> n - k" by simp
      from 1(4) [OF this] show "mget m' (a' + 1 + int i) = mget m (a + 1 + int i)"
        by (simp add: add.commute add.left_commute)
    qed
    with False b here kmx show ?thesis by (subst strnlen_loop.simps) simp
  qed
qed

lemma mload_prefix:
  "mload m a n = Some bs \<Longrightarrow> k \<le> n \<Longrightarrow> mload m a k = Some (take k bs)"
proof -
  assume ld: "mload m a n = Some bs" and k: "k \<le> n"
  have "mload m a (k + (n - k)) = Some bs" using ld k by simp
  then obtain xs ys where "mload m a k = Some xs" "bs = xs @ ys"
    by (auto simp: mload_add split: option.splits)
  then show ?thesis using mload_length by fastforce
qed

text \<open>The content is a function of the bytes it reads.\<close>

lemma content_reloc:
  assumes c: "field_content m f a = Some out" and ld: "mload m' a' (length out) = Some out"
  shows "field_content m' f a' = Some out"
proof -
  let ?lt = "PB_LTYPE (ftype f)"
  consider "?lt = PB_LTYPE_BYTES" | "?lt = PB_LTYPE_STRING"
    | "?lt \<noteq> PB_LTYPE_BYTES" "?lt \<noteq> PB_LTYPE_STRING" by blast
  then show ?thesis
  proof cases
    case 1
    with c obtain n where n: "mem_u32 m a = Some n" and o: "mload m a (4 + unat n) = Some out"
      by (auto simp: field_content_def bind_eq_Some_conv)
    have l: "length out = 4 + unat n" by (rule mload_length [OF o])
    have "mload m' a' 4 = mload m a 4"
      using mload_prefix [OF o, of 4] mload_prefix [OF ld, of 4] l by simp
    then have "mem_u32 m' a' = Some n" using n by (simp add: mem_u32_def)
    with 1 ld l show ?thesis by (simp add: field_content_def)
  next
    case 2
    with c obtain n where n: "strnlen_loop m a (unat (data_size f)) 0 = Some n" "n < unat (data_size f)"
      and o: "mload m a (n + 1) = Some out"
      by (auto simp: field_content_def bind_eq_Some_conv split: if_splits simp del: mload.simps)
    have l: "length out = n + 1" by (rule mload_length [OF o])
    have "strnlen_loop m' a' (unat (data_size f)) 0 = Some n"
      using mload_nth [OF o] mload_nth [OF ld] l by (intro strnlen_reloc [OF n]) simp
    with 2 ld l n(2) show ?thesis by (simp add: field_content_def del: mload.simps)
  next
    case 3
    with c have "mload m a (if ?lt = PB_LTYPE_FIXED32 then 4 else if ?lt = PB_LTYPE_FIXED64 then 8
        else unat (data_size f)) = Some out"
      by (simp add: field_content_def Let_def split: if_splits)
    then have "length out = (if ?lt = PB_LTYPE_FIXED32 then 4 else if ?lt = PB_LTYPE_FIXED64 then 8
        else unat (data_size f))"
      by (rule mload_length)
    with 3 ld show ?thesis by (auto simp: field_content_def Let_def split: if_splits)
  qed
qed

lemma wire_value_ltype:
  assumes "wire_value E sub m f a = Some bs"
  shows "PB_LTYPE (ftype f) \<le> PB_LTYPE_FIXED_LENGTH_BYTES" "PB_LTYPE (ftype f) \<noteq> PB_LTYPE_EXTENSION"
  using assms by (auto simp: wire_value_def Let_def split: if_splits)

lemma content_length:
  assumes w: "wire_value E sub m f a = Some bs" and c: "field_content m f a = Some out"
    and st: "PB_ATYPE (ftype f) = PB_ATYPE_STATIC" and a: "a \<noteq> 0" and dok: "data_ok E D P f"
  shows "length out \<le> unat (data_size f)"
proof -
  let ?lt = "PB_LTYPE (ftype f)"
  consider "?lt = PB_LTYPE_BYTES" | "?lt = PB_LTYPE_STRING" | "?lt = PB_LTYPE_FIXED32" | "?lt = PB_LTYPE_FIXED64"
    | "?lt \<notin> {PB_LTYPE_BYTES, PB_LTYPE_STRING, PB_LTYPE_FIXED32, PB_LTYPE_FIXED64}" by blast
  then show ?thesis
  proof cases
    case 1
    from 1 w have "wire_bytes m f a = Some bs" by (simp add: wire_value_def)
    moreover from 1 c have "Option.bind (mem_u32 m a) (\<lambda>n. mload m a (4 + unat n)) = Some out"
      by (simp add: field_content_def)
    ultimately show ?thesis using content_bytes [OF _ a st] by fastforce
  next
    case 2
    from 2 w have "wire_cstring m f a = Some bs" by (simp add: wire_value_def)
    moreover from 2 c have "Option.bind (strnlen_loop m a (unat (data_size f)) 0) (\<lambda>n.
          if n < unat (data_size f) then mload m a (n + 1) else None) = Some out"
      by (simp add: field_content_def)
    ultimately show ?thesis using content_cstring [OF _ a st] by fastforce
  next
    case 3
    with c dok show ?thesis
      using mload_length [of m a 4 out] by (simp add: field_content_def data_ok_def Let_def)
  next
    case 4
    with c dok show ?thesis
      using mload_length [of m a 8 out] by (simp add: field_content_def data_ok_def Let_def)
  next
    case 5
    with c show ?thesis
      using mload_length [of m a "unat (data_size f)" out] by (simp add: field_content_def Let_def)
  qed
qed

lemma sint_eq_0: "sint (w :: 'a::len word) = 0 \<longleftrightarrow> w = 0"
  by (metis signed_0 signed_word_eqI)

section \<open>Finding a field\<close>

lemma find_field:
  assumes tab: "simple_table fs" and k: "k < n_fields fs" and j: "pos_ok fs j"
    and ext: "PB_LTYPE (ftype (fs ! k)) \<noteq> PB_LTYPE_EXTENSION"
  shows "pb_field_iter_find (iter_at fs dest j) (tag (fs ! k)) = Some (True, iter_at fs dest k)"
proof -
  have ok: "fields_ok fs" using tab by (simp add: simple_table_def)
  let ?p = "tag_matches (tag (fs ! k))"
  have pk: "?p (fs ! k)" using ext by (simp add: tag_matches_def)
  have jn: "j < n_fields fs" using j k by (auto simp: pos_ok_def)
  from search_all [OF ok jn, of ?p dest] obtain b i where
    find: "iter_search_loop ?p j (iter_at fs dest j) = Some (b, iter_at fs dest i)" and i: "i < n_fields fs"
    and b: "b \<longrightarrow> ?p (fs ! i)" "\<not> b \<longrightarrow> (\<forall>i < n_fields fs. \<not> ?p (fs ! i))" by blast
  with pk k have "b" by blast
  with b have "tag (fs ! i) = tag (fs ! k)" by (simp add: tag_matches_def)
  then have "i = k"
    using tab i k unfolding simple_table_def by (metis linorder_neqE_nat)
  with find \<open>b\<close> show ?thesis by (simp add: pb_field_iter_find_def)
qed

section \<open>One field\<close>

lemma arange_shift: "x + d \<in> arange (d + a) n \<longleftrightarrow> x \<in> arange a n"
  by (auto simp: arange_def)

lemma arange_shift_disj: "arange (d + a) n \<inter> arange (d + b) k = {} \<longleftrightarrow> arange a n \<inter> arange b k = {}"
  by (metis (no_types, opaque_lifting) Int_iff arange_shift diff_add_cancel empty_iff equals0I)

text \<open>What decoding one item does to the memory: the flag first, then the data.\<close>

lemma stores_simple_field:
  assumes tab: "simple_table fs" and k: "k < n_fields fs" and src: "src + field_offset fs k \<noteq> 0"
    and w: "wire_value E sub m0 (fs ! k) (src + field_offset fs k) = Some vb"
    and c: "field_content m0 (fs ! k) (src + field_offset fs k) = Some out"
    and nb: "next_bytes s m vb"
    and dj: "arange (in_state s) (length vb) \<inter> field_region fs dest k = {}"
    and len: "length out \<le> unat (data_size (fs ! k))"
    and v: "field_region fs dest k \<subseteq> mdom m"
  shows "\<exists>m'. decode_field E d dsub wt (iter_at fs dest k) s m = Some (Ok (), eat (length vb) s, m') \<and>
     mdom m' = mdom m \<and> magree (- field_region fs dest k) m m' \<and>
     mload m' (dest + field_offset fs k) (length out) = Some out \<and>
     (flagged fs k \<longrightarrow> mem_bool m' (dest + size_field_offset fs k) = Some True)"
proof -
  let ?f = "fs ! k" and ?a = "dest + field_offset fs k" and ?q = "dest + size_field_offset fs k"
  let ?func = "PB_DECODERS E dsub (PB_LTYPE (ftype ?f))"
  from tab k have sf: "simple_field ?f" and so: "size_field_offset fs k = field_offset fs k + sint (size_offset ?f)"
    by (simp_all add: simple_table_def)
  from sf have st: "PB_ATYPE (ftype ?f) = PB_ATYPE_STATIC" and ns: "PB_LTYPE (ftype ?f) \<noteq> PB_LTYPE_SUBMESSAGE"
    and ht: "PB_HTYPE (ftype ?f) = PB_HTYPE_REQUIRED \<or> PB_HTYPE (ftype ?f) = PB_HTYPE_OPTIONAL"
    by (auto simp: simple_field_def)
  have lt: "\<not> PB_LTYPE (ftype ?f) > PB_LTYPE_FIXED_LENGTH_BYTES"
    using wire_value_ltype [OF w] by (simp add: not_less)
  have func: "stores (?func ?f ?a) vb ?a out"
    by (rule stores_value [OF st ns src w c])
  have sub: "arange ?a (length out) \<subseteq> field_region fs dest k"
    using arange_shorter [OF order_refl len, of ?a] by (auto simp: field_region_def)
  let ?pre = "if ?q \<noteq> ?a \<and> PB_HTYPE (ftype ?f) = PB_HTYPE_OPTIONAL then store_bool ?q True else cret ()"
  have code: "decode_field E d dsub wt (iter_at fs dest k) = cbind ?pre (\<lambda>_. ?func ?f ?a)"
    using st ht lt by (auto simp: decode_field_def decode_static_field_def Let_def)
  have fl: "flagged fs k \<longleftrightarrow> ?q \<noteq> ?a \<and> PB_HTYPE (ftype ?f) = PB_HTYPE_OPTIONAL"
  proof -
    have "sint (size_offset ?f) = 0 \<longleftrightarrow> size_offset ?f = 0" by (rule sint_eq_0)
    then show ?thesis using so by (auto simp: flagged_def)
  qed
  have pre: "\<exists>m1. ?pre s m = Some (Ok (), s, m1) \<and> mdom m1 = mdom m \<and> magree (- field_region fs dest k) m m1 \<and>
      (flagged fs k \<longrightarrow> mem_bool m1 ?q = Some True) \<and> next_bytes s m1 vb"
  proof (cases "flagged fs k")
    case False
    with fl have "\<not> (?q \<noteq> ?a \<and> PB_HTYPE (ftype ?f) = PB_HTYPE_OPTIONAL)" by blast
    with False nb show ?thesis by (simp only: if_False cret_def) simp
  next
    case True
    then have q: "arange ?q 1 \<subseteq> field_region fs dest k" by (auto simp: field_region_def)
    with v have "mvalid m ?q (length [1 :: byte])" by (simp add: mvalid_def)
    then obtain m1 where m1: "mstore m ?q [1] = Some m1" using mstore_valid by blast
    have "mload m1 ?q 1 = Some [1]" using mload_mstore [OF m1] by simp
    then have "mem_bool m1 ?q = Some True" by (simp add: mem_bool_def del: mload.simps)
    moreover have "next_bytes s m1 vb"
      using dj q by (intro next_bytes_mstore [OF nb _ m1]) auto
    moreover have "magree (- field_region fs dest k) m m1"
      using q by (intro mstore_magree [OF m1]) auto
    ultimately show ?thesis
      using True fl m1 mstore_dom [OF m1]
      by (simp add: store_bool_def store_nat_def cstore_def del: mstore.simps)
  qed
  then obtain m1 where m1: "?pre s m = Some (Ok (), s, m1)" "mdom m1 = mdom m"
    "magree (- field_region fs dest k) m m1" "flagged fs k \<longrightarrow> mem_bool m1 ?q = Some True" "next_bytes s m1 vb"
    by blast
  have "mvalid m1 ?a (length out)" using v sub m1(2) by (auto simp: mvalid_def)
  then obtain m2 where m2: "mstore m1 ?a out = Some m2" using mstore_valid by blast
  have run: "?func ?f ?a s m1 = Some (Ok (), eat (length vb) s, m2)"
    using dj sub by (intro storesD [OF func m1(5) _ m2]) auto
  have flag: "mem_bool m2 ?q = Some True" if "flagged fs k"
  proof -
    have "arange (field_offset fs k) (unat (data_size ?f)) \<inter> arange (size_field_offset fs k) 1 = {}"
      using tab k that unfolding simple_table_def by blast
    then have "arange ?a (unat (data_size ?f)) \<inter> arange ?q 1 = {}"
      by (simp only: arange_shift_disj)
    then have "arange ?a (length out) \<inter> arange ?q 1 = {}"
      using arange_shorter [OF order_refl len, of ?a] by blast
    from mload_mstore_disj [OF m2 this] m1(4) that show ?thesis by (simp add: mem_bool_def del: mload.simps)
  qed
  have "magree (- field_region fs dest k) m1 m2"
    using sub by (intro mstore_magree [OF m2]) auto
  with m1(1-3) run flag mload_mstore [OF m2] mstore_dom [OF m2] show ?thesis
    unfolding code by (auto simp: cbind_Ok intro: magree_trans)
qed

section \<open>Default values\<close>

lemma reset_simple_field:
  assumes tab: "simple_table fs" and k: "k < n_fields fs" and dok: "data_ok E (mdom m) P (fs ! k)"
    and v: "field_region fs dest k \<subseteq> mdom m"
  shows "\<exists>m'. field_default_with E fdef (iter_at fs dest k) s m = Some (Ok (), s, m') \<and>
     mdom m' = mdom m \<and> magree (- field_region fs dest k) m m' \<and> reset_field m' dest fs k"
proof -
  let ?f = "fs ! k" and ?a = "dest + field_offset fs k" and ?q = "dest + size_field_offset fs k"
  let ?n = "unat (data_size ?f)"
  from tab k have sf: "simple_field ?f" and so: "size_field_offset fs k = field_offset fs k + sint (size_offset ?f)"
    by (simp_all add: simple_table_def)
  from sf have st: "PB_ATYPE (ftype ?f) = PB_ATYPE_STATIC" and ns: "PB_LTYPE (ftype ?f) \<noteq> PB_LTYPE_SUBMESSAGE"
    and ht: "PB_HTYPE (ftype ?f) = PB_HTYPE_REQUIRED \<or>
      PB_HTYPE (ftype ?f) = PB_HTYPE_OPTIONAL \<and> (size_offset ?f \<noteq> 0 \<or> ptr ?f = 0)"
    by (auto simp: simple_field_def)
  have ext: "PB_LTYPE (ftype ?f) \<noteq> PB_LTYPE_EXTENSION" using dok by (simp add: data_ok_def Let_def)
  have "sint (size_offset ?f) = 0 \<longleftrightarrow> size_offset ?f = 0" by (rule sint_eq_0)
  then have fl: "flagged fs k \<longleftrightarrow> ?q \<noteq> ?a \<and> PB_HTYPE (ftype ?f) = PB_HTYPE_OPTIONAL"
    using so by (auto simp: flagged_def)
  let ?init = "if ptr ?f \<noteq> 0 then ccopy ?a (ptr ?f) ?n else memset0 ?a ?n"
  have code: "field_default_with E fdef (iter_at fs dest k) =
     cbind (if flagged fs k then store_bool ?q False else cret ()) (\<lambda>_. ?init)"
    using st ns ext ht fl by (auto simp: field_default_with_def Let_def cbind_assoc)
  have pre: "\<exists>m1. (if flagged fs k then store_bool ?q False else cret ()) s m = Some (Ok (), s, m1) \<and>
      mdom m1 = mdom m \<and> magree (- field_region fs dest k) m m1 \<and> (flagged fs k \<longrightarrow> mem_bool m1 ?q = Some False)"
  proof (cases "flagged fs k")
    case False
    then show ?thesis by (simp add: cret_def)
  next
    case True
    then have q: "arange ?q 1 \<subseteq> field_region fs dest k" by (auto simp: field_region_def)
    with v have "mvalid m ?q (length [0 :: byte])" by (simp add: mvalid_def)
    then obtain m1 where m1: "mstore m ?q [0] = Some m1" using mstore_valid by blast
    have "mload m1 ?q 1 = Some [0]" using mload_mstore [OF m1] by simp
    then have "mem_bool m1 ?q = Some False" by (simp add: mem_bool_def del: mload.simps)
    moreover have "magree (- field_region fs dest k) m m1"
      using q by (intro mstore_magree [OF m1]) auto
    ultimately show ?thesis
      using True m1 mstore_dom [OF m1]
      by (simp add: store_bool_def store_nat_def cstore_def del: mstore.simps)
  qed
  then obtain m1 where m1: "(if flagged fs k then store_bool ?q False else cret ()) s m = Some (Ok (), s, m1)"
    "mdom m1 = mdom m" "magree (- field_region fs dest k) m m1" "flagged fs k \<longrightarrow> mem_bool m1 ?q = Some False"
    by blast
  have da: "arange ?a ?n \<subseteq> field_region fs dest k" by (auto simp: field_region_def)
  have va: "mvalid m1 ?a ?n" using v da m1(2) by (auto simp: mvalid_def)
  have "\<exists>m2. ?init s m1 = Some (Ok (), s, m2) \<and> mdom m2 = mdom m1 \<and> (\<forall>x. x \<notin> arange ?a ?n \<longrightarrow> mget m2 x = mget m1 x) \<and>
      (ptr ?f = 0 \<longrightarrow> mload m2 ?a ?n = Some (replicate ?n 0))"
  proof (cases "ptr ?f = 0")
    case True
    from va obtain m2 where m2: "mstore m1 ?a (replicate ?n 0) = Some m2"
      using mstore_valid [of m1 ?a "replicate ?n 0"] by auto
    with True show ?thesis
      using mload_mstore [OF m2] mstore_dom [OF m2] mstore_frame [OF m2] by (simp add: memset0_def cstore_def)
  next
    case False
    then have "mvalid m1 (ptr ?f) ?n" using dok ns m1(2) by (simp add: data_ok_def Let_def mvalid_def)
    from mcopy_valid [OF va this] False show ?thesis by (auto simp: ccopy_def)
  qed
  then obtain m2 where m2: "?init s m1 = Some (Ok (), s, m2)" "mdom m2 = mdom m1"
    "\<And>x. x \<notin> arange ?a ?n \<Longrightarrow> mget m2 x = mget m1 x"
    "ptr ?f = 0 \<Longrightarrow> mload m2 ?a ?n = Some (replicate ?n 0)" by blast
  have ag: "magree (- field_region fs dest k) m1 m2"
    unfolding magree_def
  proof
    fix x assume "x \<in> - field_region fs dest k"
    with da have "x \<notin> arange ?a ?n" by blast
    then show "mget m1 x = mget m2 x" by (simp add: m2(3))
  qed
  have "reset_field m2 dest fs k"
  proof (cases "flagged fs k")
    case True
    have "arange (field_offset fs k) ?n \<inter> arange (size_field_offset fs k) 1 = {}"
      using tab k True unfolding simple_table_def by blast
    then have "arange ?a ?n \<inter> arange ?q 1 = {}" by (simp only: arange_shift_disj)
    then have "magree (arange ?q 1) m1 m2" unfolding magree_def by (metis m2(3) disjoint_iff)
    from mload_cong [OF this] m1(4) True show ?thesis
      by (simp add: reset_field_def mem_bool_def del: mload.simps)
  next
    case False
    with ht m2(4) show ?thesis by (auto simp: reset_field_def flagged_def)
  qed
  with m1 m2 ag show ?thesis
    unfolding code by (auto simp: cbind_Ok intro: magree_trans)
qed

text \<open>Properties of one field depend on its storage only.\<close>

lemma reset_field_cong:
  assumes "magree (field_region fs dest k) m m'"
  shows "reset_field m dest fs k = reset_field m' dest fs k"
proof -
  have 1: "magree (arange (dest + field_offset fs k) (unat (data_size (fs ! k)))) m m'"
    using assms by (auto simp: magree_def field_region_def)
  have 2: "magree (arange (dest + size_field_offset fs k) 1) m m'" if "flagged fs k"
    using assms that by (auto simp: magree_def field_region_def)
  from mload_cong [OF 1] mload_cong [OF 2] show ?thesis
    by (auto simp: reset_field_def mem_bool_def simp del: mload.simps)
qed

lemma region_shift: "field_region fs dest k = (\<lambda>x. x + dest) ` field_region fs 0 k"
proof -
  have "arange (dest + a) n = (\<lambda>x. x + dest) ` arange a n" for a n
    unfolding arange_def by (simp add: image_add_atLeastLessThan' algebra_simps)
  then show ?thesis by (simp add: field_region_def image_Un)
qed

lemma regions_disjoint:
  assumes "simple_table fs" "j < n_fields fs" "k < n_fields fs" "j \<noteq> k"
  shows "field_region fs dest j \<inter> field_region fs dest k = {}"
proof -
  have "field_region fs 0 j \<inter> field_region fs 0 k = {}"
    using assms unfolding simple_table_def by (metis Int_commute linorder_neqE_nat)
  then show ?thesis
    unfolding region_shift [of fs dest] by (auto simp: image_iff)
qed

lemma reset_all:
  assumes tab: "simple_table fs"
    and dok: "\<And>k. k < n_fields fs \<Longrightarrow> data_ok E (mdom m) P (fs ! k)"
    and v: "\<And>k. k < n_fields fs \<Longrightarrow> field_region fs dest k \<subseteq> mdom m"
  shows "j < n_fields fs \<Longrightarrow> mdom m1 = mdom m \<Longrightarrow>
     magree (- (\<Union>k < n_fields fs. field_region fs dest k)) m m1 \<Longrightarrow>
     (\<And>i. i < j \<Longrightarrow> reset_field m1 dest fs i) \<Longrightarrow>
     \<exists>m'. iter_loop (field_default_with E fdef) (iter_at fs dest j) s m1 = Some (Ok (), s, m') \<and>
       mdom m' = mdom m \<and> magree (- (\<Union>k < n_fields fs. field_region fs dest k)) m m' \<and>
       (\<forall>k < n_fields fs. reset_field m' dest fs k)"
proof (induction "n_fields fs - j" arbitrary: j m1)
  case 0
  then show ?case by simp
next
  case (Suc x)
  have ok: "fields_ok fs" using tab by (simp add: simple_table_def)
  from reset_simple_field [OF tab Suc.prems(1), of E m1 P dest fdef s] obtain m2 where
    m2: "field_default_with E fdef (iter_at fs dest j) s m1 = Some (Ok (), s, m2)" "mdom m2 = mdom m"
      "magree (- field_region fs dest j) m1 m2" "reset_field m2 dest fs j"
    using dok [OF Suc.prems(1)] v [OF Suc.prems(1)] Suc.prems(2) by auto
  have ag: "magree (- (\<Union>k < n_fields fs. field_region fs dest k)) m m2"
    using Suc.prems(1,3) m2(3) by (auto intro: magree_trans magree_mono)
  have res: "reset_field m2 dest fs i" if "i < Suc j" for i
  proof (cases "i = j")
    case False
    with that have i: "i < j" by simp
    have "field_region fs dest i \<inter> field_region fs dest j = {}"
      using i Suc.prems(1) by (intro regions_disjoint [OF tab]) auto
    then have "magree (field_region fs dest i) m1 m2"
      by (intro magree_mono [OF m2(3)]) auto
    from reset_field_cong [OF this] Suc.prems(4) [OF i] show ?thesis by simp
  qed (use m2(4) in simp)
  show ?case
  proof (cases "Suc j < n_fields fs")
    case True
    have "\<exists>m'. iter_loop (field_default_with E fdef) (iter_at fs dest (Suc j)) s m2 = Some (Ok (), s, m') \<and>
       mdom m' = mdom m \<and> magree (- (\<Union>k < n_fields fs. field_region fs dest k)) m m' \<and>
       (\<forall>k < n_fields fs. reset_field m' dest fs k)"
      using Suc.hyps True m2(2) ag res by (intro Suc.hyps(1)) auto
    with True m2(1) show ?thesis
      unfolding iter_loop_at [OF ok Suc.prems(1)] by (simp add: cbind_Ok)
  next
    case False
    with Suc.prems(1) have "n_fields fs = Suc j" by simp
    with m2 ag res show ?thesis
      unfolding iter_loop_at [OF ok Suc.prems(1)] by (simp add: cbind_Ok cret_def)
  qed
qed

section \<open>Default contents\<close>

lemma all_zero_mload: "all_zero m a n = Some True \<Longrightarrow> mload m a n = Some (replicate n 0)"
  by (induction n arbitrary: a) (auto split: option.splits if_splits)

definition zero_width :: "pb_field \<Rightarrow> nat" where
  "zero_width f = (let lt = PB_LTYPE (ftype f) in
     if lt = PB_LTYPE_FIXED32 \<or> lt = PB_LTYPE_BYTES then 4
     else if lt = PB_LTYPE_FIXED64 then 8
     else if lt = PB_LTYPE_STRING then 1 else unat (data_size f))"

lemma le_val_zeros [simp]: "le_val (replicate n 0) = 0"
  by (induction n) auto

lemma le_val_0: "le_val bs = 0 \<Longrightarrow> bs = replicate (length bs) 0"
  by (induction bs) (auto simp: unat_eq_zero)

lemma zero_content:
  assumes z: "mload m a (zero_width f) = Some (replicate (zero_width f) 0)" and sf: "simple_field f"
  shows "field_content m f a = Some (replicate (zero_width f) 0)"
proof -
  let ?lt = "PB_LTYPE (ftype f)"
  consider "?lt = PB_LTYPE_BYTES" | "?lt = PB_LTYPE_STRING"
    | "?lt \<noteq> PB_LTYPE_BYTES" "?lt \<noteq> PB_LTYPE_STRING" by blast
  then show ?thesis
  proof cases
    case 1
    then have w: "zero_width f = 4" by (simp add: zero_width_def)
    with z have "mem_u32 m a = Some 0" by (simp add: mem_u32_def)
    with 1 z w show ?thesis by (simp add: field_content_def)
  next
    case 2
    then have w: "zero_width f = 1" by (simp add: zero_width_def)
    have "0 < unat (data_size f)" using sf 2 by (simp add: simple_field_def)
    moreover have "mget m a = Some 0" using mload_nth [OF z, of 0] w by simp
    ultimately have "strnlen_loop m a (unat (data_size f)) 0 = Some 0"
      by (subst strnlen_loop.simps) simp
    with 2 z w \<open>0 < unat (data_size f)\<close> show ?thesis by (simp add: field_content_def del: mload.simps)
  next
    case 3
    with z show ?thesis by (auto simp: field_content_def zero_width_def Let_def)
  qed
qed

lemma default_zero:
  assumes d: "is_default E d m f a = Some True" and sf: "simple_field f" and dok: "data_ok E D P f"
  shows "mload m a (zero_width f) = Some (replicate (zero_width f) 0)"
proof -
  let ?lt = "PB_LTYPE (ftype f)"
  from sf have st: "PB_ATYPE (ftype f) = PB_ATYPE_STATIC" and ns: "?lt \<noteq> PB_LTYPE_SUBMESSAGE"
    by (simp_all add: simple_field_def)
  obtain d' where d': "d = Suc d'" using d by (cases d) auto
  have conv: "mload m a n = Some (replicate n 0)" if "mload m a n = Some bs" "le_val bs = 0" for n bs
    using le_val_0 [OF that(2)] mload_length [OF that(1)] that(1) by simp
  have word0: "le_val bs = 0" if "mload m a 4 = Some bs" "(word_of_nat (le_val bs) :: u32) = 0" for bs
    using unat_le_val [OF that(1), where 'a = 32] that(2) by simp
  consider "?lt = PB_LTYPE_BYTES" | "?lt = PB_LTYPE_STRING" | "?lt = PB_LTYPE_FIXED_LENGTH_BYTES"
    | "?lt \<noteq> PB_LTYPE_BYTES" "?lt \<noteq> PB_LTYPE_STRING" "?lt \<noteq> PB_LTYPE_FIXED_LENGTH_BYTES" by blast
  then show ?thesis
  proof cases
    case 1
    with d d' st obtain bs where "mload m a 4 = Some bs" "(word_of_nat (le_val bs) :: u32) = 0"
      by (auto simp: mem_u32_def)
    with conv word0 1 show ?thesis by (simp add: zero_width_def)
  next
    case 2
    with d d' st obtain bs where "mload m a 1 = Some bs" "le_val bs = 0" by auto
    from conv [OF this] 2 show ?thesis by (simp add: zero_width_def)
  next
    case 3
    with d d' st have "data_size f = 0" by simp
    with 3 show ?thesis by (simp add: zero_width_def)
  next
    case 4
    with d d' st ns have "all_zero m a (unat (data_size f)) = Some True" by simp
    from all_zero_mload [OF this] have ld: "mload m a (unat (data_size f)) = Some (replicate (unat (data_size f)) 0)" .
    have "zero_width f \<le> unat (data_size f)"
      using 4 dok by (simp add: zero_width_def data_ok_def Let_def)
    from mload_prefix [OF ld this] this show ?thesis by simp
  qed
qed

lemma zero_width_le: "simple_field f \<Longrightarrow> data_ok E D P f \<Longrightarrow> zero_width f \<le> unat (data_size f)"
  by (auto simp: zero_width_def data_ok_def simple_field_def Let_def)

lemma default_content:
  assumes d: "is_default E d m0 f a0 = Some True" and sf: "simple_field f" and dok: "data_ok E D P f"
    and z: "mload m a (unat (data_size f)) = Some (replicate (unat (data_size f)) 0)"
  shows "field_content m f a = field_content m0 f a0"
proof -
  have "mload m a (zero_width f) = Some (replicate (zero_width f) 0)"
    using mload_prefix [OF z zero_width_le [OF sf dok]] zero_width_le [OF sf dok] by simp
  with zero_content [OF _ sf] default_zero [OF d sf dok] show ?thesis by simp
qed

section \<open>The items of a message\<close>

lemma simple_item:
  assumes tab: "simple_table fs" and k: "k < n_fields fs"
    and w: "wire_field E cb d sub m0 (fs ! k) (src + field_offset fs k) = Some bs"
  obtains (present) wt vb where "wire_type_of (PB_LTYPE (ftype (fs ! k))) = Some wt"
      "wire_value E sub m0 (fs ! k) (src + field_offset fs k) = Some vb"
      "bs = wire_tag wt (tag (fs ! k)) @ vb"
      "flagged fs k \<longrightarrow> mem_bool m0 (src + size_field_offset fs k) = Some True"
  | (absent) "bs = []" "PB_HTYPE (ftype (fs ! k)) = PB_HTYPE_OPTIONAL"
      "flagged fs k \<longrightarrow> mem_bool m0 (src + size_field_offset fs k) = Some False"
      "\<not> flagged fs k \<longrightarrow> is_default E d m0 (fs ! k) (src + field_offset fs k) = Some True"
proof -
  let ?f = "fs ! k" and ?a = "src + field_offset fs k"
  from tab k have sf: "simple_field ?f" and so: "size_field_offset fs k = field_offset fs k + sint (size_offset ?f)"
    by (simp_all add: simple_table_def)
  from sf have st: "PB_ATYPE (ftype ?f) = PB_ATYPE_STATIC" by (simp add: simple_field_def)
  from so have sp: "src + size_field_offset fs k = ?a + sint (size_offset ?f)" by simp
  have wb: "wire_basic E d sub m0 ?f ?a = Some bs" using w st by (simp add: wire_field_def)
  have item: thesis if "wire_item E sub m0 ?f ?a = Some bs"
      "flagged fs k \<longrightarrow> mem_bool m0 (src + size_field_offset fs k) = Some True"
    using that present by (auto simp: wire_item_def opt_app_def split: option.splits)
  show thesis
  proof (cases "PB_HTYPE (ftype ?f) = PB_HTYPE_REQUIRED")
    case True
    then have "\<not> flagged fs k" by (simp add: flagged_def)
    with True wb st show thesis
      by (intro item) (auto simp: wire_basic_def Let_def split: if_splits)
  next
    case False
    with sf have opt: "PB_HTYPE (ftype ?f) = PB_HTYPE_OPTIONAL" by (auto simp: simple_field_def)
    show thesis
    proof (cases "flagged fs k")
      case True
      then have so0: "size_offset ?f \<noteq> 0" by (simp add: flagged_def)
      from wb st opt so0 obtain b where b: "mem_bool m0 (src + size_field_offset fs k) = Some b"
        and e: "(if b then wire_item E sub m0 ?f ?a else Some []) = Some bs"
        unfolding sp by (auto simp: wire_basic_def Let_def split: if_splits option.splits)
      with True opt show thesis by (cases b) (auto intro: item absent)
    next
      case False
      with opt have so0: "size_offset ?f = 0" by (simp add: flagged_def)
      from wb st opt so0 obtain b where b: "is_default E d m0 ?f ?a = Some b"
        and e: "(if \<not> b then wire_item E sub m0 ?f ?a else Some []) = Some bs"
        by (auto simp: wire_basic_def Let_def split: if_splits option.splits)
      with False opt show thesis by (cases b) (auto intro: item absent)
    qed
  qed
qed

section \<open>The set of required fields seen\<close>

text \<open>After \<open>r\<close> required fields in order: the low \<open>r\<close> bits of the two words.\<close>

definition seen_words :: "nat \<Rightarrow> u32 list" where
  "seen_words r = [mask (min r 32), mask (r - 32)]"

lemma mask_next: "(mask r :: 'a::len word) OR 2 ^ r = mask (Suc r)"
  by (rule bit_word_eqI) (auto simp: bit_simps)

lemma mark_seen_words:
  assumes r: "required_before fs (n_fields fs) < 64" and k: "k < n_fields fs" and ok: "fields_ok fs"
    and req: "is_required (fs ! k)"
  shows "mark_seen (iter_at fs dest k) (seen_words (required_before fs k)) = seen_words (required_before fs (Suc k))"
proof -
  have len: "k < length fs" using k fields_ok_length [OF ok] by simp
  have Suc: "required_before fs (Suc k) = Suc (required_before fs k)"
    using req required_before_Suc [OF len] by simp
  moreover have "required_before fs (Suc k) \<le> required_before fs (n_fields fs)"
    using k by (intro required_before_mono) simp
  ultimately have r64: "required_before fs k < 63" using r by simp
  have req': "PB_HTYPE (ftype (fs ! k)) = PB_HTYPE_REQUIRED" using req by (simp add: is_required_def)
  show ?thesis
  proof (cases "required_before fs k < 32")
    case True
    with Suc req' show ?thesis
      by (simp add: mark_seen_def seen_words_def mask_next)
  next
    case False
    then obtain q where q: "required_before fs k = 32 + q" by (metis le_add_diff_inverse not_less)
    with r64 have "q < 32" by simp
    then have "(32 + q) div 32 = 1" "(32 + q) mod 32 = q" by auto
    with q Suc req' \<open>q < 32\<close> show ?thesis
      by (simp add: mark_seen_def seen_words_def mask_next Suc_diff_le)
  qed
qed

lemma mark_seen_other:
  assumes "\<not> is_required (fs ! k)" "k < n_fields fs" "fields_ok fs"
  shows "mark_seen (iter_at fs dest k) seen = seen" "required_before fs (Suc k) = required_before fs k"
  using assms fields_ok_length [of fs] required_before_Suc [of k fs]
  by (simp_all add: mark_seen_def is_required_def)

lemma check_seen_words:
  assumes "r = 0 \<or> (r < 64 \<and> r mod 32 \<noteq> 0)"
  shows "check_required (seen_words r) r s m = Some (Ok (), s, m)"
proof (cases "r = 0")
  case True
  then show ?thesis by (simp add: check_required_def cret_def)
next
  case False
  with assms have r: "r < 64" "r mod 32 \<noteq> 0" by auto
  have m: "mask n = (drop_bit (32 - n) allbits :: u32)" if "n \<le> 32" for n
    using that by (intro bit_word_eqI) (auto simp: bit_simps allbits_def)
  have all: "mask 32 = allbits" by (simp add: allbits_def mask_eq_exp_minus_1)
  show ?thesis
  proof (cases "r < 32")
    case True
    with r False m [of r] show ?thesis
      by (simp add: check_required_def seen_words_def cdef_def cret_def cbind_def)
  next
    case 1: False
    then obtain q where q: "r = 32 + q" by (metis le_add_diff_inverse not_less)
    with r have q2: "0 < q" "q < 32" by auto
    have "check_words (seen_words r) (Suc 0) = Some True" using q all by (simp add: seen_words_def)
    note this [simp]
    moreover have "r div 32 = Suc 0" "r mod 32 = q" using q q2 by auto
    moreover have "seen_words r ! Suc 0 = drop_bit (32 - q) allbits"
      using q q2 m [of q] by (simp add: seen_words_def)
    moreover have "length (seen_words r) = 2" by (simp add: seen_words_def)
    ultimately show ?thesis
      using False q2 by (simp add: check_required_def cdef_def cret_def cbind_def)
  qed
qed

section \<open>The decoding loop\<close>

lemma decode_loop_end:
  "bytes_left s = 0 \<Longrightarrow> decode_loop E d dsub it seen rs s m = Some (Ok (it, seen), s, m)"
  by (subst decode_loop.simps) (simp add: cret_def)

lemma decode_loop_known:
  assumes "bytes_left s \<noteq> 0" "pb_decode_tag E s m = Some (Ok (True, wt, t, eof), s1, m1)"
    and "pb_field_iter_find it t = Some (True, it')"
    and "decode_field E d dsub wt it' s1 m1 = Some (Ok (), s2, m2)"
  shows "decode_loop E d dsub it seen rs s m = decode_loop E d dsub it' (mark_seen it' seen) rs s2 m2"
  using assms by (subst decode_loop_unfold) (simp add: cbind_def cget_def cdef_def cret_def)

text \<open>The state before field \<open>k\<close>: everything before it is decoded, everything after it reset.\<close>

definition decoded :: "mem \<Rightarrow> addr \<Rightarrow> pb_field list \<Rightarrow> addr \<Rightarrow> nat \<Rightarrow> mem \<Rightarrow> bool" where
  "decoded m0 src fs dest k m \<longleftrightarrow> (\<forall>i < n_fields fs.
     if i < k then same_field m0 src m dest fs i else reset_field m dest fs i)"

lemma mload_self: "mload m a n = Some out \<Longrightarrow> mload m a (length out) = Some out"
  using mload_length by fastforce

lemma content_load: "field_content m f a = Some out \<Longrightarrow> mload m a (length out) = Some out"
  by (auto simp: field_content_def Let_def bind_eq_Some_conv simp del: mload.simps
      split: if_splits intro: mload_self)

lemma content_cong:
  assumes "field_content m f a \<noteq> None" and len: "\<And>out. field_content m f a = Some out \<Longrightarrow> length out \<le> n"
    and ag: "magree (arange a n) m m'"
  shows "field_content m' f a = field_content m f a"
proof -
  obtain out where out: "field_content m f a = Some out" using assms(1) by auto
  from content_load [OF out] have ld: "mload m a (length out) = Some out" .
  have "magree (arange a (length out)) m m'"
    using magree_mono [OF ag] arange_shorter [OF order_refl len [OF out], of a] by blast
  with ld have "mload m' a (length out) = Some out" by (simp add: mload_cong)
  from content_reloc [OF out this] out show ?thesis by simp
qed

lemma same_field_cong:
  assumes same: "same_field m0 src m dest fs k" and ag: "magree (field_region fs dest k) m m'"
    and c: "flagged fs k \<and> mem_bool m0 (src + size_field_offset fs k) = Some False \<or>
       (\<exists>out. field_content m0 (fs ! k) (src + field_offset fs k) = Some out \<and> length out \<le> unat (data_size (fs ! k)))"
  shows "same_field m0 src m' dest fs k"
proof -
  have 1: "magree (arange (dest + field_offset fs k) (unat (data_size (fs ! k)))) m m'"
    using ag by (auto simp: magree_def field_region_def)
  have 2: "magree (arange (dest + size_field_offset fs k) 1) m m'" if "flagged fs k"
    using ag that by (auto simp: magree_def field_region_def)
  have flag: "mem_bool m' (dest + size_field_offset fs k) = mem_bool m (dest + size_field_offset fs k)"
    if "flagged fs k"
    using mload_cong [OF 2 [OF that]] by (simp add: mem_bool_def del: mload.simps)
  show ?thesis
  proof (cases "flagged fs k \<and> mem_bool m0 (src + size_field_offset fs k) = Some False")
    case True
    with same flag show ?thesis by (simp add: same_field_def)
  next
    case False
    with c obtain out where out: "field_content m0 (fs ! k) (src + field_offset fs k) = Some out"
      "length out \<le> unat (data_size (fs ! k))" by blast
    from same False out(1) have "field_content m (fs ! k) (dest + field_offset fs k) = Some out"
      by (simp add: same_field_def)
    with out(2) have "field_content m' (fs ! k) (dest + field_offset fs k) = Some out"
      using content_cong [OF _ _ 1, of "fs ! k"] by simp
    with same flag out False show ?thesis by (simp add: same_field_def)
  qed
qed

text \<open>
  The conditions on the structure that is encoded, for one field: what is present has a content
  that fits its storage.
\<close>

definition source_ok :: "mem \<Rightarrow> addr \<Rightarrow> pb_field list \<Rightarrow> nat \<Rightarrow> bool" where
  "source_ok m0 src fs k \<longleftrightarrow>
     flagged fs k \<and> mem_bool m0 (src + size_field_offset fs k) = Some False \<or>
     (\<exists>out. field_content m0 (fs ! k) (src + field_offset fs k) = Some out \<and> length out \<le> unat (data_size (fs ! k)))"

lemma decoded_step:
  assumes tab: "simple_table fs" and k: "k < n_fields fs"
    and d: "decoded m0 src fs dest k m" and ag: "magree (- field_region fs dest k) m m'"
    and src: "\<And>i. i < n_fields fs \<Longrightarrow> source_ok m0 src fs i"
    and same: "same_field m0 src m' dest fs k"
  shows "decoded m0 src fs dest (Suc k) m'"
  unfolding decoded_def
proof (intro allI impI)
  fix i assume i: "i < n_fields fs"
  show "if i < Suc k then same_field m0 src m' dest fs i else reset_field m' dest fs i"
  proof (cases "i = k")
    case True
    with same show ?thesis by simp
  next
    case False
    have "field_region fs dest i \<inter> field_region fs dest k = {}"
      by (rule regions_disjoint [OF tab i k False])
    then have ag': "magree (field_region fs dest i) m m'" by (intro magree_mono [OF ag]) auto
    show ?thesis
    proof (cases "i < k")
      case True
      with d i have "same_field m0 src m dest fs i" by (simp add: decoded_def)
      from same_field_cong [OF this ag'] src [OF i] True show ?thesis by (simp add: source_ok_def)
    next
      case 1: False
      with False d i have "reset_field m dest fs i" by (simp add: decoded_def)
      with reset_field_cong [OF ag'] 1 False show ?thesis by simp
    qed
  qed
qed

text \<open>One item from any position of the iterator.\<close>

lemma decode_item:
  assumes tab: "simple_table fs" and k: "k < n_fields fs" and j: "pos_ok fs j"
    and wt: "wire_type_of (PB_LTYPE (ftype (fs ! k))) = Some wt"
    and v: "wire_value E sub m0 (fs ! k) (src + field_offset fs k) = Some vb"
    and src: "src + field_offset fs k \<noteq> 0"
    and c: "field_content m0 (fs ! k) (src + field_offset fs k) = Some out"
    and len: "length out \<le> unat (data_size (fs ! k))"
    and nb: "next_bytes s m (wire_tag wt (tag (fs ! k)) @ vb)"
    and dj: "arange (in_state s) (length (wire_tag wt (tag (fs ! k)) @ vb)) \<inter> field_region fs dest k = {}"
    and dom: "field_region fs dest k \<subseteq> mdom m"
  shows "\<exists>m'. decode_loop E d dsub (iter_at fs dest j) seen rs s m =
       decode_loop E d dsub (iter_at fs dest k) (mark_seen (iter_at fs dest k) seen) rs
         (eat (length (wire_tag wt (tag (fs ! k)) @ vb)) s) m' \<and>
     mdom m' = mdom m \<and> magree (- field_region fs dest k) m m' \<and>
     mload m' (dest + field_offset fs k) (length out) = Some out \<and>
     (flagged fs k \<longrightarrow> mem_bool m' (dest + size_field_offset fs k) = Some True)"
proof -
  let ?t = "wire_tag wt (tag (fs ! k))" and ?s1 = "eat (length (wire_tag wt (tag (fs ! k)))) s"
  have ok: "fields_ok fs" and sf: "simple_field (fs ! k)" using tab k by (simp_all add: simple_table_def)
  from nb have nb1: "next_bytes s m ?t" and nb2: "next_bytes ?s1 m vb"
    unfolding next_bytes_append by blast+
  have parse: "parses (pb_decode_tag E) ?t (True, wt, tag (fs ! k), False)"
    using sf fields_ok_tag [OF ok k]
    by (intro parses_wire_tag wire_type_of_less [OF wt]) (simp_all add: simple_field_def)
  have find: "pb_field_iter_find (iter_at fs dest j) (tag (fs ! k)) = Some (True, iter_at fs dest k)"
    by (rule find_field [OF tab k j]) (use wire_value_ltype [OF v] in simp)
  have "arange (in_state ?s1) (length vb) \<inter> field_region fs dest k = {}"
    using dj by (auto simp: arange_add)
  from stores_simple_field [OF tab k src v c nb2 this len dom, of d dsub wt] obtain m' where
    m': "decode_field E d dsub wt (iter_at fs dest k) ?s1 m = Some (Ok (), eat (length vb) ?s1, m')"
      "mdom m' = mdom m" "magree (- field_region fs dest k) m m'"
      "mload m' (dest + field_offset fs k) (length out) = Some out"
      "flagged fs k \<longrightarrow> mem_bool m' (dest + size_field_offset fs k) = Some True" by blast
  have "0 < length ?t" by (simp add: wire_tag_def)
  with nb1 have "bytes_left s \<noteq> 0" unfolding next_bytes_def by linarith
  from decode_loop_known [OF this parsesD [OF parse nb1] find m'(1)] m'(2-) show ?thesis
    by (auto simp: eat_eat)
qed

lemma pos_ok_self: "k < n_fields fs \<Longrightarrow> pos_ok fs k"
  by (simp add: pos_ok_def)

lemma field_offset_nonneg: "0 \<le> field_offset fs k"
  by (induction k) auto

text \<open>The fields that are left, from field \<open>k\<close> on.\<close>

lemma decode_items:
  assumes tab: "simple_table fs" and req: "required_before fs (n_fields fs) < 64" and src: "0 < src"
    and dok: "\<And>k. k < n_fields fs \<Longrightarrow> data_ok E D P (fs ! k)"
    and reg: "\<And>k. k < n_fields fs \<Longrightarrow> field_region fs dest k \<subseteq> D"
    and sok: "\<And>k. k < n_fields fs \<Longrightarrow> source_ok m0 src fs k"
  shows "k \<le> n_fields fs \<Longrightarrow>
     concat_opt (\<lambda>i. wire_field E cb d0 sub m0 (fs ! i) (src + field_offset fs i)) [k..<n_fields fs] = Some rest \<Longrightarrow>
     next_bytes s m rest \<Longrightarrow> bytes_left s = length rest \<Longrightarrow> decoded m0 src fs dest k m \<Longrightarrow> pos_ok fs j \<Longrightarrow>
     mdom m = D \<Longrightarrow> arange (in_state s) (length rest) \<inter> (\<Union>i < n_fields fs. field_region fs dest i) = {} \<Longrightarrow>
     \<exists>m' j'. decode_loop E d dsub (iter_at fs dest j) (seen_words (required_before fs k)) rs s m =
         Some (Ok (iter_at fs dest j', seen_words (required_before fs (n_fields fs))), eat (length rest) s, m') \<and>
       pos_ok fs j' \<and> decoded m0 src fs dest (n_fields fs) m' \<and> mdom m' = D \<and>
       magree (- (\<Union>i < n_fields fs. field_region fs dest i)) m m'"
proof (induction "n_fields fs - k" arbitrary: k rest s m j)
  case 0
  then have "k = n_fields fs" "rest = []" by auto
  with 0 show ?case by (auto simp: decode_loop_end)
next
  case (Suc x)
  have ok: "fields_ok fs" using tab by (simp add: simple_table_def)
  from Suc.hyps(2) have k: "k < n_fields fs" by simp
  let ?w = "\<lambda>i. wire_field E cb d0 sub m0 (fs ! i) (src + field_offset fs i)"
  let ?U = "\<Union>i < n_fields fs. field_region fs dest i"
  from Suc.prems(2) k obtain bs rest' where w: "?w k = Some bs"
    and rest': "concat_opt ?w [Suc k..<n_fields fs] = Some rest'" and rest: "rest = bs @ rest'"
    by (auto simp: upt_rec [of k] opt_app_def split: option.splits)
  from k have sf: "simple_field (fs ! k)" using tab by (simp add: simple_table_def)
  have sub: "field_region fs dest k \<subseteq> ?U" using k by auto
  have IH: "\<exists>m' j'. decode_loop E d dsub (iter_at fs dest i) (seen_words (required_before fs (Suc k))) rs s1 m1 =
         Some (Ok (iter_at fs dest j', seen_words (required_before fs (n_fields fs))), eat (length rest') s1, m') \<and>
       pos_ok fs j' \<and> decoded m0 src fs dest (n_fields fs) m' \<and> mdom m' = D \<and> magree (- ?U) m1 m'"
    if "next_bytes s1 m1 rest'" "bytes_left s1 = length rest'" "decoded m0 src fs dest (Suc k) m1"
      "pos_ok fs i" "mdom m1 = D" "arange (in_state s1) (length rest') \<inter> ?U = {}" for i s1 m1
    using Suc.hyps k rest' that by (intro Suc.hyps(1)) auto
  show ?case
  proof (cases rule: simple_item [OF tab k w, case_names present absent])
    case (present wt vb)
    have a0: "src + field_offset fs k \<noteq> 0" using src field_offset_nonneg [of fs k] by linarith
    from sok [OF k] present(4) obtain out where
      c: "field_content m0 (fs ! k) (src + field_offset fs k) = Some out"
      and len: "length out \<le> unat (data_size (fs ! k))"
      by (auto simp: source_ok_def)
    from Suc.prems(3) have nb: "next_bytes s m bs" "next_bytes (eat (length bs) s) m rest'"
      unfolding rest next_bytes_append by blast+
    have dj: "arange (in_state s) (length bs) \<inter> ?U = {}" "arange (in_state s + int (length bs)) (length rest') \<inter> ?U = {}"
      using Suc.prems(8) rest by (auto simp: arange_add)
    have dj1: "arange (in_state s) (length bs) \<inter> field_region fs dest k = {}" using dj(1) sub by blast
    from decode_item [OF tab k Suc.prems(6) present(1,2) a0 c len, of s m dest d dsub "seen_words (required_before fs k)" rs]
      nb(1) dj1 reg [OF k] Suc.prems(7) present(3) obtain m' where
      m': "decode_loop E d dsub (iter_at fs dest j) (seen_words (required_before fs k)) rs s m =
         decode_loop E d dsub (iter_at fs dest k) (mark_seen (iter_at fs dest k) (seen_words (required_before fs k))) rs
           (eat (length bs) s) m'"
        "mdom m' = mdom m" "magree (- field_region fs dest k) m m'"
        "mload m' (dest + field_offset fs k) (length out) = Some out"
        "flagged fs k \<longrightarrow> mem_bool m' (dest + size_field_offset fs k) = Some True"
      by auto
    have seen: "mark_seen (iter_at fs dest k) (seen_words (required_before fs k)) = seen_words (required_before fs (Suc k))"
      using mark_seen_words [OF req k ok] mark_seen_other [OF _ k ok] by (cases "is_required (fs ! k)") auto
    have same: "same_field m0 src m' dest fs k"
      using content_reloc [OF c m'(4)] c m'(5) present(4) by (simp add: same_field_def)
    have dec: "decoded m0 src fs dest (Suc k) m'"
      by (rule decoded_step [OF tab k Suc.prems(5) m'(3) sok same])
    have "next_bytes (eat (length bs) s) m' rest'"
    proof -
      have "magree (arange (in_state s + int (length bs)) (length rest')) m m'"
        using dj(2) sub by (intro magree_mono [OF m'(3)]) blast
      from mload_cong [OF this] nb(2) show ?thesis by (simp add: next_bytes_def)
    qed
    moreover have "bytes_left (eat (length bs) s) = length rest'" using Suc.prems(4) rest by simp
    ultimately obtain m'' j' where
      "decode_loop E d dsub (iter_at fs dest k) (seen_words (required_before fs (Suc k))) rs (eat (length bs) s) m' =
         Some (Ok (iter_at fs dest j', seen_words (required_before fs (n_fields fs))), eat (length rest') (eat (length bs) s), m'')"
      "pos_ok fs j'" "decoded m0 src fs dest (n_fields fs) m''" "mdom m'' = D" "magree (- ?U) m' m''"
      using IH [of "eat (length bs) s" m' k] dec pos_ok_self [OF k] m'(2) Suc.prems(7) dj(2) by auto
    moreover have "magree (- ?U) m m'" using sub by (intro magree_mono [OF m'(3)]) blast
    ultimately show ?thesis
      unfolding m'(1) seen rest by (auto intro: magree_trans)
  next
    case absent
    have nreq: "\<not> is_required (fs ! k)" using absent(2) by (simp add: is_required_def)
    have res: "reset_field m dest fs k" using Suc.prems(5) k by (simp add: decoded_def)
    have same: "same_field m0 src m dest fs k"
    proof (cases "flagged fs k")
      case True
      with res absent(3) show ?thesis by (simp add: same_field_def reset_field_def)
    next
      case False
      with res absent(2) have "mload m (dest + field_offset fs k) (unat (data_size (fs ! k))) =
          Some (replicate (unat (data_size (fs ! k))) 0)"
        by (simp add: reset_field_def)
      from default_content [OF _ sf dok [OF k] this] absent(4) False show ?thesis
        by (simp add: same_field_def)
    qed
    have dec: "decoded m0 src fs dest (Suc k) m"
      by (rule decoded_step [OF tab k Suc.prems(5) magree_refl sok same])
    have "rest = rest'" using rest absent(1) by simp
    with IH [OF _ _ dec Suc.prems(6,7)] Suc.prems(3,4,8) show ?thesis
      using mark_seen_other(2) [OF nreq k ok] by simp
  qed
qed

section \<open>Messages\<close>

text \<open>
  The source structure is well formed (\<open>content_ok\<close>) if every string that is encoded has its
  terminator within its array.
\<close>

lemma source_ok_if_encoded:
  assumes tab: "simple_table fs" and k: "k < n_fields fs" and src: "0 < src"
    and dok: "data_ok E D P (fs ! k)" and c: "content_ok m0 src fs"
    and w: "wire_field E cb d sub m0 (fs ! k) (src + field_offset fs k) = Some bs"
  shows "source_ok m0 src fs k"
  using w
proof (cases rule: simple_item [OF tab k w, case_names present absent])
  case (present wt vb)
  have st: "PB_ATYPE (ftype (fs ! k)) = PB_ATYPE_STATIC" using tab k by (simp add: simple_table_def simple_field_def)
  have a0: "src + field_offset fs k \<noteq> 0" using src field_offset_nonneg [of fs k] by linarith
  from c k present(4) obtain out where "field_content m0 (fs ! k) (src + field_offset fs k) = Some out"
    by (auto simp: content_ok_def)
  with content_length [OF present(2) this st a0 dok] show ?thesis by (auto simp: source_ok_def)
next
  case absent
  have sf: "simple_field (fs ! k)" using tab k by (simp add: simple_table_def)
  show ?thesis
  proof (cases "flagged fs k")
    case True
    with absent(3) show ?thesis by (simp add: source_ok_def)
  next
    case False
    with absent(4) have "is_default E d m0 (fs ! k) (src + field_offset fs k) = Some True" by simp
    from zero_content [OF default_zero [OF this sf dok] sf] zero_width_le [OF sf dok]
    show ?thesis by (auto simp: source_ok_def)
  qed
qed

lemma concat_opt_Some:
  "concat_opt w xs = Some bs \<Longrightarrow> x \<in> set xs \<Longrightarrow> \<exists>cs. w x = Some cs"
  by (induction xs arbitrary: bs) (auto simp: opt_app_def split: option.splits)

lemma concat_opt_cong: "(\<And>x. x \<in> set xs \<Longrightarrow> f x = g x) \<Longrightarrow> concat_opt f xs = concat_opt g xs"
  by (induction xs) auto

lemma defaults_all:
  assumes tab: "simple_table fs"
    and dok: "\<And>k. k < n_fields fs \<Longrightarrow> data_ok E (mdom m) P (fs ! k)"
    and v: "\<And>k. k < n_fields fs \<Longrightarrow> field_region fs dest k \<subseteq> mdom m"
  shows "\<exists>m'. pb_message_set_to_defaults E (Suc d) fs dest s m = Some (Ok (), s, m') \<and> mdom m' = mdom m \<and>
     magree (- (\<Union>k < n_fields fs. field_region fs dest k)) m m' \<and> (\<forall>k < n_fields fs. reset_field m' dest fs k)"
proof -
  have ok: "fields_ok fs" using tab by (simp add: simple_table_def)
  have code: "pb_message_set_to_defaults E (Suc d) fs dest s m =
     (if n_fields fs \<noteq> 0 then iter_loop (field_default_with E (pb_field_set_to_default E d)) (iter_at fs dest 0) s m
      else Some (Ok (), s, m))"
    by (simp add: pb_message_set_to_defaults_def message_defaults_with_def iter_begin_ok [OF ok] cdef_def
        cbind_def cret_def)
  show ?thesis
  proof (cases "n_fields fs = 0")
    case True
    then show ?thesis unfolding code by auto
  next
    case False
    with reset_all [OF tab dok v, of 0 m "pb_field_set_to_default E d" s] show ?thesis
      unfolding code by auto
  qed
qed

theorem decode_wire_message:
  assumes tab: "simple_table fs" and req: "required_ok fs" and src: "0 < src"
    and dok: "\<And>k. k < n_fields fs \<Longrightarrow> data_ok E (mdom m) P (fs ! k)"
    and reg: "\<And>k. k < n_fields fs \<Longrightarrow> field_region fs dest k \<subseteq> mdom m"
    and c: "content_ok m0 src fs"
    and w: "wire_message E cb xb n (Suc d0) m0 fs src = Some bs"
    and nb: "next_bytes s m bs" "bytes_left s = length bs"
    and dj: "arange (in_state s) (length bs) \<inter> (\<Union>k < n_fields fs. field_region fs dest k) = {}"
  shows "\<exists>m'. pb_decode E (Suc d) fs dest s m = Some (Ok (), eat (length bs) s, m') \<and>
     (\<forall>k < n_fields fs. same_field m0 src m' dest fs k) \<and> mdom m' = mdom m \<and>
     magree (- (\<Union>k < n_fields fs. field_region fs dest k)) m m'"
proof -
  let ?U = "\<Union>k < n_fields fs. field_region fs dest k"
  let ?w = "\<lambda>i. wire_field E cb d0 (wire_message E cb xb n d0 m0) m0 (fs ! i) (src + field_offset fs i)"
  have ok: "fields_ok fs" using tab by (simp add: simple_table_def)
  have ext: "PB_LTYPE (ftype (fs ! k)) \<noteq> PB_LTYPE_EXTENSION" if "k < n_fields fs" for k
    using dok [OF that] by (simp add: data_ok_def Let_def)
  have "concat_opt ?w [0..<n_fields fs] = wire_message E cb xb n (Suc d0) m0 fs src"
    unfolding wire_message.simps if_P [OF ok]
    by (rule concat_opt_cong) (simp add: ext [simplified])
  with w have items: "concat_opt ?w [0..<n_fields fs] = Some bs" by simp
  have sok: "source_ok m0 src fs k" if k: "k < n_fields fs" for k
  proof -
    obtain cs where "?w k = Some cs" using concat_opt_Some [OF items, of k] k by auto
    then show ?thesis by (rule source_ok_if_encoded [OF tab k src dok [OF k] c])
  qed
  from defaults_all [OF tab dok reg, of d s] obtain m1 where
    m1: "pb_message_set_to_defaults E (Suc d) fs dest s m = Some (Ok (), s, m1)" "mdom m1 = mdom m"
      "magree (- ?U) m m1" "\<forall>k < n_fields fs. reset_field m1 dest fs k" by blast
  have "magree (arange (in_state s) (length bs)) m m1" using dj by (intro magree_mono [OF m1(3)]) blast
  from mload_cong [OF this] nb(1) have nb1: "next_bytes s m1 bs" by (simp add: next_bytes_def)
  have start: "seen_words (required_before fs 0) = [0, 0]" by (simp add: required_before_def seen_words_def)
  have pos0: "pos_ok fs 0" by (auto simp: pos_ok_def)
  have r64: "required_before fs (n_fields fs) < 64" using req by (auto simp: required_ok_def Let_def)
  have dec0: "decoded m0 src fs dest 0 m1" using m1(4) by (simp add: decoded_def)
  from decode_items [OF tab r64 src dok reg sok, where k = 0 and cb = cb and ?d0.0 = d0 and
      sub = "wire_message E cb xb n d0 m0" and rest = bs and s = s and m = m1 and j = 0 and
      d = "Suc d" and dsub = "pb_dec_submessage E (Suc d)" and rs = 0] items nb1 nb(2) dec0 pos0 m1(2) dj
  obtain m' j where
    m': "decode_loop E (Suc d) (pb_dec_submessage E (Suc d)) (iter_at fs dest 0) [0, 0] 0 s m1 =
         Some (Ok (iter_at fs dest j, seen_words (required_before fs (n_fields fs))), eat (length bs) s, m')"
      "pos_ok fs j" "decoded m0 src fs dest (n_fields fs) m'" "mdom m' = mdom m" "magree (- ?U) m1 m'"
    unfolding start by auto
  have chk: "check_required (seen_words (required_before fs (n_fields fs))) (required_before fs (n_fields fs))
      (eat (length bs) s) m' = Some (Ok (), eat (length bs) s, m')"
    using req by (intro check_seen_words) (auto simp: required_ok_def Let_def)
  have "pb_decode E (Suc d) fs dest s m = Some (Ok (), eat (length bs) s, m')"
    using m1(1) m'(1) required_count_at [OF ok m'(2), of dest] iter_begin_ok [OF ok, of dest] chk
    by (simp add: pb_decode_def pb_decode_noinit_def pb_decode_noinit_with_def cbind_def cdef_def cret_def)
  with m' m1(3) show ?thesis by (auto simp: decoded_def intro: magree_trans)
qed

end
