(* ===== verification/Pb_Codec.thy ===== *)
theory Pb_Codec
  imports Pb_Emit Pb_Parse
begin

text \<open>
  Codecs: an encoder into an output stream and a decoder from an input stream that agree on the
  bytes of a value. The locale \<open>wire_codec\<close> states the contract once, over the laws of the two
  sides (\<open>emits\<close> and \<open>parses\<close>), and derives what a client of the pair relies on: the round trip
  through a buffer, what happens when the buffer is too small, and that the code is uniquely
  decodable. It is interpreted on the varint, zigzag and tag routines of \<open>pb_encode.c\<close> and
  \<open>pb_decode.c\<close>. The first section is about the streams of one buffer.
\<close>

section \<open>One buffer\<close>

definition no_mem :: mem where
  "no_mem = Mem (\<lambda>_. None)"

lemma mdom_no_mem [simp]: "mdom no_mem = {}"
  by (simp add: no_mem_def mdom_def)

lemma msub_no_mem [simp, intro]: "msub no_mem m"
  by (simp add: no_mem_def msub_def)

text \<open>The bytes \<open>bs\<close> at address 1, and nothing else.\<close>

definition byte_mem :: "byte list \<Rightarrow> mem" where
  "byte_mem bs = Mem (\<lambda>x. if 1 \<le> x \<and> x < 1 + int (length bs) then Some (bs ! nat (x - 1)) else None)"

lemma mloadI: "(\<And>i. i < length bs \<Longrightarrow> mget m (a + int i) = Some (bs ! i)) \<Longrightarrow> mload m a (length bs) = Some bs"
proof (induction bs arbitrary: a)
  case Nil
  then show ?case by simp
next
  case (Cons b bs)
  have "mload m (a + 1) (length bs) = Some bs"
  proof (rule Cons.IH)
    fix i assume "i < length bs"
    with Cons.prems [of "Suc i"] show "mget m (a + 1 + int i) = Some (bs ! i)"
      by (simp add: add.commute add.left_commute)
  qed
  moreover have "mget m a = Some b" using Cons.prems [of 0] by simp
  ultimately show ?case by simp
qed

lemma mload_byte_mem: "mload (byte_mem bs) 1 (length bs) = Some bs"
  by (rule mloadI) (simp add: byte_mem_def)

lemma next_bytes_byte_mem:
  "next_bytes (pb_istream_from_buffer 1 (length (bs @ cs))) (byte_mem (bs @ cs)) bs"
proof -
  have "mload (byte_mem (bs @ cs)) 1 (length (bs @ cs)) = Some (bs @ cs)" by (rule mload_byte_mem)
  then show ?thesis by (simp add: next_bytes_def pb_istream_from_buffer_def mload_append)
qed

text \<open>A stream that has just been set up on a buffer.\<close>

lemma buffer_ok:
  assumes v: "mvalid m buf (unat n)" and dj: "arange buf (unat n) \<inter> mdom m0 = {}" and n: "unat n < 2 ^ 63"
  shows "obuf_ok m0 (pb_ostream_from_buffer buf n) m" "room (pb_ostream_from_buffer buf n) = unat n"
  using assms by (simp_all add: obuf_ok_def room_def pb_ostream_from_buffer_def)

lemma emits_buffer:
  assumes f: "emits m0 f bs" and sub: "msub m0 m"
    and buf: "mvalid m buf (unat n)" "arange buf (unat n) \<inter> mdom m0 = {}" "unat n < 2 ^ 63"
    and fits: "length bs \<le> unat n"
  obtains m' where "mstore m buf bs = Some m'"
    "f (pb_ostream_from_buffer buf n) m = Some (Ok (), advance (length bs) (pb_ostream_from_buffer buf n), m')"
  using emits_fits [OF f sub _ _ buffer_ok(1) [OF buf]] buffer_ok(2) [OF buf] fits
  by (auto simp: pb_ostream_from_buffer_def)

lemma emits_buffer_full:
  assumes f: "emits m0 f bs" and sub: "msub m0 m"
    and buf: "mvalid m buf (unat n)" "arange buf (unat n) \<inter> mdom m0 = {}" "unat n < 2 ^ 63"
    and full: "unat n < length bs"
  obtains s' m' where "f (pb_ostream_from_buffer buf n) m = Some (Fail, s', m')"
    "errmsg s' = Some ''stream full''" "mdom m' = mdom m" "magree (- arange buf (unat n)) m m'"
  using emits_full [OF f sub _ _ buffer_ok(1) [OF buf]] buffer_ok(2) [OF buf] full
  by (auto simp: pb_ostream_from_buffer_def)

lemma written_bytes:
  "n < 2 ^ 64 \<Longrightarrow> unat (bytes_written (advance n (pb_ostream_from_buffer buf k))) = n"
  by (simp add: pb_ostream_from_buffer_def advance_def unat_of_nat)

lemma stored_next_bytes:
  assumes "mstore m buf bs = Some m'"
  shows "next_bytes (pb_istream_from_buffer buf (length bs)) m' bs"
  using mload_mstore [OF assms] by (simp add: next_bytes_def pb_istream_from_buffer_def)

section \<open>The contract\<close>

locale wire_codec =
  fixes put :: "'v \<Rightarrow> (pb_ostream, unit) cm" and get :: "(pb_istream, 'v) cm"
    and code :: "'v \<Rightarrow> byte list" and ok :: "'v \<Rightarrow> bool"
  assumes put_emits: "ok v \<Longrightarrow> emits m0 (put v) (code v)"
    and get_parses: "ok v \<Longrightarrow> parses get (code v) v"
begin

text \<open>No code is the beginning of another one: the decoder reads one value and stops after it.\<close>

lemma unambiguous:
  assumes v: "ok v" and w: "ok w" and eq: "code v @ xs = code w @ ys"
  shows "v = w \<and> xs = ys"
proof -
  let ?s = "pb_istream_from_buffer 1 (length (code v @ xs))" and ?m = "byte_mem (code v @ xs)"
  have "get ?s ?m = Some (Ok v, eat (length (code v)) ?s, ?m)"
    by (rule parsesD [OF get_parses [OF v] next_bytes_byte_mem])
  moreover have "get ?s ?m = Some (Ok w, eat (length (code w)) ?s, ?m)"
    unfolding eq by (rule parsesD [OF get_parses [OF w] next_bytes_byte_mem])
  ultimately have "v = w" by simp
  with eq show ?thesis by simp
qed

lemma round_trip:
  assumes v: "ok v" and buf: "mvalid m buf (unat n)" "unat n < 2 ^ 63" and fits: "length (code v) \<le> unat n"
  shows "\<exists>s' m'. put v (pb_ostream_from_buffer buf n) m = Some (Ok (), s', m') \<and>
     mstore m buf (code v) = Some m' \<and> unat (bytes_written s') = length (code v) \<and>
     get (pb_istream_from_buffer buf (unat (bytes_written s'))) m' =
       Some (Ok v, pb_istream_from_buffer (buf + int (length (code v))) 0, m')"
proof -
  have len: "length (code v) < 2 ^ 64" using fits buf(2) by simp
  from emits_buffer [OF put_emits [OF v, of no_mem] msub_no_mem buf(1) _ buf(2) fits] obtain m' where
    m': "mstore m buf (code v) = Some m'"
      "put v (pb_ostream_from_buffer buf n) m =
         Some (Ok (), advance (length (code v)) (pb_ostream_from_buffer buf n), m')" by auto
  from parsesD [OF get_parses [OF v] stored_next_bytes [OF m'(1)]] m' show ?thesis
    using written_bytes [OF len] by (simp add: eat_def pb_istream_from_buffer_def)
qed

lemma too_small:
  assumes v: "ok v" and buf: "mvalid m buf (unat n)" "unat n < 2 ^ 63" and full: "unat n < length (code v)"
  shows "\<exists>s' m'. put v (pb_ostream_from_buffer buf n) m = Some (Fail, s', m') \<and>
     PB_GET_ERROR s' = ''stream full'' \<and> mdom m' = mdom m \<and> magree (- arange buf (unat n)) m m'"
  using emits_buffer_full [OF put_emits [OF v, of no_mem] msub_no_mem buf(1) _ buf(2) full]
  by (fastforce simp: PB_GET_ERROR_def)

end

section \<open>The codecs of the wire format\<close>

definition tag_ok_pair :: "pb_wire_type \<times> u32 \<Rightarrow> bool" where
  "tag_ok_pair p \<longleftrightarrow> unat (fst p) < 8 \<and> unat (snd p) < 2 ^ 29 \<and> snd p \<noteq> 0"

text \<open>\<open>pb_decode_tag\<close>, of which the caller uses the wire type and the tag if it returns \<open>true\<close>.\<close>

definition decode_tag_pair :: "pb_env \<Rightarrow> (pb_istream, pb_wire_type \<times> u32) cm" where
  "decode_tag_pair E = cbind (pb_decode_tag E) (\<lambda>(ok, wt, t, eof). if ok then cret (wt, t) else cfail)"

interpretation varint: wire_codec "pb_encode_varint E" "pb_decode_varint E"
  "\<lambda>v. leb128 (unat v)" "\<lambda>_. True" for E
proof
  fix m0 v
  show "emits m0 (pb_encode_varint E v) (leb128 (unat v))" by (rule emits_varint)
  show "parses (pb_decode_varint E) (leb128 (unat v)) v"
    using parses_leb128 [of "unat v" E] unat_lt_len [of v] by simp
qed

interpretation svarint: wire_codec "pb_encode_svarint E" "pb_decode_svarint E"
  "\<lambda>v. leb128 (zigzag (sint v))" "\<lambda>_. True" for E
proof
  fix m0 v
  show "emits m0 (pb_encode_svarint E v) (leb128 (zigzag (sint v)))" by (rule emits_svarint)
  show "parses (pb_decode_svarint E) (leb128 (zigzag (sint v))) v"
    using parses_zigzag [of "sint v"] sint_ge [of v] sint_lt [of v] by simp
qed

interpretation varint32: wire_codec "\<lambda>v. pb_encode_varint E (ucast (v :: u32))" "pb_decode_varint32 E"
  "\<lambda>v. leb128 (unat v)" "\<lambda>_. True" for E
proof
  fix m0 and v :: u32
  have "unat (ucast v :: u64) = unat v" using unat_lt_len [of v] by (simp add: unsigned_ucast_eq take_bit_nat_eq_self)
  then show "emits m0 (pb_encode_varint E (ucast v)) (leb128 (unat v))"
    using emits_varint [of m0 E "ucast v"] by simp
  show "parses (pb_decode_varint32 E) (leb128 (unat v)) v"
    using parses_leb128_u32 [of "unat v" E] unat_lt_len [of v] by simp
qed

interpretation tag_codec: wire_codec "\<lambda>(wt, t). pb_encode_tag E wt t" "decode_tag_pair E"
  "\<lambda>(wt, t). wire_tag wt t" tag_ok_pair for E
proof
  fix m0 and v :: "pb_wire_type \<times> u32"
  assume v: "tag_ok_pair v"
  obtain wt t where [simp]: "v = (wt, t)" by (cases v)
  from v have ok: "unat wt < 8" "unat t < 2 ^ 29" "t \<noteq> 0" by (simp_all add: tag_ok_pair_def)
  show "emits m0 (case v of (wt, t) \<Rightarrow> pb_encode_tag E wt t) (case v of (wt, t) \<Rightarrow> wire_tag wt t)"
    using emits_tag [OF ok(1)] by simp
  show "parses (decode_tag_pair E) (case v of (wt, t) \<Rightarrow> wire_tag wt t) v"
    unfolding decode_tag_pair_def
    by (rule parses_then, simp, rule parses_wire_tag [OF ok]) (simp add: parses_cret)
qed

end
