(* ===== verification/Pb_Defaults.thy ===== *)
theory Pb_Defaults
  imports Pb_Decode
begin

text \<open>
  What \<open>pb_message_set_to_defaults\<close> writes, as a list of addresses with their bytes that is computed from the field tables
  and the constant data of the program alone (\<open>message_writes\<close>), and the proof that a run of the code on any memory
  leaves exactly these bytes there and changes nothing else (\<open>message_defaults_writes\<close>).
\<close>

section \<open>Writes\<close>

type_synonym writes = "(addr \<times> byte list) list"

definition bytes_at :: "addr \<Rightarrow> byte list \<Rightarrow> addr \<rightharpoonup> byte" where
  "bytes_at a bs = (\<lambda>x. if a \<le> x \<and> x < a + int (length bs) then Some (bs ! nat (x - a)) else None)"

text \<open>The content of memory that was written; of several writes the last one counts.\<close>

fun written :: "writes \<Rightarrow> addr \<rightharpoonup> byte" where
  "written [] = Map.empty"
| "written ((a, bs) # ws) = bytes_at a bs ++ written ws"

definition overlay :: "mem \<Rightarrow> writes \<Rightarrow> mem" where
  "overlay m ws = Mem (mget m ++ written ws)"

text \<open>The initial content of a field: its default value, a constant in \<open>rom\<close>, or zeros.\<close>

definition default_bytes :: "mem \<Rightarrow> pb_field \<Rightarrow> byte list option" where
  "default_bytes rom f =
     (if ptr f = 0 then Some (replicate (unat (data_size f)) 0) else mload rom (ptr f) (unat (data_size f)))"

text \<open>
  The writes for field \<open>k\<close> of a structure at \<open>a\<close>. The flag of an optional field is cleared and its data is initialised all
  the same; the count of a repeated field or the selector of a union is set to 0 and its data is left alone. \<open>sub\<close> gives
  the writes for the structure of a submessage. The list of extensions is not covered.
\<close>

definition field_writes :: "pb_env \<Rightarrow> mem \<Rightarrow> (pb_field list \<Rightarrow> addr \<Rightarrow> writes option) \<Rightarrow> pb_field list \<Rightarrow> addr \<Rightarrow> nat \<Rightarrow> writes option" where
  "field_writes E rom sub fs a k =
     (let f = fs ! k; t = ftype f; data = a + field_offset fs k; cnt = a + size_field_offset fs k;
        counted = (PB_HTYPE t = PB_HTYPE_REPEATED \<or> PB_HTYPE t = PB_HTYPE_ONEOF)
      in if PB_LTYPE t = PB_LTYPE_EXTENSION then None
      else if PB_ATYPE t = PB_ATYPE_STATIC then
        (if counted then Some [(cnt, [0, 0, 0, 0])]
         else map_option (append (if PB_HTYPE t = PB_HTYPE_OPTIONAL \<and> cnt \<noteq> data then [(cnt, [0])] else []))
           (if PB_LTYPE t = PB_LTYPE_SUBMESSAGE then Option.bind (descs E (ptr f)) (\<lambda>gs. sub gs data)
            else map_option (\<lambda>bs. [(data, bs)]) (default_bytes rom f)))
      else if PB_ATYPE t = PB_ATYPE_POINTER then Some ((data, replicate 8 0) # (if counted then [(cnt, [0, 0, 0, 0])] else []))
      else Some [])"

primrec all_writes :: "(nat \<Rightarrow> writes option) \<Rightarrow> nat list \<Rightarrow> writes option" where
  "all_writes w [] = Some []"
| "all_writes w (k # ks) = Option.bind (w k) (\<lambda>ws. map_option (append ws) (all_writes w ks))"

text \<open>The writes for a message, with at most \<open>d\<close> levels of submessages.\<close>

primrec message_writes :: "pb_env \<Rightarrow> mem \<Rightarrow> nat \<Rightarrow> pb_field list \<Rightarrow> addr \<Rightarrow> writes option" where
  "message_writes E rom 0 = (\<lambda>fs a. None)"
| "message_writes E rom (Suc d) = (\<lambda>fs a.
     if fields_ok fs then all_writes (field_writes E rom (message_writes E rom d) fs a) [0..<n_fields fs] else None)"

text \<open>The writes are within memory, and none of them is to the constants in \<open>rom\<close>, which are part of memory.\<close>

definition can_write :: "mem \<Rightarrow> writes \<Rightarrow> mem \<Rightarrow> bool" where
  "can_write rom ws m \<longleftrightarrow> mget rom \<subseteq>\<^sub>m mget m \<and> dom (written ws) \<subseteq> mdom m \<and> mdom rom \<inter> dom (written ws) = {}"

section \<open>Memory with writes laid over it\<close>

lemma dom_bytes_at: "dom (bytes_at a bs) = arange a (length bs)"
  by (auto simp: bytes_at_def arange_def split: if_splits)

lemma written_append: "written (ws @ vs) = written ws ++ written vs"
  by (induction ws rule: written.induct) simp_all

lemma overlay_Nil [simp]: "overlay m [] = m"
  by (cases m) (simp add: overlay_def)

lemma overlay_append: "overlay m (ws @ vs) = overlay (overlay m ws) vs"
  by (simp add: overlay_def written_append)

lemma mget_overlay: "mget (overlay m ws) = mget m ++ written ws"
  by (simp add: overlay_def)

lemma mdom_overlay: "dom (written ws) \<subseteq> mdom m \<Longrightarrow> mdom (overlay m ws) = mdom m"
  by (auto simp: overlay_def mdom_def)

lemma can_write_append:
  assumes "can_write rom (ws @ vs) m"
  shows "can_write rom ws m" "can_write rom vs (overlay m ws)"
proof -
  have d: "dom (written ws) \<subseteq> mdom m" "dom (written vs) \<subseteq> mdom m" "mdom rom \<inter> dom (written ws) = {}" "mdom rom \<inter> dom (written vs) = {}"
    and rom: "mget rom \<subseteq>\<^sub>m mget m"
    using assms by (auto simp: can_write_def written_append)
  then show "can_write rom ws m" by (simp add: can_write_def)
  have "mget rom \<subseteq>\<^sub>m mget (overlay m ws)"
    using rom d(3) by (force simp: map_le_def mget_overlay mdom_def map_add_def split: option.splits)
  then show "can_write rom vs (overlay m ws)" using d by (simp add: can_write_def mdom_overlay)
qed

lemma mstore_overlay:
  assumes "arange a (length bs) \<subseteq> mdom m"
  shows "mstore m a bs = Some (overlay m [(a, bs)])"
proof -
  obtain m' where m': "mstore m a bs = Some m'" using mstore_valid [of m a bs] assms by (auto simp: mvalid_def)
  have "mget m' x = mget (overlay m [(a, bs)]) x" for x
  proof (cases "x \<in> arange a (length bs)")
    case True
    then have x: "a \<le> x" "x < a + int (length bs)" by (auto simp: in_arange)
    then have "nat (x - a) < length bs" "a + int (nat (x - a)) = x" by linarith+
    with mstore_in [OF m', of "nat (x - a)"] have "mget m' x = Some (bs ! nat (x - a))" by metis
    moreover have "bytes_at a bs x = Some (bs ! nat (x - a))" using x by (simp add: bytes_at_def)
    ultimately show ?thesis by (simp add: mget_overlay map_add_def)
  next
    case False
    then have "bytes_at a bs x = None" using dom_bytes_at [of a bs] by (metis domIff)
    with mstore_frame [OF m' False] show ?thesis by (simp add: mget_overlay map_add_def)
  qed
  then show ?thesis using m' mem_eqI by blast
qed

lemma cstore_overlay: "can_write rom [(a, bs)] m \<Longrightarrow> cstore a bs s m = Some (Ok (), s, overlay m [(a, bs)])"
  by (simp add: cstore_def can_write_def dom_bytes_at mstore_overlay)

lemma ccopy_overlay:
  assumes w: "can_write rom [(a, bs)] m" and bs: "mload rom c n = Some bs"
  shows "ccopy a c n s m = Some (Ok (), s, overlay m [(a, bs)])"
proof -
  have n: "length bs = n" by (rule mload_length [OF bs])
  have c: "arange c n \<subseteq> mdom rom" using mload_imp_valid [OF bs] by (simp add: mvalid_def)
  have "magree (arange c n) rom m"
    unfolding magree_def
  proof
    fix x assume "x \<in> arange c n"
    with c have "x \<in> dom (mget rom)" by (auto simp: mdom_def)
    then show "mget rom x = mget m x" using w by (auto simp: can_write_def map_le_def)
  qed
  from mload_cong [OF this] bs have "mload m c n = Some bs" by simp
  moreover have "arange a n \<inter> arange c n = {}" using w c by (auto simp: can_write_def dom_bytes_at n)
  moreover have "arange a (length bs) \<subseteq> mdom m" using w by (simp add: can_write_def dom_bytes_at)
  ultimately show ?thesis by (simp add: ccopy_def mcopy_disjoint mstore_overlay)
qed

lemma zero_bytes: "le_bytes n 0 = replicate n 0"
  by (induction n) simp_all

lemmas stores = store_bool_def store_u32_def store_nat_def memset0_def zero_bytes numeral_eq_Suc

section \<open>The run\<close>

text \<open>An operation that leaves exactly the writes \<open>ws\<close>.\<close>

definition leaves :: "mem \<Rightarrow> ('s, unit) cm \<Rightarrow> writes \<Rightarrow> bool" where
  "leaves rom c ws \<longleftrightarrow> (\<forall>s m. can_write rom ws m \<longrightarrow> c s m = Some (Ok (), s, overlay m ws))"

lemma leaves_ret: "leaves rom (cret ()) []"
  by (simp add: leaves_def cret_def)

lemma leaves_store: "leaves rom (cstore a bs) [(a, bs)]"
  by (auto simp: leaves_def intro: cstore_overlay)

lemma leaves_seq: "leaves rom c ws \<Longrightarrow> leaves rom c' vs \<Longrightarrow> leaves rom (cbind c (\<lambda>_. c')) (ws @ vs)"
  unfolding leaves_def using can_write_append by (fastforce simp: cbind_Ok overlay_append)

lemma leaves_if: "leaves rom c ws \<Longrightarrow> leaves rom (if b then c else cret ()) (if b then ws else [])"
  by (simp add: leaves_ret)

lemma leaves_init:
  assumes "default_bytes rom f = Some bs"
  shows "leaves rom (if ptr f \<noteq> 0 then ccopy a (ptr f) (unat (data_size f)) else memset0 a (unat (data_size f))) [(a, bs)]"
proof (cases "ptr f = 0")
  case True
  then show ?thesis using assms leaves_store by (auto simp: default_bytes_def memset0_def)
next
  case False
  then show ?thesis using assms ccopy_overlay by (auto simp: default_bytes_def leaves_def)
qed

lemma field_default_leaves:
  assumes w: "field_writes E rom sub fs a k = Some ws"
    and sub: "\<And>gs b vs. sub gs b = Some vs \<Longrightarrow> leaves rom (message_defaults_with fdef gs b) vs"
  shows "leaves rom (field_default_with E fdef (iter_at fs a k)) ws"
proof -
  let ?f = "fs ! k" and ?t = "ftype (fs ! k)" and ?data = "a + field_offset fs k" and ?cnt = "a + size_field_offset fs k"
  let ?counted = "PB_HTYPE ?t = PB_HTYPE_REPEATED \<or> PB_HTYPE ?t = PB_HTYPE_ONEOF"
  let ?flag = "PB_HTYPE ?t = PB_HTYPE_OPTIONAL \<and> ?cnt \<noteq> ?data"
  have ext: "PB_LTYPE ?t \<noteq> PB_LTYPE_EXTENSION" using w by (auto simp: field_writes_def Let_def)
  have zero: "leaves rom (store_u32 ?cnt 0) [(?cnt, [0, 0, 0, 0])]" "leaves rom (store_bool ?cnt False) [(?cnt, [0])]"
    "leaves rom (store_nat ?data 8 0) [(?data, replicate 8 0)]"
    using leaves_store by (auto simp: stores)
  consider (counted) "PB_ATYPE ?t = PB_ATYPE_STATIC" ?counted | (static) "PB_ATYPE ?t = PB_ATYPE_STATIC" "\<not> ?counted"
    | (pointer) "PB_ATYPE ?t = PB_ATYPE_POINTER" | (other) "PB_ATYPE ?t \<noteq> PB_ATYPE_STATIC" "PB_ATYPE ?t \<noteq> PB_ATYPE_POINTER" by blast
  then show ?thesis
  proof cases
    case counted
    then have "field_default_with E fdef (iter_at fs a k) = cbind (store_u32 ?cnt 0) (\<lambda>_. cret ())" "ws = [(?cnt, [0, 0, 0, 0])]"
      using ext w by (auto simp: field_default_with_def field_writes_def Let_def cbind_assoc)
    then show ?thesis using leaves_seq [OF zero(1) leaves_ret] by simp
  next
    case static
    let ?init = "if PB_LTYPE ?t = PB_LTYPE_SUBMESSAGE then cbind (cdef (descs E (ptr ?f))) (\<lambda>gs. message_defaults_with fdef gs ?data)
      else if ptr ?f \<noteq> 0 then ccopy ?data (ptr ?f) (unat (data_size ?f)) else memset0 ?data (unat (data_size ?f))"
    have code: "field_default_with E fdef (iter_at fs a k) = cbind (if ?flag then store_bool ?cnt False else cret ()) (\<lambda>_. ?init)"
      using static ext by (auto simp: field_default_with_def Let_def cbind_assoc)
    obtain vs where ws: "ws = (if ?flag then [(?cnt, [0])] else []) @ vs"
      and vs: "(if PB_LTYPE ?t = PB_LTYPE_SUBMESSAGE then Option.bind (descs E (ptr ?f)) (\<lambda>gs. sub gs ?data)
            else map_option (\<lambda>bs. [(?data, bs)]) (default_bytes rom ?f)) = Some vs"
      using w static ext by (auto simp: field_writes_def Let_def)
    have "leaves rom ?init vs"
    proof (cases "PB_LTYPE ?t = PB_LTYPE_SUBMESSAGE")
      case True
      then show ?thesis using vs sub by (auto simp: Option.bind_eq_Some_conv cdef_def)
    next
      case False
      then obtain bs where "default_bytes rom ?f = Some bs" "vs = [(?data, bs)]" using vs by auto
      then show ?thesis using leaves_init [of rom ?f bs ?data] False by simp
    qed
    moreover have "leaves rom (if ?flag then store_bool ?cnt False else cret ()) (if ?flag then [(?cnt, [0])] else [])"
      by (rule leaves_if [OF zero(2)])
    ultimately show ?thesis unfolding code ws by (intro leaves_seq)
  next
    case pointer
    have "leaves rom (if ?counted then store_u32 ?cnt 0 else cret ()) (if ?counted then [(?cnt, [0, 0, 0, 0])] else [])"
      by (rule leaves_if [OF zero(1)])
    from leaves_seq [OF zero(3) this] show ?thesis
      using pointer ext w by (auto simp: field_default_with_def field_writes_def Let_def)
  next
    case other
    then show ?thesis using ext w leaves_ret by (auto simp: field_default_with_def field_writes_def Let_def)
  qed
qed

lemma iter_loop_leaves:
  assumes ok: "fields_ok fs" and body: "\<And>i vs. i < n_fields fs \<Longrightarrow> w i = Some vs \<Longrightarrow> leaves rom (body (iter_at fs a i)) vs"
  shows "k < n_fields fs \<Longrightarrow> all_writes w [k..<n_fields fs] = Some ws \<Longrightarrow> leaves rom (iter_loop body (iter_at fs a k)) ws"
proof (induction "n_fields fs - k" arbitrary: k ws)
  case 0
  then show ?case by simp
next
  case (Suc x)
  from Suc.prems obtain us vs where ws: "w k = Some us" "all_writes w [Suc k..<n_fields fs] = Some vs" "ws = us @ vs"
    by (auto simp: upt_rec [of k] Option.bind_eq_Some_conv)
  have "leaves rom (if Suc k < n_fields fs then iter_loop body (iter_at fs a (Suc k)) else cret ()) vs"
    using Suc.hyps ws(2) leaves_ret by auto
  from leaves_seq [OF body [OF Suc.prems(1) ws(1)] this] show ?case
    unfolding iter_loop_at [OF ok Suc.prems(1)] ws(3) .
qed

lemma message_defaults_writes: "message_writes E rom d fs a = Some ws \<Longrightarrow> leaves rom (pb_message_set_to_defaults E d fs a :: ('s, unit) cm) ws"
proof (induction d arbitrary: fs a ws)
  case 0
  then show ?case by simp
next
  case (Suc d)
  let ?w = "field_writes E rom (message_writes E rom d) fs a"
  from Suc.prems have ok: "fields_ok fs" and ws: "all_writes ?w [0..<n_fields fs] = Some ws" by (auto split: if_splits)
  have body: "leaves rom (pb_field_set_to_default E (Suc d) (iter_at fs a i) :: ('s, unit) cm) vs" if "?w i = Some vs" for i vs
    unfolding pb_field_set_to_default.simps
    by (rule field_default_leaves [OF that]) (use Suc.IH in \<open>simp add: pb_message_set_to_defaults_def\<close>)
  have "leaves rom (if n_fields fs \<noteq> 0 then iter_loop (pb_field_set_to_default E (Suc d)) (iter_at fs a 0) else cret () :: ('s, unit) cm) ws"
  proof (cases "n_fields fs = 0")
    case True
    then show ?thesis using ws leaves_ret by simp
  next
    case False
    have "leaves rom (iter_loop (pb_field_set_to_default E (Suc d)) (iter_at fs a 0) :: ('s, unit) cm) ws"
      by (rule iter_loop_leaves [where w = ?w, OF ok]) (use body False ws in simp_all)
    then show ?thesis using False by simp
  qed
  then show ?case
    by (simp add: pb_message_set_to_defaults_def message_defaults_with_def iter_begin_ok [OF ok] cdef_def del: pb_field_set_to_default.simps)
qed

end
