(* ===== verification/Pb_Examples.thy ===== *)
theory Pb_Examples
  imports Pb_Roundtrip Pb_Wire Pb_Defaults
begin

text \<open>
  A concrete message, environment and memory, on which the general theorems are applied. The
  message is
    \<open>message Person { required int32 id = 1; optional string name = 2; uint32 count = 3; }\<close>
  (\<open>count\<close> in proto3 style) with the structure
    \<open>struct { int32_t id; bool has_name; char name[8]; uint32_t count; }\<close>
  of 20 bytes: \<open>id\<close> at 0, \<open>has_name\<close> at 4, \<open>name\<close> at 5, \<open>count\<close> at 16.
\<close>

section \<open>Descriptors\<close>

definition person_id :: member where
  "person_id = \<lparr>m_offset = 0, m_size = 4, m0_size = 4, m_size_offset = 0\<rparr>"

definition person_name :: member where
  "person_name = \<lparr>m_offset = 5, m_size = 8, m0_size = 1, m_size_offset = 4\<rparr>"

definition person_count :: member where
  "person_count = \<lparr>m_offset = 16, m_size = 4, m0_size = 4, m_size_offset = 0\<rparr>"

definition person_fields :: "pb_field list" where
  "person_fields =
     [PB_REQUIRED_STATIC 1 person_id (PB_DATAOFFSET_FIRST person_id person_id) PB_LTYPE_VARINT 0,
      PB_OPTIONAL_STATIC 2 person_name (PB_DATAOFFSET_OTHER person_name person_id) PB_LTYPE_STRING 0,
      PB_SINGULAR_STATIC 3 person_count (PB_DATAOFFSET_OTHER person_count person_name) PB_LTYPE_UVARINT 0,
      PB_LAST_FIELD]"

lemma person_fields_eq:
  "person_fields =
     [\<lparr>tag = 1, ftype = 0, data_offset = 0, size_offset = 0, data_size = 4, array_size = 0, ptr = 0\<rparr>,
      \<lparr>tag = 2, ftype = 0x16, data_offset = 1, size_offset = -1, data_size = 8, array_size = 0, ptr = 0\<rparr>,
      \<lparr>tag = 3, ftype = 0x11, data_offset = 3, size_offset = 0, data_size = 4, array_size = 0, ptr = 0\<rparr>,
      PB_LAST_FIELD]"
  by (simp add: person_fields_def descriptor_defs person_id_def person_name_def person_count_def
      PB_DATAOFFSET_FIRST_def PB_DATAOFFSET_OTHER_def pb_delta_def)

section \<open>Memory\<close>

text \<open>One object: the bytes \<open>bs\<close> from address \<open>a\<close> on.\<close>

definition block :: "addr \<Rightarrow> byte list \<Rightarrow> mem" where
  "block a bs = Mem (\<lambda>x. if a \<le> x \<and> x < a + int (length bs) then Some (bs ! nat (x - a)) else None)"

lemma mdom_block: "mdom (block a bs) = arange a (length bs)"
  by (auto simp: mdom_def block_def arange_def split: if_splits)

lemma mvalid_block: "a \<le> b \<Longrightarrow> b + int n \<le> a + int (length bs) \<Longrightarrow> mvalid (block a bs) b n"
  by (simp add: mvalid_def mdom_block arange_subset)

lemma mget_block: "a \<le> x \<Longrightarrow> x < a + int (length bs) \<Longrightarrow> mget (block a bs) x = Some (bs ! nat (x - a))"
  by (simp add: block_def)

lemma msub_block: "msub (block a bs) (block a (bs @ cs))"
  by (auto simp: msub_def block_def nth_append split: if_splits)

text \<open>A person with id 300, name \<open>''ab''\<close> and count 5, and a second object for a result and a buffer.\<close>

definition person_bytes :: "byte list" where
  "person_bytes = [0x2C, 1, 0, 0, 1, 0x61, 0x62, 0, 0, 0, 0, 0, 0, 0, 0, 0, 5, 0, 0, 0]"

definition person_src :: mem where
  "person_src = block 16 person_bytes"

definition person_mem :: mem where
  "person_mem = block 16 (person_bytes @ replicate 60 0xAA)"

definition person_env :: pb_env where
  "person_env = \<lparr>descs = (\<lambda>a. if a = 1000 then Some person_fields else None),
     ext_types = (\<lambda>_. None), in_callbacks = (\<lambda>_ _. cfail), out_callbacks = (\<lambda>_ _. cfail),
     decode_callbacks = (\<lambda>_ _ _. cfail), encode_callbacks = (\<lambda>_ _ _. cfail),
     ext_decoders = (\<lambda>_ _ _ _. cfail), ext_encoders = (\<lambda>_ _. cfail), stack_slot = (\<lambda>_. 5000)\<rparr>"

definition person_wire :: "byte list" where
  "person_wire = [0x08, 0xAC, 0x02, 0x12, 0x02, 0x61, 0x62, 0x18, 0x05]"

lemma person_types [simp]:
  "PB_LTYPE 0 = 0" "PB_HTYPE 0 = 0" "PB_ATYPE 0 = 0"
  "PB_LTYPE 0x16 = 6" "PB_HTYPE 0x16 = 0x10" "PB_ATYPE 0x16 = 0"
  "PB_LTYPE 0x11 = 1" "PB_HTYPE 0x11 = 0x10" "PB_ATYPE 0x11 = 0"
  by (simp_all add: PB_LTYPE_def PB_HTYPE_def PB_ATYPE_def)

lemma person_n_fields [simp]: "n_fields person_fields = 3"
  by (simp add: n_fields_def person_fields_eq)

lemma person_fields_ok: "fields_ok person_fields"
  by (simp add: fields_ok_def person_fields_eq)

lemma less3: "(k::nat) < 3 \<longleftrightarrow> k = 0 \<or> k = 1 \<or> k = 2"
  by auto

lemma person_offsets:
  "field_offset person_fields 0 = 0" "field_offset person_fields 1 = 5" "field_offset person_fields 2 = 16"
  "size_field_offset person_fields 0 = 0" "size_field_offset person_fields 1 = 4"
  "size_field_offset person_fields 2 = 16"
  by code_simp+

lemma person_nth:
  "person_fields ! 0 = \<lparr>tag = 1, ftype = 0, data_offset = 0, size_offset = 0, data_size = 4, array_size = 0, ptr = 0\<rparr>"
  "person_fields ! 1 = \<lparr>tag = 2, ftype = 0x16, data_offset = 1, size_offset = -1, data_size = 8, array_size = 0, ptr = 0\<rparr>"
  "person_fields ! 2 = \<lparr>tag = 3, ftype = 0x11, data_offset = 3, size_offset = 0, data_size = 4, array_size = 0, ptr = 0\<rparr>"
  by (simp_all add: person_fields_eq)

lemma person_flagged: "flagged person_fields k \<longleftrightarrow> k = 1" if "k < 3"
  using that unfolding less3
  by (elim disjE) (simp_all add: flagged_def person_nth [unfolded One_nat_def] person_nth del: One_nat_def)

section \<open>The hypotheses of the general theorems\<close>

lemma person_encoded:
  "wire_message person_env (\<lambda>_ _ _. None) (\<lambda>_ _. None) 0 (Suc (Suc 0)) person_src person_fields 16 = Some person_wire"
  by code_simp

lemma person_simple: "k < 3 \<Longrightarrow> simple_field (person_fields ! k)"
  unfolding less3 by (elim disjE; simp add: simple_field_def person_nth del: One_nat_def)

lemma person_regions:
  "field_region person_fields a 0 = {a ..< a + 4}"
  "field_region person_fields a 1 = {a + 5 ..< 13 + a} \<union> {a + 4 ..< 5 + a}"
  "field_region person_fields a 2 = {a + 16 ..< 20 + a}"
  unfolding field_region_def person_offsets
  by (simp_all add: person_flagged person_nth arange_def del: One_nat_def)

lemma person_region_sub: "k < 3 \<Longrightarrow> field_region person_fields a k \<subseteq> arange a 20"
  unfolding less3 by (elim disjE; simp add: person_regions arange_def del: One_nat_def)

lemma person_table: "simple_table person_fields"
proof -
  have "simple_field (person_fields ! k) \<and>
        size_field_offset person_fields k = field_offset person_fields k + sint (size_offset (person_fields ! k)) \<and>
        (flagged person_fields k \<longrightarrow> arange (field_offset person_fields k) (unat (data_size (person_fields ! k))) \<inter>
           arange (size_field_offset person_fields k) 1 = {}) \<and>
        (\<forall>j < k. tag (person_fields ! j) \<noteq> tag (person_fields ! k) \<and>
           field_region person_fields 0 j \<inter> field_region person_fields 0 k = {})" if k: "k < 3" for k
  proof (intro conjI allI impI)
    show "simple_field (person_fields ! k)" by (rule person_simple [OF k])
    show "size_field_offset person_fields k = field_offset person_fields k + sint (size_offset (person_fields ! k))"
      using k unfolding less3 by (elim disjE; hypsubst; code_simp)
    show "arange (field_offset person_fields k) (unat (data_size (person_fields ! k))) \<inter>
       arange (size_field_offset person_fields k) 1 = {}" if "flagged person_fields k"
      using that person_flagged [OF k] by (simp add: person_offsets person_nth arange_def del: One_nat_def)
    fix j assume j: "j < k"
    show "tag (person_fields ! j) \<noteq> tag (person_fields ! k)"
      using j k unfolding less3
      by (elim disjE; simp add: less_2_cases_iff del: One_nat_def; elim disjE;
          simp add: person_nth person_nth(2) [unfolded One_nat_def])
    show "field_region person_fields 0 j \<inter> field_region person_fields 0 k = {}"
      using j k unfolding less3
      by (elim disjE; simp add: less_2_cases_iff; elim disjE;
          auto simp: person_regions person_regions(2) [unfolded One_nat_def])
  qed
  then show ?thesis unfolding simple_table_def person_n_fields using person_fields_ok by blast
qed

lemma person_required: "required_ok person_fields"
  by code_simp

lemma person_data: "k < 3 \<Longrightarrow> data_ok E D P (person_fields ! k)"
  unfolding less3 by (elim disjE; simp add: data_ok_def person_nth del: One_nat_def)

lemma person_content: "content_ok person_src 16 person_fields"
proof -
  have "field_content person_src (person_fields ! k) (16 + field_offset person_fields k) \<noteq> None" if "k < 3" for k
    using that unfolding less3 by (elim disjE; hypsubst; code_simp)
  then show ?thesis by (simp add: content_ok_def)
qed

section \<open>A message with a submessage\<close>

text \<open>
  \<open>message Team { required int32 id = 1 [default = 7]; optional Person boss = 2; repeated int32 xs = 3 [max_count = 3]; }\<close>
  with the structure \<open>struct { int32_t id; bool has_boss; Person boss; pb_size_t xs_count; int32_t xs[3]; }\<close> of 44 bytes. The
  default value of \<open>id\<close> is the constant at address 500.
\<close>

definition team_id :: member where
  "team_id = \<lparr>m_offset = 0, m_size = 4, m0_size = 4, m_size_offset = 0\<rparr>"

definition team_boss :: member where
  "team_boss = \<lparr>m_offset = 8, m_size = 20, m0_size = 20, m_size_offset = 4\<rparr>"

definition team_xs :: member where
  "team_xs = \<lparr>m_offset = 32, m_size = 12, m0_size = 4, m_size_offset = 28\<rparr>"

definition team_fields :: "pb_field list" where
  "team_fields =
     [PB_REQUIRED_STATIC 1 team_id (PB_DATAOFFSET_FIRST team_id team_id) PB_LTYPE_VARINT 500,
      PB_OPTIONAL_STATIC 2 team_boss (PB_DATAOFFSET_OTHER team_boss team_id) PB_LTYPE_SUBMESSAGE 1000,
      PB_REPEATED_STATIC 3 team_xs (PB_DATAOFFSET_OTHER team_xs team_boss) PB_LTYPE_VARINT 0,
      PB_LAST_FIELD]"

definition team_rom :: mem where
  "team_rom = block 500 [7, 0, 0, 0]"

definition team_mem :: mem where
  "team_mem = Mem (mget (block 40 (replicate 44 0xAA)) ++ mget team_rom)"

definition team_writes :: writes where
  "team_writes = [(40, [7, 0, 0, 0]), (44, [0]), (48, [0, 0, 0, 0]), (52, [0]), (53, replicate 8 0), (64, [0, 0, 0, 0]), (68, [0, 0, 0, 0])]"

lemma team_fields_eq:
  "team_fields =
     [\<lparr>tag = 1, ftype = 0, data_offset = 0, size_offset = 0, data_size = 4, array_size = 0, ptr = 500\<rparr>,
      \<lparr>tag = 2, ftype = 0x17, data_offset = 4, size_offset = -4, data_size = 20, array_size = 0, ptr = 1000\<rparr>,
      \<lparr>tag = 3, ftype = 0x20, data_offset = 4, size_offset = -4, data_size = 4, array_size = 3, ptr = 0\<rparr>,
      PB_LAST_FIELD]"
  by (simp add: team_fields_def descriptor_defs team_id_def team_boss_def team_xs_def
      PB_DATAOFFSET_FIRST_def PB_DATAOFFSET_OTHER_def pb_delta_def pb_arraysize_def)

lemma team_message_writes: "message_writes person_env team_rom (Suc (Suc 0)) team_fields 40 = Some team_writes"
  by code_simp

lemma team_can_write: "can_write team_rom team_writes team_mem"
proof -
  have "dom (written team_writes) \<subseteq> arange 40 44" by (auto simp: team_writes_def dom_bytes_at arange_def)
  moreover have "mdom team_rom = arange 500 4" by (simp add: team_rom_def mdom_block arange_def)
  moreover have "mdom team_mem = arange 40 44 \<union> arange 500 4"
    using mdom_block [of 40 "replicate 44 0xAA"] mdom_block [of 500 "[7, 0, 0, 0]"] by (auto simp: mdom_def team_mem_def team_rom_def arange_def)
  moreover have "mget team_rom \<subseteq>\<^sub>m mget team_mem" by (simp add: team_mem_def)
  ultimately show ?thesis by (auto simp: can_write_def arange_def)
qed

end
