(* ===== verification/Lv_Coding.thy ===== *)
theory Lv_Coding
  imports Pb_Emit Pb_Parse
begin

text \<open>
  \<open>leveldb-library/util/coding.h\<close> and \<open>coding.cc\<close>, and \<open>Slice\<close>: fixed-width integers, varints and
  length-prefixed slices on byte strings. A slice or \<open>std::string\<close> is the list of its bytes; a
  \<open>Get\<close> function returns the value and the rest of the input, \<open>None\<close> for \<open>false\<close> or \<open>NULL\<close>. The bytes
  are those of \<open>Wire_Format\<close>: both libraries use the same varints. The locale \<open>slice_codec\<close> is the
  contract of a \<open>Put\<close> and \<open>Get\<close> pair.
\<close>

type_synonym slice = "byte list"

section \<open>Slices\<close>

text \<open>\<open>memcmp\<close>: the sign of the first difference, as unsigned bytes.\<close>

fun memcmp :: "slice \<Rightarrow> slice \<Rightarrow> nat \<Rightarrow> int" where
  "memcmp (x # xs) (y # ys) (Suc n) = (if x < y then - 1 else if y < x then 1 else memcmp xs ys n)"
| "memcmp _ _ _ = 0"

definition slice_compare :: "slice \<Rightarrow> slice \<Rightarrow> int" where
  "slice_compare a b =
     (let min_len = (if length a < length b then length a else length b); r = memcmp a b min_len in
      if r = 0 then (if length a < length b then - 1 else if length a > length b then 1 else r) else r)"

definition slice_eq :: "slice \<Rightarrow> slice \<Rightarrow> bool" where
  "slice_eq x y \<longleftrightarrow> length x = length y \<and> memcmp x y (length x) = 0"

definition starts_with :: "slice \<Rightarrow> slice \<Rightarrow> bool" where
  "starts_with s x \<longleftrightarrow> length x \<le> length s \<and> memcmp s x (length x) = 0"

lemma memcmp_range: "memcmp a b n \<in> {-1, 0, 1}"
  by (induction a b n rule: memcmp.induct) auto

lemma memcmp_0: "n \<le> length a \<Longrightarrow> n \<le> length b \<Longrightarrow> memcmp a b n = 0 \<longleftrightarrow> take n a = take n b"
  by (induction a b n rule: memcmp.induct) (auto simp: not_less_iff_gr_or_eq)

lemma slice_eq_iff [simp]: "slice_eq x y \<longleftrightarrow> x = y"
  using memcmp_0 [of "length x" x y] by (auto simp: slice_eq_def)

lemma starts_with_iff: "starts_with s x \<longleftrightarrow> (\<exists>t. s = x @ t)"
proof
  assume "starts_with s x"
  then have "take (length x) s = x" using memcmp_0 [of "length x" s x] by (simp add: starts_with_def)
  then show "\<exists>t. s = x @ t" by (metis append_take_drop_id)
next
  assume "\<exists>t. s = x @ t"
  then show "starts_with s x" using memcmp_0 [of "length x" s x] by (auto simp: starts_with_def)
qed

section \<open>Fixed-width integers\<close>

definition kLittleEndian :: bool where "kLittleEndian = True"

definition EncodeFixed32 :: "u32 \<Rightarrow> slice" where
  "EncodeFixed32 v =
     (if kLittleEndian then le_bytes 4 (unat v)
      else [ucast (v AND 0xFF), ucast (drop_bit 8 v AND 0xFF), ucast (drop_bit 16 v AND 0xFF),
            ucast (drop_bit 24 v AND 0xFF)])"

definition EncodeFixed64 :: "u64 \<Rightarrow> slice" where
  "EncodeFixed64 v =
     (if kLittleEndian then le_bytes 8 (unat v)
      else [ucast (v AND 0xFF), ucast (drop_bit 8 v AND 0xFF), ucast (drop_bit 16 v AND 0xFF),
            ucast (drop_bit 24 v AND 0xFF), ucast (drop_bit 32 v AND 0xFF), ucast (drop_bit 40 v AND 0xFF),
            ucast (drop_bit 48 v AND 0xFF), ucast (drop_bit 56 v AND 0xFF)])"

definition PutFixed32 :: "slice \<Rightarrow> u32 \<Rightarrow> slice" where
  "PutFixed32 dst v = dst @ EncodeFixed32 v"

definition PutFixed64 :: "slice \<Rightarrow> u64 \<Rightarrow> slice" where
  "PutFixed64 dst v = dst @ EncodeFixed64 v"

text \<open>Reading fewer bytes than the width is undefined; the callers check the length.\<close>

definition DecodeFixed32 :: "slice \<Rightarrow> u32" where
  "DecodeFixed32 p =
     (if kLittleEndian then word_of_nat (le_val (take 4 p))
      else ucast (p ! 0) OR push_bit 8 (ucast (p ! 1)) OR push_bit 16 (ucast (p ! 2)) OR
        push_bit 24 (ucast (p ! 3)))"

definition DecodeFixed64 :: "slice \<Rightarrow> u64" where
  "DecodeFixed64 p =
     (if kLittleEndian then word_of_nat (le_val (take 8 p))
      else push_bit 32 (ucast (DecodeFixed32 (drop 4 p))) OR ucast (DecodeFixed32 p))"

lemma EncodeFixed32_le: "EncodeFixed32 v = le_bytes 4 (unat v)"
  by (simp only: EncodeFixed32_def fixed32_bytes if_cancel)

lemma EncodeFixed64_le: "EncodeFixed64 v = le_bytes 8 (unat v)"
  by (simp only: EncodeFixed64_def fixed64_bytes if_cancel)

lemma length_EncodeFixed [simp]: "length (EncodeFixed32 v) = 4" "length (EncodeFixed64 w) = 8"
  by (simp_all add: EncodeFixed32_le EncodeFixed64_le)

lemma DecodeFixed32_le:
  assumes "4 \<le> length p"
  shows "DecodeFixed32 p = word_of_nat (le_val (take 4 p))"
  using le_word_32 [of "take 4 p"] assms by (simp add: DecodeFixed32_def)

lemma DecodeFixed32_Encode [simp]: "DecodeFixed32 (EncodeFixed32 v @ r) = v"
  using word_of_le_val_le_bytes [of 4 v] by (simp add: DecodeFixed32_le EncodeFixed32_le)

lemma DecodeFixed64_le: "DecodeFixed64 p = word_of_nat (le_val (take 8 p))"
  by (simp add: DecodeFixed64_def kLittleEndian_def)

lemma DecodeFixed64_Encode [simp]: "DecodeFixed64 (EncodeFixed64 v @ r) = v"
  using word_of_le_val_le_bytes [of 8 v] by (simp add: DecodeFixed64_le EncodeFixed64_le)

section \<open>Varints\<close>

definition EncodeVarint32 :: "u32 \<Rightarrow> slice" where
  "EncodeVarint32 v =
     (if v < push_bit 7 1 then [ucast v]
      else if v < push_bit 14 1 then [ucast (v OR 128), ucast (drop_bit 7 v)]
      else if v < push_bit 21 1
      then [ucast (v OR 128), ucast (drop_bit 7 v OR 128), ucast (drop_bit 14 v)]
      else if v < push_bit 28 1
      then [ucast (v OR 128), ucast (drop_bit 7 v OR 128), ucast (drop_bit 14 v OR 128), ucast (drop_bit 21 v)]
      else [ucast (v OR 128), ucast (drop_bit 7 v OR 128), ucast (drop_bit 14 v OR 128),
            ucast (drop_bit 21 v OR 128), ucast (drop_bit 28 v)])"

definition PutVarint32 :: "slice \<Rightarrow> u32 \<Rightarrow> slice" where
  "PutVarint32 dst v = dst @ EncodeVarint32 v"

lemma drop_7_less: "(128 :: u64) \<le> v \<Longrightarrow> unat (drop_bit 7 v) < unat v"
proof -
  assume "128 \<le> v"
  then have "128 \<le> unat v" by (simp add: word_le_nat_alt)
  moreover have "unat (drop_bit 7 v) = unat v div 128"
    unfolding unat_drop_bit_eq by (simp add: drop_bit_eq_div)
  ultimately show ?thesis by simp
qed

function EncodeVarint64 :: "u64 \<Rightarrow> slice" where
  "EncodeVarint64 v =
     (if v \<ge> 128 then ucast ((v AND (128 - 1)) OR 128) # EncodeVarint64 (drop_bit 7 v) else [ucast v])"
  by pat_completeness auto
termination by (relation "measure unat") (auto intro: drop_7_less)

declare EncodeVarint64.simps [simp del]

definition PutVarint64 :: "slice \<Rightarrow> u64 \<Rightarrow> slice" where
  "PutVarint64 dst v = dst @ EncodeVarint64 v"

definition PutLengthPrefixedSlice :: "slice \<Rightarrow> slice \<Rightarrow> slice" where
  "PutLengthPrefixedSlice dst v = PutVarint32 dst (word_of_nat (length v)) @ v"

text \<open>The loop variable \<open>len\<close> is the argument.\<close>

function VarintLength_loop :: "u64 \<Rightarrow> nat \<Rightarrow> nat" where
  "VarintLength_loop v len = (if v \<ge> 128 then VarintLength_loop (drop_bit 7 v) (len + 1) else len)"
  by pat_completeness auto
termination by (relation "measure (unat \<circ> fst)") (auto intro: drop_7_less)

declare VarintLength_loop.simps [simp del]

definition VarintLength :: "u64 \<Rightarrow> nat" where
  "VarintLength v = VarintLength_loop v 1"

fun GetVarint32_loop :: "u32 \<Rightarrow> nat \<Rightarrow> slice \<Rightarrow> (u32 \<times> slice) option" where
  "GetVarint32_loop result shift [] = None"
| "GetVarint32_loop result shift (b # p) =
     (if shift \<le> 28 then
        (if b AND 128 \<noteq> 0 then GetVarint32_loop (result OR push_bit shift (ucast b AND 127)) (shift + 7) p
         else Some (result OR push_bit shift (ucast b), p))
      else None)"

definition GetVarint32PtrFallback :: "slice \<Rightarrow> (u32 \<times> slice) option" where
  "GetVarint32PtrFallback p = GetVarint32_loop 0 0 p"

definition GetVarint32Ptr :: "slice \<Rightarrow> (u32 \<times> slice) option" where
  "GetVarint32Ptr p =
     (case p of
        b # q \<Rightarrow> if b AND 128 = 0 then Some (ucast b, q) else GetVarint32PtrFallback p
      | [] \<Rightarrow> GetVarint32PtrFallback p)"

definition GetVarint32 :: "slice \<Rightarrow> (u32 \<times> slice) option" where
  "GetVarint32 input = GetVarint32Ptr input"

fun GetVarint64_loop :: "u64 \<Rightarrow> nat \<Rightarrow> slice \<Rightarrow> (u64 \<times> slice) option" where
  "GetVarint64_loop result shift [] = None"
| "GetVarint64_loop result shift (b # p) =
     (if shift \<le> 63 then
        (if b AND 128 \<noteq> 0 then GetVarint64_loop (result OR push_bit shift (ucast b AND 127)) (shift + 7) p
         else Some (result OR push_bit shift (ucast b), p))
      else None)"

definition GetVarint64Ptr :: "slice \<Rightarrow> (u64 \<times> slice) option" where
  "GetVarint64Ptr p = GetVarint64_loop 0 0 p"

definition GetVarint64 :: "slice \<Rightarrow> (u64 \<times> slice) option" where
  "GetVarint64 input = GetVarint64Ptr input"

text \<open>The pointer version: the slice and the position behind it.\<close>

definition GetLengthPrefixedSlicePtr :: "slice \<Rightarrow> (slice \<times> slice) option" where
  "GetLengthPrefixedSlicePtr p =
     (case GetVarint32Ptr p of
        None \<Rightarrow> None
      | Some (len, q) \<Rightarrow> if unat len > length q then None else Some (take (unat len) q, drop (unat len) q))"

text \<open>The version on \<open>Slice\<close> advances its input behind the length also when it fails after that.\<close>

definition GetLengthPrefixedSlice :: "slice \<Rightarrow> slice option \<times> slice" where
  "GetLengthPrefixedSlice input =
     (case GetVarint32 input of
        None \<Rightarrow> (None, input)
      | Some (len, input1) \<Rightarrow>
          if unat len \<le> length input1 then (Some (take (unat len) input1), drop (unat len) input1)
          else (None, input1))"

section \<open>Varints are the ones of the wire format\<close>

lemma bit_128: "bit (128 :: 'a::len word) i \<longleftrightarrow> i = 7 \<and> 7 < LENGTH('a)"
proof -
  have e: "(128 :: 'a word) = 2 ^ 7" by simp
  show ?thesis unfolding e bit_exp_iff by auto
qed

lemma bit_128_int: "bit (128 :: int) i \<longleftrightarrow> i = 7"
proof -
  have e: "(128 :: int) = 2 ^ 7" by simp
  show ?thesis unfolding e bit_exp_iff by auto
qed

lemma ucast_or_128:
  assumes "8 \<le> LENGTH('a::len)"
  shows "(ucast ((w :: 'a word) OR 128) :: byte) = word_of_nat (128 + unat w mod 128)"
proof -
  have m: "unat w mod 128 = take_bit 7 (unat w)" by (simp add: take_bit_eq_mod)
  have "(ucast (w OR 128) :: byte) = 128 OR word_of_nat (unat w mod 128)"
    unfolding m
    using assms by (intro bit_word_eqI)
      (auto simp: bit_simps bit_128_int)
  also have "\<dots> = 128 + (word_of_nat (unat w mod 128) :: byte)"
    unfolding m
    by (rule disjunctive_add_eq_or [symmetric], intro bit_word_eqI) (auto simp: bit_simps bit_128 bit_128_int)
  finally show ?thesis by simp
qed

lemma unat_drop_bit: "unat (drop_bit k (v :: 'a::len word)) = unat v div 2 ^ k"
  unfolding unat_drop_bit_eq by (simp add: drop_bit_eq_div)

lemma EncodeVarint64_leb: "EncodeVarint64 v = leb128 (unat v)"
proof (induction v rule: EncodeVarint64.induct)
  case (1 v)
  show ?case
  proof (cases "v \<ge> 128")
    case True
    then have n: "\<not> unat v < 128" by (simp add: word_le_nat_alt)
    have "unat (v AND 0x7F) mod 128 = unat v mod 128" by (simp add: unat_take7)
    then have "(ucast ((v AND 0x7F) OR 128) :: byte) = word_of_nat (128 + unat v mod 128)"
      using ucast_or_128 [of "v AND 0x7F"] by simp
    with True n 1 [OF True] show ?thesis
      unfolding EncodeVarint64.simps [of v] leb128.simps [of "unat v"] by (simp add: unat_drop_bit)
  next
    case False
    then have n: "unat v < 128" by (simp add: word_le_nat_alt)
    moreover have "(ucast v :: byte) = word_of_nat (unat v)" by (rule ucast_word_of_nat) simp
    ultimately show ?thesis
      using False unfolding EncodeVarint64.simps [of v] leb128.simps [of "unat v"] by simp
  qed
qed

lemma EncodeVarint32_leb: "EncodeVarint32 v = leb128 (unat v)"
proof -
  have top: "unat v < 2 ^ 32" using unat_lt_len [of v] by simp
  note enc = ucast_or_128 [where 'a = 32, simplified] unat_drop_bit
  have last: "(ucast (drop_bit k v) :: byte) = word_of_nat (unat v div 2 ^ k)" for k
    by (rule ucast_word_of_nat) (rule unat_drop_bit)
  have l0: "(ucast v :: byte) = word_of_nat (unat v)" by (rule ucast_word_of_nat) simp
  consider "unat v < 2 ^ 7" | "2 ^ 7 \<le> unat v" "unat v < 2 ^ 14" | "2 ^ 14 \<le> unat v" "unat v < 2 ^ 21"
    | "2 ^ 21 \<le> unat v" "unat v < 2 ^ 28" | "2 ^ 28 \<le> unat v" by linarith
  then show ?thesis
  proof cases
    case 1
    then show ?thesis using l0
      by (subst leb128.simps) (simp add: EncodeVarint32_def word_less_nat_alt)
  next
    case 2
    then show ?thesis
      by (subst leb128.simps, subst leb128.simps) (simp add: EncodeVarint32_def word_less_nat_alt enc last)
  next
    case 3
    then show ?thesis
      by (subst leb128.simps, subst leb128.simps, subst leb128.simps)
        (simp add: EncodeVarint32_def word_less_nat_alt enc last div_mult2_eq [symmetric] div_less_iff_less_mult)
  next
    case 4
    then show ?thesis
      by (subst leb128.simps, subst leb128.simps, subst leb128.simps, subst leb128.simps)
        (simp add: EncodeVarint32_def word_less_nat_alt enc last div_mult2_eq [symmetric] div_less_iff_less_mult)
  next
    case 5
    with top show ?thesis
      by (subst leb128.simps, subst leb128.simps, subst leb128.simps, subst leb128.simps, subst leb128.simps)
        (simp add: EncodeVarint32_def word_less_nat_alt enc last div_mult2_eq [symmetric] div_less_iff_less_mult)
  qed
qed

lemma VarintLength_leb: "VarintLength v = length (leb128 (unat v))"
proof -
  have "VarintLength_loop v (Suc n) = n + length (leb128 (unat v))" for n
  proof (induction v "Suc n" arbitrary: n rule: VarintLength_loop.induct)
    case (1 v n)
    show ?case
    proof (cases "v \<ge> 128")
      case True
      then have "\<not> unat v < 128" by (simp add: word_le_nat_alt)
      with 1 [OF True, of "Suc n"] True show ?thesis
        by (subst VarintLength_loop.simps, subst leb128.simps) (simp add: unat_drop_bit)
    next
      case False
      then have "unat v < 128" by (simp add: word_le_nat_alt)
      with False show ?thesis by (subst VarintLength_loop.simps, subst leb128.simps) simp
    qed
  qed
  from this [of 0] show ?thesis by (simp add: VarintLength_def)
qed

section \<open>Reading varints\<close>

lemma and_127: "ucast (b :: byte) AND 127 = (ucast (b AND 0x7F) :: 'a::len word)"
  unfolding and_0x7F by (rule bit_word_eqI) (auto simp: bit_simps)

lemma ucast_small: "\<not> continues b \<Longrightarrow> (ucast b :: 'a::len word) = word_of_nat (leb_val [b])"
  by (rule ucast_word_of_nat) (simp add: continues_iff)

lemma GetVarint32_loop_varint:
  "is_varint vs \<Longrightarrow> shift + 7 * length vs \<le> 35 \<Longrightarrow>
     GetVarint32_loop r shift (vs @ rest) = Some (r OR push_bit shift (word_of_nat (leb_val vs)), rest)"
proof (induction vs arbitrary: r shift)
  case Nil
  then show ?case by simp
next
  case (Cons b vs)
  show ?case
  proof (cases "continues b")
    case True
    with Cons.prems have "is_varint vs" by simp
    with Cons.IH [of "shift + 7"] Cons.prems(2) True show ?thesis
      using leb_step [where 'a = 32, of r shift b "leb_val vs"]
      by (simp add: continues_def and_127)
  next
    case False
    with Cons.prems have "vs = []" by simp
    with False Cons.prems(2) show ?thesis
      using ucast_small [OF False, where 'a = 32] by (simp add: continues_def)
  qed
qed

lemma GetVarint64_loop_varint:
  "is_varint vs \<Longrightarrow> shift + 7 * length vs \<le> 70 \<Longrightarrow>
     GetVarint64_loop r shift (vs @ rest) = Some (r OR push_bit shift (word_of_nat (leb_val vs)), rest)"
proof (induction vs arbitrary: r shift)
  case Nil
  then show ?case by simp
next
  case (Cons b vs)
  show ?case
  proof (cases "continues b")
    case True
    with Cons.prems have "is_varint vs" by simp
    with Cons.IH [of "shift + 7"] Cons.prems(2) True show ?thesis
      using leb_step [where 'a = 64, of r shift b "leb_val vs"]
      by (simp add: continues_def and_127)
  next
    case False
    with Cons.prems have "vs = []" by simp
    with False Cons.prems(2) show ?thesis
      using ucast_small [OF False, where 'a = 64] by (simp add: continues_def)
  qed
qed

text \<open>The one-byte case of \<open>GetVarint32Ptr\<close> is what the loop does on it.\<close>

lemma GetVarint32Ptr_loop: "GetVarint32Ptr p = GetVarint32_loop 0 0 p"
  by (auto simp: GetVarint32Ptr_def GetVarint32PtrFallback_def split: list.splits)

lemma GetVarint32_varint:
  "is_varint vs \<Longrightarrow> length vs \<le> 5 \<Longrightarrow> GetVarint32 (vs @ rest) = Some (word_of_nat (leb_val vs), rest)"
  using GetVarint32_loop_varint [of vs 0 0 rest] by (simp add: GetVarint32_def GetVarint32Ptr_loop)

lemma GetVarint64_varint:
  "is_varint vs \<Longrightarrow> length vs \<le> 10 \<Longrightarrow> GetVarint64 (vs @ rest) = Some (word_of_nat (leb_val vs), rest)"
  using GetVarint64_loop_varint [of vs 0 0 rest] by (simp add: GetVarint64_def GetVarint64Ptr_def)

text \<open>Conversely, what is accepted starts with a varint that is not too long.\<close>

lemma GetVarint32_loop_Some:
  "GetVarint32_loop r shift p = Some (v, rest) \<Longrightarrow> \<exists>vs. p = vs @ rest \<and> is_varint vs \<and> shift + 7 * length vs \<le> 35"
proof (induction r shift p rule: GetVarint32_loop.induct)
  case (1 result shift)
  then show ?case by simp
next
  case (2 result shift b p)
  then have sh: "shift \<le> 28" by (auto split: if_splits)
  show ?case
  proof (cases "continues b")
    case True
    with 2 sh obtain vs where "p = vs @ rest" "is_varint vs" "shift + 7 + 7 * length vs \<le> 35"
      by (auto simp: continues_def)
    with True show ?thesis by (intro exI [of _ "b # vs"]) simp
  next
    case False
    with 2 sh have "p = rest" by (auto simp: continues_def)
    with False sh show ?thesis by (intro exI [of _ "[b]"]) simp
  qed
qed

lemma GetVarint64_loop_Some:
  "GetVarint64_loop r shift p = Some (v, rest) \<Longrightarrow> \<exists>vs. p = vs @ rest \<and> is_varint vs \<and> shift + 7 * length vs \<le> 70"
proof (induction r shift p rule: GetVarint64_loop.induct)
  case (1 result shift)
  then show ?case by simp
next
  case (2 result shift b p)
  then have sh: "shift \<le> 63" by (auto split: if_splits)
  show ?case
  proof (cases "continues b")
    case True
    with 2 sh obtain vs where "p = vs @ rest" "is_varint vs" "shift + 7 + 7 * length vs \<le> 70"
      by (auto simp: continues_def)
    with True show ?thesis by (intro exI [of _ "b # vs"]) simp
  next
    case False
    with 2 sh have "p = rest" by (auto simp: continues_def)
    with False sh show ?thesis by (intro exI [of _ "[b]"]) simp
  qed
qed

lemma GetVarint32_iff:
  "GetVarint32 p = Some (v, rest) \<longleftrightarrow>
     (\<exists>vs. p = vs @ rest \<and> is_varint vs \<and> length vs \<le> 5 \<and> v = word_of_nat (leb_val vs))"
  (is "?l = ?r")
proof
  assume l: ?l
  then obtain vs where vs: "p = vs @ rest" "is_varint vs" "length vs \<le> 5"
    using GetVarint32_loop_Some [of 0 0 p v rest] by (auto simp: GetVarint32_def GetVarint32Ptr_loop)
  with l GetVarint32_varint [of vs rest] show ?r by auto
next
  assume ?r
  then show ?l using GetVarint32_varint by blast
qed

lemma GetVarint64_iff:
  "GetVarint64 p = Some (v, rest) \<longleftrightarrow>
     (\<exists>vs. p = vs @ rest \<and> is_varint vs \<and> length vs \<le> 10 \<and> v = word_of_nat (leb_val vs))"
  (is "?l = ?r")
proof
  assume l: ?l
  then obtain vs where vs: "p = vs @ rest" "is_varint vs" "length vs \<le> 10"
    using GetVarint64_loop_Some [of 0 0 p v rest] by (auto simp: GetVarint64_def GetVarint64Ptr_def)
  with l GetVarint64_varint [of vs rest] show ?r by auto
next
  assume ?r
  then show ?l using GetVarint64_varint by blast
qed

lemma GetVarint32_shrinks: "GetVarint32 p = Some (v, rest) \<Longrightarrow> length rest < length p"
  by (auto simp: GetVarint32_iff)

lemma GetVarint64_shrinks: "GetVarint64 p = Some (v, rest) \<Longrightarrow> length rest < length p"
  by (auto simp: GetVarint64_iff)

lemma GetLengthPrefixedSlice_shrinks: "GetLengthPrefixedSlice p = (Some s, rest) \<Longrightarrow> length rest < length p"
  by (auto simp: GetLengthPrefixedSlice_def split: option.splits if_splits dest!: GetVarint32_shrinks)

lemma length_EncodeVarint32: "length (EncodeVarint32 v) \<le> 5"
proof -
  have "unat v < 128 ^ 5" using unat_lt_len [of v] by simp
  then show ?thesis unfolding EncodeVarint32_leb by (rule length_leb128_le) simp
qed

lemma GetVarint32_Encode [simp]: "GetVarint32 (EncodeVarint32 v @ rest) = Some (v, rest)"
  using GetVarint32_varint [OF is_varint_leb128 length_EncodeVarint32 [of v, unfolded EncodeVarint32_leb]]
  by (simp add: EncodeVarint32_leb leb_val_leb128)

lemma GetVarint64_Encode [simp]: "GetVarint64 (EncodeVarint64 v @ rest) = Some (v, rest)"
  using GetVarint64_varint [OF is_varint_leb128 length_leb128_u64 [of v]]
  by (simp add: EncodeVarint64_leb leb_val_leb128)

section \<open>Codecs of slices\<close>

locale slice_codec =
  fixes enc :: "'v \<Rightarrow> slice" and dec :: "slice \<Rightarrow> ('v \<times> slice) option" and ok :: "'v \<Rightarrow> bool"
  assumes dec_enc: "ok v \<Longrightarrow> dec (enc v @ rest) = Some (v, rest)"
begin

lemma prefix_free: "ok v \<Longrightarrow> ok w \<Longrightarrow> enc v @ xs = enc w @ ys \<Longrightarrow> v = w \<and> xs = ys"
  by (metis dec_enc option.inject prod.inject)

lemma dec_exact: "ok v \<Longrightarrow> dec (enc v) = Some (v, [])"
  using dec_enc [of v "[]"] by simp

lemma inj: "inj_on enc {v. ok v}"
  using prefix_free [of _ _ "[]" "[]"] by (auto intro!: inj_onI)

end

definition length_prefixed :: "slice \<Rightarrow> slice" where
  "length_prefixed s = PutLengthPrefixedSlice [] s"

lemma length_prefixed_eq: "length_prefixed s = EncodeVarint32 (word_of_nat (length s)) @ s"
  by (simp add: length_prefixed_def PutLengthPrefixedSlice_def PutVarint32_def)

lemma PutLengthPrefixedSlice_eq: "PutLengthPrefixedSlice dst s = dst @ length_prefixed s"
  by (simp add: length_prefixed_def PutLengthPrefixedSlice_def PutVarint32_def)

lemma GetLengthPrefixedSlice_enc [simp]:
  "length s < 2 ^ 32 \<Longrightarrow> GetLengthPrefixedSlice (length_prefixed s @ rest) = (Some s, rest)"
  using parses_len32 [of "length s"] by (simp add: GetLengthPrefixedSlice_def length_prefixed_eq)

lemma GetLengthPrefixedSlicePtr_enc:
  "length s < 2 ^ 32 \<Longrightarrow> GetLengthPrefixedSlicePtr (length_prefixed s @ rest) = Some (s, rest)"
  using parses_len32 [of "length s"] GetVarint32_Encode [of "word_of_nat (length s)" "s @ rest"]
  by (simp add: GetLengthPrefixedSlicePtr_def length_prefixed_eq GetVarint32_def)

interpretation varint32_slice: slice_codec EncodeVarint32 GetVarint32 "\<lambda>_. True"
  by unfold_locales simp

interpretation varint64_slice: slice_codec EncodeVarint64 GetVarint64 "\<lambda>_. True"
  by unfold_locales simp

interpretation prefixed_slice: slice_codec length_prefixed GetLengthPrefixedSlicePtr "\<lambda>s. length s < 2 ^ 32"
  by unfold_locales (rule GetLengthPrefixedSlicePtr_enc)

interpretation fixed32_slice: slice_codec EncodeFixed32
  "\<lambda>p. if length p < 4 then None else Some (DecodeFixed32 p, drop 4 p)" "\<lambda>_. True"
  by unfold_locales simp

interpretation fixed64_slice: slice_codec EncodeFixed64
  "\<lambda>p. if length p < 8 then None else Some (DecodeFixed64 p, drop 8 p)" "\<lambda>_. True"
  by unfold_locales simp

end
