(* ===== verification/Lv_Comparator.thy ===== *)
theory Lv_Comparator
  imports Lv_Coding "HOL-Library.List_Lexorder"
begin

text \<open>
  Key order: \<open>include/leveldb/comparator.h\<close> and \<open>util/comparator.cc\<close>. The locale \<open>comparator\<close> is the
  documented contract of a three-way comparison and \<open>key_shortener\<close> that of the two key-shortening
  functions; the data structures over keys are verified against the contract. Both are interpreted
  on the bytewise comparator, whose order is the lexicographic order of the library.
\<close>

section \<open>The contract\<close>

text \<open>\<open>valid\<close> are the keys that a caller may pass: a comparator of internal keys needs their trailer.\<close>

locale comparator =
  fixes cmp :: "'k \<Rightarrow> 'k \<Rightarrow> int" and valid :: "'k \<Rightarrow> bool"
  assumes cmp_eq: "valid a \<Longrightarrow> valid b \<Longrightarrow> cmp a b = 0 \<longleftrightarrow> a = b"
    and cmp_sym: "valid a \<Longrightarrow> valid b \<Longrightarrow> cmp a b < 0 \<longleftrightarrow> 0 < cmp b a"
    and cmp_trans: "valid a \<Longrightarrow> valid b \<Longrightarrow> valid c \<Longrightarrow> cmp a b < 0 \<Longrightarrow> cmp b c < 0 \<Longrightarrow> cmp a c < 0"
begin

lemma refl [simp]: "valid a \<Longrightarrow> cmp a a = 0"
  by (simp add: cmp_eq)

lemma gt_iff: "valid a \<Longrightarrow> valid b \<Longrightarrow> 0 < cmp a b \<longleftrightarrow> cmp b a < 0"
  by (simp add: cmp_sym)

lemma le_iff: "valid a \<Longrightarrow> valid b \<Longrightarrow> cmp a b \<le> 0 \<longleftrightarrow> cmp a b < 0 \<or> a = b"
  using cmp_eq [of a b] by linarith

lemma not_less: "valid a \<Longrightarrow> valid b \<Longrightarrow> \<not> cmp a b < 0 \<longleftrightarrow> cmp b a \<le> 0"
  using cmp_sym [of a b] by linarith

lemma not_le: "valid a \<Longrightarrow> valid b \<Longrightarrow> \<not> cmp a b \<le> 0 \<longleftrightarrow> cmp b a < 0"
  using cmp_sym [of b a] by linarith

lemma le_less_trans:
  "valid a \<Longrightarrow> valid b \<Longrightarrow> valid c \<Longrightarrow> cmp a b \<le> 0 \<Longrightarrow> cmp b c < 0 \<Longrightarrow> cmp a c < 0"
  by (auto simp: le_iff dest: cmp_trans)

lemma less_le_trans:
  "valid a \<Longrightarrow> valid b \<Longrightarrow> valid c \<Longrightarrow> cmp a b < 0 \<Longrightarrow> cmp b c \<le> 0 \<Longrightarrow> cmp a c < 0"
  by (auto simp: le_iff dest: cmp_trans)

lemma le_trans:
  "valid a \<Longrightarrow> valid b \<Longrightarrow> valid c \<Longrightarrow> cmp a b \<le> 0 \<Longrightarrow> cmp b c \<le> 0 \<Longrightarrow> cmp a c \<le> 0"
  by (auto simp: le_iff dest: cmp_trans)

lemma less_asym: "valid a \<Longrightarrow> valid b \<Longrightarrow> cmp a b < 0 \<Longrightarrow> \<not> cmp b a < 0"
  using cmp_sym [of a b] by linarith

lemma less_neq: "valid a \<Longrightarrow> valid b \<Longrightarrow> cmp a b < 0 \<Longrightarrow> a \<noteq> b"
  by auto

text \<open>Ascending lists of keys.\<close>

abbreviation ascending :: "'k list \<Rightarrow> bool" where
  "ascending \<equiv> sorted_wrt (\<lambda>a b. cmp a b < 0)"

lemma ascending_distinct: "ascending ks \<Longrightarrow> \<forall>k \<in> set ks. valid k \<Longrightarrow> distinct ks"
  by (induction ks) auto

end

text \<open>
  \<open>FindShortestSeparator\<close> and \<open>FindShortSuccessor\<close>. The last law is not in the comments of
  \<open>comparator.h\<close>; \<open>InternalKeyComparator::FindShortestSeparator\<close> relies on it when both
  keys hold the same user key.
\<close>

locale key_shortener = comparator cmp valid
  for cmp :: "slice \<Rightarrow> slice \<Rightarrow> int" and valid :: "slice \<Rightarrow> bool" +
  fixes separator :: "slice \<Rightarrow> slice \<Rightarrow> slice" and successor :: "slice \<Rightarrow> slice"
  assumes separator_valid: "valid s \<Longrightarrow> valid l \<Longrightarrow> cmp s l < 0 \<Longrightarrow> valid (separator s l)"
    and successor_valid: "valid s \<Longrightarrow> valid (successor s)"
    and separator_ge: "valid s \<Longrightarrow> valid l \<Longrightarrow> cmp s l < 0 \<Longrightarrow> cmp s (separator s l) \<le> 0"
    and separator_less: "valid s \<Longrightarrow> valid l \<Longrightarrow> cmp s l < 0 \<Longrightarrow> cmp (separator s l) l < 0"
    and successor_ge: "valid s \<Longrightarrow> cmp s (successor s) \<le> 0"
    and separator_same: "valid s \<Longrightarrow> separator s s = s"
begin

text \<open>An index entry shortened between two keys keeps the keys of the two blocks apart.\<close>

lemma separates:
  assumes "valid s" "valid l" "valid a" "valid b" and "cmp s l < 0" "cmp a s \<le> 0" "cmp l b \<le> 0"
  shows "cmp a (separator s l) \<le> 0 \<and> cmp (separator s l) b < 0"
proof
  have v: "valid (separator s l)" by (rule separator_valid) (rule assms)+
  show "cmp a (separator s l) \<le> 0"
    by (rule le_trans [of a s]) (use assms v separator_ge in auto)
  show "cmp (separator s l) b < 0"
    by (rule less_le_trans [of _ l]) (use assms v separator_less in auto)
qed

end

section \<open>The bytewise comparator\<close>

definition Compare :: "slice \<Rightarrow> slice \<Rightarrow> int" where
  "Compare a b = slice_compare a b"

text \<open>\<open>while (diff_index < min_length && st[diff_index] == lim[diff_index]) diff_index++\<close>\<close>

function diff_loop :: "slice \<Rightarrow> slice \<Rightarrow> nat \<Rightarrow> nat \<Rightarrow> nat" where
  "diff_loop st lim min_length i =
     (if i < min_length \<and> st ! i = lim ! i then diff_loop st lim min_length (Suc i) else i)"
  by pat_completeness auto
termination by (relation "measure (\<lambda>(s, l, n, i). n - i)") auto

declare diff_loop.simps [simp del]

text \<open>
  \<open>FindShortestSeparator\<close>: the new value of \<open>*st\<close>. The test \<open>diff_byte + 1 < lim[diff_index]\<close> is
  computed in \<open>int\<close>. The assertion that the shorter key is below \<open>lim\<close> holds always (\<open>FindShortestSeparator_assert\<close>).
\<close>

definition FindShortestSeparator :: "slice \<Rightarrow> slice \<Rightarrow> slice" where
  "FindShortestSeparator st lim =
     (let min_length = min (length st) (length lim);
          diff_index = diff_loop st lim min_length 0 in
      if diff_index \<ge> min_length then st
      else let diff_byte = st ! diff_index in
        if diff_byte < 0xFF \<and> unat diff_byte + 1 < unat (lim ! diff_index)
        then take (diff_index + 1) (st[diff_index := diff_byte + 1])
        else st)"

fun FindShortSuccessor_loop :: "slice \<Rightarrow> slice" where
  "FindShortSuccessor_loop [] = []"
| "FindShortSuccessor_loop (b # bs) = (if b \<noteq> 0xFF then [b + 1] else b # FindShortSuccessor_loop bs)"

definition FindShortSuccessor :: "slice \<Rightarrow> slice" where
  "FindShortSuccessor key = FindShortSuccessor_loop key"

section \<open>It is a comparator\<close>

lemma memcmp_lex:
  "n \<le> length a \<Longrightarrow> n \<le> length b \<Longrightarrow>
     memcmp a b n = (if take n a = take n b then 0 else if take n a < take n b then - 1 else 1)"
  by (induction a b n rule: memcmp.induct) auto

lemma slice_compare_lex: "slice_compare a b = (if a < b then - 1 else if a = b then 0 else 1)"
proof (induction a arbitrary: b)
  case Nil
  show ?case by (cases b) (auto simp: slice_compare_def)
next
  case (Cons x xs)
  show ?case
  proof (cases b)
    case Nil
    then show ?thesis by (simp add: slice_compare_def)
  next
    case (Cons y ys)
    have "slice_compare (x # xs) (y # ys) = (if x < y then - 1 else if y < x then 1 else slice_compare xs ys)"
      by (simp add: slice_compare_def Let_def)
    with Cons.IH [of ys] Cons show ?thesis by auto
  qed
qed

lemma Compare_less: "Compare a b < 0 \<longleftrightarrow> a < b" "Compare a b = 0 \<longleftrightarrow> a = b" "Compare a b \<le> 0 \<longleftrightarrow> a \<le> b"
  "0 < Compare a b \<longleftrightarrow> b < a"
  by (auto simp: Compare_def slice_compare_lex)

lemma diff_loop_spec:
  "i \<le> n \<Longrightarrow> take i s = take i l \<Longrightarrow> n \<le> length s \<Longrightarrow> n \<le> length l \<Longrightarrow>
     diff_loop s l n i \<le> n \<and> take (diff_loop s l n i) s = take (diff_loop s l n i) l \<and>
     (diff_loop s l n i < n \<longrightarrow> s ! diff_loop s l n i \<noteq> l ! diff_loop s l n i)"
proof (induction s l n i rule: diff_loop.induct)
  case (1 s l n i)
  show ?case
  proof (cases "i < n \<and> s ! i = l ! i")
    case True
    with 1 have "take (Suc i) s = take (Suc i) l" by (simp add: take_Suc_conv_app_nth)
    with 1 True show ?thesis by (subst (1 2 3 4 5 6) diff_loop.simps) simp
  next
    case False
    with 1 show ?thesis by (subst (1 2 3 4 5 6) diff_loop.simps) auto
  qed
qed

lemma lex_app: "xs @ x # ys < xs @ y # zs \<longleftrightarrow> x < y \<or> x = y \<and> ys < zs" for xs ys zs :: slice
  by (induction xs) auto

lemma lex_split:
  fixes a b :: slice
  assumes "take i a = take i b" "i < length a" "i < length b"
  shows "a < b \<longleftrightarrow> a ! i < b ! i \<or> a ! i = b ! i \<and> drop (Suc i) a < drop (Suc i) b"
  using lex_app [of "take i a" "a ! i" "drop (Suc i) a" "b ! i" "drop (Suc i) b"] assms
  by (metis id_take_nth_drop)

lemma byte_less_Suc: "b \<noteq> 0xFF \<Longrightarrow> b < b + 1" for b :: byte
proof -
  assume "b \<noteq> 0xFF"
  then have "unat b \<noteq> unat (0xFF :: byte)" by (simp only: unsigned_word_eqI word_unat_eq_iff) simp
  then have "unat b \<noteq> 255" by simp
  then have "unat b < 255" using unat_lt_256 [of b] by linarith
  then show ?thesis by (simp add: word_less_nat_alt unat_word_ariths)
qed

lemma take_bump: "i < length s \<Longrightarrow> take (i + 1) (s[i := v]) = take i s @ [v]" for s :: slice
  by (simp add: take_Suc_conv_app_nth)

lemma separator_bytes:
  fixes s :: slice
  assumes "i < length s" "s ! i < 0xFF"
  shows "s \<le> take (i + 1) (s[i := s ! i + 1])"
proof -
  have "s < take i s @ [s ! i + 1]"
    using assms by (subst lex_split [of i]) (simp_all add: byte_less_Suc nth_append)
  with assms show ?thesis by (simp add: take_bump del: add_0_right One_nat_def)
qed

lemma FindShortestSeparator_ge: "s \<le> FindShortestSeparator s l"
  using separator_bytes [of "diff_loop s l (min (length s) (length l)) 0" s]
  by (auto simp: FindShortestSeparator_def Let_def not_le simp del: One_nat_def)

text \<open>The assertion on a key that was shortened cannot fail.\<close>

lemma FindShortestSeparator_assert: "FindShortestSeparator s l = s \<or> FindShortestSeparator s l < l"
proof -
  let ?n = "min (length s) (length l)" and ?i = "diff_loop s l (min (length s) (length l)) 0"
  have i: "?i \<le> ?n" "take ?i s = take ?i l" "?i < ?n \<longrightarrow> s ! ?i \<noteq> l ! ?i"
    using diff_loop_spec [of 0 ?n s l] by auto
  show ?thesis
  proof (cases "?i < ?n \<and> s ! ?i < 0xFF \<and> unat (s ! ?i) + 1 < unat (l ! ?i)")
    case True
    then have "unat (s ! ?i) < 255" by (simp add: word_less_nat_alt)
    with True have "s ! ?i + 1 < l ! ?i" by (simp add: word_less_nat_alt unat_word_ariths)
    moreover have "?i < length s" "?i < length l" using True by auto
    ultimately have "take ?i s @ [s ! ?i + 1] < l"
      using i(2) by (subst lex_split [of ?i]) (simp_all add: nth_append)
    with True have "take (?i + 1) (s[?i := s ! ?i + 1]) < l"
      by (subst take_bump) simp_all
    with True show ?thesis by (auto simp: FindShortestSeparator_def Let_def simp del: One_nat_def)
  next
    case False
    then show ?thesis by (auto simp: FindShortestSeparator_def Let_def)
  qed
qed

lemma FindShortestSeparator_less: "s < l \<Longrightarrow> FindShortestSeparator s l < l"
  using FindShortestSeparator_assert [of s l] by auto

lemma FindShortSuccessor_ge: "k \<le> FindShortSuccessor k"
proof -
  have "k \<le> FindShortSuccessor_loop k"
    by (induction k) (auto simp: byte_less_Suc)
  then show ?thesis by (simp add: FindShortSuccessor_def)
qed

lemma FindShortestSeparator_same: "FindShortestSeparator s s = s"
proof -
  have "diff_loop s l n i = n" if "i \<le> n" "s = l" for s l and n i
    using that
  proof (induction s l n i rule: diff_loop.induct)
    case (1 s l n i)
    then show ?case by (subst diff_loop.simps) auto
  qed
  from this [of 0 "length s" s s] show ?thesis by (simp add: FindShortestSeparator_def Let_def)
qed

interpretation bytewise: key_shortener Compare "\<lambda>_. True" FindShortestSeparator FindShortSuccessor
  by unfold_locales
    (simp_all add: Compare_less FindShortestSeparator_ge FindShortestSeparator_less FindShortSuccessor_ge
      FindShortestSeparator_same)

end
