(* ===== verification/Lv_Dbformat.thy ===== *)
theory Lv_Dbformat
  imports Lv_Comparator
begin

text \<open>
  Internal keys: \<open>db/dbformat.h\<close> and \<open>db/dbformat.cc\<close>. An internal key is a user key followed by eight
  bytes with a sequence number and a value type; \<open>InternalKeyComparator\<close> orders internal keys by user
  key, newest first. The locale \<open>user_order\<close> is a user comparator with its contract; the internal
  comparator is shown to satisfy the contract again (\<open>sublocale internal\<close>), on keys that have their
  trailer. The functions are total; where an assertion of the source fails their value is \<open>undefined\<close>, of which
  nothing is known.
\<close>

datatype ValueType = kTypeDeletion | kTypeValue

definition type_code :: "ValueType \<Rightarrow> u64" where
  "type_code t = (case t of kTypeDeletion \<Rightarrow> 0 | kTypeValue \<Rightarrow> 1)"

definition kValueTypeForSeek :: ValueType where "kValueTypeForSeek = kTypeValue"

type_synonym SequenceNumber = u64

definition kMaxSequenceNumber :: SequenceNumber where "kMaxSequenceNumber = push_bit 56 1 - 1"

record ParsedInternalKey =
  user_key :: slice
  sequence :: SequenceNumber
  vtype :: ValueType

definition InternalKeyEncodingLength :: "ParsedInternalKey \<Rightarrow> nat" where
  "InternalKeyEncodingLength key = length (user_key key) + 8"

definition PackSequenceAndType :: "u64 \<Rightarrow> ValueType \<Rightarrow> u64" where
  "PackSequenceAndType sq t = (if sq \<le> kMaxSequenceNumber then push_bit 8 sq OR type_code t else undefined)"

definition AppendInternalKey :: "slice \<Rightarrow> ParsedInternalKey \<Rightarrow> slice" where
  "AppendInternalKey result key =
     PutFixed64 (result @ user_key key) (PackSequenceAndType (sequence key) (vtype key))"

definition ExtractUserKey :: "slice \<Rightarrow> slice" where
  "ExtractUserKey k = (if 8 \<le> length k then take (length k - 8) k else undefined)"

definition trailer :: "slice \<Rightarrow> u64" where
  "trailer k = (if 8 \<le> length k then DecodeFixed64 (drop (length k - 8) k) else undefined)"

definition ExtractValueType :: "slice \<Rightarrow> byte" where
  "ExtractValueType k = ucast (trailer k AND 0xff)"

definition ParseInternalKey :: "slice \<Rightarrow> ParsedInternalKey option" where
  "ParseInternalKey k =
     (let n = length k in
      if n < 8 then None
      else let num = DecodeFixed64 (drop (n - 8) k); c = ucast (num AND 0xff) :: byte in
        if c \<le> 1
        then Some \<lparr>user_key = take (n - 8) k, sequence = drop_bit 8 num,
                   vtype = (if c = 0 then kTypeDeletion else kTypeValue)\<rparr>
        else None)"

section \<open>The comparator of internal keys\<close>

definition ikc_Compare :: "(slice \<Rightarrow> slice \<Rightarrow> int) \<Rightarrow> slice \<Rightarrow> slice \<Rightarrow> int" where
  "ikc_Compare ucmp akey bkey =
     (let r = ucmp (ExtractUserKey akey) (ExtractUserKey bkey) in
      if r = 0
      then let anum = trailer akey; bnum = trailer bkey in
        if anum > bnum then - 1 else if anum < bnum then 1 else r
      else r)"

definition ikc_FindShortestSeparator ::
  "(slice \<Rightarrow> slice \<Rightarrow> int) \<Rightarrow> (slice \<Rightarrow> slice \<Rightarrow> slice) \<Rightarrow> slice \<Rightarrow> slice \<Rightarrow> slice" where
  "ikc_FindShortestSeparator ucmp usep st lim =
     (let user_start = ExtractUserKey st; user_limit = ExtractUserKey lim;
          tmp = usep user_start user_limit in
      if length tmp < length user_start \<and> ucmp user_start tmp < 0
      then let tmp = PutFixed64 tmp (PackSequenceAndType kMaxSequenceNumber kValueTypeForSeek) in
        if ikc_Compare ucmp st tmp < 0 \<and> ikc_Compare ucmp tmp lim < 0 then tmp else undefined
      else st)"

definition ikc_FindShortSuccessor ::
  "(slice \<Rightarrow> slice \<Rightarrow> int) \<Rightarrow> (slice \<Rightarrow> slice) \<Rightarrow> slice \<Rightarrow> slice" where
  "ikc_FindShortSuccessor ucmp usucc key =
     (let ukey = ExtractUserKey key; tmp = usucc ukey in
      if length tmp < length ukey \<and> ucmp ukey tmp < 0
      then let tmp = PutFixed64 tmp (PackSequenceAndType kMaxSequenceNumber kValueTypeForSeek) in
        if ikc_Compare ucmp key tmp < 0 then tmp else undefined
      else key)"

section \<open>Filter policy and lookup keys\<close>

text \<open>The filter policy of the user is a parameter: what it builds from keys, and its test.\<close>

definition ifp_CreateFilter :: "(slice list \<Rightarrow> slice \<Rightarrow> slice) \<Rightarrow> slice list \<Rightarrow> slice \<Rightarrow> slice" where
  "ifp_CreateFilter create keys dst = create (map ExtractUserKey keys) dst"

definition ifp_KeyMayMatch :: "(slice \<Rightarrow> slice \<Rightarrow> bool) \<Rightarrow> slice \<Rightarrow> slice \<Rightarrow> bool" where
  "ifp_KeyMayMatch may_match key f = may_match (ExtractUserKey key) f"

text \<open>\<open>LookupKey\<close>: the characters from \<open>start_\<close> to \<open>end_\<close> and the offset of \<open>kstart_\<close>.\<close>

record LookupKey =
  lk_data :: slice
  lk_kstart :: nat

definition LookupKey_init :: "slice \<Rightarrow> SequenceNumber \<Rightarrow> LookupKey" where
  "LookupKey_init ukey s =
     (let usize = length ukey; dst = EncodeVarint32 (word_of_nat (usize + 8)) in
      \<lparr>lk_data = dst @ ukey @ EncodeFixed64 (PackSequenceAndType s kValueTypeForSeek),
       lk_kstart = length dst\<rparr>)"

definition lk_memtable_key :: "LookupKey \<Rightarrow> slice" where
  "lk_memtable_key k = lk_data k"

definition lk_internal_key :: "LookupKey \<Rightarrow> slice" where
  "lk_internal_key k = drop (lk_kstart k) (lk_data k)"

definition lk_user_key :: "LookupKey \<Rightarrow> slice" where
  "lk_user_key k = take (length (lk_data k) - lk_kstart k - 8) (drop (lk_kstart k) (lk_data k))"

section \<open>Packing\<close>

lemma seq_unat: "s \<le> kMaxSequenceNumber \<longleftrightarrow> unat s < 2 ^ 56"
  by (simp add: kMaxSequenceNumber_def push_bit_eq_mult word_le_nat_alt less_eq_Suc_le)

lemma unat_drop_8: "unat (drop_bit 8 w) = unat w div 256" for w :: u64
  unfolding unat_drop_bit_eq by (simp add: drop_bit_eq_div)

lemma unat_Pack:
  assumes "s \<le> kMaxSequenceNumber"
  shows "unat (PackSequenceAndType s t) = 256 * unat s + unat (type_code t)"
proof -
  have s: "256 * unat s < 2 ^ 64" "unat s < 2 ^ 56" using assms by (simp_all add: seq_unat)
  then have m: "unat (push_bit 8 s) = 256 * unat s"
    by (simp add: push_bit_eq_mult unat_word_ariths)
  have t: "unat (type_code t) \<le> 1" by (cases t) (simp_all add: type_code_def)
  have "push_bit 8 s AND type_code t = 0"
    by (rule bit_eqI) (auto simp: bit_simps type_code_def split: ValueType.splits)
  then have "PackSequenceAndType s t = push_bit 8 s + type_code t"
    using assms unfolding PackSequenceAndType_def by (simp add: disjunctive_add_eq_or)
  then show ?thesis using m s t by (simp add: unat_word_ariths)
qed

lemma PackSequenceAndType_parts:
  assumes "s \<le> kMaxSequenceNumber"
  shows "drop_bit 8 (PackSequenceAndType s t) = s"
    and "(ucast (PackSequenceAndType s t AND 0xff) :: byte) = ucast (type_code t)"
proof -
  have "unat (type_code t) < 256" by (cases t) (simp_all add: type_code_def)
  then have "unat (drop_bit 8 (PackSequenceAndType s t)) = unat s"
    using assms by (simp add: unat_drop_8 unat_Pack)
  then show "drop_bit 8 (PackSequenceAndType s t) = s" by (rule word_unat_eq_iff [THEN iffD2])
  show "(ucast (PackSequenceAndType s t AND 0xff) :: byte) = ucast (type_code t)"
    using assms by (cases t) (auto simp: PackSequenceAndType_def type_code_def bit_simps intro!: bit_word_eqI)
qed

section \<open>Appending and parsing\<close>

lemma AppendInternalKey_eq:
  "AppendInternalKey r key =
     r @ user_key key @ EncodeFixed64 (PackSequenceAndType (sequence key) (vtype key))"
  by (simp add: AppendInternalKey_def PutFixed64_def)

lemma length_AppendInternalKey: "length (AppendInternalKey [] key) = InternalKeyEncodingLength key"
  by (simp add: AppendInternalKey_eq InternalKeyEncodingLength_def)

lemma ExtractUserKey_app [simp]: "ExtractUserKey (u @ EncodeFixed64 n) = u"
  by (simp add: ExtractUserKey_def)

lemma trailer_app [simp]: "trailer (u @ EncodeFixed64 n) = n"
  using DecodeFixed64_Encode [of n "[]"] by (simp add: trailer_def)

lemma EncodeFixed64_Decode: "length p = 8 \<Longrightarrow> EncodeFixed64 (DecodeFixed64 p) = p"
proof -
  assume p: "length p = 8"
  then have "le_val p < 2 ^ 64" using le_val_bound [of p] by simp
  then have "unat (word_of_nat (le_val p) :: u64) = le_val p"
    by (simp add: unat_of_nat)
  with p le_bytes_le_val [of p] show ?thesis by (simp add: EncodeFixed64_le DecodeFixed64_le)
qed

lemma internal_key_split: "8 \<le> length k \<Longrightarrow> k = ExtractUserKey k @ EncodeFixed64 (trailer k)"
  by (simp add: ExtractUserKey_def trailer_def EncodeFixed64_Decode)

lemma internal_key_eqI:
  "8 \<le> length a \<Longrightarrow> 8 \<le> length b \<Longrightarrow> ExtractUserKey a = ExtractUserKey b \<Longrightarrow> trailer a = trailer b \<Longrightarrow> a = b"
  using internal_key_split [of a] internal_key_split [of b] by simp

lemma ParseInternalKey_Append:
  assumes "sequence key \<le> kMaxSequenceNumber"
  shows "ParseInternalKey (AppendInternalKey [] key) = Some key"
  using DecodeFixed64_Encode [of "PackSequenceAndType (sequence key) (vtype key)" "[]"] assms
  by (cases "vtype key")
    (simp_all add: ParseInternalKey_def AppendInternalKey_eq PackSequenceAndType_parts Let_def type_code_def)

lemma word_split_8: "PackSequenceAndType (drop_bit 8 w) t = w"
  if "(ucast (w AND 0xff) :: byte) = ucast (type_code t)" for w :: u64
proof -
  have low: "bit w n = bit (type_code t) n" if "n < 8" for n
  proof -
    have "bit (ucast (w AND 0xff) :: byte) n = bit w n"
      using that by (simp only: bit_ucast_iff bit_and_iff bit_255) simp
    moreover have "bit (ucast (type_code t) :: byte) n = bit (type_code t) n"
      using that by (simp add: bit_ucast_iff)
    ultimately show ?thesis
      using \<open>(ucast (w AND 0xff) :: byte) = ucast (type_code t)\<close> by simp
  qed
  have high: "\<not> bit (type_code t) n" if "8 \<le> n" for n
    using that by (cases t) (auto simp: type_code_def bit_simps)
  have "drop_bit 8 w \<le> kMaxSequenceNumber"
    using unat_lt_len [of w] by (simp add: seq_unat unat_drop_8 less_mult_imp_div_less)
  then have "PackSequenceAndType (drop_bit 8 w) t = push_bit 8 (drop_bit 8 w) OR type_code t"
    by (simp add: PackSequenceAndType_def)
  then show ?thesis
  proof (elim ssubst, intro bit_word_eqI)
    fix n assume "n < LENGTH(64)"
    then show "bit (push_bit 8 (drop_bit 8 w) OR type_code t) n = bit w n"
      by (cases "n < 8") (simp_all add: bit_or_iff bit_push_bit_iff bit_drop_bit_eq low high)
  qed
qed

lemma byte_le_1: "b \<le> 1 \<Longrightarrow> b = 0 \<or> b = 1" for b :: byte
proof -
  assume "b \<le> 1"
  then have "unat b = unat (0 :: byte) \<or> unat b = unat (1 :: byte)" by (auto simp: word_le_nat_alt)
  then show ?thesis by (simp only: word_unat_eq_iff)
qed

lemma ParseInternalKey_Some:
  assumes "ParseInternalKey k = Some key"
  shows "AppendInternalKey [] key = k" and "sequence key \<le> kMaxSequenceNumber" and "8 \<le> length k"
proof -
  let ?num = "trailer k" and ?c = "ucast (trailer k AND 0xff) :: byte"
  show len: "8 \<le> length k"
    using assms by (auto simp: ParseInternalKey_def Let_def split: if_splits)
  have c: "?c \<le> 1" and key: "key = \<lparr>user_key = ExtractUserKey k, sequence = drop_bit 8 ?num,
      vtype = (if ?c = 0 then kTypeDeletion else kTypeValue)\<rparr>"
    using assms by (auto simp: ParseInternalKey_def ExtractUserKey_def trailer_def Let_def split: if_splits)
  have "?c = 0 \<or> ?c = 1"
    using c byte_le_1 by blast
  then have "?c = ucast (type_code (vtype key))"
    by (auto simp: key type_code_def)
  then have "PackSequenceAndType (sequence key) (vtype key) = ?num"
    by (simp add: key word_split_8)
  then show "AppendInternalKey [] key = k"
    using internal_key_split [OF len] by (simp add: AppendInternalKey_eq key)
  show "sequence key \<le> kMaxSequenceNumber"
    using unat_lt_len [of ?num] by (simp add: key seq_unat unat_drop_8 less_mult_imp_div_less)
qed

section \<open>The internal comparator keeps the contract\<close>

lemma ikc_Compare_trailer:
  "ikc_Compare ucmp a b =
     (let r = ucmp (ExtractUserKey a) (ExtractUserKey b) in
      if r \<noteq> 0 then r else if trailer b < trailer a then - 1 else if trailer a < trailer b then 1 else 0)"
  by (simp add: ikc_Compare_def Let_def)

locale user_order = key_shortener ucmp uvalid usep usucc for ucmp uvalid usep usucc
begin

definition internal_valid :: "slice \<Rightarrow> bool" where
  "internal_valid k \<longleftrightarrow> 8 \<le> length k \<and> uvalid (ExtractUserKey k)"

lemma internal_less:
  assumes "internal_valid a" "internal_valid b"
  shows "ikc_Compare ucmp a b < 0 \<longleftrightarrow>
     ucmp (ExtractUserKey a) (ExtractUserKey b) < 0 \<or>
     ExtractUserKey a = ExtractUserKey b \<and> trailer b < trailer a"
  using assms cmp_eq [of "ExtractUserKey a" "ExtractUserKey b"]
  by (auto simp: internal_valid_def ikc_Compare_trailer Let_def)

lemma internal_zero:
  assumes "internal_valid a" "internal_valid b"
  shows "ikc_Compare ucmp a b = 0 \<longleftrightarrow> a = b"
  using assms cmp_eq [of "ExtractUserKey a" "ExtractUserKey b"]
  by (auto simp: internal_valid_def ikc_Compare_trailer Let_def intro: internal_key_eqI)

lemma internal_refl: "internal_valid a \<Longrightarrow> ikc_Compare ucmp a a = 0"
  by (simp add: internal_zero)

lemma internal_pos:
  assumes "internal_valid a" "internal_valid b"
  shows "0 < ikc_Compare ucmp a b \<longleftrightarrow> ikc_Compare ucmp b a < 0"
proof (cases "ExtractUserKey a = ExtractUserKey b")
  case True
  with assms show ?thesis by (auto simp: internal_valid_def ikc_Compare_trailer Let_def)
next
  case False
  with assms show ?thesis
    using cmp_eq [of "ExtractUserKey a" "ExtractUserKey b"] cmp_eq [of "ExtractUserKey b" "ExtractUserKey a"]
      gt_iff [of "ExtractUserKey a" "ExtractUserKey b"]
    by (simp add: internal_valid_def ikc_Compare_trailer Let_def)
qed

definition shortened :: "slice \<Rightarrow> slice" where
  "shortened u = u @ EncodeFixed64 (PackSequenceAndType kMaxSequenceNumber kValueTypeForSeek)"

lemma internal_valid_shortened: "uvalid u \<Longrightarrow> internal_valid (shortened u)"
  by (simp add: internal_valid_def shortened_def)

lemma internal_shortened_less:
  "internal_valid k \<Longrightarrow> uvalid u \<Longrightarrow> ucmp (ExtractUserKey k) u < 0 \<Longrightarrow> ikc_Compare ucmp k (shortened u) < 0"
  by (simp add: internal_less internal_valid_shortened) (simp add: shortened_def)

lemma internal_less_shortened:
  "internal_valid k \<Longrightarrow> uvalid u \<Longrightarrow> ucmp u (ExtractUserKey k) < 0 \<Longrightarrow> ikc_Compare ucmp (shortened u) k < 0"
  by (simp add: internal_less internal_valid_shortened) (simp add: shortened_def)

lemma internal_separator_cases:
  assumes "internal_valid s" "internal_valid l" "ikc_Compare ucmp s l < 0 \<or> s = l"
  obtains "ikc_FindShortestSeparator ucmp usep s l = s"
  | u where "u = usep (ExtractUserKey s) (ExtractUserKey l)" "ucmp (ExtractUserKey s) u < 0" "uvalid u" "s \<noteq> l"
      "ucmp (ExtractUserKey s) (ExtractUserKey l) < 0" "ucmp u (ExtractUserKey l) < 0"
      "ikc_FindShortestSeparator ucmp usep s l = shortened u"
proof (cases "length (usep (ExtractUserKey s) (ExtractUserKey l)) < length (ExtractUserKey s) \<and>
    ucmp (ExtractUserKey s) (usep (ExtractUserKey s) (ExtractUserKey l)) < 0")
  case True
  let ?u = "usep (ExtractUserKey s) (ExtractUserKey l)"
  have us: "uvalid (ExtractUserKey s)" "uvalid (ExtractUserKey l)" using assms(1,2) by (simp_all add: internal_valid_def)
  have ne: "ExtractUserKey s \<noteq> ExtractUserKey l" using True us(1) by (auto simp: separator_same)
  then have less: "ucmp (ExtractUserKey s) (ExtractUserKey l) < 0" using assms by (auto simp: internal_less)
  have u: "uvalid ?u" "ucmp ?u (ExtractUserKey l) < 0" using us less by (simp_all add: separator_valid separator_less)
  have "ikc_Compare ucmp s (shortened ?u) < 0" "ikc_Compare ucmp (shortened ?u) l < 0"
    using True u assms(1,2) by (simp_all add: internal_shortened_less internal_less_shortened)
  then have "ikc_FindShortestSeparator ucmp usep s l = shortened ?u"
    using True by (simp add: ikc_FindShortestSeparator_def Let_def shortened_def PutFixed64_def)
  then show thesis using that(2) [OF HOL.refl] True u less ne by blast
next
  case False
  then have "ikc_FindShortestSeparator ucmp usep s l = s" by (auto simp: ikc_FindShortestSeparator_def Let_def)
  then show thesis by (rule that(1))
qed

lemma internal_successor_cases:
  assumes "internal_valid s"
  obtains "ikc_FindShortSuccessor ucmp usucc s = s"
  | u where "u = usucc (ExtractUserKey s)" "ucmp (ExtractUserKey s) u < 0" "uvalid u"
      "ikc_FindShortSuccessor ucmp usucc s = shortened u"
proof (cases "length (usucc (ExtractUserKey s)) < length (ExtractUserKey s) \<and> ucmp (ExtractUserKey s) (usucc (ExtractUserKey s)) < 0")
  case True
  have u: "uvalid (usucc (ExtractUserKey s))" using assms successor_valid by (simp add: internal_valid_def)
  then have "ikc_Compare ucmp s (shortened (usucc (ExtractUserKey s))) < 0"
    using True assms by (simp add: internal_shortened_less)
  then have "ikc_FindShortSuccessor ucmp usucc s = shortened (usucc (ExtractUserKey s))"
    using True by (simp add: ikc_FindShortSuccessor_def Let_def shortened_def PutFixed64_def)
  then show thesis using that(2) [OF HOL.refl] True u by blast
next
  case False
  then have "ikc_FindShortSuccessor ucmp usucc s = s" by (auto simp: ikc_FindShortSuccessor_def Let_def)
  then show thesis by (rule that(1))
qed

sublocale internal: key_shortener "ikc_Compare ucmp" internal_valid
  "ikc_FindShortestSeparator ucmp usep" "ikc_FindShortSuccessor ucmp usucc"
proof
  fix a b c s l :: slice
  show "internal_valid a \<Longrightarrow> internal_valid b \<Longrightarrow> ikc_Compare ucmp a b = 0 \<longleftrightarrow> a = b"
    by (rule internal_zero)
  show "internal_valid a \<Longrightarrow> internal_valid b \<Longrightarrow> ikc_Compare ucmp a b < 0 \<longleftrightarrow> 0 < ikc_Compare ucmp b a"
    by (simp add: internal_pos)
  show "internal_valid a \<Longrightarrow> internal_valid b \<Longrightarrow> internal_valid c \<Longrightarrow> ikc_Compare ucmp a b < 0 \<Longrightarrow>
      ikc_Compare ucmp b c < 0 \<Longrightarrow> ikc_Compare ucmp a c < 0"
    by (auto simp: internal_less) (auto simp: internal_valid_def intro: cmp_trans)
  assume s: "internal_valid s"
  show "internal_valid (ikc_FindShortSuccessor ucmp usucc s)"
    using s by (cases rule: internal_successor_cases [OF s]) (auto simp: internal_valid_shortened)
  show "ikc_Compare ucmp s (ikc_FindShortSuccessor ucmp usucc s) \<le> 0"
    using s by (cases rule: internal_successor_cases [OF s]) (auto simp: internal_refl dest: internal_shortened_less)
  show "ikc_FindShortestSeparator ucmp usep s s = s"
    by (cases rule: internal_separator_cases [OF s s]) auto
  assume l: "internal_valid l" and less: "ikc_Compare ucmp s l < 0"
  note sep = internal_separator_cases [OF s l, OF disjI1, OF less]
  show "internal_valid (ikc_FindShortestSeparator ucmp usep s l)"
    using s by (cases rule: sep) (auto simp: internal_valid_shortened)
  show "ikc_Compare ucmp s (ikc_FindShortestSeparator ucmp usep s l) \<le> 0"
    using s by (cases rule: sep) (auto simp: internal_refl dest: internal_shortened_less)
  show "ikc_Compare ucmp (ikc_FindShortestSeparator ucmp usep s l) l < 0"
    using less l by (cases rule: sep) (auto intro: internal_less_shortened)
qed

end

interpretation bytewise: user_order Compare "\<lambda>_. True" FindShortestSeparator FindShortSuccessor
  by unfold_locales

end
