(* ===== verification/Lv_Hash.thy ===== *)
theory Lv_Hash
  imports Lv_Dbformat
begin

text \<open>
  \<open>util/hash.cc\<close>, the bloom filter of \<open>util/bloom.cc\<close> and the generator of \<open>util/random.h\<close>. The locale
  \<open>filter_policy\<close> is the contract of \<open>include/leveldb/filter_policy.h\<close>: a filter is appended, and it
  matches every key it was built from. It is interpreted on the bloom filter, and again on the
  wrapper \<open>InternalFilterPolicy\<close> of \<open>db/dbformat.cc\<close> over any policy.
\<close>

section \<open>Hash\<close>

definition hash_m :: u32 where "hash_m = 0xc6a4a793"

fun Hash_loop :: "slice \<Rightarrow> u32 \<Rightarrow> slice \<times> u32" where
  "Hash_loop (a # b # c # d # data) h =
     (let w = DecodeFixed32 (a # b # c # d # data); h = h + w; h = h * hash_m; h = h XOR drop_bit 16 h in
      Hash_loop data h)"
| "Hash_loop data h = (data, h)"

definition Hash_last :: "u32 \<Rightarrow> u32" where
  "Hash_last h = (let h = h * hash_m in h XOR drop_bit 24 h)"

definition Hash :: "slice \<Rightarrow> u32 \<Rightarrow> u32" where
  "Hash data seed =
     (let n = word_of_nat (length data) :: u64;
          (rest, h) = Hash_loop data (seed XOR ucast (n * ucast hash_m)) in
      case rest of
        [a, b, c] \<Rightarrow> Hash_last (h + push_bit 16 (ucast c) + push_bit 8 (ucast b) + ucast a)
      | [a, b] \<Rightarrow> Hash_last (h + push_bit 8 (ucast b) + ucast a)
      | [a] \<Rightarrow> Hash_last (h + ucast a)
      | _ \<Rightarrow> h)"

section \<open>The bloom filter\<close>

definition BloomHash :: "slice \<Rightarrow> u32" where
  "BloomHash key = Hash key 0xbc9f1d34"

record BloomFilterPolicy =
  bits_per_key :: u64
  bf_k :: u64

text \<open>
  The constructor, for \<open>bits_per_key \<ge> 0\<close>: the product with 0.69 is rounded down, and since no multiple
  of 0.69 below the cap is an integer except 0 the rounding of \<open>double\<close> does not matter.
\<close>

definition BloomFilterPolicy_init :: "nat \<Rightarrow> BloomFilterPolicy" where
  "BloomFilterPolicy_init n =
     (let k = n * 69 div 100; k = (if k < 1 then 1 else k); k = (if k > 30 then 30 else k) in
      \<lparr>bits_per_key = word_of_nat n, bf_k = word_of_nat k\<rparr>)"

definition bloom_delta :: "u32 \<Rightarrow> u32" where
  "bloom_delta h = drop_bit 17 h OR push_bit 15 h"

fun bloom_add :: "nat \<Rightarrow> u32 \<Rightarrow> u32 \<Rightarrow> u64 \<Rightarrow> slice \<Rightarrow> slice" where
  "bloom_add 0 h delta bits arr = arr"
| "bloom_add (Suc j) h delta bits arr =
     (let bitpos = unat (ucast h mod bits) in
      bloom_add j (h + delta) delta bits
        (arr[bitpos div 8 := arr ! (bitpos div 8) OR push_bit (bitpos mod 8) 1]))"

fun bloom_keys :: "nat \<Rightarrow> u64 \<Rightarrow> slice list \<Rightarrow> slice \<Rightarrow> slice" where
  "bloom_keys k bits [] arr = arr"
| "bloom_keys k bits (key # keys) arr =
     (let h = BloomHash key in bloom_keys k bits keys (bloom_add k h (bloom_delta h) bits arr))"

definition bloom_bytes :: "BloomFilterPolicy \<Rightarrow> nat \<Rightarrow> u64" where
  "bloom_bytes p n =
     (let bits = word_of_nat n * bits_per_key p; bits = (if bits < 64 then 64 else bits) in (bits + 7) div 8)"

definition CreateFilter :: "BloomFilterPolicy \<Rightarrow> slice list \<Rightarrow> slice \<Rightarrow> slice" where
  "CreateFilter p keys dst =
     (let bytes = bloom_bytes p (length keys); bits = bytes * 8 in
      dst @ bloom_keys (unat (bf_k p)) bits keys (replicate (unat bytes) 0) @ [ucast (bf_k p)])"

fun bloom_probe :: "nat \<Rightarrow> u32 \<Rightarrow> u32 \<Rightarrow> u64 \<Rightarrow> slice \<Rightarrow> bool" where
  "bloom_probe 0 h delta bits arr = True"
| "bloom_probe (Suc j) h delta bits arr =
     (let bitpos = unat (ucast h mod bits) in
      if arr ! (bitpos div 8) AND push_bit (bitpos mod 8) 1 = 0 then False
      else bloom_probe j (h + delta) delta bits arr)"

definition KeyMayMatch :: "slice \<Rightarrow> slice \<Rightarrow> bool" where
  "KeyMayMatch key bloom_filter =
     (let len = length bloom_filter in
      if len < 2 then False
      else let bits = word_of_nat ((len - 1) * 8) :: u64; k = scast (bloom_filter ! (len - 1)) :: u64 in
        if k > 30 then True
        else let h = BloomHash key in bloom_probe (unat k) h (bloom_delta h) bits bloom_filter)"

section \<open>The contract of a filter policy\<close>

locale filter_policy =
  fixes create :: "slice list \<Rightarrow> slice \<Rightarrow> slice" and may_match :: "slice \<Rightarrow> slice \<Rightarrow> bool"
    and ok :: "slice list \<Rightarrow> bool"
  assumes create_appends: "create keys dst = dst @ create keys []"
    and may_match_create: "ok keys \<Longrightarrow> key \<in> set keys \<Longrightarrow> may_match key (create keys [])"
begin

lemma no_false_negative:
  assumes "ok keys" "\<not> may_match key (drop (length dst) (create keys dst))"
  shows "key \<notin> set keys"
  using assms may_match_create create_appends [of keys dst] by auto

end

text \<open>A policy of the user is wrapped by \<open>InternalFilterPolicy\<close>, which satisfies the contract again.\<close>

locale user_policy = filter_policy create may_match ok for create may_match ok

sublocale user_policy \<subseteq> internal: filter_policy "ifp_CreateFilter create" "ifp_KeyMayMatch may_match"
  "\<lambda>keys. ok (map ExtractUserKey keys)"
proof
  fix keys :: "slice list" and dst key
  show "ifp_CreateFilter create keys dst = dst @ ifp_CreateFilter create keys []"
    unfolding ifp_CreateFilter_def by (rule create_appends)
  show "ok (map ExtractUserKey keys) \<Longrightarrow> key \<in> set keys \<Longrightarrow>
      ifp_KeyMayMatch may_match key (ifp_CreateFilter create keys [])"
    by (simp add: ifp_CreateFilter_def ifp_KeyMayMatch_def may_match_create)
qed

section \<open>The bloom filter keeps the contract\<close>

text \<open>The bit positions that the double hashing of a key visits.\<close>

fun probes :: "nat \<Rightarrow> u32 \<Rightarrow> u32 \<Rightarrow> u64 \<Rightarrow> nat list" where
  "probes 0 h delta bits = []"
| "probes (Suc j) h delta bits = unat (ucast h mod bits) # probes j (h + delta) delta bits"

definition bit_at :: "slice \<Rightarrow> nat \<Rightarrow> bool" where
  "bit_at arr p \<longleftrightarrow> bit (arr ! (p div 8)) (p mod 8)"

lemma bloom_probe_iff: "bloom_probe j h d bits arr \<longleftrightarrow> (\<forall>p \<in> set (probes j h d bits). bit_at arr p)"
  by (induction j h d bits arr rule: bloom_probe.induct)
    (auto simp: Let_def bit_at_def push_bit_of_1 and_exp_eq_0_iff_not_bit)

lemma length_bloom_add [simp]: "length (bloom_add j h d bits arr) = length arr"
  by (induction j h d bits arr rule: bloom_add.induct) (auto simp: Let_def)

lemma length_bloom_keys [simp]: "length (bloom_keys k bits keys arr) = length arr"
  by (induction k bits keys arr rule: bloom_keys.induct) (auto simp: Let_def)

lemma bit_at_set:
  assumes "p div 8 < length arr"
  shows "bit_at (arr[p div 8 := arr ! (p div 8) OR 2 ^ (p mod 8)]) q \<longleftrightarrow> q = p \<or> bit_at arr q"
proof (cases "q div 8 = p div 8")
  case True
  then have "q = p \<longleftrightarrow> q mod 8 = p mod 8" by (metis div_mult_mod_eq)
  moreover have "p mod 8 < 8" by simp
  ultimately show ?thesis
    using True assms by (auto simp: bit_at_def bit_or_iff bit_exp_iff)
next
  case False
  then show ?thesis by (auto simp: bit_at_def)
qed

lemma unat_mod_less: "m \<noteq> 0 \<Longrightarrow> unat (w mod m) < unat m" for m :: "'a::len word"
  by (simp add: unat_mod_distrib unat_gt_0)

lemma probes_less: "bits \<noteq> 0 \<Longrightarrow> p \<in> set (probes j h d bits) \<Longrightarrow> p < unat bits"
  by (induction j h d bits rule: probes.induct) (auto simp: unat_mod_less)

lemma bit_at_bloom_add:
  assumes "unat bits = 8 * length arr" "bits \<noteq> 0"
  shows "bit_at (bloom_add j h d bits arr) q \<longleftrightarrow> q \<in> set (probes j h d bits) \<or> bit_at arr q"
  using assms
proof (induction j h d bits arr rule: bloom_add.induct)
  case (1 h delta bits arr)
  then show ?case by simp
next
  case (2 j h delta bits arr)
  have "unat (ucast h mod bits) div 8 < length arr"
    using unat_mod_less [OF 2(3), of "ucast h"] 2(2) by simp
  with 2 show ?case by (auto simp: Let_def bit_at_set)
qed

lemma bit_at_bloom_keys:
  assumes "unat bits = 8 * length arr" "bits \<noteq> 0"
  shows "bit_at (bloom_keys k bits keys arr) q \<longleftrightarrow>
    (\<exists>key \<in> set keys. q \<in> set (probes k (BloomHash key) (bloom_delta (BloomHash key)) bits)) \<or> bit_at arr q"
  using assms
  by (induction k bits keys arr rule: bloom_keys.induct) (auto simp: Let_def bit_at_bloom_add)

lemma bit_at_append: "p < 8 * length arr \<Longrightarrow> bit_at (arr @ r) p = bit_at arr p"
  by (simp add: bit_at_def nth_append less_mult_imp_div_less mult.commute)

lemma KeyMayMatch_CreateFilter:
  assumes bytes: "bloom_bytes p (length keys) \<noteq> 0" and k: "bf_k p \<le> 30" and key: "key \<in> set keys"
  shows "KeyMayMatch key (CreateFilter p keys [])"
proof -
  let ?bytes = "bloom_bytes p (length keys)"
  let ?bits = "?bytes * 8" and ?k = "unat (bf_k p)" and ?h = "BloomHash key"
  let ?arr = "bloom_keys ?k ?bits keys (replicate (unat ?bytes) 0)"
  have div8: "unat (w div 8) < 2 ^ 61" for w :: u64
    using unat_lt_len [of w] by (simp add: unat_div_distrib less_mult_imp_div_less)
  have small: "unat ?bytes < 2 ^ 61"
    unfolding bloom_bytes_def Let_def by (rule div8)
  then have bits: "unat ?bits = 8 * unat ?bytes"
    by (simp add: unat_word_ariths)
  have pos: "0 < unat ?bytes" using bytes by (simp add: unat_gt_0)
  have bits0: "?bits \<noteq> 0" using bits pos by (metis mult_is_0 nat_less_le unat_0 zero_neq_numeral)
  have len: "length ?arr = unat ?bytes" by simp
  have bits_eq: "(word_of_nat (unat ?bytes * 8) :: u64) = ?bits"
    by simp
  have "unat (bf_k p) \<le> 30" using k by (simp add: word_le_nat_alt)
  then have k_byte: "(scast (ucast (bf_k p) :: byte) :: u64) = bf_k p"
  proof -
    have "bf_k p = word_of_nat (unat (bf_k p))" by simp
    moreover have "unat (bf_k p) < 31" using \<open>unat (bf_k p) \<le> 30\<close> by simp
    moreover have "scast (ucast (word_of_nat n :: u64) :: byte) = (word_of_nat n :: u64)" if "n < 31" for n
      using that by (simp add: less_Suc_eq eval_nat_numeral, elim disjE) simp_all
    ultimately show ?thesis by metis
  qed
  have "bloom_probe ?k ?h (bloom_delta ?h) ?bits (?arr @ [ucast (bf_k p)])"
    unfolding bloom_probe_iff
  proof
    fix q assume q: "q \<in> set (probes ?k ?h (bloom_delta ?h) ?bits)"
    then have "q < 8 * length ?arr" using probes_less [OF bits0 q] bits by simp
    with q key show "bit_at (?arr @ [ucast (bf_k p)]) q"
      by (simp add: bit_at_append) (subst bit_at_bloom_keys, use bits bits0 in auto)
  qed
  with pos k show ?thesis
    by (simp add: KeyMayMatch_def CreateFilter_def Let_def nth_append k_byte bits_eq)
qed

text \<open>The size of the filter is computed without wrap-around.\<close>

definition bloom_ok :: "nat \<Rightarrow> slice list \<Rightarrow> bool" where
  "bloom_ok n keys \<longleftrightarrow> length keys * n + 7 < 2 ^ 64"

lemma bloom_bytes_pos:
  assumes "bloom_ok n keys"
  shows "bloom_bytes (BloomFilterPolicy_init n) (length keys) \<noteq> 0"
proof -
  let ?w = "word_of_nat (length keys) * word_of_nat n :: u64"
  let ?bits = "if ?w < 64 then 64 else ?w"
  have "?w = word_of_nat (length keys * n)" by simp
  then have "unat ?w = length keys * n"
    using assms by (simp only: unat_of_nat) (simp add: bloom_ok_def)
  then have "unat ?bits + 7 < 2 ^ 64"
    using assms by (auto simp: bloom_ok_def)
  then have "unat (?bits + 7) = unat ?bits + 7"
    by (simp add: unat_word_ariths)
  then have "unat ((?bits + 7) div 8) \<noteq> 0"
    unfolding unat_div_distrib by (auto simp: word_less_nat_alt)
  then show ?thesis
    unfolding bloom_bytes_def BloomFilterPolicy_init_def Let_def BloomFilterPolicy.simps
    by (metis unat_0)
qed

lemma BloomFilterPolicy_init_k: "bf_k (BloomFilterPolicy_init n) \<le> 30"
  by (auto simp: BloomFilterPolicy_init_def Let_def word_le_nat_alt unat_of_nat intro: mod_less_eq_dividend [THEN le_trans])

lemma CreateFilter_append: "CreateFilter p keys dst = dst @ CreateFilter p keys []"
  by (simp add: CreateFilter_def Let_def)

interpretation bloom: user_policy "CreateFilter (BloomFilterPolicy_init n)" KeyMayMatch "bloom_ok n" for n
  by unfold_locales (rule CreateFilter_append, rule KeyMayMatch_CreateFilter,
    auto simp: bloom_bytes_pos BloomFilterPolicy_init_k)

section \<open>Random numbers\<close>

text \<open>The generator is its seed; \<open>Next\<close> returns the number and the new seed.\<close>

definition Random_init :: "u32 \<Rightarrow> u32" where
  "Random_init s = (let seed = s AND 0x7fffffff in if seed = 0 \<or> seed = 2147483647 then 1 else seed)"

definition Next :: "u32 \<Rightarrow> u32 \<times> u32" where
  "Next seed =
     (let M = 2147483647; A = 16807 :: u64;
          product = ucast seed * A;
          seed = ucast (drop_bit 31 product + (product AND ucast M));
          seed = (if seed > M then seed - M else seed) in
      (seed, seed))"

definition Uniform :: "u32 \<Rightarrow> int \<Rightarrow> u32 \<times> u32" where
  "Uniform seed n = (let (r, seed) = Next seed in (r mod word_of_int n, seed))"

definition OneIn :: "u32 \<Rightarrow> int \<Rightarrow> bool \<times> u32" where
  "OneIn seed n = (let (r, seed) = Next seed in (r mod word_of_int n = 0, seed))"

definition Skewed :: "u32 \<Rightarrow> int \<Rightarrow> u32 \<times> u32" where
  "Skewed seed max_log =
     (let (b, seed) = Uniform seed (max_log + 1) in Uniform seed (push_bit (unat b) 1))"

definition seed_ok :: "u32 \<Rightarrow> bool" where
  "seed_ok s \<longleftrightarrow> 0 < unat s \<and> unat s < 2147483647"

lemma Random_init_ok: "seed_ok (Random_init s)"
proof -
  have m: "(0x7fffffff :: u32) = mask 31" by (simp add: mask_eq_exp_minus_1)
  have "unat (s AND 0x7fffffff) < 2 ^ 31"
    unfolding m take_bit_eq_mask [symmetric] by (simp only: unsigned_take_bit_eq take_bit_nat_less_exp)
  then have le: "unat (s AND 0x7fffffff) \<le> 2147483647" by simp
  show ?thesis
  proof (cases "s AND 0x7fffffff = 0 \<or> s AND 0x7fffffff = 2147483647")
    case True
    then show ?thesis by (auto simp: Random_init_def seed_ok_def)
  next
    case False
    then have "unat (s AND 0x7fffffff) \<noteq> unat (0 :: u32)" "unat (s AND 0x7fffffff) \<noteq> unat (2147483647 :: u32)"
      unfolding word_unat_eq_iff by blast+
    with False le show ?thesis by (simp add: Random_init_def seed_ok_def Let_def)
  qed
qed

text \<open>The reduction modulo the Mersenne prime by shifting and adding.\<close>

lemma mersenne_coprime:
  assumes "0 < (n :: nat)" "n < 2147483647"
  shows "n * 16807 mod 2147483647 \<noteq> 0"
proof
  assume "n * 16807 mod 2147483647 = 0"
  then have "n * 16807 * 1407677000 mod 2147483647 = 0"
    by (metis mod_mult_left_eq mult_zero_left mod_0)
  moreover have "n * 16807 * 1407677000 = n + 2147483647 * (n * 11017)"
    by simp
  ultimately have "n mod 2147483647 = 0"
    by (metis mod_mult_self2)
  with assms show False by simp
qed

lemma mersenne_mod:
  assumes "p < 2 ^ 31 * 16807" and "p mod 2147483647 \<noteq> 0"
  shows "p div 2 ^ 31 + p mod 2 ^ 31 < 2 * 2147483647"
    and "(let s = p div 2 ^ 31 + p mod 2 ^ 31 in if s > 2147483647 then s - 2147483647 else s)
      = p mod (2147483647 :: nat)"
proof -
  let ?s = "p div 2 ^ 31 + p mod 2 ^ 31"
  have "p mod 2 ^ 31 < 2 ^ 31" "p div 2 ^ 31 < 16807" using assms(1) by (simp_all add: less_mult_imp_div_less)
  then show s: "?s < 2 * 2147483647" by simp
  have "p = 2147483647 * (p div 2 ^ 31) + ?s"
    using div_mult_mod_eq [of p "2 ^ 31"] by simp
  then have ps: "p mod 2147483647 = ?s mod 2147483647"
    by (metis mod_mult_self4)
  have ne: "?s \<noteq> 2147483647" using ps assms(2) by (metis mod_self)
  show "(let s = ?s in if s > 2147483647 then s - 2147483647 else s) = p mod 2147483647"
  proof (cases "?s > 2147483647")
    case True
    then have "?s mod 2147483647 = (?s - 2147483647) mod 2147483647"
      by (intro le_mod_geq) (rule less_imp_le)
    also have "\<dots> = ?s - 2147483647" using s by (intro mod_less) linarith
    finally show ?thesis using True ps by (simp only: Let_def if_True)
  next
    case False
    then have "?s mod 2147483647 = ?s" using ne by (intro mod_less) linarith
    with False ps show ?thesis by (simp only: Let_def if_False)
  qed
qed

lemma mersenne_sub:
  "unat w = s \<Longrightarrow> unat (if w > 2147483647 then w - 2147483647 else w) = (if s > 2147483647 then s - 2147483647 else s)"
  for w :: u32
  by (auto simp: word_less_nat_alt unat_sub_if_size)

lemma Next_step:
  assumes "seed_ok seed"
  shows "Next seed = (word_of_nat (unat seed * 16807 mod 2147483647), word_of_nat (unat seed * 16807 mod 2147483647))"
proof -
  let ?p = "unat seed * 16807"
  have seed: "0 < unat seed" "unat seed < 2147483647" using assms by (simp_all add: seed_ok_def)
  have p: "?p < 2 ^ 31 * 16807" using seed by simp
  note m = mersenne_mod [OF p mersenne_coprime [OF seed]]
  let ?q = "ucast seed * 16807 :: u64" and ?s = "unat seed * 16807 div 2 ^ 31 + unat seed * 16807 mod 2 ^ 31"
  have product: "unat ?q = ?p"
    using p by (simp add: unat_word_ariths unat_ucast_up)
  have M: "(ucast (2147483647 :: u32) :: u64) = mask 31" by (simp add: mask_eq_exp_minus_1)
  have high: "unat (drop_bit 31 ?q) = ?p div 2 ^ 31"
    unfolding unat_drop_bit_eq product by (rule drop_bit_eq_div)
  have low: "unat (?q AND ucast (2147483647 :: u32)) = ?p mod 2 ^ 31"
    unfolding M take_bit_eq_mask [symmetric] unsigned_take_bit_eq product by (rule take_bit_eq_mod)
  have sum: "unat (drop_bit 31 ?q + (?q AND ucast (2147483647 :: u32))) = ?s"
    using m(1) unfolding unat_word_ariths high low by simp
  have s32: "unat (ucast (drop_bit 31 ?q + (?q AND ucast (2147483647 :: u32))) :: u32) = ?s" (is "unat ?w = _")
    unfolding unsigned_ucast_eq sum using m(1) by (simp add: take_bit_nat_eq_self_iff)
  have "unat (if ?w > 2147483647 then ?w - 2147483647 else ?w)
      = (if ?s > 2147483647 then ?s - 2147483647 else ?s)"
    by (rule mersenne_sub [OF s32])
  also have "\<dots> = ?p mod 2147483647" using m(2) by (simp only: Let_def)
  finally have "(if ?w > 2147483647 then ?w - 2147483647 else ?w) = word_of_nat (?p mod 2147483647)"
    by (rule eq_word_of_nat)
  then show ?thesis by (simp only: Next_def Let_def)
qed

lemma Next_ok:
  assumes "seed_ok seed"
  shows "unat (fst (Next seed)) = unat seed * 16807 mod 2147483647" and "snd (Next seed) = fst (Next seed)"
    and "seed_ok (snd (Next seed))"
proof -
  let ?n = "unat seed * 16807 mod 2147483647"
  have n: "?n < 2147483647" "0 < ?n"
    using mersenne_coprime [of "unat seed"] assms by (simp_all add: seed_ok_def)
  then have "unat (word_of_nat ?n :: u32) = ?n" by (simp add: unat_of_nat)
  then show "unat (fst (Next seed)) = ?n" "snd (Next seed) = fst (Next seed)" "seed_ok (snd (Next seed))"
    using n by (simp_all add: Next_step [OF assms] seed_ok_def)
qed

text \<open>The generator never falls into a shorter cycle than that of its seed: it is injective.\<close>

lemma Next_inj:
  assumes "seed_ok a" "seed_ok b" "Next a = Next b"
  shows "a = b"
proof -
  let ?M = "2147483647 :: nat"
  have inv: "n = n * 16807 mod ?M * 1407677000 mod ?M" if "n < ?M" for n
  proof -
    have "n * 16807 mod ?M * 1407677000 mod ?M = n * 16807 * 1407677000 mod ?M" by (rule mod_mult_left_eq)
    also have "n * 16807 * 1407677000 = n + ?M * (n * 11017)" by simp
    also have "\<dots> mod ?M = n" using that by (simp only: mod_mult_self2 mod_less)
    finally show ?thesis by simp
  qed
  have "unat a * 16807 mod ?M = unat b * 16807 mod ?M"
    using Next_ok(1) [OF assms(1)] Next_ok(1) [OF assms(2)] assms(3) by simp
  then have "unat a = unat b"
    using inv [of "unat a"] inv [of "unat b"] assms(1,2) by (simp add: seed_ok_def)
  then show ?thesis by (simp only: word_unat_eq_iff)
qed

end
