(* ===== verification/Lv_Logging.thy ===== *)
theory Lv_Logging
  imports Lv_Coding
begin

text \<open>
  Text and numbers: \<open>util/logging.cc\<close>. \<open>decimal\<close> and \<open>hex2\<close> are the conversions \<open>%llu\<close> and \<open>%02x\<close> of
  \<open>snprintf\<close>; the lemmas show that \<open>ConsumeDecimalNumber\<close> reads exactly the decimal digits, with the
  overflow test in place of \<open>strtoull\<close>.
\<close>

definition str :: "string \<Rightarrow> slice" where
  "str s = map (\<lambda>c. word_of_nat (of_char c)) s"

lemma length_str [simp]: "length (str s) = length s"
  by (simp add: str_def)

definition digit :: "nat \<Rightarrow> byte" where
  "digit d = word_of_nat (48 + d)"

fun decimal :: "nat \<Rightarrow> slice" where
  "decimal n = (if n < 10 then [digit n] else decimal (n div 10) @ [digit (n mod 10)])"

declare decimal.simps [simp del]

definition hex_digit :: "nat \<Rightarrow> byte" where
  "hex_digit d = (if d < 10 then word_of_nat (48 + d) else word_of_nat (87 + d))"

definition hex2 :: "nat \<Rightarrow> slice" where
  "hex2 n = [hex_digit (n div 16), hex_digit (n mod 16)]"

definition AppendNumberTo :: "slice \<Rightarrow> u64 \<Rightarrow> slice" where
  "AppendNumberTo s num = s @ decimal (unat num)"

fun AppendEscapedStringTo :: "slice \<Rightarrow> slice \<Rightarrow> slice" where
  "AppendEscapedStringTo s [] = s"
| "AppendEscapedStringTo s (c # cs) =
     AppendEscapedStringTo
       (if (32 :: int) \<le> sint c \<and> sint c \<le> 126 then s @ [c] else s @ [92, 120] @ hex2 (unat c)) cs"

definition NumberToString :: "u64 \<Rightarrow> slice" where
  "NumberToString num = AppendNumberTo [] num"

definition EscapeString :: "slice \<Rightarrow> slice" where
  "EscapeString v = AppendEscapedStringTo [] v"

text \<open>
  The loop of \<open>ConsumeDecimalNumber\<close>: \<open>None\<close> is the overflow return, else the rest of the input, the value
  and the number of digits.
\<close>

definition is_digit :: "byte \<Rightarrow> bool" where
  "is_digit c \<longleftrightarrow> 48 \<le> c \<and> c \<le> 57"

fun decimal_loop :: "slice \<Rightarrow> u64 \<Rightarrow> nat \<Rightarrow> (slice \<times> u64 \<times> nat) option" where
  "decimal_loop [] v digits = Some ([], v, digits)"
| "decimal_loop (c # cs) v digits =
     (if is_digit c
      then let delta = c - 48; kMaxUint64 = NOT 0 :: u64 in
        if v > kMaxUint64 div 10 \<or> (v = kMaxUint64 div 10 \<and> ucast delta > kMaxUint64 mod 10) then None
        else decimal_loop cs (v * 10 + ucast delta) (digits + 1)
      else Some (c # cs, v, digits))"

definition ConsumeDecimalNumber :: "slice \<Rightarrow> (u64 \<times> slice) option" where
  "ConsumeDecimalNumber inp =
     (case decimal_loop inp 0 0 of
        None \<Rightarrow> None
      | Some (rest, v, digits) \<Rightarrow> if digits > 0 then Some (v, rest) else None)"

section \<open>Reading decimal numbers\<close>

definition digit_value :: "byte \<Rightarrow> nat" where
  "digit_value c = unat c - 48"

definition digits_value :: "nat \<Rightarrow> slice \<Rightarrow> nat" where
  "digits_value = foldl (\<lambda>v c. 10 * v + digit_value c)"

lemma is_digit_nat: "is_digit c \<longleftrightarrow> 48 \<le> unat c \<and> unat c \<le> 57"
  by (simp add: is_digit_def word_le_nat_alt)

lemma digit_ok: "d < 10 \<Longrightarrow> is_digit (digit d) \<and> digit_value (digit d) = d"
proof -
  assume "d < 10"
  then have "unat (digit d) = 48 + d" unfolding digit_def by (simp only: unat_of_nat) simp
  with \<open>d < 10\<close> show ?thesis by (simp add: is_digit_nat digit_value_def)
qed

lemma unat_delta: "is_digit c \<Longrightarrow> unat (c - 48) = digit_value c \<and> digit_value c < 10"
  by (auto simp: is_digit_nat digit_value_def unat_sub_if_size)

lemma digits_value_mono: "v \<le> digits_value v ds"
proof (induction ds arbitrary: v)
  case Nil
  then show ?case by (simp add: digits_value_def)
next
  case (Cons d ds)
  have "v \<le> 10 * v + digit_value d" by simp
  also have "\<dots> \<le> digits_value v (d # ds)"
    using Cons [of "10 * v + digit_value d"] by (simp add: digits_value_def)
  finally show ?case .
qed

text \<open>The test before the multiplication says exactly whether the next value fits in 64 bits.\<close>

lemma overflow_test:
  fixes v :: u64
  assumes "d < 10" "unat (w :: u64) = d"
  shows "v > NOT 0 div 10 \<or> (v = NOT 0 div 10 \<and> w > NOT 0 mod 10) \<longleftrightarrow> 2 ^ 64 \<le> 10 * unat v + d"
proof -
  have "unat (NOT 0 div 10 :: u64) = 1844674407370955161" "unat (NOT 0 mod 10 :: u64) = 5"
    by simp_all
  then show ?thesis using assms by (auto simp: word_less_nat_alt word_unat_eq_iff)
qed

lemma decimal_loop_spec:
  assumes "\<forall>c \<in> set ds. is_digit c" "r = [] \<or> \<not> is_digit (hd r)"
  shows "decimal_loop (ds @ r) v n =
    (if digits_value (unat v) ds < 2 ^ 64
     then Some (r, word_of_nat (digits_value (unat v) ds), n + length ds) else None)"
  using assms
proof (induction ds arbitrary: v n)
  case Nil
  then show ?case using unat_lt_len [of v] by (cases r) (auto simp: digits_value_def)
next
  case (Cons c ds)
  let ?d = "digit_value c" and ?w = "ucast (c - 48) :: u64"
  have c: "is_digit c" using Cons.prems by simp
  have w: "unat ?w = ?d" using unat_delta [OF c] by (simp add: unat_ucast_up)
  have d: "?d < 10" using unat_delta [OF c] by simp
  note test = overflow_test [OF d w, of v]
  show ?case
  proof (cases "2 ^ 64 \<le> 10 * unat v + ?d")
    case True
    then have "\<not> digits_value (unat v) (c # ds) < 2 ^ 64"
      using digits_value_mono [of "10 * unat v + ?d" ds] by (simp add: digits_value_def)
    with True test c show ?thesis by (simp add: Let_def)
  next
    case False
    then have "unat (v * 10 + ?w) = 10 * unat v + ?d"
      using w by (simp add: unat_word_ariths)
    moreover have "digits_value (unat v) (c # ds) = digits_value (10 * unat v + ?d) ds"
      by (simp add: digits_value_def)
    moreover have "decimal_loop ((c # ds) @ r) v n = decimal_loop (ds @ r) (v * 10 + ?w) (n + 1)"
      using False c unfolding test [symmetric]
      by (simp only: append_Cons decimal_loop.simps Let_def if_True if_False)
    ultimately show ?thesis
      using Cons.prems Cons.IH [of "v * 10 + ?w" "n + 1"] by simp
  qed
qed

lemma ConsumeDecimalNumber_spec:
  assumes "\<forall>c \<in> set ds. is_digit c" "r = [] \<or> \<not> is_digit (hd r)" "ds \<noteq> []"
  shows "ConsumeDecimalNumber (ds @ r) =
    (if digits_value 0 ds < 2 ^ 64 then Some (word_of_nat (digits_value 0 ds), r) else None)"
  using assms(3) decimal_loop_spec [OF assms(1,2), of 0 0] by (simp add: ConsumeDecimalNumber_def)

lemma ConsumeDecimalNumber_none:
  "r = [] \<or> \<not> is_digit (hd r) \<Longrightarrow> ConsumeDecimalNumber r = None"
  by (cases r) (simp_all add: ConsumeDecimalNumber_def)

lemma digits_value_snoc: "digits_value v (ds @ [c]) = 10 * digits_value v ds + digit_value c"
  by (simp add: digits_value_def)

lemma decimal_spec: "decimal n \<noteq> [] \<and> (\<forall>c \<in> set (decimal n). is_digit c) \<and> digits_value 0 (decimal n) = n"
proof (induction n rule: decimal.induct)
  case (1 n)
  show ?case
  proof (cases "n < 10")
    case True
    then show ?thesis by (subst (1 2 3) decimal.simps) (simp add: digit_ok digits_value_def)
  next
    case False
    with 1 show ?thesis by (subst (1 2 3) decimal.simps) (auto simp: digit_ok digits_value_snoc)
  qed
qed

lemma ConsumeDecimalNumber_NumberToString:
  assumes "r = [] \<or> \<not> is_digit (hd r)"
  shows "ConsumeDecimalNumber (NumberToString n @ r) = Some (n, r)"
  using ConsumeDecimalNumber_spec [OF _ assms, of "decimal (unat n)"] decimal_spec [of "unat n"] unat_lt_len [of n]
  by (simp add: NumberToString_def AppendNumberTo_def)

section \<open>Escaping\<close>

definition escaped :: "byte \<Rightarrow> slice" where
  "escaped c = (if 32 \<le> unat c \<and> unat c \<le> 126 then [c] else [92, 120] @ hex2 (unat c))"

lemma sint_byte: "32 \<le> sint c \<and> sint c \<le> 126 \<longleftrightarrow> 32 \<le> unat c \<and> unat c \<le> 126" for c :: byte
proof (cases "unat c < 128")
  case True
  then have "uint c < 128" unfolding unat_eq_nat_uint by linarith
  then have "sint c = uint c" by (simp add: sint_uint signed_take_bit_int_eq_self order.trans [OF _ uint_ge_0])
  then show ?thesis unfolding unat_eq_nat_uint by arith
next
  case False
  then have "128 \<le> uint c \<and> uint c < 256" using unat_lt_256 [of c] unfolding unat_eq_nat_uint by linarith
  then have "uint c div 2 ^ 7 = 1" by (simp, presburger)
  then have "bit (uint c) 7" by (simp only: bit_iff_odd) simp
  then have "sint c < 0" by (simp add: sint_uint signed_take_bit_negative_iff)
  with False show ?thesis by simp
qed

lemma EscapeString_map: "AppendEscapedStringTo s v = s @ concat (map escaped v)"
  by (induction s v rule: AppendEscapedStringTo.induct) (simp_all add: escaped_def sint_byte)

end
