(* ===== verification/Lv_Filename.thy ===== *)
theory Lv_Filename
  imports Lv_Logging
begin

text \<open>
  File names: \<open>db/filename.h\<close> and \<open>db/filename.cc\<close>. Every name that the functions build is parsed back
  by \<open>ParseFileName\<close> to its number and type, and only such names are accepted. File numbers start at 1: a name for
  number 0 fails an assertion, and is \<open>None\<close>.
\<close>

datatype FileType =
  kLogFile | kDBLockFile | kTableFile | kDescriptorFile | kCurrentFile | kTempFile | kInfoLogFile

text \<open>\<open>%06llu\<close>\<close>

definition decimal06 :: "nat \<Rightarrow> slice" where
  "decimal06 n = replicate (6 - length (decimal n)) (digit 0) @ decimal n"

definition MakeFileName :: "slice \<Rightarrow> u64 \<Rightarrow> slice \<Rightarrow> slice" where
  "MakeFileName name number suffix = name @ str ''/'' @ decimal06 (unat number) @ str ''.'' @ suffix"

definition LogFileName :: "slice \<Rightarrow> u64 \<Rightarrow> slice option" where
  "LogFileName name number = (if number > 0 then Some (MakeFileName name number (str ''log'')) else None)"

definition TableFileName :: "slice \<Rightarrow> u64 \<Rightarrow> slice option" where
  "TableFileName name number = (if number > 0 then Some (MakeFileName name number (str ''ldb'')) else None)"

definition SSTTableFileName :: "slice \<Rightarrow> u64 \<Rightarrow> slice option" where
  "SSTTableFileName name number = (if number > 0 then Some (MakeFileName name number (str ''sst'')) else None)"

definition DescriptorFileName :: "slice \<Rightarrow> u64 \<Rightarrow> slice option" where
  "DescriptorFileName dbname number =
     (if number > 0 then Some (dbname @ str ''/MANIFEST-'' @ decimal06 (unat number)) else None)"

definition CurrentFileName :: "slice \<Rightarrow> slice" where
  "CurrentFileName dbname = dbname @ str ''/CURRENT''"

definition LockFileName :: "slice \<Rightarrow> slice" where
  "LockFileName dbname = dbname @ str ''/LOCK''"

definition TempFileName :: "slice \<Rightarrow> u64 \<Rightarrow> slice option" where
  "TempFileName dbname number = (if number > 0 then Some (MakeFileName dbname number (str ''dbtmp'')) else None)"

definition InfoLogFileName :: "slice \<Rightarrow> slice" where
  "InfoLogFileName dbname = dbname @ str ''/LOG''"

definition OldInfoLogFileName :: "slice \<Rightarrow> slice" where
  "OldInfoLogFileName dbname = dbname @ str ''/LOG.old''"

definition ParseFileName :: "slice \<Rightarrow> (u64 \<times> FileType) option" where
  "ParseFileName fname =
     (let rest = fname in
      if slice_eq rest (str ''CURRENT'') then Some (0, kCurrentFile)
      else if slice_eq rest (str ''LOCK'') then Some (0, kDBLockFile)
      else if slice_eq rest (str ''LOG'') \<or> slice_eq rest (str ''LOG.old'') then Some (0, kInfoLogFile)
      else if starts_with rest (str ''MANIFEST-'') then
        (case ConsumeDecimalNumber (drop (length (str ''MANIFEST-'')) rest) of
           None \<Rightarrow> None
         | Some (num, rest) \<Rightarrow> if rest \<noteq> [] then None else Some (num, kDescriptorFile))
      else
        (case ConsumeDecimalNumber rest of
           None \<Rightarrow> None
         | Some (num, suffix) \<Rightarrow>
             if slice_eq suffix (str ''.log'') then Some (num, kLogFile)
             else if slice_eq suffix (str ''.sst'') \<or> slice_eq suffix (str ''.ldb'') then Some (num, kTableFile)
             else if slice_eq suffix (str ''.dbtmp'') then Some (num, kTempFile)
             else None))"

section \<open>Parsing\<close>

lemma is_digit_0: "is_digit (digit 0)"
  by (simp add: digit_ok)

lemma decimal06_digits: "\<forall>c \<in> set (decimal06 n). is_digit c" "decimal06 n \<noteq> []"
  using decimal_spec [of n] by (auto simp: decimal06_def is_digit_0)

lemma digits_value_zeros: "digits_value 0 (replicate k (digit 0) @ ds) = digits_value 0 ds"
  using digit_ok [of 0] by (induction k) (simp_all add: digits_value_def)

lemma ConsumeDecimalNumber_06:
  assumes "r = [] \<or> \<not> is_digit (hd r)"
  shows "ConsumeDecimalNumber (decimal06 (unat n) @ r) = Some (n, r)"
  using ConsumeDecimalNumber_spec [OF decimal06_digits(1) assms decimal06_digits(2), of "unat n"]
    decimal_spec [of "unat n"] unat_lt_len [of n]
  by (simp add: decimal06_def digits_value_zeros)

lemma decimal06_Cons: obtains c cs where "decimal06 n = c # cs" "is_digit c"
  using decimal06_digits [of n] by (cases "decimal06 n") auto

lemma ParseFileName_number:
  assumes "\<not> is_digit (hd sfx)" "sfx \<noteq> []"
  shows "ParseFileName (decimal06 (unat n) @ sfx) =
    (if sfx = str ''.log'' then Some (n, kLogFile)
     else if sfx = str ''.sst'' \<or> sfx = str ''.ldb'' then Some (n, kTableFile)
     else if sfx = str ''.dbtmp'' then Some (n, kTempFile) else None)"
proof -
  obtain c cs where c: "decimal06 (unat n) = c # cs" "is_digit c" by (rule decimal06_Cons)
  have "c \<noteq> 67" "c \<noteq> 76" "c \<noteq> 77" using c(2) by (auto simp: is_digit_nat)
  then have "\<not> starts_with (c # cs @ sfx) (str ''MANIFEST-'')"
    by (simp add: starts_with_iff str_def)
  with \<open>c \<noteq> 67\<close> \<open>c \<noteq> 76\<close> show ?thesis
    using ConsumeDecimalNumber_06 [of sfx n] assms c by (simp add: ParseFileName_def str_def)
qed

lemma ParseFileName_descriptor: "ParseFileName (str ''MANIFEST-'' @ decimal06 (unat n)) = Some (n, kDescriptorFile)"
proof -
  have "starts_with (str ''MANIFEST-'' @ decimal06 (unat n)) (str ''MANIFEST-'')"
    by (auto simp: starts_with_iff)
  moreover have "str ''MANIFEST-'' @ decimal06 (unat n) \<notin> {str ''CURRENT'', str ''LOCK'', str ''LOG'', str ''LOG.old''}"
    by (simp add: str_def)
  ultimately show ?thesis
    using ConsumeDecimalNumber_06 [of "[]" n] by (simp add: ParseFileName_def)
qed

text \<open>The part of a name after the directory of the database.\<close>

definition base_name :: "slice \<Rightarrow> slice \<Rightarrow> slice" where
  "base_name dbname f = drop (length dbname + 1) f"

lemma base_name_simps:
  "base_name d (MakeFileName d n sfx) = decimal06 (unat n) @ str ''.'' @ sfx"
  "base_name d (d @ str ''/MANIFEST-'' @ decimal06 (unat n)) = str ''MANIFEST-'' @ decimal06 (unat n)"
  "base_name d (CurrentFileName d) = str ''CURRENT''"
  "base_name d (LockFileName d) = str ''LOCK''"
  "base_name d (InfoLogFileName d) = str ''LOG''"
  "base_name d (OldInfoLogFileName d) = str ''LOG.old''"
  by (simp_all add: base_name_def MakeFileName_def CurrentFileName_def LockFileName_def
    InfoLogFileName_def OldInfoLogFileName_def str_def)

lemma ParseFileName_suffix:
  "ParseFileName (decimal06 (unat n) @ str ''.'' @ str ''log'') = Some (n, kLogFile)"
  "ParseFileName (decimal06 (unat n) @ str ''.'' @ str ''ldb'') = Some (n, kTableFile)"
  "ParseFileName (decimal06 (unat n) @ str ''.'' @ str ''sst'') = Some (n, kTableFile)"
  "ParseFileName (decimal06 (unat n) @ str ''.'' @ str ''dbtmp'') = Some (n, kTempFile)"
proof -
  have dot: "str ''.'' @ str s = str (CHR ''.'' # s)" "\<not> is_digit (hd (str (CHR ''.'' # s)))"
    "str (CHR ''.'' # s) \<noteq> []" for s
    by (simp_all add: str_def is_digit_nat)
  note number = ParseFileName_number [OF dot(2,3), of n]
  show "ParseFileName (decimal06 (unat n) @ str ''.'' @ str ''log'') = Some (n, kLogFile)"
    unfolding dot(1) number by simp
  show "ParseFileName (decimal06 (unat n) @ str ''.'' @ str ''ldb'') = Some (n, kTableFile)"
    unfolding dot(1) number by (simp add: str_def)
  show "ParseFileName (decimal06 (unat n) @ str ''.'' @ str ''sst'') = Some (n, kTableFile)"
    unfolding dot(1) number by (simp add: str_def)
  show "ParseFileName (decimal06 (unat n) @ str ''.'' @ str ''dbtmp'') = Some (n, kTempFile)"
    unfolding dot(1) number by (simp add: str_def)
qed

lemma ParseFileName_fixed:
  "ParseFileName (str ''CURRENT'') = Some (0, kCurrentFile)"
  "ParseFileName (str ''LOCK'') = Some (0, kDBLockFile)"
  "ParseFileName (str ''LOG'') = Some (0, kInfoLogFile)"
  "ParseFileName (str ''LOG.old'') = Some (0, kInfoLogFile)"
  by (simp_all add: ParseFileName_def str_def)

text \<open>What is read back from the name of a file, if it has one.\<close>

definition parsed_name :: "slice \<Rightarrow> slice option \<Rightarrow> (u64 \<times> FileType) option option" where
  "parsed_name d f = map_option (\<lambda>f. ParseFileName (base_name d f)) f"

lemma parsed_names:
  "parsed_name d (LogFileName d n) = (if n = 0 then None else Some (Some (n, kLogFile)))"
  "parsed_name d (TableFileName d n) = (if n = 0 then None else Some (Some (n, kTableFile)))"
  "parsed_name d (SSTTableFileName d n) = (if n = 0 then None else Some (Some (n, kTableFile)))"
  "parsed_name d (TempFileName d n) = (if n = 0 then None else Some (Some (n, kTempFile)))"
  "parsed_name d (DescriptorFileName d n) = (if n = 0 then None else Some (Some (n, kDescriptorFile)))"
  by (simp_all only: parsed_name_def LogFileName_def TableFileName_def SSTTableFileName_def TempFileName_def DescriptorFileName_def
    word_gt_0 if_not_P option.map base_name_simps ParseFileName_suffix ParseFileName_descriptor split: if_split) simp_all

lemma ParseFileName_names:
  "ParseFileName (base_name d (CurrentFileName d)) = Some (0, kCurrentFile)"
  "ParseFileName (base_name d (LockFileName d)) = Some (0, kDBLockFile)"
  "ParseFileName (base_name d (InfoLogFileName d)) = Some (0, kInfoLogFile)"
  "ParseFileName (base_name d (OldInfoLogFileName d)) = Some (0, kInfoLogFile)"
  by (simp_all only: base_name_simps ParseFileName_fixed)

text \<open>Numbers that do not fit in 64 bits are not file numbers.\<close>

lemma ParseFileName_overflow:
  assumes "2 ^ 64 \<le> n"
  shows "ParseFileName (str ''MANIFEST-'' @ decimal06 n) = None"
proof -
  have "starts_with (str ''MANIFEST-'' @ decimal06 n) (str ''MANIFEST-'')"
    by (auto simp: starts_with_iff)
  moreover have "str ''MANIFEST-'' @ decimal06 n \<notin> {str ''CURRENT'', str ''LOCK'', str ''LOG'', str ''LOG.old''}"
    by (simp add: str_def)
  moreover have "ConsumeDecimalNumber (decimal06 n @ []) = None"
    using ConsumeDecimalNumber_spec [OF decimal06_digits(1) _ decimal06_digits(2), of "[]" n]
      decimal_spec [of n] assms
    by (simp add: decimal06_def digits_value_zeros)
  ultimately show ?thesis by (simp add: ParseFileName_def)
qed

end
