(* ===== verification/Lv_Status.thy ===== *)
theory Lv_Status
  imports Lv_Filename
begin

text \<open>
  The status of an operation: \<open>include/leveldb/status.h\<close> and \<open>util/status.cc\<close>. A status is the
  pointer \<open>state_\<close>: \<open>None\<close> for success, else the array with length, code and message.
\<close>

section \<open>Status\<close>

datatype Code = kOk | kNotFound | kCorruption | kNotSupported | kInvalidArgument | kIOError

fun code_byte :: "Code \<Rightarrow> byte" where
  "code_byte kOk = 0"
| "code_byte kNotFound = 1"
| "code_byte kCorruption = 2"
| "code_byte kNotSupported = 3"
| "code_byte kInvalidArgument = 4"
| "code_byte kIOError = 5"

type_synonym Status = "slice option"

definition Status_init :: "Code \<Rightarrow> slice \<Rightarrow> slice \<Rightarrow> Status" where
  "Status_init c msg msg2 =
     (let len1 = word_of_nat (length msg) :: u32; len2 = word_of_nat (length msg2) :: u32;
          sz = len1 + (if len2 \<noteq> 0 then 2 + len2 else 0) in
      Some (le_bytes 4 (unat sz) @ [code_byte c] @ take (unat len1) msg @
        (if len2 \<noteq> 0 then [58, 32] @ take (unat len2) msg2 else [])))"

definition OK :: Status where "OK = None"
definition NotFound :: "slice \<Rightarrow> slice \<Rightarrow> Status" where "NotFound = Status_init kNotFound"
definition Corruption :: "slice \<Rightarrow> slice \<Rightarrow> Status" where "Corruption = Status_init kCorruption"
definition NotSupported :: "slice \<Rightarrow> slice \<Rightarrow> Status" where "NotSupported = Status_init kNotSupported"
definition InvalidArgument :: "slice \<Rightarrow> slice \<Rightarrow> Status" where
  "InvalidArgument = Status_init kInvalidArgument"
definition IOError :: "slice \<Rightarrow> slice \<Rightarrow> Status" where "IOError = Status_init kIOError"

definition ok :: "Status \<Rightarrow> bool" where
  "ok s \<longleftrightarrow> s = None"

definition code :: "Status \<Rightarrow> byte" where
  "code s = (case s of None \<Rightarrow> code_byte kOk | Some st \<Rightarrow> st ! 4)"

definition IsNotFound :: "Status \<Rightarrow> bool" where "IsNotFound s \<longleftrightarrow> code s = code_byte kNotFound"
definition IsCorruption :: "Status \<Rightarrow> bool" where "IsCorruption s \<longleftrightarrow> code s = code_byte kCorruption"
definition IsIOError :: "Status \<Rightarrow> bool" where "IsIOError s \<longleftrightarrow> code s = code_byte kIOError"
definition IsNotSupportedError :: "Status \<Rightarrow> bool" where
  "IsNotSupportedError s \<longleftrightarrow> code s = code_byte kNotSupported"
definition IsInvalidArgument :: "Status \<Rightarrow> bool" where
  "IsInvalidArgument s \<longleftrightarrow> code s = code_byte kInvalidArgument"

text \<open>The copy constructor copies the bytes that the length announces.\<close>

definition CopyState :: "slice \<Rightarrow> slice" where
  "CopyState st = take (le_val (take 4 st) + 5) st"

text \<open>\<open>%d\<close>\<close>

definition decimal_int :: "int \<Rightarrow> slice" where
  "decimal_int i = (if i < 0 then str ''-'' @ decimal (nat (- i)) else decimal (nat i))"

definition Status_ToString :: "Status \<Rightarrow> slice" where
  "Status_ToString s =
     (case s of None \<Rightarrow> str ''OK''
      | Some st \<Rightarrow>
        (if code s = code_byte kOk then str ''OK''
         else if code s = code_byte kNotFound then str ''NotFound: ''
         else if code s = code_byte kCorruption then str ''Corruption: ''
         else if code s = code_byte kNotSupported then str ''Not implemented: ''
         else if code s = code_byte kInvalidArgument then str ''Invalid argument: ''
         else if code s = code_byte kIOError then str ''IO error: ''
         else str ''Unknown code('' @ decimal_int (sint (code s)) @ str ''): '') @
        take (le_val (take 4 st)) (drop 5 st))"

definition status_text :: "slice \<Rightarrow> slice \<Rightarrow> slice" where
  "status_text msg msg2 = msg @ (if msg2 = [] then [] else [58, 32] @ msg2)"

lemma Status_init_layout:
  assumes "length msg + length msg2 + 2 < 2 ^ 32"
  shows "Status_init c msg msg2 =
    Some (le_bytes 4 (length (status_text msg msg2)) @ [code_byte c] @ status_text msg msg2)"
proof -
  have u: "unat (word_of_nat (length msg) :: u32) = length msg" "unat (word_of_nat (length msg2) :: u32) = length msg2"
    using assms by (simp_all add: unat_of_nat)
  have z: "(word_of_nat (length msg2) :: u32) = 0 \<longleftrightarrow> msg2 = []"
    using u(2) by (metis length_0_conv unat_eq_0)
  have "unat (word_of_nat (length msg) + (if (word_of_nat (length msg2) :: u32) \<noteq> 0
      then 2 + word_of_nat (length msg2) else 0) :: u32) = length (status_text msg msg2)"
    using assms by (simp add: status_text_def z unat_word_ariths unat_of_nat)
  then show ?thesis
    by (simp add: Status_init_def Let_def z u status_text_def)
qed

lemma not_ok_Status [simp]: "\<not> ok (Status_init c msg msg2)"
  by (simp add: ok_def Status_init_def Let_def)

lemma ok_OK [simp]: "ok OK" "ok None"
  by (simp_all add: ok_def OK_def)

lemma code_Status:
  assumes "length msg + length msg2 + 2 < 2 ^ 32"
  shows "code (Status_init c msg msg2) = code_byte c"
  by (simp add: Status_init_layout [OF assms] code_def nth_append)

lemma CopyState_Status:
  assumes "length msg + length msg2 + 2 < 2 ^ 32" "Status_init c msg msg2 = Some st"
  shows "CopyState st = st"
proof -
  have "length (status_text msg msg2) < 256 ^ 4" using assms(1) by (simp add: status_text_def)
  then have "le_val (take 4 st) = length (status_text msg msg2)"
    using assms(2) by (auto simp: Status_init_layout [OF assms(1)] le_val_le_bytes)
  then show ?thesis using assms(2) by (auto simp: CopyState_def Status_init_layout [OF assms(1)])
qed

definition code_name :: "Code \<Rightarrow> slice" where
  "code_name c = (case c of kOk \<Rightarrow> str ''OK'' | kNotFound \<Rightarrow> str ''NotFound: ''
     | kCorruption \<Rightarrow> str ''Corruption: '' | kNotSupported \<Rightarrow> str ''Not implemented: ''
     | kInvalidArgument \<Rightarrow> str ''Invalid argument: '' | kIOError \<Rightarrow> str ''IO error: '')"

lemma ToString_Status:
  assumes "length msg + length msg2 + 2 < 2 ^ 32"
  shows "Status_ToString (Status_init c msg msg2) = code_name c @ status_text msg msg2"
proof -
  have "length (status_text msg msg2) < 256 ^ 4" using assms(1) by (simp add: status_text_def)
  then have "le_val (le_bytes 4 (length (status_text msg msg2))) = length (status_text msg msg2)"
    by (simp add: le_val_le_bytes)
  then show ?thesis
    using code_Status [OF assms, of c]
    by (cases c) (simp_all add: Status_ToString_def Status_init_layout [OF assms] code_name_def)
qed

end
