(* ===== verification/Lv_Env.thy ===== *)
theory Lv_Env
  imports Lv_Status
begin

text \<open>
  Files: the sequential and writable files of \<open>util/env_posix.cc\<close>. The locales \<open>writable_file\<close> and
  \<open>sequential_file\<close> are the parts of \<open>include/leveldb/env.h\<close> that the log relies on. The C library is a
  parameter, the record \<open>libc\<close>; the locale \<open>libc_stdio\<close> states its documented behaviour on one
  stream, and the files are shown to keep the contracts over any such library.
\<close>

section \<open>The contracts\<close>

text \<open>
  A failed append may have written a part of the data; \<open>room f n\<close> says that the file can take \<open>n\<close> more
  bytes without an error. The distance of a skip is cut to a \<open>long\<close> by the POSIX file, which would move back for
  \<open>2 ^ 63\<close> or more; the contract is for smaller ones.
\<close>

locale writable_file =
  fixes append :: "slice \<Rightarrow> 'f \<Rightarrow> Status \<times> 'f" and flush :: "'f \<Rightarrow> Status \<times> 'f"
    and contents :: "'f \<Rightarrow> slice" and room :: "'f \<Rightarrow> nat \<Rightarrow> bool"
  assumes append_ok: "append d f = (s, f') \<Longrightarrow> ok s \<Longrightarrow> contents f' = contents f @ d"
    and append_prefix: "append d f = (s, f') \<Longrightarrow> \<exists>k. contents f' = contents f @ take k d"
    and flush_contents: "flush f = (s, f') \<Longrightarrow> contents f' = contents f"
    and append_room: "append d f = (s, f') \<Longrightarrow> room f n \<Longrightarrow> length d \<le> n \<Longrightarrow> ok s \<and> room f' (n - length d)"
    and flush_room: "flush f = (s, f') \<Longrightarrow> room f n \<Longrightarrow> ok s \<and> room f' n"

locale sequential_file =
  fixes read :: "nat \<Rightarrow> 'f \<Rightarrow> Status \<times> slice \<times> 'f" and skip :: "u64 \<Rightarrow> 'f \<Rightarrow> Status \<times> 'f"
    and remaining :: "'f \<Rightarrow> slice" and healthy :: "'f \<Rightarrow> bool"
  assumes read_ok: "read n f = (s, d, f') \<Longrightarrow> ok s \<Longrightarrow> d = take n (remaining f) \<and> remaining f' = drop n (remaining f)"
    and read_healthy: "read n f = (s, d, f') \<Longrightarrow> healthy f \<Longrightarrow> ok s \<and> healthy f'"
    and read_length: "read n f = (s, d, f') \<Longrightarrow> length d \<le> n"
    and read_remaining: "read n f = (s, d, f') \<Longrightarrow> length d + length (remaining f') \<le> length (remaining f)"
    and skip_ok: "skip k f = (s, f') \<Longrightarrow> unat k < 2 ^ 63 \<Longrightarrow> ok s \<Longrightarrow> remaining f' = drop (unat k) (remaining f)"
    and skip_remaining: "skip k f = (s, f') \<Longrightarrow> unat k < 2 ^ 63 \<Longrightarrow> length (remaining f') \<le> length (remaining f)"

section \<open>Files of the POSIX environment\<close>

text \<open>
  The calls on one \<open>FILE*\<close>, whose state is \<open>'f\<close>: the number of bytes written, the bytes read, and
  whether \<open>fflush\<close> and \<open>fseek\<close> returned zero. \<open>strerror\<close> is the text of \<open>errno\<close>.
\<close>

record 'f libc =
  fwrite :: "slice \<Rightarrow> 'f \<Rightarrow> nat \<times> 'f"
  fflush :: "'f \<Rightarrow> bool \<times> 'f"
  fread :: "nat \<Rightarrow> 'f \<Rightarrow> slice \<times> 'f"
  feof :: "'f \<Rightarrow> bool"
  fseek_cur :: "int \<Rightarrow> 'f \<Rightarrow> bool \<times> 'f"
  strerror :: "'f \<Rightarrow> slice"

definition PosixWritableFile_Append :: "('f, 'x) libc_scheme \<Rightarrow> slice \<Rightarrow> slice \<Rightarrow> 'f \<Rightarrow> Status \<times> 'f" where
  "PosixWritableFile_Append L filename d f =
     (let (r, f) = fwrite L d f in
      if r \<noteq> length d then (IOError filename (strerror L f), f) else (OK, f))"

definition PosixWritableFile_Flush :: "('f, 'x) libc_scheme \<Rightarrow> slice \<Rightarrow> 'f \<Rightarrow> Status \<times> 'f" where
  "PosixWritableFile_Flush L filename f =
     (let (r, f) = fflush L f in if \<not> r then (IOError filename (strerror L f), f) else (OK, f))"

definition PosixSequentialFile_Read ::
  "('f, 'x) libc_scheme \<Rightarrow> slice \<Rightarrow> nat \<Rightarrow> 'f \<Rightarrow> Status \<times> slice \<times> 'f" where
  "PosixSequentialFile_Read L filename n f =
     (let (d, f) = fread L n f in
      if length d < n then (if feof L f then (OK, d, f) else (IOError filename (strerror L f), d, f))
      else (OK, d, f))"

text \<open>The offset of \<open>fseek\<close> is a \<open>long\<close>.\<close>

definition PosixSequentialFile_Skip :: "('f, 'x) libc_scheme \<Rightarrow> slice \<Rightarrow> u64 \<Rightarrow> 'f \<Rightarrow> Status \<times> 'f" where
  "PosixSequentialFile_Skip L filename n f =
     (let (r, f) = fseek_cur L (sint n) f in if \<not> r then (IOError filename (strerror L f), f) else (OK, f))"

section \<open>The C library\<close>

text \<open>
  The documented behaviour of the calls: \<open>fwrite\<close> writes as many bytes as it returns, \<open>fread\<close> reads the
  next bytes, fewer than asked only at the end of the file or after an error, and the end-of-file
  indicator is set only at the end.
\<close>

locale libc_stdio =
  fixes L :: "('f, 'x) libc_scheme" and contents remaining :: "'f \<Rightarrow> slice" and healthy :: "'f \<Rightarrow> bool"
    and room :: "'f \<Rightarrow> nat \<Rightarrow> bool"
  assumes fwrite: "fwrite L d f = (r, f') \<Longrightarrow> r \<le> length d \<and> contents f' = contents f @ take r d"
    and fwrite_room: "fwrite L d f = (r, f') \<Longrightarrow> room f n \<Longrightarrow> length d \<le> n \<Longrightarrow> r = length d \<and> room f' (n - length d)"
    and fflush: "fflush L f = (b, f') \<Longrightarrow> contents f' = contents f"
    and fflush_room: "fflush L f = (b, f') \<Longrightarrow> room f n \<Longrightarrow> b \<and> room f' n"
    and fread: "fread L n f = (d, f') \<Longrightarrow> length d \<le> n \<and> remaining f = d @ remaining f'"
    and fread_eof: "fread L n f = (d, f') \<Longrightarrow> length d < n \<Longrightarrow> feof L f' \<Longrightarrow> remaining f' = []"
    and fread_healthy: "fread L n f = (d, f') \<Longrightarrow> healthy f \<Longrightarrow> healthy f' \<and> (length d < n \<longrightarrow> feof L f')"
    and fseek: "fseek_cur L k f = (b, f') \<Longrightarrow> 0 \<le> k \<Longrightarrow>
      (if b then remaining f' = drop (nat k) (remaining f) else length (remaining f') \<le> length (remaining f))"

sublocale libc_stdio \<subseteq> writable: writable_file "PosixWritableFile_Append L fname" "PosixWritableFile_Flush L fname" contents room
  for fname
proof
  fix d f s f' assume "PosixWritableFile_Append L fname d f = (s, f')"
  then have w: "fwrite L d f = (fst (fwrite L d f), f')" "ok s \<longleftrightarrow> fst (fwrite L d f) = length d"
    by (auto simp: PosixWritableFile_Append_def IOError_def split: prod.splits if_splits)
  show "ok s \<Longrightarrow> contents f' = contents f @ d"
    using w(2) fwrite [OF w(1)] by simp
  show "\<exists>k. contents f' = contents f @ take k d"
    using fwrite [OF w(1)] by blast
  show "room f n \<Longrightarrow> length d \<le> n \<Longrightarrow> ok s \<and> room f' (n - length d)" for n
    using fwrite_room [OF w(1), of n] w(2) by blast
next
  fix f s f' assume "PosixWritableFile_Flush L fname f = (s, f')"
  then have fl: "fflush L f = (ok s, f')"
    by (auto simp: PosixWritableFile_Flush_def IOError_def split: prod.splits if_splits)
  then show "contents f' = contents f" by (rule fflush)
  show "room f n \<Longrightarrow> ok s \<and> room f' n" for n by (rule fflush_room [OF fl])
qed

lemma sint_of_small:
  fixes w :: u64
  assumes "unat w < 2 ^ 63"
  shows "sint w = int (unat w)"
proof -
  have u: "uint w = int (unat w)" by (rule uint_nat)
  have "int (unat w) < int (2 ^ 63)" using assms by (simp only: of_nat_less_iff)
  then have "uint w < 2 ^ 63" unfolding u by simp
  then have "signed_take_bit 63 (uint w) = uint w"
    by (intro signed_take_bit_int_eq_self) (simp_all add: order.trans [OF _ uint_ge_0])
  then show ?thesis unfolding u [symmetric] by (simp only: sint_uint) simp
qed

sublocale libc_stdio \<subseteq> sequential: sequential_file "PosixSequentialFile_Read L fname" "PosixSequentialFile_Skip L fname"
  remaining healthy for fname
proof
  fix n f s d f' assume "PosixSequentialFile_Read L fname n f = (s, d, f')"
  then have r: "fread L n f = (d, f')" and s: "ok s \<longleftrightarrow> length d < n \<longrightarrow> feof L f'"
    by (auto simp: PosixSequentialFile_Read_def IOError_def split: prod.splits if_splits)
  note len = fread [OF r]
  show "length d \<le> n" "length d + length (remaining f') \<le> length (remaining f)" using len by simp_all
  show "ok s \<Longrightarrow> d = take n (remaining f) \<and> remaining f' = drop n (remaining f)"
    using len s fread_eof [OF r] by (cases "length d < n") auto
  show "healthy f \<Longrightarrow> ok s \<and> healthy f'"
    using fread_healthy [OF r] s by blast
next
  fix k f s f' assume "PosixSequentialFile_Skip L fname k f = (s, f')"
  then have r: "fseek_cur L (sint k) f = (ok s, f')"
    by (auto simp: PosixSequentialFile_Skip_def IOError_def split: prod.splits if_splits)
  assume "unat k < 2 ^ 63"
  then have k: "sint k = int (unat k)" by (simp add: sint_of_small)
  show "ok s \<Longrightarrow> remaining f' = drop (unat k) (remaining f)"
    using fseek [OF r] by (simp add: k)
  show "length (remaining f') \<le> length (remaining f)"
    using fseek [OF r] by (auto simp: k split: if_splits)
qed

section \<open>A file on a disk of limited size\<close>

record disk_file =
  df_contents :: slice
  df_pos :: nat
  df_capacity :: nat
  df_eof :: bool

definition disk_libc :: "disk_file libc" where
  "disk_libc =
     \<lparr>fwrite = (\<lambda>d f. let r = min (length d) (df_capacity f - length (df_contents f)) in
        (r, f\<lparr>df_contents := df_contents f @ take r d\<rparr>)),
      fflush = (\<lambda>f. (True, f)),
      fread = (\<lambda>n f. let d = take n (drop (df_pos f) (df_contents f)) in
        (d, f\<lparr>df_pos := df_pos f + length d, df_eof := length d < n\<rparr>)),
      feof = df_eof,
      fseek_cur = (\<lambda>k f. if int (df_pos f) + k < 0 then (False, f)
        else (True, f\<lparr>df_pos := nat (int (df_pos f) + k), df_eof := False\<rparr>)),
      strerror = (\<lambda>f. str ''No space left on device'')\<rparr>"

definition df_remaining :: "disk_file \<Rightarrow> slice" where
  "df_remaining f = drop (df_pos f) (df_contents f)"

lemma drop_split: "drop p xs = take n (drop p xs) @ drop (n + p) xs"
  by (metis append_take_drop_id drop_drop)

interpretation disk: libc_stdio disk_libc df_contents df_remaining "\<lambda>_. True"
  "\<lambda>f n. length (df_contents f) + n \<le> df_capacity f"
  by unfold_locales
    (auto simp: disk_libc_def df_remaining_def Let_def min_def drop_eq_Nil nat_add_distrib algebra_simps split: if_splits,
      rule drop_split)

end
