(* ===== verification/Lv_Log_Writer.thy ===== *)
theory Lv_Log_Writer
  imports Lv_Env Lv_Crc32c
begin

text \<open>
  The log writer: \<open>db/log_format.h\<close>, \<open>db/log_writer.h\<close> and \<open>db/log_writer.cc\<close>. A file is a sequence of
  blocks of 32768 bytes; a record is cut into physical records that do not cross a block. \<open>log_record\<close>
  is the format as a function on bytes; in the context of \<open>writable_file\<close> the writer is shown to
  append exactly it. \<open>Extend\<close> takes the address of its buffer, on which the checksum does not depend
  (\<open>Extend_ref\<close>); the model passes 0.
\<close>

section \<open>Format\<close>

datatype RecordType = kZeroType | kFullType | kFirstType | kMiddleType | kLastType

fun type_byte :: "RecordType \<Rightarrow> byte" where
  "type_byte kZeroType = 0"
| "type_byte kFullType = 1"
| "type_byte kFirstType = 2"
| "type_byte kMiddleType = 3"
| "type_byte kLastType = 4"

definition kMaxRecordType :: nat where "kMaxRecordType = 4"
definition kBlockSize :: nat where "kBlockSize = 32768"
definition kHeaderSize :: nat where "kHeaderSize = 4 + 2 + 1"

section \<open>The writer\<close>

record Writer =
  block_offset :: nat
  type_crc :: "u32 list"

definition InitTypeCrc :: "u32 list" where
  "InitTypeCrc = map (\<lambda>i. Value 0 [word_of_nat i]) [0..<kMaxRecordType + 1]"

definition Writer_init :: Writer where
  "Writer_init = \<lparr>block_offset = 0, type_crc = InitTypeCrc\<rparr>"

definition Writer_init_at :: "u64 \<Rightarrow> Writer" where
  "Writer_init_at dest_length = \<lparr>block_offset = unat dest_length mod kBlockSize, type_crc = InitTypeCrc\<rparr>"

definition EmitPhysicalRecord ::
  "(slice \<Rightarrow> 'f \<Rightarrow> Status \<times> 'f) \<Rightarrow> ('f \<Rightarrow> Status \<times> 'f) \<Rightarrow> RecordType \<Rightarrow> slice \<Rightarrow> Writer \<times> 'f \<Rightarrow> Status \<times> Writer \<times> 'f"
where
  "EmitPhysicalRecord app flush t p wr =
     (let (w, f) = wr; n = word_of_nat (length p) :: u64;
          crc = Extend 0 (type_crc w ! unat (type_byte t)) p;
          crc = Mask crc;
          buf = EncodeFixed32 crc @ [ucast (n AND 0xff), ucast (drop_bit 8 n), type_byte t];
          (s, f) = app buf f;
          (s, f) = (if ok s
                    then let (s, f) = app p f in (if ok s then flush f else (s, f))
                    else (s, f)) in
      (s, w\<lparr>block_offset := block_offset w + kHeaderSize + length p\<rparr>, f))"

text \<open>Switching to a new block, and the choice of the fragment type.\<close>

definition switch_block :: "(slice \<Rightarrow> 'f \<Rightarrow> Status \<times> 'f) \<Rightarrow> Writer \<times> 'f \<Rightarrow> Writer \<times> 'f" where
  "switch_block app wr =
     (let (w, f) = wr; leftover = kBlockSize - block_offset w in
      if leftover < kHeaderSize
      then let f = (if leftover > 0 then snd (app (take leftover (replicate 6 0)) f) else f) in
        (w\<lparr>block_offset := 0\<rparr>, f)
      else (w, f))"

definition fragment_type :: "bool \<Rightarrow> bool \<Rightarrow> RecordType" where
  "fragment_type bgn endp =
     (if bgn \<and> endp then kFullType else if bgn then kFirstType else if endp then kLastType else kMiddleType)"

definition fragment_length :: "Writer \<Rightarrow> slice \<Rightarrow> nat" where
  "fragment_length w p =
     (let avail = kBlockSize - block_offset w - kHeaderSize in if length p < avail then length p else avail)"

text \<open>The \<open>do ... while\<close> of \<open>AddRecord\<close>; \<open>bgn\<close> is the variable \<open>begin\<close>, \<open>p\<close> the bytes left.\<close>

definition add_step ::
  "(slice \<Rightarrow> 'f \<Rightarrow> Status \<times> 'f) \<Rightarrow> ('f \<Rightarrow> Status \<times> 'f) \<Rightarrow> bool \<Rightarrow> slice \<Rightarrow> Writer \<times> 'f \<Rightarrow> Status \<times> slice \<times> Writer \<times> 'f"
where
  "add_step app flush bgn p wr =
     (let (w, f) = switch_block app wr; n = fragment_length w p; endp = (length p = n);
          (s, wr) = EmitPhysicalRecord app flush (fragment_type bgn endp) (take n p) (w, f) in
      (s, drop n p, wr))"

lemma kHeaderSize_7 [simp]: "kHeaderSize = 7"
  by (simp add: kHeaderSize_def)

lemma block_offset_Emit:
  "EmitPhysicalRecord app flush t p (w, f) = (s, w', f') \<Longrightarrow> block_offset w' = block_offset w + 7 + length p"
  by (auto simp: EmitPhysicalRecord_def Let_def split: prod.splits if_splits)

function AddRecord_loop ::
  "(slice \<Rightarrow> 'f \<Rightarrow> Status \<times> 'f) \<Rightarrow> ('f \<Rightarrow> Status \<times> 'f) \<Rightarrow> bool \<Rightarrow> slice \<Rightarrow> Writer \<times> 'f \<Rightarrow> Status \<times> Writer \<times> 'f"
where
  "AddRecord_loop app flush bgn p wr =
     (let (s, left, wr) = add_step app flush bgn p wr in
      if ok s \<and> length left > 0 then AddRecord_loop app flush False left wr else (s, wr))"
  by pat_completeness auto
termination
proof (relation "measures [\<lambda>(a, fl, b, p, w, f). length p, \<lambda>(a, fl, b, p, w, f). if block_offset w = kBlockSize - 7 then 1 else 0]",
    goal_cases)
  case 1
  show ?case by simp
next
  case (2 app flush bgn p wr x s y left wr1)
  obtain w f where w: "switch_block app wr = (w, f)" by (cases "switch_block app wr")
  let ?n = "fragment_length w p"
  from 2 have e: "EmitPhysicalRecord app flush (fragment_type bgn (length p = ?n)) (take ?n p) (w, f) = (s, wr1)"
    and left: "left = drop ?n p"
    by (auto simp: add_step_def w Let_def split: prod.splits)
  have off: "block_offset w \<le> kBlockSize - 7" "block_offset w = kBlockSize - 7 \<longrightarrow> block_offset (fst wr) = kBlockSize - 7"
    using w by (cases wr; auto simp: switch_block_def Let_def kBlockSize_def split: if_splits)+
  show ?case
  proof (cases "?n = 0")
    case False
    with left 2 show ?thesis by auto
  next
    case True
    then have "block_offset w = kBlockSize - 7"
      using off(1) 2 left by (simp add: fragment_length_def Let_def split: if_splits)
    then have "block_offset (fst wr1) = kBlockSize"
      using block_offset_Emit [of app flush _ "take ?n p" w f s "fst wr1" "snd wr1"] e True
      by (simp add: kBlockSize_def)
    moreover have "block_offset (fst wr) = kBlockSize - 7"
      using off(2) \<open>block_offset w = kBlockSize - 7\<close> by simp
    ultimately show ?thesis using left True 2 by (cases wr; cases wr1) (auto simp: kBlockSize_def)
  qed
qed

declare AddRecord_loop.simps [simp del]

definition AddRecord ::
  "(slice \<Rightarrow> 'f \<Rightarrow> Status \<times> 'f) \<Rightarrow> ('f \<Rightarrow> Status \<times> 'f) \<Rightarrow> slice \<Rightarrow> Writer \<times> 'f \<Rightarrow> Status \<times> Writer \<times> 'f"
where
  "AddRecord app flush rec wr = AddRecord_loop app flush True rec wr"

section \<open>The format of a record\<close>

definition header :: "RecordType \<Rightarrow> slice \<Rightarrow> slice" where
  "header t p = EncodeFixed32 (Mask (Value 0 (type_byte t # p))) @
     [word_of_nat (length p mod 256), word_of_nat (length p div 256), type_byte t]"

definition physical :: "RecordType \<Rightarrow> slice \<Rightarrow> slice" where
  "physical t p = header t p @ p"

definition trailer_pad :: "nat \<Rightarrow> slice" where
  "trailer_pad off = (if kBlockSize - off < 7 then replicate (kBlockSize - off) 0 else [])"

definition block_start :: "nat \<Rightarrow> nat" where
  "block_start off = (if kBlockSize - off < 7 then 0 else off)"

text \<open>One logical record from the block offset \<open>off\<close>: its bytes and the block offset behind it.\<close>

function log_record :: "bool \<Rightarrow> nat \<Rightarrow> slice \<Rightarrow> slice \<times> nat" where
  "log_record bgn off p =
     (let o1 = block_start off; n = min (length p) (kBlockSize - o1 - 7);
          bytes = trailer_pad off @ physical (fragment_type bgn (length p = n)) (take n p) in
      if n < length p
      then let (rest, o2) = log_record False (o1 + 7 + n) (drop n p) in (bytes @ rest, o2)
      else (bytes, o1 + 7 + n))"
  by pat_completeness auto
termination
proof (relation "measures [\<lambda>(b, off, p). length p, \<lambda>(b, off, p). if off = kBlockSize - 7 then 1 else 0]", goal_cases)
  case 1
  show ?case by simp
next
  case (2 bgn off p o1 n bytes)
  then show ?case
    by (cases "o1 = kBlockSize - 7")
      (auto simp: block_start_def kBlockSize_def min_def split: if_splits)
qed

declare log_record.simps [simp del]

definition InitTypeCrc_ok :: "Writer \<Rightarrow> bool" where
  "InitTypeCrc_ok w \<longleftrightarrow> type_crc w = InitTypeCrc \<and> block_offset w \<le> kBlockSize"

lemma type_crc_nth: "InitTypeCrc ! unat (type_byte t) = Value 0 [type_byte t]"
  by (cases t) (simp_all add: InitTypeCrc_def kMaxRecordType_def)

lemma Extend_type_crc: "Extend 0 (Value 0 [b]) p = Value 0 (b # p)"
  by (simp add: Value_def Extend_append [of 0 0 0 "[b]" p 0])

lemma length_bytes:
  assumes "length (p :: slice) < 65536"
  shows "(ucast ((word_of_nat (length p) :: u64) AND 0xff) :: byte) = word_of_nat (length p mod 256)"
    and "(ucast (drop_bit 8 (word_of_nat (length p) :: u64)) :: byte) = word_of_nat (length p div 256)"
proof -
  let ?n = "word_of_nat (length p) :: u64"
  have n: "unat ?n = length p" using assms by (simp add: unat_of_nat)
  have d: "unat (drop_bit 8 ?n) = length p div 256"
    unfolding unat_drop_bit_eq n by (simp add: drop_bit_eq_div)
  show "(ucast (?n AND 0xff) :: byte) = word_of_nat (length p mod 256)"
    by (rule ucast_word_of_nat) (simp only: unat_and_ff n)
  show "(ucast (drop_bit 8 ?n) :: byte) = word_of_nat (length p div 256)"
    by (rule ucast_word_of_nat [OF d])
qed

lemma length_physical [simp]: "length (physical t p) = 7 + length p"
  by (simp add: physical_def header_def)

context writable_file
begin

lemma Emit_ok:
  assumes "room f (7 + length p + n)" "type_crc w = InitTypeCrc" "length p < 65536"
    and "EmitPhysicalRecord append flush t p (w, f) = (s, w', f')"
  shows "ok s \<and> room f' n \<and> contents f' = contents f @ physical t p \<and> type_crc w' = InitTypeCrc \<and>
    block_offset w' = block_offset w + 7 + length p"
proof -
  define buf where "buf = header t p"
  obtain s1 f1 s2 f2 s3 f3 where a: "append buf f = (s1, f1)" "append p f1 = (s2, f2)" "flush f2 = (s3, f3)"
    by (metis surj_pair)
  have "length buf = 7" by (simp add: buf_def header_def)
  then have b: "ok s1" "room f1 (length p + n)"
    using append_room [OF a(1), of "7 + length p + n"] assms(1) by (auto simp: algebra_simps)
  then have c: "ok s2" "room f2 n" using append_room [OF a(2) b(2)] by auto
  then have d: "ok s3" "room f3 n" using flush_room [OF a(3) c(2)] by auto
  have "contents f3 = contents f @ physical t p"
    using append_ok [OF a(1) b(1)] append_ok [OF a(2) c(1)] flush_contents [OF a(3)]
    by (simp add: physical_def buf_def)
  moreover have "EmitPhysicalRecord append flush t p (w, f) = (s3, w\<lparr>block_offset := block_offset w + 7 + length p\<rparr>, f3)"
    using a b c assms(2) length_bytes [OF assms(3)]
    by (simp add: EmitPhysicalRecord_def Let_def type_crc_nth Extend_type_crc buf_def header_def)
  ultimately show ?thesis using assms(2,4) d by auto
qed

lemma switch_ok:
  assumes "room f (length (trailer_pad (block_offset w)) + n)" "switch_block append (w, f) = (w', f')"
    and "InitTypeCrc_ok w"
  shows "room f' n \<and> contents f' = contents f @ trailer_pad (block_offset w) \<and> type_crc w' = InitTypeCrc \<and>
    block_offset w' = block_start (block_offset w) \<and> block_offset w' \<le> kBlockSize - 7"
proof -
  let ?l = "kBlockSize - block_offset w"
  obtain s1 f1 where a: "append (take ?l (replicate 6 0)) f = (s1, f1)" by (metis surj_pair)
  have "take ?l (replicate 6 0) = trailer_pad (block_offset w)" if "?l < 7" using that by (simp add: trailer_pad_def)
  then have "ok s1 \<and> room f1 n \<and> contents f1 = contents f @ trailer_pad (block_offset w)" if "?l < 7"
    using append_room [OF a, of "length (trailer_pad (block_offset w)) + n"] append_ok [OF a] assms(1) that by auto
  with a assms(2,3) show ?thesis
    using assms(1) by (auto simp: switch_block_def Let_def trailer_pad_def block_start_def InitTypeCrc_ok_def split: if_splits)
qed

lemma add_step_ok:
  assumes "InitTypeCrc_ok w" "add_step append flush bgn p (w, f) = (s, left, w', f')"
    and "o1 = block_start (block_offset w)" "m = min (length p) (kBlockSize - o1 - 7)"
    and "bytes = trailer_pad (block_offset w) @ physical (fragment_type bgn (length p = m)) (take m p)"
    and "room f (length bytes + n)"
  shows "ok s \<and> left = drop m p \<and> room f' n \<and> contents f' = contents f @ bytes \<and>
    type_crc w' = InitTypeCrc \<and> block_offset w' = o1 + 7 + m \<and> o1 + 7 + m \<le> kBlockSize"
proof -
  obtain w1 f1 where sw: "switch_block append (w, f) = (w1, f1)" by (metis surj_pair)
  have "room f (length (trailer_pad (block_offset w)) + (7 + m + n))"
    using assms(4-6) by (simp add: algebra_simps)
  note s = switch_ok [OF this sw assms(1)]
  have m: "fragment_length w1 p = m"
    using s assms(3,4) by (simp add: fragment_length_def Let_def)
  have "m < 65536" using assms(4) by (simp add: kBlockSize_def)
  then have e: "EmitPhysicalRecord append flush (fragment_type bgn (length p = m)) (take m p) (w1, f1) = (s, w', f') \<Longrightarrow>
      ok s \<and> room f' n \<and> contents f' = contents f1 @ physical (fragment_type bgn (length p = m)) (take m p) \<and>
      type_crc w' = InitTypeCrc \<and> block_offset w' = block_offset w1 + 7 + m"
    using s assms(4) Emit_ok [of f1 "take m p" n w1] by auto
  have "o1 \<le> kBlockSize - 7" using s assms(3) by simp
  then have "o1 + 7 + m \<le> kBlockSize" unfolding assms(4) by (simp add: kBlockSize_def)
  moreover have "left = drop m p \<and>
      EmitPhysicalRecord append flush (fragment_type bgn (length p = m)) (take m p) (w1, f1) = (s, w', f')"
    using assms(2) by (auto simp: add_step_def sw m Let_def split: prod.splits)
  ultimately show ?thesis
    using s e assms(3,5) by simp
qed

lemma AddRecord_loop_ok:
  assumes "InitTypeCrc_ok w" "AddRecord_loop append flush bgn p (w, f) = (s, w', f')"
    and "log_record bgn (block_offset w) p = (bytes, o2)" "room f (length bytes + n)"
  shows "ok s \<and> room f' n \<and> contents f' = contents f @ bytes \<and> block_offset w' = o2 \<and> InitTypeCrc_ok w'"
  using assms
proof (induction bgn "block_offset w" p arbitrary: w f bytes o2 n rule: log_record.induct)
  case (1 bgn p w f bytes o2 n)
  define o1 where "o1 = block_start (block_offset w)"
  define m where "m = min (length p) (kBlockSize - o1 - 7)"
  define b where "b = trailer_pad (block_offset w) @ physical (fragment_type bgn (length p = m)) (take m p)"
  obtain s1 left w1 f1 where st: "add_step append flush bgn p (w, f) = (s1, left, w1, f1)" by (metis surj_pair)
  note rec = log_record.simps [of bgn "block_offset w" p, folded o1_def, unfolded Let_def, folded m_def, folded b_def]
  show ?case
  proof (cases "m < length p")
    case True
    obtain rest where rest: "log_record False (o1 + 7 + m) (drop m p) = (rest, o2)" "bytes = b @ rest"
      using 1(4) True by (auto simp: rec split: prod.splits)
    have room: "room f (length b + (length rest + n))" using 1(5) rest by (simp add: add.assoc)
    note step = add_step_ok [OF 1(2) st o1_def m_def b_def room]
    have w1: "InitTypeCrc_ok w1" "o1 + 7 + m = block_offset w1" using step by (auto simp: InitTypeCrc_ok_def)
    have "AddRecord_loop append flush bgn p (w, f) = AddRecord_loop append flush False left (w1, f1)"
      using step True st by (subst AddRecord_loop.simps) simp
    then have loop: "AddRecord_loop append flush False (drop m p) (w1, f1) = (s, w', f')" using step 1(3) by simp
    have "ok s \<and> room f' n \<and> contents f' = contents f1 @ rest \<and> block_offset w' = o2 \<and> InitTypeCrc_ok w'"
    proof (rule 1(1) [OF o1_def m_def b_def True w1(2) w1(1)])
      show "AddRecord_loop append flush False (drop m p) (w1, f1) = (s, w', f')" by (rule loop)
      show "log_record False (block_offset w1) (drop m p) = (rest, o2)" using rest(1) w1(2) by simp
      show "room f1 (length rest + n)" using step by simp
    qed
    with step rest show ?thesis by simp
  next
    case False
    then have bytes: "bytes = b" "o2 = o1 + 7 + m" using 1(4) by (auto simp: rec)
    note step = add_step_ok [OF 1(2) st o1_def m_def b_def 1(5) [unfolded bytes]]
    have "AddRecord_loop append flush bgn p (w, f) = (s1, w1, f1)"
      using step False st by (subst AddRecord_loop.simps) simp
    with 1(3) step bytes show ?thesis by (auto simp: InitTypeCrc_ok_def)
  qed
qed

lemma AddRecord_ok:
  assumes "InitTypeCrc_ok w" "AddRecord append flush p (w, f) = (s, w', f')"
    and "log_record True (block_offset w) p = (bytes, o2)" "room f (length bytes + n)"
  shows "ok s \<and> room f' n \<and> contents f' = contents f @ bytes \<and> block_offset w' = o2 \<and> InitTypeCrc_ok w'"
  using AddRecord_loop_ok [OF assms(1) assms(2) [unfolded AddRecord_def] assms(3,4)] .

end

text \<open>A sequence of records, each added when the ones before it were.\<close>

fun AddRecords ::
  "(slice \<Rightarrow> 'f \<Rightarrow> Status \<times> 'f) \<Rightarrow> ('f \<Rightarrow> Status \<times> 'f) \<Rightarrow> slice list \<Rightarrow> Writer \<times> 'f \<Rightarrow> Status \<times> Writer \<times> 'f"
where
  "AddRecords app flush [] wr = (OK, wr)"
| "AddRecords app flush (p # ps) wr =
     (let (s, wr) = AddRecord app flush p wr in if ok s then AddRecords app flush ps wr else (s, wr))"

fun log_records :: "nat \<Rightarrow> slice list \<Rightarrow> slice" where
  "log_records off [] = []"
| "log_records off (p # ps) = (let (bytes, off) = log_record True off p in bytes @ log_records off ps)"

context writable_file
begin

lemma AddRecords_ok:
  "InitTypeCrc_ok w \<Longrightarrow> room f (length (log_records (block_offset w) ps) + n) \<Longrightarrow>
   AddRecords append flush ps (w, f) = (s, w', f') \<Longrightarrow>
   ok s \<and> room f' n \<and> contents f' = contents f @ log_records (block_offset w) ps"
proof (induction ps arbitrary: w f)
  case Nil
  then show ?case by auto
next
  case (Cons p ps)
  obtain bytes o2 where b: "log_record True (block_offset w) p = (bytes, o2)" by (metis surj_pair)
  obtain s1 w1 f1 where a: "AddRecord append flush p (w, f) = (s1, w1, f1)" by (metis surj_pair)
  have "room f (length bytes + (length (log_records o2 ps) + n))"
    using Cons.prems(2) by (simp add: b add.assoc)
  note r = AddRecord_ok [OF Cons.prems(1) a b this]
  then have "AddRecords append flush ps (w1, f1) = (s, w', f')"
    using Cons.prems(3) a by simp
  with Cons.IH [of w1 f1] r b show ?case by simp
qed

end

end
