(* ===== verification/Lv_Log_Reader.thy ===== *)
theory Lv_Log_Reader
  imports Lv_Log_Writer
begin

text \<open>
  The log reader: \<open>db/log_reader.h\<close> and \<open>db/log_reader.cc\<close>. In the context of \<open>sequential_file\<close> the reader
  is shown to return the records of a log written by \<open>log_records\<close>, in order and without reporting a
  corruption, and to end on every file, whatever its bytes.
\<close>

text \<open>
  The reader and its file; \<open>reports\<close> are the calls of \<open>reporter_->Corruption\<close>, made when a reporter was
  given. The slice \<open>buffer_\<close> into \<open>backing_store_\<close> is its bytes.
\<close>

record 'f Reader =
  log_file :: 'f
  has_reporter :: bool
  checksum :: bool
  buffer :: slice
  eof :: bool
  last_record_offset :: u64
  end_of_buffer_offset :: u64
  initial_offset :: u64
  resyncing :: bool
  reports :: "(u64 \<times> Status) list"

definition Reader_init :: "'f \<Rightarrow> bool \<Rightarrow> bool \<Rightarrow> u64 \<Rightarrow> 'f Reader" where
  "Reader_init file reporter chk offset =
     \<lparr>log_file = file, has_reporter = reporter, checksum = chk, buffer = [], eof = False,
      last_record_offset = 0, end_of_buffer_offset = 0, initial_offset = offset, resyncing = offset > 0,
      reports = []\<rparr>"

text \<open>The results of \<open>ReadPhysicalRecord\<close> beside the record types: \<open>unsigned int\<close>.\<close>

definition kEof :: u32 where "kEof = 5"
definition kBadRecord :: u32 where "kBadRecord = 6"

definition size64 :: "slice \<Rightarrow> u64" where
  "size64 s = word_of_nat (length s)"

definition ReportDrop :: "u64 \<Rightarrow> Status \<Rightarrow> 'f Reader \<Rightarrow> 'f Reader" where
  "ReportDrop bytes reason st =
     (if has_reporter st \<and> end_of_buffer_offset st - size64 (buffer st) - bytes \<ge> initial_offset st
      then st\<lparr>reports := reports st @ [(bytes, reason)]\<rparr> else st)"

definition ReportCorruption :: "u64 \<Rightarrow> string \<Rightarrow> 'f Reader \<Rightarrow> 'f Reader" where
  "ReportCorruption bytes reason st = ReportDrop bytes (Corruption (str reason) []) st"

definition SkipToInitialBlock :: "(u64 \<Rightarrow> 'f \<Rightarrow> Status \<times> 'f) \<Rightarrow> 'f Reader \<Rightarrow> bool \<times> 'f Reader" where
  "SkipToInitialBlock skip st =
     (let offset_in_block = unat (initial_offset st) mod kBlockSize;
          block_start_location = initial_offset st - word_of_nat offset_in_block;
          block_start_location =
            (if offset_in_block > kBlockSize - 6 then block_start_location + word_of_nat kBlockSize
             else block_start_location);
          st = st\<lparr>end_of_buffer_offset := block_start_location\<rparr> in
      if block_start_location > 0
      then let (skip_status, f) = skip block_start_location (log_file st); st = st\<lparr>log_file := f\<rparr> in
        if \<not> ok skip_status then (False, ReportDrop block_start_location skip_status st) else (True, st)
      else (True, st))"

text \<open>
  \<open>ReadPhysicalRecord\<close>: the type, the value of \<open>*result\<close> (passed in as \<open>old\<close>, since some returns leave it
  unchanged) and the reader. The type byte is a \<open>char\<close>, which is signed. The body after the header
  checks is \<open>parse_physical\<close>.
\<close>

definition parse_physical :: "slice \<Rightarrow> 'f Reader \<Rightarrow> u32 \<times> slice \<times> 'f Reader" where
  "parse_physical old st =
     (let header = buffer st; a = ucast (header ! 4) AND 0xff; b = ucast (header ! 5) AND 0xff;
          type = scast (header ! 6) :: u32; len = a OR push_bit 8 b :: u32; n = unat len in
      if kHeaderSize + n > length (buffer st)
      then let drop_size = size64 (buffer st); st = st\<lparr>buffer := []\<rparr> in
        if \<not> eof st then (kBadRecord, old, ReportCorruption drop_size ''bad record length'' st)
        else (kEof, old, st)
      else if type = 0 \<and> len = 0 then (kBadRecord, old, st\<lparr>buffer := []\<rparr>)
      else if checksum st \<and>
          Value 0 (take (1 + n) (drop 6 header)) \<noteq> Unmask (DecodeFixed32 header)
      then let drop_size = size64 (buffer st); st = st\<lparr>buffer := []\<rparr> in
        (kBadRecord, old, ReportCorruption drop_size ''checksum mismatch'' st)
      else let st = st\<lparr>buffer := drop (kHeaderSize + n) (buffer st)\<rparr> in
        if end_of_buffer_offset st - size64 (buffer st) - word_of_nat kHeaderSize - word_of_nat n
            < initial_offset st
        then (kBadRecord, [], st)
        else (type, take n (drop kHeaderSize header), st))"

function ReadPhysicalRecord ::
  "(nat \<Rightarrow> 'f \<Rightarrow> Status \<times> slice \<times> 'f) \<Rightarrow> slice \<Rightarrow> 'f Reader \<Rightarrow> u32 \<times> slice \<times> 'f Reader"
where
  "ReadPhysicalRecord rd old st =
     (if length (buffer st) < kHeaderSize then
        if \<not> eof st then
          let (status, d, f) = rd kBlockSize (log_file st);
              st = st\<lparr>log_file := f, buffer := d, end_of_buffer_offset := end_of_buffer_offset st + size64 d\<rparr> in
          if \<not> ok status
          then (kEof, old, (ReportDrop (word_of_nat kBlockSize) status (st\<lparr>buffer := []\<rparr>))\<lparr>eof := True\<rparr>)
          else if length d < kBlockSize then ReadPhysicalRecord rd old (st\<lparr>eof := True\<rparr>)
          else ReadPhysicalRecord rd old st
        else (kEof, old, st\<lparr>buffer := []\<rparr>)
      else parse_physical old st)"
  by pat_completeness auto
termination
  by (relation "measure (\<lambda>(rd, old, st). if length (buffer st) < 7 \<and> \<not> eof st then 1 else 0)")
    (auto simp: kBlockSize_def)

declare ReadPhysicalRecord.simps [simp del]

section \<open>ReadRecord\<close>

definition type_code32 :: "RecordType \<Rightarrow> u32" where
  "type_code32 t = ucast (type_byte t)"

definition physical_record_offset :: "slice \<Rightarrow> 'f Reader \<Rightarrow> u64" where
  "physical_record_offset fragment st =
     end_of_buffer_offset st - size64 (buffer st) - word_of_nat kHeaderSize - size64 fragment"

text \<open>
  The variables of the loop are \<open>in_fragmented_record\<close>, \<open>*scratch\<close>, \<open>prospective_record_offset\<close> and
  \<open>fragment\<close>, with the reader. One pass goes on with new variables (\<open>Inl\<close>) or returns the record,
  \<open>None\<close> for \<open>false\<close> (\<open>Inr\<close>). The loop may not end on an endless file: the outer option is the result of
  the recursion.
\<close>

type_synonym 'f read_vars = "bool \<times> slice \<times> u64 \<times> slice \<times> 'f Reader"

definition unknown_type_text :: "u32 \<Rightarrow> slice" where
  "unknown_type_text t = str ''unknown record type '' @ decimal (unat t)"

definition partial_record :: "bool \<Rightarrow> slice \<Rightarrow> string \<Rightarrow> 'f Reader \<Rightarrow> 'f Reader" where
  "partial_record in_frag scratch reason st =
     (if in_frag \<and> scratch \<noteq> [] then ReportCorruption (size64 scratch) reason st else st)"

definition read_step ::
  "(nat \<Rightarrow> 'f \<Rightarrow> Status \<times> slice \<times> 'f) \<Rightarrow> 'f read_vars \<Rightarrow> 'f read_vars + (slice option \<times> 'f Reader)"
where
  "read_step rd = (\<lambda>(in_frag, scratch, prospective, fragment, st).
     (let (record_type, fragment, st) = ReadPhysicalRecord rd fragment st;
          offset = physical_record_offset fragment st in
      if resyncing st \<and> record_type = type_code32 kMiddleType
      then Inl (in_frag, scratch, prospective, fragment, st)
      else if resyncing st \<and> record_type = type_code32 kLastType
      then Inl (in_frag, scratch, prospective, fragment, st\<lparr>resyncing := False\<rparr>)
      else let st = (if resyncing st then st\<lparr>resyncing := False\<rparr> else st) in
        if record_type = type_code32 kFullType then
          Inr (Some fragment,
            (partial_record in_frag scratch ''partial record without end(1)'' st)\<lparr>last_record_offset := offset\<rparr>)
        else if record_type = type_code32 kFirstType then
          Inl (True, fragment, offset, fragment,
            partial_record in_frag scratch ''partial record without end(2)'' st)
        else if record_type = type_code32 kMiddleType then
          if \<not> in_frag
          then Inl (in_frag, scratch, prospective, fragment,
            ReportCorruption (size64 fragment) ''missing start of fragmented record(1)'' st)
          else Inl (in_frag, scratch @ fragment, prospective, fragment, st)
        else if record_type = type_code32 kLastType then
          if \<not> in_frag
          then Inl (in_frag, scratch, prospective, fragment,
            ReportCorruption (size64 fragment) ''missing start of fragmented record(2)'' st)
          else Inr (Some (scratch @ fragment), st\<lparr>last_record_offset := prospective\<rparr>)
        else if record_type = kEof then Inr (None, st)
        else if record_type = kBadRecord then
          if in_frag
          then Inl (False, [], prospective, fragment,
            ReportCorruption (size64 scratch) ''error in middle of record'' st)
          else Inl (in_frag, scratch, prospective, fragment, st)
        else Inl (False, [], prospective, fragment,
          ReportDrop (size64 fragment + (if in_frag then size64 scratch else 0))
            (Corruption (unknown_type_text record_type) []) st)))"

partial_function (option) ReadRecord_loop ::
  "(nat \<Rightarrow> 'f \<Rightarrow> Status \<times> slice \<times> 'f) \<Rightarrow> 'f read_vars \<Rightarrow> (slice option \<times> 'f Reader) option"
where
  "ReadRecord_loop rd v =
     (case read_step rd v of Inl v \<Rightarrow> ReadRecord_loop rd v | Inr res \<Rightarrow> Some res)"

definition ReadRecord ::
  "(nat \<Rightarrow> 'f \<Rightarrow> Status \<times> slice \<times> 'f) \<Rightarrow> (u64 \<Rightarrow> 'f \<Rightarrow> Status \<times> 'f) \<Rightarrow> 'f Reader \<Rightarrow>
   (slice option \<times> 'f Reader) option"
where
  "ReadRecord rd skip st =
     (if last_record_offset st < initial_offset st
      then let (b, st) = SkipToInitialBlock skip st in
        if \<not> b then Some (None, st) else ReadRecord_loop rd (False, [], 0, [], st)
      else ReadRecord_loop rd (False, [], 0, [], st))"

definition LastRecordOffset :: "'f Reader \<Rightarrow> u64" where
  "LastRecordOffset st = last_record_offset st"

section \<open>Termination\<close>

lemma Report_simps [simp]:
  "buffer (ReportDrop b r st) = buffer st" "log_file (ReportDrop b r st) = log_file st"
  "eof (ReportDrop b r st) = eof st" "resyncing (ReportDrop b r st) = resyncing st"
  "buffer (ReportCorruption b x st) = buffer st" "log_file (ReportCorruption b x st) = log_file st"
  "eof (ReportCorruption b x st) = eof st" "resyncing (ReportCorruption b x st) = resyncing st"
  "buffer (partial_record fr sc x st) = buffer st" "log_file (partial_record fr sc x st) = log_file st"
  "eof (partial_record fr sc x st) = eof st"
  by (simp_all add: ReportDrop_def ReportCorruption_def partial_record_def)

lemma parse_physical_shrinks:
  assumes "7 \<le> length (buffer st)" "parse_physical old st = (t, r, st')"
  shows "log_file st' = log_file st \<and> length (buffer st') < length (buffer st)"
proof -
  have "0 < length (buffer st)" using assms(1) by linarith
  with assms show ?thesis
    by (auto simp: parse_physical_def Let_def split: if_splits)
qed

context sequential_file
begin

definition input_left :: "'f Reader \<Rightarrow> nat" where
  "input_left st = length (remaining (log_file st)) + length (buffer st)"

lemma ReadPhysicalRecord_shrinks:
  "ReadPhysicalRecord read old st = (t, r, st') \<Longrightarrow> t \<noteq> kEof \<Longrightarrow> input_left st' < input_left st"
proof (induction "if length (buffer st) < 7 \<and> \<not> eof st then 1 else 0 :: nat" arbitrary: st rule: less_induct)
  case less
  show ?case
  proof (cases "length (buffer st) < 7")
    case False
    then have "parse_physical old st = (t, r, st')"
      using less.prems(1) by (subst (asm) ReadPhysicalRecord.simps) simp
    with False show ?thesis
      using parse_physical_shrinks [of st old t r st'] by (simp add: input_left_def)
  next
    case True
    obtain s d f where rd: "read kBlockSize (log_file st) = (s, d, f)" by (metis surj_pair)
    have eof: "\<not> eof st" "ok s"
      using less.prems True rd by (auto simp: ReadPhysicalRecord.simps [of _ _ st] Let_def split: if_splits)
    define st1 where "st1 = st\<lparr>log_file := f, buffer := d, end_of_buffer_offset := end_of_buffer_offset st + size64 d\<rparr>"
    define st2 where "st2 = (if length d < kBlockSize then st1\<lparr>eof := True\<rparr> else st1)"
    have go: "ReadPhysicalRecord read old st2 = (t, r, st')"
      using less.prems(1) True eof rd
      by (simp add: ReadPhysicalRecord.simps [of _ _ st] st2_def st1_def Let_def split: if_splits)
    have "(if length (buffer st2) < 7 \<and> \<not> eof st2 then 1 else 0 :: nat) < (if length (buffer st) < 7 \<and> \<not> eof st then 1 else 0)"
      using True eof by (auto simp: st2_def st1_def kBlockSize_def)
    from less.hyps [OF this go less.prems(2)] have "input_left st' < input_left st2" .
    moreover have "input_left st2 \<le> input_left st"
      using read_remaining [OF rd] by (auto simp: input_left_def st2_def st1_def)
    ultimately show ?thesis by simp
  qed
qed

lemma read_step_shrinks:
  "read_step read (fr, sc, po, fg, st) = Inl (fr', sc', po', fg', st') \<Longrightarrow> input_left st' < input_left st"
proof -
  obtain t r st1 where r: "ReadPhysicalRecord read fg st = (t, r, st1)" by (metis surj_pair)
  assume step: "read_step read (fr, sc, po, fg, st) = Inl (fr', sc', po', fg', st')"
  then have "t \<noteq> kEof"
    by (auto simp: read_step_def r Let_def type_code32_def kEof_def)
  moreover have "buffer st' = buffer st1 \<and> log_file st' = log_file st1"
    using step by (auto simp: read_step_def r Let_def split: if_splits)
  ultimately show ?thesis using ReadPhysicalRecord_shrinks [OF r] by (simp add: input_left_def)
qed

lemma ReadRecord_loop_ends: "\<exists>res. ReadRecord_loop read (fr, sc, po, fg, st) = Some res"
proof (induction "input_left st" arbitrary: fr sc po fg st rule: less_induct)
  case less
  show ?case
  proof (cases "read_step read (fr, sc, po, fg, st)")
    case (Inl v)
    moreover obtain fr' sc' po' fg' st' where "v = (fr', sc', po', fg', st')" by (metis surj_pair)
    ultimately have v: "read_step read (fr, sc, po, fg, st) = Inl (fr', sc', po', fg', st')" by simp
    from less [OF read_step_shrinks [OF this]] v show ?thesis
      by (subst ReadRecord_loop.simps) simp
  qed (subst ReadRecord_loop.simps, simp)
qed

lemma ReadRecord_ends: "\<exists>res. ReadRecord read skip st = Some res"
  using ReadRecord_loop_ends by (auto simp: ReadRecord_def split: prod.splits)

end

section \<open>Reading what was written\<close>

lemma length_word:
  assumes "n < 65536"
  shows "unat ((ucast (word_of_nat (n mod 256) :: byte) AND 0xff) OR
    push_bit 8 (ucast (word_of_nat (n div 256) :: byte) AND 0xff) :: u32) = n"
proof -
  let ?a = "ucast (word_of_nat (n mod 256) :: byte) AND 0xff :: u32"
  let ?b = "ucast (word_of_nat (n div 256) :: byte) AND 0xff :: u32"
  have a: "unat ?a = n mod 256" by (simp add: unat_and_ff unat_ucast_up unat_of_nat)
  have b: "unat ?b = n div 256" using assms by (simp add: unat_and_ff unat_ucast_up unat_of_nat)
  have "?a AND push_bit 8 ?b = 0"
  proof (rule bit_word_eqI)
    fix k assume "k < LENGTH(32)"
    show "bit (?a AND push_bit 8 ?b) k = bit 0 k"
      unfolding bit_and_iff bit_push_bit_iff bit_255 by simp
  qed
  then have "?a OR push_bit 8 ?b = ?a + push_bit 8 ?b"
    by (simp add: disjunctive_add_eq_or)
  moreover have "unat (push_bit 8 ?b) = 256 * (n div 256)"
    using assms b by (simp add: push_bit_eq_mult unat_word_ariths)
  ultimately show ?thesis
    using a assms by (simp add: unat_word_ariths)
qed

lemma scast_type_byte: "(scast (type_byte t) :: u32) = type_code32 t"
  by (cases t) (simp_all add: type_code32_def)

lemma type_code32_simps [simp]:
  "type_code32 s = type_code32 t \<longleftrightarrow> s = t" "type_code32 t \<noteq> kEof" "type_code32 t \<noteq> kBadRecord"
  "type_code32 t = 0 \<longleftrightarrow> t = kZeroType"
  by (cases s; cases t; simp add: type_code32_def kEof_def kBadRecord_def)+

lemma length_4: "length xs = 4 \<Longrightarrow> \<exists>a b c d. xs = [a, b, c, d]"
  by (auto simp: length_Suc_conv numeral_eq_Suc)

lemma parse_physical_ok:
  assumes "buffer st = physical t p @ rest" "t \<noteq> kZeroType" "length p < 65536" "initial_offset st = 0"
  shows "parse_physical old st = (type_code32 t, p, st\<lparr>buffer := rest\<rparr>)"
proof -
  let ?c = "Mask (Value 0 (type_byte t # p))"
  obtain c0 c1 c2 c3 where c: "EncodeFixed32 ?c = [c0, c1, c2, c3]"
    using length_4 [OF length_EncodeFixed(1) [of ?c]] by blast
  let ?h = "[c0, c1, c2, c3, word_of_nat (length p mod 256), word_of_nat (length p div 256), type_byte t]"
  have buf: "buffer st = ?h @ p @ rest"
    using assms(1) by (simp add: physical_def header_def c)
  have crc: "DecodeFixed32 (?h @ p @ rest) = ?c"
    using DecodeFixed32_Encode [of ?c] c by simp
  have n: "unat ((ucast ((?h @ p @ rest) ! 4) AND 0xff) OR push_bit 8 (ucast ((?h @ p @ rest) ! 5) AND 0xff) :: u32)
      = length p"
    using length_word [OF assms(3)] by simp
  have ty: "(?h @ p @ rest) ! 6 = type_byte t" by simp
  have dr: "drop (kHeaderSize + length p) (?h @ p @ rest) = rest"
    by (simp add: add.commute [of 7] flip: drop_drop)
  show ?thesis
    unfolding parse_physical_def Let_def buf n ty scast_type_byte crc dr
    using assms(2,4) by (simp add: Unmask_Mask)
qed

lemma log_record_block_start: "log_record bgn 0 p = log_record bgn kBlockSize p"
  by (subst (1 2) log_record.simps) (simp add: block_start_def trailer_pad_def kBlockSize_def)

context sequential_file
begin

text \<open>
  The reader stands at the block offset \<open>off\<close> and \<open>S\<close> is what it has not read: the rest of the block is in
  its buffer.
\<close>

definition reader_at :: "nat \<Rightarrow> slice \<Rightarrow> 'f Reader \<Rightarrow> bool" where
  "reader_at off S st \<longleftrightarrow> off \<le> kBlockSize \<and> buffer st = take (kBlockSize - off) S \<and>
     remaining (log_file st) = drop (kBlockSize - off) S \<and>
     (if eof st then length S < kBlockSize - off else kBlockSize - off \<le> length S) \<and>
     healthy (log_file st) \<and> initial_offset st = 0 \<and> \<not> resyncing st \<and> reports st = []"

lemma reader_at_next_block:
  assumes "reader_at off S st" "kBlockSize - off < 7" "\<not> eof st" "S' = drop (kBlockSize - off) S"
  shows "\<exists>st'. ReadPhysicalRecord read old st = ReadPhysicalRecord read old st' \<and> reader_at 0 S' st'"
proof -
  obtain s d f where rd: "read kBlockSize (log_file st) = (s, d, f)" by (metis surj_pair)
  have h: "ok s" "healthy f" using read_healthy [OF rd] assms(1) by (auto simp: reader_at_def)
  have d: "d = take kBlockSize S'" "remaining f = drop kBlockSize S'"
    using read_ok [OF rd h(1)] assms(1,4) by (auto simp: reader_at_def)
  let ?st = "st\<lparr>log_file := f, buffer := d, end_of_buffer_offset := end_of_buffer_offset st + size64 d\<rparr>"
  let ?st' = "if length d < kBlockSize then ?st\<lparr>eof := True\<rparr> else ?st"
  have "length (buffer st) < 7" using assms(1,2) by (simp add: reader_at_def)
  then have "ReadPhysicalRecord read old st = ReadPhysicalRecord read old ?st'"
    using assms(3) rd h(1) by (simp add: ReadPhysicalRecord.simps [of _ _ st] Let_def)
  moreover have "reader_at 0 S' ?st'"
    using assms(1,3) d h by (auto simp: reader_at_def min_def split: if_splits)
  ultimately show ?thesis by blast
qed

lemma read_in_block:
  assumes "reader_at off (physical t p @ S) st" "t \<noteq> kZeroType" "off + 7 + length p \<le> kBlockSize"
  shows "\<exists>st'. ReadPhysicalRecord read old st = (type_code32 t, p, st') \<and> reader_at (off + 7 + length p) S st'"
proof -
  let ?rest = "take (kBlockSize - (off + 7 + length p)) S"
  have buf: "buffer st = physical t p @ ?rest"
    using assms(1,3) by (simp add: reader_at_def add.assoc)
  have p: "length p < 65536" using assms(3) by (simp add: kBlockSize_def)
  have "ReadPhysicalRecord read old st = parse_physical old st"
    by (subst ReadPhysicalRecord.simps) (simp add: buf)
  also have "\<dots> = (type_code32 t, p, st\<lparr>buffer := ?rest\<rparr>)"
    using assms(1) by (intro parse_physical_ok [OF buf assms(2) p]) (simp add: reader_at_def)
  finally show ?thesis
    using assms(1,3) by (auto simp: reader_at_def add.assoc split: if_splits)
qed

lemma ReadPhysicalRecord_at:
  assumes "reader_at off (trailer_pad off @ physical t p @ S) st" "t \<noteq> kZeroType"
    and "block_start off + 7 + length p \<le> kBlockSize"
  shows "\<exists>st'. ReadPhysicalRecord read old st = (type_code32 t, p, st') \<and>
    reader_at (block_start off + 7 + length p) S st'"
proof (cases "kBlockSize - off < 7")
  case False
  with assms read_in_block [of off t p S st old] show ?thesis
    by (simp add: trailer_pad_def block_start_def)
next
  case True
  let ?S = "trailer_pad off @ physical t p @ S"
  have "\<not> eof st"
    using assms(1) True by (auto simp: reader_at_def trailer_pad_def split: if_splits)
  moreover have "physical t p @ S = drop (kBlockSize - off) ?S" using True by (simp add: trailer_pad_def)
  ultimately obtain st1 where "ReadPhysicalRecord read old st = ReadPhysicalRecord read old st1"
    "reader_at 0 (physical t p @ S) st1"
    using reader_at_next_block [OF assms(1) True] by blast
  with True read_in_block [of 0 t p S st1 old] assms(2,3) show ?thesis by (simp add: block_start_def)
qed

lemma ReadPhysicalRecord_end:
  assumes "reader_at off [] st"
  shows "\<exists>st'. ReadPhysicalRecord read old st = (kEof, old, st') \<and> (\<exists>o2. reader_at o2 [] st')"
proof -
  have eof: "ReadPhysicalRecord read old st = (kEof, old, st\<lparr>buffer := []\<rparr>)" if "eof st" "buffer st = []" for st
    using that by (subst ReadPhysicalRecord.simps) simp
  show ?thesis
  proof (cases "eof st")
    case True
    with assms eof [of st] show ?thesis by (auto simp: reader_at_def split: if_splits)
  next
    case False
    then have "kBlockSize - off < 7" using assms by (auto simp: reader_at_def split: if_splits)
    from reader_at_next_block [OF assms this False, of "[]" old] obtain st1 where
      "ReadPhysicalRecord read old st = ReadPhysicalRecord read old st1" and st1: "reader_at 0 [] st1" by auto
    moreover have "eof st1" "buffer st1 = []" using st1 by (auto simp: reader_at_def kBlockSize_def split: if_splits)
    ultimately have "ReadPhysicalRecord read old st = (kEof, old, st1\<lparr>buffer := []\<rparr>)" using eof [of st1] by simp
    moreover have "reader_at 0 [] (st1\<lparr>buffer := []\<rparr>)" using st1 by (auto simp: reader_at_def)
    ultimately show ?thesis by blast
  qed
qed

lemma reader_at_offset [simp]:
  "reader_at off S (st\<lparr>last_record_offset := o1\<rparr>) = reader_at off S st"
  by (simp add: reader_at_def)

lemma partial_record_none [simp]: "partial_record False sc x st = st"
  by (simp add: partial_record_def)

lemma fragment_type_not_zero: "fragment_type b e \<noteq> kZeroType"
  by (simp add: fragment_type_def)

lemma read_log_record:
  assumes "log_record bgn off p = (bytes, o2)" "reader_at off (bytes @ S) st" "bgn \<Longrightarrow> sc = []"
  shows "\<exists>st'. ReadRecord_loop read (\<not> bgn, sc, po, fg, st) = Some (Some (sc @ p), st') \<and> reader_at o2 S st'"
  using assms
proof (induction bgn off p arbitrary: bytes sc po fg st rule: log_record.induct)
  case (1 bgn off p bytes sc po fg st)
  define o1 where "o1 = block_start off"
  define m where "m = min (length p) (kBlockSize - o1 - 7)"
  define ty where "ty = fragment_type bgn (length p = m)"
  define b where "b = trailer_pad off @ physical ty (take m p)"
  have len: "length (take m p) = m" by (simp add: m_def)
  have ty0: "ty \<noteq> kZeroType" by (simp add: ty_def fragment_type_not_zero)
  have "off \<le> kBlockSize" using 1(3) by (simp add: reader_at_def)
  then have "o1 \<le> kBlockSize - 7" by (auto simp: o1_def block_start_def kBlockSize_def)
  then have fits: "o1 + 7 + m \<le> kBlockSize" unfolding m_def by (simp add: kBlockSize_def)
  note rec = log_record.simps [of bgn off p, folded o1_def, unfolded Let_def, folded m_def, folded ty_def, folded b_def]
  have nr: "\<not> resyncing st'" if "reader_at o' S' st'" for o' S' st' using that by (simp add: reader_at_def)
  show ?case
  proof (cases "m < length p")
    case True
    obtain rest where rest: "log_record False (o1 + 7 + m) (drop m p) = (rest, o2)" "bytes = b @ rest"
      using 1(2) True by (auto simp: rec split: prod.splits)
    have "reader_at off (trailer_pad off @ physical ty (take m p) @ (rest @ S)) st"
      using 1(3) rest(2) by (simp add: b_def)
    from ReadPhysicalRecord_at [OF this ty0, of fg] obtain st1 where
      r: "ReadPhysicalRecord read fg st = (type_code32 ty, take m p, st1)" and at: "reader_at (o1 + 7 + m) (rest @ S) st1"
      using fits len unfolding o1_def by auto
    have "ty = (if bgn then kFirstType else kMiddleType)" using True by (simp add: ty_def fragment_type_def)
    then have "read_step read (\<not> bgn, sc, po, fg, st) =
        Inl (True, sc @ take m p, if bgn then physical_record_offset (take m p) st1 else po, take m p, st1)"
      using r nr [OF at] 1(4) by (cases bgn) (simp_all add: read_step_def Let_def)
    then have go: "ReadRecord_loop read (\<not> bgn, sc, po, fg, st) = ReadRecord_loop read
        (\<not> False, sc @ take m p, if bgn then physical_record_offset (take m p) st1 else po, take m p, st1)"
      by (subst ReadRecord_loop.simps) simp
    have "\<exists>st'. ReadRecord_loop read (\<not> False, sc @ take m p, pr, take m p, st1) =
        Some (Some ((sc @ take m p) @ drop m p), st') \<and> reader_at o2 S st'" for pr
      by (rule 1(1) [OF o1_def m_def HOL.refl True rest(1) at]) simp
    then show ?thesis unfolding go by simp
  next
    case False
    then have bytes: "bytes = b" "o2 = o1 + 7 + m" and m: "take m p = p" "m = length p"
      using 1(2) by (auto simp: rec m_def)
    have "reader_at off (trailer_pad off @ physical ty p @ S) st"
      using 1(3) bytes m by (simp add: b_def)
    from ReadPhysicalRecord_at [OF this ty0, of fg] obtain st1 where
      r: "ReadPhysicalRecord read fg st = (type_code32 ty, p, st1)" and at: "reader_at o2 S st1"
      using fits m bytes unfolding o1_def by auto
    have "ty = (if bgn then kFullType else kLastType)" using m by (simp add: ty_def fragment_type_def)
    then have "\<exists>o3. read_step read (\<not> bgn, sc, po, fg, st) = Inr (Some (sc @ p), st1\<lparr>last_record_offset := o3\<rparr>)"
      using r nr [OF at] 1(4) by (cases bgn) (auto simp: read_step_def Let_def)
    with at show ?thesis by (subst ReadRecord_loop.simps) auto
  qed
qed

lemma read_log_end:
  assumes "reader_at off [] st"
  shows "\<exists>st' o2. ReadRecord_loop read (False, [], po, fg, st) = Some (None, st') \<and> reader_at o2 [] st'"
proof -
  obtain st1 o2 where r: "ReadPhysicalRecord read fg st = (kEof, fg, st1)" "reader_at o2 [] st1"
    using ReadPhysicalRecord_end [OF assms] by blast
  then have "read_step read (False, [], po, fg, st) = Inr (None, st1)"
    by (simp add: read_step_def reader_at_def Let_def kEof_def type_code32_def)
  with r show ?thesis by (subst ReadRecord_loop.simps) auto
qed

end

text \<open>Calling \<open>ReadRecord\<close> until it returns \<open>false\<close>, at most \<open>n\<close> times.\<close>

fun ReadRecords ::
  "(nat \<Rightarrow> 'f \<Rightarrow> Status \<times> slice \<times> 'f) \<Rightarrow> (u64 \<Rightarrow> 'f \<Rightarrow> Status \<times> 'f) \<Rightarrow> nat \<Rightarrow> 'f Reader \<Rightarrow>
   (slice list \<times> 'f Reader) option"
where
  "ReadRecords rd skip 0 st = Some ([], st)"
| "ReadRecords rd skip (Suc n) st =
     (case ReadRecord rd skip st of
        None \<Rightarrow> None
      | Some (None, st) \<Rightarrow> Some ([], st)
      | Some (Some r, st) \<Rightarrow> map_option (\<lambda>(rs, st). (r # rs, st)) (ReadRecords rd skip n st))"

lemma log_records_block_start: "log_records 0 ps = log_records kBlockSize ps"
  by (cases ps) (simp_all add: log_record_block_start)

context sequential_file
begin

lemma ReadRecord_at: "reader_at off S st \<Longrightarrow> ReadRecord read skip st = ReadRecord_loop read (False, [], 0, [], st)"
  by (simp add: ReadRecord_def reader_at_def)

lemma read_log_records:
  "reader_at off (log_records off ps) st \<Longrightarrow>
   \<exists>st'. ReadRecords read skip (Suc (length ps)) st = Some (ps, st') \<and> reports st' = []"
proof (induction ps arbitrary: off st)
  case Nil
  then have at: "reader_at off [] st" by simp
  from read_log_end [OF at, of 0 "[]"] show ?case
    by (auto simp: ReadRecord_at [OF at] reader_at_def)
next
  case (Cons p ps)
  obtain bytes o2 where b: "log_record True off p = (bytes, o2)" by (metis surj_pair)
  then have at: "reader_at off (bytes @ log_records o2 ps) st" using Cons.prems by simp
  from read_log_record [OF b at, of "[]" 0 "[]"] obtain st1 where
    r: "ReadRecord read skip st = Some (Some p, st1)" and at1: "reader_at o2 (log_records o2 ps) st1"
    by (auto simp: ReadRecord_at [OF at])
  from Cons.IH [OF at1] r show ?case by auto
qed

lemma Reader_init_at:
  "healthy f \<Longrightarrow> reader_at kBlockSize (remaining f) (Reader_init f rep chk 0)"
  by (simp add: reader_at_def Reader_init_def)

lemma read_log:
  "healthy f \<Longrightarrow> remaining f = log_records 0 ps \<Longrightarrow>
   \<exists>st. ReadRecords read skip (Suc (length ps)) (Reader_init f rep chk 0) = Some (ps, st) \<and> reports st = []"
  using read_log_records [of kBlockSize ps] Reader_init_at [of f rep chk] by (simp add: log_records_block_start)

end

section \<open>Corruption\<close>

text \<open>A payload that was changed inside four adjacent bytes does not pass the checksum.\<close>

lemma parse_physical_corrupt:
  assumes "buffer st = header t (u @ x @ v) @ (u @ y @ v) @ rest" "x \<noteq> y" "length y = length x" "length x \<le> 4"
    and "length (u @ x @ v) < 65536" "checksum st"
  shows "parse_physical old st =
    (kBadRecord, old, ReportCorruption (size64 (buffer st)) ''checksum mismatch'' (st\<lparr>buffer := []\<rparr>))"
proof -
  let ?p = "u @ x @ v" and ?q = "u @ y @ v"
  let ?c = "Mask (Value 0 (type_byte t # ?p))"
  obtain c0 c1 c2 c3 where c: "EncodeFixed32 ?c = [c0, c1, c2, c3]"
    using length_4 [OF length_EncodeFixed(1) [of ?c]] by blast
  let ?h = "[c0, c1, c2, c3, word_of_nat (length ?p mod 256), word_of_nat (length ?p div 256), type_byte t]"
  have buf: "buffer st = ?h @ ?q @ rest"
    using assms(1) by (simp add: header_def c)
  have crc: "DecodeFixed32 (?h @ ?q @ rest) = ?c"
    using DecodeFixed32_Encode [of ?c] c by simp
  have n: "unat ((ucast ((?h @ ?q @ rest) ! 4) AND 0xff) OR push_bit 8 (ucast ((?h @ ?q @ rest) ! 5) AND 0xff) :: u32)
      = length ?p"
    using length_word [OF assms(5)] by simp
  have q: "take (1 + length ?p) (drop 6 (?h @ ?q @ rest)) = type_byte t # ?q"
    using assms(3) by simp
  have sum: "Value 0 (type_byte t # ?q) \<noteq> Value 0 (type_byte t # ?p)"
    using burst_detected [of x y 0 "type_byte t # u" v] assms(2,3,4) by (simp add: Value_def Extend_ref)
  have n0: "\<not> length ?p = 0"
    using assms(2,3) by auto
  have l0: "\<not> ((ucast ((?h @ ?q @ rest) ! 4) AND 0xff) OR push_bit 8 (ucast ((?h @ ?q @ rest) ! 5) AND 0xff) :: u32) = 0"
    using n n0 by (metis unat_0)
  have fits: "\<not> length (?h @ ?q @ rest) < kHeaderSize + length ?p"
    using assms(3) by simp
  show ?thesis
    unfolding parse_physical_def Let_def buf n crc q
    by (simp only: fits sum l0 assms(6) if_False if_True simp_thms Unmask_Mask)
qed

end
