(* ===== verification/Lv_Version_Edit.thy ===== *)
theory Lv_Version_Edit
  imports Lv_Dbformat Lv_Status "HOL-Library.Product_Lexorder" "HOL-Library.Monad_Syntax"
begin

text \<open>
  The manifest entries of \<open>db/version_edit.h\<close> and \<open>version_edit.cc\<close>: a version edit as a record, its
  serialisation and parser. A \<open>std::set\<close> is the ascending list of its elements. An edit is shown to be
  the sequence of its tagged entries, each of which the parser reads back.
\<close>

record FileMetaData =
  refs :: int
  allowed_seeks :: int
  number :: u64
  file_size :: u64
  smallest :: slice
  largest :: slice

definition FileMetaData_init :: FileMetaData where
  "FileMetaData_init =
     \<lparr>refs = 0, allowed_seeks = 2 ^ 30, number = 0, file_size = 0, smallest = [], largest = []\<rparr>"

record VersionEdit =
  comparator_name :: slice
  log_number :: u64
  prev_log_number :: u64
  next_file_number :: u64
  last_sequence :: SequenceNumber
  has_comparator :: bool
  has_log_number :: bool
  has_prev_log_number :: bool
  has_next_file_number :: bool
  has_last_sequence :: bool
  compact_pointers :: "(int \<times> slice) list"
  deleted_files :: "(int \<times> u64) list"
  new_files :: "(int \<times> FileMetaData) list"

definition kNumLevels :: nat where "kNumLevels = 7"

text \<open>The tags.\<close>

definition kComparator :: u32 where "kComparator = 1"
definition kLogNumber :: u32 where "kLogNumber = 2"
definition kNextFileNumber :: u32 where "kNextFileNumber = 3"
definition kLastSequence :: u32 where "kLastSequence = 4"
definition kCompactPointer :: u32 where "kCompactPointer = 5"
definition kDeletedFile :: u32 where "kDeletedFile = 6"
definition kNewFile :: u32 where "kNewFile = 7"
definition kPrevLogNumber :: u32 where "kPrevLogNumber = 9"

lemmas tag_defs = kComparator_def kLogNumber_def kNextFileNumber_def kLastSequence_def kCompactPointer_def
  kDeletedFile_def kNewFile_def kPrevLogNumber_def

text \<open>\<open>Clear\<close> does not touch \<open>compact_pointers_\<close>.\<close>

definition VersionEdit_Clear :: "VersionEdit \<Rightarrow> VersionEdit" where
  "VersionEdit_Clear e = e\<lparr>comparator_name := [], log_number := 0, prev_log_number := 0, last_sequence := 0,
     next_file_number := 0, has_comparator := False, has_log_number := False, has_prev_log_number := False,
     has_next_file_number := False, has_last_sequence := False, deleted_files := [], new_files := []\<rparr>"

definition VersionEdit_init :: VersionEdit where
  "VersionEdit_init = \<lparr>comparator_name = [], log_number = 0, prev_log_number = 0, next_file_number = 0,
     last_sequence = 0, has_comparator = False, has_log_number = False, has_prev_log_number = False,
     has_next_file_number = False, has_last_sequence = False, compact_pointers = [], deleted_files = [],
     new_files = []\<rparr>"

definition SetComparatorName :: "slice \<Rightarrow> VersionEdit \<Rightarrow> VersionEdit" where
  "SetComparatorName name e = e\<lparr>has_comparator := True, comparator_name := name\<rparr>"

definition SetLogNumber :: "u64 \<Rightarrow> VersionEdit \<Rightarrow> VersionEdit" where
  "SetLogNumber num e = e\<lparr>has_log_number := True, log_number := num\<rparr>"

definition SetPrevLogNumber :: "u64 \<Rightarrow> VersionEdit \<Rightarrow> VersionEdit" where
  "SetPrevLogNumber num e = e\<lparr>has_prev_log_number := True, prev_log_number := num\<rparr>"

definition SetNextFile :: "u64 \<Rightarrow> VersionEdit \<Rightarrow> VersionEdit" where
  "SetNextFile num e = e\<lparr>has_next_file_number := True, next_file_number := num\<rparr>"

definition SetLastSequence :: "SequenceNumber \<Rightarrow> VersionEdit \<Rightarrow> VersionEdit" where
  "SetLastSequence sq e = e\<lparr>has_last_sequence := True, last_sequence := sq\<rparr>"

definition SetCompactPointer :: "int \<Rightarrow> slice \<Rightarrow> VersionEdit \<Rightarrow> VersionEdit" where
  "SetCompactPointer level key e = e\<lparr>compact_pointers := compact_pointers e @ [(level, key)]\<rparr>"

definition AddFile :: "int \<Rightarrow> u64 \<Rightarrow> u64 \<Rightarrow> slice \<Rightarrow> slice \<Rightarrow> VersionEdit \<Rightarrow> VersionEdit" where
  "AddFile level fnum fsize small large e =
     e\<lparr>new_files := new_files e @
        [(level, FileMetaData_init\<lparr>number := fnum, file_size := fsize, smallest := small, largest := large\<rparr>)]\<rparr>"

definition DeleteFile :: "int \<Rightarrow> u64 \<Rightarrow> VersionEdit \<Rightarrow> VersionEdit" where
  "DeleteFile level fnum e = e\<lparr>deleted_files := insort_insert (level, fnum) (deleted_files e)\<rparr>"

section \<open>Serialisation\<close>

text \<open>\<open>InternalKey::Encode\<close> asserts that the key is not empty. The three loops of \<open>EncodeTo\<close>.\<close>

definition InternalKey_Encode :: "slice \<Rightarrow> slice option" where
  "InternalKey_Encode rep = (if rep = [] then None else Some rep)"

fun put_compact_pointers :: "slice \<Rightarrow> (int \<times> slice) list \<Rightarrow> slice option" where
  "put_compact_pointers dst [] = Some dst"
| "put_compact_pointers dst ((level, key) # ps) = do {
     let dst = PutVarint32 dst kCompactPointer;
     let dst = PutVarint32 dst (word_of_int level);
     key \<leftarrow> InternalKey_Encode key;
     put_compact_pointers (PutLengthPrefixedSlice dst key) ps }"

fun put_deleted_files :: "slice \<Rightarrow> (int \<times> u64) list \<Rightarrow> slice" where
  "put_deleted_files dst [] = dst"
| "put_deleted_files dst ((level, num) # ds) =
     (let dst = PutVarint32 dst kDeletedFile; dst = PutVarint32 dst (word_of_int level);
          dst = PutVarint64 dst num in
      put_deleted_files dst ds)"

fun put_new_files :: "slice \<Rightarrow> (int \<times> FileMetaData) list \<Rightarrow> slice option" where
  "put_new_files dst [] = Some dst"
| "put_new_files dst ((level, f) # fs) = do {
     let dst = PutVarint32 dst kNewFile;
     let dst = PutVarint32 dst (word_of_int level);
     let dst = PutVarint64 dst (number f);
     let dst = PutVarint64 dst (file_size f);
     small \<leftarrow> InternalKey_Encode (smallest f);
     let dst = PutLengthPrefixedSlice dst small;
     large \<leftarrow> InternalKey_Encode (largest f);
     put_new_files (PutLengthPrefixedSlice dst large) fs }"

definition EncodeTo :: "VersionEdit \<Rightarrow> slice \<Rightarrow> slice option" where
  "EncodeTo e dst = do {
     let dst = (if has_comparator e then PutLengthPrefixedSlice (PutVarint32 dst kComparator) (comparator_name e)
                else dst);
     let dst = (if has_log_number e then PutVarint64 (PutVarint32 dst kLogNumber) (log_number e) else dst);
     let dst = (if has_prev_log_number e then PutVarint64 (PutVarint32 dst kPrevLogNumber) (prev_log_number e)
                else dst);
     let dst = (if has_next_file_number e then PutVarint64 (PutVarint32 dst kNextFileNumber) (next_file_number e)
                else dst);
     let dst = (if has_last_sequence e then PutVarint64 (PutVarint32 dst kLastSequence) (last_sequence e)
                else dst);
     dst \<leftarrow> put_compact_pointers dst (compact_pointers e);
     put_new_files (put_deleted_files dst (deleted_files e)) (new_files e) }"

section \<open>Parsing\<close>

text \<open>The parsers return the value, \<open>None\<close> for \<open>false\<close>, and the rest of the input.\<close>

definition GetInternalKey :: "slice \<Rightarrow> (slice \<times> slice) option" where
  "GetInternalKey inp =
     (case GetLengthPrefixedSlice inp of (Some s, inp) \<Rightarrow> Some (s, inp) | (None, inp) \<Rightarrow> None)"

definition GetLevel :: "slice \<Rightarrow> (int \<times> slice) option" where
  "GetLevel inp =
     (case GetVarint32 inp of
        Some (v, inp) \<Rightarrow> if unat v < kNumLevels then Some (int (unat v), inp) else None
      | None \<Rightarrow> None)"

text \<open>One pass of the loop for a tag: the error message, or the rest of the input and the edit.\<close>

definition decode_entry :: "u32 \<Rightarrow> slice \<Rightarrow> VersionEdit \<Rightarrow> string + (slice \<times> VersionEdit)" where
  "decode_entry tg inp e =
     (if tg = kComparator then
        (case GetLengthPrefixedSlice inp of
           (Some s, inp) \<Rightarrow> Inr (inp, e\<lparr>comparator_name := s, has_comparator := True\<rparr>)
         | _ \<Rightarrow> Inl ''comparator name'')
      else if tg = kLogNumber then
        (case GetVarint64 inp of
           Some (v, inp) \<Rightarrow> Inr (inp, e\<lparr>log_number := v, has_log_number := True\<rparr>)
         | None \<Rightarrow> Inl ''log number'')
      else if tg = kPrevLogNumber then
        (case GetVarint64 inp of
           Some (v, inp) \<Rightarrow> Inr (inp, e\<lparr>prev_log_number := v, has_prev_log_number := True\<rparr>)
         | None \<Rightarrow> Inl ''previous log number'')
      else if tg = kNextFileNumber then
        (case GetVarint64 inp of
           Some (v, inp) \<Rightarrow> Inr (inp, e\<lparr>next_file_number := v, has_next_file_number := True\<rparr>)
         | None \<Rightarrow> Inl ''next file number'')
      else if tg = kLastSequence then
        (case GetVarint64 inp of
           Some (v, inp) \<Rightarrow> Inr (inp, e\<lparr>last_sequence := v, has_last_sequence := True\<rparr>)
         | None \<Rightarrow> Inl ''last sequence number'')
      else if tg = kCompactPointer then
        (case GetLevel inp of
           Some (level, inp) \<Rightarrow>
             (case GetInternalKey inp of
                Some (key, inp) \<Rightarrow> Inr (inp, e\<lparr>compact_pointers := compact_pointers e @ [(level, key)]\<rparr>)
              | None \<Rightarrow> Inl ''compaction pointer'')
         | None \<Rightarrow> Inl ''compaction pointer'')
      else if tg = kDeletedFile then
        (case GetLevel inp of
           Some (level, inp) \<Rightarrow>
             (case GetVarint64 inp of
                Some (num, inp) \<Rightarrow> Inr (inp, e\<lparr>deleted_files := insort_insert (level, num) (deleted_files e)\<rparr>)
              | None \<Rightarrow> Inl ''deleted file'')
         | None \<Rightarrow> Inl ''deleted file'')
      else if tg = kNewFile then
        (case GetLevel inp of
           Some (level, inp) \<Rightarrow>
             (case GetVarint64 inp of
                Some (num, inp) \<Rightarrow>
                  (case GetVarint64 inp of
                     Some (fsize, inp) \<Rightarrow>
                       (case GetInternalKey inp of
                          Some (small, inp) \<Rightarrow>
                            (case GetInternalKey inp of
                               Some (large, inp) \<Rightarrow>
                                 Inr (inp, e\<lparr>new_files := new_files e @
                                   [(level, FileMetaData_init\<lparr>number := num, file_size := fsize,
                                      smallest := small, largest := large\<rparr>)]\<rparr>)
                             | None \<Rightarrow> Inl ''new-file entry'')
                        | None \<Rightarrow> Inl ''new-file entry'')
                   | None \<Rightarrow> Inl ''new-file entry'')
              | None \<Rightarrow> Inl ''new-file entry'')
         | None \<Rightarrow> Inl ''new-file entry'')
      else Inl ''unknown tag'')"

lemma GetInternalKey_shrinks: "GetInternalKey p = Some (s, rest) \<Longrightarrow> length rest < length p"
  by (auto simp: GetInternalKey_def split: prod.splits option.splits dest!: GetLengthPrefixedSlice_shrinks)

lemma GetLevel_shrinks: "GetLevel p = Some (l, rest) \<Longrightarrow> length rest < length p"
  by (auto simp: GetLevel_def split: prod.splits option.splits if_splits dest!: GetVarint32_shrinks)

lemmas get_shrinks = GetVarint32_shrinks GetVarint64_shrinks GetLengthPrefixedSlice_shrinks GetInternalKey_shrinks
  GetLevel_shrinks

lemma decode_entry_shrinks: "decode_entry t p e = Inr (rest, e') \<Longrightarrow> length rest < length p"
  by (auto simp: decode_entry_def split: if_splits option.splits prod.splits dest!: get_shrinks)

function edit_loop :: "slice \<Rightarrow> VersionEdit \<Rightarrow> string option \<times> slice \<times> VersionEdit" where
  "edit_loop inp e =
     (case GetVarint32 inp of
        None \<Rightarrow> (None, inp, e)
      | Some (t, inp1) \<Rightarrow>
          (case decode_entry t inp1 e of
             Inl msg \<Rightarrow> (Some msg, inp1, e)
           | Inr (inp2, e) \<Rightarrow> edit_loop inp2 e))"
  by pat_completeness auto
termination
  by (relation "measure (\<lambda>(inp, e). length inp)") (auto dest!: get_shrinks decode_entry_shrinks)

declare edit_loop.simps [simp del]

definition DecodeFrom :: "slice \<Rightarrow> VersionEdit \<Rightarrow> Status \<times> VersionEdit" where
  "DecodeFrom src e =
     (let (msg, inp, e) = edit_loop src (VersionEdit_Clear e);
          msg = (if msg = None \<and> inp \<noteq> [] then Some ''invalid tag'' else msg) in
      (case msg of None \<Rightarrow> OK | Some m \<Rightarrow> Corruption (str ''VersionEdit'') (str m), e))"

section \<open>Reading back\<close>

lemma edit_loop_entry:
  "decode_entry t inp e = Inr (inp', e') \<Longrightarrow> edit_loop (EncodeVarint32 t @ inp) e = edit_loop inp' e'"
  by (subst edit_loop.simps) simp

lemma edit_loop_end: "edit_loop [] e = (None, [], e)"
proof -
  have "GetVarint32 [] = None" by (simp add: GetVarint32_def GetVarint32Ptr_loop)
  then show ?thesis by (subst edit_loop.simps) simp
qed

lemma GetInternalKey_enc [simp]: "length s < 2 ^ 32 \<Longrightarrow> GetInternalKey (length_prefixed s @ rest) = Some (s, rest)"
  by (simp add: GetInternalKey_def)

definition level_ok :: "int \<Rightarrow> bool" where
  "level_ok l \<longleftrightarrow> 0 \<le> l \<and> l < int kNumLevels"

lemma GetLevel_enc [simp]: "level_ok l \<Longrightarrow> GetLevel (EncodeVarint32 (word_of_int l) @ rest) = Some (l, rest)"
proof -
  assume "level_ok l"
  then obtain n where n: "l = int n" "n < kNumLevels"
    by (auto simp: level_ok_def elim: nonneg_int_cases)
  have w: "(word_of_int (int n) :: u32) = word_of_nat n" by simp
  have u: "unat (word_of_nat n :: u32) = n" using n(2) by (simp add: unat_of_nat kNumLevels_def)
  show ?thesis unfolding n(1) w using n(2) by (simp add: GetLevel_def u)
qed

text \<open>\<open>EncodeTo\<close> appends one tagged entry for each item.\<close>

definition enc_compact_pointer :: "int \<times> slice \<Rightarrow> slice" where
  "enc_compact_pointer p =
     EncodeVarint32 kCompactPointer @ EncodeVarint32 (word_of_int (fst p)) @ length_prefixed (snd p)"

definition enc_deleted_file :: "int \<times> u64 \<Rightarrow> slice" where
  "enc_deleted_file d = EncodeVarint32 kDeletedFile @ EncodeVarint32 (word_of_int (fst d)) @ EncodeVarint64 (snd d)"

definition enc_new_file :: "int \<times> FileMetaData \<Rightarrow> slice" where
  "enc_new_file nf = EncodeVarint32 kNewFile @ EncodeVarint32 (word_of_int (fst nf)) @
     EncodeVarint64 (number (snd nf)) @ EncodeVarint64 (file_size (snd nf)) @
     length_prefixed (smallest (snd nf)) @ length_prefixed (largest (snd nf))"

lemmas put_defs = PutVarint32_def PutVarint64_def PutLengthPrefixedSlice_eq

definition keys_made :: "VersionEdit \<Rightarrow> bool" where
  "keys_made e \<longleftrightarrow> (\<forall>p \<in> set (compact_pointers e). snd p \<noteq> []) \<and>
     (\<forall>nf \<in> set (new_files e). smallest (snd nf) \<noteq> [] \<and> largest (snd nf) \<noteq> [])"

lemma put_concat:
  "\<forall>p \<in> set ps. snd p \<noteq> [] \<Longrightarrow> put_compact_pointers dst ps = Some (dst @ concat (map enc_compact_pointer ps))"
  "put_deleted_files dst ds = dst @ concat (map enc_deleted_file ds)"
  "\<forall>nf \<in> set fs. smallest (snd nf) \<noteq> [] \<and> largest (snd nf) \<noteq> [] \<Longrightarrow>
     put_new_files dst fs = Some (dst @ concat (map enc_new_file fs))"
proof -
  show "\<forall>p \<in> set ps. snd p \<noteq> [] \<Longrightarrow> put_compact_pointers dst ps = Some (dst @ concat (map enc_compact_pointer ps))"
    by (induction dst ps rule: put_compact_pointers.induct) (simp_all add: put_defs enc_compact_pointer_def InternalKey_Encode_def)
  show "put_deleted_files dst ds = dst @ concat (map enc_deleted_file ds)"
    by (induction dst ds rule: put_deleted_files.induct) (simp_all add: put_defs enc_deleted_file_def)
  show "\<forall>nf \<in> set fs. smallest (snd nf) \<noteq> [] \<and> largest (snd nf) \<noteq> [] \<Longrightarrow>
     put_new_files dst fs = Some (dst @ concat (map enc_new_file fs))"
    by (induction dst fs rule: put_new_files.induct) (simp_all add: put_defs enc_new_file_def InternalKey_Encode_def)
qed

definition enc_if :: "bool \<Rightarrow> u32 \<Rightarrow> slice \<Rightarrow> slice" where
  "enc_if b t payload = (if b then EncodeVarint32 t @ payload else [])"

lemma EncodeTo_entries:
  "keys_made e \<Longrightarrow> EncodeTo e dst = Some (dst @ enc_if (has_comparator e) kComparator (length_prefixed (comparator_name e)) @
     enc_if (has_log_number e) kLogNumber (EncodeVarint64 (log_number e)) @
     enc_if (has_prev_log_number e) kPrevLogNumber (EncodeVarint64 (prev_log_number e)) @
     enc_if (has_next_file_number e) kNextFileNumber (EncodeVarint64 (next_file_number e)) @
     enc_if (has_last_sequence e) kLastSequence (EncodeVarint64 (last_sequence e)) @
     concat (map enc_compact_pointer (compact_pointers e)) @
     concat (map enc_deleted_file (deleted_files e)) @ concat (map enc_new_file (new_files e)))"
  by (simp add: keys_made_def EncodeTo_def Let_def put_concat enc_if_def put_defs)

text \<open>Without one of the keys the assertion fails.\<close>

lemma put_compact_pointers_empty: "p \<in> set ps \<Longrightarrow> snd p = [] \<Longrightarrow> put_compact_pointers dst ps = None"
  by (induction dst ps rule: put_compact_pointers.induct) (auto simp: InternalKey_Encode_def)

lemma decode_enc_if:
  "(b \<Longrightarrow> decode_entry t (payload @ rest) e = Inr (rest, e')) \<Longrightarrow>
   edit_loop (enc_if b t payload @ rest) e = edit_loop rest (if b then e' else e)"
  by (simp add: enc_if_def edit_loop_entry)

lemma decode_entry_simps:
  "length s < 2 ^ 32 \<Longrightarrow> decode_entry kComparator (length_prefixed s @ rest) e =
     Inr (rest, e\<lparr>comparator_name := s, has_comparator := True\<rparr>)"
  "decode_entry kLogNumber (EncodeVarint64 v @ rest) e = Inr (rest, e\<lparr>log_number := v, has_log_number := True\<rparr>)"
  "decode_entry kPrevLogNumber (EncodeVarint64 v @ rest) e =
     Inr (rest, e\<lparr>prev_log_number := v, has_prev_log_number := True\<rparr>)"
  "decode_entry kNextFileNumber (EncodeVarint64 v @ rest) e =
     Inr (rest, e\<lparr>next_file_number := v, has_next_file_number := True\<rparr>)"
  "decode_entry kLastSequence (EncodeVarint64 v @ rest) e =
     Inr (rest, e\<lparr>last_sequence := v, has_last_sequence := True\<rparr>)"
  by (simp_all add: decode_entry_def tag_defs)

lemma decode_compact_pointers:
  "\<forall>p \<in> set ps. level_ok (fst p) \<and> length (snd p) < 2 ^ 32 \<Longrightarrow>
   edit_loop (concat (map enc_compact_pointer ps) @ rest) e =
   edit_loop rest (e\<lparr>compact_pointers := compact_pointers e @ ps\<rparr>)"
proof (induction ps arbitrary: e)
  case (Cons p ps)
  have "decode_entry kCompactPointer (EncodeVarint32 (word_of_int (fst p)) @ length_prefixed (snd p) @
      concat (map enc_compact_pointer ps) @ rest) e =
    Inr (concat (map enc_compact_pointer ps) @ rest, e\<lparr>compact_pointers := compact_pointers e @ [p]\<rparr>)"
    using Cons.prems by (simp add: decode_entry_def tag_defs)
  with Cons show ?case by (simp add: enc_compact_pointer_def [of p] edit_loop_entry)
qed simp

lemma insort_insert_last: "\<forall>y \<in> set xs. y < x \<Longrightarrow> insort_insert x xs = xs @ [x]" for x :: "'a::linorder"
proof -
  assume x: "\<forall>y \<in> set xs. y < x"
  then have "insort x xs = xs @ [x]" by (induction xs) (auto simp: not_le [symmetric])
  with x show ?thesis by (auto simp: insort_insert_key_def)
qed

lemma decode_deleted_files:
  "\<forall>d \<in> set ds. level_ok (fst d) \<Longrightarrow> sorted_wrt (<) (deleted_files e @ ds) \<Longrightarrow>
   edit_loop (concat (map enc_deleted_file ds) @ rest) e =
   edit_loop rest (e\<lparr>deleted_files := deleted_files e @ ds\<rparr>)"
proof (induction ds arbitrary: e)
  case (Cons d ds)
  have "\<forall>y \<in> set (deleted_files e). y < d" using Cons.prems(2) by (simp add: sorted_wrt_append)
  then have "decode_entry kDeletedFile (EncodeVarint32 (word_of_int (fst d)) @ EncodeVarint64 (snd d) @
      concat (map enc_deleted_file ds) @ rest) e =
    Inr (concat (map enc_deleted_file ds) @ rest, e\<lparr>deleted_files := deleted_files e @ [d]\<rparr>)"
    using Cons.prems(1) by (simp add: decode_entry_def tag_defs insort_insert_last)
  with Cons show ?case by (simp add: enc_deleted_file_def [of d] edit_loop_entry)
qed simp

definition file_ok :: "FileMetaData \<Rightarrow> bool" where
  "file_ok f \<longleftrightarrow> refs f = 0 \<and> allowed_seeks f = 2 ^ 30 \<and> length (smallest f) < 2 ^ 32 \<and> length (largest f) < 2 ^ 32"

lemma decode_new_files:
  "\<forall>nf \<in> set fs. level_ok (fst nf) \<and> file_ok (snd nf) \<Longrightarrow>
   edit_loop (concat (map enc_new_file fs) @ rest) e =
   edit_loop rest (e\<lparr>new_files := new_files e @ fs\<rparr>)"
proof (induction fs arbitrary: e)
  case (Cons nf fs)
  have "FileMetaData_init\<lparr>number := number (snd nf), file_size := file_size (snd nf),
      smallest := smallest (snd nf), largest := largest (snd nf)\<rparr> = snd nf"
    using Cons.prems by (simp add: FileMetaData_init_def file_ok_def)
  then have "decode_entry kNewFile (EncodeVarint32 (word_of_int (fst nf)) @ EncodeVarint64 (number (snd nf)) @
      EncodeVarint64 (file_size (snd nf)) @ length_prefixed (smallest (snd nf)) @ length_prefixed (largest (snd nf)) @
      concat (map enc_new_file fs) @ rest) e =
    Inr (concat (map enc_new_file fs) @ rest, e\<lparr>new_files := new_files e @ [nf]\<rparr>)"
    using Cons.prems by (simp add: decode_entry_def tag_defs file_ok_def)
  with Cons show ?case by (simp add: enc_new_file_def [of nf] edit_loop_entry)
qed simp

text \<open>Edits that can be written: what is absent has its default value, no key is empty, and levels and lengths fit.\<close>

definition edit_ok :: "VersionEdit \<Rightarrow> bool" where
  "edit_ok e \<longleftrightarrow> (\<not> has_comparator e \<longrightarrow> comparator_name e = []) \<and> (\<not> has_log_number e \<longrightarrow> log_number e = 0) \<and>
     (\<not> has_prev_log_number e \<longrightarrow> prev_log_number e = 0) \<and> (\<not> has_next_file_number e \<longrightarrow> next_file_number e = 0) \<and>
     (\<not> has_last_sequence e \<longrightarrow> last_sequence e = 0) \<and> length (comparator_name e) < 2 ^ 32 \<and>
     (\<forall>p \<in> set (compact_pointers e). level_ok (fst p) \<and> length (snd p) < 2 ^ 32) \<and>
     (\<forall>d \<in> set (deleted_files e). level_ok (fst d)) \<and> sorted_wrt (<) (deleted_files e) \<and>
     (\<forall>nf \<in> set (new_files e). level_ok (fst nf) \<and> file_ok (snd nf)) \<and> keys_made e"

lemma edit_loop_EncodeTo:
  assumes "edit_ok e"
  shows "\<exists>bytes. EncodeTo e [] = Some bytes \<and> edit_loop bytes (VersionEdit_Clear d) =
    (None, [], e\<lparr>compact_pointers := compact_pointers d @ compact_pointers e\<rparr>)"
  using assms unfolding edit_ok_def
  by (simp add: EncodeTo_entries decode_enc_if decode_entry_simps decode_compact_pointers decode_deleted_files
    decode_new_files decode_new_files [of _ "[]", simplified] edit_loop_end VersionEdit_Clear_def)

text \<open>
  Decoding into a fresh edit gives the edit back. Into a used one it keeps that one's compaction
  pointers, since \<open>Clear\<close> forgets them.
\<close>

lemma DecodeFrom_EncodeTo:
  assumes "edit_ok e"
  shows "\<exists>bytes. EncodeTo e [] = Some bytes \<and>
    DecodeFrom bytes d = (OK, e\<lparr>compact_pointers := compact_pointers d @ compact_pointers e\<rparr>)"
  using edit_loop_EncodeTo [OF assms, of d] by (auto simp: DecodeFrom_def)

lemma DecodeFrom_invalid_tag:
  assumes "GetVarint32 src = None" "src \<noteq> []"
  shows "DecodeFrom src d = (Corruption (str ''VersionEdit'') (str ''invalid tag''), VersionEdit_Clear d)"
  using assms by (simp add: DecodeFrom_def edit_loop.simps [of src])

end
