(* ===== verification/Lv_Properties.thy ===== *)
theory Lv_Properties
  imports Lv_Hash Lv_Log_Reader Lv_Version_Edit
begin

text \<open>
  The properties of the leveldb part, over the interpretations of its contracts: the log over any C library with
  the documented behaviour, the bytewise comparator and the bloom filter below internal keys.
\<close>

section \<open>The log\<close>

context libc_stdio
begin

lemma write_log:
  assumes "AddRecords (PosixWritableFile_Append L wname) (PosixWritableFile_Flush L wname) ps (Writer_init, f)
      = (s, w, f')"
    and "contents f = []" "room f (length (log_records 0 ps))"
  shows "ok s \<and> contents f' = log_records 0 ps"
  using writable.AddRecords_ok [of Writer_init f ps 0] assms
  by (simp add: InitTypeCrc_ok_def Writer_init_def)

lemmas read_written_log = sequential.read_log

lemma ReadRecord_returns:
  "\<exists>res. ReadRecord (PosixSequentialFile_Read L fname) (PosixSequentialFile_Skip L fname) st = Some res"
  by (rule sequential.ReadRecord_ends)

end


text \<open> C16. Round trip of the log: records added to an empty file with room for them are all accepted, and a
  reader of that file, with or without checksums, returns exactly these records in order, then the end of
  the log, and reports no corruption. The C library is any one that satisfies \<open>libc_stdio\<close>. \<close>

theorem log_round_trip:
  assumes lib: "libc_stdio L written remaining healthy space"
    and adding: "AddRecords (PosixWritableFile_Append L wname) (PosixWritableFile_Flush L wname) ps (Writer_init, f)
        = (s, w, f')"
    and empty: "written f = []" and space: "space f (length (log_records 0 ps))"
    and reading: "healthy g" "remaining g = written f'"
  shows "ok s \<and> (\<exists>st. ReadRecords (PosixSequentialFile_Read L rname) (PosixSequentialFile_Skip L rname)
      (Suc (length ps)) (Reader_init g rep chk 0) = Some (ps, st) \<and> reports st = [])"
  using libc_stdio.write_log [OF lib adding empty space]
    libc_stdio.read_written_log [OF lib reading(1)] reading(2) by simp

definition blank_disk :: disk_file where
  "blank_disk = \<lparr>df_contents = [], df_pos = 0, df_capacity = 100, df_eof = False\<rparr>"

lemma log_records_example: "length (log_records 0 [[1, 2, 3], []]) = 17"
  by (simp add: log_record.simps [of _ _ "[]"] log_record.simps [of _ _ "[1, 2, 3]"] kBlockSize_def
    trailer_pad_def block_start_def)

theorem log_round_trip_witness:
  "\<exists>s w f'. AddRecords (PosixWritableFile_Append disk_libc []) (PosixWritableFile_Flush disk_libc [])
      [[1, 2, 3], []] (Writer_init, blank_disk) = (s, w, f') \<and> ok s \<and>
    (\<exists>st. ReadRecords (PosixSequentialFile_Read disk_libc []) (PosixSequentialFile_Skip disk_libc [])
      (Suc (length [[1, 2, 3], [] :: slice])) (Reader_init (f'\<lparr>df_pos := 0\<rparr>) True True 0) = Some ([[1, 2, 3], []], st) \<and>
      reports st = [])"
proof -
  obtain s w f' where w: "AddRecords (PosixWritableFile_Append disk_libc []) (PosixWritableFile_Flush disk_libc [])
      [[1, 2, 3], []] (Writer_init, blank_disk) = (s, w, f')" by (metis surj_pair)
  have r: "df_remaining (f'\<lparr>df_pos := 0\<rparr>) = df_contents f'" by (simp add: df_remaining_def)
  have b: "df_contents blank_disk = []" "length (df_contents blank_disk) + length (log_records 0 [[1, 2, 3], []])
      \<le> df_capacity blank_disk"
    unfolding log_records_example by (simp_all add: blank_disk_def)
  show ?thesis
    using w log_round_trip [OF disk.libc_stdio_axioms w b TrueI r] by blast
qed

text \<open> C17. \<open>ReadRecord\<close> ends on every file and in every state of the reader, whatever bytes the file
  holds and whatever errors the library reports. \<close>

theorem read_record_ends:
  assumes "libc_stdio L written remaining healthy space"
  shows "\<exists>res. ReadRecord (PosixSequentialFile_Read L fname) (PosixSequentialFile_Skip L fname) st = Some res"
  by (rule libc_stdio.ReadRecord_returns [OF assms])

theorem read_record_ends_witness:
  "\<exists>res. ReadRecord (PosixSequentialFile_Read disk_libc []) (PosixSequentialFile_Skip disk_libc [])
     (Reader_init (blank_disk\<lparr>df_contents := [1, 2, 3, 4, 5, 6, 7, 8]\<rparr>) True True 5) = Some res"
  by (rule read_record_ends [OF disk.libc_stdio_axioms])

text \<open> C18. Corruption is detected: if the payload of the next physical record differs from the one its header
  was written for, inside at most four adjacent bytes, the reader rejects it with a report of the bytes that
  it drops, and forgets the rest of the block. \<close>

theorem corrupt_payload_rejected:
  assumes "buffer st = header t (u @ x @ v) @ (u @ y @ v) @ rest" "x \<noteq> y" "length y = length x" "length x \<le> 4"
    and "length (u @ x @ v) < 65536" "checksum st"
  shows "ReadPhysicalRecord rd old st =
    (kBadRecord, old, ReportCorruption (size64 (buffer st)) ''checksum mismatch'' (st\<lparr>buffer := []\<rparr>))"
proof -
  have "kHeaderSize \<le> length (buffer st)"
    using assms(1) length_physical [of t "u @ x @ v"] assms(3) by (simp add: physical_def)
  then show ?thesis
    by (subst ReadPhysicalRecord.simps) (simp add: parse_physical_corrupt [OF assms] del: kHeaderSize_7)
qed

definition damaged_reader :: "disk_file Reader" where
  "damaged_reader = (Reader_init blank_disk True True 0)
     \<lparr>buffer := header kFullType ([7] @ [1] @ [9]) @ ([7] @ [3] @ [9]) @ [0]\<rparr>"

lemma damaged_reader_facts:
  "buffer damaged_reader = header kFullType ([7] @ [1] @ [9]) @ ([7] @ [3] @ [9]) @ [0]" "checksum damaged_reader"
  by (simp_all add: damaged_reader_def Reader_init_def)

theorem corrupt_payload_rejected_witness:
  "ReadPhysicalRecord (PosixSequentialFile_Read disk_libc []) [] damaged_reader =
     (kBadRecord, [], ReportCorruption (size64 (buffer damaged_reader)) ''checksum mismatch''
       (damaged_reader\<lparr>buffer := []\<rparr>))"
  by (rule corrupt_payload_rejected [OF damaged_reader_facts(1) _ _ _ _ damaged_reader_facts(2)]) simp_all

section \<open>Checksums, filters and keys\<close>

text \<open> C19. \<open>crc32c::Extend\<close>, with its four tables, alignment and unrolled loops, computes the CRC-32C of
  the bytes as bitwise polynomial division, for buffers at any address, and extending a checksum is
  the checksum of the concatenation; masking can be undone. \<close>

theorem crc_extend:
  "Extend a (Extend b crc p) q = crc32c_ref crc (p @ q) \<and> Unmask (Mask crc) = crc"
  using Extend_append [where a = 0 and b = 0 and c = 0 and crc = crc and p = p and q = q]
  by (simp add: Extend_ref Unmask_Mask)

text \<open> C20. The bloom filter has no false negatives, also below \<open>InternalFilterPolicy\<close>: a key whose
  filter was built with it may match, wherever the filter was appended. The keys are internal keys, with their trailer of
  eight bytes, and their number and the bits per key are of type \<open>int\<close>. \<close>

theorem bloom_no_false_negative:
  assumes "\<forall>k \<in> set keys. 8 \<le> length k" "length keys < 2 ^ 31" "bpk < 2 ^ 31" "key \<in> set keys"
  shows "ifp_KeyMayMatch KeyMayMatch key
    (drop (length dst) (ifp_CreateFilter (CreateFilter (BloomFilterPolicy_init bpk)) keys dst))"
proof -
  have "length keys * bpk \<le> 2 ^ 31 * 2 ^ 31" using assms(2,3) by (intro mult_mono) simp_all
  then have "bloom_ok bpk (map ExtractUserKey keys)" by (simp add: bloom_ok_def)
  then show ?thesis using bloom.internal.no_false_negative [of bpk keys key dst] assms(4) by blast
qed

theorem bloom_no_false_negative_witness:
  "ifp_KeyMayMatch KeyMayMatch [97, 0, 0, 0, 0, 0, 0, 0, 0]
    (drop (length [1 :: byte]) (ifp_CreateFilter (CreateFilter (BloomFilterPolicy_init 10))
      [[97, 0, 0, 0, 0, 0, 0, 0, 0], [98, 0, 0, 0, 0, 0, 0, 0, 0]] [1]))"
  by (rule bloom_no_false_negative) simp_all

text \<open> C21. The order of internal keys: ascending user keys, and for one user key the later sequence number and
  then the higher type first. \<close>

theorem internal_key_order:
  assumes "sequence a \<le> kMaxSequenceNumber" "sequence b \<le> kMaxSequenceNumber"
  shows "ikc_Compare Compare (AppendInternalKey [] a) (AppendInternalKey [] b) < 0 \<longleftrightarrow>
    user_key a < user_key b \<or> user_key a = user_key b \<and>
      (sequence b < sequence a \<or> sequence a = sequence b \<and> type_code (vtype b) < type_code (vtype a))"
proof -
  have t: "unat (type_code t) < 256" for t by (cases t) (simp_all add: type_code_def)
  show ?thesis
    using t [of "vtype a"] t [of "vtype b"]
    by (simp add: bytewise.internal_less bytewise.internal_valid_def AppendInternalKey_eq Compare_less
      word_less_nat_alt unat_Pack assms word_unat_eq_iff)
      auto
qed

theorem internal_key_order_witness:
  "ikc_Compare Compare (AppendInternalKey [] \<lparr>user_key = [1], sequence = 5, vtype = kTypeValue\<rparr>)
     (AppendInternalKey [] \<lparr>user_key = [1], sequence = 4, vtype = kTypeValue\<rparr>) < 0"
  by (subst internal_key_order) (simp_all add: kMaxSequenceNumber_def)

text \<open> C22. \<open>ParseInternalKey\<close> accepts exactly the internal keys that \<open>AppendInternalKey\<close> makes from a
  sequence number that fits, and returns their parts. \<close>

theorem internal_key_round_trip:
  "ParseInternalKey k = Some key \<longleftrightarrow> k = AppendInternalKey [] key \<and> sequence key \<le> kMaxSequenceNumber"
  using ParseInternalKey_Append [of key] ParseInternalKey_Some [of k key] by auto

text \<open> C23. The keys of an index block: the separator of two internal keys, as \<open>InternalKeyComparator\<close> shortens it
  with the bytewise comparator, lies between them, and the short successor is not before its key. \<close>

theorem internal_separator:
  assumes "8 \<le> length s" "8 \<le> length l" "ikc_Compare Compare s l < 0"
  shows "ikc_Compare Compare s (ikc_FindShortestSeparator Compare FindShortestSeparator s l) \<le> 0 \<and>
     ikc_Compare Compare (ikc_FindShortestSeparator Compare FindShortestSeparator s l) l < 0 \<and>
     ikc_Compare Compare s (ikc_FindShortSuccessor Compare FindShortSuccessor s) \<le> 0"
  using bytewise.internal.separator_ge [of s l] bytewise.internal.separator_less [of s l]
    bytewise.internal.successor_ge [of s] assms by (simp add: bytewise.internal_valid_def)

theorem internal_separator_witness:
  "ikc_Compare Compare [97, 98, 1, 0, 0, 0, 0, 0, 0, 0]
     (ikc_FindShortestSeparator Compare FindShortestSeparator
        [97, 98, 1, 0, 0, 0, 0, 0, 0, 0] [104, 1, 0, 0, 0, 0, 0, 0, 0]) \<le> 0"
  by (rule internal_separator [THEN conjunct1])
    (simp_all add: ikc_Compare_def Compare_less ExtractUserKey_def trailer_def Let_def)

text \<open> The varint readers of \<open>util/coding.cc\<close> accept exactly the well-formed varints of at most five and ten
  bytes and return the value modulo the width. \<close>

theorem varint_readers_exact:
  "(GetVarint32 p = Some (v, rest) \<longleftrightarrow>
      (\<exists>vs. p = vs @ rest \<and> is_varint vs \<and> length vs \<le> 5 \<and> v = word_of_nat (leb_val vs))) \<and>
   (GetVarint64 p = Some (w, rest) \<longleftrightarrow>
      (\<exists>vs. p = vs @ rest \<and> is_varint vs \<and> length vs \<le> 10 \<and> w = word_of_nat (leb_val vs)))"
  by (intro conjI GetVarint32_iff GetVarint64_iff)

section \<open>Names, numbers and version edits\<close>

text \<open> C24. Round trip of a version edit whose keys are not empty, as the assertion of \<open>InternalKey::Encode\<close> demands:
  it is encoded, and decoded to the same edit. Decoding into an edit that was used before keeps that one's compaction
  pointers: \<open>Clear\<close> does not remove them. \<close>

theorem version_edit_round_trip:
  assumes "edit_ok e"
  shows "\<exists>bytes. EncodeTo e [] = Some bytes \<and>
    DecodeFrom bytes d = (OK, e\<lparr>compact_pointers := compact_pointers d @ compact_pointers e\<rparr>)"
  by (rule DecodeFrom_EncodeTo [OF assms])

definition sample_edit :: VersionEdit where
  "sample_edit = AddFile 2 7 300 [97, 1, 0, 0, 0, 0, 0, 0, 0] [98, 1, 0, 0, 0, 0, 0, 0, 0]
     (DeleteFile 1 6 (SetLogNumber 9 (SetCompactPointer 3 [99, 1, 0, 0, 0, 0, 0, 0, 0] VersionEdit_init)))"

theorem version_edit_round_trip_witness:
  "\<exists>bytes. EncodeTo sample_edit [] = Some bytes \<and> DecodeFrom bytes VersionEdit_init = (OK, sample_edit)"
proof -
  have "edit_ok sample_edit"
    by (simp add: sample_edit_def AddFile_def DeleteFile_def SetLogNumber_def SetCompactPointer_def VersionEdit_init_def
      VersionEdit_Clear_def edit_ok_def keys_made_def level_ok_def file_ok_def FileMetaData_init_def kNumLevels_def
      insort_insert_key_def)
  from version_edit_round_trip [OF this, of VersionEdit_init] show ?thesis
    by (simp add: VersionEdit_init_def VersionEdit_Clear_def)
qed

text \<open> C25. \<open>ParseFileName\<close> recognises the names that the functions of \<open>db/filename.cc\<close> make, with their number
  and type. The functions that take a number make a name for every number but 0, for which an assertion fails. \<close>

theorem file_name_round_trip:
  "parsed_name d (LogFileName d n) = (if n = 0 then None else Some (Some (n, kLogFile))) \<and>
   parsed_name d (TableFileName d n) = (if n = 0 then None else Some (Some (n, kTableFile))) \<and>
   parsed_name d (SSTTableFileName d n) = (if n = 0 then None else Some (Some (n, kTableFile))) \<and>
   parsed_name d (TempFileName d n) = (if n = 0 then None else Some (Some (n, kTempFile))) \<and>
   parsed_name d (DescriptorFileName d n) = (if n = 0 then None else Some (Some (n, kDescriptorFile))) \<and>
   ParseFileName (base_name d (CurrentFileName d)) = Some (0, kCurrentFile) \<and>
   ParseFileName (base_name d (LockFileName d)) = Some (0, kDBLockFile) \<and>
   ParseFileName (base_name d (InfoLogFileName d)) = Some (0, kInfoLogFile) \<and>
   ParseFileName (base_name d (OldInfoLogFileName d)) = Some (0, kInfoLogFile)"
  by (simp only: parsed_names ParseFileName_names simp_thms)

text \<open> \<open>ConsumeDecimalNumber\<close> reads the longest prefix of digits and returns its value, or fails when it does
  not fit into 64 bits. \<close>

theorem decimal_number_value:
  assumes "\<forall>c \<in> set ds. is_digit c" "r = [] \<or> \<not> is_digit (hd r)" "ds \<noteq> []"
  shows "ConsumeDecimalNumber (ds @ r) =
    (if digits_value 0 ds < 2 ^ 64 then Some (word_of_nat (digits_value 0 ds), r) else None)"
  by (rule ConsumeDecimalNumber_spec [OF assms])

theorem decimal_number_value_witness: "ConsumeDecimalNumber ([49, 48, 50] @ [46, 108]) = Some (102, [46, 108])"
  by (subst decimal_number_value) (simp_all add: is_digit_nat digits_value_def digit_value_def)

text \<open> The random numbers of the skip list: \<open>Next\<close> is the minimal standard generator, whose intermediate
  product and sum do not overflow, and it stays in the range of seeds. \<close>

theorem random_next:
  assumes "seed_ok seed"
  shows "unat (fst (Next seed)) = unat seed * 16807 mod 2147483647 \<and> snd (Next seed) = fst (Next seed) \<and>
     seed_ok (snd (Next seed))"
  using Next_ok [OF assms] by simp

theorem random_next_witness: "unat (fst (Next (Random_init 301))) = 301 * 16807 mod 2147483647"
  using random_next [OF Random_init_ok, of 301] by (simp add: Random_init_def)

end
