(* ===== verification/Lv_Block.thy ===== *)
theory Lv_Block
  imports Lv_Comparator Lv_Status "HOL-Library.Monad_Syntax"
begin

text \<open>
  Blocks of a table: \<open>table/block_builder.cc\<close> writes ascending keys with prefix compression and restart
  points, \<open>table/block.cc\<close> reads them. Offsets into a block are natural numbers; the lengths in an entry
  are 32-bit words, whose sum can wrap around. The iterator reads through pointers: an access outside
  of the block is undefined, \<open>None\<close>, and so is a loop that does not end.
\<close>

section \<open>The builder\<close>

record BlockBuilder =
  bb_buffer :: slice
  bb_restarts :: "u32 list"
  bb_counter :: int
  bb_finished :: bool
  bb_last_key :: slice

definition new_builder :: BlockBuilder where
  "new_builder = \<lparr>bb_buffer = [], bb_restarts = [0], bb_counter = 0, bb_finished = False, bb_last_key = []\<rparr>"

text \<open>The constructor, for the restart interval of the options.\<close>

definition BlockBuilder_init :: "int \<Rightarrow> BlockBuilder option" where
  "BlockBuilder_init block_restart_interval = (if 1 \<le> block_restart_interval then Some new_builder else None)"

definition BlockBuilder_Reset :: "BlockBuilder \<Rightarrow> BlockBuilder" where
  "BlockBuilder_Reset b =
     b\<lparr>bb_buffer := [], bb_restarts := [0], bb_counter := 0, bb_finished := False, bb_last_key := []\<rparr>"

definition CurrentSizeEstimate :: "BlockBuilder \<Rightarrow> nat" where
  "CurrentSizeEstimate b = length (bb_buffer b) + length (bb_restarts b) * 4 + 4"

definition BlockBuilder_Finish :: "BlockBuilder \<Rightarrow> slice \<times> BlockBuilder" where
  "BlockBuilder_Finish b =
     (let buf = foldl PutFixed32 (bb_buffer b) (bb_restarts b);
          buf = PutFixed32 buf (word_of_nat (length (bb_restarts b))) in
      (buf, b\<lparr>bb_buffer := buf, bb_finished := True\<rparr>))"

text \<open>\<open>while ((shared < min_length) && (last_key_piece[shared] == key[shared])) shared++\<close>\<close>

function shared_loop :: "slice \<Rightarrow> slice \<Rightarrow> nat \<Rightarrow> nat \<Rightarrow> nat" where
  "shared_loop last_key key min_length shared =
     (if shared < min_length \<and> last_key ! shared = key ! shared
      then shared_loop last_key key min_length (Suc shared) else shared)"
  by pat_completeness auto
termination by (relation "measure (\<lambda>(l, k, n, i). n - i)") auto

declare shared_loop.simps [simp del]

text \<open>\<open>Add\<close>: what is done with the entry, and the method with its assertions, on the options' comparator and interval.\<close>

definition append_entry :: "int \<Rightarrow> slice \<Rightarrow> slice \<Rightarrow> BlockBuilder \<Rightarrow> BlockBuilder" where
  "append_entry block_restart_interval key v b =
     (let (shared, b) =
        (if bb_counter b < block_restart_interval
         then (shared_loop (bb_last_key b) key (min (length (bb_last_key b)) (length key)) 0, b)
         else (0, b\<lparr>bb_restarts := bb_restarts b @ [word_of_nat (length (bb_buffer b))], bb_counter := 0\<rparr>));
          non_shared = length key - shared;
          buf = PutVarint32 (bb_buffer b) (word_of_nat shared);
          buf = PutVarint32 buf (word_of_nat non_shared);
          buf = PutVarint32 buf (word_of_nat (length v));
          buf = buf @ take non_shared (drop shared key);
          buf = buf @ v in
      b\<lparr>bb_buffer := buf, bb_last_key := take shared (bb_last_key b) @ take non_shared (drop shared key),
        bb_counter := bb_counter b + 1\<rparr>)"

definition BlockBuilder_Add ::
  "(slice \<Rightarrow> slice \<Rightarrow> int) \<Rightarrow> int \<Rightarrow> slice \<Rightarrow> slice \<Rightarrow> BlockBuilder \<Rightarrow> BlockBuilder option"
where
  "BlockBuilder_Add cmp block_restart_interval key v b =
     (if bb_finished b then None
      else if \<not> bb_counter b \<le> block_restart_interval then None
      else if bb_buffer b \<noteq> [] \<and> \<not> cmp key (bb_last_key b) > 0 then None
      else let b = append_entry block_restart_interval key v b in if bb_last_key b \<noteq> key then None else Some b)"

text \<open>A client: a block of the given entries.\<close>

fun add_all ::
  "(slice \<Rightarrow> slice \<Rightarrow> int) \<Rightarrow> int \<Rightarrow> (slice \<times> slice) list \<Rightarrow> BlockBuilder \<Rightarrow> BlockBuilder option"
where
  "add_all cmp ri [] b = Some b"
| "add_all cmp ri ((k, v) # kvs) b = do { b \<leftarrow> BlockBuilder_Add cmp ri k v b; add_all cmp ri kvs b }"

definition build_block :: "(slice \<Rightarrow> slice \<Rightarrow> int) \<Rightarrow> int \<Rightarrow> (slice \<times> slice) list \<Rightarrow> slice option" where
  "build_block cmp ri kvs =
     do { b \<leftarrow> BlockBuilder_init ri; b \<leftarrow> add_all cmp ri kvs b; Some (fst (BlockBuilder_Finish b)) }"

section \<open>The block\<close>

record Block =
  blk_data :: slice
  blk_size :: nat
  blk_restart_offset :: nat

definition NumRestarts :: "slice \<Rightarrow> nat \<Rightarrow> u32" where
  "NumRestarts data sz = DecodeFixed32 (drop (sz - 4) data)"

text \<open>A block of size 0 is the error marker; its \<open>restart_offset_\<close> is not set.\<close>

definition Block_init :: "slice \<Rightarrow> Block" where
  "Block_init contents =
     (let sz = length contents in
      if sz < 4 then \<lparr>blk_data = contents, blk_size = 0, blk_restart_offset = 0\<rparr>
      else let max_restarts_allowed = (sz - 4) div 4 in
        if unat (NumRestarts contents sz) > max_restarts_allowed
        then \<lparr>blk_data = contents, blk_size = 0, blk_restart_offset = 0\<rparr>
        else \<lparr>blk_data = contents, blk_size = sz,
               blk_restart_offset = sz - (1 + unat (NumRestarts contents sz)) * 4\<rparr>)"

text \<open>\<open>DecodeEntry\<close>: the three lengths and the offset behind them.\<close>

definition DecodeEntry :: "slice \<Rightarrow> nat \<Rightarrow> nat \<Rightarrow> (u32 \<times> u32 \<times> u32 \<times> nat) option" where
  "DecodeEntry data p limit =
     (if int limit - int p < 3 then None
      else
        let shared = ucast (data ! p) :: u32; non_shared = ucast (data ! (p + 1)) :: u32;
            value_length = ucast (data ! (p + 2)) :: u32;
            parsed =
              (if shared OR non_shared OR value_length < 128
               then Some (shared, non_shared, value_length, p + 3)
               else case GetVarint32Ptr (take (limit - p) (drop p data)) of
                   None \<Rightarrow> None
                 | Some (shared, q) \<Rightarrow>
                     (case GetVarint32Ptr q of
                        None \<Rightarrow> None
                      | Some (non_shared, q) \<Rightarrow>
                          (case GetVarint32Ptr q of
                             None \<Rightarrow> None
                           | Some (value_length, q) \<Rightarrow> Some (shared, non_shared, value_length, limit - length q)))) in
        case parsed of
          None \<Rightarrow> None
        | Some (shared, non_shared, value_length, p) \<Rightarrow>
            if word_of_nat (limit - p) < non_shared + value_length then None
            else Some (shared, non_shared, value_length, p))"

section \<open>The iterator\<close>

record BlockIter =
  bi_data :: slice
  bi_restarts :: nat
  bi_num_restarts :: nat
  bi_current :: nat
  bi_restart_index :: nat
  bi_key :: slice
  bi_value_off :: nat
  bi_value_len :: nat
  bi_status :: Status

definition Iter_init :: "slice \<Rightarrow> nat \<Rightarrow> nat \<Rightarrow> BlockIter" where
  "Iter_init data restarts num_restarts =
     \<lparr>bi_data = data, bi_restarts = restarts, bi_num_restarts = num_restarts, bi_current = restarts,
      bi_restart_index = num_restarts, bi_key = [], bi_value_off = 0, bi_value_len = 0, bi_status = OK\<rparr>"

definition Valid :: "BlockIter \<Rightarrow> bool" where
  "Valid it \<longleftrightarrow> bi_current it < bi_restarts it"

text \<open>\<open>value()\<close>, undefined when the slice is not in the block.\<close>

definition iter_value :: "BlockIter \<Rightarrow> slice option" where
  "iter_value it =
     (if bi_value_off it + bi_value_len it \<le> length (bi_data it)
      then Some (take (bi_value_len it) (drop (bi_value_off it) (bi_data it))) else None)"

text \<open>The difference of pointers is cut to 32 bits.\<close>

definition NextEntryOffset :: "BlockIter \<Rightarrow> nat" where
  "NextEntryOffset it = (bi_value_off it + bi_value_len it) mod 2 ^ 32"

definition GetRestartPoint :: "BlockIter \<Rightarrow> nat \<Rightarrow> nat" where
  "GetRestartPoint it index = unat (DecodeFixed32 (drop (bi_restarts it + index * 4) (bi_data it)))"

definition SeekToRestartPoint :: "nat \<Rightarrow> BlockIter \<Rightarrow> BlockIter" where
  "SeekToRestartPoint index it =
     it\<lparr>bi_key := [], bi_restart_index := index, bi_value_off := GetRestartPoint it index, bi_value_len := 0\<rparr>"

text \<open>The cleared \<open>value_\<close> is not read before the next seek.\<close>

definition CorruptionError :: "BlockIter \<Rightarrow> BlockIter" where
  "CorruptionError it =
     it\<lparr>bi_current := bi_restarts it, bi_restart_index := bi_num_restarts it,
        bi_status := Corruption (str ''bad entry in block'') [], bi_key := [], bi_value_off := 0, bi_value_len := 0\<rparr>"

function restart_index_loop :: "BlockIter \<Rightarrow> nat \<Rightarrow> nat" where
  "restart_index_loop it ri =
     (if ri + 1 < bi_num_restarts it \<and> GetRestartPoint it (ri + 1) < bi_current it
      then restart_index_loop it (ri + 1) else ri)"
  by pat_completeness auto
termination by (relation "measure (\<lambda>(it, ri). bi_num_restarts it - ri)") auto

declare restart_index_loop.simps [simp del]

definition ParseNextKey :: "BlockIter \<Rightarrow> (bool \<times> BlockIter) option" where
  "ParseNextKey it =
     (let it = it\<lparr>bi_current := NextEntryOffset it\<rparr>; p = bi_current it; limit = bi_restarts it in
      if p \<ge> limit
      then Some (False, it\<lparr>bi_current := bi_restarts it, bi_restart_index := bi_num_restarts it\<rparr>)
      else case DecodeEntry (bi_data it) p limit of
          None \<Rightarrow> Some (False, CorruptionError it)
        | Some (shared, non_shared, value_length, p) \<Rightarrow>
            if length (bi_key it) < unat shared then Some (False, CorruptionError it)
            else if p + unat non_shared > length (bi_data it) then None
            else let it = it\<lparr>bi_key := take (unat shared) (bi_key it) @ take (unat non_shared) (drop p (bi_data it)),
                             bi_value_off := p + unat non_shared, bi_value_len := unat value_length\<rparr> in
              Some (True, it\<lparr>bi_restart_index := restart_index_loop it (bi_restart_index it)\<rparr>))"

text \<open>\<open>Next\<close> and \<open>Prev\<close> assert that the iterator is valid.\<close>

definition Next_entry :: "BlockIter \<Rightarrow> BlockIter option" where
  "Next_entry it = (if Valid it then map_option snd (ParseNextKey it) else None)"

definition SeekToFirst :: "BlockIter \<Rightarrow> BlockIter option" where
  "SeekToFirst it = map_option snd (ParseNextKey (SeekToRestartPoint 0 it))"

text \<open>\<open>while (ParseNextKey() && NextEntryOffset() < bound)\<close>, of \<open>SeekToLast\<close> and \<open>Prev\<close>.\<close>

partial_function (option) skip_entries :: "nat \<Rightarrow> BlockIter \<Rightarrow> BlockIter option" where
  "skip_entries bound it =
     (case ParseNextKey it of
        None \<Rightarrow> None
      | Some (b, it) \<Rightarrow> if b \<and> NextEntryOffset it < bound then skip_entries bound it else Some it)"

definition SeekToLast :: "BlockIter \<Rightarrow> BlockIter option" where
  "SeekToLast it = skip_entries (bi_restarts it) (SeekToRestartPoint (bi_num_restarts it - 1) it)"

text \<open>The first loop of \<open>Prev\<close>: \<open>None\<close> when there is no entry before.\<close>

fun prev_restart :: "BlockIter \<Rightarrow> nat \<Rightarrow> nat \<Rightarrow> nat option" where
  "prev_restart it original 0 = (if GetRestartPoint it 0 \<ge> original then None else Some 0)"
| "prev_restart it original (Suc ri) =
     (if GetRestartPoint it (Suc ri) \<ge> original then prev_restart it original ri else Some (Suc ri))"

definition Prev_entry :: "BlockIter \<Rightarrow> BlockIter option" where
  "Prev_entry it =
     (if \<not> Valid it then None else let original = bi_current it in
      case prev_restart it original (bi_restart_index it) of
        None \<Rightarrow> Some (it\<lparr>bi_current := bi_restarts it, bi_restart_index := bi_num_restarts it\<rparr>)
      | Some ri \<Rightarrow> skip_entries original (SeekToRestartPoint ri it))"

text \<open>
  The binary search of \<open>Seek\<close>: \<open>Some None\<close> is the corruption of an entry at a restart point, \<open>None\<close> the
  comparison with a key that is not in the block.
\<close>

function seek_search :: "(slice \<Rightarrow> slice \<Rightarrow> int) \<Rightarrow> slice \<Rightarrow> BlockIter \<Rightarrow> nat \<Rightarrow> nat \<Rightarrow> nat option option" where
  "seek_search cmp target it left right =
     (if left < right then
        let mid = (left + right + 1) div 2; region_offset = GetRestartPoint it mid in
        case DecodeEntry (bi_data it) region_offset (bi_restarts it) of
          None \<Rightarrow> Some None
        | Some (shared, non_shared, value_length, key_ptr) \<Rightarrow>
            if shared \<noteq> 0 then Some None
            else if key_ptr + unat non_shared > length (bi_data it) then None
            else let mid_key = take (unat non_shared) (drop key_ptr (bi_data it)) in
              if cmp mid_key target < 0 then seek_search cmp target it mid right
              else seek_search cmp target it left (mid - 1)
      else Some (Some left))"
  by pat_completeness auto
termination by (relation "measure (\<lambda>(c, t, it, l, r). r - l)") auto

declare seek_search.simps [simp del]

partial_function (option) seek_linear :: "(slice \<Rightarrow> slice \<Rightarrow> int) \<Rightarrow> slice \<Rightarrow> BlockIter \<Rightarrow> BlockIter option" where
  "seek_linear cmp target it =
     (case ParseNextKey it of
        None \<Rightarrow> None
      | Some (b, it) \<Rightarrow>
          if \<not> b then Some it else if cmp (bi_key it) target \<ge> 0 then Some it else seek_linear cmp target it)"

definition Seek :: "(slice \<Rightarrow> slice \<Rightarrow> int) \<Rightarrow> slice \<Rightarrow> BlockIter \<Rightarrow> BlockIter option" where
  "Seek cmp target it =
     (case seek_search cmp target it 0 (bi_num_restarts it - 1) of
        None \<Rightarrow> None
      | Some None \<Rightarrow> Some (CorruptionError it)
      | Some (Some left) \<Rightarrow> seek_linear cmp target (SeekToRestartPoint left it))"

text \<open>\<open>NewIterator\<close>: an error iterator with its status, an empty one, or the iterator over the block.\<close>

datatype NewIter = ErrorIterator Status | EmptyIterator | BlockIterator BlockIter

definition Block_NewIterator :: "Block \<Rightarrow> NewIter" where
  "Block_NewIterator blk =
     (if blk_size blk < 4 then ErrorIterator (Corruption (str ''bad block contents'') [])
      else let num_restarts = NumRestarts (blk_data blk) (blk_size blk) in
        if num_restarts = 0 then EmptyIterator
        else BlockIterator (Iter_init (blk_data blk) (blk_restart_offset blk mod 2 ^ 32) (unat num_restarts)))"

section \<open>Entries\<close>

text \<open>The three varints in a row; the fast path of \<open>DecodeEntry\<close> reads the same.\<close>

definition varints3 :: "slice \<Rightarrow> (u32 \<times> u32 \<times> u32 \<times> slice) option" where
  "varints3 xs =
     (case GetVarint32Ptr xs of
        None \<Rightarrow> None
      | Some (a, q) \<Rightarrow>
          (case GetVarint32Ptr q of
             None \<Rightarrow> None
           | Some (b, q) \<Rightarrow>
               (case GetVarint32Ptr q of None \<Rightarrow> None | Some (c, q) \<Rightarrow> Some (a, b, c, q))))"

lemma and_128: "b AND 128 = 0 \<longleftrightarrow> \<not> bit b 7" for b :: byte
proof -
  have "(128 :: byte) = 2 ^ 7" by simp
  then show ?thesis by (simp only: and_exp_eq_0_iff_not_bit)
qed

lemma or_small:
  fixes a b c :: byte
  assumes "(ucast a OR ucast b OR ucast c :: u32) < 128"
  shows "a AND 128 = 0 \<and> b AND 128 = 0 \<and> c AND 128 = 0"
proof -
  let ?w = "ucast a OR ucast b OR ucast c :: u32"
  have "unat ?w < 2 ^ 7" using assms by (simp add: word_less_nat_alt)
  then have "\<not> bit (unat ?w) 7" by (simp add: bit_iff_odd)
  then have "\<not> bit ?w 7" by (simp add: bit_unsigned_iff)
  then show ?thesis unfolding and_128 by (auto simp: bit_or_iff bit_ucast_iff)
qed

lemma GetVarint32Ptr_small: "b AND 128 = 0 \<Longrightarrow> GetVarint32Ptr (b # r) = Some (ucast b, r)"
  by (simp add: GetVarint32Ptr_def)

lemma take_3: "3 \<le> length xs \<Longrightarrow> xs = xs ! 0 # xs ! 1 # xs ! 2 # drop 3 xs"
  by (cases xs; cases "tl xs"; cases "tl (tl xs)") auto

lemma GetVarint32Ptr_shrinks: "GetVarint32Ptr xs = Some (v, r) \<Longrightarrow> length r < length xs"
  using GetVarint32_iff [of xs v r] by (auto simp: GetVarint32_def)

lemma varints3_shrinks: "varints3 xs = Some (a, b, c, r) \<Longrightarrow> length r < length xs"
  by (auto simp: varints3_def split: option.splits prod.splits dest!: GetVarint32Ptr_shrinks)

lemma DecodeEntry_varints:
  assumes "limit \<le> length data"
  shows "DecodeEntry data p limit =
    (if limit < p + 3 then None
     else case varints3 (take (limit - p) (drop p data)) of
         None \<Rightarrow> None
       | Some (a, b, c, q) \<Rightarrow> if word_of_nat (length q) < b + c then None else Some (a, b, c, limit - length q))"
proof (cases "limit < p + 3")
  case True
  then show ?thesis by (simp add: DecodeEntry_def)
next
  case False
  let ?xs = "take (limit - p) (drop p data)" and ?q = "drop 3 (take (limit - p) (drop p data))"
  let ?a = "data ! p" and ?b = "data ! (p + 1)" and ?c = "data ! (p + 2)"
  have len: "length ?xs = limit - p" using assms by simp
  then have xs: "?xs = ?a # ?b # ?c # ?q"
    using take_3 [of ?xs] False assms by simp
  have limit: "limit - length q = limit - length q \<and> (length q \<le> limit \<longrightarrow> limit - (limit - length q) = length q)" for q :: slice
    by simp
  have q: "length ?q = limit - (p + 3)" using len by simp
  show ?thesis
  proof (cases "ucast ?a OR ucast ?b OR ucast ?c < (128 :: u32)")
    case True
    then have "varints3 ?xs = Some (ucast ?a, ucast ?b, ucast ?c, ?q)"
      using or_small [OF True] by (subst xs) (simp add: varints3_def GetVarint32Ptr_small)
    with True False q show ?thesis
      by (simp add: DecodeEntry_def Let_def)
  next
    case no: False
    have shorter: "length r \<le> limit" if "varints3 ?xs = Some (a, b, c, r)" for a b c r
      using varints3_shrinks [OF that] len by linarith
    show ?thesis
    proof (cases "varints3 ?xs")
      case None
      with False no show ?thesis
        by (auto simp: DecodeEntry_def Let_def varints3_def split: option.splits prod.splits)
    next
      case (Some r)
      then obtain a b c q where r: "varints3 ?xs = Some (a, b, c, q)" by (cases r) auto
      then have "DecodeEntry data p limit =
        (if word_of_nat (limit - (limit - length q)) < b + c then None else Some (a, b, c, limit - length q))"
        using False no by (auto simp: DecodeEntry_def Let_def varints3_def split: option.splits prod.splits)
      with shorter [OF r] False r show ?thesis by simp
    qed
  qed
qed

text \<open>An entry: the number of shared bytes, the key and the value.\<close>

type_synonym entry = "nat \<times> slice \<times> slice"

definition entry_head :: "entry \<Rightarrow> slice" where
  "entry_head = (\<lambda>(sh, k, v). EncodeVarint32 (word_of_nat sh) @ EncodeVarint32 (word_of_nat (length k - sh)) @
     EncodeVarint32 (word_of_nat (length v)))"

definition entry_bytes :: "entry \<Rightarrow> slice" where
  "entry_bytes e = entry_head e @ drop (fst e) (fst (snd e)) @ snd (snd e)"

definition entry_key :: "entry \<Rightarrow> slice" where "entry_key e = fst (snd e)"
definition entry_value :: "entry \<Rightarrow> slice" where "entry_value e = snd (snd e)"

definition entry_ok :: "entry \<Rightarrow> bool" where
  "entry_ok e \<longleftrightarrow> fst e \<le> length (entry_key e) \<and> length (entry_key e) + length (entry_value e) < 2 ^ 32"

lemma varints3_entry: "varints3 (entry_head (sh, k, v) @ r) =
    Some (word_of_nat sh, word_of_nat (length k - sh), word_of_nat (length v), r)"
  using GetVarint32_Encode by (simp add: varints3_def entry_head_def GetVarint32_def)

lemma EncodeVarint32_nonempty: "1 \<le> length (EncodeVarint32 v)"
proof -
  have "EncodeVarint32 v \<noteq> []" by (simp add: EncodeVarint32_def)
  then show ?thesis by (simp add: Suc_le_eq)
qed

lemma length_entry_head: "3 \<le> length (entry_head e)"
  using EncodeVarint32_nonempty [of "word_of_nat (fst e)"]
    EncodeVarint32_nonempty [of "word_of_nat (length (fst (snd e)) - fst e)"]
    EncodeVarint32_nonempty [of "word_of_nat (length (snd (snd e)))"]
  by (simp add: entry_head_def split_beta)

lemma unat_u32: "n < 2 ^ 32 \<Longrightarrow> unat (word_of_nat n :: u32) = n"
  by (simp add: unat_of_nat)

lemma DecodeEntry_entry:
  assumes "data = pre @ entry_bytes e @ post @ arr" "p = length pre" "limit = length (pre @ entry_bytes e @ post)"
    and "entry_ok e" "length data < 2 ^ 32"
  shows "DecodeEntry data p limit =
    Some (word_of_nat (fst e), word_of_nat (length (entry_key e) - fst e), word_of_nat (length (entry_value e)),
      p + length (entry_head e))"
proof -
  obtain sh k v where e: "e = (sh, k, v)" by (cases e)
  let ?tail = "drop sh k @ v @ post"
  have xs: "take (limit - p) (drop p data) = entry_head e @ ?tail"
    using assms(1-3) by (simp add: entry_bytes_def e)
  have room: "\<not> limit < p + 3" using assms(2,3) length_entry_head [of e] by (simp add: entry_bytes_def)
  have small: "length k - sh < 2 ^ 32" "length v < 2 ^ 32" "length ?tail < 2 ^ 32" "length k - sh + length v < 2 ^ 32"
    using assms(1,4,5) by (auto simp: e entry_ok_def entry_key_def entry_value_def entry_bytes_def)
  have "unat (word_of_nat (length k - sh) + word_of_nat (length v) :: u32) = length k - sh + length v"
    unfolding unat_word_ariths unat_u32 [OF small(1)] unat_u32 [OF small(2)] using small(4) by simp
  then have fit: "\<not> (word_of_nat (length ?tail) :: u32) < word_of_nat (length k - sh) + word_of_nat (length v)"
    unfolding word_less_nat_alt unat_u32 [OF small(3)] by simp
  have lim: "limit - length ?tail = p + length (entry_head (sh, k, v))"
    using assms(2,3) by (simp add: e entry_bytes_def)
  have "limit \<le> length data" using assms by simp
  note DecodeEntry_varints [OF this, of p]
  also have "(if limit < p + 3 then None
     else case varints3 (take (limit - p) (drop p data)) of
         None \<Rightarrow> None
       | Some (a, b, c, q) \<Rightarrow> if word_of_nat (length q) < b + c then None else Some (a, b, c, limit - length q)) =
    Some (word_of_nat sh, word_of_nat (length k - sh), word_of_nat (length v), limit - length ?tail)"
    using room fit unfolding xs e varints3_entry by (simp only: if_False option.case prod.case)
  finally show ?thesis unfolding lim by (simp add: e entry_key_def entry_value_def)
qed

section \<open>Blocks of entries\<close>

abbreviation entries_bytes :: "entry list \<Rightarrow> slice" where
  "entries_bytes es \<equiv> concat (map entry_bytes es)"

definition entry_off :: "entry list \<Rightarrow> nat \<Rightarrow> nat" where
  "entry_off es i = length (entries_bytes (take i es))"

text \<open>
  \<open>es\<close> are the entries of the block and \<open>rs\<close> the indices of its restart points. A restart entry shares
  nothing, every other entry shares a prefix with the entry before.
\<close>

definition chain_ok :: "entry list \<Rightarrow> bool" where
  "chain_ok es \<longleftrightarrow> (\<forall>e \<in> set es. entry_ok e) \<and> (es \<noteq> [] \<longrightarrow> fst (hd es) = 0) \<and>
     (\<forall>i. Suc i < length es \<longrightarrow> fst (es ! Suc i) \<le> length (entry_key (es ! i)) \<and>
        take (fst (es ! Suc i)) (entry_key (es ! i)) = take (fst (es ! Suc i)) (entry_key (es ! Suc i)))"

definition restarts_ok :: "entry list \<Rightarrow> nat list \<Rightarrow> bool" where
  "restarts_ok es rs \<longleftrightarrow> rs \<noteq> [] \<and> hd rs = 0 \<and> sorted_wrt (<) rs \<and>
     (\<forall>r \<in> set rs. (r < length es \<and> fst (es ! r) = 0) \<or> r = 0)"

definition block_bytes :: "entry list \<Rightarrow> nat list \<Rightarrow> slice" where
  "block_bytes es rs = entries_bytes es @ concat (map (\<lambda>r. EncodeFixed32 (word_of_nat (entry_off es r))) rs) @
     EncodeFixed32 (word_of_nat (length rs))"

definition block_ok :: "entry list \<Rightarrow> nat list \<Rightarrow> bool" where
  "block_ok es rs \<longleftrightarrow> chain_ok es \<and> restarts_ok es rs \<and> length (block_bytes es rs) < 2 ^ 32"

definition iter_of :: "entry list \<Rightarrow> nat list \<Rightarrow> BlockIter \<Rightarrow> bool" where
  "iter_of es rs it \<longleftrightarrow> bi_data it = block_bytes es rs \<and> bi_restarts it = length (entries_bytes es) \<and>
     bi_num_restarts it = length rs \<and> bi_status it = OK"

lemma entry_off_Suc: "i < length es \<Longrightarrow> entry_off es (Suc i) = entry_off es i + length (entry_bytes (es ! i))"
  by (simp add: entry_off_def take_Suc_conv_app_nth)

lemma entry_off_all: "length es \<le> i \<Longrightarrow> entry_off es i = length (entries_bytes es)"
  by (simp add: entry_off_def)

lemma entry_off_0 [simp]: "entry_off es 0 = 0"
  by (simp add: entry_off_def)

lemma length_entry_bytes: "3 \<le> length (entry_bytes e)"
  using length_entry_head [of e] by (simp add: entry_bytes_def)

lemma entry_off_strict: "i < j \<Longrightarrow> i < length es \<Longrightarrow> entry_off es i < entry_off es j"
proof (induction j)
  case (Suc j)
  show ?case
  proof (cases "j < length es")
    case True
    with Suc length_entry_bytes [of "es ! j"] show ?thesis
      by (auto simp: entry_off_Suc less_Suc_eq)
  next
    case False
    with Suc have "i < j" by simp
    with Suc False show ?thesis by (simp add: entry_off_all)
  qed
qed simp

lemma entry_off_less_iff: "i \<le> length es \<Longrightarrow> j \<le> length es \<Longrightarrow> entry_off es i < entry_off es j \<longleftrightarrow> i < j"
  by (metis entry_off_strict less_asym' linorder_less_linear order_less_irrefl le_neq_implies_less less_le_trans)

lemma entry_off_le: "entry_off es i \<le> length (entries_bytes es)"
proof -
  have "entries_bytes es = entries_bytes (take i es) @ entries_bytes (drop i es)"
    by (metis append_take_drop_id concat_append map_append)
  then show ?thesis by (simp add: entry_off_def)
qed

lemma block_split:
  assumes "i < length es"
  shows "block_bytes es rs = entries_bytes (take i es) @ entry_bytes (es ! i) @ entries_bytes (drop (Suc i) es) @
    drop (length (entries_bytes es)) (block_bytes es rs)"
proof -
  have "entries_bytes es = entries_bytes (take i es) @ entry_bytes (es ! i) @ entries_bytes (drop (Suc i) es)"
    by (metis assms concat.simps(2) concat_append id_take_nth_drop list.simps(9) map_append)
  then show ?thesis by (simp add: block_bytes_def)
qed

lemma drop_fixed32s:
  "j < length rs \<Longrightarrow> drop (j * 4) (concat (map (\<lambda>r. EncodeFixed32 (f r)) rs) @ s) =
     EncodeFixed32 (f (rs ! j)) @ drop (Suc j * 4) (concat (map (\<lambda>r. EncodeFixed32 (f r)) rs) @ s)"
proof (induction rs arbitrary: j)
  case (Cons r rs)
  show ?case
  proof (cases j)
    case 0
    then show ?thesis by simp
  next
    case (Suc j')
    with Cons show ?thesis by simp
  qed
qed simp

lemma GetRestartPoint_off:
  assumes "block_ok es rs" "iter_of es rs it" "j < length rs"
  shows "GetRestartPoint it j = entry_off es (rs ! j)"
proof -
  let ?arr = "concat (map (\<lambda>r. EncodeFixed32 (word_of_nat (entry_off es r))) rs)"
  have "entry_off es (rs ! j) < 2 ^ 32"
    using entry_off_le [of es "rs ! j"] assms(1) by (simp add: block_ok_def block_bytes_def)
  moreover have "drop (bi_restarts it + j * 4) (bi_data it) = drop (j * 4) (?arr @ EncodeFixed32 (word_of_nat (length rs)))"
    using assms(2) by (simp add: iter_of_def block_bytes_def)
  ultimately show ?thesis
    unfolding GetRestartPoint_def drop_fixed32s [OF assms(3)] by (simp add: drop_fixed32s [OF assms(3)] unat_u32)
qed

text \<open>The iterator is at entry \<open>i\<close>, or stands before it: the next parse reads it.\<close>

definition restart_index_ok :: "nat list \<Rightarrow> nat \<Rightarrow> nat \<Rightarrow> bool" where
  "restart_index_ok rs i ri \<longleftrightarrow> ri < length rs \<and> rs ! ri \<le> i"

definition iter_on :: "entry list \<Rightarrow> nat list \<Rightarrow> nat \<Rightarrow> BlockIter \<Rightarrow> bool" where
  "iter_on es rs i it \<longleftrightarrow> iter_of es rs it \<and> i < length es \<and> bi_current it = entry_off es i \<and>
     bi_key it = entry_key (es ! i) \<and>
     bi_value_off it = entry_off es (Suc i) - length (entry_value (es ! i)) \<and>
     bi_value_len it = length (entry_value (es ! i)) \<and> restart_index_ok rs i (bi_restart_index it)"

definition iter_before :: "entry list \<Rightarrow> nat list \<Rightarrow> nat \<Rightarrow> BlockIter \<Rightarrow> bool" where
  "iter_before es rs i it \<longleftrightarrow> iter_of es rs it \<and> i \<le> length es \<and> NextEntryOffset it = entry_off es i \<and>
     (i < length es \<longrightarrow> fst (es ! i) \<le> length (bi_key it) \<and>
        take (fst (es ! i)) (bi_key it) = take (fst (es ! i)) (entry_key (es ! i)) \<and>
        restart_index_ok rs i (bi_restart_index it))"

lemma iter_of_update [simp]:
  "iter_of es rs (it\<lparr>bi_current := a\<rparr>) = iter_of es rs it"
  "iter_of es rs (it\<lparr>bi_restart_index := a\<rparr>) = iter_of es rs it"
  "iter_of es rs (it\<lparr>bi_key := x\<rparr>) = iter_of es rs it"
  "iter_of es rs (it\<lparr>bi_value_off := a\<rparr>) = iter_of es rs it"
  "iter_of es rs (it\<lparr>bi_value_len := a\<rparr>) = iter_of es rs it"
  by (simp_all add: iter_of_def)

lemma restart_index_loop_ok:
  "restart_index_ok rs i ri \<Longrightarrow> block_ok es rs \<Longrightarrow> iter_of es rs it \<Longrightarrow> bi_current it = entry_off es i \<Longrightarrow>
   i < length es \<Longrightarrow> restart_index_ok rs i (restart_index_loop it ri)"
proof (induction it ri rule: restart_index_loop.induct)
  case (1 it ri)
  show ?case
  proof (cases "ri + 1 < bi_num_restarts it \<and> GetRestartPoint it (ri + 1) < bi_current it")
    case True
    then have j: "ri + 1 < length rs" using 1(4) by (simp add: iter_of_def)
    then have "rs ! (ri + 1) \<in> set rs" by (rule nth_mem)
    then have "rs ! (ri + 1) \<le> length es" using 1(3) by (force simp: block_ok_def restarts_ok_def)
    then have "rs ! (ri + 1) < i"
      using True GetRestartPoint_off [OF 1(3,4) j] 1(5,6) by (simp add: entry_off_less_iff)
    with True j 1 show ?thesis by (subst restart_index_loop.simps) (simp add: restart_index_ok_def)
  next
    case False
    with 1(2) show ?thesis by (subst restart_index_loop.simps) auto
  qed
qed

lemma entry_end:
  assumes "i < length es"
  shows "entry_off es (Suc i) - length (entry_value (es ! i)) =
    entry_off es i + length (entry_head (es ! i)) + length (drop (fst (es ! i)) (entry_key (es ! i)))"
  using entry_off_Suc [OF assms] by (simp add: entry_bytes_def entry_key_def entry_value_def)

lemma DecodeEntry_at:
  assumes ok: "block_ok es rs" and i: "i < length es"
  shows "DecodeEntry (block_bytes es rs) (entry_off es i) (length (entries_bytes es)) =
      Some (word_of_nat (fst (es ! i)), word_of_nat (length (entry_key (es ! i)) - fst (es ! i)),
        word_of_nat (length (entry_value (es ! i))), entry_off es i + length (entry_head (es ! i)))"
    and "take (length (entry_key (es ! i)) - fst (es ! i))
        (drop (entry_off es i + length (entry_head (es ! i))) (block_bytes es rs)) = drop (fst (es ! i)) (entry_key (es ! i))"
    and "entry_off es i + length (entry_head (es ! i)) + (length (entry_key (es ! i)) - fst (es ! i)) \<le>
        length (block_bytes es rs)"
    and "entry_off es i < length (entries_bytes es)"
proof -
  let ?e = "es ! i"
  have e: "entry_ok ?e" using ok i by (simp add: block_ok_def chain_ok_def)
  define post where "post = entries_bytes (drop (Suc i) es)"
  define arr where "arr = drop (length (entries_bytes es)) (block_bytes es rs)"
  have data: "block_bytes es rs = entries_bytes (take i es) @ entry_bytes ?e @ post @ arr"
    unfolding post_def arr_def by (rule block_split [OF i])
  have split: "entries_bytes es = entries_bytes (take i es) @ entry_bytes ?e @ post"
    unfolding post_def by (metis i concat.simps(2) concat_append id_take_nth_drop list.simps(9) map_append)
  have lim: "length (entries_bytes es) = length (entries_bytes (take i es) @ entry_bytes ?e @ post)"
    by (rule arg_cong [OF split])
  show "DecodeEntry (block_bytes es rs) (entry_off es i) (length (entries_bytes es)) =
      Some (word_of_nat (fst ?e), word_of_nat (length (entry_key ?e) - fst ?e), word_of_nat (length (entry_value ?e)),
      entry_off es i + length (entry_head ?e))"
    using ok by (intro DecodeEntry_entry [OF data _ lim e]) (simp_all add: entry_off_def block_ok_def)
  show "take (length (entry_key ?e) - fst ?e) (drop (entry_off es i + length (entry_head ?e)) (block_bytes es rs)) =
      drop (fst ?e) (entry_key ?e)"
    by (simp add: data entry_off_def entry_bytes_def entry_key_def flip: drop_drop)
  show "entry_off es i + length (entry_head ?e) + (length (entry_key ?e) - fst ?e) \<le> length (block_bytes es rs)"
    by (simp add: data entry_off_def entry_bytes_def entry_key_def)
  show "entry_off es i < length (entries_bytes es)"
    using less_le_trans [OF zero_less_numeral length_entry_bytes [of ?e]] unfolding split by (simp add: entry_off_def)
qed

lemma ParseNextKey_entry:
  assumes ok: "block_ok es rs" and before: "iter_before es rs i it" and i: "i < length es"
  shows "\<exists>it'. ParseNextKey it = Some (True, it') \<and> iter_on es rs i it'"
proof -
  let ?e = "es ! i"
  let ?it = "it\<lparr>bi_current := entry_off es i\<rparr>"
  have it: "iter_of es rs it" "NextEntryOffset it = entry_off es i"
    and key: "fst ?e \<le> length (bi_key it)" "take (fst ?e) (bi_key it) = take (fst ?e) (entry_key ?e)"
    and ri: "restart_index_ok rs i (bi_restart_index it)"
    using before i by (auto simp: iter_before_def)
  have e: "entry_ok ?e" using ok i by (simp add: block_ok_def chain_ok_def)
  then have small: "fst ?e < 2 ^ 32" "length (entry_key ?e) - fst ?e < 2 ^ 32" "length (entry_value ?e) < 2 ^ 32"
    by (auto simp: entry_ok_def)
  have lim: "bi_restarts it = length (entries_bytes es)" using it(1) by (simp add: iter_of_def)
  let ?p = "entry_off es i + length (entry_head ?e)"
  note dec = DecodeEntry_at [OF ok i]
  have whole: "take (fst ?e) (bi_key it) @ drop (fst ?e) (entry_key ?e) = entry_key ?e"
    using key(2) by simp
  define it1 where "it1 = ?it\<lparr>bi_key := entry_key ?e, bi_value_off := ?p + (length (entry_key ?e) - fst ?e),
    bi_value_len := length (entry_value ?e)\<rparr>"
  have "ParseNextKey it = Some (True, it1\<lparr>bi_restart_index := restart_index_loop it1 (bi_restart_index it1)\<rparr>)"
    using key(1) small whole it(1) dec
    by (simp add: ParseNextKey_def Let_def it(2) lim iter_of_def unat_u32 it1_def)
  moreover have "iter_on es rs i (it1\<lparr>bi_restart_index := restart_index_loop it1 (bi_restart_index it1)\<rparr>)"
    using it(1) i ri entry_end [OF i] restart_index_loop_ok [OF ri ok, of it1]
    by (simp add: iter_on_def it1_def)
  ultimately show ?thesis by blast
qed

lemma block_small: "block_ok es rs \<Longrightarrow> entry_off es i < 2 ^ 32"
  using entry_off_le [of es i] by (simp add: block_ok_def block_bytes_def)

lemma iter_on_NextEntryOffset:
  assumes "block_ok es rs" "iter_on es rs i it"
  shows "NextEntryOffset it = entry_off es (Suc i)"
proof -
  have i: "i < length es" using assms(2) by (simp add: iter_on_def)
  have "length (entry_value (es ! i)) \<le> entry_off es (Suc i)"
    using entry_off_Suc [OF i] by (simp add: entry_bytes_def entry_value_def)
  with assms block_small [OF assms(1), of "Suc i"] show ?thesis
    by (simp add: NextEntryOffset_def iter_on_def)
qed

lemma iter_on_before:
  assumes "block_ok es rs" "iter_on es rs i it"
  shows "iter_before es rs (Suc i) it"
  using assms iter_on_NextEntryOffset [OF assms]
  by (auto simp: iter_before_def iter_on_def block_ok_def chain_ok_def restart_index_ok_def)

lemma iter_on_value:
  assumes "block_ok es rs" "iter_on es rs i it"
  shows "iter_value it = Some (entry_value (es ! i))" and "Valid it"
proof -
  have i: "i < length es" using assms(2) by (simp add: iter_on_def)
  note data = block_split [OF i, of rs]
  have off: "bi_value_off it = entry_off es i + length (entry_head (es ! i)) + length (drop (fst (es ! i)) (entry_key (es ! i)))"
    using assms(2) entry_end [OF i] by (simp add: iter_on_def)
  have d: "drop (bi_value_off it) (bi_data it) = entry_value (es ! i) @ entries_bytes (drop (Suc i) es) @
      drop (length (entries_bytes es)) (block_bytes es rs)"
    using assms(2) unfolding off
    by (simp add: iter_on_def iter_of_def) (subst data, simp add: entry_off_def entry_bytes_def entry_key_def entry_value_def)
  moreover have "bi_value_off it \<le> length (bi_data it)"
    using assms(2) entry_off_le [of es "Suc i"] by (auto simp: iter_on_def iter_of_def block_bytes_def)
  then have "bi_value_off it + bi_value_len it \<le> length (bi_data it)"
    using arg_cong [OF d, of length] assms(2) by (simp add: iter_on_def)
  ultimately show "iter_value it = Some (entry_value (es ! i))"
    using assms(2) by (simp add: iter_value_def iter_on_def)
  show "Valid it"
    using assms(2) entry_off_strict [OF i i] entry_off_all [of es "length es"]
    by (simp add: Valid_def iter_on_def iter_of_def)
qed

lemma ParseNextKey_end:
  assumes "iter_before es rs (length es) it"
  shows "\<exists>it'. ParseNextKey it = Some (False, it') \<and> \<not> Valid it' \<and> iter_of es rs it'"
  using assms by (auto simp: iter_before_def ParseNextKey_def entry_off_all iter_of_def Valid_def)

lemma SeekToRestartPoint_before:
  assumes "block_ok es rs" "iter_of es rs it" "j < length rs"
  shows "iter_before es rs (rs ! j) (SeekToRestartPoint j it)"
proof -
  have "rs ! j \<in> set rs" using assms(3) by simp
  then have r: "(rs ! j < length es \<and> fst (es ! (rs ! j)) = 0) \<or> rs ! j = 0"
    using assms(1) by (simp add: block_ok_def restarts_ok_def)
  moreover have "es \<noteq> [] \<Longrightarrow> fst (es ! 0) = 0"
    using assms(1) by (simp add: block_ok_def chain_ok_def hd_conv_nth)
  ultimately show ?thesis
    using assms block_small [OF assms(1), of "rs ! j"]
    by (auto simp: iter_before_def SeekToRestartPoint_def NextEntryOffset_def GetRestartPoint_off [OF assms]
      restart_index_ok_def)
qed

lemma skip_entries_on:
  assumes "block_ok es rs"
  shows "iter_before es rs i it \<Longrightarrow> i < b \<Longrightarrow> b \<le> length es \<Longrightarrow>
    \<exists>it'. skip_entries (entry_off es b) it = Some it' \<and> iter_on es rs (b - 1) it'"
proof (induction "b - i" arbitrary: i it)
  case 0
  then show ?case by simp
next
  case (Suc n)
  then obtain it1 where it1: "ParseNextKey it = Some (True, it1)" "iter_on es rs i it1"
    using ParseNextKey_entry [OF assms Suc.prems(1)] by auto
  note off = iter_on_NextEntryOffset [OF assms it1(2)]
  show ?case
  proof (cases "Suc i < b")
    case True
    with Suc.prems have "entry_off es (Suc i) < entry_off es b" by (simp add: entry_off_less_iff)
    then have "skip_entries (entry_off es b) it = skip_entries (entry_off es b) it1"
      using it1 off by (subst skip_entries.simps) simp
    with Suc.hyps(1) [OF _ iter_on_before [OF assms it1(2)] True Suc.prems(3)] Suc.hyps(2) show ?thesis by simp
  next
    case False
    with Suc.prems(2) have "b = Suc i" by simp
    then have "skip_entries (entry_off es b) it = Some it1"
      using it1 off by (subst skip_entries.simps) simp
    with it1 \<open>b = Suc i\<close> show ?thesis by simp
  qed
qed

section \<open>The operations of the iterator\<close>

lemma SeekToFirst_on:
  assumes "block_ok es rs" "iter_of es rs it"
  shows "\<exists>it'. SeekToFirst it = Some it' \<and> (if es = [] then \<not> Valid it' \<and> iter_of es rs it' else iter_on es rs 0 it')"
proof -
  have "0 < length rs" "rs ! 0 = 0"
    using assms(1) by (auto simp: block_ok_def restarts_ok_def hd_conv_nth)
  then have b: "iter_before es rs 0 (SeekToRestartPoint 0 it)"
    using SeekToRestartPoint_before [OF assms] by force
  show ?thesis
  proof (cases es)
    case Nil
    then have "iter_before es rs (length es) (SeekToRestartPoint 0 it)" using b by simp
    from ParseNextKey_end [OF this] Nil show ?thesis by (fastforce simp: SeekToFirst_def)
  next
    case (Cons e es')
    with ParseNextKey_entry [OF assms(1) b] show ?thesis by (auto simp: SeekToFirst_def)
  qed
qed

lemma Next_entry_on:
  assumes "block_ok es rs" "iter_on es rs i it"
  shows "\<exists>it'. Next_entry it = Some it' \<and>
    (if Suc i < length es then iter_on es rs (Suc i) it' else \<not> Valid it' \<and> iter_of es rs it')"
proof -
  note b = iter_on_before [OF assms] and v = iter_on_value [OF assms]
  show ?thesis
  proof (cases "Suc i < length es")
    case True
    with ParseNextKey_entry [OF assms(1) b] v show ?thesis by (auto simp: Next_entry_def)
  next
    case False
    with b have "Suc i = length es" by (auto simp: iter_before_def)
    with b have "iter_before es rs (length es) it" by simp
    from ParseNextKey_end [OF this] False v show ?thesis by (fastforce simp: Next_entry_def)
  qed
qed

lemma SeekToLast_on:
  assumes "block_ok es rs" "iter_of es rs it" "es \<noteq> []"
  shows "\<exists>it'. SeekToLast it = Some it' \<and> iter_on es rs (length es - 1) it'"
proof -
  let ?j = "length rs - 1"
  have j: "?j < length rs" using assms(1) by (auto simp: block_ok_def restarts_ok_def)
  then have "rs ! ?j \<in> set rs" by (rule nth_mem)
  then have "rs ! ?j < length es" using assms(1,3) by (auto simp: block_ok_def restarts_ok_def)
  with skip_entries_on [OF assms(1) SeekToRestartPoint_before [OF assms(1,2) j], of "length es"] assms(2)
  show ?thesis by (simp add: SeekToLast_def iter_of_def entry_off_all)
qed

lemma restart_index_le: "block_ok es rs \<Longrightarrow> j < length rs \<Longrightarrow> rs ! j \<le> length es"
proof -
  assume "block_ok es rs" "j < length rs"
  then have "(rs ! j < length es \<and> fst (es ! (rs ! j)) = 0) \<or> rs ! j = 0"
    using nth_mem [of j rs] by (auto simp: block_ok_def restarts_ok_def simp del: nth_mem)
  then show ?thesis by auto
qed

lemma prev_restart_on:
  assumes "block_ok es rs" "iter_of es rs it" "i < length es"
  shows "ri < length rs \<Longrightarrow> (i = 0 \<longrightarrow> prev_restart it (entry_off es i) ri = None) \<and>
    (0 < i \<longrightarrow> (\<exists>j < length rs. prev_restart it (entry_off es i) ri = Some j \<and> rs ! j < i))"
proof (induction ri)
  case 0
  have "rs ! 0 = 0" using assms(1) by (auto simp: block_ok_def restarts_ok_def hd_conv_nth)
  with GetRestartPoint_off [OF assms(1,2) 0] entry_off_less_iff [of 0 es i] assms(3) 0 show ?case
    by auto
next
  case (Suc ri)
  have "GetRestartPoint it (Suc ri) \<ge> entry_off es i \<longleftrightarrow> \<not> rs ! Suc ri < i"
    using GetRestartPoint_off [OF assms(1,2) Suc.prems] restart_index_le [OF assms(1) Suc.prems]
      entry_off_less_iff [of "rs ! Suc ri" es i] assms(3) by (simp flip: not_less)
  with Suc show ?case by auto
qed

lemma Prev_entry_on:
  assumes "block_ok es rs" "iter_on es rs i it"
  shows "\<exists>it'. Prev_entry it = Some it' \<and> (if i = 0 then \<not> Valid it' \<and> iter_of es rs it' else iter_on es rs (i - 1) it')"
proof -
  have it: "iter_of es rs it" "i < length es" "bi_current it = entry_off es i" "bi_restart_index it < length rs"
    using assms(2) by (auto simp: iter_on_def restart_index_ok_def)
  note r = prev_restart_on [OF assms(1) it(1,2,4)]
  have valid: "Valid it" using iter_on_value [OF assms] by simp
  show ?thesis
  proof (cases "i = 0")
    case True
    with r it valid show ?thesis by (simp add: Prev_entry_def) (simp add: Valid_def)
  next
    case False
    with r obtain j where j: "j < length rs" "prev_restart it (entry_off es i) (bi_restart_index it) = Some j" "rs ! j < i"
      by blast
    with skip_entries_on [OF assms(1) SeekToRestartPoint_before [OF assms(1) it(1) j(1)] j(3)] it False
    show ?thesis using valid by (simp add: Prev_entry_def)
  qed
qed

section \<open>Seek\<close>

definition first_ge :: "(slice \<Rightarrow> slice \<Rightarrow> int) \<Rightarrow> slice \<Rightarrow> entry list \<Rightarrow> nat" where
  "first_ge cmp target es = length (takeWhile (\<lambda>e. cmp (entry_key e) target < 0) es)"

lemma first_ge_le: "first_ge cmp target es \<le> length es"
  unfolding first_ge_def by (rule length_takeWhile_le)

lemma first_ge_less: "i < first_ge cmp target es \<Longrightarrow> cmp (entry_key (es ! i)) target < 0"
  unfolding first_ge_def by (metis nth_mem set_takeWhileD takeWhile_nth)

lemma first_ge_not_less: "first_ge cmp target es < length es \<Longrightarrow> \<not> cmp (entry_key (es ! first_ge cmp target es)) target < 0"
  unfolding first_ge_def by (rule nth_length_takeWhile)

lemma seek_linear_on:
  assumes "block_ok es rs"
  shows "iter_before es rs j it \<Longrightarrow> j \<le> first_ge cmp target es \<Longrightarrow>
    \<exists>it'. seek_linear cmp target it = Some it' \<and>
      (if first_ge cmp target es < length es then iter_on es rs (first_ge cmp target es) it'
       else \<not> Valid it' \<and> iter_of es rs it')"
proof (induction "length es - j" arbitrary: j it)
  case 0
  then have "j = length es" using first_ge_le [of cmp target es] by simp
  with 0 first_ge_le [of cmp target es] have "iter_before es rs (length es) it" "first_ge cmp target es = length es"
    by simp_all
  with ParseNextKey_end [OF this(1)] show ?case by (subst seek_linear.simps) force
next
  case (Suc n)
  then have j: "j < length es" by simp
  obtain it1 where it1: "ParseNextKey it = Some (True, it1)" "iter_on es rs j it1"
    using ParseNextKey_entry [OF assms Suc.prems(1) j] by blast
  then have key: "bi_key it1 = entry_key (es ! j)" by (simp add: iter_on_def)
  show ?case
  proof (cases "j < first_ge cmp target es")
    case True
    then have "seek_linear cmp target it = seek_linear cmp target it1"
      using it1 key first_ge_less [OF True] by (subst seek_linear.simps) simp
    with Suc.hyps(1) [OF _ iter_on_before [OF assms it1(2)]] True Suc.hyps(2) show ?thesis by simp
  next
    case False
    then have "j = first_ge cmp target es" using Suc.prems(2) by simp
    moreover from this have "seek_linear cmp target it = Some it1"
      using it1 key first_ge_not_less [of cmp target es] j by (subst seek_linear.simps) simp
    ultimately show ?thesis using it1 j by simp
  qed
qed

lemma restart_entry:
  assumes "block_ok es rs" "j < length rs" "0 < j"
  shows "rs ! j < length es" "fst (es ! (rs ! j)) = 0"
proof -
  have rs: "rs ! 0 = 0" "sorted_wrt (<) rs" "\<forall>r \<in> set rs. (r < length es \<and> fst (es ! r) = 0) \<or> r = 0"
    using assms(1) by (auto simp: block_ok_def restarts_ok_def hd_conv_nth)
  from sorted_wrt_nth_less [OF rs(2) assms(3,2)] rs(1) have "rs ! j \<noteq> 0" by simp
  with bspec [OF rs(3) nth_mem [OF assms(2)]] show "rs ! j < length es" "fst (es ! (rs ! j)) = 0" by simp_all
qed

text \<open>The binary search ends at the first restart point or at one whose key is smaller than the target.\<close>

lemma seek_search_on:
  assumes ok: "block_ok es rs" and it: "iter_of es rs it"
  shows "left \<le> right \<Longrightarrow> right < length rs \<Longrightarrow>
    left = 0 \<or> rs ! left < length es \<and> cmp (entry_key (es ! (rs ! left))) target < 0 \<Longrightarrow>
    \<exists>l < length rs. seek_search cmp target it left right = Some (Some l) \<and>
      (l = 0 \<or> rs ! l < length es \<and> cmp (entry_key (es ! (rs ! l))) target < 0)"
proof (induction "right - left" arbitrary: left right rule: less_induct)
  case less
  show ?case
  proof (cases "left < right")
    case False
    then have "seek_search cmp target it left right = Some (Some left)" by (subst seek_search.simps) simp
    moreover have "left < length rs" using less.prems(1,2) by simp
    ultimately show ?thesis using less.prems(3) by blast
  next
    case True
    define mid where "mid = (left + right + 1) div 2"
    then have mid: "left < mid" "mid \<le> right" "0 < mid" "mid < length rs" using True less.prems(2) by auto
    have m: "Suc (left + right) div 2 = mid" by (simp add: mid_def)
    note r = restart_entry [OF ok mid(4,3)]
    let ?e = "es ! (rs ! mid)"
    note d = DecodeEntry_at [OF ok r(1)]
    have "entry_ok ?e" using ok r(1) by (simp add: block_ok_def chain_ok_def)
    then have small: "length (entry_key ?e) < 2 ^ 32" by (simp add: entry_ok_def)
    have step: "seek_search cmp target it left right =
        (if cmp (entry_key ?e) target < 0 then seek_search cmp target it mid right
         else seek_search cmp target it left (mid - 1))"
      using d r(2) small it True
      by (subst seek_search.simps) (simp add: m GetRestartPoint_off [OF ok it mid(4)] iter_of_def unat_u32)
    show ?thesis
    proof (cases "cmp (entry_key ?e) target < 0")
      case smaller: True
      have "right - mid < right - left" using mid by simp
      from less.hyps [OF this mid(2) less.prems(2)] smaller r(1) step show ?thesis by simp
    next
      case False
      have "mid - 1 - left < right - left" "left \<le> mid - 1" "mid - 1 < length rs" using mid by auto
      from less.hyps [OF this less.prems(3)] False step show ?thesis by simp
    qed
  qed
qed

locale block_order = comparator cmp valid for cmp :: "slice \<Rightarrow> slice \<Rightarrow> int" and valid
begin

lemma Seek_on:
  assumes ok: "block_ok es rs" and it: "iter_of es rs it"
    and asc: "ascending (map entry_key es)" and v: "\<forall>e \<in> set es. valid (entry_key e)" "valid target"
  shows "\<exists>it'. Seek cmp target it = Some it' \<and>
    (if first_ge cmp target es < length es then iter_on es rs (first_ge cmp target es) it'
     else \<not> Valid it' \<and> iter_of es rs it')"
proof -
  have rs: "rs \<noteq> []" "rs ! 0 = 0" using ok by (auto simp: block_ok_def restarts_ok_def hd_conv_nth)
  then obtain l where l: "l < length rs" "seek_search cmp target it 0 (length rs - 1) = Some (Some l)"
    "l = 0 \<or> rs ! l < length es \<and> cmp (entry_key (es ! (rs ! l))) target < 0"
    using seek_search_on [OF ok it, of 0 "length rs - 1" cmp target] by auto
  have "rs ! l \<le> first_ge cmp target es"
  proof (rule ccontr)
    let ?i = "first_ge cmp target es"
    assume "\<not> rs ! l \<le> ?i"
    then have lt: "?i < rs ! l" "rs ! l < length es" "cmp (entry_key (es ! (rs ! l))) target < 0"
      using l(3) rs(2) by auto
    then have i: "?i < length es" by simp
    have "cmp (entry_key (es ! ?i)) (entry_key (es ! (rs ! l))) < 0"
      using sorted_wrt_nth_less [OF asc lt(1)] lt(2) i by simp
    then have "cmp (entry_key (es ! ?i)) target < 0"
      by (rule cmp_trans [rotated 3]) (use lt v i in auto)
    with first_ge_not_less [OF i] show False by simp
  qed
  from seek_linear_on [OF ok SeekToRestartPoint_before [OF ok it l(1)] this] l(2) it show ?thesis
    by (simp add: Seek_def iter_of_def)
qed

end

section \<open>The builder writes blocks\<close>

lemma shared_loop_spec:
  "i \<le> n \<Longrightarrow> take i l = take i k \<Longrightarrow> n \<le> length l \<Longrightarrow> n \<le> length k \<Longrightarrow>
     shared_loop l k n i \<le> n \<and> take (shared_loop l k n i) l = take (shared_loop l k n i) k"
proof (induction l k n i rule: shared_loop.induct)
  case (1 l k n i)
  show ?case
  proof (cases "i < n \<and> l ! i = k ! i")
    case True
    then have "take (Suc i) l = take (Suc i) k"
      using 1(3-5) by (simp add: take_Suc_conv_app_nth)
    with True 1 show ?thesis by (subst (1 2 3) shared_loop.simps) auto
  next
    case False
    with 1 show ?thesis by (subst (1 2 3) shared_loop.simps) auto
  qed
qed

text \<open>What has been added: the entries and the indices of the restart points.\<close>

definition builder_ok :: "BlockBuilder \<Rightarrow> entry list \<Rightarrow> nat list \<Rightarrow> bool" where
  "builder_ok b es rs \<longleftrightarrow> bb_buffer b = entries_bytes es \<and>
     bb_restarts b = map (\<lambda>r. word_of_nat (entry_off es r)) rs \<and>
     bb_last_key b = (if es = [] then [] else entry_key (last es)) \<and> (es = [] \<longrightarrow> bb_counter b = 0) \<and>
     chain_ok es \<and> restarts_ok es rs"

lemma builder_ok_init: "builder_ok new_builder [] [0]"
  by (simp add: builder_ok_def new_builder_def chain_ok_def restarts_ok_def)

lemma entry_off_snoc: "r \<le> length es \<Longrightarrow> entry_off (es @ [e]) r = entry_off es r"
  by (simp add: entry_off_def)

lemma chain_ok_snoc:
  assumes "chain_ok es" "entry_ok e" "es = [] \<longrightarrow> fst e = 0"
    and "es \<noteq> [] \<longrightarrow> fst e \<le> length (entry_key (last es)) \<and> take (fst e) (entry_key (last es)) = take (fst e) (entry_key e)"
  shows "chain_ok (es @ [e])"
  unfolding chain_ok_def
proof (intro conjI allI impI)
  show "\<forall>e' \<in> set (es @ [e]). entry_ok e'" using assms(1,2) by (auto simp: chain_ok_def)
  show "fst (hd (es @ [e])) = 0" using assms(1,3) by (cases es) (auto simp: chain_ok_def)
  fix i assume i: "Suc i < length (es @ [e])"
  have step: "fst ((es @ [e]) ! Suc i) \<le> length (entry_key ((es @ [e]) ! i)) \<and>
      take (fst ((es @ [e]) ! Suc i)) (entry_key ((es @ [e]) ! i)) = take (fst ((es @ [e]) ! Suc i)) (entry_key ((es @ [e]) ! Suc i))"
  proof (cases "Suc i < length es")
    case True
    with assms(1) show ?thesis by (simp add: chain_ok_def nth_append)
  next
    case False
    with i have "es \<noteq> []" "i = length es - 1" "Suc i = length es" by auto
    with assms(4) show ?thesis by (simp add: nth_append last_conv_nth)
  qed
  then show "fst ((es @ [e]) ! Suc i) \<le> length (entry_key ((es @ [e]) ! i))"
    and "take (fst ((es @ [e]) ! Suc i)) (entry_key ((es @ [e]) ! i)) = take (fst ((es @ [e]) ! Suc i)) (entry_key ((es @ [e]) ! Suc i))"
    by blast+
qed

lemma restarts_ok_snoc:
  assumes "restarts_ok es rs"
  shows "restarts_ok (es @ [e]) rs"
  using assms by (auto simp: restarts_ok_def nth_append)

lemma restarts_ok_new:
  assumes "restarts_ok es rs" "es \<noteq> []" "fst e = 0"
  shows "restarts_ok (es @ [e]) (rs @ [length es])"
  using assms by (auto simp: restarts_ok_def nth_append sorted_wrt_append)

lemma append_entry_ok:
  assumes b: "builder_ok b es rs" and sz: "length k + length v < 2 ^ 32" and ri: "1 \<le> ri"
  shows "\<exists>sh rs'. builder_ok (append_entry ri k v b) (es @ [(sh, k, v)]) rs'"
proof -
  have facts: "bb_buffer b = entries_bytes es" "bb_restarts b = map (\<lambda>r. word_of_nat (entry_off es r)) rs"
    "bb_last_key b = (if es = [] then [] else entry_key (last es))" "es = [] \<longrightarrow> bb_counter b = 0"
    "chain_ok es" "restarts_ok es rs"
    using b by (simp_all add: builder_ok_def)
  have le: "r \<le> length es" if "r \<in> set rs" for r
    using facts(6) that by (force simp: restarts_ok_def)
  have bytes: "PutVarint32 (PutVarint32 (PutVarint32 buf (word_of_nat sh)) (word_of_nat (length k - sh)))
      (word_of_nat (length v)) @ take (length k - sh) (drop sh k) @ v = buf @ entry_bytes (sh, k, v)" for buf sh
    by (simp add: PutVarint32_def entry_bytes_def entry_head_def)
  show ?thesis
  proof (cases "bb_counter b < ri")
    case True
    let ?sh = "shared_loop (bb_last_key b) k (min (length (bb_last_key b)) (length k)) 0"
    have sh: "?sh \<le> length (bb_last_key b)" "?sh \<le> length k" "take ?sh (bb_last_key b) = take ?sh k"
      using shared_loop_spec [of 0 "min (length (bb_last_key b)) (length k)" "bb_last_key b" k] by auto
    have "entry_ok (?sh, k, v)" using sh sz by (simp add: entry_ok_def entry_key_def entry_value_def)
    then have chain: "chain_ok (es @ [(?sh, k, v)])"
      using sh facts(3) by (intro chain_ok_snoc facts(5)) (auto simp: entry_key_def split: if_splits)
    have "builder_ok (append_entry ri k v b) (es @ [(?sh, k, v)]) rs"
      using True bytes sh(3) chain facts le restarts_ok_snoc [OF facts(6)]
      by (simp add: builder_ok_def append_entry_def Let_def entry_off_snoc entry_key_def)
    then show ?thesis by blast
  next
    case False
    then have ne: "es \<noteq> []" using facts(4) ri by auto
    have "entry_ok (0, k, v)" using sz by (simp add: entry_ok_def entry_key_def entry_value_def)
    then have chain: "chain_ok (es @ [(0, k, v)])"
      using ne by (intro chain_ok_snoc facts(5)) (auto simp: entry_key_def)
    have "builder_ok (append_entry ri k v b) (es @ [(0, k, v)]) (rs @ [length es])"
      using False bytes [of _ 0] chain facts le restarts_ok_new [OF facts(6) ne, of "(0, k, v)"]
      by (simp add: builder_ok_def append_entry_def Let_def entry_off_snoc entry_key_def entry_off_all)
    then show ?thesis by blast
  qed
qed

fun AddAll :: "int \<Rightarrow> (slice \<times> slice) list \<Rightarrow> BlockBuilder \<Rightarrow> BlockBuilder" where
  "AddAll ri [] b = b"
| "AddAll ri ((k, v) # kvs) b = AddAll ri kvs (append_entry ri k v b)"

lemma AddAll_append: "AddAll ri (xs @ ys) b = AddAll ri ys (AddAll ri xs b)"
  by (induction ri xs b rule: AddAll.induct) simp_all

lemma AddAll_snoc: "AddAll ri (xs @ [(k, v)]) b = append_entry ri k v (AddAll ri xs b)"
  by (simp add: AddAll_append)

text \<open>The assertions of \<open>Add\<close> hold for ascending keys.\<close>

lemma append_entry_last_key: "bb_last_key (append_entry ri k v b) = k"
proof -
  let ?n = "min (length (bb_last_key b)) (length k)"
  have "shared_loop (bb_last_key b) k ?n 0 \<le> length k"
    "take (shared_loop (bb_last_key b) k ?n 0) (bb_last_key b) = take (shared_loop (bb_last_key b) k ?n 0) k"
    using shared_loop_spec [of 0 ?n "bb_last_key b" k] by auto
  then show ?thesis by (simp add: append_entry_def Let_def)
qed

lemma append_entry_state:
  "bb_finished (append_entry ri k v b) = bb_finished b"
  "bb_counter (append_entry ri k v b) = (if bb_counter b < ri then bb_counter b + 1 else 1)"
  by (simp_all add: append_entry_def Let_def split_beta)

lemma AddAll_state:
  assumes "1 \<le> ri"
  shows "\<not> bb_finished (AddAll ri kvs new_builder) \<and> bb_counter (AddAll ri kvs new_builder) \<le> ri \<and>
    bb_last_key (AddAll ri kvs new_builder) = (if kvs = [] then [] else fst (last kvs))"
proof (induction kvs rule: rev_induct)
  case (snoc kv kvs)
  then show ?case using assms by (cases kv) (simp add: AddAll_snoc append_entry_state append_entry_last_key)
qed (use assms in \<open>simp add: new_builder_def\<close>)

lemma BlockBuilder_Add_AddAll:
  assumes "1 \<le> ri" "kvs \<noteq> [] \<Longrightarrow> 0 < cmp k (fst (last kvs))"
  shows "BlockBuilder_Add cmp ri k v (AddAll ri kvs new_builder) = Some (AddAll ri (kvs @ [(k, v)]) new_builder)"
  using AddAll_state [OF assms(1), of kvs] assms(2)
  by (cases "kvs = []") (simp_all add: BlockBuilder_Add_def AddAll_snoc append_entry_last_key new_builder_def)

lemma add_all_AddAll:
  assumes "1 \<le> ri" "sorted_wrt (\<lambda>a b. 0 < cmp b a) (map fst (kvs0 @ kvs))"
  shows "add_all cmp ri kvs (AddAll ri kvs0 new_builder) = Some (AddAll ri (kvs0 @ kvs) new_builder)"
  using assms(2)
proof (induction kvs arbitrary: kvs0)
  case (Cons kv kvs)
  obtain k v where kv: "kv = (k, v)" by (cases kv)
  have "0 < cmp k (fst (last kvs0))" if "kvs0 \<noteq> []"
    using Cons.prems last_in_set [OF that] by (auto simp: kv sorted_wrt_append)
  then show ?case using Cons.IH [of "kvs0 @ [kv]"] Cons.prems
    by (simp add: kv BlockBuilder_Add_AddAll [OF assms(1)])
qed simp

text \<open>Every ascending list of keys makes a block.\<close>

lemma build_block_eq:
  assumes "1 \<le> ri" "sorted_wrt (\<lambda>a b. 0 < cmp b a) (map fst kvs)"
  shows "build_block cmp ri kvs = Some (fst (BlockBuilder_Finish (AddAll ri kvs new_builder)))"
  using add_all_AddAll [of ri cmp "[]" kvs] assms by (simp add: build_block_def BlockBuilder_init_def)

definition kvs_small :: "(slice \<times> slice) list \<Rightarrow> bool" where
  "kvs_small kvs \<longleftrightarrow> (\<forall>(k, v) \<in> set kvs. length k + length v < 2 ^ 32)"

lemma AddAll_ok:
  "builder_ok b es rs \<Longrightarrow> kvs_small kvs \<Longrightarrow> 1 \<le> ri \<Longrightarrow>
   \<exists>es' rs'. builder_ok (AddAll ri kvs b) (es @ es') rs' \<and> map snd es' = kvs"
proof (induction kvs arbitrary: b es rs)
  case Nil
  then show ?case by (intro exI [of _ "[]"] exI [of _ rs]) simp
next
  case (Cons kv kvs)
  obtain k v where kv: "kv = (k, v)" by (cases kv)
  have small: "length k + length v < 2 ^ 32" "kvs_small kvs"
    using Cons.prems(2) by (auto simp: kvs_small_def kv)
  obtain sh rs1 where "builder_ok (append_entry ri k v b) (es @ [(sh, k, v)]) rs1"
    using append_entry_ok [OF Cons.prems(1) small(1) Cons.prems(3)] by blast
  from Cons.IH [OF this small(2) Cons.prems(3)] obtain es' rs' where
    "builder_ok (AddAll ri kvs (append_entry ri k v b)) (es @ (sh, k, v) # es') rs'" "map snd es' = kvs"
    by auto
  then have "builder_ok (AddAll ri (kv # kvs) b) (es @ ((sh, k, v) # es')) rs' \<and> map snd ((sh, k, v) # es') = kv # kvs"
    by (simp add: kv)
  then show ?case by (intro exI)
qed

lemma foldl_PutFixed32: "foldl PutFixed32 buf rs = buf @ concat (map EncodeFixed32 rs)"
  by (induction rs arbitrary: buf) (simp_all add: PutFixed32_def)

lemma Finish_block:
  "builder_ok b es rs \<Longrightarrow> fst (BlockBuilder_Finish b) = block_bytes es rs"
  by (simp add: builder_ok_def BlockBuilder_Finish_def foldl_PutFixed32 block_bytes_def PutFixed32_def comp_def Let_def)

lemma length_fixed32s: "length (concat (map (\<lambda>r. EncodeFixed32 (f r)) rs)) = 4 * length rs"
  by (induction rs) simp_all

text \<open>The builder's estimate is the size of the block.\<close>

lemma CurrentSizeEstimate_ok:
  "builder_ok b es rs \<Longrightarrow> CurrentSizeEstimate b = length (fst (BlockBuilder_Finish b))"
  by (simp add: Finish_block) (simp add: builder_ok_def CurrentSizeEstimate_def block_bytes_def length_fixed32s)

lemma NewIterator_block:
  assumes "block_ok es rs"
  shows "\<exists>it. Block_NewIterator (Block_init (block_bytes es rs)) = BlockIterator it \<and> iter_of es rs it"
proof -
  let ?B = "block_bytes es rs" and ?n = "length (entries_bytes es)"
  have len: "length ?B = ?n + 4 * length rs + 4" by (simp add: block_bytes_def length_fixed32s)
  have small: "length ?B < 2 ^ 32" and rs: "0 < length rs" using assms by (auto simp: block_ok_def restarts_ok_def)
  have "drop (length ?B - 4) ?B = EncodeFixed32 (word_of_nat (length rs)) @ []"
    unfolding len by (simp add: block_bytes_def length_fixed32s)
  then have num: "NumRestarts ?B (length ?B) = word_of_nat (length rs)"
    unfolding NumRestarts_def by (simp only: DecodeFixed32_Encode)
  have n: "unat (word_of_nat (length rs) :: u32) = length rs" using small len by (intro unat_u32) simp
  then have nz: "(word_of_nat (length rs) :: u32) \<noteq> 0" using rs by (metis less_irrefl unat_0)
  have blk: "Block_init ?B = \<lparr>blk_data = ?B, blk_size = length ?B, blk_restart_offset = ?n\<rparr>"
    unfolding Block_init_def Let_def num n using rs len by auto
  then have "Block_NewIterator (Block_init ?B) = BlockIterator (Iter_init ?B ?n (length rs))"
    using num n nz len small by (simp add: Block_NewIterator_def)
  then show ?thesis by (simp add: iter_of_def Iter_init_def)
qed

text \<open>The contents of a block, read from its first entry on, at most \<open>n\<close> of them.\<close>

fun scan :: "nat \<Rightarrow> BlockIter \<Rightarrow> (slice \<times> slice) list option" where
  "scan 0 it = Some []"
| "scan (Suc n) it =
     (if Valid it then
        case (iter_value it, Next_entry it) of
          (Some v, Some it') \<Rightarrow> map_option (\<lambda>kvs. (bi_key it, v) # kvs) (scan n it')
        | _ \<Rightarrow> None
      else Some [])"

lemma scan_on:
  assumes "block_ok es rs"
  shows "iter_on es rs i it \<Longrightarrow> length es - i < n \<Longrightarrow> scan n it = Some (map snd (drop i es))"
proof (induction n arbitrary: i it)
  case (Suc n)
  have i: "i < length es" and key: "bi_key it = entry_key (es ! i)" using Suc.prems(1) by (simp_all add: iter_on_def)
  note v = iter_on_value [OF assms Suc.prems(1)]
  obtain it' where it': "Next_entry it = Some it'"
    "if Suc i < length es then iter_on es rs (Suc i) it' else \<not> Valid it' \<and> iter_of es rs it'"
    using Next_entry_on [OF assms Suc.prems(1)] by blast
  have "scan n it' = Some (map snd (drop (Suc i) es))"
  proof (cases "Suc i < length es")
    case True
    with it' Suc show ?thesis by simp
  next
    case False
    with it' Suc.prems(2) i show ?thesis by (cases n) auto
  qed
  then show ?case
    using v it'(1) key i by (simp add: Cons_nth_drop_Suc [symmetric] entry_key_def entry_value_def)
qed simp

text \<open>A built block is read back, and can be searched.\<close>

lemma built_block:
  assumes "kvs_small kvs" "1 \<le> ri" "fst (BlockBuilder_Finish (AddAll ri kvs new_builder)) = B" "length B < 2 ^ 32"
  obtains es rs it where "block_ok es rs" "map snd es = kvs" "iter_of es rs it"
    "Block_NewIterator (Block_init B) = BlockIterator it"
proof -
  obtain es rs where b: "builder_ok (AddAll ri kvs new_builder) es rs" "map snd es = kvs"
    using AddAll_ok [OF builder_ok_init assms(1,2)] by auto
  have "block_bytes es rs = B" using Finish_block [OF b(1)] assms(3) by simp
  moreover from this have "block_ok es rs"
    using b(1) assms(4) by (simp add: block_ok_def builder_ok_def)
  ultimately show thesis using NewIterator_block [of es rs] b(2) that by auto
qed

lemma built_block_scan:
  assumes "kvs_small kvs" "1 \<le> ri" "fst (BlockBuilder_Finish (AddAll ri kvs new_builder)) = B" "length B < 2 ^ 32"
  shows "\<exists>it it'. Block_NewIterator (Block_init B) = BlockIterator it \<and> SeekToFirst it = Some it' \<and>
    scan (Suc (length kvs)) it' = Some kvs"
proof -
  obtain es rs it where b: "block_ok es rs" "map snd es = kvs" "iter_of es rs it"
    "Block_NewIterator (Block_init B) = BlockIterator it"
    by (rule built_block [OF assms])
  from SeekToFirst_on [OF b(1,3)] obtain it' where it': "SeekToFirst it = Some it'"
    "if es = [] then \<not> Valid it' \<and> iter_of es rs it' else iter_on es rs 0 it'" by blast
  then have "scan (Suc (length kvs)) it' = Some kvs"
    using scan_on [OF b(1), of 0 it' "Suc (length kvs)"] b(2) by (cases "es = []") (auto simp del: scan.simps(2), simp)
  with b(4) it'(1) show ?thesis by blast
qed

context block_order
begin

lemma built_block_Seek:
  assumes built: "kvs_small kvs" "1 \<le> ri" "fst (BlockBuilder_Finish (AddAll ri kvs new_builder)) = B" "length B < 2 ^ 32"
    and asc: "ascending (map fst kvs)" and v: "\<forall>k \<in> set (map fst kvs). valid k" "valid target"
  shows "\<exists>it it'. Block_NewIterator (Block_init B) = BlockIterator it \<and> Seek cmp target it = Some it' \<and> bi_status it' = OK \<and>
    (case dropWhile (\<lambda>kv. cmp (fst kv) target < 0) kvs of
       [] \<Rightarrow> \<not> Valid it'
     | (k, x) # _ \<Rightarrow> Valid it' \<and> bi_key it' = k \<and> iter_value it' = Some x)"
proof -
  obtain es rs it where b: "block_ok es rs" "map snd es = kvs" "iter_of es rs it"
    "Block_NewIterator (Block_init B) = BlockIterator it"
    by (rule built_block [OF built])
  have keys: "map entry_key es = map fst kvs" unfolding b(2) [symmetric] by (simp add: entry_key_def)
  then have "\<forall>e \<in> set es. valid (entry_key e)" using v(1) by (metis image_eqI image_set)
  then obtain it' where it': "Seek cmp target it = Some it'"
    "if first_ge cmp target es < length es then iter_on es rs (first_ge cmp target es) it'
     else \<not> Valid it' \<and> iter_of es rs it'"
    using Seek_on [OF b(1,3) _ _ v(2)] asc keys by metis
  have len: "first_ge cmp target es = length (takeWhile (\<lambda>kv. cmp (fst kv) target < 0) kvs)"
    unfolding b(2) [symmetric] by (simp add: first_ge_def takeWhile_map entry_key_def comp_def)
  have dw: "dropWhile (\<lambda>kv. cmp (fst kv) target < 0) kvs = drop (first_ge cmp target es) kvs"
    unfolding len by (rule dropWhile_eq_drop)
  show ?thesis
  proof (cases "first_ge cmp target es < length es")
    case True
    then have on: "iter_on es rs (first_ge cmp target es) it'" using it'(2) by simp
    have "drop (first_ge cmp target es) kvs = snd (es ! first_ge cmp target es) # drop (Suc (first_ge cmp target es)) kvs"
      using True unfolding b(2) [symmetric] by (simp add: Cons_nth_drop_Suc [symmetric] drop_map)
    then show ?thesis
      using b(4) it'(1) iter_on_value [OF b(1) on] on dw
      by (auto simp: iter_on_def iter_of_def entry_key_def entry_value_def split_beta)
  next
    case False
    then have nil: "dropWhile (\<lambda>kv. cmp (fst kv) target < 0) kvs = []"
      unfolding dw unfolding b(2) [symmetric] by simp
    show ?thesis unfolding nil using False b(4) it' by (simp add: iter_of_def)
  qed
qed

end

interpretation bytewise_block: block_order Compare "\<lambda>_. True"
  by unfold_locales

section \<open>Damaged blocks\<close>

text \<open>Whatever the bytes of a block are, a parsed entry ends behind its beginning and inside the entries.\<close>

lemma DecodeEntry_Some:
  assumes "DecodeEntry data p limit = Some (a, b, c, q)" "limit \<le> length data" "limit < 2 ^ 32"
  shows "p + 3 \<le> limit" "p < q" "q + (unat b + unat c) mod 2 ^ 32 \<le> limit"
proof -
  let ?xs = "take (limit - p) (drop p data)"
  obtain r where r: "limit \<ge> p + 3" "varints3 ?xs = Some (a, b, c, r)" "\<not> word_of_nat (length r) < b + c"
    "q = limit - length r"
    using assms(1) unfolding DecodeEntry_varints [OF assms(2)]
    by (auto split: if_splits option.splits)
  have len: "length r < limit - p" using varints3_shrinks [OF r(2)] assms(2) by simp
  then have "unat (word_of_nat (length r) :: u32) = length r" using assms(3) by (intro unat_u32) simp
  then have "(unat b + unat c) mod 2 ^ 32 \<le> length r"
    using r(3) by (simp add: word_less_nat_alt unat_word_ariths)
  then show "p + 3 \<le> limit" "p < q" "q + (unat b + unat c) mod 2 ^ 32 \<le> limit"
    using r(1,4) len by auto
qed

lemma ParseNextKey_progress:
  assumes "ParseNextKey it = Some (True, it')" "bi_restarts it \<le> length (bi_data it)" "bi_restarts it < 2 ^ 32"
  shows "bi_current it' = NextEntryOffset it" "NextEntryOffset it < NextEntryOffset it'" "NextEntryOffset it' \<le> bi_restarts it"
proof -
  obtain sh ns vl p where d: "DecodeEntry (bi_data it) (NextEntryOffset it) (bi_restarts it) = Some (sh, ns, vl, p)"
    and it': "bi_current it' = NextEntryOffset it" "bi_value_off it' = p + unat ns" "bi_value_len it' = unat vl"
    using assms(1) by (auto simp: ParseNextKey_def Let_def split: if_splits option.splits)
  note b = DecodeEntry_Some [OF d assms(2,3)]
  have "(p + (unat ns + unat vl)) mod 2 ^ 32 = p + (unat ns + unat vl) mod 2 ^ 32"
    using b(3) assms(3) by (metis (no_types, lifting) mod_add_right_eq mod_less order_le_less_trans)
  then show "bi_current it' = NextEntryOffset it" "NextEntryOffset it < NextEntryOffset it'"
    "NextEntryOffset it' \<le> bi_restarts it"
    using it' b by (simp_all add: NextEntryOffset_def [of it'] add.assoc)
qed

text \<open>
  The two lengths of an entry are added as 32-bit words. The entry below announces a key of \<open>2 ^ 32 - 1\<close> and
  a value of one byte and is accepted; parsing it reads far behind the block.
\<close>

lemma DecodeEntry_wraps:
  "DecodeEntry ([0, 255, 255, 255, 255, 15, 1, 97] @ arr) 0 8 = Some (0, 0xFFFFFFFF, 1, 7)"
proof -
  let ?d = "[0, 255, 255, 255, 255, 15, 1, 97] @ arr :: slice"
  have v: "varints3 [0, 255, 255, 255, 255, 15, 1, 97] = Some (0, 0xFFFFFFFF, 1, [97])"
    by (simp add: varints3_def GetVarint32Ptr_def GetVarint32PtrFallback_def)
  have "(8::nat) \<le> length ?d" by simp
  from DecodeEntry_varints [OF this, of 0] show ?thesis by (simp add: v word_less_nat_alt)
qed

lemma ParseNextKey_undefined:
  "ParseNextKey (SeekToRestartPoint 0 (Iter_init
     ([0, 255, 255, 255, 255, 15, 1, 97] @ EncodeFixed32 0 @ EncodeFixed32 1) 8 1)) = None"
proof -
  have "GetRestartPoint (Iter_init ([0, 255, 255, 255, 255, 15, 1, 97] @ EncodeFixed32 0 @ EncodeFixed32 1) 8 1) 0 = 0"
    by (simp add: GetRestartPoint_def Iter_init_def)
  then show ?thesis
    using DecodeEntry_wraps [of "EncodeFixed32 0 @ EncodeFixed32 1"]
    by (simp add: ParseNextKey_def SeekToRestartPoint_def NextEntryOffset_def) (simp add: Iter_init_def)
qed

end
