(* ===== verification/Lv_Skiplist.thy ===== *)
theory Lv_Skiplist
  imports Lv_Hash
begin

text \<open>
  \<open>db/skiplist.h\<close>. The nodes live in an arena that only grows: a pointer is an index into \<open>sl_nodes\<close>,
  \<open>NULL\<close> is \<open>None\<close>, the head is node 0. Reading or writing behind the end of a node's array of links, or
  through \<open>NULL\<close>, is undefined, \<open>None\<close>. The links are the atomic pointers of the source, read and written
  by one thread. The invariant is one list of nodes in ascending order, of which every level links
  the nodes that are high enough.
\<close>

section \<open>Nodes and links\<close>

record 'k Node =
  node_key :: 'k
  node_next :: "nat option list"

record 'k SkipList =
  sl_nodes :: "'k Node list"
  sl_max_height :: nat
  sl_rnd :: u32

definition kMaxHeight :: nat where "kMaxHeight = 12"

text \<open>\<open>Node::Next\<close> and \<open>Node::SetNext\<close>\<close>

definition node_height :: "'k SkipList \<Rightarrow> nat \<Rightarrow> nat" where
  "node_height s x = (if x < length (sl_nodes s) then length (node_next (sl_nodes s ! x)) else 0)"

definition key_at :: "'k SkipList \<Rightarrow> nat \<Rightarrow> 'k" where
  "key_at s x = node_key (sl_nodes s ! x)"

definition Node_Next :: "'k SkipList \<Rightarrow> nat \<Rightarrow> nat \<Rightarrow> nat option option" where
  "Node_Next s x n = (if n < node_height s x then Some (node_next (sl_nodes s ! x) ! n) else None)"

definition Node_SetNext :: "nat \<Rightarrow> nat \<Rightarrow> nat option \<Rightarrow> 'k SkipList \<Rightarrow> 'k SkipList option" where
  "Node_SetNext x n y s =
     (if n < node_height s x
      then Some (s\<lparr>sl_nodes := (sl_nodes s)
        [x := (sl_nodes s ! x)\<lparr>node_next := (node_next (sl_nodes s ! x))[n := y]\<rparr>]\<rparr>)
      else None)"

text \<open>The memory of a new node is not initialised; its links are written before they are read.\<close>

definition NewNode :: "'k \<Rightarrow> nat \<Rightarrow> 'k SkipList \<Rightarrow> nat \<times> 'k SkipList" where
  "NewNode key height s =
     (length (sl_nodes s), s\<lparr>sl_nodes := sl_nodes s @ [\<lparr>node_key = key, node_next = replicate height None\<rparr>]\<rparr>)"

definition SkipList_init :: "'k \<Rightarrow> 'k SkipList" where
  "SkipList_init any =
     \<lparr>sl_nodes = [\<lparr>node_key = any, node_next = replicate kMaxHeight None\<rparr>], sl_max_height = 1,
      sl_rnd = Random_init 0xdeadbeef\<rparr>"

section \<open>Searching\<close>

definition KeyIsAfterNode :: "('k \<Rightarrow> 'k \<Rightarrow> int) \<Rightarrow> 'k SkipList \<Rightarrow> 'k \<Rightarrow> nat option \<Rightarrow> bool" where
  "KeyIsAfterNode cmp s key n \<longleftrightarrow> (case n of None \<Rightarrow> False | Some x \<Rightarrow> cmp (key_at s x) key < 0)"

text \<open>
  The loop that \<open>FindGreaterOrEqual\<close>, \<open>FindLessThan\<close> and \<open>FindLast\<close> have in common: \<open>go\<close> is the test to move on
  in the list of the level. It returns the last node, the node behind it, and the array \<open>prev\<close>, whose
  uninitialised elements are \<open>None\<close>.
\<close>

partial_function (option) search_loop ::
  "(nat option \<Rightarrow> bool) \<Rightarrow> 'k SkipList \<Rightarrow> nat \<Rightarrow> nat \<Rightarrow> nat option list \<Rightarrow> (nat \<times> nat option \<times> nat option list) option"
where
  "search_loop go s x level prev =
     (case Node_Next s x level of
        None \<Rightarrow> None
      | Some nx \<Rightarrow>
          if go nx then (case nx of None \<Rightarrow> None | Some y \<Rightarrow> search_loop go s y level prev)
          else if level = 0 then Some (x, nx, prev[level := Some x])
          else search_loop go s x (level - 1) (prev[level := Some x]))"

definition FindGreaterOrEqual ::
  "('k \<Rightarrow> 'k \<Rightarrow> int) \<Rightarrow> 'k \<Rightarrow> 'k SkipList \<Rightarrow> (nat option \<times> nat option list) option"
where
  "FindGreaterOrEqual cmp key s =
     map_option snd (search_loop (KeyIsAfterNode cmp s key) s 0 (sl_max_height s - 1) (replicate kMaxHeight None))"

definition FindLessThan :: "('k \<Rightarrow> 'k \<Rightarrow> int) \<Rightarrow> 'k \<Rightarrow> 'k SkipList \<Rightarrow> nat option" where
  "FindLessThan cmp key s =
     map_option fst (search_loop (\<lambda>nx. \<not> (case nx of None \<Rightarrow> True | Some y \<Rightarrow> cmp (key_at s y) key \<ge> 0)) s 0
       (sl_max_height s - 1) [])"

definition FindLast :: "'k SkipList \<Rightarrow> nat option" where
  "FindLast s = map_option fst (search_loop (\<lambda>nx. nx \<noteq> None) s 0 (sl_max_height s - 1) [])"

definition SkipList_Contains :: "('k \<Rightarrow> 'k \<Rightarrow> int) \<Rightarrow> 'k \<Rightarrow> 'k SkipList \<Rightarrow> bool option" where
  "SkipList_Contains cmp key s =
     map_option (\<lambda>(x, _). case x of None \<Rightarrow> False | Some y \<Rightarrow> cmp key (key_at s y) = 0) (FindGreaterOrEqual cmp key s)"

section \<open>Inserting\<close>

function RandomHeight_loop :: "nat \<Rightarrow> u32 \<Rightarrow> nat \<times> u32" where
  "RandomHeight_loop height rnd =
     (if height < kMaxHeight
      then let (r, rnd) = Next rnd in if r mod 4 = 0 then RandomHeight_loop (height + 1) rnd else (height, rnd)
      else (height, rnd))"
  by pat_completeness auto
termination by (relation "measure (\<lambda>(h, r). kMaxHeight - h)") auto

declare RandomHeight_loop.simps [simp del]

definition RandomHeight :: "u32 \<Rightarrow> nat \<times> u32" where
  "RandomHeight rnd = RandomHeight_loop 1 rnd"

text \<open>\<open>prev[i] = head_\<close> for the levels that are new.\<close>

definition raise_height :: "nat \<Rightarrow> nat option list \<Rightarrow> 'k SkipList \<Rightarrow> nat option list \<times> 'k SkipList" where
  "raise_height height prev s =
     (if height > sl_max_height s
      then (foldl (\<lambda>prev i. prev[i := Some 0]) prev [sl_max_height s..<height], s\<lparr>sl_max_height := height\<rparr>)
      else (prev, s))"

definition link_level :: "nat option list \<Rightarrow> nat \<Rightarrow> nat \<Rightarrow> 'k SkipList \<Rightarrow> 'k SkipList option" where
  "link_level prev x i s =
     (case prev ! i of
        None \<Rightarrow> None
      | Some p \<Rightarrow>
          (case Node_Next s p i of
             None \<Rightarrow> None
           | Some nx \<Rightarrow>
               (case Node_SetNext x i nx s of None \<Rightarrow> None | Some s \<Rightarrow> Node_SetNext p i (Some x) s)))"

fun link_loop :: "nat option list \<Rightarrow> nat \<Rightarrow> nat list \<Rightarrow> 'k SkipList \<Rightarrow> 'k SkipList option" where
  "link_loop prev x [] s = Some s"
| "link_loop prev x (i # is) s =
     (case link_level prev x i s of None \<Rightarrow> None | Some s \<Rightarrow> link_loop prev x is s)"

text \<open>A key that is already there fails the assertion.\<close>

definition SkipList_Insert :: "('k \<Rightarrow> 'k \<Rightarrow> int) \<Rightarrow> 'k \<Rightarrow> 'k SkipList \<Rightarrow> 'k SkipList option" where
  "SkipList_Insert cmp key s =
     (case FindGreaterOrEqual cmp key s of
        None \<Rightarrow> None
      | Some (x, prev) \<Rightarrow>
          if (case x of None \<Rightarrow> False | Some y \<Rightarrow> cmp key (key_at s y) = 0) then None
          else let (height, rnd) = RandomHeight (sl_rnd s); s = s\<lparr>sl_rnd := rnd\<rparr>;
              (prev, s) = raise_height height prev s;
              (x, s) = NewNode key height s in
          link_loop prev x [0..<height] s)"

section \<open>The iterator\<close>

text \<open>The node of an iterator; moving an iterator that is not valid is undefined.\<close>

type_synonym sl_iter = "nat option"

definition SLIter_init :: sl_iter where "SLIter_init = None"
definition SLIter_Valid :: "sl_iter \<Rightarrow> bool" where "SLIter_Valid it \<longleftrightarrow> it \<noteq> None"
definition SLIter_key :: "'k SkipList \<Rightarrow> sl_iter \<Rightarrow> 'k" where "SLIter_key s it = key_at s (the it)"

definition SLIter_Next :: "'k SkipList \<Rightarrow> sl_iter \<Rightarrow> sl_iter option" where
  "SLIter_Next s it = (case it of None \<Rightarrow> None | Some x \<Rightarrow> Node_Next s x 0)"

definition head_is_null :: "nat \<Rightarrow> sl_iter" where
  "head_is_null x = (if x = 0 then None else Some x)"

definition SLIter_Prev :: "('k \<Rightarrow> 'k \<Rightarrow> int) \<Rightarrow> 'k SkipList \<Rightarrow> sl_iter \<Rightarrow> sl_iter option" where
  "SLIter_Prev cmp s it = (case it of None \<Rightarrow> None | Some x \<Rightarrow> map_option head_is_null (FindLessThan cmp (key_at s x) s))"

definition SLIter_Seek :: "('k \<Rightarrow> 'k \<Rightarrow> int) \<Rightarrow> 'k SkipList \<Rightarrow> 'k \<Rightarrow> sl_iter option" where
  "SLIter_Seek cmp s target = map_option fst (FindGreaterOrEqual cmp target s)"

definition SLIter_SeekToFirst :: "'k SkipList \<Rightarrow> sl_iter option" where
  "SLIter_SeekToFirst s = Node_Next s 0 0"

definition SLIter_SeekToLast :: "'k SkipList \<Rightarrow> sl_iter option" where
  "SLIter_SeekToLast s = map_option head_is_null (FindLast s)"

section \<open>The invariant\<close>

text \<open>The nodes behind \<open>x\<close> in the list of level \<open>i\<close>.\<close>

fun path :: "'k SkipList \<Rightarrow> nat \<Rightarrow> nat \<Rightarrow> nat list \<Rightarrow> bool" where
  "path s i x [] \<longleftrightarrow> Node_Next s x i = Some None"
| "path s i x (a # as) \<longleftrightarrow> Node_Next s x i = Some (Some a) \<and> path s i a as"

definition high :: "'k SkipList \<Rightarrow> nat \<Rightarrow> nat list \<Rightarrow> nat list" where
  "high s i as = filter (\<lambda>a. i < node_height s a) as"

definition sl_links :: "'k SkipList \<Rightarrow> nat list \<Rightarrow> bool" where
  "sl_links s as \<longleftrightarrow> (\<forall>i < kMaxHeight. path s i 0 (high s i as)) \<and> distinct (0 # as) \<and>
     node_height s 0 = kMaxHeight \<and> (\<forall>a \<in> set as. 0 < node_height s a \<and> node_height s a \<le> sl_max_height s) \<and>
     0 < sl_max_height s \<and> sl_max_height s \<le> kMaxHeight"

lemma path_append: "path s i x (as @ b # bs) \<Longrightarrow> path s i b bs"
  by (induction as arbitrary: x) auto

lemma path_Next: "path s i x as \<Longrightarrow> Node_Next s x i = Some (case as of [] \<Rightarrow> None | a # _ \<Rightarrow> Some a)"
  by (cases as) auto

lemma sl_links_path:
  assumes "sl_links s as" "0 # as = us @ x # vs" "i < node_height s x"
  shows "path s i x (high s i vs)"
proof -
  have h: "i < kMaxHeight" using assms by (cases us) (auto simp: sl_links_def intro: less_le_trans)
  then have p: "path s i 0 (high s i as)" using assms(1) by (simp add: sl_links_def)
  show ?thesis
  proof (cases us)
    case Nil
    with assms(2) p show ?thesis by simp
  next
    case (Cons u us')
    then have "high s i as = high s i us' @ x # high s i vs" using assms(2,3) by (simp add: high_def)
    with p path_append [of s i 0 "high s i us'" x] show ?thesis by simp
  qed
qed

text \<open>
  The search ends at the last node for which \<open>go\<close> holds, when \<open>go\<close> holds for an initial part of the nodes;
  \<open>prev\<close> is the last such node in every level.
\<close>

definition last_in :: "'k SkipList \<Rightarrow> nat list \<Rightarrow> (nat \<Rightarrow> bool) \<Rightarrow> nat \<Rightarrow> nat \<Rightarrow> bool" where
  "last_in s as P i x \<longleftrightarrow> i < node_height s x \<and>
     (\<exists>us vs. 0 # as = us @ x # vs \<and> (\<forall>u \<in> set (tl (us @ [x])). P u) \<and> (\<forall>v \<in> set vs. i < node_height s v \<longrightarrow> \<not> P v))"

lemma high_Cons_split:
  assumes "high s i vs = a # r"
  obtains vs1 vs2 where "vs = vs1 @ a # vs2" "i < node_height s a" "\<forall>v \<in> set vs1. \<not> i < node_height s v"
  using assms unfolding high_def by (metis filter_eq_Cons_iff)

lemma search_step:
  assumes links: "sl_links s as" and mono: "sorted_wrt (\<lambda>a b. P b \<longrightarrow> P a) as"
    and at: "0 # as = us @ x # vs" "i < node_height s x" "\<forall>u \<in> set (tl (us @ [x])). P u"
  shows "(\<exists>a vs1 vs2. Node_Next s x i = Some (Some a) \<and> P a \<and> vs = vs1 @ a # vs2 \<and> i < node_height s a \<and>
        (\<forall>u \<in> set (tl ((us @ x # vs1) @ [a])). P u)) \<or>
      (\<exists>nx. Node_Next s x i = Some nx \<and> last_in s as P i x \<and> (\<forall>a. nx = Some a \<longrightarrow> \<not> P a) \<and>
        (i = 0 \<longrightarrow> nx = (case dropWhile P as of [] \<Rightarrow> None | a # _ \<Rightarrow> Some a)))"
proof -
  note p = sl_links_path [OF links at(1,2)]
  have as: "as = tl (us @ [x]) @ vs" using at(1) by (cases us) auto
  have mono': "sorted_wrt (\<lambda>a b. P b \<longrightarrow> P a) vs" using mono unfolding as by (simp add: sorted_wrt_append)
  have dw: "dropWhile P as = dropWhile P vs" using at(3) unfolding as by (simp add: dropWhile_append2)
  have all: "i = 0 \<Longrightarrow> high s i vs = vs"
    using links unfolding high_def as by (auto simp: sl_links_def filter_id_conv)
  show ?thesis
  proof (cases "high s i vs")
    case Nil
    then have none: "\<forall>v \<in> set vs. i < node_height s v \<longrightarrow> \<not> P v" by (auto simp: high_def filter_empty_conv)
    have "Node_Next s x i = Some None" using path_Next [OF p] Nil by simp
    moreover have "last_in s as P i x" using at none unfolding last_in_def by blast
    moreover have "i = 0 \<Longrightarrow> vs = []" using all Nil by metis
    then have "i = 0 \<longrightarrow> None = (case dropWhile P as of [] \<Rightarrow> None | a # _ \<Rightarrow> Some a)" unfolding dw by simp
    ultimately show ?thesis by blast
  next
    case (Cons a r)
    from high_Cons_split [OF Cons] obtain vs1 vs2 where vs: "vs = vs1 @ a # vs2" "i < node_height s a"
      "\<forall>v \<in> set vs1. \<not> i < node_height s v" by blast
    have nx: "Node_Next s x i = Some (Some a)" using path_Next [OF p] Cons by simp
    show ?thesis
    proof (cases "P a")
      case True
      then have "\<forall>u \<in> set vs1. P u" using mono' unfolding vs(1) by (auto simp: sorted_wrt_append)
      then have "\<forall>u \<in> set (tl ((us @ x # vs1) @ [a])). P u" using at(3) True by (cases us) auto
      with nx True vs(1,2) show ?thesis by blast
    next
      case False
      then have none: "\<forall>v \<in> set vs. i < node_height s v \<longrightarrow> \<not> P v"
        using mono' vs(3) unfolding vs(1) by (auto simp: sorted_wrt_append)
      then have "last_in s as P i x" using at unfolding last_in_def by blast
      moreover have "i = 0 \<longrightarrow> dropWhile P as = a # r"
        using dw all Cons False by auto
      ultimately show ?thesis using nx False by auto
    qed
  qed
qed

lemma search_loop_on:
  assumes links: "sl_links s as" and go: "go None = False" "\<And>a. go (Some a) \<longleftrightarrow> P a"
    and mono: "sorted_wrt (\<lambda>a b. P b \<longrightarrow> P a) as"
  shows "0 # as = us @ x # vs \<Longrightarrow> level < node_height s x \<Longrightarrow> \<forall>u \<in> set (tl (us @ [x])). P u \<Longrightarrow>
    \<exists>y prev'. search_loop go s x level prev =
        Some (y, case dropWhile P as of [] \<Rightarrow> None | a # _ \<Rightarrow> Some a, prev') \<and>
      last_in s as P 0 y \<and> length prev' = length prev \<and>
      (\<forall>i. i \<le> level \<longrightarrow> i < length prev \<longrightarrow> (\<exists>z. prev' ! i = Some z \<and> last_in s as P i z)) \<and>
      (\<forall>i. level < i \<longrightarrow> prev' ! i = prev ! i)"
proof (induction "level + length vs" arbitrary: level us x vs prev rule: less_induct)
  case less
  from search_step [OF links mono less.prems] show ?case
  proof (elim disjE exE conjE)
    fix a vs1 vs2 assume nx: "Node_Next s x level = Some (Some a)" "P a" "vs = vs1 @ a # vs2"
      "level < node_height s a" "\<forall>u \<in> set (tl ((us @ x # vs1) @ [a])). P u"
    then have "search_loop go s x level prev = search_loop go s a level prev"
      by (subst search_loop.simps) (simp add: go)
    moreover have "level + length vs2 < level + length vs" "0 # as = (us @ x # vs1) @ a # vs2"
      using nx(3) less.prems(1) by simp_all
    ultimately show ?thesis using less.hyps [OF _ _ nx(4,5)] by simp
  next
    fix nx assume nx: "Node_Next s x level = Some nx" "last_in s as P level x" "\<forall>a. nx = Some a \<longrightarrow> \<not> P a"
      "level = 0 \<longrightarrow> nx = (case dropWhile P as of [] \<Rightarrow> None | a # _ \<Rightarrow> Some a)"
    then have stop: "\<not> go nx" using go by (cases nx) auto
    show ?thesis
    proof (cases "level = 0")
      case True
      then have "search_loop go s x level prev =
          Some (x, case dropWhile P as of [] \<Rightarrow> None | a # _ \<Rightarrow> Some a, prev[0 := Some x])"
        using nx stop by (subst search_loop.simps) simp
      then show ?thesis using nx(2) True by auto
    next
      case False
      then have eq: "search_loop go s x level prev = search_loop go s x (level - 1) (prev[level := Some x])"
        using nx(1) stop by (subst search_loop.simps) simp
      have "level - 1 + length vs < level + length vs" "level - 1 < node_height s x" using False less.prems(2) by simp_all
      from less.hyps [OF this(1) less.prems(1) this(2) less.prems(3), of "prev[level := Some x]"]
      obtain y prev' where r: "search_loop go s x (level - 1) (prev[level := Some x]) =
          Some (y, case dropWhile P as of [] \<Rightarrow> None | a # _ \<Rightarrow> Some a, prev')"
        "last_in s as P 0 y" "length prev' = length prev"
        "\<forall>i. i \<le> level - 1 \<longrightarrow> i < length prev \<longrightarrow> (\<exists>z. prev' ! i = Some z \<and> last_in s as P i z)"
        "\<forall>i. level - 1 < i \<longrightarrow> prev' ! i = prev[level := Some x] ! i" by auto
      have "\<exists>z. prev' ! i = Some z \<and> last_in s as P i z" if "i \<le> level" "i < length prev" for i
        using that r(4,5) nx(2) False by (cases "i = level") auto
      moreover have "prev' ! i = prev ! i" if "level < i" for i using r(5) that False by auto
      ultimately show ?thesis using eq r(1-3) by auto
    qed
  qed
qed

section \<open>Linking a node\<close>

text \<open>Nodes whose links agree outside of level \<open>i\<close> of node \<open>p\<close> have the same paths elsewhere.\<close>

lemma path_cong:
  "(\<And>y. y \<in> set (x # as) \<Longrightarrow> Node_Next s' y i = Node_Next s y i) \<Longrightarrow> path s' i x as \<longleftrightarrow> path s i x as"
  by (induction as arbitrary: x) auto

lemma path_insert:
  assumes "path s i x (xs @ ys)" "p = last (x # xs)" "distinct (x # xs @ ys)" "q \<notin> set (x # xs @ ys)"
    and "\<And>y. y \<in> set (x # xs @ ys) \<Longrightarrow> y \<noteq> p \<Longrightarrow> Node_Next s' y i = Node_Next s y i"
    and "Node_Next s' p i = Some (Some q)" "Node_Next s' q i = Node_Next s p i"
  shows "path s' i x (xs @ q # ys)"
  using assms
proof (induction xs arbitrary: x)
  case Nil
  then have "path s' i q ys \<longleftrightarrow> (case ys of [] \<Rightarrow> Node_Next s' q i = Some None
      | y # ys' \<Rightarrow> Node_Next s' q i = Some (Some y) \<and> path s' i y ys')"
    by (cases ys) auto
  moreover have "path s' i y ys'" if "ys = y # ys'" for y ys'
    using Nil that path_cong [of y ys' s' i s] by auto
  ultimately show ?case using Nil by (cases ys) auto
next
  case (Cons a xs)
  have "path s' i a (xs @ q # ys)"
    by (rule Cons.IH) (use Cons.prems in \<open>auto split: if_splits\<close>)
  moreover have "p \<in> set (a # xs)" using Cons.prems(2) by auto
  then have "x \<noteq> p" using Cons.prems(3) by auto
  then have "Node_Next s' x i = Some (Some a)"
    using Cons.prems(1) Cons.prems(5) [of x] by simp
  ultimately show ?case by simp
qed

lemma Node_Next_SetNext:
  assumes "Node_SetNext x n y s = Some s'"
  shows "Node_Next s' z i = (if z = x \<and> i = n then Some y else Node_Next s z i)"
    and "node_height s' z = node_height s z" "key_at s' z = key_at s z"
    and "sl_max_height s' = sl_max_height s" "sl_rnd s' = sl_rnd s" "length (sl_nodes s') = length (sl_nodes s)"
  using assms by (auto simp: Node_SetNext_def Node_Next_def node_height_def key_at_def nth_list_update split: if_splits)

lemma link_level_ok:
  assumes "prev ! i = Some p" "i < node_height s p" "i < node_height s q" "p \<noteq> q"
  obtains s' where "link_level prev q i s = Some s'"
    "\<And>z j. Node_Next s' z j = (if j = i \<and> z = p then Some (Some q) else if j = i \<and> z = q then Node_Next s p i else Node_Next s z j)"
    "\<And>z. node_height s' z = node_height s z" "\<And>z. key_at s' z = key_at s z"
    "sl_max_height s' = sl_max_height s" "sl_rnd s' = sl_rnd s" "length (sl_nodes s') = length (sl_nodes s)"
proof -
  obtain nx where nx: "Node_Next s p i = Some nx" using assms(2) by (auto simp: Node_Next_def)
  obtain s1 where s1: "Node_SetNext q i nx s = Some s1" using assms(3) by (auto simp: Node_SetNext_def)
  note f1 = Node_Next_SetNext [OF s1]
  have "i < node_height s1 p" using assms(2) f1(2) by simp
  then obtain s2 where s2: "Node_SetNext p i (Some q) s1 = Some s2" by (auto simp: Node_SetNext_def)
  note f2 = Node_Next_SetNext [OF s2]
  have "link_level prev q i s = Some s2" by (simp add: link_level_def assms(1) nx s1 s2)
  moreover have "Node_Next s2 z j = (if j = i \<and> z = p then Some (Some q)
      else if j = i \<and> z = q then Node_Next s p i else Node_Next s z j)" for z j
    using assms(4) nx by (simp add: f2(1) f1(1))
  ultimately show thesis using f1 f2 that by simp
qed

lemma last_in_high:
  assumes "last_in s as P i z"
  shows "z = last (0 # high s i (takeWhile P as))"
proof -
  from assms obtain us vs where z: "i < node_height s z" "0 # as = us @ z # vs"
    "\<forall>u \<in> set (tl (us @ [z])). P u" "\<forall>v \<in> set vs. i < node_height s v \<longrightarrow> \<not> P v"
    by (auto simp: last_in_def)
  have as: "as = tl (us @ [z]) @ vs" using z(2) by (cases us) auto
  have "high s i (takeWhile P vs) = []"
    using z(4) by (auto simp: high_def filter_empty_conv dest: set_takeWhileD)
  moreover have "takeWhile P as = tl (us @ [z]) @ takeWhile P vs"
    using z(3) unfolding as by (simp add: takeWhile_append2)
  ultimately have h: "high s i (takeWhile P as) = high s i (tl (us @ [z]))" by (simp add: high_def)
  show ?thesis
  proof (cases us)
    case Nil
    with z(2) h show ?thesis by (simp add: high_def)
  next
    case (Cons u us')
    with z(1) h show ?thesis by (simp add: high_def)
  qed
qed

definition linked_upto :: "'k SkipList \<Rightarrow> nat list \<Rightarrow> nat \<Rightarrow> nat list \<Rightarrow> nat \<Rightarrow> 'k SkipList \<Rightarrow> bool" where
  "linked_upto s0 ps q qs k s \<longleftrightarrow> (\<forall>z. node_height s z = node_height s0 z \<and> key_at s z = key_at s0 z) \<and>
     sl_max_height s = sl_max_height s0 \<and> sl_rnd s = sl_rnd s0 \<and> length (sl_nodes s) = length (sl_nodes s0) \<and>
     (\<forall>j < kMaxHeight. path s j 0 (high s0 j ps @ (if j < k then [q] else []) @ high s0 j qs))"

lemma link_step:
  assumes l: "linked_upto s0 ps q qs k s" and k: "k < kMaxHeight" "k < node_height s0 q" "node_height s0 0 = kMaxHeight"
    and prev: "prev ! k = Some (last (0 # high s0 k ps))" and d: "distinct (0 # ps @ qs)" "q \<notin> set (0 # ps @ qs)"
  shows "\<exists>s'. link_level prev q k s = Some s' \<and> linked_upto s0 ps q qs (Suc k) s'"
proof -
  let ?p = "last (0 # high s0 k ps)"
  have "?p \<in> set (0 # high s0 k ps)" by (rule last_in_set) simp
  then have p: "?p \<in> set (0 # ps)" "k < node_height s0 ?p" using k by (auto simp: high_def)
  have hs: "k < node_height s ?p" "k < node_height s q" "?p \<noteq> q" using p k d l by (auto simp: linked_upto_def)
  obtain s' where s': "link_level prev q k s = Some s'"
    "\<And>z j. Node_Next s' z j = (if j = k \<and> z = ?p then Some (Some q) else if j = k \<and> z = q then Node_Next s ?p k else Node_Next s z j)"
    "\<And>z. node_height s' z = node_height s z" "\<And>z. key_at s' z = key_at s z"
    "sl_max_height s' = sl_max_height s" "sl_rnd s' = sl_rnd s" "length (sl_nodes s') = length (sl_nodes s)"
    by (rule link_level_ok [where prev = prev and i = k and p = ?p and q = q and s = s, OF prev hs]) blast
  have "path s' j 0 (high s0 j ps @ (if j < Suc k then [q] else []) @ high s0 j qs)" if j: "j < kMaxHeight" for j
  proof (cases "j = k")
    case True
    have old: "path s k 0 (high s0 k ps @ high s0 k qs)"
      using l j True by (auto simp: linked_upto_def)
    have ds: "distinct (0 # high s0 k ps @ high s0 k qs)" "q \<notin> set (0 # high s0 k ps @ high s0 k qs)"
      using d by (auto simp: high_def)
    have "path s' k 0 (high s0 k ps @ q # high s0 k qs)"
    proof (rule path_insert [OF old refl ds])
      fix y assume "y \<in> set (0 # high s0 k ps @ high s0 k qs)" "y \<noteq> ?p"
      then have "y \<noteq> q" using ds(2) by metis
      with \<open>y \<noteq> ?p\<close> show "Node_Next s' y k = Node_Next s y k" unfolding s'(2) by (simp only: if_False simp_thms)
    next
      show "Node_Next s' ?p k = Some (Some q)" unfolding s'(2) by (simp only: if_True simp_thms)
      show "Node_Next s' q k = Node_Next s ?p k" unfolding s'(2) using hs(3) by (simp only: if_True if_False simp_thms) metis
    qed
    with True show ?thesis by simp
  next
    case False
    then have "Node_Next s' y j = Node_Next s y j" for y using s'(2) by simp
    then have "path s' j 0 zs \<longleftrightarrow> path s j 0 zs" for zs using path_cong [of 0 zs s' j s] by simp
    moreover have "j < Suc k \<longleftrightarrow> j < k" using False by auto
    ultimately show ?thesis using l j by (simp add: linked_upto_def)
  qed
  then have "linked_upto s0 ps q qs (Suc k) s'" using l s' by (simp add: linked_upto_def)
  with s'(1) show ?thesis by blast
qed

lemma link_loop_on:
  assumes h: "h \<le> kMaxHeight" "h \<le> node_height s0 q" "node_height s0 0 = kMaxHeight"
    and prev: "\<forall>i < h. prev ! i = Some (last (0 # high s0 i ps))" and d: "distinct (0 # ps @ qs)" "q \<notin> set (0 # ps @ qs)"
  shows "linked_upto s0 ps q qs k s \<Longrightarrow> k \<le> h \<Longrightarrow>
    \<exists>s'. link_loop prev q [k..<h] s = Some s' \<and> linked_upto s0 ps q qs h s'"
proof (induction "h - k" arbitrary: k s)
  case 0
  then show ?case by simp
next
  case (Suc n)
  then have k: "k < h" by simp
  then obtain s1 where s1: "link_level prev q k s = Some s1" "linked_upto s0 ps q qs (Suc k) s1"
    using link_step [OF Suc.prems(1) _ _ h(3) _ d] h prev by (meson less_le_trans)
  from Suc.hyps(1) [OF _ s1(2)] Suc.hyps(2) k show ?case by (simp add: upt_conv_Cons s1(1))
qed

lemma RandomHeight_loop_bounds:
  "1 \<le> h \<Longrightarrow> h \<le> kMaxHeight \<Longrightarrow> 1 \<le> fst (RandomHeight_loop h rnd) \<and> fst (RandomHeight_loop h rnd) \<le> kMaxHeight"
proof (induction h rnd rule: RandomHeight_loop.induct)
  case (1 h rnd)
  obtain r rnd1 where n: "Next rnd = (r, rnd1)" by (cases "Next rnd")
  show ?case
  proof (cases "h < kMaxHeight \<and> r mod 4 = 0")
    case True
    then have c: "h < kMaxHeight" "r mod 4 = 0" by blast+
    have "RandomHeight_loop h rnd = RandomHeight_loop (h + 1) rnd1"
      by (subst RandomHeight_loop.simps) (simp only: n Let_def prod.case c if_True simp_thms)
    with 1(1) [OF c(1) n [symmetric] refl c(2)] c(1) show ?thesis by simp
  next
    case False
    then have "RandomHeight_loop h rnd = (h, rnd1) \<or> RandomHeight_loop h rnd = (h, rnd)"
      by (subst (1 2) RandomHeight_loop.simps) (cases "h < kMaxHeight"; simp only: n Let_def prod.case if_True if_False simp_thms)
    with 1(2,3) show ?thesis by auto
  qed
qed

lemma RandomHeight_bounds: "RandomHeight rnd = (h, rnd') \<Longrightarrow> 1 \<le> h \<and> h \<le> kMaxHeight"
  using RandomHeight_loop_bounds [of 1 rnd] by (simp add: RandomHeight_def kMaxHeight_def)

lemma foldl_set_prev:
  "length (foldl (\<lambda>prev i. prev[i := Some y]) prev is) = length prev"
  "i < length prev \<Longrightarrow> foldl (\<lambda>prev i. prev[i := Some y]) prev is ! i = (if i \<in> set is then Some y else prev ! i)"
  by (induction "is" arbitrary: prev) (auto simp: nth_list_update)

lemma sl_links_init: "sl_links (SkipList_init any) []"
  by (auto simp: sl_links_def SkipList_init_def high_def Node_Next_def node_height_def kMaxHeight_def)

lemma NewNode_facts:
  assumes "NewNode key h s = (q, s0)"
  shows "q = length (sl_nodes s)" "node_height s0 z = (if z = q then h else node_height s z)"
    "key_at s0 q = key" "z < q \<Longrightarrow> key_at s0 z = key_at s z" "z \<noteq> q \<Longrightarrow> Node_Next s0 z i = Node_Next s z i"
    "sl_max_height s0 = sl_max_height s" "sl_rnd s0 = sl_rnd s"
  using assms by (auto simp: NewNode_def node_height_def key_at_def Node_Next_def nth_append)

lemma node_height_less: "0 < node_height s z \<Longrightarrow> z < length (sl_nodes s)"
  by (auto simp: node_height_def split: if_splits)

text \<open>The nodes of a list are linked into every level below the height of the new one.\<close>

lemma link_new_node:
  assumes links: "sl_links s as" and h: "1 \<le> h" "h \<le> kMaxHeight" and new: "NewNode key h s = (q, s0)"
    and max: "h \<le> sl_max_height s" and as: "as = ps @ qs"
    and prev: "\<forall>i < h. prev ! i = Some (last (0 # high s i ps))"
  shows "\<exists>s'. link_loop prev q [0..<h] s0 = Some s' \<and> sl_links s' (ps @ q # qs) \<and> key_at s' q = key \<and>
    (\<forall>a \<in> set as. key_at s' a = key_at s a) \<and> sl_rnd s' = sl_rnd s"
proof -
  note f = NewNode_facts [OF new]
  have less: "a < q" if "a \<in> set (0 # as)" for a
    using links that node_height_less [of s a] f(1) by (auto simp: sl_links_def kMaxHeight_def)
  then have q: "q \<notin> set (0 # ps @ qs)" using as by auto
  have hs: "node_height s0 a = node_height s a" if "a \<in> set (0 # as)" for a using f(2) less [OF that] by auto
  have high: "high s0 i ps = high s i ps" "high s0 i qs = high s i qs" for i
    unfolding high_def using hs as by (auto intro!: filter_cong)
  have d: "distinct (0 # ps @ qs)" and h0: "node_height s0 0 = kMaxHeight" "node_height s0 q = h"
    using links as hs [of 0] f(2) by (auto simp: sl_links_def)
  have "linked_upto s0 ps q qs 0 s0"
  proof -
    have "path s0 j 0 (high s j as)" if "j < kMaxHeight" for j
    proof -
      have "path s j 0 (high s j as)" using links that by (simp add: sl_links_def)
      moreover have "Node_Next s0 y j = Node_Next s y j" if "y \<in> set (0 # high s j as)" for y
        using f(5) less [of y] that by (auto simp: high_def)
      ultimately show ?thesis using path_cong [of 0 "high s j as" s0 j s] by blast
    qed
    then show ?thesis unfolding linked_upto_def high as by (simp add: high_def)
  qed
  then obtain s' where s': "link_loop prev q [0..<h] s0 = Some s'" "linked_upto s0 ps q qs h s'"
    using link_loop_on [of h s0 q prev ps qs 0 s0] h h0 prev d q unfolding high by auto
  have hn: "node_height s' z = node_height s0 z" "key_at s' z = key_at s0 z" for z using s'(2) by (simp_all add: linked_upto_def)
  have "high s' j (ps @ q # qs) = high s0 j ps @ (if j < h then [q] else []) @ high s0 j qs" for j
    using hn(1) h0(2) by (simp add: high_def)
  then have "sl_links s' (ps @ q # qs)"
    using s'(2) links d q h0 hn hs max h as f(6) by (auto simp: sl_links_def linked_upto_def)
  moreover have "key_at s' q = key" "\<forall>a \<in> set as. key_at s' a = key_at s a"
    using hn(2) f(3,4) less by auto
  ultimately show ?thesis using s' f(7) by (auto simp: linked_upto_def)
qed

lemma dropWhile_not: "sorted_wrt (\<lambda>a b. P b \<longrightarrow> P a) xs \<Longrightarrow> a \<in> set (dropWhile P xs) \<Longrightarrow> \<not> P a"
  by (induction xs) (auto split: if_splits)

section \<open>The order\<close>

text \<open>Two entries of a memtable may compare equal without being equal: the order is only a strict one.\<close>

locale key_order =
  fixes cmp :: "'k \<Rightarrow> 'k \<Rightarrow> int" and valid :: "'k \<Rightarrow> bool"
  assumes cmp_swap: "valid a \<Longrightarrow> valid b \<Longrightarrow> cmp a b < 0 \<longleftrightarrow> 0 < cmp b a"
    and cmp_less_trans: "valid a \<Longrightarrow> valid b \<Longrightarrow> valid c \<Longrightarrow> cmp a b < 0 \<Longrightarrow> cmp b c < 0 \<Longrightarrow> cmp a c < 0"

sublocale comparator \<subseteq> ordered: key_order cmp valid
  by unfold_locales (rule cmp_sym, assumption+, rule cmp_trans)

context key_order
begin

text \<open>The skip list \<open>s\<close> holds the keys \<open>ks\<close>, in ascending order.\<close>

definition sl_holds :: "'k SkipList \<Rightarrow> nat list \<Rightarrow> bool" where
  "sl_holds s as \<longleftrightarrow> sl_links s as \<and> sorted_wrt (\<lambda>a b. cmp (key_at s a) (key_at s b) < 0) as \<and>
     (\<forall>a \<in> set as. valid (key_at s a))"

definition before :: "'k SkipList \<Rightarrow> 'k \<Rightarrow> nat \<Rightarrow> bool" where
  "before s key a \<longleftrightarrow> cmp (key_at s a) key < 0"

lemma before_mono:
  assumes "sl_holds s as" "valid key"
  shows "sorted_wrt (\<lambda>a b. before s key b \<longrightarrow> before s key a) as"
proof -
  have "before s key a" if "cmp (key_at s a) (key_at s b) < 0" "a \<in> set as" "b \<in> set as" "before s key b" for a b
    using cmp_less_trans [of "key_at s a" "key_at s b" key] that assms by (auto simp: before_def sl_holds_def)
  moreover have "sorted_wrt (\<lambda>a b. cmp (key_at s a) (key_at s b) < 0) as" using assms(1) by (simp add: sl_holds_def)
  ultimately show ?thesis by (metis (no_types, lifting) sorted_wrt_mono_rel)
qed

definition first_from :: "'k SkipList \<Rightarrow> 'k \<Rightarrow> nat list \<Rightarrow> nat option" where
  "first_from s key as = (case dropWhile (before s key) as of [] \<Rightarrow> None | a # _ \<Rightarrow> Some a)"

lemma FindGreaterOrEqual_on:
  assumes "sl_holds s as" "valid key"
  shows "\<exists>prev. FindGreaterOrEqual cmp key s = Some (first_from s key as, prev) \<and> length prev = kMaxHeight \<and>
    (\<forall>i < sl_max_height s. \<exists>z. prev ! i = Some z \<and> last_in s as (before s key) i z)"
proof -
  have l: "sl_links s as" using assms(1) by (simp add: sl_holds_def)
  then have h: "sl_max_height s - 1 < node_height s 0" "sl_max_height s \<le> kMaxHeight" by (auto simp: sl_links_def)
  have go: "KeyIsAfterNode cmp s key None = False" "\<And>a. KeyIsAfterNode cmp s key (Some a) = before s key a"
    by (simp_all add: KeyIsAfterNode_def before_def)
  obtain y prev where r: "search_loop (KeyIsAfterNode cmp s key) s 0 (sl_max_height s - 1) (replicate kMaxHeight None) =
      Some (y, first_from s key as, prev)" "length prev = kMaxHeight"
    "\<forall>i. i \<le> sl_max_height s - 1 \<longrightarrow> i < kMaxHeight \<longrightarrow> (\<exists>z. prev ! i = Some z \<and> last_in s as (before s key) i z)"
    using search_loop_on [where go = "KeyIsAfterNode cmp s key" and us = "[]" and x = 0 and vs = as and level = "sl_max_height s - 1" and prev = "replicate kMaxHeight None",
      OF l go before_mono [OF assms]] h unfolding first_from_def by auto
  have "\<exists>z. prev ! i = Some z \<and> last_in s as (before s key) i z" if "i < sl_max_height s" for i
    using r(3) that h by auto
  then show ?thesis using r(1,2) by (simp add: FindGreaterOrEqual_def)
qed

lemma SkipList_Insert_on:
  assumes holds: "sl_holds s as" and key: "valid key" "\<forall>a \<in> set as. cmp key (key_at s a) \<noteq> 0"
  shows "\<exists>s' q. SkipList_Insert cmp key s = Some s' \<and>
    sl_holds s' (takeWhile (before s key) as @ q # dropWhile (before s key) as) \<and> key_at s' q = key \<and>
    (\<forall>a \<in> set as. key_at s' a = key_at s a)"
proof -
  let ?ps = "takeWhile (before s key) as" and ?qs = "dropWhile (before s key) as"
  obtain x prev where find: "FindGreaterOrEqual cmp key s = Some (x, prev)" "length prev = kMaxHeight"
    "\<forall>i < sl_max_height s. \<exists>z. prev ! i = Some z \<and> last_in s as (before s key) i z" and x: "x = first_from s key as"
    using FindGreaterOrEqual_on [OF holds key(1)] by blast
  have new: "\<not> (case x of None \<Rightarrow> False | Some y \<Rightarrow> cmp key (key_at s y) = 0)"
    unfolding x first_from_def using key(2) set_dropWhileD [of _ "before s key" as] by (auto split: list.splits)
  obtain h rnd where h: "RandomHeight (sl_rnd s) = (h, rnd)" by (cases "RandomHeight (sl_rnd s)")
  note hb = RandomHeight_bounds [OF h]
  have links: "sl_links s as" using holds by (simp add: sl_holds_def)
  obtain prev1 s1 where r: "raise_height h prev (s\<lparr>sl_rnd := rnd\<rparr>) = (prev1, s1)" by (cases "raise_height h prev (s\<lparr>sl_rnd := rnd\<rparr>)")
  have s1: "sl_nodes s1 = sl_nodes s" "sl_max_height s1 = max h (sl_max_height s)"
    using r by (auto simp: raise_height_def split: if_splits)
  then have same: "node_height s1 = node_height s" "key_at s1 = key_at s" "Node_Next s1 = Node_Next s"
    by (auto simp: node_height_def key_at_def Node_Next_def fun_eq_iff)
  have links1: "sl_links s1 as"
  proof -
    have "path s1 i x zs = path s i x zs" for i x zs by (rule path_cong) (simp add: same)
    with links s1(2) hb show ?thesis by (auto simp: sl_links_def same high_def)
  qed
  have prev1: "prev1 ! i = Some (last (0 # high s1 i ?ps))" if i: "i < h" for i
  proof (cases "i < sl_max_height s")
    case True
    then have "prev1 ! i = prev ! i" using r i hb find(2) by (auto simp: raise_height_def foldl_set_prev split: if_splits)
    with find(3) True last_in_high [of s as "before s key" i] show ?thesis by (auto simp: high_def same)
  next
    case False
    then have "prev1 ! i = Some 0" using r i hb find(2) by (auto simp: raise_height_def foldl_set_prev split: if_splits)
    moreover have "\<forall>a \<in> set as. \<not> i < node_height s a" using links False by (auto simp: sl_links_def)
    then have "high s1 i ?ps = []" by (auto simp: high_def same filter_empty_conv dest: set_takeWhileD)
    ultimately show ?thesis by simp
  qed
  obtain q s0 where q: "NewNode key h s1 = (q, s0)" by (cases "NewNode key h s1")
  have "as = ?ps @ ?qs" "h \<le> sl_max_height s1" using s1(2) by simp_all
  then obtain s' where s': "link_loop prev1 q [0..<h] s0 = Some s'" "sl_links s' (?ps @ q # ?qs)" "key_at s' q = key"
    "\<forall>a \<in> set as. key_at s' a = key_at s a"
    using link_new_node [OF links1 _ _ q, of ?ps ?qs prev1] hb prev1 unfolding same by blast
  have "SkipList_Insert cmp key s = Some s'"
    using find(1) new h r q s'(1) by (simp add: SkipList_Insert_def)
  moreover have "sl_holds s' (?ps @ q # ?qs)"
  proof -
    have keys: "valid (key_at s a)" if "a \<in> set as" for a using holds that by (simp add: sl_holds_def)
    have lt: "cmp (key_at s a) key < 0" if "a \<in> set ?ps" for a using set_takeWhileD [OF that] by (simp add: before_def)
    have gt: "cmp key (key_at s a) < 0" if a: "a \<in> set ?qs" for a
    proof -
      have "\<not> before s key a" using before_mono [OF holds key(1)] a by (rule dropWhile_not)
      moreover have "a \<in> set as" using a by (rule set_dropWhileD)
      ultimately show ?thesis using cmp_swap [OF keys [of a] key(1)] key(2) by (fastforce simp: before_def)
    qed
    have "sorted_wrt (\<lambda>a b. cmp (key_at s a) (key_at s b) < 0) (?ps @ ?qs)" using holds by (simp add: sl_holds_def)
    then have "sorted_wrt (\<lambda>a b. cmp (key_at s' a) (key_at s' b) < 0) (?ps @ ?qs)"
      by (rule sorted_wrt_mono_rel [rotated]) (use s'(4) in \<open>auto dest: set_takeWhileD set_dropWhileD\<close>)
    moreover have "cmp (key_at s' a) key < 0" if "a \<in> set ?ps" for a
      using lt [OF that] set_takeWhileD [OF that] s'(4) by simp
    moreover have "cmp key (key_at s' a) < 0" if "a \<in> set ?qs" for a
      using gt [OF that] set_dropWhileD [OF that] s'(4) by simp
    ultimately have "sorted_wrt (\<lambda>a b. cmp (key_at s' a) (key_at s' b) < 0) (?ps @ q # ?qs)"
      unfolding sorted_wrt_append by (simp add: s'(3))
    then show ?thesis using s' keys key(1) by (auto simp: sl_holds_def dest: set_takeWhileD set_dropWhileD)
  qed
  ultimately show ?thesis using s'(3,4) by blast
qed


lemma FindLessThan_on:
  assumes "sl_holds s as" "valid key"
  shows "FindLessThan cmp key s = Some (last (0 # takeWhile (before s key) as))"
proof -
  have l: "sl_links s as" using assms(1) by (simp add: sl_holds_def)
  then have h: "sl_max_height s - 1 < node_height s 0" by (auto simp: sl_links_def)
  define go where "go = (\<lambda>nx. \<not> (case nx of None \<Rightarrow> True | Some y \<Rightarrow> cmp (key_at s y) key \<ge> 0))"
  have go: "go None = False" "\<And>a. go (Some a) = before s key a" by (auto simp: go_def before_def)
  obtain y prev where r: "search_loop go s 0 (sl_max_height s - 1) [] = Some (y, first_from s key as, prev)"
    "last_in s as (before s key) 0 y"
    using search_loop_on [where us = "[]" and x = 0 and vs = as and level = "sl_max_height s - 1" and prev = "[]",
      OF l go before_mono [OF assms]] h unfolding first_from_def by auto
  have "high s 0 (takeWhile (before s key) as) = takeWhile (before s key) as"
    using l by (auto simp: high_def sl_links_def filter_id_conv dest: set_takeWhileD)
  with last_in_high [OF r(2)] r(1) show ?thesis by (simp add: FindLessThan_def go_def)
qed

lemma FindLast_on:
  assumes "sl_holds s as"
  shows "FindLast s = Some (last (0 # as))"
proof -
  have l: "sl_links s as" using assms(1) by (simp add: sl_holds_def)
  then have h: "sl_max_height s - 1 < node_height s 0" by (auto simp: sl_links_def)
  have m: "sorted_wrt (\<lambda>a b. True \<longrightarrow> True) as" by (induction as) auto
  obtain y nx prev where r: "search_loop (\<lambda>nx. nx \<noteq> None) s 0 (sl_max_height s - 1) [] = Some (y, nx, prev)"
    "last_in s as (\<lambda>_. True) 0 y"
    using search_loop_on [where go = "\<lambda>nx. nx \<noteq> None" and P = "\<lambda>_. True" and us = "[]" and x = 0 and vs = as
        and level = "sl_max_height s - 1" and prev = "[]", OF l _ _ m] h by auto
  have "high s 0 as = as" using l by (auto simp: high_def sl_links_def filter_id_conv)
  moreover have "takeWhile (\<lambda>_. True) as = as" by (simp add: takeWhile_eq_all_conv)
  ultimately have "y = last (0 # as)" using last_in_high [OF r(2)] by (simp only:)
  with r(1) show ?thesis by (simp add: FindLast_def)
qed

text \<open>The abstraction: the ascending list of the keys, and the iterator as a position in it.\<close>

definition sl_abs :: "'k SkipList \<Rightarrow> 'k list \<Rightarrow> bool" where
  "sl_abs s ks \<longleftrightarrow> (\<exists>as. sl_holds s as \<and> map (key_at s) as = ks)"

definition insert_key :: "'k \<Rightarrow> 'k list \<Rightarrow> 'k list" where
  "insert_key key ks = takeWhile (\<lambda>k. cmp k key < 0) ks @ key # dropWhile (\<lambda>k. cmp k key < 0) ks"

lemma sl_abs_sorted: "sl_abs s ks \<Longrightarrow> sorted_wrt (\<lambda>a b. cmp a b < 0) ks \<and> (\<forall>k \<in> set ks. valid k)"
  by (auto simp: sl_abs_def sl_holds_def sorted_wrt_map)

lemma sl_abs_init: "sl_abs (SkipList_init any) []"
  by (simp add: sl_abs_def sl_holds_def sl_links_init)

lemma SkipList_Insert_abs:
  assumes "sl_abs s ks" "valid key" "\<forall>k \<in> set ks. cmp key k \<noteq> 0"
  shows "\<exists>s'. SkipList_Insert cmp key s = Some s' \<and> sl_abs s' (insert_key key ks)"
proof -
  obtain as where as: "sl_holds s as" "map (key_at s) as = ks" using assms(1) by (auto simp: sl_abs_def)
  then have "\<forall>a \<in> set as. cmp key (key_at s a) \<noteq> 0" using assms(3) by auto
  then obtain s' q where s': "SkipList_Insert cmp key s = Some s'" "key_at s' q = key"
    "sl_holds s' (takeWhile (before s key) as @ q # dropWhile (before s key) as)" "\<forall>a \<in> set as. key_at s' a = key_at s a"
    using SkipList_Insert_on [OF as(1) assms(2)] by blast
  have eq: "map (key_at s') zs = map (key_at s) zs" if "set zs \<subseteq> set as" for zs using s'(4) that by auto
  have "before s key = (\<lambda>k. cmp k key < 0) \<circ> key_at s" by (auto simp: before_def)
  then have tw: "takeWhile (\<lambda>k. cmp k key < 0) ks = map (key_at s) (takeWhile (before s key) as)"
    and dw: "dropWhile (\<lambda>k. cmp k key < 0) ks = map (key_at s) (dropWhile (before s key) as)"
    unfolding as(2) [symmetric] takeWhile_map dropWhile_map by simp_all
  have sub: "set (takeWhile (before s key) as) \<subseteq> set as" "set (dropWhile (before s key) as) \<subseteq> set as"
    by (auto dest: set_takeWhileD set_dropWhileD)
  have "map (key_at s') (takeWhile (before s key) as @ q # dropWhile (before s key) as) = insert_key key ks"
    unfolding insert_key_def tw dw eq [OF sub(1), symmetric] eq [OF sub(2), symmetric] by (simp add: s'(2))
  with s' show ?thesis by (auto simp: sl_abs_def)
qed


definition it_at :: "nat list \<Rightarrow> nat \<Rightarrow> sl_iter" where
  "it_at as i = (if i < length as then Some (as ! i) else None)"

lemma first_from_at: "first_from s key as = it_at as (length (takeWhile (before s key) as))"
  unfolding first_from_def it_at_def dropWhile_eq_drop
  by (cases "drop (length (takeWhile (before s key) as)) as")
    (auto simp: nth_via_drop dest: arg_cong [of _ "_ # _" length])

lemma SLIter_Seek_on:
  "sl_holds s as \<Longrightarrow> valid key \<Longrightarrow>
   SLIter_Seek cmp s key = Some (it_at as (length (takeWhile (before s key) as)))"
  using FindGreaterOrEqual_on [of s as key] by (auto simp: SLIter_Seek_def first_from_at)

lemma level_0_path:
  assumes "sl_holds s as" "0 # as = us @ x # vs"
  shows "Node_Next s x 0 = Some (case vs of [] \<Rightarrow> None | a # _ \<Rightarrow> Some a)"
proof -
  have l: "sl_links s as" using assms(1) by (simp add: sl_holds_def)
  have "x \<in> set (0 # as)" unfolding assms(2) by simp
  then have "0 < node_height s x" using l by (auto simp: sl_links_def kMaxHeight_def)
  then have "path s 0 x (high s 0 vs)" by (rule sl_links_path [OF l assms(2)])
  moreover have "set vs \<subseteq> set as" using assms(2) by (cases us) auto
  then have "high s 0 vs = vs" using l by (auto simp: high_def sl_links_def filter_id_conv)
  ultimately show ?thesis using path_Next by fastforce
qed

lemma SLIter_SeekToFirst_on: "sl_holds s as \<Longrightarrow> SLIter_SeekToFirst s = Some (it_at as 0)"
  using level_0_path [of s as "[]" 0 as] by (cases as) (auto simp: SLIter_SeekToFirst_def it_at_def)

lemma SLIter_Next_on:
  assumes "sl_holds s as" "i < length as"
  shows "SLIter_Next s (it_at as i) = Some (it_at as (Suc i))"
proof -
  have "0 # as = (0 # take i as) @ as ! i # drop (Suc i) as"
    using assms(2) by (simp add: id_take_nth_drop [symmetric])
  from level_0_path [OF assms(1) this] assms(2) show ?thesis
    by (cases "drop (Suc i) as") (auto simp: SLIter_Next_def it_at_def nth_via_drop dest: arg_cong [of _ "_ # _" length])
qed

lemma sl_holds_not_head: "sl_holds s as \<Longrightarrow> a \<in> set as \<Longrightarrow> a \<noteq> 0"
  unfolding sl_holds_def sl_links_def by (metis distinct.simps(2))

lemma SLIter_SeekToLast_on:
  assumes "sl_holds s as"
  shows "SLIter_SeekToLast s = Some (it_at as (length as - 1))"
proof (cases "as = []")
  case False
  then show ?thesis
    using FindLast_on [OF assms] sl_holds_not_head [OF assms last_in_set [OF False]]
    by (simp add: SLIter_SeekToLast_def head_is_null_def it_at_def last_conv_nth)
qed (use FindLast_on [OF assms] in \<open>simp add: SLIter_SeekToLast_def head_is_null_def it_at_def\<close>)

lemma takeWhile_before_at:
  assumes "sl_holds s as" "i < length as"
  shows "takeWhile (before s (key_at s (as ! i))) as = take i as"
proof -
  have srt: "sorted_wrt (\<lambda>a b. cmp (key_at s a) (key_at s b) < 0) as" "\<forall>a \<in> set as. valid (key_at s a)"
    using assms(1) by (simp_all add: sl_holds_def)
  have "before s (key_at s (as ! i)) (as ! j)" if "j < i" for j
    using sorted_wrt_nth_less [OF srt(1) that assms(2)] by (simp add: before_def)
  moreover have "\<not> before s (key_at s (as ! i)) (as ! i)"
    using cmp_swap [of "key_at s (as ! i)" "key_at s (as ! i)"] srt(2) assms(2) by (auto simp: before_def)
  ultimately show ?thesis by (intro takeWhile_eq_take_P_nth [of i]) (use assms(2) in auto)
qed

lemma SLIter_Prev_on:
  assumes "sl_holds s as" "i < length as"
  shows "SLIter_Prev cmp s (it_at as i) = Some (if i = 0 then None else it_at as (i - 1))"
proof -
  have v: "valid (key_at s (as ! i))" using assms by (simp add: sl_holds_def)
  have f: "FindLessThan cmp (key_at s (as ! i)) s = Some (last (0 # take i as))"
    using FindLessThan_on [OF assms(1) v] takeWhile_before_at [OF assms] by simp
  show ?thesis
  proof (cases i)
    case (Suc j)
    then have "last (0 # take i as) = as ! j" using assms(2) by (simp add: take_Suc_conv_app_nth)
    moreover have "as ! j \<noteq> 0" using sl_holds_not_head [OF assms(1), of "as ! j"] Suc assms(2) by simp
    ultimately show ?thesis using f Suc assms(2) by (simp add: SLIter_Prev_def it_at_def head_is_null_def)
  qed (use f assms(2) in \<open>simp add: SLIter_Prev_def it_at_def head_is_null_def\<close>)
qed

text \<open>The keys from the position of an iterator on, at most \<open>n\<close> of them.\<close>

end

fun sl_scan :: "'k SkipList \<Rightarrow> nat \<Rightarrow> sl_iter \<Rightarrow> 'k list option" where
  "sl_scan s 0 it = Some []"
| "sl_scan s (Suc n) it =
     (if SLIter_Valid it
      then (case SLIter_Next s it of None \<Rightarrow> None | Some it' \<Rightarrow> map_option (\<lambda>ks. SLIter_key s it # ks) (sl_scan s n it'))
      else Some [])"

context key_order
begin

lemma sl_scan_on:
  assumes "sl_holds s as"
  shows "length as - i < n \<Longrightarrow> sl_scan s n (it_at as i) = Some (map (key_at s) (drop i as))"
proof (induction n arbitrary: i)
  case (Suc n)
  show ?case
  proof (cases "i < length as")
    case True
    have "length as - Suc i < n" using Suc.prems True by linarith
    note Suc.IH [OF this]
    with True SLIter_Next_on [OF assms True] show ?thesis
      by (simp add: SLIter_Valid_def SLIter_key_def it_at_def Cons_nth_drop_Suc [symmetric])
  qed (simp add: it_at_def SLIter_Valid_def)
qed simp

lemma sl_scan_abs:
  assumes "sl_abs s ks"
  shows "\<exists>it. SLIter_SeekToFirst s = Some it \<and> sl_scan s (Suc (length ks)) it = Some ks"
proof -
  obtain as where as: "sl_holds s as" "map (key_at s) as = ks" using assms by (auto simp: sl_abs_def)
  with SLIter_SeekToFirst_on [OF as(1)] sl_scan_on [OF as(1), of 0 "Suc (length ks)"] show ?thesis by auto
qed

lemma SLIter_Seek_abs:
  assumes "sl_abs s ks" "valid key"
  shows "\<exists>it. SLIter_Seek cmp s key = Some it \<and>
    (case dropWhile (\<lambda>k. cmp k key < 0) ks of [] \<Rightarrow> \<not> SLIter_Valid it | k # _ \<Rightarrow> SLIter_Valid it \<and> SLIter_key s it = k)"
proof -
  obtain as where as: "sl_holds s as" "map (key_at s) as = ks" using assms(1) by (auto simp: sl_abs_def)
  have "before s key = (\<lambda>k. cmp k key < 0) \<circ> key_at s" by (auto simp: before_def)
  then have dw: "dropWhile (\<lambda>k. cmp k key < 0) ks = map (key_at s) (dropWhile (before s key) as)"
    unfolding as(2) [symmetric] dropWhile_map by simp
  have "SLIter_Seek cmp s key = Some (first_from s key as)"
    using SLIter_Seek_on [OF as(1) assms(2)] by (simp add: first_from_at)
  then show ?thesis
    unfolding dw first_from_def
    by (cases "dropWhile (before s key) as")
      (simp_all add: SLIter_Valid_def SLIter_key_def del: dropWhile_eq_Nil_conv)
qed

end

text \<open>Inserting a list of keys, one after another.\<close>

fun SkipList_Inserts :: "('k \<Rightarrow> 'k \<Rightarrow> int) \<Rightarrow> 'k list \<Rightarrow> 'k SkipList \<Rightarrow> 'k SkipList option" where
  "SkipList_Inserts cmp [] s = Some s"
| "SkipList_Inserts cmp (k # ks) s =
     (case SkipList_Insert cmp k s of None \<Rightarrow> None | Some s \<Rightarrow> SkipList_Inserts cmp ks s)"

context comparator
begin

lemma SkipList_Contains_abs:
  assumes abs: "ordered.sl_abs s ks" and v: "valid key"
  shows "SkipList_Contains cmp key s = Some (key \<in> set ks)"
proof -
  obtain it where it: "SLIter_Seek cmp s key = Some it"
    "case dropWhile (\<lambda>k. cmp k key < 0) ks of [] \<Rightarrow> \<not> SLIter_Valid it | k # _ \<Rightarrow> SLIter_Valid it \<and> SLIter_key s it = k"
    using ordered.SLIter_Seek_abs [OF abs v] by blast
  have srt: "ascending ks" and vks: "\<forall>k \<in> set ks. valid k" using ordered.sl_abs_sorted [OF abs] by auto
  have c: "SkipList_Contains cmp key s = Some (case it of None \<Rightarrow> False | Some y \<Rightarrow> cmp key (key_at s y) = 0)"
    using it(1) by (auto simp: SkipList_Contains_def SLIter_Seek_def)
  have tw: "key \<notin> set (takeWhile (\<lambda>k. cmp k key < 0) ks)"
    using set_takeWhileD [of key "\<lambda>k. cmp k key < 0" ks] refl [OF v] by auto
  have "set ks = set (takeWhile (\<lambda>k. cmp k key < 0) ks) \<union> set (dropWhile (\<lambda>k. cmp k key < 0) ks)"
    by (metis set_append takeWhile_dropWhile_id)
  with tw have mem: "key \<in> set ks \<longleftrightarrow> key \<in> set (dropWhile (\<lambda>k. cmp k key < 0) ks)" by blast
  show ?thesis
  proof (cases "dropWhile (\<lambda>k. cmp k key < 0) ks")
    case Nil
    with it c mem show ?thesis by (simp add: SLIter_Valid_def del: dropWhile_eq_Nil_conv)
  next
    case (Cons k r)
    have "ascending (takeWhile (\<lambda>k. cmp k key < 0) ks @ k # r)" using srt Cons by (metis takeWhile_dropWhile_id)
    then have after: "\<forall>x \<in> set r. cmp k x < 0" by (simp add: sorted_wrt_append)
    have "\<not> cmp k key < 0" using Cons by (metis hd_dropWhile list.distinct(1) list.sel(1))
    then have "key \<notin> set r" using after by blast
    moreover have "valid k" using Cons vks by (metis list.set_intros(1) set_dropWhileD)
    ultimately have "key \<in> set ks \<longleftrightarrow> cmp key k = 0" using mem Cons cmp_eq [OF v] by auto
    with it Cons c show ?thesis by (auto simp: SLIter_Valid_def SLIter_key_def)
  qed
qed

lemma SkipList_Inserts_abs:
  assumes "ordered.sl_abs s xs" "distinct ks" "set ks \<inter> set xs = {}" "\<forall>k \<in> set ks. valid k"
  shows "\<exists>s' ys. SkipList_Inserts cmp ks s = Some s' \<and> ordered.sl_abs s' ys \<and> set ys = set xs \<union> set ks"
  using assms
proof (induction ks arbitrary: s xs)
  case (Cons k ks)
  have vx: "\<forall>x \<in> set xs. valid x" using ordered.sl_abs_sorted [OF Cons.prems(1)] by blast
  then have "\<forall>x \<in> set xs. cmp k x \<noteq> 0" using Cons.prems(3,4) by (auto simp: cmp_eq)
  then obtain s1 where s1: "SkipList_Insert cmp k s = Some s1" "ordered.sl_abs s1 (ordered.insert_key k xs)"
    using ordered.SkipList_Insert_abs [OF Cons.prems(1), of k] Cons.prems(4) by (meson list.set_intros(1))
  have set1: "set (ordered.insert_key k xs) = insert k (set xs)"
  proof -
    have "set (takeWhile P xs) \<union> set (dropWhile P xs) = set xs" for P by (metis set_append takeWhile_dropWhile_id)
    then show ?thesis by (auto simp: ordered.insert_key_def)
  qed
  have "set ks \<inter> set (ordered.insert_key k xs) = {}" unfolding set1 using Cons.prems(2,3) by auto
  then obtain s' ys where "SkipList_Inserts cmp ks s1 = Some s'" "ordered.sl_abs s' ys"
      "set ys = set (ordered.insert_key k xs) \<union> set ks"
    using Cons.IH [OF s1(2)] Cons.prems(2,4) by auto
  then show ?case using s1(1) set1 by auto
qed auto

lemma SkipList_Inserts_scan:
  assumes "distinct ks" "\<forall>k \<in> set ks. valid k"
  shows "\<exists>s it ys. SkipList_Inserts cmp ks (SkipList_init any) = Some s \<and> SLIter_SeekToFirst s = Some it \<and>
    sl_scan s (Suc (length ks)) it = Some ys \<and> set ys = set ks \<and> ascending ys \<and>
    (\<forall>k. valid k \<longrightarrow> SkipList_Contains cmp k s = Some (k \<in> set ks))"
proof -
  obtain s ys where s: "SkipList_Inserts cmp ks (SkipList_init any) = Some s" "ordered.sl_abs s ys" "set ys = set ks"
    using SkipList_Inserts_abs [OF ordered.sl_abs_init assms(1) _ assms(2), of any]
    by (metis inf_bot_right list.set(1) sup_bot_left)
  have asc: "ascending ys" "\<forall>k \<in> set ys. valid k" using ordered.sl_abs_sorted [OF s(2)] by auto
  then have len: "length ys = length ks"
    using ascending_distinct s(3) assms(1) by (metis distinct_card)
  obtain it where "SLIter_SeekToFirst s = Some it" "sl_scan s (Suc (length ks)) it = Some ys"
    using ordered.sl_scan_abs [OF s(2)] len by auto
  then show ?thesis using s asc SkipList_Contains_abs [OF s(2)] by auto
qed

end

end
