(* ===== verification/Lv_Memtable.thy ===== *)
theory Lv_Memtable
  imports Lv_Skiplist Lv_Status
begin

text \<open>
  The memtable and the write batch: \<open>db/memtable.cc\<close> and \<open>db/write_batch.cc\<close>. The table is the skip list over
  encoded entries; what is left of an entry behind a pointer into it is a byte list. In the context of
  \<open>user_order\<close> the memtable is shown to answer a lookup with the newest operation that its snapshot
  sees, and a batch to hand its operations to the memtable in order, with consecutive numbers.
\<close>

section \<open>The memtable\<close>

text \<open>An entry is not corrupted; for other bytes the pointer of the source would be \<open>NULL\<close>.\<close>

definition mem_GetLengthPrefixedSlice :: "slice \<Rightarrow> slice" where
  "mem_GetLengthPrefixedSlice p = (case GetVarint32Ptr p of None \<Rightarrow> [] | Some (len, q) \<Rightarrow> take (unat len) q)"

definition mem_cmp :: "(slice \<Rightarrow> slice \<Rightarrow> int) \<Rightarrow> slice \<Rightarrow> slice \<Rightarrow> int" where
  "mem_cmp ucmp aptr bptr =
     ikc_Compare ucmp (mem_GetLengthPrefixedSlice aptr) (mem_GetLengthPrefixedSlice bptr)"

definition EncodeKey :: "slice \<Rightarrow> slice" where
  "EncodeKey target = PutVarint32 [] (word_of_nat (length target)) @ target"

record MemTable =
  mt_refs :: int
  mt_table :: "slice SkipList"

definition MemTable_init :: MemTable where
  "MemTable_init = \<lparr>mt_refs = 0, mt_table = SkipList_init []\<rparr>"

definition MemTable_Ref :: "MemTable \<Rightarrow> MemTable" where
  "MemTable_Ref m = m\<lparr>mt_refs := mt_refs m + 1\<rparr>"

text \<open>\<open>Some None\<close>: the table was deleted. A count below 0 fails the assertion.\<close>

definition MemTable_Unref :: "MemTable \<Rightarrow> MemTable option option" where
  "MemTable_Unref m =
     (let m = m\<lparr>mt_refs := mt_refs m - 1\<rparr> in
      if mt_refs m < 0 then None else Some (if mt_refs m \<le> 0 then None else Some m))"

text \<open>The assertion fails for a key or value whose length needs more than 32 bits.\<close>

definition MemTable_Add ::
  "(slice \<Rightarrow> slice \<Rightarrow> int) \<Rightarrow> SequenceNumber \<Rightarrow> ValueType \<Rightarrow> slice \<Rightarrow> slice \<Rightarrow> MemTable \<Rightarrow> MemTable option"
where
  "MemTable_Add ucmp s type key v m =
     (let key_size = length key; val_size = length v; internal_key_size = key_size + 8;
          encoded_len = VarintLength (word_of_nat internal_key_size) + internal_key_size +
            VarintLength (word_of_nat val_size) + val_size;
          buf = EncodeVarint32 (word_of_nat internal_key_size) @ key @
            EncodeFixed64 (push_bit 8 s OR type_code type) @ EncodeVarint32 (word_of_nat val_size) @ v in
      if length buf \<noteq> encoded_len then None
      else map_option (\<lambda>t. m\<lparr>mt_table := t\<rparr>) (SkipList_Insert (mem_cmp ucmp) buf (mt_table m)))"

text \<open>\<open>Get\<close>: the result, \<open>*value\<close> and \<open>*s\<close>.\<close>

definition MemTable_Get ::
  "(slice \<Rightarrow> slice \<Rightarrow> int) \<Rightarrow> LookupKey \<Rightarrow> slice \<Rightarrow> Status \<Rightarrow> MemTable \<Rightarrow> (bool \<times> slice \<times> Status) option"
where
  "MemTable_Get ucmp k v s m =
     (case SLIter_Seek (mem_cmp ucmp) (mt_table m) (lk_memtable_key k) of
        None \<Rightarrow> None
      | Some it \<Rightarrow>
          if SLIter_Valid it then
            (case GetVarint32Ptr (SLIter_key (mt_table m) it) of
               None \<Rightarrow> None
             | Some (key_length, key_ptr) \<Rightarrow>
                 if ucmp (take (unat (key_length - 8)) key_ptr) (lk_user_key k) = 0 then
                   let tag = DecodeFixed64 (drop (unat (key_length - 8)) key_ptr) in
                   if tag AND 0xff = type_code kTypeValue
                   then Some (True, mem_GetLengthPrefixedSlice (drop (unat key_length) key_ptr), s)
                   else if tag AND 0xff = type_code kTypeDeletion then Some (True, v, NotFound [] [])
                   else Some (False, v, s)
                 else Some (False, v, s))
          else Some (False, v, s))"

text \<open>The iterator: the key and the value of an entry; the other operations are those of the skip list.\<close>

definition MTIter_Seek :: "(slice \<Rightarrow> slice \<Rightarrow> int) \<Rightarrow> MemTable \<Rightarrow> slice \<Rightarrow> sl_iter option" where
  "MTIter_Seek ucmp m k = SLIter_Seek (mem_cmp ucmp) (mt_table m) (EncodeKey k)"

definition MTIter_key :: "MemTable \<Rightarrow> sl_iter \<Rightarrow> slice" where
  "MTIter_key m it = mem_GetLengthPrefixedSlice (SLIter_key (mt_table m) it)"

definition MTIter_value :: "MemTable \<Rightarrow> sl_iter \<Rightarrow> slice" where
  "MTIter_value m it =
     (case GetVarint32Ptr (SLIter_key (mt_table m) it) of
        None \<Rightarrow> []
      | Some (len, p) \<Rightarrow> mem_GetLengthPrefixedSlice (drop (unat len) p))"

section \<open>Operations and what a snapshot sees\<close>

record operation =
  op_seq :: SequenceNumber
  op_type :: ValueType
  op_key :: slice
  op_value :: slice

text \<open>The newest operation on the user key \<open>u\<close> with a number up to \<open>s\<close>.\<close>

fun visible :: "slice \<Rightarrow> SequenceNumber \<Rightarrow> operation list \<Rightarrow> operation option" where
  "visible u s [] = None"
| "visible u s (op # ops) =
     (let r = visible u s ops in
      if op_key op = u \<and> op_seq op \<le> s \<and> (case r of None \<Rightarrow> True | Some op' \<Rightarrow> op_seq op' < op_seq op)
      then Some op else r)"

lemma visible_None: "visible u s ops = None \<longleftrightarrow> (\<forall>op \<in> set ops. \<not> (op_key op = u \<and> op_seq op \<le> s))"
  by (induction ops) (auto simp: Let_def split: option.splits)

lemma visible_Some:
  "visible u s ops = Some op \<Longrightarrow> op \<in> set ops \<and> op_key op = u \<and> op_seq op \<le> s \<and>
     (\<forall>op' \<in> set ops. op_key op' = u \<and> op_seq op' \<le> s \<longrightarrow> op_seq op' \<le> op_seq op)"
proof (induction ops arbitrary: op)
  case (Cons o1 ops)
  show ?case
  proof (cases "visible u s ops")
    case None
    with Cons.prems visible_None [of u s ops] show ?thesis by (auto split: if_splits)
  next
    case (Some r)
    with Cons show ?thesis by (fastforce simp: Let_def split: if_splits)
  qed
qed simp

text \<open>The bytes of an entry.\<close>

definition op_ikey :: "operation \<Rightarrow> slice" where
  "op_ikey op = op_key op @ EncodeFixed64 (PackSequenceAndType (op_seq op) (op_type op))"

definition op_entry :: "operation \<Rightarrow> slice" where
  "op_entry op = length_prefixed (op_ikey op) @ length_prefixed (op_value op)"

definition op_small :: "operation \<Rightarrow> bool" where
  "op_small op \<longleftrightarrow> op_seq op \<le> kMaxSequenceNumber \<and> length (op_key op) + 8 < 2 ^ 32 \<and> length (op_value op) < 2 ^ 32"

lemma mem_slice_prefixed: "length s < 2 ^ 32 \<Longrightarrow> mem_GetLengthPrefixedSlice (length_prefixed s @ r) = s"
  using GetVarint32_Encode [of "word_of_nat (length s)" "s @ r"] parses_len32 [of "length s"]
  by (simp add: mem_GetLengthPrefixedSlice_def length_prefixed_eq GetVarint32_def)

lemma length_op_ikey [simp]: "length (op_ikey op) = length (op_key op) + 8"
  by (simp add: op_ikey_def)

lemma EncodeVarint32_length: "n < 2 ^ 32 \<Longrightarrow> length (EncodeVarint32 (word_of_nat n)) = VarintLength (word_of_nat n)"
  by (simp add: EncodeVarint32_leb VarintLength_leb unat_of_nat)

lemma MemTable_Add_entry:
  assumes "op_small op"
  shows "MemTable_Add ucmp (op_seq op) (op_type op) (op_key op) (op_value op) m =
     map_option (\<lambda>t. m\<lparr>mt_table := t\<rparr>) (SkipList_Insert (mem_cmp ucmp) (op_entry op) (mt_table m))"
  using assms
  by (simp add: MemTable_Add_def op_entry_def op_ikey_def length_prefixed_eq PackSequenceAndType_def op_small_def
    EncodeVarint32_length [of "length (op_key op) + 8", simplified] EncodeVarint32_length [of "length (op_value op)"] Let_def)

lemma LookupKey_parts:
  assumes "length u + 8 < 2 ^ 32"
  shows "lk_memtable_key (LookupKey_init u s) = length_prefixed (u @ EncodeFixed64 (PackSequenceAndType s kTypeValue))"
    and "lk_user_key (LookupKey_init u s) = u" "lk_internal_key (LookupKey_init u s) = u @ EncodeFixed64 (PackSequenceAndType s kTypeValue)"
  by (simp_all add: LookupKey_init_def lk_memtable_key_def lk_user_key_def lk_internal_key_def length_prefixed_eq
    kValueTypeForSeek_def Let_def)

lemma op_entry_parse:
  assumes "op_small op"
  shows "GetVarint32Ptr (op_entry op) = Some (word_of_nat (length (op_key op) + 8), op_ikey op @ length_prefixed (op_value op))"
    and "unat (word_of_nat (length (op_key op) + 8) - 8 :: u32) = length (op_key op)"
    and "unat (word_of_nat (length (op_key op) + 8) :: u32) = length (op_key op) + 8"
proof -
  show "GetVarint32Ptr (op_entry op) = Some (word_of_nat (length (op_key op) + 8), op_ikey op @ length_prefixed (op_value op))"
    using GetVarint32_Encode [of "word_of_nat (length (op_ikey op))" "op_ikey op @ length_prefixed (op_value op)"]
    by (simp add: op_entry_def length_prefixed_eq [of "op_ikey op"] GetVarint32_def)
  show "unat (word_of_nat (length (op_key op) + 8) :: u32) = length (op_key op) + 8"
    using assms by (simp only: unat_of_nat) (simp add: op_small_def)
  have "(word_of_nat (length (op_key op) + 8) - 8 :: u32) = word_of_nat (length (op_key op))" by simp
  then show "unat (word_of_nat (length (op_key op) + 8) - 8 :: u32) = length (op_key op)"
    using assms by (simp only: unat_of_nat) (simp add: op_small_def)
qed

context user_order
begin

definition entry_valid :: "slice \<Rightarrow> bool" where
  "entry_valid e \<longleftrightarrow> (\<exists>ik r. e = length_prefixed ik @ r \<and> length ik < 2 ^ 32 \<and> internal_valid ik)"

lemma mem_cmp_internal:
  "length a < 2 ^ 32 \<Longrightarrow> length b < 2 ^ 32 \<Longrightarrow>
   mem_cmp ucmp (length_prefixed a @ r) (length_prefixed b @ q) = ikc_Compare ucmp a b"
  by (simp add: mem_cmp_def mem_slice_prefixed)

end

sublocale user_order \<subseteq> mem: key_order "mem_cmp ucmp" entry_valid
proof
  fix a b assume "entry_valid a" "entry_valid b"
  then show "mem_cmp ucmp a b < 0 \<longleftrightarrow> 0 < mem_cmp ucmp b a"
    by (auto simp: entry_valid_def mem_cmp_internal internal.cmp_sym)
next
  fix a b c assume "entry_valid a" "entry_valid b" "entry_valid c" "mem_cmp ucmp a b < 0" "mem_cmp ucmp b c < 0"
  then show "mem_cmp ucmp a c < 0"
    by (auto simp: entry_valid_def mem_cmp_internal intro: internal.cmp_trans)
qed

context user_order
begin

lemma op_entry_valid: "op_small op \<Longrightarrow> uvalid (op_key op) \<Longrightarrow> entry_valid (op_entry op)"
  unfolding entry_valid_def op_entry_def
  by (intro exI [of _ "op_ikey op"] exI conjI refl) (auto simp: op_small_def internal_valid_def op_ikey_def)

lemma target_valid:
  "length u + 8 < 2 ^ 32 \<Longrightarrow> uvalid u \<Longrightarrow> entry_valid (length_prefixed (u @ EncodeFixed64 n))"
  unfolding entry_valid_def
  by (intro exI [of _ "u @ EncodeFixed64 n"] exI [of _ "[]"] conjI) (auto simp: internal_valid_def)

lemma op_before_target:
  assumes "op_small op" "uvalid (op_key op)" "length u + 8 < 2 ^ 32" "uvalid u" "s \<le> kMaxSequenceNumber"
  shows "mem_cmp ucmp (op_entry op) (length_prefixed (u @ EncodeFixed64 (PackSequenceAndType s kTypeValue))) < 0 \<longleftrightarrow>
    ucmp (op_key op) u < 0 \<or> op_key op = u \<and> s < op_seq op"
proof -
  have "unat (type_code t) \<le> 1" for t by (cases t) (simp_all add: type_code_def)
  note this [of "op_type op"]
  moreover have "unat (type_code kTypeValue) = 1" by (simp add: type_code_def)
  ultimately show ?thesis
    using assms mem_cmp_internal [of "op_ikey op" "u @ EncodeFixed64 (PackSequenceAndType s kTypeValue)" "length_prefixed (op_value op)" "[]"]
    by (simp add: op_entry_def op_small_def internal_less internal_valid_def op_ikey_def word_less_nat_alt unat_Pack) linarith
qed

lemma op_before_op:
  assumes "op_small a" "op_small b" "uvalid (op_key a)" "uvalid (op_key b)"
  shows "mem_cmp ucmp (op_entry a) (op_entry b) < 0 \<Longrightarrow> ucmp (op_key a) (op_key b) < 0 \<or> op_key a = op_key b \<and> op_seq b \<le> op_seq a"
    and "op_key a \<noteq> op_key b \<or> op_seq a \<noteq> op_seq b \<Longrightarrow> mem_cmp ucmp (op_entry a) (op_entry b) \<noteq> 0"
proof -
  have t: "unat (type_code t) \<le> 1" for t by (cases t) (simp_all add: type_code_def)
  have cmp: "mem_cmp ucmp (op_entry a) (op_entry b) = ikc_Compare ucmp (op_ikey a) (op_ikey b)"
    using assms by (simp add: op_entry_def mem_cmp_internal op_small_def)
  have v: "internal_valid (op_ikey a)" "internal_valid (op_ikey b)" using assms by (simp_all add: internal_valid_def op_ikey_def)
  show "ucmp (op_key a) (op_key b) < 0 \<or> op_key a = op_key b \<and> op_seq b \<le> op_seq a" if "mem_cmp ucmp (op_entry a) (op_entry b) < 0"
    using that assms t [of "op_type a"] t [of "op_type b"] unfolding cmp internal_less [OF v]
    by (auto simp: op_ikey_def op_small_def word_less_nat_alt word_le_nat_alt unat_Pack)
  show "mem_cmp ucmp (op_entry a) (op_entry b) \<noteq> 0" if "op_key a \<noteq> op_key b \<or> op_seq a \<noteq> op_seq b"
  proof
    assume "mem_cmp ucmp (op_entry a) (op_entry b) = 0"
    then have "op_ikey a = op_ikey b" unfolding cmp internal_zero [OF v] .
    then have "op_key a = op_key b" "PackSequenceAndType (op_seq a) (op_type a) = PackSequenceAndType (op_seq b) (op_type b)"
      by (metis ExtractUserKey_app trailer_app op_ikey_def)+
    then have "op_seq a = op_seq b" using assms PackSequenceAndType_parts(1) unfolding op_small_def by metis
    with \<open>op_key a = op_key b\<close> that show False by blast
  qed
qed


text \<open>The memtable holds the operations \<open>ops\<close>: no two of them have the same key and number.\<close>

definition ops_ok :: "operation list \<Rightarrow> bool" where
  "ops_ok ops \<longleftrightarrow> (\<forall>op \<in> set ops. op_small op \<and> uvalid (op_key op)) \<and> distinct (map (\<lambda>op. (op_key op, op_seq op)) ops)"

definition mem_holds :: "MemTable \<Rightarrow> operation list \<Rightarrow> bool" where
  "mem_holds m ops \<longleftrightarrow> ops_ok ops \<and> (\<exists>ks. mem.sl_abs (mt_table m) ks \<and> set ks = op_entry ` set ops)"

lemma mem_holds_init: "mem_holds MemTable_init []"
  using mem.sl_abs_init [of "[]"] by (auto simp: mem_holds_def ops_ok_def MemTable_init_def)

lemma ops_ok_inj: "ops_ok ops \<Longrightarrow> a \<in> set ops \<Longrightarrow> b \<in> set ops \<Longrightarrow> op_key a = op_key b \<Longrightarrow> op_seq a = op_seq b \<Longrightarrow> a = b"
  by (auto simp: ops_ok_def distinct_map inj_on_def)

lemma MemTable_Add_holds:
  assumes "mem_holds m ops" "ops_ok (op # ops)"
  shows "\<exists>m'. MemTable_Add ucmp (op_seq op) (op_type op) (op_key op) (op_value op) m = Some m' \<and> mem_holds m' (op # ops)"
proof -
  obtain ks where ks: "mem.sl_abs (mt_table m) ks" "set ks = op_entry ` set ops"
    using assms(1) by (auto simp: mem_holds_def)
  have ok: "op_small op" "uvalid (op_key op)" "\<forall>o' \<in> set ops. op_small o' \<and> uvalid (op_key o') \<and>
      (op_key op \<noteq> op_key o' \<or> op_seq op \<noteq> op_seq o')"
    using assms(2) by (auto simp: ops_ok_def)
  then have "\<forall>k \<in> set ks. mem_cmp ucmp (op_entry op) k \<noteq> 0"
    unfolding ks(2) using op_before_op(2) by blast
  then obtain t where t: "SkipList_Insert (mem_cmp ucmp) (op_entry op) (mt_table m) = Some t"
    "mem.sl_abs t (mem.insert_key (op_entry op) ks)"
    using mem.SkipList_Insert_abs [OF ks(1) op_entry_valid [OF ok(1,2)]] by blast
  have "set (mem.insert_key (op_entry op) ks) = insert (op_entry op) (set ks)"
  proof -
    have "set (takeWhile P ks) \<union> set (dropWhile P ks) = set ks" for P
      by (metis set_append takeWhile_dropWhile_id)
    then show ?thesis by (auto simp: mem.insert_key_def)
  qed
  then have "mem_holds (m\<lparr>mt_table := t\<rparr>) (op # ops)"
    using t(2) ks(2) assms(2) by (auto simp: mem_holds_def)
  then show ?thesis using t(1) by (simp add: MemTable_Add_entry [OF ok(1)])
qed

lemma MemTable_Get_entry:
  assumes "SLIter_Seek (mem_cmp ucmp) (mt_table m) (lk_memtable_key k) = Some it" "SLIter_Valid it"
    and "SLIter_key (mt_table m) it = op_entry op" "op_small op" "uvalid (op_key op)" "uvalid (lk_user_key k)"
  shows "MemTable_Get ucmp k v st m =
    Some (if op_key op = lk_user_key k
          then (case op_type op of kTypeValue \<Rightarrow> (True, op_value op, st) | kTypeDeletion \<Rightarrow> (True, v, NotFound [] []))
          else (False, v, st))"
proof -
  note p = op_entry_parse [OF assms(4)]
  have small: "op_seq op \<le> kMaxSequenceNumber" "length (op_value op) < 2 ^ 32" using assms(4) by (simp_all add: op_small_def)
  have key: "take (length (op_key op)) (op_ikey op @ r) = op_key op"
    and tag: "DecodeFixed64 (drop (length (op_key op)) (op_ikey op @ r)) = PackSequenceAndType (op_seq op) (op_type op)"
    and val: "drop (length (op_key op) + 8) (op_ikey op @ r) = r" for r
    by (simp_all add: op_ikey_def)
  have byte: "PackSequenceAndType (op_seq op) (op_type op) AND 0xff = type_code (op_type op)"
  proof -
    have "unat (PackSequenceAndType (op_seq op) (op_type op) AND 0xff) = unat (type_code (op_type op))"
      unfolding unat_and_ff unat_Pack [OF small(1)] by (cases "op_type op") (simp_all add: type_code_def)
    then show ?thesis by (rule word_unat_eq_iff [THEN iffD2])
  qed
  have codes: "type_code kTypeValue \<noteq> (type_code kTypeDeletion :: u64)" by (simp add: type_code_def)
  note vl = mem_slice_prefixed [OF small(2), of "[]", simplified]
  have eq: "ucmp (op_key op) (lk_user_key k) = 0 \<longleftrightarrow> op_key op = lk_user_key k"
    using assms(5,6) by (rule cmp_eq)
  have "MemTable_Get ucmp k v st m =
    (if ucmp (op_key op) (lk_user_key k) = 0
     then (if type_code (op_type op) = (type_code kTypeValue :: u64) then Some (True, op_value op, st)
           else if type_code (op_type op) = (type_code kTypeDeletion :: u64) then Some (True, v, NotFound [] [])
           else Some (False, v, st))
     else Some (False, v, st))"
    unfolding MemTable_Get_def assms(1) option.case if_P [OF assms(2)] assms(3) p(1) prod.case p(2,3) key tag val byte vl Let_def
    by simp
  also have "\<dots> = Some (if op_key op = lk_user_key k
          then (case op_type op of kTypeValue \<Rightarrow> (True, op_value op, st) | kTypeDeletion \<Rightarrow> (True, v, NotFound [] []))
          else (False, v, st))"
    unfolding eq using codes by (cases "op_type op") simp_all
  finally show ?thesis .
qed

lemma MemTable_Get_holds:
  assumes holds: "mem_holds m ops" and u: "uvalid u" "length u + 8 < 2 ^ 32" and s: "s \<le> kMaxSequenceNumber"
  shows "MemTable_Get ucmp (LookupKey_init u s) v st m =
    Some (case visible u s ops of
        None \<Rightarrow> (False, v, st)
      | Some op \<Rightarrow> (case op_type op of kTypeValue \<Rightarrow> (True, op_value op, st) | kTypeDeletion \<Rightarrow> (True, v, NotFound [] [])))"
proof -
  let ?t = "length_prefixed (u @ EncodeFixed64 (PackSequenceAndType s kTypeValue))"
  note lk = LookupKey_parts [OF u(2)]
  obtain ks where ok: "ops_ok ops" and ks: "mem.sl_abs (mt_table m) ks" "set ks = op_entry ` set ops"
    using holds by (auto simp: mem_holds_def)
  have each: "op_small op" "uvalid (op_key op)" if "op \<in> set ops" for op using ok that by (auto simp: ops_ok_def)
  have before: "mem_cmp ucmp (op_entry op) ?t < 0 \<longleftrightarrow> ucmp (op_key op) u < 0 \<or> op_key op = u \<and> s < op_seq op"
    if "op \<in> set ops" for op using op_before_target [OF each [OF that] u(2,1) s] .
  let ?P = "\<lambda>e. mem_cmp ucmp e ?t < 0"
  obtain it where it: "SLIter_Seek (mem_cmp ucmp) (mt_table m) ?t = Some it"
    "case dropWhile ?P ks of [] \<Rightarrow> \<not> SLIter_Valid it | k # _ \<Rightarrow> SLIter_Valid it \<and> SLIter_key (mt_table m) it = k"
    using mem.SLIter_Seek_abs [OF ks(1) target_valid [OF u(2,1)]] by blast
  show ?thesis
  proof (cases "dropWhile ?P ks")
    case Nil
    then have "\<forall>op \<in> set ops. ?P (op_entry op)" unfolding dropWhile_eq_Nil_conv ks(2) by blast
    then have "visible u s ops = None"
      unfolding visible_None using before refl [OF u(1)] by (metis less_irrefl not_less_iff_gr_or_eq leD)
    with it Nil show ?thesis by (simp add: MemTable_Get_def lk)
  next
    case (Cons e r)
    then have "e \<in> set ks" by (metis list.set_intros(1) set_dropWhileD)
    then obtain op where op: "op \<in> set ops" "e = op_entry op" using ks(2) by auto
    have first: "\<not> ?P e" using Cons by (metis hd_dropWhile list.distinct(1) list.sel(1))
    have "sorted_wrt (\<lambda>a b. mem_cmp ucmp a b < 0) (takeWhile ?P ks @ dropWhile ?P ks)"
      using mem.sl_abs_sorted [OF ks(1)] by simp
    then have srt: "sorted_wrt (\<lambda>a b. mem_cmp ucmp a b < 0) (e # r)" unfolding Cons sorted_wrt_append by blast
    have after: "o' = op \<or> ucmp (op_key op) (op_key o') < 0 \<or> op_key op = op_key o' \<and> op_seq o' \<le> op_seq op"
      if o': "o' \<in> set ops" "\<not> ?P (op_entry o')" for o'
    proof -
      have "op_entry o' \<in> set ks" using o'(1) ks(2) by blast
      then have "op_entry o' \<in> set (e # r)"
        using o'(2) Cons set_takeWhileD [of "op_entry o'" ?P ks] by (metis Un_iff set_append takeWhile_dropWhile_id)
      then consider "op_entry o' = op_entry op" | "mem_cmp ucmp (op_entry op) (op_entry o') < 0"
        using srt op(2) by auto
      then show ?thesis
      proof cases
        case 1
        have "mem_cmp ucmp (op_entry op) (op_entry op) = 0"
          using mem.cmp_swap [of "op_entry op" "op_entry op"] op_entry_valid [OF each [OF op(1)]] by linarith
        then have "op_key o' = op_key op \<and> op_seq o' = op_seq op"
          using op_before_op(2) [OF each(1) [OF o'(1)] each(1) [OF op(1)] each(2) [OF o'(1)] each(2) [OF op(1)]]
          unfolding 1 by blast
        then show ?thesis using ops_ok_inj [OF ok o'(1) op(1)] by blast
      next
        case 2
        then show ?thesis using op_before_op(1) each op(1) o'(1) by blast
      qed
    qed
    have get: "MemTable_Get ucmp (LookupKey_init u s) v st m =
      Some (if op_key op = u then (case op_type op of kTypeValue \<Rightarrow> (True, op_value op, st) | kTypeDeletion \<Rightarrow> (True, v, NotFound [] []))
          else (False, v, st))"
      using MemTable_Get_entry [of m "LookupKey_init u s" it op v st] it Cons op each [OF op(1)] u(1) by (simp add: lk)
    show ?thesis
    proof (cases "op_key op = u")
      case True
      then have seq: "op_seq op \<le> s" using first before [OF op(1)] op(2) by auto
      then obtain o' where o': "visible u s ops = Some o'"
        using True op(1) visible_None [of u s ops] by (cases "visible u s ops") auto
      note vis = visible_Some [OF o']
      then have "\<not> ?P (op_entry o')" using before [of o'] refl [OF u(1)] by auto
      then have "o' = op \<or> op_seq o' \<le> op_seq op" using after [of o'] vis True refl [OF u(1)] by auto
      moreover have "op_seq op \<le> op_seq o'" using vis op(1) True seq by blast
      ultimately have "o' = op" using ops_ok_inj [OF ok _ op(1), of o'] vis True by auto
      then show ?thesis using get o' True by simp
    next
      case False
      have "visible u s ops = None"
        unfolding visible_None
      proof (intro ballI notI)
        fix o' assume o': "o' \<in> set ops" "op_key o' = u \<and> op_seq o' \<le> s"
        then have "\<not> ?P (op_entry o')" using before [OF o'(1)] refl [OF u(1)] by auto
        then have "ucmp (op_key op) u < 0" using after [OF o'(1)] o'(2) False by auto
        then have "?P e" using before [OF op(1)] op(2) by simp
        with first show False by blast
      qed
      then show ?thesis using get False by simp
    qed
  qed
qed

end

end
