(* ===== verification/Lv_Write_Batch.thy ===== *)
theory Lv_Write_Batch
  imports Lv_Memtable
begin

text \<open>
  The write batch: \<open>db/write_batch.cc\<close>. A batch is the bytes of \<open>rep_\<close>; \<open>batch_holds\<close> relates them to the
  updates that were put into it. Iterating a batch hands the updates to the handler in order, and inserting it
  into a memtable gives them consecutive sequence numbers.
\<close>

definition kHeader :: nat where
  "kHeader = 12"

type_synonym WriteBatch = slice

definition wb_Clear :: WriteBatch where
  "wb_Clear = replicate kHeader 0"

text \<open>The handler's calls on its state \<open>'h\<close>; \<open>None\<close> when a call does not return.\<close>

record 'h Handler =
  handler_Put :: "slice \<Rightarrow> slice \<Rightarrow> 'h \<Rightarrow> 'h option"
  handler_Delete :: "slice \<Rightarrow> 'h \<Rightarrow> 'h option"

text \<open>The conversion of an \<open>unsigned\<close> to \<open>int\<close> keeps the 32 bits.\<close>

definition wbi_Count :: "WriteBatch \<Rightarrow> int" where
  "wbi_Count b = sint (DecodeFixed32 (drop 8 b))"

definition wbi_SetCount :: "int \<Rightarrow> WriteBatch \<Rightarrow> WriteBatch" where
  "wbi_SetCount n b = take 8 b @ EncodeFixed32 (word_of_int n) @ drop 12 b"

definition wbi_Sequence :: "WriteBatch \<Rightarrow> SequenceNumber" where
  "wbi_Sequence b = DecodeFixed64 b"

definition wbi_SetSequence :: "SequenceNumber \<Rightarrow> WriteBatch \<Rightarrow> WriteBatch" where
  "wbi_SetSequence s b = EncodeFixed64 s @ drop 8 b"

definition wb_Put :: "slice \<Rightarrow> slice \<Rightarrow> WriteBatch \<Rightarrow> WriteBatch" where
  "wb_Put key v b =
     (let b = wbi_SetCount (wbi_Count b + 1) b; b = b @ [ucast (type_code kTypeValue)] in
      PutLengthPrefixedSlice (PutLengthPrefixedSlice b key) v)"

definition wb_Delete :: "slice \<Rightarrow> WriteBatch \<Rightarrow> WriteBatch" where
  "wb_Delete key b =
     (let b = wbi_SetCount (wbi_Count b + 1) b; b = b @ [ucast (type_code kTypeDeletion)] in
      PutLengthPrefixedSlice b key)"

text \<open>One round of the loop, behind the tag: the rest of the input, or the early return.\<close>

definition wb_record :: "'h Handler \<Rightarrow> byte \<Rightarrow> slice \<Rightarrow> 'h \<Rightarrow> ((Status + slice) \<times> 'h) option" where
  "wb_record h tg input st =
     (if tg = ucast (type_code kTypeValue) then
        (case GetLengthPrefixedSlice input of
           (Some key, input) \<Rightarrow>
             (case GetLengthPrefixedSlice input of
                (Some v, input) \<Rightarrow> map_option (\<lambda>st. (Inr input, st)) (handler_Put h key v st)
              | (None, input) \<Rightarrow> Some (Inl (Corruption (str ''bad WriteBatch Put'') []), st))
         | (None, input) \<Rightarrow> Some (Inl (Corruption (str ''bad WriteBatch Put'') []), st))
      else if tg = ucast (type_code kTypeDeletion) then
        (case GetLengthPrefixedSlice input of
           (Some key, input) \<Rightarrow> map_option (\<lambda>st. (Inr input, st)) (handler_Delete h key st)
         | (None, input) \<Rightarrow> Some (Inl (Corruption (str ''bad WriteBatch Delete'') []), st))
      else Some (Inl (Corruption (str ''unknown WriteBatch tag'') []), st))"

lemma wb_record_shrinks: "wb_record h tg input st = Some (Inr rest, st') \<Longrightarrow> length rest < length input"
  by (auto simp: wb_record_def split: if_splits prod.splits option.splits dest!: GetLengthPrefixedSlice_shrinks)

function wb_Iterate_loop :: "'h Handler \<Rightarrow> slice \<Rightarrow> int \<Rightarrow> 'h \<Rightarrow> ((Status + int) \<times> 'h) option" where
  "wb_Iterate_loop h [] found st = Some (Inr found, st)"
| "wb_Iterate_loop h (tg # input) found st =
     (case wb_record h tg input st of
        None \<Rightarrow> None
      | Some (Inl e, st) \<Rightarrow> Some (Inl e, st)
      | Some (Inr input, st) \<Rightarrow> wb_Iterate_loop h input (found + 1) st)"
  by pat_completeness auto
termination
  by (relation "measure (\<lambda>(h, input, found, st). length input)") (auto dest!: wb_record_shrinks)

definition wb_Iterate :: "'h Handler \<Rightarrow> WriteBatch \<Rightarrow> 'h \<Rightarrow> (Status \<times> 'h) option" where
  "wb_Iterate h b st =
     (if length b < kHeader then Some (Corruption (str ''malformed WriteBatch (too small)'') [], st)
      else (case wb_Iterate_loop h (drop kHeader b) 0 st of
          None \<Rightarrow> None
        | Some (Inl e, st) \<Rightarrow> Some (e, st)
        | Some (Inr found, st) \<Rightarrow>
            if found \<noteq> wbi_Count b then Some (Corruption (str ''WriteBatch has wrong count'') [], st)
            else Some (OK, st)))"

record MemTableInserter =
  ins_sequence :: SequenceNumber
  ins_mem :: MemTable

definition Inserter_Put :: "(slice \<Rightarrow> slice \<Rightarrow> int) \<Rightarrow> slice \<Rightarrow> slice \<Rightarrow> MemTableInserter \<Rightarrow> MemTableInserter option" where
  "Inserter_Put ucmp key v i =
     map_option (\<lambda>m. i\<lparr>ins_mem := m, ins_sequence := ins_sequence i + 1\<rparr>)
       (MemTable_Add ucmp (ins_sequence i) kTypeValue key v (ins_mem i))"

definition Inserter_Delete :: "(slice \<Rightarrow> slice \<Rightarrow> int) \<Rightarrow> slice \<Rightarrow> MemTableInserter \<Rightarrow> MemTableInserter option" where
  "Inserter_Delete ucmp key i =
     map_option (\<lambda>m. i\<lparr>ins_mem := m, ins_sequence := ins_sequence i + 1\<rparr>)
       (MemTable_Add ucmp (ins_sequence i) kTypeDeletion key [] (ins_mem i))"

definition mem_inserter :: "(slice \<Rightarrow> slice \<Rightarrow> int) \<Rightarrow> MemTableInserter Handler" where
  "mem_inserter ucmp = \<lparr>handler_Put = Inserter_Put ucmp, handler_Delete = Inserter_Delete ucmp\<rparr>"

definition wbi_InsertInto :: "(slice \<Rightarrow> slice \<Rightarrow> int) \<Rightarrow> WriteBatch \<Rightarrow> MemTable \<Rightarrow> (Status \<times> MemTable) option" where
  "wbi_InsertInto ucmp b m =
     map_option (\<lambda>(s, i). (s, ins_mem i))
       (wb_Iterate (mem_inserter ucmp) b \<lparr>ins_sequence = wbi_Sequence b, ins_mem = m\<rparr>)"

definition wbi_SetContents :: "slice \<Rightarrow> WriteBatch option" where
  "wbi_SetContents c = (if kHeader \<le> length c then Some c else None)"

definition wbi_Append :: "WriteBatch \<Rightarrow> WriteBatch \<Rightarrow> WriteBatch option" where
  "wbi_Append dst src =
     (if kHeader \<le> length src then Some (wbi_SetCount (wbi_Count dst + wbi_Count src) dst @ drop kHeader src) else None)"

section \<open>The updates of a batch\<close>

datatype update = WPut slice slice | WDelete slice

fun wb_update :: "update \<Rightarrow> WriteBatch \<Rightarrow> WriteBatch" where
  "wb_update (WPut k v) = wb_Put k v"
| "wb_update (WDelete k) = wb_Delete k"

fun update_small :: "update \<Rightarrow> bool" where
  "update_small (WPut k v) \<longleftrightarrow> length k + 8 < 2 ^ 32 \<and> length v < 2 ^ 32"
| "update_small (WDelete k) \<longleftrightarrow> length k + 8 < 2 ^ 32"

fun update_bytes :: "update \<Rightarrow> slice" where
  "update_bytes (WPut k v) = 1 # length_prefixed k @ length_prefixed v"
| "update_bytes (WDelete k) = 0 # length_prefixed k"

fun handle :: "'h Handler \<Rightarrow> update list \<Rightarrow> 'h \<Rightarrow> 'h option" where
  "handle h [] st = Some st"
| "handle h (WPut k v # us) st = (case handler_Put h k v st of None \<Rightarrow> None | Some st \<Rightarrow> handle h us st)"
| "handle h (WDelete k # us) st = (case handler_Delete h k st of None \<Rightarrow> None | Some st \<Rightarrow> handle h us st)"

definition batch_holds :: "WriteBatch \<Rightarrow> SequenceNumber \<Rightarrow> update list \<Rightarrow> bool" where
  "batch_holds b s us \<longleftrightarrow>
     b = EncodeFixed64 s @ EncodeFixed32 (word_of_nat (length us)) @ concat (map update_bytes us)"

lemma type_bytes: "ucast (type_code kTypeValue) = (1 :: byte)" "ucast (type_code kTypeDeletion) = (0 :: byte)"
  by (simp_all add: type_code_def)

lemma batch_holds_Clear: "batch_holds wb_Clear 0 []"
proof -
  have "le_bytes n 0 = replicate n 0" for n by (induction n) simp_all
  then show ?thesis
    by (simp add: batch_holds_def wb_Clear_def kHeader_def EncodeFixed64_le EncodeFixed32_le replicate_add [symmetric])
qed

lemma batch_SetCount:
  "batch_holds b s us \<Longrightarrow>
   wbi_SetCount n b = EncodeFixed64 s @ EncodeFixed32 (word_of_int n) @ concat (map update_bytes us)"
  by (simp add: batch_holds_def wbi_SetCount_def)

lemma batch_Count_word: "batch_holds b s us \<Longrightarrow> word_of_int (wbi_Count b + k) = (word_of_nat (length us) + word_of_int k :: u32)"
  by (simp add: batch_holds_def wbi_Count_def)

lemma batch_holds_update:
  assumes "batch_holds b s us"
  shows "batch_holds (wb_update u b) s (us @ [u])"
  using batch_SetCount [OF assms] batch_Count_word [OF assms, of 1]
  by (cases u)
    (simp_all add: batch_holds_def wb_Put_def wb_Delete_def Let_def PutLengthPrefixedSlice_eq type_bytes add.commute)

lemma batch_holds_updates: "batch_holds b s us \<Longrightarrow> batch_holds (fold wb_update vs b) s (us @ vs)"
  by (induction vs arbitrary: b us) (force dest: batch_holds_update)+

lemma batch_holds_SetSequence: "batch_holds b s us \<Longrightarrow> batch_holds (wbi_SetSequence s' b) s' us"
  by (simp add: batch_holds_def wbi_SetSequence_def)

lemma batch_holds_Append:
  assumes "batch_holds b s us" "batch_holds c s' vs"
  shows "\<exists>bc. wbi_Append b c = Some bc \<and> batch_holds bc s (us @ vs)"
proof -
  have "word_of_int (wbi_Count b + wbi_Count c) = (word_of_nat (length (us @ vs)) :: u32)"
    using batch_Count_word [OF assms(1), of "wbi_Count c"] batch_Count_word [OF assms(2), of 0] by simp
  then show ?thesis
    using batch_SetCount [OF assms(1)] assms(2) by (simp add: batch_holds_def wbi_Append_def kHeader_def)
qed

lemma batch_Sequence: "batch_holds b s us \<Longrightarrow> wbi_Sequence b = s"
  by (simp add: batch_holds_def wbi_Sequence_def)

lemma batch_Count:
  assumes "batch_holds b s us" "length us < 2 ^ 31"
  shows "wbi_Count b = int (length us)"
proof -
  have "wbi_Count b = sint (word_of_nat (length us) :: u32)"
    using assms(1) by (simp add: batch_holds_def wbi_Count_def)
  also have "\<dots> = int (length us)"
    using assms(2) by (simp add: signed_of_nat signed_take_bit_int_eq_self)
  finally show ?thesis .
qed

lemma wb_Iterate_loop_updates:
  "\<forall>u \<in> set us. update_small u \<Longrightarrow>
   wb_Iterate_loop h (concat (map update_bytes us)) n st = map_option (\<lambda>st. (Inr (n + int (length us)), st)) (handle h us st)"
proof (induction us arbitrary: n st)
  case (Cons u us)
  then show ?case
    by (cases u) (auto simp: wb_record_def type_bytes add.assoc split: option.splits)
qed simp

lemma wb_Iterate_updates:
  assumes "batch_holds b s us" "\<forall>u \<in> set us. update_small u" "length us < 2 ^ 31"
  shows "wb_Iterate h b st = map_option (\<lambda>st. (OK, st)) (handle h us st)"
proof -
  have "drop kHeader b = concat (map update_bytes us)" "\<not> length b < kHeader"
    using assms(1) by (simp_all add: batch_holds_def kHeader_def)
  then show ?thesis
    using wb_Iterate_loop_updates [OF assms(2), of h 0 st] batch_Count [OF assms(1,3)]
    by (simp add: wb_Iterate_def option.map_comp split: option.splits)
qed

section \<open>Inserting a batch\<close>

fun update_op :: "SequenceNumber \<Rightarrow> update \<Rightarrow> operation" where
  "update_op s (WPut k v) = \<lparr>op_seq = s, op_type = kTypeValue, op_key = k, op_value = v\<rparr>"
| "update_op s (WDelete k) = \<lparr>op_seq = s, op_type = kTypeDeletion, op_key = k, op_value = []\<rparr>"

fun update_key :: "update \<Rightarrow> slice" where
  "update_key (WPut k v) = k"
| "update_key (WDelete k) = k"

text \<open>The operations of a batch, the newest first.\<close>

fun newest_ops :: "SequenceNumber \<Rightarrow> update list \<Rightarrow> operation list" where
  "newest_ops s [] = []"
| "newest_ops s (u # us) = newest_ops (s + 1) us @ [update_op s u]"

lemma update_op_simps [simp]: "op_seq (update_op s u) = s" "op_key (update_op s u) = update_key u"
  by (cases u; simp)+

lemma op_small_update: "update_small u \<Longrightarrow> s \<le> kMaxSequenceNumber \<Longrightarrow> op_small (update_op s u)"
  by (cases u) (simp_all add: op_small_def)

lemma newest_ops_seq:
  "unat s + length us \<le> 2 ^ 64 - 1 \<Longrightarrow> op \<in> set (newest_ops s us) \<Longrightarrow> unat s \<le> unat (op_seq op) \<and> unat (op_seq op) < unat s + length us"
proof (induction us arbitrary: s)
  case (Cons u us)
  then have n: "unat (s + 1) = unat s + 1" by (simp add: unat_word_ariths)
  from Cons.prems(2) consider "op \<in> set (newest_ops (s + 1) us)" | "op = update_op s u" by auto
  then show ?case
  proof cases
    case 1
    with Cons.IH [of "s + 1"] Cons.prems(1) n show ?thesis by simp
  qed simp
qed simp

lemma newest_ops_snoc: "newest_ops s (us @ [u]) = update_op (s + word_of_nat (length us)) u # newest_ops s us"
  by (induction us arbitrary: s) (simp_all add: add.assoc)

lemma newest_ops_append: "newest_ops s (us @ vs) = newest_ops (s + word_of_nat (length us)) vs @ newest_ops s us"
  by (induction us arbitrary: s) (simp_all add: add.assoc)

text \<open>A snapshot sees the updates up to its number; of those to one key, the last.\<close>

lemma visible_newest:
  assumes "unat s + length us \<le> 2 ^ 64 - 1"
  shows "case find (\<lambda>x. update_key x = u) (rev (take (unat t + 1 - unat s) us)) of
      None \<Rightarrow> visible u t (newest_ops s us) = None
    | Some x \<Rightarrow> \<exists>s'. visible u t (newest_ops s us) = Some (update_op s' x)"
  using assms
proof (induction us rule: rev_induct)
  case (snoc x us)
  have n: "unat (s + word_of_nat (length us)) = unat s + length us"
    using snoc.prems by (simp add: unat_word_ariths unat_of_nat)
  have newer: "op_seq op < s + word_of_nat (length us)" if "visible u t (newest_ops s us) = Some op" for op
    using visible_Some [OF that] newest_ops_seq [of s us op] snoc.prems n by (simp add: word_less_nat_alt)
  show ?case
  proof (cases "s + word_of_nat (length us) \<le> t")
    case True
    then have "length us < unat t + 1 - unat s" using n by (simp add: word_le_nat_alt)
    then have "take (unat t + 1 - unat s) (us @ [x]) = us @ [x]" "take (unat t + 1 - unat s) us = us" by simp_all
    with snoc newer True show ?thesis by (auto simp: newest_ops_snoc Let_def split: option.splits)
  next
    case False
    then have "unat t + 1 - unat s \<le> length us" using n by (simp add: word_le_nat_alt)
    then have same: "take (unat t + 1 - unat s) (us @ [x]) = take (unat t + 1 - unat s) us" by simp
    have vis: "visible u t (newest_ops s (us @ [x])) = visible u t (newest_ops s us)"
      using False by (simp add: newest_ops_snoc Let_def)
    show ?thesis unfolding same vis using snoc.prems by (intro snoc.IH) simp
  qed
qed simp

lemma Inserter_step:
  "(case u of WPut k v \<Rightarrow> handler_Put (mem_inserter ucmp) k v i | WDelete k \<Rightarrow> handler_Delete (mem_inserter ucmp) k i) =
     (let op = update_op (ins_sequence i) u in
      map_option (\<lambda>m. i\<lparr>ins_mem := m, ins_sequence := ins_sequence i + 1\<rparr>)
        (MemTable_Add ucmp (op_seq op) (op_type op) (op_key op) (op_value op) (ins_mem i)))"
  by (cases u) (simp_all add: mem_inserter_def Inserter_Put_def Inserter_Delete_def)

lemma handle_Cons:
  "handle h (u # us) st =
     (case (case u of WPut k v \<Rightarrow> handler_Put h k v st | WDelete k \<Rightarrow> handler_Delete h k st) of
        None \<Rightarrow> None | Some st \<Rightarrow> handle h us st)"
  by (cases u) simp_all

context user_order
begin

lemma handle_mem_inserter:
  assumes "mem_holds (ins_mem i) ops" "\<forall>u \<in> set us. update_small u \<and> uvalid (update_key u)"
    and "\<forall>op \<in> set ops. op_seq op < ins_sequence i"
    and "unat (ins_sequence i) + length us \<le> unat kMaxSequenceNumber + 1"
  shows "\<exists>i'. handle (mem_inserter ucmp) us i = Some i' \<and> mem_holds (ins_mem i') (newest_ops (ins_sequence i) us @ ops)"
  using assms
proof (induction us arbitrary: i ops)
  case (Cons u us)
  let ?s = "ins_sequence i"
  have max: "unat kMaxSequenceNumber = 2 ^ 56 - 1" by (simp add: kMaxSequenceNumber_def)
  have s: "?s \<le> kMaxSequenceNumber" using Cons.prems(4) by (simp add: word_le_nat_alt)
  have next_s: "unat (?s + 1) = unat ?s + 1" using Cons.prems(4) max by (simp add: unat_word_ariths)
  have "ops_ok ops" using Cons.prems(1) by (simp add: mem_holds_def)
  then have "ops_ok (update_op ?s u # ops)"
    using Cons.prems(2,3) s by (auto simp: ops_ok_def op_small_update)
  then obtain m where m: "MemTable_Add ucmp (op_seq (update_op ?s u)) (op_type (update_op ?s u)) (op_key (update_op ?s u))
      (op_value (update_op ?s u)) (ins_mem i) = Some m" "mem_holds m (update_op ?s u # ops)"
    using MemTable_Add_holds [OF Cons.prems(1)] by blast
  let ?i = "i\<lparr>ins_mem := m, ins_sequence := ?s + 1\<rparr>"
  have "\<exists>i'. handle (mem_inserter ucmp) us ?i = Some i' \<and>
      mem_holds (ins_mem i') (newest_ops (ins_sequence ?i) us @ update_op ?s u # ops)"
  proof (rule Cons.IH)
    show "mem_holds (ins_mem ?i) (update_op ?s u # ops)" using m(2) by simp
    show "\<forall>op \<in> set (update_op ?s u # ops). op_seq op < ins_sequence ?i"
      using Cons.prems(3) next_s by (auto simp: word_less_nat_alt)
  qed (use Cons.prems(2,4) next_s in auto)
  then show ?case
    using m(1) by (simp add: handle_Cons Inserter_step Let_def del: handle.simps)
qed auto

lemma wbi_InsertInto_holds:
  assumes "batch_holds b s us" "\<forall>u \<in> set us. update_small u \<and> uvalid (update_key u)" "length us < 2 ^ 31"
    and "mem_holds m ops" "\<forall>op \<in> set ops. op_seq op < s" "unat s + length us \<le> unat kMaxSequenceNumber + 1"
  shows "\<exists>m'. wbi_InsertInto ucmp b m = Some (OK, m') \<and> mem_holds m' (newest_ops s us @ ops)"
proof -
  obtain i' where i': "handle (mem_inserter ucmp) us \<lparr>ins_sequence = s, ins_mem = m\<rparr> = Some i'"
    "mem_holds (ins_mem i') (newest_ops s us @ ops)"
    using handle_mem_inserter [of "\<lparr>ins_sequence = s, ins_mem = m\<rparr>" ops us] assms(2,4-6) by auto
  have "wb_Iterate (mem_inserter ucmp) b \<lparr>ins_sequence = s, ins_mem = m\<rparr> = Some (OK, i')"
    using wb_Iterate_updates [OF assms(1) _ assms(3), of "mem_inserter ucmp"] assms(2) i'(1) by simp
  then show ?thesis
    using i'(2) batch_Sequence [OF assms(1)] by (auto simp: wbi_InsertInto_def)
qed

text \<open>A sequence of batches, each numbered behind the one before, as the database writes them.\<close>

end

fun write_batches ::
  "(slice \<Rightarrow> slice \<Rightarrow> int) \<Rightarrow> SequenceNumber \<Rightarrow> update list list \<Rightarrow> MemTable \<Rightarrow> (Status \<times> MemTable) option"
where
  "write_batches ucmp s [] m = Some (OK, m)"
| "write_batches ucmp s (us # uss) m =
     (case wbi_InsertInto ucmp (wbi_SetSequence s (fold wb_update us wb_Clear)) m of
        None \<Rightarrow> None
      | Some (st, m) \<Rightarrow> if ok st then write_batches ucmp (s + word_of_nat (length us)) uss m else Some (st, m))"

context user_order
begin

lemma write_batches_holds:
  assumes "\<forall>us \<in> set uss. length us < 2 ^ 31 \<and> (\<forall>u \<in> set us. update_small u \<and> uvalid (update_key u))"
    and "mem_holds m ops" "\<forall>op \<in> set ops. op_seq op < s" "unat s + length (concat uss) \<le> unat kMaxSequenceNumber + 1"
  shows "\<exists>m'. write_batches ucmp s uss m = Some (OK, m') \<and> mem_holds m' (newest_ops s (concat uss) @ ops)"
  using assms
proof (induction uss arbitrary: s m ops)
  case (Cons us uss)
  have max: "unat kMaxSequenceNumber = 2 ^ 56 - 1" by (simp add: kMaxSequenceNumber_def)
  have len: "unat (s + word_of_nat (length us)) = unat s + length us"
    using Cons.prems(4) max by (simp add: unat_word_ariths unat_of_nat)
  have "batch_holds (wbi_SetSequence s (fold wb_update us wb_Clear)) s us"
    using batch_holds_updates [OF batch_holds_Clear, of us] by (simp add: batch_holds_SetSequence)
  from wbi_InsertInto_holds [OF this _ _ Cons.prems(2,3)] Cons.prems(1,4)
  obtain m1 where m1: "wbi_InsertInto ucmp (wbi_SetSequence s (fold wb_update us wb_Clear)) m = Some (OK, m1)"
    "mem_holds m1 (newest_ops s us @ ops)"
    by auto
  have "op_seq op < s + word_of_nat (length us)" if "op \<in> set (newest_ops s us @ ops)" for op
    using that newest_ops_seq [of s us op] Cons.prems(3,4) max len by (force simp: word_less_nat_alt)
  with Cons.IH [of m1 "newest_ops s us @ ops" "s + word_of_nat (length us)"] m1 Cons.prems(1,4) len show ?case
    by (auto simp: newest_ops_append)
qed simp

lemma write_batches_Get:
  assumes "\<forall>us \<in> set uss. length us < 2 ^ 31 \<and> (\<forall>u \<in> set us. update_small u \<and> uvalid (update_key u))"
    and "unat s + length (concat uss) \<le> unat kMaxSequenceNumber + 1"
    and u: "uvalid u" "length u + 8 < 2 ^ 32" "t \<le> kMaxSequenceNumber"
  shows "\<exists>m. write_batches ucmp s uss MemTable_init = Some (OK, m) \<and>
    MemTable_Get ucmp (LookupKey_init u t) v st m =
      Some (case find (\<lambda>x. update_key x = u) (rev (take (unat t + 1 - unat s) (concat uss))) of
          None \<Rightarrow> (False, v, st)
        | Some (WPut k x) \<Rightarrow> (True, x, st)
        | Some (WDelete k) \<Rightarrow> (True, v, NotFound [] []))"
proof -
  have max: "unat kMaxSequenceNumber = 2 ^ 56 - 1" by (simp add: kMaxSequenceNumber_def)
  obtain m where m: "write_batches ucmp s uss MemTable_init = Some (OK, m)" "mem_holds m (newest_ops s (concat uss))"
    using write_batches_holds [OF assms(1) mem_holds_init _ assms(2)] by auto
  have "unat s + length (concat uss) \<le> 2 ^ 64 - 1" using assms(2) max by simp
  from visible_newest [OF this, of u t] MemTable_Get_holds [OF m(2) u, of v st] m(1) show ?thesis
    by (auto split: option.splits update.splits)
qed

end

end
