(* ===== verification/Lv_Data_Properties.thy ===== *)
theory Lv_Data_Properties
  imports Lv_Block Lv_Write_Batch
begin

text \<open>
  The properties of what leveldb keeps its data in: blocks of tables, the skip list, the memtable and the write
  batch, over the interpretations of their contracts on the bytewise comparator.
\<close>

section \<open>Blocks\<close>

lemma Compare_sorted: "sorted_wrt (\<lambda>a b. 0 < Compare b a) ks = sorted_wrt (\<lambda>a b. Compare a b < 0) ks"
  by (simp add: bytewise.cmp_sym)

text \<open> C26. Round trip of a block: entries of ascending keys, added to a block builder with a restart interval of at least
  1, pass its assertions, and they are what an iterator over the finished block yields, from first to last, as long as
  the block has less than 4 GiB. \<close>

theorem block_round_trip:
  assumes "kvs_small kvs" "1 \<le> ri" "sorted_wrt (\<lambda>a b. Compare a b < 0) (map fst kvs)"
  shows "\<exists>B. build_block Compare ri kvs = Some B \<and> (length B < 2 ^ 32 \<longrightarrow>
    (\<exists>it it'. Block_NewIterator (Block_init B) = BlockIterator it \<and> SeekToFirst it = Some it' \<and>
       scan (Suc (length kvs)) it' = Some kvs))"
  using built_block_scan [OF assms(1,2) refl] build_block_eq [OF assms(2)] assms(3) by (simp add: Compare_sorted)

definition three_kvs :: "(slice \<times> slice) list" where
  "three_kvs = [([1, 2], [10]), ([1, 2, 3], []), ([4], [11, 12])]"

lemma three_kvs_block:
  "kvs_small three_kvs" "sorted_wrt (\<lambda>a b. Compare a b < 0) (map fst three_kvs)"
  "build_block Compare 2 three_kvs = Some B \<Longrightarrow> length B < 2 ^ 32"
proof -
  show "kvs_small three_kvs" by (simp add: kvs_small_def three_kvs_def)
  show asc: "sorted_wrt (\<lambda>a b. Compare a b < 0) (map fst three_kvs)" by code_simp
  have len: "length (fst (BlockBuilder_Finish (AddAll 2 three_kvs new_builder))) = 28" by code_simp
  have eq: "build_block Compare 2 three_kvs = Some (fst (BlockBuilder_Finish (AddAll 2 three_kvs new_builder)))"
    by (rule build_block_eq) (simp, unfold Compare_sorted, rule asc)
  show "length B < 2 ^ 32" if "build_block Compare 2 three_kvs = Some B"
    using that unfolding eq option.inject by (rule subst) (unfold len, simp)
qed

theorem block_round_trip_witness:
  "\<exists>B it it'. build_block Compare 2 three_kvs = Some B \<and> Block_NewIterator (Block_init B) = BlockIterator it \<and>
     SeekToFirst it = Some it' \<and> scan 4 it' = Some three_kvs"
proof -
  have n: "Suc (length three_kvs) = 4" by (simp add: three_kvs_def)
  obtain B where B: "build_block Compare 2 three_kvs = Some B" "length B < 2 ^ 32 \<longrightarrow>
      (\<exists>it it'. Block_NewIterator (Block_init B) = BlockIterator it \<and> SeekToFirst it = Some it' \<and> scan 4 it' = Some three_kvs)"
    using block_round_trip [OF three_kvs_block(1) _ three_kvs_block(2), of 2] unfolding n by auto
  with three_kvs_block(3) [OF B(1)] show ?thesis by blast
qed

text \<open> C27. A seek in a block: when the keys ascend, the iterator stands at the first entry whose key is not below the
  target, and is not valid, without an error, when there is none. \<close>

theorem block_seek:
  assumes "kvs_small kvs" "1 \<le> ri" "sorted_wrt (\<lambda>a b. Compare a b < 0) (map fst kvs)"
  shows "\<exists>B. build_block Compare ri kvs = Some B \<and> (length B < 2 ^ 32 \<longrightarrow>
    (\<exists>it it'. Block_NewIterator (Block_init B) = BlockIterator it \<and> Seek Compare target it = Some it' \<and> bi_status it' = OK \<and>
      (case dropWhile (\<lambda>kv. Compare (fst kv) target < 0) kvs of
         [] \<Rightarrow> \<not> Valid it'
       | (k, x) # _ \<Rightarrow> Valid it' \<and> bi_key it' = k \<and> iter_value it' = Some x)))"
  using bytewise_block.built_block_Seek [OF assms(1,2) refl] build_block_eq [OF assms(2)] assms(3) by (simp add: Compare_sorted)

theorem block_seek_witness:
  "\<exists>B it it'. build_block Compare 2 three_kvs = Some B \<and> Block_NewIterator (Block_init B) = BlockIterator it \<and>
      Seek Compare [1, 2, 5] it = Some it' \<and> Valid it' \<and> bi_key it' = [4] \<and> iter_value it' = Some [11, 12]"
proof -
  have "dropWhile (\<lambda>kv. Compare (fst kv) [1, 2, 5] < 0) three_kvs = [([4], [11, 12])]" by code_simp
  then obtain B where B: "build_block Compare 2 three_kvs = Some B" "length B < 2 ^ 32 \<longrightarrow>
      (\<exists>it it'. Block_NewIterator (Block_init B) = BlockIterator it \<and> Seek Compare [1, 2, 5] it = Some it' \<and> Valid it' \<and>
         bi_key it' = [4] \<and> iter_value it' = Some [11, 12])"
    using block_seek [OF three_kvs_block(1) _ three_kvs_block(2), of 2 "[1, 2, 5]"] by auto
  with three_kvs_block(3) [OF B(1)] show ?thesis by blast
qed

text \<open> C31. A block that was not made by the builder: an entry that announces a key of \<open>2 ^ 32 - 1\<close> bytes and a value of
  one byte passes the check of \<open>DecodeEntry\<close>, since the sum of the lengths wraps around, and the iterator reads
  behind the end of the block. \<close>

theorem block_read_past_end:
  "\<exists>it. Block_NewIterator (Block_init ([0, 255, 255, 255, 255, 15, 1, 97] @ EncodeFixed32 0 @ EncodeFixed32 1)) =
     BlockIterator it \<and> SeekToFirst it = None"
proof -
  let ?d = "[0, 255, 255, 255, 255, 15, 1, 97] @ EncodeFixed32 0 @ EncodeFixed32 1"
  have "Block_NewIterator (Block_init ?d) = BlockIterator (Iter_init ?d 8 1)"
    using DecodeFixed32_Encode [of 1 "[]"] by (simp add: Block_NewIterator_def Block_init_def NumRestarts_def Let_def)
  then show ?thesis using ParseNextKey_undefined by (simp add: SeekToFirst_def)
qed

section \<open>Memtables\<close>

text \<open> C28. The skip list: keys inserted in any order, are found and others are not,
  and an iterator from the first node yields them in ascending order; no search runs forever. \<close>

theorem skip_list_sorted:
  assumes "distinct ks"
  shows "\<exists>s it ys. SkipList_Inserts Compare ks (SkipList_init any) = Some s \<and> SLIter_SeekToFirst s = Some it \<and>
    sl_scan s (Suc (length ks)) it = Some ys \<and> set ys = set ks \<and> sorted_wrt (\<lambda>a b. Compare a b < 0) ys \<and>
    (\<forall>k. SkipList_Contains Compare k s = Some (k \<in> set ks))"
  using bytewise.SkipList_Inserts_scan [OF assms] by simp

theorem skip_list_sorted_witness:
  "\<exists>s it ys. SkipList_Inserts Compare [[3], [1, 2], [1]] (SkipList_init []) = Some s \<and> SLIter_SeekToFirst s = Some it \<and>
    sl_scan s 4 it = Some ys \<and> set ys = {[3], [1, 2], [1]} \<and> sorted_wrt (\<lambda>a b. Compare a b < 0) ys \<and>
    (\<forall>k. SkipList_Contains Compare k s = Some (k \<in> {[3], [1, 2], [1]}))"
  using skip_list_sorted [of "[[3], [1, 2], [1]]" "[]"] by (simp add: numeral_eq_Suc)

text \<open> C29. Reading your writes: batches of updates, numbered one behind the other from \<open>s\<close> and inserted into an empty
  memtable, are all accepted; then a lookup with snapshot \<open>t\<close> finds the last update to its key among those
  with a number up to \<open>t\<close>, its value or that it was deleted, and nothing when there is none. \<close>

theorem memtable_reads_batches:
  assumes "\<forall>us \<in> set uss. length us < 2 ^ 31 \<and> (\<forall>u \<in> set us. update_small u)"
    and "unat s + length (concat uss) \<le> unat kMaxSequenceNumber + 1"
    and "length u + 8 < 2 ^ 32" "t \<le> kMaxSequenceNumber"
  shows "\<exists>m. write_batches Compare s uss MemTable_init = Some (OK, m) \<and>
    MemTable_Get Compare (LookupKey_init u t) v st m =
      Some (case find (\<lambda>x. update_key x = u) (rev (take (unat t + 1 - unat s) (concat uss))) of
          None \<Rightarrow> (False, v, st)
        | Some (WPut k x) \<Rightarrow> (True, x, st)
        | Some (WDelete k) \<Rightarrow> (True, v, NotFound [] []))"
  using bytewise.write_batches_Get [OF _ assms(2) _ assms(3,4)] assms(1) by simp

theorem memtable_reads_batches_witness:
  "\<exists>m. write_batches Compare 5 [[WPut [1] [7], WPut [2] [8]], [WDelete [1]]] MemTable_init = Some (OK, m) \<and>
    MemTable_Get Compare (LookupKey_init [1] 6) [] OK m = Some (True, [7], OK)"
proof -
  let ?uss = "[[WPut [1] [7], WPut [2] [8]], [WDelete [1]]]"
  have m: "unat kMaxSequenceNumber = 2 ^ 56 - 1" by (simp add: kMaxSequenceNumber_def)
  have f: "find (\<lambda>x. update_key x = [1]) (rev (take (unat (6 :: u64) + 1 - unat (5 :: u64)) (concat ?uss))) = Some (WPut [1] [7])"
    by simp
  have "\<forall>us \<in> set ?uss. length us < 2 ^ 31 \<and> (\<forall>u \<in> set us. update_small u)" by simp
  moreover have "unat (5 :: u64) + length (concat ?uss) \<le> unat kMaxSequenceNumber + 1" unfolding m by simp
  moreover have "(6 :: u64) \<le> kMaxSequenceNumber" unfolding word_le_nat_alt m by simp
  ultimately show ?thesis
    using memtable_reads_batches [of ?uss 5 "[1]" 6 "[]" OK] unfolding f option.case update.case by (simp del: write_batches.simps)
qed

text \<open> C30. Iterating a batch: the updates put into two batches that are appended are handed to any handler in
  order, whatever the handler does with them, and the count is found to be right. \<close>

theorem batch_iterate:
  assumes "\<forall>u \<in> set us \<union> set vs. update_small u" "length us + length vs < 2 ^ 31"
  shows "\<exists>b. wbi_Append (fold wb_update us wb_Clear) (fold wb_update vs wb_Clear) = Some b \<and>
    wb_Iterate h b st = map_option (\<lambda>st. (OK, st)) (handle h (us @ vs) st)"
proof -
  obtain b where b: "wbi_Append (fold wb_update us wb_Clear) (fold wb_update vs wb_Clear) = Some b"
      "batch_holds b 0 (us @ vs)"
    using batch_holds_Append [OF batch_holds_updates [OF batch_holds_Clear] batch_holds_updates [OF batch_holds_Clear]]
    by auto
  have "wb_Iterate h b st = map_option (\<lambda>st. (OK, st)) (handle h (us @ vs) st)"
    by (rule wb_Iterate_updates [OF b(2)]) (use assms in auto)
  with b(1) show ?thesis by blast
qed

theorem batch_iterate_witness:
  "\<exists>b. wbi_Append (fold wb_update [WPut [1] [2, 3]] wb_Clear) (fold wb_update [WDelete [1], WPut [] [5]] wb_Clear) = Some b \<and>
     wb_Iterate \<lparr>handler_Put = (\<lambda>k v n. Some (n + length v)), handler_Delete = (\<lambda>k n. Some (2 * n))\<rparr> b 0 =
     Some (OK, 5 :: nat)"
  using batch_iterate [of "[WPut [1] [2, 3]]" "[WDelete [1], WPut [] [5]]"
    "\<lparr>handler_Put = (\<lambda>k v n. Some (n + length v)), handler_Delete = (\<lambda>k n. Some (2 * n))\<rparr>" 0] by simp

end
