(* ===== verification/Lv_Cache.thy ===== *)
theory Lv_Cache
  imports Lv_Hash "HOL-Library.Monad_Syntax" "HOL-Library.Multiset"
begin

text \<open>
  The LRU cache: \<open>util/cache.cc\<close>. Handles are addresses; each pointer field of \<open>LRUHandle\<close> is a map from
  addresses, so that an update of one field leaves the others alone. A field that was not set, and every field
  of a freed handle, is \<open>None\<close>; reading it is undefined and so is the operation. The calls of the deleters are
  recorded. The locale \<open>cache\<close> is \<open>include/leveldb/cache.h\<close> as its clients use it.
\<close>

record 'v LRUHandle =
  h_value :: 'v
  h_charge :: u64
  h_key :: slice
  h_in_cache :: bool
  h_refs :: u32
  h_hash :: u32

record HandleTable =
  ht_length :: u32
  ht_elems :: u32
  ht_list :: "nat option list"

text \<open>The addresses of the two list heads are fixed; \<open>lc_fresh\<close> is where \<open>malloc\<close> goes on.\<close>

record 'v LRUCache =
  lc_capacity :: u64
  lc_usage :: u64
  lc_table :: HandleTable
  lc_handles :: "nat \<rightharpoonup> 'v LRUHandle"
  lc_next :: "nat \<rightharpoonup> nat"
  lc_prev :: "nat \<rightharpoonup> nat"
  lc_next_hash :: "nat \<rightharpoonup> nat option"
  lc_fresh :: nat
  lc_deleted :: "(slice \<times> 'v) list"

definition lru_head :: nat where "lru_head = 0"
definition in_use_head :: nat where "in_use_head = 1"

lemmas head_defs = lru_head_def in_use_head_def

definition handle_key :: "'v LRUCache \<Rightarrow> nat \<Rightarrow> slice option" where
  "handle_key c e = do { nx \<leftarrow> lc_next c e; h \<leftarrow> lc_handles c e; if nx = e then None else Some (h_key h) }"

section \<open>The hash table\<close>

datatype slot = Bucket nat | NextHash nat

fun read_slot :: "'v LRUCache \<Rightarrow> slot \<Rightarrow> nat option option" where
  "read_slot c (Bucket i) = (if i < length (ht_list (lc_table c)) then Some (ht_list (lc_table c) ! i) else None)"
| "read_slot c (NextHash e) = lc_next_hash c e"

fun write_slot :: "'v LRUCache \<Rightarrow> slot \<Rightarrow> nat option \<Rightarrow> 'v LRUCache" where
  "write_slot c (Bucket i) p = c\<lparr>lc_table := (lc_table c)\<lparr>ht_list := (ht_list (lc_table c))[i := p]\<rparr>\<rparr>"
| "write_slot c (NextHash e) p = c\<lparr>lc_next_hash := (lc_next_hash c)(e \<mapsto> p)\<rparr>"

definition bucket_of :: "u32 \<Rightarrow> u32 \<Rightarrow> nat" where
  "bucket_of len hash = unat (hash AND (len - 1))"

partial_function (option) FindPointer_loop :: "'v LRUCache \<Rightarrow> slice \<Rightarrow> u32 \<Rightarrow> slot \<Rightarrow> slot option" where
  "FindPointer_loop c key hash slt = do {
     p \<leftarrow> read_slot c slt;
     case p of
       None \<Rightarrow> Some slt
     | Some e \<Rightarrow> do {
         h \<leftarrow> lc_handles c e;
         if h_hash h \<noteq> hash then FindPointer_loop c key hash (NextHash e)
         else do {
           k \<leftarrow> handle_key c e;
           if key \<noteq> k then FindPointer_loop c key hash (NextHash e) else Some slt } } }"

definition FindPointer :: "'v LRUCache \<Rightarrow> slice \<Rightarrow> u32 \<Rightarrow> slot option" where
  "FindPointer c key hash = FindPointer_loop c key hash (Bucket (bucket_of (ht_length (lc_table c)) hash))"

text \<open>Doubling a length of 32 bits never gets above \<open>2 ^ 31\<close> elements: then the loop does not end.\<close>

partial_function (option) new_length :: "u32 \<Rightarrow> u32 \<Rightarrow> u32 option" where
  "new_length len elems = (if len < elems then new_length (len * 2) elems else Some len)"

partial_function (option) resize_chain ::
  "'v LRUCache \<Rightarrow> u32 \<Rightarrow> nat option list \<Rightarrow> u32 \<Rightarrow> nat option \<Rightarrow> ('v LRUCache \<times> nat option list \<times> u32) option"
where
  "resize_chain c len new_list cnt p =
     (case p of
        None \<Rightarrow> Some (c, new_list, cnt)
      | Some e \<Rightarrow> do {
          next_e \<leftarrow> lc_next_hash c e;
          h \<leftarrow> lc_handles c e;
          let i = bucket_of len (h_hash h);
          resize_chain (c\<lparr>lc_next_hash := (lc_next_hash c)(e \<mapsto> new_list ! i)\<rparr>) len (new_list[i := Some e]) (cnt + 1) next_e })"

fun resize_buckets ::
  "'v LRUCache \<Rightarrow> u32 \<Rightarrow> nat option list \<Rightarrow> u32 \<Rightarrow> nat option list \<Rightarrow> ('v LRUCache \<times> nat option list \<times> u32) option"
where
  "resize_buckets c len new_list cnt [] = Some (c, new_list, cnt)"
| "resize_buckets c len new_list cnt (p # ps) = do {
     (c, new_list, cnt) \<leftarrow> resize_chain c len new_list cnt p;
     resize_buckets c len new_list cnt ps }"

definition Resize :: "'v LRUCache \<Rightarrow> 'v LRUCache option" where
  "Resize c = do {
     let t = lc_table c;
     len \<leftarrow> new_length 4 (ht_elems t);
     (c, new_list, cnt) \<leftarrow> resize_buckets c len (replicate (unat len) None) 0 (take (unat (ht_length t)) (ht_list t));
     if ht_elems t \<noteq> cnt then None
     else Some (c\<lparr>lc_table := (lc_table c)\<lparr>ht_list := new_list, ht_length := len\<rparr>\<rparr>) }"

text \<open>The constructor resizes a table without buckets (\<open>Resize_empty\<close>).\<close>

definition HandleTable_init :: HandleTable where
  "HandleTable_init = \<lparr>ht_length = 4, ht_elems = 0, ht_list = replicate 4 None\<rparr>"

definition HandleTable_Lookup :: "'v LRUCache \<Rightarrow> slice \<Rightarrow> u32 \<Rightarrow> nat option option" where
  "HandleTable_Lookup c key hash = do { slt \<leftarrow> FindPointer c key hash; read_slot c slt }"

definition HandleTable_Insert :: "'v LRUCache \<Rightarrow> nat \<Rightarrow> (nat option \<times> 'v LRUCache) option" where
  "HandleTable_Insert c e = do {
     k \<leftarrow> handle_key c e;
     h \<leftarrow> lc_handles c e;
     slt \<leftarrow> FindPointer c k (h_hash h);
     old \<leftarrow> read_slot c slt;
     nh \<leftarrow> (case old of None \<Rightarrow> Some None | Some o' \<Rightarrow> lc_next_hash c o');
     let c = c\<lparr>lc_next_hash := (lc_next_hash c)(e \<mapsto> nh)\<rparr>;
     let c = write_slot c slt (Some e);
     if old = None then do {
       let c = c\<lparr>lc_table := (lc_table c)\<lparr>ht_elems := ht_elems (lc_table c) + 1\<rparr>\<rparr>;
       c \<leftarrow> (if ht_elems (lc_table c) > ht_length (lc_table c) then Resize c else Some c);
       Some (old, c) }
     else Some (old, c) }"

definition HandleTable_Remove :: "'v LRUCache \<Rightarrow> slice \<Rightarrow> u32 \<Rightarrow> (nat option \<times> 'v LRUCache) option" where
  "HandleTable_Remove c key hash = do {
     slt \<leftarrow> FindPointer c key hash;
     result \<leftarrow> read_slot c slt;
     case result of
       None \<Rightarrow> Some (None, c)
     | Some e \<Rightarrow> do {
         nh \<leftarrow> lc_next_hash c e;
         let c = write_slot c slt nh;
         Some (Some e, c\<lparr>lc_table := (lc_table c)\<lparr>ht_elems := ht_elems (lc_table c) - 1\<rparr>\<rparr>) } }"

section \<open>One shard\<close>

definition LRUCache_init :: "u64 \<Rightarrow> 'v LRUCache" where
  "LRUCache_init capacity = \<lparr>lc_capacity = capacity, lc_usage = 0, lc_table = HandleTable_init, lc_handles = Map.empty,
     lc_next = [lru_head \<mapsto> lru_head, in_use_head \<mapsto> in_use_head],
     lc_prev = [lru_head \<mapsto> lru_head, in_use_head \<mapsto> in_use_head],
     lc_next_hash = Map.empty, lc_fresh = 2, lc_deleted = []\<rparr>"

definition allocated :: "'v LRUCache \<Rightarrow> nat \<Rightarrow> bool" where
  "allocated c a \<longleftrightarrow> a = lru_head \<or> a = in_use_head \<or> a \<in> dom (lc_handles c)"

definition set_next :: "nat \<Rightarrow> nat \<Rightarrow> 'v LRUCache \<Rightarrow> 'v LRUCache option" where
  "set_next a b c = (if allocated c a then Some (c\<lparr>lc_next := (lc_next c)(a \<mapsto> b)\<rparr>) else None)"

definition set_prev :: "nat \<Rightarrow> nat \<Rightarrow> 'v LRUCache \<Rightarrow> 'v LRUCache option" where
  "set_prev a b c = (if allocated c a then Some (c\<lparr>lc_prev := (lc_prev c)(a \<mapsto> b)\<rparr>) else None)"

definition LRU_Remove :: "nat \<Rightarrow> 'v LRUCache \<Rightarrow> 'v LRUCache option" where
  "LRU_Remove e c = do {
     nx \<leftarrow> lc_next c e; pv \<leftarrow> lc_prev c e;
     c \<leftarrow> set_prev nx pv c;
     nx \<leftarrow> lc_next c e; pv \<leftarrow> lc_prev c e;
     set_next pv nx c }"

definition LRU_Append :: "nat \<Rightarrow> nat \<Rightarrow> 'v LRUCache \<Rightarrow> 'v LRUCache option" where
  "LRU_Append hd_list e c = do {
     c \<leftarrow> set_next e hd_list c;
     pv \<leftarrow> lc_prev c hd_list;
     c \<leftarrow> set_prev e pv c;
     pv \<leftarrow> lc_prev c e;
     c \<leftarrow> set_next pv e c;
     nx \<leftarrow> lc_next c e;
     set_prev nx e c }"

definition upd_handle :: "nat \<Rightarrow> ('v LRUHandle \<Rightarrow> 'v LRUHandle) \<Rightarrow> 'v LRUCache \<Rightarrow> 'v LRUCache option" where
  "upd_handle e f c = do { h \<leftarrow> lc_handles c e; Some (c\<lparr>lc_handles := (lc_handles c)(e \<mapsto> f h)\<rparr>) }"

definition free_handle :: "nat \<Rightarrow> 'v LRUCache \<Rightarrow> 'v LRUCache" where
  "free_handle e c = c\<lparr>lc_handles := (lc_handles c)(e := None), lc_next := (lc_next c)(e := None),
     lc_prev := (lc_prev c)(e := None), lc_next_hash := (lc_next_hash c)(e := None)\<rparr>"

definition LRU_Ref :: "nat \<Rightarrow> 'v LRUCache \<Rightarrow> 'v LRUCache option" where
  "LRU_Ref e c = do {
     h \<leftarrow> lc_handles c e;
     c \<leftarrow> (if h_refs h = 1 \<and> h_in_cache h then do { c \<leftarrow> LRU_Remove e c; LRU_Append in_use_head e c } else Some c);
     upd_handle e (\<lambda>h. h\<lparr>h_refs := h_refs h + 1\<rparr>) c }"

definition LRU_Unref :: "nat \<Rightarrow> 'v LRUCache \<Rightarrow> 'v LRUCache option" where
  "LRU_Unref e c = do {
     h \<leftarrow> lc_handles c e;
     if h_refs h = 0 then None
     else do {
       c \<leftarrow> upd_handle e (\<lambda>h. h\<lparr>h_refs := h_refs h - 1\<rparr>) c;
       if h_refs h - 1 = 0 then
         if h_in_cache h then None
         else do {
           k \<leftarrow> handle_key c e;
           Some (free_handle e (c\<lparr>lc_deleted := lc_deleted c @ [(k, h_value h)]\<rparr>)) }
       else if h_in_cache h \<and> h_refs h - 1 = 1 then do { c \<leftarrow> LRU_Remove e c; LRU_Append lru_head e c }
       else Some c } }"

definition FinishErase :: "nat option \<Rightarrow> 'v LRUCache \<Rightarrow> (bool \<times> 'v LRUCache) option" where
  "FinishErase p c =
     (case p of
        None \<Rightarrow> Some (False, c)
      | Some e \<Rightarrow> do {
          h \<leftarrow> lc_handles c e;
          if \<not> h_in_cache h then None
          else do {
            c \<leftarrow> LRU_Remove e c;
            c \<leftarrow> upd_handle e (\<lambda>h. h\<lparr>h_in_cache := False\<rparr>) c;
            c \<leftarrow> LRU_Unref e (c\<lparr>lc_usage := lc_usage c - h_charge h\<rparr>);
            Some (True, c) } })"

definition LRUCache_Lookup :: "slice \<Rightarrow> u32 \<Rightarrow> 'v LRUCache \<Rightarrow> (nat option \<times> 'v LRUCache) option" where
  "LRUCache_Lookup key hash c = do {
     r \<leftarrow> HandleTable_Lookup c key hash;
     case r of
       None \<Rightarrow> Some (None, c)
     | Some e \<Rightarrow> do { c \<leftarrow> LRU_Ref e c; Some (Some e, c) } }"

definition LRUCache_Release :: "nat \<Rightarrow> 'v LRUCache \<Rightarrow> 'v LRUCache option" where
  "LRUCache_Release e c = LRU_Unref e c"

text \<open>The oldest entry that is not in use is erased; the loops of \<open>Insert\<close> and \<open>Prune\<close>.\<close>

definition evict_oldest :: "'v LRUCache \<Rightarrow> 'v LRUCache option" where
  "evict_oldest c = do {
     old \<leftarrow> lc_next c lru_head;
     h \<leftarrow> lc_handles c old;
     if h_refs h \<noteq> 1 then None
     else do {
       k \<leftarrow> handle_key c old;
       (r, c) \<leftarrow> HandleTable_Remove c k (h_hash h);
       (erased, c) \<leftarrow> FinishErase r c;
       if erased then Some c else None } }"

partial_function (option) evict_loop :: "'v LRUCache \<Rightarrow> 'v LRUCache option" where
  "evict_loop c = do {
     nx \<leftarrow> lc_next c lru_head;
     if lc_usage c > lc_capacity c \<and> nx \<noteq> lru_head then do { c \<leftarrow> evict_oldest c; evict_loop c } else Some c }"

partial_function (option) LRUCache_Prune :: "'v LRUCache \<Rightarrow> 'v LRUCache option" where
  "LRUCache_Prune c = do {
     nx \<leftarrow> lc_next c lru_head;
     if nx \<noteq> lru_head then do { c \<leftarrow> evict_oldest c; LRUCache_Prune c } else Some c }"

definition LRUCache_Insert :: "slice \<Rightarrow> u32 \<Rightarrow> 'v \<Rightarrow> u64 \<Rightarrow> 'v LRUCache \<Rightarrow> (nat \<times> 'v LRUCache) option" where
  "LRUCache_Insert key hash v charge c = do {
     let e = lc_fresh c;
     let c = c\<lparr>lc_fresh := e + 1, lc_handles := (lc_handles c)(e \<mapsto>
        \<lparr>h_value = v, h_charge = charge, h_key = key, h_in_cache = False, h_refs = 1, h_hash = hash\<rparr>)\<rparr>;
     c \<leftarrow> (if lc_capacity c > 0 then do {
         c \<leftarrow> upd_handle e (\<lambda>h. h\<lparr>h_refs := h_refs h + 1, h_in_cache := True\<rparr>) c;
         c \<leftarrow> LRU_Append in_use_head e c;
         let c = c\<lparr>lc_usage := lc_usage c + charge\<rparr>;
         (old, c) \<leftarrow> HandleTable_Insert c e;
         (erased, c) \<leftarrow> FinishErase old c;
         Some c }
       else Some c);
     c \<leftarrow> evict_loop c;
     Some (e, c) }"

definition LRUCache_Erase :: "slice \<Rightarrow> u32 \<Rightarrow> 'v LRUCache \<Rightarrow> 'v LRUCache option" where
  "LRUCache_Erase key hash c = do {
     (r, c) \<leftarrow> HandleTable_Remove c key hash;
     (erased, c) \<leftarrow> FinishErase r c;
     Some c }"

text \<open>The destructor frees what is on the list of entries that are not in use.\<close>

partial_function (option) destroy_loop :: "nat \<Rightarrow> 'v LRUCache \<Rightarrow> 'v LRUCache option" where
  "destroy_loop e c =
     (if e = lru_head then Some c
      else do {
        next_e \<leftarrow> lc_next c e;
        h \<leftarrow> lc_handles c e;
        if \<not> h_in_cache h then None
        else do {
          c \<leftarrow> upd_handle e (\<lambda>h. h\<lparr>h_in_cache := False\<rparr>) c;
          if h_refs h \<noteq> 1 then None
          else do { c \<leftarrow> LRU_Unref e c; destroy_loop next_e c } } })"

definition LRUCache_destroy :: "'v LRUCache \<Rightarrow> 'v LRUCache option" where
  "LRUCache_destroy c = do {
     u \<leftarrow> lc_next c in_use_head;
     if u \<noteq> in_use_head then None
     else do { e \<leftarrow> lc_next c lru_head; destroy_loop e c } }"

section \<open>The sharded cache\<close>

definition kNumShardBits :: nat where "kNumShardBits = 4"
definition kNumShards :: nat where "kNumShards = 2 ^ kNumShardBits"

record 'v ShardedLRUCache =
  sc_shards :: "'v LRUCache list"
  sc_last_id :: u64

definition HashSlice :: "slice \<Rightarrow> u32" where
  "HashSlice s = Hash s 0"

definition Shard :: "u32 \<Rightarrow> nat" where
  "Shard hash = unat (drop_bit (32 - kNumShardBits) hash)"

definition ShardedLRUCache_init :: "u64 \<Rightarrow> 'v ShardedLRUCache" where
  "ShardedLRUCache_init capacity =
     (let per_shard = (capacity + (of_nat kNumShards - 1)) div of_nat kNumShards in
      \<lparr>sc_shards = replicate kNumShards (LRUCache_init per_shard), sc_last_id = 0\<rparr>)"

text \<open>A handle of the sharded cache: an address of one of the shards, which the hash in the handle identifies.\<close>

type_synonym cache_handle = "nat \<times> nat"

definition on_shard :: "nat \<Rightarrow> ('v LRUCache \<Rightarrow> ('r \<times> 'v LRUCache) option) \<Rightarrow> 'v ShardedLRUCache \<Rightarrow> ('r \<times> 'v ShardedLRUCache) option" where
  "on_shard s f c = do { (r, d) \<leftarrow> f (sc_shards c ! s); Some (r, c\<lparr>sc_shards := (sc_shards c)[s := d]\<rparr>) }"

definition Cache_Insert :: "slice \<Rightarrow> 'v \<Rightarrow> u64 \<Rightarrow> 'v ShardedLRUCache \<Rightarrow> (cache_handle \<times> 'v ShardedLRUCache) option" where
  "Cache_Insert key v charge c = (let hash = HashSlice key; s = Shard hash in
     on_shard s (\<lambda>d. map_option (\<lambda>(e, d). ((s, e), d)) (LRUCache_Insert key hash v charge d)) c)"

definition Cache_Lookup :: "slice \<Rightarrow> 'v ShardedLRUCache \<Rightarrow> (cache_handle option \<times> 'v ShardedLRUCache) option" where
  "Cache_Lookup key c = (let hash = HashSlice key; s = Shard hash in
     on_shard s (\<lambda>d. map_option (\<lambda>(r, d). (map_option (Pair s) r, d)) (LRUCache_Lookup key hash d)) c)"

definition Cache_Release :: "cache_handle \<Rightarrow> 'v ShardedLRUCache \<Rightarrow> 'v ShardedLRUCache option" where
  "Cache_Release h c = map_option snd (on_shard (fst h) (\<lambda>d. map_option (Pair ()) (LRUCache_Release (snd h) d)) c)"

definition Cache_Erase :: "slice \<Rightarrow> 'v ShardedLRUCache \<Rightarrow> 'v ShardedLRUCache option" where
  "Cache_Erase key c = (let hash = HashSlice key in
     map_option snd (on_shard (Shard hash) (\<lambda>d. map_option (Pair ()) (LRUCache_Erase key hash d)) c))"

definition Cache_Value :: "cache_handle \<Rightarrow> 'v ShardedLRUCache \<Rightarrow> 'v option" where
  "Cache_Value h c = map_option h_value (lc_handles (sc_shards c ! fst h) (snd h))"

definition Cache_NewId :: "'v ShardedLRUCache \<Rightarrow> u64 \<times> 'v ShardedLRUCache" where
  "Cache_NewId c = (let i = sc_last_id c + 1 in (i, c\<lparr>sc_last_id := i\<rparr>))"

definition Cache_TotalCharge :: "'v ShardedLRUCache \<Rightarrow> u64" where
  "Cache_TotalCharge c = sum_list (map lc_usage (sc_shards c))"

fun on_shards :: "('v LRUCache \<Rightarrow> 'v LRUCache option) \<Rightarrow> 'v LRUCache list \<Rightarrow> 'v LRUCache list option" where
  "on_shards f [] = Some []"
| "on_shards f (d # ds) = do { d \<leftarrow> f d; ds \<leftarrow> on_shards f ds; Some (d # ds) }"

definition Cache_Prune :: "'v ShardedLRUCache \<Rightarrow> 'v ShardedLRUCache option" where
  "Cache_Prune c = map_option (\<lambda>ds. c\<lparr>sc_shards := ds\<rparr>) (on_shards LRUCache_Prune (sc_shards c))"

definition Cache_destroy :: "'v ShardedLRUCache \<Rightarrow> 'v ShardedLRUCache option" where
  "Cache_destroy c = map_option (\<lambda>ds. c\<lparr>sc_shards := ds\<rparr>) (on_shards LRUCache_destroy (sc_shards c))"

section \<open>Chains of the hash table\<close>

fun chain :: "(nat \<rightharpoonup> nat option) \<Rightarrow> nat option \<Rightarrow> nat list \<Rightarrow> bool" where
  "chain nh p [] \<longleftrightarrow> p = None"
| "chain nh p (a # as) \<longleftrightarrow> p = Some a \<and> (\<exists>q. nh a = Some q \<and> chain nh q as)"

definition bchain :: "'v LRUCache \<Rightarrow> nat \<Rightarrow> nat list \<Rightarrow> bool" where
  "bchain c i as \<longleftrightarrow> i < length (ht_list (lc_table c)) \<and> chain (lc_next_hash c) (ht_list (lc_table c) ! i) as"

definition slot_at :: "nat \<Rightarrow> nat list \<Rightarrow> slot" where
  "slot_at i us = (if us = [] then Bucket i else NextHash (last us))"

definition first_of :: "nat list \<Rightarrow> nat option" where
  "first_of ws = (case ws of [] \<Rightarrow> None | a # _ \<Rightarrow> Some a)"

lemma first_of_simps [simp]: "first_of [] = None" "first_of (a # ws) = Some a"
  by (simp_all add: first_of_def)

lemma chain_cong: "chain nh p as \<Longrightarrow> \<forall>a \<in> set as. nh' a = nh a \<Longrightarrow> chain nh' p as"
  by (induction as arbitrary: p) auto

lemma chain_first: "chain nh p as \<Longrightarrow> p = first_of as"
  by (cases as) auto

lemma chain_self: "chain nh p as \<Longrightarrow> chain nh (first_of as) as"
  using chain_first by blast

lemma chain_append:
  "chain nh p (us @ ws) \<Longrightarrow> us \<noteq> [] \<Longrightarrow> nh (last us) = Some (first_of ws) \<and> chain nh (first_of ws) ws"
  by (induction us arbitrary: p) (auto dest: chain_first chain_self split: if_splits)

lemma chain_replace:
  "chain nh p (us @ ws) \<Longrightarrow> distinct us \<Longrightarrow> us \<noteq> [] \<Longrightarrow> chain (nh(last us \<mapsto> first_of zs)) (first_of zs) zs \<Longrightarrow>
   chain (nh(last us \<mapsto> first_of zs)) p (us @ zs)"
proof (induction us arbitrary: p)
  case (Cons a us)
  show ?case
  proof (cases "us = []")
    case False
    with Cons obtain q where "nh a = Some q" "chain nh q (us @ ws)" by auto
    moreover have "a \<noteq> last us" using Cons.prems(2) False by (metis distinct.simps(2) last_in_set)
    ultimately show ?thesis using Cons False by auto
  qed (use Cons in auto)
qed simp

lemma read_slot_at:
  assumes "bchain c i (us @ ws)"
  shows "read_slot c (slot_at i us) = Some (first_of ws)" and "chain (lc_next_hash c) (first_of ws) ws"
  using assms chain_append [of "lc_next_hash c" _ us ws] chain_first chain_self
  by (cases "us = []"; force simp: bchain_def slot_at_def)+

lemma write_slot_at:
  assumes "bchain c i (us @ ws)" "distinct us" "chain (lc_next_hash c) (first_of zs) zs" "set us \<inter> set zs = {}"
  shows "bchain (write_slot c (slot_at i us) (first_of zs)) i (us @ zs)"
proof (cases "us = []")
  case False
  then have "last us \<notin> set zs" using assms(4) last_in_set by blast
  then have "chain ((lc_next_hash c)(last us \<mapsto> first_of zs)) (first_of zs) zs"
    using assms(3) by (auto intro: chain_cong)
  from chain_replace [OF _ assms(2) False this, of "ht_list (lc_table c) ! i" ws] assms(1) False
  show ?thesis by (simp add: bchain_def slot_at_def)
qed (use assms in \<open>simp add: bchain_def slot_at_def\<close>)

lemma write_slot_other:
  "bchain c j bs \<Longrightarrow> j \<noteq> i \<Longrightarrow> set us \<inter> set bs = {} \<Longrightarrow> bchain (write_slot c (slot_at i us) p) j bs"
proof (cases "us = []")
  case False
  assume "bchain c j bs" "set us \<inter> set bs = {}"
  moreover from this(2) False have "last us \<notin> set bs" using last_in_set by blast
  ultimately show ?thesis using False by (auto simp: bchain_def slot_at_def intro!: chain_cong [of "lc_next_hash c"])
qed (simp add: bchain_def slot_at_def)

lemma write_slot_frame:
  "write_slot c slt p = c\<lparr>lc_table := lc_table (write_slot c slt p), lc_next_hash := lc_next_hash (write_slot c slt p)\<rparr>"
  "ht_length (lc_table (write_slot c slt p)) = ht_length (lc_table c)"
  "ht_elems (lc_table (write_slot c slt p)) = ht_elems (lc_table c)"
  "length (ht_list (lc_table (write_slot c slt p))) = length (ht_list (lc_table c))"
  by (cases slt; simp)+

text \<open>An entry of the table whose key can be read.\<close>

definition entry :: "'v LRUCache \<Rightarrow> nat \<Rightarrow> 'v LRUHandle \<Rightarrow> bool" where
  "entry c a h \<longleftrightarrow> lc_handles c a = Some h \<and> (\<exists>nx. lc_next c a = Some nx \<and> nx \<noteq> a)"

definition matches :: "'v LRUCache \<Rightarrow> slice \<Rightarrow> u32 \<Rightarrow> nat \<Rightarrow> bool" where
  "matches c key hash a \<longleftrightarrow> (case lc_handles c a of None \<Rightarrow> False | Some h \<Rightarrow> h_hash h = hash \<and> h_key h = key)"

lemma entry_key: "entry c a h \<Longrightarrow> handle_key c a = Some (h_key h)"
  by (auto simp: entry_def handle_key_def)

lemma FindPointer_loop_on:
  assumes "bchain c i (us @ ws)" "\<forall>a \<in> set ws. \<exists>h. entry c a h"
  shows "FindPointer_loop c key hash (slot_at i us) = Some (slot_at i (us @ takeWhile (\<lambda>a. \<not> matches c key hash a) ws))"
  using assms
proof (induction ws arbitrary: us)
  case Nil
  with read_slot_at [OF Nil.prems(1)] show ?case by (simp add: FindPointer_loop.simps)
next
  case (Cons a ws)
  obtain h where h: "entry c a h" using Cons.prems(2) by auto
  have next_slot: "slot_at i (us @ [a]) = NextHash a" by (simp add: slot_at_def)
  have IH: "FindPointer_loop c key hash (NextHash a) =
      Some (slot_at i (us @ a # takeWhile (\<lambda>a. \<not> matches c key hash a) ws))"
    using Cons.IH [of "us @ [a]"] Cons.prems by (simp add: next_slot)
  show ?case
    using IH read_slot_at(1) [OF Cons.prems(1)] h entry_key [OF h]
    by (auto simp: FindPointer_loop.simps [of c key hash "slot_at i us"] matches_def entry_def)
qed

text \<open>As many entries as the loop of \<open>Resize\<close> can make room for.\<close>

definition max_entries :: nat where "max_entries = 2 ^ 31"

definition table_ok :: "'v LRUCache \<Rightarrow> nat list list \<Rightarrow> bool" where
  "table_ok c bk \<longleftrightarrow> length bk = length (ht_list (lc_table c)) \<and> length bk < 2 ^ 32 \<and> ht_length (lc_table c) = of_nat (length bk) \<and>
     bk \<noteq> [] \<and> distinct (concat bk) \<and> ht_elems (lc_table c) = of_nat (length (concat bk)) \<and> length (concat bk) \<le> max_entries \<and>
     (\<forall>i < length bk. bchain c i (bk ! i) \<and>
        (\<forall>a \<in> set (bk ! i). \<exists>h. entry c a h \<and> bucket_of (of_nat (length bk)) (h_hash h) = i))"

lemma table_elems: "table_ok c bk \<Longrightarrow> unat (ht_elems (lc_table c)) = length (concat bk)"
  by (simp add: table_ok_def max_entries_def unat_of_nat del: length_concat)

lemma bucket_of_less:
  assumes "0 < n" "n < 2 ^ 32"
  shows "bucket_of (of_nat n) hash < n"
proof -
  have n: "unat (of_nat n :: u32) = n" using assms(2) by (simp add: unat_of_nat)
  then have "(of_nat n :: u32) \<noteq> 0" using assms(1) by (metis less_irrefl unsigned_0)
  then have "unat (of_nat n - 1 :: u32) = n - 1" using n by (simp add: unat_minus_one)
  moreover have "unat (hash AND (of_nat n - 1)) \<le> unat (of_nat n - 1 :: u32)"
    by (metis word_and_le2 word_le_nat_alt and.commute)
  ultimately show ?thesis using assms(1) by (simp add: bucket_of_def)
qed

text \<open>Where a search in the table ends: its bucket, split before the first match.\<close>

lemma FindPointer_on:
  assumes ok: "table_ok c bk"
  obtains i us ws where "i < length bk" "i = bucket_of (of_nat (length bk)) hash" "bk ! i = us @ ws"
    "FindPointer c key hash = Some (slot_at i us)" "bchain c i (us @ ws)" "\<forall>a \<in> set us. \<not> matches c key hash a"
    "\<forall>a as. ws = a # as \<longrightarrow> matches c key hash a"
    "ws = [] \<Longrightarrow> \<forall>a \<in> set (concat bk). \<not> matches c key hash a"
proof
  let ?i = "bucket_of (of_nat (length bk)) hash" and ?P = "\<lambda>a. \<not> matches c key hash a"
  have i: "?i < length bk" using ok bucket_of_less [of "length bk" hash] unfolding table_ok_def by blast
  show "?i < length bk" "?i = bucket_of (of_nat (length bk)) hash" by (rule i, rule refl)
  show split: "bk ! ?i = takeWhile ?P (bk ! ?i) @ dropWhile ?P (bk ! ?i)" by simp
  have b: "bchain c ?i (bk ! ?i)" "\<forall>a \<in> set (bk ! ?i). \<exists>h. entry c a h" using ok i unfolding table_ok_def by blast+
  then show "bchain c ?i (takeWhile ?P (bk ! ?i) @ dropWhile ?P (bk ! ?i))" by simp
  have "bchain c ?i ([] @ bk ! ?i)" using b(1) by simp
  from FindPointer_loop_on [OF this b(2), of key hash] ok
  show "FindPointer c key hash = Some (slot_at ?i (takeWhile ?P (bk ! ?i)))"
    by (simp add: FindPointer_def table_ok_def slot_at_def)
  show "\<forall>a \<in> set (takeWhile ?P (bk ! ?i)). ?P a" by (auto dest: set_takeWhileD)
  show "\<forall>a as. dropWhile ?P (bk ! ?i) = a # as \<longrightarrow> matches c key hash a"
    by (metis hd_dropWhile list.distinct(1) list.sel(1))
  assume none: "dropWhile ?P (bk ! ?i) = []"
  show "\<forall>a \<in> set (concat bk). ?P a"
  proof (intro ballI notI)
    fix a assume a: "a \<in> set (concat bk)" "matches c key hash a"
    then obtain j where j: "j < length bk" "a \<in> set (bk ! j)" by (metis (no_types, lifting) UN_E in_set_conv_nth set_concat)
    obtain h where "entry c a h" "bucket_of (of_nat (length bk)) (h_hash h) = j" using ok j unfolding table_ok_def by blast
    with a(2) have "j = ?i" by (auto simp: matches_def entry_def)
    with none j(2) a(2) show False unfolding dropWhile_eq_Nil_conv by blast
  qed
qed

lemma HandleTable_Lookup_on:
  assumes "table_ok c bk"
  shows "\<exists>r. HandleTable_Lookup c key hash = Some r \<and>
    (case r of None \<Rightarrow> \<forall>a \<in> set (concat bk). \<not> matches c key hash a | Some a \<Rightarrow> a \<in> set (concat bk) \<and> matches c key hash a)"
proof (rule FindPointer_on [OF assms, of hash key])
  fix i us ws assume w: "i < length bk" "bk ! i = us @ ws" "FindPointer c key hash = Some (slot_at i us)" "bchain c i (us @ ws)"
    "\<forall>a as. ws = a # as \<longrightarrow> matches c key hash a" "ws = [] \<Longrightarrow> \<forall>a \<in> set (concat bk). \<not> matches c key hash a"
  have r: "HandleTable_Lookup c key hash = Some (first_of ws)"
    using w(3) read_slot_at(1) [OF w(4)] by (simp add: HandleTable_Lookup_def)
  show ?thesis
  proof (cases ws)
    case (Cons a as)
    have "a \<in> set (concat bk)" using w(1,2) Cons by (metis UnI2 list.set_intros(1) nth_mem set_append UN_I set_concat)
    with r Cons w(5) show ?thesis by simp
  qed (use r w(6) in simp)
qed

lemma mset_concat_update:
  "j < length xss \<Longrightarrow> mset (concat (xss[j := ys])) + mset (xss ! j) = mset (concat xss) + mset ys"
  by (subst (3) id_take_nth_drop [of j xss]) (simp_all add: upd_conv_take_nth_drop)

lemma mset_same: "mset xs = mset ys \<Longrightarrow> distinct xs = distinct ys \<and> length xs = length ys \<and> set xs = set ys"
  by (metis mset_eq_imp_distinct_iff mset_eq_length mset_eq_setD)

lemma distinct_concat_update:
  assumes "distinct (concat xss)" "i < length xss" "distinct ys" "set ys \<inter> set (concat xss) \<subseteq> set (xss ! i)"
  shows "distinct (concat (xss[i := ys]))"
proof -
  obtain as x bs where x: "xss = as @ x # bs" "i = length as"
    using assms(2) id_take_nth_drop [OF assms(2)] by (metis length_take min.absorb2 less_imp_le)
  have c: "concat xss = concat as @ x @ concat bs" "concat (xss[i := ys]) = concat as @ ys @ concat bs" "xss ! i = x"
    using x by simp_all
  have "distinct (concat as @ x @ concat bs)" "set ys \<inter> (set (concat as) \<union> (set x \<union> set (concat bs))) \<subseteq> set x"
    using assms(1,4) unfolding c set_append by blast+
  then show ?thesis using assms(3) unfolding c distinct_append set_append by blast
qed

lemma disjoint_buckets:
  assumes "distinct (concat xss)" "i < length xss" "j < length xss" "i \<noteq> j"
  shows "set (xss ! i) \<inter> set (xss ! j) = {}"
proof -
  have *: "set (xss ! i) \<inter> set (xss ! j) = {}" if "i < j" "j < length xss" for i j
  proof -
    have "xss = take i xss @ xss ! i # drop (Suc i) xss" using that by (intro id_take_nth_drop) simp
    then have "set (xss ! i) \<inter> set (concat (drop (Suc i) xss)) = {}" using assms(1)
      by (metis (no_types, lifting) concat.simps(2) concat_append distinct_append)
    moreover have "xss ! j \<in> set (drop (Suc i) xss)"
      using that nth_mem [of "j - Suc i" "drop (Suc i) xss"] by simp
    ultimately show ?thesis by fastforce
  qed
  show ?thesis using * [of i j] * [of j i] assms(2-4) by (cases "i < j") auto
qed

lemma table_change:
  assumes ok: "table_ok c bk" and i: "i < length bk" "bk ! i = us @ ws"
    and zs: "chain (lc_next_hash c) (first_of zs) zs" "distinct (us @ zs)" "set zs \<inter> set (concat bk) \<subseteq> set ws"
    and new: "\<forall>a \<in> set zs. \<exists>h. entry c a h \<and> bucket_of (of_nat (length bk)) (h_hash h) = i"
    and d: "d = write_slot c (slot_at i us) (first_of zs)" "n = of_nat (length (concat (bk[i := us @ zs])))"
    and few: "length (concat (bk[i := us @ zs])) \<le> max_entries"
  shows "table_ok (d\<lparr>lc_table := (lc_table d)\<lparr>ht_elems := n\<rparr>\<rparr>) (bk[i := us @ zs])"
proof -
  have dist: "distinct (concat bk)" and bc: "\<forall>j < length bk. bchain c j (bk ! j)"
    and ent: "\<forall>j < length bk. \<forall>a \<in> set (bk ! j). \<exists>h. entry c a h \<and> bucket_of (of_nat (length bk)) (h_hash h) = j"
    using ok unfolding table_ok_def by blast+
  have f1: "distinct (concat (bk[i := us @ zs]))"
    using distinct_concat_update [OF dist i(1) zs(2)] zs(3) i(2) by auto
  have f2: "bchain d j (bk[i := us @ zs] ! j)" if j: "j < length bk" for j
  proof (cases "j = i")
    case True
    then show ?thesis
      using write_slot_at [of c i us ws zs] bc i zs(1,2) unfolding d(1) by auto
  next
    case False
    then have "set us \<inter> set (bk ! j) = {}" using disjoint_buckets [OF dist i(1) j] i(2) by auto
    then show ?thesis using False bc j unfolding d(1) by (simp add: write_slot_other)
  qed
  have f3: "\<exists>h. entry d a h \<and> bucket_of (of_nat (length bk)) (h_hash h) = j" if j: "j < length bk" "a \<in> set (bk[i := us @ zs] ! j)" for j a
  proof -
    have "entry d a h \<longleftrightarrow> entry c a h" for h
      unfolding d(1) by (subst write_slot_frame(1)) (simp add: entry_def)
    then show ?thesis using j ent new i by (cases "j = i") auto
  qed
  have f4: "length (ht_list (lc_table d)) = length bk" "ht_length (lc_table d) = of_nat (length bk)"
    using ok unfolding d(1) write_slot_frame(2-4) table_ok_def by (metis, metis)
  have e: "bchain (d\<lparr>lc_table := (lc_table d)\<lparr>ht_elems := n\<rparr>\<rparr>) = bchain d" "entry (d\<lparr>lc_table := (lc_table d)\<lparr>ht_elems := n\<rparr>\<rparr>) = entry d"
    by (intro ext, simp add: bchain_def entry_def)+
  have "bk \<noteq> []" "length bk < 2 ^ 32" using i(1) ok by (auto simp: table_ok_def)
  then show ?thesis
    unfolding table_ok_def e length_list_update using f1 f2 f3 f4 few by (simp add: d(2) del: length_concat)
qed

text \<open>What the operations of the table leave alone.\<close>

definition table_frame :: "'v LRUCache \<Rightarrow> 'v LRUCache \<Rightarrow> bool" where
  "table_frame c c' \<longleftrightarrow> lc_handles c' = lc_handles c \<and> lc_next c' = lc_next c \<and> lc_prev c' = lc_prev c \<and>
     lc_fresh c' = lc_fresh c \<and> lc_deleted c' = lc_deleted c \<and> lc_usage c' = lc_usage c \<and> lc_capacity c' = lc_capacity c"

lemma table_frame_refl: "table_frame c c"
  by (simp add: table_frame_def)

lemma concat_nth: "i < length xss \<Longrightarrow> set (xss ! i) \<subseteq> set (concat xss)"
  unfolding set_concat by (rule UN_upper) (rule nth_mem)

lemma table_frame_write: "table_frame c ((write_slot c slt p)\<lparr>lc_table := t\<rparr>)"
  by (cases slt) (simp_all add: table_frame_def)

lemma HandleTable_Remove_on:
  assumes ok: "table_ok c bk"
  shows "\<exists>r c' bk'. HandleTable_Remove c key hash = Some (r, c') \<and> table_ok c' bk' \<and> table_frame c c' \<and>
    (case r of None \<Rightarrow> c' = c \<and> bk' = bk \<and> (\<forall>a \<in> set (concat bk). \<not> matches c key hash a)
     | Some a \<Rightarrow> a \<in> set (concat bk) \<and> matches c key hash a \<and> set (concat bk') = set (concat bk) - {a})"
proof (rule FindPointer_on [OF ok, of hash key])
  fix i us ws assume w: "i < length bk" "bk ! i = us @ ws" "FindPointer c key hash = Some (slot_at i us)" "bchain c i (us @ ws)"
    "\<forall>a as. ws = a # as \<longrightarrow> matches c key hash a" "ws = [] \<Longrightarrow> \<forall>a \<in> set (concat bk). \<not> matches c key hash a"
  note rd = read_slot_at [OF w(4)]
  show ?thesis
  proof (cases ws)
    case Nil
    then have "HandleTable_Remove c key hash = Some (None, c)" using w(3) rd by (simp add: HandleTable_Remove_def)
    then show ?thesis using ok w(6) Nil table_frame_refl by (intro exI [of _ None] exI [of _ c] exI [of _ bk]) simp
  next
    case (Cons a as)
    have dist: "distinct (concat bk)" using ok by (simp add: table_ok_def)
    then have da: "distinct (us @ a # as)" using w(1,2) Cons by (metis distinct_concat_iff nth_mem)
    have chain_as: "lc_next_hash c a = Some (first_of as)" "chain (lc_next_hash c) (first_of as) as"
      using rd(2) Cons chain_self by (auto dest: chain_first)
    let ?d = "write_slot c (slot_at i us) (first_of as)"
    let ?n = "of_nat (length (concat (bk[i := us @ as]))) :: u32"
    have m: "mset (concat (bk[i := us @ as])) + {#a#} = mset (concat bk)"
      using mset_concat_update [OF w(1), of "us @ as"] w(2) Cons by (simp add: ac_simps)
    have sz: "length (concat bk) = Suc (length (concat (bk[i := us @ as])))" using arg_cong [OF m, of size] by (simp del: length_concat)
    then have n: "?n = ht_elems (lc_table c) - 1" using ok by (simp add: table_ok_def del: length_concat)
    have sa: "set (concat (bk[i := us @ as])) = set (concat bk) - {a}"
    proof -
      have "mset (concat bk) = mset (a # concat (bk[i := us @ as]))" using m by simp
      from mset_same [OF this] dist show ?thesis by (metis Diff_insert_absorb distinct.simps(2) list.simps(15))
    qed
    have in_bk: "a \<in> set (concat bk)" "set as \<subseteq> set (concat bk)"
      using concat_nth [OF w(1)] w(2) Cons by auto
    have t: "table_ok (?d\<lparr>lc_table := (lc_table ?d)\<lparr>ht_elems := ?n\<rparr>\<rparr>) (bk[i := us @ as])"
    proof (rule table_change [OF ok w(1,2) chain_as(2) _ _ _ refl refl])
      show "length (concat (bk[i := us @ as])) \<le> max_entries" using sz ok by (simp add: table_ok_def del: length_concat)
      show "distinct (us @ as)" using da by simp
      show "set as \<inter> set (concat bk) \<subseteq> set ws" using Cons by auto
      show "\<forall>x \<in> set as. \<exists>h. entry c x h \<and> bucket_of (of_nat (length bk)) (h_hash h) = i"
        using ok w(1,2) Cons unfolding table_ok_def by (metis Un_iff list.set_intros(2) set_append)
    qed
    have r: "HandleTable_Remove c key hash = Some (Some a, ?d\<lparr>lc_table := (lc_table ?d)\<lparr>ht_elems := ?n\<rparr>\<rparr>)"
      unfolding n using w(3) rd(1) Cons chain_as(1) by (simp add: HandleTable_Remove_def Let_def write_slot_frame(3))
    then show ?thesis using r t sa in_bk(1) w(5) Cons table_frame_write by (intro exI [of _ "Some a"] exI conjI) auto
  qed
qed

text \<open>Rebuilding the table: the new chains so far.\<close>

definition rebuilt :: "'v LRUCache \<Rightarrow> nat option list \<Rightarrow> nat list list \<Rightarrow> bool" where
  "rebuilt c nl nbk \<longleftrightarrow> length nbk = length nl \<and> distinct (concat nbk) \<and>
     (\<forall>j < length nl. chain (lc_next_hash c) (nl ! j) (nbk ! j) \<and>
        (\<forall>a \<in> set (nbk ! j). \<exists>h. lc_handles c a = Some h \<and> bucket_of (of_nat (length nl)) (h_hash h) = j))"

lemma rebuilt_step:
  assumes r: "rebuilt c nl nbk" and e: "e \<notin> set (concat nbk)" "lc_handles c e = Some h"
    and j: "j = bucket_of (of_nat (length nl)) (h_hash h)" "j < length nl"
  shows "rebuilt (c\<lparr>lc_next_hash := (lc_next_hash c)(e \<mapsto> nl ! j)\<rparr>) (nl[j := Some e]) (nbk[j := e # nbk ! j])"
proof -
  have len: "length nbk = length nl" and dist: "distinct (concat nbk)"
    and ch: "chain (lc_next_hash c) (nl ! k) (nbk ! k)" and
    hs: "\<forall>a \<in> set (nbk ! k). \<exists>h. lc_handles c a = Some h \<and> bucket_of (of_nat (length nl)) (h_hash h) = k" if "k < length nl" for k
    using r that unfolding rebuilt_def by blast+
  have out: "e \<notin> set (nbk ! k)" if "k < length nl" for k using e(1) concat_nth [of k nbk] that len j(2) by auto
  have "distinct (nbk ! j)" using dist len j(2) by (metis distinct_concat_iff nth_mem)
  then have "distinct (concat (nbk[j := e # nbk ! j]))"
    using dist len j(2) e(1) out [OF j(2)] by (intro distinct_concat_update) auto
  moreover have "chain ((lc_next_hash c)(e \<mapsto> nl ! j)) (nl[j := Some e] ! k) (nbk[j := e # nbk ! j] ! k)" if k: "k < length nl" for k
    using ch [OF k] ch [OF j(2)] out [OF k] out [OF j(2)] len j(2) k
    by (cases "k = j") (auto elim!: chain_cong)
  moreover have "\<forall>a \<in> set (nbk[j := e # nbk ! j] ! k). \<exists>h. lc_handles c a = Some h \<and> bucket_of (of_nat (length nl)) (h_hash h) = k"
    if k: "k < length nl" for k
    using hs [OF k] e(2) j len k by (cases "k = j") auto
  ultimately show ?thesis using len j(2) by (simp add: rebuilt_def)
qed

lemma resize_chain_on:
  assumes "chain (lc_next_hash c) p as" "rebuilt c nl nbk" "distinct as" "set as \<inter> set (concat nbk) = {}"
    and "\<forall>a \<in> set as. lc_handles c a \<noteq> None" "nl \<noteq> []" "length nl < 2 ^ 32"
  shows "\<exists>c' nl' nbk'. resize_chain c (of_nat (length nl)) nl n p = Some (c', nl', n + of_nat (length as)) \<and> rebuilt c' nl' nbk' \<and> length nl' = length nl \<and>
    set (concat nbk') = set as \<union> set (concat nbk) \<and> table_frame c c' \<and> lc_table c' = lc_table c \<and>
    (\<forall>a. a \<notin> set as \<longrightarrow> lc_next_hash c' a = lc_next_hash c a)"
  using assms
proof (induction as arbitrary: c p nl nbk n)
  case Nil
  then show ?case by (auto simp: resize_chain.simps table_frame_refl)
next
  case (Cons e as)
  obtain q where q: "p = Some e" "lc_next_hash c e = Some q" "chain (lc_next_hash c) q as" using Cons.prems(1) by auto
  obtain h where h: "lc_handles c e = Some h" using Cons.prems(5) by auto
  define j where "j = bucket_of (of_nat (length nl)) (h_hash h)"
  have j: "j < length nl" using Cons.prems(6,7) by (simp add: j_def bucket_of_less)
  let ?c = "c\<lparr>lc_next_hash := (lc_next_hash c)(e \<mapsto> nl ! j)\<rparr>"
  have len: "length nbk = length nl" using Cons.prems(2) by (simp add: rebuilt_def)
  have e: "e \<notin> set (concat nbk)" "e \<notin> set as" using Cons.prems(3,4) by auto
  have sets: "set (concat (nbk[j := e # nbk ! j])) = insert e (set (concat nbk))"
  proof -
    have "mset (concat (nbk[j := e # nbk ! j])) = mset (e # concat nbk)"
      using mset_concat_update [of j nbk "e # nbk ! j"] j len by simp
    then show ?thesis by (metis list.simps(15) mset_same)
  qed
  have "\<exists>c' nl' nbk'. resize_chain ?c (of_nat (length (nl[j := Some e]))) (nl[j := Some e]) (n + 1) q = Some (c', nl', n + 1 + of_nat (length as)) \<and> rebuilt c' nl' nbk' \<and> length nl' = length (nl[j := Some e]) \<and>
    set (concat nbk') = set as \<union> set (concat (nbk[j := e # nbk ! j])) \<and> table_frame ?c c' \<and> lc_table c' = lc_table ?c \<and>
    (\<forall>a. a \<notin> set as \<longrightarrow> lc_next_hash c' a = lc_next_hash ?c a)"
  proof (rule Cons.IH)
    show "chain (lc_next_hash ?c) q as" using q(3) e(2) by (auto elim!: chain_cong)
    show "rebuilt ?c (nl[j := Some e]) (nbk[j := e # nbk ! j])" by (rule rebuilt_step [OF Cons.prems(2) e(1) h j_def j])
    show "set as \<inter> set (concat (nbk[j := e # nbk ! j])) = {}" unfolding sets using Cons.prems(4) e(2) by auto
  qed (use Cons.prems in auto)
  then obtain c' nl' nbk' where r: "resize_chain ?c (of_nat (length nl)) (nl[j := Some e]) (n + 1) q = Some (c', nl', n + of_nat (length (e # as)))" "rebuilt c' nl' nbk'"
    "length nl' = length nl" "set (concat nbk') = set as \<union> insert e (set (concat nbk))" "table_frame ?c c'"
    "lc_table c' = lc_table c" "\<forall>a. a \<notin> set as \<longrightarrow> lc_next_hash c' a = ((lc_next_hash c)(e \<mapsto> nl ! j)) a"
    unfolding sets by (auto simp: ac_simps)
  have "resize_chain c (of_nat (length nl)) nl n p = Some (c', nl', n + of_nat (length (e # as)))"
    unfolding q(1) using r(1) by (subst resize_chain.simps) (simp add: h q(2) j_def [symmetric] Let_def)
  moreover have "table_frame c c'" using r(5) by (simp add: table_frame_def)
  ultimately show ?case using r by (intro exI [of _ c'] exI [of _ nl'] exI [of _ nbk']) auto
qed

lemma resize_buckets_on:
  assumes "list_all2 (chain (lc_next_hash c)) ps ass" "rebuilt c nl nbk" "distinct (concat ass)" "set (concat ass) \<inter> set (concat nbk) = {}"
    and "\<forall>a \<in> set (concat ass). lc_handles c a \<noteq> None" "nl \<noteq> []" "length nl < 2 ^ 32"
  shows "\<exists>c' nl' nbk'. resize_buckets c (of_nat (length nl)) nl n ps = Some (c', nl', n + of_nat (length (concat ass))) \<and> rebuilt c' nl' nbk' \<and> length nl' = length nl \<and>
    set (concat nbk') = set (concat ass) \<union> set (concat nbk) \<and> table_frame c c' \<and> lc_table c' = lc_table c"
  using assms
proof (induction ps arbitrary: c nl nbk ass n)
  case Nil
  then show ?case by (auto simp: table_frame_refl)
next
  case (Cons p ps)
  obtain as ass' where ass: "ass = as # ass'" "chain (lc_next_hash c) p as" "list_all2 (chain (lc_next_hash c)) ps ass'"
    using Cons.prems(1) by (auto simp: list_all2_Cons1)
  have "distinct as" "set as \<inter> set (concat nbk) = {}" "\<forall>a \<in> set as. lc_handles c a \<noteq> None"
    using Cons.prems(3-5) ass(1) by auto
  then obtain c1 nl1 nbk1 where r: "resize_chain c (of_nat (length nl)) nl n p = Some (c1, nl1, n + of_nat (length as))" "rebuilt c1 nl1 nbk1" "length nl1 = length nl"
    "set (concat nbk1) = set as \<union> set (concat nbk)" "table_frame c c1" "lc_table c1 = lc_table c"
    "\<forall>a. a \<notin> set as \<longrightarrow> lc_next_hash c1 a = lc_next_hash c a"
    using resize_chain_on [OF ass(2) Cons.prems(2) _ _ _ Cons.prems(6,7)] by blast
  have disj: "set as \<inter> set (concat ass') = {}" using Cons.prems(3) ass(1) by simp
  have ch: "list_all2 (chain (lc_next_hash c1)) ps ass'"
    unfolding list_all2_conv_all_nth
  proof (intro conjI allI impI)
    show "length ps = length ass'" using ass(3) by (rule list_all2_lengthD)
    fix i assume i: "i < length ps"
    then have "set (ass' ! i) \<subseteq> set (concat ass')" using list_all2_lengthD [OF ass(3)] by (metis concat_nth)
    then have "\<forall>a \<in> set (ass' ! i). lc_next_hash c1 a = lc_next_hash c a" using r(7) disj by auto
    with list_all2_nthD [OF ass(3) i] show "chain (lc_next_hash c1) (ps ! i) (ass' ! i)" by (rule chain_cong)
  qed
  have "set (concat ass') \<inter> set (concat nbk1) = {}" "nl1 \<noteq> []" "length nl1 < 2 ^ 32" "distinct (concat ass')"
    "\<forall>a \<in> set (concat ass'). lc_handles c1 a \<noteq> None"
    using Cons.prems(3-7) ass(1) disj r(3,4) r(5) by (auto simp: table_frame_def)
  then obtain c2 nl2 nbk2 where r2: "resize_buckets c1 (of_nat (length nl1)) nl1 (n + of_nat (length as)) ps = Some (c2, nl2, n + of_nat (length as) + of_nat (length (concat ass')))" "rebuilt c2 nl2 nbk2" "length nl2 = length nl1"
    "set (concat nbk2) = set (concat ass') \<union> set (concat nbk1)" "table_frame c1 c2" "lc_table c2 = lc_table c1"
    using Cons.IH [OF ch r(2)] by blast
  have "resize_buckets c (of_nat (length nl)) nl n (p # ps) = Some (c2, nl2, n + of_nat (length (concat ass)))"
    using r(1,3) r2(1) ass(1) by (simp add: ac_simps del: length_concat)
  moreover have "table_frame c c2" using r(5) r2(5) by (simp add: table_frame_def)
  moreover have "set (concat nbk2) = set (concat ass) \<union> set (concat nbk)" using r2(4) r(4) ass(1) by auto
  ultimately show ?case using r2(2,3,6) r(3,6) by (intro exI [of _ c2] exI [of _ nl2] exI [of _ nbk2]) simp
qed

lemma new_length_power:
  assumes "unat elems \<le> max_entries" "k \<le> 31"
  shows "\<exists>len. new_length (2 ^ k) elems = Some len \<and> 0 < len"
  using assms(2)
proof (induction "31 - k" arbitrary: k)
  case 0
  have "unat (2 ^ 31 :: u32) = 2 ^ 31" by simp
  then have "\<not> (2 ^ 31 :: u32) < elems" using assms(1) unfolding word_less_nat_alt max_entries_def by linarith
  then show ?case using 0 by (subst new_length.simps) simp
next
  case (Suc m)
  have "(2 ^ k :: u32) * 2 = 2 ^ Suc k" by simp
  moreover have "m = 31 - Suc k" "Suc k \<le> 31" using Suc(2) by simp_all
  then have "\<exists>len. new_length (2 ^ Suc k) elems = Some len \<and> 0 < len" by (rule Suc(1))
  moreover have "0 < (2 ^ k :: u32)" using Suc(3) by (simp add: word_gt_0)
  ultimately show ?case by (subst new_length.simps) (simp del: power_Suc)
qed

lemma new_length_ends: "unat elems \<le> max_entries \<Longrightarrow> \<exists>len. new_length 4 elems = Some len \<and> 0 < len"
  using new_length_power [of elems 2] by simp

lemma Resize_on:
  assumes ok: "table_ok c bk"
  shows "\<exists>c' bk'. Resize c = Some c' \<and> table_ok c' bk' \<and> set (concat bk') = set (concat bk) \<and> table_frame c c'"
proof -
  let ?ps = "ht_list (lc_table c)"
  have few: "length (concat bk) \<le> max_entries" using ok by (simp add: table_ok_def del: length_concat)
  obtain len where nl: "new_length 4 (ht_elems (lc_table c)) = Some len" "0 < len"
    using new_length_ends [of "ht_elems (lc_table c)"] few table_elems [OF ok] by auto
  define n where "n = unat len"
  have n: "0 < n" "n < 2 ^ 32" "of_nat n = len" using nl(2) unsigned_less [of len] by (simp_all add: n_def unat_gt_0 word_gt_0)
  have ch: "list_all2 (chain (lc_next_hash c)) ?ps bk"
    using ok by (auto simp: table_ok_def bchain_def list_all2_conv_all_nth)
  have dist: "distinct (concat bk)" using ok by (simp add: table_ok_def)
  have hs: "\<exists>h. entry c a h" if "a \<in> set (concat bk)" for a
    using that ok unfolding table_ok_def by (metis (no_types, lifting) UN_E in_set_conv_nth set_concat)
  have start: "rebuilt c (replicate n None) (replicate n [])" by (simp add: rebuilt_def)
  have "\<forall>a \<in> set (concat bk). lc_handles c a \<noteq> None" using hs by (auto simp: entry_def)
  from resize_buckets_on [OF ch start dist _ this, of 0] n
  have "\<exists>c' nl nbk. resize_buckets c len (replicate n None) 0 ?ps = Some (c', nl, of_nat (length (concat bk))) \<and> rebuilt c' nl nbk \<and> length nl = n \<and>
    set (concat nbk) = set (concat bk) \<and> table_frame c c' \<and> lc_table c' = lc_table c"
    by (simp del: set_concat length_concat)
  then obtain c' nl nbk where r: "resize_buckets c len (replicate n None) 0 ?ps = Some (c', nl, of_nat (length (concat bk)))" "rebuilt c' nl nbk" "length nl = n"
    "set (concat nbk) = set (concat bk)" "table_frame c c'" "lc_table c' = lc_table c"
    by blast
  let ?c = "c'\<lparr>lc_table := (lc_table c')\<lparr>ht_list := nl, ht_length := len\<rparr>\<rparr>"
  have "Resize c = Some ?c" using r(1) nl(1) ok unfolding Resize_def Let_def by (simp add: table_ok_def n_def [symmetric] unat_of_nat del: length_concat)
  moreover have "table_frame c ?c" using r(5) by (simp add: table_frame_def)
  moreover have "table_ok ?c nbk"
  proof -
    have d: "distinct (concat nbk)" "length nbk = n" using r(2,3) by (simp_all add: rebuilt_def)
    then have "length (concat nbk) = length (concat bk)" using dist r(4) by (metis distinct_card)
    moreover have "bchain ?c i (nbk ! i)" if "i < n" for i
      using r(2,3) that by (simp add: rebuilt_def bchain_def)
    moreover have "\<exists>h. entry ?c a h \<and> bucket_of len (h_hash h) = i" if i: "i < n" "a \<in> set (nbk ! i)" for i a
    proof -
      obtain h where h: "lc_handles c' a = Some h" "bucket_of len (h_hash h) = i"
        using r(2,3) i n(3) by (auto simp: rebuilt_def)
      have "a \<in> set (concat bk)" using i d(2) concat_nth [of i nbk] r(4) by auto
      then obtain h' where "entry c a h'" using hs by blast
      then show ?thesis using h r(5) by (auto simp: entry_def table_frame_def)
    qed
    moreover have "nbk \<noteq> []" using d(2) n(1) by auto
    ultimately show ?thesis using d r(3) ok r(6) n few by (simp add: table_ok_def del: length_concat)
  qed
  ultimately show ?thesis using r(4) by blast
qed

text \<open>With more entries the length of the table wraps around to 0, and is doubled for ever.\<close>

lemma doubled:
  assumes "len = (0 :: u32) \<or> (\<exists>k \<le> 31. len = 2 ^ k)"
  shows "len * 2 = 0 \<or> (\<exists>k \<le> 31. len * 2 = 2 ^ k)" and "unat len \<le> max_entries"
proof -
  have "(len * 2 = 0 \<or> (\<exists>k \<le> 31. len * 2 = 2 ^ k)) \<and> unat len \<le> max_entries"
  proof (cases "len = 0")
    case False
    then obtain k where k: "len = 2 ^ k" "k \<le> 31" using assms by blast
    have "len * 2 = 0 \<or> (\<exists>k \<le> 31. len * 2 = 2 ^ k)"
    proof (cases "k = 31")
      case False
      then have "len * 2 = 2 ^ Suc k" "Suc k \<le> 31" using k by simp_all
      then show ?thesis by blast
    qed (use k in simp)
    moreover have "uint len = 2 ^ k" unfolding k(1) using False k(1) by (intro uint_2p) (simp add: word_gt_0)
    then have "unat len = 2 ^ k" by (simp add: unat_eq_nat_uint nat_power_eq)
    moreover have "(2 :: nat) ^ k \<le> 2 ^ 31" using k(2) by (intro power_increasing) simp_all
    ultimately show ?thesis by (simp add: max_entries_def)
  qed simp
  then show "len * 2 = 0 \<or> (\<exists>k \<le> 31. len * 2 = 2 ^ k)" and "unat len \<le> max_entries" by blast+
qed

lemma new_length_bounded:
  assumes "new_length len elems = Some r" "len = 0 \<or> (\<exists>k \<le> 31. len = 2 ^ k)"
  shows "unat elems \<le> max_entries"
proof -
  have "(len = 0 \<or> (\<exists>k \<le> 31. len = 2 ^ k)) \<longrightarrow> unat elems \<le> max_entries"
  proof (rule new_length.raw_induct [where P = "\<lambda>len elems r. (len = 0 \<or> (\<exists>k \<le> 31. len = 2 ^ k)) \<longrightarrow> unat elems \<le> max_entries", OF _ assms(1)], rule impI)
    fix f len elems and r :: u32
    assume IH: "\<And>len elems r. f len elems = Some r \<Longrightarrow> (len = 0 \<or> (\<exists>k \<le> 31. len = 2 ^ k)) \<longrightarrow> unat elems \<le> max_entries"
      and f: "(if len < elems then f (len * 2) elems else Some len) = Some r" and len: "len = 0 \<or> (\<exists>k \<le> 31. len = 2 ^ k)"
    show "unat elems \<le> max_entries"
    proof (cases "len < elems")
      case False
      then show ?thesis using doubled(2) [OF len] unfolding word_less_nat_alt by linarith
    next
      case True
      then have "f (len * 2) elems = Some r" using f by simp
      from IH [OF this] doubled(1) [OF len] show ?thesis by blast
    qed
  qed
  then show ?thesis using assms(2) by blast
qed

lemma new_length_endless:
  assumes "max_entries < unat elems"
  shows "new_length 4 elems = None"
proof (cases "new_length 4 elems")
  case (Some r)
  have "\<exists>k \<le> 31. (4 :: u32) = 2 ^ k" by (rule exI [of _ 2]) simp
  then show ?thesis using new_length_bounded [OF Some] assms by simp
qed

lemma Resize_empty: "lc_table c = \<lparr>ht_length = 0, ht_elems = 0, ht_list = []\<rparr> \<Longrightarrow> Resize c = Some (c\<lparr>lc_table := HandleTable_init\<rparr>)"
  by (simp add: Resize_def new_length.simps [of 4] HandleTable_init_def del: replicate.simps)

lemma table_ok_mono:
  assumes ok: "table_ok c bk" and t: "lc_table c' = lc_table c"
    and nh: "\<forall>a \<in> set (concat bk). lc_next_hash c' a = lc_next_hash c a"
    and ent: "\<forall>a \<in> set (concat bk). \<forall>h. entry c a h \<longrightarrow> (\<exists>h'. entry c' a h' \<and> h_hash h' = h_hash h)"
  shows "table_ok c' bk"
proof -
  have "bchain c' i (bk ! i)" if "i < length bk" for i
  proof -
    have "bchain c i (bk ! i)" using ok that unfolding table_ok_def by blast
    then show ?thesis using nh concat_nth [OF that] by (auto simp: bchain_def t elim!: chain_cong)
  qed
  moreover have "\<exists>h. entry c' a h \<and> bucket_of (of_nat (length bk)) (h_hash h) = i" if i: "i < length bk" "a \<in> set (bk ! i)" for i a
  proof -
    obtain h where "entry c a h" "bucket_of (of_nat (length bk)) (h_hash h) = i" using ok i unfolding table_ok_def by blast
    moreover have "a \<in> set (concat bk)" using i concat_nth [OF i(1)] by blast
    ultimately show ?thesis using ent by metis
  qed
  moreover have "length bk = length (ht_list (lc_table c))" "length bk < 2 ^ 32" "ht_length (lc_table c) = of_nat (length bk)" "bk \<noteq> []"
    "distinct (concat bk)" "ht_elems (lc_table c) = of_nat (length (concat bk))" "length (concat bk) \<le> max_entries" using ok unfolding table_ok_def by blast+
  ultimately show ?thesis unfolding table_ok_def t by (intro conjI allI impI ballI; blast)
qed

lemma HandleTable_Insert_on:
  assumes ok: "table_ok c bk" and e: "entry c e h" "e \<notin> set (concat bk)" and few: "length (concat bk) < max_entries"
  shows "\<exists>r c' bk'. HandleTable_Insert c e = Some (r, c') \<and> table_ok c' bk' \<and> table_frame c c' \<and>
    set (concat bk') = insert e (set (concat bk) - set_option r) \<and>
    (case r of None \<Rightarrow> \<forall>a \<in> set (concat bk). \<not> matches c (h_key h) (h_hash h) a
     | Some a \<Rightarrow> a \<in> set (concat bk) \<and> matches c (h_key h) (h_hash h) a)"
proof (rule FindPointer_on [OF ok, of "h_hash h" "h_key h"])
  fix i us ws assume w: "i < length bk" "i = bucket_of (of_nat (length bk)) (h_hash h)" "bk ! i = us @ ws"
    "FindPointer c (h_key h) (h_hash h) = Some (slot_at i us)" "bchain c i (us @ ws)"
    "\<forall>a as. ws = a # as \<longrightarrow> matches c (h_key h) (h_hash h) a" "ws = [] \<Longrightarrow> \<forall>a \<in> set (concat bk). \<not> matches c (h_key h) (h_hash h) a"
  note rd = read_slot_at [OF w(5)]
  have he: "lc_handles c e = Some h" using e(1) by (simp add: entry_def)
  define nh where "nh = first_of (tl ws)"
  have nh: "(case first_of ws of None \<Rightarrow> Some None | Some o' \<Rightarrow> lc_next_hash c o') = Some nh"
    using rd(2) by (cases ws) (auto simp: nh_def dest: chain_first)
  let ?c = "c\<lparr>lc_next_hash := (lc_next_hash c)(e \<mapsto> nh)\<rparr>"
  have ent: "entry ?c = entry c" by (intro ext) (simp add: entry_def)
  have sub: "set (us @ ws) \<subseteq> set (concat bk)" using concat_nth [OF w(1)] w(3) by simp
  have okc: "table_ok ?c bk"
    by (rule table_ok_mono [OF ok]) (use e(2) in \<open>auto simp: ent\<close>)
  have dist: "distinct (concat bk)" using ok by (simp add: table_ok_def)
  then have dus: "distinct (us @ ws)" using w(1,3) by (metis distinct_concat_iff nth_mem)
  let ?zs = "e # tl ws" and ?d = "write_slot ?c (slot_at i us) (Some e)"
  let ?bk = "bk[i := us @ ?zs]"
  let ?d' = "?d\<lparr>lc_table := (lc_table ?d)\<lparr>ht_elems := of_nat (length (concat ?bk))\<rparr>\<rparr>"
  have tl_sub: "set (tl ws) \<subseteq> set ws" by (cases ws) auto
  have ch: "chain (lc_next_hash ?c) (first_of ?zs) ?zs"
  proof -
    have "chain (lc_next_hash c) nh (tl ws)"
      using rd(2) by (cases ws) (auto simp: nh_def intro: chain_self)
    moreover have "e \<notin> set (tl ws)" using e(2) sub tl_sub by auto
    ultimately show ?thesis by (auto elim!: chain_cong)
  qed
  have m: "mset (concat ?bk) + mset ws = add_mset e (mset (concat bk) + mset (tl ws))"
    using mset_concat_update [OF w(1), of "us @ ?zs"] w(3) by (simp add: ac_simps)
  have few': "length (concat ?bk) \<le> max_entries"
    using arg_cong [OF m, of size] few by (cases ws) (simp_all del: length_concat)
  have t: "table_ok ?d' ?bk"
  proof -
    have "table_ok ((write_slot ?c (slot_at i us) (first_of ?zs))\<lparr>lc_table := (lc_table (write_slot ?c (slot_at i us) (first_of ?zs)))\<lparr>ht_elems := of_nat (length (concat ?bk))\<rparr>\<rparr>) ?bk"
    proof (rule table_change [OF okc w(1,3) ch _ _ _ refl refl few'])
      show "distinct (us @ ?zs)" using dus e(2) sub tl_sub by (cases ws) auto
      show "set ?zs \<inter> set (concat bk) \<subseteq> set ws" using e(2) tl_sub by auto
      show "\<forall>x \<in> set ?zs. \<exists>h. entry ?c x h \<and> bucket_of (of_nat (length bk)) (h_hash h) = i"
        using okc w(1-3) tl_sub e(1) unfolding table_ok_def ent by (auto simp del: append_assoc)
    qed
    then show ?thesis by simp
  qed
  show ?thesis
  proof (cases ws)
    case Nil
    have me: "mset (concat ?bk) = mset (e # concat bk)" using m Nil by simp
    have n: "of_nat (length (concat ?bk)) = ht_elems (lc_table c) + 1" using mset_same [OF me] ok by (simp add: table_ok_def del: length_concat)
    have set_bk: "set (concat ?bk) = insert e (set (concat bk))" using mset_same [OF me] by simp
    have n1: "of_nat (length (concat (bk[i := us @ [e]]))) = ht_elems (lc_table c) + 1" using n Nil by simp
    have ins: "HandleTable_Insert c e = (do { c \<leftarrow> (if ht_elems (lc_table ?d') > ht_length (lc_table ?d') then Resize ?d' else Some ?d'); Some (None, c) })"
      using w(4) rd(1) nh Nil entry_key [OF e(1)] he
      by (simp add: HandleTable_Insert_def Let_def n1 write_slot_frame(2,3) cong: if_cong)
    obtain c' bk' where c': "(if ht_elems (lc_table ?d') > ht_length (lc_table ?d') then Resize ?d' else Some ?d') = Some c'"
      "table_ok c' bk'" "set (concat bk') = set (concat ?bk)" "table_frame ?d' c'"
      using Resize_on [OF t] t table_frame_refl [of ?d'] by (cases "ht_elems (lc_table ?d') > ht_length (lc_table ?d')") auto
    have "table_frame c ?d'" using table_frame_write [of ?c] by (simp add: table_frame_def)
    then have "table_frame c c'" using c'(4) by (simp add: table_frame_def)
    moreover have "HandleTable_Insert c e = Some (None, c')" unfolding ins c'(1) by simp
    ultimately show ?thesis using c'(2,3) set_bk w(7) Nil by (intro exI [of _ None] exI [of _ c'] exI [of _ bk']) simp
  next
    case (Cons a as)
    have a: "a \<in> set (concat bk)" using sub Cons by auto
    have me: "mset (a # concat ?bk) = mset (e # concat bk)" using m Cons by (simp add: ac_simps)
    have n: "of_nat (length (concat ?bk)) = ht_elems (lc_table c)" using mset_same [OF me] ok by (simp add: table_ok_def del: length_concat)
    have "set (concat ?bk) = insert e (set (concat bk) - {a})"
    proof -
      have "distinct (a # concat ?bk)" "insert a (set (concat ?bk)) = insert e (set (concat bk))"
        using mset_same [OF me] dist e(2) by auto
      moreover have "a \<noteq> e" using a e(2) by blast
      ultimately show ?thesis by auto
    qed
    moreover have "?d' = ?d" by (simp add: n write_slot_frame(3) [of ?c])
    moreover have "HandleTable_Insert c e = Some (Some a, ?d)"
      using w(4) rd(1) nh Cons entry_key [OF e(1)] he by (simp add: HandleTable_Insert_def Let_def)
    moreover have "table_frame c ?d'" using table_frame_write [of ?c] by (simp add: table_frame_def)
    ultimately show ?thesis using t w(6) Cons a by (intro exI [of _ "Some a"] exI [of _ ?d] exI [of _ ?bk]) auto
  qed
qed

section \<open>Circular lists\<close>

fun links :: "(nat \<rightharpoonup> nat) \<Rightarrow> nat \<Rightarrow> nat list \<Rightarrow> nat \<Rightarrow> bool" where
  "links nx a [] b \<longleftrightarrow> nx a = Some b"
| "links nx a (x # xs) b \<longleftrightarrow> nx a = Some x \<and> links nx x xs b"

lemma links_append: "links nx a (us @ x # vs) b \<longleftrightarrow> links nx a us x \<and> links nx x vs b"
  by (induction us arbitrary: a) auto

lemma links_cong: "links nx a xs b \<Longrightarrow> \<forall>y \<in> set (a # xs). nx' y = nx y \<Longrightarrow> links nx' a xs b"
  by (induction xs arbitrary: a) auto

lemma links_last: "links nx a us b \<Longrightarrow> nx (last (a # us)) = Some b"
  by (induction us arbitrary: a) auto

lemma links_first: "links nx a us b \<Longrightarrow> nx a = Some (hd (us @ [b]))"
  by (cases us) auto

lemma links_set_last: "links nx a us b \<Longrightarrow> distinct (a # us) \<Longrightarrow> links (nx(last (a # us) \<mapsto> b')) a us b'"
proof (induction us arbitrary: a)
  case (Cons x us)
  have "last (x # us) \<noteq> a" using Cons.prems(2) by (metis distinct.simps(2) last_in_set list.discI)
  then show ?case using Cons by auto
qed simp

definition ring :: "'v LRUCache \<Rightarrow> nat \<Rightarrow> nat list \<Rightarrow> bool" where
  "ring c h as \<longleftrightarrow> links (lc_next c) h as h \<and> links (lc_prev c) h (rev as) h"

lemma ring_cong:
  "ring c h as \<Longrightarrow> \<forall>y \<in> set (h # as). lc_next c' y = lc_next c y \<and> lc_prev c' y = lc_prev c y \<Longrightarrow> ring c' h as"
  unfolding ring_def using links_cong [of "lc_next c" h as h "lc_next c'"] links_cong [of "lc_prev c" h "rev as" h "lc_prev c'"] by simp

lemma last_Cons_in: "last (h # us) \<in> set (h # us)"
  by (rule last_in_set) simp

lemma hd_snoc_in: "hd (vs @ [h]) \<in> set (h # vs)"
  by (cases vs) auto

lemma LRU_Remove_on:
  assumes r: "ring c h (us @ e # vs)" and d: "distinct (h # us @ e # vs)" and al: "\<forall>a \<in> set (h # us @ vs). allocated c a"
  defines "c' \<equiv> c\<lparr>lc_next := (lc_next c)(last (h # us) \<mapsto> hd (vs @ [h])), lc_prev := (lc_prev c)(hd (vs @ [h]) \<mapsto> last (h # us))\<rparr>"
  shows "LRU_Remove e c = Some c'" and "ring c' h (us @ vs)"
proof -
  let ?p = "last (h # us)" and ?n = "hd (vs @ [h])"
  have n: "links (lc_next c) h us e" "links (lc_next c) e vs h" using r by (simp_all add: ring_def links_append)
  have pr: "links (lc_prev c) h (rev vs) e" "links (lc_prev c) e (rev us) h" using r by (simp_all add: ring_def links_append)
  have en: "lc_next c e = Some ?n" using links_first [OF n(2)] .
  have ep: "lc_prev c e = Some ?p" using links_first [OF pr(2)] by (cases us rule: rev_cases) auto
  have ne: "?p \<noteq> e" "?n \<noteq> e" using d last_Cons_in [of h us] hd_snoc_in [of vs h] by auto
  have "allocated c ?p" "allocated c ?n" using al last_Cons_in [of h us] hd_snoc_in [of vs h] by auto
  then show "LRU_Remove e c = Some c'"
    using en ep ne by (simp add: LRU_Remove_def set_prev_def set_next_def c'_def allocated_def del: last.simps)
  have "links ((lc_next c)(?p \<mapsto> ?n)) h us ?n" using links_set_last [OF n(1)] d by simp
  moreover have "links ((lc_next c)(?p \<mapsto> ?n)) ?n (tl vs) h" if "vs \<noteq> []"
  proof -
    have "links (lc_next c) ?n (tl vs) h" using n(2) that by (cases vs) auto
    moreover have "?p \<notin> set (?n # tl vs)" using d last_Cons_in [of h us] that by (cases vs) auto
    ultimately show ?thesis by (auto elim!: links_cong)
  qed
  ultimately have nx: "links (lc_next c') h (us @ vs) h"
    by (cases vs) (simp_all add: c'_def links_append del: last.simps)
  have "?n = last (h # rev vs)" by (cases vs) auto
  then have "links ((lc_prev c)(?n \<mapsto> ?p)) h (rev vs) ?p" using links_set_last [OF pr(1)] d by simp
  moreover have "links ((lc_prev c)(?n \<mapsto> ?p)) ?p (tl (rev us)) h" if "us \<noteq> []"
  proof -
    have "rev us = ?p # tl (rev us)" using that by (cases us rule: rev_cases) auto
    then have "links (lc_prev c) ?p (tl (rev us)) h" using pr(2) by (metis links.simps(2))
    moreover have "set (?p # tl (rev us)) = set us" using \<open>rev us = ?p # tl (rev us)\<close> by (metis set_rev)
    moreover have "?n \<notin> set us" using d hd_snoc_in [of vs h] by auto
    ultimately show ?thesis by (elim links_cong) (metis fun_upd_other)
  qed
  ultimately have "links (lc_prev c') h (rev vs @ rev us) h"
    by (cases us rule: rev_cases) (simp_all add: c'_def links_append del: last.simps, simp_all)
  with nx show "ring c' h (us @ vs)" by (simp add: ring_def)
qed

lemma LRU_Append_on:
  assumes r: "ring c h as" and d: "distinct (h # as)" "e \<notin> set (h # as)" and al: "\<forall>a \<in> set (h # e # as). allocated c a"
  defines "c' \<equiv> c\<lparr>lc_next := (lc_next c)(e \<mapsto> h, last (h # as) \<mapsto> e), lc_prev := (lc_prev c)(e \<mapsto> last (h # as), h \<mapsto> e)\<rparr>"
  shows "LRU_Append h e c = Some c'" and "ring c' h (as @ [e])"
proof -
  let ?p = "last (h # as)"
  have n: "links (lc_next c) h as h" and pr: "links (lc_prev c) h (rev as) h" using r by (simp_all add: ring_def)
  have hp: "lc_prev c h = Some ?p" using links_first [OF pr] by (cases as rule: rev_cases) auto
  have ne: "?p \<noteq> e" "h \<noteq> e" using d last_Cons_in [of h as] by auto
  have alp: "allocated c ?p" "allocated c e" "allocated c h" using al last_Cons_in [of h as] by auto
  show "LRU_Append h e c = Some c'"
    using hp ne alp by (simp add: LRU_Append_def set_prev_def set_next_def c'_def allocated_def del: last.simps)
  have "links ((lc_next c)(e \<mapsto> h)) h as h" using n d by (auto elim!: links_cong)
  then have "links ((lc_next c)(e \<mapsto> h, ?p \<mapsto> e)) h as e" using links_set_last d(1) by blast
  then have nx: "links (lc_next c') h (as @ [e]) h" using ne by (simp add: c'_def links_append del: last.simps)
  have "links (lc_prev c') e (rev as) h"
  proof (cases as rule: rev_cases)
    case Nil
    then show ?thesis using ne by (simp add: c'_def)
  next
    case (snoc bs x)
    then have "links (lc_prev c) x (rev bs) h" using pr by simp
    moreover have "set (x # rev bs) = set as" using snoc by auto
    ultimately have "links (lc_prev c') x (rev bs) h" using d by (elim links_cong) (auto simp: c'_def)
    then show ?thesis using snoc ne by (simp add: c'_def)
  qed
  then show "ring c' h (as @ [e])" using nx ne by (simp add: ring_def c'_def)
qed

end
