(* ===== verification/Lv_Lru.thy ===== *)
theory Lv_Lru
  imports Lv_Cache
begin

text \<open>
  The invariant of an LRU cache and what its operations do: the entries that are not in use form the list
  \<open>lru\<close>, oldest first, those in use the list \<open>use\<close>; \<open>refs\<close> counts the references of clients. An entry is freed,
  and its deleter called, when it is in the cache no more and no client refers to it.
\<close>

text \<open>More references of clients and the count of 32 bits wraps around to 0, with that of the cache.\<close>

definition max_refs :: nat where "max_refs = 2 ^ 32 - 2"

lemma unat_eq_1: "(w :: u32) = 1 \<longleftrightarrow> unat w = 1"
  by (metis unat_1 word_unat_eq_iff)

lemma refs_up: "unat (w :: u32) < 2 ^ 32 - 1 \<Longrightarrow> unat (w + 1) = unat w + 1 \<and> w + 1 \<noteq> 0"
proof -
  assume "unat w < 2 ^ 32 - 1"
  then have u: "unat (w + 1) = unat w + 1" by (simp add: unat_word_ariths)
  then have "w + 1 \<noteq> 0" by (metis Suc_eq_plus1 nat.distinct(1) unsigned_0)
  with u show ?thesis by blast
qed

definition charge_of :: "'v LRUCache \<Rightarrow> nat \<Rightarrow> u64" where
  "charge_of c a = (case lc_handles c a of None \<Rightarrow> 0 | Some h \<Rightarrow> h_charge h)"

definition same_key :: "'v LRUCache \<Rightarrow> nat \<Rightarrow> nat \<Rightarrow> bool" where
  "same_key c a b \<longleftrightarrow> (\<exists>h h'. lc_handles c a = Some h \<and> lc_handles c b = Some h' \<and> h_key h = h_key h' \<and> h_hash h = h_hash h')"

definition handles_ok :: "'v LRUCache \<Rightarrow> nat set \<Rightarrow> (nat \<Rightarrow> nat) \<Rightarrow> bool" where
  "handles_ok c S refs \<longleftrightarrow>
     (\<forall>a h. lc_handles c a = Some h \<longrightarrow> in_use_head < a \<and> a < lc_fresh c \<and>
        unat (h_refs h) = refs a + of_bool (h_in_cache h) \<and> h_refs h \<noteq> 0 \<and> (h_in_cache h \<longleftrightarrow> a \<in> S)) \<and>
     (\<forall>a. lc_handles c a = None \<longrightarrow> refs a = 0 \<and> a \<notin> S)"

text \<open>The two lists; the key of every entry can be read, also after it was taken out of its list.\<close>

definition lists_ok :: "'v LRUCache \<Rightarrow> nat list \<Rightarrow> nat list \<Rightarrow> bool" where
  "lists_ok c lru use \<longleftrightarrow> ring c lru_head lru \<and> ring c in_use_head use \<and> distinct (lru_head # in_use_head # lru @ use) \<and>
     (\<forall>a \<in> dom (lc_handles c). \<exists>nx. lc_next c a = Some nx \<and> nx \<noteq> a) \<and> set lru \<union> set use \<subseteq> dom (lc_handles c) \<and>
     lru_head \<notin> dom (lc_handles c) \<and> in_use_head \<notin> dom (lc_handles c)"

text \<open>\<open>X\<close>: entries of the lists that are not in the table, in the middle of an operation.\<close>

definition lru_inv :: "'v LRUCache \<Rightarrow> nat list \<Rightarrow> nat list \<Rightarrow> nat list list \<Rightarrow> (nat \<Rightarrow> nat) \<Rightarrow> nat set \<Rightarrow> bool" where
  "lru_inv c lru use bk refs X \<longleftrightarrow>
     lists_ok c lru use \<and>
     table_ok c bk \<and> set (concat bk) = set lru \<union> set use - X \<and> X \<subseteq> set lru \<union> set use \<and>
     handles_ok c (set lru \<union> set use) refs \<and> (\<forall>a \<in> set lru. refs a = 0) \<and> (\<forall>a \<in> set use. 0 < refs a) \<and>
     (\<forall>a \<in> set (concat bk). \<forall>b \<in> set (concat bk). same_key c a b \<longrightarrow> a = b) \<and>
     lc_usage c = (\<Sum>a \<in> set lru \<union> set use. charge_of c a) \<and> 0 < lc_capacity c \<and> in_use_head < lc_fresh c"

text \<open>The entries of \<open>c'\<close> are entries of \<open>c\<close>, with the same value, key and charge.\<close>

definition keeps :: "'v LRUCache \<Rightarrow> 'v LRUCache \<Rightarrow> bool" where
  "keeps c c' \<longleftrightarrow> (\<forall>a h'. lc_handles c' a = Some h' \<longrightarrow>
     (\<exists>h. lc_handles c a = Some h \<and> h_value h' = h_value h \<and> h_key h' = h_key h \<and> h_hash h' = h_hash h \<and>
        h_charge h' = h_charge h \<and> (h_in_cache h' \<longrightarrow> h_in_cache h))) \<and> lc_capacity c' = lc_capacity c"

text \<open>The deleters that were called and the entries that are alive.\<close>

definition entries :: "'v LRUCache \<Rightarrow> (slice \<times> 'v) multiset" where
  "entries c = mset (lc_deleted c) +
     image_mset (\<lambda>a. (h_key (the (lc_handles c a)), h_value (the (lc_handles c a)))) (mset_set (dom (lc_handles c)))"

lemma keeps_refl: "keeps c c"
  by (simp add: keeps_def)

lemma keeps_trans:
  assumes "keeps a b" "keeps b c"
  shows "keeps a c"
  unfolding keeps_def
proof (intro conjI allI impI)
  fix x h assume "lc_handles c x = Some h"
  then obtain h1 where h1: "lc_handles b x = Some h1" "h_value h = h_value h1" "h_key h = h_key h1" "h_hash h = h_hash h1"
    "h_charge h = h_charge h1" "h_in_cache h \<longrightarrow> h_in_cache h1" using assms(2) unfolding keeps_def by blast
  then obtain h2 where "lc_handles a x = Some h2" "h_value h1 = h_value h2" "h_key h1 = h_key h2" "h_hash h1 = h_hash h2"
    "h_charge h1 = h_charge h2" "h_in_cache h1 \<longrightarrow> h_in_cache h2" using assms(1) unfolding keeps_def by blast
  then show "\<exists>h'. lc_handles a x = Some h' \<and> h_value h = h_value h' \<and> h_key h = h_key h' \<and> h_hash h = h_hash h' \<and>
      h_charge h = h_charge h' \<and> (h_in_cache h \<longrightarrow> h_in_cache h')" using h1 by auto
qed (use assms in \<open>simp add: keeps_def\<close>)

lemma handles_finite: "handles_ok c S refs \<Longrightarrow> finite (dom (lc_handles c))"
  by (rule finite_subset [of _ "{..< lc_fresh c}"]) (auto simp: handles_ok_def)

lemma entries_update:
  assumes "lc_handles c a = Some h" "h_key h' = h_key h" "h_value h' = h_value h" "lc_deleted d = lc_deleted c"
    and "lc_handles d = (lc_handles c)(a \<mapsto> h')"
  shows "entries d = entries c"
proof -
  have "dom (lc_handles d) = dom (lc_handles c)" using assms(1,5) by auto
  then show ?thesis using assms unfolding entries_def by (auto intro!: image_mset_cong)
qed

lemma entries_free:
  assumes "lc_handles c a = Some h" "finite (dom (lc_handles c))"
    and "lc_deleted d = lc_deleted c @ [(h_key h, h_value h)]" "lc_handles d = (lc_handles c)(a := None)"
  shows "entries d = entries c"
proof -
  have dm: "dom (lc_handles c) = insert a (dom (lc_handles c) - {a})" "dom (lc_handles d) = dom (lc_handles c) - {a}"
    using assms(1,4) by auto
  have "image_mset (\<lambda>x. (h_key (the (lc_handles d x)), h_value (the (lc_handles d x)))) (mset_set (dom (lc_handles c) - {a})) =
      image_mset (\<lambda>x. (h_key (the (lc_handles c x)), h_value (the (lc_handles c x)))) (mset_set (dom (lc_handles c) - {a}))"
    using assms(2,4) by (intro image_mset_cong) simp
  moreover have "mset_set (dom (lc_handles c)) = add_mset a (mset_set (dom (lc_handles c) - {a}))"
    using assms(2) dm(1) by (metis finite_insert insertCI mset_set.remove)
  ultimately show ?thesis using assms(1,3) dm(2) by (simp add: entries_def)
qed

section \<open>Moving an entry between the lists\<close>

text \<open>Only \<open>next\<close> and \<open>prev\<close> of members of the lists change.\<close>

definition list_frame :: "nat set \<Rightarrow> 'v LRUCache \<Rightarrow> 'v LRUCache \<Rightarrow> bool" where
  "list_frame A c c' \<longleftrightarrow> lc_handles c' = lc_handles c \<and> lc_table c' = lc_table c \<and> lc_next_hash c' = lc_next_hash c \<and>
     lc_fresh c' = lc_fresh c \<and> lc_deleted c' = lc_deleted c \<and> lc_usage c' = lc_usage c \<and> lc_capacity c' = lc_capacity c \<and>
     (\<forall>a. a \<notin> A \<longrightarrow> lc_next c' a = lc_next c a \<and> lc_prev c' a = lc_prev c a)"

lemma ring_next: "ring c h as \<Longrightarrow> distinct (h # as) \<Longrightarrow> a \<in> set as \<Longrightarrow> \<exists>nx. lc_next c a = Some nx \<and> nx \<noteq> a"
proof -
  assume r: "ring c h as" "distinct (h # as)" "a \<in> set as"
  then obtain us vs where as: "as = us @ a # vs" by (meson split_list)
  then have "lc_next c a = Some (hd (vs @ [h]))" using r(1) links_first by (auto simp: ring_def links_append)
  moreover have "hd (vs @ [h]) \<noteq> a" using r(2) as hd_snoc_in [of vs h] by auto
  ultimately show ?thesis by blast
qed

lemma ring_frame: "ring c h as \<Longrightarrow> list_frame A c c' \<Longrightarrow> set (h # as) \<inter> A = {} \<Longrightarrow> ring c' h as"
  by (rule ring_cong) (auto simp: list_frame_def)

lemma ring_Remove:
  assumes "ring c h as" "distinct (h # as)" "e \<in> set as" "\<forall>a \<in> set (h # as). allocated c a"
  shows "\<exists>c'. LRU_Remove e c = Some c' \<and> ring c' h (remove1 e as) \<and> list_frame (set (h # remove1 e as)) c c'"
proof -
  obtain us vs where as: "as = us @ e # vs" using assms(3) by (meson split_list)
  have r1: "remove1 e as = us @ vs" using as assms(2) by (simp add: remove1_append)
  have d: "distinct (h # us @ e # vs)" using as assms(2) by simp
  have al: "\<forall>a \<in> set (h # us @ vs). allocated c a" using as assms(4) by simp
  note rm = LRU_Remove_on [OF assms(1) [unfolded as] d al]
  show ?thesis
  proof (intro exI conjI)
    show "LRU_Remove e c = Some (c\<lparr>lc_next := (lc_next c)(last (h # us) \<mapsto> hd (vs @ [h])),
      lc_prev := (lc_prev c)(hd (vs @ [h]) \<mapsto> last (h # us))\<rparr>)" by (rule rm(1))
    show "ring (c\<lparr>lc_next := (lc_next c)(last (h # us) \<mapsto> hd (vs @ [h])),
      lc_prev := (lc_prev c)(hd (vs @ [h]) \<mapsto> last (h # us))\<rparr>) h (remove1 e as)" unfolding r1 by (rule rm(2))
    show "list_frame (set (h # remove1 e as)) c (c\<lparr>lc_next := (lc_next c)(last (h # us) \<mapsto> hd (vs @ [h])),
      lc_prev := (lc_prev c)(hd (vs @ [h]) \<mapsto> last (h # us))\<rparr>)"
      using last_Cons_in [of h us] hd_snoc_in [of vs h] unfolding r1 list_frame_def by (auto simp del: last.simps)
  qed
qed

lemma ring_Append:
  assumes "ring c h as" "distinct (h # as)" "e \<notin> set (h # as)" "\<forall>a \<in> set (h # e # as). allocated c a"
  shows "\<exists>c'. LRU_Append h e c = Some c' \<and> ring c' h (as @ [e]) \<and> list_frame (set (h # e # as)) c c'"
proof (intro exI conjI)
  note ap = LRU_Append_on [OF assms]
  show "LRU_Append h e c = Some (c\<lparr>lc_next := (lc_next c)(e \<mapsto> h, last (h # as) \<mapsto> e), lc_prev := (lc_prev c)(e \<mapsto> last (h # as), h \<mapsto> e)\<rparr>)"
    by (rule ap(1))
  show "ring (c\<lparr>lc_next := (lc_next c)(e \<mapsto> h, last (h # as) \<mapsto> e), lc_prev := (lc_prev c)(e \<mapsto> last (h # as), h \<mapsto> e)\<rparr>) h (as @ [e])"
    by (rule ap(2))
  show "list_frame (set (h # e # as)) c (c\<lparr>lc_next := (lc_next c)(e \<mapsto> h, last (h # as) \<mapsto> e), lc_prev := (lc_prev c)(e \<mapsto> last (h # as), h \<mapsto> e)\<rparr>)"
    using last_Cons_in [of h as] unfolding list_frame_def by (auto simp del: last.simps)
qed

lemma lists_allocated: "lists_ok c lru use \<Longrightarrow> a \<in> {lru_head, in_use_head} \<union> set lru \<union> set use \<Longrightarrow> allocated c a"
  by (auto simp: lists_ok_def allocated_def)

lemma frame_allocated: "list_frame A c c' \<Longrightarrow> allocated c' = allocated c"
  by (intro ext) (simp add: list_frame_def allocated_def)

text \<open>The lists after an entry left one of them.\<close>

lemma lists_Remove:
  assumes ok: "lists_ok c lru use" and e: "e \<in> set lru \<union> set use"
  shows "\<exists>c'. LRU_Remove e c = Some c' \<and> lists_ok c' (remove1 e lru) (remove1 e use) \<and>
    list_frame (insert lru_head (insert in_use_head (set lru \<union> set use)) - {e}) c c'"
proof -
  have d: "distinct (lru_head # lru)" "distinct (in_use_head # use)" "set (lru_head # lru) \<inter> set (in_use_head # use) = {}"
    using ok by (auto simp: lists_ok_def)
  have al: "\<forall>a \<in> set (lru_head # lru). allocated c a" "\<forall>a \<in> set (in_use_head # use). allocated c a"
    using lists_allocated [OF ok] by auto
  have rings: "ring c lru_head lru" "ring c in_use_head use" using ok by (simp_all add: lists_ok_def)
  have nh: "e \<noteq> lru_head" "e \<noteq> in_use_head" using e d by auto
  have fin: "?thesis" if c': "LRU_Remove e c = Some c'" "ring c' lru_head (remove1 e lru)" "ring c' in_use_head (remove1 e use)"
    "list_frame (insert lru_head (insert in_use_head (set lru \<union> set use)) - {e}) c c'" for c'
  proof -
    have sub: "set (remove1 e lru) \<union> set (remove1 e use) = set lru \<union> set use - {e}" using d by (auto simp: set_remove1_eq)
    have "\<exists>nx. lc_next c' a = Some nx \<and> nx \<noteq> a" if a: "a \<in> dom (lc_handles c')" for a
    proof (cases "a \<in> set (remove1 e lru) \<union> set (remove1 e use)")
      case True
      then show ?thesis using ring_next [OF c'(2)] ring_next [OF c'(3)] d by (auto simp: set_remove1_eq)
    next
      case False
      have ad: "a \<in> dom (lc_handles c)" using a c'(4) by (simp add: list_frame_def)
      then have "a \<noteq> lru_head" "a \<noteq> in_use_head" using ok by (auto simp: lists_ok_def)
      then have "lc_next c' a = lc_next c a" using False sub c'(4) by (auto simp: list_frame_def)
      then show ?thesis using ad ok by (auto simp: lists_ok_def)
    qed
    moreover have "distinct (lru_head # in_use_head # remove1 e lru @ remove1 e use)" "set (remove1 e lru) \<union> set (remove1 e use) \<subseteq> dom (lc_handles c')"
      using ok c'(4) by (auto simp: lists_ok_def list_frame_def set_remove1_eq)
    moreover have "lru_head \<notin> dom (lc_handles c')" "in_use_head \<notin> dom (lc_handles c')"
      using ok c'(4) by (auto simp: lists_ok_def list_frame_def)
    ultimately show ?thesis using c' by (auto simp: lists_ok_def)
  qed
  show ?thesis
  proof (cases "e \<in> set lru")
    case True
    then have "e \<notin> set (in_use_head # use)" using d(3) by auto
    then have r1: "remove1 e use = use" by (simp add: remove1_idem)
    obtain c' where c': "LRU_Remove e c = Some c'" "ring c' lru_head (remove1 e lru)" "list_frame (set (lru_head # remove1 e lru)) c c'"
      using ring_Remove [OF rings(1) d(1) True al(1)] by blast
    have "set (remove1 e lru) \<subseteq> set lru - {e}" using d(1) by (auto simp: set_remove1_eq)
    then have "ring c' in_use_head use" using ring_frame [OF rings(2) c'(3)] d(3) by auto
    moreover have "list_frame (insert lru_head (insert in_use_head (set lru \<union> set use)) - {e}) c c'"
      using c'(3) d True nh \<open>set (remove1 e lru) \<subseteq> set lru - {e}\<close> by (auto simp: list_frame_def)
    ultimately show ?thesis using fin [OF c'(1,2)] r1 by simp
  next
    case False
    then have eu: "e \<in> set use" using e by blast
    then have "e \<notin> set (lru_head # lru)" using d(3) by auto
    then have r1: "remove1 e lru = lru" by (simp add: remove1_idem)
    obtain c' where c': "LRU_Remove e c = Some c'" "ring c' in_use_head (remove1 e use)" "list_frame (set (in_use_head # remove1 e use)) c c'"
      using ring_Remove [OF rings(2) d(2) eu al(2)] by blast
    have "set (remove1 e use) \<subseteq> set use - {e}" using d(2) by (auto simp: set_remove1_eq)
    then have "ring c' lru_head lru" using ring_frame [OF rings(1) c'(3)] d(3) by auto
    moreover have "list_frame (insert lru_head (insert in_use_head (set lru \<union> set use)) - {e}) c c'"
      using c'(3) d eu nh \<open>set (remove1 e use) \<subseteq> set use - {e}\<close> by (auto simp: list_frame_def)
    ultimately show ?thesis using fin [OF c'(1)] c'(2) r1 by simp
  qed
qed

text \<open>The lists after an entry was appended to one of them. The entry may be a new one, whose \<open>next\<close> is not set.\<close>

definition lists_but :: "nat \<Rightarrow> 'v LRUCache \<Rightarrow> nat list \<Rightarrow> nat list \<Rightarrow> bool" where
  "lists_but e c lru use \<longleftrightarrow> ring c lru_head lru \<and> ring c in_use_head use \<and> distinct (lru_head # in_use_head # lru @ use) \<and>
     (\<forall>a \<in> dom (lc_handles c) - {e}. \<exists>nx. lc_next c a = Some nx \<and> nx \<noteq> a) \<and> set lru \<union> set use \<subseteq> dom (lc_handles c) - {e} \<and>
     lru_head \<notin> dom (lc_handles c) \<and> in_use_head \<notin> dom (lc_handles c) \<and> e \<in> dom (lc_handles c)"

lemma lists_ok_but: "lists_ok c lru use \<Longrightarrow> e \<in> dom (lc_handles c) \<Longrightarrow> e \<notin> set lru \<union> set use \<Longrightarrow> lists_but e c lru use"
  by (auto simp: lists_ok_def lists_but_def)

lemma lists_Append_final:
  assumes ok: "lists_but e c lru use" and r: "ring c' lru_head lru'" "ring c' in_use_head use'"
    and d: "distinct (lru' @ use')" "set lru' \<union> set use' = insert e (set lru \<union> set use)"
    and fr: "list_frame (insert lru_head (insert in_use_head (insert e (set lru \<union> set use)))) c c'"
  shows "lists_ok c' lru' use'"
proof -
  have h: "lru_head \<notin> insert e (set lru \<union> set use)" "in_use_head \<notin> insert e (set lru \<union> set use)" "lru_head \<noteq> in_use_head"
    using ok by (auto simp: lists_but_def)
  then have dd: "distinct (lru_head # in_use_head # lru' @ use')" using d by auto
  have "\<exists>nx. lc_next c' a = Some nx \<and> nx \<noteq> a" if a: "a \<in> dom (lc_handles c')" for a
  proof (cases "a \<in> set lru' \<union> set use'")
    case True
    then show ?thesis using ring_next [OF r(1)] ring_next [OF r(2)] dd by auto
  next
    case False
    have ad: "a \<in> dom (lc_handles c)" using a fr by (simp add: list_frame_def)
    then have "a \<noteq> lru_head" "a \<noteq> in_use_head" using ok by (auto simp: lists_but_def)
    then have "lc_next c' a = lc_next c a" using False d(2) fr by (auto simp: list_frame_def)
    then show ?thesis using ad ok False d(2) by (auto simp: lists_but_def)
  qed
  then show ?thesis using r dd d(2) ok fr by (auto simp: lists_ok_def lists_but_def list_frame_def)
qed

lemma lists_Append:
  assumes ok: "lists_but e c lru use"
  shows "\<exists>c'. LRU_Append lru_head e c = Some c' \<and> lists_ok c' (lru @ [e]) use \<and>
      list_frame (insert lru_head (insert in_use_head (insert e (set lru \<union> set use)))) c c'"
    and "\<exists>c'. LRU_Append in_use_head e c = Some c' \<and> lists_ok c' lru (use @ [e]) \<and>
      list_frame (insert lru_head (insert in_use_head (insert e (set lru \<union> set use)))) c c'"
proof -
  have rings: "ring c lru_head lru" "ring c in_use_head use" using ok by (simp_all add: lists_but_def)
  have d: "distinct (lru_head # lru)" "distinct (in_use_head # use)" "set (lru_head # lru) \<inter> set (in_use_head # use) = {}"
    "e \<notin> set (lru_head # lru)" "e \<notin> set (in_use_head # use)"
    using ok by (auto simp: lists_but_def)
  have al: "\<forall>a \<in> set (lru_head # e # lru). allocated c a" "\<forall>a \<in> set (in_use_head # e # use). allocated c a"
    using ok by (auto simp: lists_but_def allocated_def)
  obtain c1 where c1: "LRU_Append lru_head e c = Some c1" "ring c1 lru_head (lru @ [e])" "list_frame (set (lru_head # e # lru)) c c1"
    using ring_Append [OF rings(1) d(1,4) al(1)] by blast
  have "ring c1 in_use_head use" using ring_frame [OF rings(2) c1(3)] d by auto
  moreover have f1: "list_frame (insert lru_head (insert in_use_head (insert e (set lru \<union> set use)))) c c1"
    using c1(3) by (auto simp: list_frame_def)
  ultimately have "lists_ok c1 (lru @ [e]) use" using lists_Append_final [OF ok c1(2)] d by auto
  then show "\<exists>c'. LRU_Append lru_head e c = Some c' \<and> lists_ok c' (lru @ [e]) use \<and>
      list_frame (insert lru_head (insert in_use_head (insert e (set lru \<union> set use)))) c c'" using c1(1) f1 by blast
  obtain c2 where c2: "LRU_Append in_use_head e c = Some c2" "ring c2 in_use_head (use @ [e])" "list_frame (set (in_use_head # e # use)) c c2"
    using ring_Append [OF rings(2) d(2,5) al(2)] by blast
  have "ring c2 lru_head lru" using ring_frame [OF rings(1) c2(3)] d by auto
  moreover have f2: "list_frame (insert lru_head (insert in_use_head (insert e (set lru \<union> set use)))) c c2"
    using c2(3) by (auto simp: list_frame_def)
  ultimately have "lists_ok c2 lru (use @ [e])" using lists_Append_final [OF ok _ c2(2)] d by auto
  then show "\<exists>c'. LRU_Append in_use_head e c = Some c' \<and> lists_ok c' lru (use @ [e]) \<and>
      list_frame (insert lru_head (insert in_use_head (insert e (set lru \<union> set use)))) c c'" using c2(1) f2 by blast
qed

section \<open>References\<close>

lemma keeps_charge: "keeps c c' \<Longrightarrow> a \<in> dom (lc_handles c') \<Longrightarrow> charge_of c' a = charge_of c a"
  by (force simp: keeps_def charge_of_def)

lemma keeps_same_key: "keeps c c' \<Longrightarrow> same_key c' a b \<Longrightarrow> same_key c a b"
  unfolding keeps_def same_key_def by metis

lemma keeps_on: "keeps c c' \<Longrightarrow> \<forall>a \<in> A. \<forall>h'. lc_handles c' a = Some h' \<longrightarrow>
    (\<exists>h. lc_handles c a = Some h \<and> h_key h' = h_key h \<and> h_hash h' = h_hash h)"
  unfolding keeps_def by blast

lemma keeps_capacity: "keeps c c' \<Longrightarrow> lc_capacity c' = lc_capacity c"
  by (simp add: keeps_def)

lemma lru_inv_step_on:
  assumes inv: "lru_inv c lru use bk refs X" and l: "lists_ok c' lru' use'" 
    and k: "\<forall>a \<in> set (concat bk). \<forall>h'. lc_handles c' a = Some h' \<longrightarrow>
      (\<exists>h. lc_handles c a = Some h \<and> h_key h' = h_key h \<and> h_hash h' = h_hash h)" "lc_capacity c' = lc_capacity c"
    and t: "lc_table c' = lc_table c" "\<forall>a \<in> set (concat bk). lc_next_hash c' a = lc_next_hash c a"
    and s: "set (concat bk) = set lru' \<union> set use' - X'" "X' \<subseteq> set lru' \<union> set use'"
    and h: "handles_ok c' (set lru' \<union> set use') refs'" "\<forall>a \<in> set lru'. refs' a = 0" "\<forall>a \<in> set use'. 0 < refs' a"
    and u: "lc_usage c' = (\<Sum>a \<in> set lru' \<union> set use'. charge_of c' a)" "lc_fresh c \<le> lc_fresh c'"
  shows "lru_inv c' lru' use' bk refs' X'"
proof -
  have dm: "a \<in> dom (lc_handles c')" if "a \<in> set (concat bk)" for a
    using that s(1) l unfolding lists_ok_def by blast
  have "table_ok c' bk"
  proof (rule table_ok_mono [OF _ t])
    show "table_ok c bk" using inv by (simp add: lru_inv_def)
    show "\<forall>a \<in> set (concat bk). \<forall>h. entry c a h \<longrightarrow> (\<exists>h'. entry c' a h' \<and> h_hash h' = h_hash h)"
    proof (intro ballI allI impI)
      fix a h assume a: "a \<in> set (concat bk)" "entry c a h"
      then obtain h' where h': "lc_handles c' a = Some h'" using dm by blast
      then have "h_hash h' = h_hash h" using a k(1) by (force simp: entry_def)
      moreover have "\<exists>nx. lc_next c' a = Some nx \<and> nx \<noteq> a" using l h' by (auto simp: lists_ok_def)
      ultimately show "\<exists>h'. entry c' a h' \<and> h_hash h' = h_hash h" using h' by (auto simp: entry_def)
    qed
  qed
  moreover have "\<forall>a \<in> set (concat bk). \<forall>b \<in> set (concat bk). same_key c' a b \<longrightarrow> a = b"
  proof (intro ballI impI)
    fix a b assume a: "a \<in> set (concat bk)" "b \<in> set (concat bk)" "same_key c' a b"
    then have "same_key c a b" using k(1) unfolding same_key_def by metis
    then show "a = b" using inv a unfolding lru_inv_def by blast
  qed
  ultimately show ?thesis using inv l s h u k(2) unfolding lru_inv_def by (auto simp del: set_concat)
qed

lemma lru_inv_step:
  assumes inv: "lru_inv c lru use bk refs X" and l: "lists_ok c' lru' use'" and k: "keeps c c'"
    and t: "lc_table c' = lc_table c" "\<forall>a \<in> set (concat bk). lc_next_hash c' a = lc_next_hash c a"
    and s: "set (concat bk) = set lru' \<union> set use' - X'" "X' \<subseteq> set lru' \<union> set use'"
    and h: "handles_ok c' (set lru' \<union> set use') refs'" "\<forall>a \<in> set lru'. refs' a = 0" "\<forall>a \<in> set use'. 0 < refs' a"
    and u: "lc_usage c' = (\<Sum>a \<in> set lru' \<union> set use'. charge_of c' a)" "lc_fresh c \<le> lc_fresh c'"
  shows "lru_inv c' lru' use' bk refs' X'"
  by (rule lru_inv_step_on [OF inv l keeps_on [OF k] keeps_capacity [OF k] t s h u])

lemma frame_keeps: "list_frame A c c' \<Longrightarrow> keeps c c'"
  by (simp add: list_frame_def keeps_def)

lemma lists_upd: "lists_ok c lru use \<Longrightarrow> e \<in> dom (lc_handles c) \<Longrightarrow> lists_ok (c\<lparr>lc_handles := (lc_handles c)(e \<mapsto> h)\<rparr>) lru use"
  by (auto simp: lists_ok_def ring_def)

lemma inv_dom: "lru_inv c lru use bk refs X \<Longrightarrow> a \<in> set lru \<union> set use \<Longrightarrow> \<exists>h. lc_handles c a = Some h \<and> h_in_cache h"
  by (auto simp: lru_inv_def lists_ok_def handles_ok_def)

lemma handles_ok_upd:
  assumes ok: "handles_ok c S refs" and h: "lc_handles c e = Some h" "lc_handles c' = (lc_handles c)(e \<mapsto> h')" "lc_fresh c' = lc_fresh c"
    and h': "unat (h_refs h') = r + of_bool (h_in_cache h')" "h_refs h' \<noteq> 0" "h_in_cache h' \<longleftrightarrow> e \<in> S'" and S: "S' - {e} = S - {e}"
  shows "handles_ok c' S' (refs(e := r))"
  unfolding handles_ok_def
proof (intro conjI allI impI)
  fix a k assume a: "lc_handles c' a = Some k"
  have *: "in_use_head < a \<and> a < lc_fresh c' \<and> unat (h_refs k) = (refs(e := r)) a + of_bool (h_in_cache k) \<and> h_refs k \<noteq> 0 \<and> (h_in_cache k \<longleftrightarrow> a \<in> S')"
  proof (cases "a = e")
    case True
    have "in_use_head < e \<and> e < lc_fresh c" using ok h(1) unfolding handles_ok_def by blast
    with True a h h' show ?thesis by simp
  next
    case False
    then have ca: "lc_handles c a = Some k" using a h(2) by simp
    have "a \<in> S' \<longleftrightarrow> a \<in> S" using S False by blast
    moreover from ca have "in_use_head < a \<and> a < lc_fresh c \<and> unat (h_refs k) = refs a + of_bool (h_in_cache k) \<and> h_refs k \<noteq> 0 \<and> (h_in_cache k \<longleftrightarrow> a \<in> S)"
      using ok unfolding handles_ok_def by blast
    moreover have "(refs(e := r)) a = refs a" using False by simp
    ultimately show ?thesis unfolding h(3) by metis
  qed
  then show "in_use_head < a" "a < lc_fresh c'" "unat (h_refs k) = (refs(e := r)) a + of_bool (h_in_cache k)" "h_refs k \<noteq> 0"
    "h_in_cache k = (a \<in> S')" by blast+
next
  fix a assume a: "lc_handles c' a = None"
  then have ne: "a \<noteq> e" "lc_handles c a = None" using h(2) by (auto split: if_splits)
  then have "refs a = 0 \<and> a \<notin> S" using ok unfolding handles_ok_def by blast
  then show "(refs(e := r)) a = 0" "a \<notin> S'" using ne S by auto
qed

lemma LRU_Ref_on:
  assumes inv: "lru_inv c lru use bk refs {}" and e: "e \<in> set lru \<union> set use" and few: "refs e < max_refs"
  shows "\<exists>c' lru' use'. LRU_Ref e c = Some c' \<and> lru_inv c' lru' use' bk (refs(e := refs e + 1)) {} \<and> keeps c c' \<and>
    entries c' = entries c \<and> set lru' \<union> set use' = set lru \<union> set use \<and> set lru' \<subseteq> set lru \<and> lc_usage c' = lc_usage c"
proof -
  obtain h where h: "lc_handles c e = Some h" "h_in_cache h" using inv_dom [OF inv e] by blast
  have l: "lists_ok c lru use" and ho: "handles_ok c (set lru \<union> set use) refs"
    and r: "\<forall>a \<in> set lru. refs a = 0" "\<forall>a \<in> set use. 0 < refs a" using inv by (simp_all add: lru_inv_def)
  have refs: "unat (h_refs h) = refs e + 1" using ho h by (auto simp: handles_ok_def)
  have up: "unat (h_refs h + 1) = refs e + 2" "h_refs h + 1 \<noteq> 0" using refs_up [of "h_refs h"] refs few by (simp_all add: max_refs_def)
  have "\<exists>c1 lru' use'. (if h_refs h = 1 \<and> h_in_cache h then do { c \<leftarrow> LRU_Remove e c; LRU_Append in_use_head e c } else Some c) = Some c1 \<and>
      lists_ok c1 lru' use' \<and> (\<exists>A. list_frame A c c1) \<and> set lru' = set lru - {e} \<and> set use' = insert e (set use)"
  proof (cases "e \<in> set lru")
    case True
    then have one: "h_refs h = 1" using refs r(1) by (simp add: unat_eq_1)
    obtain c0 where c0: "LRU_Remove e c = Some c0" "lists_ok c0 (remove1 e lru) (remove1 e use)"
      "list_frame (insert lru_head (insert in_use_head (set lru \<union> set use)) - {e}) c c0" using lists_Remove [OF l e] by blast
    have d: "distinct lru" "e \<notin> set use" using l True by (auto simp: lists_ok_def)
    then have r1: "remove1 e use = use" "set (remove1 e lru) = set lru - {e}" by (simp_all add: remove1_idem set_remove1_eq)
    have "lists_but e c0 (remove1 e lru) use"
      using lists_ok_but [OF c0(2) [unfolded r1]] c0(3) h(1) r1 d by (auto simp: list_frame_def)
    from lists_Append(2) [OF this] obtain c1 where c1: "LRU_Append in_use_head e c0 = Some c1" "lists_ok c1 (remove1 e lru) (use @ [e])"
      "list_frame (insert lru_head (insert in_use_head (insert e (set (remove1 e lru) \<union> set use)))) c0 c1" by blast
    have "list_frame UNIV c c1" using c0(3) c1(3) by (simp add: list_frame_def)
    moreover have "(if h_refs h = 1 \<and> h_in_cache h then do { c \<leftarrow> LRU_Remove e c; LRU_Append in_use_head e c } else Some c) = Some c1"
      using c0(1) c1(1) one h(2) by simp
    ultimately show ?thesis using c1(2) r1(2)
      by (intro exI [of _ c1] exI [of _ "remove1 e lru"] exI [of _ "use @ [e]"] conjI exI [of _ UNIV]) simp_all
  next
    case False
    then have u: "e \<in> set use" using e by blast
    then have "h_refs h \<noteq> 1" using refs r(2) by auto
    moreover have "list_frame {} c c" by (simp add: list_frame_def)
    ultimately show ?thesis using l u False by (intro exI [of _ c] exI [of _ lru] exI [of _ use]) auto
  qed
  then obtain c1 lru' use' A where c1: "(if h_refs h = 1 \<and> h_in_cache h then do { c \<leftarrow> LRU_Remove e c; LRU_Append in_use_head e c } else Some c) = Some c1"
    "lists_ok c1 lru' use'" "list_frame A c c1" "set lru' = set lru - {e}" "set use' = insert e (set use)" by blast
  let ?h = "h\<lparr>h_refs := h_refs h + 1\<rparr>"
  let ?c = "c1\<lparr>lc_handles := (lc_handles c1)(e \<mapsto> ?h)\<rparr>"
  have hd: "lc_handles c1 = lc_handles c" using c1(3) by (simp add: list_frame_def)
  have run: "LRU_Ref e c = Some ?c" using h(1) c1(1) by (simp add: LRU_Ref_def upd_handle_def hd)
  have k: "keeps c ?c" using h(1) c1(3) by (auto simp: keeps_def list_frame_def)
  have sets: "set lru' \<union> set use' = set lru \<union> set use" using c1(4,5) e by auto
  have "lru_inv ?c lru' use' bk (refs(e := refs e + 1)) {}"
  proof (rule lru_inv_step [OF inv _ k])
    show "lists_ok ?c lru' use'" using lists_upd [OF c1(2)] h(1) hd by auto
    show "lc_table ?c = lc_table c" "\<forall>a \<in> set (concat bk). lc_next_hash ?c a = lc_next_hash c a"
      using c1(3) by (simp_all add: list_frame_def)
    show "set (concat bk) = set lru' \<union> set use' - {}" using inv sets by (simp add: lru_inv_def)
    show "handles_ok ?c (set lru' \<union> set use') (refs(e := refs e + 1))"
      unfolding sets by (rule handles_ok_upd [OF ho h(1), of _ ?h]) (use h up c1(3) e in \<open>auto simp: list_frame_def\<close>)
    show "\<forall>a \<in> set lru'. (refs(e := refs e + 1)) a = 0" "\<forall>a \<in> set use'. 0 < (refs(e := refs e + 1)) a"
      using r c1(4,5) by auto
    have "charge_of ?c = charge_of c" using h(1) hd by (intro ext) (simp add: charge_of_def)
    then show "lc_usage ?c = (\<Sum>a \<in> set lru' \<union> set use'. charge_of ?c a)"
      using inv c1(3) unfolding sets by (simp add: lru_inv_def list_frame_def)
    show "lc_fresh c \<le> lc_fresh ?c" using c1(3) by (simp add: list_frame_def)
  qed simp
  moreover have "entries ?c = entries c"
    by (rule entries_update [OF h(1), of ?h]) (use c1(3) in \<open>simp_all add: list_frame_def\<close>)
  moreover have "lc_usage ?c = lc_usage c" using c1(3) by (simp add: list_frame_def)
  ultimately show ?thesis using run k sets c1(4) by blast
qed

text \<open>Giving up a reference.\<close>

lemma lists_next: "lists_ok c lru use \<Longrightarrow> lc_handles c e = Some h \<Longrightarrow> \<exists>nx. lc_next c e = Some nx \<and> nx \<noteq> e"
  unfolding lists_ok_def by blast

lemma lists_free:
  assumes l: "lists_ok c lru use" and e: "e \<notin> set lru \<union> set use" "e \<noteq> lru_head" "e \<noteq> in_use_head"
  shows "lists_ok (free_handle e (c\<lparr>lc_deleted := d\<rparr>)) lru use"
proof -
  let ?c = "free_handle e (c\<lparr>lc_deleted := d\<rparr>)"
  have "ring ?c lru_head lru" by (rule ring_cong [of c]) (use l e in \<open>auto simp: lists_ok_def free_handle_def\<close>)
  moreover have "ring ?c in_use_head use" by (rule ring_cong [of c]) (use l e in \<open>auto simp: lists_ok_def free_handle_def\<close>)
  ultimately show ?thesis using l e by (auto simp: lists_ok_def free_handle_def)
qed

lemma handles_ok_at:
  assumes "handles_ok c S refs" "lc_handles c a = Some h"
  shows "in_use_head < a" "a < lc_fresh c" "unat (h_refs h) = refs a + of_bool (h_in_cache h)" "h_refs h \<noteq> 0" "h_in_cache h = (a \<in> S)"
  using assms unfolding handles_ok_def by blast+

lemma handles_ok_free:
  assumes ok: "handles_ok c S refs" and c': "lc_handles c' = (lc_handles c)(e := None)" "lc_fresh c' = lc_fresh c" and e: "e \<notin> S"
  shows "handles_ok c' S (refs(e := 0))"
  unfolding handles_ok_def
proof (intro conjI allI impI)
  fix a k assume "lc_handles c' a = Some k"
  then have a: "a \<noteq> e" "lc_handles c a = Some k" using c'(1) by (auto split: if_splits)
  from a(2) have "in_use_head < a \<and> a < lc_fresh c \<and> unat (h_refs k) = refs a + of_bool (h_in_cache k) \<and> h_refs k \<noteq> 0 \<and> (h_in_cache k \<longleftrightarrow> a \<in> S)"
    using ok unfolding handles_ok_def by blast
  moreover have "(refs(e := 0)) a = refs a" using a(1) by simp
  ultimately show "in_use_head < a" "a < lc_fresh c'" "unat (h_refs k) = (refs(e := 0)) a + of_bool (h_in_cache k)" "h_refs k \<noteq> 0"
    "h_in_cache k = (a \<in> S)" unfolding c'(2) by (blast | metis)+
next
  fix a assume "lc_handles c' a = None"
  then have "a = e \<or> lc_handles c a = None" using c'(1) by (auto split: if_splits)
  then have "a = e \<or> refs a = 0 \<and> a \<notin> S" using ok unfolding handles_ok_def by blast
  then show "(refs(e := 0)) a = 0" "a \<notin> S" using e by auto
qed

lemma Unref_not_cached:
  assumes inv: "lru_inv c lru use bk refs {}" and h: "lc_handles c e = Some h" "\<not> h_in_cache h"
  shows "\<exists>c'. LRU_Unref e c = Some c' \<and> lru_inv c' lru use bk (refs(e := refs e - 1)) {} \<and> keeps c c' \<and> entries c' = entries c \<and>
    lc_usage c' = lc_usage c"
proof -
  have l: "lists_ok c lru use" and ho: "handles_ok c (set lru \<union> set use) refs"
    and r: "\<forall>a \<in> set lru. refs a = 0" "\<forall>a \<in> set use. 0 < refs a"
    and T: "set (concat bk) = set lru \<union> set use" "lc_usage c = (\<Sum>a \<in> set lru \<union> set use. charge_of c a)"
    using inv by (simp_all add: lru_inv_def)
  have refs: "unat (h_refs h) = refs e" "h_refs h \<noteq> 0" "e \<notin> set lru \<union> set use" using handles_ok_at [OF ho h(1)] h(2) by simp_all
  have he: "e \<noteq> lru_head" "e \<noteq> in_use_head" using l h(1) by (auto simp: lists_ok_def)
  let ?h = "h\<lparr>h_refs := h_refs h - 1\<rparr>"
  let ?c1 = "c\<lparr>lc_handles := (lc_handles c)(e \<mapsto> ?h)\<rparr>"
  have ch: "(\<Sum>a \<in> set lru \<union> set use. charge_of c'' a) = lc_usage c" if "\<forall>a. a \<noteq> e \<longrightarrow> lc_handles c'' a = lc_handles c a" for c'' :: "'a LRUCache"
    unfolding T(2) by (rule sum.cong) (use that refs(3) in \<open>auto simp: charge_of_def\<close>)
  show ?thesis
  proof (cases "h_refs h = 1")
    case True
    obtain nx where nx: "lc_next c e = Some nx" "nx \<noteq> e" using lists_next [OF l h(1)] by blast
    have key: "handle_key ?c1 e = Some (h_key h)" using nx by (simp add: handle_key_def)
    let ?c = "free_handle e (?c1\<lparr>lc_deleted := lc_deleted ?c1 @ [(h_key h, h_value h)]\<rparr>)"
    have run: "LRU_Unref e c = Some ?c" using h True key by (simp add: LRU_Unref_def upd_handle_def)
    have k: "keeps c ?c" by (simp add: keeps_def free_handle_def)
    have "lru_inv ?c lru use bk (refs(e := refs e - 1)) {}"
    proof (rule lru_inv_step [OF inv _ k])
      show "lists_ok ?c lru use"
        by (rule lists_free [OF lists_upd [OF l] refs(3) he]) (use h(1) in auto)
      show "lc_table ?c = lc_table c" by (simp add: free_handle_def)
      show "\<forall>a \<in> set (concat bk). lc_next_hash ?c a = lc_next_hash c a" unfolding T(1) using refs(3) by (simp add: free_handle_def)
      have "refs(e := refs e - 1) = refs(e := 0)" using True refs(1) by simp
      then show "handles_ok ?c (set lru \<union> set use) (refs(e := refs e - 1))"
        using handles_ok_free [OF ho _ _ refs(3), of ?c] by (simp add: free_handle_def)
      show "lc_usage ?c = (\<Sum>a \<in> set lru \<union> set use. charge_of ?c a)" using ch [of ?c] by (simp add: free_handle_def)
    qed (use T r refs(3) in \<open>auto simp: free_handle_def\<close>)
    moreover have "entries ?c = entries c"
      by (rule entries_free [OF h(1) handles_finite [OF ho]]) (simp_all add: free_handle_def)
    moreover have "lc_usage ?c = lc_usage c" by (simp add: free_handle_def)
    ultimately show ?thesis using run k by blast
  next
    case False
    have down: "unat (h_refs h - 1) = refs e - 1" "h_refs h - 1 \<noteq> 0" using refs(1,2) False by (simp_all add: unat_minus_one)
    have run: "LRU_Unref e c = Some ?c1" using h False refs(2) by (simp add: LRU_Unref_def upd_handle_def)
    have k: "keeps c ?c1" using h(1) by (auto simp: keeps_def)
    have "lru_inv ?c1 lru use bk (refs(e := refs e - 1)) {}"
    proof (rule lru_inv_step [OF inv _ k])
      show "lists_ok ?c1 lru use" by (rule lists_upd [OF l]) (use h(1) in auto)
      show "handles_ok ?c1 (set lru \<union> set use) (refs(e := refs e - 1))"
        by (rule handles_ok_upd [OF ho h(1), of _ ?h]) (use h refs down in auto)
      show "lc_usage ?c1 = (\<Sum>a \<in> set lru \<union> set use. charge_of ?c1 a)" using ch [of ?c1] by simp
    qed (use T r refs(3) in auto)
    moreover have "entries ?c1 = entries c" by (rule entries_update [OF h(1), of ?h]) simp_all
    ultimately show ?thesis using run k by (intro exI [of _ ?c1]) simp
  qed
qed

lemma Unref_cached:
  assumes inv: "lru_inv c lru use bk refs {}" and e: "e \<in> set use"
  shows "\<exists>c' lru' use'. LRU_Unref e c = Some c' \<and> lru_inv c' lru' use' bk (refs(e := refs e - 1)) {} \<and> keeps c c' \<and>
    entries c' = entries c \<and> set lru' \<union> set use' = set lru \<union> set use \<and> lc_usage c' = lc_usage c"
proof -
  have l: "lists_ok c lru use" and ho: "handles_ok c (set lru \<union> set use) refs"
    and r: "\<forall>a \<in> set lru. refs a = 0" "\<forall>a \<in> set use. 0 < refs a"
    and T: "set (concat bk) = set lru \<union> set use" "lc_usage c = (\<Sum>a \<in> set lru \<union> set use. charge_of c a)"
    using inv by (simp_all add: lru_inv_def)
  obtain h where h: "lc_handles c e = Some h" "h_in_cache h" using inv_dom [OF inv] e by blast
  have refs: "unat (h_refs h) = refs e + 1" "0 < refs e" using handles_ok_at [OF ho h(1)] h(2) r(2) e by simp_all
  have nz: "h_refs h \<noteq> 0" using handles_ok_at(4) [OF ho h(1)] .
  have down: "unat (h_refs h - 1) = refs e" "h_refs h - 1 \<noteq> 0" "h_refs h - 1 = 1 \<longleftrightarrow> refs e = 1"
  proof -
    show u: "unat (h_refs h - 1) = refs e" using refs(1) nz by (simp add: unat_minus_one)
    show "h_refs h - 1 \<noteq> 0" using u refs(2) by (metis less_irrefl unsigned_0)
    show "h_refs h - 1 = 1 \<longleftrightarrow> refs e = 1" unfolding unat_eq_1 u by simp
  qed
  have d: "distinct use" "e \<notin> set lru" using l e by (auto simp: lists_ok_def)
  let ?h = "h\<lparr>h_refs := h_refs h - 1\<rparr>"
  let ?c1 = "c\<lparr>lc_handles := (lc_handles c)(e \<mapsto> ?h)\<rparr>"
  have l1: "lists_ok ?c1 lru use" by (rule lists_upd [OF l]) (use h(1) in auto)
  have "\<exists>c2 lru' use'. (if h_refs h - 1 = 1 then do { c \<leftarrow> LRU_Remove e ?c1; LRU_Append lru_head e c } else Some ?c1) = Some c2 \<and>
      lists_ok c2 lru' use' \<and> list_frame UNIV ?c1 c2 \<and>
      (if refs e = 1 then set lru' = insert e (set lru) \<and> set use' = set use - {e} else lru' = lru \<and> use' = use)"
  proof (cases "refs e = 1")
    case True
    obtain c0 where c0: "LRU_Remove e ?c1 = Some c0" "lists_ok c0 (remove1 e lru) (remove1 e use)"
      "list_frame (insert lru_head (insert in_use_head (set lru \<union> set use)) - {e}) ?c1 c0" using lists_Remove [OF l1] e by blast
    have r1: "remove1 e lru = lru" "set (remove1 e use) = set use - {e}" using d by (simp_all add: remove1_idem set_remove1_eq)
    have "e \<in> dom (lc_handles c0)" using c0(3) by (simp add: list_frame_def)
    moreover have "e \<notin> set lru \<union> set (remove1 e use)" using d(2) r1(2) by blast
    ultimately have "lists_but e c0 lru (remove1 e use)" using lists_ok_but c0(2) r1(1) by metis
    from lists_Append(1) [OF this] obtain c2 where c2: "LRU_Append lru_head e c0 = Some c2" "lists_ok c2 (lru @ [e]) (remove1 e use)"
      "list_frame (insert lru_head (insert in_use_head (insert e (set lru \<union> set (remove1 e use))))) c0 c2" by blast
    have "list_frame UNIV ?c1 c2" using c0(3) c2(3) by (simp add: list_frame_def)
    then show ?thesis using c0(1) c2(1,2) True down(3) r1(2)
      by (intro exI [of _ c2] exI [of _ "lru @ [e]"] exI [of _ "remove1 e use"] conjI) simp_all
  next
    case False
    moreover have "list_frame UNIV ?c1 ?c1" by (simp add: list_frame_def)
    ultimately show ?thesis using l1 down(3)
      by (intro exI [of _ ?c1] exI [of _ lru] exI [of _ use] conjI) simp_all
  qed
  then obtain c2 lru' use' where c2: "(if h_refs h - 1 = 1 then do { c \<leftarrow> LRU_Remove e ?c1; LRU_Append lru_head e c } else Some ?c1) = Some c2"
    "lists_ok c2 lru' use'" "list_frame UNIV ?c1 c2"
    "if refs e = 1 then set lru' = insert e (set lru) \<and> set use' = set use - {e} else lru' = lru \<and> use' = use" by blast
  have hd: "lc_handles c2 = (lc_handles c)(e \<mapsto> ?h)" using c2(3) by (simp add: list_frame_def)
  have run: "LRU_Unref e c = Some c2"
  proof -
    show ?thesis using h c2(1) nz down(2) unfolding LRU_Unref_def upd_handle_def h(1) bind.bind_lunit by simp
  qed
  have k: "keeps c c2" using h(1) c2(3) by (auto simp: keeps_def list_frame_def)
  have sets: "set lru' \<union> set use' = set lru \<union> set use" using c2(4) e by (auto split: if_splits)
  have "lru_inv c2 lru' use' bk (refs(e := refs e - 1)) {}"
  proof (rule lru_inv_step [OF inv c2(2) k])
    show "lc_table c2 = lc_table c" "\<forall>a \<in> set (concat bk). lc_next_hash c2 a = lc_next_hash c a" "lc_fresh c \<le> lc_fresh c2"
      using c2(3) by (simp_all add: list_frame_def)
    show "set (concat bk) = set lru' \<union> set use' - {}" using T(1) sets by simp
    show "handles_ok c2 (set lru' \<union> set use') (refs(e := refs e - 1))"
      unfolding sets by (rule handles_ok_upd [OF ho h(1) hd]) (use h refs down nz c2(3) e in \<open>auto simp: list_frame_def\<close>)
    show "\<forall>a \<in> set lru'. (refs(e := refs e - 1)) a = 0" "\<forall>a \<in> set use'. 0 < (refs(e := refs e - 1)) a"
      using c2(4) r refs(2) by (auto split: if_splits)
    have "charge_of c2 = charge_of c" using h(1) hd by (intro ext) (simp add: charge_of_def)
    then show "lc_usage c2 = (\<Sum>a \<in> set lru' \<union> set use'. charge_of c2 a)"
      using T(2) c2(3) unfolding sets by (simp add: list_frame_def)
  qed simp
  moreover have "entries c2 = entries c" by (rule entries_update [OF h(1) _ _ _ hd]) (use c2(3) in \<open>simp_all add: list_frame_def\<close>)
  moreover have "lc_usage c2 = lc_usage c" using c2(3) by (simp add: list_frame_def)
  ultimately show ?thesis using run k sets by blast
qed

section \<open>Leaving the cache\<close>

lemma lru_inv_table:
  assumes inv: "lru_inv c lru use bk refs X" and t: "table_ok c' bk'" "table_frame c c'"
    and s: "set (concat bk') = set lru \<union> set use - X'" "X' \<subseteq> set lru \<union> set use"
    and u: "\<forall>a \<in> set (concat bk'). \<forall>b \<in> set (concat bk'). same_key c a b \<longrightarrow> a = b"
  shows "lru_inv c' lru use bk' refs X'"
proof -
  have "lists_ok c' lru use" using inv t(2) by (simp add: lru_inv_def lists_ok_def ring_def table_frame_def)
  moreover have "same_key c' = same_key c" "charge_of c' = charge_of c"
    using t(2) by (intro ext; simp add: same_key_def charge_of_def table_frame_def)+
  moreover have "handles_ok c' = handles_ok c" using t(2) by (intro ext) (simp add: handles_ok_def table_frame_def)
  then have "handles_ok c' (set lru \<union> set use) refs" using inv by (simp add: lru_inv_def)
  ultimately show ?thesis using inv t s u unfolding lru_inv_def table_frame_def by (simp del: set_concat)
qed

lemma frame_keeps_table: "table_frame c c' \<Longrightarrow> keeps c c' \<and> entries c' = entries c"
  by (simp add: table_frame_def keeps_def entries_def)

lemma FinishErase_on:
  assumes inv: "lru_inv c lru use bk refs {e}"
  shows "\<exists>c'. FinishErase (Some e) c = Some (True, c') \<and> lru_inv c' (remove1 e lru) (remove1 e use) bk refs {} \<and>
    keeps c c' \<and> entries c' = entries c"
proof -
  have e: "e \<in> set lru \<union> set use" using inv by (simp add: lru_inv_def)
  obtain h where h: "lc_handles c e = Some h" "h_in_cache h" using inv_dom [OF inv e] by blast
  have l: "lists_ok c lru use" and ho: "handles_ok c (set lru \<union> set use) refs"
    and r: "\<forall>a \<in> set lru. refs a = 0" "\<forall>a \<in> set use. 0 < refs a"
    and T: "set (concat bk) = set lru \<union> set use - {e}" "lc_usage c = (\<Sum>a \<in> set lru \<union> set use. charge_of c a)"
    using inv by (simp_all add: lru_inv_def)
  have d: "distinct lru" "distinct use" using l by (simp_all add: lists_ok_def)
  then have sets: "set (remove1 e lru) = set lru - {e}" "set (remove1 e use) = set use - {e}" by (simp_all add: set_remove1_eq)
  obtain c1 where c1: "LRU_Remove e c = Some c1" "lists_ok c1 (remove1 e lru) (remove1 e use)"
    "list_frame (insert lru_head (insert in_use_head (set lru \<union> set use)) - {e}) c c1" using lists_Remove [OF l e] by blast
  let ?h = "h\<lparr>h_in_cache := False\<rparr>"
  let ?c2 = "c1\<lparr>lc_handles := (lc_handles c1)(e \<mapsto> ?h), lc_usage := lc_usage c1 - h_charge h\<rparr>"
  have hd: "lc_handles c1 = lc_handles c" using c1(3) by (simp add: list_frame_def)
  have k: "keeps c ?c2" using h c1(3) by (auto simp: keeps_def list_frame_def)
  have inv2: "lru_inv ?c2 (remove1 e lru) (remove1 e use) bk (refs(e := refs e + 1)) {}"
  proof (rule lru_inv_step [OF inv _ k])
    have "lists_ok (c1\<lparr>lc_handles := (lc_handles c1)(e \<mapsto> ?h)\<rparr>) (remove1 e lru) (remove1 e use)"
      by (rule lists_upd [OF c1(2)]) (use h(1) hd in auto)
    then show "lists_ok ?c2 (remove1 e lru) (remove1 e use)" by (simp add: lists_ok_def ring_def)
    show "lc_table ?c2 = lc_table c" "\<forall>a \<in> set (concat bk). lc_next_hash ?c2 a = lc_next_hash c a" "lc_fresh c \<le> lc_fresh ?c2"
      using c1(3) by (simp_all add: list_frame_def)
    show "set (concat bk) = set (remove1 e lru) \<union> set (remove1 e use) - {}" unfolding sets T(1) by blast
    have "set (remove1 e lru) \<union> set (remove1 e use) = set lru \<union> set use - {e}" unfolding sets by blast
    moreover have "handles_ok ?c2 (set lru \<union> set use - {e}) (refs(e := refs e + 1))"
      by (rule handles_ok_upd [OF ho h(1), of _ ?h]) (use handles_ok_at [OF ho h(1)] h c1(3) hd in \<open>auto simp: list_frame_def\<close>)
    ultimately show "handles_ok ?c2 (set (remove1 e lru) \<union> set (remove1 e use)) (refs(e := refs e + 1))" by simp
    show "\<forall>a \<in> set (remove1 e lru). (refs(e := refs e + 1)) a = 0" "\<forall>a \<in> set (remove1 e use). 0 < (refs(e := refs e + 1)) a"
      unfolding sets using r by auto
    have "charge_of ?c2 = charge_of c" using h(1) hd by (intro ext) (simp add: charge_of_def)
    moreover have "lc_usage c = h_charge h + (\<Sum>a \<in> set lru \<union> set use - {e}. charge_of c a)"
      unfolding T(2) using h(1) e by (simp add: sum.remove [of _ e] charge_of_def)
    ultimately show "lc_usage ?c2 = (\<Sum>a \<in> set (remove1 e lru) \<union> set (remove1 e use). charge_of ?c2 a)"
      using c1(3) \<open>set (remove1 e lru) \<union> set (remove1 e use) = set lru \<union> set use - {e}\<close> by (simp add: list_frame_def)
  qed simp
  have "lc_handles ?c2 e = Some ?h" "\<not> h_in_cache ?h" by simp_all
  from Unref_not_cached [OF inv2 this] obtain c' where c': "LRU_Unref e ?c2 = Some c'"
    "lru_inv c' (remove1 e lru) (remove1 e use) bk ((refs(e := refs e + 1))(e := (refs(e := refs e + 1)) e - 1)) {}"
    "keeps ?c2 c'" "entries c' = entries ?c2" by blast
  have "FinishErase (Some e) c = Some (True, c')"
    using c1(1) h hd c'(1) by (simp add: FinishErase_def upd_handle_def)
  moreover have "entries ?c2 = entries c" by (rule entries_update [OF h(1), of ?h]) (use c1(3) in \<open>simp_all add: list_frame_def\<close>)
  moreover have "(refs(e := refs e + 1))(e := (refs(e := refs e + 1)) e - 1) = refs" by simp
  ultimately show ?thesis using c'(2-4) keeps_trans [OF k c'(3)] by simp
qed

text \<open>An entry taken out of the table and out of the cache: what \<open>Erase\<close> does, and the eviction.\<close>

lemma Erase_on:
  assumes inv: "lru_inv c lru use bk refs {}"
  shows "\<exists>r c1 c' bk'. HandleTable_Remove c key hash = Some (r, c1) \<and> FinishErase r c1 = Some (r \<noteq> None, c') \<and>
    (case r of None \<Rightarrow> lru_inv c' lru use bk' refs {} \<and> (\<forall>a \<in> set lru \<union> set use. \<not> matches c key hash a)
     | Some a \<Rightarrow> a \<in> set lru \<union> set use \<and> matches c key hash a \<and> lru_inv c' (remove1 a lru) (remove1 a use) bk' refs {}) \<and>
    keeps c c' \<and> entries c' = entries c"
proof -
  have t: "table_ok c bk" "set (concat bk) = set lru \<union> set use" using inv by (simp_all add: lru_inv_def)
  have u: "\<forall>a \<in> set (concat bk). \<forall>b \<in> set (concat bk). same_key c a b \<longrightarrow> a = b" using inv unfolding lru_inv_def by blast
  obtain r c1 bk' where rm0: "HandleTable_Remove c key hash = Some (r, c1)" "table_ok c1 bk'" "table_frame c c1"
    "case r of None \<Rightarrow> c1 = c \<and> bk' = bk \<and> (\<forall>a \<in> set (concat bk). \<not> matches c key hash a)
     | Some a \<Rightarrow> a \<in> set (concat bk) \<and> matches c key hash a \<and> set (concat bk') = set (concat bk) - {a}"
    using HandleTable_Remove_on [OF t(1), of key hash] by blast
  have "set (concat bk') = set (concat bk) - set_option r"
    "case r of None \<Rightarrow> \<forall>a \<in> set (concat bk). \<not> matches c key hash a | Some a \<Rightarrow> a \<in> set (concat bk) \<and> matches c key hash a"
    using rm0(4) by (cases r; simp)+
  note rm = rm0(1-3) this
  have u': "\<forall>a \<in> set (concat bk'). \<forall>b \<in> set (concat bk'). same_key c a b \<longrightarrow> a = b" using u rm(4) by blast
  note k = frame_keeps_table [OF rm(3)]
  show ?thesis
  proof (cases r)
    case None
    have "lru_inv c1 lru use bk' refs {}"
      by (rule lru_inv_table [OF inv rm(2,3) _ _ u']) (use rm(4) None t(2) in simp_all)
    moreover have "\<forall>a \<in> set lru \<union> set use. \<not> matches c key hash a" using rm(5) None unfolding t(2) by simp
    ultimately show ?thesis using rm(1) None k
      by (intro exI [of _ r] exI [of _ c1] exI [of _ bk']) (simp add: FinishErase_def)
  next
    case (Some a)
    have a: "a \<in> set lru \<union> set use" "matches c key hash a" using rm(5) Some unfolding t(2) by simp_all
    have "lru_inv c1 lru use bk' refs {a}"
      by (rule lru_inv_table [OF inv rm(2,3) _ _ u']) (use rm(4) Some t(2) a in simp_all)
    from FinishErase_on [OF this] obtain c' where c': "FinishErase (Some a) c1 = Some (True, c')"
      "lru_inv c' (remove1 a lru) (remove1 a use) bk' refs {}" "keeps c1 c'" "entries c' = entries c1" by blast
    moreover have "keeps c c'" using k c'(3) keeps_trans by blast
    ultimately show ?thesis using rm(1) Some k a
      by (intro exI [of _ r] exI [of _ c1] exI [of _ c'] exI [of _ bk'] conjI) simp_all
  qed
qed

lemma evict_oldest_on:
  assumes inv: "lru_inv c (e # lru) use bk refs {}"
  shows "\<exists>c' bk'. evict_oldest c = Some c' \<and> lru_inv c' lru use bk' refs {} \<and> keeps c c' \<and> entries c' = entries c"
proof -
  have l: "lists_ok c (e # lru) use" using inv by (simp add: lru_inv_def)
  then have nx: "lc_next c lru_head = Some e" by (simp add: lists_ok_def ring_def)
  obtain h where h: "lc_handles c e = Some h" using inv_dom [OF inv] by auto
  have key: "handle_key c e = Some (h_key h)" using lists_next [OF l h] h by (auto simp: handle_key_def)
  have me: "matches c (h_key h) (h_hash h) e" using h by (simp add: matches_def)
  obtain r c1 c' bk' where r: "HandleTable_Remove c (h_key h) (h_hash h) = Some (r, c1)" "FinishErase r c1 = Some (r \<noteq> None, c')"
    "case r of None \<Rightarrow> lru_inv c' (e # lru) use bk' refs {} \<and> (\<forall>a \<in> set (e # lru) \<union> set use. \<not> matches c (h_key h) (h_hash h) a)
     | Some a \<Rightarrow> a \<in> set (e # lru) \<union> set use \<and> matches c (h_key h) (h_hash h) a \<and> lru_inv c' (remove1 a (e # lru)) (remove1 a use) bk' refs {}"
    "keeps c c'" "entries c' = entries c" using Erase_on [OF inv, of "h_key h" "h_hash h"] by blast
  obtain a where a: "r = Some a" "a \<in> set (e # lru) \<union> set use" "matches c (h_key h) (h_hash h) a"
    "lru_inv c' (remove1 a (e # lru)) (remove1 a use) bk' refs {}" using r(3) me by (cases r) auto
  have "same_key c a e" using a(3) h by (auto simp: same_key_def matches_def split: option.splits)
  moreover have "set (concat bk) = set (e # lru) \<union> set use" using inv by (simp add: lru_inv_def)
  ultimately have "a = e" using inv a(2) unfolding lru_inv_def by (metis Un_iff list.set_intros(1))
  moreover have "e \<notin> set use" using l by (auto simp: lists_ok_def)
  ultimately have "lru_inv c' lru use bk' refs {}" using a(4) by (simp add: remove1_idem)
  moreover have "h_refs h = 1"
  proof -
    have "handles_ok c (set (e # lru) \<union> set use) refs" "refs e = 0" using inv by (simp_all add: lru_inv_def)
    then show ?thesis using handles_ok_at(3,5) [of c _ refs e h] h unfolding unat_eq_1 by simp
  qed
  then have "evict_oldest c = Some c'" using nx key h r(1,2) a(1) by (simp add: evict_oldest_def)
  ultimately show ?thesis using r(4,5) by blast
qed

text \<open>The eviction stops: when the usage is within the capacity, or when every entry is in use.\<close>

lemma evict_loop_on:
  assumes "lru_inv c lru use bk refs {}"
  shows "\<exists>c' lru' bk'. evict_loop c = Some c' \<and> lru_inv c' lru' use bk' refs {} \<and> keeps c c' \<and> entries c' = entries c \<and>
    (lc_usage c' \<le> lc_capacity c' \<or> lru' = []) \<and> (\<exists>n. lru' = drop n lru) \<and> (lc_usage c \<le> lc_capacity c \<longrightarrow> lru' = lru)"
  using assms
proof (induction lru arbitrary: c bk)
  case Nil
  then have "lc_next c lru_head = Some lru_head" by (simp add: lru_inv_def lists_ok_def ring_def)
  then have "evict_loop c = Some c" by (subst evict_loop.simps) simp
  then show ?case using Nil keeps_refl [of c] by (intro exI [of _ c] exI [of _ "[]"] exI [of _ bk]) simp
next
  case (Cons e lru)
  have nx: "lc_next c lru_head = Some e" "e \<noteq> lru_head" using Cons.prems by (simp_all add: lru_inv_def lists_ok_def ring_def)
  show ?case
  proof (cases "lc_capacity c < lc_usage c")
    case True
    obtain c1 bk1 where c1: "evict_oldest c = Some c1" "lru_inv c1 lru use bk1 refs {}" "keeps c c1" "entries c1 = entries c"
      using evict_oldest_on [OF Cons.prems] by blast
    have "evict_loop c = evict_loop c1" using nx True c1(1) by (subst evict_loop.simps) simp
    moreover obtain c' lru' bk' n where c': "evict_loop c1 = Some c'" "lru_inv c' lru' use bk' refs {}" "keeps c1 c'" "entries c' = entries c1"
      "lc_usage c' \<le> lc_capacity c' \<or> lru' = []" "lru' = drop n lru" using Cons.IH [OF c1(2)] by blast
    moreover have "\<exists>m. lru' = drop m (e # lru)" using c'(6) by (intro exI [of _ "Suc n"]) simp
    moreover have "\<not> lc_usage c \<le> lc_capacity c" using True by simp
    moreover have "keeps c c'" using keeps_trans c1(3) c'(3) by blast
    ultimately show ?thesis using c1(4) by metis
  next
    case False
    then have "evict_loop c = Some c" using nx by (subst evict_loop.simps) simp
    moreover have "e # lru = drop 0 (e # lru)" by simp
    ultimately show ?thesis using Cons.prems keeps_refl [of c] False
      by (intro exI [of _ c] exI [of _ "e # lru"] exI [of _ bk] conjI exI [of _ 0]) simp_all
  qed
qed

lemma LRUCache_Prune_on:
  assumes "lru_inv c lru use bk refs {}"
  shows "\<exists>c' bk'. LRUCache_Prune c = Some c' \<and> lru_inv c' [] use bk' refs {} \<and> keeps c c' \<and> entries c' = entries c"
  using assms
proof (induction lru arbitrary: c bk)
  case Nil
  then have "lc_next c lru_head = Some lru_head" by (simp add: lru_inv_def lists_ok_def ring_def)
  then have "LRUCache_Prune c = Some c" by (subst LRUCache_Prune.simps) simp
  then show ?case using Nil keeps_refl by blast
next
  case (Cons e lru)
  have nx: "lc_next c lru_head = Some e" "e \<noteq> lru_head" using Cons.prems by (simp_all add: lru_inv_def lists_ok_def ring_def)
  obtain c1 bk1 where c1: "evict_oldest c = Some c1" "lru_inv c1 lru use bk1 refs {}" "keeps c c1" "entries c1 = entries c"
    using evict_oldest_on [OF Cons.prems] by blast
  have "LRUCache_Prune c = LRUCache_Prune c1" using nx c1(1) by (subst LRUCache_Prune.simps) simp
  then show ?case using Cons.IH [OF c1(2)] c1(3,4) keeps_trans by metis
qed

section \<open>The operations\<close>

lemma table_elems_lists:
  assumes "lru_inv c lru use bk refs {}"
  shows "unat (ht_elems (lc_table c)) = card (set lru \<union> set use)"
proof -
  have "table_ok c bk" "set (concat bk) = set lru \<union> set use" using assms by (simp_all add: lru_inv_def)
  then show ?thesis using table_elems distinct_card unfolding table_ok_def by metis
qed

lemma lru_inv_lists: "lru_inv c lru use bk refs X \<Longrightarrow> distinct (lru @ use)"
  by (simp add: lru_inv_def lists_ok_def)

lemma LRUCache_Lookup_on:
  assumes inv: "lru_inv c lru use bk refs {}" and few: "\<forall>a. refs a < max_refs"
  shows "\<exists>r c'. LRUCache_Lookup key hash c = Some (r, c') \<and> keeps c c' \<and> entries c' = entries c \<and> lc_usage c' = lc_usage c \<and>
    (case r of None \<Rightarrow> c' = c \<and> (\<forall>a \<in> set lru \<union> set use. \<not> matches c key hash a)
     | Some a \<Rightarrow> a \<in> set lru \<union> set use \<and> matches c key hash a \<and>
         (\<exists>lru' use'. lru_inv c' lru' use' bk (refs(a := refs a + 1)) {} \<and> set lru' \<union> set use' = set lru \<union> set use \<and> set lru' \<subseteq> set lru))"
proof -
  have t: "table_ok c bk" "set (concat bk) = set lru \<union> set use" using inv by (simp_all add: lru_inv_def)
  obtain r where r: "HandleTable_Lookup c key hash = Some r"
    "case r of None \<Rightarrow> \<forall>a \<in> set lru \<union> set use. \<not> matches c key hash a | Some a \<Rightarrow> a \<in> set lru \<union> set use \<and> matches c key hash a"
    using HandleTable_Lookup_on [OF t(1), of key hash] unfolding t(2) by blast
  show ?thesis
  proof (cases r)
    case None
    then show ?thesis using r keeps_refl [of c]
      by (intro exI [of _ r] exI [of _ c]) (simp add: LRUCache_Lookup_def)
  next
    case (Some a)
    have a: "a \<in> set lru \<union> set use" "matches c key hash a" using r(2) Some by simp_all
    obtain c' lru' use' where c': "LRU_Ref a c = Some c'" "lru_inv c' lru' use' bk (refs(a := refs a + 1)) {}" "keeps c c'"
      "entries c' = entries c" "set lru' \<union> set use' = set lru \<union> set use" "set lru' \<subseteq> set lru" "lc_usage c' = lc_usage c"
      using LRU_Ref_on [OF inv a(1) few [rule_format]] by blast
    have "LRUCache_Lookup key hash c = Some (r, c')" using r(1) Some c'(1) by (simp add: LRUCache_Lookup_def)
    moreover have "\<exists>lru' use'. lru_inv c' lru' use' bk (refs(a := refs a + 1)) {} \<and> set lru' \<union> set use' = set lru \<union> set use \<and> set lru' \<subseteq> set lru"
      using c'(2,5,6) by blast
    ultimately show ?thesis using c'(3,4,7) a by (intro exI [of _ r] exI [of _ c']) (simp add: Some)
  qed
qed

lemma LRUCache_Erase_on:
  assumes inv: "lru_inv c lru use bk refs {}"
  shows "\<exists>c' lru' use' bk'. LRUCache_Erase key hash c = Some c' \<and> lru_inv c' lru' use' bk' refs {} \<and> keeps c c' \<and> entries c' = entries c \<and>
    set lru' \<union> set use' = {a \<in> set lru \<union> set use. \<not> matches c key hash a}"
proof -
  obtain r c1 c' bk' where r: "HandleTable_Remove c key hash = Some (r, c1)" "FinishErase r c1 = Some (r \<noteq> None, c')"
    "case r of None \<Rightarrow> lru_inv c' lru use bk' refs {} \<and> (\<forall>a \<in> set lru \<union> set use. \<not> matches c key hash a)
     | Some a \<Rightarrow> a \<in> set lru \<union> set use \<and> matches c key hash a \<and> lru_inv c' (remove1 a lru) (remove1 a use) bk' refs {}"
    "keeps c c'" "entries c' = entries c" using Erase_on [OF inv, of key hash] by blast
  have run: "LRUCache_Erase key hash c = Some c'" using r(1,2) by (simp add: LRUCache_Erase_def)
  show ?thesis
  proof (cases r)
    case None
    then have "set lru \<union> set use = {a \<in> set lru \<union> set use. \<not> matches c key hash a}" using r(3) by auto
    then show ?thesis using run r(3-5) None by (intro exI [of _ c'] exI [of _ lru] exI [of _ use] exI [of _ bk']) simp
  next
    case (Some a)
    have d: "distinct lru" "distinct use" "set lru \<inter> set use = {}" using lru_inv_lists [OF inv] by simp_all
    have a: "matches c key hash a" "a \<in> set lru \<union> set use" "lru_inv c' (remove1 a lru) (remove1 a use) bk' refs {}" using r(3) Some by simp_all
    have "b = a" if "b \<in> set lru \<union> set use" "matches c key hash b" for b
    proof -
      have "same_key c b a" using that(2) a(1) by (auto simp: same_key_def matches_def split: option.splits)
      moreover have "set (concat bk) = set lru \<union> set use" using inv by (simp add: lru_inv_def)
      ultimately show ?thesis using inv that(1) a(2) unfolding lru_inv_def by metis
    qed
    then have "{b \<in> set lru \<union> set use. \<not> matches c key hash b} = set lru \<union> set use - {a}" using a(1) by blast
    moreover have "set (remove1 a lru) \<union> set (remove1 a use) = set lru \<union> set use - {a}" using d by (auto simp: set_remove1_eq)
    ultimately show ?thesis using run r(4,5) a(3)
      by (intro exI [of _ c'] exI [of _ "remove1 a lru"] exI [of _ "remove1 a use"] exI [of _ bk']) simp
  qed
qed

lemma LRUCache_Release_on:
  assumes inv: "lru_inv c lru use bk refs {}" and h: "0 < refs e"
  shows "\<exists>c' lru' use'. LRUCache_Release e c = Some c' \<and> lru_inv c' lru' use' bk (refs(e := refs e - 1)) {} \<and> keeps c c' \<and>
    entries c' = entries c \<and> set lru' \<union> set use' = set lru \<union> set use \<and> lc_usage c' = lc_usage c"
proof -
  have ho: "handles_ok c (set lru \<union> set use) refs" and r: "\<forall>a \<in> set lru. refs a = 0" using inv by (simp_all add: lru_inv_def)
  obtain hd where hd: "lc_handles c e = Some hd" using h ho unfolding handles_ok_def by (metis not_gr_zero not_None_eq)
  show ?thesis
  proof (cases "h_in_cache hd")
    case True
    then have "e \<in> set use" using handles_ok_at(5) [OF ho hd] r h by auto
    then show ?thesis using Unref_cached [OF inv] by (simp add: LRUCache_Release_def)
  next
    case False
    then show ?thesis using Unref_not_cached [OF inv hd] unfolding LRUCache_Release_def by blast
  qed
qed

text \<open>A new entry: in the list of those in use, not yet in the table.\<close>

lemma fresh_handle: "handles_ok c S refs \<Longrightarrow> lc_handles c (lc_fresh c) = None"
  unfolding handles_ok_def by (metis less_irrefl not_None_eq)

lemma insert_entry:
  fixes c :: "'v LRUCache" and v :: 'v and charge key hash
  assumes inv: "lru_inv c lru use bk refs {}"
  defines "e \<equiv> lc_fresh c" and "h \<equiv> \<lparr>h_value = v, h_charge = charge, h_key = key, h_in_cache = True, h_refs = 2, h_hash = hash\<rparr>"
  shows "\<exists>c1. LRU_Append in_use_head e (c\<lparr>lc_fresh := e + 1, lc_handles := (lc_handles c)(e \<mapsto> h)\<rparr>) = Some c1 \<and>
    lru_inv (c1\<lparr>lc_usage := lc_usage c1 + charge\<rparr>) lru (use @ [e]) bk (refs(e := 1)) {e} \<and>
    lc_handles c1 = (lc_handles c)(e \<mapsto> h) \<and> lc_deleted c1 = lc_deleted c \<and> lc_capacity c1 = lc_capacity c \<and> lc_table c1 = lc_table c \<and> e \<notin> set lru \<union> set use \<and>
    lc_handles c e = None"
proof -
  have l: "lists_ok c lru use" and ho: "handles_ok c (set lru \<union> set use) refs"
    and r: "\<forall>a \<in> set lru. refs a = 0" "\<forall>a \<in> set use. 0 < refs a" and f: "in_use_head < e"
    and T: "set (concat bk) = set lru \<union> set use" "lc_usage c = (\<Sum>a \<in> set lru \<union> set use. charge_of c a)"
    using inv by (simp_all add: lru_inv_def e_def)
  have none: "lc_handles c e = None" unfolding e_def by (rule fresh_handle [OF ho])
  then have e: "e \<notin> set lru \<union> set use" using ho unfolding handles_ok_def by blast
  let ?c = "c\<lparr>lc_fresh := e + 1, lc_handles := (lc_handles c)(e \<mapsto> h)\<rparr>"
  have "lru_head < e" "e \<noteq> in_use_head" using f by (simp_all add: head_defs)
  then have "lists_but e ?c lru use" using l e none by (auto simp: lists_but_def lists_ok_def ring_def)
  from lists_Append(2) [OF this] obtain c1 where c1: "LRU_Append in_use_head e ?c = Some c1" "lists_ok c1 lru (use @ [e])"
    "list_frame (insert lru_head (insert in_use_head (insert e (set lru \<union> set use)))) ?c c1" by blast
  let ?c1 = "c1\<lparr>lc_usage := lc_usage c1 + charge\<rparr>"
  have hd: "lc_handles c1 = (lc_handles c)(e \<mapsto> h)" "lc_fresh c1 = e + 1" "lc_deleted c1 = lc_deleted c" "lc_capacity c1 = lc_capacity c"
    "lc_usage c1 = lc_usage c" "lc_table c1 = lc_table c"
    using c1(3) by (simp_all add: list_frame_def)
  have sets: "set lru \<union> set (use @ [e]) = insert e (set lru \<union> set use)" by auto
  have "lru_inv ?c1 lru (use @ [e]) bk (refs(e := 1)) {e}"
  proof (rule lru_inv_step_on [OF inv])
    show "lists_ok ?c1 lru (use @ [e])" using c1(2) by (simp add: lists_ok_def ring_def)
    show "\<forall>a \<in> set (concat bk). \<forall>h'. lc_handles ?c1 a = Some h' \<longrightarrow>
        (\<exists>h. lc_handles c a = Some h \<and> h_key h' = h_key h \<and> h_hash h' = h_hash h)"
      unfolding T(1) using e hd(1) by auto
    show "lc_capacity ?c1 = lc_capacity c" "lc_table ?c1 = lc_table c" "\<forall>a \<in> set (concat bk). lc_next_hash ?c1 a = lc_next_hash c a"
      "lc_fresh c \<le> lc_fresh ?c1" using c1(3) by (simp_all add: list_frame_def e_def)
    show "set (concat bk) = set lru \<union> set (use @ [e]) - {e}" unfolding sets T(1) using e by blast
    show "handles_ok ?c1 (set lru \<union> set (use @ [e])) (refs(e := 1))"
      unfolding handles_ok_def sets
    proof (intro conjI allI impI)
      fix a k assume "lc_handles ?c1 a = Some k"
      then have "a = e \<and> k = h \<or> a \<noteq> e \<and> lc_handles c a = Some k" using hd(1) by (auto split: if_splits)
      then show "in_use_head < a" "a < lc_fresh ?c1" "unat (h_refs k) = (refs(e := 1)) a + of_bool (h_in_cache k)" "h_refs k \<noteq> 0"
        "h_in_cache k = (a \<in> insert e (set lru \<union> set use))"
        using handles_ok_at [OF ho, of a k] f hd(2) unfolding e_def by (auto simp: h_def)
    next
      fix a assume "lc_handles ?c1 a = None"
      then have "a \<noteq> e" "lc_handles c a = None" using hd(1) by (auto split: if_splits)
      then show "(refs(e := 1)) a = 0" "a \<notin> insert e (set lru \<union> set use)" using ho unfolding handles_ok_def by auto
    qed
    show "\<forall>a \<in> set lru. (refs(e := 1)) a = 0" "\<forall>a \<in> set (use @ [e]). 0 < (refs(e := 1)) a" using r e by auto
    have "(\<Sum>a \<in> set lru \<union> set use. charge_of ?c1 a) = (\<Sum>a \<in> set lru \<union> set use. charge_of c a)"
      by (rule sum.cong) (use e hd(1) in \<open>auto simp: charge_of_def\<close>)
    moreover have "charge_of ?c1 e = charge" using hd(1) by (simp add: charge_of_def h_def)
    ultimately show "lc_usage ?c1 = (\<Sum>a \<in> set lru \<union> set (use @ [e]). charge_of ?c1 a)"
      unfolding sets using e hd(5) T(2) by (simp add: ac_simps)
  qed (use sets in auto)
  then show ?thesis using c1(1) hd e none by blast
qed

lemma entries_new:
  assumes "lc_handles c e = None" "lc_handles d = (lc_handles c)(e \<mapsto> h)" "lc_deleted d = lc_deleted c" "finite (dom (lc_handles c))"
  shows "entries d = add_mset (h_key h, h_value h) (entries c)"
proof -
  have "image_mset (\<lambda>x. (h_key (the (lc_handles d x)), h_value (the (lc_handles d x)))) (mset_set (dom (lc_handles c))) =
      image_mset (\<lambda>x. (h_key (the (lc_handles c x)), h_value (the (lc_handles c x)))) (mset_set (dom (lc_handles c)))"
    using assms by (intro image_mset_cong) auto
  moreover have "mset_set (dom (lc_handles d)) = add_mset e (mset_set (dom (lc_handles c)))"
    using assms by (simp add: domIff)
  ultimately show ?thesis using assms(2,3) by (simp add: entries_def)
qed

text \<open>What an insertion leaves: the new entry, in use, and entries with other keys; nothing else is evicted when they all fit.\<close>

definition inserted :: "'v LRUCache \<Rightarrow> nat list \<Rightarrow> nat list \<Rightarrow> slice \<Rightarrow> u32 \<Rightarrow> 'v \<Rightarrow> u64 \<Rightarrow> 'v LRUCache \<Rightarrow> nat list \<Rightarrow> nat list \<Rightarrow> bool" where
  "inserted c lru use key hash v charge c' lru' use' \<longleftrightarrow>
     (let e = lc_fresh c; S = {a \<in> set lru \<union> set use. \<not> matches c key hash a} in
      e \<in> set use' \<and> set lru' \<union> set use' \<subseteq> insert e S \<and>
      ((\<Sum>a \<in> S. charge_of c a) + charge \<le> lc_capacity c \<longrightarrow> set lru' \<union> set use' = insert e S) \<and>
      (lc_usage c' \<le> lc_capacity c' \<or> lru' = []) \<and>
      lc_handles c e = None \<and> (\<exists>h. lc_handles c' e = Some h \<and> h_value h = v \<and> h_key h = key \<and> h_hash h = hash \<and> h_charge h = charge) \<and>
      (\<forall>a h'. a \<noteq> e \<longrightarrow> lc_handles c' a = Some h' \<longrightarrow> (\<exists>h. lc_handles c a = Some h \<and> h_value h' = h_value h \<and> h_key h' = h_key h \<and>
         h_hash h' = h_hash h \<and> h_charge h' = h_charge h)) \<and>
      entries c' = add_mset (key, v) (entries c) \<and> lc_capacity c' = lc_capacity c)"

lemma same_key_matches:
  "lc_handles c e = Some h \<Longrightarrow> same_key c x e = matches c (h_key h) (h_hash h) x"
  "lc_handles c e = Some h \<Longrightarrow> same_key c e x = matches c (h_key h) (h_hash h) x"
  by (auto simp: same_key_def matches_def split: option.splits)

text \<open>The table gets the new entry, and the entry with the same key, when there is one, leaves the cache.\<close>

lemma insert_table:
  assumes inv: "lru_inv c lru use bk refs {e}" and e: "e \<in> set use" "lc_handles c e = Some h"
    and few: "unat (ht_elems (lc_table c)) < max_entries"
  shows "\<exists>r c1 c2 lru' use' bk'. HandleTable_Insert c e = Some (r, c1) \<and> FinishErase r c1 = Some (r \<noteq> None, c2) \<and>
    lru_inv c2 lru' use' bk' refs {} \<and> keeps c c2 \<and> entries c2 = entries c \<and>
    set lru' \<union> set use' = insert e {a \<in> set lru \<union> set use. \<not> matches c (h_key h) (h_hash h) a} \<and> e \<in> set use'"
proof -
  let ?m = "matches c (h_key h) (h_hash h)"
  have t: "table_ok c bk" and l: "lists_ok c lru use" and T: "set (concat bk) = set lru \<union> set use - {e}"
    and u: "\<forall>a \<in> set (concat bk). \<forall>b \<in> set (concat bk). same_key c a b \<longrightarrow> a = b"
    using inv unfolding lru_inv_def by blast+
  have en: "entry c e h" using lists_next [OF l e(2)] e(2) by (auto simp: entry_def)
  have ne: "e \<notin> set (concat bk)" unfolding T by blast
  obtain r c1 bk1 where c1: "HandleTable_Insert c e = Some (r, c1)" "table_ok c1 bk1" "table_frame c c1"
    "set (concat bk1) = insert e (set (concat bk) - set_option r)"
    "case r of None \<Rightarrow> \<forall>a \<in> set (concat bk). \<not> ?m a | Some a \<Rightarrow> a \<in> set (concat bk) \<and> ?m a"
    using HandleTable_Insert_on [OF t en ne few [unfolded table_elems [OF t]]] by blast
  have same: "same_key c x e = ?m x" "same_key c e x = ?m x" for x using same_key_matches [OF e(2)] by blast+
  have rs: "set_option r \<subseteq> set (concat bk)" using c1(5) by (cases r) (simp_all del: set_concat)
  have one: "?m a \<longleftrightarrow> a \<in> set_option r" if a: "a \<in> set (concat bk)" for a
  proof (cases r)
    case (Some b)
    then have b: "b \<in> set (concat bk)" "?m b" using c1(5) by simp_all
    have "same_key c a b" if "?m a" using that b(2) unfolding same_key_def matches_def by (force split: option.splits)
    then show ?thesis using u a b Some by auto
  qed (use c1(5) a in \<open>simp del: set_concat\<close>)
  have me: "?m e" using e(2) by (simp add: matches_def)
  have S: "insert e {a \<in> set lru \<union> set use. \<not> ?m a} = set lru \<union> set use - set_option r"
    using one rs e(1) me unfolding T by blast
  have inv1: "lru_inv c1 lru use bk1 refs (set_option r)"
  proof (rule lru_inv_table [OF inv c1(2,3)])
    show "set (concat bk1) = set lru \<union> set use - set_option r" using rs ne e(1) unfolding c1(4) unfolding T by blast
    show "set_option r \<subseteq> set lru \<union> set use" using rs unfolding T by blast
    have no: "\<not> same_key c x e \<and> \<not> same_key c e x" if "x \<in> set (concat bk) - set_option r" for x
    proof -
      have "\<not> ?m x" using one [of x] that by blast
      then show ?thesis unfolding same by blast
    qed
    show "\<forall>a \<in> set (concat bk1). \<forall>b \<in> set (concat bk1). same_key c a b \<longrightarrow> a = b"
    proof (intro ballI impI)
      fix a b assume "a \<in> set (concat bk1)" "b \<in> set (concat bk1)" and s: "same_key c a b"
      then have "a = e \<or> a \<in> set (concat bk) - set_option r" "b = e \<or> b \<in> set (concat bk) - set_option r" unfolding c1(4) by blast+
      then show "a = b" using u s no [of a] no [of b] by (elim disjE; blast)
    qed
  qed
  note k = frame_keeps_table [OF c1(3)]
  show ?thesis
  proof (cases r)
    case None
    then have "FinishErase r c1 = Some (r \<noteq> None, c1)" "lru_inv c1 lru use bk1 refs {}" "set lru \<union> set use - set_option r = set lru \<union> set use"
      using inv1 by (simp_all add: FinishErase_def)
    then show ?thesis using c1(1) k e(1) unfolding S
      by (intro exI [of _ r] exI [of _ c1] exI [of _ c1] exI [of _ lru] exI [of _ use] exI [of _ bk1]) simp
  next
    case (Some a)
    then have "lru_inv c1 lru use bk1 refs {a}" using inv1 by simp
    from FinishErase_on [OF this] obtain c2 where c2: "FinishErase (Some a) c1 = Some (True, c2)"
      "lru_inv c2 (remove1 a lru) (remove1 a use) bk1 refs {}" "keeps c1 c2" "entries c2 = entries c1" by blast
    have d: "distinct lru" "distinct use" "set lru \<inter> set use = {}" using lru_inv_lists [OF inv] by simp_all
    have "set (remove1 a lru) \<union> set (remove1 a use) = set lru \<union> set use - {a}" using d by (auto simp: set_remove1_eq)
    moreover have "a \<noteq> e" using rs Some ne by auto
    then have "e \<in> set (remove1 a use)" using e(1) d by (simp add: set_remove1_eq)
    moreover have "FinishErase r c1 = Some (r \<noteq> None, c2)" using c2(1) Some by simp
    moreover have "keeps c c2" "entries c2 = entries c" using k keeps_trans c2(3,4) by auto
    ultimately show ?thesis using c1(1) c2(2) S Some
      by (intro exI [of _ r] exI [of _ c1] exI [of _ c2] exI [of _ "remove1 a lru"] exI [of _ "remove1 a use"] exI [of _ bk1] conjI) simp_all
  qed
qed

lemma LRUCache_Insert_on:
  fixes c :: "'v LRUCache" and v :: 'v and charge key hash
  assumes inv: "lru_inv c lru use bk refs {}" and few: "unat (ht_elems (lc_table c)) < max_entries"
  shows "\<exists>c' lru' use' bk'. LRUCache_Insert key hash v charge c = Some (lc_fresh c, c') \<and>
    lru_inv c' lru' use' bk' (refs(lc_fresh c := 1)) {} \<and> inserted c lru use key hash v charge c' lru' use'"
proof -
  define e where "e = lc_fresh c"
  define h where "h = \<lparr>h_value = v, h_charge = charge, h_key = key, h_in_cache = True, h_refs = 2, h_hash = hash\<rparr>"
  let ?S = "{a \<in> set lru \<union> set use. \<not> matches c key hash a}"
  have cap: "0 < lc_capacity c" and ho: "handles_ok c (set lru \<union> set use) refs" using inv by (simp_all add: lru_inv_def)
  obtain c1 where c1: "LRU_Append in_use_head e (c\<lparr>lc_fresh := e + 1, lc_handles := (lc_handles c)(e \<mapsto> h)\<rparr>) = Some c1"
    "lru_inv (c1\<lparr>lc_usage := lc_usage c1 + charge\<rparr>) lru (use @ [e]) bk (refs(e := 1)) {e}"
    "lc_handles c1 = (lc_handles c)(e \<mapsto> h)" "lc_deleted c1 = lc_deleted c" "lc_capacity c1 = lc_capacity c" "e \<notin> set lru \<union> set use"
    "lc_handles c e = None" "lc_table c1 = lc_table c"
    using insert_entry [OF inv, where key = key and hash = hash and v = v and charge = charge] unfolding e_def h_def by blast
  let ?c1 = "c1\<lparr>lc_usage := lc_usage c1 + charge\<rparr>"
  have he: "lc_handles ?c1 e = Some h" "e \<in> set (use @ [e])" using c1(3) by simp_all
  have few1: "unat (ht_elems (lc_table ?c1)) < max_entries" using few c1(8) by simp
  have "{a \<in> set lru \<union> set (use @ [e]). \<not> matches ?c1 (h_key h) (h_hash h) a} = ?S"
    using c1(3,6) by (auto simp: matches_def h_def)
  then obtain r c2 c3 lru3 use3 bk3 where c3: "HandleTable_Insert ?c1 e = Some (r, c2)" "FinishErase r c2 = Some (r \<noteq> None, c3)"
    "lru_inv c3 lru3 use3 bk3 (refs(e := 1)) {}" "keeps ?c1 c3" "entries c3 = entries ?c1" "set lru3 \<union> set use3 = insert e ?S" "e \<in> set use3"
    using insert_table [OF c1(2) he(2,1) few1] by (elim exE conjE) simp
  obtain c' lru' bk' n where c': "evict_loop c3 = Some c'" "lru_inv c' lru' use3 bk' (refs(e := 1)) {}" "keeps c3 c'" "entries c' = entries c3"
    "lc_usage c' \<le> lc_capacity c' \<or> lru' = []" "lru' = drop n lru3" "lc_usage c3 \<le> lc_capacity c3 \<longrightarrow> lru' = lru3"
    using evict_loop_on [OF c3(3)] by blast
  have run: "LRUCache_Insert key hash v charge c = Some (e, c')"
    using c1(1) c3(1,2) c'(1) cap unfolding LRUCache_Insert_def e_def [symmetric] Let_def
    by (simp add: upd_handle_def h_def)
  have kp: "keeps ?c1 c'" using c3(4) c'(3) keeps_trans by blast
  have old: "\<exists>h. lc_handles c a = Some h \<and> h_value h' = h_value h \<and> h_key h' = h_key h \<and> h_hash h' = h_hash h \<and> h_charge h' = h_charge h"
    if "a \<noteq> e" "lc_handles c' a = Some h'" for a h'
    using kp that c1(3) unfolding keeps_def by fastforce
  have new: "\<exists>h. lc_handles c' e = Some h \<and> h_value h = v \<and> h_key h = key \<and> h_hash h = hash \<and> h_charge h = charge"
  proof -
    obtain h' where "lc_handles c' e = Some h'" using inv_dom [OF c'(2)] c3(7) by blast
    then show ?thesis using kp he(1) unfolding keeps_def by (force simp: h_def)
  qed
  have "entries ?c1 = add_mset (h_key h, h_value h) (entries c)"
    by (rule entries_new [OF c1(7)]) (use c1(3,4) handles_finite [OF ho] in simp_all)
  then have ent: "entries c' = add_mset (key, v) (entries c)" using c3(5) c'(4) by (simp add: h_def)
  have capacity: "lc_capacity c' = lc_capacity c" using kp c1(5) by (simp add: keeps_def)
  have sub: "set lru' \<union> set use3 \<subseteq> insert e ?S" using c'(6) c3(6) set_drop_subset by fastforce
  have usage: "lc_usage c3 = charge + (\<Sum>a \<in> ?S. charge_of c a)"
  proof -
    have ds: "insert e ?S \<subseteq> dom (lc_handles c3)" using c3(3) unfolding c3(6) [symmetric] lru_inv_def lists_ok_def by blast
    have "(\<Sum>a \<in> insert e ?S. charge_of c3 a) = (\<Sum>a \<in> insert e ?S. charge_of ?c1 a)"
      by (rule sum.cong) (use keeps_charge [OF c3(4)] ds in auto)
    also have "\<dots> = charge_of ?c1 e + (\<Sum>a \<in> ?S. charge_of ?c1 a)" using c1(6) by (simp add: sum.insert)
    also have "(\<Sum>a \<in> ?S. charge_of ?c1 a) = (\<Sum>a \<in> ?S. charge_of c a)"
      by (rule sum.cong) (use c1(3,6) in \<open>auto simp: charge_of_def\<close>)
    also have "charge_of ?c1 e = charge" using c1(3) by (simp add: charge_of_def h_def)
    finally show ?thesis using c3(3,6) by (simp add: lru_inv_def)
  qed
  have "lc_capacity c3 = lc_capacity c" using c3(4) c1(5) by (simp add: keeps_def)
  then have room: "(\<Sum>a \<in> ?S. charge_of c a) + charge \<le> lc_capacity c \<longrightarrow> set lru' \<union> set use3 = insert e ?S"
    using usage c'(7) c3(6) by (simp add: add.commute)
  have "inserted c lru use key hash v charge c' lru' use3"
    unfolding inserted_def Let_def e_def [symmetric]
    using c3(7) sub room c'(5) c1(7) new old ent capacity by blast
  then show ?thesis using run c'(2) unfolding e_def by blast
qed

end
