(* ===== verification/Lv_Sharded_Cache.thy ===== *)
theory Lv_Sharded_Cache
  imports Lv_Lru
begin

text \<open>
  The contract of \<open>include/leveldb/cache.h\<close> and its proof for the sharded cache of \<open>util/cache.cc\<close>: a cache holds
  some of the values that were inserted and not erased since; a handle keeps its value until it is released; every
  operation is defined as long as only handles that are held are released. The counters of the implementation have 32
  bits: the contract is for caches with room for more entries, and for clients that hold fewer than \<open>max_refs\<close>
  references to an entry when they look one up.
\<close>

section \<open>The contract\<close>

definition few_refs :: "('h \<Rightarrow> nat) \<Rightarrow> bool" where
  "few_refs refs \<longleftrightarrow> (\<forall>h. refs h < max_refs)"

text \<open>The invariant counts the insertions there is still room for.\<close>

locale cache =
  fixes lookup :: "slice \<Rightarrow> 'c \<Rightarrow> ('h option \<times> 'c) option"
    and insert_ent :: "slice \<Rightarrow> 'v \<Rightarrow> u64 \<Rightarrow> 'c \<Rightarrow> ('h \<times> 'c) option"
    and release :: "'h \<Rightarrow> 'c \<Rightarrow> 'c option"
    and erase :: "slice \<Rightarrow> 'c \<Rightarrow> 'c option"
    and val :: "'h \<Rightarrow> 'c \<Rightarrow> 'v option"
    and inv :: "nat \<Rightarrow> 'c \<Rightarrow> ('h \<Rightarrow> nat) \<Rightarrow> bool"
    and content :: "'c \<Rightarrow> slice \<Rightarrow> 'v \<Rightarrow> bool"
  assumes inv_less: "inv (Suc m) c refs \<Longrightarrow> inv m c refs"
    and content_unique: "inv m c refs \<Longrightarrow> content c k v \<Longrightarrow> content c k w \<Longrightarrow> v = w"
    and lookup_law: "inv m c refs \<Longrightarrow> few_refs refs \<Longrightarrow> \<exists>r c'. lookup k c = Some (r, c') \<and> content c' = content c \<and>
      (\<forall>h. 0 < refs h \<longrightarrow> val h c' = val h c) \<and>
      (case r of None \<Rightarrow> inv m c' refs \<and> (\<forall>v. \<not> content c k v)
       | Some h \<Rightarrow> inv m c' (refs(h := refs h + 1)) \<and> (\<exists>v. val h c' = Some v \<and> content c k v))"
    and insert_law: "inv (Suc m) c refs \<Longrightarrow> \<exists>h c'. insert_ent k v n c = Some (h, c') \<and> inv m c' (refs(h := 1)) \<and> refs h = 0 \<and>
      val h c' = Some v \<and> content c' k v \<and> (\<forall>k' v'. k' \<noteq> k \<longrightarrow> content c' k' v' \<longrightarrow> content c k' v') \<and>
      (\<forall>h'. 0 < refs h' \<longrightarrow> val h' c' = val h' c)"
    and release_law: "inv m c refs \<Longrightarrow> 0 < refs h \<Longrightarrow> \<exists>c'. release h c = Some c' \<and> inv m c' (refs(h := refs h - 1)) \<and>
      content c' = content c \<and> (\<forall>h'. 0 < (refs(h := refs h - 1)) h' \<longrightarrow> val h' c' = val h' c)"
    and erase_law: "inv m c refs \<Longrightarrow> \<exists>c'. erase k c = Some c' \<and> inv m c' refs \<and>
      (\<forall>k' v. content c' k' v \<longleftrightarrow> k' \<noteq> k \<and> content c k' v) \<and> (\<forall>h. 0 < refs h \<longrightarrow> val h c' = val h c)"
begin

text \<open>A client that inserts only values with \<open>P\<close> finds only such values, and gets one for every key it can make one for.\<close>

lemma lookup_sound:
  assumes "inv m c refs" "few_refs refs" "\<forall>k v. content c k v \<longrightarrow> P k v" "lookup k c = Some (Some h, c')"
  shows "\<exists>v. val h c' = Some v \<and> P k v" and "inv m c' (refs(h := refs h + 1))" and "\<forall>k v. content c' k v \<longrightarrow> P k v"
  using lookup_law [OF assms(1,2), of k] assms(3,4) by auto

lemma insert_sound:
  assumes "inv (Suc m) c refs" "\<forall>k v. content c k v \<longrightarrow> P k v" "P k v"
  shows "\<exists>h c'. insert_ent k v n c = Some (h, c') \<and> inv m c' (refs(h := 1)) \<and> val h c' = Some v \<and> (\<forall>k v. content c' k v \<longrightarrow> P k v)"
proof -
  obtain h c' where c': "insert_ent k v n c = Some (h, c')" "inv m c' (refs(h := 1))" "val h c' = Some v" "content c' k v"
    "\<forall>k' v'. k' \<noteq> k \<longrightarrow> content c' k' v' \<longrightarrow> content c k' v'" using insert_law [OF assms(1), of k v n] by blast
  have "P k' v'" if "content c' k' v'" for k' v'
    using that c'(4,5) content_unique [OF c'(2)] assms(2,3) by (cases "k' = k") blast+
  with c' show ?thesis by blast
qed

end

section \<open>One shard\<close>

definition kv :: "'v LRUCache \<Rightarrow> nat \<Rightarrow> (slice \<times> 'v) option" where
  "kv d a = map_option (\<lambda>h. (h_key h, h_value h)) (lc_handles d a)"

definition cached :: "'v LRUCache \<Rightarrow> slice \<Rightarrow> 'v \<Rightarrow> bool" where
  "cached d k v \<longleftrightarrow> (\<exists>a h. lc_handles d a = Some h \<and> h_in_cache h \<and> h_key h = k \<and> h_value h = v)"

definition hashes_ok :: "nat \<Rightarrow> 'v LRUCache \<Rightarrow> bool" where
  "hashes_ok s d \<longleftrightarrow> (\<forall>a h. lc_handles d a = Some h \<longrightarrow> h_hash h = HashSlice (h_key h) \<and> Shard (h_hash h) = s)"

definition shard_elems :: "'v LRUCache \<Rightarrow> nat" where
  "shard_elems d = unat (ht_elems (lc_table d))"

definition shard_ok :: "nat \<Rightarrow> 'v LRUCache \<Rightarrow> (nat \<Rightarrow> nat) \<Rightarrow> bool" where
  "shard_ok s d refs \<longleftrightarrow> hashes_ok s d \<and> (\<exists>lru use bk. lru_inv d lru use bk refs {})"

lemma cached_lists:
  assumes "lru_inv d lru use bk refs {}"
  shows "cached d k v \<longleftrightarrow> (\<exists>a \<in> set lru \<union> set use. kv d a = Some (k, v))"
proof -
  have ho: "handles_ok d (set lru \<union> set use) refs" using assms by (simp add: lru_inv_def)
  show ?thesis
  proof
    assume "cached d k v"
    then obtain a h where "lc_handles d a = Some h" "h_in_cache h" "h_key h = k" "h_value h = v" by (auto simp: cached_def)
    then show "\<exists>a \<in> set lru \<union> set use. kv d a = Some (k, v)" using handles_ok_at(5) [OF ho] by (auto simp: kv_def intro!: bexI [of _ a])
  next
    assume "\<exists>a \<in> set lru \<union> set use. kv d a = Some (k, v)"
    then show "cached d k v" using inv_dom [OF assms] by (force simp: cached_def kv_def)
  qed
qed

lemma shard_elems_mono:
  assumes "lru_inv d lru use bk refs {}" "lru_inv d' lru' use' bk' refs' {}" "set lru' \<union> set use' \<subseteq> set lru \<union> set use"
  shows "shard_elems d' \<le> shard_elems d"
  unfolding shard_elems_def table_elems_lists [OF assms(1)] table_elems_lists [OF assms(2)] by (rule card_mono) (use assms(3) in auto)

lemma keeps_kv: "keeps d d' \<Longrightarrow> a \<in> dom (lc_handles d') \<Longrightarrow> kv d' a = kv d a"
  by (force simp: keeps_def kv_def)

lemma keeps_hashes: "keeps d d' \<Longrightarrow> hashes_ok s d \<Longrightarrow> hashes_ok s d'"
  unfolding keeps_def hashes_ok_def by metis

lemma held_dom: "lru_inv d lru use bk refs X \<Longrightarrow> 0 < refs a \<Longrightarrow> a \<in> dom (lc_handles d)"
  unfolding lru_inv_def handles_ok_def by (metis domIff less_irrefl)

lemma lists_dom: "lru_inv d lru use bk refs X \<Longrightarrow> a \<in> set lru \<union> set use \<Longrightarrow> a \<in> dom (lc_handles d)"
  using inv_dom by blast

text \<open>What a step that keeps the entries does to the content and to the handles held.\<close>

lemma cached_step:
  assumes "lru_inv d lru use bk refs {}" "lru_inv d' lru' use' bk' refs' {}" "keeps d d'"
  shows "cached d' k v \<longleftrightarrow> (\<exists>a \<in> set lru' \<union> set use'. kv d a = Some (k, v))" and "0 < refs' a \<Longrightarrow> kv d' a = kv d a"
  using cached_lists [OF assms(2)] keeps_kv [OF assms(3)] lists_dom [OF assms(2)] held_dom [OF assms(2)] by auto

lemma matches_kv: "hashes_ok s d \<Longrightarrow> matches d k (HashSlice k) a \<longleftrightarrow> (\<exists>v. kv d a = Some (k, v))"
  by (auto simp: matches_def kv_def hashes_ok_def split: option.splits)

lemma cached_unique: "shard_ok s d refs \<Longrightarrow> cached d k v \<Longrightarrow> cached d k w \<Longrightarrow> v = w"
proof -
  assume ok: "shard_ok s d refs" and c: "cached d k v" "cached d k w"
  obtain lru use bk where inv: "lru_inv d lru use bk refs {}" using ok by (auto simp: shard_ok_def)
  obtain a b where ab: "a \<in> set lru \<union> set use" "kv d a = Some (k, v)" "b \<in> set lru \<union> set use" "kv d b = Some (k, w)"
    using c unfolding cached_lists [OF inv] by blast
  then have "same_key d a b" using ok by (auto simp: same_key_def kv_def shard_ok_def hashes_ok_def)
  moreover have "set (concat bk) = set lru \<union> set use" using inv by (simp add: lru_inv_def)
  ultimately have "a = b" using inv ab(1,3) unfolding lru_inv_def by metis
  then show "v = w" using ab(2,4) by simp
qed

lemma shard_lookup:
  assumes ok: "shard_ok s d refs" and few: "few_refs refs"
  shows "\<exists>r d'. LRUCache_Lookup k (HashSlice k) d = Some (r, d') \<and> cached d' = cached d \<and> (\<forall>a. 0 < refs a \<longrightarrow> kv d' a = kv d a) \<and>
    entries d' = entries d \<and> shard_elems d' \<le> shard_elems d \<and>
    (case r of None \<Rightarrow> shard_ok s d' refs \<and> (\<forall>v. \<not> cached d k v)
     | Some a \<Rightarrow> shard_ok s d' (refs(a := refs a + 1)) \<and> (\<exists>v. kv d' a = Some (k, v) \<and> cached d k v))"
proof -
  obtain lru use bk where inv: "lru_inv d lru use bk refs {}" and hs: "hashes_ok s d" using ok by (auto simp: shard_ok_def)
  obtain r d' where r: "LRUCache_Lookup k (HashSlice k) d = Some (r, d')" "keeps d d'" "entries d' = entries d"
    "case r of None \<Rightarrow> d' = d \<and> (\<forall>a \<in> set lru \<union> set use. \<not> matches d k (HashSlice k) a)
     | Some a \<Rightarrow> a \<in> set lru \<union> set use \<and> matches d k (HashSlice k) a \<and>
         (\<exists>lru' use'. lru_inv d' lru' use' bk (refs(a := refs a + 1)) {} \<and> set lru' \<union> set use' = set lru \<union> set use \<and> set lru' \<subseteq> set lru)"
    using LRUCache_Lookup_on [OF inv few [unfolded few_refs_def]] by blast
  show ?thesis
  proof (cases r)
    case None
    then have "d' = d" "\<forall>v. \<not> cached d k v" using r(4) cached_lists [OF inv] matches_kv [OF hs] by auto
    then show ?thesis using r(1) None ok by (intro exI [of _ r] exI [of _ d]) simp
  next
    case (Some a)
    then obtain lru' use' where i: "a \<in> set lru \<union> set use" "matches d k (HashSlice k) a"
      "lru_inv d' lru' use' bk (refs(a := refs a + 1)) {}" "set lru' \<union> set use' = set lru \<union> set use" using r(4) by auto
    note st = cached_step [OF inv i(3) r(2)]
    have "cached d' = cached d" by (intro ext) (simp only: st(1) i(4) cached_lists [OF inv])
    moreover have "kv d' x = kv d x" if "0 < refs x" for x using that st(2) [of x] by simp
    moreover have "shard_ok s d' (refs(a := refs a + 1))" using i(3) keeps_hashes [OF r(2) hs] by (auto simp: shard_ok_def)
    moreover obtain v where "kv d a = Some (k, v)" using i(2) matches_kv [OF hs] by blast
    then have "kv d' a = Some (k, v) \<and> cached d k v" using st(2) [of a] i(1) cached_lists [OF inv] by auto
    moreover have "shard_elems d' \<le> shard_elems d" by (rule shard_elems_mono [OF inv i(3)]) (simp add: i(4))
    ultimately show ?thesis using r(1,3) Some by (intro exI [of _ r] exI [of _ d']) auto
  qed
qed

lemma shard_insert:
  assumes ok: "shard_ok s d refs" and s: "Shard (HashSlice k) = s" and few: "shard_elems d < max_entries"
  shows "\<exists>e d'. LRUCache_Insert k (HashSlice k) v n d = Some (e, d') \<and> shard_ok s d' (refs(e := 1)) \<and> refs e = 0 \<and>
    kv d' e = Some (k, v) \<and> cached d' k v \<and> (\<forall>k' v'. k' \<noteq> k \<longrightarrow> cached d' k' v' \<longrightarrow> cached d k' v') \<and>
    (\<forall>a. 0 < refs a \<longrightarrow> kv d' a = kv d a) \<and> entries d' = add_mset (k, v) (entries d) \<and> shard_elems d' \<le> Suc (shard_elems d) \<and>
    (lc_usage d' \<le> lc_capacity d' \<or> (\<forall>a h. lc_handles d' a = Some h \<longrightarrow> 0 < (refs(e := 1)) a))"
proof -
  obtain lru use bk where inv: "lru_inv d lru use bk refs {}" and hs: "hashes_ok s d" using ok by (auto simp: shard_ok_def)
  define e where "e = lc_fresh d"
  obtain d' lru' use' bk' where i: "LRUCache_Insert k (HashSlice k) v n d = Some (e, d')" "lru_inv d' lru' use' bk' (refs(e := 1)) {}"
    "inserted d lru use k (HashSlice k) v n d' lru' use'"
    using LRUCache_Insert_on [OF inv few [unfolded shard_elems_def]] unfolding e_def by blast
  from i(3) have ins: "e \<in> set use'" "set lru' \<union> set use' \<subseteq> insert e {a \<in> set lru \<union> set use. \<not> matches d k (HashSlice k) a}"
    "lc_usage d' \<le> lc_capacity d' \<or> lru' = []" "lc_handles d e = None"
    "\<exists>h. lc_handles d' e = Some h \<and> h_value h = v \<and> h_key h = k \<and> h_hash h = HashSlice k \<and> h_charge h = n"
    "\<forall>a h'. a \<noteq> e \<longrightarrow> lc_handles d' a = Some h' \<longrightarrow> (\<exists>h. lc_handles d a = Some h \<and> h_value h' = h_value h \<and> h_key h' = h_key h \<and>
         h_hash h' = h_hash h \<and> h_charge h' = h_charge h)" "entries d' = add_mset (k, v) (entries d)"
    unfolding inserted_def Let_def e_def [symmetric] by blast+
  have ke: "kv d' e = Some (k, v)" using ins(5) by (auto simp: kv_def)
  have old: "kv d' a = kv d a" if "a \<noteq> e" "a \<in> dom (lc_handles d')" for a
    using that ins(6) by (fastforce simp: kv_def)
  have r0: "refs e = 0" using held_dom [OF inv, of e] ins(4) by auto
  have "hashes_ok s d'"
    unfolding hashes_ok_def
  proof (intro allI impI)
    fix a h assume h: "lc_handles d' a = Some h"
    show "h_hash h = HashSlice (h_key h) \<and> Shard (h_hash h) = s"
    proof (cases "a = e")
      case False
      then show ?thesis using ins(6) h hs unfolding hashes_ok_def by metis
    qed (use ins(5) h s in auto)
  qed
  then have "shard_ok s d' (refs(e := 1))" using i(2) by (auto simp: shard_ok_def)
  moreover have "cached d' k v" unfolding cached_lists [OF i(2)] using ke ins(1) by blast
  moreover have "cached d k' v'" if c: "k' \<noteq> k" "cached d' k' v'" for k' v'
  proof -
    obtain a where a: "a \<in> set lru' \<union> set use'" "kv d' a = Some (k', v')" using c(2) cached_lists [OF i(2)] by blast
    then have "a \<noteq> e" using ke c(1) by auto
    then show ?thesis using a ins(2) old [of a] lists_dom [OF i(2) a(1)] cached_lists [OF inv] by auto
  qed
  moreover have "kv d' a = kv d a" if "0 < refs a" for a
    using that r0 old [of a] held_dom [OF i(2), of a] by (cases "a = e") auto
  moreover have "lc_usage d' \<le> lc_capacity d' \<or> (\<forall>a h. lc_handles d' a = Some h \<longrightarrow> 0 < (refs(e := 1)) a)"
  proof (cases "lru' = []")
    case True
    then have ho: "handles_ok d' (set use') (refs(e := 1))" and u: "\<forall>a \<in> set use'. 0 < (refs(e := 1)) a" using i(2) by (simp_all add: lru_inv_def)
    have "0 < (refs(e := 1)) a" if h: "lc_handles d' a = Some h" for a h
      using handles_ok_at(3,5) [OF ho h] handles_ok_at(4) [OF ho h, folded unat_gt_0] u by (cases "h_in_cache h") auto
    then show ?thesis by blast
  qed (use ins(3) in blast)
  moreover have "shard_elems d' \<le> Suc (shard_elems d)"
  proof -
    have "card (set lru' \<union> set use') \<le> card (insert e (set lru \<union> set use))" by (rule card_mono) (use ins(2) in auto)
    also have "\<dots> \<le> Suc (card (set lru \<union> set use))" by (simp add: card_insert_if)
    finally show ?thesis unfolding shard_elems_def table_elems_lists [OF inv] table_elems_lists [OF i(2)] .
  qed
  ultimately show ?thesis using i(1) r0 ke ins(7) by blast
qed

lemma shard_release:
  assumes ok: "shard_ok s d refs" and h: "0 < refs e"
  shows "\<exists>d'. LRUCache_Release e d = Some d' \<and> shard_ok s d' (refs(e := refs e - 1)) \<and> cached d' = cached d \<and>
    (\<forall>a. 0 < (refs(e := refs e - 1)) a \<longrightarrow> kv d' a = kv d a) \<and> entries d' = entries d \<and> shard_elems d' \<le> shard_elems d"
proof -
  obtain lru use bk where inv: "lru_inv d lru use bk refs {}" and hs: "hashes_ok s d" using ok by (auto simp: shard_ok_def)
  obtain d' lru' use' where i: "LRUCache_Release e d = Some d'" "lru_inv d' lru' use' bk (refs(e := refs e - 1)) {}" "keeps d d'"
    "entries d' = entries d" "set lru' \<union> set use' = set lru \<union> set use" using LRUCache_Release_on [OF inv h] by blast
  note st = cached_step [OF inv i(2,3)]
  have "shard_elems d' \<le> shard_elems d" by (rule shard_elems_mono [OF inv i(2)]) (simp add: i(5))
  moreover have "cached d' = cached d" by (intro ext) (simp only: st(1) i(5) cached_lists [OF inv])
  ultimately show ?thesis using i st(2) keeps_hashes [OF i(3) hs] unfolding shard_ok_def by blast
qed

lemma shard_erase:
  assumes ok: "shard_ok s d refs"
  shows "\<exists>d'. LRUCache_Erase k (HashSlice k) d = Some d' \<and> shard_ok s d' refs \<and>
    (\<forall>k' v. cached d' k' v \<longleftrightarrow> k' \<noteq> k \<and> cached d k' v) \<and> (\<forall>a. 0 < refs a \<longrightarrow> kv d' a = kv d a) \<and> entries d' = entries d \<and> shard_elems d' \<le> shard_elems d"
proof -
  obtain lru use bk where inv: "lru_inv d lru use bk refs {}" and hs: "hashes_ok s d" using ok by (auto simp: shard_ok_def)
  obtain d' lru' use' bk' where i: "LRUCache_Erase k (HashSlice k) d = Some d'" "lru_inv d' lru' use' bk' refs {}" "keeps d d'"
    "entries d' = entries d" "set lru' \<union> set use' = {a \<in> set lru \<union> set use. \<not> matches d k (HashSlice k) a}"
    using LRUCache_Erase_on [OF inv] by blast
  note st = cached_step [OF inv i(2,3)]
  have "cached d' k' v \<longleftrightarrow> k' \<noteq> k \<and> cached d k' v" for k' v
    unfolding st(1) i(5) cached_lists [OF inv] using matches_kv [OF hs] by auto
  moreover have "shard_elems d' \<le> shard_elems d" by (rule shard_elems_mono [OF inv i(2)]) (use i(5) in auto)
  ultimately show ?thesis using i st(2) keeps_hashes [OF i(3) hs] unfolding shard_ok_def by blast
qed

lemma shard_prune:
  assumes ok: "shard_ok s d refs"
  shows "\<exists>d'. LRUCache_Prune d = Some d' \<and> shard_ok s d' refs \<and> (\<forall>k v. cached d' k v \<longrightarrow> cached d k v) \<and>
    (\<forall>a. 0 < refs a \<longrightarrow> kv d' a = kv d a) \<and> entries d' = entries d \<and> shard_elems d' \<le> shard_elems d"
proof -
  obtain lru use bk where inv: "lru_inv d lru use bk refs {}" and hs: "hashes_ok s d" using ok by (auto simp: shard_ok_def)
  obtain d' bk' where i: "LRUCache_Prune d = Some d'" "lru_inv d' [] use bk' refs {}" "keeps d d'"
    "entries d' = entries d" using LRUCache_Prune_on [OF inv] by blast
  note st = cached_step [OF inv i(2,3)]
  have "cached d k v" if "cached d' k v" for k v using that unfolding st(1) cached_lists [OF inv] by auto
  moreover have "shard_elems d' \<le> shard_elems d" by (rule shard_elems_mono [OF inv i(2)]) auto
  ultimately show ?thesis using i st(2) keeps_hashes [OF i(3) hs] unfolding shard_ok_def by blast
qed

section \<open>All shards\<close>

definition cache_room :: "nat \<Rightarrow> 'v ShardedLRUCache \<Rightarrow> bool" where
  "cache_room m c \<longleftrightarrow> (\<forall>d \<in> set (sc_shards c). shard_elems d + m \<le> max_entries)"

definition cache_inv :: "nat \<Rightarrow> 'v ShardedLRUCache \<Rightarrow> (cache_handle \<Rightarrow> nat) \<Rightarrow> bool" where
  "cache_inv m c refs \<longleftrightarrow> cache_room m c \<and> length (sc_shards c) = kNumShards \<and>
     (\<forall>s < kNumShards. shard_ok s (sc_shards c ! s) (\<lambda>e. refs (s, e))) \<and> (\<forall>s e. kNumShards \<le> s \<longrightarrow> refs (s, e) = 0)"

definition cache_content :: "'v ShardedLRUCache \<Rightarrow> slice \<Rightarrow> 'v \<Rightarrow> bool" where
  "cache_content c k v \<longleftrightarrow> cached (sc_shards c ! Shard (HashSlice k)) k v"

definition cache_entries :: "'v ShardedLRUCache \<Rightarrow> (slice \<times> 'v) multiset" where
  "cache_entries c = sum_list (map entries (sc_shards c))"

lemma Shard_less: "Shard h < kNumShards"
proof -
  have "unat h < 16 * 2 ^ 28" using unsigned_less [of h] by simp
  then have "unat h div 2 ^ 28 < 16" by (rule less_mult_imp_div_less)
  moreover have "unat (drop_bit 28 h) = unat h div 2 ^ 28" by (subst unat_drop_bit_eq) (rule drop_bit_eq_div)
  ultimately show ?thesis by (simp add: Shard_def kNumShards_def kNumShardBits_def)
qed

lemma Cache_Value_kv: "Cache_Value h c = map_option snd (kv (sc_shards c ! fst h) (snd h))"
  by (simp add: Cache_Value_def kv_def option.map_comp comp_def)

text \<open>A step on one shard.\<close>

lemma on_shard_inv:
  assumes inv: "cache_inv m' c refs" and m: "m \<le> m'" "shard_elems d + m \<le> max_entries" and s: "s < kNumShards" and d: "shard_ok s d r"
    and refs: "\<forall>e. refs' (s, e) = r e" "\<forall>s' e. s' \<noteq> s \<longrightarrow> refs' (s', e) = refs (s', e)"
  shows "cache_inv m (c\<lparr>sc_shards := (sc_shards c)[s := d]\<rparr>) refs'"
  unfolding cache_inv_def
proof (intro conjI allI impI)
  have "shard_elems d' + m \<le> max_entries" if "d' \<in> set (sc_shards c)" for d'
    using inv m(1) that by (force simp: cache_inv_def cache_room_def)
  then show "cache_room m (c\<lparr>sc_shards := (sc_shards c)[s := d]\<rparr>)"
    using m(2) set_update_subset_insert [of "sc_shards c" s d] by (auto simp: cache_room_def)
  fix s' assume s': "s' < kNumShards"
  show "shard_ok s' (sc_shards (c\<lparr>sc_shards := (sc_shards c)[s := d]\<rparr>) ! s') (\<lambda>e. refs' (s', e))"
  proof (cases "s' = s")
    case True
    then show ?thesis using inv d refs(1) s by (simp add: cache_inv_def)
  next
    case False
    then show ?thesis using inv refs(2) s' by (simp add: cache_inv_def)
  qed
qed (use inv s refs in \<open>auto simp: cache_inv_def\<close>)

lemma on_shard_entries:
  "s < length (sc_shards c) \<Longrightarrow> entries d = M + entries (sc_shards c ! s) \<Longrightarrow>
   cache_entries (c\<lparr>sc_shards := (sc_shards c)[s := d]\<rparr>) = M + cache_entries c"
proof -
  assume s: "s < length (sc_shards c)" and d: "entries d = M + entries (sc_shards c ! s)"
  let ?ds = "sc_shards c"
  have "?ds = take s ?ds @ ?ds ! s # drop (Suc s) ?ds" using s by (rule id_take_nth_drop)
  then have "cache_entries c = sum_list (map entries (take s ?ds)) + (entries (?ds ! s) + sum_list (map entries (drop (Suc s) ?ds)))"
    unfolding cache_entries_def by (metis map_append list.simps(9) sum_list.append sum_list.Cons)
  moreover have "cache_entries (c\<lparr>sc_shards := ?ds[s := d]\<rparr>) =
      sum_list (map entries (take s ?ds)) + (entries d + sum_list (map entries (drop (Suc s) ?ds)))"
    using s by (simp add: cache_entries_def upd_conv_take_nth_drop)
  ultimately show ?thesis using d by (simp add: ac_simps)
qed

lemma on_shard_content:
  assumes "length (sc_shards c) = kNumShards"
  shows "cache_content (c\<lparr>sc_shards := (sc_shards c)[s := d]\<rparr>) k v \<longleftrightarrow>
    (if Shard (HashSlice k) = s then cached d k v else cache_content c k v)"
  using assms Shard_less [of "HashSlice k"] by (auto simp: cache_content_def)

lemma on_shard_value:
  assumes "length (sc_shards c) = kNumShards" "s < kNumShards" "fst h = s \<Longrightarrow> kv d (snd h) = kv (sc_shards c ! s) (snd h)"
  shows "Cache_Value h (c\<lparr>sc_shards := (sc_shards c)[s := d]\<rparr>) = Cache_Value h c"
  using assms by (cases "fst h = s") (auto simp: Cache_Value_kv)

lemma shard_of: "cache_inv m c refs \<Longrightarrow> s < kNumShards \<Longrightarrow> shard_ok s (sc_shards c ! s) (\<lambda>e. refs (s, e)) \<and> length (sc_shards c) = kNumShards"
  by (simp add: cache_inv_def)

lemma shard_room: "cache_inv m c refs \<Longrightarrow> s < kNumShards \<Longrightarrow> shard_elems (sc_shards c ! s) + m \<le> max_entries"
  by (simp add: cache_inv_def cache_room_def)

lemma Cache_Lookup_on:
  assumes inv: "cache_inv m c refs" and few: "few_refs refs"
  shows "\<exists>r c'. Cache_Lookup k c = Some (r, c') \<and> cache_content c' = cache_content c \<and>
      (\<forall>h. 0 < refs h \<longrightarrow> Cache_Value h c' = Cache_Value h c) \<and> cache_entries c' = cache_entries c \<and>
      (case r of None \<Rightarrow> cache_inv m c' refs \<and> (\<forall>v. \<not> cache_content c k v)
       | Some h \<Rightarrow> cache_inv m c' (refs(h := refs h + 1)) \<and> (\<exists>v. Cache_Value h c' = Some v \<and> cache_content c k v))"
proof -
  define s where "s = Shard (HashSlice k)"
  have s: "s < kNumShards" unfolding s_def by (rule Shard_less)
  note so = shard_of [OF inv s]
  then have len: "length (sc_shards c) = kNumShards" by blast
  let ?c = "\<lambda>d. c\<lparr>sc_shards := (sc_shards c)[s := d]\<rparr>"
  obtain r d where d: "LRUCache_Lookup k (HashSlice k) (sc_shards c ! s) = Some (r, d)" "cached d = cached (sc_shards c ! s)"
    "\<forall>a. 0 < refs (s, a) \<longrightarrow> kv d a = kv (sc_shards c ! s) a" "entries d = entries (sc_shards c ! s)"
    "shard_elems d \<le> shard_elems (sc_shards c ! s)"
    "case r of None \<Rightarrow> shard_ok s d (\<lambda>e. refs (s, e)) \<and> (\<forall>v. \<not> cached (sc_shards c ! s) k v)
     | Some a \<Rightarrow> shard_ok s d ((\<lambda>e. refs (s, e))(a := refs (s, a) + 1)) \<and> (\<exists>v. kv d a = Some (k, v) \<and> cached (sc_shards c ! s) k v)"
    using shard_lookup [of s "sc_shards c ! s" "\<lambda>e. refs (s, e)" k] so few unfolding few_refs_def by blast
  have room: "shard_elems d + m \<le> max_entries" using shard_room [OF inv s] d(5) by linarith
  have run: "Cache_Lookup k c = Some (map_option (Pair s) r, ?c d)"
    using d(1) by (simp add: Cache_Lookup_def on_shard_def Let_def s_def)
  have con: "cache_content (?c d) = cache_content c"
    unfolding fun_eq_iff on_shard_content [OF len] by (auto simp: cache_content_def d(2))
  have vals: "\<forall>h. 0 < refs h \<longrightarrow> Cache_Value h (?c d) = Cache_Value h c"
    using d(3) by (auto intro!: on_shard_value [OF len s])
  have ent: "cache_entries (?c d) = cache_entries c" using on_shard_entries [of s c d "{#}"] d(4) len s by simp
  show ?thesis
  proof (cases r)
    case None
    have "cache_inv m (?c d) refs" by (rule on_shard_inv [OF inv order.refl room s, of "\<lambda>e. refs (s, e)"]) (use d(6) None in simp_all)
    then show ?thesis using run con vals ent d(6) None
      by (intro exI [of _ None] exI [of _ "?c d"]) (simp add: cache_content_def s_def)
  next
    case (Some a)
    have "cache_inv m (?c d) (refs((s, a) := refs (s, a) + 1))"
      by (rule on_shard_inv [OF inv order.refl room s, of "(\<lambda>e. refs (s, e))(a := refs (s, a) + 1)"]) (use d(6) Some in simp_all)
    moreover obtain v where "kv d a = Some (k, v)" "cache_content c k v" using d(6) Some by (auto simp: cache_content_def s_def)
    then have "\<exists>v. Cache_Value (s, a) (?c d) = Some v \<and> cache_content c k v" using len s by (simp add: Cache_Value_kv)
    ultimately show ?thesis using run con vals ent Some
      by (intro exI [of _ "Some (s, a)"] exI [of _ "?c d"]) simp
  qed
qed

lemma Cache_Insert_on:
  assumes inv: "cache_inv (Suc m) c refs"
  shows "\<exists>h c'. Cache_Insert k v n c = Some (h, c') \<and> cache_inv m c' (refs(h := 1)) \<and> refs h = 0 \<and> fst h < kNumShards \<and>
      Cache_Value h c' = Some v \<and> cache_content c' k v \<and> (\<forall>k' v'. k' \<noteq> k \<longrightarrow> cache_content c' k' v' \<longrightarrow> cache_content c k' v') \<and>
      (\<forall>h'. 0 < refs h' \<longrightarrow> Cache_Value h' c' = Cache_Value h' c) \<and> cache_entries c' = add_mset (k, v) (cache_entries c) \<and>
      (let d = sc_shards c' ! fst h in
       lc_usage d \<le> lc_capacity d \<or> (\<forall>a hd. lc_handles d a = Some hd \<longrightarrow> 0 < (refs(h := 1)) (fst h, a)))"
proof -
  define s where "s = Shard (HashSlice k)"
  have s: "s < kNumShards" unfolding s_def by (rule Shard_less)
  note so = shard_of [OF inv s]
  then have len: "length (sc_shards c) = kNumShards" by blast
  let ?c = "\<lambda>d. c\<lparr>sc_shards := (sc_shards c)[s := d]\<rparr>"
  have room: "shard_elems (sc_shards c ! s) < max_entries" using shard_room [OF inv s] by linarith
  obtain e d where d: "LRUCache_Insert k (HashSlice k) v n (sc_shards c ! s) = Some (e, d)"
    "shard_ok s d ((\<lambda>e. refs (s, e))(e := 1))" "refs (s, e) = 0" "kv d e = Some (k, v)" "cached d k v"
    "\<forall>k' v'. k' \<noteq> k \<longrightarrow> cached d k' v' \<longrightarrow> cached (sc_shards c ! s) k' v'"
    "\<forall>a. 0 < refs (s, a) \<longrightarrow> kv d a = kv (sc_shards c ! s) a" "entries d = add_mset (k, v) (entries (sc_shards c ! s))"
    "shard_elems d \<le> Suc (shard_elems (sc_shards c ! s))"
    "lc_usage d \<le> lc_capacity d \<or> (\<forall>a h. lc_handles d a = Some h \<longrightarrow> 0 < ((\<lambda>e. refs (s, e))(e := 1)) a)"
    using shard_insert [of s "sc_shards c ! s" "\<lambda>e. refs (s, e)" k v n] so s_def room by blast
  have run: "Cache_Insert k v n c = Some ((s, e), ?c d)"
    using d(1) by (simp add: Cache_Insert_def on_shard_def Let_def s_def)
  have "cache_inv m (?c d) (refs((s, e) := 1))"
    by (rule on_shard_inv [OF inv _ _ s d(2)]) (use shard_room [OF inv s] d(9) in auto)
  moreover have "Cache_Value (s, e) (?c d) = Some v" using d(4) len s by (simp add: Cache_Value_kv)
  moreover have "cache_content (?c d) k v" using d(5) by (simp add: on_shard_content [OF len] s_def)
  moreover have "\<forall>k' v'. k' \<noteq> k \<longrightarrow> cache_content (?c d) k' v' \<longrightarrow> cache_content c k' v'"
    using d(6) unfolding on_shard_content [OF len] by (auto simp: cache_content_def)
  moreover have "\<forall>h'. 0 < refs h' \<longrightarrow> Cache_Value h' (?c d) = Cache_Value h' c"
    using d(7) by (auto intro!: on_shard_value [OF len s])
  moreover have "cache_entries (?c d) = add_mset (k, v) (cache_entries c)"
    using on_shard_entries [of s c d "{#(k, v)#}"] d(8) len s by simp
  moreover have "sc_shards (?c d) ! s = d" using len s by simp
  moreover have "((\<lambda>e. refs (s, e))(e := 1)) a = (refs((s, e) := 1)) (s, a)" for a by simp
  ultimately show ?thesis using run d(3,10) s
    by (intro exI [of _ "(s, e)"] exI [of _ "?c d"]) (simp add: Let_def del: fun_upd_apply)
qed

lemma Cache_Release_on:
  assumes inv: "cache_inv m c refs" and h: "0 < refs h"
  shows "\<exists>c'. Cache_Release h c = Some c' \<and> cache_inv m c' (refs(h := refs h - 1)) \<and> cache_content c' = cache_content c \<and>
      (\<forall>h'. 0 < (refs(h := refs h - 1)) h' \<longrightarrow> Cache_Value h' c' = Cache_Value h' c) \<and> cache_entries c' = cache_entries c"
proof -
  obtain s e where se: "h = (s, e)" by (cases h)
  have s: "s < kNumShards" using inv h se unfolding cache_inv_def by (metis less_irrefl linorder_not_le)
  note so = shard_of [OF inv s]
  then have len: "length (sc_shards c) = kNumShards" by blast
  let ?c = "\<lambda>d. c\<lparr>sc_shards := (sc_shards c)[s := d]\<rparr>"
  obtain d where d: "LRUCache_Release e (sc_shards c ! s) = Some d" "shard_ok s d ((\<lambda>e. refs (s, e))(e := refs (s, e) - 1))"
    "cached d = cached (sc_shards c ! s)" "\<forall>a. 0 < ((\<lambda>e. refs (s, e))(e := refs (s, e) - 1)) a \<longrightarrow> kv d a = kv (sc_shards c ! s) a"
    "entries d = entries (sc_shards c ! s)" "shard_elems d \<le> shard_elems (sc_shards c ! s)"
    using shard_release [of s "sc_shards c ! s" "\<lambda>e. refs (s, e)" e] so h unfolding se by blast
  have "Cache_Release h c = Some (?c d)" using d(1) se by (simp add: Cache_Release_def on_shard_def)
  moreover have "cache_inv m (?c d) (refs(h := refs h - 1))" by (rule on_shard_inv [OF inv order.refl _ s d(2)]) (use shard_room [OF inv s] d(6) in \<open>auto simp: se\<close>)
  moreover have "cache_content (?c d) = cache_content c"
    unfolding fun_eq_iff on_shard_content [OF len] by (auto simp: cache_content_def d(3))
  moreover have "\<forall>h'. 0 < (refs(h := refs h - 1)) h' \<longrightarrow> Cache_Value h' (?c d) = Cache_Value h' c"
    using d(4) by (auto intro!: on_shard_value [OF len s] simp: se split: if_splits)
  moreover have "cache_entries (?c d) = cache_entries c" using on_shard_entries [of s c d "{#}"] d(5) len s by simp
  ultimately show ?thesis by blast
qed

lemma Cache_Erase_on:
  assumes inv: "cache_inv m c refs"
  shows "\<exists>c'. Cache_Erase k c = Some c' \<and> cache_inv m c' refs \<and>
      (\<forall>k' v. cache_content c' k' v \<longleftrightarrow> k' \<noteq> k \<and> cache_content c k' v) \<and>
      (\<forall>h. 0 < refs h \<longrightarrow> Cache_Value h c' = Cache_Value h c) \<and> cache_entries c' = cache_entries c"
proof -
  define s where "s = Shard (HashSlice k)"
  have s: "s < kNumShards" unfolding s_def by (rule Shard_less)
  note so = shard_of [OF inv s]
  then have len: "length (sc_shards c) = kNumShards" by blast
  let ?c = "\<lambda>d. c\<lparr>sc_shards := (sc_shards c)[s := d]\<rparr>"
  obtain d where d: "LRUCache_Erase k (HashSlice k) (sc_shards c ! s) = Some d" "shard_ok s d (\<lambda>e. refs (s, e))"
    "\<forall>k' v. cached d k' v \<longleftrightarrow> k' \<noteq> k \<and> cached (sc_shards c ! s) k' v"
    "\<forall>a. 0 < refs (s, a) \<longrightarrow> kv d a = kv (sc_shards c ! s) a" "entries d = entries (sc_shards c ! s)"
    "shard_elems d \<le> shard_elems (sc_shards c ! s)"
    using shard_erase [of s "sc_shards c ! s" "\<lambda>e. refs (s, e)" k] so by blast
  have "Cache_Erase k c = Some (?c d)" using d(1) by (simp add: Cache_Erase_def on_shard_def s_def Let_def)
  moreover have "cache_inv m (?c d) refs" by (rule on_shard_inv [OF inv order.refl _ s d(2)]) (use shard_room [OF inv s] d(6) in auto)
  moreover have "\<forall>k' v. cache_content (?c d) k' v \<longleftrightarrow> k' \<noteq> k \<and> cache_content c k' v"
    using d(3) unfolding on_shard_content [OF len] by (auto simp: cache_content_def s_def)
  moreover have "\<forall>h. 0 < refs h \<longrightarrow> Cache_Value h (?c d) = Cache_Value h c"
    using d(4) by (auto intro!: on_shard_value [OF len s])
  moreover have "cache_entries (?c d) = cache_entries c" using on_shard_entries [of s c d "{#}"] d(5) len s by simp
  ultimately show ?thesis by blast
qed

lemma cache_inv_less: "cache_inv (Suc m) c refs \<Longrightarrow> cache_inv m c refs"
  by (force simp: cache_inv_def cache_room_def)

interpretation lru: cache Cache_Lookup Cache_Insert Cache_Release Cache_Erase Cache_Value cache_inv cache_content
proof
  fix c :: "'a ShardedLRUCache" and refs m
  show "\<exists>h c'. Cache_Insert k v n c = Some (h, c') \<and> cache_inv m c' (refs(h := 1)) \<and> refs h = 0 \<and>
      Cache_Value h c' = Some v \<and> cache_content c' k v \<and> (\<forall>k' v'. k' \<noteq> k \<longrightarrow> cache_content c' k' v' \<longrightarrow> cache_content c k' v') \<and>
      (\<forall>h'. 0 < refs h' \<longrightarrow> Cache_Value h' c' = Cache_Value h' c)" if "cache_inv (Suc m) c refs" for k v n
    using Cache_Insert_on [OF that, of k v n] by (elim exE conjE) (intro exI conjI; assumption)
  show "cache_inv m c refs" if "cache_inv (Suc m) c refs" using that by (rule cache_inv_less)
  assume inv: "cache_inv m c refs"
  show "v = w" if "cache_content c k v" "cache_content c k w" for k v w
    using that inv cached_unique shard_of Shard_less unfolding cache_content_def by metis
  show "\<exists>r c'. Cache_Lookup k c = Some (r, c') \<and> cache_content c' = cache_content c \<and>
      (\<forall>h. 0 < refs h \<longrightarrow> Cache_Value h c' = Cache_Value h c) \<and>
      (case r of None \<Rightarrow> cache_inv m c' refs \<and> (\<forall>v. \<not> cache_content c k v)
       | Some h \<Rightarrow> cache_inv m c' (refs(h := refs h + 1)) \<and> (\<exists>v. Cache_Value h c' = Some v \<and> cache_content c k v))" if "few_refs refs" for k
    using Cache_Lookup_on [OF inv that, of k] by (elim exE conjE) (intro exI conjI; assumption)
  show "\<exists>c'. Cache_Erase k c = Some c' \<and> cache_inv m c' refs \<and>
      (\<forall>k' v. cache_content c' k' v \<longleftrightarrow> k' \<noteq> k \<and> cache_content c k' v) \<and> (\<forall>h. 0 < refs h \<longrightarrow> Cache_Value h c' = Cache_Value h c)" for k
    using Cache_Erase_on [OF inv, of k] by (elim exE conjE) (intro exI conjI; assumption)
  show "\<exists>c'. Cache_Release h c = Some c' \<and> cache_inv m c' (refs(h := refs h - 1)) \<and> cache_content c' = cache_content c \<and>
      (\<forall>h'. 0 < (refs(h := refs h - 1)) h' \<longrightarrow> Cache_Value h' c' = Cache_Value h' c)" if "0 < refs h" for h
    using Cache_Release_on [OF inv that] by (elim exE conjE) (intro exI conjI; assumption)
qed

section \<open>Construction and destruction\<close>

lemma LRUCache_init_inv:
  assumes "0 < cap"
  shows "lru_inv (LRUCache_init cap) [] [] (replicate 4 []) (\<lambda>_. 0) {}"
proof -
  have "\<forall>i < 4. bchain (LRUCache_init cap) i []"
    by (simp add: bchain_def LRUCache_init_def HandleTable_init_def del: replicate.simps)
  moreover have "length (ht_list (lc_table (LRUCache_init cap))) = 4" "ht_length (lc_table (LRUCache_init cap)) = 4"
    "ht_elems (lc_table (LRUCache_init cap)) = 0" by (simp_all add: LRUCache_init_def HandleTable_init_def)
  ultimately have "table_ok (LRUCache_init cap) (replicate 4 [])"
    by (simp add: table_ok_def del: replicate.simps)
  then show ?thesis using assms
    by (simp add: lru_inv_def lists_ok_def ring_def handles_ok_def LRUCache_init_def head_defs del: replicate.simps)
qed

lemma destroy_loop_on:
  assumes "distinct (e # as)" "lru_head \<notin> set (e # as)" "links (lc_next c) e as lru_head"
    and "\<forall>a \<in> set (e # as). \<exists>h. lc_handles c a = Some h \<and> h_in_cache h \<and> h_refs h = 1 \<and> lc_next c a \<noteq> Some a"
    and "finite (dom (lc_handles c))"
  shows "\<exists>c'. destroy_loop e c = Some c' \<and> lc_handles c' = lc_handles c |` (- set (e # as)) \<and> entries c' = entries c"
  using assms
proof (induction as arbitrary: e c)
  case Nil
  then obtain h where h: "lc_handles c e = Some h" "h_in_cache h" "h_refs h = 1" "lc_next c e = Some lru_head" "e \<noteq> lru_head" by auto
  let ?c = "free_handle e (c\<lparr>lc_handles := (lc_handles c)(e \<mapsto> h\<lparr>h_in_cache := False, h_refs := 0\<rparr>), lc_deleted := lc_deleted c @ [(h_key h, h_value h)]\<rparr>)"
  have "destroy_loop e c = Some ?c"
    using h by (subst destroy_loop.simps) (simp add: upd_handle_def LRU_Unref_def handle_key_def destroy_loop.simps [of lru_head])
  moreover have "entries ?c = entries c" by (rule entries_free [OF h(1) Nil.prems(5)]) (simp_all add: free_handle_def)
  moreover have "lc_handles ?c = lc_handles c |` (- {e})" by (auto simp: free_handle_def restrict_map_def)
  ultimately show ?case by auto
next
  case (Cons a as)
  then obtain h where h: "lc_handles c e = Some h" "h_in_cache h" "h_refs h = 1" "lc_next c e = Some a" "e \<noteq> lru_head" "a \<noteq> e" by auto
  let ?c = "free_handle e (c\<lparr>lc_handles := (lc_handles c)(e \<mapsto> h\<lparr>h_in_cache := False, h_refs := 0\<rparr>), lc_deleted := lc_deleted c @ [(h_key h, h_value h)]\<rparr>)"
  have step: "destroy_loop e c = destroy_loop a ?c"
    using h by (subst destroy_loop.simps) (simp add: upd_handle_def LRU_Unref_def handle_key_def)
  have ent: "entries ?c = entries c" by (rule entries_free [OF h(1) Cons.prems(5)]) (simp_all add: free_handle_def)
  have hd: "lc_handles ?c = lc_handles c |` (- {e})" by (auto simp: free_handle_def restrict_map_def)
  have nx: "lc_next ?c = (lc_next c)(e := None)" by (simp add: free_handle_def)
  have "\<exists>c'. destroy_loop a ?c = Some c' \<and> lc_handles c' = lc_handles ?c |` (- set (a # as)) \<and> entries c' = entries ?c"
  proof (rule Cons.IH)
    show "distinct (a # as)" "lru_head \<notin> set (a # as)" using Cons.prems(1,2) by auto
    show "links (lc_next ?c) a as lru_head" unfolding nx
      by (rule links_cong [of "lc_next c"]) (use Cons.prems(1,3) in auto)
    show "\<forall>x \<in> set (a # as). \<exists>h. lc_handles ?c x = Some h \<and> h_in_cache h \<and> h_refs h = 1 \<and> lc_next ?c x \<noteq> Some x"
      unfolding nx hd using Cons.prems(1,4) by auto
    show "finite (dom (lc_handles ?c))" unfolding hd using Cons.prems(5) by simp
  qed
  then show ?case using step ent hd by (auto simp: restrict_map_def fun_eq_iff)
qed

lemma LRUCache_destroy_on:
  assumes inv: "lru_inv c lru use bk (\<lambda>_. 0) {}"
  shows "\<exists>c'. LRUCache_destroy c = Some c' \<and> lc_handles c' = Map.empty \<and> mset (lc_deleted c') = entries c"
proof -
  have l: "lists_ok c lru use" and ho: "handles_ok c (set lru \<union> set use) (\<lambda>_. 0)" and "\<forall>a \<in> set use. 0 < (0 :: nat)"
    using inv unfolding lru_inv_def by blast+
  then have u: "use = []" by (cases use) auto
  have all: "dom (lc_handles c) = set lru"
  proof
    show "dom (lc_handles c) \<subseteq> set lru"
    proof
      fix a assume "a \<in> dom (lc_handles c)"
      then obtain h where h: "lc_handles c a = Some h" by blast
      show "a \<in> set lru" using handles_ok_at(3,5) [OF ho h] handles_ok_at(4) [OF ho h, folded unat_gt_0] u by (cases "h_in_cache h") auto
    qed
    show "set lru \<subseteq> dom (lc_handles c)" using lists_dom [OF inv] by auto
  qed
  have inuse: "lc_next c in_use_head = Some in_use_head" using l u by (simp add: lists_ok_def ring_def)
  have bag: "mset (lc_deleted c') = entries c" if "lc_handles c' = Map.empty" "entries c' = entries c" for c'
  proof -
    have "entries c' = mset (lc_deleted c')" using that(1) by (simp add: entries_def)
    then show ?thesis using that(2) by simp
  qed
  show ?thesis
  proof (cases lru)
    case Nil
    then have "lc_next c lru_head = Some lru_head" using l by (simp add: lists_ok_def ring_def)
    moreover have "lc_handles c = Map.empty" using all Nil by simp
    ultimately show ?thesis using inuse bag [of c] by (auto simp: LRUCache_destroy_def destroy_loop.simps)
  next
    case (Cons e as)
    have "\<exists>c'. destroy_loop e c = Some c' \<and> lc_handles c' = lc_handles c |` (- set (e # as)) \<and> entries c' = entries c"
    proof (rule destroy_loop_on)
      show "distinct (e # as)" "lru_head \<notin> set (e # as)" using l unfolding lists_ok_def Cons by auto
      show "links (lc_next c) e as lru_head" using l Cons by (simp add: lists_ok_def ring_def)
      show "finite (dom (lc_handles c))" by (rule handles_finite [OF ho])
      show "\<forall>a \<in> set (e # as). \<exists>h. lc_handles c a = Some h \<and> h_in_cache h \<and> h_refs h = 1 \<and> lc_next c a \<noteq> Some a"
      proof
        fix a assume a: "a \<in> set (e # as)"
        then obtain h where h: "lc_handles c a = Some h" using all Cons by auto
        then show "\<exists>h. lc_handles c a = Some h \<and> h_in_cache h \<and> h_refs h = 1 \<and> lc_next c a \<noteq> Some a"
          using handles_ok_at(3,5) [OF ho h] a Cons lists_next [OF l h] by (auto simp: unat_eq_1)
      qed
    qed
    then obtain c' where c': "destroy_loop e c = Some c'" "lc_handles c' = lc_handles c |` (- set (e # as))" "entries c' = entries c" by blast
    have "lc_handles c' = Map.empty"
    proof
      fix a show "lc_handles c' a = None" using c'(2) all Cons by (cases "a \<in> set lru") (auto simp: restrict_map_def)
    qed
    moreover have "lc_next c lru_head = Some e" using l Cons by (simp add: lists_ok_def ring_def)
    ultimately show ?thesis using inuse c'(1,3) bag [of c'] by (auto simp: LRUCache_destroy_def)
  qed
qed

lemma on_shards_all:
  assumes "\<forall>i < length ds. \<exists>d'. f (ds ! i) = Some d' \<and> P i (ds ! i) d'"
  shows "\<exists>ds'. on_shards f ds = Some ds' \<and> length ds' = length ds \<and> (\<forall>i < length ds. P i (ds ! i) (ds' ! i))"
  using assms
proof (induction ds arbitrary: P)
  case (Cons d ds)
  obtain d' where d': "f d = Some d'" "P 0 d d'" using Cons.prems by force
  have "\<forall>i < length ds. \<exists>d'. f (ds ! i) = Some d' \<and> P (Suc i) (ds ! i) d'" using Cons.prems by force
  from Cons.IH [of "\<lambda>i. P (Suc i)", OF this] obtain ds' where ds': "on_shards f ds = Some ds'" "length ds' = length ds"
    "\<forall>i < length ds. P (Suc i) (ds ! i) (ds' ! i)" by blast
  have "P i ((d # ds) ! i) ((d' # ds') ! i)" if "i < length (d # ds)" for i using that d'(2) ds'(3) by (cases i) auto
  then show ?case using d'(1) ds'(1,2) by auto
qed simp

lemma sum_list_replicate_empty: "sum_list (replicate n {#}) = {#}"
  by (induction n) simp_all

lemma ShardedLRUCache_init_inv:
  fixes v :: 'a
  assumes "0 < (cap + 15) div 16"
  shows "m \<le> max_entries \<Longrightarrow> cache_inv m (ShardedLRUCache_init cap :: 'a ShardedLRUCache) (\<lambda>_. 0)"
    and "\<not> cache_content (ShardedLRUCache_init cap) k v"
    and "cache_entries (ShardedLRUCache_init cap :: 'a ShardedLRUCache) = {#}"
proof -
  let ?d = "LRUCache_init ((cap + 15) div 16) :: 'a LRUCache"
  have sh: "sc_shards (ShardedLRUCache_init cap) = replicate kNumShards ?d"
    by (simp add: ShardedLRUCache_init_def kNumShards_def kNumShardBits_def Let_def del: replicate.simps)
  have "shard_ok s ?d (\<lambda>_. 0)" for s
    using LRUCache_init_inv [OF assms] by (auto simp: shard_ok_def hashes_ok_def LRUCache_init_def)
  then show "m \<le> max_entries \<Longrightarrow> cache_inv m (ShardedLRUCache_init cap :: 'a ShardedLRUCache) (\<lambda>_. 0)" by (simp add: cache_inv_def cache_room_def shard_elems_def sh LRUCache_init_def HandleTable_init_def)
  show "\<not> cache_content (ShardedLRUCache_init cap :: 'a ShardedLRUCache) k v"
    unfolding cache_content_def sh using Shard_less [of "HashSlice k"] by (simp add: cached_def LRUCache_init_def)
  have "entries ?d = {#}" by (simp add: entries_def LRUCache_init_def)
  then show "cache_entries (ShardedLRUCache_init cap :: 'a ShardedLRUCache) = {#}"
    by (simp add: cache_entries_def sh sum_list_replicate_empty del: replicate.simps)
qed

lemma Cache_Prune_on:
  assumes inv: "cache_inv m c refs"
  shows "\<exists>c'. Cache_Prune c = Some c' \<and> cache_inv m c' refs \<and> (\<forall>k v. cache_content c' k v \<longrightarrow> cache_content c k v) \<and>
      (\<forall>h. 0 < refs h \<longrightarrow> Cache_Value h c' = Cache_Value h c) \<and> cache_entries c' = cache_entries c"
proof -
  have len: "length (sc_shards c) = kNumShards" using inv by (simp add: cache_inv_def)
  have "\<forall>s < length (sc_shards c). \<exists>d'. LRUCache_Prune (sc_shards c ! s) = Some d' \<and>
      (shard_ok s d' (\<lambda>e. refs (s, e)) \<and> (\<forall>k v. cached d' k v \<longrightarrow> cached (sc_shards c ! s) k v) \<and>
       (\<forall>a. 0 < refs (s, a) \<longrightarrow> kv d' a = kv (sc_shards c ! s) a) \<and> entries d' = entries (sc_shards c ! s) \<and>
       shard_elems d' \<le> shard_elems (sc_shards c ! s))"
  proof (intro allI impI)
    fix s assume "s < length (sc_shards c)"
    then have "shard_ok s (sc_shards c ! s) (\<lambda>e. refs (s, e))" using inv by (simp add: cache_inv_def)
    from shard_prune [OF this] show "\<exists>d'. LRUCache_Prune (sc_shards c ! s) = Some d' \<and>
      (shard_ok s d' (\<lambda>e. refs (s, e)) \<and> (\<forall>k v. cached d' k v \<longrightarrow> cached (sc_shards c ! s) k v) \<and>
       (\<forall>a. 0 < refs (s, a) \<longrightarrow> kv d' a = kv (sc_shards c ! s) a) \<and> entries d' = entries (sc_shards c ! s) \<and>
       shard_elems d' \<le> shard_elems (sc_shards c ! s))" .
  qed
  from on_shards_all [of _ _ "\<lambda>s d d'. shard_ok s d' (\<lambda>e. refs (s, e)) \<and> (\<forall>k v. cached d' k v \<longrightarrow> cached d k v) \<and>
       (\<forall>a. 0 < refs (s, a) \<longrightarrow> kv d' a = kv d a) \<and> entries d' = entries d \<and> shard_elems d' \<le> shard_elems d", OF this]
  obtain ds where ds: "on_shards LRUCache_Prune (sc_shards c) = Some ds" "length ds = kNumShards"
    "\<forall>s < kNumShards. shard_ok s (ds ! s) (\<lambda>e. refs (s, e)) \<and> (\<forall>k v. cached (ds ! s) k v \<longrightarrow> cached (sc_shards c ! s) k v) \<and>
       (\<forall>a. 0 < refs (s, a) \<longrightarrow> kv (ds ! s) a = kv (sc_shards c ! s) a) \<and> entries (ds ! s) = entries (sc_shards c ! s) \<and>
       shard_elems (ds ! s) \<le> shard_elems (sc_shards c ! s)"
    unfolding len by blast
  let ?c = "c\<lparr>sc_shards := ds\<rparr>"
  have "Cache_Prune c = Some ?c" using ds(1) by (simp add: Cache_Prune_def)
  moreover have "cache_room m ?c"
    unfolding cache_room_def
  proof
    fix d assume "d \<in> set (sc_shards ?c)"
    then obtain s where "s < kNumShards" "d = ds ! s" using ds(2) by (auto simp: in_set_conv_nth)
    then show "shard_elems d + m \<le> max_entries" using shard_room [OF inv] ds(3) by fastforce
  qed
  then have "cache_inv m ?c refs" using inv ds(2,3) by (simp add: cache_inv_def)
  moreover have "\<forall>k v. cache_content ?c k v \<longrightarrow> cache_content c k v" using ds(3) Shard_less by (simp add: cache_content_def)
  moreover have "\<forall>h. 0 < refs h \<longrightarrow> Cache_Value h ?c = Cache_Value h c"
  proof (intro allI impI)
    fix h :: cache_handle assume h: "0 < refs h"
    then have "fst h < kNumShards" using inv unfolding cache_inv_def by (metis less_irrefl linorder_not_le prod.collapse)
    then show "Cache_Value h ?c = Cache_Value h c" using ds(3) h by (simp add: Cache_Value_kv)
  qed
  moreover have "map entries ds = map entries (sc_shards c)" by (rule nth_equalityI) (use ds(2,3) len in simp_all)
  then have "cache_entries ?c = cache_entries c" by (simp add: cache_entries_def)
  ultimately show ?thesis by blast
qed

lemma Cache_destroy_on:
  assumes inv: "cache_inv m c (\<lambda>_. 0)"
  shows "\<exists>c'. Cache_destroy c = Some c' \<and> (\<forall>d \<in> set (sc_shards c'). lc_handles d = Map.empty) \<and>
    mset (concat (map lc_deleted (sc_shards c'))) = cache_entries c"
proof -
  have "\<forall>s < length (sc_shards c). \<exists>d'. LRUCache_destroy (sc_shards c ! s) = Some d' \<and>
      (lc_handles d' = Map.empty \<and> mset (lc_deleted d') = entries (sc_shards c ! s))"
    using inv LRUCache_destroy_on unfolding cache_inv_def shard_ok_def by metis
  from on_shards_all [of _ _ "\<lambda>s d d'. lc_handles d' = Map.empty \<and> mset (lc_deleted d') = entries d", OF this]
  obtain ds where ds: "on_shards LRUCache_destroy (sc_shards c) = Some ds" "length ds = length (sc_shards c)"
    "\<forall>s < length (sc_shards c). lc_handles (ds ! s) = Map.empty \<and> mset (lc_deleted (ds ! s)) = entries (sc_shards c ! s)" by blast
  have "map (\<lambda>d. mset (lc_deleted d)) ds = map entries (sc_shards c)" by (rule nth_equalityI) (use ds(2,3) in simp_all)
  moreover have "mset (concat (map lc_deleted ds)) = sum_list (map (\<lambda>d. mset (lc_deleted d)) ds)" by (induction ds) simp_all
  ultimately have "mset (concat (map lc_deleted ds)) = cache_entries c" by (simp add: cache_entries_def)
  moreover have "\<forall>d \<in> set ds. lc_handles d = Map.empty" using ds(2,3) by (metis in_set_conv_nth)
  ultimately show ?thesis using ds(1) by (simp add: Cache_destroy_def)
qed

section \<open>Histories\<close>

text \<open>
  A client of a cache of capacity \<open>cap\<close>: \<open>refs\<close> counts the references it holds, \<open>newest\<close> is the value it inserted
  last under each key and did not erase, \<open>M\<close> all it ever inserted. It inserts while every shard has room for
  one more entry (\<open>cache_room\<close>), and looks up while it holds fewer than \<open>max_refs\<close> references to any entry.
\<close>

inductive cache_reach :: "u64 \<Rightarrow> 'v ShardedLRUCache \<Rightarrow> (cache_handle \<Rightarrow> nat) \<Rightarrow> (slice \<rightharpoonup> 'v) \<Rightarrow> (slice \<times> 'v) multiset \<Rightarrow> bool"
  for cap
where
  reach_init: "cache_reach cap (ShardedLRUCache_init cap) (\<lambda>_. 0) Map.empty {#}"
| reach_insert: "cache_reach cap c refs newest M \<Longrightarrow> cache_room 1 c \<Longrightarrow> Cache_Insert k v n c = Some (h, c') \<Longrightarrow>
    cache_reach cap c' (refs(h := refs h + 1)) (newest(k \<mapsto> v)) (add_mset (k, v) M)"
| reach_hit: "cache_reach cap c refs newest M \<Longrightarrow> few_refs refs \<Longrightarrow> Cache_Lookup k c = Some (Some h, c') \<Longrightarrow> cache_reach cap c' (refs(h := refs h + 1)) newest M"
| reach_miss: "cache_reach cap c refs newest M \<Longrightarrow> few_refs refs \<Longrightarrow> Cache_Lookup k c = Some (None, c') \<Longrightarrow> cache_reach cap c' refs newest M"
| reach_release: "cache_reach cap c refs newest M \<Longrightarrow> 0 < refs h \<Longrightarrow> Cache_Release h c = Some c' \<Longrightarrow>
    cache_reach cap c' (refs(h := refs h - 1)) newest M"
| reach_erase: "cache_reach cap c refs newest M \<Longrightarrow> Cache_Erase k c = Some c' \<Longrightarrow> cache_reach cap c' refs (newest(k := None)) M"
| reach_prune: "cache_reach cap c refs newest M \<Longrightarrow> Cache_Prune c = Some c' \<Longrightarrow> cache_reach cap c' refs newest M"

lemma cache_inv_room: "cache_inv (Suc m) c refs \<longleftrightarrow> cache_inv 0 c refs \<and> cache_room (Suc m) c"
  by (force simp: cache_inv_def cache_room_def)

lemma cache_reach_inv:
  assumes "cache_reach cap c refs newest M" "0 < (cap + 15) div 16"
  shows "cache_inv 0 c refs \<and> (\<forall>k v. cache_content c k v \<longrightarrow> newest k = Some v) \<and> cache_entries c = M"
  using assms(1)
proof induction
  case reach_init
  show ?case by (simp add: ShardedLRUCache_init_inv [OF assms(2)])
next
  case (reach_insert c refs newest M k v n h c')
  then have inv: "cache_inv (Suc 0) c refs" by (simp add: cache_inv_room)
  have i: "cache_inv 0 c' (refs(h := refs h + 1))" "cache_content c' k v" "cache_entries c' = add_mset (k, v) M"
    "\<forall>k' v'. k' \<noteq> k \<longrightarrow> cache_content c' k' v' \<longrightarrow> cache_content c k' v'"
    using Cache_Insert_on [OF inv, of k v n] reach_insert by auto
  have "(newest(k \<mapsto> v)) k' = Some v'" if c: "cache_content c' k' v'" for k' v'
    using that i(2,4) lru.content_unique [OF i(1)] reach_insert.IH by (cases "k' = k") auto
  then show ?case using i by blast
next
  case (reach_hit c refs newest M k h c')
  then have inv: "cache_inv 0 c refs" by blast
  show ?case using Cache_Lookup_on [OF inv reach_hit.hyps(2), of k] reach_hit by (auto simp del: fun_upd_apply)
next
  case (reach_miss c refs newest M k c')
  then have inv: "cache_inv 0 c refs" by blast
  show ?case using Cache_Lookup_on [OF inv reach_miss.hyps(2), of k] reach_miss by auto
next
  case (reach_release c refs newest M h c')
  then have inv: "cache_inv 0 c refs" by blast
  show ?case using Cache_Release_on [OF inv reach_release.hyps(2)] reach_release by (auto simp del: fun_upd_apply)
next
  case (reach_erase c refs newest M k c')
  then have inv: "cache_inv 0 c refs" by blast
  show ?case using Cache_Erase_on [OF inv, of k] reach_erase by auto
next
  case (reach_prune c refs newest M c')
  then have inv: "cache_inv 0 c refs" by blast
  show ?case using Cache_Prune_on [OF inv] reach_prune by auto
qed

text \<open>
  With a capacity of 0 nothing is cached, and the \<open>next\<close> pointer of the new entry is never set; releasing the
  handle reads it in \<open>LRUHandle::key\<close>, to decide where the key is.
\<close>

lemma insert_no_cache_release:
  "\<exists>c'. LRUCache_Insert key hash v charge (LRUCache_init 0) = Some (2, c') \<and> LRUCache_Release 2 c' = None"
  by (simp add: LRUCache_Insert_def LRUCache_init_def Let_def evict_loop.simps LRUCache_Release_def LRU_Unref_def upd_handle_def
      handle_key_def head_defs)

end
