(* ===== verification/Lv_Cache_Properties.thy ===== *)
theory Lv_Cache_Properties
  imports Lv_Sharded_Cache
begin

text \<open>
  The properties of the cache over every history of a client (\<open>cache_reach\<close>), and their instance on a history that
  inserts, replaces and looks up an entry. The reference counts and the sizes of the tables have 32 bits, and the histories
  are those that do not make them wrap around: a client inserts while no shard has more than \<open>max_entries\<close> - 1 entries
  (\<open>cache_room 1\<close>) and looks up while it holds fewer than \<open>max_refs\<close> references to any entry (\<open>few_refs\<close>).
\<close>

text \<open> C32. Refinement: after any history, a lookup returns, and a handle it returns has the value that was inserted
  last under the key and not erased since; a value may be absent, never stale. The client holds fewer references than
  the 32 bits of a count allow. \<close>

theorem cache_lookup_newest:
  assumes "cache_reach cap c refs newest M" "0 < (cap + 15) div 16" "few_refs refs"
  shows "\<exists>r c'. Cache_Lookup k c = Some (r, c') \<and>
    (\<forall>h. r = Some h \<longrightarrow> (\<exists>v. Cache_Value h c' = Some v \<and> newest k = Some v))"
proof -
  have inv: "cache_inv 0 c refs" and con: "\<forall>k v. cache_content c k v \<longrightarrow> newest k = Some v"
    using cache_reach_inv [OF assms(1,2)] by blast+
  obtain r c' where r: "Cache_Lookup k c = Some (r, c')" using lru.lookup_law [OF inv assms(3), of k] by blast
  have "\<exists>v. Cache_Value h c' = Some v \<and> newest k = Some v" if "r = Some h" for h
    using lru.lookup_sound(1) [OF inv assms(3) con, of k h c'] r that by simp
  with r show ?thesis by blast
qed

text \<open> C33. Held entries are safe: after any history the value of a handle that is held stays the same under every
  operation, also when its entry is replaced, erased or evicted, and releasing it is defined. An insertion needs room
  for one more entry, and a lookup a count of references that can still go up. \<close>

theorem cache_handles_stable:
  assumes "cache_reach cap c refs newest M" "0 < (cap + 15) div 16" "0 < refs h"
  shows "(cache_room 1 c \<longrightarrow> (\<exists>h' c'. Cache_Insert k v n c = Some (h', c') \<and> h' \<noteq> h \<and> Cache_Value h c' = Cache_Value h c)) \<and>
    (few_refs refs \<longrightarrow> (\<exists>r c'. Cache_Lookup k c = Some (r, c') \<and> Cache_Value h c' = Cache_Value h c)) \<and>
    (\<exists>c'. Cache_Erase k c = Some c' \<and> Cache_Value h c' = Cache_Value h c) \<and>
    (\<exists>c'. Cache_Prune c = Some c' \<and> Cache_Value h c' = Cache_Value h c) \<and>
    (\<exists>c'. Cache_Release h c = Some c' \<and> (1 < refs h \<longrightarrow> Cache_Value h c' = Cache_Value h c))"
proof (intro conjI)
  have inv: "cache_inv 0 c refs" using cache_reach_inv [OF assms(1,2)] by blast
  show "cache_room 1 c \<longrightarrow> (\<exists>h' c'. Cache_Insert k v n c = Some (h', c') \<and> h' \<noteq> h \<and> Cache_Value h c' = Cache_Value h c)"
  proof
    assume "cache_room 1 c"
    then have "cache_inv (Suc 0) c refs" using inv by (simp add: cache_inv_room)
    from lru.insert_law [OF this, of k v n] obtain h' c' where
      "Cache_Insert k v n c = Some (h', c')" "refs h' = 0" "Cache_Value h c' = Cache_Value h c" using assms(3) by blast
    then show "\<exists>h' c'. Cache_Insert k v n c = Some (h', c') \<and> h' \<noteq> h \<and> Cache_Value h c' = Cache_Value h c"
      using assms(3) by (intro exI [of _ h'] exI [of _ c']) auto
  qed
  show "few_refs refs \<longrightarrow> (\<exists>r c'. Cache_Lookup k c = Some (r, c') \<and> Cache_Value h c' = Cache_Value h c)"
    using lru.lookup_law [OF inv, of k] assms(3) by blast
  show "\<exists>c'. Cache_Erase k c = Some c' \<and> Cache_Value h c' = Cache_Value h c"
    using lru.erase_law [OF inv, of k] assms(3) by blast
  show "\<exists>c'. Cache_Prune c = Some c' \<and> Cache_Value h c' = Cache_Value h c"
    using Cache_Prune_on [OF inv] assms(3) by blast
  show "\<exists>c'. Cache_Release h c = Some c' \<and> (1 < refs h \<longrightarrow> Cache_Value h c' = Cache_Value h c)"
  proof -
    obtain c' where c': "Cache_Release h c = Some c'"
      "\<forall>h'. 0 < (refs(h := refs h - 1)) h' \<longrightarrow> Cache_Value h' c' = Cache_Value h' c" using lru.release_law [OF inv assms(3)] by blast
    have "1 < refs h \<longrightarrow> 0 < (refs(h := refs h - 1)) h" by simp
    then show ?thesis using c' by blast
  qed
qed

text \<open> C34. Every entry is destroyed once: when a client has released every handle, destroying the cache is defined,
  frees every entry, and has called a deleter once for every value that was ever inserted, with its key. \<close>

theorem cache_deleters_called:
  assumes "cache_reach cap c refs newest M" "0 < (cap + 15) div 16" "\<forall>h. refs h = 0"
  shows "\<exists>c'. Cache_destroy c = Some c' \<and> (\<forall>d \<in> set (sc_shards c'). lc_handles d = Map.empty) \<and>
    mset (concat (map lc_deleted (sc_shards c'))) = M"
proof -
  have "refs = (\<lambda>_. 0)" using assms(3) by blast
  then have "cache_inv 0 c (\<lambda>_. 0)" "cache_entries c = M" using cache_reach_inv [OF assms(1,2)] by blast+
  then show ?thesis using Cache_destroy_on by blast
qed

text \<open> C35. The bound on the size: an insertion ends with the usage of the shard within its capacity, unless
  every entry of the shard that is left is held by a client. \<close>

theorem cache_usage_bound:
  assumes "cache_reach cap c refs newest M" "0 < (cap + 15) div 16" "cache_room 1 c" "Cache_Insert k v n c = Some (h, c')"
  shows "lc_usage (sc_shards c' ! fst h) \<le> lc_capacity (sc_shards c' ! fst h) \<or>
    (\<forall>a \<in> dom (lc_handles (sc_shards c' ! fst h)). 0 < (refs(h := 1)) (fst h, a))"
proof -
  have "cache_inv (Suc 0) c refs" using cache_reach_inv [OF assms(1,2)] assms(3) by (simp add: cache_inv_room)
  from Cache_Insert_on [OF this, of k v n] show ?thesis using assms(4) by (auto simp: Let_def)
qed

section \<open>An instance\<close>

text \<open>A client inserts two values under one key, holds the first handle, and releases the second.\<close>

lemma one_insert:
  "\<exists>c h. Cache_Insert [7] ''a'' 1 (ShardedLRUCache_init 160) = Some (h, c) \<and> Cache_Value h c = Some ''a'' \<and>
     cache_reach 160 c ((\<lambda>_. 0)(h := 1)) [[7] \<mapsto> ''a''] {#([7], ''a'')#} \<and> cache_inv 5 c ((\<lambda>_. 0)(h := 1))"
proof -
  let ?cap = "160 :: u64" and ?c = "ShardedLRUCache_init 160 :: string ShardedLRUCache"
  have inv: "cache_inv 6 ?c (\<lambda>_. 0)" by (rule ShardedLRUCache_init_inv) (simp_all add: max_entries_def)
  then have "cache_inv (Suc 5) ?c (\<lambda>_. 0)" by simp
  from lru.insert_law [OF this, of "[7]" "''a''" 1] obtain h c where h: "Cache_Insert [7] ''a'' 1 ?c = Some (h, c)"
    "Cache_Value h c = Some ''a''" "cache_inv 5 c ((\<lambda>_. 0)(h := 1))" by blast
  have "cache_room 1 ?c" using inv by (force simp: cache_inv_def cache_room_def)
  from reach_insert [OF reach_init this h(1)] have "cache_reach ?cap c ((\<lambda>_. 0)(h := 1)) [[7] \<mapsto> ''a''] {#([7], ''a'')#}" by simp
  with h show ?thesis by blast
qed

lemma two_inserts:
  "\<exists>c refs h. cache_reach 160 c refs [[7] \<mapsto> ''b''] {#([7], ''b''), ([7], ''a'')#} \<and> refs h = 1 \<and> few_refs refs \<and> Cache_Value h c = Some ''a''"
proof -
  obtain c1 h where h: "Cache_Value h c1 = Some ''a''"
    "cache_reach 160 c1 ((\<lambda>_. 0)(h := 1)) [[7] \<mapsto> ''a''] {#([7], ''a'')#}" "cache_inv 5 c1 ((\<lambda>_. 0)(h := 1))" using one_insert by blast
  then have "cache_inv (Suc 4) c1 ((\<lambda>_. 0)(h := 1))" by simp
  from lru.insert_law [OF this, of "[7]" "''b''" 1] obtain h2 c2 where h2: "Cache_Insert [7] ''b'' 1 c1 = Some (h2, c2)"
    "((\<lambda>_. 0)(h := 1)) h2 = (0 :: nat)" "Cache_Value h c2 = Cache_Value h c1"
    by (metis fun_upd_same zero_less_one)
  have "cache_room 1 c1" using h(3) by (force simp: cache_inv_def cache_room_def)
  note r2 = reach_insert [OF h(2) this h2(1)]
  have "h2 \<noteq> h" using h2(2) by auto
  moreover have "few_refs (((\<lambda>_. 0)(h := 1))(h2 := ((\<lambda>_. 0)(h := 1)) h2 + 1))" using h2(2) by (auto simp: few_refs_def max_refs_def)
  ultimately show ?thesis using r2 h(1) h2(3)
    by (intro exI [of _ c2] exI [of _ "((\<lambda>_. 0)(h := 1))(h2 := ((\<lambda>_. 0)(h := 1)) h2 + 1)"] exI [of _ h]) simp
qed

theorem cache_lookup_newest_witness:
  "\<exists>c refs M. cache_reach 160 c refs [[7] \<mapsto> ''b''] M \<and> (\<exists>r c'. Cache_Lookup [7] c = Some (r, c') \<and>
     (\<forall>h. r = Some h \<longrightarrow> Cache_Value h c' = Some ''b''))"
proof -
  obtain c refs where r: "cache_reach 160 c refs [[7] \<mapsto> ''b''] {#([7], ''b''), ([7], ''a'')#}" "few_refs refs" using two_inserts by blast
  have "\<exists>r c'. Cache_Lookup [7] c = Some (r, c') \<and> (\<forall>h. r = Some h \<longrightarrow> Cache_Value h c' = Some ''b'')"
    using cache_lookup_newest [OF r(1) _ r(2), of "[7]"] by auto
  then show ?thesis using r by blast
qed

theorem cache_handles_stable_witness:
  "\<exists>c refs h M. cache_reach 160 c refs [[7] \<mapsto> ''b''] M \<and> Cache_Value h c = Some ''a'' \<and>
     (\<exists>c'. Cache_Erase [7] c = Some c' \<and> Cache_Value h c' = Some ''a'')"
proof -
  obtain c refs h where r: "cache_reach 160 c refs [[7] \<mapsto> ''b''] {#([7], ''b''), ([7], ''a'')#}" "refs h = 1" "Cache_Value h c = Some ''a''"
    using two_inserts by blast
  have "\<exists>c'. Cache_Erase [7] c = Some c' \<and> Cache_Value h c' = Cache_Value h c"
    using cache_handles_stable [OF r(1), of h "[7]"] r(2) by simp
  then have "\<exists>c'. Cache_Erase [7] c = Some c' \<and> Cache_Value h c' = Some ''a''" using r(3) by simp
  then show ?thesis using r(1,3) by blast
qed

theorem cache_deleters_called_witness:
  "\<exists>c c'. Cache_Insert [7] ''a'' 1 (ShardedLRUCache_init 160) = Some c \<and> Cache_Release (fst c) (snd c) = Some c' \<and>
     (\<exists>d. Cache_destroy c' = Some d \<and> mset (concat (map lc_deleted (sc_shards d))) = {#([7], ''a'')#})"
proof -
  obtain c1 h where h: "Cache_Insert [7] ''a'' 1 (ShardedLRUCache_init 160) = Some (h, c1)"
    "cache_reach 160 c1 ((\<lambda>_. 0)(h := 1)) [[7] \<mapsto> ''a''] {#([7], ''a'')#}" "cache_inv 5 c1 ((\<lambda>_. 0)(h := 1))" using one_insert by blast
  from lru.release_law [OF h(3), of h] obtain c' where c': "Cache_Release h c1 = Some c'" by auto
  have "0 < ((\<lambda>_. 0 :: nat)(h := 1)) h" by simp
  from reach_release [OF h(2) this c'] have r2: "cache_reach 160 c' (((\<lambda>_. 0)(h := 1))(h := ((\<lambda>_. 0)(h := 1)) h - 1)) [[7] \<mapsto> ''a''] {#([7], ''a'')#}" .
  from cache_deleters_called [OF r2] h(1) c' show ?thesis by auto
qed

theorem cache_usage_bound_witness:
  "\<exists>h c'. Cache_Insert [7] ''a'' 1 (ShardedLRUCache_init 160) = Some (h, c') \<and>
     (lc_usage (sc_shards c' ! fst h) \<le> lc_capacity (sc_shards c' ! fst h) \<or>
      (\<forall>a \<in> dom (lc_handles (sc_shards c' ! fst h)). 0 < ((\<lambda>_. 0 :: nat)(h := 1)) (fst h, a)))"
proof -
  let ?c = "ShardedLRUCache_init 160 :: string ShardedLRUCache"
  obtain h c1 where h: "Cache_Insert [7] ''a'' 1 ?c = Some (h, c1)" using one_insert by blast
  have "cache_inv 1 ?c (\<lambda>_. 0)" by (rule ShardedLRUCache_init_inv) (simp_all add: max_entries_def)
  then have "cache_room 1 ?c" by (simp add: cache_inv_def)
  from cache_usage_bound [OF reach_init _ this h] h show ?thesis by auto
qed

end
