(* ===== verification/Lv_Format.thy ===== *)
theory Lv_Format
  imports Lv_Crc32c Lv_Coding Lv_Status "HOL-Library.Monad_Syntax"
begin

text \<open>
  The file format of a table: \<open>table/format.cc\<close>, with the random-access file it is read from. The locale
  \<open>random_file\<close> is the part of \<open>RandomAccessFile\<close> that a reader relies on; the memory-mapped file of
  \<open>util/env_posix.cc\<close> keeps it. A read outside of a buffer is undefined, \<open>None\<close>. Snappy is the one of
  \<open>port/port_posix.h\<close> without \<open>SNAPPY\<close>, which the project does not define.
\<close>

section \<open>Random-access files\<close>

text \<open>The result of \<open>Read\<close>, and whether its data is in the scratch buffer of the caller.\<close>

record raf_result =
  raf_status :: Status
  raf_data :: slice
  raf_in_scratch :: bool

type_synonym random_read = "u64 \<Rightarrow> u64 \<Rightarrow> raf_result option"

locale random_file =
  fixes rd :: random_read and contents :: slice
  assumes read_within: "length contents < 2 ^ 64 \<Longrightarrow> unat off + unat n \<le> length contents \<Longrightarrow>
    \<exists>scratch. rd off n = Some \<lparr>raf_status = OK, raf_data = take (unat n) (drop (unat off) contents), raf_in_scratch = scratch\<rparr>"

definition EINVAL_text :: slice where
  "EINVAL_text = str ''Invalid argument''"

text \<open>\<open>offset + n\<close> wraps around in 64 bits; then the pointer \<open>base + offset\<close> may be outside of the mapped region.\<close>

definition PosixMmapReadableFile_Read :: "slice \<Rightarrow> slice \<Rightarrow> random_read" where
  "PosixMmapReadableFile_Read filename region offset n =
     (if unat (offset + n) > length region
      then Some \<lparr>raf_status = IOError filename EINVAL_text, raf_data = [], raf_in_scratch = False\<rparr>
      else if unat offset + unat n > length region then None
      else Some \<lparr>raf_status = OK, raf_data = take (unat n) (drop (unat offset) region), raf_in_scratch = False\<rparr>)"

interpretation mmap: random_file "PosixMmapReadableFile_Read filename region" region for filename region
proof
  fix off n :: u64
  assume "length region < 2 ^ 64" "unat off + unat n \<le> length region"
  then have "unat (off + n) = unat off + unat n" by (simp add: unat_word_ariths)
  then show "\<exists>scratch. PosixMmapReadableFile_Read filename region off n =
      Some \<lparr>raf_status = OK, raf_data = take (unat n) (drop (unat off) region), raf_in_scratch = scratch\<rparr>"
    using \<open>unat off + unat n \<le> length region\<close> by (intro exI [of _ False]) (simp add: PosixMmapReadableFile_Read_def)
qed

section \<open>Block handles and the footer\<close>

record BlockHandle =
  bh_offset :: u64
  bh_size :: u64

definition BlockHandle_init :: BlockHandle where
  "BlockHandle_init = \<lparr>bh_offset = NOT 0, bh_size = NOT 0\<rparr>"

definition kMaxEncodedLength :: nat where "kMaxEncodedLength = 10 + 10"

text \<open>Both fields must have been set.\<close>

definition BlockHandle_EncodeTo :: "slice \<Rightarrow> BlockHandle \<Rightarrow> slice option" where
  "BlockHandle_EncodeTo dst h =
     (if bh_offset h = NOT 0 \<or> bh_size h = NOT 0 then None
      else let dst = PutVarint64 dst (bh_offset h) in Some (PutVarint64 dst (bh_size h)))"

text \<open>The status, the handle and the rest of the input; a failed read leaves the fields behind it as they were.\<close>

definition BlockHandle_DecodeFrom :: "slice \<Rightarrow> BlockHandle \<Rightarrow> Status \<times> BlockHandle \<times> slice" where
  "BlockHandle_DecodeFrom input h =
     (case GetVarint64 input of
        None \<Rightarrow> (Corruption (str ''bad block handle'') [], h, input)
      | Some (off, input) \<Rightarrow>
          (case GetVarint64 input of
             None \<Rightarrow> (Corruption (str ''bad block handle'') [], h\<lparr>bh_offset := off\<rparr>, input)
           | Some (sz, input) \<Rightarrow> (OK, h\<lparr>bh_offset := off, bh_size := sz\<rparr>, input)))"

record Footer =
  metaindex_handle :: BlockHandle
  index_handle :: BlockHandle

definition Footer_init :: Footer where
  "Footer_init = \<lparr>metaindex_handle = BlockHandle_init, index_handle = BlockHandle_init\<rparr>"

definition kEncodedLength :: nat where "kEncodedLength = 2 * kMaxEncodedLength + 8"

definition kTableMagicNumber :: u64 where "kTableMagicNumber = 0xdb4775248b80fb57"

definition resize_to :: "nat \<Rightarrow> slice \<Rightarrow> slice" where
  "resize_to n s = take n s @ replicate (n - length s) 0"

text \<open>The whole of \<open>dst\<close> is padded: the last assertion holds for an empty one only.\<close>

definition Footer_EncodeTo :: "slice \<Rightarrow> Footer \<Rightarrow> slice option" where
  "Footer_EncodeTo dst f = do {
     let original_size = length dst;
     dst \<leftarrow> BlockHandle_EncodeTo dst (metaindex_handle f);
     dst \<leftarrow> BlockHandle_EncodeTo dst (index_handle f);
     let dst = resize_to (2 * kMaxEncodedLength) dst;
     let dst = PutFixed32 dst (ucast (kTableMagicNumber AND 0xffffffff));
     let dst = PutFixed32 dst (ucast (drop_bit 32 kTableMagicNumber));
     if length dst = original_size + kEncodedLength then Some dst else None }"

text \<open>The caller hands over \<open>kEncodedLength\<close> bytes; for fewer the magic number is read outside of them.\<close>

definition Footer_DecodeFrom :: "slice \<Rightarrow> Footer \<Rightarrow> (Status \<times> Footer \<times> slice) option" where
  "Footer_DecodeFrom input f =
     (if length input < kEncodedLength then None
      else let magic_ptr = drop (kEncodedLength - 8) input;
               magic_lo = DecodeFixed32 magic_ptr; magic_hi = DecodeFixed32 (drop 4 magic_ptr);
               magic = push_bit 32 (ucast magic_hi) OR ucast magic_lo :: u64 in
        if magic \<noteq> kTableMagicNumber
        then Some (Corruption (str ''not an sstable (bad magic number)'') [], f, input)
        else let (result, mh, rest) = BlockHandle_DecodeFrom input (metaindex_handle f); f = f\<lparr>metaindex_handle := mh\<rparr> in
          if ok result then
            let (result, ih, rest) = BlockHandle_DecodeFrom rest (index_handle f); f = f\<lparr>index_handle := ih\<rparr> in
            if ok result then Some (result, f, drop kEncodedLength input) else Some (result, f, rest)
          else Some (result, f, rest))"

section \<open>Reading a block\<close>

datatype CompressionType = kNoCompression | kSnappyCompression

definition compression_byte :: "CompressionType \<Rightarrow> byte" where
  "compression_byte t = (case t of kNoCompression \<Rightarrow> 0 | kSnappyCompression \<Rightarrow> 1)"

definition Snappy_Compress :: "slice \<Rightarrow> slice option" where
  "Snappy_Compress input = None"

definition Snappy_GetUncompressedLength :: "slice \<Rightarrow> nat option" where
  "Snappy_GetUncompressedLength input = None"

definition Snappy_Uncompress :: "slice \<Rightarrow> slice option" where
  "Snappy_Uncompress input = None"

definition kBlockTrailerSize :: nat where "kBlockTrailerSize = 5"

record BlockContents =
  bc_data :: slice
  bc_cachable :: bool
  bc_heap_allocated :: bool

text \<open>
  \<open>n + kBlockTrailerSize\<close> is a \<open>size_t\<close>. For a size near \<open>2 ^ 64\<close> it wraps around and the reads at \<open>data + n\<close>
  are outside of the buffer.
\<close>

definition ReadBlock :: "random_read \<Rightarrow> bool \<Rightarrow> BlockHandle \<Rightarrow> (Status \<times> BlockContents) option" where
  "ReadBlock rd verify_checksums h =
     (let empty = \<lparr>bc_data = [], bc_cachable = False, bc_heap_allocated = False\<rparr>;
          n = bh_size h; len = n + of_nat kBlockTrailerSize in
      case rd (bh_offset h) len of
        None \<Rightarrow> None
      | Some r \<Rightarrow>
          if \<not> ok (raf_status r) then Some (raf_status r, empty)
          else if length (raf_data r) \<noteq> unat len
          then Some (Corruption (str ''truncated block read'') [], empty)
          else if unat n + kBlockTrailerSize > length (raf_data r) then None
          else let data = raf_data r; n = unat n in
            if verify_checksums \<and> Value 0 (take (n + 1) data) \<noteq> Unmask (DecodeFixed32 (drop (n + 1) data))
            then Some (Corruption (str ''block checksum mismatch'') [], empty)
            else if data ! n = compression_byte kNoCompression
            then Some (OK, \<lparr>bc_data = take n data, bc_cachable = raf_in_scratch r, bc_heap_allocated = raf_in_scratch r\<rparr>)
            else if data ! n = compression_byte kSnappyCompression
            then (case Snappy_GetUncompressedLength (take n data) of
                    None \<Rightarrow> Some (Corruption (str ''corrupted compressed block contents'') [], empty)
                  | Some ulength \<Rightarrow>
                      (case Snappy_Uncompress (take n data) of
                         None \<Rightarrow> Some (Corruption (str ''corrupted compressed block contents'') [], empty)
                       | Some ubuf \<Rightarrow> Some (OK, \<lparr>bc_data = ubuf, bc_cachable = True, bc_heap_allocated = True\<rparr>)))
            else Some (Corruption (str ''bad block type'') [], empty))"

section \<open>Round trips\<close>

definition handle_bytes :: "BlockHandle \<Rightarrow> slice" where
  "handle_bytes h = EncodeVarint64 (bh_offset h) @ EncodeVarint64 (bh_size h)"

definition handle_set :: "BlockHandle \<Rightarrow> bool" where
  "handle_set h \<longleftrightarrow> bh_offset h \<noteq> NOT 0 \<and> bh_size h \<noteq> NOT 0"

lemma BlockHandle_EncodeTo_eq: "handle_set h \<Longrightarrow> BlockHandle_EncodeTo dst h = Some (dst @ handle_bytes h)"
  by (simp add: BlockHandle_EncodeTo_def handle_set_def handle_bytes_def PutVarint64_def)

lemma length_handle_bytes: "length (handle_bytes h) \<le> kMaxEncodedLength"
proof -
  have "length (EncodeVarint64 v) \<le> 10" for v
    using length_leb128_u64 [of v] by (simp add: EncodeVarint64_leb)
  from add_mono [OF this [of "bh_offset h"] this [of "bh_size h"]]
  show ?thesis by (simp add: handle_bytes_def kMaxEncodedLength_def)
qed

lemma BlockHandle_Decode: "BlockHandle_DecodeFrom (handle_bytes h @ rest) g = (OK, h, rest)" for h g :: BlockHandle
  by (simp add: BlockHandle_DecodeFrom_def handle_bytes_def)

definition footer_bytes :: "Footer \<Rightarrow> slice" where
  "footer_bytes f = (let hs = handle_bytes (metaindex_handle f) @ handle_bytes (index_handle f) in
     hs @ replicate (40 - length hs) 0 @ EncodeFixed32 0x8b80fb57 @ EncodeFixed32 0xdb477524)"

lemma Footer_EncodeTo_eq:
  assumes "handle_set (metaindex_handle f)" "handle_set (index_handle f)"
  shows "Footer_EncodeTo [] f = Some (footer_bytes f)"
proof -
  have "length (handle_bytes (metaindex_handle f) @ handle_bytes (index_handle f)) \<le> 40"
    using add_mono [OF length_handle_bytes [of "metaindex_handle f"] length_handle_bytes [of "index_handle f"]]
    by (simp add: kMaxEncodedLength_def)
  then show ?thesis
    by (simp add: Footer_EncodeTo_def BlockHandle_EncodeTo_eq [OF assms(1)] BlockHandle_EncodeTo_eq [OF assms(2)] PutFixed32_def
      resize_to_def kMaxEncodedLength_def kEncodedLength_def kTableMagicNumber_def footer_bytes_def Let_def)
qed

lemma length_footer_bytes: "length (footer_bytes f) = kEncodedLength"
  using add_mono [OF length_handle_bytes [of "metaindex_handle f"] length_handle_bytes [of "index_handle f"]]
  by (simp add: footer_bytes_def Let_def kEncodedLength_def kMaxEncodedLength_def)

lemma Footer_round_trip: "Footer_DecodeFrom (footer_bytes f @ rest) g = Some (OK, f, rest)" for f g :: Footer
proof -
  let ?hs = "handle_bytes (metaindex_handle f) @ handle_bytes (index_handle f)"
  let ?pad = "replicate (40 - length ?hs) 0 :: slice"
  let ?in = "footer_bytes f @ rest"
  have e: "?in = handle_bytes (metaindex_handle f) @ handle_bytes (index_handle f) @ ?pad @
      EncodeFixed32 0x8b80fb57 @ EncodeFixed32 0xdb477524 @ rest"
    by (simp add: footer_bytes_def Let_def)
  have "length (?hs @ ?pad) = 40"
    using add_mono [OF length_handle_bytes [of "metaindex_handle f"] length_handle_bytes [of "index_handle f"]]
    by (simp add: kMaxEncodedLength_def)
  then have m: "drop (kEncodedLength - 8) ?in = EncodeFixed32 0x8b80fb57 @ EncodeFixed32 0xdb477524 @ rest"
    unfolding e by (simp add: kEncodedLength_def kMaxEncodedLength_def)
  have len: "\<not> length ?in < kEncodedLength" by (simp add: length_footer_bytes)
  have rest: "drop kEncodedLength ?in = rest" using length_footer_bytes [of f] by simp
  have d: "BlockHandle_DecodeFrom ?in h = (OK, metaindex_handle f, handle_bytes (index_handle f) @ ?pad @
      EncodeFixed32 0x8b80fb57 @ EncodeFixed32 0xdb477524 @ rest)" for h
    unfolding e by (rule BlockHandle_Decode)
  show ?thesis
    unfolding Footer_DecodeFrom_def if_not_P [OF len] m rest by (simp add: d BlockHandle_Decode kTableMagicNumber_def)
qed

text \<open>A block with its trailer.\<close>

definition stored_block :: "slice \<Rightarrow> CompressionType \<Rightarrow> slice" where
  "stored_block blk t = blk @ compression_byte t # EncodeFixed32 (Mask (Value 0 (blk @ [compression_byte t])))"

lemma length_stored_block: "length (stored_block blk t) = length blk + kBlockTrailerSize"
  by (simp add: stored_block_def kBlockTrailerSize_def)

definition handle_at :: "slice \<Rightarrow> slice \<Rightarrow> BlockHandle" where
  "handle_at pre blk = \<lparr>bh_offset = of_nat (length pre), bh_size = of_nat (length blk)\<rparr>"

lemma handle_at_set:
  assumes "length (pre @ stored_block blk t) < 2 ^ 64"
  shows "handle_set (handle_at pre blk)"
proof -
  have ne: "of_nat n \<noteq> (NOT 0 :: u64)" if "n + 1 < 2 ^ 64" for n
  proof
    assume "of_nat n = (NOT 0 :: u64)"
    then have "of_nat (n + 1) = (0 :: u64)" by simp
    then have "unat (of_nat (n + 1) :: u64) = 0" by simp
    then show False using that by (simp only: unat_of_nat) simp
  qed
  have "length pre + 1 < 2 ^ 64" "length blk + 1 < 2 ^ 64" using assms by (simp_all add: length_stored_block kBlockTrailerSize_def)
  then show ?thesis unfolding handle_set_def handle_at_def BlockHandle.simps using ne by blast
qed

context random_file
begin

text \<open>The bytes that \<open>ReadBlock\<close> sees of a stored block; \<open>blk'\<close> and \<open>t'\<close> may differ from what the checksum is of.\<close>

lemma ReadBlock_reads:
  assumes c: "contents = pre @ (blk' @ t' # EncodeFixed32 crc) @ post" "length contents < 2 ^ 64" and len: "length blk' = length blk"
  shows "\<exists>scratch. ReadBlock rd vc (handle_at pre blk) =
    (let empty = \<lparr>bc_data = [], bc_cachable = False, bc_heap_allocated = False\<rparr> in
     if vc \<and> Value 0 (blk' @ [t']) \<noteq> Unmask crc then Some (Corruption (str ''block checksum mismatch'') [], empty)
     else if t' = 0 then Some (OK, \<lparr>bc_data = blk', bc_cachable = scratch, bc_heap_allocated = scratch\<rparr>)
     else if t' = 1 then Some (Corruption (str ''corrupted compressed block contents'') [], empty)
     else Some (Corruption (str ''bad block type'') [], empty))"
proof -
  define d where "d = blk' @ t' # EncodeFixed32 crc"
  have sizes: "length pre + (length blk + 5) \<le> length contents" using c(1) len by simp
  then have b: "length pre < 2 ^ 64" "length blk + 5 < 2 ^ 64" using c(2) by linarith+
  have off: "unat (bh_offset (handle_at pre blk)) = length pre"
    using b(1) by (simp add: handle_at_def unat_of_nat)
  have n: "unat (bh_size (handle_at pre blk)) = length blk"
    using b(2) by (simp add: handle_at_def unat_of_nat)
  have ln: "unat (bh_size (handle_at pre blk) + 5) = length blk + 5"
    using b(2) n by (simp add: unat_word_ariths)
  have "take (length blk + 5) (drop (length pre) contents) = d"
    using c(1) len by (simp add: d_def)
  then obtain scratch where r: "rd (bh_offset (handle_at pre blk)) (bh_size (handle_at pre blk) + 5) =
      Some \<lparr>raf_status = OK, raf_data = d, raf_in_scratch = scratch\<rparr>"
    using read_within [OF c(2), of "bh_offset (handle_at pre blk)" "bh_size (handle_at pre blk) + 5"]
      sizes unfolding off ln by auto
  have parts: "take (Suc (length blk)) d = blk' @ [t']" "drop (Suc (length blk)) d = EncodeFixed32 crc" "d ! length blk = t'"
    "take (length blk) d = blk'" "length d = length blk + 5"
    using len by (simp_all add: d_def nth_append)
  have dec: "DecodeFixed32 (EncodeFixed32 crc) = crc" using DecodeFixed32_Encode [of crc "[]"] by simp
  show ?thesis
    by (intro exI [of _ scratch])
      (simp add: ReadBlock_def r ln n parts dec kBlockTrailerSize_def compression_byte_def Snappy_GetUncompressedLength_def
        Let_def del: of_nat_add)
qed

lemma ReadBlock_stored:
  assumes "contents = pre @ stored_block blk kNoCompression @ post" "length contents < 2 ^ 64"
  shows "\<exists>bc. ReadBlock rd vc (handle_at pre blk) = Some (OK, bc) \<and> bc_data bc = blk"
  using ReadBlock_reads [of pre blk 0 _ post blk vc, OF assms(1) [unfolded stored_block_def compression_byte_def CompressionType.case] assms(2) refl]
  by (auto simp: Unmask_Mask Let_def)

text \<open>A change inside four adjacent bytes of the block and its type is detected.\<close>

lemma ReadBlock_corrupt:
  assumes "contents = pre @ ((u @ y @ v) @ EncodeFixed32 (Mask (Value 0 (u @ x @ v)))) @ post" "length contents < 2 ^ 64"
    and "length y = length x" "length x \<le> 4" "x \<noteq> y" "length (u @ x @ v) = length blk + 1"
  shows "\<exists>bc. ReadBlock rd True (handle_at pre blk) = Some (Corruption (str ''block checksum mismatch'') [], bc)"
proof -
  have ne: "u @ y @ v \<noteq> []" using assms(3,6) by auto
  let ?b = "butlast (u @ y @ v)" and ?t = "last (u @ y @ v)"
  have split: "u @ y @ v = ?b @ [?t]" using ne by (metis append_butlast_last_id)
  have "length ?b = length blk" using assms(3,6) by simp
  moreover have "contents = pre @ (?b @ ?t # EncodeFixed32 (Mask (Value 0 (u @ x @ v)))) @ post"
    using assms(1) split by (metis append.assoc append_Cons append_Nil)
  moreover have "Value 0 (?b @ [?t]) \<noteq> Value 0 (u @ x @ v)"
    unfolding split [symmetric] Value_def Extend_ref using burst_detected [OF assms(4,3,5)] by metis
  ultimately show ?thesis
    using ReadBlock_reads [of pre ?b ?t "Mask (Value 0 (u @ x @ v))" post blk True] assms(2) by (auto simp: Unmask_Mask Let_def)
qed

end

text \<open>A handle of a corrupted file: the size and the offset wrap around, and the reads are out of bounds.\<close>

lemma mmap_offset_wraps: "PosixMmapReadableFile_Read fname [1, 2, 3] (- 2) 4 = None"
  by (simp add: PosixMmapReadableFile_Read_def)

lemma ReadBlock_size_wraps: "ReadBlock (PosixMmapReadableFile_Read fname region) vc \<lparr>bh_offset = 0, bh_size = - 5\<rparr> = None"
  by (simp add: ReadBlock_def PosixMmapReadableFile_Read_def kBlockTrailerSize_def)

end
