(* ===== verification/Lv_Filter_Block.thy ===== *)
theory Lv_Filter_Block
  imports Lv_Hash Lv_Coding
begin

text \<open>
  The filter block of a table: \<open>table/filter_block.cc\<close>. The keys of the blocks that start in the same 2 KiB of
  the file go into one filter. \<open>fb_repr\<close> relates the builder to the groups of keys it has made filters of and
  the keys that are pending; over a \<open>filter_policy\<close> the reader never excludes a key of the block asked for.
\<close>

definition kFilterBaseLg :: nat where "kFilterBaseLg = 11"
definition kFilterBase :: nat where "kFilterBase = 2 ^ kFilterBaseLg"

record FilterBlockBuilder =
  fb_keys :: slice
  fb_start :: "nat list"
  fb_result :: slice
  fb_offsets :: "u32 list"

definition FilterBlockBuilder_init :: FilterBlockBuilder where
  "FilterBlockBuilder_init = \<lparr>fb_keys = [], fb_start = [], fb_result = [], fb_offsets = []\<rparr>"

text \<open>
  The number of keys is handed to the policy as an \<open>int\<close>: the policy sees that many of the keys, and for a negative
  number, from \<open>2 ^ 31\<close> keys on, nothing is known of what it does, \<open>None\<close>.
\<close>

definition GenerateFilter :: "(slice list \<Rightarrow> slice \<Rightarrow> slice) \<Rightarrow> FilterBlockBuilder \<Rightarrow> FilterBlockBuilder option" where
  "GenerateFilter create b =
     (let num_keys = length (fb_start b) in
      if num_keys = 0 then Some (b\<lparr>fb_offsets := fb_offsets b @ [of_nat (length (fb_result b))]\<rparr>)
      else let st = fb_start b @ [length (fb_keys b)];
               tmp_keys = map (\<lambda>i. take (st ! (i + 1) - st ! i) (drop (st ! i) (fb_keys b))) [0..<num_keys];
               n = sint (word_of_nat num_keys :: u32) in
        if n < 0 then None
        else Some \<lparr>fb_keys = [], fb_start = [], fb_result = create (take (nat n) tmp_keys) (fb_result b),
          fb_offsets = fb_offsets b @ [of_nat (length (fb_result b))]\<rparr>)"

lemma GenerateFilter_offsets: "GenerateFilter create b = Some b' \<Longrightarrow> length (fb_offsets b') = Suc (length (fb_offsets b))"
  by (auto simp: GenerateFilter_def Let_def split: if_splits)

function StartBlock_loop :: "(slice list \<Rightarrow> slice \<Rightarrow> slice) \<Rightarrow> nat \<Rightarrow> FilterBlockBuilder \<Rightarrow> FilterBlockBuilder option" where
  "StartBlock_loop create filter_index b =
     (if filter_index > length (fb_offsets b)
      then (case GenerateFilter create b of None \<Rightarrow> None | Some b \<Rightarrow> StartBlock_loop create filter_index b)
      else Some b)"
  by pat_completeness auto
termination
  by (relation "measure (\<lambda>(c, i, b). i - length (fb_offsets b))") (auto dest: GenerateFilter_offsets)

declare StartBlock_loop.simps [simp del]

definition StartBlock :: "(slice list \<Rightarrow> slice \<Rightarrow> slice) \<Rightarrow> u64 \<Rightarrow> FilterBlockBuilder \<Rightarrow> FilterBlockBuilder option" where
  "StartBlock create block_offset b =
     (let filter_index = unat block_offset div kFilterBase in
      if filter_index < length (fb_offsets b) then None else StartBlock_loop create filter_index b)"

definition AddKey :: "slice \<Rightarrow> FilterBlockBuilder \<Rightarrow> FilterBlockBuilder" where
  "AddKey key b = b\<lparr>fb_start := fb_start b @ [length (fb_keys b)], fb_keys := fb_keys b @ key\<rparr>"

definition write_offsets :: "FilterBlockBuilder \<Rightarrow> slice \<times> FilterBlockBuilder" where
  "write_offsets b =
     (let array_offset = of_nat (length (fb_result b)) :: u32;
          r = fold (\<lambda>off r. PutFixed32 r off) (fb_offsets b) (fb_result b);
          r = PutFixed32 r array_offset;
          r = r @ [of_nat kFilterBaseLg] in
      (r, b\<lparr>fb_result := r\<rparr>))"

definition FilterBlock_Finish ::
  "(slice list \<Rightarrow> slice \<Rightarrow> slice) \<Rightarrow> FilterBlockBuilder \<Rightarrow> (slice \<times> FilterBlockBuilder) option"
where
  "FilterBlock_Finish create b =
     map_option write_offsets (if fb_start b \<noteq> [] then GenerateFilter create b else Some b)"

text \<open>The reader; the pointer \<open>offset_\<close> is relative to \<open>data_\<close>. \<open>base_lg_\<close> is the last \<open>char\<close>, as a \<open>size_t\<close>.\<close>

record FilterBlockReader =
  fr_data :: slice
  fr_offset :: nat
  fr_num :: nat
  fr_base_lg :: u64

definition FilterBlockReader_init :: "slice \<Rightarrow> FilterBlockReader" where
  "FilterBlockReader_init contents =
     (let n = length contents in
      if n < 5 then \<lparr>fr_data = [], fr_offset = 0, fr_num = 0, fr_base_lg = 0\<rparr>
      else let base_lg = scast (contents ! (n - 1)); last_word = unat (DecodeFixed32 (drop (n - 5) contents)) in
        if last_word > n - 5 then \<lparr>fr_data = [], fr_offset = 0, fr_num = 0, fr_base_lg = base_lg\<rparr>
        else \<lparr>fr_data = contents, fr_offset = last_word, fr_num = (n - 5 - last_word) div 4, fr_base_lg = base_lg\<rparr>)"

text \<open>\<open>None\<close>: a shift by 64 or more is undefined.\<close>

definition FilterBlock_KeyMayMatch ::
  "(slice \<Rightarrow> slice \<Rightarrow> bool) \<Rightarrow> FilterBlockReader \<Rightarrow> u64 \<Rightarrow> slice \<Rightarrow> bool option"
where
  "FilterBlock_KeyMayMatch may_match r block_offset key =
     (if fr_base_lg r \<ge> 64 then None
      else let index = unat (drop_bit (unat (fr_base_lg r)) block_offset) in
        if index < fr_num r then
          let st = unat (DecodeFixed32 (drop (fr_offset r + index * 4) (fr_data r)));
              limit = unat (DecodeFixed32 (drop (fr_offset r + index * 4 + 4) (fr_data r))) in
          if st \<le> limit \<and> limit \<le> fr_offset r then Some (may_match key (take (limit - st) (drop st (fr_data r))))
          else if st = limit then Some False
          else Some True
        else Some True)"

section \<open>Without assertions\<close>

text \<open>
  What the builder does, on any number of keys and at any offset, as total functions: the contents of the
  filter block are a function of the keys in these terms. The operations do the same when they are called as they should.
\<close>

definition generate_filter :: "(slice list \<Rightarrow> slice \<Rightarrow> slice) \<Rightarrow> FilterBlockBuilder \<Rightarrow> FilterBlockBuilder" where
  "generate_filter create b =
     (let num_keys = length (fb_start b) in
      if num_keys = 0 then b\<lparr>fb_offsets := fb_offsets b @ [of_nat (length (fb_result b))]\<rparr>
      else let st = fb_start b @ [length (fb_keys b)];
               tmp_keys = map (\<lambda>i. take (st ! (i + 1) - st ! i) (drop (st ! i) (fb_keys b))) [0..<num_keys] in
        \<lparr>fb_keys = [], fb_start = [], fb_result = create tmp_keys (fb_result b),
         fb_offsets = fb_offsets b @ [of_nat (length (fb_result b))]\<rparr>)"

function start_loop :: "(slice list \<Rightarrow> slice \<Rightarrow> slice) \<Rightarrow> nat \<Rightarrow> FilterBlockBuilder \<Rightarrow> FilterBlockBuilder" where
  "start_loop create filter_index b =
     (if filter_index > length (fb_offsets b) then start_loop create filter_index (generate_filter create b) else b)"
  by pat_completeness auto
termination
  by (relation "measure (\<lambda>(c, i, b). i - length (fb_offsets b))") (auto simp: generate_filter_def Let_def)

declare start_loop.simps [simp del]

definition start_block :: "(slice list \<Rightarrow> slice \<Rightarrow> slice) \<Rightarrow> u64 \<Rightarrow> FilterBlockBuilder \<Rightarrow> FilterBlockBuilder" where
  "start_block create block_offset b = start_loop create (unat block_offset div kFilterBase) b"

definition filter_finish ::
  "(slice list \<Rightarrow> slice \<Rightarrow> slice) \<Rightarrow> FilterBlockBuilder \<Rightarrow> slice \<times> FilterBlockBuilder"
where
  "filter_finish create b = write_offsets (if fb_start b \<noteq> [] then generate_filter create b else b)"

lemma GenerateFilter_eq:
  assumes "length (fb_start b) < 2 ^ 31"
  shows "GenerateFilter create b = Some (generate_filter create b)"
proof -
  have "sint (word_of_nat (length (fb_start b)) :: u32) = int (length (fb_start b))"
    using assms by (simp add: signed_of_nat signed_take_bit_int_eq_self)
  then show ?thesis by (simp add: GenerateFilter_def generate_filter_def Let_def)
qed

lemma generate_filter_start: "fb_start (generate_filter create b) = []"
  by (auto simp: generate_filter_def Let_def)

lemma start_loop_parts:
  "length (fb_start b) < 2 ^ 31 \<Longrightarrow> StartBlock_loop create i b = Some (start_loop create i b)"
  "length (fb_offsets (start_loop create i b)) = max i (length (fb_offsets b))"
  "length (fb_start (start_loop create i b)) \<le> length (fb_start b)"
proof (induction create i b rule: start_loop.induct)
  case (1 create i b)
  have g: "length (fb_offsets (generate_filter create b)) = Suc (length (fb_offsets b))"
    by (simp add: generate_filter_def Let_def)
  { case 1
    show ?case using "1.IH"(1) 1 GenerateFilter_eq [OF 1] by (subst StartBlock_loop.simps, subst start_loop.simps) (simp add: generate_filter_start) }
  { case 2
    show ?case using "1.IH"(2) g by (subst start_loop.simps) auto }
  { case 3
    show ?case using "1.IH"(3) by (subst start_loop.simps) (simp add: generate_filter_start) }
qed

lemma StartBlock_eq:
  assumes "length (fb_start b) < 2 ^ 31" "length (fb_offsets b) \<le> unat off div kFilterBase"
  shows "StartBlock create off b = Some (start_block create off b)"
  using assms by (simp add: StartBlock_def start_block_def start_loop_parts(1))

lemma FilterBlock_Finish_eq:
  "length (fb_start b) < 2 ^ 31 \<Longrightarrow> FilterBlock_Finish create b = Some (filter_finish create b)"
  by (simp add: FilterBlock_Finish_def filter_finish_def GenerateFilter_eq)

section \<open>Groups of keys\<close>

definition group_bytes :: "(slice list \<Rightarrow> slice \<Rightarrow> slice) \<Rightarrow> slice list \<Rightarrow> slice" where
  "group_bytes create g = (if g = [] then [] else create g [])"

definition ends :: "'a list list \<Rightarrow> nat list" where
  "ends xss = map (\<lambda>i. length (concat (take i xss))) [0..<length xss]"

lemma ends_Nil [simp]: "ends [] = []"
  by (simp add: ends_def)

lemma ends_snoc: "ends (xss @ [xs]) = ends xss @ [length (concat xss)]"
  by (simp add: ends_def)

lemma length_ends [simp]: "length (ends xss) = length xss"
  by (simp add: ends_def)

lemma take_Suc_nth_concat: "i < length xss \<Longrightarrow> concat (take (Suc i) xss) = concat (take i xss) @ xss ! i"
  by (simp add: take_Suc_conv_app_nth)

lemma ends_nth: "i \<le> length xss \<Longrightarrow> (ends xss @ [length (concat xss)]) ! i = length (concat (take i xss))"
  by (cases "i = length xss") (simp_all add: ends_def nth_append)

lemma slice_ends:
  assumes "i < length xss"
  shows "take (length (concat (take (Suc i) xss)) - length (concat (take i xss))) (drop (length (concat (take i xss))) (concat xss @ r)) = xss ! i"
proof -
  have "concat xss = concat (take i xss) @ xss ! i @ concat (drop (Suc i) xss)"
    using assms by (metis append.assoc append_take_drop_id concat_append take_Suc_nth_concat)
  then show ?thesis by (simp add: take_Suc_nth_concat [OF assms])
qed

definition fb_repr ::
  "(slice list \<Rightarrow> slice \<Rightarrow> slice) \<Rightarrow> FilterBlockBuilder \<Rightarrow> slice list list \<Rightarrow> slice list \<Rightarrow> bool"
where
  "fb_repr create b gs ks \<longleftrightarrow>
     fb_result b = concat (map (group_bytes create) gs) \<and>
     fb_offsets b = map of_nat (ends (map (group_bytes create) gs)) \<and>
     fb_keys b = concat ks \<and> fb_start b = ends ks"

lemma fb_repr_init: "fb_repr create FilterBlockBuilder_init [] []"
  by (simp add: fb_repr_def FilterBlockBuilder_init_def)

lemma fb_repr_AddKey: "fb_repr create b gs ks \<Longrightarrow> fb_repr create (AddKey k b) gs (ks @ [k])"
  by (simp add: fb_repr_def AddKey_def ends_snoc)

context filter_policy
begin

lemma fb_repr_Generate:
  assumes "fb_repr create b gs ks"
  shows "fb_repr create (generate_filter create b) (gs @ [ks]) []"
proof (cases "ks = []")
  case True
  with assms show ?thesis
    by (simp add: fb_repr_def generate_filter_def ends_snoc group_bytes_def)
next
  case False
  have "map (\<lambda>i. take ((ends ks @ [length (concat ks)]) ! (i + 1) - (ends ks @ [length (concat ks)]) ! i)
      (drop ((ends ks @ [length (concat ks)]) ! i) (concat ks))) [0..<length ks] = ks"
    by (rule nth_equalityI) (simp_all add: ends_nth slice_ends [of _ ks "[]", simplified])
  moreover have "ends ks \<noteq> []" using False by (metis length_0_conv length_ends)
  ultimately show ?thesis
    using assms False create_appends [of ks "concat (map (group_bytes create) gs)"]
    by (simp add: fb_repr_def generate_filter_def ends_snoc group_bytes_def Let_def)
qed

lemma fb_repr_StartBlock_loop:
  assumes "fb_repr create b gs ks" "length gs \<le> i"
  shows "fb_repr create (start_loop create i b)
    (if i = length gs then gs else gs @ ks # replicate (i - length gs - 1) []) (if i = length gs then ks else [])"
  using assms
proof (induction "i - length gs" arbitrary: b gs ks)
  case 0
  then show ?case by (subst start_loop.simps) (simp add: fb_repr_def)
next
  case (Suc n)
  then have lt: "length gs < i" "n = i - length (gs @ [ks])" by auto
  have off: "length (fb_offsets b) = length gs" using Suc.prems(1) by (simp add: fb_repr_def)
  note IH = Suc.hyps(1) [OF lt(2) fb_repr_Generate [OF Suc.prems(1)]]
  show ?case
  proof (cases "i = Suc (length gs)")
    case True
    with IH lt off show ?thesis by (subst start_loop.simps) simp
  next
    case False
    then have "replicate (i - length gs - 1) ([] :: slice list) = [] # replicate (i - Suc (length gs) - 1) []"
      using lt(1) by (metis Suc_diff_Suc Suc_lessI diff_diff_left plus_1_eq_Suc replicate_Suc add.commute)
    with IH lt off False show ?thesis by (subst start_loop.simps) simp
  qed
qed

end

section \<open>The reader\<close>

lemma fold_PutFixed32: "fold (\<lambda>off r. PutFixed32 r off) offs r = r @ concat (map EncodeFixed32 offs)"
  by (induction offs arbitrary: r) (simp_all add: PutFixed32_def)

lemma length_fixed_array: "length (concat (map EncodeFixed32 ws)) = 4 * length ws"
  by (induction ws) simp_all

lemma Decode_fixed_array: "i < length ws \<Longrightarrow> DecodeFixed32 (drop (4 * i) (concat (map EncodeFixed32 ws) @ r)) = ws ! i"
proof (induction ws arbitrary: i)
  case (Cons w ws)
  then show ?case by (cases i) simp_all
qed simp

definition final_groups :: "slice list list \<Rightarrow> slice list \<Rightarrow> slice list list" where
  "final_groups gs ks = (if ks = [] then gs else gs @ [ks])"

definition filter_block_of :: "slice list \<Rightarrow> slice" where
  "filter_block_of xss = concat xss @
     concat (map EncodeFixed32 (map of_nat (ends xss @ [length (concat xss)]))) @ [of_nat kFilterBaseLg]"

context filter_policy
begin

lemma filter_finish_of:
  assumes "fb_repr create b gs ks"
  shows "fst (filter_finish create b) = filter_block_of (map (group_bytes create) (final_groups gs ks))"
proof -
  have fin: "fst (filter_finish create b) = filter_block_of (map (group_bytes create) gs')"
    if "fb_repr create (if fb_start b \<noteq> [] then generate_filter create b else b) gs' []" for gs'
    using that unfolding filter_finish_def write_offsets_def Let_def
    by (simp add: fb_repr_def fold_PutFixed32 filter_block_of_def) (simp add: PutFixed32_def)
  have "fb_start b = [] \<longleftrightarrow> ks = []" using assms by (metis fb_repr_def length_0_conv length_ends)
  then show ?thesis
    using fin [of "final_groups gs ks"] fb_repr_Generate [OF assms] assms
    by (cases "ks = []") (simp_all add: final_groups_def)
qed

end

lemma FilterBlockReader_of:
  assumes "length (concat xss) < 2 ^ 32"
  shows "FilterBlockReader_init (filter_block_of xss) =
    \<lparr>fr_data = filter_block_of xss, fr_offset = length (concat xss), fr_num = length xss, fr_base_lg = 11\<rparr>"
proof -
  let ?c = "filter_block_of xss" and ?L = "length (concat xss)"
  let ?pre = "concat xss @ concat (map EncodeFixed32 (map of_nat (ends xss)))"
  have c: "?c = ?pre @ EncodeFixed32 (of_nat ?L) @ [11]"
    by (simp add: filter_block_of_def kFilterBaseLg_def)
  have pre: "length ?pre = ?L + 4 * length xss" by (simp add: length_fixed_array del: map_map)
  then have n: "length ?c = ?L + 4 * length xss + 5" unfolding c by simp
  have last: "?c ! (length ?c - 1) = 11" unfolding n unfolding c using pre by (simp add: nth_append)
  have "drop (length ?c - 5) ?c = EncodeFixed32 (of_nat ?L) @ [11]" unfolding n unfolding c using pre by simp
  then have word: "unat (DecodeFixed32 (drop (length ?c - 5) ?c)) = ?L"
    using assms by (simp add: unat_of_nat)
  show ?thesis
    unfolding FilterBlockReader_init_def Let_def last word using n by simp
qed

lemma FilterBlock_KeyMayMatch_of:
  assumes "length (concat xss) < 2 ^ 32" "i = unat off div kFilterBase" "i < length xss"
  shows "FilterBlock_KeyMayMatch may_match (FilterBlockReader_init (filter_block_of xss)) off key = Some (may_match key (xss ! i))"
proof -
  let ?c = "filter_block_of xss" and ?L = "length (concat xss)"
  have at: "unat (DecodeFixed32 (drop (?L + 4 * j) ?c)) = length (concat (take j xss))" if "j \<le> length xss" for j
  proof -
    have "drop (?L + 4 * j) ?c = drop (4 * j) (concat (map EncodeFixed32 (map of_nat (ends xss @ [?L]))) @ [of_nat kFilterBaseLg])"
      by (simp add: filter_block_of_def)
    moreover have "j < length (map of_nat (ends xss @ [?L]) :: u32 list)" using that by simp
    ultimately have "DecodeFixed32 (drop (?L + 4 * j) ?c) = of_nat ((ends xss @ [?L]) ! j)"
      using that by (simp only: Decode_fixed_array nth_map length_map)
    moreover have "length (concat (take j xss)) \<le> ?L"
      by (metis append_take_drop_id concat_append le_add1 length_append)
    ultimately show ?thesis using assms(1) that by (simp add: ends_nth unat_of_nat)
  qed
  have idx: "unat (drop_bit 11 off) = i"
    unfolding unat_drop_bit_eq assms(2) by (simp add: kFilterBase_def kFilterBaseLg_def drop_bit_eq_div)
  have le: "length (concat (take i xss)) \<le> length (concat (take (Suc i) xss))"
    using assms(3) by (simp add: take_Suc_nth_concat)
  have "length (concat (take (Suc i) xss)) \<le> ?L"
    by (metis append_take_drop_id concat_append le_add1 length_append)
  moreover have "take (length (concat (take (Suc i) xss)) - length (concat (take i xss)))
      (drop (length (concat (take i xss))) ?c) = xss ! i"
    unfolding filter_block_of_def by (rule slice_ends [OF assms(3)])
  moreover have "unat (DecodeFixed32 (drop (?L + i * 4) ?c)) = length (concat (take i xss))"
    using at [of i] assms(3) by (simp add: mult.commute)
  moreover have "unat (DecodeFixed32 (drop (?L + i * 4 + 4) ?c)) = length (concat (take (Suc i) xss))"
    using at [of "Suc i"] assms(3) by (simp add: algebra_simps)
  ultimately show ?thesis
    unfolding FilterBlockReader_of [OF assms(1)] FilterBlock_KeyMayMatch_def
    using assms(3) le by (simp add: idx Let_def)
qed

context filter_policy
begin

lemma FilterBlock_no_false_negative:
  assumes "fb_repr create b gs ks" "length (fst (filter_finish create b)) < 2 ^ 32"
    and "i = unat off div kFilterBase" "i < length (final_groups gs ks)" "key \<in> set (final_groups gs ks ! i)" "ok (final_groups gs ks ! i)"
  shows "FilterBlock_KeyMayMatch may_match (FilterBlockReader_init (fst (filter_finish create b))) off key = Some True"
proof -
  let ?xss = "map (group_bytes create) (final_groups gs ks)"
  have e: "fst (filter_finish create b) = filter_block_of ?xss" by (rule filter_finish_of [OF assms(1)])
  have "length (concat ?xss) < 2 ^ 32" using assms(2) unfolding e by (simp add: filter_block_of_def)
  from FilterBlock_KeyMayMatch_of [OF this assms(3)] assms(4)
  have "FilterBlock_KeyMayMatch may_match (FilterBlockReader_init (filter_block_of ?xss)) off key = Some (may_match key (?xss ! i))"
    by simp
  moreover have "final_groups gs ks ! i \<noteq> []" using assms(5) by auto
  ultimately show ?thesis
    unfolding e using may_match_create [OF assms(6,5)] assms(4) by (simp add: group_bytes_def)
qed

end

end
