(* ===== verification/Lv_Table_Builder.thy ===== *)
theory Lv_Table_Builder
  imports Lv_Block Lv_Format Lv_Filter_Block Lv_Env
begin

text \<open>
  Building a table: \<open>table/table_builder.cc\<close>, with the options of \<open>options.h\<close>. The file is a state \<open>'f\<close> with the
  operations \<open>app\<close> and \<open>flush\<close> of a \<open>WritableFile\<close>. A failed assertion is \<open>None\<close>. \<open>table_file\<close> is the file format
  as a function of the entries: the blocks that \<open>layout\<close> cuts them into, the filter, the metaindex, the index and
  the footer. Over every \<open>writable_file\<close> with room for it the builder writes exactly that.
\<close>

section \<open>Options\<close>

text \<open>A comparator is an object; \<open>co_id\<close> is its address.\<close>

record Comparator =
  co_id :: nat
  co_Compare :: "slice \<Rightarrow> slice \<Rightarrow> int"
  co_FindShortestSeparator :: "slice \<Rightarrow> slice \<Rightarrow> slice"
  co_FindShortSuccessor :: "slice \<Rightarrow> slice"

record FilterPolicy =
  fp_Name :: slice
  fp_CreateFilter :: "slice list \<Rightarrow> slice \<Rightarrow> slice"
  fp_KeyMayMatch :: "slice \<Rightarrow> slice \<Rightarrow> bool"

text \<open>Without the pointers to the environment and the log; the block cache is an argument of the operations that use it.\<close>

record Options =
  opt_comparator :: Comparator
  opt_create_if_missing :: bool
  opt_error_if_exists :: bool
  opt_paranoid_checks :: bool
  opt_write_buffer_size :: u64
  opt_max_open_files :: int
  opt_block_size :: u64
  opt_block_restart_interval :: int
  opt_max_file_size :: u64
  opt_compression :: CompressionType
  opt_reuse_logs :: bool
  opt_filter_policy :: "FilterPolicy option"

definition BytewiseComparator :: Comparator where
  "BytewiseComparator = \<lparr>co_id = 0, co_Compare = Compare, co_FindShortestSeparator = FindShortestSeparator,
     co_FindShortSuccessor = FindShortSuccessor\<rparr>"

definition NewBloomFilterPolicy :: "nat \<Rightarrow> FilterPolicy" where
  "NewBloomFilterPolicy n = \<lparr>fp_Name = str ''leveldb.BuiltinBloomFilter2'',
     fp_CreateFilter = CreateFilter (BloomFilterPolicy_init n), fp_KeyMayMatch = KeyMayMatch\<rparr>"

definition Options_init :: Options where
  "Options_init = \<lparr>opt_comparator = BytewiseComparator, opt_create_if_missing = False, opt_error_if_exists = False,
     opt_paranoid_checks = False, opt_write_buffer_size = push_bit 20 4, opt_max_open_files = 1000, opt_block_size = 4096,
     opt_block_restart_interval = 16, opt_max_file_size = push_bit 20 2, opt_compression = kSnappyCompression,
     opt_reuse_logs = False, opt_filter_policy = None\<rparr>"

section \<open>The builder\<close>

record 'f TableBuilder =
  tb_options :: Options
  tb_index_block_options :: Options
  tb_file :: 'f
  tb_offset :: u64
  tb_status :: Status
  tb_data_block :: BlockBuilder
  tb_index_block :: BlockBuilder
  tb_last_key :: slice
  tb_num_entries :: nat
  tb_closed :: bool
  tb_filter_block :: "FilterBlockBuilder option"
  tb_pending_index_entry :: bool
  tb_pending_handle :: BlockHandle
  tb_compressed_output :: slice
  tb_policy :: "FilterPolicy option"

text \<open>
  \<open>tb_policy\<close> is the \<open>policy_\<close> of the filter block: that of the first options. An operation on the filter block, if
  there is one.
\<close>

definition tb_create :: "'f TableBuilder \<Rightarrow> slice list \<Rightarrow> slice \<Rightarrow> slice" where
  "tb_create r = (case tb_policy r of None \<Rightarrow> (\<lambda>_ dst. dst) | Some p \<Rightarrow> fp_CreateFilter p)"

definition on_filter :: "(FilterBlockBuilder \<Rightarrow> FilterBlockBuilder option) \<Rightarrow> 'f TableBuilder \<Rightarrow> 'f TableBuilder option" where
  "on_filter f r =
     (case tb_filter_block r of None \<Rightarrow> Some r | Some fb \<Rightarrow> map_option (\<lambda>fb. r\<lparr>tb_filter_block := Some fb\<rparr>) (f fb))"

text \<open>\<open>Add\<close> of a block builder, with the options that it points to.\<close>

definition block_add :: "Options \<Rightarrow> slice \<Rightarrow> slice \<Rightarrow> BlockBuilder \<Rightarrow> BlockBuilder option" where
  "block_add opt = BlockBuilder_Add (co_Compare (opt_comparator opt)) (opt_block_restart_interval opt)"

text \<open>Both block builders are constructed with the interval of the options; that of the index is set afterwards.\<close>

definition TableBuilder_init :: "Options \<Rightarrow> 'f \<Rightarrow> 'f TableBuilder option" where
  "TableBuilder_init opt f = do {
     data_block \<leftarrow> BlockBuilder_init (opt_block_restart_interval opt);
     index_block \<leftarrow> BlockBuilder_init (opt_block_restart_interval opt);
     let r = \<lparr>tb_options = opt, tb_index_block_options = opt\<lparr>opt_block_restart_interval := 1\<rparr>, tb_file = f, tb_offset = 0,
        tb_status = OK, tb_data_block = data_block, tb_index_block = index_block, tb_last_key = [], tb_num_entries = 0,
        tb_closed = False, tb_filter_block = map_option (\<lambda>_. FilterBlockBuilder_init) (opt_filter_policy opt),
        tb_pending_index_entry = False, tb_pending_handle = BlockHandle_init, tb_compressed_output = [],
        tb_policy = opt_filter_policy opt\<rparr>;
     on_filter (StartBlock (tb_create r) 0) r }"

definition ChangeOptions :: "Options \<Rightarrow> 'f TableBuilder \<Rightarrow> Status \<times> 'f TableBuilder" where
  "ChangeOptions opt r =
     (if co_id (opt_comparator opt) \<noteq> co_id (opt_comparator (tb_options r))
      then (InvalidArgument (str ''changing comparator while building table'') [], r)
      else (OK, r\<lparr>tb_options := opt, tb_index_block_options := opt\<lparr>opt_block_restart_interval := 1\<rparr>\<rparr>))"

text \<open>The handle and the builder after the block and its trailer were appended.\<close>

definition WriteRawBlock ::
  "(slice \<Rightarrow> 'f \<Rightarrow> Status \<times> 'f) \<Rightarrow> slice \<Rightarrow> CompressionType \<Rightarrow> 'f TableBuilder \<Rightarrow> BlockHandle \<times> 'f TableBuilder"
where
  "WriteRawBlock app block_contents t r =
     (let handle = \<lparr>bh_offset = tb_offset r, bh_size = of_nat (length block_contents)\<rparr>;
          (s, f) = app block_contents (tb_file r); r = r\<lparr>tb_status := s, tb_file := f\<rparr> in
      if ok s then
        let crc = Value 0 block_contents; crc = Extend 0 crc [compression_byte t];
            trailer = compression_byte t # EncodeFixed32 (Mask crc);
            (s, f) = app trailer (tb_file r); r = r\<lparr>tb_status := s, tb_file := f\<rparr> in
        (handle, if ok s then r\<lparr>tb_offset := tb_offset r + of_nat (length block_contents) + of_nat kBlockTrailerSize\<rparr> else r)
      else (handle, r))"

text \<open>The block to write is a part of the builder or a local one; it is handed over and returned.\<close>

definition WriteBlock ::
  "(slice \<Rightarrow> 'f \<Rightarrow> Status \<times> 'f) \<Rightarrow> BlockBuilder \<Rightarrow> 'f TableBuilder \<Rightarrow> (BlockHandle \<times> BlockBuilder \<times> 'f TableBuilder) option"
where
  "WriteBlock app b r =
     (if \<not> ok (tb_status r) then None
      else let (raw, b) = BlockBuilder_Finish b;
               (block_contents, t, compressed) =
                 (case opt_compression (tb_options r) of
                    kNoCompression \<Rightarrow> (raw, kNoCompression, tb_compressed_output r)
                  | kSnappyCompression \<Rightarrow>
                      (case Snappy_Compress raw of
                         Some c \<Rightarrow> if length c < length raw - length raw div 8 then (c, kSnappyCompression, c) else (raw, kNoCompression, c)
                       | None \<Rightarrow> (raw, kNoCompression, tb_compressed_output r)));
               (handle, r) = WriteRawBlock app block_contents t (r\<lparr>tb_compressed_output := compressed\<rparr>) in
        Some (handle, BlockBuilder_Reset b, r\<lparr>tb_compressed_output := []\<rparr>))"

definition TableBuilder_Flush ::
  "(slice \<Rightarrow> 'f \<Rightarrow> Status \<times> 'f) \<Rightarrow> ('f \<Rightarrow> Status \<times> 'f) \<Rightarrow> 'f TableBuilder \<Rightarrow> 'f TableBuilder option"
where
  "TableBuilder_Flush app flush r =
     (if tb_closed r then None
      else if \<not> ok (tb_status r) then Some r
      else if bb_buffer (tb_data_block r) = [] then Some r
      else if tb_pending_index_entry r then None
      else case WriteBlock app (tb_data_block r) r of
          None \<Rightarrow> None
        | Some (handle, b, r) \<Rightarrow>
            let r = r\<lparr>tb_data_block := b, tb_pending_handle := handle\<rparr>;
                r = (if ok (tb_status r) then
                       let (s, f) = flush (tb_file r) in r\<lparr>tb_pending_index_entry := True, tb_status := s, tb_file := f\<rparr>
                     else r) in
            on_filter (StartBlock (tb_create r) (tb_offset r)) r)"

text \<open>The index entry of the last block, under the key \<open>k\<close>.\<close>

definition add_index_entry :: "slice \<Rightarrow> 'f TableBuilder \<Rightarrow> 'f TableBuilder option" where
  "add_index_entry k r = do {
     handle_encoding \<leftarrow> BlockHandle_EncodeTo [] (tb_pending_handle r);
     b \<leftarrow> block_add (tb_index_block_options r) k handle_encoding (tb_index_block r);
     Some (r\<lparr>tb_last_key := k, tb_index_block := b, tb_pending_index_entry := False\<rparr>) }"

definition TableBuilder_Add ::
  "(slice \<Rightarrow> 'f \<Rightarrow> Status \<times> 'f) \<Rightarrow> ('f \<Rightarrow> Status \<times> 'f) \<Rightarrow> slice \<Rightarrow> slice \<Rightarrow> 'f TableBuilder \<Rightarrow> 'f TableBuilder option"
where
  "TableBuilder_Add app flush key v r =
     (let cmp = opt_comparator (tb_options r) in
      if tb_closed r then None
      else if \<not> ok (tb_status r) then Some r
      else if tb_num_entries r > 0 \<and> \<not> co_Compare cmp key (tb_last_key r) > 0 then None
      else if tb_pending_index_entry r \<and> bb_buffer (tb_data_block r) \<noteq> [] then None
      else do {
        r \<leftarrow> (if tb_pending_index_entry r then add_index_entry (co_FindShortestSeparator cmp (tb_last_key r) key) r else Some r);
        let r = r\<lparr>tb_filter_block := map_option (AddKey key) (tb_filter_block r), tb_last_key := key,
                  tb_num_entries := tb_num_entries r + 1\<rparr>;
        b \<leftarrow> block_add (tb_options r) key v (tb_data_block r);
        let r = r\<lparr>tb_data_block := b\<rparr>;
        if CurrentSizeEstimate (tb_data_block r) \<ge> unat (opt_block_size (tb_options r)) then TableBuilder_Flush app flush r
        else Some r })"

text \<open>\<open>Finish\<close>: the filter block, the metaindex block, the index block and the footer, each only after the former succeeded.\<close>

definition finish_filter ::
  "(slice \<Rightarrow> 'f \<Rightarrow> Status \<times> 'f) \<Rightarrow> 'f TableBuilder \<Rightarrow> (BlockHandle \<times> 'f TableBuilder) option"
where
  "finish_filter app r =
     (case tb_filter_block r of
        Some fb \<Rightarrow>
          if ok (tb_status r) then do {
            (contents, fb) \<leftarrow> FilterBlock_Finish (tb_create r) fb;
            Some (WriteRawBlock app contents kNoCompression (r\<lparr>tb_filter_block := Some fb\<rparr>)) }
          else Some (BlockHandle_init, r)
      | None \<Rightarrow> Some (BlockHandle_init, r))"

definition finish_metaindex ::
  "(slice \<Rightarrow> 'f \<Rightarrow> Status \<times> 'f) \<Rightarrow> BlockHandle \<Rightarrow> 'f TableBuilder \<Rightarrow> (BlockHandle \<times> 'f TableBuilder) option"
where
  "finish_metaindex app filter_handle r =
     (if ok (tb_status r) then do {
        meta \<leftarrow> BlockBuilder_init (opt_block_restart_interval (tb_options r));
        meta \<leftarrow> (case (tb_filter_block r, opt_filter_policy (tb_options r)) of
            (Some _, Some p) \<Rightarrow> do {
              handle_encoding \<leftarrow> BlockHandle_EncodeTo [] filter_handle;
              block_add (tb_options r) (str ''filter.'' @ fp_Name p) handle_encoding meta }
          | (Some _, None) \<Rightarrow> None
          | (None, _) \<Rightarrow> Some meta);
        (handle, _, r) \<leftarrow> WriteBlock app meta r;
        Some (handle, r) }
      else Some (BlockHandle_init, r))"

definition finish_index :: "(slice \<Rightarrow> 'f \<Rightarrow> Status \<times> 'f) \<Rightarrow> 'f TableBuilder \<Rightarrow> (BlockHandle \<times> 'f TableBuilder) option" where
  "finish_index app r =
     (if ok (tb_status r) then do {
        r \<leftarrow> (if tb_pending_index_entry r
              then add_index_entry (co_FindShortSuccessor (opt_comparator (tb_options r)) (tb_last_key r)) r else Some r);
        (handle, b, r) \<leftarrow> WriteBlock app (tb_index_block r) r;
        Some (handle, r\<lparr>tb_index_block := b\<rparr>) }
      else Some (BlockHandle_init, r))"

definition finish_footer ::
  "(slice \<Rightarrow> 'f \<Rightarrow> Status \<times> 'f) \<Rightarrow> BlockHandle \<Rightarrow> BlockHandle \<Rightarrow> 'f TableBuilder \<Rightarrow> 'f TableBuilder option"
where
  "finish_footer app mh ih r =
     (if ok (tb_status r) then do {
        footer_encoding \<leftarrow> Footer_EncodeTo [] (Footer_init\<lparr>metaindex_handle := mh, index_handle := ih\<rparr>);
        let (s, f) = app footer_encoding (tb_file r);
        let r = r\<lparr>tb_status := s, tb_file := f\<rparr>;
        Some (if ok s then r\<lparr>tb_offset := tb_offset r + of_nat (length footer_encoding)\<rparr> else r) }
      else Some r)"

definition TableBuilder_Finish ::
  "(slice \<Rightarrow> 'f \<Rightarrow> Status \<times> 'f) \<Rightarrow> ('f \<Rightarrow> Status \<times> 'f) \<Rightarrow> 'f TableBuilder \<Rightarrow> (Status \<times> 'f TableBuilder) option"
where
  "TableBuilder_Finish app flush r = do {
     r \<leftarrow> TableBuilder_Flush app flush r;
     (fh, r) \<leftarrow> finish_filter app (r\<lparr>tb_closed := True\<rparr>);
     (mh, r) \<leftarrow> finish_metaindex app fh r;
     (ih, r) \<leftarrow> finish_index app r;
     r \<leftarrow> finish_footer app mh ih r;
     Some (tb_status r, r) }"

definition Abandon :: "'f TableBuilder \<Rightarrow> 'f TableBuilder option" where
  "Abandon r = (if tb_closed r then None else Some (r\<lparr>tb_closed := True\<rparr>))"

definition NumEntries :: "'f TableBuilder \<Rightarrow> nat" where
  "NumEntries r = tb_num_entries r"

definition FileSize :: "'f TableBuilder \<Rightarrow> u64" where
  "FileSize r = tb_offset r"

text \<open>A client: all entries, then \<open>Finish\<close>.\<close>

fun add_entries ::
  "(slice \<Rightarrow> 'f \<Rightarrow> Status \<times> 'f) \<Rightarrow> ('f \<Rightarrow> Status \<times> 'f) \<Rightarrow> (slice \<times> slice) list \<Rightarrow> 'f TableBuilder \<Rightarrow> 'f TableBuilder option"
where
  "add_entries app flush [] r = Some r"
| "add_entries app flush ((k, v) # kvs) r =
     (case TableBuilder_Add app flush k v r of None \<Rightarrow> None | Some r \<Rightarrow> add_entries app flush kvs r)"

section \<open>The file as a function of its entries\<close>

definition block_of :: "int \<Rightarrow> (slice \<times> slice) list \<Rightarrow> slice" where
  "block_of ri kvs = fst (BlockBuilder_Finish (AddAll ri kvs new_builder))"

text \<open>The finished blocks and the entries of the open one.\<close>

definition layout_step ::
  "Options \<Rightarrow> (slice \<times> slice) list list \<times> (slice \<times> slice) list \<Rightarrow> slice \<times> slice \<Rightarrow>
   (slice \<times> slice) list list \<times> (slice \<times> slice) list"
where
  "layout_step opt st kv =
     (let cur = snd st @ [kv] in
      if CurrentSizeEstimate (AddAll (opt_block_restart_interval opt) cur new_builder) \<ge> unat (opt_block_size opt)
      then (fst st @ [cur], []) else (fst st, cur))"

definition layout :: "Options \<Rightarrow> (slice \<times> slice) list \<Rightarrow> (slice \<times> slice) list list \<times> (slice \<times> slice) list" where
  "layout opt kvs = foldl (layout_step opt) ([], []) kvs"

definition closed_blocks :: "(slice \<times> slice) list list \<times> (slice \<times> slice) list \<Rightarrow> (slice \<times> slice) list list" where
  "closed_blocks st = (if snd st = [] then fst st else fst st @ [snd st])"

definition data_bytes :: "int \<Rightarrow> (slice \<times> slice) list list \<Rightarrow> slice" where
  "data_bytes ri bs = concat (map (\<lambda>b. stored_block (block_of ri b) kNoCompression) bs)"

definition block_handle :: "int \<Rightarrow> (slice \<times> slice) list list \<Rightarrow> nat \<Rightarrow> BlockHandle" where
  "block_handle ri bs i = handle_at (data_bytes ri (take i bs)) (block_of ri (bs ! i))"

text \<open>The key of the index entry of block \<open>i\<close>: between it and the next one.\<close>

definition index_key :: "Comparator \<Rightarrow> (slice \<times> slice) list list \<Rightarrow> nat \<Rightarrow> slice" where
  "index_key cmp bs i =
     (let lst = fst (last (bs ! i)) in
      if Suc i < length bs then co_FindShortestSeparator cmp lst (fst (hd (bs ! Suc i))) else co_FindShortSuccessor cmp lst)"

definition index_kvs :: "Options \<Rightarrow> (slice \<times> slice) list list \<Rightarrow> nat \<Rightarrow> (slice \<times> slice) list" where
  "index_kvs opt bs n =
     map (\<lambda>i. (index_key (opt_comparator opt) bs i, handle_bytes (block_handle (opt_block_restart_interval opt) bs i))) [0..<n]"

text \<open>The filter builder after all keys.\<close>

definition filter_run ::
  "int \<Rightarrow> (slice list \<Rightarrow> slice \<Rightarrow> slice) \<Rightarrow> (slice \<times> slice) list list \<Rightarrow> FilterBlockBuilder"
where
  "filter_run ri create bs =
     foldl (\<lambda>fb i. start_block create (of_nat (length (data_bytes ri (take (Suc i) bs)))) (foldl (\<lambda>fb kv. AddKey (fst kv) fb) fb (bs ! i)))
       (start_block create 0 FilterBlockBuilder_init) [0..<length bs]"

definition filter_bytes :: "Options \<Rightarrow> (slice \<times> slice) list list \<Rightarrow> slice" where
  "filter_bytes opt bs = (case opt_filter_policy opt of None \<Rightarrow> []
     | Some p \<Rightarrow> fst (filter_finish (fp_CreateFilter p) (filter_run (opt_block_restart_interval opt) (fp_CreateFilter p) bs)))"

definition stored_filter :: "Options \<Rightarrow> (slice \<times> slice) list list \<Rightarrow> slice" where
  "stored_filter opt bs = (if opt_filter_policy opt = None then [] else stored_block (filter_bytes opt bs) kNoCompression)"

definition meta_kvs :: "Options \<Rightarrow> (slice \<times> slice) list list \<Rightarrow> (slice \<times> slice) list" where
  "meta_kvs opt bs = (case opt_filter_policy opt of None \<Rightarrow> []
     | Some p \<Rightarrow> [(str ''filter.'' @ fp_Name p,
         handle_bytes (handle_at (data_bytes (opt_block_restart_interval opt) bs) (filter_bytes opt bs)))])"

text \<open>The parts of the file, in order.\<close>

definition meta_block :: "Options \<Rightarrow> (slice \<times> slice) list list \<Rightarrow> slice" where
  "meta_block opt bs = block_of (opt_block_restart_interval opt) (meta_kvs opt bs)"

definition index_block :: "Options \<Rightarrow> (slice \<times> slice) list list \<Rightarrow> slice" where
  "index_block opt bs = block_of 1 (index_kvs opt bs (length bs))"

definition before_meta :: "Options \<Rightarrow> (slice \<times> slice) list list \<Rightarrow> slice" where
  "before_meta opt bs = data_bytes (opt_block_restart_interval opt) bs @ stored_filter opt bs"

definition before_index :: "Options \<Rightarrow> (slice \<times> slice) list list \<Rightarrow> slice" where
  "before_index opt bs = before_meta opt bs @ stored_block (meta_block opt bs) kNoCompression"

definition table_footer :: "Options \<Rightarrow> (slice \<times> slice) list list \<Rightarrow> Footer" where
  "table_footer opt bs = \<lparr>metaindex_handle = handle_at (before_meta opt bs) (meta_block opt bs),
     index_handle = handle_at (before_index opt bs) (index_block opt bs)\<rparr>"

definition table_bytes :: "Options \<Rightarrow> (slice \<times> slice) list list \<Rightarrow> slice" where
  "table_bytes opt bs = before_index opt bs @ stored_block (index_block opt bs) kNoCompression @ footer_bytes (table_footer opt bs)"

definition table_file :: "Options \<Rightarrow> (slice \<times> slice) list \<Rightarrow> slice" where
  "table_file opt kvs = table_bytes opt (closed_blocks (layout opt kvs))"

section \<open>What the builder writes\<close>

lemma append_entry_buffer: "bb_buffer (append_entry ri k v b) \<noteq> []"
proof -
  have "EncodeVarint32 w \<noteq> []" for w using EncodeVarint32_nonempty [of w] by auto
  then show ?thesis by (simp add: append_entry_def PutVarint32_def Let_def split_beta)
qed

lemma AddAll_buffer: "bb_buffer (AddAll ri kvs new_builder) = [] \<longleftrightarrow> kvs = []"
proof (cases kvs rule: rev_cases)
  case Nil
  then show ?thesis by (simp add: new_builder_def)
next
  case (snoc xs kv)
  then show ?thesis by (cases kv) (simp add: AddAll_snoc append_entry_buffer)
qed

lemma BlockBuilder_Reset_init: "BlockBuilder_Reset b = new_builder"
  by (cases b) (simp add: BlockBuilder_Reset_def new_builder_def)

lemma data_bytes_append: "data_bytes ri (bs @ bs') = data_bytes ri bs @ data_bytes ri bs'"
  by (simp add: data_bytes_def)

lemma data_bytes_snoc: "data_bytes ri (bs @ [b]) = data_bytes ri bs @ stored_block (block_of ri b) kNoCompression"
  by (simp add: data_bytes_def)

lemma block_handle_append: "i < length bs \<Longrightarrow> block_handle ri (bs @ bs') i = block_handle ri bs i"
  by (simp add: block_handle_def nth_append)

lemma filter_run_snoc:
  "filter_run ri create (bs @ [b]) = start_block create (of_nat (length (data_bytes ri (bs @ [b]))))
     (foldl (\<lambda>fb kv. AddKey (fst kv) fb) (filter_run ri create bs) b)"
proof -
  have "foldl (\<lambda>fb i. start_block create (of_nat (length (data_bytes ri (take (Suc i) (bs @ [b])))))
        (foldl (\<lambda>fb kv. AddKey (fst kv) fb) fb ((bs @ [b]) ! i))) fb [0..<length bs] =
      foldl (\<lambda>fb i. start_block create (of_nat (length (data_bytes ri (take (Suc i) bs))))
        (foldl (\<lambda>fb kv. AddKey (fst kv) fb) fb (bs ! i))) fb [0..<length bs]" for fb
    by (rule foldl_cong) (auto simp: nth_append)
  then show ?thesis by (simp add: filter_run_def)
qed

lemma index_kvs_append:
  assumes "n < length bs"
  shows "index_kvs opt (bs @ bs') n = index_kvs opt bs n"
proof -
  have "index_key cmp (bs @ bs') i = index_key cmp bs i" if "i < n" for i cmp
    using that assms by (simp add: index_key_def nth_append)
  then show ?thesis using assms by (auto simp: index_kvs_def block_handle_append)
qed

lemma index_kvs_Suc: "index_kvs opt bs (Suc n) = index_kvs opt bs n @
    [(index_key (opt_comparator opt) bs n, handle_bytes (block_handle (opt_block_restart_interval opt) bs n))]"
  by (simp add: index_kvs_def)

text \<open>The index entries that are in place depend on the last block by its first key only.\<close>

lemma index_kvs_last:
  assumes "fst (hd b) = fst (hd b')" "n \<le> length bs"
  shows "index_kvs opt (bs @ [b]) n = index_kvs opt (bs @ [b']) n"
proof -
  have "index_key cmp (bs @ [b]) i = index_key cmp (bs @ [b']) i" if "i < n" for i cmp
    using that assms by (cases "Suc i = length bs") (auto simp: index_key_def nth_append Let_def)
  moreover have "block_handle ri (bs @ [b]) i = block_handle ri (bs @ [b']) i" if "i < n" for i ri
    using that assms(2) by (simp add: block_handle_append)
  ultimately show ?thesis by (auto simp: index_kvs_def)
qed

lemma foldl_AddKey_counts:
  "length (fb_start (foldl (\<lambda>fb kv. AddKey (fst kv) fb) fb kvs)) = length (fb_start fb) + length kvs"
  "fb_offsets (foldl (\<lambda>fb kv. AddKey (fst kv) fb) fb kvs) = fb_offsets fb"
  by (induction kvs arbitrary: fb) (simp_all add: AddKey_def)

lemma filter_run_counts:
  assumes "length (data_bytes ri bs) < 2 ^ 64"
  shows "length (fb_offsets (filter_run ri create bs)) = length (data_bytes ri bs) div kFilterBase \<and>
    length (fb_start (filter_run ri create bs)) \<le> length (concat bs)"
  using assms
proof (induction bs rule: rev_induct)
  case Nil
  show ?case
    using start_loop_parts(2,3) [of create 0 FilterBlockBuilder_init]
    by (simp add: filter_run_def start_block_def data_bytes_def) (simp add: FilterBlockBuilder_init_def)
next
  case (snoc b bs)
  let ?off = "length (data_bytes ri bs)" and ?off' = "length (data_bytes ri (bs @ [b]))"
  let ?fb = "foldl (\<lambda>fb kv. AddKey (fst kv) fb) (filter_run ri create bs) b"
  have le: "?off \<le> ?off'" by (simp add: data_bytes_append)
  have u: "unat (of_nat ?off' :: u64) = ?off'" using snoc.prems by (simp add: unat_of_nat)
  have IH: "length (fb_offsets ?fb) = ?off div kFilterBase" "length (fb_start ?fb) \<le> length (concat bs) + length b"
    using snoc.IH snoc.prems le by (simp_all add: foldl_AddKey_counts)
  have "max (?off' div kFilterBase) (?off div kFilterBase) = ?off' div kFilterBase" by (rule max_absorb1) (rule div_le_mono [OF le])
  then show ?case
    using IH start_loop_parts(2,3) [of create "?off' div kFilterBase" ?fb] unfolding filter_run_snoc start_block_def u by simp
qed

lemma StartBlock_run:
  assumes "length (data_bytes ri (bs @ [opn])) < 2 ^ 64" "length (concat bs @ opn) < 2 ^ 31"
  shows "StartBlock create (of_nat (length (data_bytes ri (bs @ [opn]))))
    (foldl (\<lambda>fb kv. AddKey (fst kv) fb) (filter_run ri create bs) opn) = Some (filter_run ri create (bs @ [opn]))"
proof -
  let ?off = "length (data_bytes ri bs)" and ?off' = "length (data_bytes ri (bs @ [opn]))"
  have le: "?off \<le> ?off'" by (simp add: data_bytes_append)
  have u: "unat (of_nat ?off' :: u64) = ?off'" using assms(1) by (simp add: unat_of_nat)
  have "?off < 2 ^ 64" using le assms(1) by linarith
  note c = filter_run_counts [OF this, of create]
  have "length (fb_start (filter_run ri create bs)) + length opn < 2 ^ 31"
    using conjunct2 [OF c] assms(2) unfolding length_append by linarith
  then show ?thesis using conjunct1 [OF c] div_le_mono [OF le, of kFilterBase]
    unfolding filter_run_snoc by (intro StartBlock_eq) (simp_all only: u foldl_AddKey_counts)
qed

text \<open>What is asked of the entries: ascending keys that the comparator may be asked about.\<close>

definition ordered_kvs :: "Options \<Rightarrow> (slice \<Rightarrow> bool) \<Rightarrow> (slice \<times> slice) list \<Rightarrow> bool" where
  "ordered_kvs opt valid kvs \<longleftrightarrow> sorted_wrt (\<lambda>a b. co_Compare (opt_comparator opt) (fst a) (fst b) < 0) kvs \<and>
     (\<forall>e \<in> set kvs. valid (fst e))"

lemma ordered_kvs_append: "ordered_kvs opt valid (xs @ ys) \<Longrightarrow> ordered_kvs opt valid xs"
  by (auto simp: ordered_kvs_def sorted_wrt_append)

definition tb_at ::
  "('f \<Rightarrow> slice) \<Rightarrow> ('f \<Rightarrow> nat \<Rightarrow> bool) \<Rightarrow> Options \<Rightarrow> nat \<Rightarrow> (slice \<times> slice) list list \<Rightarrow> (slice \<times> slice) list \<Rightarrow> 'f TableBuilder \<Rightarrow> bool"
where
  "tb_at contents has_room opt N bs opn r \<longleftrightarrow>
     (let ri = opt_block_restart_interval opt; A = closed_blocks (bs, opn) in
      tb_options r = opt \<and> tb_index_block_options r = opt\<lparr>opt_block_restart_interval := 1\<rparr> \<and> ok (tb_status r) \<and> \<not> tb_closed r \<and>
      tb_policy r = opt_filter_policy opt \<and>
      contents (tb_file r) = data_bytes ri bs \<and> has_room (tb_file r) (N - length (data_bytes ri bs)) \<and>
      tb_offset r = of_nat (length (data_bytes ri bs)) \<and> tb_data_block r = AddAll ri opn new_builder \<and>
      tb_index_block r = AddAll 1 (index_kvs opt A (length A - 1)) new_builder \<and>
      tb_num_entries r = length (concat bs @ opn) \<and> (concat bs @ opn \<noteq> [] \<longrightarrow> tb_last_key r = fst (last (concat bs @ opn))) \<and>
      tb_filter_block r = map_option (\<lambda>p. foldl (\<lambda>fb kv. AddKey (fst kv) fb) (filter_run ri (fp_CreateFilter p) bs) opn) (opt_filter_policy opt) \<and>
      tb_pending_index_entry r = (opn = [] \<and> bs \<noteq> []) \<and> (tb_pending_index_entry r \<longrightarrow> tb_pending_handle r = block_handle ri bs (length bs - 1)) \<and>
      [] \<notin> set bs)"

lemma tb_at_init:
  assumes "contents f = []" "has_room f N" "1 \<le> opt_block_restart_interval opt"
  shows "\<exists>r. TableBuilder_init opt f = Some r \<and> tb_at contents has_room opt N [] [] r"
proof -
  have "StartBlock create 0 FilterBlockBuilder_init = Some (start_block create 0 FilterBlockBuilder_init)" for create
    by (rule StartBlock_eq) (simp_all add: FilterBlockBuilder_init_def)
  then show ?thesis
    using assms
    by (cases "opt_filter_policy opt")
      (simp_all add: tb_at_def TableBuilder_init_def BlockBuilder_init_def on_filter_def tb_create_def data_bytes_def closed_blocks_def
        index_kvs_def filter_run_def Let_def)
qed

lemma on_filter_run:
  assumes "tb_policy r = opt_filter_policy opt"
    and "tb_filter_block r = map_option (\<lambda>p. foldl (\<lambda>fb kv. AddKey (fst kv) fb) (filter_run ri (fp_CreateFilter p) bs) opn) (opt_filter_policy opt)"
    and "tb_offset r = of_nat (length (data_bytes ri (bs @ [opn])))" "length (data_bytes ri (bs @ [opn])) < 2 ^ 64"
    and "opt_filter_policy opt \<noteq> None \<longrightarrow> length (concat bs @ opn) < 2 ^ 31"
  shows "on_filter (StartBlock (tb_create r) (tb_offset r)) r =
    Some (r\<lparr>tb_filter_block := map_option (\<lambda>p. filter_run ri (fp_CreateFilter p) (bs @ [opn])) (opt_filter_policy opt)\<rparr>)"
proof (cases "opt_filter_policy opt")
  case None
  then show ?thesis using assms(2) by (cases r) (simp add: on_filter_def)
next
  case (Some p)
  then have "length (concat bs @ opn) < 2 ^ 31" using assms(5) by simp
  from StartBlock_run [OF assms(4) this, of "fp_CreateFilter p"] show ?thesis
    using assms(1-3) Some by (simp add: on_filter_def tb_create_def)
qed

section \<open>The keys of the index\<close>

text \<open>The index key of a block is between its keys and the keys of the later blocks.\<close>

lemma in_concat_nth: "e \<in> set (concat xs) \<Longrightarrow> \<exists>j < length xs. e \<in> set (xs ! j)"
  unfolding set_concat by (metis UN_E in_set_conv_nth)

lemma in_later_block:
  assumes "i < j" "j < length B" "e \<in> set (B ! j)"
  shows "e \<in> set (concat (drop (Suc i) B))"
proof -
  have "B ! j = drop (Suc i) B ! (j - Suc i)" using assms(1,2) by simp
  then have "B ! j \<in> set (drop (Suc i) B)" using assms(1,2) by (metis diff_less_mono length_drop nth_mem Suc_leI)
  with assms(3) show ?thesis by auto
qed

context key_shortener
begin

lemma ascending_last:
  assumes "ascending (map fst es)" "\<forall>k \<in> set (map fst es). valid k" "e \<in> set es"
  shows "cmp (fst e) (fst (last es)) \<le> 0"
  using assms
proof (induction es rule: rev_induct)
  case (snoc x xs)
  then show ?case by (cases "e = x") (auto simp: sorted_wrt_append order.strict_implies_order)
qed simp

lemma index_key_between:
  assumes c: "co_FindShortestSeparator c = separator" "co_FindShortSuccessor c = successor"
    and B: "[] \<notin> set B" "ascending (map fst (concat B))" "\<forall>k \<in> set (map fst (concat B)). valid k" and i: "i < length B"
  shows "valid (index_key c B i) \<and> (\<forall>e \<in> set (B ! i). cmp (fst e) (index_key c B i) \<le> 0) \<and>
    (\<forall>e \<in> set (concat (drop (Suc i) B)). cmp (index_key c B i) (fst e) < 0)"
proof -
  let ?ik = "index_key c B i" and ?l = "last (B ! i)" and ?rest = "concat (drop (Suc i) B)"
  have ne: "B ! j \<noteq> []" if "j < length B" for j using B(1) nth_mem [OF that] by metis
  have split: "concat B = concat (take i B) @ B ! i @ ?rest"
    using id_take_nth_drop [OF i] by (metis concat.simps(2) concat_append)
  have blk: "ascending (map fst (B ! i))" "ascending (map fst ?rest)" "\<forall>a \<in> set (B ! i). \<forall>b \<in> set ?rest. cmp (fst a) (fst b) < 0"
    "\<forall>k \<in> set (map fst (B ! i)). valid k" "\<forall>b \<in> set ?rest. valid (fst b)"
    using B(2,3) unfolding split map_append set_append sorted_wrt_append by auto
  have l: "?l \<in> set (B ! i)" "valid (fst ?l)" using ne [OF i] blk(4) by auto
  have le: "cmp (fst e) (fst ?l) \<le> 0 \<and> valid (fst e)" if "e \<in> set (B ! i)" for e
    using ascending_last [OF blk(1,4) that] blk(4) that by simp
  show ?thesis
  proof (cases "Suc i < length B")
    case False
    then have ik: "?ik = successor (fst ?l)" by (simp add: index_key_def c Let_def)
    have v: "valid ?ik" unfolding ik by (rule successor_valid [OF l(2)])
    have "cmp (fst e) ?ik \<le> 0" if "e \<in> set (B ! i)" for e
      using le [OF that] v successor_ge [OF l(2)] unfolding ik by (blast intro: le_trans l(2))
    with v False show ?thesis by simp
  next
    case True
    let ?h = "hd (B ! Suc i)"
    have ik: "?ik = separator (fst ?l) (fst ?h)" using True by (simp add: index_key_def c Let_def)
    have later: "?rest = ?h # tl (B ! Suc i) @ concat (drop (Suc (Suc i)) B)"
      using True ne [OF True] by (simp add: Cons_nth_drop_Suc [symmetric])
    have h: "valid (fst ?h)" "cmp (fst ?l) (fst ?h) < 0" using blk(3,5) l(1) unfolding later by simp_all
    have hd_less: "\<forall>e \<in> set (tl (B ! Suc i) @ concat (drop (Suc (Suc i)) B)). cmp (fst ?h) (fst e) < 0"
      using blk(2) unfolding later list.map sorted_wrt.simps set_map by blast
    have v: "valid ?ik" unfolding ik by (rule separator_valid [OF l(2) h])
    have "cmp (fst e) ?ik \<le> 0" if "e \<in> set (B ! i)" for e
      using le [OF that] v separator_ge [OF l(2) h] unfolding ik by (blast intro: le_trans l(2))
    moreover have "cmp ?ik (fst e) < 0" if e: "e \<in> set ?rest" for e
    proof -
      have "e = ?h \<or> cmp (fst ?h) (fst e) < 0" using e hd_less unfolding later by auto
      then show ?thesis
        using separator_less [OF l(2) h] cmp_trans [OF v [unfolded ik] h(1)] blk(5) e unfolding ik by blast
    qed
    ultimately show ?thesis using v by blast
  qed
qed

lemma index_keys_ascend:
  assumes c: "co_FindShortestSeparator c = separator" "co_FindShortSuccessor c = successor"
    and B: "[] \<notin> set B" "ascending (map fst (concat B))" "\<forall>k \<in> set (map fst (concat B)). valid k" and ij: "i < j" "j < length B"
  shows "cmp (index_key c B i) (index_key c B j) < 0"
proof -
  have i: "i < length B" using ij by simp
  note bi = index_key_between [OF c B i] and bj = index_key_between [OF c B ij(2)]
  have "hd (B ! j) \<in> set (B ! j)" by (rule hd_in_set) (metis B(1) ij(2) nth_mem)
  moreover from this have "hd (B ! j) \<in> set (concat (drop (Suc i) B))" by (rule in_later_block [OF ij])
  moreover from this have "hd (B ! j) \<in> set (concat B)" by (auto dest: in_set_dropD)
  ultimately have "cmp (index_key c B i) (fst (hd (B ! j))) < 0" "cmp (fst (hd (B ! j))) (index_key c B j) \<le> 0" "valid (fst (hd (B ! j)))"
    using bi bj B(3) unfolding set_map by blast+
  then show ?thesis using less_le_trans bi bj by blast
qed

end

section \<open>The builder on a file with room\<close>

locale table_writer = writable_file append flush contents room +
    key_shortener "co_Compare (opt_comparator opt)" valid "co_FindShortestSeparator (opt_comparator opt)"
      "co_FindShortSuccessor (opt_comparator opt)"
  for append :: "slice \<Rightarrow> 'f \<Rightarrow> Status \<times> 'f" and flush :: "'f \<Rightarrow> Status \<times> 'f" and contents :: "'f \<Rightarrow> slice"
    and room :: "'f \<Rightarrow> nat \<Rightarrow> bool" and opt :: Options and valid :: "slice \<Rightarrow> bool" +
  assumes interval: "1 \<le> opt_block_restart_interval opt"

context writable_file
begin

lemma WriteRawBlock_on:
  assumes room: "room (tb_file r) n" "length b + kBlockTrailerSize \<le> n"
  shows "\<exists>s f. WriteRawBlock append b t r = (\<lparr>bh_offset = tb_offset r, bh_size = of_nat (length b)\<rparr>,
      r\<lparr>tb_status := s, tb_file := f, tb_offset := tb_offset r + of_nat (length (stored_block b t))\<rparr>) \<and>
    ok s \<and> contents f = contents (tb_file r) @ stored_block b t \<and> room f (n - length (stored_block b t))"
proof -
  obtain s1 f1 where a1: "append b (tb_file r) = (s1, f1)" by fastforce
  let ?tr = "compression_byte t # EncodeFixed32 (Mask (Value 0 (b @ [compression_byte t])))"
  obtain s2 f2 where a2: "append ?tr f1 = (s2, f2)" by fastforce
  have k1: "ok s1" "room f1 (n - length b)" using append_room [OF a1 room(1)] room(2) by auto
  have len: "length ?tr = 5" by simp
  have k2: "ok s2" "room f2 (n - length b - 5)" using append_room [OF a2 k1(2)] room(2) len by (auto simp: kBlockTrailerSize_def)
  have crc: "Extend 0 (Value 0 b) [compression_byte t] = Value 0 (b @ [compression_byte t])"
    unfolding Value_def by (rule Extend_append)
  have "contents f2 = contents (tb_file r) @ stored_block b t"
    using append_ok [OF a1 k1(1)] append_ok [OF a2 k2(1)] by (simp add: stored_block_def)
  moreover have "WriteRawBlock append b t r = (\<lparr>bh_offset = tb_offset r, bh_size = of_nat (length b)\<rparr>,
      r\<lparr>tb_status := s2, tb_file := f2, tb_offset := tb_offset r + of_nat (length (stored_block b t))\<rparr>)"
    using a1 a2 k1(1) k2(1) by (simp add: WriteRawBlock_def crc length_stored_block kBlockTrailerSize_def add.assoc)
  ultimately show ?thesis using k2
    by (intro exI [of _ s2] exI [of _ f2]) (simp add: length_stored_block kBlockTrailerSize_def diff_diff_left)
qed

lemma WriteBlock_on:
  assumes o: "ok (tb_status r)" and room: "room (tb_file r) n" "length (fst (BlockBuilder_Finish b)) + kBlockTrailerSize \<le> n"
  shows "\<exists>s f. WriteBlock append b r = Some (\<lparr>bh_offset = tb_offset r, bh_size = of_nat (length (fst (BlockBuilder_Finish b)))\<rparr>, new_builder,
      r\<lparr>tb_status := s, tb_file := f, tb_compressed_output := [],
        tb_offset := tb_offset r + of_nat (length (stored_block (fst (BlockBuilder_Finish b)) kNoCompression))\<rparr>) \<and>
    ok s \<and> contents f = contents (tb_file r) @ stored_block (fst (BlockBuilder_Finish b)) kNoCompression \<and>
    room f (n - length (stored_block (fst (BlockBuilder_Finish b)) kNoCompression))"
proof -
  obtain raw b' where raw: "BlockBuilder_Finish b = (raw, b')" by fastforce
  let ?r = "r\<lparr>tb_compressed_output := tb_compressed_output r\<rparr>"
  obtain s f where w: "WriteRawBlock append raw kNoCompression ?r = (\<lparr>bh_offset = tb_offset r, bh_size = of_nat (length raw)\<rparr>,
      ?r\<lparr>tb_status := s, tb_file := f, tb_offset := tb_offset r + of_nat (length (stored_block raw kNoCompression))\<rparr>)"
    "ok s" "contents f = contents (tb_file r) @ stored_block raw kNoCompression" "room f (n - length (stored_block raw kNoCompression))"
    using WriteRawBlock_on [of ?r n raw kNoCompression] room raw by auto
  have "WriteBlock append b r = Some (\<lparr>bh_offset = tb_offset r, bh_size = of_nat (length raw)\<rparr>, new_builder,
      r\<lparr>tb_status := s, tb_file := f, tb_compressed_output := [], tb_offset := tb_offset r + of_nat (length (stored_block raw kNoCompression))\<rparr>)"
    using o w(1) raw by (cases "opt_compression (tb_options r)") (simp_all add: WriteBlock_def Snappy_Compress_def BlockBuilder_Reset_init)
  then show ?thesis using w(2-4) raw by (intro exI [of _ s] exI [of _ f]) simp
qed

end

context table_writer
begin

text \<open>The bound on the file, and on the number of keys if there is a filter.\<close>

abbreviation few :: "nat \<Rightarrow> bool" where
  "few n \<equiv> opt_filter_policy opt \<noteq> None \<longrightarrow> n < 2 ^ 31"

lemma Flush_on:
  assumes at: "tb_at contents room opt N bs opn r" and opn: "opn \<noteq> []"
    and N: "length (data_bytes (opt_block_restart_interval opt) (bs @ [opn])) \<le> N" "N < 2 ^ 64" and few: "few (length (concat bs @ opn))"
  shows "\<exists>r'. TableBuilder_Flush append flush r = Some r' \<and> tb_at contents room opt N (bs @ [opn]) [] r'"
proof -
  let ?ri = "opt_block_restart_interval opt" and ?blk = "block_of (opt_block_restart_interval opt) opn"
  have r: "tb_options r = opt" "tb_index_block_options r = opt\<lparr>opt_block_restart_interval := 1\<rparr>" "ok (tb_status r)" "\<not> tb_closed r"
    "contents (tb_file r) = data_bytes ?ri bs" "room (tb_file r) (N - length (data_bytes ?ri bs))"
    "tb_offset r = of_nat (length (data_bytes ?ri bs))" "tb_data_block r = AddAll ?ri opn new_builder"
    "tb_index_block r = AddAll 1 (index_kvs opt (bs @ [opn]) (length bs)) new_builder"
    "tb_num_entries r = length (concat bs @ opn)" "tb_last_key r = fst (last (concat bs @ opn))"
    "tb_filter_block r = map_option (\<lambda>p. foldl (\<lambda>fb kv. AddKey (fst kv) fb) (filter_run ?ri (fp_CreateFilter p) bs) opn) (opt_filter_policy opt)"
    "\<not> tb_pending_index_entry r" "[] \<notin> set bs" and policy: "tb_policy r = opt_filter_policy opt"
    using at opn by (simp_all add: tb_at_def closed_blocks_def Let_def)
  have blk: "fst (BlockBuilder_Finish (AddAll ?ri opn new_builder)) = ?blk" by (simp add: block_of_def)
  have len: "length ?blk + kBlockTrailerSize \<le> N - length (data_bytes ?ri bs)"
    using N(1) by (simp add: data_bytes_snoc length_stored_block)
  obtain s f where w: "WriteBlock append (tb_data_block r) r = Some (\<lparr>bh_offset = tb_offset r, bh_size = of_nat (length ?blk)\<rparr>, new_builder,
      r\<lparr>tb_status := s, tb_file := f, tb_compressed_output := [], tb_offset := tb_offset r + of_nat (length (stored_block ?blk kNoCompression))\<rparr>)"
    "ok s" "contents f = contents (tb_file r) @ stored_block ?blk kNoCompression"
    "room f (N - length (data_bytes ?ri bs) - length (stored_block ?blk kNoCompression))"
    using WriteBlock_on [OF r(3,6), of "tb_data_block r"] len unfolding r(8) blk by blast
  obtain s2 f2 where fl: "flush f = (s2, f2)" by fastforce
  have k: "ok s2" "contents f2 = contents f" "room f2 (N - length (data_bytes ?ri bs) - length (stored_block ?blk kNoCompression))"
    using flush_contents [OF fl] flush_room [OF fl w(4)] by auto
  have size: "tb_offset r + of_nat (length (stored_block ?blk kNoCompression)) = of_nat (length (data_bytes ?ri (bs @ [opn])))"
    by (simp add: r(7) data_bytes_snoc)
  have h: "\<lparr>bh_offset = tb_offset r, bh_size = of_nat (length ?blk)\<rparr> = block_handle ?ri (bs @ [opn]) (length bs)"
    by (simp add: block_handle_def handle_at_def r(7))
  let ?r1 = "r\<lparr>tb_compressed_output := [], tb_offset := of_nat (length (data_bytes ?ri (bs @ [opn]))), tb_data_block := new_builder,
      tb_pending_handle := block_handle ?ri (bs @ [opn]) (length bs), tb_pending_index_entry := True, tb_status := s2, tb_file := f2\<rparr>"
  let ?r = "?r1\<lparr>tb_filter_block := map_option (\<lambda>p. filter_run ?ri (fp_CreateFilter p) (bs @ [opn])) (opt_filter_policy opt)\<rparr>"
  have "length (data_bytes ?ri (bs @ [opn])) < 2 ^ 64" using N by linarith
  then have "on_filter (StartBlock (tb_create ?r1) (tb_offset ?r1)) ?r1 = Some ?r"
    using policy r(12) few by (intro on_filter_run) simp_all
  moreover have "TableBuilder_Flush append flush r = on_filter (StartBlock (tb_create ?r1) (tb_offset ?r1)) ?r1"
    using r(3,4,13) w(1,2) fl opn by (simp add: TableBuilder_Flush_def r(8) AddAll_buffer size h Let_def)
  ultimately have "TableBuilder_Flush append flush r = Some ?r" by simp
  moreover have "tb_at contents room opt N (bs @ [opn]) [] ?r"
  proof -
    have "last (concat bs @ opn) = last (concat (bs @ [opn]))" by simp
    then show ?thesis using r k w(3) opn policy
      by (simp add: tb_at_def closed_blocks_def Let_def data_bytes_snoc diff_diff_left)
  qed
  ultimately show ?thesis by blast
qed

text \<open>The index entry of the last block, when the first key of the next one is known.\<close>

lemma block_add_index:
  assumes "[] \<notin> set B" "ordered_kvs opt valid (concat B)" "n < length B"
  shows "block_add (opt\<lparr>opt_block_restart_interval := 1\<rparr>) (index_key (opt_comparator opt) B n) v (AddAll 1 (index_kvs opt B n) new_builder) =
    Some (AddAll 1 (index_kvs opt B n @ [(index_key (opt_comparator opt) B n, v)]) new_builder)"
proof -
  let ?ik = "index_key (opt_comparator opt) B"
  have B: "ascending (map fst (concat B))" "\<forall>k \<in> set (map fst (concat B)). valid k"
    using assms(2) by (auto simp: ordered_kvs_def sorted_wrt_map)
  have v: "valid (?ik i)" if "i < length B" for i using index_key_between [OF HOL.refl HOL.refl assms(1) B that] by blast
  have "0 < co_Compare (opt_comparator opt) (?ik n) (fst (last (index_kvs opt B n)))" if ne: "index_kvs opt B n \<noteq> []"
  proof -
    obtain m where n: "n = Suc m" using ne by (cases n) (auto simp: index_kvs_def)
    have "co_Compare (opt_comparator opt) (?ik m) (?ik n) < 0"
      by (rule index_keys_ascend [OF HOL.refl HOL.refl assms(1) B _ assms(3)]) (simp add: n)
    then show ?thesis using v [of m] v [of n] assms(3) by (simp add: n index_kvs_Suc gt_iff)
  qed
  then show ?thesis
    using BlockBuilder_Add_AddAll [of 1 "index_kvs opt B n" "co_Compare (opt_comparator opt)" "?ik n" v] by (simp add: block_add_def)
qed

lemma block_handle_set:
  assumes "i < length bs" "length (data_bytes ri bs) < 2 ^ 64"
  shows "handle_set (block_handle ri bs i)"
proof -
  have "data_bytes ri (take i bs) @ stored_block (block_of ri (bs ! i)) kNoCompression @ data_bytes ri (drop (Suc i) bs) = data_bytes ri bs"
    using id_take_nth_drop [OF assms(1)] data_bytes_append [of ri "take i bs" "bs ! i # drop (Suc i) bs"] by (simp add: data_bytes_def)
  then have "length (data_bytes ri (take i bs) @ stored_block (block_of ri (bs ! i)) kNoCompression) < 2 ^ 64"
    using assms(2) by (metis append_assoc le_add1 length_append order_le_less_trans)
  then show ?thesis unfolding block_handle_def by (rule handle_at_set)
qed

lemma Add_core_on:
  assumes at: "tb_at contents room opt N bs opn r" and keys: "ordered_kvs opt valid (concat bs @ opn @ [(k, v)])"
    and len: "length (data_bytes (opt_block_restart_interval opt) bs) < 2 ^ 64"
  shows "\<exists>r'. tb_at contents room opt N bs (opn @ [(k, v)]) r' \<and>
    TableBuilder_Add append flush k v r =
      (if CurrentSizeEstimate (AddAll (opt_block_restart_interval opt) (opn @ [(k, v)]) new_builder) \<ge> unat (opt_block_size opt)
       then TableBuilder_Flush append flush r' else Some r')"
proof -
  let ?ri = "opt_block_restart_interval opt" and ?cmp = "opt_comparator opt"
  let ?A = "closed_blocks (bs, opn)"
  have r: "tb_options r = opt" "tb_index_block_options r = opt\<lparr>opt_block_restart_interval := 1\<rparr>" "ok (tb_status r)" "\<not> tb_closed r"
    "contents (tb_file r) = data_bytes ?ri bs" "room (tb_file r) (N - length (data_bytes ?ri bs))"
    "tb_offset r = of_nat (length (data_bytes ?ri bs))" "tb_data_block r = AddAll ?ri opn new_builder"
    "tb_index_block r = AddAll 1 (index_kvs opt ?A (length ?A - 1)) new_builder"
    "tb_num_entries r = length (concat bs @ opn)" "concat bs @ opn \<noteq> [] \<longrightarrow> tb_last_key r = fst (last (concat bs @ opn))"
    "tb_filter_block r = map_option (\<lambda>p. foldl (\<lambda>fb kv. AddKey (fst kv) fb) (filter_run ?ri (fp_CreateFilter p) bs) opn) (opt_filter_policy opt)"
    "tb_pending_index_entry r = (opn = [] \<and> bs \<noteq> [])"
    "tb_pending_index_entry r \<longrightarrow> tb_pending_handle r = block_handle ?ri bs (length bs - 1)" "[] \<notin> set bs"
    and policy: "tb_policy r = opt_filter_policy opt"
    using at unfolding tb_at_def Let_def by blast+
  have after: "0 < co_Compare ?cmp k (fst e)" if "e \<in> set (concat bs @ opn)" for e
    using keys that unfolding ordered_kvs_def append_assoc [symmetric] sorted_wrt_append by (auto simp: gt_iff)
  have closed: "closed_blocks (bs, opn @ [(k, v)]) = bs @ [opn @ [(k, v)]]" by (simp add: closed_blocks_def)
  let ?idx = "AddAll 1 (index_kvs opt (bs @ [opn @ [(k, v)]]) (length bs)) new_builder"
  let ?step = "if tb_pending_index_entry r then add_index_entry (co_FindShortestSeparator ?cmp (tb_last_key r) k) r else Some r"
  obtain lk where r1: "?step = Some (r\<lparr>tb_last_key := lk, tb_index_block := ?idx, tb_pending_index_entry := False\<rparr>)"
  proof (cases "tb_pending_index_entry r")
    case True
    then obtain as b where bs: "bs = as @ [b]" "opn = []" using r(13) by (cases bs rule: rev_cases) auto
    then have b: "b \<noteq> []" using r(15) by auto
    have "last (concat bs @ opn) = last b" using bs b by simp
    then have lk: "tb_last_key r = fst (last b)" using r(11) bs b by auto
    have "index_kvs opt (bs @ [[(k, v)]]) (length bs) = index_kvs opt bs (length as) @
        [(co_FindShortestSeparator ?cmp (fst (last b)) k, handle_bytes (block_handle ?ri bs (length as)))]"
      using bs(1) index_kvs_append [of "length as" bs opt "[[(k, v)]]"] block_handle_append [of "length as" bs ?ri "[[(k, v)]]"]
      by (simp add: index_kvs_Suc index_key_def nth_append block_handle_append Let_def)
    then have kvs: "index_kvs opt (bs @ [[(k, v)]]) (length bs) = index_kvs opt (bs @ [[(k, v)]]) (length as) @
        [(index_key ?cmp (bs @ [[(k, v)]]) (length as), handle_bytes (block_handle ?ri bs (length as)))]"
      and sep: "co_FindShortestSeparator ?cmp (tb_last_key r) k = index_key ?cmp (bs @ [[(k, v)]]) (length as)"
      using bs(1) lk index_kvs_append [of "length as" bs opt "[[(k, v)]]"] by (simp_all add: index_key_def nth_append Let_def)
    have cur: "tb_index_block r = AddAll 1 (index_kvs opt (bs @ [[(k, v)]]) (length as)) new_builder"
      using r(9) bs index_kvs_append [of "length as" bs opt "[[(k, v)]]"] by (simp add: closed_blocks_def)
    have h: "tb_pending_handle r = block_handle ?ri bs (length as)" "handle_set (block_handle ?ri bs (length as))"
      using r(14) True bs(1) block_handle_set [of "length as" bs, OF _ len] by simp_all
    have "block_add (opt\<lparr>opt_block_restart_interval := 1\<rparr>) (index_key ?cmp (bs @ [[(k, v)]]) (length as)) x
        (AddAll 1 (index_kvs opt (bs @ [[(k, v)]]) (length as)) new_builder) =
      Some (AddAll 1 (index_kvs opt (bs @ [[(k, v)]]) (length as) @ [(index_key ?cmp (bs @ [[(k, v)]]) (length as), x)]) new_builder)" for x
      by (rule block_add_index) (use r(15) keys bs in simp_all)
    then have "add_index_entry (co_FindShortestSeparator ?cmp (tb_last_key r) k) r =
        Some (r\<lparr>tb_last_key := co_FindShortestSeparator ?cmp (tb_last_key r) k, tb_index_block := ?idx, tb_pending_index_entry := False\<rparr>)"
      using bs(2) unfolding add_index_entry_def h(1) BlockHandle_EncodeTo_eq [OF h(2)] r(2) cur sep by (simp add: kvs)
    with True that show thesis by simp
  next
    case False
    then have "bs = [] \<or> opn \<noteq> []" using r(13) by blast
    then have "tb_index_block r = ?idx"
    proof
      assume "bs = []"
      then show ?thesis using r(9) by (simp add: closed_blocks_def index_kvs_def)
    next
      assume o: "opn \<noteq> []"
      then have "fst (hd opn) = fst (hd (opn @ [(k, v)]))" by simp
      from index_kvs_last [OF this order_refl] show ?thesis using r(9) o by (simp add: closed_blocks_def)
    qed
    then have "?step = Some (r\<lparr>tb_last_key := tb_last_key r, tb_index_block := ?idx, tb_pending_index_entry := False\<rparr>)"
      using False by (cases r) simp
    then show thesis by (rule that)
  qed
  let ?r = "r\<lparr>tb_index_block := ?idx, tb_pending_index_entry := False, tb_filter_block := map_option (AddKey k) (tb_filter_block r),
      tb_last_key := k, tb_num_entries := tb_num_entries r + 1, tb_data_block := AddAll ?ri (opn @ [(k, v)]) new_builder\<rparr>"
  have data: "block_add opt k v (tb_data_block r) = Some (AddAll ?ri (opn @ [(k, v)]) new_builder)"
    unfolding r(8) block_add_def by (rule BlockBuilder_Add_AddAll [OF interval]) (rule after, simp)
  have "tb_at contents room opt N bs (opn @ [(k, v)]) ?r"
    unfolding tb_at_def Let_def closed
    using r policy by (simp add: option.map_comp comp_def)
  moreover have "TableBuilder_Add append flush k v r =
      (if CurrentSizeEstimate (AddAll ?ri (opn @ [(k, v)]) new_builder) \<ge> unat (opt_block_size opt)
       then TableBuilder_Flush append flush ?r else Some ?r)"
  proof -
    have g: "\<not> (tb_num_entries r > 0 \<and> \<not> co_Compare ?cmp k (tb_last_key r) > 0)"
    proof (cases "concat bs @ opn = []")
      case True
      then have "tb_num_entries r = 0" unfolding r(10) by (simp only: list.size)
      then show ?thesis by simp
    next
      case False
      then show ?thesis using r(11) after [OF last_in_set] by simp
    qed
    have p: "\<not> (tb_pending_index_entry r \<and> bb_buffer (tb_data_block r) \<noteq> [])" using r(8,13) by (simp add: new_builder_def)
    show ?thesis
      unfolding TableBuilder_Add_def Let_def r(1) if_not_P [OF g] if_not_P [OF p] if_not_P [OF r(4)] r1
      using r(1,3) data by simp
  qed
  ultimately show ?thesis by blast
qed

lemma Add_on:
  assumes at: "tb_at contents room opt N bs opn r" and keys: "ordered_kvs opt valid (concat bs @ opn @ [(k, v)])"
    and st: "layout_step opt (bs, opn) (k, v) = (bs', opn')" and N: "length (data_bytes (opt_block_restart_interval opt) bs') \<le> N" "N < 2 ^ 64"
    and few: "few (length (concat bs @ opn @ [(k, v)]))"
  shows "\<exists>r'. TableBuilder_Add append flush k v r = Some r' \<and> tb_at contents room opt N bs' opn' r'"
proof -
  have le: "length (data_bytes (opt_block_restart_interval opt) bs) \<le> N"
    using st N(1) by (auto simp: layout_step_def Let_def data_bytes_append split: if_splits)
  obtain r1 where r1: "tb_at contents room opt N bs (opn @ [(k, v)]) r1"
    "TableBuilder_Add append flush k v r =
      (if CurrentSizeEstimate (AddAll (opt_block_restart_interval opt) (opn @ [(k, v)]) new_builder) \<ge> unat (opt_block_size opt)
       then TableBuilder_Flush append flush r1 else Some r1)"
    using Add_core_on [OF at keys] le N(2) by auto
  show ?thesis
  proof (cases "CurrentSizeEstimate (AddAll (opt_block_restart_interval opt) (opn @ [(k, v)]) new_builder) \<ge> unat (opt_block_size opt)")
    case True
    then have "bs' = bs @ [opn @ [(k, v)]]" "opn' = []" using st by (simp_all add: layout_step_def)
    then show ?thesis using r1 True Flush_on [OF r1(1) _ _ N(2)] N(1) few by auto
  next
    case False
    then show ?thesis using r1 st by (simp add: layout_step_def)
  qed
qed

end

lemma layout_snoc: "layout opt (kvs @ [kv]) = layout_step opt (layout opt kvs) kv"
  by (simp add: layout_def)

lemma layout_concat: "concat (fst (layout opt kvs)) @ snd (layout opt kvs) = kvs"
  by (induction kvs rule: rev_induct) (simp_all add: layout_snoc layout_step_def Let_def, simp add: layout_def)

lemma layout_grows: "\<exists>bs. fst (layout opt (kvs @ kvs')) = fst (layout opt kvs) @ bs"
proof (induction kvs' rule: rev_induct)
  case (snoc kv kvs')
  then obtain bs where bs: "fst (layout opt (kvs @ kvs')) = fst (layout opt kvs) @ bs" by blast
  have "fst (layout opt ((kvs @ kvs') @ [kv])) = fst (layout opt (kvs @ kvs')) \<or>
      (\<exists>b. fst (layout opt ((kvs @ kvs') @ [kv])) = fst (layout opt (kvs @ kvs')) @ [b])"
    by (simp add: layout_snoc layout_step_def Let_def del: append_assoc)
  then show ?case using bs by auto
qed simp

context table_writer
begin

lemma add_entries_on:
  assumes "tb_at contents room opt N (fst (layout opt kvs0)) (snd (layout opt kvs0)) r"
    and "ordered_kvs opt valid (kvs0 @ kvs)" "few (length (kvs0 @ kvs))"
    and "length (data_bytes (opt_block_restart_interval opt) (fst (layout opt (kvs0 @ kvs)))) \<le> N" "N < 2 ^ 64"
  shows "\<exists>r'. add_entries append flush kvs r = Some r' \<and>
    tb_at contents room opt N (fst (layout opt (kvs0 @ kvs))) (snd (layout opt (kvs0 @ kvs))) r'"
  using assms
proof (induction kvs arbitrary: kvs0 r)
  case (Cons kv kvs)
  obtain k v where kv: "kv = (k, v)" by (cases kv)
  have all: "concat (fst (layout opt kvs0)) @ snd (layout opt kvs0) @ [(k, v)] = kvs0 @ [kv]"
    using layout_concat [of opt kvs0] kv by (metis append_assoc)
  have keys: "ordered_kvs opt valid (concat (fst (layout opt kvs0)) @ snd (layout opt kvs0) @ [(k, v)])"
    unfolding all using Cons.prems(2) ordered_kvs_append [of opt valid "kvs0 @ [kv]" kvs] by simp
  have few: "few (length (concat (fst (layout opt kvs0)) @ snd (layout opt kvs0) @ [(k, v)]))"
    unfolding all using Cons.prems(3) by auto
  obtain bs' where "fst (layout opt ((kvs0 @ [kv]) @ kvs)) = fst (layout opt (kvs0 @ [kv])) @ bs'" using layout_grows by blast
  then have N: "length (data_bytes (opt_block_restart_interval opt) (fst (layout opt (kvs0 @ [kv])))) \<le> N"
    using Cons.prems(4) by (simp add: data_bytes_append)
  have "layout_step opt (fst (layout opt kvs0), snd (layout opt kvs0)) (k, v) = (fst (layout opt (kvs0 @ [kv])), snd (layout opt (kvs0 @ [kv])))"
    by (simp add: layout_snoc kv)
  from Add_on [OF Cons.prems(1) keys this N Cons.prems(5) few] obtain r1 where r1: "TableBuilder_Add append flush k v r = Some r1"
    "tb_at contents room opt N (fst (layout opt (kvs0 @ [kv]))) (snd (layout opt (kvs0 @ [kv]))) r1" by blast
  have s: "ordered_kvs opt valid ((kvs0 @ [kv]) @ kvs)" "few (length ((kvs0 @ [kv]) @ kvs))"
    "length (data_bytes (opt_block_restart_interval opt) (fst (layout opt ((kvs0 @ [kv]) @ kvs)))) \<le> N" using Cons.prems(2-4) by simp_all
  from Cons.IH [OF r1(2) s Cons.prems(5)] show ?case using r1(1) kv by simp
qed simp

end

text \<open>\<open>Finish\<close> writes the rest of the file; the states in between.\<close>

definition fin_at :: "('f \<Rightarrow> slice) \<Rightarrow> ('f \<Rightarrow> nat \<Rightarrow> bool) \<Rightarrow> Options \<Rightarrow> nat \<Rightarrow> slice \<Rightarrow> 'f TableBuilder \<Rightarrow> bool" where
  "fin_at contents has_room opt N W r \<longleftrightarrow>
     tb_options r = opt \<and> tb_index_block_options r = opt\<lparr>opt_block_restart_interval := 1\<rparr> \<and> ok (tb_status r) \<and> tb_closed r \<and>
     contents (tb_file r) = W \<and> has_room (tb_file r) (N - length W) \<and> tb_offset r = of_nat (length W) \<and>
     (tb_filter_block r = None \<longleftrightarrow> opt_filter_policy opt = None) \<and> tb_policy r = opt_filter_policy opt"

definition same_index :: "'f TableBuilder \<Rightarrow> 'f TableBuilder \<Rightarrow> bool" where
  "same_index r r' \<longleftrightarrow> tb_index_block r' = tb_index_block r \<and> tb_last_key r' = tb_last_key r \<and> tb_num_entries r' = tb_num_entries r \<and>
     tb_pending_index_entry r' = tb_pending_index_entry r \<and> tb_pending_handle r' = tb_pending_handle r"

context table_writer
begin

lemma finish_filter_on:
  assumes at: "fin_at contents room opt N (data_bytes (opt_block_restart_interval opt) B) r"
    and fb: "tb_filter_block r = map_option (\<lambda>p. filter_run (opt_block_restart_interval opt) (fp_CreateFilter p) B) (opt_filter_policy opt)"
    and N: "length (before_meta opt B) \<le> N" "N < 2 ^ 64" and few: "few (length (concat B))"
  shows "\<exists>fh r'. finish_filter append r = Some (fh, r') \<and> fin_at contents room opt N (before_meta opt B) r' \<and> same_index r r' \<and>
    (opt_filter_policy opt \<noteq> None \<longrightarrow> fh = handle_at (data_bytes (opt_block_restart_interval opt) B) (filter_bytes opt B))"
proof (cases "opt_filter_policy opt")
  case None
  then show ?thesis using at fb by (simp add: finish_filter_def before_meta_def stored_filter_def same_index_def)
next
  case (Some p)
  let ?ri = "opt_block_restart_interval opt"
  let ?fb = "filter_run ?ri (fp_CreateFilter p) B" and ?F = "filter_bytes opt B"
  have f: "fst (filter_finish (fp_CreateFilter p) ?fb) = ?F" using Some by (simp add: filter_bytes_def)
  obtain fb' where fin: "filter_finish (fp_CreateFilter p) ?fb = (?F, fb')" using f by (metis prod.collapse)
  let ?r = "r\<lparr>tb_filter_block := Some fb'\<rparr>"
  have W: "before_meta opt B = data_bytes ?ri B @ stored_block ?F kNoCompression" using Some by (simp add: before_meta_def stored_filter_def)
  have room: "room (tb_file ?r) (N - length (data_bytes ?ri B))" using at by (simp add: fin_at_def)
  have len: "length ?F + kBlockTrailerSize \<le> N - length (data_bytes ?ri B)" using N(1) unfolding W by (simp add: length_stored_block)
  obtain s f where w: "WriteRawBlock append ?F kNoCompression ?r = (\<lparr>bh_offset = tb_offset ?r, bh_size = of_nat (length ?F)\<rparr>,
      ?r\<lparr>tb_status := s, tb_file := f, tb_offset := tb_offset ?r + of_nat (length (stored_block ?F kNoCompression))\<rparr>)" "ok s"
    "contents f = contents (tb_file ?r) @ stored_block ?F kNoCompression"
    "room f (N - length (data_bytes ?ri B) - length (stored_block ?F kNoCompression))"
    using WriteRawBlock_on [OF room len, of kNoCompression] by blast
  have c: "tb_create r = fp_CreateFilter p" "tb_filter_block r = Some ?fb" "ok (tb_status r)" using at fb Some by (simp_all add: tb_create_def fin_at_def)
  have "length (data_bytes ?ri B) < 2 ^ 64" using N unfolding W by simp
  from filter_run_counts [OF this, of "fp_CreateFilter p"] have "length (fb_start ?fb) < 2 ^ 31" using few Some by simp
  from FilterBlock_Finish_eq [OF this] have "finish_filter append r = Some (WriteRawBlock append ?F kNoCompression ?r)"
    using c fin by (simp add: finish_filter_def)
  then show ?thesis using at w Some unfolding W
    by (simp add: fin_at_def same_index_def handle_at_def diff_diff_left)
qed

text \<open>A block that is written at the end.\<close>

lemma WriteBlock_fin:
  assumes at: "fin_at contents room opt N W r" and b: "fst (BlockBuilder_Finish b) = blk" and N: "length (W @ stored_block blk kNoCompression) \<le> N"
  shows "\<exists>r'. WriteBlock append b r = Some (handle_at W blk, new_builder, r') \<and>
    fin_at contents room opt N (W @ stored_block blk kNoCompression) r' \<and> same_index r r'"
proof -
  have room: "ok (tb_status r)" "room (tb_file r) (N - length W)" using at by (simp_all add: fin_at_def)
  have len: "length (fst (BlockBuilder_Finish b)) + kBlockTrailerSize \<le> N - length W" using N b by (simp add: length_stored_block)
  obtain s f where w: "WriteBlock append b r = Some (\<lparr>bh_offset = tb_offset r, bh_size = of_nat (length blk)\<rparr>, new_builder,
      r\<lparr>tb_status := s, tb_file := f, tb_compressed_output := [], tb_offset := tb_offset r + of_nat (length (stored_block blk kNoCompression))\<rparr>)"
    "ok s" "contents f = contents (tb_file r) @ stored_block blk kNoCompression"
    "room f (N - length W - length (stored_block blk kNoCompression))"
    using WriteBlock_on [OF room len] unfolding b by blast
  then show ?thesis using at by (simp add: fin_at_def same_index_def handle_at_def diff_diff_left)
qed

lemma finish_metaindex_on:
  assumes at: "fin_at contents room opt N (before_meta opt B) r" and N: "length (before_index opt B) \<le> N" "N < 2 ^ 64"
    and fh: "opt_filter_policy opt \<noteq> None \<longrightarrow> fh = handle_at (data_bytes (opt_block_restart_interval opt) B) (filter_bytes opt B)"
  shows "\<exists>r'. finish_metaindex append fh r = Some (handle_at (before_meta opt B) (meta_block opt B), r') \<and>
    fin_at contents room opt N (before_index opt B) r' \<and> same_index r r'"
proof -
  let ?ri = "opt_block_restart_interval opt"
  let ?b = "AddAll ?ri (meta_kvs opt B) new_builder"
  have o: "ok (tb_status r)" "tb_options r = opt" "tb_filter_block r = None \<longleftrightarrow> opt_filter_policy opt = None"
    using at by (simp_all add: fin_at_def)
  obtain r' where w: "WriteBlock append ?b r = Some (handle_at (before_meta opt B) (meta_block opt B), new_builder, r')"
    "fin_at contents room opt N (before_index opt B) r'" "same_index r r'"
    using WriteBlock_fin [OF at, of ?b "meta_block opt B"] N(1) by (auto simp: meta_block_def block_of_def before_index_def)
  have h: "handle_set fh" if "opt_filter_policy opt \<noteq> None"
  proof -
    have "length (data_bytes ?ri B @ stored_block (filter_bytes opt B) kNoCompression) < 2 ^ 64"
      using N that by (simp add: before_index_def before_meta_def stored_filter_def)
    then show ?thesis using fh that handle_at_set by metis
  qed
  have "(case (tb_filter_block r, opt_filter_policy (tb_options r)) of
      (Some _, Some p) \<Rightarrow> do { handle_encoding \<leftarrow> BlockHandle_EncodeTo [] fh;
        block_add (tb_options r) (str ''filter.'' @ fp_Name p) handle_encoding new_builder }
    | (Some _, None) \<Rightarrow> None | (None, _) \<Rightarrow> Some new_builder) = Some ?b"
    using o(2,3) fh h BlockBuilder_Add_AddAll [OF interval, of "[]"]
    by (cases "opt_filter_policy opt"; cases "tb_filter_block r")
      (simp_all add: meta_kvs_def BlockHandle_EncodeTo_eq block_add_def)
  then show ?thesis using o w interval by (simp add: finish_metaindex_def BlockBuilder_init_def)
qed

lemma finish_index_on:
  assumes at: "fin_at contents room opt N (before_index opt B) r"
    and N: "length (before_index opt B @ stored_block (index_block opt B) kNoCompression) \<le> N" "N < 2 ^ 64" and ne: "[] \<notin> set B"
    and keys: "ordered_kvs opt valid (concat B)"
    and idx: "tb_index_block r = AddAll 1 (index_kvs opt B (length B - 1)) new_builder"
      "tb_pending_index_entry r = (B \<noteq> [])" "B \<noteq> [] \<Longrightarrow> tb_last_key r = fst (last (concat B))"
      "B \<noteq> [] \<Longrightarrow> tb_pending_handle r = block_handle (opt_block_restart_interval opt) B (length B - 1)"
  shows "\<exists>r'. finish_index append r = Some (handle_at (before_index opt B) (index_block opt B), r') \<and>
    fin_at contents room opt N (before_index opt B @ stored_block (index_block opt B) kNoCompression) r' \<and> tb_num_entries r' = tb_num_entries r"
proof -
  let ?step = "if tb_pending_index_entry r then add_index_entry (co_FindShortSuccessor (opt_comparator (tb_options r)) (tb_last_key r)) r else Some r"
  let ?idx = "AddAll 1 (index_kvs opt B (length B)) new_builder"
  have o: "ok (tb_status r)" "tb_options r = opt" "tb_index_block_options r = opt\<lparr>opt_block_restart_interval := 1\<rparr>" using at by (simp_all add: fin_at_def)
  obtain lk where step: "?step = Some (r\<lparr>tb_last_key := lk, tb_index_block := ?idx, tb_pending_index_entry := False\<rparr>)"
  proof (cases "B = []")
    case True
    then have "?step = Some (r\<lparr>tb_last_key := tb_last_key r, tb_index_block := ?idx, tb_pending_index_entry := False\<rparr>)"
      using idx by (cases r) (simp add: index_kvs_def)
    then show thesis by (rule that)
  next
    case False
    then obtain A b where B: "B = A @ [b]" by (cases B rule: rev_cases) auto
    let ?ri = "opt_block_restart_interval opt"
    define m where "m = length B - 1"
    have n: "length B = Suc m" "m < length B" using False by (simp_all add: m_def)
    have "last (concat B) = last b" using B ne by auto
    then have succ: "co_FindShortSuccessor (opt_comparator opt) (tb_last_key r) = index_key (opt_comparator opt) B m"
      using idx(3) False B by (simp add: index_key_def Let_def m_def)
    have "length (data_bytes ?ri B) < 2 ^ 64" using N by (simp add: before_index_def before_meta_def)
    note h = block_handle_set [OF n(2) this]
    have "add_index_entry (index_key (opt_comparator opt) B m) r =
        Some (r\<lparr>tb_last_key := index_key (opt_comparator opt) B m, tb_index_block := ?idx, tb_pending_index_entry := False\<rparr>)"
      unfolding add_index_entry_def idx(4) [OF False] m_def [symmetric] BlockHandle_EncodeTo_eq [OF h] o(3) idx(1) n(1) index_kvs_Suc
      by (simp add: BlockHandle_EncodeTo_eq [OF h] block_add_index [OF ne keys n(2)])
    with succ show thesis using that idx(2) False o(2) by simp
  qed
  let ?r = "r\<lparr>tb_last_key := lk, tb_index_block := ?idx, tb_pending_index_entry := False\<rparr>"
  have at': "fin_at contents room opt N (before_index opt B) ?r" using at by (simp add: fin_at_def)
  have n: "tb_num_entries ?r = tb_num_entries r" by simp
  have f: "fst (BlockBuilder_Finish (tb_index_block ?r)) = index_block opt B" by (simp add: index_block_def block_of_def)
  obtain r' where w: "WriteBlock append (tb_index_block ?r) ?r = Some (handle_at (before_index opt B) (index_block opt B), new_builder, r')"
    "fin_at contents room opt N (before_index opt B @ stored_block (index_block opt B) kNoCompression) r'" "same_index ?r r'"
    using WriteBlock_fin [OF at' f N(1)] by blast
  have "finish_index append r = Some (handle_at (before_index opt B) (index_block opt B), r'\<lparr>tb_index_block := new_builder\<rparr>)"
    using o(1) w(1) unfolding finish_index_def step by simp
  moreover have "fin_at contents room opt N (before_index opt B @ stored_block (index_block opt B) kNoCompression) (r'\<lparr>tb_index_block := new_builder\<rparr>)"
    using w(2) by (simp add: fin_at_def)
  ultimately show ?thesis using w(3) n by (simp add: same_index_def)
qed

lemma finish_footer_on:
  assumes at: "fin_at contents room opt N W r" and N: "length (W @ footer_bytes \<lparr>metaindex_handle = mh, index_handle = ih\<rparr>) \<le> N"
    and h: "handle_set mh" "handle_set ih"
  shows "\<exists>r'. finish_footer append mh ih r = Some r' \<and>
    fin_at contents room opt N (W @ footer_bytes \<lparr>metaindex_handle = mh, index_handle = ih\<rparr>) r' \<and> tb_num_entries r' = tb_num_entries r"
proof -
  let ?f = "\<lparr>metaindex_handle = mh, index_handle = ih\<rparr>"
  have e: "Footer_init\<lparr>metaindex_handle := mh, index_handle := ih\<rparr> = ?f" by (simp add: Footer_init_def)
  obtain s f where a: "append (footer_bytes ?f) (tb_file r) = (s, f)" by fastforce
  have room: "room (tb_file r) (N - length W)" using at by (simp add: fin_at_def)
  have k: "ok s" "room f (N - length W - length (footer_bytes ?f))" using append_room [OF a room] N by auto
  have enc: "Footer_EncodeTo [] ?f = Some (footer_bytes ?f)" by (rule Footer_EncodeTo_eq) (use h in simp_all)
  show ?thesis using at a k append_ok [OF a k(1)] unfolding finish_footer_def e enc
    by (simp add: fin_at_def diff_diff_left)
qed

lemma Flush_closed:
  assumes at: "tb_at contents room opt N bs opn r" and N: "length (data_bytes (opt_block_restart_interval opt) (closed_blocks (bs, opn))) \<le> N"
    "N < 2 ^ 64" and few: "few (length (concat bs @ opn))"
  shows "\<exists>r'. TableBuilder_Flush append flush r = Some r' \<and> tb_at contents room opt N (closed_blocks (bs, opn)) [] r'"
proof (cases "opn = []")
  case True
  have d: "tb_data_block r = AddAll (opt_block_restart_interval opt) opn new_builder" "\<not> tb_closed r"
    using at unfolding tb_at_def Let_def by blast+
  then have "TableBuilder_Flush append flush r = Some r" using True by (simp add: TableBuilder_Flush_def new_builder_def)
  then show ?thesis using at True by (simp add: closed_blocks_def)
next
  case False
  then show ?thesis using Flush_on [OF at False _ N(2) few] N(1) by (simp add: closed_blocks_def)
qed

lemma Finish_on:
  assumes at: "tb_at contents room opt N bs opn r" and N: "length (table_bytes opt (closed_blocks (bs, opn))) \<le> N" "N < 2 ^ 64"
    and few: "few (length (concat bs @ opn))" and keys: "ordered_kvs opt valid (concat bs @ opn)"
  shows "\<exists>s r'. TableBuilder_Finish append flush r = Some (s, r') \<and> ok s \<and> tb_closed r' \<and>
    contents (tb_file r') = table_bytes opt (closed_blocks (bs, opn)) \<and> NumEntries r' = length (concat bs @ opn) \<and>
    FileSize r' = of_nat (length (table_bytes opt (closed_blocks (bs, opn))))"
proof -
  let ?ri = "opt_block_restart_interval opt"
  define B where "B = closed_blocks (bs, opn)"
  have len: "length (data_bytes ?ri B) \<le> N" "length (before_meta opt B) \<le> N" "length (before_index opt B) \<le> N"
    "length (before_index opt B @ stored_block (index_block opt B) kNoCompression) \<le> N" "length (table_bytes opt B) \<le> N"
    using N(1) unfolding B_def [symmetric] by (simp_all add: table_bytes_def before_index_def before_meta_def)
  have cat: "concat B = concat bs @ opn" by (simp add: B_def closed_blocks_def)
  obtain r1 where r1: "TableBuilder_Flush append flush r = Some r1" "tb_at contents room opt N B [] r1"
    using Flush_closed [OF at _ N(2) few] len(1) unfolding B_def by auto
  have cl: "closed_blocks (B, []) = B" by (simp add: closed_blocks_def)
  let ?r1 = "r1\<lparr>tb_closed := True\<rparr>"
  have ne: "[] \<notin> set B" using r1(2) unfolding tb_at_def Let_def by blast
  have cB: "concat B \<noteq> []" if "B \<noteq> []" using ne that by (cases B) auto
  have idx: "tb_index_block r1 = AddAll 1 (index_kvs opt B (length B - 1)) new_builder"
    "tb_pending_index_entry r1 = (B \<noteq> [])" "B \<noteq> [] \<Longrightarrow> tb_last_key r1 = fst (last (concat B))"
    "B \<noteq> [] \<Longrightarrow> tb_pending_handle r1 = block_handle ?ri B (length B - 1)" "tb_num_entries r1 = length (concat B)"
    using r1(2) cB unfolding tb_at_def Let_def cl by auto
  have "fin_at contents room opt N (data_bytes ?ri B) ?r1"
    "tb_filter_block ?r1 = map_option (\<lambda>p. filter_run ?ri (fp_CreateFilter p) B) (opt_filter_policy opt)"
    using r1(2) by (simp_all add: tb_at_def fin_at_def Let_def)
  from finish_filter_on [OF this len(2) N(2)] few obtain fh r2 where r2: "finish_filter append ?r1 = Some (fh, r2)"
    "fin_at contents room opt N (before_meta opt B) r2" "same_index ?r1 r2"
    "opt_filter_policy opt \<noteq> None \<longrightarrow> fh = handle_at (data_bytes ?ri B) (filter_bytes opt B)" unfolding cat by blast
  obtain r3 where r3: "finish_metaindex append fh r2 = Some (handle_at (before_meta opt B) (meta_block opt B), r3)"
    "fin_at contents room opt N (before_index opt B) r3" "same_index r2 r3"
    using finish_metaindex_on [OF r2(2) len(3) N(2) r2(4)] by blast
  have s: "tb_index_block r3 = tb_index_block r1" "tb_last_key r3 = tb_last_key r1" "tb_num_entries r3 = tb_num_entries r1"
    "tb_pending_index_entry r3 = tb_pending_index_entry r1" "tb_pending_handle r3 = tb_pending_handle r1"
    using r2(3) r3(3) by (simp_all add: same_index_def)
  obtain r4 where r4: "finish_index append r3 = Some (handle_at (before_index opt B) (index_block opt B), r4)"
    "fin_at contents room opt N (before_index opt B @ stored_block (index_block opt B) kNoCompression) r4" "tb_num_entries r4 = tb_num_entries r3"
    using finish_index_on [OF r3(2) len(4) N(2) ne] idx(1-4) keys unfolding s cat by blast
  let ?mh = "handle_at (before_meta opt B) (meta_block opt B)" and ?ih = "handle_at (before_index opt B) (index_block opt B)"
  have tb: "(before_index opt B @ stored_block (index_block opt B) kNoCompression) @ footer_bytes \<lparr>metaindex_handle = ?mh, index_handle = ?ih\<rparr> =
      table_bytes opt B" by (simp add: table_bytes_def table_footer_def)
  have h: "handle_set ?mh" "handle_set ?ih"
    using len(3,4) N(2) by (auto intro!: handle_at_set [where t = kNoCompression] simp: before_index_def)
  obtain r5 where r5: "finish_footer append ?mh ?ih r4 = Some r5" "fin_at contents room opt N (table_bytes opt B) r5"
    "tb_num_entries r5 = tb_num_entries r4"
    using finish_footer_on [OF r4(2) _ h] len(5) unfolding tb by blast
  have "TableBuilder_Finish append flush r = Some (tb_status r5, r5)"
    using r1(1) r2(1) r3(1) r4(1) r5(1) by (simp add: TableBuilder_Finish_def)
  then show ?thesis using r5(2,3) r4(3) s(3) idx(5) unfolding B_def [symmetric] cat
    by (simp add: fin_at_def NumEntries_def FileSize_def)
qed

text \<open>A table of ascending entries, built into an empty file with room for it.\<close>

lemma build_table:
  assumes "contents f = []" "room f (length (table_file opt kvs))"
    and "ordered_kvs opt valid kvs" "length (table_file opt kvs) < 2 ^ 64" "few (length kvs)"
  shows "\<exists>r0 r s r'. TableBuilder_init opt f = Some r0 \<and> add_entries append flush kvs r0 = Some r \<and>
    TableBuilder_Finish append flush r = Some (s, r') \<and>
    ok s \<and> contents (tb_file r') = table_file opt kvs \<and> NumEntries r' = length kvs \<and> FileSize r' = of_nat (length (table_file opt kvs))"
proof -
  let ?N = "length (table_file opt kvs)"
  have l0: "layout opt [] = ([], [])" by (simp add: layout_def)
  obtain r0 where r0: "TableBuilder_init opt f = Some r0" "tb_at contents room opt ?N (fst (layout opt [])) (snd (layout opt [])) r0"
    unfolding l0 fst_conv snd_conv using tb_at_init [of contents f room ?N opt] assms(1,2) interval by auto
  have bytes: "table_file opt kvs = table_bytes opt (closed_blocks (fst (layout opt kvs), snd (layout opt kvs)))" by (simp add: table_file_def)
  have "length (data_bytes (opt_block_restart_interval opt) (fst (layout opt kvs))) \<le> ?N"
    by (simp add: table_file_def table_bytes_def before_index_def before_meta_def closed_blocks_def data_bytes_append)
  with add_entries_on [OF r0(2), of kvs] assms(3-5) obtain r where r: "add_entries append flush kvs r0 = Some r"
    "tb_at contents room opt ?N (fst (layout opt kvs)) (snd (layout opt kvs)) r" by auto
  from Finish_on [OF r(2)] bytes layout_concat [of opt kvs] assms(3-5) show ?thesis using r0(1) r(1) by auto
qed

end

end
