(* ===== verification/Lv_Table.thy ===== *)
theory Lv_Table
  imports Lv_Table_Builder Lv_Sharded_Cache
begin

text \<open>
  Reading a table: \<open>table/table.cc\<close> and \<open>table/two_level_iterator.cc\<close>, over the random-access file of the format
  and the block cache of the options, a state that the operations share. The locale \<open>table_opts\<close> is what the
  options must satisfy: the contract of the comparator, which keys count as a match (\<open>same\<close>), and that the filter
  matches them.
\<close>

section \<open>Iterators over a block\<close>

text \<open>\<open>NewErrorIterator\<close> and \<open>NewEmptyIterator\<close> of \<open>table/iterator.cc\<close> are never valid.\<close>

definition ni_Valid :: "NewIter \<Rightarrow> bool" where
  "ni_Valid ni = (case ni of BlockIterator it \<Rightarrow> Valid it | _ \<Rightarrow> False)"

definition ni_key :: "NewIter \<Rightarrow> slice option" where
  "ni_key ni = (case ni of BlockIterator it \<Rightarrow> if Valid it then Some (bi_key it) else None | _ \<Rightarrow> None)"

definition ni_value :: "NewIter \<Rightarrow> slice option" where
  "ni_value ni = (case ni of BlockIterator it \<Rightarrow> iter_value it | _ \<Rightarrow> None)"

definition ni_status :: "NewIter \<Rightarrow> Status" where
  "ni_status ni = (case ni of ErrorIterator s \<Rightarrow> s | EmptyIterator \<Rightarrow> OK | BlockIterator it \<Rightarrow> bi_status it)"

definition on_iter :: "(BlockIter \<Rightarrow> BlockIter option) \<Rightarrow> NewIter \<Rightarrow> NewIter option" where
  "on_iter f ni = (case ni of BlockIterator it \<Rightarrow> map_option BlockIterator (f it) | _ \<Rightarrow> Some ni)"

definition ni_Seek :: "(slice \<Rightarrow> slice \<Rightarrow> int) \<Rightarrow> slice \<Rightarrow> NewIter \<Rightarrow> NewIter option" where
  "ni_Seek cmp target = on_iter (Seek cmp target)"

definition ni_SeekToFirst :: "NewIter \<Rightarrow> NewIter option" where "ni_SeekToFirst = on_iter SeekToFirst"
definition ni_SeekToLast :: "NewIter \<Rightarrow> NewIter option" where "ni_SeekToLast = on_iter SeekToLast"

text \<open>\<open>Next\<close> and \<open>Prev\<close> assert that the iterator is valid.\<close>

definition ni_Next :: "NewIter \<Rightarrow> NewIter option" where
  "ni_Next ni = (if ni_Valid ni then on_iter Next_entry ni else None)"

definition ni_Prev :: "NewIter \<Rightarrow> NewIter option" where
  "ni_Prev ni = (if ni_Valid ni then on_iter Prev_entry ni else None)"

section \<open>The table\<close>

record ReadOptions =
  ro_verify_checksums :: bool
  ro_fill_cache :: bool

definition ReadOptions_init :: ReadOptions where
  "ReadOptions_init = \<lparr>ro_verify_checksums = False, ro_fill_cache = True\<rparr>"

record Table =
  tbl_options :: Options
  tbl_file :: random_read
  tbl_cache_id :: u64
  tbl_filter :: "FilterBlockReader option"
  tbl_metaindex_handle :: BlockHandle
  tbl_index_block :: Block

type_synonym block_cache = "Block ShardedLRUCache option"

definition Table_ReadFilter :: "slice \<Rightarrow> Table \<Rightarrow> Table option" where
  "Table_ReadFilter filter_handle_value t =
     (let (s, handle, _) = BlockHandle_DecodeFrom filter_handle_value BlockHandle_init in
      if \<not> ok s then Some t
      else do {
        (s, blk) \<leftarrow> ReadBlock (tbl_file t) (opt_paranoid_checks (tbl_options t)) handle;
        Some (if ok s then t\<lparr>tbl_filter := Some (FilterBlockReader_init (bc_data blk))\<rparr> else t) })"

definition Table_ReadMeta :: "Footer \<Rightarrow> Table \<Rightarrow> Table option" where
  "Table_ReadMeta footer t =
     (case opt_filter_policy (tbl_options t) of
        None \<Rightarrow> Some t
      | Some p \<Rightarrow> do {
          (s, contents) \<leftarrow> ReadBlock (tbl_file t) (opt_paranoid_checks (tbl_options t)) (metaindex_handle footer);
          if \<not> ok s then Some t
          else do {
            let key = str ''filter.'' @ fp_Name p;
            iter \<leftarrow> ni_Seek Compare key (Block_NewIterator (Block_init (bc_data contents)));
            if ni_Valid iter \<and> ni_key iter = Some key
            then do { v \<leftarrow> ni_value iter; Table_ReadFilter v t }
            else Some t } })"

definition Table_Open :: "Options \<Rightarrow> random_read \<Rightarrow> u64 \<Rightarrow> block_cache \<Rightarrow> (Status \<times> Table option \<times> block_cache) option" where
  "Table_Open opt file file_size bc =
     (if unat file_size < kEncodedLength then Some (Corruption (str ''file is too short to be an sstable'') [], None, bc)
      else do {
        r \<leftarrow> file (file_size - of_nat kEncodedLength) (of_nat kEncodedLength);
        if \<not> ok (raf_status r) then Some (raf_status r, None, bc)
        else do {
          (s, footer, _) \<leftarrow> Footer_DecodeFrom (raf_data r) Footer_init;
          if \<not> ok s then Some (s, None, bc)
          else do {
            (s, contents) \<leftarrow> ReadBlock file (opt_paranoid_checks opt) (index_handle footer);
            if ok s then do {
              let (cache_id, bc) = (case bc of None \<Rightarrow> (0, None) | Some c \<Rightarrow> let (i, c) = Cache_NewId c in (i, Some c));
              t \<leftarrow> Table_ReadMeta footer
                \<lparr>tbl_options = opt, tbl_file = file, tbl_cache_id = cache_id, tbl_filter = None,
                 tbl_metaindex_handle = metaindex_handle footer, tbl_index_block = Block_init (bc_data contents)\<rparr>;
              Some (s, Some t, bc) }
            else Some (s, None, bc) } } })"

text \<open>The key of a block in the cache: 16 bytes.\<close>

definition cache_key :: "u64 \<Rightarrow> u64 \<Rightarrow> slice" where
  "cache_key cache_id off = EncodeFixed64 cache_id @ EncodeFixed64 off"

text \<open>The iterator, with the handle to release when it is deleted, if its block is in the cache.\<close>

definition BlockReader ::
  "Table \<Rightarrow> ReadOptions \<Rightarrow> slice \<Rightarrow> block_cache \<Rightarrow> ((NewIter \<times> cache_handle option) \<times> block_cache) option"
where
  "BlockReader t ro index_value bc =
     (let (s, handle, _) = BlockHandle_DecodeFrom index_value BlockHandle_init in
      if \<not> ok s then Some ((ErrorIterator s, None), bc)
      else case bc of
          Some c \<Rightarrow> do {
            let key = cache_key (tbl_cache_id t) (bh_offset handle);
            (cache_handle, c) \<leftarrow> Cache_Lookup key c;
            case cache_handle of
              Some h \<Rightarrow> do { blk \<leftarrow> Cache_Value h c; Some ((Block_NewIterator blk, Some h), Some c) }
            | None \<Rightarrow> do {
                (s, contents) \<leftarrow> ReadBlock (tbl_file t) (ro_verify_checksums ro) handle;
                if ok s then do {
                  let blk = Block_init (bc_data contents);
                  if bc_cachable contents \<and> ro_fill_cache ro then do {
                    (h, c) \<leftarrow> Cache_Insert key blk (of_nat (blk_size blk)) c;
                    Some ((Block_NewIterator blk, Some h), Some c) }
                  else Some ((Block_NewIterator blk, None), Some c) }
                else Some ((ErrorIterator s, None), Some c) } }
        | None \<Rightarrow> do {
            (s, contents) \<leftarrow> ReadBlock (tbl_file t) (ro_verify_checksums ro) handle;
            Some ((if ok s then Block_NewIterator (Block_init (bc_data contents)) else ErrorIterator s, None), None) })"

text \<open>Deleting the iterator runs the registered \<open>ReleaseBlock\<close>.\<close>

definition ReleaseBlock :: "cache_handle option \<Rightarrow> block_cache \<Rightarrow> block_cache option" where
  "ReleaseBlock h bc =
     (case (h, bc) of (Some h, Some c) \<Rightarrow> map_option Some (Cache_Release h c) | _ \<Rightarrow> Some bc)"

text \<open>What the filter says of the block that an index entry points to; without a filter every key may match.\<close>

definition filter_may_match :: "Table \<Rightarrow> slice \<Rightarrow> slice \<Rightarrow> bool option" where
  "filter_may_match t handle_value k =
     (case (tbl_filter t, opt_filter_policy (tbl_options t)) of
        (Some fr, Some p) \<Rightarrow>
          let (s, handle, _) = BlockHandle_DecodeFrom handle_value BlockHandle_init in
          if ok s then FilterBlock_KeyMayMatch (fp_KeyMayMatch p) fr (bh_offset handle) k else Some True
      | _ \<Rightarrow> Some True)"

text \<open>The status, and the entry that is handed to the saver, if any.\<close>

definition InternalGet ::
  "Table \<Rightarrow> ReadOptions \<Rightarrow> slice \<Rightarrow> block_cache \<Rightarrow> (Status \<times> (slice \<times> slice) option \<times> block_cache) option"
where
  "InternalGet t ro k bc = do {
     let cmp = co_Compare (opt_comparator (tbl_options t));
     iiter \<leftarrow> ni_Seek cmp k (Block_NewIterator (tbl_index_block t));
     if ni_Valid iiter then do {
       handle_value \<leftarrow> ni_value iiter;
       may \<leftarrow> filter_may_match t handle_value k;
       if \<not> may then Some (ni_status iiter, None, bc)
       else do {
         ((block_iter, h), bc) \<leftarrow> BlockReader t ro handle_value bc;
         block_iter \<leftarrow> ni_Seek cmp k block_iter;
         found \<leftarrow> (if ni_Valid block_iter
           then do { key \<leftarrow> ni_key block_iter; v \<leftarrow> ni_value block_iter; Some (Some (key, v)) } else Some None);
         let s = ni_status block_iter;
         bc \<leftarrow> ReleaseBlock h bc;
         Some (if ok s then ni_status iiter else s, found, bc) } }
     else Some (ni_status iiter, None, bc) }"

definition ApproximateOffsetOf :: "Table \<Rightarrow> slice \<Rightarrow> u64 option" where
  "ApproximateOffsetOf t key = do {
     index_iter \<leftarrow> ni_Seek (co_Compare (opt_comparator (tbl_options t))) key (Block_NewIterator (tbl_index_block t));
     if ni_Valid index_iter then do {
       input \<leftarrow> ni_value index_iter;
       let (s, handle, _) = BlockHandle_DecodeFrom input BlockHandle_init;
       Some (if ok s then bh_offset handle else bh_offset (tbl_metaindex_handle t)) }
     else Some (bh_offset (tbl_metaindex_handle t)) }"

section \<open>What the options must satisfy\<close>

locale table_opts = key_shortener "co_Compare (opt_comparator opt)" valid "co_FindShortestSeparator (opt_comparator opt)"
    "co_FindShortSuccessor (opt_comparator opt)" for opt :: Options and valid +
  fixes same :: "slice \<Rightarrow> slice \<Rightarrow> bool" and fok :: "slice list \<Rightarrow> bool"
  assumes restart_interval: "1 \<le> opt_block_restart_interval opt"
    and same_separated: "valid s \<Longrightarrow> valid l \<Longrightarrow> valid k \<Longrightarrow> co_Compare (opt_comparator opt) s l < 0 \<Longrightarrow>
      co_Compare (opt_comparator opt) s k < 0 \<Longrightarrow>
      co_Compare (opt_comparator opt) k (co_FindShortestSeparator (opt_comparator opt) s l) \<le> 0 \<Longrightarrow> \<not> same k l"
    and filter_appends: "opt_filter_policy opt = Some p \<Longrightarrow> fp_CreateFilter p keys dst = dst @ fp_CreateFilter p keys []"
    and filter_match: "opt_filter_policy opt = Some p \<Longrightarrow> fok ks \<Longrightarrow> key \<in> set ks \<Longrightarrow> same k key \<Longrightarrow>
      fp_KeyMayMatch p k (fp_CreateFilter p ks [])"
    and fok_part: "fok (us @ ks @ vs) \<Longrightarrow> fok ks"

sublocale table_opts \<subseteq> block_order "co_Compare (opt_comparator opt)" valid
  by unfold_locales

definition good_kvs :: "Options \<Rightarrow> (slice \<Rightarrow> bool) \<Rightarrow> (slice \<times> slice) list \<Rightarrow> bool" where
  "good_kvs opt valid kvs \<longleftrightarrow> sorted_wrt (\<lambda>a b. co_Compare (opt_comparator opt) (fst a) (fst b) < 0) kvs \<and>
     (\<forall>en \<in> set kvs. valid (fst en)) \<and> kvs_small kvs \<and> length (table_file opt kvs) < 2 ^ 32"

definition blocks_of :: "Options \<Rightarrow> (slice \<times> slice) list \<Rightarrow> (slice \<times> slice) list list" where
  "blocks_of opt kvs = closed_blocks (layout opt kvs)"

lemma layout_nonempty: "[] \<notin> set (fst (layout opt kvs))"
  by (induction kvs rule: rev_induct) (auto simp: layout_snoc layout_step_def Let_def, simp add: layout_def)

lemma blocks_of_concat: "concat (blocks_of opt kvs) = kvs"
  using layout_concat [of opt kvs] by (cases "snd (layout opt kvs) = []") (simp_all add: blocks_of_def closed_blocks_def)

lemma blocks_of_nonempty: "[] \<notin> set (blocks_of opt kvs)"
  using layout_nonempty [of opt kvs] by (auto simp: blocks_of_def closed_blocks_def)

lemma table_file_blocks: "table_file opt kvs = table_bytes opt (blocks_of opt kvs)"
  by (simp add: table_file_def blocks_of_def)

section \<open>Where the blocks are in the file\<close>

lemma data_block_at:
  assumes "i < length B"
  shows "\<exists>post. table_bytes opt B = data_bytes (opt_block_restart_interval opt) (take i B) @
    stored_block (block_of (opt_block_restart_interval opt) (B ! i)) kNoCompression @ post"
proof -
  let ?ri = "opt_block_restart_interval opt"
  have "data_bytes ?ri (take i B @ B ! i # drop (Suc i) B) = data_bytes ?ri (take i B) @
      stored_block (block_of ?ri (B ! i)) kNoCompression @ data_bytes ?ri (drop (Suc i) B)"
    unfolding data_bytes_append by (simp add: data_bytes_def)
  then have "data_bytes ?ri B = data_bytes ?ri (take i B) @
      stored_block (block_of ?ri (B ! i)) kNoCompression @ data_bytes ?ri (drop (Suc i) B)"
    unfolding id_take_nth_drop [OF assms, symmetric] .
  then show ?thesis unfolding table_bytes_def before_index_def before_meta_def by simp
qed

lemma data_offset_less:
  assumes "i < length B"
  shows "length (data_bytes ri (take i B)) < length (data_bytes ri (take (Suc i) B))"
  using assms by (simp add: take_Suc_conv_app_nth data_bytes_snoc length_stored_block kBlockTrailerSize_def)

lemma data_offset_mono: "i \<le> j \<Longrightarrow> length (data_bytes ri (take i B)) \<le> length (data_bytes ri (take j B))"
proof -
  assume "i \<le> j"
  then have j: "take j B = take i B @ take (j - i) (drop i B)" using take_add [of i "j - i" B] by simp
  show ?thesis unfolding j data_bytes_append by simp
qed

lemma data_offset_inj:
  assumes "i < length B" "j < length B" "length (data_bytes ri (take i B)) = length (data_bytes ri (take j B))"
  shows "i = j"
proof (rule ccontr)
  assume "i \<noteq> j"
  then consider "Suc i \<le> j" | "Suc j \<le> i" by linarith
  then show False
    using assms data_offset_less [OF assms(1), of ri] data_offset_less [OF assms(2), of ri]
      data_offset_mono [of "Suc i" j ri B] data_offset_mono [of "Suc j" i ri B] by cases linarith+
qed

lemma data_offset_le: "length (data_bytes (opt_block_restart_interval opt) (take i B)) \<le> length (table_bytes opt B)"
proof -
  have "length (data_bytes (opt_block_restart_interval opt) (take i B)) \<le> length (data_bytes (opt_block_restart_interval opt) B)"
    using data_offset_mono [of i "max i (length B)" "opt_block_restart_interval opt" B] by simp
  then show ?thesis unfolding table_bytes_def before_index_def before_meta_def length_append by linarith
qed


section \<open>Small entries\<close>

text \<open>With restart interval 1, and for the first entry of a block, keys are stored whole.\<close>

lemma Add_whole:
  assumes "bb_counter b = 0 \<longrightarrow> bb_last_key b = []" "0 \<le> bb_counter b" "ri = 1 \<or> bb_counter b = 0"
  shows "length (bb_buffer b) + length k + length v \<le> length (bb_buffer (append_entry ri k v b)) \<and> 0 < bb_counter (append_entry ri k v b)"
proof (cases "bb_counter b = 0")
  case True
  then have "shared_loop (bb_last_key b) k (min (length (bb_last_key b)) (length k)) 0 = 0"
    using assms(1) by (subst shared_loop.simps) simp
  then show ?thesis using True by (auto simp: append_entry_def Let_def split_beta PutVarint32_def)
next
  case False
  then show ?thesis using assms(2,3) by (auto simp: append_entry_def Let_def split_beta PutVarint32_def)
qed

lemma AddAll_whole:
  assumes "bb_counter b = 0 \<longrightarrow> bb_last_key b = []" "0 \<le> bb_counter b" "en \<in> set kvs"
  shows "length (fst en) + length (snd en) \<le> length (bb_buffer (AddAll 1 kvs b))"
  using assms
proof (induction kvs arbitrary: b rule: rev_induct)
  case (snoc x kvs)
  obtain k v where x: "x = (k, v)" by (cases x)
  have inv: "(bb_counter (AddAll 1 xs b) = 0 \<longrightarrow> bb_last_key (AddAll 1 xs b) = []) \<and> 0 \<le> bb_counter (AddAll 1 xs b)" for xs
  proof (induction xs rule: rev_induct)
    case (snoc y xs)
    then show ?case using Add_whole [of "AddAll 1 xs b" 1 "fst y" "snd y"] by (cases y) (auto simp: AddAll_snoc)
  qed (use snoc.prems in simp)
  have a: "length (bb_buffer (AddAll 1 kvs b)) + length k + length v \<le> length (bb_buffer (AddAll 1 (kvs @ [x]) b))"
    using Add_whole [of "AddAll 1 kvs b" 1 k v] inv [of kvs] by (simp add: x AddAll_snoc)
  show ?case
  proof (cases "en = x")
    case True
    then show ?thesis using a x by simp
  next
    case False
    then show ?thesis using a snoc.IH [OF snoc.prems(1,2)] snoc.prems(3) by auto
  qed
qed simp

lemma length_buffer_Finish: "length (bb_buffer b) \<le> length (fst (BlockBuilder_Finish b))"
  by (simp add: BlockBuilder_Finish_def foldl_PutFixed32 PutFixed32_def Let_def)

lemma Add_le:
  "length (bb_buffer (append_entry ri k v b)) \<le> length (bb_buffer b) + length k + length v + 15 \<and>
   length (bb_restarts (append_entry ri k v b)) \<le> length (bb_restarts b) + 1"
proof -
  have l: "length (EncodeVarint32 x) + (length (EncodeVarint32 y) + (length (EncodeVarint32 z) + (n - m))) \<le> n + 15" for x y z and n m :: nat
    using length_EncodeVarint32 [of x] length_EncodeVarint32 [of y] length_EncodeVarint32 [of z] by linarith
  show ?thesis
    using l [where m = 0] by (auto simp: append_entry_def Let_def PutVarint32_def split_beta l)
qed

lemma length_block_of: "length (block_of ri kvs) \<le> sum_list (map (\<lambda>(k, v). length k + length v + 19) kvs) + 8"
proof -
  have "length (bb_buffer (AddAll ri kvs b)) + 4 * length (bb_restarts (AddAll ri kvs b)) \<le>
      length (bb_buffer b) + 4 * length (bb_restarts b) + sum_list (map (\<lambda>(k, v). length k + length v + 19) kvs)" for b
  proof (induction kvs arbitrary: b)
    case (Cons e kvs)
    obtain k v where e: "e = (k, v)" by (cases e)
    show ?case using Cons.IH [of "append_entry ri k v b"] Add_le [of ri k v b] by (simp add: e)
  qed simp
  from this [of new_builder] show ?thesis
    by (simp add: block_of_def BlockBuilder_Finish_def foldl_PutFixed32 PutFixed32_def new_builder_def Let_def
      length_concat comp_def sum_list_triv)
qed

lemma small_of_block: "length (block_of 1 kvs) < 2 ^ 32 \<Longrightarrow> kvs_small kvs"
proof -
  assume len: "length (block_of 1 kvs) < 2 ^ 32"
  have "length (fst en) + length (snd en) < 2 ^ 32" if "en \<in> set kvs" for en
    using AddAll_whole [of new_builder en kvs] that len length_buffer_Finish [of "AddAll 1 kvs new_builder"]
    unfolding block_of_def by (simp add: new_builder_def)
  then show ?thesis by (auto simp: kvs_small_def)
qed

lemma small_of_single: "length (block_of ri [en]) < 2 ^ 32 \<Longrightarrow> kvs_small [en]"
  using Add_whole [of new_builder ri "fst en" "snd en"] length_buffer_Finish [of "AddAll ri [en] new_builder"]
  by (cases en) (simp add: block_of_def kvs_small_def new_builder_def)


section \<open>The filter of a block\<close>

text \<open>The keys of every block are in the group of its offset.\<close>

lemma foldl_AddKey: "fb_repr create fb gs ks \<Longrightarrow> fb_repr create (foldl (\<lambda>fb en. AddKey (fst en) fb) fb kvs) gs (ks @ map fst kvs)"
proof (induction kvs arbitrary: fb ks)
  case (Cons en kvs)
  from Cons.IH [OF fb_repr_AddKey [OF Cons.prems, of "fst en"]] show ?case by simp
qed simp

context filter_policy
begin

lemma StartBlock_groups:
  assumes "fb_repr create fb gs ks" "length gs \<le> off div kFilterBase" "off < 2 ^ 64"
  shows "\<exists>gs' ks'. fb_repr create (start_block create (of_nat off) fb) gs' ks' \<and> length gs' = off div kFilterBase \<and>
    concat gs' @ ks' = concat gs @ ks \<and> (\<forall>j \<le> length gs. j \<le> length gs' \<and> set ((gs @ [ks]) ! j) \<subseteq> set ((gs' @ [ks']) ! j))"
proof -
  let ?i = "off div kFilterBase"
  let ?gs = "if ?i = length gs then gs else gs @ ks # replicate (?i - length gs - 1) []" and ?ks = "if ?i = length gs then ks else []"
  have u: "unat (of_nat off :: u64) = off" using assms(3) by (simp add: unat_of_nat)
  have "fb_repr create (start_block create (of_nat off) fb) ?gs ?ks"
    unfolding start_block_def u by (rule fb_repr_StartBlock_loop [OF assms(1,2)])
  moreover have "length ?gs = ?i" using assms(2) by auto
  moreover have "concat ?gs @ ?ks = concat gs @ ks" by simp
  moreover have "j \<le> length ?gs \<and> set ((gs @ [ks]) ! j) \<subseteq> set ((?gs @ [?ks]) ! j)" if "j \<le> length gs" for j
    using that assms(2) by (auto simp: nth_append)
  ultimately show ?thesis by blast
qed

lemma filter_run_groups:
  assumes "length (data_bytes ri bs) < 2 ^ 64"
  shows "\<exists>gs ks. fb_repr create (filter_run ri create bs) gs ks \<and> length gs = length (data_bytes ri bs) div kFilterBase \<and>
    concat gs @ ks = map fst (concat bs) \<and>
    (\<forall>i < length bs. let g = length (data_bytes ri (take i bs)) div kFilterBase in
       g \<le> length gs \<and> fst ` set (bs ! i) \<subseteq> set ((gs @ [ks]) ! g))"
  using assms
proof (induction bs rule: rev_induct)
  case Nil
  have "start_loop create 0 FilterBlockBuilder_init = FilterBlockBuilder_init"
    by (subst start_loop.simps) simp
  then have "filter_run ri create [] = FilterBlockBuilder_init" by (simp add: filter_run_def start_block_def)
  then show ?case using fb_repr_init by (intro exI [of _ "[]"]) (simp add: data_bytes_def)
next
  case (snoc b bs)
  let ?off = "length (data_bytes ri bs)" and ?off' = "length (data_bytes ri (bs @ [b]))"
  have le: "?off \<le> ?off'" by (simp add: data_bytes_append)
  then obtain gs ks where g: "fb_repr create (filter_run ri create bs) gs ks" "length gs = ?off div kFilterBase"
    "concat gs @ ks = map fst (concat bs)"
    "\<forall>i < length bs. let g = length (data_bytes ri (take i bs)) div kFilterBase in g \<le> length gs \<and> fst ` set (bs ! i) \<subseteq> set ((gs @ [ks]) ! g)"
    using snoc by fastforce
  have len: "length gs \<le> ?off' div kFilterBase" unfolding g(2) by (rule div_le_mono [OF le])
  obtain gs' ks' where g': "fb_repr create (filter_run ri create (bs @ [b])) gs' ks'" "length gs' = ?off' div kFilterBase"
    "concat gs' @ ks' = concat gs @ ks @ map fst b"
    "\<forall>j \<le> length gs. j \<le> length gs' \<and> set ((gs @ [ks @ map fst b]) ! j) \<subseteq> set ((gs' @ [ks']) ! j)"
    using StartBlock_groups [OF foldl_AddKey [OF g(1)] len snoc.prems] unfolding filter_run_snoc by blast
  have "let g = length (data_bytes ri (take i (bs @ [b]))) div kFilterBase in
      g \<le> length gs' \<and> fst ` set ((bs @ [b]) ! i) \<subseteq> set ((gs' @ [ks']) ! g)" if i: "i < length (bs @ [b])" for i
  proof (cases "i = length bs")
    case True
    have "fst ` set b \<subseteq> set ((gs @ [ks @ map fst b]) ! length gs)" by auto
    then show ?thesis using g'(4) True g(2) by (auto simp: Let_def)
  next
    case False
    then have lt: "i < length bs" using i by simp
    let ?g = "length (data_bytes ri (take i bs)) div kFilterBase"
    have "?g \<le> length gs" "fst ` set (bs ! i) \<subseteq> set ((gs @ [ks]) ! ?g)" using g(4) lt by (auto simp: Let_def)
    moreover have "set ((gs @ [ks]) ! ?g) \<subseteq> set ((gs @ [ks @ map fst b]) ! ?g)" using calculation(1) by (auto simp: nth_append)
    moreover have "?g \<le> length gs'" "set ((gs @ [ks @ map fst b]) ! ?g) \<subseteq> set ((gs' @ [ks']) ! ?g)" using g'(4) calculation(1) by blast+
    ultimately show ?thesis using lt by (auto simp: Let_def nth_append)
  qed
  moreover have "concat gs' @ ks' = map fst (concat (bs @ [b]))" using g(3) g'(3) by simp
  ultimately show ?case using g'(1,2) by blast
qed

text \<open>What the reader asks of the policy for a block: the filter of a group that has its keys.\<close>

lemma filter_run_match:
  assumes size: "length (data_bytes ri bs) < 2 ^ 64" "length (fst (filter_finish create (filter_run ri create bs))) < 2 ^ 32"
    and i: "i < length bs" "bs ! i \<noteq> []"
  shows "\<exists>us ks vs. map fst (concat bs) = us @ ks @ vs \<and> fst ` set (bs ! i) \<subseteq> set ks \<and>
    (\<forall>mm k. FilterBlock_KeyMayMatch mm (FilterBlockReader_init (fst (filter_finish create (filter_run ri create bs))))
       (of_nat (length (data_bytes ri (take i bs)))) k = Some (mm k (create ks [])))"
proof -
  obtain gs ks where g: "fb_repr create (filter_run ri create bs) gs ks" "concat gs @ ks = map fst (concat bs)"
    "\<forall>i < length bs. let g = length (data_bytes ri (take i bs)) div kFilterBase in g \<le> length gs \<and> fst ` set (bs ! i) \<subseteq> set ((gs @ [ks]) ! g)"
    using filter_run_groups [OF size(1)] by blast
  let ?off = "length (data_bytes ri (take i bs))"
  let ?g = "?off div kFilterBase" and ?G = "final_groups gs ks"
  have gi: "?g \<le> length gs" "fst ` set (bs ! i) \<subseteq> set ((gs @ [ks]) ! ?g)" using g(3) i(1) by (auto simp: Let_def)
  then have "(gs @ [ks]) ! ?g \<noteq> []" using i(2) by auto
  then have G: "?g < length ?G" "?G ! ?g = (gs @ [ks]) ! ?g"
    using gi(1) by (auto simp: final_groups_def nth_append split: if_splits)
  let ?xss = "map (group_bytes create) ?G"
  have e: "fst (filter_finish create (filter_run ri create bs)) = filter_block_of ?xss" by (rule filter_finish_of [OF g(1)])
  have "length (concat ?xss) < 2 ^ 32" using size(2) unfolding e by (simp add: filter_block_of_def)
  moreover have "?off < 2 ^ 64" using data_offset_mono [of i "length bs" ri bs] size(1) i(1) by simp
  then have "?g = unat (of_nat ?off :: u64) div kFilterBase" by (simp add: unat_of_nat)
  ultimately have "FilterBlock_KeyMayMatch mm (FilterBlockReader_init (filter_block_of ?xss)) (of_nat ?off) k = Some (mm k (?xss ! ?g))" for mm k
    using FilterBlock_KeyMayMatch_of G(1) by (metis length_map)
  moreover have "?xss ! ?g = create (?G ! ?g) []" using G \<open>(gs @ [ks]) ! ?g \<noteq> []\<close> by (simp add: group_bytes_def)
  moreover have "map fst (concat bs) = concat (take ?g ?G) @ ?G ! ?g @ concat (drop (Suc ?g) ?G)"
  proof -
    have "concat ?G = map fst (concat bs)" using g(2) [symmetric] by (simp add: final_groups_def)
    moreover have "concat ?G = concat (take ?g ?G @ ?G ! ?g # drop (Suc ?g) ?G)" unfolding id_take_nth_drop [OF G(1), symmetric] ..
    ultimately show ?thesis by simp
  qed
  ultimately show ?thesis using gi(2) G(2) unfolding e by metis
qed

end

section \<open>The keys of the index\<close>

lemma blocks_split:
  assumes "i < length (blocks_of opt kvs)"
  shows "kvs = concat (take i (blocks_of opt kvs)) @ blocks_of opt kvs ! i @ concat (drop (Suc i) (blocks_of opt kvs))"
proof -
  let ?B = "blocks_of opt kvs"
  have "concat ?B = concat (take i ?B @ ?B ! i # drop (Suc i) ?B)" unfolding id_take_nth_drop [OF assms, symmetric] ..
  then show ?thesis by (simp add: blocks_of_concat)
qed

context table_opts
begin

abbreviation lt :: "slice \<Rightarrow> slice \<Rightarrow> bool" where "lt a b \<equiv> co_Compare (opt_comparator opt) a b < 0"

lemma good_split:
  assumes "good_kvs opt valid (xs @ ys @ zs)"
  shows "ascending (map fst ys)" "\<forall>k \<in> set (map fst ys). valid k" "kvs_small ys"
    "\<forall>a \<in> set ys. \<forall>b \<in> set zs. lt (fst a) (fst b)" "\<forall>a \<in> set xs. \<forall>b \<in> set ys. lt (fst a) (fst b)"
    "\<forall>b \<in> set zs. valid (fst b)" "ascending (map fst zs)"
  using assms unfolding good_kvs_def kvs_small_def set_append sorted_wrt_append sorted_wrt_map by auto

lemma good_block:
  assumes "good_kvs opt valid kvs" "i < length (blocks_of opt kvs)"
  shows "blocks_of opt kvs ! i \<noteq> []" "ascending (map fst (blocks_of opt kvs ! i))" "\<forall>k \<in> set (map fst (blocks_of opt kvs ! i)). valid k"
    and "kvs_small (blocks_of opt kvs ! i)"
    and "\<forall>a \<in> set (blocks_of opt kvs ! i). \<forall>b \<in> set (concat (drop (Suc i) (blocks_of opt kvs))). lt (fst a) (fst b)"
    and "\<forall>a \<in> set (concat (take i (blocks_of opt kvs))). \<forall>b \<in> set (blocks_of opt kvs ! i). lt (fst a) (fst b)"
    and "\<forall>b \<in> set (concat (drop (Suc i) (blocks_of opt kvs))). valid (fst b)"
    and "ascending (map fst (concat (drop (Suc i) (blocks_of opt kvs))))"
proof -
  let ?B = "blocks_of opt kvs"
  show "?B ! i \<noteq> []" using blocks_of_nonempty [of opt kvs] nth_mem [OF assms(2)] by metis
  have g: "good_kvs opt valid (concat (take i ?B) @ ?B ! i @ concat (drop (Suc i) ?B))"
    using assms(1) unfolding blocks_split [OF assms(2), symmetric] .
  note gs = good_split [OF g]
  show "ascending (map fst (?B ! i))" "\<forall>k \<in> set (map fst (?B ! i)). valid k" "kvs_small (?B ! i)"
    "\<forall>a \<in> set (?B ! i). \<forall>b \<in> set (concat (drop (Suc i) ?B)). lt (fst a) (fst b)"
    "\<forall>a \<in> set (concat (take i ?B)). \<forall>b \<in> set (?B ! i). lt (fst a) (fst b)"
    "\<forall>b \<in> set (concat (drop (Suc i) ?B)). valid (fst b)" "ascending (map fst (concat (drop (Suc i) ?B)))"
    by (rule gs)+
qed

lemma blocks_ordered:
  assumes "good_kvs opt valid kvs"
  shows "ascending (map fst (concat (blocks_of opt kvs)))" "\<forall>k \<in> set (map fst (concat (blocks_of opt kvs))). valid k"
  using assms unfolding blocks_of_concat by (simp_all add: good_kvs_def sorted_wrt_map)

text \<open>The index key of a block is between its keys and the keys of the later blocks.\<close>

lemma index_key_bounds:
  assumes good: "good_kvs opt valid kvs" and i: "i < length (blocks_of opt kvs)"
  defines "ik \<equiv> index_key (opt_comparator opt) (blocks_of opt kvs)"
  shows "valid (ik i)" "\<forall>e \<in> set (blocks_of opt kvs ! i). co_Compare (opt_comparator opt) (fst e) (ik i) \<le> 0"
    and "\<forall>e \<in> set (concat (drop (Suc i) (blocks_of opt kvs))). lt (ik i) (fst e)"
  using index_key_between [OF HOL.refl HOL.refl blocks_of_nonempty blocks_ordered [OF good] i] unfolding ik_def by blast+

lemma index_ascending:
  assumes good: "good_kvs opt valid kvs"
  shows "ascending (map fst (index_kvs opt (blocks_of opt kvs) (length (blocks_of opt kvs))))"
    and "\<forall>k \<in> set (map fst (index_kvs opt (blocks_of opt kvs) (length (blocks_of opt kvs)))). valid k"
proof -
  let ?B = "blocks_of opt kvs" and ?ik = "index_key (opt_comparator opt) (blocks_of opt kvs)"
  have keys: "map fst (index_kvs opt ?B (length ?B)) = map ?ik [0..<length ?B]" by (simp add: index_kvs_def)
  show "\<forall>k \<in> set (map fst (index_kvs opt ?B (length ?B))). valid k"
    unfolding keys using index_key_bounds(1) [OF good] by simp
  have "lt (?ik i) (?ik j)" if "i < j" "j < length ?B" for i j
    by (rule index_keys_ascend [OF HOL.refl HOL.refl blocks_of_nonempty blocks_ordered [OF good] that])
  then show "ascending (map fst (index_kvs opt ?B (length ?B)))" unfolding keys by (simp add: sorted_wrt_iff_nth_less)
qed

text \<open>A seek in a block that the builder made.\<close>

lemma block_iter_Seek:
  assumes "kvs_small es" "1 \<le> ri" "length (block_of ri es) < 2 ^ 32" "ascending (map fst es)" "\<forall>k \<in> set (map fst es). valid k" "valid k"
  shows "\<exists>ni. ni_Seek (co_Compare (opt_comparator opt)) k (Block_NewIterator (Block_init (block_of ri es))) = Some ni \<and>
    ni_status ni = OK \<and> (case dropWhile (\<lambda>e. lt (fst e) k) es of
       [] \<Rightarrow> \<not> ni_Valid ni | (x, v) # _ \<Rightarrow> ni_Valid ni \<and> ni_key ni = Some x \<and> ni_value ni = Some v)"
proof -
  obtain it it' where it: "Block_NewIterator (Block_init (block_of ri es)) = BlockIterator it"
    "Seek (co_Compare (opt_comparator opt)) k it = Some it'" "bi_status it' = OK"
    "case dropWhile (\<lambda>e. lt (fst e) k) es of [] \<Rightarrow> \<not> Valid it' | (x, v) # _ \<Rightarrow> Valid it' \<and> bi_key it' = x \<and> iter_value it' = Some v"
    using built_block_Seek [OF assms(1,2) block_of_def [symmetric] assms(3-6)] by blast
  show ?thesis
    by (rule exI [of _ "BlockIterator it'"])
      (use it in \<open>cases "dropWhile (\<lambda>e. lt (fst e) k) es"; auto simp: ni_Seek_def on_iter_def ni_status_def ni_Valid_def ni_key_def ni_value_def
        simp del: dropWhile_eq_Nil_conv\<close>)
qed

text \<open>The block whose index key is the first that is not below the target.\<close>

definition target_block :: "(slice \<times> slice) list list \<Rightarrow> slice \<Rightarrow> nat" where
  "target_block B k = length (takeWhile (\<lambda>i. lt (index_key (opt_comparator opt) B i) k) [0..<length B])"

lemma target_block_before: "i < target_block B k \<Longrightarrow> lt (index_key (opt_comparator opt) B i) k \<and> i < length B"
proof -
  let ?P = "\<lambda>i. lt (index_key (opt_comparator opt) B i) k"
  assume i: "i < target_block B k"
  then have "takeWhile ?P [0..<length B] ! i \<in> set (takeWhile ?P [0..<length B])" unfolding target_block_def by (rule nth_mem)
  moreover have "i < length B" using i length_takeWhile_le [of ?P "[0..<length B]"] by (simp add: target_block_def)
  moreover have "takeWhile ?P [0..<length B] ! i = [0..<length B] ! i" using i unfolding target_block_def by (rule takeWhile_nth)
  ultimately show ?thesis by (auto dest: set_takeWhileD)
qed

lemma target_block_at: "target_block B k < length B \<Longrightarrow> \<not> lt (index_key (opt_comparator opt) B (target_block B k)) k"
  using nth_length_takeWhile [of "\<lambda>i. lt (index_key (opt_comparator opt) B i) k" "[0..<length B]"] by (simp add: target_block_def)

lemma index_seek:
  assumes good: "good_kvs opt valid kvs" and k: "valid k"
  defines "B \<equiv> blocks_of opt kvs"
  shows "\<exists>ni. ni_Seek (co_Compare (opt_comparator opt)) k (Block_NewIterator (Block_init (index_block opt B))) = Some ni \<and> ni_status ni = OK \<and>
    (if target_block B k < length B
     then ni_Valid ni \<and> ni_value ni = Some (handle_bytes (block_handle (opt_block_restart_interval opt) B (target_block B k))) else \<not> ni_Valid ni)"
proof -
  let ?I = "index_kvs opt B (length B)" and ?P = "\<lambda>i. lt (index_key (opt_comparator opt) B i) k"
  have "length (table_bytes opt B) < 2 ^ 32" using good by (simp add: good_kvs_def table_file_blocks B_def)
  then have len: "length (block_of 1 ?I) < 2 ^ 32"
    by (simp add: table_bytes_def index_block_def [symmetric] length_stored_block)
  have dw: "dropWhile (\<lambda>e. lt (fst e) k) ?I = drop (target_block B k) ?I"
    unfolding dropWhile_eq_drop by (simp add: index_kvs_def takeWhile_map comp_def target_block_def)
  obtain ni where ni: "ni_Seek (co_Compare (opt_comparator opt)) k (Block_NewIterator (Block_init (block_of 1 ?I))) = Some ni" "ni_status ni = OK"
    "case drop (target_block B k) ?I of [] \<Rightarrow> \<not> ni_Valid ni | (x, v) # _ \<Rightarrow> ni_Valid ni \<and> ni_key ni = Some x \<and> ni_value ni = Some v"
    using block_iter_Seek [OF small_of_block [OF len] _ len index_ascending [OF good, folded B_def] k] unfolding dw by auto
  show ?thesis
  proof (cases "target_block B k < length B")
    case True
    then have "drop (target_block B k) ?I = ?I ! target_block B k # drop (Suc (target_block B k)) ?I"
      by (intro Cons_nth_drop_Suc [symmetric]) (simp add: index_kvs_def)
    then show ?thesis using ni True unfolding index_block_def by (simp add: index_kvs_def)
  next
    case False
    then have "drop (target_block B k) ?I = []" by (simp add: index_kvs_def)
    then show ?thesis using ni False unfolding index_block_def by simp
  qed
qed

end

section \<open>Opening a table\<close>

definition table_at :: "Options \<Rightarrow> (slice \<times> slice) list list \<Rightarrow> random_read \<Rightarrow> Table \<Rightarrow> bool" where
  "table_at opt B rd t \<longleftrightarrow> tbl_options t = opt \<and> tbl_file t = rd \<and> tbl_index_block t = Block_init (index_block opt B) \<and>
     tbl_metaindex_handle t = metaindex_handle (table_footer opt B) \<and>
     tbl_filter t = map_option (\<lambda>_. FilterBlockReader_init (filter_bytes opt B)) (opt_filter_policy opt)"

definition open_cache :: "block_cache \<Rightarrow> u64 \<times> block_cache" where
  "open_cache bc = (case bc of None \<Rightarrow> (0, None) | Some c \<Rightarrow> let (i, c) = Cache_NewId c in (i, Some c))"

context random_file
begin

lemma ReadFilter_on:
  assumes "contents = table_bytes opt B" "length contents < 2 ^ 32" "opt_filter_policy opt = Some p" "tbl_file t = rd"
  shows "Table_ReadFilter (handle_bytes (handle_at (data_bytes (opt_block_restart_interval opt) B) (filter_bytes opt B))) t =
    Some (t\<lparr>tbl_filter := Some (FilterBlockReader_init (filter_bytes opt B))\<rparr>)"
proof -
  let ?h = "handle_at (data_bytes (opt_block_restart_interval opt) B) (filter_bytes opt B)"
  have "contents = data_bytes (opt_block_restart_interval opt) B @ stored_block (filter_bytes opt B) kNoCompression @
      stored_block (meta_block opt B) kNoCompression @ stored_block (index_block opt B) kNoCompression @ footer_bytes (table_footer opt B)"
    using assms(1,3) by (simp add: table_bytes_def before_index_def before_meta_def stored_filter_def)
  from ReadBlock_stored [OF this, of "opt_paranoid_checks (tbl_options t)"] assms(2) obtain bl where
    "ReadBlock rd (opt_paranoid_checks (tbl_options t)) ?h = Some (OK, bl)" "bc_data bl = filter_bytes opt B" by auto
  then show ?thesis using BlockHandle_Decode [of ?h "[]" BlockHandle_init] assms(4) by (simp add: Table_ReadFilter_def)
qed

lemma ReadMeta_on:
  assumes con: "contents = table_bytes opt B" "length contents < 2 ^ 32" and ri: "1 \<le> opt_block_restart_interval opt"
    and t: "tbl_options t = opt" "tbl_file t = rd" "tbl_filter t = None"
  shows "Table_ReadMeta (table_footer opt B) t =
    Some (t\<lparr>tbl_filter := map_option (\<lambda>_. FilterBlockReader_init (filter_bytes opt B)) (opt_filter_policy opt)\<rparr>)"
proof (cases "opt_filter_policy opt")
  case None
  then show ?thesis using t by (simp add: Table_ReadMeta_def)
next
  case (Some p)
  let ?key = "str ''filter.'' @ fp_Name p" and ?ri = "opt_block_restart_interval opt"
  let ?v = "handle_bytes (handle_at (data_bytes ?ri B) (filter_bytes opt B))"
  have mk: "meta_kvs opt B = [(?key, ?v)]" by (simp add: meta_kvs_def Some)
  have at: "contents = before_meta opt B @ stored_block (meta_block opt B) kNoCompression @
      stored_block (index_block opt B) kNoCompression @ footer_bytes (table_footer opt B)"
    using con(1) by (simp add: table_bytes_def before_index_def)
  have len: "length (block_of ?ri [(?key, ?v)]) < 2 ^ 32"
    using con(2) unfolding at by (simp add: meta_block_def mk length_stored_block)
  obtain bl where bl: "ReadBlock rd (opt_paranoid_checks opt) (metaindex_handle (table_footer opt B)) = Some (OK, bl)"
    "bc_data bl = block_of ?ri [(?key, ?v)]"
    using ReadBlock_stored [OF at, of "opt_paranoid_checks opt"] con(2) by (auto simp: table_footer_def meta_block_def mk)
  have "\<not> Compare ?key ?key < 0" by (simp add: Compare_def slice_compare_lex)
  then obtain it it' where it: "Block_NewIterator (Block_init (block_of ?ri [(?key, ?v)])) = BlockIterator it"
    "Seek Compare ?key it = Some it'" "Valid it'" "bi_key it' = ?key" "iter_value it' = Some ?v"
    using bytewise_block.built_block_Seek [OF small_of_single [OF len] ri block_of_def [symmetric] len, of ?key] by auto
  then have "ni_Seek Compare ?key (Block_NewIterator (Block_init (block_of ?ri [(?key, ?v)]))) = Some (BlockIterator it')"
    by (simp add: ni_Seek_def on_iter_def)
  then show ?thesis
    using it(3-5) bl t ReadFilter_on [OF con Some t(2)] Some
    by (simp add: Table_ReadMeta_def ni_Valid_def ni_key_def ni_value_def)
qed

lemma Table_Open_on:
  assumes con: "contents = table_bytes opt B" "length contents < 2 ^ 32" and ri: "1 \<le> opt_block_restart_interval opt"
  shows "\<exists>t. Table_Open opt rd (of_nat (length contents)) bc = Some (OK, Some t, snd (open_cache bc)) \<and> table_at opt B rd t \<and>
    tbl_cache_id t = fst (open_cache bc)"
proof -
  let ?f = "table_footer opt B" and ?pre = "before_index opt B @ stored_block (index_block opt B) kNoCompression"
  have c: "contents = ?pre @ footer_bytes ?f" using con(1) by (simp add: table_bytes_def)
  have len: "length contents = length ?pre + kEncodedLength" unfolding c by (simp add: length_footer_bytes)
  have u: "unat (of_nat (length contents) :: u64) = length contents" "unat (of_nat kEncodedLength :: u64) = kEncodedLength"
    using con(2) by (simp_all add: unat_of_nat kEncodedLength_def kMaxEncodedLength_def)
  have off: "of_nat (length contents) - of_nat kEncodedLength = (of_nat (length ?pre) :: u64)" unfolding len by simp
  have "length ?pre < 2 ^ 32" using con(2) len by linarith
  then have "unat (of_nat (length ?pre) :: u64) = length ?pre" by (simp add: unat_of_nat del: length_append of_nat_add)
  then have "\<exists>scratch. rd (of_nat (length ?pre)) (of_nat kEncodedLength) =
      Some \<lparr>raf_status = OK, raf_data = footer_bytes ?f, raf_in_scratch = scratch\<rparr>"
    using read_within [of "of_nat (length ?pre)" "of_nat kEncodedLength"] con(2) len length_footer_bytes [of ?f] unfolding u(2)
    by (simp add: c)
  then obtain scratch where r: "rd (of_nat (length ?pre)) (of_nat kEncodedLength) =
      Some \<lparr>raf_status = OK, raf_data = footer_bytes ?f, raf_in_scratch = scratch\<rparr>" ..
  have f: "Footer_DecodeFrom (footer_bytes ?f) Footer_init = Some (OK, ?f, [])"
    using Footer_round_trip [of ?f "[]"] by simp
  have "contents = before_index opt B @ stored_block (index_block opt B) kNoCompression @ footer_bytes ?f"
    using c by simp
  from ReadBlock_stored [OF this, of "opt_paranoid_checks opt"] con(2) obtain bl where
    bl: "ReadBlock rd (opt_paranoid_checks opt) (index_handle ?f) = Some (OK, bl)" "bc_data bl = index_block opt B"
    by (auto simp: table_footer_def)
  obtain i c' where o: "open_cache bc = (i, c')" by (cases "open_cache bc")
  let ?t = "\<lparr>tbl_options = opt, tbl_file = rd, tbl_cache_id = i, tbl_filter = None,
    tbl_metaindex_handle = metaindex_handle ?f, tbl_index_block = Block_init (index_block opt B)\<rparr>"
  have m: "Table_ReadMeta ?f ?t = Some (?t\<lparr>tbl_filter := map_option (\<lambda>_. FilterBlockReader_init (filter_bytes opt B)) (opt_filter_policy opt)\<rparr>)"
    by (rule ReadMeta_on [OF con ri]) simp_all
  have "\<not> unat (of_nat (length contents) :: u64) < kEncodedLength" unfolding u(1) using len by linarith
  then show ?thesis
    unfolding Table_Open_def off open_cache_def [symmetric] o using r f bl m by (simp add: table_at_def del: of_nat_add length_append)
qed

end

section \<open>Reading a block through the cache\<close>

lemma cache_key_inj: "cache_key i a = cache_key j b \<Longrightarrow> i = j \<and> a = b"
proof -
  assume e: "cache_key i a = cache_key j b"
  have "DecodeFixed64 (cache_key i a) = DecodeFixed64 (cache_key j b)" "DecodeFixed64 (drop 8 (cache_key i a)) = DecodeFixed64 (drop 8 (cache_key j b))"
    unfolding e by simp_all
  then show ?thesis using DecodeFixed64_Encode [of a "[]"] DecodeFixed64_Encode [of b "[]"] by (simp add: cache_key_def DecodeFixed64_Encode)
qed

text \<open>
  What the cache, which many tables share, may hold: under a key with the identifier of a table, the block at the offset.
  \<open>owner\<close> are the tables by their identifier, all of them handed out up to \<open>l\<close>. There is room for \<open>m\<close> more entries
  in every shard, and \<open>refs\<close> are the references of the client.
\<close>

type_synonym owners = "u64 \<Rightarrow> (slice \<times> slice) list list option"

definition cached_block :: "Options \<Rightarrow> owners \<Rightarrow> slice \<Rightarrow> Block \<Rightarrow> bool" where
  "cached_block opt owner key blk \<longleftrightarrow> (\<forall>cid off. key = cache_key cid off \<longrightarrow>
     (\<exists>B i. owner cid = Some B \<and> i < length B \<and> off = bh_offset (block_handle (opt_block_restart_interval opt) B i) \<and>
        blk = Block_init (block_of (opt_block_restart_interval opt) (B ! i))))"

definition table_cache :: "Options \<Rightarrow> nat \<Rightarrow> owners \<Rightarrow> u64 \<Rightarrow> (cache_handle \<Rightarrow> nat) \<Rightarrow> block_cache \<Rightarrow> bool" where
  "table_cache opt m owner l refs bc \<longleftrightarrow> (case bc of None \<Rightarrow> True
     | Some c \<Rightarrow> cache_inv m c refs \<and> few_refs refs \<and> (\<forall>k v. cache_content c k v \<longrightarrow> cached_block opt owner k v) \<and> sc_last_id c = l)"

lemma table_cache_less: "table_cache opt (Suc m) owner l refs bc \<Longrightarrow> table_cache opt m owner l refs bc"
  by (auto simp: table_cache_def intro: cache_inv_less split: option.splits)

text \<open>A table in the cache is known under its identifier.\<close>

definition owned :: "owners \<Rightarrow> u64 \<Rightarrow> (slice \<times> slice) list list \<Rightarrow> block_cache \<Rightarrow> bool" where
  "owned owner cid B bc \<longleftrightarrow> (bc \<noteq> None \<longrightarrow> owner cid = Some B)"

lemma cache_last_id:
  "Cache_Lookup k c = Some (r, c') \<Longrightarrow> sc_last_id c' = sc_last_id c"
  "Cache_Insert k v n c = Some (h, c') \<Longrightarrow> sc_last_id c' = sc_last_id c"
  "Cache_Release h c = Some c' \<Longrightarrow> sc_last_id c' = sc_last_id c"
  by (auto simp: Cache_Lookup_def Cache_Insert_def Cache_Release_def on_shard_def Let_def split: Option.bind_splits)

text \<open>The identifier of a table that is opened is a new one.\<close>

lemma open_cache_on:
  assumes "table_cache opt m owner l refs bc"
  shows "owner (l + 1) = None \<Longrightarrow> table_cache opt m (owner(l + 1 \<mapsto> B)) (l + 1) refs (snd (open_cache bc))"
    and "bc \<noteq> None \<Longrightarrow> fst (open_cache bc) = l + 1" and "snd (open_cache bc) = None \<longleftrightarrow> bc = None"
proof -
  show "fst (open_cache bc) = l + 1" if "bc \<noteq> None"
    using assms that by (auto simp: open_cache_def table_cache_def Cache_NewId_def Let_def)
  show "snd (open_cache bc) = None \<longleftrightarrow> bc = None" by (auto simp: open_cache_def Let_def split: option.splits prod.splits)
  assume new: "owner (l + 1) = None"
  show "table_cache opt m (owner(l + 1 \<mapsto> B)) (l + 1) refs (snd (open_cache bc))"
  proof (cases bc)
    case (Some c)
    have "cached_block opt (owner(l + 1 \<mapsto> B)) k v" if "cached_block opt owner k v" for k v
      using that new unfolding cached_block_def by (metis fun_upd_other option.distinct(1))
    moreover have "cache_inv m (c\<lparr>sc_last_id := i\<rparr>) refs = cache_inv m c refs" "cache_content (c\<lparr>sc_last_id := i\<rparr>) = cache_content c" for i
      by (simp_all add: cache_inv_def cache_room_def cache_content_def fun_eq_iff)
    ultimately show ?thesis using assms by (auto simp: Some table_cache_def open_cache_def Cache_NewId_def Let_def)
  qed (simp add: table_cache_def open_cache_def)
qed

lemma table_cache_init:
  "0 < (cap + 15) div 16 \<Longrightarrow> m \<le> max_entries \<Longrightarrow>
   table_cache opt m (\<lambda>_. None) 0 (\<lambda>_. 0) (Some (ShardedLRUCache_init cap))"
  by (simp add: table_cache_def ShardedLRUCache_init_inv few_refs_def max_refs_def) (simp add: ShardedLRUCache_init_def Let_def)

lemma cached_block_at:
  assumes "cached_block opt owner (cache_key cid (bh_offset (block_handle (opt_block_restart_interval opt) B i))) blk"
    "owner cid = Some B" "i < length B" "length (table_bytes opt B) < 2 ^ 32"
  shows "blk = Block_init (block_of (opt_block_restart_interval opt) (B ! i))"
proof -
  let ?ri = "opt_block_restart_interval opt"
  obtain j where j: "j < length B" "bh_offset (block_handle ?ri B i) = bh_offset (block_handle ?ri B j)"
    "blk = Block_init (block_of ?ri (B ! j))"
    using assms(1,2) unfolding cached_block_def by (metis option.inject)
  have u: "unat (bh_offset (block_handle ?ri B n)) = length (data_bytes ?ri (take n B))" for n
    using data_offset_le [of opt n B] assms(4) by (simp add: block_handle_def handle_at_def unat_of_nat)
  have "length (data_bytes ?ri (take i B)) = length (data_bytes ?ri (take j B))"
    using j(2) u [of i] u [of j] by simp
  then show ?thesis using data_offset_inj [OF assms(3) j(1)] j(3) by blast
qed

lemma cached_block_intro:
  "i < length B \<Longrightarrow> owner cid = Some B \<Longrightarrow> cached_block opt owner (cache_key cid (bh_offset (block_handle (opt_block_restart_interval opt) B i)))
     (Block_init (block_of (opt_block_restart_interval opt) (B ! i)))"
  using cache_key_inj unfolding cached_block_def by blast

context random_file
begin

lemma ReadBlock_data:
  assumes "contents = table_bytes opt B" "length contents < 2 ^ 32" "i < length B"
  shows "\<exists>bl. ReadBlock rd vc (block_handle (opt_block_restart_interval opt) B i) = Some (OK, bl) \<and>
    bc_data bl = block_of (opt_block_restart_interval opt) (B ! i)"
proof -
  obtain post where "contents = data_bytes (opt_block_restart_interval opt) (take i B) @
      stored_block (block_of (opt_block_restart_interval opt) (B ! i)) kNoCompression @ post"
    using data_block_at [OF assms(3), of opt] assms(1) by blast
  from ReadBlock_stored [OF this, of vc] assms(2) show ?thesis unfolding block_handle_def by simp
qed

text \<open>The reader returns an iterator over the block, from the cache or from the file; releasing its handle restores the counts.\<close>

lemma BlockReader_on:
  assumes con: "contents = table_bytes opt B" "length contents < 2 ^ 32" and i: "i < length B"
    and t: "table_at opt B rd t" and bc: "table_cache opt (Suc m) owner l refs bc" "owned owner (tbl_cache_id t) B bc"
  defines "ri \<equiv> opt_block_restart_interval opt"
  shows "\<exists>h bc1 bc2. BlockReader t ro (handle_bytes (block_handle ri B i)) bc =
      Some ((Block_NewIterator (Block_init (block_of ri (B ! i))), h), bc1) \<and>
    ReleaseBlock h bc1 = Some bc2 \<and> table_cache opt m owner l refs bc2 \<and> (bc2 = None \<longleftrightarrow> bc = None)"
proof -
  let ?h = "block_handle ri B i" and ?blk = "Block_init (block_of ri (B ! i))"
  let ?key = "cache_key (tbl_cache_id t) (bh_offset ?h)"
  have dec: "BlockHandle_DecodeFrom (handle_bytes ?h) BlockHandle_init = (OK, ?h, [])"
    using BlockHandle_Decode [of ?h "[]" BlockHandle_init] by simp
  have tf: "tbl_file t = rd" using t by (simp add: table_at_def)
  obtain bl where bl: "ReadBlock rd (ro_verify_checksums ro) ?h = Some (OK, bl)" "bc_data bl = block_of ri (B ! i)"
    using ReadBlock_data [OF con i] unfolding ri_def by blast
  show ?thesis
  proof (cases bc)
    case None
    then show ?thesis using dec tf bl by (simp add: BlockReader_def ReleaseBlock_def table_cache_def)
  next
    case (Some c)
    let ?P = "cached_block opt owner"
    have inv: "cache_inv (Suc m) c refs" "few_refs refs" "\<forall>k v. cache_content c k v \<longrightarrow> ?P k v"
      using bc(1) by (simp_all add: table_cache_def Some)
    have l: "sc_last_id c = l" and own: "owner (tbl_cache_id t) = Some B" using bc by (simp_all add: table_cache_def owned_def Some)
    obtain r c1 where r: "Cache_Lookup ?key c = Some (r, c1)" "cache_content c1 = cache_content c" "r = None \<Longrightarrow> cache_inv (Suc m) c1 refs"
      using lru.lookup_law [OF inv(1,2), of ?key] by (cases "fst (the (Cache_Lookup ?key c))") auto
    show ?thesis
    proof (cases r)
      case (Some h)
      have lk: "Cache_Lookup ?key c = Some (Some h, c1)" using r(1) Some by simp
      note found = lru.lookup_sound [OF inv lk]
      obtain v where v: "Cache_Value h c1 = Some v" "?P ?key v" using found(1) by blast
      have "v = ?blk" by (rule cached_block_at [where owner = owner and cid = "tbl_cache_id t" and B = B and i = i and opt = opt, folded ri_def])
        (use v(2) own i con in simp_all)
      moreover obtain c2 where c2: "Cache_Release h c1 = Some c2" "cache_inv (Suc m) c2 refs" "cache_content c2 = cache_content c1"
        using lru.release_law [OF found(2), of h] by auto
      ultimately show ?thesis
        using dec lk v(1) found(3) l inv(2) cache_inv_less [OF c2(2)] c2(1,3) cache_last_id(1) [OF lk] cache_last_id(3) [OF c2(1)] \<open>bc = Some c\<close> by (simp add: BlockReader_def ReleaseBlock_def table_cache_def)
    next
      case None
      have inv1: "cache_inv (Suc m) c1 refs" "\<forall>k v. cache_content c1 k v \<longrightarrow> ?P k v" using r(2,3) None inv(3) by simp_all
      show ?thesis
      proof (cases "bc_cachable bl \<and> ro_fill_cache ro")
        case False
        then show ?thesis using dec tf bl r(1) None cache_inv_less [OF inv1(1)] inv1(2) inv(2) l cache_last_id(1) [OF r(1)] \<open>bc = Some c\<close>
          by (auto simp: BlockReader_def ReleaseBlock_def table_cache_def)
      next
        case True
        have "?P ?key ?blk" unfolding ri_def by (rule cached_block_intro) (use i own in simp_all)
        from lru.insert_sound [OF inv1 this, of "of_nat (blk_size ?blk)"] obtain h c2 where
          h: "Cache_Insert ?key ?blk (of_nat (blk_size ?blk)) c1 = Some (h, c2)" "cache_inv m c2 (refs(h := 1))"
          "\<forall>k v. cache_content c2 k v \<longrightarrow> ?P k v" by blast
        have "refs h = 0" using lru.insert_law [OF inv1(1), of ?key ?blk "of_nat (blk_size ?blk)"] h(1) by auto
        then obtain c3 where c3: "Cache_Release h c2 = Some c3" "cache_inv m c3 refs" "cache_content c3 = cache_content c2"
          using lru.release_law [OF h(2), of h] by (auto simp: fun_upd_idem)
        then show ?thesis using dec tf bl r(1) None True h l inv(2) cache_last_id(1) [OF r(1)] cache_last_id(2) [OF h(1)] cache_last_id(3) [OF c3(1)] \<open>bc = Some c\<close>
          by (simp add: BlockReader_def ReleaseBlock_def table_cache_def)
      qed
    qed
  qed
qed

end

section \<open>A lookup in the table\<close>

context table_opts
begin

text \<open>The entries that are not below the target start in its block, or are all of the later ones.\<close>

lemma entries_from:
  assumes good: "good_kvs opt valid kvs" and k: "valid k" and i: "target_block (blocks_of opt kvs) k < length (blocks_of opt kvs)"
  shows "dropWhile (\<lambda>e. lt (fst e) k) kvs = dropWhile (\<lambda>e. lt (fst e) k) (blocks_of opt kvs ! target_block (blocks_of opt kvs) k) @
      concat (drop (Suc (target_block (blocks_of opt kvs) k)) (blocks_of opt kvs))"
proof -
  let ?B = "blocks_of opt kvs" and ?P = "\<lambda>e. lt (fst e) k" and ?ik = "index_key (opt_comparator opt) (blocks_of opt kvs)"
  define n where "n = target_block ?B k"
  have n: "n < length ?B" using i n_def by simp
  have "\<not> lt (?ik n) k" using target_block_at i unfolding n_def by blast
  then have ge: "co_Compare (opt_comparator opt) k (?ik n) \<le> 0" using not_less [OF index_key_bounds(1) [OF good n] k] by blast
  have below: "?P e" if e: "e \<in> set (concat (take n ?B))" for e
  proof -
    obtain j where j: "j < n" "e \<in> set (?B ! j)" using in_concat_nth [OF e] n by auto
    then have lj: "lt (?ik j) k" "j < length ?B" using target_block_before [of j ?B k] unfolding n_def by blast+
    have "valid (fst e)" using good_block(3) [OF good lj(2)] j(2) by simp
    then show ?thesis using le_less_trans [OF _ index_key_bounds(1) [OF good lj(2)] k _ lj(1)] index_key_bounds(2) [OF good lj(2)] j(2) by blast
  qed
  have above: "\<not> ?P e" if e: "e \<in> set (concat (drop (Suc n) ?B))" for e
  proof -
    have v: "valid (fst e)" using good_block(7) [OF good n] e by blast
    have "lt k (fst e)" using le_less_trans [OF k index_key_bounds(1) [OF good n] v ge] index_key_bounds(3) [OF good n] e by blast
    then show ?thesis using less_asym [OF k v] by blast
  qed
  have "dropWhile ?P kvs = dropWhile ?P (concat (take n ?B) @ ?B ! n @ concat (drop (Suc n) ?B))"
    using blocks_split [OF n] by simp
  also have "\<dots> = dropWhile ?P (?B ! n @ concat (drop (Suc n) ?B))" by (rule dropWhile_append2) (rule below)
  also have "\<dots> = dropWhile ?P (?B ! n) @ concat (drop (Suc n) ?B)"
  proof (cases "\<forall>e \<in> set (?B ! n). ?P e")
    case True
    then have "dropWhile ?P (?B ! n @ concat (drop (Suc n) ?B)) = dropWhile ?P (concat (drop (Suc n) ?B))" "dropWhile ?P (?B ! n) = []"
      by (simp_all add: dropWhile_append2)
    moreover have "dropWhile ?P (concat (drop (Suc n) ?B)) = concat (drop (Suc n) ?B)"
      using above by (cases "concat (drop (Suc n) ?B)") (auto simp del: set_concat concat_eq_Nil_conv)
    ultimately show ?thesis by simp
  next
    case False
    then show ?thesis by (auto intro: dropWhile_append1)
  qed
  finally show ?thesis unfolding n_def .
qed

lemma entries_none:
  assumes good: "good_kvs opt valid kvs" and k: "valid k" and i: "\<not> target_block (blocks_of opt kvs) k < length (blocks_of opt kvs)"
  shows "dropWhile (\<lambda>e. lt (fst e) k) kvs = []"
proof -
  let ?B = "blocks_of opt kvs"
  have "lt (fst e) k" if e: "e \<in> set (concat ?B)" for e
  proof -
    obtain j where j: "j < length ?B" "e \<in> set (?B ! j)" using in_concat_nth [OF e] by blast
    then have lj: "lt (index_key (opt_comparator opt) ?B j) k" using target_block_before [of j ?B k] i by simp
    have "valid (fst e)" using good_block(3) [OF good j(1)] j(2) by simp
    then show ?thesis using le_less_trans [OF _ index_key_bounds(1) [OF good j(1)] k _ lj] index_key_bounds(2) [OF good j(1)] j(2) by blast
  qed
  then show ?thesis unfolding blocks_of_concat by simp
qed

text \<open>Between the last key of a block and its index key there is no match with the next key.\<close>

lemma no_match_behind:
  assumes good: "good_kvs opt valid kvs" and k: "valid k" and i: "target_block (blocks_of opt kvs) k < length (blocks_of opt kvs)"
    and behind: "dropWhile (\<lambda>e. lt (fst e) k) (blocks_of opt kvs ! target_block (blocks_of opt kvs) k) = []"
    and e: "dropWhile (\<lambda>e. lt (fst e) k) kvs = e # es"
  shows "\<not> same k (fst e)"
proof -
  let ?B = "blocks_of opt kvs"
  define n where "n = target_block ?B k"
  have n: "n < length ?B" using i n_def by simp
  have rest: "concat (drop (Suc n) ?B) = e # es" using entries_from [OF good k i] behind e unfolding n_def by simp
  have Sn: "Suc n < length ?B"
  proof (rule ccontr)
    assume "\<not> Suc n < length ?B"
    then have "drop (Suc n) ?B = []" by simp
    with rest show False by simp
  qed
  have ne: "?B ! n \<noteq> []" "?B ! Suc n \<noteq> []" using good_block(1) [OF good] n Sn by blast+
  have hd: "hd (?B ! Suc n) = e"
    using rest ne(2) Sn by (cases "?B ! Suc n") (simp_all add: Cons_nth_drop_Suc [symmetric])
  let ?l = "last (?B ! n)"
  have l: "?l \<in> set (?B ! n)" "e \<in> set (concat (drop (Suc n) ?B))" using ne(1) rest by simp_all
  have v: "valid (fst ?l)" "valid (fst e)" "lt (fst ?l) (fst e)"
    using good_block(3) [OF good n] l(1)
      good_block(7) [OF good n, THEN bspec, OF l(2)] good_block(5) [OF good n, THEN bspec, OF l(1), THEN bspec, OF l(2)] by simp_all
  have "lt (fst ?l) k" using behind l(1) unfolding n_def by (simp add: dropWhile_eq_Nil_conv)
  moreover have "\<not> lt (index_key (opt_comparator opt) ?B n) k" using target_block_at i unfolding n_def by blast
  then have "co_Compare (opt_comparator opt) k (index_key (opt_comparator opt) ?B n) \<le> 0"
    using not_less [OF index_key_bounds(1) [OF good n] k] by blast
  ultimately show ?thesis
    using same_separated [OF v(1,2) k v(3)] Sn by (simp add: index_key_def hd Let_def)
qed

text \<open>If the filter rejects a target, no key of the block matches it.\<close>

lemma filter_on:
  assumes len: "length (table_bytes opt B) < 2 ^ 32" and t: "table_at opt B rd t" and i: "i < length B" "B ! i \<noteq> []"
    and keys: "fok (map fst (concat B))"
  shows "\<exists>b. filter_may_match t (handle_bytes (block_handle (opt_block_restart_interval opt) B i)) k = Some b \<and>
    (\<not> b \<longrightarrow> (\<forall>e \<in> set (B ! i). \<not> same k (fst e)))"
proof (cases "opt_filter_policy opt")
  case None
  then show ?thesis using t by (intro exI [of _ True]) (simp add: filter_may_match_def table_at_def)
next
  case (Some p)
  let ?ri = "opt_block_restart_interval opt" and ?create = "fp_CreateFilter p"
  let ?h = "block_handle ?ri B i"
  have fp: "filter_policy ?create (fp_KeyMayMatch p) (\<lambda>_. False)" by unfold_locales (rule filter_appends [OF Some], simp)
  have fb: "filter_bytes opt B = fst (filter_finish ?create (filter_run ?ri ?create B))" by (simp add: filter_bytes_def Some)
  have "length (data_bytes ?ri B) < 2 ^ 64" "length (filter_bytes opt B) < 2 ^ 32"
    using len Some by (simp_all add: table_bytes_def before_index_def before_meta_def stored_filter_def length_stored_block)
  from filter_policy.filter_run_match [OF fp this(1) _ i] this(2) fb obtain us ks vs where ks:
    "map fst (concat B) = us @ ks @ vs" "fst ` set (B ! i) \<subseteq> set ks"
    "FilterBlock_KeyMayMatch (fp_KeyMayMatch p) (FilterBlockReader_init (filter_bytes opt B)) (of_nat (length (data_bytes ?ri (take i B)))) k =
       Some (fp_KeyMayMatch p k (?create ks []))" by metis
  have "BlockHandle_DecodeFrom (handle_bytes ?h) BlockHandle_init = (OK, ?h, [])"
    using BlockHandle_Decode [of ?h "[]" BlockHandle_init] by simp
  then have "filter_may_match t (handle_bytes ?h) k = Some (fp_KeyMayMatch p k (?create ks []))"
    using t ks(3) by (simp add: filter_may_match_def table_at_def Some block_handle_def handle_at_def)
  moreover have "fok ks" using keys unfolding ks(1) by (rule fok_part)
  then have "\<not> same k (fst e)" if "\<not> fp_KeyMayMatch p k (?create ks [])" "e \<in> set (B ! i)" for e
    using filter_match [OF Some] that ks(2) by (meson image_subset_iff)
  ultimately show ?thesis by blast
qed

text \<open>
  The contract of \<open>InternalGet\<close>: it hands over nothing or the first entry that is not below the target, and that entry if
  its key matches.
\<close>

definition get_result :: "slice \<Rightarrow> (slice \<times> slice) list \<Rightarrow> (slice \<times> slice) option \<Rightarrow> bool" where
  "get_result k es found \<longleftrightarrow> (case es of [] \<Rightarrow> found = None
     | e # _ \<Rightarrow> (found = None \<or> found = Some e) \<and> (same k (fst e) \<longrightarrow> found = Some e))"

lemma get_nothing:
  assumes good: "good_kvs opt valid kvs" and k: "valid k" and i: "target_block (blocks_of opt kvs) k < length (blocks_of opt kvs)"
    and no: "dropWhile (\<lambda>e. lt (fst e) k) (blocks_of opt kvs ! target_block (blocks_of opt kvs) k) = [] \<or>
      (\<forall>e \<in> set (blocks_of opt kvs ! target_block (blocks_of opt kvs) k). \<not> same k (fst e))"
  shows "get_result k (dropWhile (\<lambda>e. lt (fst e) k) kvs) None"
proof (cases "dropWhile (\<lambda>e. lt (fst e) k) kvs")
  case Nil
  then show ?thesis by (simp add: get_result_def del: dropWhile_eq_Nil_conv)
next
  case (Cons e es)
  let ?dw = "dropWhile (\<lambda>e. lt (fst e) k) (blocks_of opt kvs ! target_block (blocks_of opt kvs) k)"
  have "\<not> same k (fst e)"
  proof (cases ?dw)
    case Nil
    then show ?thesis by (rule no_match_behind [OF good k i _ Cons])
  next
    case (Cons a as)
    then have "a = e" using entries_from [OF good k i] \<open>dropWhile _ kvs = e # es\<close> by simp
    then have "e \<in> set ?dw" using Cons by simp
    then have "e \<in> set (blocks_of opt kvs ! target_block (blocks_of opt kvs) k)" by (rule set_dropWhileD)
    then show ?thesis using no Cons by simp
  qed
  then show ?thesis by (simp add: get_result_def Cons)
qed

lemma data_block_small:
  assumes "length (table_bytes opt B) < 2 ^ 32" "i < length B"
  shows "length (block_of (opt_block_restart_interval opt) (B ! i)) < 2 ^ 32"
proof -
  obtain post where "table_bytes opt B = data_bytes (opt_block_restart_interval opt) (take i B) @
      stored_block (block_of (opt_block_restart_interval opt) (B ! i)) kNoCompression @ post" using data_block_at [OF assms(2)] by blast
  then show ?thesis using assms(1) by (simp add: length_stored_block)
qed

lemma InternalGet_on:
  assumes rf: "random_file rd (table_file opt kvs)" and t: "table_at opt (blocks_of opt kvs) rd t"
    and good: "good_kvs opt valid kvs" and keys: "fok (map fst kvs)" and k: "valid k"
    and bc: "table_cache opt (Suc m) owner l refs bc" "owned owner (tbl_cache_id t) (blocks_of opt kvs) bc"
  shows "\<exists>found bc'. InternalGet t ro k bc = Some (OK, found, bc') \<and> get_result k (dropWhile (\<lambda>e. lt (fst e) k) kvs) found \<and>
    table_cache opt m owner l refs bc' \<and> (bc' = None \<longleftrightarrow> bc = None)"
proof -
  let ?C = "co_Compare (opt_comparator opt)" and ?ri = "opt_block_restart_interval opt"
  define B n where "B = blocks_of opt kvs" and "n = target_block (blocks_of opt kvs) k"
  note good' = good [unfolded good_kvs_def table_file_blocks, folded B_def]
  have cmp: "opt_comparator (tbl_options t) = opt_comparator opt" "tbl_index_block t = Block_init (index_block opt B)"
    using t unfolding table_at_def B_def by simp_all
  obtain ni where ni: "ni_Seek ?C k (Block_NewIterator (Block_init (index_block opt B))) = Some ni" "ni_status ni = OK"
    "if n < length B then ni_Valid ni \<and> ni_value ni = Some (handle_bytes (block_handle ?ri B n)) else \<not> ni_Valid ni"
    using index_seek [OF good k] unfolding B_def n_def by blast
  show ?thesis
  proof (cases "n < length B")
    case False
    then have dw: "dropWhile (\<lambda>e. lt (fst e) k) kvs = []" unfolding B_def n_def by (rule entries_none [OF good k])
    have "get_result k (dropWhile (\<lambda>e. lt (fst e) k) kvs) None" unfolding get_result_def dw by simp
    then show ?thesis using table_cache_less [OF bc(1)] ni False by (simp add: InternalGet_def cmp)
  next
    case True
    then have nB: "target_block (blocks_of opt kvs) k < length (blocks_of opt kvs)" unfolding B_def n_def .
    have ne: "B ! n \<noteq> []" "fok (map fst (concat B))"
      using good_block(1) [OF good nB] keys unfolding B_def n_def blocks_of_concat by blast+
    obtain b where b: "filter_may_match t (handle_bytes (block_handle ?ri B n)) k = Some b"
      "\<not> b \<Longrightarrow> \<forall>e \<in> set (B ! n). \<not> same k (fst e)"
      using filter_on [OF _ t [folded B_def] True ne, of k] good' by blast
    show ?thesis
    proof (cases b)
      case False
      have "get_result k (dropWhile (\<lambda>e. lt (fst e) k) kvs) None"
        by (rule get_nothing [OF good k nB]) (use b(2) [OF False] in \<open>simp add: B_def n_def\<close>)
      then show ?thesis using table_cache_less [OF bc(1)] ni True b(1) False by (simp add: InternalGet_def cmp)
    next
      case may: True
      have con: "table_file opt kvs = table_bytes opt B" "length (table_file opt kvs) < 2 ^ 32"
        using good by (simp_all add: table_file_blocks B_def good_kvs_def)
      obtain h bc1 bc2 where rd: "BlockReader t ro (handle_bytes (block_handle ?ri B n)) bc =
          Some ((Block_NewIterator (Block_init (block_of ?ri (B ! n))), h), bc1)"
        "ReleaseBlock h bc1 = Some bc2" "table_cache opt m owner l refs bc2" "bc2 = None \<longleftrightarrow> bc = None"
        using random_file.BlockReader_on [OF rf con True t [folded B_def] bc(1) bc(2) [folded B_def]] by blast
      note gb = good_block [OF good nB, folded B_def n_def]
      obtain bi where bi: "ni_Seek ?C k (Block_NewIterator (Block_init (block_of ?ri (B ! n)))) = Some bi" "ni_status bi = OK"
        "case dropWhile (\<lambda>e. lt (fst e) k) (B ! n) of [] \<Rightarrow> \<not> ni_Valid bi
         | (x, v) # _ \<Rightarrow> ni_Valid bi \<and> ni_key bi = Some x \<and> ni_value bi = Some v"
        using block_iter_Seek [OF gb(4) restart_interval data_block_small [OF con(2) [unfolded con(1)] True] gb(2,3) k] by blast
      show ?thesis
      proof (cases "dropWhile (\<lambda>e. lt (fst e) k) (B ! n)")
        case Nil
        then have "get_result k (dropWhile (\<lambda>e. lt (fst e) k) kvs) None"
          by (intro get_nothing [OF good k nB]) (simp add: B_def n_def)
        moreover have "\<not> ni_Valid bi" using bi(3) unfolding Nil by simp
        ultimately show ?thesis using ni True b(1) may rd bi(1,2) by (simp add: InternalGet_def cmp B_def)
      next
        case (Cons a as)
        then have "dropWhile (\<lambda>e. lt (fst e) k) kvs = a # as @ concat (drop (Suc n) B)"
          using entries_from [OF good k nB] unfolding B_def n_def by simp
        then have "get_result k (dropWhile (\<lambda>e. lt (fst e) k) kvs) (Some a)" by (simp add: get_result_def)
        moreover have "ni_Valid bi" "ni_key bi = Some (fst a)" "ni_value bi = Some (snd a)" using bi(3) unfolding Cons by (auto split: prod.splits)
        ultimately show ?thesis using ni True b(1) may rd bi(1,2) by (simp add: InternalGet_def cmp B_def)
      qed
    qed
  qed
qed

text \<open>The offset of a key is that of its block, or that of the metaindex block behind all of them.\<close>

lemma ApproximateOffsetOf_on:
  assumes t: "table_at opt (blocks_of opt kvs) rd t" and good: "good_kvs opt valid kvs" and k: "valid k"
  shows "ApproximateOffsetOf t k = Some (of_nat (let B = blocks_of opt kvs in
    if target_block B k < length B then length (data_bytes (opt_block_restart_interval opt) (take (target_block B k) B))
    else length (before_meta opt B)))"
proof -
  define B n where "B = blocks_of opt kvs" and "n = target_block (blocks_of opt kvs) k"
  let ?h = "block_handle (opt_block_restart_interval opt) B n"
  obtain ni where ni: "ni_Seek (co_Compare (opt_comparator opt)) k (Block_NewIterator (Block_init (index_block opt B))) = Some ni"
    "if n < length B then ni_Valid ni \<and> ni_value ni = Some (handle_bytes ?h) else \<not> ni_Valid ni"
    using index_seek [OF good k] unfolding B_def n_def by blast
  have dec: "BlockHandle_DecodeFrom (handle_bytes ?h) BlockHandle_init = (OK, ?h, [])"
    using BlockHandle_Decode [of ?h "[]" BlockHandle_init] by simp
  have cmp: "opt_comparator (tbl_options t) = opt_comparator opt" "tbl_index_block t = Block_init (index_block opt B)"
    "bh_offset (tbl_metaindex_handle t) = of_nat (length (before_meta opt B))"
    using t unfolding table_at_def B_def by (simp_all add: table_footer_def handle_at_def)
  have nB: "target_block B k = n" by (simp add: n_def B_def)
  show ?thesis unfolding Let_def B_def [symmetric] nB
    using ni dec by (cases "n < length B") (simp_all add: ApproximateOffsetOf_def cmp, simp add: block_handle_def handle_at_def)
qed

end

text \<open>Opening a file that holds a table, and any number of lookups.\<close>

context table_opts
begin

lemma open_and_get:
  assumes rf: "random_file rd (table_file opt kvs)" and kvs: "good_kvs opt valid kvs" "fok (map fst kvs)" and k: "valid k"
    and cached: "table_cache opt m owner l refs bc" "owner (l + 1) = None"
  defines "owner1 \<equiv> owner(l + 1 \<mapsto> blocks_of opt kvs)"
  shows "\<exists>t. Table_Open opt rd (of_nat (length (table_file opt kvs))) bc = Some (OK, Some t, snd (open_cache bc)) \<and>
    table_cache opt m owner1 (l + 1) refs (snd (open_cache bc)) \<and>
    (\<forall>m1 bc1. table_cache opt (Suc m1) owner1 (l + 1) refs bc1 \<longrightarrow> (bc1 = None \<longleftrightarrow> bc = None) \<longrightarrow> (\<exists>found bc2.
       InternalGet t ro k bc1 = Some (OK, found, bc2) \<and> table_cache opt m1 owner1 (l + 1) refs bc2 \<and> (bc2 = None \<longleftrightarrow> bc = None) \<and>
       (case dropWhile (\<lambda>e. co_Compare (opt_comparator opt) (fst e) k < 0) kvs of
          [] \<Rightarrow> found = None
        | e # _ \<Rightarrow> (found = None \<or> found = Some e) \<and> (same k (fst e) \<longrightarrow> found = Some e))))"
proof -
  have len: "length (table_file opt kvs) < 2 ^ 32" using kvs(1) by (simp add: good_kvs_def)
  obtain t where t: "Table_Open opt rd (of_nat (length (table_file opt kvs))) bc = Some (OK, Some t, snd (open_cache bc))"
    "table_at opt (blocks_of opt kvs) rd t" "tbl_cache_id t = fst (open_cache bc)"
    using random_file.Table_Open_on [OF rf table_file_blocks len restart_interval] by blast
  have own: "owned owner1 (tbl_cache_id t) (blocks_of opt kvs) bc1" if "bc1 = None \<longleftrightarrow> bc = None" for bc1
    using that t(3) open_cache_on(2) [OF cached(1)] by (simp add: owned_def owner1_def)
  have "\<exists>found bc2. InternalGet t ro k bc1 = Some (OK, found, bc2) \<and> table_cache opt m1 owner1 (l + 1) refs bc2 \<and> (bc2 = None \<longleftrightarrow> bc = None) \<and>
      (case dropWhile (\<lambda>e. co_Compare (opt_comparator opt) (fst e) k < 0) kvs of [] \<Rightarrow> found = None
        | e # _ \<Rightarrow> (found = None \<or> found = Some e) \<and> (same k (fst e) \<longrightarrow> found = Some e))"
    if "table_cache opt (Suc m1) owner1 (l + 1) refs bc1" "bc1 = None \<longleftrightarrow> bc = None" for m1 bc1
    using InternalGet_on [OF rf t(2) kvs k that(1) own [OF that(2)], of ro] that(2) unfolding get_result_def
    by (elim exE conjE) (intro exI conjI, assumption+, simp, assumption)
  then show ?thesis using t(1) open_cache_on(1) [OF cached, of "blocks_of opt kvs", folded owner1_def] by (intro exI [of _ t]) simp
qed

end

section \<open>Options of a user\<close>

text \<open>The comparator and the filter policy of a user keep their contracts; then two keys match if they are equal.\<close>

locale user_options = key_shortener "co_Compare (opt_comparator opt)" valid "co_FindShortestSeparator (opt_comparator opt)"
    "co_FindShortSuccessor (opt_comparator opt)" for opt :: Options and valid +
  fixes fok :: "slice list \<Rightarrow> bool"
  assumes restart_interval: "1 \<le> opt_block_restart_interval opt"
    and policy: "opt_filter_policy opt = Some p \<Longrightarrow> filter_policy (fp_CreateFilter p) (fp_KeyMayMatch p) fok"
    and fok_part: "fok (us @ ks @ vs) \<Longrightarrow> fok ks"

sublocale user_options \<subseteq> plain: table_opts opt valid "(=)" fok
proof
  fix p keys dst ks key k s l us vs
  show "1 \<le> opt_block_restart_interval opt" by (rule restart_interval)
  show "fok (us @ ks @ vs) \<Longrightarrow> fok ks" by (rule fok_part)
  show "k \<noteq> l" if "valid s" "valid l" "valid k" "co_Compare (opt_comparator opt) s l < 0"
    "co_Compare (opt_comparator opt) k (co_FindShortestSeparator (opt_comparator opt) s l) \<le> 0"
    using le_less_trans [OF that(3) separator_valid [OF that(1,2,4)] that(2) that(5) separator_less [OF that(1,2,4)]] that(2) by auto
  assume p: "opt_filter_policy opt = Some p"
  show "fp_CreateFilter p keys dst = dst @ fp_CreateFilter p keys []" by (rule filter_policy.create_appends [OF policy [OF p]])
  show "fok ks \<Longrightarrow> key \<in> set ks \<Longrightarrow> k = key \<Longrightarrow> fp_KeyMayMatch p k (fp_CreateFilter p ks [])"
    using filter_policy.may_match_create [OF policy [OF p]] by blast
qed

context user_options
begin

lemmas table_open_and_get = plain.open_and_get

end

text \<open>The bytewise comparator with a bloom filter.\<close>

lemma bloom_ok_part: "bloom_ok n (us @ ks @ vs) \<Longrightarrow> bloom_ok n ks"
  by (simp add: bloom_ok_def algebra_simps)

interpretation bytewise_bloom: user_options "Options_init\<lparr>opt_filter_policy := Some (NewBloomFilterPolicy n), opt_block_size := sz\<rparr>"
  "\<lambda>_. True" "bloom_ok n" for n sz
proof (rule user_options.intro)
  show "key_shortener (co_Compare (opt_comparator (Options_init\<lparr>opt_filter_policy := Some (NewBloomFilterPolicy n), opt_block_size := sz\<rparr>))) (\<lambda>_. True)
     (co_FindShortestSeparator (opt_comparator (Options_init\<lparr>opt_filter_policy := Some (NewBloomFilterPolicy n), opt_block_size := sz\<rparr>)))
     (co_FindShortSuccessor (opt_comparator (Options_init\<lparr>opt_filter_policy := Some (NewBloomFilterPolicy n), opt_block_size := sz\<rparr>)))"
    using bytewise.key_shortener_axioms by (simp add: Options_init_def BytewiseComparator_def)
  show "user_options_axioms (Options_init\<lparr>opt_filter_policy := Some (NewBloomFilterPolicy n), opt_block_size := sz\<rparr>) (bloom_ok n)"
    by (rule user_options_axioms.intro)
      (use bloom.filter_policy_axioms bloom_ok_part in \<open>auto simp: Options_init_def NewBloomFilterPolicy_def\<close>)
qed

text \<open>Without a filter policy.\<close>

interpretation bytewise_plain: user_options "Options_init\<lparr>opt_block_size := sz\<rparr>" "\<lambda>_. True" "\<lambda>_. True" for sz
proof (rule user_options.intro)
  show "key_shortener (co_Compare (opt_comparator (Options_init\<lparr>opt_block_size := sz\<rparr>))) (\<lambda>_. True)
     (co_FindShortestSeparator (opt_comparator (Options_init\<lparr>opt_block_size := sz\<rparr>)))
     (co_FindShortSuccessor (opt_comparator (Options_init\<lparr>opt_block_size := sz\<rparr>)))"
    using bytewise.key_shortener_axioms by (simp add: Options_init_def BytewiseComparator_def)
  show "user_options_axioms (Options_init\<lparr>opt_block_size := sz\<rparr>) (\<lambda>_. True)"
    by (rule user_options_axioms.intro) (auto simp: Options_init_def)
qed

end
