(* ===== verification/Lv_Db_Options.thy ===== *)
theory Lv_Db_Options
  imports Lv_Table
begin

text \<open>
  The options that a database derives from those of its user (\<open>SanitizeOptions\<close> of \<open>db/db_impl.cc\<close>): the comparator and
  the filter policy of internal keys, and the sizes clipped to a range. If the options of the user keep their
  contracts, tables of the derived options do, with the keys that have the same user key as matches.
\<close>

section \<open>Wrappers for internal keys\<close>

text \<open>The first argument is the address of the object.\<close>

definition InternalKeyComparator :: "nat \<Rightarrow> Comparator \<Rightarrow> Comparator" where
  "InternalKeyComparator i c =
     \<lparr>co_id = i, co_Compare = ikc_Compare (co_Compare c),
      co_FindShortestSeparator = ikc_FindShortestSeparator (co_Compare c) (co_FindShortestSeparator c),
      co_FindShortSuccessor = ikc_FindShortSuccessor (co_Compare c) (co_FindShortSuccessor c)\<rparr>"

text \<open>The wrapper of a null policy is never called.\<close>

definition InternalFilterPolicy :: "FilterPolicy option \<Rightarrow> FilterPolicy option" where
  "InternalFilterPolicy up = map_option (\<lambda>p.
     \<lparr>fp_Name = fp_Name p, fp_CreateFilter = ifp_CreateFilter (fp_CreateFilter p), fp_KeyMayMatch = ifp_KeyMayMatch (fp_KeyMayMatch p)\<rparr>)
     up"

section \<open>Sanitized options\<close>

text \<open>\<open>ClipToRange\<close> casts its value to the type of the bounds, \<open>int\<close>: of a \<open>size_t\<close> it compares the low 32 bits.\<close>

definition ClipToRange :: "u64 \<Rightarrow> int \<Rightarrow> int \<Rightarrow> u64" where
  "ClipToRange x minvalue maxvalue =
     (let x = (if sint (ucast x :: u32) > maxvalue then word_of_int maxvalue else x) in
      if sint (ucast x :: u32) < minvalue then word_of_int minvalue else x)"

definition ClipToRange_int :: "int \<Rightarrow> int \<Rightarrow> int \<Rightarrow> int" where
  "ClipToRange_int x minvalue maxvalue =
     (let x = (if x > maxvalue then maxvalue else x) in if x < minvalue then minvalue else x)"

definition kNumNonTableCacheFiles :: int where "kNumNonTableCacheFiles = 10"

text \<open>Without the creation of the log file.\<close>

definition SanitizeOptions :: "Comparator \<Rightarrow> FilterPolicy option \<Rightarrow> Options \<Rightarrow> Options" where
  "SanitizeOptions icmp ipolicy src =
     src\<lparr>opt_comparator := icmp,
       opt_filter_policy := (if opt_filter_policy src \<noteq> None then ipolicy else None),
       opt_max_open_files := ClipToRange_int (opt_max_open_files src) (64 + kNumNonTableCacheFiles) 50000,
       opt_write_buffer_size := ClipToRange (opt_write_buffer_size src) (64 * 2 ^ 10) (2 ^ 30),
       opt_max_file_size := ClipToRange (opt_max_file_size src) (2 ^ 20) (2 ^ 30),
       opt_block_size := ClipToRange (opt_block_size src) (2 ^ 10) (4 * 2 ^ 20)\<rparr>"

text \<open>The block cache of the result: a new one if the user gave none.\<close>

definition sanitize_cache :: "block_cache \<Rightarrow> block_cache" where
  "sanitize_cache bc = (case bc of None \<Rightarrow> Some (ShardedLRUCache_init (8 * 2 ^ 20)) | Some c \<Rightarrow> Some c)"

text \<open>\<open>options_\<close> of \<open>DBImpl\<close>; \<open>i\<close> is the address of its comparator.\<close>

definition db_options :: "nat \<Rightarrow> Options \<Rightarrow> Options" where
  "db_options i raw = SanitizeOptions (InternalKeyComparator i (opt_comparator raw)) (InternalFilterPolicy (opt_filter_policy raw)) raw"

section \<open>The range of a clipped value\<close>

lemma sint_low: assumes "unat (x :: u64) < 2 ^ 31" shows "sint (ucast x :: u32) = uint x"
proof -
  have "int (unat x) < int (2 ^ 31)" using assms by (simp only: of_nat_less_iff)
  then have x: "uint x < 2 ^ 31" unfolding uint_nat [symmetric] by simp
  have "uint (ucast x :: u32) = take_bit 32 (uint x)" by (simp add: unsigned_ucast_eq)
  also have "\<dots> = uint x" using x by (intro take_bit_int_eq_self) simp_all
  finally have u: "uint (ucast x :: u32) = uint x" .
  have "sint (ucast x :: u32) = signed_take_bit 31 (uint (ucast x :: u32))" by (simp add: sint_uint)
  also have "\<dots> = uint x" unfolding u using x by (intro signed_take_bit_int_eq_self) (simp_all add: order.trans [OF _ uint_ge_0])
  finally show ?thesis .
qed

lemma sint_const: "0 \<le> c \<Longrightarrow> c < 2 ^ 31 \<Longrightarrow> sint (ucast (word_of_int c :: u64) :: u32) = c \<and> uint (word_of_int c :: u64) = c"
  by (subst sint_low) (simp_all add: uint_word_of_int_eq take_bit_int_eq_self unat_eq_nat_uint)

lemma ClipToRange_small:
  assumes "unat x < 2 ^ 31" "0 \<le> lo" "lo \<le> hi" "hi < 2 ^ 31"
  shows "uint (ClipToRange x lo hi) = max lo (min hi (uint x))"
  using assms sint_low [OF assms(1)] sint_const [of lo] sint_const [of hi] by (simp add: ClipToRange_def Let_def)

text \<open>A value of \<open>2 ^ 31\<close> or more may stay above the range, or become its least value.\<close>

lemma ClipToRange_huge:
  "ClipToRange (2 ^ 32 + 2 ^ 20) (64 * 2 ^ 10) (2 ^ 30) = 2 ^ 32 + 2 ^ 20"
  "ClipToRange (2 ^ 31) (64 * 2 ^ 10) (2 ^ 30) = 64 * 2 ^ 10"
  by (simp_all add: ClipToRange_def)

section \<open>Tables of a database\<close>

context user_order
begin

lemma internal_separated:
  assumes "internal_valid s" "internal_valid l" "internal_valid k" "ikc_Compare ucmp s l < 0" "ikc_Compare ucmp s k < 0"
    and "ikc_Compare ucmp k (ikc_FindShortestSeparator ucmp usep s l) \<le> 0"
  shows "ExtractUserKey k \<noteq> ExtractUserKey l"
proof (cases rule: internal_separator_cases [OF assms(1,2) disjI1 [OF assms(4)]])
  case 1
  then show ?thesis using assms(6) internal.not_le [OF assms(3,1)] assms(5) by simp
next
  case (2 u)
  have v: "uvalid (ExtractUserKey s)" "uvalid (ExtractUserKey l)" "uvalid (ExtractUserKey k)"
    using assms(1-3) by (simp_all add: internal_valid_def)
  have u: "uvalid u" by (rule 2)
  have "ucmp (ExtractUserKey s) (ExtractUserKey l) < 0" by (rule 2)
  then have ul: "ucmp u (ExtractUserKey l) < 0" unfolding 2(1) by (rule separator_less [OF v(1,2)])
  have "\<not> ucmp u (ExtractUserKey k) < 0"
    using internal_less_shortened [OF assms(3) u] assms(6) internal.not_le [OF assms(3) internal_valid_shortened [OF u]]
    unfolding 2(7) by blast
  then have "ucmp (ExtractUserKey k) u \<le> 0" using not_less [OF u v(3)] by blast
  then have "ucmp (ExtractUserKey k) (ExtractUserKey l) < 0" by (rule le_less_trans [OF v(3) u v(2) _ ul])
  then show ?thesis using less_neq [OF v(3,2)] by blast
qed

end

sublocale user_options \<subseteq> user: user_order "co_Compare (opt_comparator opt)" valid "co_FindShortestSeparator (opt_comparator opt)"
    "co_FindShortSuccessor (opt_comparator opt)"
  by unfold_locales

sublocale user_options \<subseteq> db: table_opts "db_options i opt" user.internal_valid "\<lambda>a b. ExtractUserKey a = ExtractUserKey b"
    "\<lambda>ks. fok (map ExtractUserKey ks)" for i
proof (rule table_opts.intro)
  let ?C = "ikc_Compare (co_Compare (opt_comparator opt))"
    and ?S = "ikc_FindShortestSeparator (co_Compare (opt_comparator opt)) (co_FindShortestSeparator (opt_comparator opt))"
  have o: "opt_comparator (db_options i opt) = InternalKeyComparator i (opt_comparator opt)"
    "opt_block_restart_interval (db_options i opt) = opt_block_restart_interval opt"
    "opt_filter_policy (db_options i opt) = InternalFilterPolicy (opt_filter_policy opt)"
    by (auto simp: db_options_def SanitizeOptions_def InternalFilterPolicy_def)
  show "key_shortener (co_Compare (opt_comparator (db_options i opt))) user.internal_valid
      (co_FindShortestSeparator (opt_comparator (db_options i opt))) (co_FindShortSuccessor (opt_comparator (db_options i opt)))"
    unfolding o InternalKeyComparator_def Comparator.simps by (rule user.internal.key_shortener_axioms)
  show "table_opts_axioms (db_options i opt) user.internal_valid (\<lambda>a b. ExtractUserKey a = ExtractUserKey b)
      (\<lambda>ks. fok (map ExtractUserKey ks))"
  proof (rule table_opts_axioms.intro, unfold o InternalKeyComparator_def Comparator.simps)
    fix p keys dst ks key k s l us vs
    show "1 \<le> opt_block_restart_interval opt" by (rule restart_interval)
    show "fok (map ExtractUserKey (us @ ks @ vs)) \<Longrightarrow> fok (map ExtractUserKey ks)" unfolding map_append by (rule fok_part)
    show "user.internal_valid s \<Longrightarrow> user.internal_valid l \<Longrightarrow> user.internal_valid k \<Longrightarrow> ?C s l < 0 \<Longrightarrow> ?C s k < 0 \<Longrightarrow>
        ?C k (?S s l) \<le> 0 \<Longrightarrow> ExtractUserKey k \<noteq> ExtractUserKey l" by (rule user.internal_separated)
    assume "InternalFilterPolicy (opt_filter_policy opt) = Some p"
    then obtain q where q: "opt_filter_policy opt = Some q" "fp_CreateFilter p = ifp_CreateFilter (fp_CreateFilter q)"
      "fp_KeyMayMatch p = ifp_KeyMayMatch (fp_KeyMayMatch q)" by (auto simp: InternalFilterPolicy_def)
    note fp = policy [OF q(1)]
    show "fp_CreateFilter p keys dst = dst @ fp_CreateFilter p keys []"
      unfolding q(2) ifp_CreateFilter_def by (rule filter_policy.create_appends [OF fp])
    show "fok (map ExtractUserKey ks) \<Longrightarrow> key \<in> set ks \<Longrightarrow> ExtractUserKey k = ExtractUserKey key \<Longrightarrow>
        fp_KeyMayMatch p k (fp_CreateFilter p ks [])"
      unfolding q(2,3) ifp_CreateFilter_def ifp_KeyMayMatch_def using filter_policy.may_match_create [OF fp] by simp
  qed
qed

context user_options
begin

lemmas db_open_and_get = db.open_and_get

end

end
