(* ===== verification/Lv_Table_Properties.thy ===== *)
theory Lv_Table_Properties
  imports Lv_Db_Options
begin

text \<open>
  The properties of table files, and their instance on a table of two entries on a disk of limited size.
\<close>

text \<open>A builder on a file of the C library, for options whose comparator keeps its contract.\<close>

context libc_stdio
begin

lemma posix_writable: "writable_file (PosixWritableFile_Append L name) (PosixWritableFile_Flush L name) contents room"
  by (rule writable.writable_file_axioms)

end

lemma stdio_table_writer:
  assumes "libc_stdio L written remaining healthy space" "1 \<le> opt_block_restart_interval opt"
    and "key_shortener (co_Compare (opt_comparator opt)) valid (co_FindShortestSeparator (opt_comparator opt))
      (co_FindShortSuccessor (opt_comparator opt))"
  shows "table_writer (PosixWritableFile_Append L name) (PosixWritableFile_Flush L name) written space opt valid"
  by (rule table_writer.intro [OF libc_stdio.posix_writable [OF assms(1)] assms(3) table_writer_axioms.intro [OF assms(2)]])

text \<open> C36. Refinement: entries of ascending keys, added to a builder on an empty file with room for the table and
  finished, pass its assertions and are written as exactly the table of the format, \<open>table_file\<close>: the data blocks, cut
  at the block size, the filter block, the metaindex, the index and the footer. \<open>NumEntries\<close> and \<open>FileSize\<close> count them.
  The restart interval is at least 1 and the comparator keeps its contract; a filter policy can be any, for fewer than
  \<open>2 ^ 31\<close> keys. \<close>

theorem table_built:
  assumes lib: "libc_stdio L written remaining healthy space"
    and blank: "written f = []" "space f (length (table_file opt kvs))"
    and opts: "1 \<le> opt_block_restart_interval opt" "key_shortener (co_Compare (opt_comparator opt)) valid
      (co_FindShortestSeparator (opt_comparator opt)) (co_FindShortSuccessor (opt_comparator opt))"
    and kvs: "ordered_kvs opt valid kvs" "length (table_file opt kvs) < 2 ^ 64" "opt_filter_policy opt \<noteq> None \<longrightarrow> length kvs < 2 ^ 31"
  shows "\<exists>r0 r s r'. TableBuilder_init opt f = Some r0 \<and>
    add_entries (PosixWritableFile_Append L name) (PosixWritableFile_Flush L name) kvs r0 = Some r \<and>
    TableBuilder_Finish (PosixWritableFile_Append L name) (PosixWritableFile_Flush L name) r = Some (s, r') \<and> ok s \<and>
    written (tb_file r') = table_file opt kvs \<and> NumEntries r' = length kvs \<and> FileSize r' = of_nat (length (table_file opt kvs))"
  by (rule table_writer.build_table [OF stdio_table_writer [OF lib opts] blank kvs])

text \<open> C37. Reading back: a table of ascending entries, opened from any file that holds it, returns for a key the entry under
  that key if there is one, and otherwise nothing or the entry behind it; the cache that the table shares stays consistent,
  with room for one entry less, so that this holds again for the next lookup. The comparator and the filter policy are any that keep their contracts. \<close>

theorem table_lookup:
  assumes opts: "user_options opt valid fok" and rf: "random_file rd (table_file opt kvs)"
    and kvs: "good_kvs opt valid kvs" "fok (map fst kvs)" and k: "valid k"
    and cached: "table_cache opt m owner l refs bc" "owner (l + 1) = None"
  shows "\<exists>t. Table_Open opt rd (of_nat (length (table_file opt kvs))) bc = Some (OK, Some t, snd (open_cache bc)) \<and>
    table_cache opt m (owner(l + 1 \<mapsto> blocks_of opt kvs)) (l + 1) refs (snd (open_cache bc)) \<and>
    (\<forall>m1 bc1. table_cache opt (Suc m1) (owner(l + 1 \<mapsto> blocks_of opt kvs)) (l + 1) refs bc1 \<longrightarrow> (bc1 = None \<longleftrightarrow> bc = None) \<longrightarrow> (\<exists>found bc2.
       InternalGet t ro k bc1 = Some (OK, found, bc2) \<and>
       table_cache opt m1 (owner(l + 1 \<mapsto> blocks_of opt kvs)) (l + 1) refs bc2 \<and> (bc2 = None \<longleftrightarrow> bc = None) \<and>
       (case dropWhile (\<lambda>e. co_Compare (opt_comparator opt) (fst e) k < 0) kvs of
          [] \<Rightarrow> found = None
        | e # _ \<Rightarrow> (found = None \<or> found = Some e) \<and> (k = fst e \<longrightarrow> found = Some e))))"
  by (rule user_options.table_open_and_get [OF opts rf kvs k cached])

section \<open>An instance\<close>

text \<open>A table with a bloom filter, in blocks of one entry.\<close>

definition small_blocks :: Options where
  "small_blocks = Options_init\<lparr>opt_filter_policy := Some (NewBloomFilterPolicy 10), opt_block_size := 1\<rparr>"

definition two_entries :: "(slice \<times> slice) list" where
  "two_entries = [([1], [10]), ([2], [20])]"

definition table_disk :: disk_file where
  "table_disk = \<lparr>df_contents = [], df_pos = 0, df_capacity = length (table_file small_blocks two_entries), df_eof = False\<rparr>"

text \<open>The same table without the filter, opened over a memory-mapped file with an empty block cache.\<close>

definition plain_blocks :: Options where
  "plain_blocks = Options_init\<lparr>opt_block_size := 1\<rparr>"

definition two_blocks :: "(slice \<times> slice) list list" where
  "two_blocks = [[([1], [10])], [([2], [20])]]"

lemma two_blocks_layout: "blocks_of plain_blocks two_entries = two_blocks" "blocks_of small_blocks two_entries = two_blocks"
  unfolding blocks_of_def by code_simp+

lemma two_blocks_data: "length (data_bytes 16 two_blocks) = 36"
  by (simp add: two_blocks_def data_bytes_def length_stored_block kBlockTrailerSize_def) code_simp

lemma two_blocks_index:
  assumes "opt_comparator opt = BytewiseComparator"
  shows "length (index_block opt two_blocks) \<le> 88"
proof -
  let ?h = "\<lambda>i. handle_bytes (block_handle (opt_block_restart_interval opt) two_blocks i)"
  have h: "length (handle_bytes h) \<le> 20" for h using length_handle_bytes [of h] by (simp add: kMaxEncodedLength_def)
  have k: "index_key BytewiseComparator two_blocks 0 = [1]" "index_key BytewiseComparator two_blocks (Suc 0) = [3]" by code_simp+
  have "length two_blocks = 2" by (simp add: two_blocks_def)
  then have i: "index_kvs opt two_blocks (length two_blocks) = [([1], ?h 0), ([3], ?h 1)]"
    by (simp add: index_kvs_def assms k upt_conv_Cons)
  show ?thesis
    unfolding index_block_def i using h [of "block_handle (opt_block_restart_interval opt) two_blocks 0"]
      h [of "block_handle (opt_block_restart_interval opt) two_blocks 1"]
    by (intro order.trans [OF length_block_of]) simp
qed

lemma plain_length: "length (table_file plain_blocks two_entries) < 2 ^ 32"
proof -
  have "length (index_block plain_blocks two_blocks) \<le> 88"
    by (rule two_blocks_index) (simp add: plain_blocks_def Options_init_def)
  moreover have "length (meta_block plain_blocks two_blocks) \<le> 8"
    unfolding meta_block_def by (rule order.trans [OF length_block_of]) (simp add: meta_kvs_def plain_blocks_def Options_init_def)
  moreover have "opt_block_restart_interval plain_blocks = 16" "opt_filter_policy plain_blocks = None" by (simp_all add: plain_blocks_def Options_init_def)
  ultimately show ?thesis
    by (simp add: table_file_blocks two_blocks_layout two_blocks_data table_bytes_def before_index_def before_meta_def stored_filter_def
      length_stored_block length_footer_bytes kBlockTrailerSize_def kEncodedLength_def kMaxEncodedLength_def)
qed

text \<open>The filter block has one filter.\<close>

lemma small_filter: "length (filter_bytes small_blocks two_blocks) = 18"
proof -
  let ?c = "CreateFilter (BloomFilterPolicy_init 10)" and ?ks = "map fst (concat two_blocks)"
  obtain gs ks where g: "fb_repr ?c (filter_run 16 ?c two_blocks) gs ks" "length gs = length (data_bytes 16 two_blocks) div kFilterBase"
    "concat gs @ ks = ?ks"
    using bloom.filter_run_groups [of 16 two_blocks 10] two_blocks_data by auto
  then have gs: "gs = []" "ks = ?ks" by (simp_all add: two_blocks_data kFilterBase_def kFilterBaseLg_def)
  have "fst (filter_finish ?c (filter_run 16 ?c two_blocks)) = filter_block_of [?c ?ks []]"
    using bloom.filter_finish_of [OF g(1)] unfolding gs by (simp add: final_groups_def group_bytes_def two_blocks_def)
  moreover have "length (?c ?ks []) = 9"
    by (simp add: CreateFilter_def bloom_bytes_def BloomFilterPolicy_init_def two_blocks_def Let_def)
  ultimately show ?thesis
    by (simp add: filter_bytes_def small_blocks_def Options_init_def NewBloomFilterPolicy_def filter_block_of_def length_fixed_array
      ends_def del: length_concat)
qed

lemma small_length: "length (table_file small_blocks two_entries) < 2 ^ 32"
proof -
  have "length (index_block small_blocks two_blocks) \<le> 88"
    by (rule two_blocks_index) (simp add: small_blocks_def Options_init_def)
  moreover have "length (meta_block small_blocks two_blocks) \<le> 1000"
    using length_handle_bytes [of "handle_at (data_bytes 16 two_blocks) (filter_bytes small_blocks two_blocks)"]
    unfolding meta_block_def
    by (intro order.trans [OF length_block_of])
      (simp add: meta_kvs_def small_blocks_def Options_init_def NewBloomFilterPolicy_def kMaxEncodedLength_def)
  moreover have "opt_block_restart_interval small_blocks = 16" "opt_filter_policy small_blocks \<noteq> None"
    by (simp_all add: small_blocks_def Options_init_def)
  ultimately show ?thesis
    by (simp add: table_file_blocks two_blocks_layout two_blocks_data small_filter table_bytes_def before_index_def before_meta_def
      stored_filter_def length_stored_block length_footer_bytes kBlockTrailerSize_def kEncodedLength_def kMaxEncodedLength_def)
qed

interpretation disk_table: table_writer "PosixWritableFile_Append disk_libc name" "PosixWritableFile_Flush disk_libc name" df_contents
  "\<lambda>f n. length (df_contents f) + n \<le> df_capacity f" small_blocks "\<lambda>_. True" for name
  by (rule stdio_table_writer [OF disk.libc_stdio_axioms bytewise_bloom.restart_interval [of 1 10, folded small_blocks_def]
    bytewise_bloom.key_shortener_axioms [of 1 10, folded small_blocks_def]])

theorem table_built_witness:
  "\<exists>r0 r s r'. TableBuilder_init small_blocks table_disk = Some r0 \<and>
    add_entries (PosixWritableFile_Append disk_libc []) (PosixWritableFile_Flush disk_libc []) two_entries r0 = Some r \<and>
    TableBuilder_Finish (PosixWritableFile_Append disk_libc []) (PosixWritableFile_Flush disk_libc []) r = Some (s, r') \<and> ok s \<and>
    df_contents (tb_file r') = table_file small_blocks two_entries \<and> NumEntries r' = 2 \<and>
    FileSize r' = of_nat (length (table_file small_blocks two_entries))"
proof -
  have "length two_entries = 2" by (simp add: two_entries_def)
  moreover have "ordered_kvs small_blocks (\<lambda>_. True) two_entries"
    by (simp add: ordered_kvs_def two_entries_def small_blocks_def Options_init_def BytewiseComparator_def Compare_def slice_compare_def)
  ultimately show ?thesis
    using table_built [OF disk.libc_stdio_axioms _ _ bytewise_bloom.restart_interval [of 1 10, folded small_blocks_def]
      bytewise_bloom.key_shortener_axioms [of 1 10, folded small_blocks_def], of table_disk two_entries "[]"] small_length
    by (simp add: table_disk_def)
qed

lemma plain_good: "good_kvs plain_blocks (\<lambda>_. True) two_entries"
proof -
  have "Compare [1] [2] < 0" by code_simp
  then show ?thesis using plain_length
    by (simp add: good_kvs_def two_entries_def kvs_small_def plain_blocks_def Options_init_def BytewiseComparator_def)
qed

theorem table_lookup_witness:
  "\<exists>t c bc1. Table_Open plain_blocks (PosixMmapReadableFile_Read [] (table_file plain_blocks two_entries))
      (of_nat (length (table_file plain_blocks two_entries))) (Some (ShardedLRUCache_init 1000)) = Some (OK, Some t, Some c) \<and>
    InternalGet t ReadOptions_init [2] (Some c) = Some (OK, Some ([2], [20]), bc1)"
proof -
  let ?rd = "PosixMmapReadableFile_Read [] (table_file plain_blocks two_entries)" and ?bc = "Some (ShardedLRUCache_init 1000)"
  have dw: "dropWhile (\<lambda>e. co_Compare (opt_comparator plain_blocks) (fst e) [2] < 0) two_entries = [([2], [20])]" by code_simp
  have "0 < ((1000 :: u64) + 15) div 16" "1 \<le> max_entries" by (simp_all add: max_entries_def)
  note init = table_cache_init [OF this]
  obtain c where c: "snd (open_cache ?bc) = Some c" using open_cache_on(3) [OF init] by (cases "snd (open_cache ?bc)") auto
  note look = table_lookup [OF bytewise_plain.user_options_axioms [of 1, folded plain_blocks_def] mmap.random_file_axioms [of "[]"]
    plain_good TrueI TrueI init, where k = "[2]" and ro = ReadOptions_init, unfolded dw c]
  from look obtain t where t: "Table_Open plain_blocks ?rd (of_nat (length (table_file plain_blocks two_entries))) ?bc = Some (OK, Some t, Some c)"
    "table_cache plain_blocks (Suc 0) [1 \<mapsto> blocks_of plain_blocks two_entries] 1 (\<lambda>_. 0) (Some c)"
    "\<forall>m1 bc1. table_cache plain_blocks (Suc m1) [1 \<mapsto> blocks_of plain_blocks two_entries] 1 (\<lambda>_. 0) bc1 \<longrightarrow> bc1 \<noteq> None \<longrightarrow>
      (\<exists>bc2. InternalGet t ReadOptions_init [2] bc1 = Some (OK, Some ([2], [20]), bc2))"
    by (fastforce simp: One_nat_def)
  show ?thesis using t(1) t(3) [rule_format, OF t(2)] by auto
qed

end
