(* ===== verification/Lv_Version.thy ===== *)
theory Lv_Version
  imports Lv_Db_Options Lv_Version_Edit Lv_Write_Batch
begin

text \<open>
  Versions: the files of every level, and the algorithms of \<open>db/version_set.cc\<close> that search them and choose which of them
  to compact. These only read the file metadata, so that a pointer to a file is the metadata itself; the reference counts
  of files and versions are left out. A file range is given by user keys, \<open>None\<close> for the null pointer.
\<close>

section \<open>Sizes\<close>

definition int32_ok :: "int \<Rightarrow> bool" where "int32_ok x \<longleftrightarrow> - (2 ^ 31) \<le> x \<and> x < 2 ^ 31"

text \<open>The conversion of \<open>size_t\<close> to \<open>int\<close> keeps the low 32 bits; the products are computed in \<open>int\<close> and may overflow.\<close>

definition TargetFileSize :: "Options \<Rightarrow> int" where
  "TargetFileSize opt = sint (ucast (opt_max_file_size opt) :: u32)"

definition MaxGrandParentOverlapBytes :: "Options \<Rightarrow> int option" where
  "MaxGrandParentOverlapBytes opt = (let r = 10 * TargetFileSize opt in if int32_ok r then Some r else None)"

definition ExpandedCompactionByteSizeLimit :: "Options \<Rightarrow> int option" where
  "ExpandedCompactionByteSizeLimit opt = (let r = 25 * TargetFileSize opt in if int32_ok r then Some r else None)"

text \<open>For the largest file size that \<open>SanitizeOptions\<close> permits both overflow.\<close>

lemma overlap_bytes_overflow:
  "opt_max_file_size opt = 2 ^ 30 \<Longrightarrow> MaxGrandParentOverlapBytes opt = None \<and> ExpandedCompactionByteSizeLimit opt = None"
  by (simp add: MaxGrandParentOverlapBytes_def ExpandedCompactionByteSizeLimit_def TargetFileSize_def int32_ok_def Let_def)

text \<open>The \<open>double\<close> is an integer below \<open>2 ^ 53\<close> on every level there is.\<close>

function MaxBytesForLevel_loop :: "nat \<Rightarrow> int \<Rightarrow> nat" where
  "MaxBytesForLevel_loop result level = (if level > 1 then MaxBytesForLevel_loop (result * 10) (level - 1) else result)"
  by pat_completeness auto
termination by (relation "measure (\<lambda>(r, l). nat l)") auto

declare MaxBytesForLevel_loop.simps [simp del]

definition MaxBytesForLevel :: "int \<Rightarrow> nat" where
  "MaxBytesForLevel level = MaxBytesForLevel_loop (10 * 1048576) level"

definition MaxFileSizeForLevel :: "Options \<Rightarrow> int \<Rightarrow> u64" where
  "MaxFileSizeForLevel opt level = word_of_int (TargetFileSize opt)"

text \<open>\<open>sum += file_size\<close> adds in \<open>uint64_t\<close> and converts back.\<close>

definition TotalFileSize :: "FileMetaData list \<Rightarrow> int" where
  "TotalFileSize files = sint (foldl (\<lambda>sum f. sum + file_size f) (0 :: u64) files)"

section \<open>Finding a file\<close>

definition smallest_user_key :: "FileMetaData \<Rightarrow> slice" where "smallest_user_key f = ExtractUserKey (smallest f)"
definition largest_user_key :: "FileMetaData \<Rightarrow> slice" where "largest_user_key f = ExtractUserKey (largest f)"

text \<open>\<open>left\<close>, \<open>right\<close> and \<open>mid\<close> are \<open>uint32_t\<close>.\<close>

partial_function (option) FindFile_loop ::
  "(slice \<Rightarrow> slice \<Rightarrow> int) \<Rightarrow> FileMetaData list \<Rightarrow> slice \<Rightarrow> u32 \<Rightarrow> u32 \<Rightarrow> u32 option"
where
  "FindFile_loop ucmp files key left right =
     (if left < right then
        let mid = (left + right) div 2 in
        if unat mid \<ge> length files then None
        else if ikc_Compare ucmp (largest (files ! unat mid)) key < 0 then FindFile_loop ucmp files key (mid + 1) right
        else FindFile_loop ucmp files key left mid
      else Some right)"

definition FindFile :: "(slice \<Rightarrow> slice \<Rightarrow> int) \<Rightarrow> FileMetaData list \<Rightarrow> slice \<Rightarrow> nat option" where
  "FindFile ucmp files key = map_option unat (FindFile_loop ucmp files key 0 (word_of_nat (length files)))"

definition AfterFile :: "(slice \<Rightarrow> slice \<Rightarrow> int) \<Rightarrow> slice option \<Rightarrow> FileMetaData \<Rightarrow> bool" where
  "AfterFile ucmp ukey f = (case ukey of None \<Rightarrow> False | Some k \<Rightarrow> ucmp k (largest_user_key f) > 0)"

definition BeforeFile :: "(slice \<Rightarrow> slice \<Rightarrow> int) \<Rightarrow> slice option \<Rightarrow> FileMetaData \<Rightarrow> bool" where
  "BeforeFile ucmp ukey f = (case ukey of None \<Rightarrow> False | Some k \<Rightarrow> ucmp k (smallest_user_key f) < 0)"

definition InternalKey_init :: "slice \<Rightarrow> SequenceNumber \<Rightarrow> ValueType \<Rightarrow> slice" where
  "InternalKey_init ukey s t = AppendInternalKey [] \<lparr>user_key = ukey, sequence = s, vtype = t\<rparr>"

fun some_overlap :: "(slice \<Rightarrow> slice \<Rightarrow> int) \<Rightarrow> slice option \<Rightarrow> slice option \<Rightarrow> FileMetaData list \<Rightarrow> bool" where
  "some_overlap ucmp lo hi [] = False"
| "some_overlap ucmp lo hi (f # fs) =
     (if AfterFile ucmp lo f \<or> BeforeFile ucmp hi f then some_overlap ucmp lo hi fs else True)"

definition SomeFileOverlapsRange ::
  "(slice \<Rightarrow> slice \<Rightarrow> int) \<Rightarrow> bool \<Rightarrow> FileMetaData list \<Rightarrow> slice option \<Rightarrow> slice option \<Rightarrow> bool option"
where
  "SomeFileOverlapsRange ucmp disjoint_sorted_files files lo hi =
     (if \<not> disjoint_sorted_files then Some (some_overlap ucmp lo hi files)
      else do {
        index \<leftarrow> (case lo of None \<Rightarrow> Some 0
          | Some k \<Rightarrow> FindFile ucmp files (InternalKey_init k kMaxSequenceNumber kValueTypeForSeek));
        if index \<ge> length files then Some False else Some (\<not> BeforeFile ucmp hi (files ! index)) })"

section \<open>The files of a level as an iterator\<close>

record LevelFileNumIterator =
  lf_flist :: "FileMetaData list"
  lf_index :: nat

definition LevelFileNumIterator_init :: "FileMetaData list \<Rightarrow> LevelFileNumIterator" where
  "LevelFileNumIterator_init flist = \<lparr>lf_flist = flist, lf_index = length flist\<rparr>"

definition lf_Valid :: "LevelFileNumIterator \<Rightarrow> bool" where
  "lf_Valid it \<longleftrightarrow> lf_index it < length (lf_flist it)"

definition lf_Seek :: "(slice \<Rightarrow> slice \<Rightarrow> int) \<Rightarrow> slice \<Rightarrow> LevelFileNumIterator \<Rightarrow> LevelFileNumIterator option" where
  "lf_Seek ucmp target it = map_option (\<lambda>i. it\<lparr>lf_index := i\<rparr>) (FindFile ucmp (lf_flist it) target)"

definition lf_SeekToFirst :: "LevelFileNumIterator \<Rightarrow> LevelFileNumIterator" where
  "lf_SeekToFirst it = it\<lparr>lf_index := 0\<rparr>"

definition lf_SeekToLast :: "LevelFileNumIterator \<Rightarrow> LevelFileNumIterator" where
  "lf_SeekToLast it = it\<lparr>lf_index := (if lf_flist it = [] then 0 else length (lf_flist it) - 1)\<rparr>"

definition lf_Next :: "LevelFileNumIterator \<Rightarrow> LevelFileNumIterator option" where
  "lf_Next it = (if lf_Valid it then Some (it\<lparr>lf_index := lf_index it + 1\<rparr>) else None)"

definition lf_Prev :: "LevelFileNumIterator \<Rightarrow> LevelFileNumIterator option" where
  "lf_Prev it = (if lf_Valid it
     then Some (it\<lparr>lf_index := (if lf_index it = 0 then length (lf_flist it) else lf_index it - 1)\<rparr>) else None)"

definition lf_key :: "LevelFileNumIterator \<Rightarrow> slice option" where
  "lf_key it = (if lf_Valid it then Some (largest (lf_flist it ! lf_index it)) else None)"

definition lf_value :: "LevelFileNumIterator \<Rightarrow> slice option" where
  "lf_value it = (if lf_Valid it
     then let f = lf_flist it ! lf_index it in Some (EncodeFixed64 (number f) @ EncodeFixed64 (file_size f)) else None)"

section \<open>Versions\<close>

text \<open>The score is a \<open>double\<close>: its type is a parameter.\<close>

record 'd Version =
  v_files :: "FileMetaData list list"
  v_file_to_compact :: "FileMetaData option"
  v_file_to_compact_level :: int
  v_compaction_score :: 'd
  v_compaction_level :: int

definition Version_init :: "'d \<Rightarrow> 'd Version" where
  "Version_init minus_one = \<lparr>v_files = replicate kNumLevels [], v_file_to_compact = None, v_file_to_compact_level = - 1,
     v_compaction_score = minus_one, v_compaction_level = - 1\<rparr>"

definition level_files :: "'d Version \<Rightarrow> nat \<Rightarrow> FileMetaData list" where
  "level_files v level = v_files v ! level"

datatype SaverState = kNotFound | kFound | kDeleted | kCorrupt

record Saver =
  sv_state :: SaverState
  sv_user_key :: slice
  sv_value :: slice

definition SaveValue :: "(slice \<Rightarrow> slice \<Rightarrow> int) \<Rightarrow> slice \<Rightarrow> slice \<Rightarrow> Saver \<Rightarrow> Saver" where
  "SaveValue ucmp ikey v s =
     (case ParseInternalKey ikey of
        None \<Rightarrow> s\<lparr>sv_state := kCorrupt\<rparr>
      | Some parsed_key \<Rightarrow>
          if ucmp (user_key parsed_key) (sv_user_key s) = 0
          then let s = s\<lparr>sv_state := (if vtype parsed_key = kTypeValue then kFound else kDeleted)\<rparr> in
            if sv_state s = kFound then s\<lparr>sv_value := v\<rparr> else s
          else s)"

definition NewestFirst :: "FileMetaData \<Rightarrow> FileMetaData \<Rightarrow> bool" where
  "NewestFirst a b \<longleftrightarrow> number a > number b"

text \<open>\<open>std::sort\<close> with \<open>NewestFirst\<close>: the numbers of files are distinct.\<close>

definition sort_newest :: "FileMetaData list \<Rightarrow> FileMetaData list" where
  "sort_newest fs = rev (sort_key number fs)"

definition contains_user_key :: "(slice \<Rightarrow> slice \<Rightarrow> int) \<Rightarrow> slice \<Rightarrow> FileMetaData \<Rightarrow> bool" where
  "contains_user_key ucmp ukey f \<longleftrightarrow> ucmp ukey (smallest_user_key f) \<ge> 0 \<and> ucmp ukey (largest_user_key f) \<le> 0"

text \<open>The files of a level that may hold the key, in the order in which they are searched.\<close>

definition level_candidates ::
  "(slice \<Rightarrow> slice \<Rightarrow> int) \<Rightarrow> nat \<Rightarrow> FileMetaData list \<Rightarrow> slice \<Rightarrow> slice \<Rightarrow> FileMetaData list option"
where
  "level_candidates ucmp level files ukey ikey =
     (if files = [] then Some []
      else if level = 0 then Some (sort_newest (filter (contains_user_key ucmp ukey) files))
      else do {
        index \<leftarrow> FindFile ucmp files ikey;
        Some (if index < length files \<and> \<not> ucmp ukey (smallest_user_key (files ! index)) < 0
              then [files ! index] else []) })"

text \<open>The callback returns whether to go on.\<close>

fun each_file :: "('a \<Rightarrow> nat \<Rightarrow> FileMetaData \<Rightarrow> bool \<times> 'a) \<Rightarrow> nat \<Rightarrow> FileMetaData list \<Rightarrow> 'a \<Rightarrow> bool \<times> 'a" where
  "each_file func level [] a = (True, a)"
| "each_file func level (f # fs) a = (let (go, a) = func a level f in if go then each_file func level fs a else (False, a))"

fun each_level ::
  "(slice \<Rightarrow> slice \<Rightarrow> int) \<Rightarrow> ('a \<Rightarrow> nat \<Rightarrow> FileMetaData \<Rightarrow> bool \<times> 'a) \<Rightarrow> slice \<Rightarrow> slice \<Rightarrow> nat \<Rightarrow> FileMetaData list list \<Rightarrow> 'a \<Rightarrow> 'a option"
where
  "each_level ucmp func ukey ikey level [] a = Some a"
| "each_level ucmp func ukey ikey level (files # rest) a = do {
     fs \<leftarrow> level_candidates ucmp level files ukey ikey;
     let (go, a) = each_file func level fs a;
     if go then each_level ucmp func ukey ikey (Suc level) rest a else Some a }"

definition ForEachOverlapping ::
  "(slice \<Rightarrow> slice \<Rightarrow> int) \<Rightarrow> 'd Version \<Rightarrow> slice \<Rightarrow> slice \<Rightarrow> ('a \<Rightarrow> nat \<Rightarrow> FileMetaData \<Rightarrow> bool \<times> 'a) \<Rightarrow> 'a \<Rightarrow> 'a option"
where
  "ForEachOverlapping ucmp v ukey ikey func a = each_level ucmp func ukey ikey 0 (v_files v) a"

record GetStats =
  gs_seek_file :: "FileMetaData option"
  gs_seek_file_level :: int

text \<open>
  \<open>Get\<close>: \<open>tget\<close> is \<open>TableCache::Get\<close>, with its state: the status and the entry that is handed to the saver. The value of the
  caller is threaded through. \<open>None\<close> as the first result: no file has decided the lookup.
\<close>

type_synonym 's table_get = "u64 \<Rightarrow> u64 \<Rightarrow> slice \<Rightarrow> 's \<Rightarrow> (Status \<times> (slice \<times> slice) option \<times> 's) option"

definition charge_seek :: "(FileMetaData \<times> int) option \<Rightarrow> GetStats \<Rightarrow> GetStats" where
  "charge_seek last_read stats = (case last_read of
     Some (f, level) \<Rightarrow> if gs_seek_file stats = None then \<lparr>gs_seek_file = Some f, gs_seek_file_level = level\<rparr> else stats
   | None \<Rightarrow> stats)"

fun get_files ::
  "'s table_get \<Rightarrow> (slice \<Rightarrow> slice \<Rightarrow> int) \<Rightarrow> slice \<Rightarrow> slice \<Rightarrow> nat \<Rightarrow> FileMetaData list \<Rightarrow>
   slice \<times> GetStats \<times> (FileMetaData \<times> int) option \<times> 's \<Rightarrow>
   (Status option \<times> slice \<times> GetStats \<times> (FileMetaData \<times> int) option \<times> 's) option"
where
  "get_files tget ucmp ikey ukey level [] (val, stats, last_read, st) = Some (None, val, stats, last_read, st)"
| "get_files tget ucmp ikey ukey level (f # fs) (val, stats, last_read, st) = do {
     let stats = charge_seek last_read stats;
     let last_read = Some (f, int level);
     (s, entry, st) \<leftarrow> tget (number f) (file_size f) ikey st;
     let saver = \<lparr>sv_state = kNotFound, sv_user_key = ukey, sv_value = val\<rparr>;
     let saver = (case entry of None \<Rightarrow> saver | Some (k, v) \<Rightarrow> SaveValue ucmp k v saver);
     let val = sv_value saver;
     if \<not> ok s then Some (Some s, val, stats, last_read, st)
     else case sv_state saver of
         kNotFound \<Rightarrow> get_files tget ucmp ikey ukey level fs (val, stats, last_read, st)
       | kFound \<Rightarrow> Some (Some s, val, stats, last_read, st)
       | kDeleted \<Rightarrow> Some (Some (NotFound [] []), val, stats, last_read, st)
       | kCorrupt \<Rightarrow> Some (Some (Corruption (str ''corrupted key for '') ukey), val, stats, last_read, st) }"

fun get_levels ::
  "'s table_get \<Rightarrow> (slice \<Rightarrow> slice \<Rightarrow> int) \<Rightarrow> slice \<Rightarrow> slice \<Rightarrow> nat \<Rightarrow> FileMetaData list list \<Rightarrow>
   slice \<times> GetStats \<times> (FileMetaData \<times> int) option \<times> 's \<Rightarrow> (Status \<times> slice \<times> GetStats \<times> 's) option"
where
  "get_levels tget ucmp ikey ukey level [] (val, stats, last_read, st) = Some (NotFound [] [], val, stats, st)"
| "get_levels tget ucmp ikey ukey level (files # rest) gs = do {
     fs \<leftarrow> level_candidates ucmp level files ukey ikey;
     (s, val, stats, last_read, st) \<leftarrow> get_files tget ucmp ikey ukey level fs gs;
     case s of
       Some s \<Rightarrow> Some (s, val, stats, st)
     | None \<Rightarrow> get_levels tget ucmp ikey ukey (Suc level) rest (val, stats, last_read, st) }"

definition Version_Get ::
  "'s table_get \<Rightarrow> (slice \<Rightarrow> slice \<Rightarrow> int) \<Rightarrow> 'd Version \<Rightarrow> LookupKey \<Rightarrow> slice \<Rightarrow> 's \<Rightarrow> (Status \<times> slice \<times> GetStats \<times> 's) option"
where
  "Version_Get tget ucmp v k val st =
     get_levels tget ucmp (lk_internal_key k) (lk_user_key k) 0 (v_files v)
       (val, \<lparr>gs_seek_file = None, gs_seek_file_level = - 1\<rparr>, None, st)"

text \<open>The file that was charged is one of the version; its remaining seeks are counted there.\<close>

definition UpdateStats :: "GetStats \<Rightarrow> 'd Version \<Rightarrow> (bool \<times> 'd Version) option" where
  "UpdateStats stats v =
     (case gs_seek_file stats of
        None \<Rightarrow> Some (False, v)
      | Some f \<Rightarrow>
          (case find (\<lambda>g. number g = number f) (concat (v_files v)) of
             None \<Rightarrow> None
           | Some g \<Rightarrow>
               let g = g\<lparr>allowed_seeks := allowed_seeks g - 1\<rparr>;
                   v = v\<lparr>v_files := map (map (\<lambda>h. if number h = number g then g else h)) (v_files v)\<rparr> in
               if allowed_seeks g \<le> 0 \<and> v_file_to_compact v = None
               then Some (True, v\<lparr>v_file_to_compact := Some g, v_file_to_compact_level := gs_seek_file_level stats\<rparr>)
               else Some (False, v)))"

definition sample_match :: "GetStats \<times> nat \<Rightarrow> nat \<Rightarrow> FileMetaData \<Rightarrow> bool \<times> GetStats \<times> nat" where
  "sample_match st level f =
     (let matches = snd st + 1;
          stats = (if matches = 1 then \<lparr>gs_seek_file = Some f, gs_seek_file_level = int level\<rparr> else fst st) in
      (matches < 2, stats, matches))"

definition RecordReadSample :: "(slice \<Rightarrow> slice \<Rightarrow> int) \<Rightarrow> slice \<Rightarrow> 'd Version \<Rightarrow> (bool \<times> 'd Version) option" where
  "RecordReadSample ucmp ikey v =
     (case ParseInternalKey ikey of
        None \<Rightarrow> Some (False, v)
      | Some pkey \<Rightarrow> do {
          (stats, matches) \<leftarrow> ForEachOverlapping ucmp v (user_key pkey) ikey sample_match
            (\<lparr>gs_seek_file = None, gs_seek_file_level = 0\<rparr>, 0);
          if matches \<ge> 2 then UpdateStats stats v else Some (False, v) })"

section \<open>Overlapping files\<close>

text \<open>
  In level 0 a file that sticks out of the range widens it, and the search starts again. That it ends is a property of
  the comparator.
\<close>

definition before_range :: "(slice \<Rightarrow> slice \<Rightarrow> int) \<Rightarrow> slice option \<Rightarrow> FileMetaData \<Rightarrow> bool" where
  "before_range ucmp user_begin f = (case user_begin of None \<Rightarrow> False | Some b \<Rightarrow> ucmp (largest_user_key f) b < 0)"

definition after_range :: "(slice \<Rightarrow> slice \<Rightarrow> int) \<Rightarrow> slice option \<Rightarrow> FileMetaData \<Rightarrow> bool" where
  "after_range ucmp user_end f = (case user_end of None \<Rightarrow> False | Some e \<Rightarrow> ucmp (smallest_user_key f) e > 0)"

definition widens_begin :: "(slice \<Rightarrow> slice \<Rightarrow> int) \<Rightarrow> slice option \<Rightarrow> FileMetaData \<Rightarrow> bool" where
  "widens_begin ucmp user_begin f = (case user_begin of None \<Rightarrow> False | Some b \<Rightarrow> ucmp (smallest_user_key f) b < 0)"

definition widens_end :: "(slice \<Rightarrow> slice \<Rightarrow> int) \<Rightarrow> slice option \<Rightarrow> FileMetaData \<Rightarrow> bool" where
  "widens_end ucmp user_end f = (case user_end of None \<Rightarrow> False | Some e \<Rightarrow> ucmp (largest_user_key f) e > 0)"

partial_function (option) overlapping_loop ::
  "(slice \<Rightarrow> slice \<Rightarrow> int) \<Rightarrow> nat \<Rightarrow> FileMetaData list \<Rightarrow> slice option \<Rightarrow> slice option \<Rightarrow> nat \<Rightarrow> FileMetaData list \<Rightarrow> FileMetaData list option"
where
  "overlapping_loop ucmp level files user_begin user_end i inputs =
     (if i < length files then
        let f = files ! i in
        if before_range ucmp user_begin f \<or> after_range ucmp user_end f
        then overlapping_loop ucmp level files user_begin user_end (i + 1) inputs
        else if level = 0 \<and> widens_begin ucmp user_begin f
          then overlapping_loop ucmp level files (Some (smallest_user_key f)) user_end 0 []
        else if level = 0 \<and> widens_end ucmp user_end f
          then overlapping_loop ucmp level files user_begin (Some (largest_user_key f)) 0 []
        else overlapping_loop ucmp level files user_begin user_end (i + 1) (inputs @ [f])
      else Some inputs)"

definition GetOverlappingInputs ::
  "(slice \<Rightarrow> slice \<Rightarrow> int) \<Rightarrow> 'd Version \<Rightarrow> nat \<Rightarrow> slice option \<Rightarrow> slice option \<Rightarrow> FileMetaData list option"
where
  "GetOverlappingInputs ucmp v level begin_key end_key =
     (if level \<ge> kNumLevels then None
      else overlapping_loop ucmp level (level_files v level) (map_option ExtractUserKey begin_key) (map_option ExtractUserKey end_key) 0 [])"

definition OverlapInLevel ::
  "(slice \<Rightarrow> slice \<Rightarrow> int) \<Rightarrow> 'd Version \<Rightarrow> nat \<Rightarrow> slice option \<Rightarrow> slice option \<Rightarrow> bool option"
where
  "OverlapInLevel ucmp v level lo hi = SomeFileOverlapsRange ucmp (level > 0) (level_files v level) lo hi"

definition kMaxMemCompactLevel :: nat where "kMaxMemCompactLevel = 2"

text \<open>The loop of \<open>PickLevelForMemTableOutput\<close>; \<open>n\<close> is how often it may still be entered.\<close>

fun pick_level_loop ::
  "(slice \<Rightarrow> slice \<Rightarrow> int) \<Rightarrow> Options \<Rightarrow> 'd Version \<Rightarrow> slice \<Rightarrow> slice \<Rightarrow> nat \<Rightarrow> nat \<Rightarrow> nat option"
where
  "pick_level_loop ucmp opt v lo hi 0 level = Some level"
| "pick_level_loop ucmp opt v lo hi (Suc n) level = do {
     overlap \<leftarrow> OverlapInLevel ucmp v (level + 1) (Some lo) (Some hi);
     if overlap then Some level
     else do {
       too_much \<leftarrow> (if level + 2 < kNumLevels then do {
           overlaps \<leftarrow> GetOverlappingInputs ucmp v (level + 2) (Some (InternalKey_init lo kMaxSequenceNumber kValueTypeForSeek))
             (Some (InternalKey_init hi 0 kTypeDeletion));
           m \<leftarrow> MaxGrandParentOverlapBytes opt;
           Some (TotalFileSize overlaps > m) } else Some False);
       if too_much then Some level else pick_level_loop ucmp opt v lo hi n (level + 1) } }"

definition PickLevelForMemTableOutput ::
  "(slice \<Rightarrow> slice \<Rightarrow> int) \<Rightarrow> Options \<Rightarrow> 'd Version \<Rightarrow> slice \<Rightarrow> slice \<Rightarrow> nat option"
where
  "PickLevelForMemTableOutput ucmp opt v lo hi = do {
     overlap \<leftarrow> OverlapInLevel ucmp v 0 (Some lo) (Some hi);
     if \<not> overlap then pick_level_loop ucmp opt v lo hi kMaxMemCompactLevel 0 else Some 0 }"

section \<open>The binary search\<close>

lemma word_mid:
  fixes l r :: u32
  assumes "unat l + unat r < 2 ^ 32"
  shows "unat ((l + r) div 2) = (unat l + unat r) div 2"
  using assms by (simp add: unat_div_distrib unat_add_lem [THEN iffD1])

lemma FindFile_loop_on:
  assumes n: "\<forall>i < length files. ikc_Compare ucmp (largest (files ! i)) key < 0 \<longleftrightarrow> i < n" and len: "length files < 2 ^ 31"
  shows "unat l \<le> n \<Longrightarrow> n \<le> unat r \<Longrightarrow> unat r \<le> length files \<Longrightarrow> map_option unat (FindFile_loop ucmp files key l r) = Some n"
proof (induction "unat r - unat l" arbitrary: l r rule: less_induct)
  case less
  show ?case
  proof (cases "l < r")
    case False
    then have "unat r = n" using less.prems by (simp add: word_less_nat_alt)
    then show ?thesis using False by (subst FindFile_loop.simps) simp
  next
    case True
    let ?m = "(l + r) div 2"
    have lr: "unat l < unat r" using True by (simp add: word_less_nat_alt)
    have m: "unat ?m = (unat l + unat r) div 2" using less.prems(3) lr len by (intro word_mid) simp
    then have b: "unat l \<le> unat ?m" "unat ?m < unat r" using lr by simp_all
    then have mf: "unat ?m < length files" using less.prems(3) by simp
    show ?thesis
    proof (cases "ikc_Compare ucmp (largest (files ! unat ?m)) key < 0")
      case lt: True
      have s: "unat (?m + 1) = unat ?m + 1" using b(2) unat_lt_len [of r] by (simp add: unat_word_ariths)
      have "unat ?m < n" using n mf lt by blast
      then have "map_option unat (FindFile_loop ucmp files key (?m + 1) r) = Some n"
        using less.prems b by (intro less.hyps) (simp_all add: s)
      then show ?thesis using True mf lt by (subst FindFile_loop.simps) (simp add: Let_def)
    next
      case ge: False
      have "n \<le> unat ?m" using n mf ge by (metis not_le)
      then have "map_option unat (FindFile_loop ucmp files key l ?m) = Some n"
        using less.prems b by (intro less.hyps) simp_all
      then show ?thesis using True mf ge by (subst FindFile_loop.simps) (simp add: Let_def)
    qed
  qed
qed

text \<open>If the files whose largest key is below the target come first, the search counts them.\<close>

lemma FindFile_on:
  assumes "sorted_wrt (\<lambda>f g. ikc_Compare ucmp (largest g) key < 0 \<longrightarrow> ikc_Compare ucmp (largest f) key < 0) files"
    and len: "length files < 2 ^ 31"
  shows "FindFile ucmp files key = Some (length (takeWhile (\<lambda>f. ikc_Compare ucmp (largest f) key < 0) files))"
proof -
  let ?P = "\<lambda>f. ikc_Compare ucmp (largest f) key < 0"
  let ?n = "length (takeWhile ?P files)"
  have before: "?P (files ! i)" if "i < ?n" for i
    using nth_mem [of i "takeWhile ?P files"] that takeWhile_nth [of i ?P files] by (auto dest: set_takeWhileD)
  have "\<not> ?P (files ! i)" if i: "i < length files" "\<not> i < ?n" for i
  proof -
    have n: "?n < length files" using i by simp
    then have at: "\<not> ?P (files ! ?n)" by (rule nth_length_takeWhile)
    have "i = ?n \<or> ?n < i" using i(2) by linarith
    then show ?thesis using assms(1) i(1) at unfolding sorted_wrt_iff_nth_less by blast
  qed
  then have "\<forall>i < length files. ?P (files ! i) \<longleftrightarrow> i < ?n" using before by blast
  from FindFile_loop_on [OF this len, of 0 "word_of_nat (length files)"] len show ?thesis
    by (simp add: FindFile_def unat_of_nat length_takeWhile_le)
qed

section \<open>Overlapping files of a sorted level\<close>

lemma some_overlap_iff: "some_overlap ucmp lo hi files \<longleftrightarrow> (\<exists>f \<in> set files. \<not> AfterFile ucmp lo f \<and> \<not> BeforeFile ucmp hi f)"
  by (induction files) auto

text \<open>The trailer of a key that was made from a sequence number and a type.\<close>

definition key_made :: "slice \<Rightarrow> bool" where
  "key_made k \<longleftrightarrow> trailer k \<le> PackSequenceAndType kMaxSequenceNumber kValueTypeForSeek"

text \<open>An internal key, with a user key of the kind the comparator takes.\<close>

definition ikey_valid :: "(slice \<Rightarrow> bool) \<Rightarrow> slice \<Rightarrow> bool" where
  "ikey_valid uvalid k \<longleftrightarrow> 8 \<le> length k \<and> uvalid (ExtractUserKey k)"

definition meta_ok :: "(slice \<Rightarrow> slice \<Rightarrow> int) \<Rightarrow> (slice \<Rightarrow> bool) \<Rightarrow> FileMetaData \<Rightarrow> bool" where
  "meta_ok ucmp uvalid f \<longleftrightarrow> ikey_valid uvalid (smallest f) \<and> ikey_valid uvalid (largest f) \<and> key_made (largest f) \<and>
     ikc_Compare ucmp (smallest f) (largest f) \<le> 0"

definition level_sorted :: "(slice \<Rightarrow> slice \<Rightarrow> int) \<Rightarrow> (slice \<Rightarrow> bool) \<Rightarrow> FileMetaData list \<Rightarrow> bool" where
  "level_sorted ucmp uvalid files \<longleftrightarrow> (\<forall>f \<in> set files. meta_ok ucmp uvalid f) \<and>
     sorted_wrt (\<lambda>f g. ikc_Compare ucmp (largest f) (smallest g) < 0) files \<and> length files < 2 ^ 31"

context user_order
begin

lemma ikey_valid_internal [simp]: "ikey_valid uvalid k \<longleftrightarrow> internal_valid k"
  by (simp add: ikey_valid_def internal_valid_def)

lemma meta_ok_valid:
  assumes "meta_ok ucmp uvalid f"
  shows "uvalid (smallest_user_key f)" "uvalid (largest_user_key f)" "ucmp (smallest_user_key f) (largest_user_key f) \<le> 0"
proof -
  show "uvalid (smallest_user_key f)" "uvalid (largest_user_key f)"
    using assms by (simp_all add: meta_ok_def internal_valid_def smallest_user_key_def largest_user_key_def)
  have "internal_valid (smallest f)" "internal_valid (largest f)" "smallest f = largest f \<or> ikc_Compare ucmp (smallest f) (largest f) < 0"
    using assms internal.le_iff [of "smallest f" "largest f"] by (auto simp: meta_ok_def)
  then show "ucmp (smallest_user_key f) (largest_user_key f) \<le> 0"
    using \<open>uvalid (largest_user_key f)\<close> by (auto simp: smallest_user_key_def largest_user_key_def internal_less)
qed

lemma largest_ascend:
  assumes "level_sorted ucmp uvalid files"
  shows "sorted_wrt (\<lambda>f g. ikc_Compare ucmp (largest f) (smallest g) < 0 \<and> ikc_Compare ucmp (largest f) (largest g) < 0) files"
proof (rule sorted_wrt_mono_rel [of files "\<lambda>f g. ikc_Compare ucmp (largest f) (smallest g) < 0"])
  show "sorted_wrt (\<lambda>f g. ikc_Compare ucmp (largest f) (smallest g) < 0) files" using assms by (simp add: level_sorted_def)
  fix f g assume "f \<in> set files" "g \<in> set files" "ikc_Compare ucmp (largest f) (smallest g) < 0"
  moreover from this have "meta_ok ucmp uvalid f" "meta_ok ucmp uvalid g" using assms by (simp_all add: level_sorted_def)
  ultimately show "ikc_Compare ucmp (largest f) (smallest g) < 0 \<and> ikc_Compare ucmp (largest f) (largest g) < 0"
    using internal.less_le_trans [of "largest f" "smallest g" "largest g"] by (simp add: meta_ok_def)
qed

lemma FindFile_sorted:
  assumes "level_sorted ucmp uvalid files" "internal_valid key"
  shows "FindFile ucmp files key = Some (length (takeWhile (\<lambda>f. ikc_Compare ucmp (largest f) key < 0) files))"
proof (rule FindFile_on)
  show "sorted_wrt (\<lambda>f g. ikc_Compare ucmp (largest g) key < 0 \<longrightarrow> ikc_Compare ucmp (largest f) key < 0) files"
  proof (rule sorted_wrt_mono_rel [OF _ largest_ascend [OF assms(1)]])
    fix f g assume "f \<in> set files" "g \<in> set files"
      and "ikc_Compare ucmp (largest f) (smallest g) < 0 \<and> ikc_Compare ucmp (largest f) (largest g) < 0"
    then show "ikc_Compare ucmp (largest g) key < 0 \<longrightarrow> ikc_Compare ucmp (largest f) key < 0"
      using internal.cmp_trans [of "largest f" "largest g" key] assms by (simp add: level_sorted_def meta_ok_def)
  qed
  show "length files < 2 ^ 31" using assms(1) by (simp add: level_sorted_def)
qed

lemma smallest_ascend:
  assumes "level_sorted ucmp uvalid files" "i < j" "j < length files"
  shows "ucmp (smallest_user_key (files ! i)) (smallest_user_key (files ! j)) \<le> 0"
proof -
  have f: "meta_ok ucmp uvalid (files ! i)" "meta_ok ucmp uvalid (files ! j)" "ikc_Compare ucmp (largest (files ! i)) (smallest (files ! j)) < 0"
    using assms by (auto simp: level_sorted_def sorted_wrt_iff_nth_less)
  then have "ucmp (largest_user_key (files ! i)) (smallest_user_key (files ! j)) \<le> 0"
    using meta_ok_valid(1) [OF f(2)] by (auto simp: meta_ok_def internal_less smallest_user_key_def largest_user_key_def)
  then show ?thesis
    using le_trans [OF meta_ok_valid(1,2) [OF f(1)] meta_ok_valid(1) [OF f(2)]] meta_ok_valid(3) [OF f(1)] by blast
qed

lemma before_mono:
  assumes "meta_ok ucmp uvalid f" "meta_ok ucmp uvalid g" "ucmp (smallest_user_key f) (smallest_user_key g) \<le> 0" "\<not> BeforeFile ucmp hi g"
    and "\<forall>k. hi = Some k \<longrightarrow> uvalid k"
  shows "\<not> BeforeFile ucmp hi f"
proof (cases hi)
  case (Some h)
  have v: "uvalid h" "uvalid (smallest_user_key f)" "uvalid (smallest_user_key g)"
    using assms Some meta_ok_valid(1) by blast+
  have "ucmp (smallest_user_key g) h \<le> 0" using assms(4) Some not_less [OF v(1,3)] by (simp add: BeforeFile_def)
  then have "ucmp (smallest_user_key f) h \<le> 0" by (rule le_trans [OF v(2,3,1) assms(3)])
  then show ?thesis using Some not_less [OF v(1,2)] by (simp add: BeforeFile_def)
qed (simp add: BeforeFile_def)

text \<open>The earliest internal key of a user key.\<close>

lemma below_earliest:
  assumes "meta_ok ucmp uvalid f" "uvalid k"
  shows "ikc_Compare ucmp (largest f) (InternalKey_init k kMaxSequenceNumber kValueTypeForSeek) < 0 \<longleftrightarrow>
    AfterFile ucmp (Some k) f"
proof -
  let ?s = "InternalKey_init k kMaxSequenceNumber kValueTypeForSeek"
  have s: "?s = shortened k" by (simp add: InternalKey_init_def shortened_def AppendInternalKey_eq)
  have t: "trailer (shortened k) = PackSequenceAndType kMaxSequenceNumber kValueTypeForSeek" "ExtractUserKey (shortened k) = k"
    by (simp_all add: shortened_def)
  have "\<not> trailer (shortened k) < trailer (largest f)" using assms(1) by (simp add: meta_ok_def key_made_def t linorder_not_less)
  then show ?thesis
    using assms meta_ok_valid(2) [OF assms(1)] gt_iff [of k "largest_user_key f"] unfolding s
    by (simp add: AfterFile_def largest_user_key_def internal_less [OF _ internal_valid_shortened] meta_ok_def t)
qed

text \<open>The binary search decides the overlap like the linear search.\<close>

lemma SomeFileOverlapsRange_sorted:
  assumes srt: "level_sorted ucmp uvalid files" and v: "\<forall>k. lo = Some k \<longrightarrow> uvalid k" "\<forall>k. hi = Some k \<longrightarrow> uvalid k"
  shows "SomeFileOverlapsRange ucmp True files lo hi = SomeFileOverlapsRange ucmp False files lo hi"
proof -
  let ?P = "AfterFile ucmp lo"
  define n where "n = length (takeWhile ?P files)"
  have fok: "meta_ok ucmp uvalid f" if "f \<in> set files" for f using srt that by (simp add: level_sorted_def)
  have index: "(case lo of None \<Rightarrow> Some 0 | Some k \<Rightarrow> FindFile ucmp files (InternalKey_init k kMaxSequenceNumber kValueTypeForSeek)) = Some n"
  proof (cases lo)
    case None
    then have "takeWhile ?P files = []" by (cases files) (simp_all add: AfterFile_def)
    then show ?thesis using None by (simp add: n_def)
  next
    case (Some k)
    have k: "uvalid k" using v(1) Some by simp
    have "internal_valid (InternalKey_init k kMaxSequenceNumber kValueTypeForSeek)"
      using internal_valid_shortened [OF k] by (simp add: InternalKey_init_def shortened_def AppendInternalKey_eq)
    moreover have "takeWhile (\<lambda>f. ikc_Compare ucmp (largest f) (InternalKey_init k kMaxSequenceNumber kValueTypeForSeek) < 0) files = takeWhile ?P files"
      using below_earliest [OF fok k] Some by (intro takeWhile_cong) auto
    ultimately show ?thesis using FindFile_sorted [OF srt] Some by (simp add: n_def)
  qed
  have "\<not> (\<exists>f \<in> set files. \<not> ?P f \<and> \<not> BeforeFile ucmp hi f)" if "length files \<le> n"
  proof -
    have "takeWhile ?P files = files" using takeWhile_eq_take [of ?P files] that unfolding n_def by simp
    then show ?thesis unfolding takeWhile_eq_all_conv by blast
  qed
  moreover have "(\<not> BeforeFile ucmp hi (files ! n)) = (\<exists>f \<in> set files. \<not> ?P f \<and> \<not> BeforeFile ucmp hi f)" if n: "n < length files"
  proof
    have at: "\<not> ?P (files ! n)" using n unfolding n_def by (rule nth_length_takeWhile)
    then show "\<not> BeforeFile ucmp hi (files ! n) \<Longrightarrow> \<exists>f \<in> set files. \<not> ?P f \<and> \<not> BeforeFile ucmp hi f" using n by auto
    assume "\<exists>f \<in> set files. \<not> ?P f \<and> \<not> BeforeFile ucmp hi f"
    then obtain j where j: "j < length files" "\<not> ?P (files ! j)" "\<not> BeforeFile ucmp hi (files ! j)" by (metis in_set_conv_nth)
    have "n \<le> j"
    proof (rule ccontr)
      assume "\<not> n \<le> j"
      then have "j < length (takeWhile ?P files)" by (simp add: n_def)
      then have "files ! j \<in> set (takeWhile ?P files)" using nth_mem takeWhile_nth by metis
      then show False using j(2) by (auto dest: set_takeWhileD)
    qed
    then show "\<not> BeforeFile ucmp hi (files ! n)"
      using smallest_ascend [OF srt _ j(1)] j(3) before_mono [of "files ! n" "files ! j" hi] fok n j(1) v(2) by (cases "n = j") auto
  qed
  ultimately show ?thesis by (simp add: SomeFileOverlapsRange_def index some_overlap_iff)
qed

end

section \<open>Overlapping inputs\<close>

definition in_range :: "(slice \<Rightarrow> slice \<Rightarrow> int) \<Rightarrow> slice option \<Rightarrow> slice option \<Rightarrow> FileMetaData \<Rightarrow> bool" where
  "in_range ucmp lo hi f \<longleftrightarrow> \<not> before_range ucmp lo f \<and> \<not> after_range ucmp hi f"

text \<open>Above level 0 the inputs are the files in the range.\<close>

lemma overlapping_loop_level:
  assumes "0 < level"
  shows "i \<le> length files \<Longrightarrow> overlapping_loop ucmp level files lo hi i inputs = Some (inputs @ filter (in_range ucmp lo hi) (drop i files))"
proof (induction "length files - i" arbitrary: i inputs)
  case 0
  then show ?case by (subst overlapping_loop.simps) simp
next
  case (Suc n)
  then have i: "i < length files" by simp
  have IH: "overlapping_loop ucmp level files lo hi (Suc i) xs = Some (xs @ filter (in_range ucmp lo hi) (drop (Suc i) files))" for xs
    using Suc.hyps(1) [of "Suc i" xs] Suc.hyps(2) i by simp
  have "drop i files = files ! i # drop (Suc i) files" using i by (simp add: Cons_nth_drop_Suc)
  then show ?case using i assms by (subst overlapping_loop.simps) (simp add: Let_def IH in_range_def)
qed

lemma GetOverlappingInputs_level:
  assumes "0 < level" "level < kNumLevels"
  shows "GetOverlappingInputs ucmp v level b e =
    Some (filter (in_range ucmp (map_option ExtractUserKey b) (map_option ExtractUserKey e)) (level_files v level))"
  using overlapping_loop_level [OF assms(1), of 0] assms(2) by (simp add: GetOverlappingInputs_def)

text \<open>In level 0: the range, widened to the least one that no file in it sticks out of.\<close>

definition sticks_out :: "(slice \<Rightarrow> slice \<Rightarrow> int) \<Rightarrow> slice option \<Rightarrow> slice option \<Rightarrow> FileMetaData \<Rightarrow> bool" where
  "sticks_out ucmp lo hi f \<longleftrightarrow> widens_begin ucmp lo f \<or> widens_end ucmp hi f"

definition closed_range :: "(slice \<Rightarrow> slice \<Rightarrow> int) \<Rightarrow> FileMetaData list \<Rightarrow> slice option \<Rightarrow> slice option \<Rightarrow> bool" where
  "closed_range ucmp files lo hi \<longleftrightarrow> (\<forall>f \<in> set files. in_range ucmp lo hi f \<longrightarrow> \<not> sticks_out ucmp lo hi f)"

text \<open>\<open>None\<close> is before all keys on the left and behind all keys on the right.\<close>

definition range_le :: "(slice \<Rightarrow> slice \<Rightarrow> int) \<Rightarrow> slice option \<times> slice option \<Rightarrow> slice option \<times> slice option \<Rightarrow> bool" where
  "range_le ucmp r r' \<longleftrightarrow>
     (case fst r' of None \<Rightarrow> True | Some b' \<Rightarrow> (case fst r of None \<Rightarrow> False | Some b \<Rightarrow> ucmp b' b \<le> 0)) \<and>
     (case snd r' of None \<Rightarrow> True | Some e' \<Rightarrow> (case snd r of None \<Rightarrow> False | Some e \<Rightarrow> ucmp e e' \<le> 0))"

definition range_valid :: "(slice \<Rightarrow> bool) \<Rightarrow> slice option \<times> slice option \<Rightarrow> bool" where
  "range_valid uvalid r \<longleftrightarrow> (\<forall>k. fst r = Some k \<longrightarrow> uvalid k) \<and> (\<forall>k. snd r = Some k \<longrightarrow> uvalid k)"

text \<open>The least range that contains the given one and from which no file of the level sticks out.\<close>

definition least_closed ::
  "(slice \<Rightarrow> slice \<Rightarrow> int) \<Rightarrow> (slice \<Rightarrow> bool) \<Rightarrow> FileMetaData list \<Rightarrow> slice option \<Rightarrow> slice option \<Rightarrow> slice option \<Rightarrow> slice option \<Rightarrow> bool"
where
  "least_closed ucmp uvalid files lo hi lo' hi' \<longleftrightarrow> range_valid uvalid (lo', hi') \<and> range_le ucmp (lo, hi) (lo', hi') \<and>
     closed_range ucmp files lo' hi' \<and>
     (\<forall>r. range_valid uvalid r \<longrightarrow> closed_range ucmp files (fst r) (snd r) \<longrightarrow> range_le ucmp (lo, hi) r \<longrightarrow> range_le ucmp (lo', hi') r)"

context user_order
begin

lemma range_le_refl: "range_valid uvalid r \<Longrightarrow> range_le ucmp r r"
  by (auto simp: range_le_def range_valid_def split: option.splits)

lemma range_le_trans:
  "range_valid uvalid r1 \<Longrightarrow> range_valid uvalid r2 \<Longrightarrow> range_valid uvalid r3 \<Longrightarrow> range_le ucmp r1 r2 \<Longrightarrow> range_le ucmp r2 r3 \<Longrightarrow> range_le ucmp r1 r3"
  unfolding range_le_def range_valid_def by (auto split: option.splits intro: le_trans)

text \<open>How many files stick out on either side: what a restart decreases.\<close>

definition outside :: "FileMetaData list \<Rightarrow> slice option \<Rightarrow> slice option \<Rightarrow> nat" where
  "outside files lo hi = length (filter (widens_begin ucmp lo) files) + length (filter (widens_end ucmp hi) files)"

lemma filter_length_less:
  assumes "\<forall>x \<in> set xs. Q x \<longrightarrow> P x" "y \<in> set xs" "P y" "\<not> Q y"
  shows "length (filter Q xs) < length (filter P xs)"
proof -
  have "filter Q xs = filter Q (filter P xs)" using assms(1) by (induction xs) auto
  moreover have "length (filter Q (filter P xs)) < length (filter P xs)"
    by (rule length_filter_less [of y]) (use assms in simp_all)
  ultimately show ?thesis by simp
qed

lemma widen_begin:
  assumes files: "\<forall>g \<in> set files. meta_ok ucmp uvalid g" and f: "f \<in> set files" and w: "widens_begin ucmp lo f" and v: "range_valid uvalid (lo, hi)"
  shows "outside files (Some (smallest_user_key f)) hi < outside files lo hi" "range_valid uvalid (Some (smallest_user_key f), hi)"
    "range_le ucmp (lo, hi) (Some (smallest_user_key f), hi)"
proof -
  obtain b where b: "lo = Some b" "ucmp (smallest_user_key f) b < 0" using w by (auto simp: widens_begin_def split: option.splits)
  have vb: "uvalid b" "uvalid (smallest_user_key f)" using v b(1) meta_ok_valid(1) files f by (auto simp: range_valid_def)
  have "widens_begin ucmp (Some (smallest_user_key f)) g \<longrightarrow> widens_begin ucmp lo g" if "g \<in> set files" for g
    using meta_ok_valid(1) files that vb b cmp_trans [of "smallest_user_key g" "smallest_user_key f" b] by (auto simp: widens_begin_def)
  moreover have "\<not> widens_begin ucmp (Some (smallest_user_key f)) f" using vb by (simp add: widens_begin_def)
  ultimately show "outside files (Some (smallest_user_key f)) hi < outside files lo hi"
    using filter_length_less [of files "widens_begin ucmp (Some (smallest_user_key f))" "widens_begin ucmp lo" f] f w by (simp add: outside_def)
  show "range_valid uvalid (Some (smallest_user_key f), hi)" using v vb(2) by (simp add: range_valid_def)
  show "range_le ucmp (lo, hi) (Some (smallest_user_key f), hi)"
    using v b by (auto simp: range_le_def range_valid_def split: option.splits)
qed

lemma widen_end:
  assumes files: "\<forall>g \<in> set files. meta_ok ucmp uvalid g" and f: "f \<in> set files" and w: "widens_end ucmp hi f" and v: "range_valid uvalid (lo, hi)"
  shows "outside files lo (Some (largest_user_key f)) < outside files lo hi" "range_valid uvalid (lo, Some (largest_user_key f))"
    "range_le ucmp (lo, hi) (lo, Some (largest_user_key f))"
proof -
  obtain e where e: "hi = Some e" "0 < ucmp (largest_user_key f) e" using w by (auto simp: widens_end_def split: option.splits)
  have ve: "uvalid e" "uvalid (largest_user_key f)" using v e(1) meta_ok_valid(2) files f by (auto simp: range_valid_def)
  have lt: "ucmp e (largest_user_key f) < 0" using e(2) ve by (simp add: gt_iff)
  have "widens_end ucmp (Some (largest_user_key f)) g \<longrightarrow> widens_end ucmp hi g" if "g \<in> set files" for g
  proof -
    have "uvalid (largest_user_key g)" using meta_ok_valid(2) files that by blast
    then show ?thesis using ve e cmp_trans [of e "largest_user_key f" "largest_user_key g"] lt by (auto simp: widens_end_def gt_iff)
  qed
  moreover have "\<not> widens_end ucmp (Some (largest_user_key f)) f" using ve by (simp add: widens_end_def)
  ultimately show "outside files lo (Some (largest_user_key f)) < outside files lo hi"
    using filter_length_less [of files "widens_end ucmp (Some (largest_user_key f))" "widens_end ucmp hi" f] f w by (simp add: outside_def)
  show "range_valid uvalid (lo, Some (largest_user_key f))" using v ve(2) by (simp add: range_valid_def)
  show "range_le ucmp (lo, hi) (lo, Some (largest_user_key f))"
    using v e lt by (auto simp: range_le_def range_valid_def split: option.splits)
qed

text \<open>A closed range around another one is around everything that the search widens it to.\<close>

lemma widen_below_closed:
  assumes f: "meta_ok ucmp uvalid f" "f \<in> set files" and i: "in_range ucmp lo hi f" and v: "range_valid uvalid (lo, hi)" "range_valid uvalid r"
    and r: "closed_range ucmp files (fst r) (snd r)" "range_le ucmp (lo, hi) r"
  shows "in_range ucmp (fst r) (snd r) f" "\<not> widens_begin ucmp (fst r) f" "\<not> widens_end ucmp (snd r) f"
proof -
  note fv = meta_ok_valid [OF f(1)]
  have "\<not> before_range ucmp (fst r) f"
    using i v r(2) fv unfolding in_range_def before_range_def range_le_def range_valid_def fst_conv
    by (auto split: option.splits dest: not_less [THEN iffD1, rotated 2] simp: not_less intro: le_trans)
  moreover have "\<not> after_range ucmp (snd r) f"
    using i v r(2) fv unfolding in_range_def after_range_def range_le_def range_valid_def snd_conv
    by (auto split: option.splits simp: gt_iff not_less intro: le_trans)
  ultimately show i': "in_range ucmp (fst r) (snd r) f" by (simp add: in_range_def)
  show "\<not> widens_begin ucmp (fst r) f" "\<not> widens_end ucmp (snd r) f"
    using r(1) f(2) i' by (auto simp: closed_range_def sticks_out_def)
qed

lemma least_closed_widen:
  assumes "least_closed ucmp uvalid files lo1 hi1 lo' hi'" "range_valid uvalid (lo, hi)" "range_valid uvalid (lo1, hi1)" "range_le ucmp (lo, hi) (lo1, hi1)"
    and "\<And>r. range_valid uvalid r \<Longrightarrow> closed_range ucmp files (fst r) (snd r) \<Longrightarrow> range_le ucmp (lo, hi) r \<Longrightarrow> range_le ucmp (lo1, hi1) r"
  shows "least_closed ucmp uvalid files lo hi lo' hi'"
  using assms range_le_trans [OF assms(2,3) _ assms(4)] unfolding least_closed_def by blast

lemma overlapping_loop_0:
  assumes files: "\<forall>f \<in> set files. meta_ok ucmp uvalid f"
  shows "range_valid uvalid (lo, hi) \<Longrightarrow> i \<le> length files \<Longrightarrow> \<forall>f \<in> set (take i files). in_range ucmp lo hi f \<longrightarrow> \<not> sticks_out ucmp lo hi f \<Longrightarrow>
    \<exists>lo' hi'. overlapping_loop ucmp 0 files lo hi i (filter (in_range ucmp lo hi) (take i files)) = Some (filter (in_range ucmp lo' hi') files) \<and>
      least_closed ucmp uvalid files lo hi lo' hi'"
proof (induction "outside files lo hi * Suc (length files) + (length files - i)" arbitrary: lo hi i rule: less_induct)
  case less
  note v = less.prems(1) and inv = less.prems(3)
  show ?case
  proof (cases "i < length files")
    case False
    then have "i = length files" using less.prems(2) by simp
    then show ?thesis using inv v range_le_refl [OF v]
      by (subst overlapping_loop.simps) (auto simp: least_closed_def closed_range_def)
  next
    case i: True
    let ?f = "files ! i"
    have f: "?f \<in> set files" "meta_ok ucmp uvalid ?f" using i files by simp_all
    have take: "take (Suc i) files = take i files @ [?f]" using i by (simp add: take_Suc_conv_app_nth)
    have restart: "\<exists>lo' hi'. overlapping_loop ucmp 0 files lo1 hi1 0 [] = Some (filter (in_range ucmp lo' hi') files) \<and> least_closed ucmp uvalid files lo1 hi1 lo' hi'"
      if o: "outside files lo1 hi1 < outside files lo hi" and v1: "range_valid uvalid (lo1, hi1)" for lo1 hi1
    proof -
      have "outside files lo1 hi1 * Suc (length files) + (length files - 0) < outside files lo hi * Suc (length files)"
        using mult_le_mono1 [OF Suc_leI [OF o], of "Suc (length files)"] by simp
      then show ?thesis using less.hyps [of lo1 hi1 0] v1 by simp
    qed
    have continue: "\<exists>lo' hi'. overlapping_loop ucmp 0 files lo hi (i + 1) (filter (in_range ucmp lo hi) (take (Suc i) files)) =
        Some (filter (in_range ucmp lo' hi') files) \<and> least_closed ucmp uvalid files lo hi lo' hi'"
      if "in_range ucmp lo hi ?f \<longrightarrow> \<not> sticks_out ucmp lo hi ?f"
      using less.hyps [of lo hi "Suc i"] v i inv that unfolding take by auto
    consider (out) "\<not> in_range ucmp lo hi ?f" | (wb) "in_range ucmp lo hi ?f" "widens_begin ucmp lo ?f"
      | (we) "in_range ucmp lo hi ?f" "\<not> widens_begin ucmp lo ?f" "widens_end ucmp hi ?f"
      | (inside) "in_range ucmp lo hi ?f" "\<not> sticks_out ucmp lo hi ?f" by (auto simp: sticks_out_def)
    then show ?thesis
    proof cases
      case out
      then show ?thesis using i continue unfolding take
        by (subst overlapping_loop.simps) (auto simp: in_range_def Let_def)
    next
      case wb
      note w = widen_begin [OF files f(1) wb(2) v]
      from restart [OF w(1,2)] obtain lo' hi' where r: "overlapping_loop ucmp 0 files (Some (smallest_user_key ?f)) hi 0 [] =
          Some (filter (in_range ucmp lo' hi') files)" "least_closed ucmp uvalid files (Some (smallest_user_key ?f)) hi lo' hi'" by blast
      have "range_le ucmp (Some (smallest_user_key ?f), hi) r" if "range_valid uvalid r" "closed_range ucmp files (fst r) (snd r)" "range_le ucmp (lo, hi) r" for r
        using widen_below_closed [OF f(2,1) wb(1) v that] that meta_ok_valid(1) [OF f(2)] unfolding range_le_def range_valid_def widens_begin_def
        by (auto split: option.splits simp: not_less)
      from least_closed_widen [OF r(2) v w(2,3) this] show ?thesis using r(1) i wb
        by (subst overlapping_loop.simps) (auto simp: in_range_def Let_def)
    next
      case we
      note w = widen_end [OF files f(1) we(3) v]
      from restart [OF w(1,2)] obtain lo' hi' where r: "overlapping_loop ucmp 0 files lo (Some (largest_user_key ?f)) 0 [] =
          Some (filter (in_range ucmp lo' hi') files)" "least_closed ucmp uvalid files lo (Some (largest_user_key ?f)) lo' hi'" by blast
      have "range_le ucmp (lo, Some (largest_user_key ?f)) r" if "range_valid uvalid r" "closed_range ucmp files (fst r) (snd r)" "range_le ucmp (lo, hi) r" for r
        using widen_below_closed [OF f(2,1) we(1) v that] that meta_ok_valid(2) [OF f(2)] unfolding range_le_def range_valid_def widens_end_def
        by (auto split: option.splits simp: gt_iff not_less)
      from least_closed_widen [OF r(2) v w(2,3) this] show ?thesis using r(1) i we
        by (subst overlapping_loop.simps) (auto simp: in_range_def Let_def)
    next
      case inside
      then show ?thesis using i continue unfolding take
        by (subst overlapping_loop.simps) (auto simp: in_range_def sticks_out_def Let_def)
    qed
  qed
qed

end

end
