(* ===== verification/Lv_Version_Get.thy ===== *)
theory Lv_Version_Get
  imports Lv_Version
begin

text \<open>
  A lookup in a version, \<open>Version::Get\<close> of \<open>db/version_set.cc\<close>: over any source of tables that keeps the contract of a
  lookup in one table (\<open>table_source\<close>), it returns what a snapshot sees of the operations in all tables of the version,
  if a table that is searched earlier has the newer operations of a key (\<open>newer_first\<close>).
\<close>

section \<open>Operations of a table\<close>

definition lookup_ikey :: "slice \<Rightarrow> SequenceNumber \<Rightarrow> slice" where
  "lookup_ikey u s = u @ EncodeFixed64 (PackSequenceAndType s kTypeValue)"

lemma ParseInternalKey_op: "op_seq o1 \<le> kMaxSequenceNumber \<Longrightarrow>
    ParseInternalKey (op_ikey o1) = Some \<lparr>user_key = op_key o1, sequence = op_seq o1, vtype = op_type o1\<rparr>"
  using ParseInternalKey_Append [of "\<lparr>user_key = op_key o1, sequence = op_seq o1, vtype = op_type o1\<rparr>"]
  by (simp add: AppendInternalKey_eq op_ikey_def)

text \<open>The operations in a table of the database, in the order of their internal keys.\<close>

definition op_valid :: "(slice \<Rightarrow> bool) \<Rightarrow> operation \<Rightarrow> bool" where
  "op_valid uvalid o1 \<longleftrightarrow> op_seq o1 \<le> kMaxSequenceNumber \<and> uvalid (op_key o1)"

definition table_sorted :: "(slice \<Rightarrow> slice \<Rightarrow> int) \<Rightarrow> (slice \<Rightarrow> bool) \<Rightarrow> operation list \<Rightarrow> bool" where
  "table_sorted ucmp uvalid ops \<longleftrightarrow> (\<forall>o1 \<in> set ops. op_valid uvalid o1) \<and>
     sorted_wrt (\<lambda>a b. ikc_Compare ucmp (op_ikey a) (op_ikey b) < 0) ops"

context user_order
begin

lemma op_ikey_valid: "op_valid uvalid o1 \<Longrightarrow> internal_valid (op_ikey o1)"
  by (simp add: op_valid_def internal_valid_def op_ikey_def)

lemma lookup_ikey_valid: "uvalid u \<Longrightarrow> internal_valid (lookup_ikey u s)"
  by (simp add: internal_valid_def lookup_ikey_def)

lemma op_before_lookup:
  assumes "op_valid uvalid o1" "uvalid u" "s \<le> kMaxSequenceNumber"
  shows "ikc_Compare ucmp (op_ikey o1) (lookup_ikey u s) < 0 \<longleftrightarrow> ucmp (op_key o1) u < 0 \<or> op_key o1 = u \<and> s < op_seq o1"
proof -
  have "unat (type_code t) \<le> 1" for t by (cases t) (simp_all add: type_code_def)
  note this [of "op_type o1"]
  moreover have "unat (type_code kTypeValue) = 1" by (simp add: type_code_def)
  ultimately show ?thesis
    using assms internal_less [OF op_ikey_valid [OF assms(1)] lookup_ikey_valid [OF assms(2)], of s]
    by (simp add: op_valid_def op_ikey_def lookup_ikey_def word_less_nat_alt unat_Pack) linarith
qed

lemma op_less:
  assumes "op_valid uvalid a" "op_valid uvalid b" "ikc_Compare ucmp (op_ikey a) (op_ikey b) < 0"
  shows "ucmp (op_key a) (op_key b) < 0 \<or> op_key a = op_key b \<and> op_seq b \<le> op_seq a"
proof -
  have t: "unat (type_code t) \<le> 1" for t by (cases t) (simp_all add: type_code_def)
  show ?thesis
    using assms t [of "op_type a"] t [of "op_type b"] internal_less [OF op_ikey_valid [OF assms(1)] op_ikey_valid [OF assms(2)]]
    by (auto simp: op_ikey_def op_valid_def word_less_nat_alt word_le_nat_alt unat_Pack)
qed

lemma visible_hd:
  assumes "op_key o1 = u" "op_seq o1 \<le> s" "\<forall>o2 \<in> set ops. op_key o2 = u \<longrightarrow> op_seq o2 \<le> op_seq o1"
  shows "visible u s (o1 # ops) = Some o1 \<or> (\<exists>o2 \<in> set ops. op_key o2 = u \<and> op_seq o2 = op_seq o1)"
proof (cases "visible u s ops")
  case None
  then show ?thesis using assms(1,2) by (simp add: Let_def)
next
  case (Some r)
  from visible_Some [OF this] have "r \<in> set ops" "op_key r = u" by blast+
  then have "op_seq r \<le> op_seq o1" using assms(3) by blast
  then show ?thesis using assms(1,2) Some \<open>r \<in> set ops\<close> \<open>op_key r = u\<close> by (cases "op_seq r = op_seq o1") (auto simp: Let_def)
qed

text \<open>In a sorted table the first operation that is not before the lookup key decides.\<close>

lemma table_visible:
  assumes tab: "table_sorted ucmp uvalid ops" and dist: "distinct (map (\<lambda>o1. (op_key o1, op_seq o1)) ops)" and u: "uvalid u" "s \<le> kMaxSequenceNumber"
  shows "visible u s ops = (case dropWhile (\<lambda>o1. ikc_Compare ucmp (op_ikey o1) (lookup_ikey u s) < 0) ops of
     [] \<Rightarrow> None | o1 # _ \<Rightarrow> if op_key o1 = u then Some o1 else None)"
  using tab dist
proof (induction ops)
  case (Cons o1 ops)
  let ?P = "\<lambda>o1. ikc_Compare ucmp (op_ikey o1) (lookup_ikey u s) < 0"
  have v: "op_valid uvalid o1" "\<forall>o2 \<in> set ops. op_valid uvalid o2 \<and> ikc_Compare ucmp (op_ikey o1) (op_ikey o2) < 0" "table_sorted ucmp uvalid ops"
    using Cons.prems(1) by (simp_all add: table_sorted_def)
  have before: "?P o1 \<longleftrightarrow> ucmp (op_key o1) u < 0 \<or> op_key o1 = u \<and> s < op_seq o1" by (rule op_before_lookup [OF v(1) u])
  show ?case
  proof (cases "?P o1")
    case True
    then have "\<not> (op_key o1 = u \<and> op_seq o1 \<le> s)" using before refl [OF u(1)] by (auto simp: not_less [symmetric] dest: leD)
    then show ?thesis using Cons.IH v(3) Cons.prems(2) True by (auto simp: Let_def)
  next
    case False
    have after: "ucmp (op_key o1) (op_key o2) < 0 \<or> op_key o1 = op_key o2 \<and> op_seq o2 \<le> op_seq o1" if "o2 \<in> set ops" for o2
      using op_less [OF v(1)] v(2) that by blast
    show ?thesis
    proof (cases "op_key o1 = u")
      case True
      then have "op_seq o1 \<le> s" using False before by (auto simp: linorder_not_less)
      moreover have "op_key o2 = u \<longrightarrow> op_seq o2 \<le> op_seq o1" if "o2 \<in> set ops" for o2 using after [OF that] True refl [OF u(1)] by auto
      moreover have "\<not> (op_key o2 = u \<and> op_seq o2 = op_seq o1)" if "o2 \<in> set ops" for o2
        using Cons.prems(2) True that by (auto simp: image_iff)
      ultimately have "visible u s (o1 # ops) = Some o1" using visible_hd [OF True, of s ops] by blast
      then show ?thesis using False True by simp
    next
      case ne: False
      have gt: "ucmp u (op_key o1) < 0"
        using False before ne le_iff [of u "op_key o1"] not_less [of "op_key o1" u] u(1) v(1) by (auto simp: op_valid_def)
      have "op_key o2 \<noteq> u" if "o2 \<in> set ops" for o2
        using after [OF that] ne gt less_asym [of u "op_key o1"] u(1) v(1) by (auto simp: op_valid_def)
      then have "visible u s ops = None" unfolding visible_None by blast
      then show ?thesis using False ne by (simp add: Let_def)
    qed
  qed
qed simp

end

section \<open>Searching tables one after the other\<close>

fun search_tables :: "slice \<Rightarrow> SequenceNumber \<Rightarrow> operation list list \<Rightarrow> operation option" where
  "search_tables u s [] = None"
| "search_tables u s (t # ts) = (case visible u s t of None \<Rightarrow> search_tables u s ts | Some o1 \<Rightarrow> Some o1)"

lemma search_append: "search_tables u s (xs @ ys) = (case search_tables u s xs of None \<Rightarrow> search_tables u s ys | Some o1 \<Rightarrow> Some o1)"
  by (induction xs) (auto split: option.splits)

lemma search_none: "(\<forall>t \<in> set ts. visible u s t = None) \<Longrightarrow> search_tables u s ts = None"
  by (induction ts) auto

lemma search_filter: "(\<And>t. t \<in> set ts \<Longrightarrow> \<not> P t \<Longrightarrow> visible u s (f t) = None) \<Longrightarrow>
    search_tables u s (map f (filter P ts)) = search_tables u s (map f ts)"
  by (induction ts) (auto split: option.splits)

text \<open>The operations of the first table are newer than those of the second with the same key.\<close>

definition newer :: "operation list \<Rightarrow> operation list \<Rightarrow> bool" where
  "newer a b \<longleftrightarrow> (\<forall>x \<in> set a. \<forall>y \<in> set b. op_key x = op_key y \<longrightarrow> op_seq y < op_seq x)"

lemma visible_append:
  "newer a b \<Longrightarrow> visible u s (a @ b) = (case visible u s a of None \<Rightarrow> visible u s b | Some o1 \<Rightarrow> Some o1)"
proof (induction a)
  case (Cons o1 a)
  have n: "newer a b" "\<forall>y \<in> set b. op_key o1 = op_key y \<longrightarrow> op_seq y < op_seq o1" using Cons.prems by (auto simp: newer_def)
  show ?case
  proof (cases "visible u s a")
    case (Some r)
    then show ?thesis using Cons.IH [OF n(1)] by (simp add: Let_def)
  next
    case None
    have IH: "visible u s (a @ b) = visible u s b" using Cons.IH [OF n(1)] None by simp
    show ?thesis
    proof (cases "visible u s b")
      case (Some r)
      then show ?thesis using n(2) visible_Some [OF Some] IH None by (auto simp: Let_def)
    qed (simp add: IH None Let_def)
  qed
qed simp

lemma search_visible: "sorted_wrt newer ts \<Longrightarrow> search_tables u s ts = visible u s (concat ts)"
proof (induction ts)
  case (Cons t ts)
  then have "newer t (concat ts)" by (auto simp: newer_def)
  from visible_append [OF this] show ?case using Cons by (simp split: option.splits)
qed simp

section \<open>A lookup in a version\<close>

text \<open>The operations of a sorted level, as one table; \<open>tab\<close> are the operations in the file of a number.\<close>

definition level_ops :: "(u64 \<Rightarrow> operation list) \<Rightarrow> FileMetaData list \<Rightarrow> operation list" where
  "level_ops tab files = concat (map (\<lambda>f. tab (number f)) files)"

text \<open>The tables of a version in the order in which they are searched.\<close>

definition version_tables :: "(u64 \<Rightarrow> operation list) \<Rightarrow> 'd Version \<Rightarrow> operation list list" where
  "version_tables tab v = map (\<lambda>f. tab (number f)) (sort_newest (hd (v_files v))) @ map (level_ops tab) (tl (v_files v))"

text \<open>
  A version whose files are in the source: above level 0 the files of a level are sorted, and what is searched earlier is newer.
\<close>

definition version_ok ::
  "(slice \<Rightarrow> slice \<Rightarrow> int) \<Rightarrow> (slice \<Rightarrow> bool) \<Rightarrow> (FileMetaData \<Rightarrow> bool) \<Rightarrow> (u64 \<Rightarrow> operation list) \<Rightarrow> 'd Version \<Rightarrow> bool"
where
  "version_ok ucmp uvalid live tab v \<longleftrightarrow> v_files v \<noteq> [] \<and> (\<forall>f \<in> set (concat (v_files v)). live f) \<and>
     (\<forall>files \<in> set (tl (v_files v)). level_sorted ucmp uvalid files \<and> distinct (map (\<lambda>o1. (op_key o1, op_seq o1)) (level_ops tab files))) \<and>
     sorted_wrt newer (version_tables tab v)"

text \<open>What a lookup reports when it has found an operation, or none; the value of the caller is kept in the latter case.\<close>

definition outcome :: "operation option \<Rightarrow> slice \<Rightarrow> Status option \<times> slice" where
  "outcome o1 val = (case o1 of None \<Rightarrow> (None, val)
     | Some op \<Rightarrow> (case op_type op of kTypeValue \<Rightarrow> (Some OK, op_value op) | kTypeDeletion \<Rightarrow> (Some (NotFound [] []), val)))"

definition get_outcome :: "operation option \<Rightarrow> slice \<Rightarrow> Status \<times> slice" where
  "get_outcome o1 val = (case o1 of None \<Rightarrow> (NotFound [] [], val)
     | Some op \<Rightarrow> (case op_type op of kTypeValue \<Rightarrow> (OK, op_value op) | kTypeDeletion \<Rightarrow> (NotFound [] [], val)))"

text \<open>
  A source of tables: what \<open>TableCache::Get\<close> promises for a file. \<open>tab\<close> are the operations in the file of a number, in
  the order of their keys; \<open>inv m\<close> is the invariant of its state, which allows \<open>m\<close> more lookups.
\<close>

locale table_source = user_order ucmp uvalid usep usucc for ucmp uvalid usep usucc +
  fixes tget :: "'s table_get" and inv :: "nat \<Rightarrow> 's \<Rightarrow> bool" and live :: "FileMetaData \<Rightarrow> bool" and tab :: "u64 \<Rightarrow> operation list"
  assumes inv_less: "inv (Suc m) st \<Longrightarrow> inv m st"
    and tget_law: "inv (Suc m) st \<Longrightarrow> live f \<Longrightarrow> internal_valid ikey \<Longrightarrow>
      \<exists>entry st'. tget (number f) (file_size f) ikey st = Some (OK, entry, st') \<and> inv m st' \<and>
        (case dropWhile (\<lambda>o1. ikc_Compare ucmp (op_ikey o1) ikey < 0) (tab (number f)) of
           [] \<Rightarrow> entry = None
         | o1 # _ \<Rightarrow> (entry = None \<or> entry = Some (op_ikey o1, op_value o1)) \<and>
             (op_key o1 = ExtractUserKey ikey \<longrightarrow> entry = Some (op_ikey o1, op_value o1)))"
    and tab_sorted: "live f \<Longrightarrow> table_sorted ucmp uvalid (tab (number f))"
    and tab_distinct: "live f \<Longrightarrow> distinct (map (\<lambda>o1. (op_key o1, op_seq o1)) (tab (number f)))"
    and tab_nonempty: "live f \<Longrightarrow> tab (number f) \<noteq> []"
    and tab_smallest: "live f \<Longrightarrow> smallest f = op_ikey (hd (tab (number f)))"
    and tab_largest: "live f \<Longrightarrow> largest f = op_ikey (last (tab (number f)))"
begin

lemma inv_add: "inv (n + m) st \<Longrightarrow> inv m st"
  by (induction n) (auto dest: inv_less)

lemma inv_le: "inv n st \<Longrightarrow> m \<le> n \<Longrightarrow> inv m st"
  using inv_add [of "n - m" m st] by simp

lemma get_files_on:
  assumes u: "uvalid u" "s \<le> kMaxSequenceNumber"
  shows "\<forall>f \<in> set fs. live f \<Longrightarrow> inv (length fs + m) st \<Longrightarrow>
    \<exists>stats' last' st'. get_files tget ucmp (lookup_ikey u s) u level fs (val, stats, last_read, st) =
      (case outcome (search_tables u s (map (\<lambda>f. tab (number f)) fs)) val of (r, v) \<Rightarrow> Some (r, v, stats', last', st')) \<and> inv m st'"
proof (induction fs arbitrary: stats last_read st)
  case Nil
  then show ?case by (auto simp: outcome_def)
next
  case (Cons f fs)
  let ?ik = "lookup_ikey u s" and ?dw = "dropWhile (\<lambda>o1. ikc_Compare ucmp (op_ikey o1) (lookup_ikey u s) < 0) (tab (number f))"
  have f: "live f" using Cons.prems(1) by simp
  have ek: "ExtractUserKey ?ik = u" by (simp add: lookup_ikey_def)
  obtain entry st1 where e: "tget (number f) (file_size f) ?ik st = Some (OK, entry, st1)" "inv (length fs + m) st1"
    "case ?dw of [] \<Rightarrow> entry = None
       | o1 # _ \<Rightarrow> (entry = None \<or> entry = Some (op_ikey o1, op_value o1)) \<and> (op_key o1 = u \<longrightarrow> entry = Some (op_ikey o1, op_value o1))"
    using tget_law [OF Cons.prems(2) [unfolded length_Cons add_Suc] f lookup_ikey_valid [OF u(1), of s]] unfolding ek by blast
  have vis: "visible u s (tab (number f)) = (case ?dw of [] \<Rightarrow> None | o1 # _ \<Rightarrow> if op_key o1 = u then Some o1 else None)"
    by (rule table_visible [OF tab_sorted [OF f] tab_distinct [OF f] u])
  show ?case
  proof (cases "visible u s (tab (number f))")
    case (Some op)
    then obtain ops where op: "?dw = op # ops" "op_key op = u" using vis by (auto split: list.splits if_splits)
    then have "op \<in> set (tab (number f))" by (metis list.set_intros(1) set_dropWhileD)
    then have ov: "op_valid uvalid op" using tab_sorted [OF f] by (simp add: table_sorted_def)
    then have "ParseInternalKey (op_ikey op) = Some \<lparr>user_key = u, sequence = op_seq op, vtype = op_type op\<rparr>"
      using ParseInternalKey_op [of op] op(2) by (simp add: op_valid_def)
    moreover have "entry = Some (op_ikey op, op_value op)" using e(3) op by simp
    ultimately show ?thesis
      using e(1) inv_add [OF e(2)] Some refl [OF u(1)] by (cases "op_type op") (simp_all add: outcome_def SaveValue_def Let_def)
  next
    case None
    have miss: "entry = None \<or> (\<exists>op. entry = Some (op_ikey op, op_value op) \<and> op_valid uvalid op \<and> op_key op \<noteq> u)"
    proof (cases ?dw)
      case (Cons op ops)
      then have "op \<in> set (tab (number f))" by (metis list.set_intros(1) set_dropWhileD)
      then have "op_valid uvalid op" using tab_sorted [OF f] by (simp add: table_sorted_def)
      moreover have "op_key op \<noteq> u" using vis None Cons by (auto split: if_splits)
      ultimately show ?thesis using e(3) Cons by auto
    next
      case Nil
      then show ?thesis using e(3) unfolding Nil by simp
    qed
    have sv: "sv_state (case entry of None \<Rightarrow> sv | Some (k, v) \<Rightarrow> SaveValue ucmp k v sv) = kNotFound \<and>
        sv_value (case entry of None \<Rightarrow> sv | Some (k, v) \<Rightarrow> SaveValue ucmp k v sv) = val"
      if "sv = \<lparr>sv_state = kNotFound, sv_user_key = u, sv_value = val\<rparr>" for sv
      using miss that ParseInternalKey_op cmp_eq u(1) by (auto simp: SaveValue_def op_valid_def)
    from Cons.IH [OF _ e(2)] Cons.prems(1) obtain stats' last' st' where IH: "get_files tget ucmp ?ik u level fs (val, charge_seek last_read stats, Some (f, int level), st1) =
      (case outcome (search_tables u s (map (\<lambda>f. tab (number f)) fs)) val of (r, v) \<Rightarrow> Some (r, v, stats', last', st'))" "inv m st'" by fastforce
    then show ?thesis using e(1) None sv [OF HOL.refl] by (auto simp: Let_def)
  qed
qed

text \<open>The keys of a table lie in the range of its file.\<close>

lemma tab_bounds:
  assumes f: "live f" and o1: "o1 \<in> set (tab (number f))"
  shows "op_valid uvalid o1" "ikc_Compare ucmp (smallest f) (op_ikey o1) \<le> 0" "ikc_Compare ucmp (op_ikey o1) (largest f) \<le> 0"
    and "internal_valid (smallest f)" "internal_valid (largest f)"
proof -
  let ?t = "tab (number f)"
  note srt = tab_sorted [OF f]
  show v: "op_valid uvalid o1" using srt o1 by (simp add: table_sorted_def)
  have hl: "op_valid uvalid (hd ?t)" "op_valid uvalid (last ?t)" using srt tab_nonempty [OF f] by (simp_all add: table_sorted_def)
  show iv: "internal_valid (smallest f)" "internal_valid (largest f)"
    using op_ikey_valid hl tab_smallest [OF f] tab_largest [OF f] by simp_all
  obtain i where i: "i < length ?t" "o1 = ?t ! i" using o1 by (metis in_set_conv_nth)
  have nth: "ikc_Compare ucmp (op_ikey (?t ! i)) (op_ikey (?t ! j)) < 0" if "i < j" "j < length ?t" for i j
    using srt that by (simp add: table_sorted_def sorted_wrt_iff_nth_less)
  have ends: "smallest f = op_ikey (?t ! 0)" "largest f = op_ikey (?t ! (length ?t - 1))"
    using tab_smallest [OF f] tab_largest [OF f] tab_nonempty [OF f] by (simp_all add: hd_conv_nth last_conv_nth)
  show "ikc_Compare ucmp (smallest f) (op_ikey o1) \<le> 0"
    using nth [of 0 i] i ends(1) op_ikey_valid [OF v] by (cases "i = 0") auto
  show "ikc_Compare ucmp (op_ikey o1) (largest f) \<le> 0"
  proof (cases "i = length ?t - 1")
    case True
    then show ?thesis using i ends(2) op_ikey_valid [OF v] by simp
  next
    case False
    then have "i < length ?t - 1" using i by linarith
    moreover have "length ?t - 1 < length ?t" using tab_nonempty [OF f] by simp
    ultimately have "ikc_Compare ucmp (op_ikey (?t ! i)) (op_ikey (?t ! (length ?t - 1))) < 0" by (rule nth)
    then show ?thesis using i(2) ends(2) by simp
  qed
qed

lemma internal_le_user:
  assumes "internal_valid a" "internal_valid b" "ikc_Compare ucmp a b \<le> 0"
  shows "ucmp (ExtractUserKey a) (ExtractUserKey b) \<le> 0"
  using assms internal.le_iff [OF assms(1,2)] by (auto simp: internal_less internal_valid_def)

lemma tab_user_bounds:
  assumes f: "live f" and o1: "o1 \<in> set (tab (number f))"
  shows "ucmp (smallest_user_key f) (op_key o1) \<le> 0" "ucmp (op_key o1) (largest_user_key f) \<le> 0"
    "uvalid (smallest_user_key f)" "uvalid (largest_user_key f)" "uvalid (op_key o1)"
proof -
  note b = tab_bounds [OF f o1]
  have e: "ExtractUserKey (op_ikey o1) = op_key o1" by (simp add: op_ikey_def)
  show "ucmp (smallest_user_key f) (op_key o1) \<le> 0" "ucmp (op_key o1) (largest_user_key f) \<le> 0"
    using internal_le_user [OF b(4) op_ikey_valid [OF b(1)] b(2)] internal_le_user [OF op_ikey_valid [OF b(1)] b(5,3)]
    by (simp_all add: e smallest_user_key_def largest_user_key_def)
  show "uvalid (smallest_user_key f)" "uvalid (largest_user_key f)" "uvalid (op_key o1)"
    using b(1,4,5) by (simp_all add: op_valid_def internal_valid_def smallest_user_key_def largest_user_key_def)
qed

lemma not_contained:
  assumes "live f" "uvalid u" "\<not> contains_user_key ucmp u f"
  shows "visible u s (tab (number f)) = None"
  unfolding visible_None
proof (intro ballI notI)
  fix o1 assume o1: "o1 \<in> set (tab (number f))" "op_key o1 = u \<and> op_seq o1 \<le> s"
  then have "ucmp u (smallest_user_key f) \<ge> 0" "ucmp u (largest_user_key f) \<le> 0"
    using tab_user_bounds [OF assms(1) o1(1)] gt_iff [of "smallest_user_key f" u] not_less by fastforce+
  then show False using assms(3) by (simp add: contains_user_key_def)
qed

lemma level_0_on:
  assumes "\<forall>f \<in> set files. live f" "uvalid u"
  shows "\<exists>fs. level_candidates ucmp 0 files u ik = Some fs \<and> set fs \<subseteq> set files \<and> length fs \<le> length files \<and>
    search_tables u s (map (\<lambda>f. tab (number f)) fs) = search_tables u s (map (\<lambda>f. tab (number f)) (sort_newest files))"
proof -
  have "sort_newest (filter P files) = filter P (sort_newest files)" for P
    by (simp add: sort_newest_def filter_sort rev_filter [symmetric])
  moreover have "search_tables u s (map (\<lambda>f. tab (number f)) (filter (contains_user_key ucmp u) (sort_newest files))) =
      search_tables u s (map (\<lambda>f. tab (number f)) (sort_newest files))"
    by (rule search_filter) (use assms not_contained in \<open>auto simp: sort_newest_def\<close>)
  moreover have "length (filter P (rev (sort_key number files))) \<le> length files" for P
    using length_filter_le [of P "rev (sort_key number files)"] by simp
  ultimately show ?thesis by (auto simp: level_candidates_def sort_newest_def)
qed

lemma level_ops_sorted:
  assumes "\<forall>f \<in> set files. live f" "level_sorted ucmp uvalid files"
  shows "table_sorted ucmp uvalid (level_ops tab files)"
  using assms
proof (induction files)
  case (Cons f files)
  have f: "live f" "\<forall>g \<in> set files. live g" "level_sorted ucmp uvalid files" "\<forall>g \<in> set files. ikc_Compare ucmp (largest f) (smallest g) < 0"
    using Cons.prems by (auto simp: level_sorted_def)
  have "ikc_Compare ucmp (op_ikey a) (op_ikey b) < 0" if a: "a \<in> set (tab (number f))" and b: "b \<in> set (level_ops tab files)" for a b
  proof -
    obtain g where g: "g \<in> set files" "b \<in> set (tab (number g))" using b by (auto simp: level_ops_def)
    then have lg: "live g" using f(2) by blast
    note fa = tab_bounds [OF f(1) a] and gb = tab_bounds [OF lg g(2)]
    have "ikc_Compare ucmp (largest f) (smallest g) < 0" using f(4) g(1) by blast
    then have "ikc_Compare ucmp (op_ikey a) (smallest g) < 0"
      by (rule internal.le_less_trans [OF op_ikey_valid [OF fa(1)] fa(5) gb(4) fa(3)])
    then show ?thesis by (rule internal.less_le_trans [OF op_ikey_valid [OF fa(1)] gb(4) op_ikey_valid [OF gb(1)] _ gb(2)])
  qed
  then show ?case using tab_sorted [OF f(1)] Cons.IH [OF f(2,3)] by (auto simp: table_sorted_def level_ops_def sorted_wrt_append)
qed (simp add: table_sorted_def level_ops_def)

lemma level_ops_append: "level_ops tab (xs @ ys) = level_ops tab xs @ level_ops tab ys"
  by (simp add: level_ops_def)

lemma level_on:
  assumes live: "\<forall>f \<in> set files. live f" and srt: "level_sorted ucmp uvalid files" and level: "0 < level" and u: "uvalid u" "s \<le> kMaxSequenceNumber"
    and dist: "distinct (map (\<lambda>o1. (op_key o1, op_seq o1)) (level_ops tab files))"
  shows "\<exists>fs. level_candidates ucmp level files u (lookup_ikey u s) = Some fs \<and> set fs \<subseteq> set files \<and> length fs \<le> length files \<and>
    search_tables u s (map (\<lambda>f. tab (number f)) fs) = visible u s (level_ops tab files)"
proof (cases "files = []")
  case True
  then show ?thesis by (simp add: level_candidates_def level_ops_def)
next
  case False
  let ?ik = "lookup_ikey u s"
  let ?P = "\<lambda>o1. ikc_Compare ucmp (op_ikey o1) ?ik < 0" and ?Q = "\<lambda>f. ikc_Compare ucmp (largest f) ?ik < 0"
  define n where "n = length (takeWhile ?Q files)"
  have iv: "internal_valid ?ik" by (rule lookup_ikey_valid [OF u(1)])
  have find: "FindFile ucmp files ?ik = Some n" unfolding n_def by (rule FindFile_sorted [OF srt iv])
  note vis = table_visible [OF level_ops_sorted [OF live srt] dist u]
  have before: "\<forall>o1 \<in> set (level_ops tab (takeWhile ?Q files)). ?P o1"
  proof
    fix o1 assume "o1 \<in> set (level_ops tab (takeWhile ?Q files))"
    then obtain f where f: "f \<in> set (takeWhile ?Q files)" "o1 \<in> set (tab (number f))" by (auto simp: level_ops_def)
    then have "?Q f" "live f" using live by (auto dest: set_takeWhileD)
    note b = tab_bounds [OF this(2) f(2)]
    show "?P o1" by (rule internal.le_less_trans [OF op_ikey_valid [OF b(1)] b(5) iv b(3) \<open>?Q f\<close>])
  qed
  show ?thesis
  proof (cases "n < length files")
    case no: False
    then have all: "takeWhile ?Q files = files" using takeWhile_eq_take [of ?Q files] unfolding n_def by simp
    have none: "dropWhile ?P (level_ops tab files) = []" using before unfolding all by simp
    have "visible u s (level_ops tab files) = None" unfolding vis none by simp
    then show ?thesis using False level find no by (simp add: level_candidates_def)
  next
    case n: True
    let ?f = "files ! n"
    have f: "?f \<in> set files" "live ?f" using n live by simp_all
    have nQ: "\<not> ?Q ?f" using n unfolding n_def by (rule nth_length_takeWhile)
    have "files = takeWhile ?Q files @ ?f # drop (Suc n) files"
      using id_take_nth_drop [OF n] takeWhile_eq_take [of ?Q files] unfolding n_def by simp
    then have "level_ops tab files = level_ops tab (takeWhile ?Q files) @ tab (number ?f) @ level_ops tab (drop (Suc n) files)"
      by (metis (no_types, lifting) append_Cons append_Nil concat.simps(2) level_ops_append level_ops_def list.simps(9) append.assoc concat.simps(1) list.map(1) append_Nil2)
    then have dw: "dropWhile ?P (level_ops tab files) = dropWhile ?P (tab (number ?f) @ level_ops tab (drop (Suc n) files))"
      using before by (simp add: dropWhile_append2)
    have "last (tab (number ?f)) \<in> set (tab (number ?f))" "\<not> ?P (last (tab (number ?f)))"
      using tab_nonempty [OF f(2)] nQ tab_largest [OF f(2)] by simp_all
    then have dw1: "dropWhile ?P (level_ops tab files) = dropWhile ?P (tab (number ?f)) @ level_ops tab (drop (Suc n) files)"
      and ne: "dropWhile ?P (tab (number ?f)) \<noteq> []" unfolding dw by (auto intro: dropWhile_append1)
    have eq: "visible u s (level_ops tab files) = visible u s (tab (number ?f))"
      unfolding vis dw1 table_visible [OF tab_sorted [OF f(2)] tab_distinct [OF f(2)] u]
      using ne by (cases "dropWhile ?P (tab (number ?f))") simp_all
    show ?thesis
    proof (cases "ucmp u (smallest_user_key ?f) < 0")
      case True
      then have "visible u s (tab (number ?f)) = None"
        by (intro not_contained [OF f(2) u(1)]) (simp add: contains_user_key_def)
      then show ?thesis using False level find n True eq by (simp add: level_candidates_def)
    next
      case ge: False
      then show ?thesis using False level find n eq f(1) by (auto simp: level_candidates_def split: option.splits)
    qed
  qed
qed

lemma outcome_get: "outcome (Some op) val = (Some (fst (get_outcome (Some op) val)), snd (get_outcome (Some op) val))"
  by (cases "op_type op") (simp_all add: outcome_def get_outcome_def)

lemma get_levels_on:
  assumes u: "uvalid u" "s \<le> kMaxSequenceNumber"
  shows "0 < level \<Longrightarrow> \<forall>files \<in> set levels. (\<forall>f \<in> set files. live f) \<and> level_sorted ucmp uvalid files \<and>
      distinct (map (\<lambda>o1. (op_key o1, op_seq o1)) (level_ops tab files)) \<Longrightarrow> inv (length (concat levels) + m) st \<Longrightarrow>
    \<exists>stats' st'. get_levels tget ucmp (lookup_ikey u s) u level levels (val, stats, last_read, st) =
      (case get_outcome (search_tables u s (map (level_ops tab) levels)) val of (r, v) \<Rightarrow> Some (r, v, stats', st')) \<and> inv m st'"
proof (induction levels arbitrary: level stats last_read st)
  case Nil
  then show ?case by (auto simp: get_outcome_def)
next
  case (Cons files levels)
  have rest: "\<forall>files \<in> set levels. (\<forall>f \<in> set files. live f) \<and> level_sorted ucmp uvalid files \<and>
      distinct (map (\<lambda>o1. (op_key o1, op_seq o1)) (level_ops tab files))" using Cons.prems(2) by simp
  obtain fs where fs: "level_candidates ucmp level files u (lookup_ikey u s) = Some fs" "set fs \<subseteq> set files" "length fs \<le> length files"
    "search_tables u s (map (\<lambda>f. tab (number f)) fs) = visible u s (level_ops tab files)"
    using level_on [of files level u s] Cons.prems u by auto
  then have live: "\<forall>f \<in> set fs. live f" using Cons.prems(2) by auto
  have "inv (length fs + (length (concat levels) + m)) st" by (rule inv_le [OF Cons.prems(3)]) (use fs(3) in simp)
  from get_files_on [OF u live this, of level val stats last_read] obtain stats1 last1 st1 where
    g: "get_files tget ucmp (lookup_ikey u s) u level fs (val, stats, last_read, st) =
      (case outcome (visible u s (level_ops tab files)) val of (r, v) \<Rightarrow> Some (r, v, stats1, last1, st1))" "inv (length (concat levels) + m) st1" unfolding fs(4) by blast
  show ?case
  proof (cases "visible u s (level_ops tab files)")
    case (Some op)
    then show ?thesis using fs(1) g(1) inv_add [OF g(2)] by (auto simp: outcome_get split_beta)
  next
    case None
    obtain stats' st' where "get_levels tget ucmp (lookup_ikey u s) u (Suc level) levels (val, stats1, last1, st1) =
        (case get_outcome (search_tables u s (map (level_ops tab) levels)) val of (r, v) \<Rightarrow> Some (r, v, stats', st'))" "inv m st'"
      using Cons.IH [OF zero_less_Suc rest g(2)] by blast
    then show ?thesis using fs(1) g None by (auto simp: outcome_def split_beta)
  qed
qed

lemma Version_Get_on:
  assumes v: "version_ok ucmp uvalid live tab v" and u: "uvalid u" "s \<le> kMaxSequenceNumber" "length u + 8 < 2 ^ 32" and st: "inv (length (concat (v_files v)) + m) st"
  shows "\<exists>stats st'. Version_Get tget ucmp v (LookupKey_init u s) val st =
    (case get_outcome (visible u s (concat (version_tables tab v))) val of (r, x) \<Rightarrow> Some (r, x, stats, st')) \<and> inv m st'"
proof -
  obtain files0 levels where lv: "v_files v = files0 # levels" using v by (cases "v_files v") (auto simp: version_ok_def)
  have live: "\<forall>f \<in> set files0. live f" and levels: "\<forall>files \<in> set levels. (\<forall>f \<in> set files. live f) \<and> level_sorted ucmp uvalid files \<and>
      distinct (map (\<lambda>o1. (op_key o1, op_seq o1)) (level_ops tab files))"
    using v unfolding version_ok_def lv by auto
  have key: "lk_internal_key (LookupKey_init u s) = lookup_ikey u s" "lk_user_key (LookupKey_init u s) = u"
    using LookupKey_parts [OF u(3), of s] by (simp_all add: lookup_ikey_def)
  have "sorted_wrt newer (version_tables tab v)" using v by (simp add: version_ok_def)
  then have "visible u s (concat (version_tables tab v)) = search_tables u s (version_tables tab v)" by (rule search_visible [symmetric])
  then have all: "visible u s (concat (version_tables tab v)) = (case search_tables u s (map (\<lambda>f. tab (number f)) (sort_newest files0)) of
      None \<Rightarrow> search_tables u s (map (level_ops tab) levels) | Some o1 \<Rightarrow> Some o1)"
    unfolding version_tables_def lv list.sel search_append .
  obtain fs where fs: "level_candidates ucmp 0 files0 u (lookup_ikey u s) = Some fs" "set fs \<subseteq> set files0" "length fs \<le> length files0"
    "search_tables u s (map (\<lambda>f. tab (number f)) fs) = search_tables u s (map (\<lambda>f. tab (number f)) (sort_newest files0))"
    using level_0_on [OF live u(1)] by blast
  let ?stats = "\<lparr>gs_seek_file = None, gs_seek_file_level = - 1\<rparr>"
  have lfs: "\<forall>f \<in> set fs. live f" using live fs(2) by blast
  have "inv (length fs + (length (concat levels) + m)) st" by (rule inv_le [OF st]) (use fs(3) in \<open>simp add: lv\<close>)
  from get_files_on [OF u(1,2) lfs this, of 0 val ?stats None] obtain stats1 last1 st1 where
    g: "get_files tget ucmp (lookup_ikey u s) u 0 fs (val, ?stats, None, st) =
      (case outcome (search_tables u s (map (\<lambda>f. tab (number f)) (sort_newest files0))) val of (r, x) \<Rightarrow> Some (r, x, stats1, last1, st1))"
    "inv (length (concat levels) + m) st1" unfolding fs(4) by blast
  show ?thesis
  proof (cases "search_tables u s (map (\<lambda>f. tab (number f)) (sort_newest files0))")
    case (Some op)
    then show ?thesis using fs(1) g(1) inv_add [OF g(2)] all by (auto simp: Version_Get_def lv key outcome_get split_beta)
  next
    case None
    from get_levels_on [OF u(1,2) _ levels g(2), of 1 val stats1 last1] obtain stats' st' where
      "get_levels tget ucmp (lookup_ikey u s) u (Suc 0) levels (val, stats1, last1, st1) =
        (case get_outcome (search_tables u s (map (level_ops tab) levels)) val of (r, x) \<Rightarrow> Some (r, x, stats', st'))" "inv m st'" by auto
    then show ?thesis using fs(1) g all None by (auto simp: Version_Get_def lv key outcome_def split_beta)
  qed
qed

end

end
