(* ===== verification/Lv_Table_Cache.thy ===== *)
theory Lv_Table_Cache
  imports Lv_Version_Get Lv_Filename
begin

text \<open>
  The table cache, \<open>db/table_cache.cc\<close>: the tables that are open, by file number, in an LRU cache. The environment is a
  parameter that opens a file by name; the block cache of the options is threaded through beside the cache of tables.
  The lookups of a version are proved over the interface \<open>table_source\<close>, of which this is the provider.
\<close>

section \<open>Operations\<close>

type_synonym open_file = "slice \<Rightarrow> Status \<times> random_read option"

type_synonym tables_state = "Table ShardedLRUCache \<times> block_cache"

record TableCache =
  tc_dbname :: slice
  tc_options :: Options

definition TableCache_init :: "slice \<Rightarrow> Options \<Rightarrow> u64 \<Rightarrow> block_cache \<Rightarrow> TableCache \<times> tables_state" where
  "TableCache_init dbname options max_tables bc = (\<lparr>tc_dbname = dbname, tc_options = options\<rparr>, ShardedLRUCache_init max_tables, bc)"

text \<open>The file of a table has the extension of newer or of older releases; there is no table with number 0.\<close>

definition open_table_file :: "open_file \<Rightarrow> slice \<Rightarrow> u64 \<Rightarrow> (Status \<times> random_read option) option" where
  "open_table_file env dbname n = do {
     fname \<leftarrow> TableFileName dbname n;
     let (s, file) = env fname;
     if ok s then Some (s, file)
     else do {
       old_fname \<leftarrow> SSTTableFileName dbname n;
       let (s', file') = env old_fname;
       Some (if ok s' then (OK, file') else (s, file)) } }"

text \<open>A table that could not be opened is not cached.\<close>

definition FindTable :: "open_file \<Rightarrow> TableCache \<Rightarrow> u64 \<Rightarrow> u64 \<Rightarrow> tables_state \<Rightarrow> (Status \<times> cache_handle option \<times> tables_state) option" where
  "FindTable env tc n sz st = do {
     let (c, bc) = st;
     let key = EncodeFixed64 n;
     (h, c) \<leftarrow> Cache_Lookup key c;
     case h of
       Some h \<Rightarrow> Some (OK, Some h, c, bc)
     | None \<Rightarrow> do {
         (s, fp) \<leftarrow> open_table_file env (tc_dbname tc) n;
         if ok s then do {
           rd \<leftarrow> fp;
           (s, t, bc) \<leftarrow> Table_Open (tc_options tc) rd sz bc;
           if ok s then do {
             t \<leftarrow> t;
             (h, c) \<leftarrow> Cache_Insert key t 1 c;
             Some (s, Some h, c, bc) }
           else Some (s, None, c, bc) }
         else Some (s, None, c, bc) } }"

text \<open>The status and the entry that is handed to the saver.\<close>

definition TableCache_Get :: "open_file \<Rightarrow> TableCache \<Rightarrow> ReadOptions \<Rightarrow> tables_state table_get" where
  "TableCache_Get env tc ro n sz k st = do {
     (s, h, c, bc) \<leftarrow> FindTable env tc n sz st;
     if ok s then do {
       h \<leftarrow> h;
       t \<leftarrow> Cache_Value h c;
       (s, found, bc) \<leftarrow> InternalGet t ro k bc;
       c \<leftarrow> Cache_Release h c;
       Some (s, found, c, bc) }
     else Some (s, None, c, bc) }"

definition TableCache_Evict :: "u64 \<Rightarrow> tables_state \<Rightarrow> tables_state option" where
  "TableCache_Evict n st = do { c \<leftarrow> Cache_Erase (EncodeFixed64 n) (fst st); Some (c, snd st) }"

section \<open>The tables on disk\<close>

definition table_kvs :: "operation list \<Rightarrow> (slice \<times> slice) list" where
  "table_kvs ops = map (\<lambda>o1. (op_ikey o1, op_value o1)) ops"

text \<open>The cache of tables \<open>c\<close> and the block cache \<open>bc\<close> hold what is in the files; \<open>owner\<close> names the tables by their identifiers.\<close>

definition cached_table :: "Options \<Rightarrow> (u64 \<Rightarrow> operation list) \<Rightarrow> owners \<Rightarrow> block_cache \<Rightarrow> slice \<Rightarrow> Table \<Rightarrow> bool" where
  "cached_table opt tab owner bc key t \<longleftrightarrow> (\<forall>n. key = EncodeFixed64 n \<longrightarrow> (let kvs = table_kvs (tab n) in
     \<exists>rd. random_file rd (table_file opt kvs) \<and> table_at opt (blocks_of opt kvs) rd t \<and> owned owner (tbl_cache_id t) (blocks_of opt kvs) bc))"

definition tables_at ::
  "Options \<Rightarrow> nat \<Rightarrow> (u64 \<Rightarrow> operation list) \<Rightarrow> owners \<Rightarrow> u64 \<Rightarrow> (cache_handle \<Rightarrow> nat) \<Rightarrow> (cache_handle \<Rightarrow> nat) \<Rightarrow> tables_state \<Rightarrow> bool"
where
  "tables_at opt m tab owner l held bheld st \<longleftrightarrow>
     cache_inv m (fst st) held \<and> few_refs held \<and> table_cache opt m owner l bheld (snd st) \<and>
     (\<forall>cid. owner cid \<noteq> None \<longrightarrow> unat cid \<le> unat l) \<and>
     (\<forall>k t. cache_content (fst st) k t \<longrightarrow> cached_table opt tab owner (snd st) k t)"

text \<open>There are \<open>m\<close> more lookups before the identifiers of the block cache wrap around or a shard may become too large.\<close>

definition tables_inv ::
  "Options \<Rightarrow> (u64 \<Rightarrow> operation list) \<Rightarrow> (cache_handle \<Rightarrow> nat) \<Rightarrow> (cache_handle \<Rightarrow> nat) \<Rightarrow> nat \<Rightarrow> tables_state \<Rightarrow> bool"
where
  "tables_inv opt tab held bheld m st \<longleftrightarrow> (\<exists>owner l. tables_at opt m tab owner l held bheld st \<and> unat l + m < 2 ^ 64)"

lemma EncodeFixed64_inj: "EncodeFixed64 a = EncodeFixed64 b \<longleftrightarrow> a = b"
  using DecodeFixed64_Encode [of a "[]"] DecodeFixed64_Encode [of b "[]"] by metis

lemma tables_inv_less:
  assumes "tables_inv opt tab held bheld (Suc m) st"
  shows "tables_inv opt tab held bheld m st"
proof -
  obtain owner l where "tables_at opt (Suc m) tab owner l held bheld st" "unat l + Suc m < 2 ^ 64" using assms unfolding tables_inv_def by blast
  moreover from this have "tables_at opt m tab owner l held bheld st" "unat l + m < 2 ^ 64"
    unfolding tables_at_def using cache_inv_less table_cache_less by (blast, linarith)
  ultimately show ?thesis unfolding tables_inv_def by blast
qed

text \<open>A new cache of tables with a new block cache.\<close>

lemma tables_inv_init:
  assumes "0 < (max_tables + 15) div 16" "0 < (cap + 15) div 16" "m \<le> max_entries"
  shows "tables_inv opt tab (\<lambda>_. 0) (\<lambda>_. 0) m (snd (TableCache_init dbname options max_tables (Some (ShardedLRUCache_init cap))))"
proof -
  have "tables_at opt m tab (\<lambda>_. None) 0 (\<lambda>_. 0) (\<lambda>_. 0) (snd (TableCache_init dbname options max_tables (Some (ShardedLRUCache_init cap))))"
    using assms(3) by (simp add: tables_at_def TableCache_init_def table_cache_init [OF assms(2)] ShardedLRUCache_init_inv [OF assms(1)]
      few_refs_def max_refs_def)
  moreover have "m < 2 ^ 64" using assms(3) by (simp add: max_entries_def)
  ultimately show ?thesis unfolding tables_inv_def by (metis add_0 unsigned_0)
qed

section \<open>A lookup through the cache\<close>

text \<open>Handing out one more table identifier keeps the tables that are cached.\<close>

lemma cached_table_more:
  "cached_table opt tab owner bc k t \<Longrightarrow> owner i = None \<Longrightarrow> (bc' = None \<longleftrightarrow> bc = None) \<Longrightarrow> cached_table opt tab (owner(i \<mapsto> B)) bc' k t"
  unfolding cached_table_def owned_def Let_def by (metis fun_upd_other option.distinct(1))

lemma cached_table_same: "cached_table opt tab owner bc k t \<Longrightarrow> (bc' = None \<longleftrightarrow> bc = None) \<Longrightarrow> cached_table opt tab owner bc' k t"
  unfolding cached_table_def owned_def Let_def by metis

lemma FindTable_on:
  fixes tab n tc
  defines "kvs \<equiv> table_kvs (tab n)" and "dopt \<equiv> tc_options tc"
  assumes inv: "tables_at dopt (Suc m) tab owner l held bheld st" "unat l + 1 < 2 ^ 64"
    and disk: "open_table_file env (tc_dbname tc) n = Some (OK, Some rd)" "random_file rd (table_file dopt kvs)"
      "length (table_file dopt kvs) < 2 ^ 32" "1 \<le> opt_block_restart_interval dopt"
  shows "\<exists>h t c bc owner' l'. FindTable env tc n (of_nat (length (table_file dopt kvs))) st = Some (OK, Some h, c, bc) \<and>
    Cache_Value h c = Some t \<and> cached_table dopt tab owner' bc (EncodeFixed64 n) t \<and>
    cache_inv m c (held(h := held h + 1)) \<and> few_refs held \<and> table_cache dopt (Suc m) owner' l' bheld bc \<and>
    (\<forall>cid. owner' cid \<noteq> None \<longrightarrow> unat cid \<le> unat l') \<and> (\<forall>k t. cache_content c k t \<longrightarrow> cached_table dopt tab owner' bc k t) \<and>
    unat l' \<le> unat l + 1"
proof -
  obtain c bc where st: "st = (c, bc)" by (cases st)
  have ci: "cache_inv (Suc m) c held" and few: "few_refs held" and bci: "table_cache dopt (Suc m) owner l bheld bc" and ids: "\<And>cid. owner cid \<noteq> None \<Longrightarrow> unat cid \<le> unat l"
    and tabs: "\<forall>k t. cache_content c k t \<longrightarrow> cached_table dopt tab owner bc k t"
    using inv(1) unfolding tables_at_def st fst_conv snd_conv by blast+
  let ?key = "EncodeFixed64 n"
  obtain r c1 where lk: "Cache_Lookup ?key c = Some (r, c1)" "cache_content c1 = cache_content c" "r = None \<Longrightarrow> cache_inv (Suc m) c1 held"
    using lru.lookup_law [OF ci few, of ?key] by (cases "fst (the (Cache_Lookup ?key c))") auto
  show ?thesis
  proof (cases r)
    case (Some h)
    have "Cache_Lookup ?key c = Some (Some h, c1)" using lk(1) Some by simp
    note found = lru.lookup_sound [OF ci few tabs this]
    obtain t where t: "Cache_Value h c1 = Some t" "cached_table dopt tab owner bc ?key t" using found(1) by blast
    show ?thesis using lk(1) Some t cache_inv_less [OF found(2)] found(3) few bci ids by (intro exI [of _ h] exI [of _ t] exI [of _ c1] exI [of _ bc] exI [of _ owner] exI [of _ l]) (simp add: FindTable_def st)
  next
    case None
    obtain t where t: "Table_Open dopt rd (of_nat (length (table_file dopt kvs))) bc = Some (OK, Some t, snd (open_cache bc))"
      "table_at dopt (blocks_of dopt kvs) rd t" "tbl_cache_id t = fst (open_cache bc)"
      using random_file.Table_Open_on [OF disk(2) table_file_blocks disk(3,4)] by blast
    define bc1 owner1 where "bc1 = snd (open_cache bc)" and "owner1 = owner(l + 1 \<mapsto> blocks_of dopt kvs)"
    have u: "unat (l + 1) = unat l + 1" using inv(2) by (simp add: unat_word_ariths)
    have new: "owner (l + 1) = None"
    proof (rule ccontr)
      assume "owner (l + 1) \<noteq> None"
      then have "unat (l + 1) \<le> unat l" by (rule ids)
      then show False using u by simp
    qed
    have tc1: "table_cache dopt (Suc m) owner1 (l + 1) bheld bc1" and same: "bc1 = None \<longleftrightarrow> bc = None"
      using open_cache_on(1,3) [OF bci] new unfolding bc1_def owner1_def by blast+
    have own: "owned owner1 (tbl_cache_id t) (blocks_of dopt kvs) bc1"
      using t(3) open_cache_on(2) [OF bci] same by (simp add: owned_def owner1_def)
    have P: "\<forall>k t. cache_content c1 k t \<longrightarrow> cached_table dopt tab owner1 bc1 k t"
      using cached_table_more [where owner = owner and i = "l + 1" and bc = bc and bc' = bc1] new same tabs unfolding lk(2) owner1_def by blast
    have Pt: "cached_table dopt tab owner1 bc1 ?key t"
      unfolding cached_table_def Let_def using disk(2) t(2) own by (auto simp: EncodeFixed64_inj kvs_def)
    note ci1 = lk(3) [OF None]
    from lru.insert_sound [OF ci1 P Pt, of 1] obtain h c2 where h: "Cache_Insert ?key t 1 c1 = Some (h, c2)" "cache_inv m c2 (held(h := 1))"
      "Cache_Value h c2 = Some t" "\<forall>k t. cache_content c2 k t \<longrightarrow> cached_table dopt tab owner1 bc1 k t" by blast
    have h0: "held h = 0" using lru.insert_law [OF ci1, of ?key t 1] h(1) by auto
    have "\<forall>cid. owner1 cid \<noteq> None \<longrightarrow> unat cid \<le> unat (l + 1)"
    proof (intro allI impI)
      fix cid assume "owner1 cid \<noteq> None"
      then have "cid = l + 1 \<or> owner cid \<noteq> None" by (auto simp: owner1_def split: if_splits)
      then have "cid = l + 1 \<or> unat cid \<le> unat l" using ids by blast
      then show "unat cid \<le> unat (l + 1)" using u by auto
    qed
    then show ?thesis
      by (intro exI [of _ h] exI [of _ t] exI [of _ c2] exI [of _ bc1] exI [of _ owner1] exI [of _ "l + 1"])
        (use lk(1) None disk(1) t(1) h Pt u few tc1 h0 in \<open>simp add: FindTable_def st bc1_def [symmetric] dopt_def [symmetric]\<close>)
  qed
qed

text \<open>Evicting a file drops its table from the cache.\<close>

lemma Evict_on:
  assumes "tables_inv opt tab held bheld m st"
  shows "\<exists>st'. TableCache_Evict n st = Some st' \<and> tables_inv opt tab held bheld m st' \<and> (\<forall>t. \<not> cache_content (fst st') (EncodeFixed64 n) t)"
proof -
  obtain owner l where at: "tables_at opt m tab owner l held bheld st" "unat l + m < 2 ^ 64" using assms unfolding tables_inv_def by blast
  then obtain c where c: "Cache_Erase (EncodeFixed64 n) (fst st) = Some c" "cache_inv m c held"
    "\<forall>k t. cache_content c k t \<longleftrightarrow> k \<noteq> EncodeFixed64 n \<and> cache_content (fst st) k t"
    using lru.erase_law [of m "fst st" held "EncodeFixed64 n"] unfolding tables_at_def by blast
  have "tables_at opt m tab owner l held bheld (c, snd st)" using at(1) c(2,3) unfolding tables_at_def fst_conv snd_conv by blast
  then have "tables_inv opt tab held bheld m (c, snd st)" using at(2) unfolding tables_inv_def by blast
  then show ?thesis using c(1,3) by (auto simp: TableCache_Evict_def)
qed

text \<open>A file of a version, as the database of these options wrote it.\<close>

definition stored_table ::
  "Options \<Rightarrow> (slice \<Rightarrow> bool) \<Rightarrow> (slice list \<Rightarrow> bool) \<Rightarrow> open_file \<Rightarrow> TableCache \<Rightarrow> (u64 \<Rightarrow> operation list) \<Rightarrow> FileMetaData \<Rightarrow> bool"
where
  "stored_table opt valid fok env tc tab f \<longleftrightarrow> (let ops = tab (number f); bytes = table_file (tc_options tc) (table_kvs ops) in
     (\<exists>rd. open_table_file env (tc_dbname tc) (number f) = Some (OK, Some rd) \<and> random_file rd bytes) \<and>
     length bytes < 2 ^ 32 \<and> file_size f = of_nat (length bytes) \<and> kvs_small (table_kvs ops) \<and> fok (map op_key ops) \<and>
     table_sorted (co_Compare (opt_comparator opt)) valid ops \<and> distinct (map (\<lambda>o1. (op_key o1, op_seq o1)) ops) \<and>
     ops \<noteq> [] \<and> smallest f = op_ikey (hd ops) \<and> largest f = op_ikey (last ops))"

context user_options
begin

lemma stored_good:
  assumes "stored_table opt valid fok env \<lparr>tc_dbname = dbname, tc_options = db_options i opt\<rparr> tab f"
  shows "good_kvs (db_options i opt) user.internal_valid (table_kvs (tab (number f)))"
    and "fok (map ExtractUserKey (map fst (table_kvs (tab (number f)))))"
proof -
  have "co_Compare (opt_comparator (db_options i opt)) = ikc_Compare (co_Compare (opt_comparator opt))"
    by (simp add: db_options_def SanitizeOptions_def InternalKeyComparator_def)
  then show "good_kvs (db_options i opt) user.internal_valid (table_kvs (tab (number f)))"
    using assms user.op_ikey_valid
    by (auto simp: stored_table_def good_kvs_def Let_def table_sorted_def table_kvs_def sorted_wrt_map)
  have "map ExtractUserKey (map fst (table_kvs (tab (number f)))) = map op_key (tab (number f))"
    by (simp add: table_kvs_def op_ikey_def)
  then show "fok (map ExtractUserKey (map fst (table_kvs (tab (number f)))))"
    using assms by (simp add: stored_table_def Let_def)
qed

lemma TableCache_Get_on:
  fixes i dbname
  defines "dopt \<equiv> db_options i opt"
  defines "tc \<equiv> \<lparr>tc_dbname = dbname, tc_options = dopt\<rparr>"
  assumes inv: "tables_inv dopt tab held bheld (Suc m) st" and f: "stored_table opt valid fok env tc tab f" and k: "user.internal_valid k"
  shows "\<exists>found st'. TableCache_Get env tc ro (number f) (file_size f) k st = Some (OK, found, st') \<and> tables_inv dopt tab held bheld m st' \<and>
    (case dropWhile (\<lambda>o1. ikc_Compare (co_Compare (opt_comparator opt)) (op_ikey o1) k < 0) (tab (number f)) of
       [] \<Rightarrow> found = None
     | o1 # _ \<Rightarrow> (found = None \<or> found = Some (op_ikey o1, op_value o1)) \<and>
         (op_key o1 = ExtractUserKey k \<longrightarrow> found = Some (op_ikey o1, op_value o1)))"
proof -
  define kvs where "kvs = table_kvs (tab (number f))"
  obtain owner l where at: "tables_at dopt (Suc m) tab owner l held bheld st" "unat l + Suc m < 2 ^ 64" using inv unfolding tables_inv_def by blast
  have l1: "unat l + 1 < 2 ^ 64" using at(2) by linarith
  obtain rd where rd: "open_table_file env (tc_dbname tc) (number f) = Some (OK, Some rd)" "random_file rd (table_file dopt kvs)"
    "length (table_file dopt kvs) < 2 ^ 32" "file_size f = of_nat (length (table_file dopt kvs))"
    using f by (auto simp: stored_table_def Let_def kvs_def tc_def)
  have ri: "1 \<le> opt_block_restart_interval dopt" unfolding dopt_def by (rule db.restart_interval)
  have to: "tc_options tc = dopt" by (simp add: tc_def)
  obtain h t c bc owner' l' where F: "FindTable env tc (number f) (file_size f) st = Some (OK, Some h, c, bc)" "Cache_Value h c = Some t"
    "cached_table dopt tab owner' bc (EncodeFixed64 (number f)) t" "unat l' \<le> unat l + 1"
    and at': "cache_inv m c (held(h := held h + 1))" "table_cache dopt (Suc m) owner' l' bheld bc"
      "\<forall>cid. owner' cid \<noteq> None \<longrightarrow> unat cid \<le> unat l'" "\<forall>k t. cache_content c k t \<longrightarrow> cached_table dopt tab owner' bc k t" "few_refs held"
    using FindTable_on [of tc m tab owner l held bheld st env "number f" rd, unfolded to, folded kvs_def, OF at(1) l1 rd(1-3) ri] unfolding rd(4) by blast
  obtain rd' where t: "random_file rd' (table_file dopt kvs)" "table_at dopt (blocks_of dopt kvs) rd' t" "owned owner' (tbl_cache_id t) (blocks_of dopt kvs) bc"
    using F(3) unfolding cached_table_def Let_def kvs_def by blast
  note good = stored_good [OF f [unfolded tc_def dopt_def], folded dopt_def kvs_def]
  obtain found bc' where I: "InternalGet t ro k bc = Some (OK, found, bc')" "table_cache dopt m owner' l' bheld bc'" "bc' = None \<longleftrightarrow> bc = None"
    "db.get_result k (dropWhile (\<lambda>e. co_Compare (opt_comparator dopt) (fst e) k < 0) kvs) found"
    using db.InternalGet_on [OF t(1,2) [unfolded dopt_def] good [unfolded dopt_def] k at'(2) [unfolded dopt_def] t(3) [unfolded dopt_def], of ro]
    unfolding dopt_def by blast
  obtain c' where R: "Cache_Release h c = Some c'" "cache_inv m c' held" "cache_content c' = cache_content c"
    using lru.release_law [OF at'(1), of h] by auto
  have "tables_at dopt m tab owner' l' held bheld (c', bc')"
    unfolding tables_at_def fst_conv snd_conv R(3) using R(2) I(2) at'(3-5) cached_table_same [OF _ I(3)] by blast
  moreover have "unat l' + m < 2 ^ 64" using F(4) at(2) by linarith
  ultimately have "tables_inv dopt tab held bheld m (c', bc')" unfolding tables_inv_def by blast
  moreover have "TableCache_Get env tc ro (number f) (file_size f) k st = Some (OK, found, c', bc')"
    using F(1,2) I(1) R(1) by (simp add: TableCache_Get_def)
  moreover have "case dropWhile (\<lambda>o1. ikc_Compare (co_Compare (opt_comparator opt)) (op_ikey o1) k < 0) (tab (number f)) of
      [] \<Rightarrow> found = None
    | o1 # _ \<Rightarrow> (found = None \<or> found = Some (op_ikey o1, op_value o1)) \<and>
        (op_key o1 = ExtractUserKey k \<longrightarrow> found = Some (op_ikey o1, op_value o1))"
  proof -
    have c: "co_Compare (opt_comparator dopt) = ikc_Compare (co_Compare (opt_comparator opt))"
      by (simp add: dopt_def db_options_def SanitizeOptions_def InternalKeyComparator_def)
    have e: "ExtractUserKey (op_ikey o1) = op_key o1" for o1 by (simp add: op_ikey_def)
    show ?thesis using I(4) unfolding c
      by (cases "dropWhile (\<lambda>o1. ikc_Compare (co_Compare (opt_comparator opt)) (op_ikey o1) k < 0) (tab (number f))")
        (auto simp: db.get_result_def kvs_def table_kvs_def dropWhile_map comp_def e simp del: dropWhile_eq_Nil_conv)
  qed
  ultimately show ?thesis by blast
qed

end

text \<open>The interface over which lookups in a version are proved.\<close>

sublocale user_options \<subseteq> cached_tables: table_source "co_Compare (opt_comparator opt)" valid "co_FindShortestSeparator (opt_comparator opt)"
    "co_FindShortSuccessor (opt_comparator opt)" "TableCache_Get env \<lparr>tc_dbname = dbname, tc_options = db_options i opt\<rparr> ro"
    "tables_inv (db_options i opt) tab held bheld" "stored_table opt valid fok env \<lparr>tc_dbname = dbname, tc_options = db_options i opt\<rparr> tab" tab
  for env dbname i ro held bheld tab
proof unfold_locales
  fix m st f k
  let ?tc = "\<lparr>tc_dbname = dbname, tc_options = db_options i opt\<rparr>"
  show "tables_inv (db_options i opt) tab held bheld (Suc m) st \<Longrightarrow> tables_inv (db_options i opt) tab held bheld m st" by (rule tables_inv_less)
  assume f: "stored_table opt valid fok env ?tc tab f"
  show "table_sorted (co_Compare (opt_comparator opt)) valid (tab (number f))" "distinct (map (\<lambda>o1. (op_key o1, op_seq o1)) (tab (number f)))"
    "tab (number f) \<noteq> []" "smallest f = op_ikey (hd (tab (number f)))" "largest f = op_ikey (last (tab (number f)))"
    using f by (simp_all add: stored_table_def Let_def)
  assume "tables_inv (db_options i opt) tab held bheld (Suc m) st" "user.internal_valid k"
  from TableCache_Get_on [OF this(1) f this(2), of ro] show "\<exists>entry st'. TableCache_Get env ?tc ro (number f) (file_size f) k st = Some (OK, entry, st') \<and>
      tables_inv (db_options i opt) tab held bheld m st' \<and>
      (case dropWhile (\<lambda>o1. ikc_Compare (co_Compare (opt_comparator opt)) (op_ikey o1) k < 0) (tab (number f)) of [] \<Rightarrow> entry = None
       | o1 # _ \<Rightarrow> (entry = None \<or> entry = Some (op_ikey o1, op_value o1)) \<and>
           (op_key o1 = ExtractUserKey k \<longrightarrow> entry = Some (op_ikey o1, op_value o1)))" by blast
qed

context user_options
begin

lemma version_lookup:
  assumes "version_ok (co_Compare (opt_comparator opt)) valid
      (stored_table opt valid fok env \<lparr>tc_dbname = dbname, tc_options = db_options i opt\<rparr> tab) tab v"
    and "valid u" "s \<le> kMaxSequenceNumber" "length u + 8 < 2 ^ 32"
    and "tables_inv (db_options i opt) tab held bheld (length (concat (v_files v)) + m) st"
  shows "\<exists>stats st'. Version_Get (TableCache_Get env \<lparr>tc_dbname = dbname, tc_options = db_options i opt\<rparr> ro) (co_Compare (opt_comparator opt)) v
      (LookupKey_init u s) val st =
    (case get_outcome (visible u s (concat (version_tables tab v))) val of (r, x) \<Rightarrow> Some (r, x, stats, st')) \<and>
    tables_inv (db_options i opt) tab held bheld m st'"
  by (rule cached_tables.Version_Get_on [OF assms])

end

end
