(* ===== verification/Lv_Version_Properties.thy ===== *)
theory Lv_Version_Properties
  imports Lv_Table_Cache
begin

text \<open>
  The properties of versions: searches in the levels, and a lookup through the table cache. The instance is a database
  in \<open>/d\<close> with one table in level 0 and an older one in level 1.
\<close>

section \<open>Searching the levels\<close>

text \<open> C40. In a sorted level, whose files are disjoint, the binary search for a file that overlaps a range of user keys
  and the search through all files give the same answer. Either end of the range may be open. \<close>

theorem overlap_search:
  assumes "user_order ucmp uvalid usep usucc" and "level_sorted ucmp uvalid files" and "range_valid uvalid (lo, hi)"
  shows "SomeFileOverlapsRange ucmp True files lo hi = SomeFileOverlapsRange ucmp False files lo hi"
  using user_order.SomeFileOverlapsRange_sorted [OF assms(1,2)] assms(3) by (simp add: range_valid_def)

text \<open> C39. In level 0 the collection of overlapping files ends, although it starts again whenever a file widens the
  range, and returns exactly the files in the least range that contains the given one and that no file in it sticks out of. \<close>

theorem overlapping_inputs_closed:
  assumes "user_order ucmp uvalid usep usucc" and "\<forall>f \<in> set (level_files v 0). meta_ok ucmp uvalid f"
    and "\<forall>k. b = Some k \<longrightarrow> ikey_valid uvalid k" "\<forall>k. e = Some k \<longrightarrow> ikey_valid uvalid k"
  shows "\<exists>lo hi. GetOverlappingInputs ucmp v 0 b e = Some (filter (in_range ucmp lo hi) (level_files v 0)) \<and>
    least_closed ucmp uvalid (level_files v 0) (map_option ExtractUserKey b) (map_option ExtractUserKey e) lo hi"
proof -
  have "range_valid uvalid (map_option ExtractUserKey b, map_option ExtractUserKey e)"
    using assms(3,4) by (auto simp: range_valid_def ikey_valid_def)
  from user_order.overlapping_loop_0 [OF assms(1,2) this, of 0] show ?thesis by (simp add: GetOverlappingInputs_def kNumLevels_def)
qed

section \<open>Lookups\<close>

text \<open> C38. A lookup in a version returns what a snapshot sees of all operations that its tables hold: the newest one on the
  user key with a number up to that of the snapshot, as its value or as not found if it is a deletion or there is none.
  The tables are opened through the table cache and their blocks read through the block cache, in any state in which
  these agree with the files; they do again afterwards, with all handles released. \<close>

theorem version_get:
  assumes "user_options opt valid fok"
    and "version_ok (co_Compare (opt_comparator opt)) valid
      (stored_table opt valid fok env \<lparr>tc_dbname = dbname, tc_options = db_options i opt\<rparr> tab) tab v"
    and "valid u" "s \<le> kMaxSequenceNumber" "length u + 8 < 2 ^ 32"
    and "tables_inv (db_options i opt) tab held bheld (length (concat (v_files v)) + m) st"
  shows "\<exists>stats st'. Version_Get (TableCache_Get env \<lparr>tc_dbname = dbname, tc_options = db_options i opt\<rparr> ro)
      (co_Compare (opt_comparator opt)) v (LookupKey_init u s) val st =
    (case get_outcome (visible u s (concat (version_tables tab v))) val of (r, x) \<Rightarrow> Some (r, x, stats, st')) \<and>
    tables_inv (db_options i opt) tab held bheld m st'"
  by (rule user_options.version_lookup [OF assms])

section \<open>An instance\<close>

definition old_ops :: "operation list" where
  "old_ops = [\<lparr>op_seq = 1, op_type = kTypeValue, op_key = [1], op_value = [10]\<rparr>]"

definition new_ops :: "operation list" where
  "new_ops = [\<lparr>op_seq = 7, op_type = kTypeValue, op_key = [1], op_value = [20]\<rparr>]"

definition db_ops :: "u64 \<Rightarrow> operation list" where
  "db_ops n = (if n = 5 then new_ops else old_ops)"

definition raw_options :: Options where
  "raw_options = Options_init\<lparr>opt_block_size := 1\<rparr>"

definition db_tables :: TableCache where
  "db_tables = \<lparr>tc_dbname = str ''/d'', tc_options = db_options 0 raw_options\<rparr>"

definition db_file :: "u64 \<Rightarrow> FileMetaData" where
  "db_file n = \<lparr>refs = 1, allowed_seeks = 100, number = n, file_size = of_nat (length (table_file (tc_options db_tables) (table_kvs (db_ops n)))),
    smallest = op_ikey (hd (db_ops n)), largest = op_ikey (last (db_ops n))\<rparr>"

definition db_env :: open_file where
  "db_env name = (if Some name = TableFileName (str ''/d'') 5 then (OK, Some (PosixMmapReadableFile_Read name (table_file (tc_options db_tables) (table_kvs new_ops))))
     else if Some name = TableFileName (str ''/d'') 4 then (OK, Some (PosixMmapReadableFile_Read name (table_file (tc_options db_tables) (table_kvs old_ops))))
     else (NotFound name [], None))"

definition db_version :: "unit Version" where
  "db_version = (Version_init ())\<lparr>v_files := [[db_file 5], [db_file 4], [], [], [], [], []]\<rparr>"

lemma one_block: "blocks_of opt [(k, v)] = [[(k, v)]]"
proof -
  have "concat (blocks_of opt [(k, v)]) = [(k, v)]" "[] \<notin> set (blocks_of opt [(k, v)])" by (rule blocks_of_concat, rule blocks_of_nonempty)
  then show ?thesis
    by (cases "blocks_of opt [(k, v)]"; cases "tl (blocks_of opt [(k, v)])") (auto simp: append_eq_Cons_conv concat_eq_Nil_conv neq_Nil_conv)
qed

lemma one_entry_length:
  assumes "opt_filter_policy opt = None" "length k + length v < 100" "length (co_FindShortSuccessor (opt_comparator opt) k) < 100"
  shows "length (table_file opt [(k, v)]) < 2 ^ 32"
proof -
  let ?B = "[[(k, v)]]" and ?ri = "opt_block_restart_interval opt"
  have h: "length (handle_bytes h) \<le> 20" for h using length_handle_bytes [of h] by (simp add: kMaxEncodedLength_def)
  have i: "index_kvs opt ?B 1 = [(co_FindShortSuccessor (opt_comparator opt) k, handle_bytes (block_handle ?ri ?B 0))]"
    by (simp add: index_kvs_def index_key_def)
  have "length (index_block opt ?B) \<le> 200"
    unfolding index_block_def using i h [of "block_handle ?ri ?B 0"] assms(3) by (intro order.trans [OF length_block_of]) simp
  moreover have "length (meta_block opt ?B) \<le> 8"
    unfolding meta_block_def by (rule order.trans [OF length_block_of]) (simp add: meta_kvs_def assms(1))
  moreover have "length (block_of ?ri [(k, v)]) \<le> 200" by (rule order.trans [OF length_block_of]) (use assms(2) in simp)
  then have "length (data_bytes ?ri ?B) \<le> 205" by (simp add: data_bytes_def length_stored_block kBlockTrailerSize_def)
  ultimately show ?thesis
    by (simp add: table_file_blocks one_block table_bytes_def before_index_def before_meta_def stored_filter_def assms(1)
      length_stored_block length_footer_bytes kBlockTrailerSize_def kEncodedLength_def kMaxEncodedLength_def)
qed

lemma number_db_file: "number (db_file n) = n"
  by (simp add: db_file_def)

lemma db_stored:
  assumes "n = 4 \<or> n = 5"
  shows "stored_table raw_options (\<lambda>_. True) (\<lambda>_. True) db_env db_tables db_ops (db_file n)"
proof -
  have names: "TableFileName (str ''/d'') 5 \<noteq> TableFileName (str ''/d'') 4" by code_simp
  obtain name where name: "TableFileName (str ''/d'') n = Some name" using assms by (auto simp: TableFileName_def)
  have o: "opt_filter_policy (tc_options db_tables) = None"
    by (simp add: db_tables_def db_options_def SanitizeOptions_def raw_options_def Options_init_def InternalFilterPolicy_def)
  obtain op where op: "db_ops n = [op]" "op_seq op \<le> kMaxSequenceNumber" "length (op_ikey op) + length (op_value op) < 100"
    "length (co_FindShortSuccessor (opt_comparator (tc_options db_tables)) (op_ikey op)) < 100"
  proof
    show "db_ops n = [hd (db_ops n)]" using assms by (auto simp: db_ops_def old_ops_def new_ops_def)
    show "op_seq (hd (db_ops n)) \<le> kMaxSequenceNumber" using assms by (auto simp: db_ops_def old_ops_def new_ops_def kMaxSequenceNumber_def)
    show "length (op_ikey (hd (db_ops n))) + length (op_value (hd (db_ops n))) < 100"
      using assms by (auto simp: db_ops_def old_ops_def new_ops_def op_ikey_def)
    have "length (co_FindShortSuccessor (opt_comparator (tc_options db_tables)) (op_ikey (hd old_ops))) < 100"
      "length (co_FindShortSuccessor (opt_comparator (tc_options db_tables)) (op_ikey (hd new_ops))) < 100" by code_simp+
    then show "length (co_FindShortSuccessor (opt_comparator (tc_options db_tables)) (op_ikey (hd (db_ops n)))) < 100" by (simp add: db_ops_def)
  qed
  have kvs: "table_kvs (db_ops n) = [(op_ikey op, op_value op)]" by (simp add: table_kvs_def op(1))
  have num: "number (db_file n) = n" by (simp add: db_file_def)
  have "open_table_file db_env (tc_dbname db_tables) n =
      Some (OK, Some (PosixMmapReadableFile_Read name (table_file (tc_options db_tables) (table_kvs (db_ops n)))))"
    using assms names name by (auto simp: open_table_file_def db_env_def db_tables_def db_ops_def)
  moreover have "length (table_file (tc_options db_tables) (table_kvs (db_ops n))) < 2 ^ 32" unfolding kvs by (rule one_entry_length [OF o op(3,4)])
  moreover have "kvs_small (table_kvs (db_ops n))" unfolding kvs kvs_small_def using op(3) by simp
  moreover have "table_sorted (co_Compare (opt_comparator raw_options)) (\<lambda>_. True) (db_ops n)" using op(1,2) by (simp add: table_sorted_def op_valid_def)
  ultimately show ?thesis
    unfolding stored_table_def Let_def num using mmap.random_file_axioms op(1) by (simp add: db_file_def)
qed

lemma db_version_ok:
  "version_ok (co_Compare (opt_comparator raw_options)) (\<lambda>_. True)
     (stored_table raw_options (\<lambda>_. True) (\<lambda>_. True) db_env db_tables db_ops) db_ops db_version"
proof -
  have cmp: "co_Compare (opt_comparator raw_options) = Compare" by (simp add: raw_options_def Options_init_def BytewiseComparator_def)
  have "ikc_Compare Compare (op_ikey (hd old_ops)) (op_ikey (hd old_ops)) \<le> 0" "key_made (op_ikey (hd old_ops))" by code_simp+
  then have "level_sorted Compare (\<lambda>_. True) [db_file 4]"
    by (simp add: level_sorted_def meta_ok_def bytewise_plain.user.internal_valid_def db_file_def db_ops_def old_ops_def op_ikey_def)
  moreover have "newer new_ops old_ops" by (simp add: newer_def new_ops_def old_ops_def)
  ultimately show ?thesis
    using db_stored [of 4] db_stored [of 5]
    by (auto simp: version_ok_def db_version_def Version_init_def cmp level_sorted_def version_tables_def level_ops_def sort_newest_def
      number_db_file db_ops_def old_ops_def newer_def)
qed

theorem version_get_witness:
  "\<exists>stats st'. Version_Get (TableCache_Get db_env \<lparr>tc_dbname = str ''/d'', tc_options = db_options 0 raw_options\<rparr> ReadOptions_init)
      (co_Compare (opt_comparator raw_options)) db_version (LookupKey_init [1] 9) []
      (snd (TableCache_init (str ''/d'') (db_options 0 raw_options) 100 (Some (ShardedLRUCache_init 1000)))) = Some (OK, [20], stats, st')"
proof -
  have inv: "tables_inv (db_options 0 raw_options) db_ops (\<lambda>_. 0) (\<lambda>_. 0) (length (concat (v_files db_version)) + 1)
      (snd (TableCache_init (str ''/d'') (db_options 0 raw_options) 100 (Some (ShardedLRUCache_init 1000))))"
    by (rule tables_inv_init) (simp_all add: db_version_def max_entries_def)
  have vis: "get_outcome (visible [1] 9 (concat (version_tables db_ops db_version))) [] = (OK, [20])"
    by (simp add: version_tables_def db_version_def sort_newest_def level_ops_def db_file_def db_ops_def old_ops_def new_ops_def get_outcome_def Let_def)
  have "9 \<le> kMaxSequenceNumber" by (simp add: kMaxSequenceNumber_def)
  then show ?thesis
    using version_get [OF bytewise_plain.user_options_axioms [of 1, folded raw_options_def] db_version_ok [unfolded db_tables_def] TrueI _ _ inv,
      of 9 "[1]" ReadOptions_init "[]"] unfolding vis by auto
qed

text \<open>Files of a level by their user keys.\<close>

definition key_file :: "u64 \<Rightarrow> slice \<Rightarrow> slice \<Rightarrow> FileMetaData" where
  "key_file n lo hi = \<lparr>refs = 1, allowed_seeks = 100, number = n, file_size = 0, smallest = lookup_ikey lo 9, largest = lookup_ikey hi 3\<rparr>"

definition two_files :: "FileMetaData list" where
  "two_files = [key_file 4 [1] [3], key_file 5 [5] [7]]"

lemma two_files_sorted: "level_sorted Compare (\<lambda>_. True) two_files"
proof -
  have v: "user_order.internal_valid (\<lambda>_. True) (lookup_ikey k s)" for k s by (rule bytewise.lookup_ikey_valid [OF TrueI])
  have "key_made (lookup_ikey k 3)" for k by (simp add: key_made_def lookup_ikey_def) code_simp
  moreover have "ikc_Compare Compare (lookup_ikey [1] 9) (lookup_ikey [3] 3) \<le> 0" "ikc_Compare Compare (lookup_ikey [5] 9) (lookup_ikey [7] 3) \<le> 0"
    "ikc_Compare Compare (lookup_ikey [3] 3) (lookup_ikey [5] 9) < 0" by code_simp+
  ultimately show ?thesis by (simp add: level_sorted_def meta_ok_def two_files_def key_file_def v)
qed

theorem overlap_search_witness:
  "SomeFileOverlapsRange Compare True two_files (Some [4]) (Some [6]) = Some True"
proof -
  have "SomeFileOverlapsRange Compare False two_files (Some [4]) (Some [6]) = Some True" by code_simp
  moreover have "range_valid (\<lambda>_. True) (Some [4], Some [6])" by (simp add: range_valid_def)
  ultimately show ?thesis using overlap_search [OF bytewise.user_order_axioms two_files_sorted] by metis
qed

theorem overlapping_inputs_closed_witness:
  "\<exists>lo hi. GetOverlappingInputs Compare ((Version_init ())\<lparr>v_files := two_files # replicate 6 []\<rparr>) 0 (Some (lookup_ikey [2] 5)) None =
      Some (filter (in_range Compare lo hi) two_files) \<and> least_closed Compare (\<lambda>_. True) two_files (Some [2]) None lo hi"
proof -
  have "level_files ((Version_init ())\<lparr>v_files := two_files # replicate 6 []\<rparr>) 0 = two_files" by (simp add: level_files_def)
  moreover have "\<forall>f \<in> set two_files. meta_ok Compare (\<lambda>_. True) f" using two_files_sorted by (simp add: level_sorted_def)
  moreover have "ExtractUserKey (lookup_ikey [2] 5) = [2]" unfolding lookup_ikey_def by (rule ExtractUserKey_app)
  ultimately show ?thesis
    using overlapping_inputs_closed [OF bytewise.user_order_axioms, of "(Version_init ())\<lparr>v_files := two_files # replicate 6 []\<rparr>" "Some (lookup_ikey [2] 5)" None]
      bytewise.lookup_ikey_valid [OF TrueI, of "[2]" 5] by (simp del: replicate.simps)
qed

end
