(* ===== verification/Spec2Isabelle.thy ===== *)
theory Spec2Isabelle
  imports Pb_Roundtrip Pb_Wire Pb_Codec Pb_Examples Lv_Properties Lv_Data_Properties
    Lv_Cache_Properties Lv_Table_Properties Lv_Version_Properties
begin

text \<open>
  A verification library for the C and C++ code of the dependencies of the iOS application in this
  repository (\<open>src/Prosjekt-kopi/Pods\<close>): the protocol buffer runtime nanopb and the storage library leveldb.

  \<^bold>\<open>nanopb\<close> (\<open>Pods/nanopb/*.c, *.h\<close>). The configuration is the one of the Pods project
  (\<open>PB_FIELD_32BIT\<close>, no \<open>PB_ENABLE_MALLOC\<close>) on a little-endian LP64 target.
    \<^item> \<open>Prelude\<close>, \<open>C_Memory\<close>, \<open>C_Monad\<close>: machine integers, byte-addressed memory (an access outside of
      every object is undefined, \<open>None\<close>), and the computation type: stream, memory and result; \<open>Fail\<close>
      is the return value \<open>false\<close>.
    \<^item> \<open>Pb_Types\<close> (\<open>pb.h\<close>): type bytes, field descriptors and their macros, stream structures, error
      macros, and the environment: descriptor tables by address and the user's callbacks.
    \<^item> \<open>Pb_Common\<close> (\<open>pb_common.c\<close>): the field iterator; \<open>iter_at\<close> is its closed form.
    \<^item> \<open>Pb_Ostream\<close>, \<open>Pb_Encode\<close> (\<open>pb_encode.c\<close>), \<open>Pb_Istream\<close>, \<open>Pb_Decode\<close> (\<open>pb_decode.c\<close>): one
      definition per function, loops as recursive functions of their own. The argument \<open>d\<close> of
      \<open>pb_encode\<close> and \<open>pb_decode\<close> bounds the nesting of messages (the depth of the C stack); a
      theorem that names a result states the depth that is enough for it.
    \<^item> \<open>Wire_Format\<close>, \<open>Pb_Emit\<close>, \<open>Pb_Wire\<close>: the wire format as functions on byte lists, the contract
      \<open>emits\<close> of an encoder with its stream, and the proof that \<open>pb_encode\<close> implements
      \<open>wire_message\<close> on every table, with submessages, arrays, oneofs, callbacks and extensions.
    \<^item> \<open>Pb_Parse\<close>, \<open>Pb_Store\<close>: what the readers of \<open>pb_decode.c\<close> return on given bytes, and that a field
      decoder stores what the field encoder of the same type read.
    \<^item> \<open>Pb_Safe\<close>, \<open>Pb_Decode_Safe\<close>: memory safety and termination of the decoder on arbitrary input.
    \<^item> \<open>Pb_Codec\<close>: the interface \<open>wire_codec\<close> of an encoder and a decoder of one value, and its
      interpretations for varints, zigzag integers and tags.
    \<^item> \<open>Pb_Roundtrip\<close>: \<open>pb_decode\<close> inverts \<open>pb_encode\<close> on tables of singular static fields.
    \<^item> \<open>Pb_Examples\<close>: a concrete message on which the theorems are applied.

  The safety theorem asks of the user's callbacks that they keep to their memory and make progress
  (\<open>callbacks_safe\<close>), and that a table does not have a multiple of 32 required fields, for which
  the check of the required fields is undefined.

  \<^bold>\<open>leveldb\<close> (\<open>Pods/leveldb-library\<close>). Byte sequences (\<open>Slice\<close>, \<open>std::string\<close>) are byte lists; a pointer
  into a buffer is what is left of it, or an offset where arithmetic on it matters.
    \<^item> \<open>Lv_Coding\<close> (\<open>util/coding.cc\<close>, \<open>slice.h\<close>): fixed-width and varint integers, length-prefixed
      slices; the interface \<open>slice_codec\<close> of an encoder and a prefix reader, with five interpretations.
    \<^item> \<open>Lv_Comparator\<close> (\<open>util/comparator.cc\<close>): the contracts \<open>comparator\<close> and \<open>key_shortener\<close>, and the bytewise
      comparator, which keeps them. \<open>Lv_Dbformat\<close> (\<open>db/dbformat.cc\<close>): internal keys; their comparator
      keeps the contract over every user comparator that does (\<open>user_order\<close>).
    \<^item> \<open>Lv_Hash\<close> (\<open>util/hash.cc\<close>, \<open>util/bloom.cc\<close>, \<open>util/random.h\<close>): the contract \<open>filter_policy\<close>, the bloom
      filter, and its wrapper for internal keys; the random numbers.
    \<^item> \<open>Lv_Crc32c\<close> (\<open>util/crc32c.cc\<close>): the table-driven checksum equals bitwise division.
    \<^item> \<open>Lv_Logging\<close>, \<open>Lv_Filename\<close>, \<open>Lv_Status\<close> (\<open>util/logging.cc\<close>, \<open>db/filename.cc\<close>, \<open>util/status.cc\<close>):
      numbers and escapes, file names, and the status of an operation.
    \<^item> \<open>Lv_Env\<close> (\<open>util/env_posix.cc\<close>): the contracts \<open>writable_file\<close> and \<open>sequential_file\<close>, kept by the
      POSIX files over every C library with the documented behaviour (\<open>libc_stdio\<close>), of which a disk of
      limited size is one.
    \<^item> \<open>Lv_Log_Writer\<close>, \<open>Lv_Log_Reader\<close> (\<open>db/log_writer.cc\<close>, \<open>db/log_reader.cc\<close>): the log; \<open>log_record\<close> is its
      format as a function. The loop of \<open>ReadRecord\<close> is a partial function, shown to be total.
    \<^item> \<open>Lv_Version_Edit\<close> (\<open>db/version_edit.cc\<close>): the records of the manifest.
    \<^item> \<open>Lv_Block\<close> (\<open>table/block_builder.cc\<close>, \<open>table/block.cc\<close>): the builder and the iterator of a block, the
      loops of \<open>Prev\<close> and \<open>Seek\<close> with their bounds; in \<open>block_order\<close> a seek stands where its contract says.
    \<^item> \<open>Lv_Skiplist\<close> (\<open>db/skiplist.h\<close>): the nodes in a list, the towers of links, the searches as partial
      functions; over every \<open>key_order\<close> the list is the ascending list of its keys (\<open>sl_abs\<close>).
    \<^item> \<open>Lv_Memtable\<close>, \<open>Lv_Write_Batch\<close> (\<open>db/memtable.cc\<close>, \<open>db/write_batch.cc\<close>): the memtable over the skip list,
      with what a snapshot sees of the operations (\<open>visible\<close>), and batches of updates inserted into it.
    \<^item> \<open>Lv_Cache\<close>, \<open>Lv_Lru\<close>, \<open>Lv_Sharded_Cache\<close> (\<open>util/cache.cc\<close>): a heap of entries, the hash table that grows,
      the two rings of each shard, the reference counts; the contract \<open>cache\<close> of a client, kept by the
      sharded cache, and the histories of a client (\<open>cache_reach\<close>). A deleter that ran is an entry of \<open>lc_deleted\<close>.
    \<^item> \<open>Lv_Format\<close>, \<open>Lv_Filter_Block\<close> (\<open>table/format.cc\<close>, \<open>table/filter_block.cc\<close>): handles, the footer, stored blocks with
      their checksum over any file with positioned reads (\<open>random_file\<close>), and the filters of a table.
    \<^item> \<open>Lv_Table_Builder\<close> (\<open>table/table_builder.cc\<close>): the builder over any \<open>writable_file\<close>; \<open>table_file\<close> is the file as a
      function of its entries. \<open>Lv_Table\<close> (\<open>table/table.cc\<close>): opening a table and lookups through its filter and the
      block cache; \<open>table_opts\<close> is what the options must satisfy, and \<open>user_options\<close> those of a user.
    \<^item> \<open>Lv_Db_Options\<close> (\<open>SanitizeOptions\<close> of \<open>db/db_impl.cc\<close>): the options of a database satisfy \<open>table_opts\<close> again.
    \<^item> \<open>Lv_Version\<close>, \<open>Lv_Version_Get\<close> (\<open>db/version_set.cc\<close>): the files of every level, the searches in them and the
      choice of a level and of overlapping files; a lookup in a version, over any source of tables with the contract
      \<open>table_source\<close>. \<open>Lv_Table_Cache\<close> (\<open>db/table_cache.cc\<close>): the cache of open tables, which keeps that contract as
      long as the identifiers of the block cache do not wrap around.
    \<^item> \<open>Lv_Properties\<close>, \<open>Lv_Data_Properties\<close>, \<open>Lv_Cache_Properties\<close>, \<open>Lv_Table_Properties\<close>,
      \<open>Lv_Version_Properties\<close>: the properties of these parts and their instances.

  \<^bold>\<open>Not modelled\<close>: dynamic allocation in nanopb, which the project does not compile; of leveldb the threads,
  locks and system calls (\<open>db_impl.cc\<close>, the rest of \<open>env_posix.cc\<close>, \<open>port\<close>), and what is built on them;
  the other pods (Firebase frameworks, GTMSessionFetcher, GeoFire, GoogleToolboxForMac), which are
  headers of binary frameworks or Objective-C glue around system services, and the Swift application.
\<close>

section \<open>Without user callbacks\<close>

abbreviation no_cb :: callback_spec where "no_cb \<equiv> \<lambda>_ _ _. None"
abbreviation no_xb :: extension_spec where "no_xb \<equiv> \<lambda>_ _. None"

lemma no_callbacks: "callbacks_ok m0 E no_cb no_xb"
  by (simp add: callbacks_ok_def)

lemma encode_emits:
  assumes "callbacks_ok m0 E cb xb" "wire_message E cb xb n d m0 fs src = Some bs" "length bs < 2 ^ 61"
  shows "emits m0 (pb_encode E d fs src) bs"
  using encode_implements_wire [OF assms(1)] assms(2,3)
  unfolding encodes_def implements_def by blast

section \<open>The encoder\<close>

text \<open> C1. Round trip of a message through a buffer: \<open>pb_encode\<close> into a buffer and then
  \<open>pb_decode\<close> from the bytes it wrote, into another structure, both succeed, consume everything,
  and the two structures agree on every field: its presence flag, and its content if present.
  The message lives in the part \<open>m0\<close> of the memory \<open>m\<close>; the buffer is outside that part. \<close>

theorem encode_decode_round_trip:
  assumes tab: "simple_table fs" and req: "required_ok fs" and src: "0 < src"
    and dok: "\<forall>k < n_fields fs. data_ok E (mdom m) (\<lambda>_ _. False) (fs ! k)"
    and c: "content_ok m0 src fs"
    and w: "wire_message E no_cb no_xb 0 (Suc d) m0 fs src = Some bs"
    and sub: "msub m0 m" "arange buf (unat n) \<inter> mdom m0 = {}"
    and buf: "mvalid m buf (unat n)" "unat n < 2 ^ 61" "length bs \<le> unat n"
    and reg: "\<forall>k < n_fields fs. field_region fs dest k \<subseteq> mdom m - arange buf (unat n)"
  shows "\<exists>s1 m1 m2. pb_encode E (Suc d) fs src (pb_ostream_from_buffer buf n) m = Some (Ok (), s1, m1) \<and>
     pb_decode E (Suc d) fs dest (pb_istream_from_buffer buf (unat (bytes_written s1))) m1 =
       Some (Ok (), pb_istream_from_buffer (buf + int (length bs)) 0, m2) \<and>
     (\<forall>k < n_fields fs. same_field m0 src m2 dest fs k)"
proof -
  have len: "length bs < 2 ^ 61" "unat n < 2 ^ 63" using buf(2,3) by auto
  obtain m1 where m1: "mstore m buf bs = Some m1" "pb_encode E (Suc d) fs src (pb_ostream_from_buffer buf n) m =
      Some (Ok (), advance (length bs) (pb_ostream_from_buffer buf n), m1)"
    using emits_buffer [OF encode_emits [OF no_callbacks w len(1)] sub(1) buf(1) sub(2) len(2) buf(3)] by blast
  let ?s = "pb_istream_from_buffer buf (length bs)"
  have "arange (in_state ?s) (length bs) \<subseteq> arange buf (unat n)"
    using arange_shorter [OF order_refl buf(3), of buf] by (simp add: pb_istream_from_buffer_def)
  then have dj: "arange (in_state ?s) (length bs) \<inter> (\<Union>k < n_fields fs. field_region fs dest k) = {}"
    using reg by fastforce
  have regs: "\<And>k. k < n_fields fs \<Longrightarrow> field_region fs dest k \<subseteq> mdom m1"
    using reg mstore_dom [OF m1(1)] by auto
  have dok1: "\<And>k. k < n_fields fs \<Longrightarrow> data_ok E (mdom m1) (\<lambda>_ _. False) (fs ! k)"
    using dok mstore_dom [OF m1(1)] by simp
  have "bytes_left ?s = length bs" by (simp add: pb_istream_from_buffer_def)
  from decode_wire_message [OF tab req src dok1 regs c w stored_next_bytes [OF m1(1)] this dj, of d]
  obtain m2 where "pb_decode E (Suc d) fs dest ?s m1 = Some (Ok (), eat (length bs) ?s, m2)"
    "\<forall>k < n_fields fs. same_field m0 src m2 dest fs k" by blast
  moreover have "unat (bytes_written (advance (length bs) (pb_ostream_from_buffer buf n))) = length bs"
    using len by (intro written_bytes) simp
  moreover have "eat (length bs) ?s = pb_istream_from_buffer (buf + int (length bs)) 0"
    by (simp add: eat_def pb_istream_from_buffer_def)
  ultimately show ?thesis using m1(2) by auto
qed

lemma person_hyps:
  "msub person_src person_mem" "arange 64 (unat (12 :: u64)) \<inter> mdom person_src = {}"
  "mvalid person_mem 64 (unat (12 :: u64))" "unat (12 :: u64) < 2 ^ 61"
  unfolding person_src_def person_mem_def
  by (rule msub_block) (simp_all add: mdom_block mvalid_block person_bytes_def arange_def)

lemma person_wire_fits:
  "length person_wire \<le> unat (12 :: u64)" "length person_wire < 2 ^ 61" "unat (4 :: u64) < length person_wire"
  "length (wire_string person_wire) \<le> unat (12 :: u64)"
  by (simp_all add: person_wire_def wire_string_def leb128.simps)

lemma person_dest:
  "\<forall>k < n_fields person_fields. field_region person_fields 40 k \<subseteq> mdom person_mem - arange 64 (unat (12 :: u64))"
proof (intro allI impI)
  fix k assume "k < n_fields person_fields"
  then have "field_region person_fields 40 k \<subseteq> arange 40 20" by (simp add: person_region_sub)
  then show "field_region person_fields 40 k \<subseteq> mdom person_mem - arange 64 (unat (12 :: u64))"
    by (auto simp: person_mem_def mdom_block person_bytes_def arange_def)
qed

theorem encode_decode_round_trip_witness:
  "\<exists>s1 m1 m2. pb_encode person_env (Suc (Suc 0)) person_fields 16 (pb_ostream_from_buffer 64 12) person_mem = Some (Ok (), s1, m1) \<and>
     pb_decode person_env (Suc (Suc 0)) person_fields 40 (pb_istream_from_buffer 64 (unat (bytes_written s1))) m1 =
       Some (Ok (), pb_istream_from_buffer (64 + int (length person_wire)) 0, m2) \<and>
     (\<forall>k < n_fields person_fields. same_field person_src 16 m2 40 person_fields k)"
  by (rule encode_decode_round_trip [OF person_table person_required _ _ person_content person_encoded
        person_hyps(1-4) person_wire_fits(1) person_dest]) (simp_all add: person_data)

text \<open> C2. The encoder implements the wire format: if the abstract encoding \<open>wire_message\<close> of the
  structure is \<open>bs\<close> and the buffer has room for it, \<open>pb_encode\<close> returns \<open>true\<close>, stores exactly
  \<open>bs\<close> at the beginning of the buffer, changes nothing else, and \<open>bytes_written\<close> is its length. \<close>

theorem encode_writes_wire_format:
  assumes cb: "callbacks_ok m0 E cb xb" and w: "wire_message E cb xb k d m0 fs src = Some bs"
    and sub: "msub m0 m" "arange buf (unat n) \<inter> mdom m0 = {}"
    and buf: "mvalid m buf (unat n)" "unat n < 2 ^ 61" "length bs \<le> unat n"
  shows "\<exists>s' m'. pb_encode E d fs src (pb_ostream_from_buffer buf n) m = Some (Ok (), s', m') \<and>
     mload m' buf (length bs) = Some bs \<and> unat (bytes_written s') = length bs \<and> errmsg s' = None \<and>
     mdom m' = mdom m \<and> magree (- arange buf (length bs)) m m'"
proof -
  have len: "length bs < 2 ^ 61" "unat n < 2 ^ 63" "length bs < 2 ^ 64" using buf(2,3) by auto
  obtain m1 where m1: "mstore m buf bs = Some m1" "pb_encode E d fs src (pb_ostream_from_buffer buf n) m =
      Some (Ok (), advance (length bs) (pb_ostream_from_buffer buf n), m1)"
    using emits_buffer [OF encode_emits [OF cb w len(1)] sub(1) buf(1) sub(2) len(2) buf(3)] by blast
  show ?thesis
    using m1 mload_mstore [OF m1(1)] mstore_dom [OF m1(1)] written_bytes [OF len(3)]
      mstore_magree [OF m1(1), of "- arange buf (length bs)"]
    by (simp add: pb_ostream_from_buffer_def)
qed

theorem encode_writes_wire_format_witness:
  "\<exists>s' m'. pb_encode person_env (Suc (Suc 0)) person_fields 16 (pb_ostream_from_buffer 64 12) person_mem = Some (Ok (), s', m') \<and>
     mload m' 64 (length person_wire) = Some person_wire \<and> unat (bytes_written s') = length person_wire \<and>
     errmsg s' = None \<and> mdom m' = mdom person_mem \<and> magree (- arange 64 (length person_wire)) person_mem m'"
  by (rule encode_writes_wire_format [OF no_callbacks person_encoded person_hyps person_wire_fits(1)])

text \<open> C3. A buffer that is too small: \<open>pb_encode\<close> returns \<open>false\<close> with the error ``stream full'',
  and no byte outside the buffer has changed. \<close>

theorem encode_buffer_too_small:
  assumes cb: "callbacks_ok m0 E cb xb" and w: "wire_message E cb xb k d m0 fs src = Some bs"
    and len: "length bs < 2 ^ 61"
    and sub: "msub m0 m" "arange buf (unat n) \<inter> mdom m0 = {}"
    and buf: "mvalid m buf (unat n)" "unat n < length bs"
  shows "\<exists>s' m'. pb_encode E d fs src (pb_ostream_from_buffer buf n) m = Some (Fail, s', m') \<and>
     PB_GET_ERROR s' = ''stream full'' \<and> mdom m' = mdom m \<and> magree (- arange buf (unat n)) m m'"
proof -
  have "unat n < 2 ^ 63" using len buf(2) by simp
  from emits_buffer_full [OF encode_emits [OF cb w len] sub(1) buf(1) sub(2) this buf(2)]
  show ?thesis by (fastforce simp: PB_GET_ERROR_def)
qed

lemma person_hyps_small:
  "arange 64 (unat (4 :: u64)) \<inter> mdom person_src = {}" "mvalid person_mem 64 (unat (4 :: u64))"
  unfolding person_src_def person_mem_def
  by (simp_all add: mdom_block mvalid_block person_bytes_def arange_def)

theorem encode_buffer_too_small_witness:
  "\<exists>s' m'. pb_encode person_env (Suc (Suc 0)) person_fields 16 (pb_ostream_from_buffer 64 4) person_mem = Some (Fail, s', m') \<and>
     PB_GET_ERROR s' = ''stream full'' \<and> mdom m' = mdom person_mem \<and> magree (- arange 64 (unat (4 :: u64))) person_mem m'"
  by (rule encode_buffer_too_small [OF no_callbacks person_encoded person_wire_fits(2) person_hyps(1)
        person_hyps_small person_wire_fits(3)])

text \<open> \<open>pb_get_encoded_size\<close> returns the length of the abstract encoding without touching
  memory: the size a caller has to provide to \<open>pb_encode\<close>. \<close>

theorem encoded_size_is_length:
  assumes cb: "callbacks_ok m0 E cb xb" and w: "wire_message E cb xb k d m0 fs src = Some bs"
    and len: "length bs < 2 ^ 61" and sub: "msub m0 m"
  shows "pb_get_encoded_size E d fs src m = Some (Ok (word_of_nat (length bs)), m)"
  using emits_Null [OF encode_emits [OF cb w len] sub, of PB_OSTREAM_SIZING]
  by (simp add: pb_get_encoded_size_def PB_OSTREAM_SIZING_def)

theorem encoded_size_is_length_witness:
  "pb_get_encoded_size person_env (Suc (Suc 0)) person_fields 16 person_mem = Some (Ok (word_of_nat (length person_wire)), person_mem)"
  by (rule encoded_size_is_length [OF no_callbacks person_encoded person_wire_fits(2) person_hyps(1)])

text \<open> \<open>pb_encode_delimited\<close> writes the length of the message as a varint and then the
  message: the abstract encoding of a length-delimited string. \<close>

theorem delimited_prefixes_length:
  assumes cb: "callbacks_ok m0 E cb xb" and w: "wire_message E cb xb k d m0 fs src = Some bs"
    and sub: "msub m0 m" "arange buf (unat n) \<inter> mdom m0 = {}"
    and buf: "mvalid m buf (unat n)" "unat n < 2 ^ 61" "length (wire_string bs) \<le> unat n"
  shows "\<exists>s' m'. pb_encode_delimited E d fs src (pb_ostream_from_buffer buf n) m = Some (Ok (), s', m') \<and>
     mload m' buf (length (wire_string bs)) = Some (leb128 (length bs) @ bs) \<and>
     unat (bytes_written s') = length (wire_string bs)"
proof -
  have "length (wire_string bs) < 2 ^ 61" using buf by linarith
  then have len: "length bs < 2 ^ 61" "length (wire_string bs) < 2 ^ 64" "unat n < 2 ^ 63"
    using buf(2) wire_string_shorter by auto
  have em: "emits m0 (pb_encode_delimited E d fs src) (wire_string bs)"
    unfolding pb_encode_delimited_def 
    by (rule emits_submessage [where enc = "pb_encode E d", OF encode_emits [OF cb w len(1)] len(1)])
  obtain m1 where m1: "mstore m buf (wire_string bs) = Some m1"
    "pb_encode_delimited E d fs src (pb_ostream_from_buffer buf n) m =
      Some (Ok (), advance (length (wire_string bs)) (pb_ostream_from_buffer buf n), m1)"
    using emits_buffer [OF em sub(1) buf(1) sub(2) len(3) buf(3)] by blast
  then show ?thesis
    using mload_mstore [OF m1(1)] written_bytes [OF len(2)] by (simp add: wire_string_def)
qed

theorem delimited_prefixes_length_witness:
  "\<exists>s' m'. pb_encode_delimited person_env (Suc (Suc 0)) person_fields 16 (pb_ostream_from_buffer 64 12) person_mem = Some (Ok (), s', m') \<and>
     mload m' 64 (length (wire_string person_wire)) = Some (leb128 (length person_wire) @ person_wire) \<and>
     unat (bytes_written s') = length (wire_string person_wire)"
  by (rule delimited_prefixes_length [OF no_callbacks person_encoded person_hyps person_wire_fits(4)])

section \<open>The decoder\<close>

text \<open> C4. Memory safety and termination of \<open>pb_decode\<close> on arbitrary input: for a well-formed
  descriptor table and callbacks that keep their contract, whatever the bytes of the input are, the
  decoder returns, has no undefined behaviour, writes only into the destination structure (and the
  memory \<open>C\<close> of the callbacks), and never reads beyond the end of its stream. \<close>

theorem decode_safe:
  assumes wf: "wf_message E (mdom m) (Suc d) S fs" and cb: "callbacks_safe E C" and st: "stack_ok E (mdom m)"
    and C: "C \<subseteq> mdom m" and dest: "arange dest S \<subseteq> mdom m"
    and inp: "in_callback s = Buf_read" "arange (in_state s) (bytes_left s) \<subseteq> mdom m"
  shows "\<exists>r s' m'. pb_decode E (Suc d) fs dest s m = Some (r, s', m') \<and> mdom m' = mdom m \<and>
     magree (- (arange dest S \<union> C)) m m' \<and> in_state s \<le> in_state s' \<and>
     in_state s' + int (bytes_left s') \<le> in_state s + int (bytes_left s) \<and>
     (r = Ok () \<longrightarrow> in_state s' + int (bytes_left s') = in_state s + int (bytes_left s))"
proof -
  have "safe (mdom m) (arange dest S \<union> C) 0 (pb_decode E (Suc d) fs dest)"
    by (rule safe_decode [OF wf cb st C dest])
  then have "wp (pb_decode E (Suc d) fs dest) (\<lambda>r s' m'. mdom m' = mdom m \<and>
      magree (- (arange dest S \<union> C)) m m' \<and> moved (r \<noteq> Fail) 0 s s') s m"
    using inp unfolding safe_def readable_def by blast
  then show ?thesis unfolding wp_iff moved_def by blast
qed

lemma person_safe_env: "callbacks_safe person_env {}"
  by (simp add: callbacks_safe_def person_env_def wp_simps moved_refl readable_def)

lemma person_stack: "stack_ok person_env (mdom person_mem)"
  by (simp add: stack_ok_def person_env_def person_mem_def mdom_block person_bytes_def arange_def)

lemma person_wf: "wf_message person_env (mdom person_mem) (Suc 0) 20 person_fields"
proof -
  have "field_ok person_env (mdom person_mem) P 20 person_fields k" if "k < 3" for k P
    using that unfolding less3
    by (elim disjE; simp add: field_ok_def data_ok_def field_fits_def inside_def person_offsets person_nth
        person_offsets [unfolded One_nat_def] person_nth [unfolded One_nat_def] prev_size_def)
  then show ?thesis using person_fields_ok person_required by simp
qed

theorem decode_safe_witness:
  "\<exists>r s' m'. pb_decode person_env (Suc 0) person_fields 40 (pb_istream_from_buffer 64 12) person_mem = Some (r, s', m') \<and>
     mdom m' = mdom person_mem \<and> magree (- (arange 40 20 \<union> {})) person_mem m' \<and> 64 \<le> in_state s' \<and>
     in_state s' + int (bytes_left s') \<le> 64 + int 12 \<and>
     (r = Ok () \<longrightarrow> in_state s' + int (bytes_left s') = 64 + int 12)"
  using decode_safe [OF person_wf person_safe_env person_stack, of 40 "pb_istream_from_buffer 64 12"]
  by (simp add: pb_istream_from_buffer_def person_mem_def mdom_block person_bytes_def arange_def)

text \<open> One field: the decoder of a data type stores, from the bytes that the encoder of that type
  emits for a field, the same content into another structure: integers of every width and sign,
  fixed-width values, byte arrays and strings. \<close>

theorem field_round_trip:
  assumes st: "PB_ATYPE (ftype field) = PB_ATYPE_STATIC"
    and ns: "PB_LTYPE (ftype field) \<noteq> PB_LTYPE_SUBMESSAGE" and a0: "a0 \<noteq> 0"
    and w: "wire_value E sub m0 field a0 = Some bs" and c: "field_content m0 field a0 = Some out"
    and nb: "next_bytes s m bs" and v: "mvalid m a (length out)"
    and dj: "arange (in_state s) (length bs) \<inter> arange a (length out) = {}"
  shows "\<exists>m'. PB_DECODERS E dsub (PB_LTYPE (ftype field)) field a s m = Some (Ok (), eat (length bs) s, m') \<and>
     field_content m' field a = Some out \<and> mdom m' = mdom m \<and> magree (- arange a (length out)) m m'"
proof -
  from mstore_valid [OF v] obtain m' where m': "mstore m a out = Some m'" ..
  from storesD [OF stores_value [OF st ns a0 w c] nb dj m'] show ?thesis
    using content_reloc [OF c mload_mstore [OF m']] mstore_dom [OF m'] mstore_magree [OF m', of "- arange a (length out)"]
    by auto
qed

theorem field_round_trip_witness:
  "\<exists>m'. PB_DECODERS person_env (\<lambda>_ _. cub) (PB_LTYPE (ftype (person_fields ! 0))) (person_fields ! 0) 40
       (pb_istream_from_buffer 1 2) (Mem (\<lambda>x. if x = 1 then Some 0xAC else if x = 2 then Some 2 else
          if 40 \<le> x \<and> x < 44 then Some 0 else None)) = Some (Ok (), eat 2 (pb_istream_from_buffer 1 2), m') \<and>
     field_content m' (person_fields ! 0) 40 = Some [0x2C, 1, 0, 0]"
proof -
  let ?m = "Mem (\<lambda>x. if x = 1 then Some 0xAC else if x = 2 then Some 2 else
          if 40 \<le> x \<and> x < 44 then Some (0 :: byte) else None)" and ?f = "person_fields ! 0"
  have st: "PB_ATYPE (ftype ?f) = PB_ATYPE_STATIC" "PB_LTYPE (ftype ?f) \<noteq> PB_LTYPE_SUBMESSAGE" "(16 :: int) \<noteq> 0"
    by (simp_all add: person_nth)
  have w: "wire_value person_env (\<lambda>_ _. None) person_src ?f 16 = Some [0xAC, 2]"
    "field_content person_src ?f 16 = Some [0x2C, 1, 0, 0]"
    by code_simp+
  have nb: "next_bytes (pb_istream_from_buffer 1 2) ?m [0xAC, 2]"
    by (simp add: next_bytes_def pb_istream_from_buffer_def)
  have v: "mvalid ?m 40 (length [0x2C, 1, 0, 0 :: byte])"
    by (auto simp: mvalid_def arange_def mdom_def dom_def)
  have dj: "arange (in_state (pb_istream_from_buffer 1 2)) (length [0xAC, 2 :: byte]) \<inter> arange 40 (length [0x2C, 1, 0, 0 :: byte]) = {}"
    by (simp add: pb_istream_from_buffer_def arange_def)
  from field_round_trip [OF st w nb v dj, of "\<lambda>_ _. cub"] show ?thesis by auto
qed

section \<open>Varints, tags and skipping\<close>

text \<open> C5. Varint round trip: every 64-bit value that \<open>pb_encode_varint\<close> writes into a large enough
  buffer is read back by \<open>pb_decode_varint\<close>, which stops exactly at its end. \<close>

theorem varint_round_trip:
  assumes "mvalid m buf (unat n)" "unat n < 2 ^ 63" "length (leb128 (unat v)) \<le> unat n"
  shows "\<exists>s' m'. pb_encode_varint E v (pb_ostream_from_buffer buf n) m = Some (Ok (), s', m') \<and>
     mstore m buf (leb128 (unat v)) = Some m' \<and> unat (bytes_written s') = length (leb128 (unat v)) \<and>
     pb_decode_varint E (pb_istream_from_buffer buf (unat (bytes_written s'))) m' =
       Some (Ok v, pb_istream_from_buffer (buf + int (length (leb128 (unat v)))) 0, m')"
  by (rule varint.round_trip [OF TrueI assms])

theorem varint_round_trip_witness:
  "\<exists>s' m'. pb_encode_varint person_env 300 (pb_ostream_from_buffer 64 12) person_mem = Some (Ok (), s', m') \<and>
     mstore person_mem 64 (leb128 (unat (300 :: u64))) = Some m' \<and> unat (bytes_written s') = length (leb128 (unat (300 :: u64))) \<and>
     pb_decode_varint person_env (pb_istream_from_buffer 64 (unat (bytes_written s'))) m' =
       Some (Ok 300, pb_istream_from_buffer (64 + int (length (leb128 (unat (300 :: u64))))) 0, m')"
  by (rule varint_round_trip) (simp_all add: person_mem_def mvalid_block person_bytes_def leb128.simps)

text \<open> Zigzag round trip for signed values. \<close>

theorem svarint_round_trip:
  assumes "mvalid m buf (unat n)" "unat n < 2 ^ 63" "length (leb128 (zigzag (sint v))) \<le> unat n"
  shows "\<exists>s' m'. pb_encode_svarint E v (pb_ostream_from_buffer buf n) m = Some (Ok (), s', m') \<and>
     mstore m buf (leb128 (zigzag (sint v))) = Some m' \<and> unat (bytes_written s') = length (leb128 (zigzag (sint v))) \<and>
     pb_decode_svarint E (pb_istream_from_buffer buf (unat (bytes_written s'))) m' =
       Some (Ok v, pb_istream_from_buffer (buf + int (length (leb128 (zigzag (sint v))))) 0, m')"
  by (rule svarint.round_trip [OF TrueI assms])

theorem svarint_round_trip_witness:
  "\<exists>s' m'. pb_encode_svarint person_env (-2) (pb_ostream_from_buffer 64 12) person_mem = Some (Ok (), s', m') \<and>
     mstore person_mem 64 (leb128 (zigzag (sint (-2 :: u64)))) = Some m' \<and>
     unat (bytes_written s') = length (leb128 (zigzag (sint (-2 :: u64)))) \<and>
     pb_decode_svarint person_env (pb_istream_from_buffer 64 (unat (bytes_written s'))) m' =
       Some (Ok (-2), pb_istream_from_buffer (64 + int (length (leb128 (zigzag (sint (-2 :: u64)))))) 0, m')"
  by (rule svarint_round_trip) (simp_all add: person_mem_def mvalid_block person_bytes_def leb128.simps zigzag_def)

text \<open> C6. What \<open>pb_decode_varint\<close> computes on every varint of at most ten bytes, canonical or not:
  the little-endian base-128 value, modulo \<open>2 ^ 64\<close>, with exactly its bytes consumed. \<close>

theorem varint_value:
  assumes "is_varint bs" "length bs \<le> 10" "next_bytes s m bs"
  shows "pb_decode_varint E s m = Some (Ok (word_of_nat (leb_val bs)), eat (length bs) s, m)"
  by (rule parsesD [OF parses_varint [OF assms(1,2)] assms(3)])

lemma next_bytes_example: "next_bytes (pb_istream_from_buffer 1 (length bs)) (byte_mem bs) bs"
  using next_bytes_byte_mem [of bs "[]"] by simp

theorem varint_value_witness:
  "pb_decode_varint person_env (pb_istream_from_buffer 1 (length [0x80, 0x80, 0 :: byte])) (byte_mem [0x80, 0x80, 0]) =
     Some (Ok (word_of_nat (leb_val [0x80, 0x80, 0])),
       eat (length [0x80, 0x80, 0 :: byte]) (pb_istream_from_buffer 1 (length [0x80, 0x80, 0 :: byte])), byte_mem [0x80, 0x80, 0])"
  by (rule varint_value [OF _ _ next_bytes_example]) (simp_all add: continues_iff)

text \<open> Errors of \<open>pb_decode_varint\<close>: ten continued bytes are an overflow, and fewer continued
  bytes at the end of the stream are an end of stream; in both cases exactly these bytes are read. \<close>

theorem varint_errors:
  assumes "list_all continues bs" "length bs \<le> 10" "next_bytes s m bs" "length bs < 10 \<longrightarrow> bytes_left s = length bs"
  shows "pb_decode_varint E s m = Some (Fail,
     PB_SET_ERROR (if length bs = 10 then ''varint overflow'' else ''end-of-stream'') (eat (length bs) s), m)"
proof (cases "length bs = 10")
  case True
  with varint_overflow [OF assms(1) True] assms(3) show ?thesis by (simp add: rejects_def)
next
  case False
  with assms have "length bs < 10" "only_bytes s m bs" by (simp_all add: only_bytes_def)
  with varint_eof [OF assms(1)] False show ?thesis by simp
qed

theorem varint_errors_witness:
  "pb_decode_varint person_env (pb_istream_from_buffer 1 (length (replicate 10 (0x80 :: byte)))) (byte_mem (replicate 10 0x80)) =
     Some (Fail, PB_SET_ERROR ''varint overflow'' (eat 10 (pb_istream_from_buffer 1 (length (replicate 10 (0x80 :: byte))))),
       byte_mem (replicate 10 0x80))"
  using varint_errors [OF _ _ next_bytes_example, of "replicate 10 0x80"]
  by (simp add: continues_iff list_all_iff)

text \<open> C7. \<open>pb_decode_varint32\<close>, which reads lengths and tags, keeps the low 32 bits of a varint of
  at most five bytes and rejects every longer one: no canonical encoding of a value of 35 bits
  or more, hence of no negative integer, is accepted. \<close>

theorem varint32_value:
  assumes "is_varint bs" "next_bytes s m bs"
  shows "pb_decode_varint32 E s m =
    (if length bs \<le> 5 then Some (Ok (word_of_nat (leb_val bs)), eat (length bs) s, m)
     else Some (Fail, PB_SET_ERROR ''varint overflow'' (eat 5 s), m))"
proof (cases "length bs \<le> 5")
  case True
  with parsesD [OF parses_varint32 [OF assms(1) True] assms(2)] show ?thesis by simp
next
  case False
  have all: "list_all continues (take k bs)" if "is_varint bs" "k < length bs" for k and bs :: "byte list"
    using that by (induction bs arbitrary: k) (auto simp: take_Cons' split: if_splits)
  have "rejects (pb_decode_varint32 E) (take 5 bs) ''varint overflow''"
    using False by (intro varint32_overflow all assms(1)) auto
  moreover have "next_bytes s m (take 5 bs)"
    using assms(2) next_bytes_append [of s m "take 5 bs" "drop 5 bs"] by simp
  ultimately show ?thesis using False by (simp add: rejects_def)
qed

theorem varint32_value_witness:
  "pb_decode_varint32 person_env (pb_istream_from_buffer 1 (length [0xFF, 0xFF, 0xFF, 0xFF, 0x7F :: byte]))
      (byte_mem [0xFF, 0xFF, 0xFF, 0xFF, 0x7F]) =
     Some (Ok 0xFFFFFFFF, eat 5 (pb_istream_from_buffer 1 (length [0xFF, 0xFF, 0xFF, 0xFF, 0x7F :: byte])),
       byte_mem [0xFF, 0xFF, 0xFF, 0xFF, 0x7F])"
  using varint32_value [OF _ next_bytes_example, of "[0xFF, 0xFF, 0xFF, 0xFF, 0x7F]"]
  by (simp add: continues_iff)

text \<open> C8. A negative integer, which the encoder writes as a ten-byte varint, is rejected by
  \<open>pb_decode_varint32\<close>. \<close>

theorem varint32_rejects_negative:
  assumes "v <s 0" "next_bytes s m (leb128 (unat (v :: u64)))"
  shows "pb_decode_varint32 E s m = Some (Fail, PB_SET_ERROR ''varint overflow'' (eat 5 s), m)"
proof -
  have "\<not> length (leb128 n) \<le> 5" if "2 ^ 63 \<le> n" for n
  proof
    assume "length (leb128 n) \<le> 5"
    have "leb_val bs < 128 ^ length bs" for bs
    proof (induction bs)
      case (Cons b bs)
      have "unat b mod 128 + 128 * leb_val bs < 128 * Suc (leb_val bs)" by simp
      also have "\<dots> \<le> 128 * 128 ^ length bs" using Cons by (intro mult_left_mono) auto
      finally show ?case by simp
    qed simp
    then have "n < 128 ^ length (leb128 n)" by (metis leb_val_leb128)
    also have "\<dots> \<le> 128 ^ 5" using \<open>length (leb128 n) \<le> 5\<close> by (intro power_increasing) auto
    finally show False using that by simp
  qed
  moreover have "2 ^ 63 \<le> unat v"
  proof (rule ccontr)
    assume "\<not> 2 ^ 63 \<le> unat v"
    then have "int (unat v) < int (2 ^ 63)" by linarith
    then have "uint v < 2 ^ 63" by simp
    then have "sint v = uint v"
      using signed_take_bit_int_eq_self [of 63 "uint v"] uint_ge_0 [of v] by (simp add: sint_uint)
    with assms(1) show False by (simp add: word_sless_alt)
  qed
  ultimately show ?thesis using varint32_value [OF is_varint_leb128 assms(2), of E] by simp
qed

theorem varint32_rejects_negative_witness:
  "pb_decode_varint32 person_env (pb_istream_from_buffer 1 (length (leb128 (unat (-1 :: u64))))) (byte_mem (leb128 (unat (-1 :: u64)))) =
     Some (Fail, PB_SET_ERROR ''varint overflow'' (eat 5 (pb_istream_from_buffer 1 (length (leb128 (unat (-1 :: u64)))))),
       byte_mem (leb128 (unat (-1 :: u64))))"
  by (rule varint32_rejects_negative [OF _ next_bytes_example]) (simp add: word_sless_alt)

text \<open> Round trip of a field tag. \<close>

theorem tag_round_trip:
  assumes "unat wt < 8" "unat t < 2 ^ 29" "t \<noteq> 0" "next_bytes s m (wire_tag wt t)"
  shows "emits no_mem (pb_encode_tag E wt t) (wire_tag wt t) \<and>
    pb_decode_tag E s m = Some (Ok (True, wt, t, False), eat (length (wire_tag wt t)) s, m)"
  using emits_tag [OF assms(1)] parsesD [OF parses_wire_tag [OF assms(1-3)] assms(4)] by blast

theorem tag_round_trip_witness:
  "emits no_mem (pb_encode_tag person_env 2 3) (wire_tag 2 3) \<and>
    pb_decode_tag person_env (pb_istream_from_buffer 1 (length (wire_tag 2 3))) (byte_mem (wire_tag 2 3)) =
      Some (Ok (True, 2, 3, False), eat (length (wire_tag 2 3)) (pb_istream_from_buffer 1 (length (wire_tag 2 3))),
        byte_mem (wire_tag 2 3))"
  by (rule tag_round_trip [OF _ _ _ next_bytes_example]) simp_all

text \<open> \<open>pb_skip_field\<close> consumes exactly the payload of a field of the given wire type. \<close>

theorem skip_field_exact:
  assumes "wire_payload wt bs" "next_bytes s m bs"
  shows "pb_skip_field E wt s m = Some (Ok (), eat (length bs) s, m)"
  by (rule parsesD [OF parses_skip_field [OF assms(1)] assms(2)])

theorem skip_field_exact_witness:
  "pb_skip_field person_env 2 (pb_istream_from_buffer 1 (length (wire_string [1, 2, 3]))) (byte_mem (wire_string [1, 2, 3])) =
     Some (Ok (), eat (length (wire_string [1, 2, 3])) (pb_istream_from_buffer 1 (length (wire_string [1, 2, 3]))),
       byte_mem (wire_string [1, 2, 3]))"
  by (rule skip_field_exact [OF _ next_bytes_example]) (auto simp: wire_payload_def intro!: exI [of _ "[1, 2, 3]"])

section \<open>The field iterator\<close>

text \<open> C9. \<open>pb_field_iter_find\<close>, from any position, ends and decides whether the table has a field with
  the tag: on success the iterator stands at such a field, with the data pointer, presence pointer
  and required index of that field (\<open>iter_at\<close>); on failure no field has it. \<close>

theorem iter_find_correct:
  assumes ok: "fields_ok fs" and j: "j < n_fields fs"
  shows "\<exists>b k. pb_field_iter_find (iter_at fs dest j) t = Some (b, iter_at fs dest k) \<and> k < n_fields fs \<and>
     (b \<longleftrightarrow> (\<exists>i < n_fields fs. tag_matches t (fs ! i))) \<and> (b \<longrightarrow> tag_matches t (fs ! k))"
  using search_all [OF ok j, of "tag_matches t" dest] unfolding pb_field_iter_find_def iter_at_simps by blast

theorem iter_find_correct_witness:
  "\<exists>b k. pb_field_iter_find (iter_at person_fields 40 1) 3 = Some (b, iter_at person_fields 40 k) \<and>
     k < n_fields person_fields \<and> (b \<longleftrightarrow> (\<exists>i < n_fields person_fields. tag_matches 3 (person_fields ! i))) \<and>
     (b \<longrightarrow> tag_matches 3 (person_fields ! k))"
  by (rule iter_find_correct [OF person_fields_ok]) simp

text \<open> The iterator visits the fields in order: from field \<open>k\<close> it moves to field \<open>k + 1\<close> with the
  offsets of that field, and after the last field it returns \<open>false\<close> and starts over. \<close>

theorem iter_next_correct:
  assumes "fields_ok fs" "k < n_fields fs"
  shows "pb_field_iter_begin fs dest = Some (True, iter_at fs dest 0) \<and>
     pb_field_iter_next (iter_at fs dest k) = Some (Suc k < n_fields fs, iter_at fs dest (Suc k mod n_fields fs))"
  using iter_next_at [OF assms, of dest] iter_begin_ok [OF assms(1), of dest] assms(2)
  by (cases "Suc k < n_fields fs") (auto simp: not_less less_Suc_eq_le dest: le_antisym)

theorem iter_next_correct_witness:
  "pb_field_iter_begin person_fields 40 = Some (True, iter_at person_fields 40 0) \<and>
     pb_field_iter_next (iter_at person_fields 40 2) =
       Some (Suc 2 < n_fields person_fields, iter_at person_fields 40 (Suc 2 mod n_fields person_fields))"
  by (rule iter_next_correct [OF person_fields_ok]) simp

section \<open>Defaults and required fields\<close>



text \<open> C11. The check of the required fields: for a number \<open>r\<close> of them that is not a multiple of 32,
  it accepts the set of the first \<open>r\<close> bits and reports ``missing required field'' for any other
  pair of words. \<close>

theorem required_check_correct:
  assumes r: "r < 64" "r mod 32 \<noteq> 0" and len: "length seen = 2" and rest: "r < 32 \<longrightarrow> seen ! 1 = 0"
  shows "check_required seen r s m =
    (if seen = seen_words r then Some (Ok (), s, m)
     else Some (Fail, PB_SET_ERROR ''missing required field'' s, m))"
proof (cases "seen = seen_words r")
  case True
  with check_seen_words [of r s m] r show ?thesis by simp
next
  case False
  obtain a b where seen: "seen = [a, b]"
    using len by (cases seen; cases "tl seen") auto
  have msk: "mask n = (drop_bit (32 - n) allbits :: u32)" if "n \<le> 32" for n
    using that by (intro bit_word_eqI) (auto simp: bit_simps allbits_def)
  have all: "mask 32 = allbits" by (simp add: allbits_def mask_eq_exp_minus_1)
  show ?thesis
  proof (cases "r < 32")
    case True
    with r False seen rest msk [of r] show ?thesis
      by (auto simp: check_required_def seen_words_def cbind_def cdef_def cret_def PB_RETURN_ERROR_def)
  next
    case 1: False
    then obtain q where q: "r = 32 + q" by (metis le_add_diff_inverse not_less)
    with r have q2: "0 < q" "q < 32" "r div 32 = Suc 0" "r mod 32 = q" by auto
    show ?thesis
    proof (cases "a = allbits")
      case True
      with False seen q q2 all msk [of q] have "b \<noteq> drop_bit (32 - q) allbits" by (simp add: seen_words_def)
      with True False seen q q2 show ?thesis
        by (simp add: check_required_def cbind_def cdef_def cret_def PB_RETURN_ERROR_def)
    next
      case a: False
      with False seen q q2 show ?thesis
        by (simp add: check_required_def cbind_def cdef_def cret_def PB_RETURN_ERROR_def)
    qed
  qed
qed

theorem required_check_correct_witness:
  "check_required [1, 0] 2 (pb_istream_from_buffer 1 0) person_mem =
     (if [1, 0] = seen_words 2 then Some (Ok (), pb_istream_from_buffer 1 0, person_mem)
      else Some (Fail, PB_SET_ERROR ''missing required field'' (pb_istream_from_buffer 1 0), person_mem))"
  by (rule required_check_correct) simp_all

text \<open> C12. A message with exactly 32 required fields that are all present: the check shifts a 32-bit
  value by 32, which C leaves undefined; with 64 it reads past the array. \<close>

theorem required_check_undefined:
  "check_required (seen_words 32) 32 s m = None \<and> check_required (seen_words 64) 64 s m = None"
proof -
  have all: "mask 32 = allbits" by (simp add: allbits_def mask_eq_exp_minus_1)
  have "check_words (seen_words 32) (32 div 32) = Some True" "check_words (seen_words 64) (64 div 32) = Some True"
    by (simp_all add: seen_words_def numeral_2_eq_2 all del: mask_numeral)
  then show ?thesis
    by (simp add: check_required_def cbind_def cdef_def cret_def cub_def seen_words_def)
qed

section \<open>Bounds and errors of the field decoders\<close>

lemma le_bytes_mod: "le_bytes k (x mod 256 ^ k) = le_bytes k x"
  by (metis le_val_le_bytes le_bytes_le_val length_le_bytes)

lemma trunc_u64:
  assumes "x < 2 ^ 64" "LENGTH('a::len) = 8 * k"
  shows "unat (ucast (word_of_nat x :: u64) :: 'a word) = x mod 256 ^ k"
proof -
  have "unat (word_of_nat x :: u64) = x" using assms(1) by (simp add: unat_of_nat)
  then show ?thesis using assms(2) by (simp add: unsigned_ucast_eq take_bit_eq_mod power_mult)
qed

lemma store_unsigned_eq:
  assumes n: "data_size field \<in> {1, 2, 4, 8}" and x: "x < 2 ^ 64"
  defines "k \<equiv> unat (data_size field)"
  shows "store_unsigned field dest (word_of_nat x) =
     cbind (store_nat dest k (x mod 256 ^ k)) (\<lambda>_. cret (word_of_nat (x mod 256 ^ k)))"
  using n unfolding insert_iff empty_iff
proof (elim disjE FalseE)
  assume d: "data_size field = 8"
  have "unat (word_of_nat x :: u64) = x" "x mod 256 ^ 8 = x" using x by (simp_all add: unat_of_nat)
  with d show ?thesis by (simp add: store_unsigned_def k_def)
next
  assume d: "data_size field = 4"
  note u = trunc_u64 [OF x, where 'a = 32 and k = 4, simplified]
  from d u show ?thesis by (simp add: store_unsigned_def k_def ucast_word_of_nat [OF u])
next
  assume d: "data_size field = 2"
  note u = trunc_u64 [OF x, where 'a = 16 and k = 2, simplified]
  from d u show ?thesis by (simp add: store_unsigned_def k_def ucast_word_of_nat [OF u])
next
  assume d: "data_size field = 1"
  note u = trunc_u64 [OF x, where 'a = 8 and k = 1, simplified]
  from d u show ?thesis by (simp add: store_unsigned_def k_def ucast_word_of_nat [OF u])
qed

text \<open> Bounds of unsigned fields: a varint is stored in a field of \<open>n\<close> bytes if it fits; otherwise
  the decoder returns \<open>false\<close> with ``integer too large''. \<close>

theorem uvarint_bounds:
  assumes bs: "is_varint bs" "length bs \<le> 10" "leb_val bs < 2 ^ 64" and nb: "next_bytes s m bs"
    and n: "data_size field \<in> {1, 2, 4, 8}" and v: "mvalid m dest (unat (data_size field))"
  shows "\<exists>m'. pb_dec_uvarint E field dest s m =
      (if leb_val bs < 256 ^ unat (data_size field) then Some (Ok (), eat (length bs) s, m')
       else Some (Fail, PB_SET_ERROR ''integer too large'' (eat (length bs) s), m')) \<and>
    mstore m dest (le_bytes (unat (data_size field)) (leb_val bs)) = Some m'"
proof -
  let ?v = "leb_val bs" and ?n = "unat (data_size field)"
  have parse: "pb_decode_varint E s m = Some (Ok (word_of_nat ?v), eat (length bs) s, m)"
    by (rule parsesD [OF parses_varint [OF bs(1,2)] nb])
  obtain m' where m': "mstore m dest (le_bytes ?n ?v) = Some m'"
    using mstore_valid [of m dest "le_bytes ?n ?v"] v by auto
  then have st: "store_unsigned field dest (word_of_nat ?v) (eat (length bs) s) m =
      Some (Ok (word_of_nat (?v mod 256 ^ ?n)), eat (length bs) s, m')"
    unfolding store_unsigned_eq [OF n bs(3)] store_nat_def le_bytes_mod
    by (simp add: cstore_def cbind_def cret_def)
  have inj: "x = y" if "(word_of_nat x :: u64) = word_of_nat y" "x < 2 ^ 64" "y < 2 ^ 64" for x y
  proof -
    have "unat (word_of_nat x :: u64) = x" "unat (word_of_nat y :: u64) = y"
      using that(2,3) by (simp_all add: unat_of_nat)
    with that(1) show ?thesis by metis
  qed
  have "(word_of_nat (?v mod 256 ^ ?n) :: u64) = word_of_nat ?v \<longleftrightarrow> ?v < 256 ^ ?n"
  proof
    assume eq: "(word_of_nat (?v mod 256 ^ ?n) :: u64) = word_of_nat ?v"
    have "?v mod 256 ^ ?n < 2 ^ 64" using bs(3) by (meson le_less_trans mod_less_eq_dividend)
    with inj [OF eq _ bs(3)] have "?v mod 256 ^ ?n = ?v" .
    then show "?v < 256 ^ ?n" by (metis mod_less_divisor zero_less_power zero_less_numeral)
  qed simp
  with parse st m' show ?thesis
    by (auto simp: pb_dec_uvarint_def cbind_def cret_def PB_RETURN_ERROR_def)
qed

text \<open> C13. Capacity of byte arrays and strings: a length that does not fit the array of the field is
  reported, with only the length consumed and nothing stored. \<close>

theorem capacity_errors:
  assumes st: "PB_ATYPE (ftype field) = PB_ATYPE_STATIC" and n: "n < 2 ^ 32 - 1" and nb: "next_bytes s m (leb128 n)"
  shows "(unat (data_size field) < n + 4 \<longrightarrow> pb_dec_bytes E field dest s m =
       Some (Fail, PB_SET_ERROR ''bytes overflow'' (eat (length (leb128 n)) s), m)) \<and>
     (unat (data_size field) < n + 1 \<longrightarrow> pb_dec_string E field dest s m =
       Some (Fail, PB_SET_ERROR ''string overflow'' (eat (length (leb128 n)) s), m)) \<and>
     (0 < n \<and> n \<noteq> unat (data_size field) \<longrightarrow> pb_dec_fixed_length_bytes E field dest s m =
       Some (Fail, PB_SET_ERROR ''incorrect fixed length bytes size'' (eat (length (leb128 n)) s), m))"
proof -
  have n32: "n < 2 ^ 32" using n by simp
  have parse: "pb_decode_varint32 E s m = Some (Ok (word_of_nat n), eat (length (leb128 n)) s, m)"
    by (rule parsesD [OF parses_leb128_u32 [OF n32] nb])
  have u: "unat (word_of_nat n :: u32) = n" by (rule parses_len32 [OF n32])
  have u1: "unat (word_of_nat n + 1 :: u32) = n + 1"
    using n u by (simp add: unat_word_ariths)
  have max: "\<not> word_of_nat n > PB_SIZE_MAX" by (simp add: PB_SIZE_MAX_def)
  show ?thesis
    using st parse u u1 max n32
    by (auto simp: pb_dec_bytes_def pb_dec_string_def pb_dec_fixed_length_bytes_def cbind_def Let_def
        PB_RETURN_ERROR_def PB_BYTES_ARRAY_T_ALLOCSIZE_def word_less_nat_alt)
qed

theorem uvarint_bounds_witness:
  "\<exists>m'. pb_dec_uvarint person_env ((person_fields ! 2)\<lparr>data_size := 1\<rparr>) 1
      (pb_istream_from_buffer 1 (length [0xAC, 2 :: byte])) (byte_mem [0xAC, 2]) =
      Some (Fail, PB_SET_ERROR ''integer too large'' (eat (length [0xAC, 2 :: byte]) (pb_istream_from_buffer 1 (length [0xAC, 2 :: byte]))), m')"
proof -
  have "mvalid (byte_mem [0xAC, 2]) 1 (unat (data_size ((person_fields ! 2)\<lparr>data_size := 1\<rparr>)))"
    by (simp add: mvalid_def arange_def mdom_def byte_mem_def subset_iff domIff)
  from uvarint_bounds [OF _ _ _ next_bytes_example _ this, of person_env]
  show ?thesis by (auto simp: continues_iff)
qed

theorem capacity_errors_witness:
  "pb_dec_string person_env (person_fields ! 1) 40 (pb_istream_from_buffer 1 (length (leb128 9))) (byte_mem (leb128 9)) =
     Some (Fail, PB_SET_ERROR ''string overflow'' (eat (length (leb128 9)) (pb_istream_from_buffer 1 (length (leb128 9)))),
       byte_mem (leb128 9))"
  using capacity_errors [OF _ _ next_bytes_example, of "person_fields ! 1" 9 person_env]
  by (simp add: person_nth [unfolded One_nat_def])

section \<open>The main loop of the decoder\<close>

text \<open> C14. How the loop of \<open>pb_decode_noinit\<close> ends without an error: at the end of the stream, at a zero
  tag (whatever follows), and at the end of a stream that stops in the middle of a tag: the decoder
  accepts a message that is cut there. \<close>

theorem decode_loop_ends:
  "(bytes_left s = 0 \<longrightarrow> decode_loop E d dsub it seen rs s m = Some (Ok (it, seen), s, m)) \<and>
   (next_bytes s m [0] \<longrightarrow> decode_loop E d dsub it seen rs s m = Some (Ok (it, seen), eat 1 s, m)) \<and>
   (list_all continues bs \<and> 0 < length bs \<and> length bs < 5 \<and> only_bytes s m bs \<longrightarrow>
      decode_loop E d dsub it seen rs s m =
        Some (Ok (it, seen), PB_SET_ERROR ''end-of-stream'' (eat (length bs) s), m))"
proof (intro conjI impI)
  assume "bytes_left s = 0"
  then show "decode_loop E d dsub it seen rs s m = Some (Ok (it, seen), s, m)" by (rule decode_loop_end)
next
  assume nb: "next_bytes s m [0]"
  have "pb_decode_tag E s m = Some (Ok (False, 0, 0, True), eat 1 s, m)"
    using parsesD [OF parses_tag_varint [of "[0]" E] nb] by (simp add: continues_iff)
  moreover have "bytes_left s \<noteq> 0" using nb by (simp add: next_bytes_def)
  ultimately show "decode_loop E d dsub it seen rs s m = Some (Ok (it, seen), eat 1 s, m)"
    by (subst decode_loop_unfold) (simp add: cbind_def cget_def cret_def)
next
  assume a: "list_all continues bs \<and> 0 < length bs \<and> length bs < 5 \<and> only_bytes s m bs"
  then have "pb_decode_varint32 E s m = Some (Fail, PB_SET_ERROR ''end-of-stream'' (eat (length bs) s), m)"
    by (intro varint32_eof) auto
  moreover have "bytes_left s = length bs" "bytes_left s \<noteq> 0" using a by (auto simp: only_bytes_def)
  ultimately show "decode_loop E d dsub it seen rs s m =
      Some (Ok (it, seen), PB_SET_ERROR ''end-of-stream'' (eat (length bs) s), m)"
    by (subst decode_loop_unfold) (simp add: pb_decode_tag_def ctry_def cbind_def cget_def cret_def)
qed

theorem decode_loop_ends_witness:
  "decode_loop person_env 0 (\<lambda>_ _. cub) (iter_at person_fields 40 0) [0, 0] 0 (pb_istream_from_buffer 1 (length [0x80 :: byte]))
      (byte_mem [0x80]) = Some (Ok (iter_at person_fields 40 0, [0, 0]),
        PB_SET_ERROR ''end-of-stream'' (eat (length [0x80 :: byte]) (pb_istream_from_buffer 1 (length [0x80 :: byte]))), byte_mem [0x80])"
  by (rule decode_loop_ends [THEN conjunct2, THEN conjunct2, rule_format])
    (use next_bytes_example [of "[0x80]"] in \<open>simp add: continues_iff only_bytes_def pb_istream_from_buffer_def\<close>)

text \<open> C15. Unknown fields: an item whose tag is not in the table is skipped, whatever its wire type,
  without touching memory or the set of required fields, and the loop goes on after it. \<close>

theorem unknown_field_skipped:
  assumes ok: "fields_ok fs" and ext: "\<forall>k < n_fields fs. PB_LTYPE (ftype (fs ! k)) \<noteq> PB_LTYPE_EXTENSION"
    and j: "pos_ok fs j" and t: "unat t < 2 ^ 29" "t \<noteq> 0" "\<forall>k < n_fields fs. tag (fs ! k) \<noteq> t"
    and wt: "wire_payload wt bs" and rs: "rs = 0 \<or> rs = -1" and nb: "next_bytes s m (wire_tag wt t @ bs)"
  shows "\<exists>i. pos_ok fs i \<and> decode_loop E d dsub (iter_at fs dest j) seen rs s m =
     decode_loop E d dsub (iter_at fs dest i) seen (-1) (eat (length (wire_tag wt t @ bs)) s) m"
proof -
  have wt8: "unat wt < 8" using wt by (auto simp: wire_payload_def)
  from nb have nb1: "next_bytes s m (wire_tag wt t)" and nb2: "next_bytes (eat (length (wire_tag wt t)) s) m bs"
    unfolding next_bytes_append by blast+
  have tag: "pb_decode_tag E s m = Some (Ok (True, wt, t, False), eat (length (wire_tag wt t)) s, m)"
    by (rule parsesD [OF parses_wire_tag [OF wt8 t(1,2)] nb1])
  have "0 < length (wire_tag wt t)" by (simp add: wire_tag_def)
  then have left: "bytes_left s \<noteq> 0" using nb1 unfolding next_bytes_def by linarith
  obtain b i where find: "pb_field_iter_find (iter_at fs dest j) t = Some (b, iter_at fs dest i)" "pos_ok fs i"
    and b: "b \<longrightarrow> tag_matches t (fs ! i)"
    using search_pos [OF ok j, of "tag_matches t" dest] by (auto simp: pb_field_iter_find_def)
  have "\<not> b"
  proof
    assume b': b
    show False
    proof (cases "n_fields fs = 0")
      case True
      then have "fs ! i = PB_LAST_FIELD" using fields_ok_last [OF ok] find(2) by (auto simp: pos_ok_def)
      with b b' t(2) show False by (simp add: tag_matches_def)
    next
      case False
      with find(2) have "i < n_fields fs" by (auto simp: pos_ok_def)
      with b b' t(3) show False by (auto simp: tag_matches_def)
    qed
  qed
  obtain i' where i': "pos_ok fs i'" "decode_unknown E d dsub t wt rs (iter_at fs dest i) =
     cbind (pb_skip_field E wt) (\<lambda>_. cret (iter_at fs dest i', -1))"
    using decode_unknown_eq [OF ok _ find(2) t(1), of rs E d dsub wt dest] ext rs by blast
  have skip: "pb_skip_field E wt (eat (length (wire_tag wt t)) s) m =
      Some (Ok (), eat (length bs) (eat (length (wire_tag wt t)) s), m)"
    by (rule parsesD [OF parses_skip_field [OF wt] nb2])
  have "decode_loop E d dsub (iter_at fs dest j) seen rs s m =
     decode_loop E d dsub (iter_at fs dest i') seen (-1) (eat (length bs) (eat (length (wire_tag wt t)) s)) m"
    using left tag find(1) \<open>\<not> b\<close> i'(2) skip
    by (subst decode_loop_unfold) (simp add: cbind_def cget_def cdef_def cret_def)
  with i'(1) show ?thesis by auto
qed

theorem unknown_field_skipped_witness:
  "\<exists>i. pos_ok person_fields i \<and>
     decode_loop person_env 0 (\<lambda>_ _. cub) (iter_at person_fields 40 0) [0, 0] 0
       (pb_istream_from_buffer 1 (length (wire_tag 0 9 @ [5]))) (byte_mem (wire_tag 0 9 @ [5])) =
     decode_loop person_env 0 (\<lambda>_ _. cub) (iter_at person_fields 40 i) [0, 0] (-1)
       (eat (length (wire_tag 0 9 @ [5])) (pb_istream_from_buffer 1 (length (wire_tag 0 9 @ [5])))) (byte_mem (wire_tag 0 9 @ [5]))"
proof (rule unknown_field_skipped [OF person_fields_ok _ _ _ _ _ _ _ next_bytes_example])
  show "\<forall>k < n_fields person_fields. PB_LTYPE (ftype (person_fields ! k)) \<noteq> PB_LTYPE_EXTENSION"
    unfolding person_n_fields less3 by (auto simp: person_nth person_nth [unfolded One_nat_def])
  show "\<forall>k < n_fields person_fields. tag (person_fields ! k) \<noteq> 9"
    unfolding person_n_fields less3 by (auto simp: person_nth person_nth [unfolded One_nat_def])
qed (simp_all add: pos_ok_def wire_payload_def continues_iff)

section \<open>Substreams\<close>

text \<open> A length-delimited field is read through a substream of exactly its length; whatever part
  of it was read, closing the substream leaves the parent right after the field. \<close>

theorem substream_exact:
  assumes len: "length cs < 2 ^ 32" and nb: "next_bytes s m (wire_string cs)" and k: "k \<le> length cs"
  shows "\<exists>sub s'. pb_make_string_substream E s m = Some (Ok sub, s', m) \<and>
     next_bytes sub m cs \<and> bytes_left sub = length cs \<and>
     pb_close_string_substream E (eat k sub) s' m = Some (Ok (), eat (length (wire_string cs)) s, m)"
proof -
  from nb have nb1: "next_bytes s m (leb128 (length cs))" and nb2: "next_bytes (eat (length (leb128 (length cs))) s) m cs"
    unfolding wire_string_def next_bytes_append by blast+
  have left: "length (leb128 (length cs)) + length cs \<le> bytes_left s"
    using nb by (simp add: next_bytes_def wire_string_def)
  let ?t = "eat (length (leb128 (length cs))) s"
  have mk: "pb_make_string_substream E s m =
      Some (Ok (?t\<lparr>bytes_left := length cs\<rparr>), ?t\<lparr>bytes_left := bytes_left ?t - length cs\<rparr>, m)"
    by (rule make_substream [OF nb1 len left])
  have sub: "next_bytes (?t\<lparr>bytes_left := length cs\<rparr>) m cs" "in_callback s = Buf_read"
    using nb2 nb1 by (simp_all add: next_bytes_def)
  show ?thesis
    unfolding mk using sub k
    by (auto simp: close_substream eat_def wire_string_def)
qed

theorem substream_exact_witness:
  "\<exists>sub s'. pb_make_string_substream person_env (pb_istream_from_buffer 1 (length (wire_string [7, 8])))
       (byte_mem (wire_string [7, 8])) = Some (Ok sub, s', byte_mem (wire_string [7, 8])) \<and>
     next_bytes sub (byte_mem (wire_string [7, 8])) [7, 8] \<and> bytes_left sub = length [7, 8 :: byte] \<and>
     pb_close_string_substream person_env (eat 1 sub) s' (byte_mem (wire_string [7, 8])) =
       Some (Ok (), eat (length (wire_string [7, 8])) (pb_istream_from_buffer 1 (length (wire_string [7, 8]))),
         byte_mem (wire_string [7, 8]))"
  by (rule substream_exact [OF _ next_bytes_example]) simp_all

end
